(* ===== verification/Prelude.thy ===== *)
theory Prelude
  imports Main "HOL-Library.Word"
begin

unbundle bit_operations_syntax

text \<open>
  Shared vocabulary of the development: the machine integers of the Rust code as words, the
  \<open>Result\<close> type as a sum with the error on the left and its monadic bind, and the lemmas on
  words, lists and results that several components use. The target is a 64-bit platform:
  \<open>usize\<close> is a natural number wherever it only counts or indexes, and \<open>as usize\<close> on a
  \<open>u64\<close> is \<open>unat\<close>.
\<close>

type_synonym u8 = "8 word"
type_synonym u32 = "32 word"
type_synonym u64 = "64 word"
type_synonym i64 = "64 word"
type_synonym bytes = "u8 list"

named_theorems result_simps \<open>rewriting of the bind and map of results\<close>
named_theorems codec_intros \<open>round trips of encoders and parsers\<close>

subsection \<open>Results\<close>

text \<open>The operator \<open>?\<close> of the source: stop at the first error, else go on with the value.\<close>

fun bind_res :: "'e + 'a \<Rightarrow> ('a \<Rightarrow> 'e + 'b) \<Rightarrow> 'e + 'b" where
  "bind_res (Inl e) f = Inl e"
| "bind_res (Inr a) f = f a"

fun map_res :: "('a \<Rightarrow> 'b) \<Rightarrow> 'e + 'a \<Rightarrow> 'e + 'b" where
  "map_res f (Inl e) = Inl e"
| "map_res f (Inr a) = Inr (f a)"

text \<open>\<open>map_err\<close>: rewrite the error and keep the value.\<close>

fun map_err :: "('e \<Rightarrow> 'f) \<Rightarrow> 'e + 'a \<Rightarrow> 'f + 'a" where
  "map_err f (Inl e) = Inl (f e)"
| "map_err f (Inr a) = Inr a"

lemma bind_res_Inr_iff [result_simps]:
  "bind_res r f = Inr b \<longleftrightarrow> (\<exists>a. r = Inr a \<and> f a = Inr b)"
  by (cases r) auto

lemma bind_res_Inl_iff [result_simps]:
  "bind_res r f = Inl e \<longleftrightarrow> r = Inl e \<or> (\<exists>a. r = Inr a \<and> f a = Inl e)"
  by (cases r) auto

lemma map_res_Inr_iff [result_simps]: "map_res f r = Inr b \<longleftrightarrow> (\<exists>a. r = Inr a \<and> b = f a)"
  by (cases r) auto

lemma map_err_Inr_iff [result_simps]: "map_err f r = Inr b \<longleftrightarrow> r = Inr b"
  by (cases r) auto

lemma map_err_Inl_iff [result_simps]: "map_err f r = Inl e \<longleftrightarrow> (\<exists>e'. r = Inl e' \<and> e = f e')"
  by (cases r) auto

lemma bind_res_assoc: "bind_res (bind_res r f) g = bind_res r (\<lambda>a. bind_res (f a) g)"
  by (cases r) auto

lemma bind_res_cong [fundef_cong]:
  "r = r' \<Longrightarrow> (\<And>a. r' = Inr a \<Longrightarrow> f a = g a) \<Longrightarrow> bind_res r f = bind_res r' g"
  by (cases r') auto

subsection \<open>Machine integers\<close>

lemma unat_eqI: "unat a = unat b \<Longrightarrow> a = b"
  by (rule unsigned_word_eqI)

lemma unat_u8_less: "unat (b :: u8) < 256"
  using unsigned_less [of b] by simp

lemma unat_u64_less: "unat (b :: u64) < 2 ^ 64"
  using unsigned_less [of b] by simp

lemma unat_and_mask_mod: "unat (w AND mask n :: 'a::len word) = unat w mod 2 ^ n"
proof -
  have "unat (w AND mask n) = take_bit n (unat w)"
    by (simp add: take_bit_eq_mask [symmetric] unsigned_take_bit_eq)
  then show ?thesis by (simp add: take_bit_eq_mod [of n "unat w"])
qed

lemma unat_and_7F: "unat (b AND 0x7F :: 'a::len word) = unat b mod 128"
proof -
  have "(0x7F :: 'a word) = mask 7"
    by (simp add: mask_eq_exp_minus_1)
  then show ?thesis
    using unat_and_mask_mod [of b 7] by simp
qed

lemma and_80_eq_0_iff: "b AND 0x80 = 0 \<longleftrightarrow> unat (b :: u8) < 128"
proof -
  have "(0x80 :: u8) = push_bit 7 1"
    by simp
  then have "b AND 0x80 = 0 \<longleftrightarrow> \<not> bit b 7"
    by (simp add: bit_iff_and_push_bit_not_eq_0)
  also have "bit b 7 = bit (unat b) 7"
    by (simp add: bit_unsigned_iff)
  also have "\<dots> = odd (unat b div 128)"
    by (simp add: bit_iff_odd)
  also have "odd (unat b div 128) \<longleftrightarrow> 128 \<le> unat b"
  proof -
    have "unat b div 128 < 2" using unat_u8_less [of b] by (simp add: less_mult_imp_div_less)
    then have "odd (unat b div 128) \<longleftrightarrow> unat b div 128 = 1" by (auto simp: less_2_cases_iff)
    also have "\<dots> \<longleftrightarrow> 128 \<le> unat b" using unat_u8_less [of b] by auto
    finally show ?thesis .
  qed
  finally show ?thesis by auto
qed

lemma unat_or_push_bit:
  fixes r :: "'a::len word"
  assumes "unat r < 2 ^ s"
  shows "unat (r OR push_bit s w) = unat r + unat (push_bit s w)"
proof -
  have r: "take_bit s r = r"
    using assms by (metis take_bit_nat_eq_self_iff unsigned_take_bit_eq word_eq_iff_unsigned)
  have "r AND push_bit s w = 0"
    by (rule bit_eqI, subst r [symmetric]) (auto simp: bit_simps)
  then have "unat r AND unat (push_bit s w) = 0"
    by (metis unsigned_0 unsigned_and_eq)
  then show ?thesis
    by (simp add: disjunctive_add_eq_or unsigned_or_eq)
qed

lemma or_push_bit_eq_add:
  fixes r :: "'a::len word"
  assumes "unat r < 2 ^ s"
  shows "r OR push_bit s w = r + w * 2 ^ s"
proof -
  have r: "take_bit s r = r"
    using assms by (metis take_bit_nat_eq_self_iff unsigned_take_bit_eq word_eq_iff_unsigned)
  have "r AND push_bit s w = 0"
    by (rule bit_eqI, subst r [symmetric]) (auto simp: bit_simps)
  then show ?thesis
    by (simp add: disjunctive_add_eq_or [symmetric] push_bit_eq_mult)
qed

lemma unat_or_80: "unat (b OR 0x80 :: u8) = unat b mod 128 + 128"
proof -
  have m: "(0x7F :: u8) = mask 7" by (simp add: mask_eq_exp_minus_1)
  have p: "(0x80 :: u8) = push_bit 7 1" by simp
  have "b OR 0x80 = (b AND 0x7F) OR 0x80"
    unfolding m p
  proof (rule bit_eqI)
    fix n assume "possible_bit TYPE(u8) n"
    then have "n < 8" by simp
    then have "n = 7 \<or> n < 7" by auto
    then show "bit (b OR push_bit 7 1) n = bit (b AND mask 7 OR push_bit 7 1) n"
      by (auto simp: bit_simps)
  qed
  then have "unat (b OR 0x80) = unat ((b AND 0x7F) OR push_bit 7 1)"
    by simp
  also have "\<dots> = unat (b AND 0x7F) + unat (push_bit 7 1 :: u8)"
    by (rule unat_or_push_bit) (simp add: unat_and_7F)
  finally show ?thesis
    by (simp add: unat_and_7F)
qed

lemma unat_u8_of_nat: "n < 256 \<Longrightarrow> unat (word_of_nat n :: u8) = n"
  by (simp add: unsigned_of_nat take_bit_nat_eq_self)

lemma unat_drop_bit_div: "unat (drop_bit n (w :: 'a::len word)) = unat w div 2 ^ n"
proof -
  have "take_bit LENGTH('a) (unat w) = unat w"
    by (simp add: take_bit_nat_eq_self)
  then show ?thesis
    by (simp add: unsigned_drop_bit_eq drop_bit_eq_div [of n "unat w"])
qed

lemma unat_push_bit_small:
  fixes w :: "'a::len word"
  assumes "unat w * 2 ^ s < 2 ^ LENGTH('a)"
  shows "unat (push_bit s w) = unat w * 2 ^ s"
proof -
  have "unat (push_bit s w) = take_bit LENGTH('a) (unat w * 2 ^ s)"
    by (simp add: unsigned_push_bit_eq push_bit_eq_mult [of s "unat w"])
  then show ?thesis
    using assms by (simp add: take_bit_nat_eq_self)
qed

lemma sint_i64_bounds: "- (2 ^ 63) \<le> sint (v :: i64)" "sint (v :: i64) < 2 ^ 63"
  using sint_greater_eq [of v] sint_less [of v] by simp_all

lemma sint_nonneg_unat: "0 \<le> sint (v :: i64) \<Longrightarrow> unat v = nat (sint v)"
proof -
  assume "0 \<le> sint v"
  moreover have "uint v = sint v mod 2 ^ 64" by (simp add: uint_sint take_bit_eq_mod)
  ultimately have "uint v = sint v" using sint_i64_bounds [of v] by simp
  then show ?thesis by (simp add: unat_eq_nat_uint)
qed

lemma unat_u32_less: "unat (v :: u32) < 2 ^ 32"
  using unsigned_less [of v] by simp

lemma unat_ucast_u32 [simp]: "unat (ucast (v :: u32) :: u64) = unat v"
  using unat_u32_less [of v] by (simp add: unsigned_ucast_eq take_bit_nat_eq_self)

end
