(* ===== verification/Ids.thy ===== *)
theory Ids
  imports Prelude "HOL-Library.List_Lexorder"
begin

text \<open>
  The identifiers of \<open>types.rs\<close>: change hashes and actor ids ordered as their bytes, operation
  ids as pairs of counter and actor index with the derived lexicographic order, and object and
  element ids over them. An actor is an index into the sorted table of actors of a document;
  inserting or removing an actor renumbers the operation ids.
\<close>

subsection \<open>Hashes and actors\<close>

datatype change_hash = ChangeHash (hash_bytes: bytes)

datatype actor_id = ActorId (actor_bytes: bytes)

definition hash_size :: nat where
  "hash_size = 32"

definition hash_ok :: "change_hash \<Rightarrow> bool" where
  "hash_ok h \<longleftrightarrow> length (hash_bytes h) = hash_size"

instantiation change_hash :: linorder
begin

definition less_eq_change_hash :: "change_hash \<Rightarrow> change_hash \<Rightarrow> bool" where
  "a \<le> b \<longleftrightarrow> hash_bytes a \<le> hash_bytes b"

definition less_change_hash :: "change_hash \<Rightarrow> change_hash \<Rightarrow> bool" where
  "a < b \<longleftrightarrow> hash_bytes a < hash_bytes b"

instance
  by standard (auto simp: less_eq_change_hash_def less_change_hash_def change_hash.expand)

end

instantiation actor_id :: linorder
begin

definition less_eq_actor_id :: "actor_id \<Rightarrow> actor_id \<Rightarrow> bool" where
  "a \<le> b \<longleftrightarrow> actor_bytes a \<le> actor_bytes b"

definition less_actor_id :: "actor_id \<Rightarrow> actor_id \<Rightarrow> bool" where
  "a < b \<longleftrightarrow> actor_bytes a < actor_bytes b"

instance
  by standard (auto simp: less_eq_actor_id_def less_actor_id_def actor_id.expand)

end

text \<open>\<open>ChangeHash::checksum\<close> indexes the 32-byte array; \<open>TryFrom<&[u8]>\<close> checks the length.\<close>

definition hash_checksum :: "change_hash \<Rightarrow> bytes" where
  "hash_checksum h = [hash_bytes h ! 0, hash_bytes h ! 1, hash_bytes h ! 2, hash_bytes h ! 3]"

datatype invalid_change_hash_slice = InvalidChangeHashSlice bytes

definition change_hash_try_from :: "bytes \<Rightarrow> invalid_change_hash_slice + change_hash" where
  "change_hash_try_from b = (if length b \<noteq> hash_size then Inl (InvalidChangeHashSlice b)
     else Inr (ChangeHash b))"

subsection \<open>Errors of the document API that the model uses\<close>

datatype automerge_error =
    InvalidActorIndex nat
  | InvalidSeq u64
  | MissingDep change_hash
  | MissingHash change_hash
  | DuplicateSeqNumber u64 actor_id
  | InvalidCursorOp
  | InvalidCursorFormat
  | LoadError
  | MissingDeps

subsection \<open>Operation ids\<close>

datatype op_id = OpId (op_counter: u32) (op_actor: u32)

instantiation op_id :: linorder
begin

definition less_eq_op_id :: "op_id \<Rightarrow> op_id \<Rightarrow> bool" where
  "a \<le> b \<longleftrightarrow> op_counter a < op_counter b \<or> op_counter a = op_counter b \<and> op_actor a \<le> op_actor b"

definition less_op_id :: "op_id \<Rightarrow> op_id \<Rightarrow> bool" where
  "a < b \<longleftrightarrow> op_counter a < op_counter b \<or> op_counter a = op_counter b \<and> op_actor a < op_actor b"

instance
  by standard (auto simp: less_eq_op_id_def less_op_id_def op_id.expand)

end

definition actor_idx :: "op_id \<Rightarrow> nat" where
  "actor_idx o' = unat (op_actor o')"

definition counter :: "op_id \<Rightarrow> u64" where
  "counter o' = ucast (op_counter o')"

definition opid_new :: "u64 \<Rightarrow> nat \<Rightarrow> op_id option" where
  "opid_new c a = (if unat c < 2 ^ 32 \<and> a < 2 ^ 32 then Some (OpId (ucast c) (word_of_nat a)) else None)"

definition with_new_actor :: "op_id \<Rightarrow> nat \<Rightarrow> op_id" where
  "with_new_actor o' idx = (if actor_idx o' \<ge> idx then OpId (op_counter o') (op_actor o' + 1) else o')"

definition without_actor :: "op_id \<Rightarrow> nat \<Rightarrow> op_id option" where
  "without_actor o' idx =
     (if actor_idx o' > idx then Some (OpId (op_counter o') (op_actor o' - 1))
      else if actor_idx o' = idx then None
      else Some o')"

definition opid_map :: "op_id \<Rightarrow> nat list \<Rightarrow> automerge_error + op_id" where
  "opid_map o' actor_map =
     (if actor_idx o' < length actor_map
      then Inr (OpId (op_counter o') (word_of_nat (actor_map ! actor_idx o')))
      else Inl (InvalidActorIndex (actor_idx o')))"

definition opid_prev :: "op_id \<Rightarrow> op_id" where
  "opid_prev o' = OpId (op_counter o' - 1) (op_actor o')"

definition opid_minus :: "op_id \<Rightarrow> nat \<Rightarrow> op_id" where
  "opid_minus o' n = OpId (op_counter o' - word_of_nat n) (op_actor o')"

definition opid_next :: "op_id \<Rightarrow> op_id" where
  "opid_next o' = OpId (op_counter o' + 1) (op_actor o')"

subsection \<open>Object and element ids\<close>

datatype obj_id = ObjId (obj_op: op_id)

datatype elem_id = ElemId (elem_op: op_id)

definition obj_root :: obj_id where
  "obj_root = ObjId (OpId 0 0)"

definition is_root :: "obj_id \<Rightarrow> bool" where
  "is_root ob \<longleftrightarrow> counter (obj_op ob) = 0"

definition obj_with_new_actor :: "obj_id \<Rightarrow> nat \<Rightarrow> obj_id" where
  "obj_with_new_actor ob idx = (if is_root ob then ob else ObjId (with_new_actor (obj_op ob) idx))"

definition obj_without_actor :: "obj_id \<Rightarrow> nat \<Rightarrow> obj_id option" where
  "obj_without_actor ob idx =
     (if is_root ob then Some ob else map_option ObjId (without_actor (obj_op ob) idx))"

text \<open>\<open>ObjId::load\<close>; the outer option is the panic of \<open>OpId::new\<close>.\<close>

definition obj_load :: "u64 option \<Rightarrow> u32 option \<Rightarrow> obj_id option option" where
  "obj_load c a = (case (c, a) of
     (Some c', Some a') \<Rightarrow> map_option (\<lambda>o'. Some (ObjId o')) (opid_new c' (unat a'))
   | (None, None) \<Rightarrow> Some (Some obj_root)
   | _ \<Rightarrow> Some None)"

definition obj_map :: "obj_id \<Rightarrow> nat list \<Rightarrow> automerge_error + obj_id" where
  "obj_map ob actor_map =
     (if is_root ob then Inr ob else map_res ObjId (opid_map (obj_op ob) actor_map))"

definition obj_op_id :: "obj_id \<Rightarrow> op_id option" where
  "obj_op_id ob = (if is_root ob then None else Some (obj_op ob))"

definition obj_counter :: "obj_id \<Rightarrow> u64 option" where
  "obj_counter ob = (if is_root ob then None else Some (counter (obj_op ob)))"

definition obj_actor :: "obj_id \<Rightarrow> u32 option" where
  "obj_actor ob = (if is_root ob then None else Some (op_actor (obj_op ob)))"

definition elem_head :: elem_id where
  "elem_head = ElemId (OpId 0 0)"

definition is_head :: "elem_id \<Rightarrow> bool" where
  "is_head e \<longleftrightarrow> e = elem_head"

definition elem_map :: "elem_id \<Rightarrow> nat list \<Rightarrow> automerge_error + elem_id" where
  "elem_map e actor_map =
     (if is_head e then Inr e else map_res ElemId (opid_map (elem_op e) actor_map))"

definition elem_actor :: "elem_id \<Rightarrow> u32 option" where
  "elem_actor e = (if is_head e then None else Some (op_actor (elem_op e)))"

subsection \<open>Renumbering actors\<close>

lemma actor_idx_less: "actor_idx o' < 2 ^ 32"
  using unsigned_less [of "op_actor o'"] by (simp add: actor_idx_def)

lemma actor_idx_with_new_actor:
  assumes "actor_idx o' < 2 ^ 32 - 1"
  shows "actor_idx (with_new_actor o' idx) = (if actor_idx o' \<ge> idx then Suc (actor_idx o') else actor_idx o')"
proof -
  have "unat (op_actor o' + 1) = Suc (unat (op_actor o'))"
    using assms unat_add_lem [of "op_actor o'" 1] by (simp add: actor_idx_def)
  then show ?thesis by (simp add: with_new_actor_def actor_idx_def)
qed

lemma op_id_eqI: "op_counter a = op_counter b \<Longrightarrow> actor_idx a = actor_idx b \<Longrightarrow> a = b"
  by (cases a; cases b) (auto simp: actor_idx_def intro: unsigned_word_eqI)

lemma less_op_id_idx:
  "a < b \<longleftrightarrow> op_counter a < op_counter b \<or> op_counter a = op_counter b \<and> actor_idx a < actor_idx b"
  by (simp add: less_op_id_def actor_idx_def word_less_nat_alt)

text \<open>Inserting an actor keeps the order of operation ids and can be undone.\<close>

lemma with_new_actor_counter [simp]: "op_counter (with_new_actor o' idx) = op_counter o'"
  by (simp add: with_new_actor_def)

lemma with_new_actor_strict_mono:
  assumes "actor_idx a < 2 ^ 32 - 1" and "actor_idx b < 2 ^ 32 - 1"
  shows "with_new_actor a idx < with_new_actor b idx \<longleftrightarrow> a < b"
  using assms by (auto simp: less_op_id_idx actor_idx_with_new_actor)

lemma without_with_new_actor:
  assumes "actor_idx o' < 2 ^ 32 - 1"
  shows "without_actor (with_new_actor o' idx) idx = Some o'"
proof (cases "actor_idx o' \<ge> idx")
  case True
  with assms have "actor_idx (with_new_actor o' idx) > idx"
    by (simp add: actor_idx_with_new_actor)
  with True show ?thesis
    by (simp add: without_actor_def) (simp add: with_new_actor_def)
next
  case False
  then show ?thesis by (simp add: without_actor_def with_new_actor_def)
qed

lemma opid_map_strict_mono:
  assumes "strict_mono_on {..< length m} (\<lambda>k. m ! k)" and "\<forall>k < length m. m ! k < 2 ^ 32"
    and "opid_map a m = Inr a'" and "opid_map b m = Inr b'"
  shows "a' < b' \<longleftrightarrow> a < b"
proof -
  have i: "actor_idx a < length m" "actor_idx b < length m"
    and a': "a' = OpId (op_counter a) (word_of_nat (m ! actor_idx a))"
    and b': "b' = OpId (op_counter b) (word_of_nat (m ! actor_idx b))"
    using assms(3,4) by (auto simp: opid_map_def split: if_splits)
  then have "actor_idx a' = m ! actor_idx a" "actor_idx b' = m ! actor_idx b"
    using assms(2) by (auto simp: actor_idx_def unsigned_of_nat take_bit_nat_eq_self)
  moreover have "m ! actor_idx a < m ! actor_idx b \<longleftrightarrow> actor_idx a < actor_idx b"
    using strict_mono_on_less [OF assms(1)] i by simp
  ultimately show ?thesis by (simp add: less_op_id_idx a' b')
qed


text \<open>Making room for an actor at any position of the actor table renumbers operation ids without
  changing their order, and removing the actor at that position undoes the renumbering.\<close>

theorem actor_insertion_order_and_undo:
  assumes "actor_idx a < 2 ^ 32 - 1" and "actor_idx b < 2 ^ 32 - 1"
  shows "(with_new_actor a idx < with_new_actor b idx \<longleftrightarrow> a < b)
    \<and> without_actor (with_new_actor a idx) idx = Some a \<and> actor_idx (with_new_actor a idx) \<noteq> idx"
  using assms by (simp add: with_new_actor_strict_mono without_with_new_actor actor_idx_with_new_actor)

theorem actor_insertion_order_and_undo_witness:
  "(with_new_actor (OpId 3 1) 1 < with_new_actor (OpId 3 4) 1 \<longleftrightarrow> OpId 3 1 < OpId 3 4)
    \<and> without_actor (with_new_actor (OpId 3 1) 1) 1 = Some (OpId 3 1)
    \<and> actor_idx (with_new_actor (OpId 3 1) 1) \<noteq> 1"
  by (rule actor_insertion_order_and_undo) (simp_all add: actor_idx_def)

text \<open>Renumbering operation ids by an increasing table of 32-bit actor indexes keeps their order.\<close>

theorem opid_map_keeps_order:
  assumes "strict_mono_on {..< length m} (\<lambda>k. m ! k)" and "\<forall>k < length m. m ! k < 2 ^ 32"
    and "opid_map a m = Inr a'" and "opid_map b m = Inr b'"
  shows "a' < b' \<longleftrightarrow> a < b"
  by (rule opid_map_strict_mono [OF assms])

theorem opid_map_keeps_order_witness:
  "OpId 7 2 < OpId 7 5 \<longleftrightarrow> OpId 7 0 < OpId 7 1"
  by (rule opid_map_keeps_order [of "[2, 5]"])
    (auto simp: strict_mono_on_def opid_map_def actor_idx_def less_Suc_eq)

end
