(* ===== verification/Clock.thy ===== *)
theory Clock
  imports Ids "HOL-Library.Option_ord"
begin

text \<open>
  The clocks of \<open>clock.rs\<close>: a \<open>SeqClock\<close> holds, per actor, the last sequence number seen, a
  \<open>Clock\<close> the last operation counter. The order of \<open>Option\<close> puts \<open>None\<close> first in Rust as
  in \<open>Option_ord\<close>. Indexing past the end panics, which is \<open>None\<close>.
\<close>

subsection \<open>Vectors\<close>

text \<open>\<open>Vec::insert\<close>, \<open>Vec::remove\<close> and indexing, which panic out of range.\<close>

definition vec_insert :: "nat \<Rightarrow> 'a \<Rightarrow> 'a list \<Rightarrow> 'a list option" where
  "vec_insert i x xs = (if i \<le> length xs then Some (take i xs @ x # drop i xs) else None)"

definition vec_remove :: "nat \<Rightarrow> 'a list \<Rightarrow> 'a list option" where
  "vec_remove i xs = (if i < length xs then Some (take i xs @ drop (Suc i) xs) else None)"

definition vec_at :: "'a list \<Rightarrow> nat \<Rightarrow> 'a option" where
  "vec_at xs i = (if i < length xs then Some (xs ! i) else None)"

lemma vec_at_Some_iff: "vec_at xs i = Some x \<longleftrightarrow> i < length xs \<and> xs ! i = x"
  by (auto simp: vec_at_def)

lemma vec_remove_insert: "vec_insert i x xs = Some ys \<Longrightarrow> vec_remove i ys = Some xs"
  by (auto simp: vec_insert_def vec_remove_def min_def split: if_splits)

subsection \<open>Sequence clocks\<close>

type_synonym seq_clock = "u32 option list"

definition seq_clock_new :: "nat \<Rightarrow> seq_clock" where
  "seq_clock_new n = replicate n None"

definition seq_clock_remove_actor :: "seq_clock \<Rightarrow> nat \<Rightarrow> seq_clock option" where
  "seq_clock_remove_actor c idx = vec_remove idx c"

definition rewrite_with_new_actor :: "seq_clock \<Rightarrow> nat \<Rightarrow> seq_clock option" where
  "rewrite_with_new_actor c idx = vec_insert idx None c"

definition get_for_actor :: "seq_clock \<Rightarrow> nat \<Rightarrow> u32 option" where
  "get_for_actor c idx = Option.bind (vec_at c idx) id"

text \<open>\<open>NonZeroU32::try_from(data).ok()\<close>.\<close>

definition nonzero_u32 :: "u32 \<Rightarrow> u32 option" where
  "nonzero_u32 d = (if d = 0 then None else Some d)"

definition seq_clock_include :: "seq_clock \<Rightarrow> nat \<Rightarrow> u32 option \<Rightarrow> (seq_clock \<times> bool) option" where
  "seq_clock_include c idx data = (case data of
     None \<Rightarrow> Some (c, False)
   | Some d \<Rightarrow> Option.bind (vec_at c idx) (\<lambda>old. case old of
        None \<Rightarrow> Some (c[idx := nonzero_u32 d], True)
      | Some old_data \<Rightarrow>
          if old_data < d then Some (c[idx := nonzero_u32 d], True) else Some (c, False)))"

fun seq_clock_merge :: "seq_clock \<Rightarrow> seq_clock \<Rightarrow> seq_clock" where
  "seq_clock_merge (a # as) (b # bs) = (if a < b then b else a) # seq_clock_merge as bs"
| "seq_clock_merge as bs = as"

subsection \<open>Clocks\<close>

type_synonym clock = "u32 list"

definition clock_from_iter :: "u32 option list \<Rightarrow> clock" where
  "clock_from_iter xs = map (\<lambda>i. case i of Some v \<Rightarrow> v | None \<Rightarrow> 0) xs"

definition clock_isolate :: "clock \<Rightarrow> nat \<Rightarrow> clock option" where
  "clock_isolate c idx = (if idx < length c then Some (c[idx := - 1]) else None)"

definition clock_covers :: "clock \<Rightarrow> op_id \<Rightarrow> bool option" where
  "clock_covers c o' = map_option (\<lambda>n. counter o' \<le> ucast n) (vec_at c (actor_idx o'))"

datatype clock_range = Current "clock option" | Diff clock clock

definition default_clock_range :: clock_range where
  "default_clock_range = Current None"

definition current_clock_range :: "clock option \<Rightarrow> clock_range" where
  "current_clock_range c = Current c"

fun range_after :: "clock_range \<Rightarrow> clock option" where
  "range_after (Diff _ after) = Some after"
| "range_after (Current (Some after)) = Some after"
| "range_after (Current None) = None"

fun visible_after :: "clock_range \<Rightarrow> op_id \<Rightarrow> bool option" where
  "visible_after (Current (Some after)) o' = clock_covers after o'"
| "visible_after (Diff _ after) o' = clock_covers after o'"
| "visible_after (Current None) o' = Some True"

fun predates :: "clock_range \<Rightarrow> op_id \<Rightarrow> bool option" where
  "predates (Diff before _) o' = clock_covers before o'"
| "predates (Current _) o' = Some False"

definition visible_before :: "clock_range \<Rightarrow> op_id \<Rightarrow> bool option" where
  "visible_before r o' = predates r o'"

subsection \<open>Merging is the pointwise maximum\<close>

lemma length_seq_clock_merge [simp]: "length (seq_clock_merge a b) = length a"
  by (induction a b rule: seq_clock_merge.induct) simp_all

lemma seq_clock_merge_nth:
  "i < length a \<Longrightarrow> i < length b \<Longrightarrow> seq_clock_merge a b ! i = max (a ! i) (b ! i)"
proof (induction a b arbitrary: i rule: seq_clock_merge.induct)
  case (1 a as b bs)
  then show ?case by (cases i) (auto simp: max_def)
qed simp_all

lemma seq_clock_include_max:
  assumes "idx < length c" and "d \<noteq> 0"
  shows "\<exists>changed. seq_clock_include c idx (Some d) = Some (c[idx := max (c ! idx) (Some d)], changed)"
  using assms
  by (cases "c ! idx")
    (auto simp: seq_clock_include_def vec_at_def nonzero_u32_def max_def less_option_def less_eq_option_def
      split: if_splits intro: list_update_same_conv [THEN iffD2, symmetric])

end
