(* ===== verification/Parse_Input.thy ===== *)
theory Parse_Input
  imports Prelude
begin

text \<open>
  The input type of the parser combinators (\<open>storage/parse.rs\<close>): the unread bytes, the position
  reached, and the slice the input was cut from. A slice expression that would be out of range
  panics in Rust; here it is \<open>None\<close>. The two locales at the end are the contracts every parser
  of the storage and sync formats is shown to meet.
\<close>

record input =
  inp_bytes :: bytes
  inp_position :: nat
  inp_original :: bytes

datatype needed = Unknown | Size nat

datatype 'e parse_error = PError 'e | Incomplete needed

type_synonym ('o, 'e) parse_result = "'e parse_error + input \<times> 'o"

text \<open>\<open>ParseError::lift\<close>, with the \<open>From\<close> conversion as an argument.\<close>

fun lift_err :: "('e \<Rightarrow> 'f) \<Rightarrow> 'e parse_error \<Rightarrow> 'f parse_error" where
  "lift_err conv (PError e) = PError (conv e)"
| "lift_err conv (Incomplete n) = Incomplete n"

definition new_input :: "bytes \<Rightarrow> input" where
  "new_input b = \<lparr>inp_bytes = b, inp_position = 0, inp_original = b\<rparr>"

definition empty_input :: input where
  "empty_input = \<lparr>inp_bytes = [], inp_position = 0, inp_original = []\<rparr>"

definition take_1 :: "input \<Rightarrow> (u8, 'e) parse_result" where
  "take_1 i = (let need = 1 - length (inp_bytes i) in
     if need \<noteq> 0 then Inl (Incomplete (Size need))
     else Inr (\<lparr>inp_bytes = drop 1 (inp_bytes i), inp_position = inp_position i + 1,
                inp_original = inp_original i\<rparr>, inp_bytes i ! 0))"

definition take_n :: "nat \<Rightarrow> input \<Rightarrow> (bytes, 'e) parse_result" where
  "take_n n i = (let need = n - length (inp_bytes i) in
     if need \<noteq> 0 then Inl (Incomplete (Size need))
     else Inr (\<lparr>inp_bytes = drop n (inp_bytes i), inp_position = inp_position i + n,
                inp_original = inp_original i\<rparr>, take n (inp_bytes i)))"

definition take_4 :: "input \<Rightarrow> (bytes, 'e) parse_result" where
  "take_4 i = (let need = 4 - length (inp_bytes i) in
     if need \<noteq> 0 then Inl (Incomplete (Size need))
     else Inr (\<lparr>inp_bytes = drop 4 (inp_bytes i), inp_position = inp_position i + 4,
                inp_original = inp_original i\<rparr>, take 4 (inp_bytes i)))"

text \<open>A range \<open>a..b\<close> of positions, and the value parsed from it.\<close>

record 'o range_val =
  rv_range :: "nat \<times> nat"
  rv_value :: 'o

definition range_of :: "(input \<Rightarrow> ('o, 'e) parse_result) \<Rightarrow> input \<Rightarrow> ('o range_val, 'e) parse_result"
  where
  "range_of p i = bind_res (p i) (\<lambda>(i', v).
     Inr (i', \<lparr>rv_range = (inp_position i, inp_position i'), rv_value = v\<rparr>))"

definition range_only :: "(input \<Rightarrow> ('o, 'e) parse_result) \<Rightarrow> input \<Rightarrow> (nat \<times> nat, 'e) parse_result"
  where
  "range_only p i = map_res (\<lambda>(i', r). (i', rv_range r)) (range_of p i)"

definition range_only_unless_empty ::
  "(input \<Rightarrow> ('o, 'e) parse_result) \<Rightarrow> input \<Rightarrow> (nat \<times> nat, 'e) parse_result" where
  "range_only_unless_empty p i = (if inp_bytes i = [] then Inr (i, (0, 0)) else range_only p i)"

definition rest_in :: "input \<Rightarrow> (bytes, 'e) parse_result" where
  "rest_in i = (let position = inp_position i + length (inp_bytes i) in
     Inr (\<lparr>inp_bytes = [], inp_position = position, inp_original = inp_original i\<rparr>, inp_bytes i))"

text \<open>The slices \<open>&xs[..n]\<close> and \<open>&xs[n..]\<close>.\<close>

definition slice_to :: "'a list \<Rightarrow> nat \<Rightarrow> 'a list option" where
  "slice_to xs n = (if n \<le> length xs then Some (take n xs) else None)"

definition slice_from :: "'a list \<Rightarrow> nat \<Rightarrow> 'a list option" where
  "slice_from xs n = (if n \<le> length xs then Some (drop n xs) else None)"

definition truncate_in :: "input \<Rightarrow> nat \<Rightarrow> input option" where
  "truncate_in i len = (let len' = (if len > length (inp_bytes i) then length (inp_bytes i) else len) in
     Option.bind (slice_to (inp_bytes i) len') (\<lambda>b.
     Option.bind (slice_to (inp_original i) (inp_position i + len')) (\<lambda>orig.
     Some \<lparr>inp_bytes = b, inp_position = inp_position i, inp_original = orig\<rparr>)))"

definition skip_in :: "input \<Rightarrow> nat \<Rightarrow> input option" where
  "skip_in i len =
     (if len > length (inp_bytes i)
      then Some \<lparr>inp_bytes = [], inp_position = length (inp_bytes i), inp_original = inp_original i\<rparr>
      else Option.bind (slice_from (inp_bytes i) len) (\<lambda>b.
           Option.bind (slice_from (inp_original i) (inp_position i + len)) (\<lambda>orig.
           Some \<lparr>inp_bytes = b, inp_position = inp_position i + len, inp_original = orig\<rparr>)))"

record split_input =
  sp_first :: input
  sp_remaining :: input

definition split_in :: "input \<Rightarrow> nat \<Rightarrow> split_input option" where
  "split_in i len = Option.bind (truncate_in i len) (\<lambda>f. Option.bind (skip_in i len) (\<lambda>r.
     Some \<lparr>sp_first = f, sp_remaining = r\<rparr>))"

definition reset_in :: "input \<Rightarrow> input" where
  "reset_in i = new_input (inp_bytes i)"

definition is_empty_in :: "input \<Rightarrow> bool" where
  "is_empty_in i \<longleftrightarrow> inp_bytes i = []"

definition unconsumed_bytes :: "input \<Rightarrow> bytes" where
  "unconsumed_bytes i = inp_bytes i"

subsection \<open>Well-formed inputs and how they advance\<close>

text \<open>The unread bytes are the original slice from the position on.\<close>

definition input_wf :: "input \<Rightarrow> bool" where
  "input_wf i \<longleftrightarrow> inp_position i \<le> length (inp_original i)
     \<and> inp_bytes i = drop (inp_position i) (inp_original i)"

definition advance :: "input \<Rightarrow> nat \<Rightarrow> input" where
  "advance i n = i\<lparr>inp_bytes := drop n (inp_bytes i), inp_position := inp_position i + n\<rparr>"

lemma advance_sel [simp]:
  "inp_bytes (advance i n) = drop n (inp_bytes i)"
  "inp_position (advance i n) = inp_position i + n"
  "inp_original (advance i n) = inp_original i"
  by (simp_all add: advance_def)

lemma advance_0 [simp]: "advance i 0 = i"
  by (simp add: advance_def)

lemma advance_advance [simp]: "advance (advance i m) n = advance i (m + n)"
  by (simp add: advance_def add.commute add.left_commute)

lemma new_input_sel [simp]:
  "inp_bytes (new_input b) = b" "inp_position (new_input b) = 0" "inp_original (new_input b) = b"
  by (simp_all add: new_input_def)

lemma wf_new_input [simp, intro]: "input_wf (new_input b)"
  by (simp add: input_wf_def)

lemma wf_reset [simp, intro]: "input_wf (reset_in i)"
  by (simp add: reset_in_def)

lemma wf_advance [intro]: "input_wf i \<Longrightarrow> n \<le> length (inp_bytes i) \<Longrightarrow> input_wf (advance i n)"
  by (auto simp: input_wf_def add.commute)

lemma take_n_eq:
  "take_n n i = (if n \<le> length (inp_bytes i) then Inr (advance i n, take n (inp_bytes i))
                 else Inl (Incomplete (Size (n - length (inp_bytes i)))))"
  by (simp add: take_n_def advance_def Let_def)

lemma take_4_eq: "take_4 i = take_n 4 i"
  by (simp add: take_4_def take_n_def)

lemma take_1_eq:
  "take_1 i = (case inp_bytes i of [] \<Rightarrow> Inl (Incomplete (Size 1)) | b # bs \<Rightarrow> Inr (advance i 1, b))"
  by (simp add: take_1_def advance_def Let_def split: list.splits)

lemma take_1_Cons: "inp_bytes i = b # bs \<Longrightarrow> take_1 i = Inr (advance i 1, b)"
  by (simp add: take_1_eq)

lemma take_1_Inr_iff:
  "take_1 i = Inr (i', b) \<longleftrightarrow> (\<exists>bs. inp_bytes i = b # bs \<and> i' = advance i 1)"
  by (auto simp: take_1_eq split: list.splits)

lemma truncate_in_wf:
  assumes "input_wf i"
  shows "truncate_in i n = Some \<lparr>inp_bytes = take n (inp_bytes i), inp_position = inp_position i,
           inp_original = take (inp_position i + n) (inp_original i)\<rparr>"
  using assms by (auto simp: truncate_in_def slice_to_def input_wf_def Let_def min_def)

text \<open>
  On a well-formed input neither slice expression of \<open>split\<close> panics, and the first part is again
  well formed; the second keeps the old position over a shortened original.
\<close>

lemma split_in_wf:
  assumes "input_wf i" and "n \<le> length (inp_bytes i)"
  shows "split_in i n = Some
    \<lparr>sp_first = \<lparr>inp_bytes = take n (inp_bytes i), inp_position = inp_position i,
       inp_original = take (inp_position i + n) (inp_original i)\<rparr>,
     sp_remaining = \<lparr>inp_bytes = drop n (inp_bytes i), inp_position = inp_position i + n,
       inp_original = drop n (inp_bytes i)\<rparr>\<rparr>"
  using assms
  by (auto simp: split_in_def truncate_in_wf skip_in_def slice_from_def input_wf_def add.commute)

subsection \<open>The contracts of parsers\<close>

text \<open>
  A parser that succeeds has read a prefix of its input: it returns the same input, advanced. A
  codec is a parser that reads back what an encoder wrote, whatever follows, on the valid values.
\<close>

locale parser =
  fixes p :: "input \<Rightarrow> ('o, 'e) parse_result"
  assumes consumes: "p i = Inr (i', v) \<Longrightarrow> \<exists>n \<le> length (inp_bytes i). i' = advance i n"
begin

lemma suffix: "p i = Inr (i', v) \<Longrightarrow> \<exists>pre. inp_bytes i = pre @ inp_bytes i'"
  using consumes by (metis advance_sel(1) append_take_drop_id)

lemma original: "p i = Inr (i', v) \<Longrightarrow> inp_original i' = inp_original i"
  using consumes by (metis advance_sel(3))

lemma position:
  "p i = Inr (i', v) \<Longrightarrow> inp_position i' + length (inp_bytes i') = inp_position i + length (inp_bytes i)"
  using consumes [of i i' v] by auto

lemma wf: "p i = Inr (i', v) \<Longrightarrow> input_wf i \<Longrightarrow> input_wf i'"
  using consumes [of i i' v] by (auto intro: wf_advance)

lemma range_of_slice:
  assumes "input_wf i" and "range_of p i = Inr (i', rv)"
  shows "\<exists>a b. rv_range rv = (a, b) \<and> a \<le> b \<and> b \<le> length (inp_original i)
     \<and> inp_bytes i = take (b - a) (drop a (inp_original i)) @ inp_bytes i'"
proof -
  from assms(2) obtain v where v: "p i = Inr (i', v)"
    and rv: "rv = \<lparr>rv_range = (inp_position i, inp_position i'), rv_value = v\<rparr>"
    by (auto simp: range_of_def result_simps)
  from consumes [OF v] obtain n where n: "n \<le> length (inp_bytes i)" "i' = advance i n" by blast
  have "take n (drop (inp_position i) (inp_original i)) @ inp_bytes i' = inp_bytes i"
    using assms(1) n by (simp add: input_wf_def add.commute flip: drop_drop)
  then show ?thesis
    using assms(1) n by (auto simp: rv input_wf_def)
qed

end

locale codec =
  fixes enc :: "'a \<Rightarrow> bytes"
    and dec :: "input \<Rightarrow> ('a, 'e) parse_result"
    and valid :: "'a \<Rightarrow> bool"
  assumes dec_enc:
    "valid x \<Longrightarrow> inp_bytes i = enc x @ rest \<Longrightarrow> dec i = Inr (advance i (length (enc x)), x)"
begin

lemma dec_new: "valid x \<Longrightarrow> dec (new_input (enc x @ rest)) = Inr (advance (new_input (enc x @ rest)) (length (enc x)), x)"
  by (rule dec_enc) simp_all

lemma enc_prefix_inj:
  assumes "valid x" "valid y" "enc x @ r = enc y @ s"
  shows "x = y \<and> r = s"
proof -
  have "dec (new_input (enc x @ r)) = Inr (advance (new_input (enc x @ r)) (length (enc x)), x)"
    by (rule dec_new [OF assms(1)])
  moreover have "dec (new_input (enc x @ r)) = Inr (advance (new_input (enc x @ r)) (length (enc y)), y)"
    by (rule dec_enc [OF assms(2)]) (simp add: assms(3))
  ultimately show ?thesis using assms(3) by auto
qed

lemma enc_inj: "valid x \<Longrightarrow> valid y \<Longrightarrow> enc x = enc y \<Longrightarrow> x = y"
  using enc_prefix_inj [of x y "[]" "[]"] by simp

end

interpretation take_1: parser take_1
  by unfold_locales (fastforce simp: take_1_Inr_iff intro: exI [of _ 1])

interpretation take_n: parser "take_n n" for n
  by unfold_locales (auto simp: take_n_eq split: if_splits)

interpretation take_1_codec: codec "\<lambda>b. [b]" take_1 "\<lambda>_. True"
  by unfold_locales (simp add: take_1_Cons)

interpretation take_n_codec: codec "\<lambda>b. b" "take_n n" "\<lambda>b. length b = n" for n
  by unfold_locales (auto simp: take_n_eq)


subsection \<open>Splitting\<close>

text \<open>Splitting a well-formed input at a position inside it does not panic; the first part is well
  formed and holds exactly the bytes before the split, and the second part, once reset, is the
  input of the bytes after the split.\<close>

theorem split_parts:
  assumes "input_wf i" and "n \<le> length (inp_bytes i)"
  shows "\<exists>s. split_in i n = Some s \<and> input_wf (sp_first s)
    \<and> inp_bytes (sp_first s) = take n (inp_bytes i)
    \<and> reset_in (sp_remaining s) = new_input (drop n (inp_bytes i))"
  using assms by (auto simp: split_in_wf [OF assms] input_wf_def reset_in_def new_input_def min_def drop_take)

theorem split_parts_witness:
  "\<exists>s. split_in (new_input [1, 2, 3]) 2 = Some s \<and> input_wf (sp_first s)
    \<and> inp_bytes (sp_first s) = take 2 (inp_bytes (new_input [1, 2, 3]))
    \<and> reset_in (sp_remaining s) = new_input (drop 2 (inp_bytes (new_input [1, 2, 3])))"
  by (rule split_parts) simp_all

end
