(* ===== verification/Leb128.thy ===== *)
theory Leb128
  imports Parse_Input
begin

text \<open>
  LEB128 integers: the encoders of \<open>columnar/encoding/encodable_impls.rs\<close>, the size functions of
  \<open>columnar/encoding/leb128.rs\<close> and the strict decoders of \<open>storage/parse/leb128.rs\<close>. The
  functions \<open>uleb\<close> and \<open>sleb\<close> are the mathematical form of the two encodings; the code is
  shown to produce exactly them and the decoders to accept nothing else.
\<close>

subsection \<open>The two encodings as mathematics\<close>

function uleb :: "nat \<Rightarrow> bytes" where
  "uleb n = (if n < 128 then [word_of_nat n] else word_of_nat (n mod 128 + 128) # uleb (n div 128))"
  by pat_completeness auto
termination by (relation "measure id") auto

function sleb :: "int \<Rightarrow> bytes" where
  "sleb z = (if - 64 \<le> z \<and> z < 64 then [word_of_int (z mod 128)]
             else word_of_int (z mod 128 + 128) # sleb (z div 128))"
  by pat_completeness auto
termination by (relation "measure (\<lambda>z. nat \<bar>z\<bar>)") auto

declare uleb.simps [simp del] sleb.simps [simp del]

lemma uleb_small: "n < 128 \<Longrightarrow> uleb n = [word_of_nat n]"
  by (simp add: uleb.simps)

lemma uleb_big: "128 \<le> n \<Longrightarrow> uleb n = word_of_nat (n mod 128 + 128) # uleb (n div 128)"
  by (simp add: uleb.simps [of n])

lemma sleb_small: "- 64 \<le> z \<Longrightarrow> z < 64 \<Longrightarrow> sleb z = [word_of_int (z mod 128)]"
  by (simp add: sleb.simps)

lemma sleb_big: "\<not> (- 64 \<le> z \<and> z < 64) \<Longrightarrow> sleb z = word_of_int (z mod 128 + 128) # sleb (z div 128)"
  by (subst sleb.simps) (simp only: if_False)

lemma uleb_not_Nil [simp]: "uleb n \<noteq> []"
  by (subst uleb.simps) simp

lemma sleb_not_Nil [simp]: "sleb z \<noteq> []"
  by (subst sleb.simps) simp

subsection \<open>The encoders\<close>

text \<open>
  \<open>Encodable for u64\<close> and \<open>for i64\<close>: the loop over the value with the count of bytes written
  and the output buffer as state. A shift of \<open>i64\<close> is arithmetic.
\<close>

definition continuation_bit :: u8 where
  "continuation_bit = 0x80"

definition low_bits_of_byte :: "u8 \<Rightarrow> u8" where
  "low_bits_of_byte byte = byte AND NOT continuation_bit"

definition low_bits_of_u64 :: "u64 \<Rightarrow> u8" where
  "low_bits_of_u64 v = low_bits_of_byte (ucast (v AND 0xFF))"

lemma drop_bit_7_less: "drop_bit 7 v \<noteq> 0 \<Longrightarrow> unat (drop_bit 7 v) < unat (v :: u64)"
proof -
  assume a: "drop_bit 7 v \<noteq> 0"
  have e: "unat (drop_bit 7 v) = unat v div 128"
    by (simp add: unat_drop_bit_div)
  from a have "unat v \<noteq> 0" by (auto simp: unat_eq_zero)
  then show ?thesis by (simp add: e)
qed

function encode_u64_loop :: "u64 \<Rightarrow> nat \<Rightarrow> bytes \<Rightarrow> bytes \<times> nat" where
  "encode_u64_loop v written buf =
     (let byte = low_bits_of_u64 v;
          v' = drop_bit 7 v;
          byte' = (if v' \<noteq> 0 then byte OR continuation_bit else byte);
          buf' = buf @ [byte'];
          written' = written + 1
      in if v' = 0 then (buf', written') else encode_u64_loop v' written' buf')"
  by pat_completeness auto
termination by (relation "measure (\<lambda>(v, _, _). unat v)") (auto simp: drop_bit_7_less)

definition encode_u64 :: "u64 \<Rightarrow> bytes \<Rightarrow> bytes \<times> nat" where
  "encode_u64 v buf = encode_u64_loop v 0 buf"

definition sar :: "nat \<Rightarrow> i64 \<Rightarrow> i64" where
  "sar n v = signed_drop_bit n v"

lemma sint_sar: "sint (sar n v) = sint v div 2 ^ n"
  by (simp add: sar_def sint_signed_drop_bit_eq drop_bit_eq_div)

lemma sar_6_done: "sar 6 v = 0 \<or> sar 6 v = - 1 \<longleftrightarrow> - 64 \<le> sint v \<and> sint v < 64"
proof -
  have "sar 6 v = 0 \<longleftrightarrow> sint (sar 6 v) = 0" by (simp add: signed_eq_0_iff)
  moreover have "sar 6 v = - 1 \<longleftrightarrow> sint (sar 6 v) = sint (- 1 :: i64)"
    by (simp only: word_eq_iff_signed)
  ultimately have "sar 6 v = 0 \<or> sar 6 v = - 1 \<longleftrightarrow> sint (sar 6 v) = 0 \<or> sint (sar 6 v) = - 1"
    by simp
  also have "\<dots> \<longleftrightarrow> - 64 \<le> sint v \<and> sint v < 64"
    by (simp add: sint_sar) linarith
  finally show ?thesis .
qed

lemma sint_sar_1_6: "sint (sar (Suc 0) (sar 6 v)) = sint v div 128"
  by (simp add: sint_sar zdiv_zmult2_eq [symmetric])

function encode_i64_loop :: "i64 \<Rightarrow> nat \<Rightarrow> bytes \<Rightarrow> bytes \<times> nat" where
  "encode_i64_loop v written buf =
     (let byte = (ucast v :: u8);
          v' = sar 6 v;
          dn = (v' = 0 \<or> v' = - 1);
          byte' = (if dn then byte AND NOT continuation_bit else byte OR continuation_bit);
          v'' = (if dn then v' else sar 1 v');
          buf' = buf @ [byte'];
          written' = written + 1
      in if dn then (buf', written') else encode_i64_loop v'' written' buf')"
  by pat_completeness auto
termination
proof (relation "measure (\<lambda>(v, _, _). nat \<bar>sint v\<bar>)", goal_cases)
  case 1
  show ?case by simp
next
  case (2 v written buf byte v' dn byte' v'' buf' written')
  then have "\<not> (- 64 \<le> sint v \<and> sint v < 64)" and "v'' = sar 1 (sar 6 v)"
    by (simp_all only: sar_6_done [symmetric] if_False) simp_all
  then show ?case by (auto simp: sint_sar_1_6)
qed

definition encode_i64 :: "i64 \<Rightarrow> bytes \<Rightarrow> bytes \<times> nat" where
  "encode_i64 v buf = encode_i64_loop v 0 buf"

declare encode_u64_loop.simps [simp del] encode_i64_loop.simps [simp del]

text \<open>The code writes exactly the mathematical encoding and counts its bytes.\<close>

lemma low_bits_of_u64_eq: "low_bits_of_u64 v = word_of_nat (unat v mod 128)"
proof -
  have "NOT continuation_bit = (0x7F :: u8)" by (simp add: continuation_bit_def)
  then have "unat (low_bits_of_u64 v) = unat (ucast (v AND 0xFF) :: u8) mod 128"
    by (simp add: low_bits_of_u64_def low_bits_of_byte_def unat_and_7F)
  also have "unat (ucast (v AND 0xFF) :: u8) = unat v mod 256"
  proof -
    have "(0xFF :: u64) = mask 8" by (simp add: mask_eq_exp_minus_1)
    then have "unat (v AND 0xFF) = unat v mod 256" using unat_and_mask_mod [of v 8] by simp
    then show ?thesis
      by (simp add: unsigned_ucast_eq take_bit_eq_mod [of 8 "unat v mod 256"])
  qed
  also have "unat v mod 256 mod 128 = unat v mod 128"
    by (simp add: mod_mod_cancel)
  finally have "unat (low_bits_of_u64 v) = unat (word_of_nat (unat v mod 128) :: u8)"
    by (simp add: unat_u8_of_nat del: of_nat_mod)
  then show ?thesis by (rule unsigned_word_eqI)
qed

lemma unat_drop_bit_7: "unat (drop_bit 7 v) = unat (v :: u64) div 128"
  by (simp add: unat_drop_bit_div)

lemma word_of_nat_or_80: "n < 128 \<Longrightarrow> word_of_nat n OR continuation_bit = (word_of_nat (n + 128) :: u8)"
proof -
  assume "n < 128"
  then have "unat (word_of_nat n OR continuation_bit :: u8) = unat (word_of_nat (n + 128) :: u8)"
    by (simp add: continuation_bit_def unat_or_80 unat_u8_of_nat del: of_nat_add)
  then show ?thesis by (rule unsigned_word_eqI)
qed

lemma encode_u64_loop_uleb:
  "encode_u64_loop v w buf = (buf @ uleb (unat v), w + length (uleb (unat v)))"
proof (induction v w buf rule: encode_u64_loop.induct)
  case (1 v w buf)
  have z: "drop_bit 7 v = 0 \<longleftrightarrow> unat v < 128"
    using unat_drop_bit_7 [of v] by (metis div_eq_0_iff unat_eq_zero zero_neq_numeral)
  show ?case
  proof (cases "unat v < 128")
    case True
    then show ?thesis
      by (subst encode_u64_loop.simps) (simp add: z uleb_small low_bits_of_u64_eq)
  next
    case False
    with 1 z show ?thesis
      by (subst encode_u64_loop.simps)
        (simp add: uleb_big low_bits_of_u64_eq word_of_nat_or_80 unat_drop_bit_7 Let_def)
  qed
qed

lemma encode_u64_eq: "encode_u64 v buf = (buf @ uleb (unat v), length (uleb (unat v)))"
  by (simp add: encode_u64_def encode_u64_loop_uleb)


lemma unat_ucast_mod_128: "unat (ucast (v :: i64) :: u8) mod 128 = nat (sint v mod 128)"
proof -
  have "unat (ucast v :: u8) mod 128 = unat v mod 128"
    by (simp add: unsigned_ucast_eq take_bit_eq_mod [of 8 "unat v"] mod_mod_cancel)
  moreover have "uint v mod 128 = sint v mod 128"
  proof -
    have "uint v = sint v mod 2 ^ 64"
      by (simp add: uint_sint take_bit_eq_mod)
    then show ?thesis by (simp add: mod_mod_cancel)
  qed
  ultimately show ?thesis
    by (metis nat_int of_nat_mod of_nat_numeral uint_nat)
qed

lemma i64_last_byte: "(ucast (v :: i64) :: u8) AND NOT continuation_bit = word_of_int (sint v mod 128)"
proof -
  have n: "NOT continuation_bit = (0x7F :: u8)" by (simp add: continuation_bit_def)
  have "sint v mod 128 < 256" using pos_mod_bound [of 128 "sint v"] by linarith
  then have lt: "nat (sint v mod 128) < 256" by linarith
  have "unat ((ucast v :: u8) AND NOT continuation_bit) = unat (word_of_nat (nat (sint v mod 128)) :: u8)"
    by (simp only: n unat_and_7F unat_ucast_mod_128 unat_u8_of_nat [OF lt])
  then have "(ucast v :: u8) AND NOT continuation_bit = word_of_nat (nat (sint v mod 128))"
    by (rule unsigned_word_eqI)
  then show ?thesis by simp
qed

lemma i64_next_byte: "(ucast (v :: i64) :: u8) OR continuation_bit = word_of_int (sint v mod 128 + 128)"
proof -
  have "unat ((ucast v :: u8) OR continuation_bit) = nat (sint v mod 128) + 128"
    by (simp only: continuation_bit_def unat_or_80 unat_ucast_mod_128)
  also have "\<dots> = unat (word_of_nat (nat (sint v mod 128) + 128) :: u8)"
    by (subst unat_u8_of_nat) (auto simp: nat_less_iff)
  finally have "(ucast v :: u8) OR continuation_bit = word_of_nat (nat (sint v mod 128) + 128)"
    by (rule unsigned_word_eqI)
  then show ?thesis by simp
qed

lemma encode_i64_loop_sleb:
  "encode_i64_loop v w buf = (buf @ sleb (sint v), w + length (sleb (sint v)))"
proof (induction v w buf rule: encode_i64_loop.induct)
  case (1 v w buf)
  show ?case
  proof (cases "- 64 \<le> sint v \<and> sint v < 64")
    case True
    then have "sleb (sint v) = [word_of_int (sint v mod 128)]" by (intro sleb_small) auto
    with True show ?thesis
      by (subst encode_i64_loop.simps)
        (simp only: sar_6_done Let_def if_True i64_last_byte list.size add_0_right simp_thms One_nat_def plus_nat.simps)
  next
    case False
    note sl = sleb_big [OF False]
    have "encode_i64_loop v w buf = encode_i64_loop (sar 1 (sar 6 v)) (w + 1)
        (buf @ [word_of_int (sint v mod 128 + 128)])"
      by (subst encode_i64_loop.simps) (simp only: sar_6_done Let_def if_False False i64_next_byte)
    also have "\<dots> = (buf @ sleb (sint v), w + length (sleb (sint v)))"
      using "1" [OF refl refl _ refl refl refl refl] False
      by (simp only: sar_6_done sl Let_def if_False i64_next_byte) (simp add: sint_sar_1_6)
    finally show ?thesis .
  qed
qed

lemma encode_i64_eq: "encode_i64 v buf = (buf @ sleb (sint v), length (sleb (sint v)))"
  by (simp add: encode_i64_def encode_i64_loop_sleb)


subsection \<open>The size functions\<close>

text \<open>\<open>leading_zeros\<close> of a 64-bit integer, through the length of its binary form.\<close>

fun bit_len :: "nat \<Rightarrow> nat" where
  "bit_len n = (if n = 0 then 0 else Suc (bit_len (n div 2)))"

declare bit_len.simps [simp del]

definition leading_zeros :: "u64 \<Rightarrow> nat" where
  "leading_zeros v = 64 - bit_len (unat v)"

definition leb_bytes :: "nat \<Rightarrow> nat" where
  "leb_bytes bits = (bits + 6) div 7"

definition ulebsize :: "u64 \<Rightarrow> nat" where
  "ulebsize v = (if v = 0 then 1 else leb_bytes (64 - leading_zeros v))"

definition lebsize :: "i64 \<Rightarrow> nat" where
  "lebsize v = (let v' = (if sint v < 0 then NOT v else v) in leb_bytes (1 + 64 - leading_zeros v'))"

lemma bit_len_0 [simp]: "bit_len 0 = 0"
  by (simp add: bit_len.simps)

lemma bit_len_le_iff: "bit_len n \<le> k \<longleftrightarrow> n < 2 ^ k"
proof (induction k arbitrary: n)
  case 0
  then show ?case by (subst bit_len.simps) simp
next
  case (Suc k)
  have "bit_len n \<le> Suc k \<longleftrightarrow> n = 0 \<or> n div 2 < 2 ^ k"
    by (subst bit_len.simps) (simp add: Suc.IH)
  also have "\<dots> \<longleftrightarrow> n < 2 ^ Suc k"
    by (auto simp: div_less_iff_less_mult mult.commute)
  finally show ?case .
qed

lemma bit_len_div_pow: "bit_len (n div 2 ^ k) = bit_len n - k"
proof (induction k arbitrary: n)
  case 0
  then show ?case by simp
next
  case (Suc k)
  have "bit_len (n div 2 ^ Suc k) = bit_len (n div 2 div 2 ^ k)"
    by (simp add: div_mult2_eq)
  also have "\<dots> = bit_len (n div 2) - k" by (rule Suc.IH)
  also have "bit_len (n div 2) = bit_len n - 1"
    by (subst (2) bit_len.simps) simp
  finally show ?case by simp
qed

lemma length_uleb: "length (uleb n) = (if n = 0 then 1 else leb_bytes (bit_len n))"
proof (induction n rule: uleb.induct)
  case (1 n)
  show ?case
  proof (cases "n < 128")
    case True
    then have "bit_len n \<le> 7" using bit_len_le_iff [of n 7] by simp
    moreover have "n \<noteq> 0 \<Longrightarrow> 0 < bit_len n" by (subst bit_len.simps) simp
    ultimately show ?thesis using True by (auto simp: uleb_small leb_bytes_def)
  next
    case False
    then have "\<not> bit_len n \<le> 7" using bit_len_le_iff [of n 7] by simp
    moreover have "bit_len (n div 128) = bit_len n - 7" using bit_len_div_pow [of n 7] by simp
    ultimately have "leb_bytes (bit_len n) = Suc (leb_bytes (bit_len (n div 128)))"
      by (simp add: leb_bytes_def div_if [of "bit_len n + 6" 7])
    with False 1 show ?thesis by (simp add: uleb_big div_eq_0_iff)
  qed
qed

lemma bit_len_u64: "bit_len (unat (v :: u64)) \<le> 64"
  using unat_u64_less [of v] by (simp add: bit_len_le_iff)

lemma ulebsize_eq: "ulebsize v = length (uleb (unat v))"
  using bit_len_u64 [of v]
  by (simp add: ulebsize_def length_uleb leading_zeros_def unat_eq_zero)

lemma ulebsize_bounds: "1 \<le> ulebsize v \<and> ulebsize v \<le> 10"
proof -
  have "0 < length (uleb (unat v))" by simp
  moreover have "(bit_len (unat v) + 6) div 7 \<le> 10" using bit_len_u64 [of v] by linarith
  ultimately show ?thesis by (auto simp: ulebsize_eq length_uleb leb_bytes_def simp flip: length_greater_0_conv)
qed

text \<open>The magnitude whose bits \<open>lebsize\<close> counts: \<open>!val\<close> for a negative value.\<close>

definition magnitude :: "int \<Rightarrow> nat" where
  "magnitude z = nat (if z < 0 then - z - 1 else z)"

lemma magnitude_div: "magnitude (z div 128) = magnitude z div 128"
  by (auto simp: magnitude_def nat_div_distrib [symmetric])

lemma magnitude_small: "- 64 \<le> z \<and> z < 64 \<longleftrightarrow> magnitude z < 64"
  by (auto simp: magnitude_def)

lemma length_sleb: "length (sleb z) = leb_bytes (Suc (bit_len (magnitude z)))"
proof (induction z rule: sleb.induct)
  case (1 z)
  show ?case
  proof (cases "- 64 \<le> z \<and> z < 64")
    case True
    then have "bit_len (magnitude z) \<le> 6" by (simp add: bit_len_le_iff magnitude_small)
    with True show ?thesis by (simp add: sleb_small leb_bytes_def)
  next
    case False
    then have "\<not> bit_len (magnitude z) \<le> 6"
      by (simp add: bit_len_le_iff magnitude_small)
    moreover have "bit_len (magnitude (z div 128)) = bit_len (magnitude z) - 7"
      using bit_len_div_pow [of "magnitude z" 7] by (simp add: magnitude_div)
    ultimately have "leb_bytes (Suc (bit_len (magnitude z)))
        = Suc (leb_bytes (Suc (bit_len (magnitude (z div 128)))))"
      by (cases "bit_len (magnitude z) = 7") (simp_all add: leb_bytes_def div_if [of "bit_len (magnitude z) + 7" 7])
    with False 1 show ?thesis by (simp add: sleb_big)
  qed
qed

lemma lebsize_eq: "lebsize v = length (sleb (sint v))"
proof -
  let ?w = "if sint v < 0 then NOT v else v"
  have "sint (NOT v) = NOT (sint v)"
    by (rule bit_eqI) (auto simp: bit_simps min_def)
  then have "sint (NOT v) = - sint v - 1"
    by (simp add: not_eq_complement)
  then have "0 \<le> sint ?w" and "nat (sint ?w) = magnitude (sint v)"
    by (auto simp: magnitude_def)
  then have "unat ?w = magnitude (sint v)"
    by (simp only: sint_nonneg_unat)
  then show ?thesis
    using bit_len_u64 [of ?w]
    by (simp add: lebsize_def length_sleb leading_zeros_def Let_def Suc_diff_le)
qed


subsection \<open>The strict decoders\<close>

datatype leb128_error = Leb128TooLarge | Leb128Overlong | UnexpectedZero

text \<open>
  The conversion \<open>E: From<Error>\<close> is the argument \<open>conv\<close>. The loops carry the bits read so
  far, the shift and the input; the signed one also the previous byte.
\<close>

function leb128_u64_loop :: "(leb128_error \<Rightarrow> 'e) \<Rightarrow> u64 \<Rightarrow> nat \<Rightarrow> input \<Rightarrow> (u64, 'e) parse_result"
  where
  "leb128_u64_loop conv res shift i = bind_res (take_1 i) (\<lambda>(i', byte).
     let res' = res OR push_bit shift (ucast (byte AND 0x7F));
         shift' = shift + 7
     in if byte AND 0x80 = 0
        then (if shift' > 64 \<and> byte > 1 then Inl (PError (conv Leb128TooLarge))
              else if shift' > 7 \<and> byte = 0 then Inl (PError (conv Leb128Overlong))
              else Inr (i', res'))
        else if shift' > 64 then Inl (PError (conv Leb128TooLarge))
        else leb128_u64_loop conv res' shift' i')"
  by pat_completeness auto
termination
  by (relation "measure (\<lambda>(_, _, _, i). length (inp_bytes i))") (auto simp: take_1_Inr_iff)

definition leb128_u64 :: "(leb128_error \<Rightarrow> 'e) \<Rightarrow> input \<Rightarrow> (u64, 'e) parse_result" where
  "leb128_u64 conv i = leb128_u64_loop conv 0 0 i"

function leb128_i64_loop ::
  "(leb128_error \<Rightarrow> 'e) \<Rightarrow> i64 \<Rightarrow> nat \<Rightarrow> u8 \<Rightarrow> input \<Rightarrow> (i64, 'e) parse_result" where
  "leb128_i64_loop conv res shift prev i = bind_res (take_1 i) (\<lambda>(i', byte).
     let res' = res OR push_bit shift (ucast (byte AND 0x7F));
         shift' = shift + 7
     in if byte AND 0x80 = 0
        then (if shift' > 64 \<and> byte \<noteq> 0 \<and> byte \<noteq> 0x7F then Inl (PError (conv Leb128TooLarge))
              else if shift' > 7 \<and> (byte = 0 \<and> prev AND 0x40 = 0 \<or> byte = 0x7F \<and> prev AND 0x40 > 0)
              then Inl (PError (conv Leb128Overlong))
              else if shift' < 64 \<and> byte AND 0x40 > 0
              then Inr (i', res' OR push_bit shift' (- 1))
              else Inr (i', res'))
        else if shift' > 64 then Inl (PError (conv Leb128TooLarge))
        else leb128_i64_loop conv res' shift' byte i')"
  by pat_completeness auto
termination
  by (relation "measure (\<lambda>(_, _, _, _, i). length (inp_bytes i))") (auto simp: take_1_Inr_iff)

definition leb128_i64 :: "(leb128_error \<Rightarrow> 'e) \<Rightarrow> input \<Rightarrow> (i64, 'e) parse_result" where
  "leb128_i64 conv i = leb128_i64_loop conv 0 0 0 i"

definition leb128_u32 :: "(leb128_error \<Rightarrow> 'e) \<Rightarrow> input \<Rightarrow> (u32, 'e) parse_result" where
  "leb128_u32 conv i = bind_res (leb128_u64 conv i) (\<lambda>(i', num).
     if unat num < 2 ^ 32 then Inr (i', ucast num) else Inl (PError (conv Leb128TooLarge)))"

definition nonzero_leb128_u64 :: "(leb128_error \<Rightarrow> 'e) \<Rightarrow> input \<Rightarrow> (u64, 'e) parse_result" where
  "nonzero_leb128_u64 conv i = bind_res (leb128_u64 conv i) (\<lambda>(i', num).
     if num \<noteq> 0 then Inr (i', num) else Inl (PError (conv UnexpectedZero)))"

declare leb128_u64_loop.simps [simp del] leb128_i64_loop.simps [simp del]

text \<open>One step of the accumulated value.\<close>

lemma ucast_and_7F: "(ucast (b AND 0x7F :: u8) :: u64) = word_of_nat (unat b mod 128)"
proof -
  have "(ucast (b AND 0x7F) :: u64) = word_of_nat (unat (b AND 0x7F))"
    by simp
  then show ?thesis by (simp only: unat_and_7F)
qed

lemma acc_step:
  assumes "unat res < 2 ^ s"
  shows "res OR push_bit s (ucast (b AND 0x7F :: u8)) = res + word_of_nat (unat b mod 128) * (2 ^ s :: u64)"
  using assms by (simp add: ucast_and_7F or_push_bit_eq_add)

lemma acc_step_bound:
  assumes "unat res < 2 ^ s" and "s + 7 < 64"
  shows "unat (res OR push_bit s (ucast (b AND 0x7F :: u8)) :: u64) < 2 ^ (s + 7)"
proof -
  let ?w = "ucast (b AND 0x7F) :: u64"
  have w: "unat ?w = unat b mod 128"
    by (simp add: ucast_and_7F unsigned_of_nat take_bit_nat_eq_self_iff [THEN iffD2])
  have "unat b mod 128 \<le> 127" by (simp add: less_Suc_eq_le [symmetric])
  then have "unat ?w * 2 ^ s \<le> 127 * 2 ^ s" by (simp add: w)
  moreover have "127 * 2 ^ s < (2 :: nat) ^ (s + 7)" by (simp add: power_add)
  moreover have "(2 :: nat) ^ (s + 7) < 2 ^ 64" using assms(2) by (intro power_strict_increasing) auto
  ultimately have "unat ?w * 2 ^ s < 2 ^ 64" and le: "unat ?w * 2 ^ s \<le> 127 * 2 ^ s" by linarith+
  then have "unat (push_bit s ?w) = unat ?w * 2 ^ s"
    by (intro unat_push_bit_small) simp
  with le have "unat (push_bit s ?w) \<le> 127 * 2 ^ s" by simp
  then show ?thesis
    using assms(1) by (simp add: unat_or_push_bit power_add)
qed

lemma u8_eq_iff: "(b :: u8) = c \<longleftrightarrow> unat b = unat c"
  by (auto intro: unsigned_word_eqI)

lemma u8_gt_1_iff: "(1 :: u8) < b \<longleftrightarrow> 1 < unat b"
  by (simp add: word_less_nat_alt)

lemma u8_byte: "unat (b :: u8) < 128 \<Longrightarrow> b = word_of_nat (unat b mod 128)"
  by simp

lemma leb128_u64_loop_Nil:
  "inp_bytes i = [] \<Longrightarrow> leb128_u64_loop conv res shift i = Inl (Incomplete (Size 1))"
  by (subst leb128_u64_loop.simps) (simp add: take_1_eq)

lemma leb128_u64_loop_Cons:
  assumes "inp_bytes i = b # bs"
  shows "leb128_u64_loop conv res shift i =
    (let res' = res OR push_bit shift (ucast (b AND 0x7F)) in
     if unat b < 128
     then (if shift > 57 \<and> 1 < unat b then Inl (PError (conv Leb128TooLarge))
           else if shift > 0 \<and> unat b = 0 then Inl (PError (conv Leb128Overlong))
           else Inr (advance i 1, res'))
     else if shift > 57 then Inl (PError (conv Leb128TooLarge))
     else leb128_u64_loop conv res' (shift + 7) (advance i 1))"
proof -
  have c: "64 < shift + 7 \<longleftrightarrow> 57 < shift" "7 < shift + 7 \<longleftrightarrow> 0 < shift" by auto
  have z: "b = 0 \<longleftrightarrow> unat b = 0" by (simp add: unat_eq_zero)
  show ?thesis
    by (subst leb128_u64_loop.simps)
      (simp only: take_1_Cons [OF assms] bind_res.simps prod.case Let_def and_80_eq_0_iff
        u8_gt_1_iff c z)
qed

text \<open>
  Soundness: what the unsigned loop accepts is the encoding of the rest of the value; the shift
  is a multiple of seven below 64.
\<close>

lemma leb128_u64_loop_sound:
  assumes "leb128_u64_loop conv res shift i = Inr (i', v)"
    and "unat res < 2 ^ shift" and "7 dvd shift" and "shift < 64"
  shows "\<exists>n. n < 2 ^ (64 - shift) \<and> (shift > 0 \<longrightarrow> n > 0) \<and> v = res + word_of_nat n * 2 ^ shift
     \<and> inp_bytes i = uleb n @ inp_bytes i' \<and> i' = advance i (length (uleb n))"
  using assms
proof (induction "length (inp_bytes i)" arbitrary: res shift i)
  case 0
  then show ?case by (simp add: leb128_u64_loop_Nil)
next
  case (Suc l)
  let ?r = "\<lambda>b. res OR push_bit shift (ucast (b AND 0x7F :: u8))"
  from Suc.hyps(2) obtain b bs where i: "inp_bytes i = b # bs"
    by (cases "inp_bytes i") auto
  note step = Suc.prems(1) [unfolded leb128_u64_loop_Cons [OF i] Let_def]
  obtain k where k: "shift = 7 * k" using Suc.prems(3) by (elim dvdE)
  show ?case
  proof (cases "unat b < 128")
    case True
    from step True have e: "i' = advance i 1" "v = ?r b"
      and c: "shift > 57 \<Longrightarrow> unat b \<le> 1" "shift > 0 \<Longrightarrow> unat b \<noteq> 0"
      by (simp_all add: not_less split: if_splits)
    have "unat b < 2 ^ (64 - shift)"
    proof (cases "shift > 57")
      case True
      then have "shift = 63" using k Suc.prems(4) by auto
      then show ?thesis using c(1) by simp
    next
      case False
      then have "(2 :: nat) ^ 7 \<le> 2 ^ (64 - shift)" by (intro power_increasing) auto
      then show ?thesis using True by simp
    qed
    moreover have "v = res + word_of_nat (unat b) * 2 ^ shift"
      using True by (simp add: e acc_step [OF Suc.prems(2)] del: of_nat_unat)
    moreover have "uleb (unat b) = [b]" using True by (simp add: uleb_small)
    ultimately show ?thesis using e c(2) i by (intro exI [of _ "unat b"]) auto
  next
    case False
    from step False have l: "leb128_u64_loop conv (?r b) (shift + 7) (advance i 1) = Inr (i', v)"
      and s: "shift \<le> 57"
      by (simp_all split: if_splits)
    from s k have s': "shift + 7 < 64" by presburger
    have "\<exists>n. n < 2 ^ (64 - (shift + 7)) \<and> (shift + 7 > 0 \<longrightarrow> n > 0)
      \<and> v = ?r b + word_of_nat n * 2 ^ (shift + 7)
      \<and> inp_bytes (advance i 1) = uleb n @ inp_bytes i' \<and> i' = advance (advance i 1) (length (uleb n))"
      by (rule Suc.hyps(1)) (use Suc.hyps(2) l s' acc_step_bound [OF Suc.prems(2) s'] in \<open>simp_all add: i k\<close>)
    then obtain n where n0: "n < 2 ^ (64 - (shift + 7))" "shift + 7 > 0 \<longrightarrow> n > 0"
      "v = ?r b + word_of_nat n * 2 ^ (shift + 7)" "inp_bytes (advance i 1) = uleb n @ inp_bytes i'"
      "i' = advance (advance i 1) (length (uleb n))"
      by (elim exE conjE)
    then have n: "n < 2 ^ (64 - (shift + 7))" "n > 0" "bs = uleb n @ inp_bytes i'"
      "i' = advance i (1 + length (uleb n))"
      by (simp_all add: i)
    let ?m = "unat b mod 128 + 128 * n"
    have "unat b mod 128 + 128 = unat b" "unat b mod 128 < 128"
      using False unat_u8_less [of b] by (auto simp: mod_if [of "unat b" 128])
    then have "uleb ?m = b # uleb n"
      using n(2) by (subst uleb_big) (auto simp: algebra_simps)
    moreover have "?m < 2 ^ (64 - shift)"
    proof -
      have "64 - shift = (64 - (shift + 7)) + 7" using s by simp
      then have "(2 :: nat) ^ (64 - shift) = 2 ^ (64 - (shift + 7)) * 128" by (simp only: power_add) simp
      then show ?thesis using n(1) \<open>unat b mod 128 < 128\<close> by linarith
    qed
    moreover have "v = res + word_of_nat ?m * 2 ^ shift"
      by (simp only: n0(3) acc_step [OF Suc.prems(2)]) (simp add: power_add algebra_simps)
    ultimately show ?thesis using n i by (intro exI [of _ ?m]) auto
  qed
qed


text \<open>Completeness: the encoding of every remaining value is accepted, whatever follows it.\<close>

lemma leb128_u64_loop_complete:
  assumes "inp_bytes i = uleb n @ rest" and "n < 2 ^ (64 - shift)" and "shift > 0 \<longrightarrow> n > 0"
    and "unat res < 2 ^ shift" and "7 dvd shift" and "shift < 64"
  shows "leb128_u64_loop conv res shift i
     = Inr (advance i (length (uleb n)), res + word_of_nat n * 2 ^ shift)"
  using assms
proof (induction n arbitrary: res shift i rule: uleb.induct)
  case (1 n)
  obtain k where k: "shift = 7 * k" using "1.prems"(5) by (elim dvdE)
  show ?case
  proof (cases "n < 128")
    case True
    then have i: "inp_bytes i = word_of_nat n # rest" using "1.prems"(1) by (simp add: uleb_small)
    have u: "unat (word_of_nat n :: u8) = n" using True by (intro unat_u8_of_nat) simp
    have "n \<le> 1" if "shift > 57"
    proof -
      from that k "1.prems"(6) have "shift = 63" by auto
      then show ?thesis using "1.prems"(2) by simp
    qed
    then have "leb128_u64_loop conv res shift i = Inr (advance i 1, res OR push_bit shift (ucast ((word_of_nat n :: u8) AND 0x7F)))"
      using True "1.prems"(3) by (simp only: leb128_u64_loop_Cons [OF i] Let_def u if_True) auto
    then show ?thesis
      using True by (simp add: acc_step [OF "1.prems"(4)] u uleb_small)
  next
    case False
    let ?b = "word_of_nat (n mod 128 + 128) :: u8"
    have u: "unat ?b = n mod 128 + 128"
      by (intro unat_u8_of_nat) (simp add: add_less_mono1 [of "n mod 128" 128 128, simplified])
    have i: "inp_bytes i = ?b # (uleb (n div 128) @ rest)" using False "1.prems"(1) by (simp add: uleb_big)
    have s: "shift \<le> 56"
    proof (rule ccontr)
      assume "\<not> shift \<le> 56"
      then have "(2 :: nat) ^ (64 - shift) \<le> 2 ^ 7" by (intro power_increasing) auto
      with "1.prems"(2) False show False by simp
    qed
    then have ns: "\<not> shift > 57" by simp
    have e: "64 - shift = (64 - (shift + 7)) + 7" using s by simp
    have d: "n div 128 < 2 ^ (64 - (shift + 7))"
    proof -
      have "(2 :: nat) ^ (64 - shift) = 2 ^ (64 - (shift + 7)) * 128" by (subst e) (simp only: power_add, simp)
      with "1.prems"(2) show ?thesis by (simp add: div_less_iff_less_mult)
    qed
    let ?r = "res OR push_bit shift (ucast (?b AND 0x7F))"
    have "leb128_u64_loop conv res shift i = leb128_u64_loop conv ?r (shift + 7) (advance i 1)"
      by (simp only: leb128_u64_loop_Cons [OF i] Let_def u ns if_False) simp
    also have "\<dots> = Inr (advance (advance i 1) (length (uleb (n div 128))),
        ?r + word_of_nat (n div 128) * 2 ^ (shift + 7))"
      by (rule "1.IH" [OF False])
        (use i d s False "1.prems"(4,5) acc_step_bound [OF "1.prems"(4), of ?b] in \<open>simp_all del: of_nat_add\<close>)
    also have "?r + word_of_nat (n div 128) * 2 ^ (shift + 7) = res + word_of_nat n * 2 ^ shift"
    proof -
      have "n = n mod 128 + 128 * (n div 128)" by simp
      then have "(word_of_nat n :: u64) = word_of_nat (n mod 128) + 128 * word_of_nat (n div 128)"
        by (metis of_nat_add of_nat_mult of_nat_numeral)
      moreover have "?r = res + word_of_nat (n mod 128) * 2 ^ shift"
        by (simp only: acc_step [OF "1.prems"(4)] u) simp
      ultimately show ?thesis by (simp only: power_add) (simp add: algebra_simps)
    qed
    finally show ?thesis using False by (simp add: uleb_big)
  qed
qed

theorem leb128_u64_complete:
  "inp_bytes i = uleb (unat v) @ rest \<Longrightarrow> leb128_u64 conv i = Inr (advance i (length (uleb (unat v))), v)"
  unfolding leb128_u64_def
  using leb128_u64_loop_complete [of i "unat v" rest 0 0 conv] unat_u64_less [of v] by simp

theorem leb128_u64_sound:
  assumes "leb128_u64 conv i = Inr (i', v)"
  shows "inp_bytes i = uleb (unat v) @ inp_bytes i'" "i' = advance i (length (uleb (unat v)))"
proof -
  have "\<exists>n. n < 2 ^ (64 - 0) \<and> (0 > (0 :: nat) \<longrightarrow> n > 0) \<and> v = 0 + word_of_nat n * 2 ^ 0
     \<and> inp_bytes i = uleb n @ inp_bytes i' \<and> i' = advance i (length (uleb n))"
    by (rule leb128_u64_loop_sound [OF assms [unfolded leb128_u64_def]]) simp_all
  then obtain n where "n < 2 ^ (64 - 0)" "v = 0 + word_of_nat n * 2 ^ 0"
    and n: "inp_bytes i = uleb n @ inp_bytes i'" "i' = advance i (length (uleb n))"
    by (elim exE conjE)
  then have n': "n < 2 ^ 64" "v = word_of_nat n" by simp_all
  then have "unat v = n" by (simp add: unsigned_of_nat take_bit_nat_eq_self)
  with n show "inp_bytes i = uleb (unat v) @ inp_bytes i'" "i' = advance i (length (uleb (unat v)))"
    by simp_all
qed


subsection \<open>The signed decoder\<close>

lemma u8_and_40: "b AND 0x40 = 0 \<longleftrightarrow> unat (b :: u8) mod 128 < 64"
proof -
  have "(0x40 :: u8) = push_bit 6 1" by simp
  then have "b AND 0x40 = 0 \<longleftrightarrow> \<not> bit b 6"
    by (simp add: bit_iff_and_push_bit_not_eq_0)
  also have "bit b 6 = bit (unat b) 6"
    by (simp add: bit_unsigned_iff)
  also have "\<dots> = odd (unat b div 64)"
    by (simp add: bit_iff_odd)
  finally have "b AND 0x40 = 0 \<longleftrightarrow> unat b div 64 mod 2 = 0"
    by (simp add: even_iff_mod_2_eq_zero)
  moreover have "unat b mod 128 = 64 * (unat b div 64 mod 2) + unat b mod 64"
    using mod_mult2_eq [of "unat b" 64 2] by simp
  moreover have "unat b div 64 mod 2 = 0 \<or> unat b div 64 mod 2 = 1" by auto
  moreover have "unat b mod 64 < 64" by simp
  ultimately show ?thesis by linarith
qed

lemma u8_and_40_pos: "0 < b AND 0x40 \<longleftrightarrow> 64 \<le> unat (b :: u8) mod 128"
  using u8_and_40 [of b] by (metis linorder_not_less word_gt_0)

text \<open>The value of the last byte: seven bits read as a signed number.\<close>

definition sign7 :: "nat \<Rightarrow> int" where
  "sign7 t = (if t < 64 then int t else int t - 128)"

lemma sign7_ends: "sign7 0 = 0" "sign7 127 = - 1"
  by (simp_all add: sign7_def)

lemma sign7_iff: "t < 128 \<Longrightarrow> sign7 t = 0 \<longleftrightarrow> t = 0" "t < 128 \<Longrightarrow> sign7 t = - 1 \<longleftrightarrow> t = 127"
  by (auto simp: sign7_def)

lemma sign7_bounds: "t < 128 \<Longrightarrow> - 64 \<le> sign7 t \<and> sign7 t < 64"
  by (auto simp: sign7_def)

lemma sign7_mod: "t < 128 \<Longrightarrow> sign7 t mod 128 = int t"
proof (cases "t < 64")
  case False
  assume "t < 128"
  have "(int t - 128) mod 128 = int t mod 128" by simp
  with \<open>t < 128\<close> False show ?thesis by (simp add: sign7_def)
qed (simp add: sign7_def)

lemma sleb_sign7: "unat b < 128 \<Longrightarrow> sleb (sign7 (unat b)) = [b]"
  using sign7_bounds [of "unat b"] by (simp add: sleb_small sign7_mod)

lemma leb128_i64_loop_Nil:
  "inp_bytes i = [] \<Longrightarrow> leb128_i64_loop conv res shift prev i = Inl (Incomplete (Size 1))"
  by (subst leb128_i64_loop.simps) (simp add: take_1_eq)

lemma leb128_i64_loop_Cons:
  assumes "inp_bytes i = b # bs"
  shows "leb128_i64_loop conv res shift prev i =
    (let res' = res OR push_bit shift (ucast (b AND 0x7F)) in
     if unat b < 128
     then (if shift > 57 \<and> unat b \<noteq> 0 \<and> unat b \<noteq> 127 then Inl (PError (conv Leb128TooLarge))
           else if shift > 0 \<and> (unat b = 0 \<and> unat prev mod 128 < 64 \<or> unat b = 127 \<and> 64 \<le> unat prev mod 128)
           then Inl (PError (conv Leb128Overlong))
           else if shift < 57 \<and> 64 \<le> unat b
           then Inr (advance i 1, res' OR push_bit (shift + 7) (- 1))
           else Inr (advance i 1, res'))
     else if shift > 57 then Inl (PError (conv Leb128TooLarge))
     else leb128_i64_loop conv res' (shift + 7) b (advance i 1))"
proof -
  have c: "64 < shift + 7 \<longleftrightarrow> 57 < shift" "7 < shift + 7 \<longleftrightarrow> 0 < shift" "shift + 7 < 64 \<longleftrightarrow> shift < 57"
    by auto
  have z: "b = 0 \<longleftrightarrow> unat b = 0" "b = 0x7F \<longleftrightarrow> unat b = 127"
    by (simp_all add: u8_eq_iff)
  have m: "unat b < 128 \<Longrightarrow> unat b mod 128 = unat b" by simp
  show ?thesis
    by (subst leb128_i64_loop.simps)
      (simp add: take_1_Cons [OF assms] Let_def and_80_eq_0_iff u8_and_40 u8_and_40_pos c z m
        del: add_2_eq_Suc add_2_eq_Suc')
qed

lemma i64_last_value:
  fixes res :: i64 and b :: u8
  assumes "unat res < 2 ^ shift" and "7 dvd shift" and "shift < 64" and "unat b < 128"
    and "shift > 57 \<longrightarrow> unat b = 0 \<or> unat b = 127"
  shows "(if shift < 57 \<and> 64 \<le> unat b
      then (res OR push_bit shift (ucast (b AND 0x7F))) OR push_bit (shift + 7) (- 1)
      else res OR push_bit shift (ucast (b AND 0x7F)))
    = res + word_of_int (sign7 (unat b)) * 2 ^ shift"
proof -
  let ?r = "res OR push_bit shift (ucast (b AND 0x7F))"
  have t: "unat b mod 128 = unat b" using assms(4) by simp
  have r: "?r = res + word_of_nat (unat b) * 2 ^ shift"
    using acc_step [OF assms(1), of b] by (simp only: t)
  obtain k where k: "shift = 7 * k" using assms(2) by (elim dvdE)
  show ?thesis
  proof (cases "unat b < 64")
    case True
    then show ?thesis by (simp only: r not_le [symmetric]) (simp add: sign7_def)
  next
    case False
    show ?thesis
    proof (cases "shift < 57")
      case True
      then have "?r OR push_bit (shift + 7) (- 1) = ?r + (- 1) * 2 ^ (shift + 7)"
        by (intro or_push_bit_eq_add acc_step_bound [OF assms(1)]) simp
      with True False show ?thesis
        by (simp only: r) (simp add: sign7_def power_add algebra_simps)
    next
      case s: False
      with k assms(3) have sh: "shift = 63" by auto
      with assms(5) False have b: "unat b = 127" by auto
      have "word_of_nat (unat b) * 2 ^ shift = (word_of_int (sign7 (unat b)) * 2 ^ shift :: i64)"
        by (simp add: sh b sign7_def)
      with s show ?thesis by (simp only: r) simp
    qed
  qed
qed

lemma leb128_i64_loop_sound:
  assumes "leb128_i64_loop conv res shift prev i = Inr (i', v)"
    and "unat res < 2 ^ shift" and "7 dvd shift" and "shift < 64"
  shows "\<exists>z. - (2 ^ (63 - shift)) \<le> z \<and> z < 2 ^ (63 - shift)
     \<and> (shift > 0 \<longrightarrow> \<not> (z = 0 \<and> unat prev mod 128 < 64) \<and> \<not> (z = - 1 \<and> 64 \<le> unat prev mod 128))
     \<and> v = res + word_of_int z * 2 ^ shift
     \<and> inp_bytes i = sleb z @ inp_bytes i' \<and> i' = advance i (length (sleb z))"
  using assms
proof (induction "length (inp_bytes i)" arbitrary: res shift prev i)
  case 0
  then show ?case by (simp add: leb128_i64_loop_Nil)
next
  case (Suc l)
  let ?r = "\<lambda>b. res OR push_bit shift (ucast (b AND 0x7F :: u8))"
  from Suc.hyps(2) obtain b bs where i: "inp_bytes i = b # bs"
    by (cases "inp_bytes i") auto
  note step = Suc.prems(1) [unfolded leb128_i64_loop_Cons [OF i] Let_def]
  obtain k where k: "shift = 7 * k" using Suc.prems(3) by (elim dvdE)
  show ?case
  proof (cases "unat b < 128")
    case True
    from step True have e: "i' = advance i 1"
      and v: "v = (if shift < 57 \<and> 64 \<le> unat b then ?r b OR push_bit (shift + 7) (- 1) else ?r b)"
      and c: "shift > 57 \<longrightarrow> unat b = 0 \<or> unat b = 127"
        "shift > 0 \<longrightarrow> \<not> (unat b = 0 \<and> unat prev mod 128 < 64 \<or> unat b = 127 \<and> 64 \<le> unat prev mod 128)"
      by (auto split: if_splits)
    have "v = res + word_of_int (sign7 (unat b)) * 2 ^ shift"
      unfolding v by (rule i64_last_value [OF Suc.prems(2,3,4) True c(1)])
    moreover have "- (2 ^ (63 - shift)) \<le> sign7 (unat b) \<and> sign7 (unat b) < 2 ^ (63 - shift)"
    proof (cases "shift > 57")
      case True
      then have sh: "shift = 63" using k Suc.prems(4) by auto
      from True c(1) consider "unat b = 0" | "unat b = 127" by auto
      then show ?thesis by cases (simp_all only: sh sign7_ends, simp_all)
    next
      case False
      with k have "shift \<le> 56" by presburger
      then have "(2 :: int) ^ 6 \<le> 2 ^ (63 - shift)" by (intro power_increasing) auto
      then show ?thesis using sign7_bounds [OF True] by auto
    qed
    moreover note sign7_iff [OF True]
    ultimately show ?thesis
      using e c(2) i sleb_sign7 [OF True] by (intro exI [of _ "sign7 (unat b)"]) auto
  next
    case False
    from step False have lp: "leb128_i64_loop conv (?r b) (shift + 7) b (advance i 1) = Inr (i', v)"
      and s: "shift \<le> 57"
      by (simp_all split: if_splits)
    from s k have s': "shift + 7 < 64" by presburger
    have "\<exists>z. - (2 ^ (63 - (shift + 7))) \<le> z \<and> z < 2 ^ (63 - (shift + 7))
      \<and> (shift + 7 > 0 \<longrightarrow> \<not> (z = 0 \<and> unat b mod 128 < 64) \<and> \<not> (z = - 1 \<and> 64 \<le> unat b mod 128))
      \<and> v = ?r b + word_of_int z * 2 ^ (shift + 7)
      \<and> inp_bytes (advance i 1) = sleb z @ inp_bytes i' \<and> i' = advance (advance i 1) (length (sleb z))"
      by (rule Suc.hyps(1)) (use Suc.hyps(2) lp s' acc_step_bound [OF Suc.prems(2) s'] in \<open>simp_all add: i k\<close>)
    then obtain z where z: "- (2 ^ (63 - (shift + 7))) \<le> z" "z < 2 ^ (63 - (shift + 7))"
      "shift + 7 > 0 \<longrightarrow> \<not> (z = 0 \<and> unat b mod 128 < 64) \<and> \<not> (z = - 1 \<and> 64 \<le> unat b mod 128)"
      "v = ?r b + word_of_int z * 2 ^ (shift + 7)" "inp_bytes (advance i 1) = sleb z @ inp_bytes i'"
      "i' = advance (advance i 1) (length (sleb z))"
      by (elim exE conjE)
    then have z': "bs = sleb z @ inp_bytes i'" "i' = advance i (1 + length (sleb z))"
      by (simp_all add: i)
    let ?m = "int (unat b mod 128) + 128 * z"
    have t: "unat b mod 128 + 128 = unat b" "unat b mod 128 < 128"
      using False unat_u8_less [of b] by (auto simp: mod_if [of "unat b" 128])
    have out: "\<not> (- 64 \<le> ?m \<and> ?m < 64)"
    proof -
      have "\<not> (z = 0 \<and> unat b mod 128 < 64)" "\<not> (z = - 1 \<and> 64 \<le> unat b mod 128)" using z(3) by auto
      then show ?thesis using t(2) by linarith
    qed
    have md: "?m mod 128 + 128 = int (unat b mod 128 + 128)" "?m div 128 = z"
      using t(2) by (simp_all add: zmod_int [symmetric])
    have "(word_of_int (int (unat b mod 128 + 128)) :: u8) = b"
      by (simp only: t(1)) simp
    then have "sleb ?m = b # sleb z"
      by (simp only: sleb_big [OF out] md)
    moreover have "- (2 ^ (63 - shift)) \<le> ?m \<and> ?m < 2 ^ (63 - shift)"
    proof -
      have "63 - shift = (63 - (shift + 7)) + 7" using s' by simp
      then have "(2 :: int) ^ (63 - shift) = 2 ^ (63 - (shift + 7)) * 128" by (simp only: power_add) simp
      then show ?thesis using z(1,2) t(2) by linarith
    qed
    moreover have "v = res + word_of_int ?m * 2 ^ shift"
      by (simp only: z(4) acc_step [OF Suc.prems(2)]) (simp add: power_add algebra_simps)
    ultimately show ?thesis using out z' i by (intro exI [of _ ?m]) auto
  qed
qed


lemma leb128_i64_loop_complete:
  assumes "inp_bytes i = sleb z @ rest" and "- (2 ^ (63 - shift)) \<le> z" and "z < 2 ^ (63 - shift)"
    and "shift > 0 \<longrightarrow> \<not> (z = 0 \<and> unat prev mod 128 < 64) \<and> \<not> (z = - 1 \<and> 64 \<le> unat prev mod 128)"
    and "unat res < 2 ^ shift" and "7 dvd shift" and "shift < 64"
  shows "leb128_i64_loop conv res shift prev i
     = Inr (advance i (length (sleb z)), res + word_of_int z * 2 ^ shift)"
  using assms
proof (induction z arbitrary: res shift prev i rule: sleb.induct)
  case (1 z)
  obtain k where k: "shift = 7 * k" using "1.prems"(6) by (elim dvdE)
  have z0: "0 \<le> z mod 128" "z mod 128 < 128" by simp_all
  show ?case
  proof (cases "- 64 \<le> z \<and> z < 64")
    case True
    let ?b = "word_of_int (z mod 128) :: u8"
    let ?r = "res OR push_bit shift (ucast (?b AND 0x7F))"
    have i: "inp_bytes i = ?b # rest" using True "1.prems"(1) by (simp add: sleb_small)
    have u: "unat ?b = nat (z mod 128)"
      using unat_u8_of_nat [of "nat (z mod 128)"] z0 by (simp add: nat_less_iff)
    then have b: "unat ?b < 128" by (simp add: nat_less_iff)
    have sg: "sign7 (unat ?b) = z"
      unfolding u using True by (cases "z < 0") (auto simp: sign7_def mod_pos_pos_trivial
          mod_pos_pos_trivial [of "z + 128" 128, simplified] nat_less_iff)
    have hi: "shift > 57 \<longrightarrow> unat ?b = 0 \<or> unat ?b = 127"
    proof
      assume "shift > 57"
      then have "shift = 63" using k "1.prems"(7) by auto
      then have "z = 0 \<or> z = - 1" using "1.prems"(2,3) by auto
      then show "unat ?b = 0 \<or> unat ?b = 127" unfolding u by auto
    qed
    have ov: "\<not> (shift > 0 \<and> (unat ?b = 0 \<and> unat prev mod 128 < 64 \<or> unat ?b = 127 \<and> 64 \<le> unat prev mod 128))"
      using "1.prems"(4) sg sign7_ends by auto
    have "leb128_i64_loop conv res shift prev i = Inr (advance i 1,
       if shift < 57 \<and> 64 \<le> unat ?b then ?r OR push_bit (shift + 7) (- 1) else ?r)"
      using b hi ov by (simp only: leb128_i64_loop_Cons [OF i] Let_def if_True) auto
    also have "\<dots> = Inr (advance i 1, res + word_of_int z * 2 ^ shift)"
      by (simp only: i64_last_value [OF "1.prems"(5,6,7) b hi] sg)
    finally show ?thesis using True by (simp add: sleb_small)
  next
    case False
    let ?b = "word_of_int (z mod 128 + 128) :: u8"
    let ?r = "res OR push_bit shift (ucast (?b AND 0x7F))"
    have u: "unat ?b = nat (z mod 128) + 128"
      using unat_u8_of_nat [of "nat (z mod 128) + 128"] z0 by (simp add: nat_less_iff nat_add_distrib)
    then have um: "unat ?b mod 128 = nat (z mod 128)" by (simp add: nat_less_iff)
    have i: "inp_bytes i = ?b # (sleb (z div 128) @ rest)" using False "1.prems"(1) by (simp add: sleb_big)
    have s: "shift \<le> 56"
    proof (rule ccontr)
      assume "\<not> shift \<le> 56"
      then have "(2 :: int) ^ (63 - shift) \<le> 2 ^ 6" by (intro power_increasing) auto
      with "1.prems"(2,3) False show False by simp
    qed
    then have ns: "\<not> shift > 57" "shift + 7 < 64" by simp_all
    have e: "63 - shift = (63 - (shift + 7)) + 7" using s by simp
    have p: "(2 :: int) ^ (63 - shift) = 2 ^ (63 - (shift + 7)) * 128" by (subst e) (simp only: power_add, simp)
    have d: "- (2 ^ (63 - (shift + 7))) \<le> z div 128" "z div 128 < 2 ^ (63 - (shift + 7))"
      using "1.prems"(2,3) unfolding p by linarith+
    have pv: "\<not> (z div 128 = 0 \<and> unat ?b mod 128 < 64) \<and> \<not> (z div 128 = - 1 \<and> 64 \<le> unat ?b mod 128)"
      unfolding um using False by (auto simp: nat_less_iff nat_le_iff le_nat_iff) presburger+
    have "leb128_i64_loop conv res shift prev i = leb128_i64_loop conv ?r (shift + 7) ?b (advance i 1)"
      by (simp only: leb128_i64_loop_Cons [OF i] Let_def u ns if_False) simp
    also have "\<dots> = Inr (advance (advance i 1) (length (sleb (z div 128))),
        ?r + word_of_int (z div 128) * 2 ^ (shift + 7))"
      by (rule "1.IH" [OF False])
        (use i d pv k ns acc_step_bound [OF "1.prems"(5) ns(2)] in \<open>simp_all del: of_int_add\<close>)
    also have "?r + word_of_int (z div 128) * 2 ^ (shift + 7) = res + word_of_int z * 2 ^ shift"
    proof -
      have "z = z mod 128 + 128 * (z div 128)" by simp
      then have "(word_of_int z :: i64) = word_of_int (z mod 128) + 128 * word_of_int (z div 128)"
        by (metis of_int_add of_int_mult of_int_numeral)
      moreover have "?r = res + word_of_int (z mod 128) * 2 ^ shift"
        by (simp only: acc_step [OF "1.prems"(5)] um) simp
      ultimately show ?thesis by (simp only: power_add) (simp add: algebra_simps)
    qed
    finally show ?thesis using False by (simp add: sleb_big)
  qed
qed

theorem leb128_i64_complete:
  "inp_bytes i = sleb (sint v) @ rest \<Longrightarrow> leb128_i64 conv i = Inr (advance i (length (sleb (sint v))), v)"
  unfolding leb128_i64_def
  using leb128_i64_loop_complete [of i "sint v" rest 0 0 0 conv] sint_i64_bounds [of v] by simp

theorem leb128_i64_sound:
  assumes "leb128_i64 conv i = Inr (i', v)"
  shows "inp_bytes i = sleb (sint v) @ inp_bytes i'" "i' = advance i (length (sleb (sint v)))"
proof -
  have "\<exists>z. - (2 ^ (63 - 0)) \<le> z \<and> z < 2 ^ (63 - 0)
     \<and> (0 > (0 :: nat) \<longrightarrow> \<not> (z = 0 \<and> unat (0 :: u8) mod 128 < 64) \<and> \<not> (z = - 1 \<and> 64 \<le> unat (0 :: u8) mod 128))
     \<and> v = 0 + word_of_int z * 2 ^ 0
     \<and> inp_bytes i = sleb z @ inp_bytes i' \<and> i' = advance i (length (sleb z))"
    by (rule leb128_i64_loop_sound [OF assms [unfolded leb128_i64_def]]) simp_all
  then obtain z where z: "- (2 ^ (63 - 0)) \<le> z" "z < 2 ^ (63 - 0)" "v = 0 + word_of_int z * 2 ^ 0"
    "inp_bytes i = sleb z @ inp_bytes i'" "i' = advance i (length (sleb z))"
    by (elim exE conjE)
  have "signed_take_bit 63 z = z"
    using z(1,2) by (intro signed_take_bit_int_eq_self) simp_all
  then have "sint v = z"
    using z(3) by (simp add: signed_of_int)
  with z show "inp_bytes i = sleb (sint v) @ inp_bytes i'" "i' = advance i (length (sleb (sint v)))"
    by simp_all
qed


subsection \<open>The contracts of the decoders\<close>

lemma uleb_fits: "length (uleb (unat v)) \<le> length (inp_bytes i)"
  if "inp_bytes i = uleb (unat v) @ r"
  using that by simp

interpretation leb_u64: parser "leb128_u64 conv" for conv
  by unfold_locales (metis leb128_u64_sound le_add1 length_append)

interpretation leb_i64: parser "leb128_i64 conv" for conv
  by unfold_locales (metis leb128_i64_sound le_add1 length_append)

interpretation leb_u64: codec "\<lambda>v. uleb (unat v)" "leb128_u64 conv" "\<lambda>_. True" for conv
  by unfold_locales (rule leb128_u64_complete)

interpretation leb_i64: codec "\<lambda>v. sleb (sint v)" "leb128_i64 conv" "\<lambda>_. True" for conv
  by unfold_locales (rule leb128_i64_complete)

interpretation leb_u32: parser "leb128_u32 conv" for conv
  by unfold_locales
    (auto simp: leb128_u32_def result_simps split: if_splits dest: leb_u64.consumes)

interpretation leb_u32: codec "\<lambda>v :: u32. uleb (unat v)" "leb128_u32 conv" "\<lambda>_. True" for conv
proof unfold_locales
  fix v :: u32 and i :: input and rest
  assume i: "inp_bytes i = uleb (unat v) @ rest"
  have v: "unat v < 2 ^ 32" using unsigned_less [of v] by simp
  have u: "unat (ucast v :: u64) = unat v"
    using v by (simp add: unsigned_ucast_eq take_bit_nat_eq_self)
  have "leb128_u64 conv i = Inr (advance i (length (uleb (unat v))), ucast v)"
    using leb128_u64_complete [of i "ucast v" rest conv] i by (simp only: u)
  moreover have "ucast (ucast v :: u64) = v"
    by (rule bit_word_eqI) (simp add: bit_simps)
  ultimately show "leb128_u32 conv i = Inr (advance i (length (uleb (unat v))), v)"
    using v u by (simp add: leb128_u32_def)
qed


subsection \<open>The external writer\<close>

text \<open>
  Most of the program writes LEB128 through \<open>leb128::write::unsigned\<close> of the \<open>leb128\<close> crate,
  which is not part of the repository: it is an argument \<open>wu\<close> of the definitions that use it, and
  what they rely on is its documented behaviour, the standard unsigned encoding. The encoder of
  \<open>encodable_impls.rs\<close> meets it.
\<close>

definition writes_uleb :: "(u64 \<Rightarrow> bytes) \<Rightarrow> bool" where
  "writes_uleb wu \<longleftrightarrow> (\<forall>v. wu v = uleb (unat v))"

definition own_writer :: "u64 \<Rightarrow> bytes" where
  "own_writer v = fst (encode_u64 v [])"

locale leb128_crate =
  fixes wu :: "u64 \<Rightarrow> bytes"
  assumes wu_uleb: "wu v = uleb (unat v)"
begin

lemma wu_count: "n < 2 ^ 64 \<Longrightarrow> wu (word_of_nat n) = uleb n"
  by (simp add: wu_uleb unsigned_of_nat take_bit_nat_eq_self)

lemma wu_length: "length (wu v) = ulebsize v"
  by (simp add: wu_uleb ulebsize_eq)

lemma wu_read: "inp_bytes i = wu v @ rest \<Longrightarrow> leb128_u64 conv i = Inr (advance i (length (wu v)), v)"
  by (simp add: wu_uleb leb128_u64_complete)

end

lemma writes_uleb_crate: "writes_uleb wu \<longleftrightarrow> leb128_crate wu"
  by (simp add: writes_uleb_def leb128_crate_def)

lemma own_writer_eq: "own_writer v = uleb (unat v)"
  by (simp add: own_writer_def encode_u64_eq)

interpretation own_writer: leb128_crate own_writer
  by unfold_locales (rule own_writer_eq)

lemma own_writer_writes: "writes_uleb own_writer"
  by (simp add: writes_uleb_def own_writer_eq)


subsection \<open>The decoders accept exactly what the encoders write\<close>

text \<open>C23: the unsigned decoder is strict: it returns a value if and only if the input starts with
  exactly the bytes that the encoder of the program writes for this value, and it consumes exactly
  these bytes; overlong and overflowing encodings are never accepted.\<close>

theorem leb128_u64_canonical:
  "leb128_u64 conv i = Inr (i', v) \<longleftrightarrow>
     inp_bytes i = fst (encode_u64 v []) @ inp_bytes i' \<and> i' = advance i (snd (encode_u64 v []))"
  using leb128_u64_complete [of i v "inp_bytes i'" conv] leb128_u64_sound [of conv i i' v]
  by (auto simp: encode_u64_eq)

text \<open>The signed decoder is strict in the same sense, over all 64-bit two's complement values.\<close>

theorem leb128_i64_canonical:
  "leb128_i64 conv i = Inr (i', v) \<longleftrightarrow>
     inp_bytes i = fst (encode_i64 v []) @ inp_bytes i' \<and> i' = advance i (snd (encode_i64 v []))"
  using leb128_i64_complete [of i v "inp_bytes i'" conv] leb128_i64_sound [of conv i i' v]
  by (auto simp: encode_i64_eq)

text \<open>The two size functions, which compute with the position of the highest bit, predict exactly
  how many bytes the encoders append, and this is also the count that the encoders return.\<close>

theorem encoded_sizes:
  "length (fst (encode_u64 u buf)) = length buf + ulebsize u \<and> snd (encode_u64 u buf) = ulebsize u
   \<and> length (fst (encode_i64 s buf)) = length buf + lebsize s \<and> snd (encode_i64 s buf) = lebsize s"
  by (simp add: encode_u64_eq encode_i64_eq ulebsize_eq lebsize_eq)

end
