(* ===== verification/Parse.thy ===== *)
theory Parse
  imports Leb128 Ids
begin

text \<open>
  The combinators of \<open>storage/parse.rs\<close>: mapping, pairing, repetition, length prefixes, actor
  ids, change hashes and UTF-8 strings, with the \<open>From\<close> conversions of the error type as
  arguments. Every combinator is shown to keep the contracts \<open>parser\<close> and \<open>codec\<close> of its
  arguments.
\<close>

subsection \<open>The combinators\<close>

definition map_p :: "(input \<Rightarrow> ('a, 'e) parse_result) \<Rightarrow> ('a \<Rightarrow> 'b) \<Rightarrow> input \<Rightarrow> ('b, 'e) parse_result" where
  "map_p p f i = bind_res (p i) (\<lambda>(i', o1). Inr (i', f o1))"

primrec length_prefixed_loop ::
  "(input \<Rightarrow> ('o, 'e) parse_result) \<Rightarrow> nat \<Rightarrow> 'o list \<Rightarrow> input \<Rightarrow> ('o list, 'e) parse_result" where
  "length_prefixed_loop g 0 res i = Inr (i, res)"
| "length_prefixed_loop g (Suc n) res i =
     (case g i of Inr (i', e) \<Rightarrow> length_prefixed_loop g n (res @ [e]) i' | Inl e \<Rightarrow> Inl e)"

definition length_prefixed ::
  "(leb128_error \<Rightarrow> 'e) \<Rightarrow> (input \<Rightarrow> ('o, 'e) parse_result) \<Rightarrow> input \<Rightarrow> ('o list, 'e) parse_result" where
  "length_prefixed conv g i = bind_res (map_err (lift_err conv) (leb128_u64 id i)) (\<lambda>(i', count).
     length_prefixed_loop g (unat count) [] i')"

definition length_prefixed_bytes :: "(leb128_error \<Rightarrow> 'e) \<Rightarrow> input \<Rightarrow> (bytes, 'e) parse_result" where
  "length_prefixed_bytes conv i = bind_res (map_err (lift_err conv) (leb128_u64 id i)) (\<lambda>(i', len).
     take_n (unat len) i')"

definition tuple2 ::
  "(input \<Rightarrow> ('a, 'e) parse_result) \<Rightarrow> (input \<Rightarrow> ('b, 'e) parse_result) \<Rightarrow> input
     \<Rightarrow> ('a \<times> 'b, 'e) parse_result" where
  "tuple2 f g i = bind_res (f i) (\<lambda>(i1, one). bind_res (g i1) (\<lambda>(i2, two). Inr (i2, (one, two))))"

primrec apply_n_loop ::
  "nat \<Rightarrow> (input \<Rightarrow> ('o, 'e) parse_result) \<Rightarrow> 'o list \<Rightarrow> input \<Rightarrow> ('o list, 'e) parse_result" where
  "apply_n_loop 0 f result i = Inr (i, result)"
| "apply_n_loop (Suc n) f result i =
     bind_res (f i) (\<lambda>(new_i, e). apply_n_loop n f (result @ [e]) new_i)"

definition apply_n :: "nat \<Rightarrow> (input \<Rightarrow> ('o, 'e) parse_result) \<Rightarrow> input \<Rightarrow> ('o list, 'e) parse_result"
  where
  "apply_n n f i = apply_n_loop n f [] i"

definition actor_id_p :: "(leb128_error \<Rightarrow> 'e) \<Rightarrow> input \<Rightarrow> (actor_id, 'e) parse_result" where
  "actor_id_p conv i = bind_res (map_err (lift_err conv) (leb128_u64 id i)) (\<lambda>(i', length).
     bind_res (take_n (unat length) i') (\<lambda>(i'', b). Inr (i'', ActorId b)))"

text \<open>The \<open>expect\<close> on the conversion cannot fail: \<open>take_n\<close> returned 32 bytes.\<close>

definition change_hash_p :: "input \<Rightarrow> (change_hash, 'e) parse_result" where
  "change_hash_p i = bind_res (take_n hash_size i) (\<lambda>(i', b). Inr (i', ChangeHash b))"

text \<open>
  \<open>str::from_utf8\<close>: the well-formed byte sequences of the Unicode standard (no overlong forms,
  no surrogates, at most U+10FFFF).
\<close>

definition utf8_cont :: "u8 \<Rightarrow> bool" where
  "utf8_cont b \<longleftrightarrow> 0x80 \<le> unat b \<and> unat b \<le> 0xBF"

fun utf8_valid :: "bytes \<Rightarrow> bool" where
  "utf8_valid [] = True"
| "utf8_valid (b # bs) =
     (if unat b < 0x80 then utf8_valid bs
      else if 0xC2 \<le> unat b \<and> unat b \<le> 0xDF then
        (case bs of c1 # r \<Rightarrow> utf8_cont c1 \<and> utf8_valid r | _ \<Rightarrow> False)
      else if 0xE0 \<le> unat b \<and> unat b \<le> 0xEF then
        (case bs of c1 # c2 # r \<Rightarrow> utf8_cont c1 \<and> utf8_cont c2
            \<and> (unat b = 0xE0 \<longrightarrow> 0xA0 \<le> unat c1) \<and> (unat b = 0xED \<longrightarrow> unat c1 \<le> 0x9F) \<and> utf8_valid r
         | _ \<Rightarrow> False)
      else if 0xF0 \<le> unat b \<and> unat b \<le> 0xF4 then
        (case bs of c1 # c2 # c3 # r \<Rightarrow> utf8_cont c1 \<and> utf8_cont c2 \<and> utf8_cont c3
            \<and> (unat b = 0xF0 \<longrightarrow> 0x90 \<le> unat c1) \<and> (unat b = 0xF4 \<longrightarrow> unat c1 \<le> 0x8F) \<and> utf8_valid r
         | _ \<Rightarrow> False)
      else False)"

datatype invalid_utf8 = InvalidUtf8

definition utf_8 :: "(invalid_utf8 \<Rightarrow> 'e) \<Rightarrow> nat \<Rightarrow> input \<Rightarrow> (bytes, 'e) parse_result" where
  "utf_8 conv len i = bind_res (take_n len i) (\<lambda>(i', b).
     if utf8_valid b then Inr (i', b) else Inl (lift_err conv (PError InvalidUtf8)))"

subsection \<open>Contracts of composed parsers\<close>

definition consuming :: "(input \<Rightarrow> ('o, 'e) parse_result) \<Rightarrow> bool" where
  "consuming p \<longleftrightarrow> (\<forall>i i' v. p i = Inr (i', v) \<longrightarrow> (\<exists>n \<le> length (inp_bytes i). i' = advance i n))"

lemma consuming_parser: "consuming p \<longleftrightarrow> parser p"
  by (auto simp: consuming_def parser_def)

lemma consuming_leb [intro, simp]: "consuming (leb128_u64 conv)"
  by (simp add: consuming_parser leb_u64.parser_axioms)

lemma consuming_take_n [intro, simp]: "consuming (take_n n)"
  by (simp add: consuming_parser take_n.parser_axioms)

lemma consuming_take_1 [intro, simp]: "consuming take_1"
  by (simp add: consuming_parser take_1.parser_axioms)

lemma consuming_bind:
  assumes "consuming p" and "\<And>v. consuming (\<lambda>i. f i v)"
  shows "consuming (\<lambda>i. bind_res (p i) (\<lambda>(i', v). f i' v))"
  unfolding consuming_def
proof (intro allI impI)
  fix i i' v
  assume "bind_res (p i) (\<lambda>(i', v). f i' v) = Inr (i', v)"
  then obtain j w where "p i = Inr (j, w)" and 2: "f j w = Inr (i', v)"
    by (auto simp: result_simps)
  then obtain n where n: "n \<le> length (inp_bytes i)" "j = advance i n"
    using assms(1) by (auto simp: consuming_def)
  moreover obtain m where "m \<le> length (inp_bytes j)" "i' = advance j m"
    using 2 assms(2) [of w] unfolding consuming_def by blast
  ultimately show "\<exists>n \<le> length (inp_bytes i). i' = advance i n"
    by (intro exI [of _ "n + m"]) auto
qed

lemma consuming_return [intro, simp]: "consuming (\<lambda>i. Inr (i, v))"
  by (auto simp: consuming_def intro: exI [of _ 0])

lemma consuming_fail [intro, simp]: "consuming (\<lambda>i. Inl e)"
  by (simp add: consuming_def)

lemma consuming_if [intro]: "consuming p \<Longrightarrow> consuming q \<Longrightarrow> consuming (\<lambda>i. if c then p i else q i)"
  by (simp add: consuming_def)

lemma consuming_map_err [intro]: "consuming p \<Longrightarrow> consuming (\<lambda>i. map_err f (p i))"
  by (auto simp: consuming_def result_simps)

lemma consuming_length_prefixed_loop:
  assumes "consuming g"
  shows "consuming (length_prefixed_loop g n res)"
proof (induction n arbitrary: res)
  case 0
  then show ?case by (auto simp: consuming_def intro: exI [of _ 0])
next
  case (Suc n)
  have "length_prefixed_loop g (Suc n) res
      = (\<lambda>i. bind_res (g i) (\<lambda>(i', e). length_prefixed_loop g n (res @ [e]) i'))"
    by (auto split: sum.splits)
  then show ?case using consuming_bind [OF assms Suc.IH] by simp
qed

lemma consuming_length_prefixed [intro]: "consuming g \<Longrightarrow> consuming (length_prefixed conv g)"
  unfolding length_prefixed_def
  by (intro consuming_bind consuming_map_err consuming_leb consuming_length_prefixed_loop)

lemma consuming_length_prefixed_bytes [intro, simp]: "consuming (length_prefixed_bytes conv)"
  unfolding length_prefixed_bytes_def
  by (intro consuming_bind consuming_map_err consuming_leb consuming_take_n)

lemma consuming_change_hash [intro, simp]: "consuming change_hash_p"
  unfolding change_hash_p_def by (intro consuming_bind consuming_take_n consuming_return)

lemma consuming_actor_id [intro, simp]: "consuming (actor_id_p conv)"
  unfolding actor_id_p_def
  by (intro consuming_bind consuming_map_err consuming_leb consuming_take_n consuming_return)

subsection \<open>Encoders of sequences\<close>

text \<open>The encoding of a sequence: the count, then every element.\<close>

definition enc_list :: "('a \<Rightarrow> bytes) \<Rightarrow> 'a list \<Rightarrow> bytes" where
  "enc_list enc xs = uleb (length xs) @ concat (map enc xs)"

text \<open>A byte string behind its length.\<close>

definition enc_bytes :: "bytes \<Rightarrow> bytes" where
  "enc_bytes b = uleb (length b) @ b"

definition fits64 :: "'a list \<Rightarrow> bool" where
  "fits64 xs \<longleftrightarrow> length xs < 2 ^ 64"

lemma leb_count:
  assumes "inp_bytes i = uleb n @ r" and "n < 2 ^ 64"
  shows "leb128_u64 conv i = Inr (advance i (length (uleb n)), word_of_nat n)"
proof -
  have "unat (word_of_nat n :: u64) = n"
    using assms(2) by (simp add: unsigned_of_nat take_bit_nat_eq_self)
  then show ?thesis
    using leb128_u64_complete [of i "word_of_nat n" r conv] assms(1) by simp
qed

lemma unat_u64_of_nat: "n < 2 ^ 64 \<Longrightarrow> unat (word_of_nat n :: u64) = n"
  by (simp add: unsigned_of_nat take_bit_nat_eq_self)

context codec
begin

lemma loop_enc:
  assumes "\<forall>x \<in> set xs. valid x" and "inp_bytes i = concat (map enc xs) @ rest"
  shows "length_prefixed_loop dec (length xs) acc i
     = Inr (advance i (length (concat (map enc xs))), acc @ xs)"
  using assms
proof (induction xs arbitrary: acc i)
  case Nil
  then show ?case by simp
next
  case (Cons x xs)
  have d: "dec i = Inr (advance i (length (enc x)), x)"
    by (rule dec_enc) (use Cons.prems in auto)
  have "length_prefixed_loop dec (length xs) (acc @ [x]) (advance i (length (enc x)))
      = Inr (advance (advance i (length (enc x))) (length (concat (map enc xs))), (acc @ [x]) @ xs)"
    by (rule Cons.IH) (use Cons.prems in auto)
  with d show ?case by simp
qed

lemma length_prefixed_codec:
  "codec (enc_list enc) (length_prefixed conv dec) (\<lambda>xs. fits64 xs \<and> (\<forall>x \<in> set xs. valid x))"
proof
  fix xs and i :: input and rest
  assume v: "fits64 xs \<and> (\<forall>x \<in> set xs. valid x)" and i: "inp_bytes i = enc_list enc xs @ rest"
  have l: "length xs < 2 ^ 64" using v by (simp add: fits64_def)
  have c: "leb128_u64 id i = Inr (advance i (length (uleb (length xs))), word_of_nat (length xs))"
    by (rule leb_count [OF _ l]) (simp add: i enc_list_def)
  have "length_prefixed_loop dec (length xs) [] (advance i (length (uleb (length xs))))
      = Inr (advance (advance i (length (uleb (length xs)))) (length (concat (map enc xs))), [] @ xs)"
    by (rule loop_enc) (use v i in \<open>auto simp: enc_list_def\<close>)
  then show "length_prefixed conv dec i = Inr (advance i (length (enc_list enc xs)), xs)"
    by (simp add: length_prefixed_def c unat_u64_of_nat [OF l] enc_list_def)
qed

end

lemma codec_length_prefixed_bytes: "codec enc_bytes (length_prefixed_bytes conv) fits64"
proof
  fix b :: bytes and i :: input and rest
  assume v: "fits64 b" and i: "inp_bytes i = enc_bytes b @ rest"
  have l: "length b < 2 ^ 64" using v by (simp add: fits64_def)
  have c: "leb128_u64 id i = Inr (advance i (length (uleb (length b))), word_of_nat (length b))"
    by (rule leb_count [OF _ l]) (simp add: i enc_bytes_def)
  then show "length_prefixed_bytes conv i = Inr (advance i (length (enc_bytes b)), b)"
    using i by (simp add: length_prefixed_bytes_def unat_u64_of_nat [OF l] enc_bytes_def take_n_eq)
qed

lemma codec_tuple2:
  assumes "codec e1 p1 v1" and "codec e2 p2 v2"
  shows "codec (\<lambda>(a, b). e1 a @ e2 b) (tuple2 p1 p2) (\<lambda>(a, b). v1 a \<and> v2 b)"
proof
  fix x and i :: input and rest
  assume v: "case x of (a, b) \<Rightarrow> v1 a \<and> v2 b" and i: "inp_bytes i = (case x of (a, b) \<Rightarrow> e1 a @ e2 b) @ rest"
  obtain a b where x: "x = (a, b)" by (cases x)
  have "p1 i = Inr (advance i (length (e1 a)), a)"
    by (rule codec.dec_enc [OF assms(1)]) (use v i x in auto)
  moreover have "p2 (advance i (length (e1 a))) = Inr (advance (advance i (length (e1 a))) (length (e2 b)), b)"
    by (rule codec.dec_enc [OF assms(2)]) (use v i x in auto)
  ultimately show "tuple2 p1 p2 i = Inr (advance i (length (case x of (a, b) \<Rightarrow> e1 a @ e2 b)), x)"
    by (simp add: tuple2_def x)
qed

lemma codec_map_p:
  assumes "codec enc p v" and "\<And>y. f (g y) = y"
  shows "codec (\<lambda>y. enc (g y)) (map_p p f) (\<lambda>y. v (g y))"
proof
  fix y and i :: input and rest
  assume "v (g y)" and "inp_bytes i = enc (g y) @ rest"
  then have "p i = Inr (advance i (length (enc (g y))), g y)"
    by (rule codec.dec_enc [OF assms(1)])
  then show "map_p p f i = Inr (advance i (length (enc (g y))), y)"
    by (simp add: map_p_def assms(2))
qed

lemma codec_change_hash: "codec hash_bytes change_hash_p hash_ok"
  by unfold_locales (auto simp: change_hash_p_def hash_ok_def take_n_eq)

lemma codec_actor_id: "codec (\<lambda>a. enc_bytes (actor_bytes a)) (actor_id_p conv) (\<lambda>a. fits64 (actor_bytes a))"
proof
  fix a and i :: input and rest
  assume "fits64 (actor_bytes a)" and i: "inp_bytes i = enc_bytes (actor_bytes a) @ rest"
  then have l: "length (actor_bytes a) < 2 ^ 64" by (simp add: fits64_def)
  have c: "leb128_u64 id i = Inr (advance i (length (uleb (length (actor_bytes a)))), word_of_nat (length (actor_bytes a)))"
    by (rule leb_count [OF _ l]) (simp add: i enc_bytes_def)
  then show "actor_id_p conv i = Inr (advance i (length (enc_bytes (actor_bytes a))), a)"
    using i by (simp add: actor_id_p_def unat_u64_of_nat [OF l] enc_bytes_def take_n_eq)
qed

interpretation change_hash: codec hash_bytes change_hash_p hash_ok
  by (rule codec_change_hash)

interpretation change_hashes: codec "enc_list hash_bytes" "length_prefixed conv change_hash_p"
  "\<lambda>hs. fits64 hs \<and> (\<forall>h \<in> set hs. hash_ok h)" for conv
  by (rule change_hash.length_prefixed_codec)

interpretation prefixed_bytes: codec enc_bytes "length_prefixed_bytes conv" fits64 for conv
  by (rule codec_length_prefixed_bytes)

interpretation actor_ids: codec "\<lambda>a. enc_bytes (actor_bytes a)" "actor_id_p conv" "\<lambda>a. fits64 (actor_bytes a)" for conv
  by (rule codec_actor_id)

text \<open>The two repetition loops of the source do the same.\<close>

lemma apply_n_loop_eq: "apply_n_loop n f acc i = length_prefixed_loop f n acc i"
  by (induction n arbitrary: acc i) (auto split: sum.splits)

lemma length_prefixed_loop_length:
  "length_prefixed_loop g n acc i = Inr (i', xs) \<Longrightarrow> length xs = length acc + n"
  by (induction n arbitrary: acc i) (auto split: sum.splits)

end
