(* ===== verification/Columns.thy ===== *)
theory Columns
  imports Parse
begin

text \<open>
  Column specifications (\<open>storage/columns/column_specification.rs\<close>) and the raw columns built from
  them (\<open>storage/columns/raw_column.rs\<close>): parsing and writing the column metadata, and
  compressing and decompressing the column data with an external deflate codec.
\<close>

unbundle bit_operations_syntax

subsection \<open>Column specifications\<close>

datatype column_type = Group | Actor | Integer | DeltaInteger | Boolean | String | ValueMetadata | Value

text \<open>The eighth arm of the match is \<open>unreachable!()\<close>: three bits have eight values.\<close>

definition col_type_from_u8 :: "u8 \<Rightarrow> column_type" where
  "col_type_from_u8 v = (let type_bits = v AND 0x07 in
     if type_bits = 0 then Group
     else if type_bits = 1 then Actor
     else if type_bits = 2 then Integer
     else if type_bits = 3 then DeltaInteger
     else if type_bits = 4 then Boolean
     else if type_bits = 5 then String
     else if type_bits = 6 then ValueMetadata
     else Value)"

fun col_type_as_u8 :: "column_type \<Rightarrow> u8" where
  "col_type_as_u8 Group = 0"
| "col_type_as_u8 Actor = 1"
| "col_type_as_u8 Integer = 2"
| "col_type_as_u8 DeltaInteger = 3"
| "col_type_as_u8 Boolean = 4"
| "col_type_as_u8 String = 5"
| "col_type_as_u8 ValueMetadata = 6"
| "col_type_as_u8 Value = 7"

datatype column_spec = ColumnSpec (spec_raw: u32)

definition spec_new :: "u32 \<Rightarrow> column_type \<Rightarrow> bool \<Rightarrow> column_spec" where
  "spec_new cid col_type deflate =
     (let raw = push_bit 4 cid;
          raw = raw OR ucast (col_type_as_u8 col_type)
      in if deflate then ColumnSpec (raw OR 0x08) else ColumnSpec (raw AND 0xF7))"

definition spec_col_type :: "column_spec \<Rightarrow> column_type" where
  "spec_col_type s = col_type_from_u8 (ucast (spec_raw s))"

definition spec_id :: "column_spec \<Rightarrow> u32" where
  "spec_id s = drop_bit 4 (spec_raw s)"

definition spec_deflate :: "column_spec \<Rightarrow> bool" where
  "spec_deflate s \<longleftrightarrow> spec_raw s AND 0x08 > 0"

definition spec_deflated :: "column_spec \<Rightarrow> column_spec" where
  "spec_deflated s = spec_new (spec_id s) (spec_col_type s) True"

definition spec_inflated :: "column_spec \<Rightarrow> column_spec" where
  "spec_inflated s = spec_new (spec_id s) (spec_col_type s) False"

definition spec_normalize :: "column_spec \<Rightarrow> u32" where
  "spec_normalize s = spec_raw s AND 0xF7"

text \<open>\<open>Ord for ColumnSpec\<close> compares the normalized forms.\<close>

definition spec_less :: "column_spec \<Rightarrow> column_spec \<Rightarrow> bool" where
  "spec_less a b \<longleftrightarrow> spec_normalize a < spec_normalize b"

subsection \<open>The bits of a specification\<close>

text \<open>The masks, as the integers the simplifier reduces word literals to.\<close>

lemma bit_08: "bit (8 :: int) n \<longleftrightarrow> n = 3"
proof -
  have "bit (8 :: int) n = bit (push_bit 3 (1 :: int)) n" by simp
  also have "\<dots> \<longleftrightarrow> n = 3" by (simp only: bit_push_bit_iff bit_1_iff) auto
  finally show ?thesis .
qed

lemma bit_F7: "bit (247 :: int) n \<longleftrightarrow> n < 8 \<and> n \<noteq> 3"
proof -
  have "bit (247 :: int) n = bit (mask 8 AND NOT 8 :: int) n" by (simp add: mask_eq_exp_minus_1)
  also have "\<dots> \<longleftrightarrow> n < 8 \<and> n \<noteq> 3"
    by (simp only: bit_and_iff bit_not_iff bit_08 bit_mask_iff) auto
  finally show ?thesis .
qed

lemma bit_07: "bit (7 :: int) n \<longleftrightarrow> n < 3"
proof -
  have "bit (7 :: int) n = bit (mask 3 :: int) n" by (simp add: mask_eq_exp_minus_1)
  then show ?thesis by (simp only: bit_mask_iff) simp
qed

lemma bit_col_type: "bit (ucast (col_type_as_u8 t) :: u32) n \<longleftrightarrow> n < 3 \<and> bit (col_type_as_u8 t) n"
proof -
  have "take_bit 3 (col_type_as_u8 t) = col_type_as_u8 t" by (cases t) simp_all
  then have "bit (col_type_as_u8 t) n \<longleftrightarrow> n < 3 \<and> bit (col_type_as_u8 t) n"
    by (metis bit_take_bit_iff)
  then show ?thesis by (auto simp: bit_simps)
qed

lemma bit_spec_new:
  "bit (spec_raw (spec_new c t d)) n \<longleftrightarrow>
     (if d then n < 32 \<and> (4 \<le> n \<and> bit c (n - 4) \<or> n < 3 \<and> bit (col_type_as_u8 t) n \<or> n = 3)
      else n < 8 \<and> n \<noteq> 3 \<and> (4 \<le> n \<and> bit c (n - 4) \<or> n < 3 \<and> bit (col_type_as_u8 t) n))"
  by (auto simp: spec_new_def Let_def bit_or_iff bit_and_iff bit_08 bit_F7 bit_col_type bit_push_bit_iff)

lemma col_type_from_as: "v AND 0x07 = col_type_as_u8 t \<Longrightarrow> col_type_from_u8 v = t"
  by (cases t) (simp_all add: col_type_from_u8_def)

lemma spec_new_col_type: "spec_col_type (spec_new c t d) = t"
  unfolding spec_col_type_def
proof (rule col_type_from_as, rule bit_word_eqI)
  fix n :: nat assume n: "n < LENGTH(8)"
  have "take_bit 3 (col_type_as_u8 t) = col_type_as_u8 t" by (cases t) simp_all
  then have t: "bit (col_type_as_u8 t) n \<longleftrightarrow> n < 3 \<and> bit (col_type_as_u8 t) n"
    by (metis bit_take_bit_iff)
  show "bit (ucast (spec_raw (spec_new c t d)) AND 0x07 :: u8) n = bit (col_type_as_u8 t) n"
    using n by (subst t) (auto simp: bit_07 bit_and_iff bit_ucast_iff bit_spec_new)
qed

lemma spec_new_deflate: "spec_deflate (spec_new c t d) = d"
proof -
  have "spec_raw s AND 0x08 > 0 \<longleftrightarrow> bit (spec_raw s) 3" for s
  proof -
    have "(0x08 :: u32) = push_bit 3 1" by simp
    then have "bit (spec_raw s) 3 \<longleftrightarrow> spec_raw s AND 0x08 \<noteq> 0"
      by (simp add: bit_iff_and_push_bit_not_eq_0)
    then show ?thesis by (simp add: word_gt_0)
  qed
  then show ?thesis by (simp add: spec_deflate_def bit_spec_new)
qed

text \<open>A compressed specification keeps 28 bits of the id, an uncompressed one only four.\<close>

lemma spec_new_id: "spec_id (spec_new c t d) = (if d then c AND mask 28 else c AND mask 4)"
  by (rule bit_word_eqI) (auto simp: spec_id_def bit_drop_bit_eq bit_spec_new bit_and_iff bit_mask_iff)

lemma spec_new_normalize: "spec_normalize (spec_new c t d) = spec_raw (spec_new (c AND mask 4) t False)"
  by (rule bit_word_eqI)
    (auto simp: spec_normalize_def bit_spec_new bit_and_iff bit_F7 bit_mask_iff)

lemma spec_raw_eqI: "spec_raw a = spec_raw b \<Longrightarrow> a = b"
  by (cases a; cases b) simp

lemma id_small: "unat (c :: u32) < 16 \<Longrightarrow> c AND mask 4 = c" "unat (c :: u32) < 2 ^ 28 \<Longrightarrow> c AND mask 28 = c"
  by (auto intro!: unat_eqI simp: unat_and_mask_mod)


subsection \<open>Raw columns\<close>

text \<open>A column: its specification and the range of its data in the column data block.\<close>

record raw_column =
  rc_spec :: column_spec
  rc_data :: "nat \<times> nat"

definition range_len :: "nat \<times> nat \<Rightarrow> nat" where
  "range_len r = snd r - fst r"

text \<open>The slice \<open>input[a..b]\<close>; \<open>None\<close> is the panic.\<close>

definition slice :: "'a list \<Rightarrow> nat \<times> nat \<Rightarrow> 'a list option" where
  "slice xs r = (if fst r \<le> snd r \<and> snd r \<le> length xs
     then Some (take (snd r - fst r) (drop (fst r) xs)) else None)"

definition raw_column_new :: "column_spec \<Rightarrow> nat \<times> nat \<Rightarrow> raw_column" where
  "raw_column_new spec data =
     \<lparr>rc_spec = spec_new (spec_id spec) (spec_col_type spec) False, rc_data = data\<rparr>"

datatype raw_parse_error = NotInNormalOrder | RawLeb128 leb128_error | RawDeflate

text \<open>
  \<open>flate2\<close> is an argument: \<open>defl\<close> compresses, \<open>infl\<close> decompresses or fails. The results hold
  the new specification, its length and the output buffer.
\<close>

definition col_compress ::
  "(bytes \<Rightarrow> bytes) \<Rightarrow> raw_column \<Rightarrow> bytes \<Rightarrow> bytes \<Rightarrow> nat \<Rightarrow> (column_spec \<times> nat \<times> bytes) option" where
  "col_compress defl c input out threshold =
     Option.bind (slice input (rc_data c)) (\<lambda>data.
       if range_len (rc_data c) < threshold \<or> spec_deflate (rc_spec c)
       then Some (rc_spec c, range_len (rc_data c), out @ data)
       else Some (spec_deflated (rc_spec c), length (defl data), out @ defl data))"

definition col_uncompressed :: "raw_column \<Rightarrow> raw_column option" where
  "col_uncompressed c = (if spec_deflate (rc_spec c) then None else Some c)"

definition col_decompress ::
  "(bytes \<Rightarrow> bytes option) \<Rightarrow> raw_column \<Rightarrow> bytes \<Rightarrow> bytes
     \<Rightarrow> (raw_parse_error + column_spec \<times> nat \<times> bytes) option" where
  "col_decompress infl c input out =
     Option.bind (slice input (rc_data c)) (\<lambda>data.
       if spec_deflate (rc_spec c)
       then (case infl data of
               None \<Rightarrow> Some (Inl RawDeflate)
             | Some d \<Rightarrow> Some (Inr (spec_inflated (rc_spec c), length d, out @ d)))
       else Some (Inr (spec_inflated (rc_spec c), range_len (rc_data c), out @ data)))"

fun cols_uncompressed_loop :: "raw_column list \<Rightarrow> raw_column list \<Rightarrow> raw_column list option" where
  "cols_uncompressed_loop [] result = Some result"
| "cols_uncompressed_loop (c # cs) result =
     (case col_uncompressed c of
        Some uncomp \<Rightarrow> cols_uncompressed_loop cs (result @ [uncomp])
      | None \<Rightarrow> None)"

definition cols_uncompressed :: "raw_column list \<Rightarrow> raw_column list option" where
  "cols_uncompressed cols = cols_uncompressed_loop cols []"

text \<open>The loops over the columns carry the result, the start of the next range and the output.\<close>

fun cols_compress_loop ::
  "(bytes \<Rightarrow> bytes) \<Rightarrow> raw_column list \<Rightarrow> bytes \<Rightarrow> nat \<Rightarrow> raw_column list \<Rightarrow> nat \<Rightarrow> bytes
     \<Rightarrow> (raw_column list \<times> bytes) option" where
  "cols_compress_loop defl [] input threshold result start out = Some (result, out)"
| "cols_compress_loop defl (c # cs) input threshold result start out =
     Option.bind (col_compress defl c input out threshold) (\<lambda>(spec, len, out').
       cols_compress_loop defl cs input threshold
         (result @ [\<lparr>rc_spec = spec, rc_data = (start, start + len)\<rparr>]) (start + len) out')"

definition cols_compress ::
  "(bytes \<Rightarrow> bytes) \<Rightarrow> raw_column list \<Rightarrow> bytes \<Rightarrow> bytes \<Rightarrow> nat \<Rightarrow> (raw_column list \<times> bytes) option" where
  "cols_compress defl cols input out threshold = cols_compress_loop defl cols input threshold [] 0 out"

fun cols_uncompress_loop ::
  "(bytes \<Rightarrow> bytes option) \<Rightarrow> raw_column list \<Rightarrow> bytes \<Rightarrow> raw_column list \<Rightarrow> nat \<Rightarrow> bytes
     \<Rightarrow> (raw_parse_error + raw_column list \<times> bytes) option" where
  "cols_uncompress_loop infl [] input result start out = Some (Inr (result, out))"
| "cols_uncompress_loop infl (c # cs) input result start out =
     Option.bind
       (case col_uncompressed c of
          Some decomp \<Rightarrow> map_option (\<lambda>data. Inr (rc_spec decomp, range_len (rc_data decomp), out @ data))
                           (slice input (rc_data decomp))
        | None \<Rightarrow> col_decompress infl c input out)
       (\<lambda>r. case r of
          Inl e \<Rightarrow> Some (Inl e)
        | Inr (spec, len, out') \<Rightarrow> cols_uncompress_loop infl cs input
            (result @ [\<lparr>rc_spec = spec, rc_data = (start, start + len)\<rparr>]) (start + len) out')"

definition cols_uncompress ::
  "(bytes \<Rightarrow> bytes option) \<Rightarrow> raw_column list \<Rightarrow> bytes \<Rightarrow> bytes
     \<Rightarrow> (raw_parse_error + raw_column list \<times> bytes) option" where
  "cols_uncompress infl cols input out = cols_uncompress_loop infl cols input [] 0 out"

text \<open>Both \<open>FromIterator\<close> instances drop empty columns; a range \<open>a..b\<close> is empty unless \<open>a < b\<close>.\<close>

definition cols_from_columns :: "raw_column list \<Rightarrow> raw_column list" where
  "cols_from_columns cs = filter (\<lambda>c. fst (rc_data c) < snd (rc_data c)) cs"

definition cols_from_pairs :: "(column_spec \<times> nat \<times> nat) list \<Rightarrow> raw_column list" where
  "cols_from_pairs ps = List.map_filter (\<lambda>(spec, a, b).
     if \<not> a < b then None else Some \<lparr>rc_spec = spec, rc_data = (a, b)\<rparr>) ps"

fun are_normal_sorted :: "raw_column list \<Rightarrow> bool" where
  "are_normal_sorted (a # b # cs) =
     (if spec_normalize (rc_spec b) < spec_normalize (rc_spec a) then False
      else are_normal_sorted (b # cs))"
| "are_normal_sorted _ = True"

definition saturating_add_usize :: "nat \<Rightarrow> nat \<Rightarrow> nat" where
  "saturating_add_usize a b = min (a + b) (2 ^ 64 - 1)"

text \<open>The \<open>scan\<close> of the parser turns lengths into consecutive ranges.\<close>

fun scan_columns :: "nat \<Rightarrow> (column_spec \<times> u64) list \<Rightarrow> raw_column list" where
  "scan_columns offset [] = []"
| "scan_columns offset ((spec, len) # r) =
     (let e = saturating_add_usize offset (unat len)
      in \<lparr>rc_spec = spec, rc_data = (offset, e)\<rparr> # scan_columns e r)"

definition cols_parse :: "(raw_parse_error \<Rightarrow> 'e) \<Rightarrow> input \<Rightarrow> (raw_column list, 'e) parse_result" where
  "cols_parse conv i =
     bind_res (map_err (lift_err conv) (leb128_u64 RawLeb128 i)) (\<lambda>(i1, num_columns).
     bind_res (map_err (lift_err conv)
       (apply_n (unat num_columns)
          (tuple2 (map_p (leb128_u32 RawLeb128) ColumnSpec) (leb128_u64 RawLeb128)) i1)) (\<lambda>(i2, specs_and_lens).
     let columns = scan_columns 0 specs_and_lens
     in if \<not> are_normal_sorted columns then Inl (PError (conv NotInNormalOrder))
        else Inr (i2, columns)))"

text \<open>The writer of the \<open>leb128\<close> crate is an argument.\<close>

fun cols_write_loop :: "(u64 \<Rightarrow> bytes) \<Rightarrow> raw_column list \<Rightarrow> nat \<Rightarrow> bytes \<Rightarrow> bytes \<times> nat" where
  "cols_write_loop wu [] written out = (out, written)"
| "cols_write_loop wu (c # cs) written out =
     (let s = wu (ucast (spec_raw (rc_spec c)));
          l = wu (word_of_nat (range_len (rc_data c)))
      in cols_write_loop wu cs (written + length s + length l) (out @ s @ l))"

definition cols_write :: "(u64 \<Rightarrow> bytes) \<Rightarrow> raw_column list \<Rightarrow> bytes \<Rightarrow> bytes \<times> nat" where
  "cols_write wu cols out = (let n = wu (word_of_nat (length cols))
     in cols_write_loop wu cols (length n) (out @ n))"

definition total_column_len :: "raw_column list \<Rightarrow> nat" where
  "total_column_len cols = sum_list (map (\<lambda>c. range_len (rc_data c)) cols)"


subsection \<open>Parsing what was written\<close>

definition enc_column :: "raw_column \<Rightarrow> bytes" where
  "enc_column c = uleb (unat (spec_raw (rc_spec c))) @ uleb (range_len (rc_data c))"

text \<open>Consecutive ranges from a start.\<close>

fun contiguous :: "nat \<Rightarrow> raw_column list \<Rightarrow> bool" where
  "contiguous start [] = True"
| "contiguous start (c # cs) \<longleftrightarrow> fst (rc_data c) = start \<and> start \<le> snd (rc_data c)
     \<and> contiguous (snd (rc_data c)) cs"

lemma contiguous_last_le: "contiguous start cs \<Longrightarrow> start + total_column_len cs = (case cs of [] \<Rightarrow> start | _ \<Rightarrow> snd (rc_data (last cs)))"
  by (induction start cs rule: contiguous.induct)
    (auto simp: total_column_len_def range_len_def split: list.splits)

lemma cols_write_loop_eq:
  assumes "writes_uleb wu" and "\<forall>c \<in> set cols. range_len (rc_data c) < 2 ^ 64"
  shows "cols_write_loop wu cols written out =
    (out @ concat (map enc_column cols), written + length (concat (map enc_column cols)))"
  using assms(2)
proof (induction cols arbitrary: written out)
  case Nil
  then show ?case by simp
next
  case (Cons c cs)
  have "wu (ucast (spec_raw (rc_spec c))) = uleb (unat (spec_raw (rc_spec c)))"
    using assms(1) by (simp add: writes_uleb_def)
  moreover have "wu (word_of_nat (range_len (rc_data c))) = uleb (range_len (rc_data c))"
    using assms(1) Cons.prems unat_u64_of_nat [of "range_len (rc_data c)"] by (simp add: writes_uleb_def)
  ultimately show ?case
    using Cons by (simp add: enc_column_def Let_def)
qed

lemma cols_write_eq:
  assumes "writes_uleb wu" and "\<forall>c \<in> set cols. range_len (rc_data c) < 2 ^ 64" and "length cols < 2 ^ 64"
  shows "cols_write wu cols out = (out @ enc_list enc_column cols, length (enc_list enc_column cols))"
  using assms cols_write_loop_eq [OF assms(1,2)] unat_u64_of_nat [OF assms(3)]
  by (simp add: cols_write_def Let_def enc_list_def writes_uleb_def)

lemma scan_columns_contiguous:
  assumes "contiguous start cols" and "start + total_column_len cols < 2 ^ 64"
  shows "scan_columns start (map (\<lambda>c. (rc_spec c, word_of_nat (range_len (rc_data c)))) cols) = cols"
  using assms
proof (induction start cols rule: contiguous.induct)
  case 1
  then show ?case by simp
next
  case (2 start c cs)
  then have r: "rc_data c = (start, start + range_len (rc_data c))"
    by (cases "rc_data c") (auto simp: range_len_def)
  have l: "start + range_len (rc_data c) < 2 ^ 64"
    using "2.prems"(2) by (simp add: total_column_len_def)
  then have u: "unat (word_of_nat (range_len (rc_data c)) :: u64) = range_len (rc_data c)"
    by (intro unat_u64_of_nat) simp
  have e: "saturating_add_usize start (range_len (rc_data c)) = start + range_len (rc_data c)"
    using l by (simp add: saturating_add_usize_def min_def)
  have "snd (rc_data c) = start + range_len (rc_data c)" using r by (metis snd_conv)
  moreover have "scan_columns (snd (rc_data c)) (map (\<lambda>c. (rc_spec c, word_of_nat (range_len (rc_data c)))) cs) = cs"
    by (rule "2.IH") (use "2.prems" calculation in \<open>auto simp: total_column_len_def\<close>)
  ultimately show ?case using r by (simp add: u e Let_def)
qed

lemma codec_column:
  "codec (\<lambda>(s, l). uleb (unat (spec_raw s)) @ uleb (unat l))
     (tuple2 (map_p (leb128_u32 conv) ColumnSpec) (leb128_u64 conv)) (\<lambda>_. True)"
proof -
  have "codec (\<lambda>s. uleb (unat (spec_raw s))) (map_p (leb128_u32 conv) ColumnSpec) (\<lambda>s. True)"
    using codec_map_p [OF leb_u32.codec_axioms, of ColumnSpec spec_raw] by simp
  from codec_tuple2 [OF this leb_u64.codec_axioms] show ?thesis by (simp add: case_prod_beta')
qed

interpretation columns: codec "\<lambda>(s, l). uleb (unat (spec_raw s)) @ uleb (unat l)"
  "tuple2 (map_p (leb128_u32 conv) ColumnSpec) (leb128_u64 conv)" "\<lambda>_. True" for conv
  by (rule codec_column)

lemma cols_parse_enc:
  assumes "contiguous 0 cols" and "total_column_len cols < 2 ^ 64" and "length cols < 2 ^ 64"
    and "are_normal_sorted cols" and i: "inp_bytes i = enc_list enc_column cols @ rest"
  shows "cols_parse conv i = Inr (advance i (length (enc_list enc_column cols)), cols)"
proof -
  let ?ps = "map (\<lambda>c. (rc_spec c, word_of_nat (range_len (rc_data c)) :: u64)) cols"
  let ?enc = "\<lambda>(s, l). uleb (unat (spec_raw s)) @ uleb (unat (l :: u64))"
  let ?n = "length (uleb (length cols))"
  have rl: "range_len (rc_data c) < 2 ^ 64" if "c \<in> set cols" for c
    using member_le_sum_list [of "range_len (rc_data c)" "map (\<lambda>c. range_len (rc_data c)) cols"] that assms(2)
    by (auto simp: total_column_len_def)
  have enc: "map ?enc ?ps = map enc_column cols"
    by (simp add: enc_column_def unat_u64_of_nat [OF rl])
  have "leb128_u64 RawLeb128 i = Inr (advance i ?n, word_of_nat (length cols))"
    by (rule leb_count [OF _ assms(3)]) (simp add: i enc_list_def)
  moreover have "length_prefixed_loop (tuple2 (map_p (leb128_u32 RawLeb128) ColumnSpec) (leb128_u64 RawLeb128))
      (length ?ps) [] (advance i ?n)
    = Inr (advance (advance i ?n) (length (concat (map ?enc ?ps))), [] @ ?ps)"
    by (rule columns.loop_enc) (simp_all only: enc, simp_all add: i enc_list_def)
  then have "length_prefixed_loop (tuple2 (map_p (leb128_u32 RawLeb128) ColumnSpec) (leb128_u64 RawLeb128))
      (length cols) [] (advance i ?n)
    = Inr (advance i (?n + length (concat (map enc_column cols))), ?ps)"
    by (simp only: enc length_map append_Nil advance_advance)
  ultimately show ?thesis
    using scan_columns_contiguous [OF assms(1)] assms(2,4) unat_u64_of_nat [OF assms(3)]
    by (simp add: cols_parse_def apply_n_def apply_n_loop_eq enc_list_def Let_def)
qed


subsection \<open>Compression\<close>

text \<open>What is stored for a column, and what a stored column is read back as.\<close>

definition stored :: "(bytes \<Rightarrow> bytes) \<Rightarrow> nat \<Rightarrow> column_spec \<Rightarrow> bytes \<Rightarrow> column_spec \<times> bytes" where
  "stored defl threshold spec data =
     (if length data < threshold \<or> spec_deflate spec then (spec, data) else (spec_deflated spec, defl data))"

definition loaded :: "(bytes \<Rightarrow> bytes option) \<Rightarrow> column_spec \<times> bytes \<Rightarrow> (column_spec \<times> bytes) option" where
  "loaded infl p = (if spec_deflate (fst p)
     then map_option (\<lambda>d. (spec_inflated (fst p), d)) (infl (snd p)) else Some p)"

fun layout :: "nat \<Rightarrow> (column_spec \<times> bytes) list \<Rightarrow> raw_column list" where
  "layout start [] = []"
| "layout start ((spec, b) # r) = \<lparr>rc_spec = spec, rc_data = (start, start + length b)\<rparr> # layout (start + length b) r"

definition column_bytes :: "bytes \<Rightarrow> raw_column \<Rightarrow> bytes" where
  "column_bytes input c = the (slice input (rc_data c))"

definition in_bounds :: "bytes \<Rightarrow> raw_column \<Rightarrow> bool" where
  "in_bounds input c \<longleftrightarrow> fst (rc_data c) \<le> snd (rc_data c) \<and> snd (rc_data c) \<le> length input"

lemma slice_in_bounds: "in_bounds input c \<Longrightarrow> slice input (rc_data c) = Some (column_bytes input c)"
  by (simp add: in_bounds_def slice_def column_bytes_def)

lemma column_bytes_length: "in_bounds input c \<Longrightarrow> length (column_bytes input c) = range_len (rc_data c)"
  by (auto simp: in_bounds_def slice_def column_bytes_def range_len_def)

lemma cols_compress_loop_eq:
  assumes "\<forall>c \<in> set cols. in_bounds input c"
  shows "cols_compress_loop defl cols input th result start out =
    (let ps = map (\<lambda>c. stored defl th (rc_spec c) (column_bytes input c)) cols
     in Some (result @ layout start ps, out @ concat (map snd ps)))"
  using assms
proof (induction cols arbitrary: result start out)
  case Nil
  then show ?case by simp
next
  case (Cons c cs)
  then have b: "in_bounds input c" by simp
  show ?case
    using Cons column_bytes_length [OF b]
    by (simp add: col_compress_def slice_in_bounds [OF b] stored_def Let_def)
qed

lemma slice_middle: "length pre = start \<Longrightarrow> slice (pre @ b @ post) (start, start + length b) = Some b"
  by (simp add: slice_def)

lemma cols_uncompress_layout:
  assumes "input = pre @ concat (map snd ps) @ post" and "length pre = start"
    and "\<forall>p \<in> set ps. loaded infl p \<noteq> None"
  shows "cols_uncompress_loop infl (layout start ps) input result start' out =
    (let qs = map (\<lambda>p. the (loaded infl p)) ps
     in Some (Inr (result @ layout start' qs, out @ concat (map snd qs))))"
  using assms
proof (induction ps arbitrary: pre start result start' out)
  case Nil
  then show ?case by simp
next
  case (Cons p ps)
  obtain spec b where p: "p = (spec, b)" by (cases p)
  have s: "slice input (start, start + length b) = Some b"
    using Cons.prems(1,2) by (simp add: p slice_middle)
  have "input = (pre @ b) @ concat (map snd ps) @ post" and "length (pre @ b) = start + length b"
    and "\<forall>p \<in> set ps. loaded infl p \<noteq> None"
    using Cons.prems by (simp_all add: p)
  note IH = Cons.IH [OF this]
  obtain spec' b' where q: "loaded infl p = Some (spec', b')"
    using Cons.prems(3) by (cases "loaded infl p") auto
  show ?case
  proof (cases "spec_deflate spec")
    case True
    then obtain d where "infl b = Some d" and "spec' = spec_inflated spec" "b' = d"
      using q by (auto simp: loaded_def p)
    then show ?thesis
      using True s q IH by (simp add: p col_uncompressed_def col_decompress_def Let_def)
  next
    case False
    then have "spec' = spec" "b' = b" using q by (auto simp: loaded_def p)
    then show ?thesis
      using False s q IH by (simp add: p col_uncompressed_def range_len_def Let_def)
  qed
qed

text \<open>A specification whose id fits in four bits survives deflating and inflating.\<close>

lemma spec_cases:
  assumes "unat (spec_raw s) < 256" and "\<not> spec_deflate s"
  shows "spec_inflated (spec_deflated s) = s"
proof -
  have s8: "bit (spec_raw s) n \<Longrightarrow> n < 8" for n
  proof -
    have "take_bit 8 (spec_raw s) = spec_raw s"
      using assms(1) unat_and_mask_mod [of "spec_raw s" 8]
      by (intro unat_eqI) (simp add: take_bit_eq_mask)
    then show "bit (spec_raw s) n \<Longrightarrow> n < 8" by (metis bit_take_bit_iff)
  qed
  have b3: "\<not> bit (spec_raw s) 3"
  proof -
    have "(0x08 :: u32) = push_bit 3 1" by simp
    then have "bit (spec_raw s) 3 \<longleftrightarrow> spec_raw s AND 0x08 \<noteq> 0"
      by (simp add: bit_iff_and_push_bit_not_eq_0)
    then show ?thesis using assms(2) by (simp add: spec_deflate_def word_gt_0)
  qed
  have ct: "col_type_as_u8 (col_type_from_u8 v) = v AND 0x07" for v
  proof -
    have "unat (v AND 0x07) < 8"
    proof -
      have "(0x07 :: u8) = mask 3" by (simp add: mask_eq_exp_minus_1)
      then show ?thesis using unat_and_mask_mod [of v 3] by simp
    qed
    then have "v AND 0x07 \<in> {0, 1, 2, 3, 4, 5, 6, 7}"
      by (auto simp: word_unat_eq_iff elim!: less_SucE simp flip: less_Suc_eq_le simp del: One_nat_def)
    then show ?thesis by (auto simp: col_type_from_u8_def)
  qed
  note bits = spec_inflated_def spec_deflated_def spec_new_id spec_new_col_type bit_spec_new
    spec_id_def bit_and_iff bit_mask_iff bit_drop_bit_eq spec_col_type_def ct bit_07 bit_ucast_iff
  show ?thesis
  proof (rule spec_raw_eqI, rule bit_word_eqI)
    fix n :: nat assume "n < LENGTH(32)"
    consider "n < 3" | "n = 3" | "n = (n - 4) + 4" by linarith
    then show "bit (spec_raw (spec_inflated (spec_deflated s))) n = bit (spec_raw s) n"
    proof cases
      case 3
      then obtain k where "n = k + 4" by blast
      then show ?thesis by (auto simp: bits add.commute dest: s8)
    qed (auto simp: bits b3 dest: s8)
  qed
qed

lemma spec_deflated_deflate: "spec_deflate (spec_deflated s)"
  by (simp add: spec_deflated_def spec_new_deflate)

lemma inflated_deflated_new:
  "unat c < 16 \<Longrightarrow> spec_inflated (spec_deflated (spec_new c t False)) = spec_new c t False"
  by (simp add: spec_inflated_def spec_deflated_def spec_new_id spec_new_col_type id_small and.assoc)


subsection \<open>Properties\<close>

text \<open>Compressing a set of uncompressed columns and decompressing the result gives back the
  same specifications with consecutive ranges and exactly the bytes of every column, for every
  threshold and every deflate codec that inflates what it deflates. The specifications must fit
  in a byte, as ids below 16 do.\<close>

theorem cols_compress_uncompress:
  assumes "\<forall>x. infl (defl x) = Some x"
    and "\<forall>c \<in> set cols. in_bounds input c \<and> \<not> spec_deflate (rc_spec c) \<and> unat (spec_raw (rc_spec c)) < 256"
  shows "\<exists>ccols out. cols_compress defl cols input [] threshold = Some (ccols, out)
    \<and> cols_uncompress infl ccols out [] = Some (Inr
        (layout 0 (map (\<lambda>c. (rc_spec c, column_bytes input c)) cols), concat (map (column_bytes input) cols)))"
proof -
  let ?ps = "map (\<lambda>c. stored defl threshold (rc_spec c) (column_bytes input c)) cols"
  have l: "loaded infl (stored defl threshold (rc_spec c) (column_bytes input c)) = Some (rc_spec c, column_bytes input c)"
    if "c \<in> set cols" for c
    using assms that by (auto simp: loaded_def stored_def spec_cases spec_deflated_deflate)
  let ?qs = "map (\<lambda>c. (rc_spec c, column_bytes input c)) cols"
  have m: "map (\<lambda>p. the (loaded infl p)) ?ps = ?qs"
    by (simp add: l)
  have "cols_compress defl cols input [] threshold = Some (layout 0 ?ps, concat (map snd ?ps))"
    using assms(2) by (simp add: cols_compress_def cols_compress_loop_eq Let_def)
  moreover have "cols_uncompress infl (layout 0 ?ps) (concat (map snd ?ps)) []
      = Some (Inr (layout 0 ?qs, concat (map snd ?qs)))"
    unfolding cols_uncompress_def
    by (subst cols_uncompress_layout [of _ "[]" _ "[]"]) (simp_all only: m Let_def, simp_all add: l)
  ultimately show ?thesis by (simp add: comp_def)
qed

theorem cols_compress_uncompress_witness:
  "\<exists>ccols out. cols_compress (Cons 9)
       [\<lparr>rc_spec = ColumnSpec 0x15, rc_data = (0, 2)\<rparr>, \<lparr>rc_spec = ColumnSpec 0x34, rc_data = (2, 3)\<rparr>]
       [1, 2, 3] [] 2 = Some (ccols, out)
    \<and> cols_uncompress (\<lambda>b. if b = [] then None else Some (tl b)) ccols out [] = Some (Inr
       ([\<lparr>rc_spec = ColumnSpec 0x15, rc_data = (0, 2)\<rparr>, \<lparr>rc_spec = ColumnSpec 0x34, rc_data = (2, 3)\<rparr>], [1, 2, 3]))"
  using cols_compress_uncompress [of "\<lambda>b. if b = [] then None else Some (tl b)" "Cons 9"
      "[\<lparr>rc_spec = ColumnSpec 0x15, rc_data = (0, 2)\<rparr>, \<lparr>rc_spec = ColumnSpec 0x34, rc_data = (2, 3)\<rparr>]"
      "[1, 2, 3]" 2]
  by (simp add: in_bounds_def spec_deflate_def column_bytes_def slice_def take_Cons' drop_Cons' numeral_2_eq_2 [symmetric])

text \<open>The metadata written for a set of columns whose ranges are consecutive from 0 and whose
  specifications are in normal order parses back to the same columns, and the parser stops exactly
  at the end of it.\<close>

theorem cols_parse_write:
  assumes "writes_uleb wu" and "contiguous 0 cols" and "total_column_len cols < 2 ^ 64"
    and "length cols < 2 ^ 64" and "are_normal_sorted cols"
  shows "cols_parse conv (new_input (fst (cols_write wu cols []) @ rest))
    = Inr (advance (new_input (fst (cols_write wu cols []) @ rest)) (snd (cols_write wu cols [])), cols)"
proof -
  have "range_len (rc_data c) < 2 ^ 64" if "c \<in> set cols" for c
    using member_le_sum_list [of "range_len (rc_data c)" "map (\<lambda>c. range_len (rc_data c)) cols"] that assms(3)
    by (auto simp: total_column_len_def)
  then have w: "cols_write wu cols [] = (enc_list enc_column cols, length (enc_list enc_column cols))"
    using cols_write_eq [OF assms(1) _ assms(4), of "[]"] by simp
  show ?thesis
    unfolding w fst_conv snd_conv by (rule cols_parse_enc [OF assms(2-5)]) simp
qed

theorem cols_parse_write_witness:
  "cols_parse id (new_input (fst (cols_write own_writer [\<lparr>rc_spec = ColumnSpec 0x15, rc_data = (0, 300)\<rparr>] []) @ [7]))
    = Inr (advance (new_input (fst (cols_write own_writer [\<lparr>rc_spec = ColumnSpec 0x15, rc_data = (0, 300)\<rparr>] []) @ [7]))
        (snd (cols_write own_writer [\<lparr>rc_spec = ColumnSpec 0x15, rc_data = (0, 300)\<rparr>] [])),
        [\<lparr>rc_spec = ColumnSpec 0x15, rc_data = (0, 300)\<rparr>])"
  by (rule cols_parse_write) (simp_all add: own_writer_writes total_column_len_def range_len_def)

text \<open>A column specification built from an id below 16 holds exactly the id, type and deflate
  flag it was built from.\<close>

theorem spec_new_roundtrip:
  assumes "unat c < 16"
  shows "spec_id (spec_new c t d) = c \<and> spec_col_type (spec_new c t d) = t \<and> spec_deflate (spec_new c t d) = d"
  using assms id_small(2) [of c] by (auto simp: spec_new_id spec_new_col_type spec_new_deflate id_small(1))

theorem spec_new_roundtrip_witness:
  "spec_id (spec_new 10 String True) = 10 \<and> spec_col_type (spec_new 10 String True) = String
    \<and> spec_deflate (spec_new 10 String True) = True"
  by (rule spec_new_roundtrip) simp

text \<open>The mask \<open>0b11110111\<close> clears more than the deflate bit: an uncompressed specification keeps
  only the low four bits of its id, and the normalized form by which columns are ordered sees only
  those, so a column with id 16 sorts before one with id 10 and a set of columns in the order of
  their ids is rejected as not normal.\<close>

theorem spec_ids_truncated:
  "spec_id (spec_new c t False) = c AND mask 4
    \<and> spec_normalize (spec_new c t d) = spec_raw (spec_new (c AND mask 4) t False)
    \<and> \<not> are_normal_sorted [\<lparr>rc_spec = ColumnSpec (push_bit 4 10), rc_data = r\<rparr>,
         \<lparr>rc_spec = ColumnSpec (push_bit 4 16), rc_data = r'\<rparr>]"
  by (simp add: spec_new_id spec_new_normalize) (simp add: spec_normalize_def)

end
