(* ===== verification/Chunk.thy ===== *)
theory Chunk
  imports Columns
begin

text \<open>
  The chunk header of \<open>storage/chunk.rs\<close>: magic bytes, checksum, chunk type and data length, and
  the hash that the checksum is the start of. SHA-256 (\<open>sha2\<close>) is the argument \<open>sha\<close> and the
  LEB128 writer of the \<open>leb128\<close> crate the argument \<open>wu\<close>.
\<close>

definition magic_bytes :: bytes where
  "magic_bytes = [0x85, 0x6f, 0x4a, 0x83]"

datatype chunk_type = DocumentChunk | ChangeChunk | CompressedChunk | BundleChunk

definition chunk_type_try_from :: "u8 \<Rightarrow> u8 + chunk_type" where
  "chunk_type_try_from v =
     (if v = 0 then Inr DocumentChunk
      else if v = 1 then Inr ChangeChunk
      else if v = 2 then Inr CompressedChunk
      else if v = 3 then Inr BundleChunk
      else Inl v)"

fun u8_of_chunk_type :: "chunk_type \<Rightarrow> u8" where
  "u8_of_chunk_type DocumentChunk = 0"
| "u8_of_chunk_type ChangeChunk = 1"
| "u8_of_chunk_type CompressedChunk = 2"
| "u8_of_chunk_type BundleChunk = 3"

datatype check_sum = CheckSum (sum_bytes: bytes)

definition checksum_of_hash :: "change_hash \<Rightarrow> check_sum" where
  "checksum_of_hash h =
     CheckSum [hash_bytes h ! 0, hash_bytes h ! 1, hash_bytes h ! 2, hash_bytes h ! 3]"

record header =
  hd_checksum :: check_sum
  hd_chunk_type :: chunk_type
  hd_data_len :: nat
  hd_header_size :: nat
  hd_hash :: change_hash

datatype header_error =
    HeaderLeb128 leb128_error
  | UnknownChunkType u8
  | InvalidMagicBytes

definition chunk_hash :: "(bytes \<Rightarrow> bytes) \<Rightarrow> (u64 \<Rightarrow> bytes) \<Rightarrow> chunk_type \<Rightarrow> bytes \<Rightarrow> change_hash" where
  "chunk_hash sha wu typ data = (let header = [u8_of_chunk_type typ] @ wu (word_of_nat (length data))
     in ChangeHash (sha (header @ data)))"

definition header_new :: "(bytes \<Rightarrow> bytes) \<Rightarrow> (u64 \<Rightarrow> bytes) \<Rightarrow> chunk_type \<Rightarrow> bytes \<Rightarrow> header" where
  "header_new sha wu chunk_type data = (let h = chunk_hash sha wu chunk_type data in
     \<lparr>hd_checksum = CheckSum (hash_checksum h), hd_chunk_type = chunk_type, hd_data_len = length data,
      hd_header_size = length magic_bytes + 4 + 1 + ulebsize (word_of_nat (length data)), hd_hash = h\<rparr>)"

definition header_with_data ::
  "(bytes \<Rightarrow> bytes) \<Rightarrow> (u64 \<Rightarrow> bytes) \<Rightarrow> header \<Rightarrow> chunk_type \<Rightarrow> bytes \<Rightarrow> header" where
  "header_with_data sha wu hdr chunk_type data = (let h = chunk_hash sha wu chunk_type data in
     \<lparr>hd_checksum = hd_checksum hdr, hd_chunk_type = chunk_type, hd_data_len = length data,
      hd_header_size = length magic_bytes + 4 + 1 + ulebsize (word_of_nat (length data)), hd_hash = h\<rparr>)"

definition header_write :: "(u64 \<Rightarrow> bytes) \<Rightarrow> header \<Rightarrow> bytes \<Rightarrow> bytes" where
  "header_write wu hdr out = out @ magic_bytes @ sum_bytes (hd_checksum hdr)
     @ [u8_of_chunk_type (hd_chunk_type hdr)] @ wu (word_of_nat (hd_data_len hdr))"

definition header_fields ::
  "(header_error \<Rightarrow> 'e) \<Rightarrow> input \<Rightarrow> (bytes \<times> chunk_type \<times> u64, 'e) parse_result" where
  "header_fields conv i =
     bind_res (take_4 i) (\<lambda>(i, magic).
     if magic \<noteq> magic_bytes then Inl (PError (conv InvalidMagicBytes))
     else bind_res (take_4 i) (\<lambda>(i, checksum_bytes).
       bind_res (take_1 i) (\<lambda>(i, raw_chunk_type).
       bind_res (map_err (\<lambda>_. PError (conv (UnknownChunkType raw_chunk_type))) (chunk_type_try_from raw_chunk_type))
         (\<lambda>chunk_type.
       bind_res (map_err (lift_err conv) (leb128_u64 HeaderLeb128 i)) (\<lambda>(i, chunk_len).
       Inr (i, (checksum_bytes, chunk_type, chunk_len)))))))"

definition header_parse ::
  "(bytes \<Rightarrow> bytes) \<Rightarrow> (u64 \<Rightarrow> bytes) \<Rightarrow> (header_error \<Rightarrow> 'e) \<Rightarrow> input \<Rightarrow> (header, 'e) parse_result" where
  "header_parse sha wu conv input =
     bind_res (range_of (header_fields conv) input) (\<lambda>(i, r).
     case rv_value r of (checksum_bytes, chunk_type, chunk_len) \<Rightarrow>
     bind_res (take_n (unat chunk_len) i) (\<lambda>(_, data).
     Inr (i, \<lparr>hd_checksum = CheckSum checksum_bytes, hd_chunk_type = chunk_type, hd_data_len = length data,
       hd_header_size = range_len (rv_range r), hd_hash = chunk_hash sha wu chunk_type data\<rparr>)))"

definition data_bytes :: "header \<Rightarrow> nat \<times> nat" where
  "data_bytes hdr = (hd_header_size hdr, hd_header_size hdr + hd_data_len hdr)"

definition header_checksum_valid :: "header \<Rightarrow> bool" where
  "header_checksum_valid hdr \<longleftrightarrow> CheckSum (hash_checksum (hd_hash hdr)) = hd_checksum hdr"

subsection \<open>The header parser\<close>

lemma consuming_take_4 [intro, simp]: "consuming take_4"
  unfolding consuming_def by (auto simp: take_4_eq dest: take_n.consumes)

lemma consuming_header_fields [intro, simp]: "consuming (header_fields conv)"
proof -
  have e: "(\<lambda>i. bind_res (map_err f (r :: u8 + chunk_type)) (\<lambda>t. p t i)) = (case r of Inl e \<Rightarrow> (\<lambda>i. Inl (f e)) | Inr t \<Rightarrow> p t)"
    for f r and p :: "chunk_type \<Rightarrow> input \<Rightarrow> (bytes \<times> chunk_type \<times> u64, 'a) parse_result"
    by (cases r) auto
  show ?thesis
    unfolding header_fields_def
    by (intro consuming_bind consuming_take_4 consuming_take_1 consuming_if consuming_fail)
      (simp only: e, auto split: sum.splits intro!: consuming_bind consuming_map_err)
qed

interpretation header_fields: parser "header_fields conv" for conv
  using consuming_header_fields by (simp only: consuming_parser)

lemma chunk_type_roundtrip [simp]: "chunk_type_try_from (u8_of_chunk_type t) = Inr t"
  by (cases t) (simp_all add: chunk_type_try_from_def)

definition enc_header_fields :: "bytes \<times> chunk_type \<times> u64 \<Rightarrow> bytes" where
  "enc_header_fields f = (case f of (c, t, n) \<Rightarrow> magic_bytes @ c @ [u8_of_chunk_type t] @ uleb (unat n))"

lemma length_magic [simp]: "length magic_bytes = 4"
  by (simp add: magic_bytes_def)

lemma take_n_advance: "inp_bytes i = b @ rest \<Longrightarrow> length b = n \<Longrightarrow> take_n n i = Inr (advance i n, b)"
  by (auto simp: take_n_eq)

lemma header_fields_codec:
  "codec enc_header_fields (header_fields conv) (\<lambda>(c, t, n). length c = 4)"
proof
  fix x :: "bytes \<times> chunk_type \<times> u64" and i :: input and rest
  assume v: "case x of (c, t, n) \<Rightarrow> length c = 4" and i: "inp_bytes i = enc_header_fields x @ rest"
  obtain c t n where x: "x = (c, t, n)" by (cases x) auto
  have c: "length c = 4" using v x by simp
  have i': "inp_bytes i = magic_bytes @ c @ [u8_of_chunk_type t] @ uleb (unat n) @ rest"
    using i by (simp add: x enc_header_fields_def)
  have "take_4 i = (Inr (advance i 4, magic_bytes) :: 'a parse_error + _)"
    unfolding take_4_eq by (rule take_n_advance [OF i']) simp
  moreover have "take_4 (advance i 4) = (Inr (advance (advance i 4) 4, c) :: 'a parse_error + _)"
    unfolding take_4_eq
    by (rule take_n_advance [where rest = "[u8_of_chunk_type t] @ uleb (unat n) @ rest"]) (simp_all add: i' c)
  moreover have "take_1 (advance i 8) = (Inr (advance (advance i 8) 1, u8_of_chunk_type t) :: 'a parse_error + _)"
    by (rule take_1_Cons) (simp add: i' c)
  moreover have "leb128_u64 HeaderLeb128 (advance i 9) = Inr (advance (advance i 9) (length (uleb (unat n))), n)"
    by (rule leb128_u64_complete [where rest = rest]) (simp add: i' c)
  ultimately show "header_fields conv i = Inr (advance i (length (enc_header_fields x)), x)"
    by (simp add: header_fields_def x enc_header_fields_def c numeral_eq_Suc)
qed

interpretation header_fields: codec enc_header_fields "header_fields conv" "\<lambda>(c, t, n). length c = 4" for conv
  by (rule header_fields_codec)

lemma header_write_new:
  assumes "writes_uleb wu" and "length data < 2 ^ 64"
  shows "header_write wu (header_new sha wu t data) out
    = out @ enc_header_fields (hash_checksum (chunk_hash sha wu t data), t, word_of_nat (length data))"
    and "hd_header_size (header_new sha wu t data)
    = length (enc_header_fields (hash_checksum (chunk_hash sha wu t data), t, word_of_nat (length data)))"
  using assms by (simp_all add: header_write_def header_new_def enc_header_fields_def Let_def writes_uleb_def
      hash_checksum_def ulebsize_eq)

lemma header_parse_fields:
  assumes "header_fields conv i = Inr (i', (c, t, n))" and "inp_bytes i' = data @ rest" and "length data = unat n"
    and "inp_position i' = inp_position i + sz"
  shows "header_parse sha wu conv i = Inr (i', \<lparr>hd_checksum = CheckSum c, hd_chunk_type = t, hd_data_len = length data,
    hd_header_size = sz, hd_hash = chunk_hash sha wu t data\<rparr>)"
proof -
  have "take_n (unat n) i' = (Inr (advance i' (unat n), data) :: 'a parse_error + _)"
    using assms by (intro take_n_advance) auto
  then show ?thesis using assms
    by (simp add: header_parse_def range_of_def range_len_def)
qed

lemma header_roundtrip_at:
  assumes "writes_uleb wu" and "length data < 2 ^ 64"
    and "inp_bytes i = header_write wu (header_new sha wu t data) [] @ data @ rest"
  shows "header_parse sha wu conv i
    = Inr (advance i (hd_header_size (header_new sha wu t data)), header_new sha wu t data)"
proof -
  let ?f = "(hash_checksum (chunk_hash sha wu t data), t, word_of_nat (length data) :: u64)"
  have i: "inp_bytes i = enc_header_fields ?f @ data @ rest"
    using assms(3) by (simp add: header_write_new [OF assms(1,2)])
  have "header_fields conv i = Inr (advance i (length (enc_header_fields ?f)), ?f)"
    by (rule header_fields.dec_enc [OF _ i]) (simp add: hash_checksum_def)
  from header_parse_fields [OF this, of data rest "length (enc_header_fields ?f)"] i assms(2)
  show ?thesis
    by (simp add: unat_u64_of_nat [OF assms(2)] header_write_new(2) [OF assms(1,2)]) (simp add: header_new_def Let_def
        header_write_new(2) [OF assms(1,2), symmetric])
qed

text \<open>What a parsed header says of its input.\<close>

lemma header_parse_sound:
  assumes "header_parse sha wu conv i = Inr (i', h)"
  shows "\<exists>hb data rest. inp_bytes i = hb @ data @ rest \<and> length hb = hd_header_size h \<and> length data = hd_data_len h
    \<and> i' = advance i (length hb) \<and> hd_hash h = chunk_hash sha wu (hd_chunk_type h) data"
proof -
  obtain c t n where f: "header_fields conv i = Inr (i', (c, t, n))" "unat n \<le> length (inp_bytes i')"
    and h: "h = \<lparr>hd_checksum = CheckSum c, hd_chunk_type = t, hd_data_len = length (take (unat n) (inp_bytes i')),
      hd_header_size = inp_position i' - inp_position i, hd_hash = chunk_hash sha wu t (take (unat n) (inp_bytes i'))\<rparr>"
    using assms by (auto simp: header_parse_def result_simps range_of_def range_len_def take_n_eq split: if_splits)
  obtain m where m: "m \<le> length (inp_bytes i)" "i' = advance i m" using header_fields.consumes [OF f(1)] by blast
  have "inp_bytes i = take m (inp_bytes i) @ inp_bytes i'" using m by simp
  then have "inp_bytes i = take m (inp_bytes i) @ take (unat n) (inp_bytes i') @ drop (unat n) (inp_bytes i')"
    by (simp only: append_take_drop_id)
  then have "inp_bytes i = take m (inp_bytes i) @ take (unat n) (inp_bytes i') @ drop (unat n) (inp_bytes i')
      \<and> length (take m (inp_bytes i)) = hd_header_size h \<and> length (take (unat n) (inp_bytes i')) = hd_data_len h
      \<and> i' = advance i (length (take m (inp_bytes i)))
      \<and> hd_hash h = chunk_hash sha wu (hd_chunk_type h) (take (unat n) (inp_bytes i'))"
    using m f(2) by (simp add: h)
  then show ?thesis by blast
qed

subsection \<open>Properties\<close>

text \<open>A header written in front of its data is parsed back exactly, with a valid checksum, and
  the parser stops where the data starts.\<close>

theorem header_roundtrip:
  assumes "writes_uleb wu" and "length data < 2 ^ 64"
  shows "header_parse sha wu conv (new_input (header_write wu (header_new sha wu t data) [] @ data @ rest))
      = Inr (advance (new_input (header_write wu (header_new sha wu t data) [] @ data @ rest))
          (hd_header_size (header_new sha wu t data)), header_new sha wu t data)
    \<and> header_checksum_valid (header_new sha wu t data)"
proof (rule conjI)
  show "header_parse sha wu conv (new_input (header_write wu (header_new sha wu t data) [] @ data @ rest))
      = Inr (advance (new_input (header_write wu (header_new sha wu t data) [] @ data @ rest))
          (hd_header_size (header_new sha wu t data)), header_new sha wu t data)"
    by (rule header_roundtrip_at [OF assms]) simp
  show "header_checksum_valid (header_new sha wu t data)"
    by (simp add: header_checksum_valid_def header_new_def Let_def)
qed

theorem header_roundtrip_witness:
  "header_checksum_valid (header_new (\<lambda>b. b @ replicate 32 0) own_writer ChangeChunk [1, 2])"
  using header_roundtrip [OF own_writer_writes, of "[1, 2]" "\<lambda>b. b @ replicate 32 0" id ChangeChunk "[]"] by simp

text \<open>A parsed header describes bytes that are there: the header and its data are a prefix of the
  input, so the slice at \<open>data_bytes\<close> does not panic, and its hash is the hash of exactly that
  data under its chunk type.\<close>

theorem header_parse_in_bounds:
  assumes "header_parse sha wu conv i = Inr (i', h)"
  shows "\<exists>data. slice (unconsumed_bytes i) (data_bytes h) = Some data
    \<and> inp_bytes i' = data @ drop (snd (data_bytes h)) (inp_bytes i)
    \<and> hd_hash h = chunk_hash sha wu (hd_chunk_type h) data"
  using header_parse_sound [OF assms]
  by (auto simp: slice_def data_bytes_def unconsumed_bytes_def)

theorem header_parse_in_bounds_witness:
  "\<exists>data. slice (unconsumed_bytes (new_input [0x85, 0x6f, 0x4a, 0x83, 1, 2, 3, 4, 0, 2, 8, 9, 10]))
      (data_bytes \<lparr>hd_checksum = CheckSum [1, 2, 3, 4], hd_chunk_type = DocumentChunk, hd_data_len = 2,
        hd_header_size = 10, hd_hash = chunk_hash id own_writer DocumentChunk [8, 9]\<rparr>) = Some data
    \<and> data = [8, 9]"
proof -
  let ?i = "new_input [0x85, 0x6f, 0x4a, 0x83, 1, 2, 3, 4, 0, 2, 8, 9, 10]"
  let ?h = "\<lparr>hd_checksum = CheckSum [1, 2, 3, 4], hd_chunk_type = DocumentChunk, hd_data_len = 2,
    hd_header_size = 10, hd_hash = chunk_hash id own_writer DocumentChunk [8, 9]\<rparr>"
  have u: "unat (2 :: u64) = Suc (Suc 0)" by simp
  have "header_fields id ?i = Inr (advance ?i (length (enc_header_fields ([1, 2, 3, 4], DocumentChunk, 2))),
      ([1, 2, 3, 4], DocumentChunk, 2))"
    by (rule header_fields.dec_enc [where rest = "[8, 9, 10]"])
      (simp_all add: enc_header_fields_def magic_bytes_def uleb_small)
  then have f: "header_fields id ?i = Inr (advance ?i 10, ([1, 2, 3, 4], DocumentChunk, 2))"
    by (simp add: enc_header_fields_def magic_bytes_def uleb_small)
  have "header_parse id own_writer id ?i = Inr (advance ?i 10, ?h)"
    using header_parse_fields [OF f, of "[8, 9]" "[10]" 10 id own_writer] by (simp add: u)
  from header_parse_in_bounds [OF this] show ?thesis
    by (simp add: slice_def data_bytes_def unconsumed_bytes_def)
qed

end
