(* ===== verification/Layout.thy ===== *)
theory Layout
  imports Columns
begin

text \<open>
  Logical columns: the ranges of \<open>columnar/column_range\<close>, the builders of
  \<open>storage/columns/column_builder.rs\<close>, and the state machine of \<open>storage/columns.rs\<close> that groups
  the raw columns of a chunk into logical ones. A range \<open>a..b\<close> is a pair.
\<close>

type_synonym range = "nat \<times> nat"

definition range_empty :: "range \<Rightarrow> bool" where
  "range_empty r \<longleftrightarrow> \<not> fst r < snd r"

datatype simple_col_range =
    RleInt range
  | RleString range
  | Delta range
  | Booleans range

fun simple_range :: "simple_col_range \<Rightarrow> range" where
  "simple_range (RleInt r) = r"
| "simple_range (RleString r) = r"
| "simple_range (Delta r) = r"
| "simple_range (Booleans r) = r"

record value_range =
  vr_meta :: range
  vr_raw :: range

definition value_range_range :: "value_range \<Rightarrow> range" where
  "value_range_range v =
     (if range_empty (vr_raw v) then vr_meta v else (fst (vr_meta v), snd (vr_raw v)))"

datatype grouped_column_range = GroupedValue value_range | GroupedSimple simple_col_range

fun grouped_range :: "grouped_column_range \<Rightarrow> range" where
  "grouped_range (GroupedValue vr) = value_range_range vr"
| "grouped_range (GroupedSimple s) = simple_range s"

record group_range =
  gr_num :: range
  gr_values :: "grouped_column_range list"

definition group_range_range :: "group_range \<Rightarrow> range" where
  "group_range_range g =
     (fst (gr_num g), if gr_values g = [] then snd (gr_num g) else snd (grouped_range (last (gr_values g))))"

datatype generic_column_range =
    SimpleCol simple_col_range
  | ValueCol value_range
  | GroupCol group_range

fun generic_range :: "generic_column_range \<Rightarrow> range" where
  "generic_range (SimpleCol sc) = simple_range sc"
| "generic_range (ValueCol v) = value_range_range v"
| "generic_range (GroupCol g) = group_range_range g"

record column =
  col_spec :: column_spec
  col_ranges :: generic_column_range

definition col_range :: "column \<Rightarrow> range" where
  "col_range c = generic_range (col_ranges c)"

definition col_type :: "column \<Rightarrow> column_type" where
  "col_type c = spec_col_type (col_spec c)"

definition col_id :: "column \<Rightarrow> u32" where
  "col_id c = spec_id (col_spec c)"

subsection \<open>Builders\<close>

definition build_actor :: "column_spec \<Rightarrow> range \<Rightarrow> column" where
  "build_actor spec rng = \<lparr>col_spec = spec, col_ranges = SimpleCol (RleInt rng)\<rparr>"

definition build_string :: "column_spec \<Rightarrow> range \<Rightarrow> column" where
  "build_string spec rng = \<lparr>col_spec = spec, col_ranges = SimpleCol (RleString rng)\<rparr>"

definition build_integer :: "column_spec \<Rightarrow> range \<Rightarrow> column" where
  "build_integer spec rng = \<lparr>col_spec = spec, col_ranges = SimpleCol (RleInt rng)\<rparr>"

definition build_delta_integer :: "column_spec \<Rightarrow> range \<Rightarrow> column" where
  "build_delta_integer spec rng = \<lparr>col_spec = spec, col_ranges = SimpleCol (Delta rng)\<rparr>"

definition build_boolean :: "column_spec \<Rightarrow> range \<Rightarrow> column" where
  "build_boolean spec rng = \<lparr>col_spec = spec, col_ranges = SimpleCol (Booleans rng)\<rparr>"

record awaiting_value =
  av_spec :: column_spec
  av_meta :: range

definition value_build :: "awaiting_value \<Rightarrow> range \<Rightarrow> column" where
  "value_build b raw = \<lparr>col_spec = av_spec b, col_ranges = ValueCol \<lparr>vr_meta = av_meta b, vr_raw = raw\<rparr>\<rparr>"

record group_builder =
  gb_spec :: column_spec
  gb_num :: range
  gb_columns :: "grouped_column_range list"

record group_awaiting =
  ga_spec :: column_spec
  ga_num :: range
  ga_columns :: "grouped_column_range list"
  ga_val_meta :: range

definition start_group :: "column_spec \<Rightarrow> range \<Rightarrow> group_builder" where
  "start_group spec num = \<lparr>gb_spec = spec, gb_num = num, gb_columns = []\<rparr>"

definition group_builder_range :: "group_builder \<Rightarrow> range" where
  "group_builder_range b =
     (fst (gb_num b), if gb_columns b = [] then snd (gb_num b) else snd (grouped_range (last (gb_columns b))))"

definition group_add :: "simple_col_range \<Rightarrow> group_builder \<Rightarrow> group_builder" where
  "group_add r b = b\<lparr>gb_columns := gb_columns b @ [GroupedSimple r]\<rparr>"

definition group_start_value :: "range \<Rightarrow> group_builder \<Rightarrow> group_awaiting" where
  "group_start_value meta b =
     \<lparr>ga_spec = gb_spec b, ga_num = gb_num b, ga_columns = gb_columns b, ga_val_meta = meta\<rparr>"

definition group_finish :: "group_builder \<Rightarrow> column" where
  "group_finish b = \<lparr>col_spec = gb_spec b, col_ranges = GroupCol \<lparr>gr_num = gb_num b, gr_values = gb_columns b\<rparr>\<rparr>"

definition group_finish_value :: "range \<Rightarrow> group_awaiting \<Rightarrow> group_builder" where
  "group_finish_value raw b = \<lparr>gb_spec = ga_spec b, gb_num = ga_num b,
     gb_columns = ga_columns b @ [GroupedValue \<lparr>vr_meta = ga_val_meta b, vr_raw = raw\<rparr>]\<rparr>"

definition group_finish_empty :: "group_awaiting \<Rightarrow> group_builder" where
  "group_finish_empty b = group_finish_value (0, 0) b"

definition group_awaiting_range :: "group_awaiting \<Rightarrow> range" where
  "group_awaiting_range b = (fst (ga_num b), snd (ga_val_meta b))"

subsection \<open>The layout parser\<close>

datatype bad_column_layout =
    DuplicateColumnSpecs u32
  | OutOfOrder
  | NestedGroup
  | LoneRawValueColumn
  | MismatchingValueMetadataId
  | NonContiguousColumns
  | DataOutOfRange

datatype group_parse_state = GroupReady group_builder | GroupInValue group_awaiting

datatype layout_parser_state = Ready | InValue awaiting_value | InGroup u32 group_parse_state

record layout_parser =
  lp_columns :: "column list"
  lp_last_spec :: "column_spec option"
  lp_state :: layout_parser_state
  lp_total :: nat

definition layout_new :: "nat \<Rightarrow> layout_parser" where
  "layout_new data_size = \<lparr>lp_columns = [], lp_last_spec = None, lp_state = Ready, lp_total = data_size\<rparr>"

definition layout_build :: "layout_parser \<Rightarrow> column list" where
  "layout_build p = (case lp_state p of
     Ready \<Rightarrow> lp_columns p
   | InValue builder \<Rightarrow> lp_columns p @ [value_build builder (0, 0)]
   | InGroup _ (GroupInValue builder) \<Rightarrow> lp_columns p @ [group_finish (group_finish_empty builder)]
   | InGroup _ (GroupReady builder) \<Rightarrow> lp_columns p @ [group_finish builder])"

definition check_contiguous :: "layout_parser \<Rightarrow> range \<Rightarrow> bad_column_layout + unit" where
  "check_contiguous p next_range = (case lp_state p of
     Ready \<Rightarrow>
       if lp_columns p \<noteq> [] \<and> snd (col_range (last (lp_columns p))) \<noteq> fst next_range
       then Inl NonContiguousColumns else Inr ()
   | InValue builder \<Rightarrow>
       if snd (av_meta builder) \<noteq> fst next_range then Inl NonContiguousColumns else Inr ()
   | InGroup _ group_state \<Rightarrow>
       let e = (case group_state of
           GroupInValue b \<Rightarrow> snd (group_awaiting_range b)
         | GroupReady b \<Rightarrow> snd (group_builder_range b))
       in if e \<noteq> fst next_range then Inl NonContiguousColumns else Inr ())"

definition check_bounds :: "layout_parser \<Rightarrow> range \<Rightarrow> bad_column_layout + unit" where
  "check_bounds p next_range = (if snd next_range > lp_total p then Inl DataOutOfRange else Inr ())"

definition check_spec :: "layout_parser \<Rightarrow> column_spec \<Rightarrow> bad_column_layout + unit" where
  "check_spec p column = (case lp_last_spec p of
     Some last_spec \<Rightarrow>
       if spec_normalize last_spec > spec_normalize column then Inl OutOfOrder
       else if last_spec = column then Inl (DuplicateColumnSpecs (spec_raw column))
       else Inr ()
   | None \<Rightarrow> Inr ())"

text \<open>The rank of a state: how many builders the parser may close before it accepts a column.\<close>

fun state_rank :: "layout_parser_state \<Rightarrow> nat" where
  "state_rank Ready = 0"
| "state_rank (InValue b) = 1"
| "state_rank (InGroup i (GroupReady b)) = 1"
| "state_rank (InGroup i (GroupInValue b)) = 2"

function add_column :: "column_spec \<Rightarrow> range \<Rightarrow> layout_parser \<Rightarrow> bad_column_layout + layout_parser" where
  "add_column column rng p =
     bind_res (check_contiguous p rng) (\<lambda>_. bind_res (check_bounds p rng) (\<lambda>_.
     bind_res (check_spec p column) (\<lambda>_.
     case lp_state p of
       Ready \<Rightarrow> (case spec_col_type column of
           Group \<Rightarrow> Inr (p\<lparr>lp_state := InGroup (spec_id column) (GroupReady (start_group column rng))\<rparr>)
         | ValueMetadata \<Rightarrow> Inr (p\<lparr>lp_state := InValue \<lparr>av_spec = column, av_meta = rng\<rparr>\<rparr>)
         | Value \<Rightarrow> Inl LoneRawValueColumn
         | Actor \<Rightarrow> Inr (p\<lparr>lp_columns := lp_columns p @ [build_actor column rng]\<rparr>)
         | String \<Rightarrow> Inr (p\<lparr>lp_columns := lp_columns p @ [build_string column rng]\<rparr>)
         | Integer \<Rightarrow> Inr (p\<lparr>lp_columns := lp_columns p @ [build_integer column rng]\<rparr>)
         | DeltaInteger \<Rightarrow> Inr (p\<lparr>lp_columns := lp_columns p @ [build_delta_integer column rng]\<rparr>)
         | Boolean \<Rightarrow> Inr (p\<lparr>lp_columns := lp_columns p @ [build_boolean column rng]\<rparr>))
     | InValue builder \<Rightarrow>
         if spec_col_type column = Value then
           if spec_id (av_spec builder) \<noteq> spec_id column then Inl MismatchingValueMetadataId
           else Inr (p\<lparr>lp_columns := lp_columns p @ [value_build builder rng], lp_state := Ready\<rparr>)
         else add_column column rng
           (p\<lparr>lp_columns := lp_columns p @ [value_build builder (0, 0)], lp_state := Ready\<rparr>)
     | InGroup gid (GroupReady b) \<Rightarrow>
         if gid \<noteq> spec_id column then
           add_column column rng (p\<lparr>lp_columns := lp_columns p @ [group_finish b], lp_state := Ready\<rparr>)
         else (case spec_col_type column of
             Group \<Rightarrow> Inl NestedGroup
           | Value \<Rightarrow> Inl LoneRawValueColumn
           | ValueMetadata \<Rightarrow> Inr (p\<lparr>lp_state := InGroup gid (GroupInValue (group_start_value rng b))\<rparr>)
           | Actor \<Rightarrow> Inr (p\<lparr>lp_state := InGroup gid (GroupReady (group_add (RleInt rng) b))\<rparr>)
           | Boolean \<Rightarrow> Inr (p\<lparr>lp_state := InGroup gid (GroupReady (group_add (Booleans rng) b))\<rparr>)
           | DeltaInteger \<Rightarrow> Inr (p\<lparr>lp_state := InGroup gid (GroupReady (group_add (Delta rng) b))\<rparr>)
           | Integer \<Rightarrow> Inr (p\<lparr>lp_state := InGroup gid (GroupReady (group_add (RleInt rng) b))\<rparr>)
           | String \<Rightarrow> Inr (p\<lparr>lp_state := InGroup gid (GroupReady (group_add (RleString rng) b))\<rparr>))
     | InGroup gid (GroupInValue b) \<Rightarrow>
         if gid \<noteq> spec_id column then
           add_column column rng
             (p\<lparr>lp_columns := lp_columns p @ [group_finish (group_finish_empty b)], lp_state := Ready\<rparr>)
         else if spec_col_type column = Value then
           Inr (p\<lparr>lp_state := InGroup gid (GroupReady (group_finish_value rng b))\<rparr>)
         else add_column column rng (p\<lparr>lp_state := InGroup gid (GroupReady (group_finish_empty b))\<rparr>))))"
  by pat_completeness auto

termination by (relation "measure (\<lambda>(_, _, p). state_rank (lp_state p))") auto

declare add_column.simps [simp del]

fun add_columns :: "raw_column list \<Rightarrow> layout_parser \<Rightarrow> bad_column_layout + layout_parser" where
  "add_columns [] p = Inr p"
| "add_columns (c # cs) p = bind_res (add_column (rc_spec c) (rc_data c) p) (add_columns cs)"

definition parse2 :: "nat \<Rightarrow> raw_column list \<Rightarrow> bad_column_layout + column list" where
  "parse2 data_size cols = map_res layout_build (add_columns cols (layout_new data_size))"

subsection \<open>Closing a pending builder\<close>

text \<open>
  A column of another kind closes the pending builder first: adding it is the same as adding it to
  the parser that has already closed the builder.
\<close>

definition closed :: "layout_parser \<Rightarrow> layout_parser" where
  "closed p = p\<lparr>lp_columns := layout_build p, lp_state := Ready\<rparr>"

lemma closed_sel [simp]:
  "lp_columns (closed p) = layout_build p" "lp_state (closed p) = Ready"
  "lp_last_spec (closed p) = lp_last_spec p" "lp_total (closed p) = lp_total p"
  by (simp_all add: closed_def)

lemma layout_build_Ready [simp]: "lp_state p = Ready \<Longrightarrow> layout_build p = lp_columns p"
  by (simp add: layout_build_def)

lemma col_range_builders [simp]:
  "col_range (build_actor s r) = r" "col_range (build_string s r) = r" "col_range (build_integer s r) = r"
  "col_range (build_delta_integer s r) = r" "col_range (build_boolean s r) = r"
  by (simp_all add: col_range_def build_actor_def build_string_def build_integer_def
      build_delta_integer_def build_boolean_def)

lemma snd_col_range_pending [simp]:
  "snd (col_range (value_build b (0, 0))) = snd (av_meta b)"
  "snd (col_range (group_finish g)) = snd (group_builder_range g)"
  by (simp_all add: col_range_def value_build_def value_range_range_def range_empty_def
      group_finish_def group_range_range_def group_builder_range_def)

lemma check_closed_InValue: "lp_state p = InValue b \<Longrightarrow> check_contiguous (closed p) r = check_contiguous p r"
  by (simp add: check_contiguous_def layout_build_def)

lemma check_closed_InGroup:
  "lp_state p = InGroup i (GroupReady b) \<Longrightarrow> check_contiguous (closed p) r = check_contiguous p r"
  by (simp add: check_contiguous_def layout_build_def)

lemma check_closed [simp]: "check_bounds (closed p) r = check_bounds p r" "check_spec (closed p) c = check_spec p c"
  by (simp_all add: check_bounds_def check_spec_def)

lemma add_column_checks:
  "add_column c r p = bind_res (check_contiguous p r) (\<lambda>_. bind_res (check_bounds p r) (\<lambda>_.
     bind_res (check_spec p c) (\<lambda>_. add_column c r p)))"
  by (cases "check_contiguous p r"; cases "check_bounds p r"; cases "check_spec p c")
    (simp_all add: add_column.simps [of c r p])

lemma add_column_InValue:
  assumes "lp_state p = InValue b" and "spec_col_type c \<noteq> Value"
  shows "add_column c r p = add_column c r (closed p)"
proof -
  have "p\<lparr>lp_columns := lp_columns p @ [value_build b (0, 0)], lp_state := Ready\<rparr> = closed p"
    using assms(1) by (simp add: closed_def layout_build_def)
  then show ?thesis
    using assms add_column_checks [of c r "closed p"]
    by (simp add: add_column.simps [of c r p] check_closed_InValue [OF assms(1)])
qed

lemma add_column_InGroup:
  assumes "lp_state p = InGroup i (GroupReady b)" and "spec_id c \<noteq> i"
  shows "add_column c r p = add_column c r (closed p)"
proof -
  have "p\<lparr>lp_columns := lp_columns p @ [group_finish b], lp_state := Ready\<rparr> = closed p"
    using assms(1) by (simp add: closed_def layout_build_def)
  then show ?thesis
    using assms add_column_checks [of c r "closed p"]
    by (simp add: add_column.simps [of c r p] check_closed_InGroup [OF assms(1)])
qed

subsection \<open>Laying out consecutive columns\<close>

text \<open>
  The parser has laid out the columns \<open>cs\<close> up to \<open>pos\<close>; a group it may still be in has its id in
  \<open>gids\<close>.
\<close>

definition laid :: "layout_parser \<Rightarrow> column list \<Rightarrow> nat \<Rightarrow> nat \<Rightarrow> u32 set \<Rightarrow> bool" where
  "laid p cs pos tot gids \<longleftrightarrow> layout_build p = cs \<and> lp_last_spec p = None \<and> lp_total p = tot
     \<and> (cs = [] \<or> snd (col_range (last cs)) = pos)
     \<and> (lp_state p = Ready \<or> (\<exists>b. lp_state p = InValue b)
        \<or> (\<exists>i b. lp_state p = InGroup i (GroupReady b) \<and> i \<in> gids))"

lemma laid_new: "laid (layout_new tot) [] pos tot gids"
  by (simp add: laid_def layout_new_def)

lemma laid_closed:
  assumes "laid p cs pos tot gids" and "spec_id c \<notin> gids" and "spec_col_type c \<noteq> Value"
  shows "add_column c r p = add_column c r (closed p)" "laid (closed p) cs pos tot gids'"
proof -
  show "add_column c r p = add_column c r (closed p)"
  proof (cases "lp_state p = Ready")
    case True
    then have "closed p = p" by (simp add: closed_def)
    then show ?thesis by simp
  next
    case False
    then show ?thesis
      using assms add_column_InValue [of p _ c r] add_column_InGroup [of p _ _ c r] by (auto simp: laid_def)
  qed
  show "laid (closed p) cs pos tot gids'" using assms by (auto simp: laid_def)
qed

lemma laid_checks:
  assumes "laid p cs pos tot gids" and "lp_state p = Ready" and "fst r = pos" and "snd r \<le> tot"
  shows "check_contiguous p r = Inr ()" "check_bounds p r = Inr ()" "check_spec p c = Inr ()"
  using assms by (auto simp: laid_def check_contiguous_def check_bounds_def check_spec_def)

text \<open>The logical column of a raw column that stands for itself.\<close>

fun simple_column :: "column_spec \<Rightarrow> range \<Rightarrow> column option" where
  "simple_column s r = (case spec_col_type s of
     Actor \<Rightarrow> Some (build_actor s r)
   | String \<Rightarrow> Some (build_string s r)
   | Integer \<Rightarrow> Some (build_integer s r)
   | DeltaInteger \<Rightarrow> Some (build_delta_integer s r)
   | Boolean \<Rightarrow> Some (build_boolean s r)
   | _ \<Rightarrow> None)"

lemma add_simple:
  assumes "laid p cs pos tot gids" and "spec_id s \<notin> gids" and "simple_column s r = Some c"
    and "fst r = pos" and "snd r \<le> tot"
  shows "\<exists>p'. add_column s r p = Inr p' \<and> laid p' (cs @ [c]) (snd r) tot gids'"
proof -
  have t: "spec_col_type s \<noteq> Value" "spec_col_type s \<noteq> Group" "spec_col_type s \<noteq> ValueMetadata"
    using assms(3) by auto
  note cl = laid_closed [OF assms(1,2) t(1)]
  let ?p = "(closed p)\<lparr>lp_columns := cs @ [c]\<rparr>"
  have "add_column s r (closed p) = Inr ?p"
    using assms laid_checks [OF cl(2) _ assms(4,5)] t
    by (auto simp: add_column.simps [of s r "closed p"] laid_def split: column_type.splits)
  moreover have "laid ?p (cs @ [c]) (snd r) tot gids'"
    using assms(1,3) by (auto simp: laid_def split: column_type.splits)
  ultimately show ?thesis using cl(1) by auto
qed

lemma add_meta:
  assumes "laid p cs pos tot gids" and "spec_id s \<notin> gids" and "spec_col_type s = ValueMetadata"
    and "fst r = pos" and "snd r \<le> tot"
  shows "\<exists>p'. add_column s r p = Inr p' \<and> laid p' (cs @ [value_build \<lparr>av_spec = s, av_meta = r\<rparr> (0, 0)]) (snd r) tot gids'
    \<and> lp_state p' = InValue \<lparr>av_spec = s, av_meta = r\<rparr> \<and> lp_columns p' = cs"
proof -
  have t: "spec_col_type s \<noteq> Value" using assms(3) by simp
  note cl = laid_closed [OF assms(1,2) t]
  let ?p = "(closed p)\<lparr>lp_state := InValue \<lparr>av_spec = s, av_meta = r\<rparr>\<rparr>"
  have "add_column s r (closed p) = Inr ?p"
    using assms laid_checks [OF cl(2) _ assms(4,5)] by (simp add: add_column.simps [of s r "closed p"])
  moreover have "laid ?p (cs @ [value_build \<lparr>av_spec = s, av_meta = r\<rparr> (0, 0)]) (snd r) tot gids'"
    using assms(1) by (auto simp: laid_def layout_build_def)
  moreover have "lp_columns ?p = cs" using assms(1) by (simp add: laid_def)
  ultimately show ?thesis using cl(1) by auto
qed

lemma add_raw_value:
  assumes "lp_state p = InValue b" and "lp_columns p = cs" and "lp_last_spec p = None" and "lp_total p = tot"
    and "spec_id s = spec_id (av_spec b)" and "spec_col_type s = Value"
    and "fst r = snd (av_meta b)" and "snd r \<le> tot" and "\<not> range_empty r"
  shows "\<exists>p'. add_column s r p = Inr p' \<and> laid p' (cs @ [value_build b r]) (snd r) tot gids'"
  using assms
  by (auto simp: add_column.simps [of s r p] check_contiguous_def check_bounds_def check_spec_def laid_def
      col_range_def value_build_def value_range_range_def)

lemma add_group:
  assumes "laid p cs pos tot gids" and "spec_id s \<notin> gids" and "spec_col_type s = Group"
    and "fst r = pos" and "snd r \<le> tot"
  shows "\<exists>p'. add_column s r p = Inr p' \<and> laid p' (cs @ [group_finish (start_group s r)]) (snd r) tot {spec_id s}
    \<and> lp_state p' = InGroup (spec_id s) (GroupReady (start_group s r)) \<and> lp_columns p' = cs"
proof -
  have t: "spec_col_type s \<noteq> Value" using assms(3) by simp
  note cl = laid_closed [OF assms(1,2) t]
  let ?p = "(closed p)\<lparr>lp_state := InGroup (spec_id s) (GroupReady (start_group s r))\<rparr>"
  have "add_column s r (closed p) = Inr ?p"
    using assms laid_checks [OF cl(2) _ assms(4,5)] by (simp add: add_column.simps [of s r "closed p"])
  moreover have "laid ?p (cs @ [group_finish (start_group s r)]) (snd r) tot {spec_id s}"
    using assms(1) by (auto simp: laid_def layout_build_def start_group_def group_builder_range_def)
  moreover have "lp_columns ?p = cs" using assms(1) by (simp add: laid_def)
  ultimately show ?thesis using cl(1) by auto
qed

lemma add_in_group:
  assumes "lp_state p = InGroup i (GroupReady b)" and "lp_columns p = cs" and "lp_last_spec p = None"
    and "lp_total p = tot" and "spec_id s = i"
    and "spec_col_type s = Actor \<and> g = RleInt r \<or> spec_col_type s = DeltaInteger \<and> g = Delta r"
    and "fst r = snd (group_builder_range b)" and "snd r \<le> tot"
  shows "\<exists>p'. add_column s r p = Inr p' \<and> laid p' (cs @ [group_finish (group_add g b)]) (snd r) tot {i}
    \<and> lp_state p' = InGroup i (GroupReady (group_add g b)) \<and> lp_columns p' = cs"
  using assms
  by (auto simp: add_column.simps [of s r p] check_contiguous_def check_bounds_def check_spec_def laid_def
      layout_build_def group_add_def group_builder_range_def)

end
