(* ===== verification/Change_Columns.thy ===== *)
theory Change_Columns
  imports Layout
begin

text \<open>
  The operation columns of a change (\<open>storage/change/change_op_columns.rs\<close>): the raw columns they
  are written as and the conversion of parsed raw columns back. Ranges that a column type wraps are
  the ranges themselves.
\<close>

record change_ops_columns =
  co_obj :: "(range \<times> range) option"
  co_key_actor :: range
  co_key_ctr :: range
  co_key_str :: range
  co_insert :: range
  co_action :: range
  co_val :: value_range
  co_pred_num :: range
  co_pred_actor :: range
  co_pred_ctr :: range
  co_expand :: range
  co_mark_name :: range

definition obj_col_id :: u32 where "obj_col_id = 0"
definition key_col_id :: u32 where "key_col_id = 1"
definition insert_col_id :: u32 where "insert_col_id = 3"
definition action_col_id :: u32 where "action_col_id = 4"
definition val_col_id :: u32 where "val_col_id = 5"
definition pred_col_id :: u32 where "pred_col_id = 7"
definition expand_col_id :: u32 where "expand_col_id = 9"
definition mark_name_col_id :: u32 where "mark_name_col_id = 10"

lemmas col_ids = obj_col_id_def key_col_id_def insert_col_id_def action_col_id_def val_col_id_def
  pred_col_id_def expand_col_id_def mark_name_col_id_def

definition obj_id_range_new :: "range \<Rightarrow> range \<Rightarrow> (range \<times> range) option" where
  "obj_id_range_new actor ctr = (if range_empty actor \<or> range_empty ctr then None else Some (actor, ctr))"

definition raw_columns :: "change_ops_columns \<Rightarrow> raw_column list" where
  "raw_columns c = (let
     cols = [
       raw_column_new (spec_new obj_col_id Actor False) (case co_obj c of Some (a, _) \<Rightarrow> a | None \<Rightarrow> (0, 0)),
       raw_column_new (spec_new obj_col_id Integer False) (case co_obj c of Some (_, n) \<Rightarrow> n | None \<Rightarrow> (0, 0)),
       raw_column_new (spec_new key_col_id Actor False) (co_key_actor c),
       raw_column_new (spec_new key_col_id DeltaInteger False) (co_key_ctr c),
       raw_column_new (spec_new key_col_id String False) (co_key_str c),
       raw_column_new (spec_new insert_col_id Boolean False) (co_insert c),
       raw_column_new (spec_new action_col_id Integer False) (co_action c),
       raw_column_new (spec_new val_col_id ValueMetadata False) (vr_meta (co_val c))];
     cols = cols @ (if range_empty (vr_raw (co_val c)) then []
       else [raw_column_new (spec_new val_col_id Value False) (vr_raw (co_val c))]);
     cols = cols @ [raw_column_new (spec_new pred_col_id Group False) (co_pred_num c)];
     cols = cols @ (if range_empty (co_pred_actor c) then []
       else [raw_column_new (spec_new pred_col_id Actor False) (co_pred_actor c),
             raw_column_new (spec_new pred_col_id DeltaInteger False) (co_pred_ctr c)]);
     cols = cols @ (if range_empty (co_expand c) then []
       else [raw_column_new (spec_new expand_col_id Boolean False) (co_expand c)]);
     cols = cols @ (if range_empty (co_mark_name c) then []
       else [raw_column_new (spec_new mark_name_col_id String False) (co_mark_name c)])
     in cols_from_columns cols)"

subsection \<open>Reading the columns back\<close>

text \<open>The local variables of \<open>try_from\<close>.\<close>

record col_slots =
  sl_obj_actor :: "range option"
  sl_obj_ctr :: "range option"
  sl_key_actor :: "range option"
  sl_key_ctr :: "range option"
  sl_key_str :: "range option"
  sl_insert :: "range option"
  sl_action :: "range option"
  sl_val :: "value_range option"
  sl_pred_group :: "range option"
  sl_pred_actor :: "range option"
  sl_pred_ctr :: "range option"
  sl_expand :: "range option"
  sl_mark_name :: "range option"

definition no_slots :: col_slots where
  "no_slots = \<lparr>sl_obj_actor = None, sl_obj_ctr = None, sl_key_actor = None, sl_key_ctr = None,
     sl_key_str = None, sl_insert = None, sl_action = None, sl_val = None, sl_pred_group = None,
     sl_pred_actor = None, sl_pred_ctr = None, sl_expand = None, sl_mark_name = None\<rparr>"

datatype change_columns_error = MismatchingColumn nat

definition place_group :: "nat \<Rightarrow> group_range \<Rightarrow> col_slots \<Rightarrow> change_columns_error + col_slots" where
  "place_group index g s = (let s = s\<lparr>sl_pred_group := Some (gr_num g)\<rparr> in
     case gr_values g of
       [] \<Rightarrow> Inr (s\<lparr>sl_pred_actor := Some (0, 0), sl_pred_ctr := Some (0, 0)\<rparr>)
     | GroupedSimple (RleInt actor_range) # GroupedSimple (Delta ctr_range) # rest \<Rightarrow>
         if rest \<noteq> [] then Inl (MismatchingColumn index)
         else Inr (s\<lparr>sl_pred_actor := Some actor_range, sl_pred_ctr := Some ctr_range\<rparr>)
     | _ \<Rightarrow> Inl (MismatchingColumn index))"

text \<open>A column that no arm expects is set aside and not used.\<close>

definition place_column :: "nat \<Rightarrow> column \<Rightarrow> col_slots \<Rightarrow> change_columns_error + col_slots" where
  "place_column index col s = (let i = col_id col; t = col_type col; r = col_range col in
     if i = obj_col_id \<and> t = Actor then Inr (s\<lparr>sl_obj_actor := Some r\<rparr>)
     else if i = obj_col_id \<and> t = Integer then Inr (s\<lparr>sl_obj_ctr := Some r\<rparr>)
     else if i = key_col_id \<and> t = Actor then Inr (s\<lparr>sl_key_actor := Some r\<rparr>)
     else if i = key_col_id \<and> t = DeltaInteger then Inr (s\<lparr>sl_key_ctr := Some r\<rparr>)
     else if i = key_col_id \<and> t = String then Inr (s\<lparr>sl_key_str := Some r\<rparr>)
     else if i = insert_col_id \<and> t = Boolean then Inr (s\<lparr>sl_insert := Some r\<rparr>)
     else if i = action_col_id \<and> t = Integer then Inr (s\<lparr>sl_action := Some r\<rparr>)
     else if i = val_col_id \<and> t = ValueMetadata then
       (case col_ranges col of
          ValueCol v \<Rightarrow> Inr (s\<lparr>sl_val := Some v\<rparr>)
        | _ \<Rightarrow> Inl (MismatchingColumn index))
     else if i = pred_col_id \<and> t = Group then
       (case col_ranges col of
          GroupCol g \<Rightarrow> place_group index g s
        | _ \<Rightarrow> Inl (MismatchingColumn index))
     else if i = expand_col_id \<and> t = Boolean then Inr (s\<lparr>sl_expand := Some r\<rparr>)
     else if i = mark_name_col_id \<and> t = String then Inr (s\<lparr>sl_mark_name := Some r\<rparr>)
     else Inr s)"

fun place_columns :: "nat \<Rightarrow> column list \<Rightarrow> col_slots \<Rightarrow> change_columns_error + col_slots" where
  "place_columns index [] s = Inr s"
| "place_columns index (col # cols) s = bind_res (place_column index col s) (place_columns (index + 1) cols)"

definition or_empty :: "range option \<Rightarrow> range" where
  "or_empty r = (case r of Some r \<Rightarrow> r | None \<Rightarrow> (0, 0))"

definition change_cols_try_from :: "column list \<Rightarrow> change_columns_error + change_ops_columns" where
  "change_cols_try_from columns = bind_res (place_columns 0 columns no_slots) (\<lambda>s. Inr
     \<lparr>co_obj = obj_id_range_new (or_empty (sl_obj_actor s)) (or_empty (sl_obj_ctr s)),
      co_key_actor = or_empty (sl_key_actor s), co_key_ctr = or_empty (sl_key_ctr s),
      co_key_str = or_empty (sl_key_str s), co_insert = or_empty (sl_insert s),
      co_action = or_empty (sl_action s),
      co_val = (case sl_val s of Some v \<Rightarrow> v | None \<Rightarrow> \<lparr>vr_meta = (0, 0), vr_raw = (0, 0)\<rparr>),
      co_pred_num = or_empty (sl_pred_group s), co_pred_actor = or_empty (sl_pred_actor s),
      co_pred_ctr = or_empty (sl_pred_ctr s), co_expand = or_empty (sl_expand s),
      co_mark_name = or_empty (sl_mark_name s)\<rparr>)"

datatype invalid_columns = BadLayout bad_column_layout | BadColumns change_columns_error

definition change_cols_from_raw :: "raw_column list \<Rightarrow> invalid_columns + change_ops_columns" where
  "change_cols_from_raw raw = (let len = total_column_len raw in
     bind_res (map_err BadLayout (parse2 len raw)) (\<lambda>col_layout.
     map_err BadColumns (change_cols_try_from col_layout)))"

subsection \<open>Optional columns\<close>

definition opt_raw :: "column_spec \<Rightarrow> range \<Rightarrow> raw_column list" where
  "opt_raw s r = (if range_empty r then [] else [\<lparr>rc_spec = s, rc_data = r\<rparr>])"

definition opt_col :: "range \<Rightarrow> column \<Rightarrow> column list" where
  "opt_col r c = (if range_empty r then [] else [c])"

definition lays ::
  "nat \<Rightarrow> raw_column list \<Rightarrow> nat \<Rightarrow> u32 set \<Rightarrow> column list \<Rightarrow> nat \<Rightarrow> u32 set \<Rightarrow> bool" where
  "lays tot xs pos gids ys pos' gids' \<longleftrightarrow> (\<forall>p cs. laid p cs pos tot gids \<longrightarrow>
     (\<exists>p'. add_columns xs p = Inr p' \<and> laid p' (cs @ ys) pos' tot gids'))"

lemma add_columns_append: "add_columns (xs @ ys) p = bind_res (add_columns xs p) (add_columns ys)"
proof (induction xs arbitrary: p)
  case (Cons c cs)
  then have "add_columns (cs @ ys) = (\<lambda>p. bind_res (add_columns cs p) (add_columns ys))" by auto
  then show ?case by (simp add: bind_res_assoc)
qed simp

lemma lays_append:
  "lays tot xs pos gids ys pos1 gids1 \<Longrightarrow> lays tot xs' pos1 gids1 ys' pos2 gids2
   \<Longrightarrow> lays tot (xs @ xs') pos gids (ys @ ys') pos2 gids2"
  unfolding lays_def by (fastforce simp: add_columns_append)

lemma laid_mono: "laid p cs pos tot gids \<Longrightarrow> gids \<subseteq> gids' \<Longrightarrow> laid p cs pos tot gids'"
  by (auto simp: laid_def)

lemma range_empty_at: "range_empty r \<Longrightarrow> fst r \<le> snd r \<Longrightarrow> snd r = fst r"
  by (simp add: range_empty_def)

lemma lays_simple:
  assumes "simple_column s r = Some c" and "spec_id s \<notin> gids"
    and "fst r = pos" and "fst r \<le> snd r" and "snd r \<le> tot" and "pos' = snd r"
  shows "lays tot (opt_raw s r) pos gids (opt_col r c) pos' gids"
proof -
  have "\<exists>p'. add_columns (opt_raw s r) p = Inr p' \<and> laid p' (cs @ opt_col r c) pos' tot gids"
    if "laid p cs pos tot gids" for p cs
  proof (cases "range_empty r")
    case True
    then show ?thesis using that assms range_empty_at [OF True assms(4)] by (simp add: opt_raw_def opt_col_def)
  next
    case False
    then show ?thesis
      using add_simple [OF that assms(2,1,3,5), of gids] assms(6) by (auto simp: opt_raw_def opt_col_def)
  qed
  then show ?thesis by (auto simp: lays_def)
qed

lemma lays_value:
  assumes "spec_col_type s = ValueMetadata" "spec_col_type s' = Value" "spec_id s = spec_id s'" "spec_id s \<notin> gids"
    and "fst m = pos" "fst m \<le> snd m" "fst r = snd m" "fst r \<le> snd r" "snd r \<le> tot"
    and "range_empty m \<longrightarrow> range_empty r" and "pos' = snd r"
  shows "lays tot (opt_raw s m @ opt_raw s' r) pos gids
    (opt_col m (value_build \<lparr>av_spec = s, av_meta = m\<rparr> (if range_empty r then (0, 0) else r))) pos' gids"
proof -
  have "\<exists>p'. add_columns (opt_raw s m @ opt_raw s' r) p = Inr p' \<and>
      laid p' (cs @ opt_col m (value_build \<lparr>av_spec = s, av_meta = m\<rparr> (if range_empty r then (0, 0) else r))) pos' tot gids"
    if "laid p cs pos tot gids" for p cs
  proof (cases "range_empty m")
    case True
    then show ?thesis using that assms range_empty_at [of m] range_empty_at [of r]
      by (simp add: opt_raw_def opt_col_def)
  next
    case m: False
    have "snd m \<le> tot" using assms by simp
    from add_meta [OF that assms(4,1,5) this, of gids] obtain p1 where p1: "add_column s m p = Inr p1"
      "laid p1 (cs @ [value_build \<lparr>av_spec = s, av_meta = m\<rparr> (0, 0)]) (snd m) tot gids"
      "lp_state p1 = InValue \<lparr>av_spec = s, av_meta = m\<rparr>" "lp_columns p1 = cs" by blast
    show ?thesis
    proof (cases "range_empty r")
      case True
      with m p1 show ?thesis using range_empty_at [OF True assms(8)] assms by (simp add: opt_raw_def opt_col_def)
    next
      case False
      have "\<exists>p2. add_column s' r p1 = Inr p2 \<and> laid p2 (cs @ [value_build \<lparr>av_spec = s, av_meta = m\<rparr> r]) (snd r) tot gids"
        by (rule add_raw_value [OF p1(3,4)]) (use p1(2) assms False in \<open>auto simp: laid_def\<close>)
      with False m p1 assms show ?thesis by (auto simp: opt_raw_def opt_col_def)
    qed
  qed
  then show ?thesis by (auto simp: lays_def)
qed

lemma lays_group:
  assumes "spec_col_type s = Group" "spec_col_type sa = Actor" "spec_col_type sc = DeltaInteger"
    and "spec_id sa = spec_id s" "spec_id sc = spec_id s" "spec_id s \<notin> gids"
    and "fst n = pos" "fst n \<le> snd n" "fst a = snd n" "fst a \<le> snd a" "fst c = snd a" "fst c \<le> snd c" "snd c \<le> tot"
    and "range_empty n \<longrightarrow> range_empty a" and "range_empty a \<longleftrightarrow> range_empty c" and "pos' = snd c"
  shows "lays tot (opt_raw s n @ opt_raw sa a @ opt_raw sc c) pos gids
    (opt_col n (group_finish \<lparr>gb_spec = s, gb_num = n,
       gb_columns = (if range_empty a then [] else [GroupedSimple (RleInt a), GroupedSimple (Delta c)])\<rparr>))
    pos' (insert (spec_id s) gids)"
proof -
  have "\<exists>p'. add_columns (opt_raw s n @ opt_raw sa a @ opt_raw sc c) p = Inr p' \<and>
      laid p' (cs @ opt_col n (group_finish \<lparr>gb_spec = s, gb_num = n,
        gb_columns = (if range_empty a then [] else [GroupedSimple (RleInt a), GroupedSimple (Delta c)])\<rparr>))
        pos' tot (insert (spec_id s) gids)"
    if l: "laid p cs pos tot gids" for p cs
  proof (cases "range_empty n")
    case True
    then show ?thesis using l assms range_empty_at [of n] range_empty_at [of a] range_empty_at [of c]
      by (auto simp: opt_raw_def opt_col_def intro: laid_mono)
  next
    case n: False
    have "snd n \<le> tot" using assms by simp
    from add_group [OF l assms(6,1,7) this] obtain p1 where p1: "add_column s n p = Inr p1"
      "laid p1 (cs @ [group_finish (start_group s n)]) (snd n) tot {spec_id s}"
      "lp_state p1 = InGroup (spec_id s) (GroupReady (start_group s n))" "lp_columns p1 = cs" by blast
    show ?thesis
    proof (cases "range_empty a")
      case True
      with n p1 show ?thesis using range_empty_at [of a] range_empty_at [of c] assms
        by (auto simp: opt_raw_def opt_col_def start_group_def intro: laid_mono)
    next
      case False
      have "\<exists>p2. add_column sa a p1 = Inr p2 \<and> laid p2 (cs @ [group_finish (group_add (RleInt a) (start_group s n))]) (snd a) tot {spec_id s}
          \<and> lp_state p2 = InGroup (spec_id s) (GroupReady (group_add (RleInt a) (start_group s n))) \<and> lp_columns p2 = cs"
        by (rule add_in_group [OF p1(3,4)])
          (use p1(2) assms in \<open>auto simp: laid_def start_group_def group_builder_range_def\<close>)
      then obtain p2 where p2: "add_column sa a p1 = Inr p2"
        "laid p2 (cs @ [group_finish (group_add (RleInt a) (start_group s n))]) (snd a) tot {spec_id s}"
        "lp_state p2 = InGroup (spec_id s) (GroupReady (group_add (RleInt a) (start_group s n)))" "lp_columns p2 = cs"
        by blast
      have "\<exists>p3. add_column sc c p2 = Inr p3
          \<and> laid p3 (cs @ [group_finish (group_add (Delta c) (group_add (RleInt a) (start_group s n)))]) (snd c) tot {spec_id s}
          \<and> lp_state p3 = InGroup (spec_id s) (GroupReady (group_add (Delta c) (group_add (RleInt a) (start_group s n)))) \<and> lp_columns p3 = cs"
        by (rule add_in_group [OF p2(3,4)])
          (use p2(2) assms in \<open>auto simp: laid_def start_group_def group_builder_range_def group_add_def\<close>)
      with False n p1(1) p2(1) assms show ?thesis
        by (auto simp: opt_raw_def opt_col_def start_group_def group_add_def intro: laid_mono)
    qed
  qed
  then show ?thesis by (auto simp: lays_def)
qed

subsection \<open>The columns of a change\<close>

definition obj_actor_range :: "change_ops_columns \<Rightarrow> range" where
  "obj_actor_range c = (case co_obj c of Some (a, _) \<Rightarrow> a | None \<Rightarrow> (0, 0))"

definition obj_ctr_range :: "change_ops_columns \<Rightarrow> range" where
  "obj_ctr_range c = (case co_obj c of Some (_, n) \<Rightarrow> n | None \<Rightarrow> (0, 0))"

text \<open>
  What the encoders produce: the fourteen ranges follow each other from 0, the object columns are
  both present or absent, raw values come with their metadata, and predecessors with their counts.
\<close>

definition co_ranges :: "change_ops_columns \<Rightarrow> range list" where
  "co_ranges c = [obj_actor_range c, obj_ctr_range c, co_key_actor c, co_key_ctr c, co_key_str c, co_insert c,
     co_action c, vr_meta (co_val c), vr_raw (co_val c), co_pred_num c, co_pred_actor c, co_pred_ctr c,
     co_expand c, co_mark_name c]"

fun chained :: "nat \<Rightarrow> range list \<Rightarrow> bool" where
  "chained pos [] = True"
| "chained pos (r # rs) \<longleftrightarrow> fst r = pos \<and> pos \<le> snd r \<and> chained (snd r) rs"

definition encoded_columns :: "change_ops_columns \<Rightarrow> bool" where
  "encoded_columns c \<longleftrightarrow> chained 0 (co_ranges c)
     \<and> (case co_obj c of None \<Rightarrow> True | Some (a, n) \<Rightarrow> \<not> range_empty a \<and> \<not> range_empty n)
     \<and> (range_empty (vr_meta (co_val c)) \<longrightarrow> range_empty (vr_raw (co_val c)))
     \<and> (range_empty (co_pred_num c) \<longrightarrow> range_empty (co_pred_actor c))
     \<and> (range_empty (co_pred_actor c) \<longleftrightarrow> range_empty (co_pred_ctr c))"

text \<open>Empty columns are not written, so their position is forgotten.\<close>

definition norm_range :: "range \<Rightarrow> range" where
  "norm_range r = (if range_empty r then (0, 0) else r)"

definition norm_columns :: "change_ops_columns \<Rightarrow> change_ops_columns" where
  "norm_columns c =
     \<lparr>co_obj = co_obj c,
      co_key_actor = norm_range (co_key_actor c), co_key_ctr = norm_range (co_key_ctr c),
      co_key_str = norm_range (co_key_str c), co_insert = norm_range (co_insert c),
      co_action = norm_range (co_action c),
      co_val = \<lparr>vr_meta = norm_range (vr_meta (co_val c)), vr_raw = norm_range (vr_raw (co_val c))\<rparr>,
      co_pred_num = norm_range (co_pred_num c), co_pred_actor = norm_range (co_pred_actor c),
      co_pred_ctr = norm_range (co_pred_ctr c), co_expand = norm_range (co_expand c),
      co_mark_name = norm_range (co_mark_name c)\<rparr>"

lemma raw_column_new_spec [simp]: "raw_column_new (spec_new i t False) r = \<lparr>rc_spec = spec_new (i AND mask 4) t False, rc_data = r\<rparr>"
proof -
  have "spec_new (i AND mask 4) t False = spec_new i t False" for i t
    by (rule spec_raw_eqI, rule bit_word_eqI) (auto simp: bit_spec_new bit_simps)
  then show ?thesis by (simp add: raw_column_new_def spec_new_id spec_new_col_type)
qed

lemma mask4_ids [simp]:
  "obj_col_id AND mask 4 = obj_col_id" "key_col_id AND mask 4 = key_col_id" "insert_col_id AND mask 4 = insert_col_id"
  "action_col_id AND mask 4 = action_col_id" "val_col_id AND mask 4 = val_col_id" "pred_col_id AND mask 4 = pred_col_id"
  "expand_col_id AND mask 4 = expand_col_id" "mark_name_col_id AND mask 4 = mark_name_col_id"
  by (simp_all add: id_small col_ids)

lemma mask4_numerals [simp]:
  "(1 :: u32) AND mask 4 = 1" "(3 :: u32) AND mask 4 = 3" "(4 :: u32) AND mask 4 = 4" "(5 :: u32) AND mask 4 = 5"
  "(7 :: u32) AND mask 4 = 7" "(9 :: u32) AND mask 4 = 9" "(10 :: u32) AND mask 4 = 10"
  by (simp_all add: id_small)

lemma cols_from_columns_Cons:
  "cols_from_columns [] = []"
  "cols_from_columns (\<lparr>rc_spec = s, rc_data = r\<rparr> # cs) = opt_raw s r @ cols_from_columns cs"
  "cols_from_columns (xs @ ys) = cols_from_columns xs @ cols_from_columns ys"
  by (simp_all add: cols_from_columns_def opt_raw_def range_empty_def)

lemma cols_from_columns_if:
  "cols_from_columns (if range_empty r then [] else [\<lparr>rc_spec = s, rc_data = r\<rparr>]) = opt_raw s r"
  "range_empty a = range_empty b \<Longrightarrow>
    cols_from_columns (if range_empty a then [] else [\<lparr>rc_spec = s, rc_data = a\<rparr>, \<lparr>rc_spec = s', rc_data = b\<rparr>])
      = opt_raw s a @ opt_raw s' b"
  by (simp_all add: cols_from_columns_def opt_raw_def range_empty_def)

lemma raw_columns_eq:
  assumes "range_empty (co_pred_actor c) \<longleftrightarrow> range_empty (co_pred_ctr c)"
  shows "raw_columns c =
    opt_raw (spec_new obj_col_id Actor False) (obj_actor_range c)
    @ opt_raw (spec_new obj_col_id Integer False) (obj_ctr_range c)
    @ opt_raw (spec_new key_col_id Actor False) (co_key_actor c)
    @ opt_raw (spec_new key_col_id DeltaInteger False) (co_key_ctr c)
    @ opt_raw (spec_new key_col_id String False) (co_key_str c)
    @ opt_raw (spec_new insert_col_id Boolean False) (co_insert c)
    @ opt_raw (spec_new action_col_id Integer False) (co_action c)
    @ (opt_raw (spec_new val_col_id ValueMetadata False) (vr_meta (co_val c))
      @ opt_raw (spec_new val_col_id Value False) (vr_raw (co_val c)))
    @ (opt_raw (spec_new pred_col_id Group False) (co_pred_num c)
      @ opt_raw (spec_new pred_col_id Actor False) (co_pred_actor c)
      @ opt_raw (spec_new pred_col_id DeltaInteger False) (co_pred_ctr c))
    @ opt_raw (spec_new expand_col_id Boolean False) (co_expand c)
    @ opt_raw (spec_new mark_name_col_id String False) (co_mark_name c)"
  unfolding raw_columns_def Let_def raw_column_new_spec mask4_ids cols_from_columns_Cons(3)
    cols_from_columns_if(1) cols_from_columns_if(2) [OF assms]
  by (simp only: cols_from_columns_Cons(1,2) append_assoc append_Nil append_Nil2
      obj_actor_range_def obj_ctr_range_def)

text \<open>The logical columns the parser builds from them.\<close>

definition logical_columns :: "change_ops_columns \<Rightarrow> column list" where
  "logical_columns c =
    opt_col (obj_actor_range c) (build_actor (spec_new obj_col_id Actor False) (obj_actor_range c))
    @ opt_col (obj_ctr_range c) (build_integer (spec_new obj_col_id Integer False) (obj_ctr_range c))
    @ opt_col (co_key_actor c) (build_actor (spec_new key_col_id Actor False) (co_key_actor c))
    @ opt_col (co_key_ctr c) (build_delta_integer (spec_new key_col_id DeltaInteger False) (co_key_ctr c))
    @ opt_col (co_key_str c) (build_string (spec_new key_col_id String False) (co_key_str c))
    @ opt_col (co_insert c) (build_boolean (spec_new insert_col_id Boolean False) (co_insert c))
    @ opt_col (co_action c) (build_integer (spec_new action_col_id Integer False) (co_action c))
    @ opt_col (vr_meta (co_val c)) (value_build \<lparr>av_spec = spec_new val_col_id ValueMetadata False, av_meta = vr_meta (co_val c)\<rparr>
        (if range_empty (vr_raw (co_val c)) then (0, 0) else vr_raw (co_val c)))
    @ opt_col (co_pred_num c) (group_finish \<lparr>gb_spec = spec_new pred_col_id Group False, gb_num = co_pred_num c,
        gb_columns = (if range_empty (co_pred_actor c) then []
          else [GroupedSimple (RleInt (co_pred_actor c)), GroupedSimple (Delta (co_pred_ctr c))])\<rparr>)
    @ opt_col (co_expand c) (build_boolean (spec_new expand_col_id Boolean False) (co_expand c))
    @ opt_col (co_mark_name c) (build_string (spec_new mark_name_col_id String False) (co_mark_name c))"

lemma spec_ids [simp]: "spec_id (spec_new i t False) = i AND mask 4" "spec_col_type (spec_new i t d) = t"
  by (simp_all add: spec_new_id spec_new_col_type)

lemma total_opt_raw: "total_column_len (opt_raw s r @ cs) = range_len r + total_column_len cs"
  by (auto simp: total_column_len_def opt_raw_def range_empty_def range_len_def)

lemma parse2_raw_columns:
  assumes "encoded_columns c"
  shows "parse2 (total_column_len (raw_columns c)) (raw_columns c) = Inr (logical_columns c)"
proof -
  have ch: "chained 0 (co_ranges c)" and eq: "range_empty (co_pred_actor c) \<longleftrightarrow> range_empty (co_pred_ctr c)"
    using assms by (auto simp: encoded_columns_def)
  have tot: "total_column_len (raw_columns c) = snd (co_mark_name c)"
    using ch unfolding raw_columns_eq [OF eq]
    by (simp add: total_opt_raw append_assoc)
      (simp add: co_ranges_def total_column_len_def opt_raw_def range_len_def range_empty_def)
  have A: "fst (obj_actor_range c) = 0" "fst (obj_ctr_range c) = snd (obj_actor_range c)"
    "fst (co_key_actor c) = snd (obj_ctr_range c)" "fst (co_key_ctr c) = snd (co_key_actor c)"
    "fst (co_key_str c) = snd (co_key_ctr c)" "fst (co_insert c) = snd (co_key_str c)"
    "fst (co_action c) = snd (co_insert c)" "fst (vr_meta (co_val c)) = snd (co_action c)"
    "fst (vr_raw (co_val c)) = snd (vr_meta (co_val c))" "fst (co_pred_num c) = snd (vr_raw (co_val c))"
    "fst (co_pred_actor c) = snd (co_pred_num c)" "fst (co_pred_ctr c) = snd (co_pred_actor c)"
    "fst (co_expand c) = snd (co_pred_ctr c)" "fst (co_mark_name c) = snd (co_expand c)"
    using ch by (simp_all add: co_ranges_def)
  have B: "snd (obj_actor_range c) \<le> snd (obj_ctr_range c)" "snd (obj_ctr_range c) \<le> snd (co_key_actor c)"
    "snd (co_key_actor c) \<le> snd (co_key_ctr c)" "snd (co_key_ctr c) \<le> snd (co_key_str c)"
    "snd (co_key_str c) \<le> snd (co_insert c)" "snd (co_insert c) \<le> snd (co_action c)"
    "snd (co_action c) \<le> snd (vr_meta (co_val c))" "snd (vr_meta (co_val c)) \<le> snd (vr_raw (co_val c))"
    "snd (vr_raw (co_val c)) \<le> snd (co_pred_num c)" "snd (co_pred_num c) \<le> snd (co_pred_actor c)"
    "snd (co_pred_actor c) \<le> snd (co_pred_ctr c)" "snd (co_pred_ctr c) \<le> snd (co_expand c)"
    "snd (co_expand c) \<le> snd (co_mark_name c)"
    using ch by (simp_all add: co_ranges_def)
  have D: "snd (obj_actor_range c) \<le> snd (co_mark_name c)" "snd (obj_ctr_range c) \<le> snd (co_mark_name c)"
    "snd (co_key_actor c) \<le> snd (co_mark_name c)" "snd (co_key_ctr c) \<le> snd (co_mark_name c)"
    "snd (co_key_str c) \<le> snd (co_mark_name c)" "snd (co_insert c) \<le> snd (co_mark_name c)"
    "snd (co_action c) \<le> snd (co_mark_name c)" "snd (vr_raw (co_val c)) \<le> snd (co_mark_name c)"
    "snd (co_pred_ctr c) \<le> snd (co_mark_name c)" "snd (co_expand c) \<le> snd (co_mark_name c)"
    using B by linarith+
  have C: "range_empty (vr_meta (co_val c)) \<longrightarrow> range_empty (vr_raw (co_val c))"
    "range_empty (co_pred_num c) \<longrightarrow> range_empty (co_pred_ctr c)"
    using assms by (auto simp: encoded_columns_def)
  have "lays (snd (co_mark_name c)) (raw_columns c) 0 {} (logical_columns c) (snd (co_mark_name c))
      (insert (spec_id (spec_new pred_col_id Group False)) {})"
    unfolding raw_columns_eq [OF eq] logical_columns_def
    by (rule lays_append [OF lays_simple lays_append [OF lays_simple lays_append [OF lays_simple
          lays_append [OF lays_simple lays_append [OF lays_simple lays_append [OF lays_simple
          lays_append [OF lays_simple lays_append [OF lays_value lays_append [OF lays_group
          lays_append [OF lays_simple lays_simple]]]]]]]]]])
      (simp_all add: A B C D eq col_ids)
  then show ?thesis
    using laid_new [of "total_column_len (raw_columns c)" 0 "{}"]
    by (auto simp: lays_def parse2_def tot laid_def result_simps)
qed

lemma add_column_Inr_checks:
  assumes "add_column s r p = Inr p'"
  shows "check_contiguous p r = Inr () \<and> check_bounds p r = Inr () \<and> check_spec p s = Inr ()"
  using assms by (subst (asm) add_column_checks) (auto simp: result_simps)

lemma add_column_Ready_last_spec:
  assumes "lp_state p = Ready" and "add_column s r p = Inr p'"
  shows "lp_last_spec p' = lp_last_spec p"
  using assms add_column_Inr_checks [OF assms(2)]
  by (cases "spec_col_type s") (auto simp: add_column.simps [of s r p])

lemma add_column_last_spec: "add_column s r p = Inr p' \<Longrightarrow> lp_last_spec p' = lp_last_spec p"
proof (induction s r p rule: add_column.induct)
  case (1 s r p)
  note c = add_column_Inr_checks [OF "1.prems"]
  show ?case
  proof (cases "lp_state p")
    case Ready
    then show ?thesis by (rule add_column_Ready_last_spec [OF _ "1.prems"])
  next
    case (InValue b)
    show ?thesis
    proof (cases "spec_col_type s = Value")
      case True
      with InValue "1.prems" c show ?thesis by (auto simp: add_column.simps [of s r p] split: if_splits)
    next
      case False
      with InValue "1.prems" show ?thesis
        using add_column_Ready_last_spec [of "closed p" s r p'] by (simp add: add_column_InValue)
    qed
  next
    case (InGroup i g)
    show ?thesis
    proof (cases g)
      case (GroupReady b)
      then show ?thesis
      proof (cases "spec_id s = i")
        case True
        with InGroup GroupReady "1.prems" c show ?thesis
          by (cases "spec_col_type s") (auto simp: add_column.simps [of s r p])
      next
        case False
        with InGroup GroupReady "1.prems" show ?thesis
          using add_column_Ready_last_spec [of "closed p" s r p'] by (simp add: add_column_InGroup)
      qed
    next
      case (GroupInValue b)
      show ?thesis
        using "1.IH"(3,4) [of "()" "()" "()"] "1.prems" c InGroup GroupInValue
        by (auto simp: add_column.simps [of s r p] split: if_splits)
    qed
  qed
qed

text \<open>Each optional column sets its slot, whatever its index.\<close>

lemma place_opt:
  assumes "\<And>i s. place_column i c s = Inr (upd (Some v) s)" and "upd None s = s"
    and "\<And>i. place_columns i rest (upd (if range_empty r then None else Some v) s) = Inr z"
  shows "place_columns i (opt_col r c @ rest) s = Inr z"
proof (cases "range_empty r")
  case True
  then show ?thesis using assms(2) assms(3) [of i] by (simp add: opt_col_def)
next
  case False
  then show ?thesis using assms(1) assms(3) [of "i + 1"] by (simp add: opt_col_def)
qed

lemma place_opt_last:
  assumes "\<And>i s. place_column i c s = Inr (upd (Some v) s)" and "upd None s = s"
    and "upd (if range_empty r then None else Some v) s = z"
  shows "place_columns i (opt_col r c) s = Inr z"
  using place_opt [of c upd v s "[]" r z i] assms by simp

lemma col_of_builders [simp]:
  "col_id (build_actor s r) = spec_id s" "col_type (build_actor s r) = spec_col_type s"
  "col_id (build_string s r) = spec_id s" "col_type (build_string s r) = spec_col_type s"
  "col_id (build_integer s r) = spec_id s" "col_type (build_integer s r) = spec_col_type s"
  "col_id (build_delta_integer s r) = spec_id s" "col_type (build_delta_integer s r) = spec_col_type s"
  "col_id (build_boolean s r) = spec_id s" "col_type (build_boolean s r) = spec_col_type s"
  "col_id (value_build b r) = spec_id (av_spec b)" "col_type (value_build b r) = spec_col_type (av_spec b)"
  "col_id (group_finish g) = spec_id (gb_spec g)" "col_type (group_finish g) = spec_col_type (gb_spec g)"
  "col_ranges (value_build b r) = ValueCol \<lparr>vr_meta = av_meta b, vr_raw = r\<rparr>"
  "col_ranges (group_finish g) = GroupCol \<lparr>gr_num = gb_num g, gr_values = gb_columns g\<rparr>"
  by (simp_all add: col_id_def col_type_def build_actor_def build_string_def build_integer_def
      build_delta_integer_def build_boolean_def value_build_def group_finish_def)

lemmas place_eval = place_column_def place_group_def Let_def col_ids

abbreviation (input) slot :: "range \<Rightarrow> range option" where
  "slot r \<equiv> if range_empty r then None else Some r"

definition filled :: "change_ops_columns \<Rightarrow> col_slots" where
  "filled c = \<lparr>sl_obj_actor = slot (obj_actor_range c), sl_obj_ctr = slot (obj_ctr_range c),
     sl_key_actor = slot (co_key_actor c), sl_key_ctr = slot (co_key_ctr c), sl_key_str = slot (co_key_str c),
     sl_insert = slot (co_insert c), sl_action = slot (co_action c),
     sl_val = (if range_empty (vr_meta (co_val c)) then None
       else Some \<lparr>vr_meta = vr_meta (co_val c), vr_raw = norm_range (vr_raw (co_val c))\<rparr>),
     sl_pred_group = slot (co_pred_num c),
     sl_pred_actor = (if range_empty (co_pred_num c) then None else Some (norm_range (co_pred_actor c))),
     sl_pred_ctr = (if range_empty (co_pred_num c) then None
       else Some (if range_empty (co_pred_actor c) then (0, 0) else co_pred_ctr c)),
     sl_expand = slot (co_expand c), sl_mark_name = slot (co_mark_name c)\<rparr>"

lemma place_logical_columns: "place_columns 0 (logical_columns c) no_slots = Inr (filled c)"
  unfolding logical_columns_def no_slots_def
  apply (rule place_opt [where upd = "\<lambda>r s. s\<lparr>sl_obj_actor := r\<rparr>" and v = "obj_actor_range c"], simp add: place_eval, simp)
  apply (rule place_opt [where upd = "\<lambda>r s. s\<lparr>sl_obj_ctr := r\<rparr>" and v = "obj_ctr_range c"], simp add: place_eval, simp)
  apply (rule place_opt [where upd = "\<lambda>r s. s\<lparr>sl_key_actor := r\<rparr>" and v = "co_key_actor c"], simp add: place_eval, simp)
  apply (rule place_opt [where upd = "\<lambda>r s. s\<lparr>sl_key_ctr := r\<rparr>" and v = "co_key_ctr c"], simp add: place_eval, simp)
  apply (rule place_opt [where upd = "\<lambda>r s. s\<lparr>sl_key_str := r\<rparr>" and v = "co_key_str c"], simp add: place_eval, simp)
  apply (rule place_opt [where upd = "\<lambda>r s. s\<lparr>sl_insert := r\<rparr>" and v = "co_insert c"], simp add: place_eval, simp)
  apply (rule place_opt [where upd = "\<lambda>r s. s\<lparr>sl_action := r\<rparr>" and v = "co_action c"], simp add: place_eval, simp)
  apply (rule place_opt [where upd = "\<lambda>v s. s\<lparr>sl_val := v\<rparr>"
      and v = "\<lparr>vr_meta = vr_meta (co_val c), vr_raw = norm_range (vr_raw (co_val c))\<rparr>"],
      simp add: place_eval norm_range_def, simp)
  apply (rule place_opt [where upd = "\<lambda>v s. s\<lparr>sl_pred_group := map_option fst v,
      sl_pred_actor := map_option (fst \<circ> snd) v, sl_pred_ctr := map_option (snd \<circ> snd) v\<rparr>"
      and v = "(co_pred_num c, norm_range (co_pred_actor c), if range_empty (co_pred_actor c) then (0, 0) else co_pred_ctr c)"],
      simp add: place_eval norm_range_def, simp)
  apply (rule place_opt [where upd = "\<lambda>r s. s\<lparr>sl_expand := r\<rparr>" and v = "co_expand c"], simp add: place_eval, simp)
  apply (rule place_opt_last [where upd = "\<lambda>r s. s\<lparr>sl_mark_name := r\<rparr>" and v = "co_mark_name c"], simp add: place_eval, simp)
  apply (simp add: filled_def)
  done

lemma or_empty_slot [simp]: "or_empty (slot r) = norm_range r"
  by (simp add: or_empty_def norm_range_def)

lemma try_from_logical:
  assumes "encoded_columns c"
  shows "change_cols_try_from (logical_columns c) = Inr (norm_columns c)"
proof -
  have "obj_id_range_new (norm_range (obj_actor_range c)) (norm_range (obj_ctr_range c)) = co_obj c"
    using assms by (auto simp: encoded_columns_def obj_id_range_new_def obj_actor_range_def obj_ctr_range_def
        norm_range_def range_empty_def split: option.splits)
  moreover have "(case sl_val (filled c) of Some v \<Rightarrow> v | None \<Rightarrow> \<lparr>vr_meta = (0, 0), vr_raw = (0, 0)\<rparr>) = co_val (norm_columns c)"
    and "or_empty (sl_pred_actor (filled c)) = norm_range (co_pred_actor c)"
    and "or_empty (sl_pred_ctr (filled c)) = norm_range (co_pred_ctr c)"
    using assms by (auto simp: encoded_columns_def filled_def norm_columns_def norm_range_def or_empty_def)
  ultimately show ?thesis
    by (simp add: change_cols_try_from_def place_logical_columns)
      (simp add: filled_def norm_columns_def)
qed

lemma change_cols_raw:
  "encoded_columns c \<Longrightarrow> change_cols_from_raw (raw_columns c) = Inr (norm_columns c)"
  by (simp add: change_cols_from_raw_def parse2_raw_columns try_from_logical)

subsection \<open>Properties\<close>

text \<open>The raw columns written for the operations of a change are laid out and read back as the
  same columns, up to the position of the empty ones, for every set of columns the encoders can
  produce.\<close>

theorem change_columns_roundtrip:
  assumes "encoded_columns c"
  shows "change_cols_from_raw (raw_columns c) = Inr (norm_columns c)"
  using assms by (rule change_cols_raw)

theorem change_columns_roundtrip_witness:
  "change_cols_from_raw (raw_columns \<lparr>co_obj = None, co_key_actor = (0, 0), co_key_ctr = (0, 0), co_key_str = (0, 3),
      co_insert = (3, 4), co_action = (4, 6), co_val = \<lparr>vr_meta = (6, 8), vr_raw = (8, 8)\<rparr>, co_pred_num = (8, 10),
      co_pred_actor = (10, 10), co_pred_ctr = (10, 10), co_expand = (10, 10), co_mark_name = (10, 10)\<rparr>)
    = Inr \<lparr>co_obj = None, co_key_actor = (0, 0), co_key_ctr = (0, 0), co_key_str = (0, 3),
      co_insert = (3, 4), co_action = (4, 6), co_val = \<lparr>vr_meta = (6, 8), vr_raw = (0, 0)\<rparr>, co_pred_num = (8, 10),
      co_pred_actor = (0, 0), co_pred_ctr = (0, 0), co_expand = (0, 0), co_mark_name = (0, 0)\<rparr>"
  by (subst change_columns_roundtrip) (simp_all add: encoded_columns_def co_ranges_def obj_actor_range_def
      obj_ctr_range_def range_empty_def norm_columns_def norm_range_def)

text \<open>The layout parser never rejects a column for its specification: its record of the last
  specification is never set, so duplicate and out-of-order columns pass the check meant for them.\<close>

theorem duplicate_columns_accepted:
  "(add_column s r p = Inr p' \<longrightarrow> lp_last_spec p' = lp_last_spec p)
    \<and> parse2 4 [\<lparr>rc_spec = ColumnSpec 0x34, rc_data = (0, 2)\<rparr>, \<lparr>rc_spec = ColumnSpec 0x34, rc_data = (2, 4)\<rparr>]
      = Inr [build_boolean (ColumnSpec 0x34) (0, 2), build_boolean (ColumnSpec 0x34) (2, 4)]"
proof (rule conjI)
  show "add_column s r p = Inr p' \<longrightarrow> lp_last_spec p' = lp_last_spec p"
    by (rule impI, rule add_column_last_spec)
  show "parse2 4 [\<lparr>rc_spec = ColumnSpec 0x34, rc_data = (0, 2)\<rparr>, \<lparr>rc_spec = ColumnSpec 0x34, rc_data = (2, 4)\<rparr>]
      = Inr [build_boolean (ColumnSpec 0x34) (0, 2), build_boolean (ColumnSpec 0x34) (2, 4)]"
    by (simp add: parse2_def layout_new_def add_column.simps check_contiguous_def check_bounds_def check_spec_def
        spec_col_type_def col_type_from_u8_def)
qed

theorem duplicate_columns_accepted_witness:
  "add_column (ColumnSpec 0x34) (0, 2) (layout_new 4)
     = Inr ((layout_new 4)\<lparr>lp_columns := [build_boolean (ColumnSpec 0x34) (0, 2)]\<rparr>)
   \<and> lp_last_spec ((layout_new 4)\<lparr>lp_columns := [build_boolean (ColumnSpec 0x34) (0, 2)]\<rparr>) = None"
proof -
  have a: "add_column (ColumnSpec 0x34) (0, 2) (layout_new 4)
     = Inr ((layout_new 4)\<lparr>lp_columns := [build_boolean (ColumnSpec 0x34) (0, 2)]\<rparr>)"
    by (simp add: layout_new_def add_column.simps check_contiguous_def check_bounds_def check_spec_def
        spec_col_type_def col_type_from_u8_def)
  from duplicate_columns_accepted [of "ColumnSpec 0x34" "(0, 2)" "layout_new 4"
      "(layout_new 4)\<lparr>lp_columns := [build_boolean (ColumnSpec 0x34) (0, 2)]\<rparr>"] a
  show ?thesis by (simp add: layout_new_def)
qed

end
