(* ===== verification/Change.thy ===== *)
theory Change
  imports Chunk Change_Columns
begin

text \<open>
  The change chunk of \<open>storage/change.rs\<close>: its parser, the builder that writes one, the check that
  its operations can be read, and the compressed form of \<open>storage/change/compressed.rs\<close>. The
  builder's \<open>ChangeOpsColumns::encode\<close> and the actor table of the operations are what its callers
  pass in: \<open>build\<close> starts from the encoded columns. A slice that would panic is \<open>None\<close>.
\<close>

record change =
  ch_bytes :: bytes
  ch_header :: header
  ch_dependencies :: "change_hash list"
  ch_actor :: actor_id
  ch_other_actors :: "actor_id list"
  ch_seq :: u64
  ch_start_op :: u64
  ch_timestamp :: i64
  ch_message :: "bytes option"
  ch_ops_meta :: change_ops_columns
  ch_ops_data :: range
  ch_extra_bytes :: range
  ch_num_ops :: nat

datatype change_parse_error =
    ChangeLeb128 leb128_error
  | ChangeInvalidUtf8 invalid_utf8
  | ChangeRawColumns raw_parse_error
  | ChangeHeader header_error
  | CompressedChangeCols
  | InvalidColumns invalid_columns

definition parse_following_header :: "input \<Rightarrow> header \<Rightarrow> (change, change_parse_error) parse_result" where
  "parse_following_header input hdr =
     bind_res (length_prefixed ChangeLeb128 change_hash_p input) (\<lambda>(i, deps).
     bind_res (actor_id_p ChangeLeb128 i) (\<lambda>(i, actor).
     bind_res (leb128_u64 ChangeLeb128 i) (\<lambda>(i, sq).
     bind_res (nonzero_leb128_u64 ChangeLeb128 i) (\<lambda>(i, start_op).
     bind_res (leb128_i64 ChangeLeb128 i) (\<lambda>(i, timestamp).
     bind_res (leb128_u64 ChangeLeb128 i) (\<lambda>(i, message_len).
     bind_res (utf_8 ChangeInvalidUtf8 (unat message_len) i) (\<lambda>(i, message).
     bind_res (length_prefixed ChangeLeb128 (actor_id_p ChangeLeb128) i) (\<lambda>(i, other_actors).
     bind_res (cols_parse ChangeRawColumns i) (\<lambda>(i, ops_meta).
     bind_res (range_of (take_n (total_column_len ops_meta)) i) (\<lambda>(i, ops_data).
     bind_res (range_of rest_in i) (\<lambda>(_, extra_bytes).
     case cols_uncompressed ops_meta of
       None \<Rightarrow> Inl (PError CompressedChangeCols)
     | Some ops_meta \<Rightarrow>
         bind_res (map_err (\<lambda>e. PError (InvalidColumns e)) (change_cols_from_raw ops_meta)) (\<lambda>ops_meta.
         Inr (empty_input,
           \<lparr>ch_bytes = inp_original input, ch_header = hdr, ch_dependencies = deps, ch_actor = actor,
            ch_other_actors = other_actors, ch_seq = sq, ch_start_op = start_op, ch_timestamp = timestamp,
            ch_message = (if message = [] then None else Some message), ch_ops_meta = ops_meta,
            ch_ops_data = rv_range ops_data, ch_extra_bytes = rv_range extra_bytes, ch_num_ops = 0\<rparr>)))))))))))))"

definition change_parse ::
  "(bytes \<Rightarrow> bytes) \<Rightarrow> (u64 \<Rightarrow> bytes) \<Rightarrow> input \<Rightarrow> (change, change_parse_error) parse_result option" where
  "change_parse sha wu input =
     (case header_parse sha wu ChangeHeader input of
        Inl e \<Rightarrow> Some (Inl e)
      | Inr (i, hdr) \<Rightarrow>
          map_option (\<lambda>s. bind_res (parse_following_header (sp_first s) hdr) (\<lambda>(_, change).
            Inr (sp_remaining s, change)))
          (split_in i (range_len (data_bytes hdr))))"

text \<open>The operations a change yields are given as the results of its iterator.\<close>

datatype 'e read_change_op_error = ReadOp 'e | CounterTooLarge

fun count_ops :: "('e + 'op) list \<Rightarrow> nat \<Rightarrow> 'e read_change_op_error + nat" where
  "count_ops [] n = Inr n"
| "count_ops (op # ops) n = bind_res (map_err ReadOp op) (\<lambda>_. count_ops ops (n + 1))"

definition verify_ops :: "('e + 'op) list \<Rightarrow> change \<Rightarrow> 'e read_change_op_error + change" where
  "verify_ops ops c = bind_res (count_ops ops 0) (\<lambda>num_ops.
     if \<not> unat (ch_start_op c) < 2 ^ 32 then Inl CounterTooLarge
     else Inr (c\<lparr>ch_num_ops := num_ops\<rparr>))"

subsection \<open>Building a change\<close>

record change_builder =
  cb_dependencies :: "change_hash list"
  cb_actor :: actor_id
  cb_seq :: u64
  cb_start_op :: u64
  cb_timestamp :: i64
  cb_message :: "bytes option"
  cb_extra_bytes :: "bytes option"

definition with_dependencies :: "change_hash list \<Rightarrow> change_builder \<Rightarrow> change_builder" where
  "with_dependencies deps b = b\<lparr>cb_dependencies := sort deps\<rparr>"

definition with_message :: "bytes option \<Rightarrow> change_builder \<Rightarrow> change_builder" where
  "with_message message b = b\<lparr>cb_message := message\<rparr>"

definition with_extra_bytes :: "bytes \<Rightarrow> change_builder \<Rightarrow> change_builder" where
  "with_extra_bytes extra b = b\<lparr>cb_extra_bytes := Some extra\<rparr>"

definition write_length_prefixed :: "(u64 \<Rightarrow> bytes) \<Rightarrow> bytes \<Rightarrow> bytes \<Rightarrow> bytes \<times> nat" where
  "write_length_prefixed wu b out = (let prefix = wu (word_of_nat (length b))
     in (out @ prefix @ b, length prefix + length b))"

definition shift_range :: "range \<Rightarrow> nat \<Rightarrow> range" where
  "shift_range r n = (fst r + n, snd r + n)"

definition change_data ::
  "(u64 \<Rightarrow> bytes) \<Rightarrow> (i64 \<Rightarrow> bytes) \<Rightarrow> change_builder \<Rightarrow> actor_id list \<Rightarrow> change_ops_columns \<Rightarrow> bytes" where
  "change_data wu ws b other_actors cols = (let
     data = wu (word_of_nat (length (cb_dependencies b)));
     data = foldl (\<lambda>data dep. data @ hash_bytes dep) data (cb_dependencies b);
     data = fst (write_length_prefixed wu (actor_bytes (cb_actor b)) data);
     data = data @ wu (cb_seq b);
     data = data @ wu (cb_start_op b);
     data = data @ ws (cb_timestamp b);
     data = fst (write_length_prefixed wu (case cb_message b of Some m \<Rightarrow> m | None \<Rightarrow> []) data);
     data = data @ wu (word_of_nat (length other_actors));
     data = foldl (\<lambda>data actor. fst (write_length_prefixed wu (actor_bytes actor) data)) data other_actors
     in fst (cols_write wu (raw_columns cols) data))"

definition change_build ::
  "(bytes \<Rightarrow> bytes) \<Rightarrow> (u64 \<Rightarrow> bytes) \<Rightarrow> (i64 \<Rightarrow> bytes) \<Rightarrow> change_builder \<Rightarrow> actor_id list
    \<Rightarrow> change_ops_columns \<Rightarrow> bytes \<Rightarrow> nat \<Rightarrow> change" where
  "change_build sha wu ws b other_actors cols col_data num_ops = (let
     data = change_data wu ws b other_actors cols;
     ops_data_start = length data;
     ops_data = (ops_data_start, ops_data_start + length col_data);
     data = data @ col_data;
     extra_bytes = (length data, length data + (case cb_extra_bytes b of Some e \<Rightarrow> length e | None \<Rightarrow> 0));
     data = (case cb_extra_bytes b of Some extra \<Rightarrow> data @ extra | None \<Rightarrow> data);
     hdr = header_new sha wu ChangeChunk data;
     bytes = header_write wu hdr [] @ data;
     ops_data = shift_range ops_data (hd_header_size hdr);
     extra_bytes = shift_range extra_bytes (hd_header_size hdr)
     in \<lparr>ch_bytes = bytes, ch_header = hdr, ch_dependencies = cb_dependencies b, ch_actor = cb_actor b,
         ch_other_actors = other_actors, ch_seq = cb_seq b, ch_start_op = cb_start_op b,
         ch_timestamp = cb_timestamp b, ch_message = cb_message b, ch_ops_meta = cols, ch_ops_data = ops_data,
         ch_extra_bytes = extra_bytes, ch_num_ops = num_ops\<rparr>)"

definition change_extra_bytes :: "change \<Rightarrow> bytes option" where
  "change_extra_bytes c = slice (ch_bytes c) (ch_extra_bytes c)"

definition change_ops_bytes :: "change \<Rightarrow> bytes option" where
  "change_ops_bytes c = slice (ch_bytes c) (ch_ops_data c)"

definition change_body_bytes :: "change \<Rightarrow> bytes option" where
  "change_body_bytes c = slice_from (ch_bytes c) (hd_header_size (ch_header c))"

definition change_checksum_valid :: "change \<Rightarrow> bool" where
  "change_checksum_valid c = header_checksum_valid (ch_header c)"

definition change_hash_of :: "change \<Rightarrow> change_hash" where
  "change_hash_of c = hd_hash (ch_header c)"

subsection \<open>Compressed changes\<close>

record compressed =
  cp_checksum :: check_sum
  cp_bytes :: bytes

definition deflate_min_size :: nat where
  "deflate_min_size = 256"

definition compress_change :: "(bytes \<Rightarrow> bytes) \<Rightarrow> (u64 \<Rightarrow> bytes) \<Rightarrow> change \<Rightarrow> compressed option" where
  "compress_change defl wu c = Option.bind (change_body_bytes c) (\<lambda>body.
     let deflated = defl body
     in Some \<lparr>cp_checksum = hd_checksum (ch_header c),
        cp_bytes = magic_bytes @ sum_bytes (hd_checksum (ch_header c)) @ [u8_of_chunk_type CompressedChunk]
          @ wu (word_of_nat (length deflated)) @ deflated\<rparr>)"

definition change_compress :: "(bytes \<Rightarrow> bytes) \<Rightarrow> (u64 \<Rightarrow> bytes) \<Rightarrow> change \<Rightarrow> compressed option option" where
  "change_compress defl wu c =
     (if length (ch_bytes c) > deflate_min_size then map_option Some (compress_change defl wu c) else Some None)"

text \<open>
  The arm of \<open>Chunk::parse\<close> for compressed changes: the data is inflated, put behind a header with
  the outer checksum, and parsed as a change, which must use all of it.
\<close>

datatype chunk_error =
    LeftoverData
  | ChunkChangeError change_parse_error
  | Deflate

definition parse_compressed_change ::
  "(bytes \<Rightarrow> bytes option) \<Rightarrow> (bytes \<Rightarrow> bytes) \<Rightarrow> (u64 \<Rightarrow> bytes) \<Rightarrow> header \<Rightarrow> input \<Rightarrow> input
    \<Rightarrow> (chunk_error parse_error + change \<times> compressed) option" where
  "parse_compressed_change infl sha wu hdr input chunk_input =
     Option.bind (slice (unconsumed_bytes input) (data_bytes hdr)) (\<lambda>cpd.
     case infl cpd of
       None \<Rightarrow> Some (Inl (PError Deflate))
     | Some decompressed \<Rightarrow>
         let inner_header = header_with_data sha wu hdr ChangeChunk decompressed;
             inner_chunk = header_write wu inner_header [] @ decompressed
         in map_option (\<lambda>r. bind_res (map_err (lift_err ChunkChangeError) r) (\<lambda>(remaining, change).
              if \<not> is_empty_in remaining then Inl (PError LeftoverData)
              else Inr (change, \<lparr>cp_checksum = hd_checksum hdr, cp_bytes = inp_original chunk_input\<rparr>)))
            (change_parse sha wu (new_input inner_chunk)))"

definition compressed_checksum_valid :: "change \<times> compressed \<Rightarrow> bool" where
  "compressed_checksum_valid cc \<longleftrightarrow> cp_checksum (snd cc) = hd_checksum (ch_header (fst cc))
     \<and> change_checksum_valid (fst cc)"

subsection \<open>The written columns are in order\<close>

lemma are_normal_sorted_iff: "are_normal_sorted cs \<longleftrightarrow> sorted (map (\<lambda>c. spec_normalize (rc_spec c)) cs)"
  by (induction cs rule: are_normal_sorted.induct) auto

lemma contiguous_opt:
  "fst r = pos \<Longrightarrow> fst r \<le> snd r \<Longrightarrow> contiguous pos (opt_raw s r @ cs) = contiguous (snd r) cs"
  using range_empty_at [of r] by (auto simp: opt_raw_def)

lemma sorted_opt:
  "sorted (map f (opt_raw s r @ cs)) \<longleftrightarrow> sorted (map f cs) \<and> (\<not> range_empty r \<longrightarrow> (\<forall>c \<in> set cs. f \<lparr>rc_spec = s, rc_data = r\<rparr> \<le> f c))"
  by (auto simp: opt_raw_def)

lemma set_opt: "set (opt_raw s r) \<subseteq> {\<lparr>rc_spec = s, rc_data = r\<rparr>}"
  by (simp add: opt_raw_def)

lemma norm_spec_values:
  "spec_normalize (spec_new obj_col_id Actor False) = 1" "spec_normalize (spec_new obj_col_id Integer False) = 2"
  "spec_normalize (spec_new key_col_id Actor False) = 0x11" "spec_normalize (spec_new key_col_id DeltaInteger False) = 0x13"
  "spec_normalize (spec_new key_col_id String False) = 0x15" "spec_normalize (spec_new insert_col_id Boolean False) = 0x34"
  "spec_normalize (spec_new action_col_id Integer False) = 0x42" "spec_normalize (spec_new val_col_id ValueMetadata False) = 0x56"
  "spec_normalize (spec_new val_col_id Value False) = 0x57" "spec_normalize (spec_new pred_col_id Group False) = 0x70"
  "spec_normalize (spec_new pred_col_id Actor False) = 0x71" "spec_normalize (spec_new pred_col_id DeltaInteger False) = 0x73"
  "spec_normalize (spec_new expand_col_id Boolean False) = 0x94" "spec_normalize (spec_new mark_name_col_id String False) = 0xA5"
  by (simp_all add: spec_normalize_def spec_new_def col_ids)

lemma raw_columns_sorted:
  assumes "encoded_columns c"
  shows "are_normal_sorted (raw_columns c)"
proof -
  have eq: "range_empty (co_pred_actor c) \<longleftrightarrow> range_empty (co_pred_ctr c)"
    using assms by (auto simp: encoded_columns_def)
  have mem: "c \<in> set (opt_raw s r @ cs) \<Longrightarrow> c = \<lparr>rc_spec = s, rc_data = r\<rparr> \<or> c \<in> set cs" for c s r cs
    using set_opt [of s r] by auto
  show ?thesis
    unfolding are_normal_sorted_iff raw_columns_eq [OF eq] append_assoc sorted_opt
    by (intro conjI impI ballI)
      (auto dest!: mem set_opt [THEN subsetD] simp: norm_spec_values, simp add: opt_raw_def)
qed

lemma raw_columns_contiguous:
  assumes "encoded_columns c"
  shows "contiguous 0 (raw_columns c)" "total_column_len (raw_columns c) = snd (co_mark_name c)"
proof -
  have eq: "range_empty (co_pred_actor c) \<longleftrightarrow> range_empty (co_pred_ctr c)" and ch: "chained 0 (co_ranges c)"
    using assms by (auto simp: encoded_columns_def)
  show "contiguous 0 (raw_columns c)"
    unfolding raw_columns_eq [OF eq] append_assoc
    using ch contiguous_opt [of "co_mark_name c" _ _ "[]"] by (simp add: co_ranges_def contiguous_opt)
  show "total_column_len (raw_columns c) = snd (co_mark_name c)"
    using ch total_opt_raw [of _ "co_mark_name c" "[]"] unfolding raw_columns_eq [OF eq]
    by (simp add: total_opt_raw append_assoc) (simp add: co_ranges_def range_len_def total_column_len_def)
qed

lemma raw_columns_uncompressed: "cols_uncompressed (raw_columns c) = Some (raw_columns c)"
proof -
  have "cols_uncompressed_loop cs acc = Some (acc @ cs)" if "\<forall>c \<in> set cs. \<not> spec_deflate (rc_spec c)" for cs acc
    using that by (induction cs arbitrary: acc) (auto simp: col_uncompressed_def)
  moreover have "\<forall>c \<in> set (raw_columns c). \<not> spec_deflate (rc_spec c)"
    by (auto simp: raw_columns_def Let_def cols_from_columns_def spec_new_deflate split: if_splits)
  ultimately show ?thesis by (simp add: cols_uncompressed_def)
qed

lemma raw_columns_length: "length (raw_columns c) \<le> 14"
proof -
  have "length (cols_from_columns cs) \<le> length cs" for cs by (simp add: cols_from_columns_def)
  from order.trans [OF this] show ?thesis unfolding raw_columns_def Let_def by simp
qed

subsection \<open>Parsing what was built\<close>

definition writes_sleb :: "(i64 \<Rightarrow> bytes) \<Rightarrow> bool" where
  "writes_sleb ws \<longleftrightarrow> (\<forall>v. ws v = sleb (sint v))"

definition own_writer_s :: "i64 \<Rightarrow> bytes" where
  "own_writer_s v = fst (encode_i64 v [])"

lemma own_writer_s_writes: "writes_sleb own_writer_s"
  by (simp add: writes_sleb_def own_writer_s_def encode_i64_eq)

definition message_bytes :: "change_builder \<Rightarrow> bytes" where
  "message_bytes b = (case cb_message b of Some m \<Rightarrow> m | None \<Rightarrow> [])"

definition extra_of :: "change_builder \<Rightarrow> bytes" where
  "extra_of b = (case cb_extra_bytes b of Some e \<Rightarrow> e | None \<Rightarrow> [])"

text \<open>The sizes and values a change can have: what the format can represent.\<close>

definition change_ok :: "change_builder \<Rightarrow> actor_id list \<Rightarrow> change_ops_columns \<Rightarrow> bytes \<Rightarrow> bool" where
  "change_ok b other_actors cols col_data \<longleftrightarrow>
     fits64 (cb_dependencies b) \<and> (\<forall>h \<in> set (cb_dependencies b). hash_ok h)
     \<and> fits64 (actor_bytes (cb_actor b)) \<and> cb_start_op b \<noteq> 0
     \<and> fits64 (message_bytes b) \<and> utf8_valid (message_bytes b) \<and> cb_message b \<noteq> Some []
     \<and> fits64 other_actors \<and> (\<forall>a \<in> set other_actors. fits64 (actor_bytes a))
     \<and> encoded_columns cols \<and> snd (co_mark_name cols) = length col_data \<and> fits64 col_data"

definition enc_change_data ::
  "change_builder \<Rightarrow> actor_id list \<Rightarrow> change_ops_columns \<Rightarrow> bytes" where
  "enc_change_data b other_actors cols =
     enc_list hash_bytes (cb_dependencies b) @ enc_bytes (actor_bytes (cb_actor b)) @ uleb (unat (cb_seq b))
     @ uleb (unat (cb_start_op b)) @ sleb (sint (cb_timestamp b)) @ enc_bytes (message_bytes b)
     @ enc_list (\<lambda>a. enc_bytes (actor_bytes a)) other_actors @ enc_list enc_column (raw_columns cols)"

lemma write_length_prefixed_eq:
  "writes_uleb wu \<Longrightarrow> fits64 b \<Longrightarrow> fst (write_length_prefixed wu b out) = out @ enc_bytes b"
  by (simp add: write_length_prefixed_def Let_def writes_uleb_def enc_bytes_def fits64_def unat_u64_of_nat)

lemma foldl_append: "foldl (\<lambda>data x. data @ f x) data xs = data @ concat (map f xs)"
  by (induction xs arbitrary: data) auto

lemma foldl_actors:
  "writes_uleb wu \<Longrightarrow> \<forall>a \<in> set xs. fits64 (actor_bytes a)
   \<Longrightarrow> foldl (\<lambda>data actor. fst (write_length_prefixed wu (actor_bytes actor) data)) data xs
     = data @ concat (map (\<lambda>a. enc_bytes (actor_bytes a)) xs)"
  by (induction xs arbitrary: data) (auto simp: write_length_prefixed_eq)

lemma raw_columns_small:
  assumes "encoded_columns cols" and "snd (co_mark_name cols) < 2 ^ 64"
  shows "\<forall>c \<in> set (raw_columns cols). range_len (rc_data c) < 2 ^ 64" "length (raw_columns cols) < 2 ^ 64"
proof -
  show "\<forall>c \<in> set (raw_columns cols). range_len (rc_data c) < 2 ^ 64"
  proof
    fix c assume "c \<in> set (raw_columns cols)"
    then have "range_len (rc_data c) \<le> total_column_len (raw_columns cols)"
      using member_le_sum_list [of "range_len (rc_data c)" "map (\<lambda>c. range_len (rc_data c)) (raw_columns cols)"]
      by (auto simp: total_column_len_def)
    with assms raw_columns_contiguous(2) [OF assms(1)] show "range_len (rc_data c) < 2 ^ 64" by simp
  qed
  show "length (raw_columns cols) < 2 ^ 64" using raw_columns_length [of cols] by simp
qed

lemma change_data_eq:
  assumes "writes_uleb wu" "writes_sleb ws" and "change_ok b other_actors cols col_data"
  shows "change_data wu ws b other_actors cols = enc_change_data b other_actors cols"
proof -
  have ok: "fits64 (cb_dependencies b)" "fits64 (actor_bytes (cb_actor b))" "fits64 (message_bytes b)"
    "fits64 other_actors" "\<forall>a \<in> set other_actors. fits64 (actor_bytes a)" "encoded_columns cols"
    "snd (co_mark_name cols) < 2 ^ 64"
    using assms(3) by (auto simp: change_ok_def fits64_def)
  have w: "wu v = uleb (unat v)" "ws s = sleb (sint s)" for v s
    using assms(1,2) by (simp_all add: writes_uleb_def writes_sleb_def)
  have n: "uleb (unat (word_of_nat (length (cb_dependencies b)) :: u64)) = uleb (length (cb_dependencies b))"
    "uleb (unat (word_of_nat (length other_actors) :: u64)) = uleb (length other_actors)"
    using ok(1,4) by (simp_all add: fits64_def unat_u64_of_nat)
  show ?thesis
    unfolding change_data_def Let_def message_bytes_def [symmetric] w n
      write_length_prefixed_eq [OF assms(1) ok(2)] write_length_prefixed_eq [OF assms(1) ok(3)]
      foldl_actors [OF assms(1) ok(5)] foldl_append
      cols_write_eq [OF assms(1) raw_columns_small [OF ok(6,7)]]
    by (simp add: enc_change_data_def enc_list_def)
qed

lemma message_parse:
  assumes "inp_bytes i = enc_bytes m @ rest" and "fits64 m" and "utf8_valid m"
  shows "leb128_u64 ChangeLeb128 i = Inr (advance i (length (uleb (length m))), word_of_nat (length m))"
    and "utf_8 ChangeInvalidUtf8 (unat (word_of_nat (length m) :: u64)) (advance i (length (uleb (length m))))
      = Inr (advance i (length (enc_bytes m)), m)"
proof -
  have l: "length m < 2 ^ 64" using assms(2) by (simp add: fits64_def)
  show "leb128_u64 ChangeLeb128 i = Inr (advance i (length (uleb (length m))), word_of_nat (length m))"
    by (rule leb_count [OF _ l]) (use assms(1) in \<open>simp add: enc_bytes_def\<close>)
  show "utf_8 ChangeInvalidUtf8 (unat (word_of_nat (length m) :: u64)) (advance i (length (uleb (length m))))
      = Inr (advance i (length (enc_bytes m)), m)"
    using assms by (simp add: utf_8_def unat_u64_of_nat [OF l] take_n_eq enc_bytes_def)
qed

lemma parse_following_header_data:
  assumes "change_ok b other_actors cols col_data"
    and i: "inp_bytes i = enc_change_data b other_actors cols @ col_data @ extra"
  defines "st \<equiv> inp_position i + length (enc_change_data b other_actors cols)"
  shows "parse_following_header i hdr = Inr (empty_input,
    \<lparr>ch_bytes = inp_original i, ch_header = hdr, ch_dependencies = cb_dependencies b, ch_actor = cb_actor b,
     ch_other_actors = other_actors, ch_seq = cb_seq b, ch_start_op = cb_start_op b,
     ch_timestamp = cb_timestamp b, ch_message = cb_message b, ch_ops_meta = norm_columns cols,
     ch_ops_data = (st, st + length col_data),
     ch_extra_bytes = (st + length col_data, st + length col_data + length extra), ch_num_ops = 0\<rparr>)"
proof -
  let ?e1 = "enc_list hash_bytes (cb_dependencies b)" and ?e2 = "enc_bytes (actor_bytes (cb_actor b))"
  let ?e3 = "uleb (unat (cb_seq b))" and ?e4 = "uleb (unat (cb_start_op b))" and ?e5 = "sleb (sint (cb_timestamp b))"
  let ?e6 = "enc_bytes (message_bytes b)" and ?e7 = "enc_list (\<lambda>a. enc_bytes (actor_bytes a)) other_actors"
  let ?e8 = "enc_list enc_column (raw_columns cols)"
  let ?i1 = "advance i (length ?e1)" let ?i2 = "advance ?i1 (length ?e2)" let ?i3 = "advance ?i2 (length ?e3)"
  let ?i4 = "advance ?i3 (length ?e4)" let ?i5 = "advance ?i4 (length ?e5)" let ?i6 = "advance ?i5 (length ?e6)"
  let ?i7 = "advance ?i6 (length ?e7)" let ?i8 = "advance ?i7 (length ?e8)"
  let ?i9 = "advance ?i8 (length col_data)"
  have ok: "fits64 (cb_dependencies b) \<and> (\<forall>h \<in> set (cb_dependencies b). hash_ok h)" "fits64 (actor_bytes (cb_actor b))"
    "cb_start_op b \<noteq> 0" "fits64 (message_bytes b)" "utf8_valid (message_bytes b)" "cb_message b \<noteq> Some []"
    "fits64 other_actors \<and> (\<forall>a \<in> set other_actors. fits64 (actor_bytes a))" "encoded_columns cols"
    "snd (co_mark_name cols) = length col_data" "length col_data < 2 ^ 64"
    using assms(1) by (auto simp: change_ok_def fits64_def)
  have i0: "inp_bytes i = ?e1 @ ?e2 @ ?e3 @ ?e4 @ ?e5 @ ?e6 @ ?e7 @ ?e8 @ col_data @ extra"
    using i by (simp add: enc_change_data_def)
  have i5: "inp_bytes ?i5 = ?e6 @ ?e7 @ ?e8 @ col_data @ extra" by (simp add: i0)
  have tot: "total_column_len (raw_columns cols) = length col_data"
    using raw_columns_contiguous(2) [OF ok(8)] ok(9) by simp
  have p1: "length_prefixed ChangeLeb128 change_hash_p i = Inr (?i1, cb_dependencies b)"
    by (rule change_hashes.dec_enc [OF ok(1) i0])
  have p2: "actor_id_p ChangeLeb128 ?i1 = Inr (?i2, cb_actor b)"
    by (rule actor_ids.dec_enc [OF ok(2)]) (simp add: i0)
  have p3: "leb128_u64 ChangeLeb128 ?i2 = Inr (?i3, cb_seq b)"
    by (rule leb128_u64_complete) (simp add: i0)
  have p4: "nonzero_leb128_u64 ChangeLeb128 ?i3 = Inr (?i4, cb_start_op b)"
    using leb128_u64_complete [of ?i3 "cb_start_op b" _ ChangeLeb128] ok(3)
    by (simp add: nonzero_leb128_u64_def i0)
  have p5: "leb128_i64 ChangeLeb128 ?i4 = Inr (?i5, cb_timestamp b)"
    by (rule leb128_i64_complete) (simp add: i0)
  note p6 = message_parse [OF i5 ok(4,5)]
  have p7: "length_prefixed ChangeLeb128 (actor_id_p ChangeLeb128) ?i6 = Inr (?i7, other_actors)"
    by (rule codec.dec_enc [OF actor_ids.length_prefixed_codec ok(7)]) (simp add: i0)
  have p8: "cols_parse ChangeRawColumns ?i7 = Inr (?i8, raw_columns cols)"
    by (rule cols_parse_enc [OF raw_columns_contiguous(1) [OF ok(8)] _ raw_columns_small(2) [OF ok(8)] raw_columns_sorted [OF ok(8)]])
      (use ok(10) in \<open>simp_all add: i0 tot ok(9)\<close>)
  have p9: "take_n (total_column_len (raw_columns cols)) ?i8 = (Inr (?i9, col_data) :: change_parse_error parse_error + _)"
    unfolding tot by (rule take_n_advance [where rest = extra]) (simp_all add: i0)
  have pos: "inp_position ?i8 = st" "inp_bytes ?i9 = extra" "inp_position ?i9 = st + length col_data"
    unfolding st_def by (simp_all add: enc_change_data_def i0)
  have msg: "(if message_bytes b = [] then None else Some (message_bytes b)) = cb_message b"
    using ok(6) by (auto simp: message_bytes_def split: option.splits)
  show ?thesis
    unfolding parse_following_header_def p1 bind_res.simps prod.case p2 p3 p4 p5 p6 p7 p8 range_of_def p9 rest_in_def Let_def
    by (simp only: bind_res.simps prod.case raw_columns_uncompressed option.case change_cols_raw [OF ok(8)]
        map_err.simps pos msg range_val.simps input.simps)
qed

definition change_body ::
  "change_builder \<Rightarrow> actor_id list \<Rightarrow> change_ops_columns \<Rightarrow> bytes \<Rightarrow> bytes" where
  "change_body b other_actors cols col_data = enc_change_data b other_actors cols @ col_data @ extra_of b"

lemma change_build_eq:
  fixes sha :: "bytes \<Rightarrow> bytes" and n :: nat
  assumes "writes_uleb wu" "writes_sleb ws" and "change_ok b other_actors cols col_data"
  defines "D \<equiv> change_body b other_actors cols col_data"
    and "st \<equiv> hd_header_size (header_new sha wu ChangeChunk (change_body b other_actors cols col_data))
      + length (enc_change_data b other_actors cols)"
  shows "change_build sha wu ws b other_actors cols col_data n =
    \<lparr>ch_bytes = header_write wu (header_new sha wu ChangeChunk D) [] @ D, ch_header = header_new sha wu ChangeChunk D,
     ch_dependencies = cb_dependencies b, ch_actor = cb_actor b, ch_other_actors = other_actors, ch_seq = cb_seq b,
     ch_start_op = cb_start_op b, ch_timestamp = cb_timestamp b, ch_message = cb_message b, ch_ops_meta = cols,
     ch_ops_data = (st, st + length col_data),
     ch_extra_bytes = (st + length col_data, st + length col_data + length (extra_of b)), ch_num_ops = n\<rparr>"
proof -
  have "(case cb_extra_bytes b of Some extra \<Rightarrow> (enc_change_data b other_actors cols @ col_data) @ extra
      | None \<Rightarrow> enc_change_data b other_actors cols @ col_data) = D"
    and "(case cb_extra_bytes b of Some e \<Rightarrow> length e | None \<Rightarrow> 0) = length (extra_of b)"
    by (auto simp: D_def change_body_def extra_of_def split: option.splits)
  then show ?thesis
    unfolding change_build_def Let_def change_data_eq [OF assms(1-3)]
    by (simp add: shift_range_def st_def D_def)
qed

lemma header_size_new:
  assumes "writes_uleb wu" and "length data < 2 ^ 64"
  shows "length (header_write wu (header_new sha wu t data) []) = hd_header_size (header_new sha wu t data)"
  using header_write_new [OF assms] by simp

lemma change_parse_build:
  fixes sha :: "bytes \<Rightarrow> bytes" and n :: nat
  assumes "writes_uleb wu" "writes_sleb ws" and ok: "change_ok b other_actors cols col_data"
    and sz: "length (change_body b other_actors cols col_data) < 2 ^ 64"
  defines "c \<equiv> change_build sha wu ws b other_actors cols col_data n"
  shows "\<exists>remaining. change_parse sha wu (new_input (ch_bytes c @ rest))
      = Some (Inr (remaining, c\<lparr>ch_ops_meta := norm_columns cols, ch_num_ops := 0\<rparr>))
    \<and> reset_in remaining = new_input rest"
proof -
  let ?D = "change_body b other_actors cols col_data"
  let ?h = "header_new sha wu ChangeChunk ?D"
  let ?hb = "header_write wu ?h []"
  have c: "ch_bytes c = ?hb @ ?D" by (simp add: c_def change_build_eq [OF assms(1,2) ok])
  let ?i = "new_input (?hb @ ?D @ rest)"
  have h: "header_parse sha wu ChangeHeader ?i = Inr (advance ?i (hd_header_size ?h), ?h)"
    by (rule header_roundtrip_at [OF assms(1) sz]) simp
  have hl: "length ?hb = hd_header_size ?h" by (rule header_size_new [OF assms(1) sz])
  have n: "range_len (data_bytes ?h) = length ?D"
    by (simp add: data_bytes_def range_len_def header_new_def Let_def)
  let ?j = "advance ?i (hd_header_size ?h)"
  have wf: "input_wf ?j" by (rule wf_advance) (simp_all add: hl)
  have jb: "inp_bytes ?j = ?D @ rest" by (simp add: hl [symmetric])
  let ?f = "\<lparr>inp_bytes = ?D, inp_position = hd_header_size ?h, inp_original = ?hb @ ?D\<rparr>"
  let ?r = "\<lparr>inp_bytes = rest, inp_position = hd_header_size ?h + length ?D, inp_original = rest\<rparr>"
  have sp: "split_in ?j (length ?D) = Some \<lparr>sp_first = ?f, sp_remaining = ?r\<rparr>"
    by (subst split_in_wf [OF wf]) (simp_all add: jb, simp_all add: hl [symmetric])
  have "parse_following_header ?f ?h = Inr (empty_input, c\<lparr>ch_ops_meta := norm_columns cols, ch_num_ops := 0\<rparr>)"
    by (subst parse_following_header_data [OF ok, where extra = "extra_of b"])
      (simp_all add: change_body_def c_def change_build_eq [OF assms(1,2) ok])
  then have "change_parse sha wu ?i = Some (Inr (?r, c\<lparr>ch_ops_meta := norm_columns cols, ch_num_ops := 0\<rparr>))"
    by (simp add: change_parse_def h n sp)
  then show ?thesis by (intro exI [of _ ?r]) (simp add: c reset_in_def)
qed

lemma change_build_slices:
  fixes sha :: "bytes \<Rightarrow> bytes" and n :: nat
  assumes "writes_uleb wu" "writes_sleb ws" and ok: "change_ok b other_actors cols col_data"
    and sz: "length (change_body b other_actors cols col_data) < 2 ^ 64"
  defines "c \<equiv> change_build sha wu ws b other_actors cols col_data n"
  shows "change_ops_bytes c = Some col_data" "change_extra_bytes c = Some (extra_of b)"
    "change_body_bytes c = Some (change_body b other_actors cols col_data)" "change_checksum_valid c"
proof -
  let ?D = "change_body b other_actors cols col_data"
  let ?h = "header_new sha wu ChangeChunk ?D"
  have hl: "hd_header_size ?h = length (header_write wu ?h [])"
    using header_size_new [OF assms(1) sz] by simp
  show "change_ops_bytes c = Some col_data" "change_extra_bytes c = Some (extra_of b)"
    "change_body_bytes c = Some ?D"
    by (simp_all add: c_def change_build_eq [OF assms(1,2) ok] change_ops_bytes_def change_extra_bytes_def
        change_body_bytes_def slice_def slice_from_def hl) (simp_all add: change_body_def)
  show "change_checksum_valid c"
    by (simp add: c_def change_build_eq [OF assms(1,2) ok] change_checksum_valid_def header_checksum_valid_def
        header_new_def Let_def)
qed

lemma compressed_header:
  assumes "writes_uleb wu" and "writes_sleb ws" and ok: "change_ok b other_actors cols col_data"
    and sz: "length (change_body b other_actors cols col_data) < 2 ^ 64"
    and "compress_change defl wu (change_build sha wu ws b other_actors cols col_data n) = Some cpd"
    and dl: "length (defl (change_body b other_actors cols col_data)) < 2 ^ 64"
  defines "c \<equiv> change_build sha wu ws b other_actors cols col_data n"
    and "d \<equiv> defl (change_body b other_actors cols col_data)"
  shows "cp_checksum cpd = hd_checksum (ch_header c)"
    "cp_bytes cpd = enc_header_fields (sum_bytes (hd_checksum (ch_header c)), CompressedChunk, word_of_nat (length d)) @ d"
  using assms(1,5) change_build_slices(3) [OF assms(1,2) ok sz, of sha n]
  by (auto simp: compress_change_def c_def d_def enc_header_fields_def writes_uleb_def Let_def)

lemma inner_header:
  assumes "hd_checksum hdr = CheckSum (hash_checksum (chunk_hash sha wu ChangeChunk data))"
  shows "header_with_data sha wu hdr ChangeChunk data = header_new sha wu ChangeChunk data"
  using assms by (simp add: header_with_data_def header_new_def Let_def)

subsection \<open>Properties\<close>


text \<open>The smallest change: one author, no operations.\<close>

definition tiny_builder :: change_builder where
  "tiny_builder = \<lparr>cb_dependencies = [], cb_actor = ActorId [1], cb_seq = 1, cb_start_op = 1, cb_timestamp = 0,
     cb_message = Some [104], cb_extra_bytes = Some [9]\<rparr>"

definition no_columns :: change_ops_columns where
  "no_columns = \<lparr>co_obj = None, co_key_actor = (0, 0), co_key_ctr = (0, 0), co_key_str = (0, 0), co_insert = (0, 0),
     co_action = (0, 0), co_val = \<lparr>vr_meta = (0, 0), vr_raw = (0, 0)\<rparr>, co_pred_num = (0, 0), co_pred_actor = (0, 0),
     co_pred_ctr = (0, 0), co_expand = (0, 0), co_mark_name = (0, 0)\<rparr>"

lemma tiny_ok: "change_ok tiny_builder [] no_columns []"
  by (simp add: change_ok_def tiny_builder_def no_columns_def fits64_def message_bytes_def encoded_columns_def
      co_ranges_def obj_actor_range_def obj_ctr_range_def range_empty_def)

lemma tiny_body: "change_body tiny_builder [] no_columns [] = [0, 1, 1, 1, 1, 0, 1, 104, 0, 0, 9]"
  by (simp add: change_body_def enc_change_data_def enc_list_def enc_bytes_def tiny_builder_def message_bytes_def
      extra_of_def uleb_small sleb_small raw_columns_def no_columns_def cols_from_columns_def range_empty_def)


text \<open>A change that was compressed is read back as the change it was built from, with a valid
  checksum, for every deflate codec that inflates what it deflates.\<close>

theorem compressed_change_roundtrip:
  assumes "writes_uleb wu" and "writes_sleb ws" and "change_ok b other_actors cols col_data"
    and "length (change_body b other_actors cols col_data) < 2 ^ 64"
    and "compress_change defl wu (change_build sha wu ws b other_actors cols col_data n) = Some cpd"
    and "length (defl (change_body b other_actors cols col_data)) < 2 ^ 64" and "\<forall>x. infl (defl x) = Some x"
  shows "\<exists>i hdr c'. header_parse sha wu ChangeHeader (new_input (cp_bytes cpd @ rest)) = Inr (i, hdr)
    \<and> hd_chunk_type hdr = CompressedChunk
    \<and> parse_compressed_change infl sha wu hdr (new_input (cp_bytes cpd @ rest)) chunk_input = Some (Inr c')
    \<and> fst c' = (change_build sha wu ws b other_actors cols col_data n)\<lparr>ch_ops_meta := norm_columns cols, ch_num_ops := 0\<rparr>
    \<and> compressed_checksum_valid c'"
proof -
  let ?D = "change_body b other_actors cols col_data" and ?c = "change_build sha wu ws b other_actors cols col_data n"
  let ?d = "defl ?D"
  note ch = compressed_header [OF assms(1-6)]
  have hc: "hd_checksum (ch_header ?c) = CheckSum (hash_checksum (chunk_hash sha wu ChangeChunk ?D))"
    by (simp add: change_build_eq [OF assms(1-3)] header_new_def Let_def)
  let ?f = "(sum_bytes (hd_checksum (ch_header ?c)), CompressedChunk, word_of_nat (length ?d) :: u64)"
  let ?i = "new_input (cp_bytes cpd @ rest)"
  let ?k = "length (enc_header_fields ?f)"
  have i: "inp_bytes ?i = enc_header_fields ?f @ ?d @ rest" by (simp add: ch(2))
  have "header_fields ChangeHeader ?i = Inr (advance ?i ?k, ?f)"
    by (rule header_fields.dec_enc [OF _ i]) (simp add: hc hash_checksum_def)
  from header_parse_fields [OF this, of ?d rest ?k sha wu]
  have h: "header_parse sha wu ChangeHeader ?i = Inr (advance ?i ?k,
      \<lparr>hd_checksum = hd_checksum (ch_header ?c), hd_chunk_type = CompressedChunk, hd_data_len = length ?d,
       hd_header_size = ?k, hd_hash = chunk_hash sha wu CompressedChunk ?d\<rparr>)" (is "_ = Inr (_, ?h)")
    using assms(6) i by (simp add: unat_u64_of_nat [OF assms(6)])
  have sl: "slice (unconsumed_bytes ?i) (data_bytes ?h) = Some ?d"
    using i by (simp add: slice_def unconsumed_bytes_def data_bytes_def)
  have ih: "header_with_data sha wu ?h ChangeChunk ?D = ch_header ?c"
    by (subst inner_header) (simp_all add: hc, simp add: change_build_eq [OF assms(1-3)])
  have cb: "header_write wu (ch_header ?c) [] @ ?D = ch_bytes ?c"
    by (simp add: change_build_eq [OF assms(1-3)])
  obtain r where r: "change_parse sha wu (new_input (ch_bytes ?c)) = Some (Inr (r, ?c\<lparr>ch_ops_meta := norm_columns cols, ch_num_ops := 0\<rparr>))"
    "reset_in r = new_input []"
    using change_parse_build [OF assms(1-4), of sha n "[]"] by auto
  have "is_empty_in r" using r(2) by (simp add: reset_in_def new_input_def is_empty_in_def)
  then have "parse_compressed_change infl sha wu ?h ?i chunk_input
      = Some (Inr (?c\<lparr>ch_ops_meta := norm_columns cols, ch_num_ops := 0\<rparr>,
          \<lparr>cp_checksum = hd_checksum (ch_header ?c), cp_bytes = inp_original chunk_input\<rparr>))"
    unfolding parse_compressed_change_def Let_def sl by (simp add: assms(7) ih cb r(1))
  then show ?thesis
    using h change_build_slices(4) [OF assms(1-4), of sha n]
    by (auto simp: compressed_checksum_valid_def change_checksum_valid_def)
qed

theorem compressed_change_roundtrip_witness:
  "\<exists>i hdr c'. header_parse (\<lambda>b. replicate 32 7) own_writer ChangeHeader
      (new_input (cp_bytes (the (compress_change (Cons 9) own_writer (change_build (\<lambda>b. replicate 32 7)
        own_writer own_writer_s tiny_builder [] no_columns [] 0))) @ [])) = Inr (i, hdr)
    \<and> parse_compressed_change (\<lambda>b. Some (tl b)) (\<lambda>b. replicate 32 7) own_writer hdr
        (new_input (cp_bytes (the (compress_change (Cons 9) own_writer (change_build (\<lambda>b. replicate 32 7)
          own_writer own_writer_s tiny_builder [] no_columns [] 0))) @ [])) empty_input = Some (Inr c')
    \<and> compressed_checksum_valid c'"
proof -
  let ?c = "change_build (\<lambda>b. replicate 32 7) own_writer own_writer_s tiny_builder [] no_columns [] 0"
  have sz: "length (change_body tiny_builder [] no_columns []) < 2 ^ 64" by (simp add: tiny_body)
  have "change_body_bytes ?c = Some (change_body tiny_builder [] no_columns [])"
    by (rule change_build_slices(3) [OF own_writer_writes own_writer_s_writes tiny_ok sz])
  then have "compress_change (Cons 9) own_writer ?c = Some (the (compress_change (Cons 9) own_writer ?c))"
    by (simp add: compress_change_def)
  from compressed_change_roundtrip [OF own_writer_writes own_writer_s_writes tiny_ok sz this,
      where infl = "\<lambda>b. Some (tl b)" and rest = "[]" and chunk_input = empty_input]
  show ?thesis by (simp add: tiny_body) blast
qed

text \<open>A parsed change is accepted exactly when every operation can be read and its first
  operation counter fits 32 bits, and it then counts its operations; the first unreadable
  operation is the error.\<close>

theorem verify_ops_iff:
  "verify_ops ops c = (case find isl ops of
     Some op \<Rightarrow> Inl (ReadOp (projl op))
   | None \<Rightarrow> if unat (ch_start_op c) < 2 ^ 32 then Inr (c\<lparr>ch_num_ops := length ops\<rparr>) else Inl CounterTooLarge)"
proof -
  have "count_ops ops n = (case find isl ops of Some op \<Rightarrow> Inl (ReadOp (projl op)) | None \<Rightarrow> Inr (n + length ops))" for n
  proof (induction ops arbitrary: n)
    case (Cons op ops)
    then show ?case by (cases op) (auto split: option.split)
  qed simp
  then show ?thesis by (simp add: verify_ops_def split: option.split)
qed

end
