(* ===== verification/Loaded_Change.thy ===== *)
theory Loaded_Change
  imports Change
begin

text \<open>
  The change of the document API (\<open>change.rs\<close>): a sc change together with the number of its
  operations and the state of its compressed form, which is computed at most once.
\<close>

datatype compression_state = NotCompressed | AsCompressed compressed | TooSmallToCompress

record loaded_change =
  lc_stored :: change
  lc_compression :: compression_state
  lc_len :: nat

definition loaded_new :: "change \<Rightarrow> loaded_change" where
  "loaded_new sc = \<lparr>lc_stored = sc, lc_compression = NotCompressed, lc_len = ch_num_ops sc\<rparr>"

text \<open>The visitor of \<open>verify_ops\<close> counts the operations that can be read.\<close>

definition new_from_unverified ::
  "('e + 'op) list \<Rightarrow> change \<Rightarrow> compressed option \<Rightarrow> 'e read_change_op_error + loaded_change" where
  "new_from_unverified ops sc compressed = bind_res (verify_ops ops sc) (\<lambda>sc.
     Inr \<lparr>lc_stored = sc,
          lc_compression = (case compressed of Some c \<Rightarrow> AsCompressed c | None \<Rightarrow> NotCompressed),
          lc_len = length ops\<rparr>)"

definition lc_deps :: "loaded_change \<Rightarrow> change_hash list" where
  "lc_deps c = ch_dependencies (lc_stored c)"

definition lc_hash :: "loaded_change \<Rightarrow> change_hash" where
  "lc_hash c = change_hash_of (lc_stored c)"

definition lc_seq :: "loaded_change \<Rightarrow> u64" where
  "lc_seq c = ch_seq (lc_stored c)"

definition lc_start_op :: "loaded_change \<Rightarrow> u64" where
  "lc_start_op c = ch_start_op (lc_stored c)"

definition lc_max_op :: "loaded_change \<Rightarrow> u64" where
  "lc_max_op c = ch_start_op (lc_stored c) + word_of_nat (lc_len c) - 1"

definition lc_timestamp :: "loaded_change \<Rightarrow> i64" where
  "lc_timestamp c = ch_timestamp (lc_stored c)"

definition lc_message :: "loaded_change \<Rightarrow> bytes option" where
  "lc_message c = ch_message (lc_stored c)"

definition lc_extra_bytes :: "loaded_change \<Rightarrow> bytes option" where
  "lc_extra_bytes c = change_extra_bytes (lc_stored c)"

definition lc_raw_bytes :: "loaded_change \<Rightarrow> bytes" where
  "lc_raw_bytes c = ch_bytes (lc_stored c)"

text \<open>
  \<open>Change::bytes\<close> compresses the change the first time it is asked for its bytes; \<open>None\<close> is a
  panic of a slice in \<open>compress\<close>.
\<close>

definition lc_bytes ::
  "(bytes \<Rightarrow> bytes) \<Rightarrow> (u64 \<Rightarrow> bytes) \<Rightarrow> loaded_change \<Rightarrow> (loaded_change \<times> bytes) option" where
  "lc_bytes defl wu c =
     Option.bind (case lc_compression c of
         NotCompressed \<Rightarrow> map_option (\<lambda>r. case r of
             Some compressed \<Rightarrow> c\<lparr>lc_compression := AsCompressed compressed\<rparr>
           | None \<Rightarrow> c\<lparr>lc_compression := TooSmallToCompress\<rparr>) (change_compress defl wu (lc_stored c))
       | _ \<Rightarrow> Some c) (\<lambda>c.
     case lc_compression c of
       NotCompressed \<Rightarrow> None
     | TooSmallToCompress \<Rightarrow> Some (c, ch_bytes (lc_stored c))
     | AsCompressed cp \<Rightarrow> Some (c, cp_bytes cp))"

lemma count_ops_Inr: "count_ops ops n = Inr m \<Longrightarrow> m = n + length ops"
  by (induction ops n rule: count_ops.induct) (auto simp: result_simps)

lemma lc_bytes_again:
  assumes "lc_bytes defl wu c = Some (c', b)"
  shows "lc_bytes defl' wu' c' = Some (c', b) \<and> lc_stored c' = lc_stored c \<and> lc_len c' = lc_len c"
  using assms
  by (cases "lc_compression c"; cases "change_compress defl wu (lc_stored c)")
    (auto simp: lc_bytes_def split: option.splits)

text \<open>A change that is accepted counts exactly its operations, in the stored change and outside,
  and the bytes it hands out are fixed by the first request: asking again, with any compressor,
  gives the same bytes and leaves the change as it is.\<close>

theorem loaded_change_consistent:
  assumes "new_from_unverified ops sc cp = Inr c" and "lc_bytes defl wu c = Some (c', b)"
  shows "lc_len c = length ops \<and> ch_num_ops (lc_stored c) = length ops \<and> lc_hash c = change_hash_of sc
    \<and> lc_bytes defl' wu' c' = Some (c', b) \<and> lc_hash c' = lc_hash c
    \<and> (\<forall>k. cp = Some k \<longrightarrow> b = cp_bytes k \<and> c' = c)"
proof -
  from assms(1) obtain s where v: "verify_ops ops sc = Inr s"
    and c: "c = \<lparr>lc_stored = s, lc_compression = (case cp of Some c \<Rightarrow> AsCompressed c | None \<Rightarrow> NotCompressed),
          lc_len = length ops\<rparr>"
    by (auto simp: new_from_unverified_def result_simps)
  then obtain n where "count_ops ops 0 = Inr n" and s: "s = sc\<lparr>ch_num_ops := n\<rparr>"
    by (auto simp: verify_ops_def result_simps split: if_splits)
  then have "n = length ops" using count_ops_Inr by fastforce
  moreover have "\<forall>k. cp = Some k \<longrightarrow> b = cp_bytes k \<and> c' = c"
    using assms(2) by (auto simp: c lc_bytes_def)
  ultimately show ?thesis
    using lc_bytes_again [OF assms(2)] by (simp add: c s lc_hash_def change_hash_of_def)
qed


theorem loaded_change_consistent_witness:
  "\<exists>c. new_from_unverified [Inr ()]
      (change_build (\<lambda>b. replicate 32 7) own_writer own_writer_s tiny_builder [] no_columns [] 0) (Some k)
      = (Inr c :: unit read_change_op_error + loaded_change)
    \<and> lc_len c = length [Inr () :: unit + unit] \<and> lc_bytes id own_writer c = Some (c, cp_bytes k)"
proof -
  let ?s = "change_build (\<lambda>b. replicate 32 7) own_writer own_writer_s tiny_builder [] no_columns [] 0"
  let ?c = "\<lparr>lc_stored = ?s\<lparr>ch_num_ops := 1\<rparr>, lc_compression = AsCompressed k, lc_len = 1\<rparr>"
  have "ch_start_op ?s = 1" by (simp add: change_build_def Let_def tiny_builder_def)
  then have "new_from_unverified [Inr ()] ?s (Some k) = (Inr ?c :: unit read_change_op_error + loaded_change)"
    by (simp add: new_from_unverified_def verify_ops_def)
  moreover have "lc_bytes id own_writer ?c = Some (?c, cp_bytes k)"
    by (simp add: lc_bytes_def)
  ultimately show ?thesis
    using loaded_change_consistent [of "[Inr ()] :: (unit + unit) list" ?s "Some k" ?c id own_writer ?c
        "cp_bytes k" id own_writer] by blast
qed

end
