(* ===== verification/Change_Graph.thy ===== *)
theory Change_Graph
  imports Clock Loaded_Change "HOL-Library.AList"
begin

text \<open>
  The graph of changes (\<open>change_graph.rs\<close>): nodes and edges live in vectors and are named by index;
  the parents of a node are a linked list in the vector of edges. A column of the hexane store is
  the list of its values. Node and edge indexes are 32-bit in the source: here they are numbers, cut
  to 32 bits where the source casts. A panic (an index out of range, a failed assertion, an unwrap)
  is \<open>None\<close>; a recursion of the source without an evident bound is \<open>None\<close> as well when it does
  not end. Sets are sets, iterated in increasing order; of the two hash maps the one that is iterated is an
  association list.
\<close>

definition cast_u32 :: "nat \<Rightarrow> nat" where
  "cast_u32 n = n mod 2 ^ 32"

definition cache_step :: nat where
  "cache_step = 16"

text \<open>\<open>NodeIdx\<close> with its addition, and \<open>EdgeIdx\<close>, which holds the index plus one.\<close>

type_synonym node_idx = nat
type_synonym edge_idx = nat

definition node_add :: "node_idx \<Rightarrow> nat \<Rightarrow> node_idx" where
  "node_add n k = cast_u32 (n + cast_u32 k)"

definition edge_idx_new :: "nat \<Rightarrow> edge_idx option" where
  "edge_idx_new v = (let e = cast_u32 (cast_u32 v + 1) in if e = 0 then None else Some e)"

definition edge_get :: "edge_idx \<Rightarrow> nat" where
  "edge_get e = e - 1"

record edge =
  ed_target :: node_idx
  ed_next :: "edge_idx option"

record change_graph =
  cg_edges :: "edge list"
  cg_hashes :: "change_hash list"
  cg_actors :: "nat list"
  cg_parents :: "edge_idx option list"
  cg_seq :: "u32 list"
  cg_max_ops :: "u32 list"
  cg_num_ops :: "u64 list"
  cg_timestamps :: "i64 list"
  cg_messages :: "bytes option list"
  cg_extra_lens :: "nat list"
  cg_extra_raw :: bytes
  cg_heads :: "change_hash set"
  cg_nodes_by_hash :: "change_hash \<Rightarrow> node_idx option"
  cg_clock_cache :: "(node_idx \<times> seq_clock) list"
  cg_seq_index :: "node_idx list list"

definition graph_new :: "nat \<Rightarrow> change_graph" where
  "graph_new num_actors = \<lparr>cg_edges = [], cg_hashes = [], cg_actors = [], cg_parents = [], cg_seq = [],
     cg_max_ops = [], cg_num_ops = [], cg_timestamps = [], cg_messages = [], cg_extra_lens = [],
     cg_extra_raw = [], cg_heads = {}, cg_nodes_by_hash = Map.empty, cg_clock_cache = [],
     cg_seq_index = replicate num_actors []\<rparr>"

text \<open>\<open>with_capacity\<close> only reserves memory.\<close>

definition graph_with_capacity :: "nat \<Rightarrow> nat \<Rightarrow> nat \<Rightarrow> change_graph" where
  "graph_with_capacity changes deps num_actors = graph_new num_actors"

datatype missing_dep = MissingDepOf change_hash

subsection \<open>Queries\<close>

definition num_actors :: "change_graph \<Rightarrow> nat" where
  "num_actors g = length (cg_seq_index g)"

definition all_actor_ids :: "change_graph \<Rightarrow> nat list" where
  "all_actor_ids g = [0 ..< length (cg_seq_index g)]"

definition actor_ids :: "change_graph \<Rightarrow> nat list" where
  "actor_ids g = filter (\<lambda>i. cg_seq_index g ! i \<noteq> []) [0 ..< length (cg_seq_index g)]"

definition unused_actors :: "change_graph \<Rightarrow> nat list" where
  "unused_actors g = filter (\<lambda>i. cg_seq_index g ! i = []) [0 ..< length (cg_seq_index g)]"

definition graph_heads :: "change_graph \<Rightarrow> change_hash list" where
  "graph_heads g = sorted_list_of_set (cg_heads g)"

definition head_indexes :: "change_graph \<Rightarrow> node_idx list option" where
  "head_indexes g = those (map (cg_nodes_by_hash g) (graph_heads g))"

definition graph_len :: "change_graph \<Rightarrow> nat" where
  "graph_len g = length (cg_hashes g)"

definition graph_is_empty :: "change_graph \<Rightarrow> bool" where
  "graph_is_empty g \<longleftrightarrow> cg_hashes g = []"

definition hash_to_index :: "change_graph \<Rightarrow> change_hash \<Rightarrow> nat option" where
  "hash_to_index g h = cg_nodes_by_hash g h"

definition index_to_hash :: "change_graph \<Rightarrow> nat \<Rightarrow> change_hash option" where
  "index_to_hash g i = vec_at (cg_hashes g) i"

definition has_change :: "change_graph \<Rightarrow> change_hash \<Rightarrow> bool" where
  "has_change g h \<longleftrightarrow> cg_nodes_by_hash g h \<noteq> None"

definition seq_for_actor :: "change_graph \<Rightarrow> nat \<Rightarrow> nat" where
  "seq_for_actor g actor = (case vec_at (cg_seq_index g) actor of Some v \<Rightarrow> length v | None \<Rightarrow> 0)"

definition max_op_for_actor :: "change_graph \<Rightarrow> nat \<Rightarrow> u64" where
  "max_op_for_actor g actor =
     (case Option.bind (vec_at (cg_seq_index g) actor) (\<lambda>s.
             Option.bind (if s = [] then None else Some (last s)) (vec_at (cg_max_ops g))) of
        Some m \<Rightarrow> ucast m | None \<Rightarrow> 0)"

definition get_hash_for_actor_seq :: "change_graph \<Rightarrow> nat \<Rightarrow> u64 \<Rightarrow> automerge_error + change_hash" where
  "get_hash_for_actor_seq g actor sq =
     (case Option.bind (vec_at (cg_seq_index g) actor) (\<lambda>v.
             Option.bind (vec_at v (unat (sq - 1))) (vec_at (cg_hashes g))) of
        Some h \<Rightarrow> Inr h | None \<Rightarrow> Inl (InvalidSeq sq))"

definition node_ids :: "change_graph \<Rightarrow> node_idx list" where
  "node_ids g = [0 ..< cast_u32 (length (cg_hashes g))]"

text \<open>The iterator over the parents of a node follows the links of the edges.\<close>

partial_function (option) follow_edges :: "edge list \<Rightarrow> edge_idx option \<Rightarrow> node_idx list option" where
  "follow_edges es e = (case e of
     None \<Rightarrow> Some []
   | Some this_edge \<Rightarrow> Option.bind (vec_at es (edge_get this_edge)) (\<lambda>ed.
       Option.bind (follow_edges es (ed_next ed)) (\<lambda>ps. Some (ed_target ed # ps))))"

definition parents_of :: "change_graph \<Rightarrow> node_idx \<Rightarrow> node_idx list option" where
  "parents_of g n = Option.bind (vec_at (cg_parents g) n) (follow_edges (cg_edges g))"

text \<open>\<open>deps\<close> stops at the first parent without a hash; \<open>deps_for_hash\<close> indexes and panics there.\<close>

definition graph_deps :: "change_graph \<Rightarrow> change_hash \<Rightarrow> change_hash list option" where
  "graph_deps g h = (case cg_nodes_by_hash g h of
     None \<Rightarrow> Some []
   | Some n \<Rightarrow> map_option (\<lambda>ps. map ((!) (cg_hashes g)) (takeWhile (\<lambda>p. p < length (cg_hashes g)) ps))
       (parents_of g n))"

definition deps_for_hash :: "change_graph \<Rightarrow> change_hash \<Rightarrow> change_hash list option" where
  "deps_for_hash g h = (case cg_nodes_by_hash g h of
     None \<Rightarrow> Some []
   | Some n \<Rightarrow> Option.bind (parents_of g n) (\<lambda>ps. those (map (vec_at (cg_hashes g)) ps)))"

definition heads_to_nodes :: "change_graph \<Rightarrow> change_hash list \<Rightarrow> node_idx list" where
  "heads_to_nodes g heads = List.map_filter (cg_nodes_by_hash g) heads"

definition clock_data_for :: "change_graph \<Rightarrow> node_idx \<Rightarrow> u32 option" where
  "clock_data_for g idx = vec_at (cg_seq g) idx"


subsection \<open>Actors\<close>

definition insert_actor :: "change_graph \<Rightarrow> nat \<Rightarrow> change_graph option" where
  "insert_actor g idx = (let
     actors = (if length (cg_seq_index g) \<noteq> idx
       then map (\<lambda>a. if a \<ge> cast_u32 idx then cast_u32 (a + 1) else a) (cg_actors g) else cg_actors g) in
     Option.bind (those (map (\<lambda>(n, c). map_option (Pair n) (rewrite_with_new_actor c idx)) (cg_clock_cache g))) (\<lambda>cache.
     Option.bind (vec_insert idx [] (cg_seq_index g)) (\<lambda>seq_index.
     Some (g\<lparr>cg_actors := actors, cg_clock_cache := cache, cg_seq_index := seq_index\<rparr>))))"

definition remove_actor :: "change_graph \<Rightarrow> nat \<Rightarrow> change_graph option" where
  "remove_actor g idx = (let
     actors = map (\<lambda>a. if a > cast_u32 idx then a - 1 else a) (cg_actors g) in
     Option.bind (case vec_at (cg_seq_index g) idx of
         None \<Rightarrow> Some (cg_seq_index g)
       | Some v \<Rightarrow> if v = [] then vec_remove idx (cg_seq_index g) else None) (\<lambda>seq_index.
     Option.bind (those (map (\<lambda>(n, c). map_option (Pair n) (seq_clock_remove_actor c idx)) (cg_clock_cache g))) (\<lambda>cache.
     Some (g\<lparr>cg_actors := actors, cg_clock_cache := cache, cg_seq_index := seq_index\<rparr>))))"

subsection \<open>Clocks of nodes\<close>

text \<open>
  The walk visits the largest index first. The set of visited nodes is a list here: a node is added
  only after the check that it is new, so its length is the size of the set, and the assertion on
  that size bounds the walk.
\<close>

function calculate_clock_inner ::
  "change_graph \<Rightarrow> nat \<Rightarrow> node_idx list \<Rightarrow> seq_clock \<Rightarrow> node_idx set \<Rightarrow> (seq_clock \<times> node_idx set) option" where
  "calculate_clock_inner g limit visited clock to_visit =
     (if to_visit = {} then Some (clock, to_visit)
      else let idx = Max to_visit; to_visit = to_visit - {idx} in
        if idx \<in> set visited \<or> length visited > length (cg_hashes g) then None
        else let visited = idx # visited in
          Option.bind (vec_at (cg_actors g) idx) (\<lambda>actor.
          Option.bind (seq_clock_include clock actor (clock_data_for g idx)) (\<lambda>(clock, _).
          case map_of (cg_clock_cache g) idx of
            Some cached \<Rightarrow> calculate_clock_inner g limit visited (seq_clock_merge clock cached) to_visit
          | None \<Rightarrow> Option.bind (parents_of g idx) (\<lambda>ps.
              let to_visit = to_visit \<union> set (filter (\<lambda>p. p \<notin> set visited) ps) in
              if length visited > limit then Some (clock, to_visit)
              else calculate_clock_inner g limit visited clock to_visit))))"
  by pat_completeness auto

termination
  by (relation "measure (\<lambda>(g, limit, visited, clock, to_visit). Suc (length (cg_hashes g)) - length visited)")
    auto

declare calculate_clock_inner.simps [simp del]

definition calculate_clock :: "change_graph \<Rightarrow> node_idx list \<Rightarrow> seq_clock option" where
  "calculate_clock g nodes =
     Option.bind (calculate_clock_inner g (2 ^ 64 - 1) [] (seq_clock_new (num_actors g)) (set nodes))
       (\<lambda>(clock, to_visit). if to_visit = {} then Some clock else None)"

definition seq_clock_for_heads :: "change_graph \<Rightarrow> change_hash list \<Rightarrow> seq_clock option" where
  "seq_clock_for_heads g heads = calculate_clock g (heads_to_nodes g heads)"

definition clock_for_heads :: "change_graph \<Rightarrow> change_hash list \<Rightarrow> clock option" where
  "clock_for_heads g heads =
     map_option (\<lambda>c. clock_from_iter (map (\<lambda>(actor, sq).
         Option.bind (vec_at (cg_seq_index g) actor) (\<lambda>v.
         Option.bind sq (\<lambda>sq. Option.bind (vec_at v (unat sq - 1)) (vec_at (cg_max_ops g)))))
       (List.enumerate 0 c)))
     (calculate_clock g (heads_to_nodes g heads))"

text \<open>
  \<open>cache_clock\<close> calls itself on the nodes its walk left over. The recursion of the source ends
  because these have smaller indexes; here it has fuel, and a graph of \<open>n\<close> nodes needs at most \<open>n\<close>.
\<close>

primrec cache_subs ::
  "(change_graph \<Rightarrow> node_idx \<Rightarrow> (change_graph \<times> seq_clock) option) \<Rightarrow> node_idx list \<Rightarrow> change_graph
    \<Rightarrow> seq_clock \<Rightarrow> (change_graph \<times> seq_clock) option" where
  "cache_subs f [] g clock = Some (g, clock)"
| "cache_subs f (n # ns) g clock =
     Option.bind (f g n) (\<lambda>(g, sub). cache_subs f ns g (seq_clock_merge clock sub))"

primrec cache_clock :: "nat \<Rightarrow> change_graph \<Rightarrow> node_idx \<Rightarrow> (change_graph \<times> seq_clock) option" where
  "cache_clock 0 g n = None"
| "cache_clock (Suc fuel) g n =
     Option.bind (calculate_clock_inner g (cache_step * 2) [] (seq_clock_new (num_actors g)) {n}) (\<lambda>(clock, to_visit).
     Option.bind (cache_subs (cache_clock fuel) (sorted_list_of_set to_visit) g clock) (\<lambda>(g, clock).
     Some (g\<lparr>cg_clock_cache := AList.update n clock (cg_clock_cache g)\<rparr>, clock)))"


subsection \<open>Adding changes\<close>

definition update_heads :: "change_graph \<Rightarrow> loaded_change \<Rightarrow> change_graph" where
  "update_heads g change = g\<lparr>cg_heads := insert (lc_hash change) (cg_heads g - set (lc_deps change))\<rparr>"

text \<open>A change comes with the index of its actor.\<close>

definition add_nodes :: "change_graph \<Rightarrow> (loaded_change \<times> nat) list \<Rightarrow> change_graph option" where
  "add_nodes g cs = map_option (\<lambda>extras. g\<lparr>
      cg_actors := cg_actors g @ map (\<lambda>(_, a). cast_u32 a) cs,
      cg_seq := cg_seq g @ map (\<lambda>(c, _). ucast (lc_seq c)) cs,
      cg_max_ops := cg_max_ops g @ map (\<lambda>(c, _). ucast (lc_max_op c)) cs,
      cg_num_ops := cg_num_ops g @ map (\<lambda>(c, _). word_of_nat (lc_len c)) cs,
      cg_timestamps := cg_timestamps g @ map (\<lambda>(c, _). lc_timestamp c) cs,
      cg_messages := cg_messages g @ map (\<lambda>(c, _). lc_message c) cs,
      cg_extra_lens := cg_extra_lens g @ map length extras,
      cg_parents := cg_parents g @ replicate (length cs) None,
      cg_extra_raw := cg_extra_raw g @ concat extras\<rparr>)
    (those (map (\<lambda>(c, _). lc_extra_bytes c) cs))"

text \<open>The walk to the last edge of a list of edges.\<close>

partial_function (option) last_edge :: "edge list \<Rightarrow> nat \<Rightarrow> nat option" where
  "last_edge es i = Option.bind (vec_at es i) (\<lambda>ed. case ed_next ed of
     None \<Rightarrow> Some i
   | Some next_edge \<Rightarrow> last_edge es (edge_get next_edge))"

definition add_parent :: "change_graph \<Rightarrow> node_idx \<Rightarrow> change_hash \<Rightarrow> change_graph option" where
  "add_parent g child_idx parent_hash =
     Option.bind (cg_nodes_by_hash g parent_hash) (\<lambda>parent_idx.
     Option.bind (edge_idx_new (length (cg_edges g))) (\<lambda>new_edge.
     let es = cg_edges g @ [\<lparr>ed_target = parent_idx, ed_next = None\<rparr>] in
     Option.bind (vec_at (cg_parents g) child_idx) (\<lambda>child. case child of
         Some e \<Rightarrow> map_option (\<lambda>i. g\<lparr>cg_edges := es[i := (es ! i)\<lparr>ed_next := Some new_edge\<rparr>]\<rparr>)
           (last_edge es (edge_get e))
       | None \<Rightarrow> Some (g\<lparr>cg_edges := es, cg_parents := (cg_parents g)[child_idx := Some new_edge]\<rparr>))))"

primrec add_parents :: "change_graph \<Rightarrow> node_idx \<Rightarrow> change_hash list \<Rightarrow> change_graph option" where
  "add_parents g n [] = Some g"
| "add_parents g n (h # hs) = Option.bind (add_parent g n h) (\<lambda>g. add_parents g n hs)"

text \<open>
  One round of the loop of \<open>add_changes\<close>. The assertion that the hash is new is a debug
  assertion, which the release build leaves out.
\<close>

definition index_node :: "change_graph \<Rightarrow> node_idx \<Rightarrow> loaded_change \<Rightarrow> nat \<Rightarrow> change_graph option" where
  "index_node g node_idx change actor =
     (let h = lc_hash change;
          g = g\<lparr>cg_hashes := cg_hashes g @ [h], cg_nodes_by_hash := (cg_nodes_by_hash g)(h \<mapsto> node_idx)\<rparr>;
          g = update_heads g change in
      if \<not> actor < length (cg_seq_index g) then None
      else if length (cg_seq_index g ! actor) + 1 \<noteq> unat (lc_seq change) then None
      else Some (g\<lparr>cg_seq_index := (cg_seq_index g)[actor := cg_seq_index g ! actor @ [node_idx]]\<rparr>))"

definition add_changes_step ::
  "change_graph \<Rightarrow> node_idx \<Rightarrow> loaded_change \<Rightarrow> nat \<Rightarrow> change_graph option" where
  "add_changes_step g node_idx change actor =
     Option.bind (index_node g node_idx change actor) (\<lambda>g.
     Option.bind (add_parents g node_idx (lc_deps change)) (\<lambda>g.
     if node_add node_idx 1 mod cache_step = 0
     then map_option fst (cache_clock (length (cg_hashes g)) g node_idx) else Some g))"

primrec add_changes_loop ::
  "node_idx \<Rightarrow> nat \<Rightarrow> (loaded_change \<times> nat) list \<Rightarrow> change_graph \<Rightarrow> change_graph option" where
  "add_changes_loop node i [] g = Some g"
| "add_changes_loop node i (c # cs) g =
     Option.bind (add_changes_step g (node_add node i) (fst c) (snd c)) (add_changes_loop node (i + 1) cs)"

definition add_changes ::
  "change_graph \<Rightarrow> (loaded_change \<times> nat) list \<Rightarrow> (missing_dep + change_graph) option" where
  "add_changes g cs = (let node = cast_u32 (length (cg_hashes g)) in
     map_option Inr (Option.bind (add_nodes g cs) (add_changes_loop node 0 cs)))"

definition add_change :: "change_graph \<Rightarrow> loaded_change \<Rightarrow> nat \<Rightarrow> (missing_dep + change_graph) option" where
  "add_change g change actor =
     (if cg_nodes_by_hash g (lc_hash change) \<noteq> None then Some (Inr g)
      else case find (\<lambda>h. cg_nodes_by_hash g h = None) (lc_deps change) of
        Some h \<Rightarrow> Some (Inl (MissingDepOf h))
      | None \<Rightarrow> add_changes g [(change, actor)])"

primrec missing_in_order :: "change_hash list \<Rightarrow> (loaded_change \<times> nat) list \<Rightarrow> change_hash option" where
  "missing_in_order seen [] = None"
| "missing_in_order seen (c # cs) = (case find (\<lambda>h. h \<notin> set seen) (lc_deps (fst c)) of
     Some h \<Rightarrow> Some h
   | None \<Rightarrow> missing_in_order (lc_hash (fst c) # seen) cs)"

definition graph_from_iter :: "(loaded_change \<times> nat) list \<Rightarrow> nat \<Rightarrow> nat \<Rightarrow> (missing_dep + change_graph) option" where
  "graph_from_iter cs deps actors = (case missing_in_order [] cs of
     Some h \<Rightarrow> Some (Inl (MissingDepOf h))
   | None \<Rightarrow> add_changes (graph_with_capacity (length cs) deps actors) cs)"

subsection \<open>The changes that a peer is missing\<close>

primrec changes_after :: "seq_clock \<Rightarrow> nat \<Rightarrow> node_idx list list \<Rightarrow> node_idx list option" where
  "changes_after clock actor [] = Some []"
| "changes_after clock actor (ns # rest) =
     Option.bind (case get_for_actor clock actor of
         Some sq \<Rightarrow> slice_from ns (unat sq)
       | None \<Rightarrow> Some ns) (\<lambda>new. map_option ((@) new) (changes_after clock (actor + 1) rest))"

definition get_build_indexes :: "change_graph \<Rightarrow> seq_clock \<Rightarrow> node_idx list option" where
  "get_build_indexes g clock = map_option sort (changes_after clock 0 (cg_seq_index g))"

definition get_hashes :: "change_graph \<Rightarrow> change_hash list \<Rightarrow> change_hash list option" where
  "get_hashes g have_deps =
     Option.bind (seq_clock_for_heads g have_deps) (\<lambda>clock.
     map_option (List.map_filter (vec_at (cg_hashes g))) (get_build_indexes g clock))"

subsection \<open>Ancestors\<close>

function traverse_ancestors ::
  "change_graph \<Rightarrow> ('s \<Rightarrow> node_idx \<Rightarrow> ('s \<times> bool) option) \<Rightarrow> node_idx list \<Rightarrow> node_idx list \<Rightarrow> 's \<Rightarrow> 's option" where
  "traverse_ancestors g f visited [] s = Some s"
| "traverse_ancestors g f visited (idx # to_visit) s =
     (if idx \<in> set visited then traverse_ancestors g f visited to_visit s
      else Option.bind (f s idx) (\<lambda>(s, go).
        if go then Option.bind (parents_of g idx) (\<lambda>ps.
          traverse_ancestors g f (idx # visited) (rev ps @ to_visit) s)
        else traverse_ancestors g f (idx # visited) to_visit s))"
  by pat_completeness auto

termination
proof (relation "inv_image (less_than <*lex*> less_than) (\<lambda>(g, f, visited, to_visit, s).
    (card ({..< length (cg_parents g)} - set visited), length to_visit))", goal_cases)
  case 1
  show ?case by auto
next
  case (2 g f visited idx to_visit s)
  then show ?case by simp
next
  case (3 g f visited idx to_visit s x s' go ps)
  then have "idx \<in> {..< length (cg_parents g)} - set visited"
    by (auto simp: parents_of_def vec_at_def bind_eq_Some_conv split: if_splits)
  then have "card ({..< length (cg_parents g)} - set (idx # visited)) < card ({..< length (cg_parents g)} - set visited)"
    by (intro psubset_card_mono) auto
  then show ?case by simp
next
  case (4 g f visited idx to_visit s x s' go)
  have "card ({..< length (cg_parents g)} - set (idx # visited)) \<le> card ({..< length (cg_parents g)} - set visited)"
    by (intro card_mono) auto
  then show ?case by (auto simp: le_less)
qed

text \<open>The stack of the source grows at its end; here it grows at the front.\<close>

definition remove_ancestors ::
  "change_graph \<Rightarrow> change_hash set \<Rightarrow> change_hash list \<Rightarrow> change_hash set option" where
  "remove_ancestors g changes heads =
     traverse_ancestors g (\<lambda>changes idx. map_option (\<lambda>h. (changes - {h}, True)) (vec_at (cg_hashes g) idx)) []
       (rev (heads_to_nodes g heads)) changes"

subsection \<open>The change of an operation\<close>

text \<open>
  \<open>binary_search_by\<close> on the nodes of an actor: the interval is halved until a node is found; the
  comparison may panic.
\<close>

function search_node ::
  "(node_idx \<Rightarrow> int option) \<Rightarrow> node_idx list \<Rightarrow> nat \<Rightarrow> nat \<Rightarrow> nat option option" where
  "search_node cmp ns lo hi =
     (if lo < hi then
        let mid = lo + (hi - lo) div 2 in
        Option.bind (cmp (ns ! mid)) (\<lambda>c.
          if c = 0 then Some (Some mid)
          else if c < 0 then search_node cmp ns (mid + 1) hi
          else search_node cmp ns lo mid)
      else Some None)"
  by pat_completeness auto

termination
  by (relation "measure (\<lambda>(cmp, ns, lo, hi). hi - lo)") auto

declare search_node.simps [simp del]

definition compare_op :: "change_graph \<Rightarrow> u64 \<Rightarrow> node_idx \<Rightarrow> int option" where
  "compare_op g ctr n =
     (let num_ops = (case vec_at (cg_num_ops g) n of Some k \<Rightarrow> k | None \<Rightarrow> 0) in
      map_option (\<lambda>max_op.
        let start = ucast max_op - num_ops + 1
        in if ctr < start then 1 else if ucast max_op < ctr then - 1 else 0) (vec_at (cg_max_ops g) n))"

definition opid_to_hash :: "change_graph \<Rightarrow> op_id \<Rightarrow> change_hash option option" where
  "opid_to_hash g o' = (case vec_at (cg_seq_index g) (actor_idx o') of
     None \<Rightarrow> Some None
   | Some ns \<Rightarrow> map_option (\<lambda>r. Option.bind r (\<lambda>i. vec_at (cg_hashes g) (ns ! i)))
       (search_node (compare_op g (counter o')) ns 0 (length ns)))"

end
