(* ===== verification/Graph_Inv.thy ===== *)
theory Graph_Inv
  imports Change_Graph
begin

text \<open>
  The invariant of the change graph and its preservation: hashes and indexes are inverse to each
  other, every node lists parents of smaller index, the per-actor index lists the nodes of the actor
  in the order of their sequence numbers, which count from 1, and the heads are the nodes without
  children.
\<close>

subsection \<open>Lists of edges\<close>

text \<open>The edges of one node, appended to a vector of length \<open>b\<close>.\<close>

fun edge_run :: "nat \<Rightarrow> node_idx list \<Rightarrow> edge list" where
  "edge_run b [] = []"
| "edge_run b [t] = [\<lparr>ed_target = t, ed_next = None\<rparr>]"
| "edge_run b (t # u # ts) = \<lparr>ed_target = t, ed_next = Some (b + 2)\<rparr> # edge_run (b + 1) (u # ts)"

definition run_start :: "nat \<Rightarrow> node_idx list \<Rightarrow> edge_idx option" where
  "run_start b ts = (if ts = [] then None else Some (b + 1))"

lemma length_edge_run [simp]: "length (edge_run b ts) = length ts"
  by (induction b ts rule: edge_run.induct) simp_all

lemma edge_run_snoc:
  "ts \<noteq> [] \<Longrightarrow> edge_run b (ts @ [t]) =
     (edge_run b ts)[length ts - 1 := ((edge_run b ts) ! (length ts - 1))\<lparr>ed_next := Some (b + length ts + 1)\<rparr>]
     @ [\<lparr>ed_target = t, ed_next = None\<rparr>]"
proof (induction b ts rule: edge_run.induct)
  case (3 b t' u ts)
  then have "edge_run (b + 1) (u # ts @ [t]) =
      (edge_run (b + 1) (u # ts))[length ts := ((edge_run (b + 1) (u # ts)) ! length ts)\<lparr>ed_next := Some (b + length ts + 3)\<rparr>]
      @ [\<lparr>ed_target = t, ed_next = None\<rparr>]"
    by (simp add: numeral_3_eq_3)
  then show ?case by (simp add: numeral_3_eq_3)
qed simp_all

lemma last_edge_run:
  "ts \<noteq> [] \<Longrightarrow> length es = b \<Longrightarrow> last_edge (es @ edge_run b ts @ ext) b = Some (b + length ts - 1)"
proof (induction b ts arbitrary: es rule: edge_run.induct)
  case (2 b t)
  then show ?case by (auto simp: last_edge.simps vec_at_def)
next
  case (3 b t u ts)
  have "last_edge ((es @ [\<lparr>ed_target = t, ed_next = Some (b + 2)\<rparr>]) @ edge_run (b + 1) (u # ts) @ ext) (b + 1)
      = Some (b + 1 + length (u # ts) - 1)"
    by (rule "3.IH") (use 3 in simp_all)
  then show ?case
    using "3.prems" by (subst last_edge.simps) (auto simp: vec_at_def edge_get_def)
qed simp

lemma follow_edge_run:
  "length es = b \<Longrightarrow> follow_edges (es @ edge_run b ts @ ext) (run_start b ts) = Some ts"
proof (induction b ts arbitrary: es rule: edge_run.induct)
  case (1 b)
  then show ?case by (simp add: run_start_def follow_edges.simps)
next
  case (2 b t)
  then show ?case
    by (auto simp: run_start_def follow_edges.simps [of _ "Some _"] follow_edges.simps [of _ None] vec_at_def edge_get_def)
next
  case (3 b t u ts)
  have "follow_edges ((es @ [\<lparr>ed_target = t, ed_next = Some (b + 2)\<rparr>]) @ edge_run (b + 1) (u # ts) @ ext)
      (run_start (b + 1) (u # ts)) = Some (u # ts)"
    by (rule "3.IH") (use 3 in simp_all)
  then show ?case
    using "3.prems" by (subst follow_edges.simps) (auto simp: run_start_def vec_at_def edge_get_def)
qed

lemma follow_edges_mono: "follow_edges es e = Some ps \<Longrightarrow> follow_edges (es @ ext) e = Some ps"
proof (induction es e ps rule: follow_edges.raw_induct [rotated, consumes 1])
  case (1 follow es e ps)
  show ?case
  proof (cases e)
    case None
    then show ?thesis using 1(2) by (simp add: follow_edges.simps)
  next
    case (Some k)
    with 1(2) obtain qs where k: "edge_get k < length es"
      and q: "follow es (ed_next (es ! edge_get k)) = Some qs" "ps = ed_target (es ! edge_get k) # qs"
      by (auto simp: bind_eq_Some_conv vec_at_Some_iff)
    from 1(1) [OF q(1)] k q(2) Some show ?thesis
      by (subst follow_edges.simps) (simp add: vec_at_def nth_append)
  qed
qed


subsection \<open>The invariant\<close>

definition parent_list :: "change_graph \<Rightarrow> node_idx \<Rightarrow> node_idx list" where
  "parent_list g n = (case parents_of g n of Some ps \<Rightarrow> ps | None \<Rightarrow> [])"

text \<open>
  While changes are being added the vectors of metadata, of length \<open>N\<close>, run ahead of the hashes.
\<close>

definition core_inv :: "change_graph \<Rightarrow> nat \<Rightarrow> bool" where
  "core_inv g N \<longleftrightarrow>
     length (cg_hashes g) \<le> N \<and> N < 2 ^ 32 \<and> length (cg_seq_index g) \<le> 2 ^ 32
     \<and> length (cg_actors g) = N \<and> length (cg_seq g) = N \<and> length (cg_max_ops g) = N
     \<and> length (cg_num_ops g) = N \<and> length (cg_parents g) = N
     \<and> (\<forall>h n. cg_nodes_by_hash g h = Some n \<longleftrightarrow> n < length (cg_hashes g) \<and> cg_hashes g ! n = h)
     \<and> (\<forall>n < length (cg_hashes g). \<exists>ps. parents_of g n = Some ps \<and> (\<forall>p \<in> set ps. p < n))
     \<and> (\<forall>n. length (cg_hashes g) \<le> n \<longrightarrow> n < N \<longrightarrow> cg_parents g ! n = None)
     \<and> (\<forall>n < length (cg_hashes g). cg_actors g ! n < length (cg_seq_index g))
     \<and> (\<forall>a < length (cg_seq_index g).
          cg_seq_index g ! a = filter (\<lambda>n. cg_actors g ! n = a) [0 ..< length (cg_hashes g)])
     \<and> (\<forall>a < length (cg_seq_index g). \<forall>k < length (cg_seq_index g ! a).
          unat (cg_seq g ! (cg_seq_index g ! a ! k)) = Suc k)"

definition heads_ok :: "change_graph \<Rightarrow> bool" where
  "heads_ok g \<longleftrightarrow> cg_heads g = {cg_hashes g ! n | n. n < length (cg_hashes g)
     \<and> (\<forall>m < length (cg_hashes g). n \<notin> set (parent_list g m))}"

lemma core_invD:
  assumes "core_inv g N"
  shows core_len: "length (cg_hashes g) \<le> N"
    and core_N: "N < 2 ^ 32"
    and core_actors_len: "length (cg_seq_index g) \<le> 2 ^ 32"
    and core_lengths: "length (cg_actors g) = N" "length (cg_seq g) = N" "length (cg_max_ops g) = N"
      "length (cg_num_ops g) = N" "length (cg_parents g) = N"
    and core_nodes: "cg_nodes_by_hash g h = Some n \<longleftrightarrow> n < length (cg_hashes g) \<and> cg_hashes g ! n = h"
    and core_parents: "n < length (cg_hashes g) \<Longrightarrow> \<exists>ps. parents_of g n = Some ps \<and> (\<forall>p \<in> set ps. p < n)"
    and core_no_parents: "length (cg_hashes g) \<le> n \<Longrightarrow> n < N \<Longrightarrow> cg_parents g ! n = None"
    and core_actor: "n < length (cg_hashes g) \<Longrightarrow> cg_actors g ! n < length (cg_seq_index g)"
    and core_index: "a < length (cg_seq_index g) \<Longrightarrow>
      cg_seq_index g ! a = filter (\<lambda>n. cg_actors g ! n = a) [0 ..< length (cg_hashes g)]"
    and core_seq: "a < length (cg_seq_index g) \<Longrightarrow> k < length (cg_seq_index g ! a) \<Longrightarrow>
      unat (cg_seq g ! (cg_seq_index g ! a ! k)) = Suc k"
  using assms unfolding core_inv_def by blast+

lemma parents_of_list:
  "core_inv g N \<Longrightarrow> n < length (cg_hashes g) \<Longrightarrow> parents_of g n = Some (parent_list g n)"
  using core_parents by (force simp: parent_list_def)

lemma parent_less:
  "core_inv g N \<Longrightarrow> n < length (cg_hashes g) \<Longrightarrow> p \<in> set (parent_list g n) \<Longrightarrow> p < n"
  using core_parents by (force simp: parent_list_def)

lemma core_distinct:
  assumes "core_inv g N"
  shows "distinct (cg_hashes g)"
  unfolding distinct_conv_nth
proof (intro allI impI notI)
  fix i j
  assume "i < length (cg_hashes g)" "j < length (cg_hashes g)" "i \<noteq> j" "cg_hashes g ! i = cg_hashes g ! j"
  then show False
    using core_nodes [OF assms, of "cg_hashes g ! i" i] core_nodes [OF assms, of "cg_hashes g ! j" j] by simp
qed

lemma core_new: "n \<le> 2 ^ 32 \<Longrightarrow> core_inv (graph_new n) 0"
  by (simp add: core_inv_def graph_new_def)

lemma heads_ok_new: "heads_ok (graph_new n)"
  by (simp add: heads_ok_def graph_new_def)

subsection \<open>Adding the parents of a new node\<close>

lemma edge_idx_new_small: "v < 2 ^ 32 - 1 \<Longrightarrow> edge_idx_new v = Some (v + 1)"
  by (simp add: edge_idx_new_def cast_u32_def Let_def)

lemma add_parent_run:
  assumes "cg_edges g = es @ edge_run (length es) ts" and "n < length (cg_parents g)"
    and "cg_parents g ! n = run_start (length es) ts" and "length (cg_edges g) < 2 ^ 32 - 1"
    and "cg_nodes_by_hash g h = Some p"
  shows "add_parent g n h = Some (g\<lparr>cg_edges := es @ edge_run (length es) (ts @ [p]),
    cg_parents := (cg_parents g)[n := run_start (length es) (ts @ [p])]\<rparr>)"
proof -
  have new: "edge_idx_new (length (cg_edges g)) = Some (length (cg_edges g) + 1)"
    by (rule edge_idx_new_small [OF assms(4)])
  show ?thesis
  proof (cases "ts = []")
    case True
    then show ?thesis
      using assms new by (simp add: add_parent_def run_start_def vec_at_def)
  next
    case False
    then have l: "last_edge (cg_edges g @ [\<lparr>ed_target = p, ed_next = None\<rparr>]) (length es) = Some (length es + length ts - 1)"
      using last_edge_run [of ts es "length es" "[\<lparr>ed_target = p, ed_next = None\<rparr>]"] assms(1) by simp
    have pn: "cg_parents g ! n = Some (length es + 1)" and "(cg_parents g)[n := Some (length es + 1)] = cg_parents g"
      using assms(2,3) False by (auto simp: run_start_def list_update_same_conv)
    moreover have "es @ edge_run (length es) (ts @ [p])
        = (cg_edges g @ [\<lparr>ed_target = p, ed_next = None\<rparr>])
          [length es + length ts - 1 := ((cg_edges g @ [\<lparr>ed_target = p, ed_next = None\<rparr>]) ! (length es + length ts - 1))
             \<lparr>ed_next := Some (length (cg_edges g) + 1)\<rparr>]"
    proof -
      obtain k where k: "length ts = Suc k" using False by (cases ts) simp_all
      then show ?thesis
        using edge_run_snoc [OF False, of "length es" p] assms(1)
        by (simp add: list_update_append nth_append)
    qed
    ultimately show ?thesis
      using l new assms(2,5) by (simp add: add_parent_def vec_at_def run_start_def Let_def edge_get_def)
  qed
qed


lemma add_parents_run:
  assumes "cg_edges g = es @ edge_run (length es) ts" and "n < length (cg_parents g)"
    and "cg_parents g ! n = run_start (length es) ts"
    and "length es + length ts + length hs < 2 ^ 32"
    and "\<forall>h \<in> set hs. cg_nodes_by_hash g h \<noteq> None"
  shows "add_parents g n hs = Some (g\<lparr>cg_edges := es @ edge_run (length es) (ts @ map (the \<circ> cg_nodes_by_hash g) hs),
    cg_parents := (cg_parents g)[n := run_start (length es) (ts @ map (the \<circ> cg_nodes_by_hash g) hs)]\<rparr>)"
  using assms
proof (induction hs arbitrary: g ts)
  case Nil
  then have "(cg_parents g)[n := run_start (length es) ts] = cg_parents g"
    by (simp add: list_update_same_conv)
  with Nil show ?case by (cases g) simp
next
  case (Cons h hs)
  then obtain p where p: "cg_nodes_by_hash g h = Some p" by auto
  let ?g = "g\<lparr>cg_edges := es @ edge_run (length es) (ts @ [p]),
    cg_parents := (cg_parents g)[n := run_start (length es) (ts @ [p])]\<rparr>"
  have 1: "add_parent g n h = Some ?g"
    by (rule add_parent_run) (use Cons.prems p in simp_all)
  have 2: "add_parents ?g n hs = Some (?g\<lparr>cg_edges := es @ edge_run (length es) ((ts @ [p]) @ map (the \<circ> cg_nodes_by_hash ?g) hs),
    cg_parents := (cg_parents ?g)[n := run_start (length es) ((ts @ [p]) @ map (the \<circ> cg_nodes_by_hash ?g) hs)]\<rparr>)"
    by (rule Cons.IH) (use Cons.prems in simp_all)
  have m: "(ts @ [p]) @ map (the \<circ> cg_nodes_by_hash ?g) hs = ts @ map (the \<circ> cg_nodes_by_hash g) (h # hs)"
    using p by simp
  show ?case
    unfolding add_parents.simps 1 bind.simps 2 m by (simp add: comp_def)
qed

text \<open>The state after the whole round of \<open>add_changes\<close> for one change, the clock cache apart.\<close>

definition linked :: "change_graph \<Rightarrow> loaded_change \<Rightarrow> nat \<Rightarrow> change_graph" where
  "linked g c actor = (let n = length (cg_hashes g); h = lc_hash c;
       ps = map (the \<circ> cg_nodes_by_hash g) (lc_deps c) in
     g\<lparr>cg_hashes := cg_hashes g @ [h], cg_nodes_by_hash := (cg_nodes_by_hash g)(h \<mapsto> n),
       cg_heads := insert h (cg_heads g - set (lc_deps c)),
       cg_seq_index := (cg_seq_index g)[actor := cg_seq_index g ! actor @ [n]],
       cg_edges := cg_edges g @ edge_run (length (cg_edges g)) ps,
       cg_parents := (cg_parents g)[n := run_start (length (cg_edges g)) ps]\<rparr>)"

text \<open>What a change must meet to be added to a graph without panic.\<close>

definition addable :: "change_graph \<Rightarrow> loaded_change \<Rightarrow> nat \<Rightarrow> bool" where
  "addable g c actor \<longleftrightarrow> cg_nodes_by_hash g (lc_hash c) = None
     \<and> (\<forall>h \<in> set (lc_deps c). cg_nodes_by_hash g h \<noteq> None)
     \<and> actor < length (cg_seq_index g) \<and> unat (lc_seq c) = length (cg_seq_index g ! actor) + 1
     \<and> length (cg_edges g) + length (lc_deps c) < 2 ^ 32"

text \<open>The metadata that \<open>add_nodes\<close> wrote in advance.\<close>

definition announced :: "change_graph \<Rightarrow> loaded_change \<Rightarrow> nat \<Rightarrow> bool" where
  "announced g c actor \<longleftrightarrow> length (cg_hashes g) < length (cg_actors g)
     \<and> cg_actors g ! length (cg_hashes g) = actor \<and> cg_seq g ! length (cg_hashes g) = ucast (lc_seq c)"

lemma step_linked:
  assumes "core_inv g N" and "addable g c actor" and "announced g c actor"
  shows "Option.bind (index_node g (length (cg_hashes g)) c actor)
      (\<lambda>g'. add_parents g' (length (cg_hashes g)) (lc_deps c)) = Some (linked g c actor)"
proof -
  let ?n = "length (cg_hashes g)" and ?h = "lc_hash c"
  let ?g = "g\<lparr>cg_hashes := cg_hashes g @ [?h], cg_nodes_by_hash := (cg_nodes_by_hash g)(?h \<mapsto> ?n),
       cg_heads := insert ?h (cg_heads g - set (lc_deps c)),
       cg_seq_index := (cg_seq_index g)[actor := cg_seq_index g ! actor @ [?n]]\<rparr>"
  have n: "?n < length (cg_parents g)" using assms(1,3) by (simp add: announced_def core_lengths)
  then have none: "cg_parents g ! ?n = None" using core_no_parents [OF assms(1), of ?n] assms(1) by (simp add: core_lengths)
  have "?h \<notin> set (lc_deps c)" using assms(2) by (auto simp: addable_def)
  then have ps: "map (the \<circ> cg_nodes_by_hash ?g) (lc_deps c) = map (the \<circ> cg_nodes_by_hash g) (lc_deps c)"
    by auto
  have 1: "index_node g ?n c actor = Some ?g"
    using assms(2) by (simp add: index_node_def addable_def update_heads_def Let_def)
  have "add_parents ?g ?n (lc_deps c) = Some (?g\<lparr>cg_edges := cg_edges g @ edge_run (length (cg_edges g)) ([] @ map (the \<circ> cg_nodes_by_hash ?g) (lc_deps c)),
    cg_parents := (cg_parents ?g)[?n := run_start (length (cg_edges g)) ([] @ map (the \<circ> cg_nodes_by_hash ?g) (lc_deps c))]\<rparr>)"
    by (rule add_parents_run) (use assms(2) n none in \<open>simp_all add: addable_def run_start_def\<close>)
  then show ?thesis
    using 1 unfolding ps by (simp add: linked_def Let_def)
qed


lemma linked_sel [simp]:
  "cg_hashes (linked g c a) = cg_hashes g @ [lc_hash c]"
  "cg_nodes_by_hash (linked g c a) = (cg_nodes_by_hash g)(lc_hash c \<mapsto> length (cg_hashes g))"
  "cg_heads (linked g c a) = insert (lc_hash c) (cg_heads g - set (lc_deps c))"
  "cg_seq_index (linked g c a) = (cg_seq_index g)[a := cg_seq_index g ! a @ [length (cg_hashes g)]]"
  "cg_actors (linked g c a) = cg_actors g" "cg_seq (linked g c a) = cg_seq g"
  "cg_max_ops (linked g c a) = cg_max_ops g" "cg_num_ops (linked g c a) = cg_num_ops g"
  "cg_clock_cache (linked g c a) = cg_clock_cache g"
  "length (cg_parents (linked g c a)) = length (cg_parents g)"
  "length (cg_edges (linked g c a)) = length (cg_edges g) + length (lc_deps c)"
  by (simp_all add: linked_def Let_def)

lemma linked_parents_old:
  assumes "core_inv g N" and "n < length (cg_hashes g)"
  shows "parents_of (linked g c a) n = parents_of g n"
proof -
  obtain ps where "parents_of g n = Some ps" using core_parents [OF assms] by blast
  moreover from this have "parents_of (linked g c a) n = Some ps"
    using assms(2) follow_edges_mono
    by (auto simp: parents_of_def bind_eq_Some_conv vec_at_Some_iff linked_def Let_def)
  ultimately show ?thesis by simp
qed

lemma linked_parents_new:
  assumes "core_inv g N" and "announced g c a"
  shows "parents_of (linked g c a) (length (cg_hashes g)) = Some (map (the \<circ> cg_nodes_by_hash g) (lc_deps c))"
proof -
  have "length (cg_hashes g) < length (cg_parents g)" using assms by (simp add: announced_def core_lengths)
  then show ?thesis
    using follow_edge_run [of "cg_edges g" _ "map (the \<circ> cg_nodes_by_hash g) (lc_deps c)" "[]"]
    by (simp add: parents_of_def vec_at_def linked_def Let_def)
qed

lemma linked_parent_list:
  assumes "core_inv g N" and "announced g c a"
  shows "n < length (cg_hashes g) \<Longrightarrow> parent_list (linked g c a) n = parent_list g n"
    and "parent_list (linked g c a) (length (cg_hashes g)) = map (the \<circ> cg_nodes_by_hash g) (lc_deps c)"
  using linked_parents_old [OF assms(1)] linked_parents_new [OF assms] by (simp_all add: parent_list_def)

lemma index_length:
  "core_inv g N \<Longrightarrow> a < length (cg_seq_index g) \<Longrightarrow> length (cg_seq_index g ! a) \<le> length (cg_hashes g)"
  using core_index length_filter_le [of "\<lambda>n. cg_actors g ! n = a" "[0 ..< length (cg_hashes g)]"] by simp

lemma dep_node:
  assumes "core_inv g N" and "addable g c a" and "h \<in> set (lc_deps c)"
  shows "\<exists>k. cg_nodes_by_hash g h = Some k \<and> k < length (cg_hashes g) \<and> cg_hashes g ! k = h"
proof -
  obtain k where "cg_nodes_by_hash g h = Some k" using assms(2,3) unfolding addable_def by blast
  with core_nodes [OF assms(1)] show ?thesis by blast
qed

lemma core_linked:
  assumes inv: "core_inv g N" and ad: "addable g c a" and an: "announced g c a"
  shows "core_inv (linked g c a) N"
proof -
  let ?n = "length (cg_hashes g)"
  have nN: "?n < N" and act: "cg_actors g ! ?n = a" and sq: "cg_seq g ! ?n = ucast (lc_seq c)"
    using an inv by (simp_all add: announced_def core_lengths)
  have a: "a < length (cg_seq_index g)" and ls: "unat (lc_seq c) = length (cg_seq_index g ! a) + 1"
    using ad by (simp_all add: addable_def)
  have idx: "b < length (cg_seq_index g) \<Longrightarrow>
      cg_seq_index g ! b = filter (\<lambda>n. cg_actors g ! n = b) [0 ..< ?n]" for b
    using core_index [OF inv] by blast
  have "unat (lc_seq c) < 2 ^ 32"
    using ls index_length [OF inv a] nN core_N [OF inv] by linarith
  then have us: "unat (cg_seq g ! ?n) = length (cg_seq_index g ! a) + 1"
    unfolding sq by (simp add: unsigned_ucast_eq take_bit_nat_eq_self ls)
  show ?thesis
    unfolding core_inv_def
  proof (intro conjI)
    show "\<forall>h n. cg_nodes_by_hash (linked g c a) h = Some n \<longleftrightarrow>
        n < length (cg_hashes (linked g c a)) \<and> cg_hashes (linked g c a) ! n = h"
    proof (intro allI)
      fix h n
      have "cg_nodes_by_hash g (lc_hash c) \<noteq> Some m" for m using ad by (simp add: addable_def)
      then show "cg_nodes_by_hash (linked g c a) h = Some n \<longleftrightarrow>
        n < length (cg_hashes (linked g c a)) \<and> cg_hashes (linked g c a) ! n = h"
        using core_nodes [OF inv] by (auto simp: nth_append less_Suc_eq)
    qed
    show "\<forall>n < length (cg_hashes (linked g c a)). \<exists>ps. parents_of (linked g c a) n = Some ps \<and> (\<forall>p \<in> set ps. p < n)"
    proof (intro allI impI)
      fix n assume "n < length (cg_hashes (linked g c a))"
      then consider "n < ?n" | "n = ?n" by (auto simp: less_Suc_eq)
      then show "\<exists>ps. parents_of (linked g c a) n = Some ps \<and> (\<forall>p \<in> set ps. p < n)"
      proof cases
        case 1
        then show ?thesis using core_parents [OF inv 1] by (simp add: linked_parents_old [OF inv])
      next
        case 2
        have "\<forall>p \<in> set (map (the \<circ> cg_nodes_by_hash g) (lc_deps c)). p < ?n"
          using dep_node [OF inv ad] by fastforce
        then show ?thesis using linked_parents_new [OF inv an] 2 by simp
      qed
    qed
    show "\<forall>n. length (cg_hashes (linked g c a)) \<le> n \<longrightarrow> n < N \<longrightarrow> cg_parents (linked g c a) ! n = None"
      using core_no_parents [OF inv] by (simp add: linked_def Let_def)
    show "\<forall>n < length (cg_hashes (linked g c a)). cg_actors (linked g c a) ! n < length (cg_seq_index (linked g c a))"
      using core_actor [OF inv] act a by (simp add: less_Suc_eq)
    show "\<forall>b < length (cg_seq_index (linked g c a)). cg_seq_index (linked g c a) ! b
        = filter (\<lambda>n. cg_actors (linked g c a) ! n = b) [0 ..< length (cg_hashes (linked g c a))]"
      using idx act a by (simp add: nth_list_update)
    show "\<forall>b < length (cg_seq_index (linked g c a)). \<forall>k < length (cg_seq_index (linked g c a) ! b).
          unat (cg_seq (linked g c a) ! (cg_seq_index (linked g c a) ! b ! k)) = Suc k"
      using core_seq [OF inv] a us by (auto simp: nth_list_update nth_append less_Suc_eq)
  qed (use inv nN core_N [OF inv] core_actors_len [OF inv] in \<open>simp_all add: core_lengths\<close>)
qed

lemma heads_linked:
  assumes inv: "core_inv g N" and ad: "addable g c a" and an: "announced g c a" and heads: "heads_ok g"
  shows "heads_ok (linked g c a)"
proof -
  let ?n = "length (cg_hashes g)" and ?g = "linked g c a"
  have dep: "cg_hashes g ! m \<in> set (lc_deps c) \<longleftrightarrow> m \<in> set (parent_list ?g ?n)" if "m < ?n" for m
  proof -
    have "(the \<circ> cg_nodes_by_hash g) h = m \<longleftrightarrow> h = cg_hashes g ! m" if d: "h \<in> set (lc_deps c)" for h
    proof -
      obtain k where "cg_nodes_by_hash g h = Some k" "cg_hashes g ! k = h" using dep_node [OF inv ad d] by blast
      moreover have "cg_nodes_by_hash g (cg_hashes g ! m) = Some m" using \<open>m < ?n\<close> core_nodes [OF inv] by blast
      ultimately show ?thesis unfolding comp_def by (metis option.sel)
    qed
    then have "m \<in> (the \<circ> cg_nodes_by_hash g) ` set (lc_deps c) \<longleftrightarrow> cg_hashes g ! m \<in> set (lc_deps c)"
      unfolding image_iff by metis
    then show ?thesis by (simp add: linked_parent_list(2) [OF inv an])
  qed
  have last: "\<forall>m < Suc ?n. ?n \<notin> set (parent_list ?g m)"
    using parent_less [OF core_linked [OF inv ad an], of _ ?n] by fastforce
  have split: "(\<forall>m < Suc ?n. n \<notin> set (parent_list ?g m)) \<longleftrightarrow>
      (\<forall>m < ?n. n \<notin> set (parent_list g m)) \<and> cg_hashes g ! n \<notin> set (lc_deps c)" if "n < ?n" for n
    using dep [OF that] linked_parent_list(1) [OF inv an] by (auto simp: less_Suc_eq)
  have "{cg_hashes ?g ! n | n. n < length (cg_hashes ?g) \<and> (\<forall>m < length (cg_hashes ?g). n \<notin> set (parent_list ?g m))}
      = insert (lc_hash c) {cg_hashes g ! n | n. n < ?n \<and> (\<forall>m < Suc ?n. n \<notin> set (parent_list ?g m))}" (is "?A = _")
  proof -
    have "?A = (\<lambda>n. cg_hashes ?g ! n) ` {n. n < Suc ?n \<and> (\<forall>m < Suc ?n. n \<notin> set (parent_list ?g m))}"
      by auto
    also have "{n. n < Suc ?n \<and> (\<forall>m < Suc ?n. n \<notin> set (parent_list ?g m))}
        = insert ?n {n. n < ?n \<and> (\<forall>m < Suc ?n. n \<notin> set (parent_list ?g m))}"
      using last by auto
    also have "(\<lambda>n. cg_hashes ?g ! n) ` \<dots>
        = insert (lc_hash c) ((\<lambda>n. cg_hashes g ! n) ` {n. n < ?n \<and> (\<forall>m < Suc ?n. n \<notin> set (parent_list ?g m))})"
      unfolding image_insert by (intro arg_cong2 [where f = insert] image_cong) (auto simp: nth_append)
    finally show ?thesis by auto
  qed
  also have "{cg_hashes g ! n | n. n < ?n \<and> (\<forall>m < Suc ?n. n \<notin> set (parent_list ?g m))}
      = cg_heads g - set (lc_deps c)"
    unfolding heads [unfolded heads_ok_def] using split by blast
  finally have "cg_heads ?g = {cg_hashes ?g ! n | n. n < length (cg_hashes ?g)
      \<and> (\<forall>m < length (cg_hashes ?g). n \<notin> set (parent_list ?g m))}"
    by simp
  then show ?thesis by (simp add: heads_ok_def)
qed

end
