(* ===== verification/Graph_Clock.thy ===== *)
theory Graph_Clock
  imports Graph_Inv
begin

text \<open>
  The clocks of the change graph: the cached walk computes, for every actor, the largest sequence
  number among the ancestors of the given nodes. The reference is the inductive relation
  \<open>ancestor\<close>, which knows neither caches nor limits nor the order of the walk.
\<close>

subsection \<open>Ancestors\<close>

inductive ancestor :: "change_graph \<Rightarrow> node_idx \<Rightarrow> node_idx \<Rightarrow> bool" for g where
  self: "n < length (cg_hashes g) \<Longrightarrow> ancestor g n n"
| parent: "n < length (cg_hashes g) \<Longrightarrow> p \<in> set (parent_list g n) \<Longrightarrow> ancestor g m p \<Longrightarrow> ancestor g m n"

inductive_cases ancestorE: "ancestor g m n"

definition anc :: "change_graph \<Rightarrow> node_idx set \<Rightarrow> node_idx set" where
  "anc g S = {m. \<exists>n \<in> S. ancestor g m n}"

lemma anc_empty [simp]: "anc g {} = {}"
  by (simp add: anc_def)

lemma anc_Un: "anc g (S \<union> T) = anc g S \<union> anc g T"
  by (auto simp: anc_def)

lemma anc_unfold:
  "n < length (cg_hashes g) \<Longrightarrow> anc g {n} = insert n (anc g (set (parent_list g n)))"
  by (auto simp: anc_def intro: ancestor.intros elim: ancestorE)

lemma ancestor_trans: "ancestor g m n \<Longrightarrow> ancestor g l m \<Longrightarrow> ancestor g l n"
  by (induction rule: ancestor.induct) (auto intro: ancestor.parent)

lemma ancestor_le:
  assumes "core_inv g N"
  shows "ancestor g m n \<Longrightarrow> m \<le> n \<and> n < length (cg_hashes g)"
proof (induction rule: ancestor.induct)
  case (parent n p m)
  then show ?case using parent_less [OF assms parent(1,2)] by simp
qed simp

lemma anc_bounded: "core_inv g N \<Longrightarrow> anc g S \<subseteq> {..< length (cg_hashes g)}"
  using ancestor_le by (fastforce simp: anc_def)

lemma finite_anc: "core_inv g N \<Longrightarrow> finite (anc g S)"
  by (rule finite_subset [OF anc_bounded]) simp_all

subsection \<open>The clock of a set of nodes\<close>

definition clock_at :: "change_graph \<Rightarrow> node_idx set \<Rightarrow> nat \<Rightarrow> u32 option" where
  "clock_at g S a = Max (insert None ((\<lambda>n. Some (cg_seq g ! n)) ` {n \<in> S. cg_actors g ! n = a}))"

definition represents :: "change_graph \<Rightarrow> seq_clock \<Rightarrow> node_idx set \<Rightarrow> bool" where
  "represents g c S \<longleftrightarrow> length c = num_actors g \<and> (\<forall>a < num_actors g. c ! a = clock_at g S a)"

lemma None_least [simp]: "max None x = x" "max x None = (x :: 'a::linorder option)"
  by (cases x; simp add: max_def)+

lemma clock_at_empty [simp]: "clock_at g {} a = None"
  by (simp add: clock_at_def)

lemma clock_at_Un:
  assumes "finite S" and "finite T"
  shows "clock_at g (S \<union> T) a = max (clock_at g S a) (clock_at g T a)"
proof -
  let ?f = "\<lambda>S. (\<lambda>n. Some (cg_seq g ! n)) ` {n \<in> S. cg_actors g ! n = a}"
  have "insert None (?f (S \<union> T)) = insert None (?f S) \<union> insert None (?f T)" by auto
  then show ?thesis
    using assms by (simp only: clock_at_def) (subst Max_Un; simp)
qed

lemma clock_at_single: "clock_at g {n} a = (if cg_actors g ! n = a then Some (cg_seq g ! n) else None)"
proof -
  have "{m \<in> {n}. cg_actors g ! m = a} = (if cg_actors g ! n = a then {n} else {})" by auto
  then show ?thesis by (simp add: clock_at_def)
qed

lemma clock_at_insert:
  assumes "finite S"
  shows "clock_at g (insert n S) a
    = (if cg_actors g ! n = a then max (Some (cg_seq g ! n)) (clock_at g S a) else clock_at g S a)"
  using clock_at_Un [of "{n}" S g a] assms by (simp add: clock_at_single)

lemma clock_at_single_le:
  "finite S \<Longrightarrow> n \<in> S \<Longrightarrow> cg_actors g ! n = a \<Longrightarrow> Some (cg_seq g ! n) \<le> clock_at g S a"
  by (auto simp: clock_at_def)

lemma clock_at_mono: "S \<subseteq> T \<Longrightarrow> finite T \<Longrightarrow> clock_at g S a \<le> clock_at g T a"
  unfolding clock_at_def by (intro Max_mono) auto

lemma clock_at_Some:
  assumes "finite S" and "clock_at g S a = Some s"
  shows "\<exists>n \<in> S. cg_actors g ! n = a \<and> cg_seq g ! n = s"
proof -
  have "Max (insert None ((\<lambda>n. Some (cg_seq g ! n)) ` {n \<in> S. cg_actors g ! n = a}))
      \<in> insert None ((\<lambda>n. Some (cg_seq g ! n)) ` {n \<in> S. cg_actors g ! n = a})"
    by (rule Max_in) (use assms(1) in simp_all)
  then show ?thesis using assms(2) by (auto simp: clock_at_def)
qed


subsection \<open>The walk\<close>

definition cache_ok :: "change_graph \<Rightarrow> bool" where
  "cache_ok g \<longleftrightarrow> (\<forall>(n, c) \<in> set (cg_clock_cache g). n < length (cg_hashes g) \<and> represents g c (anc g {n}))"

lemma cache_okD:
  "cache_ok g \<Longrightarrow> map_of (cg_clock_cache g) n = Some c \<Longrightarrow> represents g c (anc g {n})"
  by (auto simp: cache_ok_def dest!: map_of_SomeD)

lemma in_seq_index:
  assumes "core_inv g N" and "n < length (cg_hashes g)"
  shows "\<exists>k < length (cg_seq_index g ! (cg_actors g ! n)). cg_seq_index g ! (cg_actors g ! n) ! k = n"
proof -
  have "n \<in> set (cg_seq_index g ! (cg_actors g ! n))"
    using core_index [OF assms(1) core_actor [OF assms]] assms(2) by simp
  then show ?thesis by (simp add: in_set_conv_nth)
qed

lemma seq_nonzero:
  assumes "core_inv g N" and "n < length (cg_hashes g)"
  shows "cg_seq g ! n \<noteq> 0"
proof -
  obtain k where "k < length (cg_seq_index g ! (cg_actors g ! n))" "cg_seq_index g ! (cg_actors g ! n) ! k = n"
    using in_seq_index [OF assms] by blast
  with core_seq [OF assms(1) core_actor [OF assms], of k] show ?thesis by (auto simp: unsigned_0)
qed

text \<open>Including a node in a clock joins the clock of that node alone.\<close>

lemma include_node:
  assumes inv: "core_inv g N" and n: "n < length (cg_hashes g)" and len: "length clock = num_actors g"
  shows "\<exists>clock' changed. seq_clock_include clock (cg_actors g ! n) (clock_data_for g n) = Some (clock', changed)
    \<and> length clock' = num_actors g \<and> (\<forall>a < num_actors g. clock' ! a = max (clock ! a) (clock_at g {n} a))"
proof -
  have a: "cg_actors g ! n < length clock" using core_actor [OF inv n] len by (simp add: num_actors_def)
  have d: "clock_data_for g n = Some (cg_seq g ! n)"
    using n core_len [OF inv] core_lengths [OF inv] by (simp add: clock_data_for_def vec_at_def)
  from seq_clock_include_max [OF a seq_nonzero [OF inv n]] show ?thesis
    using a len by (auto simp: d clock_at_single nth_list_update)
qed

lemma merge_node:
  assumes "represents g c S" and "length clock = num_actors g" and "a < num_actors g"
  shows "seq_clock_merge clock c ! a = max (clock ! a) (clock_at g S a)"
  using assms by (simp add: represents_def seq_clock_merge_nth)

lemma walk:
  assumes inv: "core_inv g N" and cache: "cache_ok g"
  shows "finite tv \<Longrightarrow> tv \<subseteq> {..< length (cg_hashes g)} \<Longrightarrow> distinct vis \<Longrightarrow> set vis \<subseteq> {..< length (cg_hashes g)}
    \<Longrightarrow> \<forall>t \<in> tv. \<forall>v \<in> set vis. t < v \<Longrightarrow> length clock = num_actors g \<Longrightarrow>
    \<exists>clock' tv'. calculate_clock_inner g limit vis clock tv = Some (clock', tv')
      \<and> length clock' = num_actors g \<and> finite tv' \<and> tv' \<subseteq> {..< length (cg_hashes g)}
      \<and> (\<forall>a < num_actors g. max (clock' ! a) (clock_at g (anc g tv') a) = max (clock ! a) (clock_at g (anc g tv) a))
      \<and> (length (cg_hashes g) \<le> limit \<longrightarrow> tv' = {}) \<and> (tv \<noteq> {} \<longrightarrow> (\<forall>t \<in> tv'. t < Max tv))"
    (is "_ \<Longrightarrow> _ \<Longrightarrow> _ \<Longrightarrow> _ \<Longrightarrow> _ \<Longrightarrow> _ \<Longrightarrow> \<exists>clock' tv'. ?P vis clock tv clock' tv'")
proof (induction "Suc (length (cg_hashes g)) - length vis" arbitrary: vis clock tv rule: less_induct)
  case less
  show ?case
  proof (cases "tv = {}")
    case True
    then show ?thesis using less.prems by (simp add: calculate_clock_inner.simps)
  next
    case False
    let ?len = "length (cg_hashes g)"
    define idx where "idx = Max tv"
    let ?tv = "tv - {idx}" and ?vis = "idx # vis"
    have idx: "idx \<in> tv" "idx < ?len" using False less.prems(1,2) by (auto simp: idx_def dest: Max_in)
    have below: "t < idx" if "t \<in> ?tv" for t
      using that less.prems(1) Max_ge [of tv t] by (auto simp: idx_def less_le)
    have new: "idx \<notin> set vis" using less.prems(5) idx(1) by blast
    have bound: "length ?vis \<le> ?len"
    proof -
      have "card (set ?vis) \<le> card {..< ?len}" by (rule card_mono) (use less.prems(4) idx(2) in auto)
      then show ?thesis using less.prems(3) new by (simp add: distinct_card)
    qed
    obtain clock1 ch where inc: "seq_clock_include clock (cg_actors g ! idx) (clock_data_for g idx) = Some (clock1, ch)"
      and len1: "length clock1 = num_actors g"
      and clock1: "\<And>a. a < num_actors g \<Longrightarrow> clock1 ! a = max (clock ! a) (clock_at g {idx} a)"
      using include_node [OF inv idx(2) less.prems(6)] by blast
    have leave: "t < Max tv" if "calculate_clock_inner g limit ?vis c T = Some (c', tv')"
        and "T \<noteq> {} \<longrightarrow> (\<forall>t \<in> tv'. t < Max T)" and "finite T" and "\<forall>t \<in> T. t < idx" and "t \<in> tv'" for c T c' tv' t
    proof (cases "T = {}")
      case True
      then show ?thesis using that by (simp add: calculate_clock_inner.simps)
    next
      case False
      then have "Max T < idx" using that(3,4) by (subst Max_less_iff) auto
      then show ?thesis using that(2,5) False by (auto simp: idx_def)
    qed
    have act: "vec_at (cg_actors g) idx = Some (cg_actors g ! idx)"
      using idx(2) core_len [OF inv] core_lengths(1) [OF inv] by (simp add: vec_at_def)
    have fin: "finite (anc g T)" for T by (rule finite_anc [OF inv])
    have tv: "anc g tv = anc g {idx} \<union> anc g ?tv"
      using idx(1) by (simp add: insert_absorb flip: anc_Un)
    show ?thesis
    proof (cases "map_of (cg_clock_cache g) idx")
      case (Some cached)
      let ?clock = "seq_clock_merge clock1 cached"
      have step: "calculate_clock_inner g limit vis clock tv = calculate_clock_inner g limit ?vis ?clock ?tv"
        using False new bound by (subst calculate_clock_inner.simps) (simp add: idx_def [symmetric] act inc Some Let_def)
      have "\<exists>clock' tv'. ?P ?vis ?clock ?tv clock' tv'"
        by (rule less.hyps) (use less.prems new idx(2) bound below len1 in \<open>auto simp: Suc_diff_le\<close>)
      then obtain clock' tv' where P: "?P ?vis ?clock ?tv clock' tv'" by blast
      have "max (clock' ! a) (clock_at g (anc g tv') a) = max (clock ! a) (clock_at g (anc g tv) a)"
        if a: "a < num_actors g" for a
      proof -
        have "max (clock' ! a) (clock_at g (anc g tv') a) = max (?clock ! a) (clock_at g (anc g ?tv) a)"
          using P a by blast
        also have "?clock ! a = max (clock1 ! a) (clock_at g (anc g {idx}) a)"
          by (rule merge_node [OF cache_okD [OF cache Some] len1 a])
        also have "clock1 ! a = max (clock ! a) (clock_at g {idx} a)" by (rule clock1 [OF a])
        also have "max (max (max (clock ! a) (clock_at g {idx} a)) (clock_at g (anc g {idx}) a)) (clock_at g (anc g ?tv) a)
            = max (clock ! a) (clock_at g ({idx} \<union> anc g {idx} \<union> anc g ?tv) a)"
          by (simp only: clock_at_Un fin finite_UnI finite.intros max.assoc)
        also have "{idx} \<union> anc g {idx} \<union> anc g ?tv = anc g tv"
          using anc_unfold [OF idx(2)] by (auto simp: tv)
        finally show ?thesis .
      qed
      moreover have "t < Max tv" if "t \<in> tv'" for t
        using leave [of ?clock ?tv clock' tv' t] P that less.prems(1) below by blast
      ultimately show ?thesis using P step by auto
    next
      case None
      let ?ps = "parent_list g idx"
      let ?tv2 = "?tv \<union> set ?ps"
      have ps: "parents_of g idx = Some ?ps" by (rule parents_of_list [OF inv idx(2)])
      have lt: "p < idx" if "p \<in> set ?ps" for p by (rule parent_less [OF inv idx(2) that])
      then have flt: "{p \<in> set ?ps. p \<noteq> idx \<and> p \<notin> set vis} = set ?ps"
        using less.prems(5) idx(1) by fastforce
      have below2: "\<forall>t \<in> ?tv2. t < idx" using below lt by blast
      then have ord: "\<forall>t \<in> ?tv2. \<forall>v \<in> set ?vis. t < v"
        using less.prems(5) idx(1) by (metis less_trans set_ConsD)
      have eq: "max (clock1 ! a) (clock_at g (anc g ?tv2) a) = max (clock ! a) (clock_at g (anc g tv) a)"
        if a: "a < num_actors g" for a
      proof -
        have "max (clock1 ! a) (clock_at g (anc g ?tv2) a)
            = max (clock ! a) (clock_at g ({idx} \<union> (anc g ?tv \<union> anc g (set ?ps))) a)"
          by (simp only: clock1 [OF a] clock_at_Un anc_Un fin finite_UnI finite.intros max.assoc)
        also have "{idx} \<union> (anc g ?tv \<union> anc g (set ?ps)) = anc g tv"
          using anc_unfold [OF idx(2)] by (auto simp: tv)
        finally show ?thesis .
      qed
      show ?thesis
      proof (cases "length ?vis > limit")
        case True
        have "calculate_clock_inner g limit vis clock tv = Some (clock1, ?tv2)"
          using False new bound True
          by (subst calculate_clock_inner.simps) (simp add: idx_def [symmetric] act inc None ps flt Let_def)
        moreover have "?P vis clock tv clock1 ?tv2 \<or> calculate_clock_inner g limit vis clock tv \<noteq> Some (clock1, ?tv2)"
          using len1 eq below2 less.prems(1) idx(2) True bound
          by (auto simp: idx_def intro: order.strict_trans)
        ultimately show ?thesis by blast
      next
        case lim: False
        have step: "calculate_clock_inner g limit vis clock tv = calculate_clock_inner g limit ?vis clock1 ?tv2"
          using False new bound lim
          by (subst calculate_clock_inner.simps) (simp add: idx_def [symmetric] act inc None ps flt Let_def)
        have "\<exists>clock' tv'. ?P ?vis clock1 ?tv2 clock' tv'"
          by (rule less.hyps)
            (use less.prems new idx(2) bound below2 ord len1 in \<open>auto simp: Suc_diff_le intro: order.strict_trans\<close>)
        then obtain clock' tv' where P: "?P ?vis clock1 ?tv2 clock' tv'" by blast
        have "t < Max tv" if "t \<in> tv'" for t
          using leave [of clock1 ?tv2 clock' tv' t] P that less.prems(1) below2 by blast
        then show ?thesis using P step eq by auto
      qed
    qed
  qed
qed


lemma represents_new: "represents g (seq_clock_new (num_actors g)) {}"
  by (simp add: represents_def seq_clock_new_def)

lemma calculate_clock_represents:
  assumes inv: "core_inv g N" and cache: "cache_ok g" and nodes: "set nodes \<subseteq> {..< length (cg_hashes g)}"
  shows "\<exists>c. calculate_clock g nodes = Some c \<and> represents g c (anc g (set nodes))"
proof -
  have "length (cg_hashes g) \<le> 2 ^ 64 - 1" using core_len [OF inv] core_N [OF inv] by simp
  then obtain c where "calculate_clock_inner g (2 ^ 64 - 1) [] (seq_clock_new (num_actors g)) (set nodes) = Some (c, {})"
    and "length c = num_actors g"
    and "\<forall>a < num_actors g. max (c ! a) (clock_at g (anc g {}) a)
      = max (seq_clock_new (num_actors g) ! a) (clock_at g (anc g (set nodes)) a)"
    using walk [OF inv cache, of "set nodes" "[]" "seq_clock_new (num_actors g)" "2 ^ 64 - 1"] nodes
    by (auto simp: seq_clock_new_def)
  then show ?thesis by (simp add: calculate_clock_def represents_def seq_clock_new_def)
qed

subsection \<open>Filling the cache\<close>

lemma ancestor_same:
  "ancestor g m n \<Longrightarrow> parent_list h = parent_list g \<Longrightarrow> cg_hashes h = cg_hashes g \<Longrightarrow> ancestor h m n"
  by (induction rule: ancestor.induct) (auto intro: ancestor.intros)

lemma cache_indep [simp]:
  "parents_of (g\<lparr>cg_clock_cache := cc\<rparr>) = parents_of g"
  "parent_list (g\<lparr>cg_clock_cache := cc\<rparr>) = parent_list g"
  "core_inv (g\<lparr>cg_clock_cache := cc\<rparr>) N = core_inv g N"
  "heads_ok (g\<lparr>cg_clock_cache := cc\<rparr>) = heads_ok g"
  "num_actors (g\<lparr>cg_clock_cache := cc\<rparr>) = num_actors g"
  "clock_at (g\<lparr>cg_clock_cache := cc\<rparr>) = clock_at g"
  "represents (g\<lparr>cg_clock_cache := cc\<rparr>) = represents g"
  "ancestor (g\<lparr>cg_clock_cache := cc\<rparr>) = ancestor g"
  "anc (g\<lparr>cg_clock_cache := cc\<rparr>) = anc g"
proof -
  show 1: "parents_of (g\<lparr>cg_clock_cache := cc\<rparr>) = parents_of g"
    by (simp add: fun_eq_iff parents_of_def)
  show 2: "parent_list (g\<lparr>cg_clock_cache := cc\<rparr>) = parent_list g"
    by (simp add: fun_eq_iff parent_list_def 1)
  show 3: "num_actors (g\<lparr>cg_clock_cache := cc\<rparr>) = num_actors g"
    by (simp add: num_actors_def)
  show "core_inv (g\<lparr>cg_clock_cache := cc\<rparr>) N = core_inv g N"
    by (simp add: core_inv_def 1)
  show "heads_ok (g\<lparr>cg_clock_cache := cc\<rparr>) = heads_ok g"
    by (simp add: heads_ok_def 2)
  show 4: "clock_at (g\<lparr>cg_clock_cache := cc\<rparr>) = clock_at g"
    by (simp add: fun_eq_iff clock_at_def)
  show "represents (g\<lparr>cg_clock_cache := cc\<rparr>) = represents g"
    by (simp add: fun_eq_iff represents_def 3 4)
  show 5: "ancestor (g\<lparr>cg_clock_cache := cc\<rparr>) = ancestor g"
    using ancestor_same [of g _ _ "g\<lparr>cg_clock_cache := cc\<rparr>"] ancestor_same [of "g\<lparr>cg_clock_cache := cc\<rparr>" _ _ g]
    by (auto simp: fun_eq_iff 2)
  show "anc (g\<lparr>cg_clock_cache := cc\<rparr>) = anc g"
    by (simp add: fun_eq_iff anc_def 5)
qed

lemma set_alist_update: "set (AList.update k v xs) \<subseteq> insert (k, v) (set xs)"
  by (induction xs) auto

lemma cache_ok_update:
  "cache_ok g \<Longrightarrow> n < length (cg_hashes g) \<Longrightarrow> represents g c (anc g {n})
   \<Longrightarrow> cache_ok (g\<lparr>cg_clock_cache := AList.update n c (cg_clock_cache g)\<rparr>)"
  using set_alist_update [of n c "cg_clock_cache g"] by (fastforce simp: cache_ok_def)

definition fills_cache :: "(change_graph \<Rightarrow> node_idx \<Rightarrow> (change_graph \<times> seq_clock) option) \<Rightarrow> change_graph \<Rightarrow> node_idx \<Rightarrow> bool" where
  "fills_cache f g n \<longleftrightarrow> (\<exists>cc c. f g n = Some (g\<lparr>cg_clock_cache := cc\<rparr>, c) \<and> cache_ok (g\<lparr>cg_clock_cache := cc\<rparr>)
     \<and> represents g c (anc g {n}))"

lemma cache_subs_fills:
  assumes "\<And>cc n. n \<in> set ns \<Longrightarrow> cache_ok (g\<lparr>cg_clock_cache := cc\<rparr>) \<Longrightarrow> fills_cache f (g\<lparr>cg_clock_cache := cc\<rparr>) n"
    and inv: "core_inv g N" and "cache_ok (g\<lparr>cg_clock_cache := cc\<rparr>)" and "length clock = num_actors g"
  shows "\<exists>cc' c. cache_subs f ns (g\<lparr>cg_clock_cache := cc\<rparr>) clock = Some (g\<lparr>cg_clock_cache := cc'\<rparr>, c)
    \<and> cache_ok (g\<lparr>cg_clock_cache := cc'\<rparr>) \<and> length c = num_actors g
    \<and> (\<forall>a < num_actors g. c ! a = max (clock ! a) (clock_at g (anc g (set ns)) a))"
  using assms(1,3,4)
proof (induction ns arbitrary: cc clock)
  case Nil
  then show ?case by (intro exI [of _ cc] exI [of _ clock]) simp
next
  case (Cons n ns)
  have "fills_cache f (g\<lparr>cg_clock_cache := cc\<rparr>) n"
    by (rule Cons.prems(1)) (use Cons.prems(2) in simp_all)
  then have "\<exists>cc1 sub. f (g\<lparr>cg_clock_cache := cc\<rparr>) n = Some (g\<lparr>cg_clock_cache := cc1\<rparr>, sub)
      \<and> cache_ok (g\<lparr>cg_clock_cache := cc1\<rparr>) \<and> represents g sub (anc g {n})"
    by (simp add: fills_cache_def)
  then obtain cc1 sub
    where f: "f (g\<lparr>cg_clock_cache := cc\<rparr>) n = Some (g\<lparr>cg_clock_cache := cc1\<rparr>, sub)"
      and 1: "cache_ok (g\<lparr>cg_clock_cache := cc1\<rparr>)" "represents g sub (anc g {n})"
    by blast
  have "\<exists>cc' c. cache_subs f ns (g\<lparr>cg_clock_cache := cc1\<rparr>) (seq_clock_merge clock sub) = Some (g\<lparr>cg_clock_cache := cc'\<rparr>, c)
      \<and> cache_ok (g\<lparr>cg_clock_cache := cc'\<rparr>) \<and> length c = num_actors g
      \<and> (\<forall>a < num_actors g. c ! a = max (seq_clock_merge clock sub ! a) (clock_at g (anc g (set ns)) a))"
    by (rule Cons.IH) (use Cons.prems 1(1) in simp_all)
  then obtain cc' c where IH: "cache_subs f ns (g\<lparr>cg_clock_cache := cc1\<rparr>) (seq_clock_merge clock sub) = Some (g\<lparr>cg_clock_cache := cc'\<rparr>, c)"
    "cache_ok (g\<lparr>cg_clock_cache := cc'\<rparr>)" "length c = num_actors g"
    "\<forall>a < num_actors g. c ! a = max (seq_clock_merge clock sub ! a) (clock_at g (anc g (set ns)) a)"
    by blast
  have "c ! a = max (clock ! a) (clock_at g (anc g (set (n # ns))) a)" if a: "a < num_actors g" for a
  proof -
    have "c ! a = max (max (clock ! a) (clock_at g (anc g {n}) a)) (clock_at g (anc g (set ns)) a)"
      using IH(4) a merge_node [OF 1(2) Cons.prems(3) a] by simp
    also have "\<dots> = max (clock ! a) (clock_at g (anc g {n} \<union> anc g (set ns)) a)"
      by (simp only: clock_at_Un finite_anc [OF inv] max.assoc)
    finally show ?thesis by (simp flip: anc_Un)
  qed
  then show ?case using f IH(1-3) by (intro exI [of _ cc'] exI [of _ c]) simp
qed

lemma cache_clock_fills:
  assumes "core_inv g N" and "cache_ok g" and "n < length (cg_hashes g)" and "n < fuel"
  shows "fills_cache (cache_clock fuel) g n"
  using assms
proof (induction fuel arbitrary: g n)
  case (Suc fuel)
  note inv = Suc.prems(1) and cache = Suc.prems(2) and n = Suc.prems(3)
  let ?new = "seq_clock_new (num_actors g)"
  obtain clock tv where w: "calculate_clock_inner g (cache_step * 2) [] ?new {n} = Some (clock, tv)"
    and len: "length clock = num_actors g" and tv: "finite tv" "tv \<subseteq> {..< length (cg_hashes g)}" "\<forall>t \<in> tv. t < n"
    and cl: "\<forall>a < num_actors g. max (clock ! a) (clock_at g (anc g tv) a) = max (?new ! a) (clock_at g (anc g {n}) a)"
    using walk [OF inv cache, of "{n}" "[]" ?new "cache_step * 2"] n by (auto simp: seq_clock_new_def)
  have sub: "fills_cache (cache_clock fuel) (g\<lparr>cg_clock_cache := cc\<rparr>) m"
    if "m \<in> set (sorted_list_of_set tv)" "cache_ok (g\<lparr>cg_clock_cache := cc\<rparr>)" for cc m
    by (rule Suc.IH) (use that inv tv Suc.prems(4) in auto)
  have e: "g\<lparr>cg_clock_cache := cg_clock_cache g\<rparr> = g" by simp
  have "\<exists>cc c. cache_subs (cache_clock fuel) (sorted_list_of_set tv) (g\<lparr>cg_clock_cache := cg_clock_cache g\<rparr>) clock
      = Some (g\<lparr>cg_clock_cache := cc\<rparr>, c) \<and> cache_ok (g\<lparr>cg_clock_cache := cc\<rparr>) \<and> length c = num_actors g
      \<and> (\<forall>a < num_actors g. c ! a = max (clock ! a) (clock_at g (anc g (set (sorted_list_of_set tv))) a))"
    by (rule cache_subs_fills [OF sub inv _ len]) (use cache e in simp_all)
  then obtain cc c where s: "cache_subs (cache_clock fuel) (sorted_list_of_set tv) g clock = Some (g\<lparr>cg_clock_cache := cc\<rparr>, c)"
    and ok: "cache_ok (g\<lparr>cg_clock_cache := cc\<rparr>)" and "length c = num_actors g"
    and "\<forall>a < num_actors g. c ! a = max (clock ! a) (clock_at g (anc g tv) a)"
    unfolding e set_sorted_list_of_set [OF tv(1)] by blast
  then have r: "represents g c (anc g {n})"
    using cl by (simp add: represents_def seq_clock_new_def)
  have "cache_ok (g\<lparr>cg_clock_cache := AList.update n c cc\<rparr>)"
    using cache_ok_update [OF ok, of n c] n r by simp
  then show ?case
    unfolding fills_cache_def
    by (intro exI [of _ "AList.update n c cc"] exI [of _ c]) (use w s r in simp)
qed simp

end
