(* ===== verification/Graph_Add.thy ===== *)
theory Graph_Add
  imports Graph_Clock
begin

text \<open>
  Adding changes keeps the change graph well formed: one change (\<open>add_change\<close>), and a whole history
  in topological order (\<open>from_iter\<close>). The clock caches made on the way stay right, because nodes that
  are there never change their ancestors.
\<close>

definition graph_wf :: "change_graph \<Rightarrow> bool" where
  "graph_wf g \<longleftrightarrow> core_inv g (length (cg_hashes g)) \<and> heads_ok g \<and> cache_ok g"

lemma graph_wf_new: "n \<le> 2 ^ 32 \<Longrightarrow> graph_wf (graph_new n)"
  using core_new [of n] heads_ok_new [of n] by (simp add: graph_wf_def cache_ok_def) (simp add: graph_new_def)

subsection \<open>Old nodes keep their ancestors\<close>

lemma ancestor_extend:
  assumes "core_inv g N" and "\<And>k. k < length (cg_hashes g) \<Longrightarrow> parent_list h k = parent_list g k"
    and "length (cg_hashes g) \<le> length (cg_hashes h)" and "n < length (cg_hashes g)"
  shows "ancestor h m n \<longleftrightarrow> ancestor g m n"
proof
  show "ancestor g m n \<Longrightarrow> ancestor h m n"
  proof (induction rule: ancestor.induct)
    case (self n)
    then show ?case using assms(3) by (auto intro: ancestor.self)
  next
    case (parent n p m)
    then show ?case using assms(2,3) by (auto intro: ancestor.parent)
  qed
  show "ancestor g m n" if "ancestor h m n"
    using that assms(4)
  proof (induction rule: ancestor.induct)
    case (self n)
    then show ?case by (auto intro: ancestor.self)
  next
    case (parent n p m)
    then have p: "p \<in> set (parent_list g n)" using assms(2) by simp
    with parent_less [OF assms(1) parent.prems p] parent show ?case by (intro ancestor.parent [of n g p m]) auto
  qed
qed

lemma anc_linked:
  assumes "core_inv g N" and "announced g c a" and "S \<subseteq> {..< length (cg_hashes g)}"
  shows "anc (linked g c a) S = anc g S"
proof -
  have "ancestor (linked g c a) m n \<longleftrightarrow> ancestor g m n" if "n \<in> S" for m n
    by (rule ancestor_extend [OF assms(1)]) (use assms(3) that linked_parent_list(1) [OF assms(1,2)] in auto)
  then show ?thesis by (auto simp: anc_def)
qed

lemma clock_at_linked [simp]: "clock_at (linked g c a) = clock_at g"
  by (simp add: fun_eq_iff clock_at_def)

lemma num_actors_linked [simp]: "num_actors (linked g c a) = num_actors g"
  by (simp add: num_actors_def)

lemma cache_linked:
  assumes "core_inv g N" and "announced g c a" and "cache_ok g"
  shows "cache_ok (linked g c a)"
proof -
  have "anc (linked g c a) {n} = anc g {n}" if "n < length (cg_hashes g)" for n
    by (rule anc_linked [OF assms(1,2)]) (use that in simp)
  then show ?thesis
    using assms(3) by (fastforce simp: cache_ok_def represents_def)
qed

lemma addable_cache [simp]: "addable (g\<lparr>cg_clock_cache := cc\<rparr>) = addable g"
  by (simp add: fun_eq_iff addable_def)

lemma announced_cache [simp]: "announced (g\<lparr>cg_clock_cache := cc\<rparr>) = announced g"
  by (simp add: fun_eq_iff announced_def)

lemma linked_cache [simp]: "linked (g\<lparr>cg_clock_cache := cc\<rparr>) c a = (linked g c a)\<lparr>cg_clock_cache := cc\<rparr>"
  by (simp add: linked_def Let_def)

subsection \<open>One round of the loop\<close>

definition graph_inv :: "change_graph \<Rightarrow> nat \<Rightarrow> bool" where
  "graph_inv g N \<longleftrightarrow> core_inv g N \<and> heads_ok g \<and> cache_ok g"

lemma graph_wf_inv: "graph_wf g \<longleftrightarrow> graph_inv g (length (cg_hashes g))"
  by (simp add: graph_wf_def graph_inv_def)

lemma step_inv:
  assumes inv: "graph_inv g N" and ad: "addable g c a" and an: "announced g c a"
  shows "\<exists>cc. add_changes_step g (length (cg_hashes g)) c a = Some ((linked g c a)\<lparr>cg_clock_cache := cc\<rparr>)
    \<and> graph_inv ((linked g c a)\<lparr>cg_clock_cache := cc\<rparr>) N"
proof -
  let ?n = "length (cg_hashes g)"
  have core: "core_inv g N" and heads: "heads_ok g" and cache: "cache_ok g"
    using inv by (simp_all add: graph_inv_def)
  have l: "core_inv (linked g c a) N" "heads_ok (linked g c a)" "cache_ok (linked g c a)"
    using core_linked [OF core ad an] heads_linked [OF core ad an heads] cache_linked [OF core an cache] by blast+
  have e: "(linked g c a)\<lparr>cg_clock_cache := cg_clock_cache g\<rparr> = linked g c a"
    by (simp add: linked_def Let_def)
  have eq: "add_changes_step g ?n c a = (if node_add ?n 1 mod cache_step = 0
      then map_option fst (cache_clock (Suc ?n) (linked g c a) ?n) else Some (linked g c a))"
    using step_linked [OF core ad an] by (cases "index_node g ?n c a") (simp_all add: add_changes_step_def)
  show ?thesis
  proof (cases "node_add ?n 1 mod cache_step = 0")
    case True
    have "fills_cache (cache_clock (Suc ?n)) (linked g c a) ?n"
      by (rule cache_clock_fills [OF l(1,3)]) simp_all
    then obtain cc d where "cache_clock (Suc ?n) (linked g c a) ?n = Some ((linked g c a)\<lparr>cg_clock_cache := cc\<rparr>, d)"
      and "cache_ok ((linked g c a)\<lparr>cg_clock_cache := cc\<rparr>)"
      unfolding fills_cache_def by blast
    then show ?thesis using True l eq by (intro exI [of _ cc]) (simp add: graph_inv_def)
  next
    case False
    then show ?thesis
      by (intro exI [of _ "cg_clock_cache g"]) (simp add: e graph_inv_def l eq del: linked_sel cache_indep)
  qed
qed


subsection \<open>The loop\<close>

primrec linked_all :: "change_graph \<Rightarrow> (loaded_change \<times> nat) list \<Rightarrow> change_graph" where
  "linked_all g [] = g"
| "linked_all g (ca # cs) = linked_all (linked g (fst ca) (snd ca)) cs"

primrec addable_all :: "change_graph \<Rightarrow> (loaded_change \<times> nat) list \<Rightarrow> bool" where
  "addable_all g [] \<longleftrightarrow> True"
| "addable_all g (ca # cs) \<longleftrightarrow> addable g (fst ca) (snd ca) \<and> addable_all (linked g (fst ca) (snd ca)) cs"

definition announced_all :: "change_graph \<Rightarrow> (loaded_change \<times> nat) list \<Rightarrow> bool" where
  "announced_all g cs \<longleftrightarrow> length (cg_hashes g) + length cs \<le> length (cg_actors g)
     \<and> (\<forall>j < length cs. cg_actors g ! (length (cg_hashes g) + j) = snd (cs ! j)
        \<and> cg_seq g ! (length (cg_hashes g) + j) = ucast (lc_seq (fst (cs ! j))))"

lemma announced_all_Cons:
  "announced_all g (ca # cs) \<Longrightarrow> announced g (fst ca) (snd ca) \<and> announced_all (linked g (fst ca) (snd ca)) cs"
  unfolding announced_all_def announced_def by (auto simp: All_less_Suc2)

lemma linked_all_cache [simp]:
  "linked_all (g\<lparr>cg_clock_cache := cc\<rparr>) cs = (linked_all g cs)\<lparr>cg_clock_cache := cc\<rparr>"
  by (induction cs arbitrary: g) simp_all

lemma addable_all_cache [simp]: "addable_all (g\<lparr>cg_clock_cache := cc\<rparr>) cs = addable_all g cs"
  by (induction cs arbitrary: g) simp_all

lemma announced_all_cache [simp]: "announced_all (g\<lparr>cg_clock_cache := cc\<rparr>) = announced_all g"
  by (simp add: fun_eq_iff announced_all_def)

lemma hashes_linked_all: "cg_hashes (linked_all g cs) = cg_hashes g @ map (lc_hash \<circ> fst) cs"
  by (induction cs arbitrary: g) simp_all

lemma loop_inv:
  assumes "graph_inv g N" and "addable_all g cs" and "announced_all g cs"
    and "node + i = length (cg_hashes g)"
  shows "\<exists>cc. add_changes_loop node i cs g = Some ((linked_all g cs)\<lparr>cg_clock_cache := cc\<rparr>)
    \<and> graph_inv ((linked_all g cs)\<lparr>cg_clock_cache := cc\<rparr>) N"
  using assms
proof (induction cs arbitrary: g i)
  case Nil
  then show ?case by (intro exI [of _ "cg_clock_cache g"]) simp
next
  case (Cons ca cs)
  let ?l = "linked g (fst ca) (snd ca)"
  have an: "announced g (fst ca) (snd ca)" "announced_all ?l cs"
    using announced_all_Cons [OF Cons.prems(3)] by blast+
  have core: "core_inv g N" using Cons.prems(1) by (simp add: graph_inv_def)
  have "node + i < 2 ^ 32" using an(1) Cons.prems(4) core_lengths(1) [OF core] core_N [OF core] by (simp add: announced_def)
  then have n: "node_add node i = length (cg_hashes g)"
    using Cons.prems(4) by (simp add: node_add_def cast_u32_def)
  obtain cc where s: "add_changes_step g (length (cg_hashes g)) (fst ca) (snd ca) = Some (?l\<lparr>cg_clock_cache := cc\<rparr>)"
    and inv: "graph_inv (?l\<lparr>cg_clock_cache := cc\<rparr>) N"
    using step_inv [OF Cons.prems(1) _ an(1)] Cons.prems(2) by auto
  have "\<exists>cc'. add_changes_loop node (i + 1) cs (?l\<lparr>cg_clock_cache := cc\<rparr>)
      = Some ((linked_all (?l\<lparr>cg_clock_cache := cc\<rparr>) cs)\<lparr>cg_clock_cache := cc'\<rparr>)
    \<and> graph_inv ((linked_all (?l\<lparr>cg_clock_cache := cc\<rparr>) cs)\<lparr>cg_clock_cache := cc'\<rparr>) N"
    by (rule Cons.IH [OF inv]) (use Cons.prems(2,4) an(2) in simp_all)
  then show ?case by (simp add: n s)
qed

subsection \<open>The metadata in advance\<close>

lemma add_nodes_sel:
  assumes "add_nodes g cs = Some g'"
  shows "cg_hashes g' = cg_hashes g" "cg_nodes_by_hash g' = cg_nodes_by_hash g" "cg_heads g' = cg_heads g"
    "cg_seq_index g' = cg_seq_index g" "cg_clock_cache g' = cg_clock_cache g" "cg_edges g' = cg_edges g"
    "cg_actors g' = cg_actors g @ map (\<lambda>(_, a). cast_u32 a) cs"
    "cg_seq g' = cg_seq g @ map (\<lambda>(c, _). ucast (lc_seq c)) cs"
    "cg_max_ops g' = cg_max_ops g @ map (\<lambda>(c, _). ucast (lc_max_op c)) cs"
    "cg_num_ops g' = cg_num_ops g @ map (\<lambda>(c, _). word_of_nat (lc_len c)) cs"
    "cg_parents g' = cg_parents g @ replicate (length cs) None"
  using assms by (auto simp: add_nodes_def)

lemma add_nodes_inv:
  assumes wf: "graph_wf g" and an: "add_nodes g cs = Some g'" and sz: "length (cg_hashes g) + length cs < 2 ^ 32"
  shows "graph_inv g' (length (cg_hashes g) + length cs)"
proof -
  let ?n = "length (cg_hashes g)"
  note sel = add_nodes_sel [OF an]
  have core: "core_inv g ?n" and heads: "heads_ok g" and cache: "cache_ok g"
    using wf by (simp_all add: graph_wf_def)
  note lens = core_lengths [OF core]
  have par: "parents_of g' n = parents_of g n" if "n < ?n" for n
    using that lens by (simp add: parents_of_def vec_at_def sel nth_append)
  then have pl: "parent_list g' n = parent_list g n" if "n < ?n" for n
    using that by (simp add: parent_list_def)
  have "core_inv g' (?n + length cs)"
    unfolding core_inv_def
  proof (intro conjI)
    show "\<forall>n < length (cg_hashes g'). \<exists>ps. parents_of g' n = Some ps \<and> (\<forall>p \<in> set ps. p < n)"
      using core_parents [OF core] by (simp add: sel par)
    show "\<forall>h n. cg_nodes_by_hash g' h = Some n \<longleftrightarrow> n < length (cg_hashes g') \<and> cg_hashes g' ! n = h"
      using core_nodes [OF core] by (simp add: sel)
    show "\<forall>n. length (cg_hashes g') \<le> n \<longrightarrow> n < ?n + length cs \<longrightarrow> cg_parents g' ! n = None"
      using lens by (simp add: sel nth_append)
    show "\<forall>n < length (cg_hashes g'). cg_actors g' ! n < length (cg_seq_index g')"
      using core_actor [OF core] lens by (simp add: sel nth_append)
    show "\<forall>a < length (cg_seq_index g'). cg_seq_index g' ! a = filter (\<lambda>n. cg_actors g' ! n = a) [0 ..< length (cg_hashes g')]"
      using core_index [OF core] lens by (auto simp: sel nth_append intro!: filter_cong)
    show "\<forall>a < length (cg_seq_index g'). \<forall>k < length (cg_seq_index g' ! a).
        unat (cg_seq g' ! (cg_seq_index g' ! a ! k)) = Suc k"
    proof (intro allI impI)
      fix a k assume a: "a < length (cg_seq_index g')" and k: "k < length (cg_seq_index g' ! a)"
      then have "cg_seq_index g ! a ! k \<in> set (cg_seq_index g ! a)" by (simp add: sel)
      then have "cg_seq_index g ! a ! k < ?n" using core_index [OF core] a by (auto simp: sel)
      then show "unat (cg_seq g' ! (cg_seq_index g' ! a ! k)) = Suc k"
        using core_seq [OF core] a k lens by (simp add: sel nth_append)
    qed
  qed (use lens sz core_actors_len [OF core] in \<open>simp_all add: sel\<close>)
  moreover have "heads_ok g'" using heads pl by (auto simp: heads_ok_def sel)
  moreover have "cache_ok g'"
  proof -
    have "represents g' c (anc g' {n})" if "(n, c) \<in> set (cg_clock_cache g)" for n c
    proof -
      have n: "n < ?n" and r: "represents g c (anc g {n})" using cache that by (auto simp: cache_ok_def)
      have "ancestor g' m n \<longleftrightarrow> ancestor g m n" for m
        by (rule ancestor_extend [OF core]) (use pl n in \<open>simp_all add: sel\<close>)
      then have a: "anc g' {n} = anc g {n}" by (simp add: anc_def)
      have "{m \<in> anc g {n}. cg_actors g' ! m = b} = {m \<in> anc g {n}. cg_actors g ! m = b}" for b
        using anc_bounded [OF core, of "{n}"] lens by (auto simp: sel nth_append)
      moreover have "(\<lambda>m. Some (cg_seq g' ! m)) ` {m \<in> anc g {n}. cg_actors g ! m = b}
          = (\<lambda>m. Some (cg_seq g ! m)) ` {m \<in> anc g {n}. cg_actors g ! m = b}" for b
        using anc_bounded [OF core, of "{n}"] lens by (intro image_cong) (auto simp: sel nth_append)
      ultimately show ?thesis
        using r by (simp add: represents_def a clock_at_def num_actors_def sel)
    qed
    then show ?thesis using cache by (auto simp: cache_ok_def sel)
  qed
  ultimately show ?thesis by (simp add: graph_inv_def)
qed

text \<open>Adding a list of changes that can be added one after the other.\<close>

lemma add_changes_inv:
  assumes wf: "graph_wf g" and sz: "length (cg_hashes g) + length cs < 2 ^ 32"
    and ex: "\<forall>(c, a) \<in> set cs. lc_extra_bytes c \<noteq> None \<and> a < length (cg_seq_index g)"
    and ad: "\<And>g'. add_nodes g cs = Some g' \<Longrightarrow> addable_all g' cs"
  shows "\<exists>g0 cc. add_nodes g cs = Some g0
    \<and> add_changes g cs = Some (Inr ((linked_all g0 cs)\<lparr>cg_clock_cache := cc\<rparr>))
    \<and> graph_wf ((linked_all g0 cs)\<lparr>cg_clock_cache := cc\<rparr>)"
proof -
  have core: "core_inv g (length (cg_hashes g))" using wf by (simp add: graph_wf_def)
  have "those (map (\<lambda>(c, _). lc_extra_bytes c) cs) = Some (map (\<lambda>(c, _). the (lc_extra_bytes c)) cs)"
    using ex by (induction cs) auto
  then obtain g0 where g0: "add_nodes g cs = Some g0" by (simp add: add_nodes_def)
  note sel = add_nodes_sel [OF g0]
  have inv: "graph_inv g0 (length (cg_hashes g) + length cs)" by (rule add_nodes_inv [OF wf g0 sz])
  have "cast_u32 (snd (cs ! j)) = snd (cs ! j)" if "j < length cs" for j
    using ex that core_actors_len [OF core] by (force simp: cast_u32_def dest: nth_mem)
  then have "announced_all g0 cs"
    using core_lengths [OF core] by (simp add: announced_all_def sel nth_append split_beta)
  then obtain cc where l: "add_changes_loop (length (cg_hashes g)) 0 cs g0 = Some ((linked_all g0 cs)\<lparr>cg_clock_cache := cc\<rparr>)"
    and i: "graph_inv ((linked_all g0 cs)\<lparr>cg_clock_cache := cc\<rparr>) (length (cg_hashes g) + length cs)"
    using loop_inv [OF inv ad [OF g0], of "length (cg_hashes g)" 0] by (auto simp: sel)
  have "cast_u32 (length (cg_hashes g)) = length (cg_hashes g)" using sz by (simp add: cast_u32_def)
  then have "add_changes g cs = Some (Inr ((linked_all g0 cs)\<lparr>cg_clock_cache := cc\<rparr>))"
    using g0 l by (simp add: add_changes_def)
  moreover have "graph_wf ((linked_all g0 cs)\<lparr>cg_clock_cache := cc\<rparr>)"
    using i by (simp add: graph_wf_inv hashes_linked_all sel)
  ultimately show ?thesis using g0 by blast
qed

end
