(* ===== verification/Graph_Props.thy ===== *)
theory Graph_Props
  imports Graph_Add
begin

text \<open>
  What the change graph promises: adding changes, heads, clocks, the changes a peer is missing, the
  removal of ancestors, and the change that an operation belongs to.
\<close>

subsection \<open>Adding one change\<close>

lemma addable_add_nodes: "add_nodes g cs = Some g' \<Longrightarrow> addable g' = addable g"
  by (simp add: fun_eq_iff addable_def add_nodes_sel)

lemma deps_of_node:
  assumes "core_inv g N" and "n < length (cg_hashes g)"
  shows "graph_deps g (cg_hashes g ! n) = Some (map ((!) (cg_hashes g)) (parent_list g n))"
proof -
  have "cg_nodes_by_hash g (cg_hashes g ! n) = Some n" using core_nodes [OF assms(1)] assms(2) by simp
  moreover have "takeWhile (\<lambda>p. p < length (cg_hashes g)) (parent_list g n) = parent_list g n"
    using parent_less [OF assms] assms(2) unfolding takeWhile_eq_all_conv by (auto intro: less_trans)
  ultimately show ?thesis by (simp add: graph_deps_def parents_of_list [OF assms] del: takeWhile_eq_all_conv)
qed

lemma linked_deps:
  assumes inv: "core_inv g N" and ad: "addable g c a" and an: "announced g c a"
  shows "graph_deps (linked g c a) (lc_hash c) = Some (lc_deps c)"
    and "n < length (cg_hashes g) \<Longrightarrow> graph_deps (linked g c a) (cg_hashes g ! n) = graph_deps g (cg_hashes g ! n)"
proof -
  note core = core_linked [OF inv ad an]
  let ?n = "length (cg_hashes g)"
  have "map ((!) (cg_hashes (linked g c a))) (map (the \<circ> cg_nodes_by_hash g) (lc_deps c)) = lc_deps c"
    unfolding map_map by (rule map_idI) (use dep_node [OF inv ad] in \<open>fastforce simp: nth_append\<close>)
  then show "graph_deps (linked g c a) (lc_hash c) = Some (lc_deps c)"
    using deps_of_node [OF core, of ?n] linked_parent_list(2) [OF inv an] by simp
  assume n: "n < ?n"
  have "map ((!) (cg_hashes (linked g c a))) (parent_list g n) = map ((!) (cg_hashes g)) (parent_list g n)"
    using parent_less [OF inv n] n by (intro map_cong) (fastforce simp: nth_append)+
  then show "graph_deps (linked g c a) (cg_hashes g ! n) = graph_deps g (cg_hashes g ! n)"
    using deps_of_node [OF core, of n] deps_of_node [OF inv n] linked_parent_list(1) [OF inv an n] n
    by (simp add: nth_append)
qed

lemma graph_deps_cache: "graph_deps (h\<lparr>cg_clock_cache := cc\<rparr>) = graph_deps h"
  by (simp add: fun_eq_iff graph_deps_def split: option.split)

lemma meta_linked_all:
  "cg_actors (linked_all g cs) = cg_actors g" "cg_max_ops (linked_all g cs) = cg_max_ops g"
  "cg_num_ops (linked_all g cs) = cg_num_ops g"
  by (induction cs arbitrary: g) simp_all

lemma num_actors_linked_all: "length (cg_seq_index (linked_all g cs)) = length (cg_seq_index g)"
  by (induction cs arbitrary: g) simp_all

lemma add_change_ok:
  assumes "graph_wf g" and "addable g c a" and "length (cg_hashes g) + 1 < 2 ^ 32"
    and "lc_extra_bytes c \<noteq> None"
  shows "\<exists>g'. add_change g c a = Some (Inr g') \<and> graph_wf g' \<and> cg_hashes g' = cg_hashes g @ [lc_hash c]
    \<and> graph_deps g' (lc_hash c) = Some (lc_deps c)
    \<and> (\<forall>h \<in> set (cg_hashes g). graph_deps g' h = graph_deps g h)
    \<and> cg_heads g' = insert (lc_hash c) (cg_heads g - set (lc_deps c))
    \<and> cg_seq_index g' = (cg_seq_index g)[a := cg_seq_index g ! a @ [length (cg_hashes g)]]
    \<and> cg_actors g' = cg_actors g @ [a] \<and> cg_seq g' = cg_seq g @ [ucast (lc_seq c)]
    \<and> length (cg_edges g') = length (cg_edges g) + length (lc_deps c)"
proof -
  have core: "core_inv g (length (cg_hashes g))" using assms(1) by (simp add: graph_wf_def)
  have "\<exists>g0 cc. add_nodes g [(c, a)] = Some g0
    \<and> add_changes g [(c, a)] = Some (Inr ((linked_all g0 [(c, a)])\<lparr>cg_clock_cache := cc\<rparr>))
    \<and> graph_wf ((linked_all g0 [(c, a)])\<lparr>cg_clock_cache := cc\<rparr>)"
    by (rule add_changes_inv [OF assms(1)]) (use assms in \<open>auto simp: addable_add_nodes addable_def\<close>)
  then obtain g0 cc where g0: "add_nodes g [(c, a)] = Some g0"
    and g': "add_changes g [(c, a)] = Some (Inr ((linked g0 c a)\<lparr>cg_clock_cache := cc\<rparr>))"
      "graph_wf ((linked g0 c a)\<lparr>cg_clock_cache := cc\<rparr>)"
    by auto
  note sel = add_nodes_sel [OF g0]
  have inv0: "core_inv g0 (length (cg_hashes g) + 1)"
    using add_nodes_inv [OF assms(1) g0] assms(3) by (simp add: graph_inv_def)
  have ad0: "addable g0 c a" using assms(2) by (simp add: addable_add_nodes [OF g0])
  have "cast_u32 a = a" using assms(2) core_actors_len [OF core] by (simp add: addable_def cast_u32_def)
  note a32 = this
  then have an0: "announced g0 c a"
    using core_lengths [OF core] by (simp add: announced_def sel nth_append)
  have "find (\<lambda>h. cg_nodes_by_hash g h = None) (lc_deps c) = None"
    using assms(2) by (auto simp: find_None_iff addable_def)
  then have add: "add_change g c a = add_changes g [(c, a)]"
    using assms(2) by (simp add: add_change_def addable_def)
  have old: "graph_deps g0 (cg_hashes g ! n) = graph_deps g (cg_hashes g ! n)" if "n < length (cg_hashes g)" for n
  proof -
    have "parents_of g0 n = parents_of g n"
      using that core_lengths [OF core] by (simp add: parents_of_def vec_at_def sel nth_append)
    then show ?thesis
      using deps_of_node [OF inv0, of n] deps_of_node [OF core that] that by (simp add: sel parent_list_def)
  qed
  show ?thesis
    using g' add linked_deps [OF inv0 ad0 an0] old
    by (intro exI [of _ "(linked g0 c a)\<lparr>cg_clock_cache := cc\<rparr>"]) (auto simp: sel graph_deps_cache in_set_conv_nth a32 sel linked_def Let_def)
qed

text \<open>C14: adding a new change whose dependencies are known and whose sequence number is the next of its
  actor does not panic, keeps the graph well formed, appends its hash, lists exactly its dependencies
  in their order, leaves the dependencies of every other change as they were, and replaces those
  dependencies among the heads by the new change.\<close>

theorem add_change_keeps_graph:
  assumes "graph_wf g" and "addable g c a" and "length (cg_hashes g) + 1 < 2 ^ 32"
    and "lc_extra_bytes c \<noteq> None"
  shows "\<exists>g'. add_change g c a = Some (Inr g') \<and> graph_wf g' \<and> cg_hashes g' = cg_hashes g @ [lc_hash c]
    \<and> graph_deps g' (lc_hash c) = Some (lc_deps c)
    \<and> (\<forall>h \<in> set (cg_hashes g). graph_deps g' h = graph_deps g h)
    \<and> cg_heads g' = insert (lc_hash c) (cg_heads g - set (lc_deps c))"
  using add_change_ok [OF assms] by blast


subsection \<open>A whole history\<close>

lemma addable_all_history:
  assumes "missing_in_order seen cs = None" and "\<forall>h. h \<in> set seen \<longleftrightarrow> cg_nodes_by_hash g h \<noteq> None"
    and "distinct (map (lc_hash \<circ> fst) cs)" and "set seen \<inter> (lc_hash \<circ> fst) ` set cs = {}"
    and "\<forall>i < length cs. snd (cs ! i) < length (cg_seq_index g) \<and> unat (lc_seq (fst (cs ! i)))
      = Suc (length (cg_seq_index g ! snd (cs ! i)) + length (filter (\<lambda>ca. snd ca = snd (cs ! i)) (take i cs)))"
    and "length (cg_edges g) + (\<Sum>ca\<leftarrow>cs. length (lc_deps (fst ca))) < 2 ^ 32"
  shows "addable_all g cs"
  using assms
proof (induction cs arbitrary: seen g)
  case (Cons ca cs)
  let ?g = "linked g (fst ca) (snd ca)"
  have f: "find (\<lambda>h. h \<notin> set seen) (lc_deps (fst ca)) = None"
    and m: "missing_in_order (lc_hash (fst ca) # seen) cs = None"
    using Cons.prems(1) by (auto split: option.splits)
  have a: "snd ca < length (cg_seq_index g)" and s: "unat (lc_seq (fst ca)) = Suc (length (cg_seq_index g ! snd ca))"
    using Cons.prems(5) [rule_format, of 0] by simp_all
  have ad: "addable g (fst ca) (snd ca)"
    using f Cons.prems(2,4,6) a s by (auto simp: addable_def find_None_iff)
  have "addable_all ?g cs"
  proof (rule Cons.IH [OF m])
    show "\<forall>h. h \<in> set (lc_hash (fst ca) # seen) \<longleftrightarrow> cg_nodes_by_hash ?g h \<noteq> None"
      using Cons.prems(2) by simp
    show "distinct (map (lc_hash \<circ> fst) cs)" using Cons.prems(3) by (simp add: comp_def)
    show "set (lc_hash (fst ca) # seen) \<inter> (lc_hash \<circ> fst) ` set cs = {}"
      using Cons.prems(3,4) by auto
    show "\<forall>i < length cs. snd (cs ! i) < length (cg_seq_index ?g) \<and> unat (lc_seq (fst (cs ! i)))
      = Suc (length (cg_seq_index ?g ! snd (cs ! i)) + length (filter (\<lambda>ca. snd ca = snd (cs ! i)) (take i cs)))"
    proof (intro allI impI)
      fix i assume "i < length cs"
      then show "snd (cs ! i) < length (cg_seq_index ?g) \<and> unat (lc_seq (fst (cs ! i)))
        = Suc (length (cg_seq_index ?g ! snd (cs ! i)) + length (filter (\<lambda>ca. snd ca = snd (cs ! i)) (take i cs)))"
        using Cons.prems(5) [rule_format, of "Suc i"] a by (simp add: nth_list_update)
    qed
    show "length (cg_edges ?g) + (\<Sum>ca\<leftarrow>cs. length (lc_deps (fst ca))) < 2 ^ 32"
      using Cons.prems(6) by simp
  qed
  with ad show ?case by simp
qed simp

lemma linked_all_deps:
  assumes "core_inv g N" and "addable_all g cs" and "announced_all g cs"
  shows "(\<forall>i < length cs. graph_deps (linked_all g cs) (lc_hash (fst (cs ! i))) = Some (lc_deps (fst (cs ! i))))
    \<and> (\<forall>n < length (cg_hashes g). graph_deps (linked_all g cs) (cg_hashes g ! n) = graph_deps g (cg_hashes g ! n))"
  using assms
proof (induction cs arbitrary: g)
  case (Cons ca cs)
  let ?g = "linked g (fst ca) (snd ca)"
  have an: "announced g (fst ca) (snd ca)" "announced_all ?g cs" using announced_all_Cons [OF Cons.prems(3)] by blast+
  have ad: "addable g (fst ca) (snd ca)" using Cons.prems(2) by simp
  note core = core_linked [OF Cons.prems(1) ad an(1)]
  have IH: "\<forall>i < length cs. graph_deps (linked_all ?g cs) (lc_hash (fst (cs ! i))) = Some (lc_deps (fst (cs ! i)))"
    "\<forall>n < Suc (length (cg_hashes g)). graph_deps (linked_all ?g cs) (cg_hashes ?g ! n) = graph_deps ?g (cg_hashes ?g ! n)"
    using Cons.IH [OF core _ an(2)] Cons.prems(2) by simp_all
  have "graph_deps (linked_all ?g cs) (lc_hash (fst ca)) = Some (lc_deps (fst ca))"
    using IH(2) [rule_format, of "length (cg_hashes g)"] linked_deps(1) [OF Cons.prems(1) ad an(1)] by simp
  moreover have "graph_deps (linked_all ?g cs) (cg_hashes g ! n) = graph_deps g (cg_hashes g ! n)"
    if "n < length (cg_hashes g)" for n
    using IH(2) [rule_format, of n] linked_deps(2) [OF Cons.prems(1) ad an(1) that] that by (simp add: nth_append)
  ultimately show ?case using IH(1) by (simp add: All_less_Suc2)
qed simp

text \<open>
  The histories of which a graph can be built: no two changes have the same hash, every actor is in
  the table and numbers its changes from 1, and everything can be counted in 32 bits.
\<close>

definition history_ok :: "(loaded_change \<times> nat) list \<Rightarrow> nat \<Rightarrow> bool" where
  "history_ok cs actors \<longleftrightarrow> distinct (map (lc_hash \<circ> fst) cs)
     \<and> (\<forall>i < length cs. snd (cs ! i) < actors \<and> unat (lc_seq (fst (cs ! i)))
          = Suc (length (filter (\<lambda>ca. snd ca = snd (cs ! i)) (take i cs))))
     \<and> (\<forall>ca \<in> set cs. lc_extra_bytes (fst ca) \<noteq> None)
     \<and> length cs < 2 ^ 32 \<and> (\<Sum>ca\<leftarrow>cs. length (lc_deps (fst ca))) < 2 ^ 32 \<and> actors \<le> 2 ^ 32"

lemma history_graph:
  assumes "history_ok cs n"
  shows "case missing_in_order [] cs of
      Some h \<Rightarrow> graph_from_iter cs k n = Some (Inl (MissingDepOf h))
    | None \<Rightarrow> \<exists>g. graph_from_iter cs k n = Some (Inr g) \<and> graph_wf g \<and> num_actors g = n
        \<and> cg_hashes g = map (lc_hash \<circ> fst) cs
        \<and> (\<forall>ca \<in> set cs. graph_deps g (lc_hash (fst ca)) = Some (lc_deps (fst ca)))
        \<and> cg_actors g = map snd cs \<and> cg_max_ops g = map (\<lambda>ca. ucast (lc_max_op (fst ca))) cs
        \<and> cg_num_ops g = map (\<lambda>ca. word_of_nat (lc_len (fst ca))) cs"
proof (cases "missing_in_order [] cs")
  case (Some h)
  then show ?thesis by (simp add: graph_from_iter_def)
next
  case None
  let ?g = "graph_new n"
  have n: "n \<le> 2 ^ 32" using assms by (simp add: history_ok_def)
  have empty: "cg_hashes ?g = []" "cg_edges ?g = []" "cg_nodes_by_hash ?g = Map.empty" "cg_seq_index ?g = replicate n []"
    "cg_actors ?g = []" "cg_max_ops ?g = []" "cg_num_ops ?g = []"
    by (simp_all add: graph_new_def)
  have ad: "addable_all g' cs" if g': "add_nodes ?g cs = Some g'" for g'
    by (rule addable_all_history [OF None])
      (use assms in \<open>auto simp: history_ok_def add_nodes_sel [OF g'] empty\<close>)
  have "\<forall>ca \<in> set cs. snd ca < n" using assms by (metis history_ok_def in_set_conv_nth)
  then have act: "\<forall>(c, a) \<in> set cs. lc_extra_bytes c \<noteq> None \<and> a < length (cg_seq_index ?g)"
    using assms by (auto simp: history_ok_def empty)
  have "\<exists>g0 cc. add_nodes ?g cs = Some g0
    \<and> add_changes ?g cs = Some (Inr ((linked_all g0 cs)\<lparr>cg_clock_cache := cc\<rparr>))
    \<and> graph_wf ((linked_all g0 cs)\<lparr>cg_clock_cache := cc\<rparr>)"
    by (rule add_changes_inv [OF graph_wf_new [OF n] _ act ad])
      (use assms in \<open>simp_all add: history_ok_def empty\<close>)
  then obtain g0 cc where g0: "add_nodes ?g cs = Some g0"
    and g: "add_changes ?g cs = Some (Inr ((linked_all g0 cs)\<lparr>cg_clock_cache := cc\<rparr>))"
      "graph_wf ((linked_all g0 cs)\<lparr>cg_clock_cache := cc\<rparr>)"
    by blast
  note sel = add_nodes_sel [OF g0]
  have inv0: "core_inv g0 (length cs)"
    using add_nodes_inv [OF graph_wf_new [OF n] g0] assms by (simp add: graph_inv_def history_ok_def empty)
  have "cast_u32 (snd (cs ! j)) = snd (cs ! j)" if "j < length cs" for j
    using assms that by (force simp: history_ok_def cast_u32_def)
  then have an0: "announced_all g0 cs"
    by (simp add: announced_all_def sel graph_new_def split_beta)
  have act0: "\<forall>ca \<in> set cs. cast_u32 (snd ca) = snd ca"
    using \<open>\<forall>ca \<in> set cs. snd ca < n\<close> n by (auto simp: cast_u32_def)
  have "graph_deps ((linked_all g0 cs)\<lparr>cg_clock_cache := cc\<rparr>) (lc_hash (fst ca)) = Some (lc_deps (fst ca))"
    if "ca \<in> set cs" for ca
    using linked_all_deps [OF inv0 ad [OF g0] an0] that by (auto simp: in_set_conv_nth graph_deps_cache)
  then show ?thesis
    using g None
    by (simp add: graph_from_iter_def graph_with_capacity_def hashes_linked_all num_actors_linked_all meta_linked_all sel empty num_actors_def
      act0 split_beta)
qed



text \<open>A small history: one change, and two concurrent ones after it.\<close>

definition example_hash :: "u8 \<Rightarrow> change_hash" where
  "example_hash h = ChangeHash (replicate 32 h)"

definition example_change :: "u8 \<Rightarrow> u8 list \<Rightarrow> u64 \<Rightarrow> u64 \<Rightarrow> nat \<Rightarrow> loaded_change" where
  "example_change h deps sq start len = \<lparr>lc_stored = \<lparr>ch_bytes = [],
     ch_header = \<lparr>hd_checksum = CheckSum [h, h, h, h], hd_chunk_type = ChangeChunk, hd_data_len = 0, hd_header_size = 0,
       hd_hash = example_hash h\<rparr>, ch_dependencies = map example_hash deps, ch_actor = ActorId [1], ch_other_actors = [],
     ch_seq = sq, ch_start_op = start, ch_timestamp = 0, ch_message = None, ch_ops_meta = no_columns,
     ch_ops_data = (0, 0), ch_extra_bytes = (0, 0), ch_num_ops = len\<rparr>, lc_compression = NotCompressed, lc_len = len\<rparr>"

lemma example_change_sel [simp]:
  "lc_hash (example_change h deps sq start len) = example_hash h"
  "lc_deps (example_change h deps sq start len) = map example_hash deps"
  "lc_seq (example_change h deps sq start len) = sq"
  "lc_max_op (example_change h deps sq start len) = start + word_of_nat len - 1"
  "lc_len (example_change h deps sq start len) = len"
  "lc_extra_bytes (example_change h deps sq start len) = Some []"
  by (simp_all add: example_change_def lc_hash_def change_hash_of_def lc_deps_def lc_seq_def lc_max_op_def
      lc_extra_bytes_def change_extra_bytes_def slice_def)

lemma example_hash_eq [simp]: "example_hash a = example_hash b \<longleftrightarrow> a = b"
  by (simp add: example_hash_def)

definition example_history :: "(loaded_change \<times> nat) list" where
  "example_history = [(example_change 1 [] 1 1 2, 0), (example_change 2 [1] 1 3 1, 1), (example_change 3 [1] 2 3 2, 0)]"

lemma example_history_ok: "history_ok example_history 2" "missing_in_order [] example_history = None"
  by (simp_all add: history_ok_def example_history_def All_less_Suc2 numeral_3_eq_3)

lemma example_graph:
  "\<exists>g. graph_from_iter example_history 2 2 = Some (Inr g) \<and> graph_wf g \<and> num_actors g = 2
    \<and> cg_hashes g = map example_hash [1, 2, 3] \<and> cg_actors g = [0, 1, 0]
    \<and> cg_max_ops g = [2, 3, 4] \<and> cg_num_ops g = [2, 1, 2]
    \<and> graph_deps g (example_hash 1) = Some [] \<and> graph_deps g (example_hash 2) = Some [example_hash 1]
    \<and> graph_deps g (example_hash 3) = Some [example_hash 1]"
  using history_graph [OF example_history_ok(1), of 2] example_history_ok(2)
  by (simp add: example_history_def) blast



theorem add_change_keeps_graph_witness:
  "\<exists>g'. add_change (graph_new 2) (example_change 1 [] 1 1 2) 0 = Some (Inr g') \<and> graph_wf g'
    \<and> cg_hashes g' = [example_hash 1] \<and> graph_deps g' (example_hash 1) = Some [] \<and> cg_heads g' = {example_hash 1}"
proof -
  have "addable (graph_new 2) (example_change 1 [] 1 1 2) 0"
    by (simp add: addable_def graph_new_def)
  from add_change_keeps_graph [OF graph_wf_new this] show ?thesis
    by (simp add: graph_new_def)
qed

subsection \<open>Heads\<close>

lemma ancestor_is_parent:
  "ancestor g m n \<Longrightarrow> m \<noteq> n \<Longrightarrow> \<exists>k < length (cg_hashes g). m \<in> set (parent_list g k)"
proof (induction rule: ancestor.induct)
  case (parent n p m)
  then show ?case by (cases "m = p") auto
qed simp

lemma below_head:
  assumes "core_inv g N" and "n < length (cg_hashes g)"
  shows "\<exists>k. ancestor g n k \<and> (\<forall>m < length (cg_hashes g). k \<notin> set (parent_list g m))"
  using assms(2)
proof (induction "length (cg_hashes g) - n" arbitrary: n rule: less_induct)
  case less
  show ?case
  proof (cases "\<exists>m < length (cg_hashes g). n \<in> set (parent_list g m)")
    case True
    then obtain m where m: "m < length (cg_hashes g)" "n \<in> set (parent_list g m)" by blast
    with parent_less [OF assms(1)] have "n < m" by blast
    then obtain k where k: "ancestor g m k" "\<forall>i < length (cg_hashes g). k \<notin> set (parent_list g i)"
      using less.hyps [OF diff_less_mono2 [OF _ less.prems] m(1)] by blast
    have "ancestor g n m" using m less.prems by (auto intro: ancestor.intros)
    with k ancestor_trans show ?thesis by blast
  next
    case False
    then show ?thesis using less.prems by (auto intro: ancestor.self)
  qed
qed

definition hash_ancestor :: "change_graph \<Rightarrow> change_hash \<Rightarrow> change_hash \<Rightarrow> bool" where
  "hash_ancestor g h k \<longleftrightarrow> (\<exists>m n. cg_nodes_by_hash g h = Some m \<and> cg_nodes_by_hash g k = Some n \<and> ancestor g m n)"

text \<open>the heads of a well-formed graph are exactly its frontier: every change is an ancestor of some
  head, and no head is an ancestor of another head.\<close>

theorem heads_are_frontier:
  assumes "graph_wf g"
  shows "(\<forall>h \<in> set (cg_hashes g). \<exists>k \<in> set (graph_heads g). hash_ancestor g h k)
    \<and> (\<forall>h \<in> set (graph_heads g). \<forall>k \<in> set (graph_heads g). hash_ancestor g h k \<longrightarrow> h = k)"
proof -
  have core: "core_inv g (length (cg_hashes g))" and heads: "heads_ok g" using assms by (simp_all add: graph_wf_def)
  have "cg_heads g \<subseteq> set (cg_hashes g)" using heads by (auto simp: heads_ok_def)
  then have set: "set (graph_heads g) = cg_heads g" by (simp add: graph_heads_def finite_subset)
  have node: "cg_nodes_by_hash g (cg_hashes g ! n) = Some n" if "n < length (cg_hashes g)" for n
    using core_nodes [OF core] that by simp
  have "\<exists>k \<in> cg_heads g. hash_ancestor g h k" if h: "h \<in> set (cg_hashes g)" for h
  proof -
    obtain n where n: "n < length (cg_hashes g)" "cg_hashes g ! n = h" using h by (auto simp: in_set_conv_nth)
    then obtain k where k: "ancestor g n k" "\<forall>m < length (cg_hashes g). k \<notin> set (parent_list g m)"
      using below_head [OF core] by blast
    then have "k < length (cg_hashes g)" using ancestor_le [OF core] by blast
    with k n node have "cg_hashes g ! k \<in> cg_heads g" "hash_ancestor g h (cg_hashes g ! k)"
      using heads by (auto simp: heads_ok_def hash_ancestor_def)
    then show ?thesis by blast
  qed
  moreover have "h = k" if h: "h \<in> cg_heads g" and hk: "hash_ancestor g h k" for h k
  proof -
    obtain m n where mn: "cg_nodes_by_hash g h = Some m" "cg_nodes_by_hash g k = Some n" "ancestor g m n"
      using hk by (auto simp: hash_ancestor_def)
    obtain n' where n': "n' < length (cg_hashes g)" "h = cg_hashes g ! n'"
        "\<forall>i < length (cg_hashes g). n' \<notin> set (parent_list g i)"
      using h heads by (auto simp: heads_ok_def)
    then have "m = n'" using node [OF n'(1)] mn(1) by simp
    then have "m = n" using ancestor_is_parent [OF mn(3)] n'(3) by blast
    then show ?thesis using mn(1,2) core_nodes [OF core, of h m] core_nodes [OF core, of k m] by simp
  qed
  ultimately show ?thesis unfolding set by blast
qed

theorem heads_are_frontier_witness:
  "\<exists>g. cg_hashes g = map example_hash [1, 2, 3]
    \<and> (\<forall>h \<in> set (cg_hashes g). \<exists>k \<in> set (graph_heads g). hash_ancestor g h k)
    \<and> (\<forall>h \<in> set (graph_heads g). \<forall>k \<in> set (graph_heads g). hash_ancestor g h k \<longrightarrow> h = k)"
proof -
  obtain g where "graph_wf g" "cg_hashes g = map example_hash [1, 2, 3]" using example_graph by blast
  with heads_are_frontier [of g] show ?thesis by blast
qed

end
