(* ===== verification/Graph_Missing.thy ===== *)
theory Graph_Missing
  imports Graph_Props
begin

text \<open>
  Clocks against ancestors: the changes a peer is missing (\<open>get_hashes\<close>), the removal of ancestors
  from a set of changes, the operations that a clock covers, and the change of an operation.
\<close>

subsection \<open>Nodes of heads\<close>

definition known_nodes :: "change_graph \<Rightarrow> change_hash list \<Rightarrow> node_idx set" where
  "known_nodes g heads = anc g (set (heads_to_nodes g heads))"

lemma heads_to_nodes_bounded:
  "core_inv g N \<Longrightarrow> set (heads_to_nodes g heads) \<subseteq> {..< length (cg_hashes g)}"
  using core_nodes by (fastforce simp: heads_to_nodes_def map_filter_def)

lemma seq_clock_for_heads_represents:
  assumes "graph_wf g"
  shows "\<exists>c. seq_clock_for_heads g heads = Some c \<and> represents g c (known_nodes g heads)"
  using assms calculate_clock_represents [OF _ _ heads_to_nodes_bounded]
  by (auto simp: graph_wf_def seq_clock_for_heads_def known_nodes_def)

subsection \<open>Actors whose changes form a chain\<close>

text \<open>
  Every change depends, directly or not, on the previous change of its actor: this is how changes are
  made, and a graph does not check it.
\<close>

definition actor_chains :: "change_graph \<Rightarrow> bool" where
  "actor_chains g \<longleftrightarrow> (\<forall>a < num_actors g. \<forall>k. Suc k < length (cg_seq_index g ! a) \<longrightarrow>
     ancestor g (cg_seq_index g ! a ! k) (cg_seq_index g ! a ! Suc k))"

lemma chain_le:
  assumes "actor_chains g" and "a < num_actors g" and inv: "core_inv g N"
    and "j \<le> k" and "k < length (cg_seq_index g ! a)"
  shows "ancestor g (cg_seq_index g ! a ! j) (cg_seq_index g ! a ! k)"
  using assms(4,5)
proof (induction k rule: dec_induct)
  case base
  have "cg_seq_index g ! a ! j \<in> set (cg_seq_index g ! a)" using base by simp
  then have "cg_seq_index g ! a ! j < length (cg_hashes g)"
    using core_index [OF inv, of a] assms(2) by (simp add: num_actors_def)
  then show ?case by (rule ancestor.self)
next
  case (step k)
  then have "ancestor g (cg_seq_index g ! a ! k) (cg_seq_index g ! a ! Suc k)"
    using assms(1,2) by (simp add: actor_chains_def)
  with step show ?case by (auto intro: ancestor_trans)
qed

lemma index_entry:
  assumes "core_inv g N" and "a < num_actors g" and "k < length (cg_seq_index g ! a)"
  shows "cg_seq_index g ! a ! k < length (cg_hashes g)" "cg_actors g ! (cg_seq_index g ! a ! k) = a"
    "unat (cg_seq g ! (cg_seq_index g ! a ! k)) = Suc k"
proof -
  have a: "a < length (cg_seq_index g)" using assms(2) by (simp add: num_actors_def)
  have "cg_seq_index g ! a ! k \<in> set (cg_seq_index g ! a)" using assms(3) by simp
  then have "cg_seq_index g ! a ! k \<in> set (filter (\<lambda>n. cg_actors g ! n = a) [0 ..< length (cg_hashes g)])"
    unfolding core_index [OF assms(1) a] .
  then show "cg_seq_index g ! a ! k < length (cg_hashes g)" "cg_actors g ! (cg_seq_index g ! a ! k) = a"
    by simp_all
  show "unat (cg_seq g ! (cg_seq_index g ! a ! k)) = Suc k" by (rule core_seq [OF assms(1) a assms(3)])
qed

text \<open>The nodes of an actor below a set of heads are a prefix of the actor's nodes, and the clock is its length.\<close>

definition clock_len :: "u32 option \<Rightarrow> nat" where
  "clock_len c = (case c of Some s \<Rightarrow> unat s | None \<Rightarrow> 0)"

lemma known_prefix:
  assumes inv: "core_inv g N" and ch: "actor_chains g" and a: "a < num_actors g"
  shows "k < length (cg_seq_index g ! a) \<Longrightarrow> cg_seq_index g ! a ! k \<in> anc g S \<longleftrightarrow> k < clock_len (clock_at g (anc g S) a)"
    and "clock_len (clock_at g (anc g S) a) \<le> length (cg_seq_index g ! a)"
proof -
  let ?I = "cg_seq_index g ! a" and ?c = "clock_at g (anc g S) a"
  have fin: "finite (anc g S)" by (rule finite_anc [OF inv])
  have top: "\<exists>j < length ?I. ?I ! j \<in> anc g S \<and> unat s = Suc j" if s: "?c = Some s" for s
  proof -
    obtain n where n: "n \<in> anc g S" "cg_actors g ! n = a" "cg_seq g ! n = s"
      using clock_at_Some [OF fin s] by blast
    then have "n < length (cg_hashes g)" using anc_bounded [OF inv] by blast
    from in_seq_index [OF inv this] obtain j where j: "j < length ?I" "?I ! j = n" unfolding n(2) by blast
    have "unat s = Suc j" using index_entry(3) [OF inv a j(1)] j(2) n(3) by simp
    with j n(1) show ?thesis by blast
  qed
  show "clock_len ?c \<le> length ?I"
  proof (cases ?c)
    case (Some s)
    then obtain j where "j < length ?I" "unat s = Suc j" using top by blast
    then show ?thesis using Some by (simp add: clock_len_def)
  qed (simp add: clock_len_def)
  assume k: "k < length ?I"
  show "?I ! k \<in> anc g S \<longleftrightarrow> k < clock_len ?c"
  proof
    assume "?I ! k \<in> anc g S"
    then have le: "Some (cg_seq g ! (?I ! k)) \<le> ?c"
      by (rule clock_at_single_le [OF fin _ index_entry(2) [OF inv a k]])
    then obtain s where s: "?c = Some s" by (cases ?c) auto
    then have "unat (cg_seq g ! (?I ! k)) \<le> unat s" using le by (simp add: word_le_nat_alt)
    then show "k < clock_len ?c" using index_entry(3) [OF inv a k] s by (simp add: clock_len_def)
  next
    assume "k < clock_len ?c"
    then obtain s where s: "?c = Some s" "k < unat s" by (auto simp: clock_len_def split: option.splits)
    then obtain j where j: "j < length ?I" "?I ! j \<in> anc g S" "unat s = Suc j" using top by blast
    have "ancestor g (?I ! k) (?I ! j)" by (rule chain_le [OF ch a inv]) (use s j in simp_all)
    then show "?I ! k \<in> anc g S" using j(2) by (auto simp: anc_def intro: ancestor_trans)
  qed
qed

lemma filter_not_prefix:
  "s \<le> length xs \<Longrightarrow> (\<And>k. k < length xs \<Longrightarrow> P (xs ! k) \<longleftrightarrow> k < s) \<Longrightarrow> filter (\<lambda>x. \<not> P x) xs = drop s xs"
proof -
  assume s: "s \<le> length xs" and P: "\<And>k. k < length xs \<Longrightarrow> P (xs ! k) \<longleftrightarrow> k < s"
  have "filter (\<lambda>x. \<not> P x) (take s xs) = []"
    using P s by (auto simp: filter_empty_conv in_set_conv_nth)
  moreover have "filter (\<lambda>x. \<not> P x) (drop s xs) = drop s xs"
    using P s by (auto simp: filter_id_conv in_set_conv_nth)
  ultimately show ?thesis by (metis append_self_conv2 append_take_drop_id filter_append)
qed


subsection \<open>The changes a peer is missing\<close>

lemma changes_after_concat:
  assumes "\<forall>j < length rest. (case get_for_actor clock (a + j) of Some sq \<Rightarrow> slice_from (rest ! j) (unat sq) | None \<Rightarrow> Some (rest ! j))
    = Some (F (rest ! j))"
  shows "changes_after clock a rest = Some (concat (map F rest))"
  using assms
proof (induction rest arbitrary: a)
  case (Cons ns rest)
  have "changes_after clock (a + 1) rest = Some (concat (map F rest))"
  proof (rule Cons.IH, intro allI impI)
    fix j assume "j < length rest"
    then show "(case get_for_actor clock (a + 1 + j) of Some sq \<Rightarrow> slice_from (rest ! j) (unat sq) | None \<Rightarrow> Some (rest ! j))
      = Some (F (rest ! j))"
      using Cons.prems [rule_format, of "Suc j"] by (simp cong: option.case_cong)
  qed
  moreover have "(case get_for_actor clock a of Some sq \<Rightarrow> slice_from ns (unat sq) | None \<Rightarrow> Some ns) = Some (F ns)"
    using Cons.prems [rule_format, of 0] by (simp cong: option.case_cong)
  ultimately show ?case by simp
qed simp

lemma index_partition:
  assumes inv: "core_inv g N"
  shows "sort (concat (map (filter P) (cg_seq_index g))) = filter P [0 ..< length (cg_hashes g)]"
proof (rule sorted_distinct_set_unique)
  let ?I = "cg_seq_index g" and ?n = "length (cg_hashes g)"
  have idx: "i < length ?I \<Longrightarrow> ?I ! i = filter (\<lambda>n. cg_actors g ! n = i) [0 ..< ?n]" for i
    by (rule core_index [OF inv])
  have "distinct (concat (map (filter P) xs)) \<longleftrightarrow> True"
    if "\<forall>i < length xs. distinct (xs ! i)" "\<forall>i < length xs. \<forall>j < i. set (xs ! i) \<inter> set (xs ! j) = {}" for xs :: "nat list list"
    using that
  proof (induction xs rule: rev_induct)
    case (snoc x xs)
    have "distinct (concat (map (filter P) xs))"
      using snoc.IH snoc.prems by (auto simp: nth_append less_Suc_eq)
    moreover have "distinct x" using snoc.prems(1) [rule_format, of "length xs"] by simp
    moreover have "set y \<inter> set x = {}" if "y \<in> set xs" for y
      using snoc.prems(2) [rule_format, of "length xs"] that by (force simp: in_set_conv_nth nth_append)
    ultimately show ?case by (auto simp: disjoint_iff)
  qed simp
  moreover have "\<forall>i < length ?I. distinct (?I ! i)" using idx by simp
  moreover have "\<forall>i < length ?I. \<forall>j < i. set (?I ! i) \<inter> set (?I ! j) = {}" using idx by auto
  ultimately show "distinct (sort (concat (map (filter P) ?I)))" by simp
  have "n \<in> (\<Union>ns \<in> set ?I. set (filter P ns)) \<longleftrightarrow> n < ?n \<and> P n" for n
  proof
    assume "n \<in> (\<Union>ns \<in> set ?I. set (filter P ns))"
    then show "n < ?n \<and> P n" using idx by (force simp: in_set_conv_nth [of _ ?I])
  next
    assume n: "n < ?n \<and> P n"
    then have "n \<in> set (?I ! (cg_actors g ! n))" using idx core_actor [OF inv, of n] by simp
    then show "n \<in> (\<Union>ns \<in> set ?I. set (filter P ns))"
      using n core_actor [OF inv, of n] by (auto intro!: bexI [of _ "?I ! (cg_actors g ! n)"])
  qed
  then show "set (sort (concat (map (filter P) ?I))) = set (filter P [0 ..< ?n])"
    by auto
qed (simp_all add: sorted_wrt_filter)

lemma get_hashes_eq:
  assumes wf: "graph_wf g" and ch: "actor_chains g"
  shows "get_hashes g have_deps
    = Some (map ((!) (cg_hashes g)) (filter (\<lambda>n. n \<notin> known_nodes g have_deps) [0 ..< length (cg_hashes g)]))"
proof -
  have inv: "core_inv g (length (cg_hashes g))" using wf by (simp add: graph_wf_def)
  let ?K = "known_nodes g have_deps"
  obtain c where c: "seq_clock_for_heads g have_deps = Some c" and r: "represents g c ?K"
    using seq_clock_for_heads_represents [OF wf] by blast
  have "(case get_for_actor c (0 + j) of Some sq \<Rightarrow> slice_from (cg_seq_index g ! j) (unat sq) | None \<Rightarrow> Some (cg_seq_index g ! j))
    = Some (filter (\<lambda>n. n \<notin> ?K) (cg_seq_index g ! j))" if j: "j < length (cg_seq_index g)" for j
  proof -
    have a: "j < num_actors g" using j by (simp add: num_actors_def)
    have f: "filter (\<lambda>n. n \<notin> ?K) (cg_seq_index g ! j) = drop (clock_len (clock_at g ?K j)) (cg_seq_index g ! j)"
      unfolding known_nodes_def
      by (rule filter_not_prefix) (use known_prefix [OF inv ch a] in blast)+
    have "get_for_actor c j = clock_at g ?K j" using r a by (simp add: get_for_actor_def vec_at_def represents_def)
    then show ?thesis
      using f known_prefix(2) [OF inv ch a, of "set (heads_to_nodes g have_deps)", folded known_nodes_def]
      by (auto simp: clock_len_def slice_from_def split: option.split)
  qed
  then have "changes_after c 0 (cg_seq_index g) = Some (concat (map (filter (\<lambda>n. n \<notin> ?K)) (cg_seq_index g)))"
    by (intro changes_after_concat) blast
  then have "get_build_indexes g c = Some (filter (\<lambda>n. n \<notin> ?K) [0 ..< length (cg_hashes g)])"
    by (simp add: get_build_indexes_def index_partition [OF inv])
  moreover have "List.map_filter (vec_at (cg_hashes g)) ns = map ((!) (cg_hashes g)) ns"
    if "\<forall>n \<in> set ns. n < length (cg_hashes g)" for ns
    using that by (induction ns) (simp_all add: map_filter_def vec_at_def)
  ultimately show ?thesis using c by (simp add: get_hashes_def)
qed

text \<open>C11: the changes sent to a peer that has certain heads are exactly the changes that are not
  ancestors of those heads, in the order of the graph, so every change comes after its
  dependencies.\<close>

theorem get_hashes_missing:
  assumes wf: "graph_wf g" and ch: "actor_chains g"
  shows "get_hashes g have_deps
    = Some (map ((!) (cg_hashes g)) (filter (\<lambda>n. n \<notin> known_nodes g have_deps) [0 ..< length (cg_hashes g)]))"
  using assms by (rule get_hashes_eq)


subsection \<open>Removing ancestors\<close>

lemma closed_ancestor:
  assumes "\<forall>v \<in> V. set (parent_list g v) \<subseteq> V \<union> T" and "ancestor g m v" and "v \<in> V"
    and "T \<subseteq> {..< length (cg_hashes g)}"
  shows "m \<in> V \<union> anc g T"
  using assms(2,3)
proof (induction rule: ancestor.induct)
  case (parent n p m)
  show ?case
  proof (cases "p \<in> V")
    case True
    then show ?thesis using parent.IH by blast
  next
    case False
    then have "p \<in> T" using parent assms(1) by blast
    then show ?thesis using parent.hyps by (auto simp: anc_def)
  qed
qed simp

lemma traverse_removes:
  assumes inv: "core_inv g N"
    and "set T \<subseteq> {..< length (cg_hashes g)}" and "set V \<subseteq> {..< length (cg_hashes g)}"
    and "\<forall>v \<in> set V. set (parent_list g v) \<subseteq> set V \<union> set T"
    and "\<forall>v \<in> set V. cg_hashes g ! v \<notin> s"
  shows "traverse_ancestors g (\<lambda>changes idx. map_option (\<lambda>h. (changes - {h}, True)) (vec_at (cg_hashes g) idx)) V T s
    = Some (s - (!) (cg_hashes g) ` anc g (set T))"
  using assms
proof (induction g "\<lambda>changes idx. map_option (\<lambda>h. (changes - {h}, True)) (vec_at (cg_hashes g) idx)" V T s
    rule: traverse_ancestors.induct)
  case (1 g V s)
  then show ?case by simp
next
  case (2 g V idx T s)
  note inv = "2.prems"(1)
  let ?h = "(!) (cg_hashes g)"
  have idx: "idx < length (cg_hashes g)" using "2.prems"(2) by simp
  have tail: "anc g (set (idx # T)) = anc g {idx} \<union> anc g (set T)"
    by (metis anc_Un insert_is_Un list.simps(15))
  show ?case
  proof (cases "idx \<in> set V")
    case True
    have "\<forall>v \<in> set V. set (parent_list g v) \<subseteq> set V \<union> set T"
      using "2.prems"(4) True by auto
    then have "anc g {idx} \<subseteq> set V \<union> anc g (set T)"
      using closed_ancestor [of "set V" g "set T" _ idx] "2.prems" True by (auto simp: anc_def)
    then have "s - ?h ` anc g (set (idx # T)) = s - ?h ` anc g (set T)"
      unfolding tail using "2.prems"(5) by auto
    then show ?thesis using True "2.hyps"(1) [OF True] "2.prems" by (auto simp: insert_absorb)
  next
    case False
    let ?ps = "parent_list g idx"
    have v: "vec_at (cg_hashes g) idx = Some (?h idx)" using idx by (simp add: vec_at_def)
    have ps: "parents_of g idx = Some ?ps" by (rule parents_of_list [OF inv idx])
    have "traverse_ancestors g (\<lambda>changes idx. map_option (\<lambda>h. (changes - {h}, True)) (vec_at (cg_hashes g) idx))
        (idx # V) (rev ?ps @ T) (s - {?h idx}) = Some (s - {?h idx} - ?h ` anc g (set (rev ?ps @ T)))"
    proof (rule "2.hyps"(2) [OF False, of "(s - {?h idx}, True)" "s - {?h idx}" True ?ps])
      show "set (rev ?ps @ T) \<subseteq> {..< length (cg_hashes g)}"
        using parent_less [OF inv idx] idx "2.prems"(2) by (auto intro: less_trans)
    qed (use v ps idx "2.prems" in auto)
    moreover have "s - {?h idx} - ?h ` anc g (set (rev ?ps @ T)) = s - ?h ` anc g (set (idx # T))"
      unfolding tail anc_unfold [OF idx] set_append set_rev anc_Un by auto
    ultimately show ?thesis using False v ps by simp
  qed
qed

lemma remove_ancestors_eq:
  assumes "graph_wf g"
  shows "remove_ancestors g changes heads = Some (changes - (!) (cg_hashes g) ` known_nodes g heads)"
proof -
  have inv: "core_inv g (length (cg_hashes g))" using assms by (simp add: graph_wf_def)
  show ?thesis
    unfolding remove_ancestors_def
    using traverse_removes [OF inv, of "rev (heads_to_nodes g heads)" "[]" changes] heads_to_nodes_bounded [OF inv]
    by (simp add: known_nodes_def)
qed

text \<open>Removing ancestors from a set of changes removes exactly the ancestors of the given heads,
  the heads themselves included, without panic.\<close>

theorem remove_ancestors_exact:
  assumes "graph_wf g"
  shows "remove_ancestors g changes heads = Some (changes - (!) (cg_hashes g) ` known_nodes g heads)"
  using assms by (rule remove_ancestors_eq)


subsection \<open>The operations below a set of heads\<close>

text \<open>
  The operations of a change are numbered without gaps up to its last one, and after those of the
  actor's previous changes. The graph does not check this either.
\<close>

definition last_op :: "change_graph \<Rightarrow> node_idx \<Rightarrow> nat" where
  "last_op g n = unat (cg_max_ops g ! n)"

definition op_count :: "change_graph \<Rightarrow> node_idx \<Rightarrow> nat" where
  "op_count g n = unat (cg_num_ops g ! n)"

definition ops_ordered :: "change_graph \<Rightarrow> bool" where
  "ops_ordered g \<longleftrightarrow> (\<forall>a < num_actors g. \<forall>k < length (cg_seq_index g ! a).
     op_count g (cg_seq_index g ! a ! k) \<le> last_op g (cg_seq_index g ! a ! k)
     \<and> (Suc k < length (cg_seq_index g ! a) \<longrightarrow> last_op g (cg_seq_index g ! a ! k) + op_count g (cg_seq_index g ! a ! Suc k)
          \<le> last_op g (cg_seq_index g ! a ! Suc k)))"

definition owns_op :: "change_graph \<Rightarrow> node_idx \<Rightarrow> op_id \<Rightarrow> bool" where
  "owns_op g n o' \<longleftrightarrow> n < length (cg_hashes g) \<and> cg_actors g ! n = actor_idx o'
     \<and> last_op g n - op_count g n < unat (op_counter o') \<and> unat (op_counter o') \<le> last_op g n"

lemma last_op_mono:
  assumes "ops_ordered g" and "a < num_actors g" and "j \<le> k" and "k < length (cg_seq_index g ! a)"
  shows "last_op g (cg_seq_index g ! a ! j) \<le> last_op g (cg_seq_index g ! a ! k)"
  using assms(3,4)
proof (induction k rule: dec_induct)
  case (step k)
  have "last_op g (cg_seq_index g ! a ! k) + op_count g (cg_seq_index g ! a ! Suc k) \<le> last_op g (cg_seq_index g ! a ! Suc k)"
    using assms(1,2) step.prems Suc_lessD unfolding ops_ordered_def by blast
  with step show ?case by simp
qed simp

lemma last_op_less:
  assumes "ops_ordered g" and "a < num_actors g" and "j < k" and "k < length (cg_seq_index g ! a)"
  shows "last_op g (cg_seq_index g ! a ! j) + op_count g (cg_seq_index g ! a ! k) \<le> last_op g (cg_seq_index g ! a ! k)"
proof -
  obtain i where i: "k = Suc i" "j \<le> i" using assms(3) by (cases k) auto
  have "last_op g (cg_seq_index g ! a ! j) \<le> last_op g (cg_seq_index g ! a ! i)"
    by (rule last_op_mono [OF assms(1,2) i(2)]) (use i assms(4) in simp)
  moreover have "last_op g (cg_seq_index g ! a ! i) + op_count g (cg_seq_index g ! a ! Suc i) \<le> last_op g (cg_seq_index g ! a ! Suc i)"
    using assms(1,2,4) i(1) Suc_lessD unfolding ops_ordered_def by blast
  ultimately show ?thesis using i(1) by simp
qed

lemma owner_in_index:
  assumes "core_inv g N" and "owns_op g n o'"
  shows "actor_idx o' < num_actors g
    \<and> (\<exists>k < length (cg_seq_index g ! actor_idx o'). cg_seq_index g ! actor_idx o' ! k = n)"
  using in_seq_index [OF assms(1), of n] core_actor [OF assms(1), of n] assms(2)
  by (auto simp: owns_op_def num_actors_def)

lemma clock_for_heads_nth:
  assumes wf: "graph_wf g" and ch: "actor_chains g"
  shows "\<exists>c. clock_for_heads g heads = Some c \<and> length c = num_actors g
    \<and> (\<forall>a < num_actors g. let s = clock_len (clock_at g (known_nodes g heads) a) in
        unat (c ! a) = (if s = 0 then 0 else last_op g (cg_seq_index g ! a ! (s - 1))))"
proof -
  have inv: "core_inv g (length (cg_hashes g))" using wf by (simp add: graph_wf_def)
  obtain d where d: "calculate_clock g (heads_to_nodes g heads) = Some d" and r: "represents g d (known_nodes g heads)"
    using seq_clock_for_heads_represents [OF wf, of heads] by (auto simp: seq_clock_for_heads_def)
  let ?at = "\<lambda>(actor, sq). Option.bind (vec_at (cg_seq_index g) actor) (\<lambda>v.
         Option.bind sq (\<lambda>sq. Option.bind (vec_at v (unat sq - 1)) (vec_at (cg_max_ops g))))"
  let ?c = "clock_from_iter (map ?at (List.enumerate 0 d))"
  have c: "clock_for_heads g heads = Some ?c" by (simp add: clock_for_heads_def d)
  have len: "length d = num_actors g" using r by (simp add: represents_def)
  have nth: "?c ! a = (case ?at (a, d ! a) of Some v \<Rightarrow> v | None \<Rightarrow> 0)" if "a < num_actors g" for a
    using that len by (simp add: clock_from_iter_def nth_enumerate_eq)
  have "unat (?c ! a) = (if s = 0 then 0 else last_op g (cg_seq_index g ! a ! (s - 1)))"
    if a: "a < num_actors g" and s: "s = clock_len (clock_at g (known_nodes g heads) a)" for a s
  proof -
    have da: "d ! a = clock_at g (known_nodes g heads) a" using r a by (simp add: represents_def)
    have sl: "s \<le> length (cg_seq_index g ! a)"
      unfolding s known_nodes_def by (rule known_prefix(2) [OF inv ch a])
    show ?thesis
    proof (cases "clock_at g (known_nodes g heads) a")
      case None
      then show ?thesis unfolding nth [OF a] da s by (simp add: clock_len_def)
    next
      case (Some v)
      then obtain n where "n \<in> known_nodes g heads" "cg_actors g ! n = a" "cg_seq g ! n = v"
        using clock_at_Some [OF finite_anc [OF inv]] unfolding known_nodes_def by blast
      then have "v \<noteq> 0" using seq_nonzero [OF inv, of n] anc_bounded [OF inv] by (auto simp: known_nodes_def)
      then have pos: "0 < s" using Some by (simp add: s clock_len_def unat_gt_0)
      then have k: "s - 1 < length (cg_seq_index g ! a)" using sl by simp
      have "cg_seq_index g ! a ! (s - 1) < length (cg_max_ops g)"
        using index_entry(1) [OF inv a k] core_lengths(3) [OF inv] by simp
      moreover have "unat v = s" using Some by (simp add: s clock_len_def)
      ultimately show ?thesis
        unfolding nth [OF a] da Some using pos k a by (simp add: vec_at_def num_actors_def last_op_def)
    qed
  qed
  then show ?thesis using c len by (simp add: clock_from_iter_def Let_def)
qed

text \<open>C13: the clock of a set of heads covers an operation of a change exactly when the change is one of
  the heads or an ancestor of one: reading at old heads sees the operations of their history and no
  others.\<close>

theorem clock_covers_history:
  assumes wf: "graph_wf g" and ch: "actor_chains g" and ops: "ops_ordered g" and own: "owns_op g n o'"
  shows "\<exists>c. clock_for_heads g heads = Some c \<and> clock_covers c o' = Some (n \<in> known_nodes g heads)"
proof -
  have inv: "core_inv g (length (cg_hashes g))" using wf by (simp add: graph_wf_def)
  let ?a = "actor_idx o'"
  obtain k where a: "?a < num_actors g" and k: "k < length (cg_seq_index g ! ?a)" "cg_seq_index g ! ?a ! k = n"
    using owner_in_index [OF inv own] by blast
  define s where "s = clock_len (clock_at g (known_nodes g heads) ?a)"
  have s: "s \<le> length (cg_seq_index g ! ?a)"
    unfolding s_def known_nodes_def by (rule known_prefix(2) [OF inv ch a])
  obtain c where c: "clock_for_heads g heads = Some c" "length c = num_actors g"
    and cn: "unat (c ! ?a) = (if s = 0 then 0 else last_op g (cg_seq_index g ! ?a ! (s - 1)))"
    using clock_for_heads_nth [OF wf ch, of heads] a by (auto simp: Let_def s_def)
  have "n \<in> known_nodes g heads \<longleftrightarrow> k < s"
    using known_prefix(1) [OF inv ch a k(1), of "set (heads_to_nodes g heads)"] k(2) by (simp add: known_nodes_def s_def)
  moreover have "unat (op_counter o') \<le> unat (c ! ?a) \<longleftrightarrow> k < s"
  proof
    assume "k < s"
    then have "last_op g n \<le> last_op g (cg_seq_index g ! ?a ! (s - 1))"
      unfolding k(2) [symmetric] by (intro last_op_mono [OF ops a]) (use s in auto)
    then show "unat (op_counter o') \<le> unat (c ! ?a)" using own cn \<open>k < s\<close> by (simp add: owns_op_def)
  next
    assume le: "unat (op_counter o') \<le> unat (c ! ?a)"
    show "k < s"
    proof (rule ccontr)
      assume "\<not> k < s"
      then have "s = 0 \<or> s - 1 < k" by auto
      then have "unat (c ! ?a) \<le> last_op g n - op_count g n"
        using last_op_less [OF ops a _ k(1), of "s - 1"] cn k(2) by auto
      with le own show False by (simp add: owns_op_def)
    qed
  qed
  ultimately show ?thesis
    using c a by (simp add: clock_covers_def vec_at_def counter_def word_le_nat_alt)
qed


subsection \<open>The change of an operation\<close>

lemma search_node_finds:
  assumes "\<And>j. lo \<le> j \<Longrightarrow> j < k \<Longrightarrow> cmp (ns ! j) = Some (- 1)" and "cmp (ns ! k) = Some 0"
    and "\<And>j. k < j \<Longrightarrow> j < hi \<Longrightarrow> cmp (ns ! j) = Some 1" and "lo \<le> k" and "k < hi"
  shows "search_node cmp ns lo hi = Some (Some k)"
  using assms
proof (induction cmp ns lo hi rule: search_node.induct)
  case (1 cmp ns lo hi)
  define mid where "mid = lo + (hi - lo) div 2"
  have mid: "lo \<le> mid" "mid < hi" using "1.prems"(4,5) by (auto simp: mid_def)
  have lh: "lo < hi" using "1.prems" by simp
  consider "mid < k" | "mid = k" | "k < mid" by linarith
  then show ?case
  proof cases
    case 1
    have "search_node cmp ns (mid + 1) hi = Some (Some k)"
      by (rule "1.IH"(1) [OF lh mid_def, of "- 1"]) (use 1 "1.prems" mid in auto)
    then show ?thesis
      using "1.prems"(1) [OF mid(1) 1] lh by (subst search_node.simps) (simp add: mid_def [symmetric] Let_def)
  next
    case 2
    then show ?thesis
      using "1.prems"(2) lh by (subst search_node.simps) (simp add: mid_def [symmetric] Let_def)
  next
    case 3
    have "search_node cmp ns lo mid = Some (Some k)"
      by (rule "1.IH"(2) [OF lh mid_def, of 1]) (use 3 "1.prems" mid in auto)
    then show ?thesis
      using "1.prems"(3) [OF 3 mid(2)] lh by (subst search_node.simps) (simp add: mid_def [symmetric] Let_def)
  qed
qed

text \<open>The comparison in natural numbers: nothing wraps when the operations of a change do not outnumber its last counter.\<close>

lemma compare_op_eq:
  assumes inv: "core_inv g N" and n: "n < length (cg_hashes g)" and le: "op_count g n \<le> last_op g n"
  shows "compare_op g ctr n = Some (if unat ctr \<le> last_op g n - op_count g n then 1
    else if last_op g n < unat ctr then - 1 else 0)"
proof -
  let ?m = "ucast (cg_max_ops g ! n) :: u64" and ?k = "cg_num_ops g ! n"
  have l: "n < length (cg_max_ops g)" "n < length (cg_num_ops g)"
    using n core_len [OF inv] core_lengths [OF inv] by simp_all
  have m: "unat ?m = last_op g n" by (simp add: last_op_def)
  have k: "unat ?k = op_count g n" by (simp add: op_count_def)
  have d: "unat (?m - ?k) = last_op g n - op_count g n"
  proof -
    have "?k \<le> ?m" unfolding word_le_nat_alt m k by (rule le)
    then show ?thesis unfolding m [symmetric] k [symmetric] by (rule unat_sub)
  qed
  have lt: "last_op g n - op_count g n < 2 ^ 32"
    using unat_u32_less [of "cg_max_ops g ! n"] by (simp add: last_op_def)
  then have "unat (?m - ?k + 1) = last_op g n - op_count g n + 1"
    using unat_add_lem [of "?m - ?k" 1] d by simp
  then have "ctr < ?m - ?k + 1 \<longleftrightarrow> unat ctr \<le> last_op g n - op_count g n"
    by (simp add: word_less_nat_alt less_Suc_eq_le)
  moreover have "?m < ctr \<longleftrightarrow> last_op g n < unat ctr" by (simp add: word_less_nat_alt m del: unat_ucast_u32 add: unat_ucast_u32 [symmetric])
  ultimately show ?thesis by (simp add: compare_op_def vec_at_def l Let_def)
qed

text \<open>The binary search over the changes of an actor finds the change that an operation belongs to.\<close>

theorem opid_to_hash_finds:
  assumes wf: "graph_wf g" and ops: "ops_ordered g" and own: "owns_op g n o'"
  shows "opid_to_hash g o' = Some (Some (cg_hashes g ! n))"
proof -
  have inv: "core_inv g (length (cg_hashes g))" using wf by (simp add: graph_wf_def)
  let ?a = "actor_idx o'" and ?c = "unat (counter o')"
  let ?I = "cg_seq_index g ! ?a"
  obtain k where a: "?a < num_actors g" and k: "k < length ?I" "?I ! k = n"
    using owner_in_index [OF inv own] by blast
  have c: "?c = unat (op_counter o')" by (simp add: counter_def)
  have range: "last_op g n - op_count g n < ?c" "?c \<le> last_op g n" using own by (simp_all add: owns_op_def c)
  have cmp: "compare_op g (counter o') (?I ! j) = Some (if ?c \<le> last_op g (?I ! j) - op_count g (?I ! j) then 1
      else if last_op g (?I ! j) < ?c then - 1 else 0)" if "j < length ?I" for j
    by (rule compare_op_eq [OF inv index_entry(1) [OF inv a that]]) (use ops a that in \<open>auto simp: ops_ordered_def\<close>)
  have "search_node (compare_op g (counter o')) ?I 0 (length ?I) = Some (Some k)"
  proof (rule search_node_finds)
    fix j assume j: "j < k"
    then have "last_op g (?I ! j) + op_count g n \<le> last_op g n"
      using last_op_less [OF ops a j k(1)] k(2) by simp
    then have "last_op g (?I ! j) < ?c" using range by linarith
    then show "compare_op g (counter o') (?I ! j) = Some (- 1)" using cmp [of j] j k(1) by simp
  next
    show "compare_op g (counter o') (?I ! k) = Some 0" using cmp [OF k(1)] range k(2) by simp
  next
    fix j assume j: "k < j" "j < length ?I"
    then have "last_op g n + op_count g (?I ! j) \<le> last_op g (?I ! j)"
      using last_op_less [OF ops a j] k(2) by simp
    then show "compare_op g (counter o') (?I ! j) = Some 1" using cmp [OF j(2)] range by simp
  qed (use k in simp_all)
  moreover have "n < length (cg_hashes g)" using own by (simp add: owns_op_def)
  ultimately show ?thesis
    using a k by (simp add: opid_to_hash_def vec_at_def num_actors_def)
qed

subsection \<open>The example\<close>

lemma example_graph_full:
  "\<exists>g. graph_from_iter example_history 2 2 = Some (Inr g) \<and> graph_wf g \<and> actor_chains g \<and> ops_ordered g
    \<and> cg_hashes g = map example_hash [1, 2, 3] \<and> owns_op g 2 (OpId 4 0)"
proof -
  obtain g where g: "graph_from_iter example_history 2 2 = Some (Inr g)" "graph_wf g" "num_actors g = 2"
    and h: "cg_hashes g = map example_hash [1, 2, 3]" and act: "cg_actors g = [0, 1, 0]"
    and ops: "cg_max_ops g = [2, 3, 4]" "cg_num_ops g = [2, 1, 2]"
    and d: "graph_deps g (example_hash 3) = Some [example_hash 1]"
    using example_graph by blast
  have inv: "core_inv g (length (cg_hashes g))" using g(2) by (simp add: graph_wf_def)
  have len: "length (cg_hashes g) = 3" by (simp add: h)
  have up: "[0 ..< 3] = [0, 1, 2]" by (simp add: upt_rec)
  have n2: "0 < length (cg_seq_index g)" "1 < length (cg_seq_index g)" using g(3) by (simp_all add: num_actors_def)
  have I0: "cg_seq_index g ! 0 = [0, 2]" and I1: "cg_seq_index g ! 1 = [1]"
    using core_index [OF inv, of 0] core_index [OF inv, of 1] n2 by (simp_all add: len up act)
  have "map ((!) (cg_hashes g)) (parent_list g 2) = [example_hash 1]"
    using deps_of_node [OF inv, of 2] d by (simp add: h)
  then obtain p where p: "parent_list g 2 = [p]" "cg_hashes g ! p = example_hash 1" by auto
  have "p < 2" using parent_less [OF inv, of 2 p] p(1) by (simp add: len)
  then have "p = 0" using p(2) by (auto simp: h less_2_cases_iff)
  then have "ancestor g 0 2" using p(1) len by (auto intro!: ancestor.parent [of 2 g 0] ancestor.self)
  then have "actor_chains g"
    using I0 I1 g(3) by (auto simp: actor_chains_def less_2_cases_iff less_Suc_eq)
  moreover have "ops_ordered g"
    using I0 I1 g(3) ops by (auto simp: ops_ordered_def less_2_cases_iff less_Suc_eq last_op_def op_count_def)
  moreover have "owns_op g 2 (OpId 4 0)"
    by (simp add: owns_op_def len act ops last_op_def op_count_def actor_idx_def)
  ultimately show ?thesis using g h by blast
qed

theorem get_hashes_missing_witness:
  "\<exists>g. cg_hashes g = map example_hash [1, 2, 3] \<and> get_hashes g [example_hash 2]
    = Some (map ((!) (cg_hashes g)) (filter (\<lambda>n. n \<notin> known_nodes g [example_hash 2]) [0 ..< length (cg_hashes g)]))"
proof -
  obtain g where "graph_wf g" "actor_chains g" "cg_hashes g = map example_hash [1, 2, 3]"
    using example_graph_full by blast
  with get_hashes_missing [of g "[example_hash 2]"] show ?thesis by blast
qed

theorem remove_ancestors_exact_witness:
  "\<exists>g. cg_hashes g = map example_hash [1, 2, 3] \<and> remove_ancestors g {example_hash 1, example_hash 3} [example_hash 2]
    = Some ({example_hash 1, example_hash 3} - (!) (cg_hashes g) ` known_nodes g [example_hash 2])"
proof -
  obtain g where "graph_wf g" "cg_hashes g = map example_hash [1, 2, 3]" using example_graph_full by blast
  with remove_ancestors_exact [of g "{example_hash 1, example_hash 3}" "[example_hash 2]"] show ?thesis by blast
qed

theorem clock_covers_history_witness:
  "\<exists>g c. cg_hashes g = map example_hash [1, 2, 3] \<and> clock_for_heads g [example_hash 2] = Some c
    \<and> clock_covers c (OpId 4 0) = Some (2 \<in> known_nodes g [example_hash 2])"
proof -
  obtain g where "graph_wf g" "actor_chains g" "ops_ordered g" "owns_op g 2 (OpId 4 0)"
      "cg_hashes g = map example_hash [1, 2, 3]"
    using example_graph_full by blast
  with clock_covers_history [of g 2 "OpId 4 0" "[example_hash 2]"] show ?thesis by blast
qed

theorem opid_to_hash_finds_witness:
  "\<exists>g. graph_from_iter example_history 2 2 = Some (Inr g)
    \<and> opid_to_hash g (OpId 4 0) = Some (Some (example_hash 3))"
proof -
  obtain g where g: "graph_from_iter example_history 2 2 = Some (Inr g)" "graph_wf g" "ops_ordered g"
      "owns_op g 2 (OpId 4 0)" "cg_hashes g = map example_hash [1, 2, 3]"
    using example_graph_full by blast
  with opid_to_hash_finds [OF g(2,3,4)] show ?thesis by simp
qed

end
