(* ===== verification/Graph_Actors.thy ===== *)
theory Graph_Actors
  imports Graph_Missing
begin

text \<open>
  Making room for an actor in the change graph and removing it again, with the cached clocks
  renumbered alongside; and the clock cache as a refinement: it never changes an answer.
\<close>

subsection \<open>Renumbering\<close>

definition bump :: "nat \<Rightarrow> nat \<Rightarrow> nat" where
  "bump idx a = (if a \<ge> idx then a + 1 else a)"

lemma bump_eq_iff: "bump idx a = b \<longleftrightarrow> b \<noteq> idx \<and> a = (if b < idx then b else b - 1)"
  by (auto simp: bump_def)

lemma nth_vec_insert:
  assumes "i \<le> length xs" and "b < Suc (length xs)"
  shows "(take i xs @ x # drop i xs) ! b = (if b < i then xs ! b else if b = i then x else xs ! (b - 1))"
  using assms by (auto simp: nth_append min_def nth_Cons' not_less)

definition bumped :: "change_graph \<Rightarrow> nat \<Rightarrow> change_graph" where
  "bumped g idx = g\<lparr>cg_actors := map (bump idx) (cg_actors g),
     cg_clock_cache := map (\<lambda>(n, c). (n, take idx c @ None # drop idx c)) (cg_clock_cache g),
     cg_seq_index := take idx (cg_seq_index g) @ [] # drop idx (cg_seq_index g)\<rparr>"

lemma actors_bounded:
  assumes "graph_wf g" and "a \<in> set (cg_actors g)"
  shows "a < num_actors g"
proof -
  have inv: "core_inv g (length (cg_hashes g))" using assms(1) by (simp add: graph_wf_def)
  then show ?thesis
    using assms(2) core_actor [OF inv] core_lengths(1) [OF inv] by (auto simp: in_set_conv_nth num_actors_def)
qed

lemma cache_lengths:
  "graph_wf g \<Longrightarrow> (n, c) \<in> set (cg_clock_cache g) \<Longrightarrow> length c = num_actors g"
  by (auto simp: graph_wf_def cache_ok_def represents_def)

lemma those_map: "\<forall>x \<in> set xs. f x = Some (h x) \<Longrightarrow> those (map f xs) = Some (map h xs)"
  by (induction xs) simp_all

lemma insert_actor_eq:
  assumes wf: "graph_wf g" and idx: "idx \<le> num_actors g" and sz: "num_actors g < 2 ^ 32"
  shows "insert_actor g idx = Some (bumped g idx)"
proof -
  have "cast_u32 idx = idx" using idx sz by (simp add: cast_u32_def)
  have "cast_u32 (a + 1) = a + 1" if "a \<in> set (cg_actors g)" for a
    using actors_bounded [OF wf that] sz by (simp add: cast_u32_def)
  then have act: "(if length (cg_seq_index g) \<noteq> idx
       then map (\<lambda>a. if a \<ge> cast_u32 idx then cast_u32 (a + 1) else a) (cg_actors g) else cg_actors g)
      = map (bump idx) (cg_actors g)"
    using actors_bounded [OF wf] \<open>cast_u32 idx = idx\<close>
    by (fastforce simp: bump_def num_actors_def intro!: map_idI [symmetric])
  have cache: "those (map (\<lambda>(n, c). map_option (Pair n) (rewrite_with_new_actor c idx)) (cg_clock_cache g))
      = Some (map (\<lambda>(n, c). (n, take idx c @ None # drop idx c)) (cg_clock_cache g))"
    by (rule those_map) (use cache_lengths [OF wf] idx in \<open>auto simp: rewrite_with_new_actor_def vec_insert_def\<close>)
  show ?thesis
    using idx unfolding insert_actor_def Let_def act cache
    by (simp add: vec_insert_def bumped_def num_actors_def)
qed

lemma remove_bumped:
  assumes wf: "graph_wf g" and idx: "idx \<le> num_actors g" and sz: "num_actors g < 2 ^ 32"
  shows "remove_actor (bumped g idx) idx = Some g"
proof -
  have ci: "cast_u32 idx = idx" using idx sz by (simp add: cast_u32_def)
  have act: "map (\<lambda>a. if a > cast_u32 idx then a - 1 else a) (map (bump idx) (cg_actors g)) = cg_actors g"
    unfolding map_map by (rule map_idI) (auto simp: bump_def ci)
  have cache: "those (map (\<lambda>(n, c). map_option (Pair n) (seq_clock_remove_actor c idx))
      (map (\<lambda>(n, c). (n, take idx c @ None # drop idx c)) (cg_clock_cache g)))
      = Some (map (\<lambda>(n, c). (n, c)) (cg_clock_cache g))"
    unfolding map_map
    by (rule those_map) (use cache_lengths [OF wf] idx in \<open>auto simp: seq_clock_remove_actor_def vec_remove_def min_def\<close>)
  have at: "vec_at (cg_seq_index (bumped g idx)) idx = Some []"
    using idx by (simp add: bumped_def vec_at_def num_actors_def nth_append min_def)
  have rem: "vec_remove idx (cg_seq_index (bumped g idx)) = Some (cg_seq_index g)"
    using idx by (simp add: bumped_def vec_remove_def num_actors_def min_def)
  have b: "cg_actors (bumped g idx) = map (bump idx) (cg_actors g)"
    "cg_clock_cache (bumped g idx) = map (\<lambda>(n, c). (n, take idx c @ None # drop idx c)) (cg_clock_cache g)"
    by (simp_all add: bumped_def)
  show ?thesis
    unfolding remove_actor_def Let_def at option.case rem bind.simps b act cache if_True simp_thms
    by (simp add: bumped_def)
qed

lemma bumped_sel [simp]:
  "cg_edges (bumped g idx) = cg_edges g" "cg_hashes (bumped g idx) = cg_hashes g"
  "cg_parents (bumped g idx) = cg_parents g" "cg_seq (bumped g idx) = cg_seq g"
  "cg_max_ops (bumped g idx) = cg_max_ops g" "cg_num_ops (bumped g idx) = cg_num_ops g"
  "cg_heads (bumped g idx) = cg_heads g" "cg_nodes_by_hash (bumped g idx) = cg_nodes_by_hash g"
  "cg_actors (bumped g idx) = map (bump idx) (cg_actors g)"
  "cg_clock_cache (bumped g idx) = map (\<lambda>(n, c). (n, take idx c @ None # drop idx c)) (cg_clock_cache g)"
  "cg_seq_index (bumped g idx) = take idx (cg_seq_index g) @ [] # drop idx (cg_seq_index g)"
  by (simp_all add: bumped_def)

lemma bumped_parents [simp]:
  "parents_of (bumped g idx) = parents_of g" "parent_list (bumped g idx) = parent_list g"
proof -
  show "parents_of (bumped g idx) = parents_of g" by (simp add: fun_eq_iff parents_of_def)
  then show "parent_list (bumped g idx) = parent_list g" by (simp add: fun_eq_iff parent_list_def)
qed

lemma bumped_anc [simp]: "anc (bumped g idx) = anc g"
proof -
  have "ancestor (bumped g idx) m n \<longleftrightarrow> ancestor g m n" for m n
    using ancestor_same [of g m n "bumped g idx"] ancestor_same [of "bumped g idx" m n g] by auto
  then show ?thesis by (simp add: fun_eq_iff anc_def)
qed

lemma bumped_core:
  assumes inv: "core_inv g (length (cg_hashes g))" and idx: "idx \<le> num_actors g" and sz: "num_actors g < 2 ^ 32"
  shows "core_inv (bumped g idx) (length (cg_hashes g))"
proof -
  let ?n = "length (cg_hashes g)" and ?I = "cg_seq_index g"
  have i: "idx \<le> length ?I" using idx by (simp add: num_actors_def)
  note lens = core_lengths [OF inv]
  have ins: "(take idx ?I @ [] # drop idx ?I) ! a = (if a < idx then ?I ! a else if a = idx then [] else ?I ! (a - 1))"
    if "a < Suc (length ?I)" for a
    by (rule nth_vec_insert [OF i that])
  have len: "length (cg_seq_index (bumped g idx)) = Suc (length ?I)" using i by simp
  show ?thesis
    unfolding core_inv_def
  proof (intro conjI)
    show "\<forall>n < length (cg_hashes (bumped g idx)). cg_actors (bumped g idx) ! n < length (cg_seq_index (bumped g idx))"
    proof (intro allI impI)
      fix n assume "n < length (cg_hashes (bumped g idx))"
      then show "cg_actors (bumped g idx) ! n < length (cg_seq_index (bumped g idx))"
        using core_actor [OF inv, of n] lens i by (auto simp: bump_def)
    qed
    show "\<forall>a < length (cg_seq_index (bumped g idx)). cg_seq_index (bumped g idx) ! a
        = filter (\<lambda>n. cg_actors (bumped g idx) ! n = a) [0 ..< length (cg_hashes (bumped g idx))]"
    proof (intro allI impI)
      fix a assume "a < length (cg_seq_index (bumped g idx))"
      then have a: "a < Suc (length ?I)" by (simp only: len)
      have "filter (\<lambda>n. cg_actors (bumped g idx) ! n = a) [0 ..< ?n]
          = filter (\<lambda>n. a \<noteq> idx \<and> cg_actors g ! n = (if a < idx then a else a - 1)) [0 ..< ?n]"
        using lens by (intro filter_cong) (simp_all add: bump_eq_iff)
      also have "\<dots> = (if a < idx then ?I ! a else if a = idx then [] else ?I ! (a - 1))"
        using core_index [OF inv, of a] core_index [OF inv, of "a - 1"] a i by auto
      finally show "cg_seq_index (bumped g idx) ! a
          = filter (\<lambda>n. cg_actors (bumped g idx) ! n = a) [0 ..< length (cg_hashes (bumped g idx))]"
        using ins [OF a] by simp
    qed
    show "\<forall>a < length (cg_seq_index (bumped g idx)). \<forall>k < length (cg_seq_index (bumped g idx) ! a).
          unat (cg_seq (bumped g idx) ! (cg_seq_index (bumped g idx) ! a ! k)) = Suc k"
    proof (intro allI impI)
      fix a k assume "a < length (cg_seq_index (bumped g idx))" and k: "k < length (cg_seq_index (bumped g idx) ! a)"
      then have a: "a < Suc (length ?I)" by (simp only: len)
      then show "unat (cg_seq (bumped g idx) ! (cg_seq_index (bumped g idx) ! a ! k)) = Suc k"
        using k core_seq [OF inv, of a k] core_seq [OF inv, of "a - 1" k] i ins [OF a] by (auto split: if_splits)
    qed
    show "\<forall>h n. cg_nodes_by_hash (bumped g idx) h = Some n \<longleftrightarrow>
        n < length (cg_hashes (bumped g idx)) \<and> cg_hashes (bumped g idx) ! n = h"
      using core_nodes [OF inv] by simp
    show "\<forall>n < length (cg_hashes (bumped g idx)). \<exists>ps. parents_of (bumped g idx) n = Some ps \<and> (\<forall>p \<in> set ps. p < n)"
      using core_parents [OF inv] by simp
    show "length (cg_seq_index (bumped g idx)) \<le> 2 ^ 32" using sz len by (simp add: num_actors_def)
    show "?n < 2 ^ 32" by (rule core_N [OF inv])
  qed (use lens in simp_all)
qed

lemma bumped_clock:
  assumes inv: "core_inv g (length (cg_hashes g))" and S: "S \<subseteq> {..< length (cg_hashes g)}"
  shows "clock_at (bumped g idx) S b = (if b < idx then clock_at g S b else if b = idx then None else clock_at g S (b - 1))"
proof -
  have "{n \<in> S. cg_actors (bumped g idx) ! n = b}
      = (if b < idx then {n \<in> S. cg_actors g ! n = b} else if b = idx then {} else {n \<in> S. cg_actors g ! n = b - 1})"
  proof -
    have "cg_actors (bumped g idx) ! n = bump idx (cg_actors g ! n)" if "n \<in> S" for n
      using S core_lengths(1) [OF inv] that by auto
    then have "n \<in> S \<and> cg_actors (bumped g idx) ! n = b
        \<longleftrightarrow> n \<in> S \<and> b \<noteq> idx \<and> cg_actors g ! n = (if b < idx then b else b - 1)" for n
      by (metis bump_eq_iff)
    then show ?thesis by auto
  qed
  then show ?thesis by (simp add: clock_at_def)
qed

lemma bumped_wf:
  assumes wf: "graph_wf g" and idx: "idx \<le> num_actors g" and sz: "num_actors g < 2 ^ 32"
  shows "graph_wf (bumped g idx)"
proof -
  have inv: "core_inv g (length (cg_hashes g))" and heads: "heads_ok g" and cache: "cache_ok g"
    using wf by (simp_all add: graph_wf_def)
  have "represents (bumped g idx) (take idx c @ None # drop idx c) (anc g {n})"
    if "(n, c) \<in> set (cg_clock_cache g)" for n c
  proof -
    have r: "represents g c (anc g {n})" using cache that by (auto simp: cache_ok_def)
    have l: "length c = num_actors g" using r by (simp add: represents_def)
    have "(take idx c @ None # drop idx c) ! b = clock_at (bumped g idx) (anc g {n}) b" if "b < Suc (num_actors g)" for b
      using r idx that l nth_vec_insert [of idx c b None]
      unfolding bumped_clock [OF inv anc_bounded [OF inv]] by (auto simp: represents_def)
    then show ?thesis using l idx by (simp add: represents_def num_actors_def)
  qed
  then have "cache_ok (bumped g idx)" using cache by (auto simp: cache_ok_def)
  moreover have "heads_ok (bumped g idx)" using heads by (simp add: heads_ok_def)
  ultimately show ?thesis using bumped_core [OF inv idx sz] by (simp add: graph_wf_def)
qed

text \<open>Making room for an actor at any position of the table does not panic and keeps the graph well
  formed, cached clocks included; removing the actor at that position, while it has no changes, gives
  back the graph as it was.\<close>

theorem insert_remove_actor:
  assumes "graph_wf g" and "idx \<le> num_actors g" and "num_actors g < 2 ^ 32"
  shows "\<exists>g'. insert_actor g idx = Some g' \<and> graph_wf g' \<and> num_actors g' = num_actors g + 1
    \<and> cg_seq_index g' ! idx = [] \<and> remove_actor g' idx = Some g"
  using insert_actor_eq [OF assms] bumped_wf [OF assms] remove_bumped [OF assms] assms(2)
  by (intro exI [of _ "bumped g idx"]) (simp add: num_actors_def nth_append)

theorem insert_remove_actor_witness:
  "\<exists>g g'. cg_hashes g = map example_hash [1, 2, 3] \<and> insert_actor g 1 = Some g' \<and> graph_wf g' \<and> remove_actor g' 1 = Some g"
proof -
  obtain g where g: "graph_wf g" "num_actors g = 2" "cg_hashes g = map example_hash [1, 2, 3]"
    using example_graph by blast
  with insert_remove_actor [OF g(1), of 1] show ?thesis by auto
qed

subsection \<open>The clock cache is invisible\<close>

text \<open>C12: the clock of a set of heads is, actor by actor, the largest sequence number among the changes
  of the actor that are ancestors of the heads, and it does not depend on what the cache holds: an
  empty cache gives the same clock.\<close>

theorem clocks_without_cache:
  assumes "graph_wf g"
  shows "\<exists>c. seq_clock_for_heads g heads = Some c
    \<and> seq_clock_for_heads (g\<lparr>cg_clock_cache := []\<rparr>) heads = Some c
    \<and> length c = num_actors g \<and> (\<forall>a < num_actors g. get_for_actor c a = clock_at g (known_nodes g heads) a)"
proof -
  have wf: "graph_wf (g\<lparr>cg_clock_cache := []\<rparr>)"
    using assms by (simp add: graph_wf_def) (simp add: cache_ok_def)
  obtain c where c: "seq_clock_for_heads g heads = Some c" "represents g c (known_nodes g heads)"
    using seq_clock_for_heads_represents [OF assms] by blast
  have k: "known_nodes (g\<lparr>cg_clock_cache := []\<rparr>) heads = known_nodes g heads"
    by (simp add: known_nodes_def heads_to_nodes_def)
  obtain d where d: "seq_clock_for_heads (g\<lparr>cg_clock_cache := []\<rparr>) heads = Some d"
      "represents (g\<lparr>cg_clock_cache := []\<rparr>) d (known_nodes (g\<lparr>cg_clock_cache := []\<rparr>) heads)"
    using seq_clock_for_heads_represents [OF wf] by blast
  have "d = c" using c(2) d(2) unfolding k by (intro nth_equalityI) (simp_all add: represents_def)
  then show ?thesis using c d(1) by (auto simp: represents_def get_for_actor_def vec_at_def)
qed

theorem clocks_without_cache_witness:
  "\<exists>g c. cg_hashes g = map example_hash [1, 2, 3] \<and> seq_clock_for_heads g [example_hash 3] = Some c
    \<and> seq_clock_for_heads (g\<lparr>cg_clock_cache := []\<rparr>) [example_hash 3] = Some c"
proof -
  obtain g where g: "graph_wf g" "cg_hashes g = map example_hash [1, 2, 3]" using example_graph by blast
  with clocks_without_cache [OF g(1), of "[example_hash 3]"] show ?thesis by blast
qed

end
