(* ===== verification/Ex_Id.thy ===== *)
theory Ex_Id
  imports Parse
begin

text \<open>
  The external object identifiers of \<open>exid.rs\<close>: their byte format, the parser, the equality and
  order that ignore the actor index, and the conversion to internal ids. The errors carry the parse
  error where the code keeps its text.
\<close>

unbundle bit_operations_syntax

datatype ex_id = Root | Id u64 actor_id nat

definition serialization_version_tag :: u8 where
  "serialization_version_tag = 0"

definition type_root :: u8 where
  "type_root = 0"

definition type_id :: u8 where
  "type_id = 1"

fun exid_to_bytes :: "(u64 \<Rightarrow> bytes) \<Rightarrow> ex_id \<Rightarrow> bytes" where
  "exid_to_bytes wu Root = [serialization_version_tag OR push_bit 4 type_root]"
| "exid_to_bytes wu (Id cid actor cnt) =
     (let tag = serialization_version_tag OR push_bit 4 type_id
      in [tag] @ wu (word_of_nat (length (actor_bytes actor))) @ actor_bytes actor
         @ wu (word_of_nat cnt) @ wu cid)"

fun to_internal_obj :: "ex_id \<Rightarrow> obj_id option" where
  "to_internal_obj Root = Some obj_root"
| "to_internal_obj (Id ctr _ actor) = map_option ObjId (opid_new ctr actor)"

datatype obj_id_from_bytes_error =
    NoVersion
  | InvalidVersion u8
  | InvalidType u8
  | ParseActorLen "leb128_error parse_error"
  | ParseActor
  | ParseCounter "leb128_error parse_error"
  | ParseActorIdxHint "leb128_error parse_error"

definition exid_try_from :: "bytes \<Rightarrow> obj_id_from_bytes_error + ex_id" where
  "exid_try_from b = (let i = new_input b in
     bind_res (map_err (\<lambda>_ :: unit parse_error. NoVersion) (take_1 i)) (\<lambda>(i, tag).
     let version = tag AND 0x0F in
     if version \<noteq> serialization_version_tag then Inl (InvalidVersion version)
     else let type_tag = drop_bit 4 tag in
       if type_tag = type_root then Inr Root
       else if type_tag = type_id then
         bind_res (map_err ParseActorLen (leb128_u64 id i)) (\<lambda>(i, len).
         bind_res (map_err (\<lambda>_ :: unit parse_error. ParseActor) (take_n (unat len) i)) (\<lambda>(i, actor).
         bind_res (map_err ParseCounter (leb128_u64 id i)) (\<lambda>(i, cnt).
         bind_res (map_err ParseActorIdxHint (leb128_u64 id i)) (\<lambda>(_, hint).
         Inr (Id hint (ActorId actor) (unat cnt))))))
       else Inl (InvalidType type_tag)))"

fun exid_eq :: "ex_id \<Rightarrow> ex_id \<Rightarrow> bool" where
  "exid_eq Root Root = True"
| "exid_eq (Id ctr1 actor1 _) (Id ctr2 actor2 _) = (ctr1 = ctr2 \<and> actor1 = actor2)"
| "exid_eq _ _ = False"

datatype ordering = Less | Equal | Greater

definition compare_ord :: "'a::linorder \<Rightarrow> 'a \<Rightarrow> ordering" where
  "compare_ord a b = (if a < b then Less else if a = b then Equal else Greater)"

fun exid_cmp :: "ex_id \<Rightarrow> ex_id \<Rightarrow> ordering" where
  "exid_cmp Root Root = Equal"
| "exid_cmp Root _ = Less"
| "exid_cmp _ Root = Greater"
| "exid_cmp (Id c1 a1 _) (Id c2 a2 _) = (if c1 = c2 then compare_ord a1 a2 else compare_ord c1 c2)"

subsection \<open>Properties\<close>

text \<open>Every external id whose actor fits a 64-bit length and whose actor index is a 64-bit
  number is parsed back from its bytes exactly, actor index included.\<close>

theorem exid_roundtrip:
  assumes "writes_uleb wu"
    and "case e of Root \<Rightarrow> True | Id _ a n \<Rightarrow> length (actor_bytes a) < 2 ^ 64 \<and> n < 2 ^ 64"
  shows "exid_try_from (exid_to_bytes wu e) = Inr e"
proof (cases e)
  case Root
  then show ?thesis
    by (simp add: exid_try_from_def take_1_Cons serialization_version_tag_def type_root_def)
next
  case (Id c a n)
  let ?la = "length (actor_bytes a)"
  have la: "?la < 2 ^ 64" and n: "n < 2 ^ 64" using assms(2) Id by auto
  have w: "wu (word_of_nat ?la) = uleb ?la" "wu (word_of_nat n) = uleb n" "wu c = uleb (unat c)"
    using assms(1) by (simp_all add: writes_uleb_def unat_u64_of_nat [OF la] unat_u64_of_nat [OF n])
  let ?b = "uleb ?la @ actor_bytes a @ uleb n @ uleb (unat c)"
  have b: "exid_to_bytes wu e = 0x10 # ?b"
    by (simp add: Id w serialization_version_tag_def type_id_def)
  let ?i0 = "new_input (0x10 # ?b)"
  let ?i1 = "advance ?i0 1"
  let ?i2 = "advance ?i1 (length (uleb ?la))"
  let ?i3 = "advance ?i2 ?la"
  let ?i4 = "advance ?i3 (length (uleb n))"
  have "take_1 ?i0 = (Inr (?i1, 0x10) :: unit parse_error + _)" by (rule take_1_Cons) simp
  moreover have "leb128_u64 id ?i1 = Inr (?i2, word_of_nat ?la)"
    by (rule leb_count [OF _ la]) simp
  moreover have "take_n ?la ?i2 = (Inr (?i3, actor_bytes a) :: unit parse_error + _)" by (simp add: take_n_eq)
  moreover have "leb128_u64 id ?i3 = Inr (?i4, word_of_nat n)"
    by (rule leb_count [OF _ n]) simp
  moreover have "leb128_u64 id ?i4 = Inr (advance ?i4 (length (uleb (unat c))), c)"
    by (rule leb128_u64_complete [where rest = "[]"]) simp
  moreover have "(0x10 :: u8) AND 0x0F = 0" "drop_bit 4 (0x10 :: u8) = 1" by simp_all
  ultimately have "exid_try_from (0x10 # ?b) = Inr (Id c a n)"
    by (simp add: exid_try_from_def serialization_version_tag_def type_root_def type_id_def
        unat_u64_of_nat [OF la] unat_u64_of_nat [OF n] Let_def del: advance_advance)
  then show ?thesis unfolding b by (simp only: Id)
qed

theorem exid_roundtrip_witness:
  "exid_try_from (exid_to_bytes own_writer (Id 300 (ActorId [1, 2]) 5)) = Inr (Id 300 (ActorId [1, 2]) 5)"
  by (rule exid_roundtrip) (simp_all add: own_writer_writes)

text \<open>The order of external ids is a total order up to the equality that ignores the actor
  index: comparison is \<open>Equal\<close> exactly on equal ids, swapping the arguments reverses it, and
  \<open>Less\<close> is transitive.\<close>

theorem exid_order:
  "(exid_cmp x y = Equal \<longleftrightarrow> exid_eq x y)
    \<and> (exid_cmp x y = Less \<longleftrightarrow> exid_cmp y x = Greater)
    \<and> (exid_cmp x y = Less \<longrightarrow> exid_cmp y z = Less \<longrightarrow> exid_cmp x z = Less)"
  by (cases x; cases y; cases z) (auto simp: compare_ord_def split: if_splits)

theorem exid_order_witness:
  "exid_cmp Root (Id 1 (ActorId [1]) 0) = Less \<and> exid_cmp (Id 1 (ActorId [1]) 0) (Id 1 (ActorId [2]) 7) = Less
    \<and> exid_cmp Root (Id 1 (ActorId [2]) 7) = Less"
proof -
  have "exid_cmp Root (Id 1 (ActorId [1]) 0) = Less"
    and "exid_cmp (Id 1 (ActorId [1]) 0) (Id 1 (ActorId [2]) 7) = Less"
    by (simp_all add: compare_ord_def less_actor_id_def)
  with exid_order [of Root "Id 1 (ActorId [1]) 0" "Id 1 (ActorId [2]) 7"] show ?thesis by simp
qed

text \<open>Equal external ids denote the same internal object only when their actor indexes agree:
  for ids that both convert, the internal ids are equal if and only if counters and actor indexes
  are.\<close>

theorem to_internal_obj_eq_iff:
  assumes "to_internal_obj (Id c1 a1 n1) = Some o1" and "to_internal_obj (Id c2 a2 n2) = Some o2"
  shows "o1 = o2 \<longleftrightarrow> c1 = c2 \<and> n1 = n2"
proof -
  have b: "unat c1 < 2 ^ 32" "n1 < 2 ^ 32" "unat c2 < 2 ^ 32" "n2 < 2 ^ 32"
    and o: "o1 = ObjId (OpId (ucast c1) (word_of_nat n1))" "o2 = ObjId (OpId (ucast c2) (word_of_nat n2))"
    using assms by (auto simp: opid_new_def split: if_splits)
  have "(ucast c1 :: u32) = ucast c2 \<longleftrightarrow> c1 = c2"
  proof
    assume "(ucast c1 :: u32) = ucast c2"
    then have "unat (ucast c1 :: u32) = unat (ucast c2 :: u32)" by simp
    then show "c1 = c2" using b(1,3)
      by (intro unat_eqI) (simp add: unsigned_ucast_eq take_bit_nat_eq_self)
  qed simp
  moreover have "(word_of_nat n1 :: u32) = word_of_nat n2 \<longleftrightarrow> n1 = n2"
    using b(2,4) by (auto simp: word_of_nat_eq_iff take_bit_nat_eq_self)
  ultimately show ?thesis by (simp add: o)
qed

theorem to_internal_obj_eq_iff_witness:
  "\<exists>o1 o2. to_internal_obj (Id 5 (ActorId [1]) 2) = Some o1 \<and> to_internal_obj (Id 5 (ActorId [3]) 2) = Some o2
    \<and> o1 = o2"
  using to_internal_obj_eq_iff [of 5 "ActorId [1]" 2 "ObjId (OpId 5 2)" 5 "ActorId [3]" 2 "ObjId (OpId 5 2)"]
  by (simp add: opid_new_def)

end
