(* ===== verification/Document.thy ===== *)
theory Document
  imports Graph_Actors Ex_Id
begin

text \<open>
  The document (\<open>automerge.rs\<close>) as far as it manages its history: the graph of changes, the queue of
  changes that wait for their dependencies, the heads, the table of actors, the current actor and the
  largest operation counter. The columns of the operation set (\<open>op_set2\<close>) are a value of an arbitrary
  type; what the document calls on them is the argument \<open>op_store\<close>: renumbering the actors of the
  operations, reading the operations of a change with its actors mapped to those of the document (a
  failure is an unwrap that panics), and merging the operations of a batch. A panic is \<open>None\<close>.
\<close>

subsection \<open>Data\<close>

datatype doc_actor = Unused actor_id | Cached nat

record ('c, 'o) op_store =
  os_rewrite_with_new_actor :: "nat \<Rightarrow> 'c \<Rightarrow> 'c"
  os_rewrite_without_actor :: "nat \<Rightarrow> 'c \<Rightarrow> 'c"
  os_import_ops :: "nat list \<Rightarrow> loaded_change \<Rightarrow> 'o list option"
  os_merge :: "actor_id list \<Rightarrow> 'o list \<Rightarrow> 'c \<Rightarrow> 'c option"

record 'c automerge =
  am_queue :: "loaded_change list"
  am_graph :: change_graph
  am_deps :: "change_hash set"
  am_actors :: "actor_id list"
  am_ops :: 'c
  am_actor :: doc_actor
  am_max_op :: u64

definition lc_actor_id :: "loaded_change \<Rightarrow> actor_id" where
  "lc_actor_id c = ch_actor (lc_stored c)"

definition lc_actors :: "loaded_change \<Rightarrow> actor_id list" where
  "lc_actors c = ch_actor (lc_stored c) # ch_other_actors (lc_stored c)"

definition lc_num_ops :: "loaded_change \<Rightarrow> nat" where
  "lc_num_ops c = ch_num_ops (lc_stored c)"

text \<open>A new document: \<open>ops\<close> is the empty operation set, the actor is random in the source.\<close>

definition automerge_new :: "'c \<Rightarrow> actor_id \<Rightarrow> 'c automerge" where
  "automerge_new ops actor = \<lparr>am_queue = [], am_graph = graph_new 0, am_deps = {}, am_actors = [],
     am_ops = ops, am_actor = Unused actor, am_max_op = 0\<rparr>"

definition doc_is_empty :: "'c automerge \<Rightarrow> bool" where
  "doc_is_empty am \<longleftrightarrow> graph_is_empty (am_graph am) \<and> am_queue am = []"

subsection \<open>Actors\<close>

text \<open>
  \<open>slice::binary_search\<close> on a sorted slice without duplicates: the index of the element, or else the
  index where it belongs.
\<close>

definition search_actor :: "actor_id list \<Rightarrow> actor_id \<Rightarrow> nat + nat" where
  "search_actor actors a =
     (let i = length (takeWhile (\<lambda>x. x < a) actors)
      in if i < length actors \<and> actors ! i = a then Inr i else Inl i)"

definition lookup_actor :: "actor_id list \<Rightarrow> actor_id \<Rightarrow> nat option" where
  "lookup_actor actors a = (case search_actor actors a of Inr i \<Rightarrow> Some i | Inl _ \<Rightarrow> None)"

definition get_actor :: "'c automerge \<Rightarrow> actor_id option" where
  "get_actor am = (case am_actor am of Unused a \<Rightarrow> Some a | Cached i \<Rightarrow> vec_at (am_actors am) i)"

definition set_actor :: "'c automerge \<Rightarrow> actor_id \<Rightarrow> 'c automerge" where
  "set_actor am a = (case search_actor (am_actors am) a of
     Inr i \<Rightarrow> am\<lparr>am_actor := Cached i\<rparr> | Inl _ \<Rightarrow> am\<lparr>am_actor := Unused a\<rparr>)"

definition actor_rewrite_with_new_actor :: "doc_actor \<Rightarrow> nat \<Rightarrow> doc_actor" where
  "actor_rewrite_with_new_actor a i = (case a of
     Cached idx \<Rightarrow> if idx \<ge> i then Cached (idx + 1) else Cached idx | Unused x \<Rightarrow> Unused x)"

definition actor_remove_actor :: "doc_actor \<Rightarrow> nat \<Rightarrow> actor_id list \<Rightarrow> doc_actor option" where
  "actor_remove_actor a i actors = (case a of
     Cached idx \<Rightarrow> if idx = i then map_option Unused (vec_at actors i)
       else if idx > i then Some (Cached (idx - 1)) else Some (Cached idx)
   | Unused x \<Rightarrow> Some (Unused x))"

definition doc_insert_actor :: "('c, 'o) op_store \<Rightarrow> 'c automerge \<Rightarrow> nat \<Rightarrow> actor_id \<Rightarrow> ('c automerge \<times> nat) option" where
  "doc_insert_actor s am i a =
     (let ops = if length (am_actors am) \<noteq> i then os_rewrite_with_new_actor s i (am_ops am) else am_ops am in
      Option.bind (vec_insert i a (am_actors am)) (\<lambda>actors.
      Option.bind (insert_actor (am_graph am) i) (\<lambda>graph.
      Some (am\<lparr>am_ops := ops, am_actors := actors, am_graph := graph,
        am_actor := actor_rewrite_with_new_actor (am_actor am) i\<rparr>, i))))"

definition put_actor_ref :: "('c, 'o) op_store \<Rightarrow> 'c automerge \<Rightarrow> actor_id \<Rightarrow> ('c automerge \<times> nat) option" where
  "put_actor_ref s am a = (case search_actor (am_actors am) a of
     Inr idx \<Rightarrow> Some (am, idx) | Inl idx \<Rightarrow> doc_insert_actor s am idx a)"

definition get_or_create_actor_index :: "('c, 'o) op_store \<Rightarrow> 'c automerge \<Rightarrow> ('c automerge \<times> nat) option" where
  "get_or_create_actor_index s am = (case am_actor am of
     Unused a \<Rightarrow> Option.bind (put_actor_ref s am a) (\<lambda>(am, i). Some (am\<lparr>am_actor := Cached i\<rparr>, i))
   | Cached i \<Rightarrow> Some (am, i))"

definition doc_remove_actor :: "('c, 'o) op_store \<Rightarrow> 'c automerge \<Rightarrow> nat \<Rightarrow> 'c automerge option" where
  "doc_remove_actor s am i =
     Option.bind (actor_remove_actor (am_actor am) i (am_actors am)) (\<lambda>actor.
     Option.bind (vec_remove i (am_actors am)) (\<lambda>actors.
     Option.bind (remove_actor (am_graph am) i) (\<lambda>graph.
     Some (am\<lparr>am_actor := actor, am_actors := actors,
       am_ops := os_rewrite_without_actor s i (am_ops am), am_graph := graph\<rparr>))))"

text \<open>
  The loop removes the last unused actor until there is none. The assertion before it holds in debug
  builds only. Every round removes an entry of the index of the graph, whose length is the fuel.
\<close>

primrec remove_unused_loop :: "nat \<Rightarrow> ('c, 'o) op_store \<Rightarrow> 'c automerge \<Rightarrow> 'c automerge option" where
  "remove_unused_loop 0 s am = (if unused_actors (am_graph am) = [] then Some am else None)"
| "remove_unused_loop (Suc k) s am =
     (if unused_actors (am_graph am) = [] then Some am
      else Option.bind (doc_remove_actor s am (last (unused_actors (am_graph am)))) (remove_unused_loop k s))"

definition remove_unused_actors :: "('c, 'o) op_store \<Rightarrow> 'c automerge \<Rightarrow> 'c automerge option" where
  "remove_unused_actors s am = remove_unused_loop (length (cg_seq_index (am_graph am))) s am"

subsection \<open>Heads and history\<close>

definition get_heads :: "'c automerge \<Rightarrow> change_hash list" where
  "get_heads am = sorted_list_of_set (am_deps am)"

definition doc_has_change :: "'c automerge \<Rightarrow> change_hash \<Rightarrow> bool" where
  "doc_has_change am h \<longleftrightarrow> has_change (am_graph am) h"

definition update_deps :: "'c automerge \<Rightarrow> loaded_change \<Rightarrow> 'c automerge" where
  "update_deps am c = am\<lparr>am_deps := insert (lc_hash c) (am_deps am - set (lc_deps c))\<rparr>"

definition update_history :: "'c automerge \<Rightarrow> loaded_change \<Rightarrow> nat \<Rightarrow> 'c automerge option" where
  "update_history am c num_ops =
     (let am = am\<lparr>am_max_op := max (am_max_op am) (lc_start_op c + word_of_nat num_ops - 1)\<rparr>;
          am = update_deps am c in
      Option.bind (lookup_actor (am_actors am) (lc_actor_id c)) (\<lambda>actor_index.
      case add_change (am_graph am) c actor_index of
        Some (Inr graph) \<Rightarrow> Some (am\<lparr>am_graph := graph\<rparr>) | _ \<Rightarrow> None))"

definition doc_seq_for_actor :: "'c automerge \<Rightarrow> actor_id \<Rightarrow> nat" where
  "doc_seq_for_actor am a = (case lookup_actor (am_actors am) a of
     Some idx \<Rightarrow> seq_for_actor (am_graph am) idx | None \<Rightarrow> 0)"

definition doc_has_actor_seq :: "'c automerge \<Rightarrow> loaded_change \<Rightarrow> bool" where
  "doc_has_actor_seq am c \<longleftrightarrow> doc_seq_for_actor am (lc_actor_id c) \<ge> unat (lc_seq c)"

definition get_missing_deps :: "'c automerge \<Rightarrow> change_hash list \<Rightarrow> change_hash list" where
  "get_missing_deps am heads =
     (let in_queue = set (map lc_hash (am_queue am));
          missing = {h \<in> set (concat (map lc_deps (am_queue am))). \<not> doc_has_change am h}
            \<union> {h \<in> set heads. \<not> doc_has_change am h}
      in sorted_list_of_set (missing - in_queue))"

definition filter_changes :: "'c automerge \<Rightarrow> change_hash list \<Rightarrow> change_hash set \<Rightarrow> change_hash set option" where
  "filter_changes am heads changes = remove_ancestors (am_graph am) changes (filter (doc_has_change am) heads)"

text \<open>The walk of \<open>get_changes_added\<close>: the stack of the source grows at its end, here at the front.\<close>

partial_function (option) added_loop ::
  "'c automerge \<Rightarrow> 'c automerge \<Rightarrow> change_hash list \<Rightarrow> change_hash list \<Rightarrow> change_hash list option" where
  "added_loop am oth stack added = (case stack of
     [] \<Rightarrow> Some added
   | h # stack \<Rightarrow>
       if h \<notin> set added \<and> \<not> doc_has_change am h
       then Option.bind (deps_for_hash (am_graph oth) h) (\<lambda>ds. added_loop am oth (rev ds @ stack) (h # added))
       else added_loop am oth stack added)"

text \<open>The set of seen hashes holds what the list of added ones does; the list is collected reversed.\<close>

definition changes_added :: "'c automerge \<Rightarrow> 'c automerge \<Rightarrow> change_hash list option" where
  "changes_added am oth = added_loop am oth (rev (get_heads oth)) []"

definition transaction_deps :: "'c automerge \<Rightarrow> nat \<Rightarrow> nat \<Rightarrow> change_hash list option" where
  "transaction_deps am actor_index sq =
     (let deps = get_heads am in
      if sq > 1 then (case get_hash_for_actor_seq (am_graph am) actor_index (word_of_nat (sq - 1)) of
          Inr last_hash \<Rightarrow> Some (if last_hash \<notin> set deps then deps @ [last_hash] else deps) | Inl _ \<Rightarrow> None)
      else Some deps)"

record transaction_args =
  ta_actor_index :: nat
  ta_seq :: nat
  ta_start_op :: u64
  ta_deps :: "change_hash list"

text \<open>A transaction that is not isolated at given heads; the checkpoint of the columns is left out.\<close>

definition transaction_args :: "('c, 'o) op_store \<Rightarrow> 'c automerge \<Rightarrow> ('c automerge \<times> transaction_args) option" where
  "transaction_args s am =
     Option.bind (get_or_create_actor_index s am) (\<lambda>(am, actor_index).
     let sq = seq_for_actor (am_graph am) actor_index + 1 in
     Option.bind (transaction_deps am actor_index sq) (\<lambda>deps.
     if am_max_op am + 1 = 0 then None
     else Some (am, \<lparr>ta_actor_index = actor_index, ta_seq = sq, ta_start_op = am_max_op am + 1, ta_deps = deps\<rparr>)))"

end
