(* ===== verification/Batch.thy ===== *)
theory Batch
  imports Document
begin

text \<open>
  Applying changes to a document (\<open>op_set2/change/batch.rs\<close>): which of them are applied, in which
  order, which wait in the queue and which are refused, and how the document's history absorbs them. The
  merge of the operations themselves is \<open>os_merge\<close> of the argument \<open>op_store\<close>.
\<close>

record batch_apply =
  ba_changes :: "loaded_change list"
  ba_actor_seq :: "actor_id \<Rightarrow> u64 set option"
  ba_hashes :: "change_hash set"

definition default_batch :: batch_apply where
  "default_batch = \<lparr>ba_changes = [], ba_actor_seq = Map.empty, ba_hashes = {}\<rparr>"

subsection \<open>The queue of the document\<close>

definition ready_q_has_hash :: "'c automerge \<Rightarrow> change_hash \<Rightarrow> bool" where
  "ready_q_has_hash am h \<longleftrightarrow> list_ex (\<lambda>c. lc_hash c = h) (am_queue am)"

definition ready_q_has_dupe :: "'c automerge \<Rightarrow> loaded_change \<Rightarrow> bool" where
  "ready_q_has_dupe am change \<longleftrightarrow> list_ex (\<lambda>c. lc_seq c = lc_seq change
     \<and> lc_actor_id c = lc_actor_id change \<and> lc_hash c \<noteq> lc_hash change) (am_queue am)"

definition is_causally_ready :: "'c automerge \<Rightarrow> loaded_change \<Rightarrow> change_hash set \<Rightarrow> bool" where
  "is_causally_ready am change ready \<longleftrightarrow> list_all (\<lambda>d. doc_has_change am d \<or> d \<in> ready) (lc_deps change)"

text \<open>\<open>Vec::swap_remove\<close> puts the last element in the place of the one it removes.\<close>

definition swap_remove :: "nat \<Rightarrow> 'a list \<Rightarrow> 'a list" where
  "swap_remove i xs = butlast (xs[i := last xs])"

fun ready_index :: "'c automerge \<Rightarrow> change_hash set \<Rightarrow> nat \<Rightarrow> loaded_change list \<Rightarrow> nat option" where
  "ready_index am ready i [] = None"
| "ready_index am ready i (c # cs) = (if is_causally_ready am c ready then Some i else ready_index am ready (i + 1) cs)"

definition pop_next_causally_ready_change ::
  "'c automerge \<Rightarrow> change_hash set \<Rightarrow> ('c automerge \<times> loaded_change) option" where
  "pop_next_causally_ready_change am ready = (case ready_index am ready 0 (am_queue am) of
     Some i \<Rightarrow> Some (am\<lparr>am_queue := swap_remove i (am_queue am)\<rparr>, am_queue am ! i)
   | None \<Rightarrow> None)"

subsection \<open>The batch\<close>

definition batch_has_change :: "batch_apply \<Rightarrow> 'c automerge \<Rightarrow> change_hash \<Rightarrow> bool" where
  "batch_has_change b am h \<longleftrightarrow> doc_has_change am h \<or> h \<in> ba_hashes b \<or> ready_q_has_hash am h"

definition record_actor_seq :: "batch_apply \<Rightarrow> loaded_change \<Rightarrow> batch_apply" where
  "record_actor_seq b c = (case ba_actor_seq b (lc_actor_id c) of
     Some sqs \<Rightarrow> b\<lparr>ba_actor_seq := (ba_actor_seq b)(lc_actor_id c \<mapsto> insert (lc_seq c) sqs)\<rparr>
   | None \<Rightarrow> b\<lparr>ba_actor_seq := (ba_actor_seq b)(lc_actor_id c \<mapsto> {lc_seq c})\<rparr>)"

definition batch_has_actor_seq :: "batch_apply \<Rightarrow> loaded_change \<Rightarrow> bool" where
  "batch_has_actor_seq b c = (case ba_actor_seq b (lc_actor_id c) of
     Some sqs \<Rightarrow> lc_seq c \<in> sqs | None \<Rightarrow> False)"

definition duplicate_seq :: "batch_apply \<Rightarrow> 'c automerge \<Rightarrow> loaded_change \<Rightarrow> bool" where
  "duplicate_seq b am c \<longleftrightarrow> doc_has_actor_seq am c \<or> batch_has_actor_seq b c \<or> ready_q_has_dupe am c"

text \<open>The two assertions hold in release builds too.\<close>

definition batch_push :: "batch_apply \<Rightarrow> loaded_change \<Rightarrow> batch_apply option" where
  "batch_push b c =
     (if batch_has_actor_seq b c then None
      else let b = record_actor_seq b c in
        if lc_hash c \<in> ba_hashes b then None
        else Some (b\<lparr>ba_hashes := insert (lc_hash c) (ba_hashes b), ba_changes := ba_changes b @ [c]\<rparr>))"

text \<open>The loop over the changes; it stops at the first duplicate.\<close>

primrec batch_loop ::
  "loaded_change list \<Rightarrow> 'c automerge \<Rightarrow> batch_apply \<Rightarrow> ('c automerge \<times> batch_apply \<times> (automerge_error + unit)) option" where
  "batch_loop [] am b = Some (am, b, Inr ())"
| "batch_loop (c # cs) am b =
     (if batch_has_change b am (lc_hash c) then batch_loop cs am b
      else if duplicate_seq b am c then Some (am, b, Inl (DuplicateSeqNumber (lc_seq c) (lc_actor_id c)))
      else if is_causally_ready am c (ba_hashes b) then Option.bind (batch_push b c) (batch_loop cs am)
      else batch_loop cs (am\<lparr>am_queue := am_queue am @ [c]\<rparr>) b)"

lemma length_swap_remove [simp]: "length (swap_remove i xs) = length xs - 1"
  by (simp add: swap_remove_def)

lemma ready_index_Some:
  "ready_index am ready k cs = Some i \<Longrightarrow> k \<le> i \<and> i < k + length cs \<and> is_causally_ready am (cs ! (i - k)) ready"
  by (induction am ready k cs rule: ready_index.induct) (auto simp: nth_Cons' split: if_splits)

lemma ready_index_None: "ready_index am ready k cs = None \<longleftrightarrow> (\<forall>c \<in> set cs. \<not> is_causally_ready am c ready)"
  by (induction am ready k cs rule: ready_index.induct) auto

text \<open>The changes of the queue that have become ready, until none is.\<close>

function batch_drain :: "'c automerge \<Rightarrow> batch_apply \<Rightarrow> ('c automerge \<times> batch_apply) option" where
  "batch_drain am b = (case pop_next_causally_ready_change am (ba_hashes b) of
     Some (am, c) \<Rightarrow> Option.bind (batch_push b c) (batch_drain am)
   | None \<Rightarrow> Some (am, b))"
  by pat_completeness auto

termination
  by (relation "measure (\<lambda>(am, b). length (am_queue am))")
    (auto simp: pop_next_causally_ready_change_def dest!: ready_index_Some split: option.splits)

declare batch_drain.simps [simp del]

subsection \<open>Applying the batch\<close>

primrec insert_new_actors :: "('c, 'o) op_store \<Rightarrow> loaded_change list \<Rightarrow> 'c automerge \<Rightarrow> 'c automerge option" where
  "insert_new_actors s [] am = Some am"
| "insert_new_actors s (c # cs) am =
     (if lc_seq c = 1
      then Option.bind (put_actor_ref s am (lc_actor_id c)) (\<lambda>(am, _). insert_new_actors s cs am)
      else insert_new_actors s cs am)"

definition import_ops :: "('c, 'o) op_store \<Rightarrow> 'c automerge \<Rightarrow> loaded_change \<Rightarrow> 'o list option" where
  "import_ops s am c =
     Option.bind (those (map (lookup_actor (am_actors am)) (lc_actors c))) (\<lambda>actors. os_import_ops s actors c)"

primrec import_changes ::
  "('c, 'o) op_store \<Rightarrow> loaded_change list \<Rightarrow> 'o list \<Rightarrow> 'c automerge \<Rightarrow> ('c automerge \<times> 'o list) option" where
  "import_changes s [] ops am = Some (am, ops)"
| "import_changes s (c # cs) ops am =
     Option.bind (import_ops s am c) (\<lambda>new_ops.
     Option.bind (update_history am c (lc_num_ops c)) (import_changes s cs (ops @ new_ops)))"

definition batch_import ::
  "('c, 'o) op_store \<Rightarrow> batch_apply \<Rightarrow> 'c automerge \<Rightarrow> ('c automerge \<times> 'o list) option" where
  "batch_import s b am = Option.bind (import_changes s (ba_changes b) [] am) (\<lambda>(am, ops).
     map_option (\<lambda>am. (am, ops)) (remove_unused_actors s am))"

definition batch_apply_to :: "('c, 'o) op_store \<Rightarrow> batch_apply \<Rightarrow> 'c automerge \<Rightarrow> 'c automerge option" where
  "batch_apply_to s b am =
     Option.bind (insert_new_actors s (ba_changes b) am) (\<lambda>am.
     Option.bind (batch_import s b am) (\<lambda>(am, ops).
     map_option (\<lambda>cols. am\<lparr>am_ops := cols\<rparr>) (os_merge s (am_actors am) ops (am_ops am))))"

definition apply_changes ::
  "('c, 'o) op_store \<Rightarrow> 'c automerge \<Rightarrow> loaded_change list \<Rightarrow> ('c automerge \<times> (automerge_error + unit)) option" where
  "apply_changes s am changes =
     Option.bind (batch_loop changes am default_batch) (\<lambda>(am, b, result).
     Option.bind (case result of Inr _ \<Rightarrow> batch_drain am b | Inl _ \<Rightarrow> Some (am, b)) (\<lambda>(am, b).
     map_option (\<lambda>am. (am, result)) (batch_apply_to s b am)))"

end
