(* ===== verification/Batch_Order.thy ===== *)
theory Batch_Order
  imports Batch "HOL-Library.Multiset"
begin

text \<open>
  The order in which a batch takes changes. \<open>delivered\<close> is the specification: the least set of changes
  of a pool that contains every change whose dependencies are known or delivered. The loop over the
  input and the draining of the queue compute exactly it, in an order in which every change comes
  after its dependencies.
\<close>

definition known :: "'c automerge \<Rightarrow> change_hash set" where
  "known am = set (cg_hashes (am_graph am))"

inductive_set delivered :: "change_hash set \<Rightarrow> loaded_change set \<Rightarrow> loaded_change set"
  for K :: "change_hash set" and P :: "loaded_change set" where
  deliver: "c \<in> P \<Longrightarrow> (\<And>h. h \<in> set (lc_deps c) \<Longrightarrow> h \<in> K \<or> (\<exists>d. d \<in> delivered K P \<and> lc_hash d = h))
    \<Longrightarrow> c \<in> delivered K P"

primrec causal :: "change_hash set \<Rightarrow> loaded_change list \<Rightarrow> bool" where
  "causal K [] \<longleftrightarrow> True"
| "causal K (c # cs) \<longleftrightarrow> set (lc_deps c) \<subseteq> K \<and> causal (insert (lc_hash c) K) cs"

lemma causal_append: "causal K (xs @ ys) \<longleftrightarrow> causal K xs \<and> causal (K \<union> lc_hash ` set xs) ys"
  by (induction xs arbitrary: K) (auto simp: insert_commute)

lemma causal_delivered: "causal (K \<union> lc_hash ` set xs) cs \<Longrightarrow> set xs \<subseteq> delivered K P \<Longrightarrow> set cs \<subseteq> P
    \<Longrightarrow> set cs \<subseteq> delivered K P"
proof (induction cs arbitrary: xs)
  case (Cons c cs)
  have c: "c \<in> delivered K P"
  proof (rule deliver)
    show "h \<in> K \<or> (\<exists>d. d \<in> delivered K P \<and> lc_hash d = h)" if "h \<in> set (lc_deps c)" for h
      using that Cons.prems(1,2) by auto
  qed (use Cons.prems in auto)
  have "set cs \<subseteq> delivered K P"
    by (rule Cons.IH [of "c # xs"]) (use Cons.prems c in auto)
  with c show ?case by simp
qed simp

subsection \<open>The invariant of the batch\<close>

definition unknown :: "'c automerge \<Rightarrow> loaded_change set \<Rightarrow> loaded_change set" where
  "unknown am P = {c \<in> P. lc_hash c \<notin> known am}"

definition author_seq :: "loaded_change \<Rightarrow> actor_id \<times> u64" where
  "author_seq c = (lc_actor_id c, lc_seq c)"

text \<open>
  A pool without equivocation: hashes tell changes apart, an actor used each sequence number once, and
  what the document does not have yet comes after what it has of the same actor.
\<close>

definition pool_ok :: "'c automerge \<Rightarrow> loaded_change set \<Rightarrow> bool" where
  "pool_ok am P \<longleftrightarrow> inj_on lc_hash P \<and> inj_on author_seq (unknown am P)
     \<and> (\<forall>c \<in> unknown am P. \<not> doc_has_actor_seq am c)"

definition batch_inv :: "'c automerge \<Rightarrow> batch_apply \<Rightarrow> loaded_change set \<Rightarrow> bool" where
  "batch_inv am b P \<longleftrightarrow> set (ba_changes b @ am_queue am) = unknown am P
     \<and> distinct (map lc_hash (ba_changes b @ am_queue am))
     \<and> ba_hashes b = lc_hash ` set (ba_changes b)
     \<and> (\<forall>c. batch_has_actor_seq b c \<longleftrightarrow> author_seq c \<in> author_seq ` set (ba_changes b))
     \<and> causal (known am) (ba_changes b)"

lemma queue_sel [simp]:
  "known (am\<lparr>am_queue := q\<rparr>) = known am"
  "unknown (am\<lparr>am_queue := q\<rparr>) P = unknown am P"
  "doc_has_change (am\<lparr>am_queue := q\<rparr>) h = doc_has_change am h"
  "doc_has_actor_seq (am\<lparr>am_queue := q\<rparr>) c = doc_has_actor_seq am c"
  "pool_ok (am\<lparr>am_queue := q\<rparr>) P = pool_ok am P"
  "is_causally_ready (am\<lparr>am_queue := q\<rparr>) c r = is_causally_ready am c r"
  by (simp_all add: known_def unknown_def doc_has_change_def doc_has_actor_seq_def doc_seq_for_actor_def
      pool_ok_def is_causally_ready_def cong: option.case_cong)

lemma has_change_known: "graph_wf (am_graph am) \<Longrightarrow> doc_has_change am h \<longleftrightarrow> h \<in> known am"
  using core_nodes [of "am_graph am"]
  by (auto simp: graph_wf_def doc_has_change_def has_change_def known_def in_set_conv_nth)

lemma pool_ok_mono: "pool_ok am P \<Longrightarrow> Q \<subseteq> P \<Longrightarrow> pool_ok am Q"
  unfolding pool_ok_def by (auto simp: unknown_def intro: inj_on_subset)

lemma record_has_actor_seq:
  "batch_has_actor_seq (record_actor_seq b c) d \<longleftrightarrow> batch_has_actor_seq b d \<or> author_seq d = author_seq c"
  by (auto simp: batch_has_actor_seq_def record_actor_seq_def author_seq_def split: option.splits)

lemma record_sel [simp]:
  "ba_changes (record_actor_seq b c) = ba_changes b" "ba_hashes (record_actor_seq b c) = ba_hashes b"
  by (simp_all add: record_actor_seq_def split: option.splits)

subsection \<open>One change\<close>

lemma batch_invD:
  assumes "batch_inv am b P"
  shows batch_set: "set (ba_changes b) \<union> set (am_queue am) = unknown am P"
    and batch_distinct: "distinct (map lc_hash (ba_changes b @ am_queue am))"
    and batch_hashes: "ba_hashes b = lc_hash ` set (ba_changes b)"
    and batch_seqs: "batch_has_actor_seq b c \<longleftrightarrow> author_seq c \<in> author_seq ` set (ba_changes b)"
    and batch_causal: "causal (known am) (ba_changes b)"
  using assms unfolding batch_inv_def by simp_all

lemma unknown_mem: "c \<in> unknown am P \<longleftrightarrow> c \<in> P \<and> lc_hash c \<notin> known am"
  by (simp add: unknown_def)

lemma pool_same_hash: "pool_ok am P \<Longrightarrow> c \<in> P \<Longrightarrow> d \<in> P \<Longrightarrow> lc_hash c = lc_hash d \<Longrightarrow> c = d"
  by (simp add: pool_ok_def inj_on_def)

lemma pool_same_seq:
  "pool_ok am P \<Longrightarrow> c \<in> unknown am P \<Longrightarrow> d \<in> unknown am P \<Longrightarrow> author_seq c = author_seq d \<Longrightarrow> c = d"
  by (auto simp: pool_ok_def dest: inj_onD)

text \<open>A change that the batch and the queue do not have.\<close>

definition fresh :: "'c automerge \<Rightarrow> batch_apply \<Rightarrow> loaded_change \<Rightarrow> bool" where
  "fresh am b c \<longleftrightarrow> lc_hash c \<notin> known am \<and> c \<notin> set (ba_changes b @ am_queue am)"

lemma fresh_hash:
  assumes "batch_inv am b Q" and "pool_ok am (insert c Q)" and "fresh am b c"
    and "d \<in> set (ba_changes b @ am_queue am)"
  shows "lc_hash d \<noteq> lc_hash c \<and> author_seq d \<noteq> author_seq c"
proof -
  have d: "d \<in> unknown am (insert c Q)" and "d \<noteq> c"
    using assms(3,4) batch_set [OF assms(1)] by (auto simp: unknown_def fresh_def)
  moreover have "c \<in> unknown am (insert c Q)" using assms(3) by (simp add: unknown_def fresh_def)
  ultimately show ?thesis
    using pool_same_hash [OF assms(2), of d c] pool_same_seq [OF assms(2), of d c] unfolding unknown_mem by blast
qed

lemma unknown_insert: "lc_hash c \<notin> known am \<Longrightarrow> unknown am (insert c Q) = insert c (unknown am Q)"
  by (auto simp: unknown_def)

lemma push_inv:
  assumes inv: "batch_inv am b Q" and ok: "pool_ok am (insert c Q)" and fr: "fresh am b c"
    and ready: "set (lc_deps c) \<subseteq> known am \<union> ba_hashes b"
  shows "\<exists>b'. batch_push b c = Some b' \<and> batch_inv am b' (insert c Q)"
proof -
  note fh = fresh_hash [OF inv ok fr]
  have "author_seq c \<notin> author_seq ` set (ba_changes b)" using fh by fastforce
  then have 1: "\<not> batch_has_actor_seq b c" by (simp add: batch_seqs [OF inv])
  have 2: "lc_hash c \<notin> ba_hashes b" using fh by (force simp: batch_hashes [OF inv])
  let ?b = "(record_actor_seq b c)\<lparr>ba_hashes := insert (lc_hash c) (ba_hashes b), ba_changes := ba_changes b @ [c]\<rparr>"
  have "batch_has_actor_seq ?b d = batch_has_actor_seq (record_actor_seq b c) d" for d
    by (simp add: batch_has_actor_seq_def)
  then have seqs: "batch_has_actor_seq ?b d \<longleftrightarrow> author_seq d \<in> author_seq ` set (ba_changes ?b)" for d
    by (auto simp: record_has_actor_seq batch_seqs [OF inv])
  have "lc_hash c \<notin> set (map lc_hash (ba_changes b @ am_queue am))" using fh by force
  then have dist: "distinct (map lc_hash (ba_changes ?b @ am_queue am))"
    using batch_distinct [OF inv] by auto
  have "batch_inv am ?b (insert c Q)"
    unfolding batch_inv_def using seqs dist batch_set [OF inv] batch_hashes [OF inv] batch_causal [OF inv] ready fr
    by (simp add: unknown_insert fresh_def causal_append)
  with 1 2 show ?thesis by (simp add: batch_push_def Let_def)
qed

lemma enqueue_inv:
  assumes inv: "batch_inv am b Q" and ok: "pool_ok am (insert c Q)" and fr: "fresh am b c"
  shows "batch_inv (am\<lparr>am_queue := am_queue am @ [c]\<rparr>) b (insert c Q)"
proof -
  have "lc_hash c \<notin> set (map lc_hash (ba_changes b @ am_queue am))"
    using fresh_hash [OF inv ok fr] by force
  then show ?thesis
    using batch_distinct [OF inv] batch_set [OF inv] batch_hashes [OF inv] batch_causal [OF inv]
      batch_seqs [OF inv] fr
    by (auto simp: batch_inv_def unknown_insert fresh_def)
qed

lemma skip_inv:
  assumes inv: "batch_inv am b Q" and ok: "pool_ok am (insert c Q)" and "\<not> fresh am b c"
  shows "batch_inv am b (insert c Q)"
proof -
  have "unknown am (insert c Q) = unknown am Q"
    using assms(3) batch_set [OF inv] by (auto simp: fresh_def unknown_def)
  then show ?thesis using inv by (simp add: batch_inv_def)
qed

lemma has_change_fresh:
  assumes "graph_wf (am_graph am)" and inv: "batch_inv am b Q" and ok: "pool_ok am (insert c Q)"
  shows "batch_has_change b am (lc_hash c) \<longleftrightarrow> \<not> fresh am b c"
proof
  assume "batch_has_change b am (lc_hash c)"
  then consider "lc_hash c \<in> known am" | d where "d \<in> set (ba_changes b @ am_queue am)" "lc_hash d = lc_hash c"
    using batch_hashes [OF inv] has_change_known [OF assms(1)]
    by (simp add: batch_has_change_def ready_q_has_hash_def list_ex_iff image_iff) metis
  then show "\<not> fresh am b c"
    using fresh_hash [OF inv ok] by cases (auto simp: fresh_def)
next
  assume "\<not> fresh am b c"
  then show "batch_has_change b am (lc_hash c)"
    using batch_hashes [OF inv] has_change_known [OF assms(1)]
    by (auto simp: batch_has_change_def fresh_def ready_q_has_hash_def list_ex_iff)
qed

lemma not_duplicate:
  assumes inv: "batch_inv am b Q" and ok: "pool_ok am (insert c Q)" and fr: "fresh am b c"
  shows "\<not> duplicate_seq b am c"
proof -
  have "\<not> doc_has_actor_seq am c" using ok fr by (auto simp: pool_ok_def unknown_def fresh_def)
  then show ?thesis
    using fresh_hash [OF inv ok fr]
    by (fastforce simp: duplicate_seq_def batch_seqs [OF inv] ready_q_has_dupe_def list_ex_iff author_seq_def)
qed

lemma ready_iff:
  "graph_wf (am_graph am) \<Longrightarrow> is_causally_ready am c r \<longleftrightarrow> set (lc_deps c) \<subseteq> known am \<union> r"
  by (auto simp: is_causally_ready_def list_all_iff has_change_known)

subsection \<open>The two loops\<close>

lemma batch_loop_ok:
  assumes "graph_wf (am_graph am)" and "batch_inv am b Q" and "pool_ok am (Q \<union> set cs)"
  shows "\<exists>q b'. batch_loop cs am b = Some (am\<lparr>am_queue := q\<rparr>, b', Inr ()) \<and> batch_inv (am\<lparr>am_queue := q\<rparr>) b' (Q \<union> set cs)"
  using assms
proof (induction cs arbitrary: am b Q)
  case Nil
  then show ?case by (auto intro!: exI [of _ "am_queue am"])
next
  case (Cons c cs)
  have ok: "pool_ok am (insert c Q)" by (rule pool_ok_mono [OF Cons.prems(3)]) auto
  have pool: "Q \<union> set (c # cs) = insert c Q \<union> set cs" by simp
  note hc = has_change_fresh [OF Cons.prems(1,2) ok]
  show ?case
  proof (cases "fresh am b c")
    case False
    then show ?thesis
      using Cons.IH [OF Cons.prems(1) skip_inv [OF Cons.prems(2) ok False]] Cons.prems(3) hc by simp
  next
    case True
    note nd = not_duplicate [OF Cons.prems(2) ok True]
    show ?thesis
    proof (cases "is_causally_ready am c (ba_hashes b)")
      case ready: True
      then obtain b' where b': "batch_push b c = Some b'" "batch_inv am b' (insert c Q)"
        using push_inv [OF Cons.prems(2) ok True] ready_iff [OF Cons.prems(1)] by auto
      then show ?thesis using Cons.IH [OF Cons.prems(1) b'(2)] Cons.prems(3) hc True nd ready by simp
    next
      case wait: False
      then show ?thesis
        using Cons.IH [of "am\<lparr>am_queue := am_queue am @ [c]\<rparr>" b "insert c Q"] Cons.prems hc True nd
          enqueue_inv [OF Cons.prems(2) ok True] by simp
    qed
  qed
qed

lemma mset_swap_remove:
  assumes "i < length xs"
  shows "mset xs = add_mset (xs ! i) (mset (swap_remove i xs))"
proof -
  from assms obtain ys z where xs: "xs = ys @ [z]" by (metis list.size(3) not_less_zero rev_exhaust)
  show ?thesis
  proof (cases "i < length ys")
    case True
    then have "add_mset (ys ! i) (mset (ys[i := z])) = add_mset z (mset ys)" by (simp add: mset_update)
    with True show ?thesis by (simp add: xs swap_remove_def list_update_append nth_append)
  next
    case False
    then have "i = length ys" using assms xs by simp
    then show ?thesis by (simp add: xs swap_remove_def list_update_append)
  qed
qed

lemma take_inv:
  assumes inv: "batch_inv am b P" and i: "i < length (am_queue am)" and c: "c = am_queue am ! i"
    and am': "am' = am\<lparr>am_queue := swap_remove i (am_queue am)\<rparr>"
  shows "batch_inv am' b (P - {c})" and "fresh am' b c" and "c \<in> P"
proof -
  let ?q = "swap_remove i (am_queue am)"
  have m: "mset (ba_changes b @ am_queue am) = mset (c # ba_changes b @ ?q)"
    using mset_swap_remove [OF i] by (simp add: c)
  then have "mset (map lc_hash (ba_changes b @ am_queue am)) = mset (map lc_hash (c # ba_changes b @ ?q))"
    by (simp only: mset_map)
  then have dist: "distinct (map lc_hash (c # ba_changes b @ ?q))"
    using batch_distinct [OF inv] mset_eq_imp_distinct_iff by blast
  have "set (ba_changes b @ am_queue am) = set (c # ba_changes b @ ?q)"
    using m by (rule mset_eq_setD)
  then have U: "unknown am P = insert c (set (ba_changes b) \<union> set ?q)"
    using batch_set [OF inv] by simp
  have notin: "c \<notin> set (ba_changes b) \<union> set ?q" using dist by auto
  then have "unknown am (P - {c}) = set (ba_changes b) \<union> set ?q"
    using U by (auto simp: unknown_def)
  then show "batch_inv am' b (P - {c})"
    using dist batch_hashes [OF inv] batch_seqs [OF inv] batch_causal [OF inv]
    by (simp add: batch_inv_def am')
  have "c \<in> unknown am P" using U by simp
  then show "fresh am' b c" "c \<in> P" using notin by (simp_all add: fresh_def am' unknown_def)
qed

lemma batch_drain_ok:
  assumes "graph_wf (am_graph am)" and "batch_inv am b P" and "pool_ok am P"
  shows "\<exists>q b'. batch_drain am b = Some (am\<lparr>am_queue := q\<rparr>, b') \<and> batch_inv (am\<lparr>am_queue := q\<rparr>) b' P
    \<and> (\<forall>c \<in> set q. \<not> set (lc_deps c) \<subseteq> known am \<union> ba_hashes b')"
  using assms
proof (induction "length (am_queue am)" arbitrary: am b rule: less_induct)
  case less
  show ?case
  proof (cases "ready_index am (ba_hashes b) 0 (am_queue am)")
    case None
    then have "batch_drain am b = Some (am, b)"
      by (subst batch_drain.simps) (simp add: pop_next_causally_ready_change_def)
    moreover have "\<forall>c \<in> set (am_queue am). \<not> set (lc_deps c) \<subseteq> known am \<union> ba_hashes b"
      using None by (simp add: ready_index_None ready_iff [OF less.prems(1)])
    ultimately show ?thesis using less.prems(2) by (intro exI [of _ "am_queue am"] exI [of _ b]) simp
  next
    case (Some i)
    define am1 where "am1 = am\<lparr>am_queue := swap_remove i (am_queue am)\<rparr>"
    define c where "c = am_queue am ! i"
    from ready_index_Some [OF Some] have i: "i < length (am_queue am)" and r: "is_causally_ready am c (ba_hashes b)"
      by (auto simp: c_def)
    note t = take_inv [OF less.prems(2) i c_def am1_def]
    have g1: "graph_wf (am_graph am1)" and k1: "known am1 = known am" using less.prems(1) by (simp_all add: am1_def)
    have ins: "insert c (P - {c}) = P" using t(3) by auto
    have ok: "pool_ok am1 P" using less.prems(3) by (simp add: am1_def)
    then obtain b' where b': "batch_push b c = Some b'" "batch_inv am1 b' P"
      using push_inv [OF t(1) _ t(2)] r ins ready_iff [OF less.prems(1)] k1 by auto
    have "length (am_queue am1) < length (am_queue am)" using i by (simp add: am1_def)
    from less.hyps [OF this g1 b'(2) ok]
    obtain q b'' where q: "batch_drain am1 b' = Some (am1\<lparr>am_queue := q\<rparr>, b'')" "batch_inv (am1\<lparr>am_queue := q\<rparr>) b'' P"
      "\<forall>c \<in> set q. \<not> set (lc_deps c) \<subseteq> known am1 \<union> ba_hashes b''" by blast
    have "batch_drain am b = batch_drain am1 b'"
      using Some by (subst batch_drain.simps) (simp add: pop_next_causally_ready_change_def am1_def [symmetric] c_def [symmetric] b')
    then show ?thesis using q k1 by (intro exI [of _ q] exI [of _ b'']) (simp add: am1_def)
  qed
qed

text \<open>What was taken when no change of the queue is ready is what the specification delivers.\<close>

lemma taken_delivered:
  assumes inv: "batch_inv am b P"
    and "\<forall>c \<in> set (am_queue am). \<not> set (lc_deps c) \<subseteq> known am \<union> ba_hashes b"
  shows "set (ba_changes b) = unknown am (delivered (known am) P)"
proof
  have "set (ba_changes b) \<subseteq> unknown am P" using batch_set [OF inv] by blast
  moreover from this have "set (ba_changes b) \<subseteq> delivered (known am) P"
    using causal_delivered [of "known am" "[]" "ba_changes b" P] batch_causal [OF inv] by (auto simp: unknown_def)
  ultimately show "set (ba_changes b) \<subseteq> unknown am (delivered (known am) P)" by (auto simp: unknown_def)
next
  have "lc_hash c \<notin> known am \<longrightarrow> c \<in> set (ba_changes b)" if "c \<in> delivered (known am) P" for c
    using that
  proof induction
    case (deliver c)
    have "set (lc_deps c) \<subseteq> known am \<union> ba_hashes b"
      using deliver(2) by (auto simp: batch_hashes [OF inv])
    then show ?case using assms(2) deliver(1) batch_set [OF inv] by (auto simp: unknown_def)
  qed
  then show "unknown am (delivered (known am) P) \<subseteq> set (ba_changes b)" by (auto simp: unknown_def)
qed

text \<open>The start: an empty batch over the queue of the document.\<close>

definition queue_ok :: "'c automerge \<Rightarrow> bool" where
  "queue_ok am \<longleftrightarrow> distinct (map lc_hash (am_queue am)) \<and> pool_ok am (set (am_queue am))
     \<and> (\<forall>c \<in> set (am_queue am). lc_hash c \<notin> known am)"

lemma batch_inv_start: "queue_ok am \<Longrightarrow> batch_inv am default_batch (set (am_queue am))"
  by (auto simp: batch_inv_def default_batch_def queue_ok_def unknown_def batch_has_actor_seq_def)

lemma batch_taken:
  assumes wf: "graph_wf (am_graph am)" and q: "queue_ok am" and ok: "pool_ok am (set (am_queue am) \<union> set cs)"
  defines "P \<equiv> set (am_queue am) \<union> set cs"
  shows "\<exists>q1 b1 q b. batch_loop cs am default_batch = Some (am\<lparr>am_queue := q1\<rparr>, b1, Inr ())
    \<and> batch_drain (am\<lparr>am_queue := q1\<rparr>) b1 = Some (am\<lparr>am_queue := q\<rparr>, b)
    \<and> batch_inv (am\<lparr>am_queue := q\<rparr>) b P \<and> set (ba_changes b) = unknown am (delivered (known am) P)"
proof -
  obtain q1 b1 where 1: "batch_loop cs am default_batch = Some (am\<lparr>am_queue := q1\<rparr>, b1, Inr ())"
    "batch_inv (am\<lparr>am_queue := q1\<rparr>) b1 P"
    using batch_loop_ok [OF wf batch_inv_start [OF q] ok] by (auto simp: P_def)
  have w1: "graph_wf (am_graph (am\<lparr>am_queue := q1\<rparr>))" "pool_ok (am\<lparr>am_queue := q1\<rparr>) P"
    using wf ok by (simp_all add: P_def)
  from batch_drain_ok [OF w1(1) 1(2) w1(2)] obtain q b where
    2: "batch_drain (am\<lparr>am_queue := q1\<rparr>) b1 = Some (am\<lparr>am_queue := q\<rparr>, b)" "batch_inv (am\<lparr>am_queue := q\<rparr>) b P"
      "\<forall>c \<in> set q. \<not> set (lc_deps c) \<subseteq> known am \<union> ba_hashes b"
    by auto
  have "set (ba_changes b) = unknown am (delivered (known am) P)"
    using taken_delivered [OF 2(2)] 2(3) by simp
  then show ?thesis using 1 2 by blast
qed

end
