(* ===== verification/Doc_Actors.thy ===== *)
theory Doc_Actors
  imports Document
begin

text \<open>
  The table of actors of a document: it is sorted, it names the author of every node of the graph, and
  making room for a new actor changes neither who wrote what nor who the current actor is.
\<close>

lemma search_actor_Inr:
  assumes "sorted_wrt (<) actors"
  shows "search_actor actors a = Inr i \<longleftrightarrow> i < length actors \<and> actors ! i = a"
proof -
  have "length (takeWhile (\<lambda>x. x < a) actors) = j" if j: "j < length actors" "actors ! j = a" for j
  proof -
    have "takeWhile (\<lambda>x. x < a) actors = take j actors"
      by (rule takeWhile_eq_take_P_nth) (use assms j in \<open>auto simp: sorted_wrt_iff_nth_less\<close>)
    with j show ?thesis by simp
  qed
  note len = this
  show ?thesis
  proof
    assume "search_actor actors a = Inr i"
    then show "i < length actors \<and> actors ! i = a" by (auto simp: search_actor_def Let_def split: if_splits)
  next
    assume i: "i < length actors \<and> actors ! i = a"
    then show "search_actor actors a = Inr i" using len [of i] by (simp add: search_actor_def Let_def)
  qed
qed

lemma search_actor_Inl:
  assumes "sorted_wrt (<) actors" and "search_actor actors a = Inl i"
  shows "i \<le> length actors \<and> a \<notin> set actors \<and> sorted_wrt (<) (take i actors @ a # drop i actors)"
proof -
  have notin: "a \<notin> set actors"
    using search_actor_Inr [OF assms(1), of a] assms(2) by (auto simp: in_set_conv_nth)
  have i: "i = length (takeWhile (\<lambda>x. x < a) actors)"
    using assms(2) by (auto simp: search_actor_def Let_def split: if_splits)
  then have t: "take i actors = takeWhile (\<lambda>x. x < a) actors" by (simp add: takeWhile_eq_take [symmetric])
  have d: "drop i actors = dropWhile (\<lambda>x. x < a) actors" using i by (simp add: dropWhile_eq_drop)
  have "sorted_wrt (<) (takeWhile (\<lambda>x. x < a) actors @ dropWhile (\<lambda>x. x < a) actors)" using assms(1) by simp
  then have s: "sorted_wrt (<) (takeWhile (\<lambda>x. x < a) actors)" "sorted_wrt (<) (dropWhile (\<lambda>x. x < a) actors)"
    "\<forall>x \<in> set (takeWhile (\<lambda>x. x < a) actors). \<forall>y \<in> set (dropWhile (\<lambda>x. x < a) actors). x < y"
    unfolding sorted_wrt_append by blast+
  have "a < y" if y: "y \<in> set (dropWhile (\<lambda>x. x < a) actors)" for y
  proof -
    from y obtain z zs where z: "dropWhile (\<lambda>x. x < a) actors = z # zs" by (cases "dropWhile (\<lambda>x. x < a) actors") auto
    then have "\<not> z < a" using hd_dropWhile [of "\<lambda>x. x < a" actors] by auto
    moreover have "z \<in> set actors" using z set_dropWhileD [of z] by (metis list.set_intros(1))
    ultimately have "a < z" using notin by (metis not_less_iff_gr_or_eq)
    then show ?thesis using y s(2) z by auto
  qed
  moreover have "i \<le> length actors" by (simp add: i length_takeWhile_le)
  ultimately show ?thesis
    using s notin unfolding t d sorted_wrt_append by (auto dest: set_takeWhileD)
qed

lemma lookup_actor_Some:
  assumes "sorted_wrt (<) actors"
  shows "lookup_actor actors a = Some i \<longleftrightarrow> i < length actors \<and> actors ! i = a"
proof -
  have "lookup_actor actors a = Some i \<longleftrightarrow> search_actor actors a = Inr i"
    by (cases "search_actor actors a") (simp_all add: lookup_actor_def)
  then show ?thesis using search_actor_Inr [OF assms] by simp
qed

lemma lookup_actor_None: "sorted_wrt (<) actors \<Longrightarrow> lookup_actor actors a = None \<longleftrightarrow> a \<notin> set actors"
  using lookup_actor_Some [of actors a] by (metis in_set_conv_nth not_None_eq nth_mem)

subsection \<open>The history of a document\<close>

text \<open>The part of the invariant of a document that is about its graph, its heads and its actors.\<close>

definition hist_ok :: "'c automerge \<Rightarrow> bool" where
  "hist_ok am \<longleftrightarrow> graph_wf (am_graph am) \<and> am_deps am = cg_heads (am_graph am)
     \<and> sorted_wrt (<) (am_actors am) \<and> length (am_actors am) = num_actors (am_graph am)
     \<and> (\<forall>i. am_actor am = Cached i \<longrightarrow> i < length (am_actors am))"

lemma hist_okD:
  assumes "hist_ok am"
  shows hist_wf: "graph_wf (am_graph am)"
    and hist_core: "core_inv (am_graph am) (length (cg_hashes (am_graph am)))"
    and hist_deps: "am_deps am = cg_heads (am_graph am)"
    and hist_sorted: "sorted_wrt (<) (am_actors am)"
    and hist_length: "length (am_actors am) = length (cg_seq_index (am_graph am))"
    and hist_actor: "am_actor am = Cached i \<Longrightarrow> i < length (am_actors am)"
  using assms unfolding hist_ok_def graph_wf_def num_actors_def by simp_all

text \<open>The change with hash \<open>h\<close> is number \<open>k\<close> of the actor \<open>a\<close>.\<close>

definition recorded :: "'c automerge \<Rightarrow> change_hash \<Rightarrow> actor_id \<Rightarrow> nat \<Rightarrow> bool" where
  "recorded am h a k \<longleftrightarrow> (\<exists>n < length (cg_hashes (am_graph am)). cg_hashes (am_graph am) ! n = h
     \<and> am_actors am ! (cg_actors (am_graph am) ! n) = a \<and> unat (cg_seq (am_graph am) ! n) = k)"

lemma seq_count:
  assumes "hist_ok am" and "i < length (am_actors am)"
  shows "doc_seq_for_actor am (am_actors am ! i) = length (cg_seq_index (am_graph am) ! i)"
  using lookup_actor_Some [OF hist_sorted [OF assms(1)], of "am_actors am ! i" i] assms(2) hist_length [OF assms(1)]
  by (simp add: doc_seq_for_actor_def seq_for_actor_def vec_at_def)

lemma seq_count_none:
  assumes "hist_ok am" and "a \<notin> set (am_actors am)"
  shows "doc_seq_for_actor am a = 0"
  using lookup_actor_None [OF hist_sorted [OF assms(1)], of a] assms(2) by (simp add: doc_seq_for_actor_def)

subsection \<open>New actors\<close>

text \<open>What a new actor leaves as it is.\<close>

definition same_history :: "'c automerge \<Rightarrow> 'c automerge \<Rightarrow> bool" where
  "same_history am am' \<longleftrightarrow> cg_hashes (am_graph am') = cg_hashes (am_graph am)
     \<and> cg_edges (am_graph am') = cg_edges (am_graph am) \<and> am_queue am' = am_queue am \<and> am_deps am' = am_deps am
     \<and> am_max_op am' = am_max_op am \<and> get_actor am' = get_actor am \<and> recorded am' = recorded am
     \<and> doc_seq_for_actor am' = doc_seq_for_actor am"

lemma same_history_refl [simp]: "same_history am am"
  by (simp add: same_history_def)

lemma same_history_trans: "same_history am am1 \<Longrightarrow> same_history am1 am2 \<Longrightarrow> same_history am am2"
  by (simp add: same_history_def)

lemma set_take_insert: "i \<le> length xs \<Longrightarrow> set (take i xs @ x # drop i xs) = insert x (set xs)"
  by (metis append_take_drop_id list.set(2) set_append Un_insert_right)

lemma nth_insert_bump: "i \<le> length xs \<Longrightarrow> j < length xs \<Longrightarrow> (take i xs @ x # drop i xs) ! bump i j = xs ! j"
  by (simp add: nth_vec_insert bump_def)

lemma insert_actor_hist:
  assumes ok: "hist_ok am" and a: "search_actor (am_actors am) a = Inl i" and sz: "length (am_actors am) < 2 ^ 32"
  shows "\<exists>am'. doc_insert_actor s am i a = Some (am', i) \<and> hist_ok am' \<and> same_history am am'
    \<and> set (am_actors am') = insert a (set (am_actors am)) \<and> length (am_actors am') = Suc (length (am_actors am))"
proof -
  let ?g = "am_graph am" and ?A = "take i (am_actors am) @ a # drop i (am_actors am)"
  note hd = hist_okD [OF ok]
  from search_actor_Inl [OF hist_sorted [OF ok] a]
  have i: "i \<le> length (am_actors am)" and new: "a \<notin> set (am_actors am)" and srt: "sorted_wrt (<) ?A" by auto
  have i': "i \<le> num_actors ?g" and sz': "num_actors ?g < 2 ^ 32"
    using i sz hist_length [OF ok] by (simp_all add: num_actors_def)
  obtain ops where ops: "doc_insert_actor s am i a = Some (am\<lparr>am_ops := ops, am_actors := ?A, am_graph := bumped ?g i,
      am_actor := actor_rewrite_with_new_actor (am_actor am) i\<rparr>, i)"
    using i insert_actor_eq [OF hist_wf [OF ok] i' sz'] by (simp add: doc_insert_actor_def vec_insert_def Let_def)
  define am' where "am' = am\<lparr>am_ops := ops, am_actors := ?A, am_graph := bumped ?g i,
      am_actor := actor_rewrite_with_new_actor (am_actor am) i\<rparr>"
  have sel: "am_graph am' = bumped ?g i" "am_actors am' = ?A" "am_queue am' = am_queue am" "am_deps am' = am_deps am"
    "am_max_op am' = am_max_op am" "am_actor am' = actor_rewrite_with_new_actor (am_actor am) i"
    by (simp_all add: am'_def)
  have act: "am_actor am' = Cached j \<longleftrightarrow> (\<exists>k. am_actor am = Cached k \<and> j = bump i k)" for j
    by (auto simp: sel actor_rewrite_with_new_actor_def bump_def split: doc_actor.splits)
  have "j < Suc (length (am_actors am))" if "am_actor am' = Cached j" for j
    using that hist_actor [OF ok] unfolding act by (auto simp: bump_def less_Suc_eq)
  then have ok': "hist_ok am'"
    unfolding hist_ok_def using bumped_wf [OF hist_wf [OF ok] i' sz'] hist_deps [OF ok] hist_length [OF ok] srt i
    by (simp add: sel num_actors_def)
  have ac: "cg_actors ?g ! n < length (am_actors am)" if "n < length (cg_hashes ?g)" for n
    using core_actor [OF hist_core [OF ok] that] hist_length [OF ok] by simp
  have "recorded am' = recorded am"
    using ac i core_lengths [OF hist_core [OF ok]]
    by (intro ext) (auto simp: recorded_def sel bumped_def nth_insert_bump)
  moreover have "doc_seq_for_actor am' b = doc_seq_for_actor am b" for b
  proof (cases "b \<in> set (am_actors am)")
    case True
    then obtain j where j: "j < length (am_actors am)" "am_actors am ! j = b" by (auto simp: in_set_conv_nth)
    have b: "am_actors am' ! bump i j = b" using i j by (simp add: sel nth_insert_bump)
    have l: "bump i j < length (am_actors am')" using i j by (simp add: sel bump_def)
    show ?thesis
      using seq_count [OF ok j(1)] seq_count [OF ok' l] j b i hist_length [OF ok]
      by (simp add: sel bumped_def nth_insert_bump)
  next
    case False
    note none = seq_count_none [OF ok False]
    show ?thesis
    proof (cases "b = a")
      case True
      have "am_actors am' ! i = b" "i < length (am_actors am')" using i True by (auto simp: sel nth_append)
      then show ?thesis
        using seq_count [OF ok'] none i hist_length [OF ok] by (fastforce simp: sel bumped_def nth_append)
    next
      case other: False
      then have "b \<notin> set (am_actors am')" using False i by (simp only: sel set_take_insert) simp
      then show ?thesis using seq_count_none [OF ok'] none by simp
    qed
  qed
  moreover have "get_actor am' = get_actor am"
    using i hist_actor [OF ok]
    by (cases "am_actor am")
      (auto simp: get_actor_def sel actor_rewrite_with_new_actor_def vec_at_def nth_vec_insert)
  ultimately have "same_history am am'" by (auto simp: same_history_def sel bumped_def)
  moreover have "set (am_actors am') = insert a (set (am_actors am))" using i by (simp only: sel set_take_insert)
  ultimately show ?thesis using ops ok' i by (intro exI [of _ am']) (simp add: am'_def)
qed

lemma put_actor_hist:
  assumes "hist_ok am" and "length (am_actors am) < 2 ^ 32"
  shows "\<exists>am' i. put_actor_ref s am a = Some (am', i) \<and> hist_ok am' \<and> same_history am am'
    \<and> set (am_actors am') = insert a (set (am_actors am)) \<and> length (am_actors am') \<le> Suc (length (am_actors am))
    \<and> i < length (am_actors am') \<and> am_actors am' ! i = a"
proof (cases "search_actor (am_actors am) a")
  case (Inl i)
  then obtain am' where am': "doc_insert_actor s am i a = Some (am', i)" "hist_ok am'" "same_history am am'"
    "set (am_actors am') = insert a (set (am_actors am))" "length (am_actors am') = Suc (length (am_actors am))"
    using insert_actor_hist [OF assms(1) Inl assms(2)] by blast
  have "am_actors am' = take i (am_actors am) @ a # drop i (am_actors am)" "i \<le> length (am_actors am)"
    using am'(1) by (auto simp: doc_insert_actor_def vec_insert_def bind_eq_Some_conv Let_def split: if_splits)
  then have "i < length (am_actors am') \<and> am_actors am' ! i = a" by (auto simp: nth_append)
  with am' Inl show ?thesis by (simp add: put_actor_ref_def)
next
  case (Inr i)
  then have "i < length (am_actors am) \<and> am_actors am ! i = a"
    using search_actor_Inr [OF hist_sorted [OF assms(1)]] by blast
  with Inr assms(1) show ?thesis by (auto simp: put_actor_ref_def)
qed

end
