(* ===== verification/Batch_Apply.thy ===== *)
theory Batch_Apply
  imports Batch_Order Doc_Actors
begin

text \<open>
  Applying the changes of a batch to the history of the document: no assertion of the code fails, the
  invariant of the document is kept, and the graph holds what the specification of the order delivers.
\<close>

subsection \<open>New actors\<close>

lemma insert_new_actors_hist:
  assumes "hist_ok am" and "length (am_actors am) + length cs < 2 ^ 32"
  shows "\<exists>am'. insert_new_actors s cs am = Some am' \<and> hist_ok am' \<and> same_history am am'
    \<and> set (am_actors am') = set (am_actors am) \<union> lc_actor_id ` {c \<in> set cs. lc_seq c = 1}
    \<and> length (am_actors am') \<le> length (am_actors am) + length cs"
  using assms
proof (induction cs arbitrary: am)
  case Nil
  then show ?case by (auto intro!: exI [of _ am])
next
  case (Cons c cs)
  show ?case
  proof (cases "lc_seq c = 1")
    case True
    obtain am1 i where 1: "put_actor_ref s am (lc_actor_id c) = Some (am1, i)" "hist_ok am1" "same_history am am1"
      "set (am_actors am1) = insert (lc_actor_id c) (set (am_actors am))"
      "length (am_actors am1) \<le> Suc (length (am_actors am))"
      using put_actor_hist [OF Cons.prems(1), of s "lc_actor_id c"] Cons.prems(2) by auto
    have "length (am_actors am1) + length cs < 2 ^ 32" using Cons.prems(2) 1(5) by simp
    from Cons.IH [OF 1(2) this] obtain am2 where 2: "insert_new_actors s cs am1 = Some am2" "hist_ok am2"
      "same_history am1 am2"
      "set (am_actors am2) = set (am_actors am1) \<union> lc_actor_id ` {c \<in> set cs. lc_seq c = 1}"
      "length (am_actors am2) \<le> length (am_actors am1) + length cs" by blast
    show ?thesis
    proof (intro exI [of _ am2] conjI)
      show "insert_new_actors s (c # cs) am = Some am2" using True 1(1) 2(1) by simp
      show "same_history am am2" by (rule same_history_trans [OF 1(3) 2(3)])
      show "set (am_actors am2) = set (am_actors am) \<union> lc_actor_id ` {d \<in> set (c # cs). lc_seq d = 1}"
        using True 1(4) 2(4) by auto
      show "length (am_actors am2) \<le> length (am_actors am) + length (c # cs)" using 1(5) 2(5) by simp
    qed (rule 2(2))
  next
    case False
    then have "{d \<in> set (c # cs). lc_seq d = 1} = {d \<in> set cs. lc_seq d = 1}" by auto
    then show ?thesis using Cons.IH [OF Cons.prems(1)] Cons.prems(2) False by (auto intro: le_SucI)
  qed
qed

subsection \<open>One change\<close>

lemma recorded_number:
  assumes ok: "hist_ok am" and r: "recorded am h a k"
  shows "a \<in> set (am_actors am) \<and> k \<le> doc_seq_for_actor am a \<and> h \<in> known am"
proof -
  let ?g = "am_graph am"
  note core = hist_core [OF ok]
  from r obtain n where n: "n < length (cg_hashes ?g)" "cg_hashes ?g ! n = h"
    "am_actors am ! (cg_actors ?g ! n) = a" "unat (cg_seq ?g ! n) = k" by (auto simp: recorded_def)
  let ?i = "cg_actors ?g ! n"
  have i: "?i < length (cg_seq_index ?g)" using core_actor [OF core n(1)] .
  have "n \<in> set (cg_seq_index ?g ! ?i)" using core_index [OF core i] n(1) by simp
  then obtain j where j: "j < length (cg_seq_index ?g ! ?i)" "cg_seq_index ?g ! ?i ! j = n"
    by (auto simp: in_set_conv_nth)
  have "k = Suc j" using core_seq [OF core i j(1)] j(2) n(4) by simp
  then show ?thesis
    using seq_count [OF ok, of ?i] i j(1) n hist_length [OF ok] by (auto simp: known_def)
qed

lemma update_history_ok:
  assumes ok: "hist_ok am" and new: "lc_hash c \<notin> known am" and deps: "set (lc_deps c) \<subseteq> known am"
    and sq: "\<not> doc_has_actor_seq am c"
    and prev: "lc_seq c = 1 \<or> (\<exists>h. recorded am h (lc_actor_id c) (unat (lc_seq c) - 1))"
    and act: "lc_actor_id c \<in> set (am_actors am)"
    and sz: "length (cg_hashes (am_graph am)) + 1 < 2 ^ 32"
      "length (cg_edges (am_graph am)) + length (lc_deps c) < 2 ^ 32"
    and ex: "lc_extra_bytes c \<noteq> None"
  shows "\<exists>am'. update_history am c k = Some am' \<and> hist_ok am' \<and> known am' = insert (lc_hash c) (known am)
    \<and> am_deps am' = insert (lc_hash c) (am_deps am - set (lc_deps c))
    \<and> am_actors am' = am_actors am \<and> am_queue am' = am_queue am \<and> am_actor am' = am_actor am
    \<and> length (cg_hashes (am_graph am')) = length (cg_hashes (am_graph am)) + 1
    \<and> length (cg_edges (am_graph am')) = length (cg_edges (am_graph am)) + length (lc_deps c)
    \<and> (\<forall>h a k. recorded am h a k \<longrightarrow> recorded am' h a k)
    \<and> recorded am' (lc_hash c) (lc_actor_id c) (unat (lc_seq c))
    \<and> doc_seq_for_actor am' = (doc_seq_for_actor am)(lc_actor_id c := unat (lc_seq c))
    \<and> unat (lc_seq c) = doc_seq_for_actor am (lc_actor_id c) + 1"
proof -
  let ?g = "am_graph am"
  note core = hist_core [OF ok]
  obtain i where i: "i < length (am_actors am)" "am_actors am ! i = lc_actor_id c"
    using act by (auto simp: in_set_conv_nth)
  have li: "lookup_actor (am_actors am) (lc_actor_id c) = Some i"
    using lookup_actor_Some [OF hist_sorted [OF ok]] i by blast
  have cnt: "doc_seq_for_actor am (lc_actor_id c) = length (cg_seq_index ?g ! i)"
    using seq_count [OF ok i(1)] i(2) by simp
  have "unat (lc_seq c) - 1 \<le> doc_seq_for_actor am (lc_actor_id c)"
    using prev recorded_number [OF ok] by auto
  then have num: "unat (lc_seq c) = doc_seq_for_actor am (lc_actor_id c) + 1"
    using sq by (auto simp: doc_has_actor_seq_def)
  have ad: "addable ?g c i"
    unfolding addable_def
  proof (intro conjI)
    show "cg_nodes_by_hash ?g (lc_hash c) = None"
      using new core_nodes [OF core] by (metis known_def not_None_eq nth_mem)
    show "\<forall>h \<in> set (lc_deps c). cg_nodes_by_hash ?g h \<noteq> None"
      using deps has_change_known [OF hist_wf [OF ok]] by (auto simp: doc_has_change_def has_change_def)
    show "i < length (cg_seq_index ?g)" using i(1) hist_length [OF ok] by simp
    show "unat (lc_seq c) = length (cg_seq_index ?g ! i) + 1" using num cnt by simp
  qed (rule sz(2))
  from add_change_ok [OF hist_wf [OF ok] ad sz(1) ex] obtain g' where
    g': "add_change ?g c i = Some (Inr g')" "graph_wf g'" "cg_hashes g' = cg_hashes ?g @ [lc_hash c]"
    "cg_heads g' = insert (lc_hash c) (cg_heads ?g - set (lc_deps c))"
    "cg_seq_index g' = (cg_seq_index ?g)[i := cg_seq_index ?g ! i @ [length (cg_hashes ?g)]]"
    "cg_actors g' = cg_actors ?g @ [i]" "cg_seq g' = cg_seq ?g @ [ucast (lc_seq c)]"
    "length (cg_edges g') = length (cg_edges ?g) + length (lc_deps c)" by blast
  obtain m where up: "update_history am c k = Some (am\<lparr>am_max_op := m,
      am_deps := insert (lc_hash c) (am_deps am - set (lc_deps c)), am_graph := g'\<rparr>)"
    using li g'(1) by (simp add: update_history_def update_deps_def Let_def)
  define am' where "am' = am\<lparr>am_max_op := m,
      am_deps := insert (lc_hash c) (am_deps am - set (lc_deps c)), am_graph := g'\<rparr>"
  have sel: "am_graph am' = g'" "am_deps am' = insert (lc_hash c) (am_deps am - set (lc_deps c))"
    "am_actors am' = am_actors am" "am_queue am' = am_queue am" "am_actor am' = am_actor am"
    by (simp_all add: am'_def)
  have ok': "hist_ok am'"
    unfolding hist_ok_def using g' hist_deps [OF ok] hist_sorted [OF ok] hist_length [OF ok] hist_actor [OF ok]
    by (simp add: sel num_actors_def)
  have lens: "length (cg_actors ?g) = length (cg_hashes ?g)" "length (cg_seq ?g) = length (cg_hashes ?g)"
    using core_lengths [OF core] by simp_all
  have old: "recorded am' h a k" if "recorded am h a k" for h a k
    using that lens unfolding recorded_def by (auto simp: sel g' nth_append)
  have num': "unat (lc_seq c) < 2 ^ 32"
  proof -
    have "length (cg_seq_index ?g ! i) \<le> length (cg_hashes ?g)"
      using core_index [OF core, of i] i(1) hist_length [OF ok] by (metis diff_zero length_filter_le length_upt)
    then show ?thesis using num cnt sz(1) by simp
  qed
  then have "unat (ucast (lc_seq c) :: u32) = unat (lc_seq c)" by (simp add: unsigned_ucast_eq take_bit_nat_eq_self)
  then have new': "recorded am' (lc_hash c) (lc_actor_id c) (unat (lc_seq c))"
    using lens i(2) unfolding recorded_def by (auto simp: sel g' nth_append intro!: exI [of _ "length (cg_hashes ?g)"])
  have seqs: "doc_seq_for_actor am' = (doc_seq_for_actor am)(lc_actor_id c := unat (lc_seq c))"
  proof
    fix b
    show "doc_seq_for_actor am' b = ((doc_seq_for_actor am)(lc_actor_id c := unat (lc_seq c))) b"
    proof (cases "b \<in> set (am_actors am)")
      case True
      then obtain j where j: "j < length (am_actors am)" "am_actors am ! j = b" by (auto simp: in_set_conv_nth)
      have "j = i \<longleftrightarrow> b = lc_actor_id c"
        using lookup_actor_Some [OF hist_sorted [OF ok]] i j by (metis option.inject)
      then show ?thesis
        using seq_count [OF ok j(1)] seq_count [OF ok', of j] j num cnt hist_length [OF ok]
        by (auto simp: sel g' nth_list_update)
    next
      case False
      then have "b \<noteq> lc_actor_id c" using act by blast
      then show ?thesis using seq_count_none [OF ok False] seq_count_none [OF ok', of b] False by (simp add: sel)
    qed
  qed
  show ?thesis
    using up ok' old new' seqs num g' by (intro exI [of _ am']) (simp add: am'_def known_def)
qed

subsection \<open>The changes of a batch\<close>

text \<open>
  The change before a change of the same actor: one of the dependencies, recorded in the document or
  among the changes of the pool. Transactions list it (\<open>transaction_args\<close>).
\<close>

definition continues :: "'c automerge \<Rightarrow> loaded_change set \<Rightarrow> loaded_change \<Rightarrow> bool" where
  "continues am P c \<longleftrightarrow> lc_seq c = 1 \<or> (\<exists>h \<in> set (lc_deps c). recorded am h (lc_actor_id c) (unat (lc_seq c) - 1)
     \<or> (\<exists>d \<in> P. lc_hash d = h \<and> lc_actor_id d = lc_actor_id c \<and> unat (lc_seq d) = unat (lc_seq c) - 1))"

definition total_deps :: "loaded_change list \<Rightarrow> nat" where
  "total_deps cs = sum_list (map (\<lambda>c. length (lc_deps c)) cs)"

definition room_for :: "'c automerge \<Rightarrow> loaded_change list \<Rightarrow> bool" where
  "room_for am cs \<longleftrightarrow> length (cg_hashes (am_graph am)) + length cs < 2 ^ 32
     \<and> length (cg_edges (am_graph am)) + total_deps cs < 2 ^ 32"

text \<open>A list of changes that the history can absorb one after the other.\<close>

definition absorbable :: "'c automerge \<Rightarrow> loaded_change list \<Rightarrow> bool" where
  "absorbable am cs \<longleftrightarrow> causal (known am) cs \<and> distinct (map lc_hash cs) \<and> distinct (map author_seq cs)
     \<and> room_for am cs
     \<and> (\<forall>c \<in> set cs. lc_hash c \<notin> known am \<and> \<not> doc_has_actor_seq am c \<and> continues am (set cs) c
          \<and> set (lc_actors c) \<subseteq> set (am_actors am) \<and> lc_extra_bytes c \<noteq> None)"

lemma author_in_actors: "lc_actor_id c \<in> set (lc_actors c)"
  by (simp add: lc_actor_id_def lc_actors_def)

lemma import_ops_ok:
  assumes "hist_ok am" and "set (lc_actors c) \<subseteq> set (am_actors am)" and "\<forall>m c. os_import_ops s m c \<noteq> None"
  shows "import_ops s am c \<noteq> None"
proof -
  have "those (map (lookup_actor (am_actors am)) xs) \<noteq> None" if "set xs \<subseteq> set (am_actors am)" for xs
    using that lookup_actor_None [OF hist_sorted [OF assms(1)]]
    by (induction xs) (auto split: option.splits)
  then show ?thesis using assms(2,3) by (auto simp: import_ops_def bind_eq_None_conv)
qed

lemma next_seq:
  assumes "\<not> doc_has_actor_seq am d" and "author_seq d \<noteq> author_seq c"
    and "doc_seq_for_actor am' = (doc_seq_for_actor am)(lc_actor_id c := unat (lc_seq c))"
    and "unat (lc_seq c) = doc_seq_for_actor am (lc_actor_id c) + 1"
  shows "\<not> doc_has_actor_seq am' d"
proof (cases "lc_actor_id d = lc_actor_id c")
  case True
  then have "unat (lc_seq d) \<noteq> unat (lc_seq c)"
    using assms(2) unat_eqI [of "lc_seq d" "lc_seq c"] by (auto simp: author_seq_def)
  then show ?thesis using assms True by (simp add: doc_has_actor_seq_def)
next
  case False
  then show ?thesis using assms by (simp add: doc_has_actor_seq_def)
qed

lemma absorb_step:
  assumes ok: "hist_ok am" and ab: "absorbable am (c # cs)"
  shows "\<exists>am'. update_history am c k = Some am' \<and> hist_ok am' \<and> absorbable am' cs
    \<and> known am' = insert (lc_hash c) (known am) \<and> am_deps am' = insert (lc_hash c) (am_deps am - set (lc_deps c))
    \<and> am_actors am' = am_actors am \<and> am_queue am' = am_queue am \<and> am_actor am' = am_actor am
    \<and> doc_seq_for_actor am' = (doc_seq_for_actor am)(lc_actor_id c := unat (lc_seq c))
    \<and> unat (lc_seq c) = doc_seq_for_actor am (lc_actor_id c) + 1
    \<and> (\<forall>h a k. recorded am h a k \<longrightarrow> recorded am' h a k)
    \<and> recorded am' (lc_hash c) (lc_actor_id c) (unat (lc_seq c))
    \<and> length (cg_hashes (am_graph am')) = length (cg_hashes (am_graph am)) + 1
    \<and> length (cg_edges (am_graph am')) = length (cg_edges (am_graph am)) + length (lc_deps c)"
proof -
  have c: "lc_hash c \<notin> known am" "set (lc_deps c) \<subseteq> known am" "\<not> doc_has_actor_seq am c"
    "lc_actor_id c \<in> set (am_actors am)" "lc_extra_bytes c \<noteq> None" "continues am (set (c # cs)) c"
    using ab author_in_actors [of c] by (auto simp: absorbable_def)
  have sz: "length (cg_hashes (am_graph am)) + 1 < 2 ^ 32"
    "length (cg_edges (am_graph am)) + length (lc_deps c) < 2 ^ 32"
    using ab by (auto simp: absorbable_def room_for_def total_deps_def)
  have others: "lc_hash d \<notin> known am" if "d \<in> set (c # cs)" for d
    using ab that by (auto simp: absorbable_def)
  have prev: "lc_seq c = 1 \<or> (\<exists>h. recorded am h (lc_actor_id c) (unat (lc_seq c) - 1))"
    using c(2,6) others unfolding continues_def by blast
  from update_history_ok [OF ok c(1-3) prev c(4) sz c(5), of k] obtain am' where
    am': "update_history am c k = Some am'" "hist_ok am'" "known am' = insert (lc_hash c) (known am)"
    "am_deps am' = insert (lc_hash c) (am_deps am - set (lc_deps c))"
    "am_actors am' = am_actors am" "am_queue am' = am_queue am" "am_actor am' = am_actor am"
    "length (cg_hashes (am_graph am')) = length (cg_hashes (am_graph am)) + 1"
    "length (cg_edges (am_graph am')) = length (cg_edges (am_graph am)) + length (lc_deps c)"
    "\<forall>h a k. recorded am h a k \<longrightarrow> recorded am' h a k"
    "recorded am' (lc_hash c) (lc_actor_id c) (unat (lc_seq c))"
    "doc_seq_for_actor am' = (doc_seq_for_actor am)(lc_actor_id c := unat (lc_seq c))"
    "unat (lc_seq c) = doc_seq_for_actor am (lc_actor_id c) + 1" by blast
  have "absorbable am' cs"
    unfolding absorbable_def
  proof (intro conjI ballI)
    show "causal (known am') cs" "distinct (map lc_hash cs)" "distinct (map author_seq cs)"
      using ab by (simp_all add: absorbable_def am'(3))
    show "room_for am' cs"
      using ab by (simp add: absorbable_def room_for_def am'(8,9) total_deps_def)
  next
    fix d assume d: "d \<in> set cs"
    have "lc_hash d \<noteq> lc_hash c" using ab d by (simp add: absorbable_def) (metis imageI)
    then show "lc_hash d \<notin> known am'" using ab d by (auto simp: absorbable_def am'(3))
    show "set (lc_actors d) \<subseteq> set (am_actors am')" "lc_extra_bytes d \<noteq> None"
      using ab d by (auto simp: absorbable_def am'(5))
    have "\<not> doc_has_actor_seq am d" "author_seq d \<noteq> author_seq c" using ab d by (simp_all add: absorbable_def) (metis imageI)
    then show "\<not> doc_has_actor_seq am' d" by (rule next_seq [OF _ _ am'(12,13)])
    have "continues am (set (c # cs)) d" using ab d by (auto simp: absorbable_def)
    then show "continues am' (set cs) d"
      using am'(10,11) unfolding continues_def by (metis set_ConsD)
  qed
  then show ?thesis using am' by blast
qed

text \<open>What absorbing a list of changes does to a document, whatever their order.\<close>

definition absorbed :: "'c automerge \<Rightarrow> loaded_change list \<Rightarrow> 'c automerge \<Rightarrow> bool" where
  "absorbed am cs am' \<longleftrightarrow> hist_ok am' \<and> known am' = known am \<union> lc_hash ` set cs
     \<and> am_deps am' = (am_deps am \<union> lc_hash ` set cs) - \<Union> (set ` lc_deps ` set cs)
     \<and> am_actors am' = am_actors am \<and> am_queue am' = am_queue am \<and> am_actor am' = am_actor am
     \<and> (\<forall>a. doc_seq_for_actor am' a = doc_seq_for_actor am a + length (filter (\<lambda>c. lc_actor_id c = a) cs))
     \<and> (\<forall>c. \<not> doc_has_actor_seq am c \<longrightarrow> author_seq c \<notin> author_seq ` set cs \<longrightarrow> \<not> doc_has_actor_seq am' c)
     \<and> (\<forall>h a k. recorded am h a k \<longrightarrow> recorded am' h a k)
     \<and> (\<forall>c \<in> set cs. recorded am' (lc_hash c) (lc_actor_id c) (unat (lc_seq c)))
     \<and> length (cg_hashes (am_graph am')) = length (cg_hashes (am_graph am)) + length cs
     \<and> length (cg_edges (am_graph am')) = length (cg_edges (am_graph am)) + total_deps cs"

lemma absorbedD:
  assumes "absorbed am cs am'"
  shows "hist_ok am'" "known am' = known am \<union> lc_hash ` set cs"
    "am_deps am' = (am_deps am \<union> lc_hash ` set cs) - \<Union> (set ` lc_deps ` set cs)"
    "am_actors am' = am_actors am" "am_queue am' = am_queue am" "am_actor am' = am_actor am"
    "doc_seq_for_actor am' a = doc_seq_for_actor am a + length (filter (\<lambda>c. lc_actor_id c = a) cs)"
    "\<not> doc_has_actor_seq am c \<Longrightarrow> author_seq c \<notin> author_seq ` set cs \<Longrightarrow> \<not> doc_has_actor_seq am' c"
    "recorded am h a k \<Longrightarrow> recorded am' h a k"
    "c \<in> set cs \<Longrightarrow> recorded am' (lc_hash c) (lc_actor_id c) (unat (lc_seq c))"
    "length (cg_hashes (am_graph am')) = length (cg_hashes (am_graph am)) + length cs"
    "length (cg_edges (am_graph am')) = length (cg_edges (am_graph am)) + total_deps cs"
  using assms unfolding absorbed_def by simp_all

lemma import_changes_ok:
  assumes "hist_ok am" and "absorbable am cs" and imp: "\<forall>m c. os_import_ops s m c \<noteq> None"
  shows "\<exists>am' ops'. import_changes s cs ops am = Some (am', ops') \<and> absorbed am cs am'"
  using assms(1,2)
proof (induction cs arbitrary: am ops)
  case Nil
  then show ?case by (auto simp: absorbed_def total_deps_def intro!: exI [of _ am])
next
  case (Cons c cs)
  obtain new_ops where imp_c: "import_ops s am c = Some new_ops"
    using import_ops_ok [OF Cons.prems(1) _ imp] Cons.prems(2) by (fastforce simp: absorbable_def)
  from absorb_step [OF Cons.prems, of "lc_num_ops c"] obtain am1 where
    1: "update_history am c (lc_num_ops c) = Some am1" "hist_ok am1" "absorbable am1 cs"
    "known am1 = insert (lc_hash c) (known am)" "am_deps am1 = insert (lc_hash c) (am_deps am - set (lc_deps c))"
    "am_actors am1 = am_actors am" "am_queue am1 = am_queue am" "am_actor am1 = am_actor am"
    "doc_seq_for_actor am1 = (doc_seq_for_actor am)(lc_actor_id c := unat (lc_seq c))"
    "unat (lc_seq c) = doc_seq_for_actor am (lc_actor_id c) + 1"
    "\<forall>h a k. recorded am h a k \<longrightarrow> recorded am1 h a k"
    "recorded am1 (lc_hash c) (lc_actor_id c) (unat (lc_seq c))"
    "length (cg_hashes (am_graph am1)) = length (cg_hashes (am_graph am)) + 1"
    "length (cg_edges (am_graph am1)) = length (cg_edges (am_graph am)) + length (lc_deps c)"
    by (elim exE conjE)
  from Cons.IH [OF 1(2,3), of "ops @ new_ops"] obtain am2 ops2 where
    2: "import_changes s cs (ops @ new_ops) am1 = Some (am2, ops2)" "absorbed am1 cs am2" by blast
  note ab = absorbedD [OF 2(2)]
  have deps: "set (lc_deps c) \<subseteq> known am" "\<forall>d \<in> set (c # cs). lc_hash d \<notin> known am"
    using Cons.prems(2) by (simp_all add: absorbable_def)
  have heads: "am_deps am2 = (am_deps am \<union> lc_hash ` set (c # cs)) - \<Union> (set ` lc_deps ` set (c # cs))"
  proof -
    have "lc_hash d \<notin> set (lc_deps c)" if "d \<in> set (c # cs)" for d using that deps by blast
    then show ?thesis by (auto simp: 1(5) ab(3))
  qed
  have seqs: "\<not> doc_has_actor_seq am2 d"
    if "\<not> doc_has_actor_seq am d" "author_seq d \<notin> author_seq ` set (c # cs)" for d
  proof -
    have "\<not> doc_has_actor_seq am1 d"
      by (rule next_seq [OF that(1) _ 1(9,10)]) (use that(2) in auto)
    then show ?thesis using ab(8) that(2) by simp
  qed
  have "absorbed am (c # cs) am2"
    unfolding absorbed_def using ab(1-7,9-12) heads seqs 1(4-14) by (simp add: total_deps_def)
  then show ?case using imp_c 1(1) 2(1) by simp
qed

subsection \<open>The whole batch\<close>

definition doc_wf :: "'c automerge \<Rightarrow> bool" where
  "doc_wf am \<longleftrightarrow> hist_ok am \<and> queue_ok am \<and> unused_actors (am_graph am) = []"

text \<open>The operation set never panics on what the document hands it.\<close>

definition store_total :: "('c, 'o) op_store \<Rightarrow> bool" where
  "store_total s \<longleftrightarrow> (\<forall>m c. os_import_ops s m c \<noteq> None) \<and> (\<forall>as ops x. os_merge s as ops x \<noteq> None)"

definition pool :: "'c automerge \<Rightarrow> loaded_change list \<Rightarrow> loaded_change set" where
  "pool am cs = set (am_queue am) \<union> set cs"

definition to_apply :: "'c automerge \<Rightarrow> loaded_change list \<Rightarrow> loaded_change set" where
  "to_apply am cs = unknown am (delivered (known am) (pool am cs))"

text \<open>
  Changes as documents make them: no equivocation; a change that is not the first of its actor lists the
  one before; the actors that a change mentions are known or make their first change in the batch.
\<close>

definition honest :: "'c automerge \<Rightarrow> loaded_change list \<Rightarrow> bool" where
  "honest am cs \<longleftrightarrow> pool_ok am (pool am cs)
     \<and> (\<forall>c \<in> to_apply am cs. continues am (unknown am (pool am cs)) c \<and> lc_extra_bytes c \<noteq> None
          \<and> set (lc_actors c) \<subseteq> set (am_actors am) \<union> lc_actor_id ` {d \<in> to_apply am cs. lc_seq d = 1})"

definition fits_indexes :: "'c automerge \<Rightarrow> loaded_change list \<Rightarrow> bool" where
  "fits_indexes am cs \<longleftrightarrow> room_for am (am_queue am @ cs)
     \<and> length (am_actors am) + length (am_queue am @ cs) < 2 ^ 32"

lemma sum_distinct_le:
  fixes f :: "'a \<Rightarrow> nat"
  assumes "distinct xs" and "set xs \<subseteq> set ys"
  shows "sum_list (map f xs) \<le> sum_list (map f ys)"
proof -
  have "sum f (set ys) \<le> sum_list (map f ys)"
  proof (induction ys)
    case (Cons y ys)
    then show ?case by (cases "y \<in> set ys") (auto simp: insert_absorb)
  qed simp
  moreover have "sum f (set xs) \<le> sum f (set ys)" using assms(2) by (intro sum_mono2) auto
  ultimately show ?thesis using assms(1) by (simp add: sum_list_distinct_conv_sum_set)
qed

lemma length_distinct_le: "distinct xs \<Longrightarrow> set xs \<subseteq> set ys \<Longrightarrow> length xs \<le> length ys"
  using sum_distinct_le [of xs ys "\<lambda>_. 1"] by (simp add: sum_list_triv)

lemma delivered_pool: "c \<in> delivered K P \<Longrightarrow> c \<in> P"
  by (erule delivered.cases) simp

lemma delivered_deps:
  "c \<in> delivered K P \<Longrightarrow> h \<in> set (lc_deps c) \<Longrightarrow> h \<in> K \<or> (\<exists>d \<in> delivered K P. lc_hash d = h)"
  by (erule delivered.cases) blast

lemma continues_taken:
  assumes "pool_ok am P" and c: "c \<in> delivered (known am) P" and "continues am (unknown am P) c"
  shows "continues am (unknown am (delivered (known am) P)) c"
proof -
  have "d \<in> unknown am (delivered (known am) P)" if d: "d \<in> unknown am P" "lc_hash d \<in> set (lc_deps c)" for d
  proof -
    obtain d' where "d' \<in> delivered (known am) P" "lc_hash d' = lc_hash d"
      using delivered_deps [OF c d(2)] d(1) by (auto simp: unknown_def)
    moreover from this have "d' = d"
      using pool_same_hash [OF assms(1), of d' d] delivered_pool d(1) by (auto simp: unknown_def)
    ultimately show ?thesis using d(1) by (simp add: unknown_def)
  qed
  then show ?thesis using assms(3) unfolding continues_def by blast
qed

lemma same_history_sel:
  assumes "same_history am am'"
  shows "known am' = known am" "doc_has_actor_seq am' c = doc_has_actor_seq am c" "continues am' P c = continues am P c"
    "room_for am' cs = room_for am cs" "am_queue am' = am_queue am" "am_deps am' = am_deps am"
    "doc_seq_for_actor am' = doc_seq_for_actor am" "get_actor am' = get_actor am"
  using assms unfolding same_history_def known_def doc_has_actor_seq_def continues_def room_for_def by simp_all

lemma queue_continues [simp]:
  "continues (am\<lparr>am_queue := q\<rparr>) P c = continues am P c" "room_for (am\<lparr>am_queue := q\<rparr>) cs = room_for am cs"
  "hist_ok (am\<lparr>am_queue := q\<rparr>) = hist_ok am" "get_actor (am\<lparr>am_queue := q\<rparr>) = get_actor am"
  "doc_seq_for_actor (am\<lparr>am_queue := q\<rparr>) a = doc_seq_for_actor am a"
  by (simp_all add: continues_def recorded_def room_for_def hist_ok_def get_actor_def doc_seq_for_actor_def
      cong: option.case_cong doc_actor.case_cong)

lemma ops_sel [simp]:
  "known (am\<lparr>am_ops := x\<rparr>) = known am" "hist_ok (am\<lparr>am_ops := x\<rparr>) = hist_ok am"
  "queue_ok (am\<lparr>am_ops := x\<rparr>) = queue_ok am" "get_actor (am\<lparr>am_ops := x\<rparr>) = get_actor am"
  "doc_has_actor_seq (am\<lparr>am_ops := x\<rparr>) c = doc_has_actor_seq am c" "recorded (am\<lparr>am_ops := x\<rparr>) = recorded am"
  by (simp_all add: fun_eq_iff recorded_def known_def hist_ok_def queue_ok_def get_actor_def pool_ok_def unknown_def
      doc_has_actor_seq_def doc_seq_for_actor_def cong: option.case_cong doc_actor.case_cong)

lemma all_used:
  assumes "hist_ok am"
  shows "unused_actors (am_graph am) = [] \<longleftrightarrow> (\<forall>a \<in> set (am_actors am). doc_seq_for_actor am a > 0)"
proof -
  have "unused_actors (am_graph am) = [] \<longleftrightarrow> (\<forall>i < length (am_actors am). cg_seq_index (am_graph am) ! i \<noteq> [])"
    using hist_length [OF assms] by (auto simp: unused_actors_def filter_empty_conv)
  also have "\<dots> \<longleftrightarrow> (\<forall>i < length (am_actors am). doc_seq_for_actor am (am_actors am ! i) > 0)"
    using seq_count [OF assms] by simp
  also have "\<dots> \<longleftrightarrow> (\<forall>a \<in> set (am_actors am). doc_seq_for_actor am a > 0)"
    unfolding all_set_conv_all_nth ..
  finally show ?thesis .
qed

lemma taken_absorbable:
  assumes hon: "honest am cs" and fit: "fits_indexes am cs" and wf: "doc_wf am"
    and inv: "batch_inv (am\<lparr>am_queue := q\<rparr>) b (pool am cs)" and taken: "set (ba_changes b) = to_apply am cs"
    and same: "same_history (am\<lparr>am_queue := q\<rparr>) am3"
    and act: "set (am_actors am3) = set (am_actors am) \<union> lc_actor_id ` {c \<in> set (ba_changes b). lc_seq c = 1}"
  shows "absorbable am3 (ba_changes b)"
proof -
  let ?P = "pool am cs"
  have ok: "pool_ok am ?P" using hon by (simp add: honest_def)
  have sub: "to_apply am cs \<subseteq> unknown am ?P"
    using delivered_pool by (auto simp: to_apply_def unknown_def)
  have dist: "distinct (map lc_hash (ba_changes b))" using batch_distinct [OF inv] by simp
  have "inj_on author_seq (set (ba_changes b))"
    using ok sub unfolding taken pool_ok_def by (blast intro: inj_on_subset)
  then have dist': "distinct (map author_seq (ba_changes b))" using dist by (simp add: distinct_map)
  have "distinct (ba_changes b)" using dist by (simp add: distinct_map)
  moreover have "set (ba_changes b) \<subseteq> set (am_queue am @ cs)" using sub taken by (auto simp: unknown_def pool_def)
  ultimately have le: "length (ba_changes b) \<le> length (am_queue am @ cs)"
    "total_deps (ba_changes b) \<le> total_deps (am_queue am @ cs)"
    unfolding total_deps_def by (rule length_distinct_le, rule sum_distinct_le)
  have room: "room_for am (ba_changes b)" using fit le by (auto simp: fits_indexes_def room_for_def)
  show ?thesis
    unfolding absorbable_def same_history_sel [OF same]
  proof (intro conjI ballI)
    show "causal (known (am\<lparr>am_queue := q\<rparr>)) (ba_changes b)" using batch_causal [OF inv] .
    show "distinct (map lc_hash (ba_changes b))" "distinct (map author_seq (ba_changes b))" by fact+
    show "room_for (am\<lparr>am_queue := q\<rparr>) (ba_changes b)" using room by simp
  next
    fix c assume "c \<in> set (ba_changes b)"
    then have c: "c \<in> to_apply am cs" by (simp add: taken)
    then show "lc_hash c \<notin> known (am\<lparr>am_queue := q\<rparr>)" "\<not> doc_has_actor_seq (am\<lparr>am_queue := q\<rparr>) c"
      using sub ok by (auto simp: unknown_def pool_ok_def)
    show "continues (am\<lparr>am_queue := q\<rparr>) (set (ba_changes b)) c"
      using continues_taken [OF ok, of c] c hon by (simp add: taken honest_def to_apply_def unknown_mem)
    show "set (lc_actors c) \<subseteq> set (am_actors am3)" "lc_extra_bytes c \<noteq> None"
      using c hon by (simp_all add: honest_def act taken)
  qed
qed

lemma queue_after:
  assumes ok: "pool_ok am (pool am cs)" and inv: "batch_inv (am\<lparr>am_queue := q\<rparr>) b (pool am cs)"
    and same: "same_history (am\<lparr>am_queue := q\<rparr>) am3" and ab: "absorbed am3 (ba_changes b) am4"
  shows "queue_ok am4 \<and> set (am_queue am4) = {c \<in> pool am cs. lc_hash c \<notin> known am4}"
proof -
  let ?P = "pool am cs"
  note abD = absorbedD [OF ab] and sh = same_history_sel [OF same]
  have q: "am_queue am4 = q" using abD(5) sh(5) by simp
  have U: "set (ba_changes b) \<union> set q = unknown am ?P" using batch_set [OF inv] by simp
  have dist: "distinct (map lc_hash (ba_changes b @ q))" using batch_distinct [OF inv] by simp
  have known4: "known am4 = known am \<union> lc_hash ` set (ba_changes b)" using abD(2) sh(1) by simp
  have new: "lc_hash c \<notin> known am4" "author_seq c \<notin> author_seq ` set (ba_changes b)" if c: "c \<in> set q" for c
  proof -
    have d: "lc_hash d \<noteq> lc_hash c" if "d \<in> set (ba_changes b)" for d using dist that c by fastforce
    moreover have "lc_hash c \<notin> known am" using c U by (auto simp: unknown_def)
    ultimately show "lc_hash c \<notin> known am4" by (metis UnE imageE known4)
    have "author_seq d \<noteq> author_seq c" if "d \<in> set (ba_changes b)" for d
      using pool_same_seq [OF ok, of d c] d [OF that] that c U by blast
    then show "author_seq c \<notin> author_seq ` set (ba_changes b)" by force
  qed
  have "\<not> doc_has_actor_seq am4 c" if c: "c \<in> set q" for c
  proof -
    have "\<not> doc_has_actor_seq am c" using ok c U by (auto simp: pool_ok_def)
    then have "\<not> doc_has_actor_seq am3 c" by (simp add: sh(2))
    then show ?thesis using new(2) [OF c] by (rule abD(8))
  qed
  moreover have "inj_on lc_hash (set q)" using dist by (simp add: distinct_map)
  moreover have "inj_on author_seq (unknown am4 (set q))"
    by (rule inj_on_subset [of _ "unknown am ?P"]) (use ok U in \<open>auto simp: pool_ok_def unknown_mem\<close>)
  moreover have "c \<in> set q" if "c \<in> unknown am4 (set q)" for c using that by (simp add: unknown_mem)
  ultimately have "queue_ok am4"
    unfolding queue_ok_def q pool_ok_def using dist new(1) by simp
  moreover have "set q = {c \<in> ?P. lc_hash c \<notin> known am4}"
    using U new(1) by (auto simp: known4 unknown_def)
  ultimately show ?thesis by (simp add: q)
qed

text \<open>The effect of a batch on the document.\<close>

definition applied :: "'c automerge \<Rightarrow> loaded_change list \<Rightarrow> 'c automerge \<Rightarrow> bool" where
  "applied am cs am' \<longleftrightarrow> doc_wf am' \<and> known am' = known am \<union> lc_hash ` to_apply am cs
     \<and> set (am_queue am') = {c \<in> pool am cs. lc_hash c \<notin> known am'}
     \<and> am_deps am' = (am_deps am \<union> lc_hash ` to_apply am cs) - \<Union> (set ` lc_deps ` to_apply am cs)
     \<and> get_actor am' = get_actor am
     \<and> set (am_actors am') = set (am_actors am) \<union> lc_actor_id ` {c \<in> to_apply am cs. lc_seq c = 1}
     \<and> (\<forall>c. \<not> doc_has_actor_seq am c \<longrightarrow> author_seq c \<notin> author_seq ` to_apply am cs \<longrightarrow> \<not> doc_has_actor_seq am' c)
     \<and> (\<forall>h a k. recorded am h a k \<longrightarrow> recorded am' h a k)
     \<and> (\<forall>c \<in> to_apply am cs. recorded am' (lc_hash c) (lc_actor_id c) (unat (lc_seq c)))
     \<and> (\<forall>rest. fits_indexes am (cs @ rest) \<longrightarrow> fits_indexes am' rest)"

lemma appliedD:
  assumes "applied am cs am'"
  shows "doc_wf am'" "known am' = known am \<union> lc_hash ` to_apply am cs"
    "set (am_queue am') = {c \<in> pool am cs. lc_hash c \<notin> known am'}"
    "am_deps am' = (am_deps am \<union> lc_hash ` to_apply am cs) - \<Union> (set ` lc_deps ` to_apply am cs)"
    "get_actor am' = get_actor am"
    "set (am_actors am') = set (am_actors am) \<union> lc_actor_id ` {c \<in> to_apply am cs. lc_seq c = 1}"
    "\<not> doc_has_actor_seq am c \<Longrightarrow> author_seq c \<notin> author_seq ` to_apply am cs \<Longrightarrow> \<not> doc_has_actor_seq am' c"
    "recorded am h a k \<Longrightarrow> recorded am' h a k"
    "c \<in> to_apply am cs \<Longrightarrow> recorded am' (lc_hash c) (lc_actor_id c) (unat (lc_seq c))"
    "fits_indexes am (cs @ rest) \<Longrightarrow> fits_indexes am' rest"
  using assms unfolding applied_def by simp_all

lemma apply_changes_ok:
  assumes wf: "doc_wf am" and hon: "honest am cs" and fit: "fits_indexes am cs" and st: "store_total s"
  shows "\<exists>am'. apply_changes s am cs = Some (am', Inr ()) \<and> applied am cs am'"
proof -
  let ?P = "pool am cs"
  have h: "hist_ok am" "queue_ok am" "unused_actors (am_graph am) = []" using wf by (simp_all add: doc_wf_def)
  have ok: "pool_ok am ?P" using hon by (simp add: honest_def)
  obtain q1 b1 q b where 1: "batch_loop cs am default_batch = Some (am\<lparr>am_queue := q1\<rparr>, b1, Inr ())"
    "batch_drain (am\<lparr>am_queue := q1\<rparr>) b1 = Some (am\<lparr>am_queue := q\<rparr>, b)"
    and inv: "batch_inv (am\<lparr>am_queue := q\<rparr>) b ?P" and taken: "set (ba_changes b) = to_apply am cs"
    using batch_taken [OF hist_wf [OF h(1)] h(2)] ok unfolding pool_def to_apply_def by blast
  let ?am2 = "am\<lparr>am_queue := q\<rparr>"
  have "distinct (map lc_hash (ba_changes b @ q))" using batch_distinct [OF inv] by simp
  then have "distinct (ba_changes b @ q)" by (simp only: distinct_map)
  moreover have "set (ba_changes b @ q) \<subseteq> set (am_queue am @ cs)"
    using batch_set [OF inv] by (auto simp: unknown_def pool_def)
  ultimately have le: "length (ba_changes b @ q) \<le> length (am_queue am @ cs)"
    "total_deps (ba_changes b @ q) \<le> total_deps (am_queue am @ cs)"
    unfolding total_deps_def by (rule length_distinct_le, rule sum_distinct_le)
  have "length (am_actors am) + length (ba_changes b) < 2 ^ 32" using fit le(1) by (simp add: fits_indexes_def)
  then obtain am3 where 3: "insert_new_actors s (ba_changes b) ?am2 = Some am3" "hist_ok am3" "same_history ?am2 am3"
    "set (am_actors am3) = set (am_actors am) \<union> lc_actor_id ` {c \<in> set (ba_changes b). lc_seq c = 1}"
    "length (am_actors am3) \<le> length (am_actors am) + length (ba_changes b)"
    using insert_new_actors_hist [of ?am2 "ba_changes b" s] h(1) by auto
  note sh = same_history_sel [OF 3(3)]
  obtain am4 ops where 4: "import_changes s (ba_changes b) [] am3 = Some (am4, ops)" and ab: "absorbed am3 (ba_changes b) am4"
    using import_changes_ok [OF 3(2) taken_absorbable [OF hon fit wf inv taken 3(3,4)], of s "[]"] st
    by (auto simp: store_total_def)
  note abD = absorbedD [OF ab]
  have "doc_seq_for_actor am4 a > 0" if a: "a \<in> set (am_actors am4)" for a
  proof (cases "a \<in> set (am_actors am)")
    case True
    then have "doc_seq_for_actor am a > 0" using h(3) all_used [OF h(1)] by blast
    then show ?thesis using abD(7) [of a] sh(7) by simp
  next
    case False
    then obtain c where "c \<in> set (ba_changes b)" "lc_actor_id c = a" using a abD(4) 3(4) by auto
    then have "filter (\<lambda>c. lc_actor_id c = a) (ba_changes b) \<noteq> []" by (auto simp: filter_empty_conv)
    then show ?thesis using abD(7) [of a] by (simp add: length_greater_0_conv [symmetric] del: length_greater_0_conv)
  qed
  then have used: "unused_actors (am_graph am4) = []" using all_used [OF abD(1)] by blast
  then have "remove_unused_actors s am4 = Some am4"
    by (cases "length (cg_seq_index (am_graph am4))") (simp_all add: remove_unused_actors_def)
  then have imp: "batch_import s b am3 = Some (am4, ops)" using 4 by (simp add: batch_import_def)
  obtain x where x: "os_merge s (am_actors am4) ops (am_ops am4) = Some x"
    using st unfolding store_total_def by fastforce
  define am5 where "am5 = am4\<lparr>am_ops := x\<rparr>"
  have "apply_changes s am cs = Some (am5, Inr ())"
    using 1 3(1) imp x by (simp add: apply_changes_def batch_apply_to_def am5_def)
  moreover have "applied am cs am5"
    unfolding applied_def
  proof (intro conjI allI impI ballI)
    note qa = queue_after [OF ok inv 3(3) ab]
    show "doc_wf am5" using abD(1) qa used by (simp add: doc_wf_def am5_def)
    show "known am5 = known am \<union> lc_hash ` to_apply am cs" using abD(2) sh(1) taken by (simp add: am5_def)
    show "set (am_queue am5) = {c \<in> ?P. lc_hash c \<notin> known am5}" using qa by (simp add: am5_def)
    show "am_deps am5 = (am_deps am \<union> lc_hash ` to_apply am cs) - \<Union> (set ` lc_deps ` to_apply am cs)"
      using abD(3) sh(6) taken by (simp add: am5_def)
    have "get_actor am5 = get_actor am3"
      using abD(4,6) by (simp add: am5_def get_actor_def cong: doc_actor.case_cong)
    then show "get_actor am5 = get_actor am" using sh(8) by simp
    show "set (am_actors am5) = set (am_actors am) \<union> lc_actor_id ` {c \<in> to_apply am cs. lc_seq c = 1}"
      using abD(4) 3(4) taken by (simp add: am5_def)
  next
    fix c assume "\<not> doc_has_actor_seq am c" "author_seq c \<notin> author_seq ` to_apply am cs"
    then show "\<not> doc_has_actor_seq am5 c" using abD(8) [of c] sh(2) [of c] taken by (simp add: am5_def)
  next
    fix h a k assume "recorded am h a k"
    then have "recorded ?am2 h a k" by (simp add: recorded_def)
    then have "recorded am3 h a k" using 3(3) by (simp add: same_history_def)
    then show "recorded am5 h a k" using abD(9) by (simp add: am5_def)
  next
    fix c assume "c \<in> to_apply am cs"
    then show "recorded am5 (lc_hash c) (lc_actor_id c) (unat (lc_seq c))"
      using abD(10) taken by (simp add: am5_def)
  next
    fix rest assume "fits_indexes am (cs @ rest)"
    moreover have "cg_hashes (am_graph am3) = cg_hashes (am_graph am)" "cg_edges (am_graph am3) = cg_edges (am_graph am)"
      using 3(3) by (simp_all add: same_history_def)
    moreover have "am_queue am5 = q" using abD(5) sh(5) by (simp add: am5_def)
    ultimately show "fits_indexes am5 rest"
      using abD(4,11,12) 3(5) le by (simp add: fits_indexes_def room_for_def am5_def total_deps_def)
  qed
  ultimately show ?thesis by blast
qed

end
