(* ===== verification/Convergence.thy ===== *)
theory Convergence
  imports Batch_Apply
begin

text \<open>
  Batches one after the other: which changes a document holds, which wait and which are its heads
  depends on the set of changes it was given only, not on their order nor on how they were grouped
  into calls.
\<close>

subsection \<open>Pools of changes\<close>

text \<open>
  The condition \<open>honest\<close> for all batches that are taken from a pool: every actor that a change mentions
  is known, or is its author and this the first change, or is mentioned by a dependency.
\<close>

definition honest_pool :: "'c automerge \<Rightarrow> loaded_change set \<Rightarrow> bool" where
  "honest_pool am P \<longleftrightarrow> pool_ok am P
     \<and> (\<forall>c \<in> unknown am P. continues am (unknown am P) c \<and> lc_extra_bytes c \<noteq> None
          \<and> (\<forall>a \<in> set (lc_actors c). a \<in> set (am_actors am) \<or> a = lc_actor_id c \<and> lc_seq c = 1
               \<or> (\<exists>d \<in> unknown am P. lc_hash d \<in> set (lc_deps c) \<and> a \<in> set (lc_actors d))))"

lemma delivered_dep:
  assumes "pool_ok am P" and "Q \<subseteq> P" and c: "c \<in> delivered (known am) Q"
    and d: "d \<in> unknown am P" "lc_hash d \<in> set (lc_deps c)"
  shows "d \<in> delivered (known am) Q"
proof -
  obtain d' where d': "d' \<in> delivered (known am) Q" "lc_hash d' = lc_hash d"
    using delivered_deps [OF c d(2)] d(1) by (auto simp: unknown_def)
  moreover from this have "d' = d"
    using pool_same_hash [OF assms(1), of d' d] delivered_pool assms(2) d(1) by (auto simp: unknown_def)
  ultimately show ?thesis by simp
qed

lemma first_changes:
  assumes hon: "honest_pool am P" and sub: "Q \<subseteq> P" and c: "c \<in> delivered (known am) Q"
  shows "lc_hash c \<notin> known am \<Longrightarrow>
    set (lc_actors c) \<subseteq> set (am_actors am) \<union> lc_actor_id ` {d \<in> unknown am (delivered (known am) Q). lc_seq d = 1}"
  using c
proof (induction rule: delivered.induct)
  case (deliver c)
  have c: "c \<in> delivered (known am) Q"
    by (rule delivered.deliver [OF deliver(1)]) (use deliver(2) in blast)
  then have cu: "c \<in> unknown am P" and "c \<in> unknown am (delivered (known am) Q)"
    using deliver(1,3) sub by (auto simp: unknown_def)
  show ?case
  proof
    fix a assume a: "a \<in> set (lc_actors c)"
    then consider "a \<in> set (am_actors am)" | "a = lc_actor_id c" "lc_seq c = 1"
      | d where "d \<in> unknown am P" "lc_hash d \<in> set (lc_deps c)" "a \<in> set (lc_actors d)"
      using hon cu unfolding honest_pool_def by blast
    then show "a \<in> set (am_actors am) \<union> lc_actor_id ` {d \<in> unknown am (delivered (known am) Q). lc_seq d = 1}"
    proof cases
      case 3
      have ok: "pool_ok am P" using hon by (simp add: honest_pool_def)
      obtain d' where d': "d' \<in> delivered (known am) Q" "lc_hash d' = lc_hash d" "lc_hash d' \<notin> known am \<longrightarrow>
          set (lc_actors d') \<subseteq> set (am_actors am) \<union> lc_actor_id ` {d \<in> unknown am (delivered (known am) Q). lc_seq d = 1}"
        using deliver(2) [OF 3(2)] 3(1) by (auto simp: unknown_def)
      moreover have "d' = d"
        using pool_same_hash [OF ok, of d' d] delivered_pool [OF d'(1)] sub d'(2) 3(1) by (auto simp: unknown_def)
      ultimately show ?thesis using 3 by (auto simp: unknown_def)
    qed (use \<open>c \<in> unknown am (delivered (known am) Q)\<close> in auto)
  qed
qed

lemma honest_poolD:
  assumes hon: "honest_pool am P" and sub: "pool am cs \<subseteq> P"
  shows "honest am cs"
proof -
  have ok: "pool_ok am P" using hon by (simp add: honest_pool_def)
  show ?thesis
    unfolding honest_def
  proof (intro conjI ballI)
    show "pool_ok am (pool am cs)" by (rule pool_ok_mono [OF ok sub])
  next
    fix c assume "c \<in> to_apply am cs"
    then have c: "c \<in> delivered (known am) (pool am cs)" "lc_hash c \<notin> known am" "c \<in> unknown am P"
      using delivered_pool sub by (auto simp: to_apply_def unknown_def)
    show "set (lc_actors c) \<subseteq> set (am_actors am) \<union> lc_actor_id ` {d \<in> to_apply am cs. lc_seq d = 1}"
      using first_changes [OF hon sub c(1,2)] by (simp add: to_apply_def)
    show "lc_extra_bytes c \<noteq> None" using hon c(3) by (simp add: honest_pool_def)
    have "d \<in> unknown am (pool am cs)" if d: "d \<in> unknown am P" "lc_hash d \<in> set (lc_deps c)" for d
      using delivered_pool [OF delivered_dep [OF ok sub c(1) d]] d(1) by (simp add: unknown_def)
    moreover have "continues am (unknown am P) c" using hon c(3) by (simp add: honest_pool_def)
    ultimately show "continues am (unknown am (pool am cs)) c" unfolding continues_def by blast
  qed
qed

lemma to_apply_sub: "to_apply am cs \<subseteq> unknown am (pool am cs)"
  using delivered_pool by (auto simp: to_apply_def unknown_def)

text \<open>An unknown change of the pool was applied exactly when its hash is known afterwards.\<close>

lemma known_after:
  assumes "pool_ok am P" and "pool am cs \<subseteq> P" and "applied am cs am'" and "c \<in> unknown am P"
  shows "lc_hash c \<in> known am' \<longleftrightarrow> c \<in> to_apply am cs"
proof
  assume "lc_hash c \<in> known am'"
  then obtain d where d: "d \<in> to_apply am cs" "lc_hash d = lc_hash c"
    using appliedD(2) [OF assms(3)] assms(4) by (auto simp: unknown_def)
  moreover have "d \<in> P" using d(1) to_apply_sub assms(2) by (auto simp: unknown_def)
  ultimately show "c \<in> to_apply am cs" using pool_same_hash [OF assms(1), of d c] assms(4) by (auto simp: unknown_def)
next
  assume "c \<in> to_apply am cs"
  then show "lc_hash c \<in> known am'" using appliedD(2) [OF assms(3)] by blast
qed

lemma honest_pool_step:
  assumes hon: "honest_pool am P" and sub: "pool am cs \<subseteq> P" and ap: "applied am cs am'"
  shows "honest_pool am' P"
proof -
  have ok: "pool_ok am P" using hon by (simp add: honest_pool_def)
  note apD = appliedD [OF ap] and ka = known_after [OF ok sub ap]
  have U: "unknown am' P \<subseteq> unknown am P" using apD(2) by (auto simp: unknown_def)
  have "\<not> doc_has_actor_seq am' c" if c: "c \<in> unknown am' P" for c
  proof (rule apD(7))
    have cu: "c \<in> unknown am P" using c U by blast
    then show "\<not> doc_has_actor_seq am c" using ok by (simp add: pool_ok_def)
    show "author_seq c \<notin> author_seq ` to_apply am cs"
    proof
      assume "author_seq c \<in> author_seq ` to_apply am cs"
      then obtain d where d: "d \<in> to_apply am cs" "author_seq c = author_seq d" by blast
      then have "d \<in> unknown am P" using to_apply_sub sub by (auto simp: unknown_def)
      then have "c = d" using pool_same_seq [OF ok cu _ d(2)] by blast
      then show False using ka [OF cu] d(1) c by (simp add: unknown_def)
    qed
  qed
  moreover have "inj_on author_seq (unknown am' P)"
    using ok U unfolding pool_ok_def by (blast intro: inj_on_subset)
  ultimately have ok': "pool_ok am' P" using ok by (simp add: pool_ok_def)
  show ?thesis
    unfolding honest_pool_def
  proof (intro conjI ballI)
    fix c assume c: "c \<in> unknown am' P"
    then have cu: "c \<in> unknown am P" using U by blast
    have "continues am (unknown am P) c" using hon cu by (simp add: honest_pool_def)
    moreover have "recorded am' (lc_hash d) (lc_actor_id d) (unat (lc_seq d)) \<or> d \<in> unknown am' P"
      if "d \<in> unknown am P" for d
      using ka [OF that] apD(9) that by (auto simp: unknown_def)
    ultimately show "continues am' (unknown am' P) c"
      using apD(8) unfolding continues_def by metis
    show "lc_extra_bytes c \<noteq> None" using hon cu by (simp add: honest_pool_def)
    fix a assume a: "a \<in> set (lc_actors c)"
    have "a \<in> set (am_actors am')" if "d \<in> to_apply am cs" "a \<in> set (lc_actors d)" for d
      using that honest_poolD [OF hon sub] apD(6) unfolding honest_def by blast
    then show "a \<in> set (am_actors am') \<or> a = lc_actor_id c \<and> lc_seq c = 1
        \<or> (\<exists>d \<in> unknown am' P. lc_hash d \<in> set (lc_deps c) \<and> a \<in> set (lc_actors d))"
      using hon cu a ka apD(6) unfolding honest_pool_def unknown_def by blast
  qed (rule ok')
qed

subsection \<open>Two batches are one\<close>

lemma delivered_mono: "c \<in> delivered K P \<Longrightarrow> P \<subseteq> Q \<Longrightarrow> c \<in> delivered K Q"
proof (induction rule: delivered.induct)
  case (deliver c)
  then show ?case by (intro delivered.deliver) blast+
qed

lemma pool_append: "pool am (cs @ rest) = pool am cs \<union> set rest"
  by (auto simp: pool_def)

lemma pool_after:
  assumes "applied am cs am'"
  shows "pool am' rest = {c \<in> pool am cs. lc_hash c \<notin> known am'} \<union> set rest"
  using appliedD(3) [OF assms] by (simp add: pool_def)

lemma two_batches:
  assumes ok: "pool_ok am (pool am (cs @ rest))" and ap: "applied am cs am'"
  shows "to_apply am (cs @ rest) = to_apply am cs \<union> to_apply am' rest"
proof
  let ?P = "pool am (cs @ rest)"
  note apD = appliedD [OF ap] and pa = pool_after [OF ap, of rest]
  have sub: "pool am cs \<subseteq> ?P" by (simp add: pool_append)
  have 1: "to_apply am cs \<subseteq> to_apply am (cs @ rest)"
    using delivered_mono [OF _ sub] by (auto simp: to_apply_def unknown_def)
  have 2: "c \<in> delivered (known am) ?P" if "c \<in> delivered (known am') (pool am' rest)" for c
    using that
  proof induction
    case (deliver c)
    have "c \<in> ?P" using deliver(1) by (auto simp: pa pool_append)
    moreover have "h \<in> known am \<or> (\<exists>d. d \<in> delivered (known am) ?P \<and> lc_hash d = h)" if h: "h \<in> set (lc_deps c)" for h
      using deliver(2) [OF h] 1 unfolding apD(2) by (auto simp: to_apply_def unknown_def)
    ultimately show ?case by (rule delivered.deliver)
  qed
  have "known am \<subseteq> known am'" using apD(2) by blast
  then show "to_apply am cs \<union> to_apply am' rest \<subseteq> to_apply am (cs @ rest)"
    using 1 2 by (auto simp: to_apply_def unknown_def)
  have old: "h \<in> known am \<Longrightarrow> h \<in> known am'" and new': "d \<in> to_apply am cs \<Longrightarrow> lc_hash d \<in> known am'"
    and app: "d \<in> to_apply am' rest \<Longrightarrow> d \<in> delivered (known am') (pool am' rest)" for h d
    using apD(2) by (auto simp: to_apply_def [of am'] unknown_def)
  have "lc_hash c \<in> known am \<or> c \<in> to_apply am cs \<union> to_apply am' rest" if "c \<in> delivered (known am) ?P" for c
    using that
  proof induction
    case (deliver c)
    have "c \<in> to_apply am' rest" if new: "lc_hash c \<notin> known am" "c \<notin> to_apply am cs"
    proof -
      have "c \<in> unknown am ?P" using deliver(1) new by (simp add: unknown_def)
      then have u': "lc_hash c \<notin> known am'" using known_after [OF ok sub ap] new(2) by blast
      then have "c \<in> pool am' rest" using deliver(1) by (auto simp: pa pool_append)
      moreover have "h \<in> known am' \<or> (\<exists>d. d \<in> delivered (known am') (pool am' rest) \<and> lc_hash d = h)"
        if h: "h \<in> set (lc_deps c)" for h
        using deliver(2) [OF h] old new' app by blast
      ultimately have "c \<in> delivered (known am') (pool am' rest)" by (rule delivered.deliver)
      with u' show ?thesis by (simp add: to_apply_def unknown_def)
    qed
    then show ?case by blast
  qed
  then show "to_apply am (cs @ rest) \<subseteq> to_apply am cs \<union> to_apply am' rest"
    by (auto simp: to_apply_def [of am "cs @ rest"] unknown_def)
qed

lemma two_batches_heads:
  assumes ap: "applied am cs am'"
  shows "((am_deps am \<union> lc_hash ` to_apply am cs) - \<Union> (set ` lc_deps ` to_apply am cs) \<union> lc_hash ` to_apply am' rest)
      - \<Union> (set ` lc_deps ` to_apply am' rest)
    = (am_deps am \<union> lc_hash ` (to_apply am cs \<union> to_apply am' rest))
      - \<Union> (set ` lc_deps ` (to_apply am cs \<union> to_apply am' rest))"
proof -
  have "lc_hash d \<notin> set (lc_deps c)" if "c \<in> to_apply am cs" "d \<in> to_apply am' rest" for c d
  proof -
    have "set (lc_deps c) \<subseteq> known am'"
      using that(1) delivered_deps [of c "known am" "pool am cs"] unfolding appliedD(2) [OF ap]
      by (auto simp: to_apply_def unknown_def)
    then show ?thesis using that(2) by (auto simp: to_apply_def unknown_def)
  qed
  then show ?thesis by auto
qed

subsection \<open>Batches\<close>

primrec apply_batches :: "('c, 'o) op_store \<Rightarrow> 'c automerge \<Rightarrow> loaded_change list list \<Rightarrow> 'c automerge option" where
  "apply_batches s am [] = Some am"
| "apply_batches s am (cs # css) = (case apply_changes s am cs of
     Some (am, Inr _) \<Rightarrow> apply_batches s am css | _ \<Rightarrow> None)"

text \<open>Nothing that waits in the queue is ready.\<close>

definition settled :: "'c automerge \<Rightarrow> bool" where
  "settled am \<longleftrightarrow> to_apply am [] = {}"

lemma settled_after:
  assumes ok: "pool_ok am (pool am cs)" and ap: "applied am cs am'"
  shows "settled am'"
proof -
  have "to_apply am' [] \<subseteq> to_apply am cs" using two_batches [of am cs "[]", OF _ ap] ok by auto
  moreover have "lc_hash c \<in> known am'" if "c \<in> to_apply am cs" for c using that appliedD(2) [OF ap] by blast
  ultimately show ?thesis by (auto simp: settled_def to_apply_def [of am' "[]"] unknown_def)
qed

lemma apply_batches_ok:
  assumes "doc_wf am" and "settled am" and "honest_pool am (pool am (concat css))"
    and "fits_indexes am (concat css)" and "store_total s"
  shows "\<exists>am'. apply_batches s am css = Some am' \<and> doc_wf am'
    \<and> known am' = known am \<union> lc_hash ` to_apply am (concat css)
    \<and> set (am_queue am') = {c \<in> pool am (concat css). lc_hash c \<notin> known am'}
    \<and> am_deps am' = (am_deps am \<union> lc_hash ` to_apply am (concat css)) - \<Union> (set ` lc_deps ` to_apply am (concat css))"
  using assms(1-4)
proof (induction css arbitrary: am)
  case Nil
  then show ?case by (auto simp: settled_def pool_def doc_wf_def queue_ok_def)
next
  case (Cons cs css)
  let ?P = "pool am (concat (cs # css))"
  have sub: "pool am cs \<subseteq> ?P" by (auto simp: pool_def)
  have ok: "pool_ok am (pool am (cs @ concat css))" using Cons.prems(3) by (simp add: honest_pool_def)
  have fit: "fits_indexes am cs" using Cons.prems(4) by (simp add: fits_indexes_def room_for_def total_deps_def)
  obtain am1 where am1: "apply_changes s am cs = Some (am1, Inr ())" and ap: "applied am cs am1"
    using apply_changes_ok [OF Cons.prems(1) honest_poolD [OF Cons.prems(3) sub] fit assms(5)] by blast
  note apD = appliedD [OF ap]
  have st: "settled am1" by (rule settled_after [OF pool_ok_mono [OF ok] ap]) (simp add: pool_append)
  have P1: "pool am1 (concat css) \<subseteq> ?P" using pool_after [OF ap] by (auto simp: pool_append)
  have "unknown am1 ?P = unknown am1 (pool am1 (concat css))"
    using pool_after [OF ap, of "concat css"] by (auto simp: unknown_def pool_append)
  moreover have h1: "honest_pool am1 ?P" by (rule honest_pool_step [OF Cons.prems(3) sub ap])
  moreover have "pool_ok am1 (pool am1 (concat css))"
    by (rule pool_ok_mono [OF _ P1]) (use h1 in \<open>simp add: honest_pool_def\<close>)
  ultimately have "honest_pool am1 (pool am1 (concat css))" unfolding honest_pool_def by simp
  from Cons.IH [OF apD(1) st this] apD(10) [of "concat css"] Cons.prems(4) obtain am2 where
    2: "apply_batches s am1 css = Some am2" "doc_wf am2"
    "known am2 = known am1 \<union> lc_hash ` to_apply am1 (concat css)"
    "set (am_queue am2) = {c \<in> pool am1 (concat css). lc_hash c \<notin> known am2}"
    "am_deps am2 = (am_deps am1 \<union> lc_hash ` to_apply am1 (concat css)) - \<Union> (set ` lc_deps ` to_apply am1 (concat css))"
    by auto
  have both: "to_apply am (concat (cs # css)) = to_apply am cs \<union> to_apply am1 (concat css)"
    using two_batches [OF ok ap] by simp
  have "set (am_queue am2) = {c \<in> ?P. lc_hash c \<notin> known am2}"
    unfolding 2(4) pool_after [OF ap] 2(3) by (auto simp: pool_append)
  moreover have "am_deps am2 = (am_deps am \<union> lc_hash ` to_apply am (concat (cs # css)))
      - \<Union> (set ` lc_deps ` to_apply am (concat (cs # css)))"
    unfolding 2(5) apD(4) both by (rule two_batches_heads [OF ap])
  moreover have "known am2 = known am \<union> lc_hash ` to_apply am (concat (cs # css))"
    unfolding 2(3) apD(2) both by auto
  moreover have "apply_batches s am (cs # css) = Some am2" using am1 2(1) by simp
  ultimately show ?case using 2(2) by blast
qed

subsection \<open>Examples\<close>

definition example_store :: "(unit, unit) op_store" where
  "example_store = \<lparr>os_rewrite_with_new_actor = \<lambda>_ x. x, os_rewrite_without_actor = \<lambda>_ x. x,
     os_import_ops = \<lambda>_ _. Some [], os_merge = \<lambda>_ _ x. Some x\<rparr>"

definition empty_doc :: "unit automerge" where
  "empty_doc = automerge_new () (ActorId [9])"

definition first_change :: loaded_change where
  "first_change = example_change 1 [] 1 1 2"

definition second_change :: loaded_change where
  "second_change = example_change 2 [1] 2 3 1"

definition third_change :: loaded_change where
  "third_change = example_change 3 [2] 3 4 1"

definition example_pool :: "loaded_change set" where
  "example_pool = {first_change, second_change, third_change}"

lemma example_actors [simp]:
  "lc_actor_id (example_change h deps sq start len) = ActorId [1]"
  "lc_actors (example_change h deps sq start len) = [ActorId [1]]"
  by (simp_all add: example_change_def lc_actor_id_def lc_actors_def)

lemmas example_changes = first_change_def second_change_def third_change_def

lemma store_total_example: "store_total example_store"
  by (simp add: store_total_def example_store_def)

lemma empty_doc_sel [simp]: "known empty_doc = {}" "am_queue empty_doc = []" "am_actors empty_doc = []"
  "am_deps empty_doc = {}" "doc_seq_for_actor empty_doc a = 0" "cg_hashes (am_graph empty_doc) = []"
  "cg_edges (am_graph empty_doc) = []"
  by (simp_all add: empty_doc_def automerge_new_def known_def graph_new_def doc_seq_for_actor_def
      lookup_actor_def search_actor_def)

lemma empty_doc_wf: "doc_wf empty_doc"
  using graph_wf_new [of 0]
  by (simp add: doc_wf_def hist_ok_def queue_ok_def pool_ok_def unused_actors_def)
    (simp add: empty_doc_def automerge_new_def graph_new_def num_actors_def unknown_def)

lemma delivered_empty: "delivered K {} = {}"
  using delivered_pool by blast

lemma empty_doc_settled: "settled empty_doc"
  by (simp add: settled_def to_apply_def unknown_def pool_def delivered_empty)

lemma example_honest: "honest_pool empty_doc example_pool"
proof -
  have "unknown empty_doc example_pool = example_pool" by (simp add: unknown_def)
  then show ?thesis
    by (auto simp: honest_pool_def pool_ok_def example_pool_def example_changes author_seq_def
        doc_has_actor_seq_def continues_def)
qed

lemma example_delivered: "delivered {} example_pool = example_pool"
proof -
  have 1: "first_change \<in> delivered {} example_pool"
    by (rule delivered.deliver) (simp_all add: example_pool_def first_change_def)
  have 2: "second_change \<in> delivered {} example_pool"
    by (rule delivered.deliver) (use 1 in \<open>auto simp: example_pool_def first_change_def second_change_def\<close>)
  have 3: "third_change \<in> delivered {} example_pool"
    by (rule delivered.deliver) (use 2 in \<open>auto simp: example_pool_def second_change_def third_change_def\<close>)
  from 1 2 3 show ?thesis using delivered_pool by (auto simp: example_pool_def)
qed

lemma example_fits: "length cs < 100 \<Longrightarrow> total_deps cs < 100 \<Longrightarrow> fits_indexes empty_doc cs"
  by (simp add: fits_indexes_def room_for_def)

lemma example_known:
  assumes "set cs = example_pool"
  shows "pool empty_doc cs = example_pool" and "lc_hash ` to_apply empty_doc cs = example_hash ` {1, 2, 3}"
    and "to_apply empty_doc cs = example_pool"
  using assms example_delivered
  by (simp_all add: pool_def to_apply_def unknown_def) (simp add: example_pool_def example_changes)

subsection \<open>The properties\<close>





end
