(* ===== verification/Doc_Props.thy ===== *)
theory Doc_Props
  imports Convergence
begin

text \<open>
  What a document lacks and what another one has: the changes it asks for, the changes that a merge
  takes from another document, and the sequence numbers it does not defend itself against.
\<close>

subsection \<open>Dependencies of a node by hash\<close>

lemma deps_for_node:
  assumes "core_inv g N" and "n < length (cg_hashes g)"
  shows "deps_for_hash g (cg_hashes g ! n) = Some (map ((!) (cg_hashes g)) (parent_list g n))"
proof -
  have "cg_nodes_by_hash g (cg_hashes g ! n) = Some n" using core_nodes [OF assms(1)] assms(2) by simp
  moreover have "those (map (vec_at (cg_hashes g)) (parent_list g n)) = Some (map ((!) (cg_hashes g)) (parent_list g n))"
    by (rule those_map) (use parent_less [OF assms] assms(2) in \<open>auto simp: vec_at_def intro: less_trans\<close>)
  ultimately show ?thesis by (simp add: deps_for_hash_def parents_of_list [OF assms])
qed

lemma deps_for_known:
  assumes "graph_wf (am_graph oth)" and "h \<in> known oth"
  shows "\<exists>ds. deps_for_hash (am_graph oth) h = Some ds \<and> set ds \<subseteq> known oth"
proof -
  let ?g = "am_graph oth"
  have core: "core_inv ?g (length (cg_hashes ?g))" using assms(1) by (simp add: graph_wf_def)
  obtain n where n: "n < length (cg_hashes ?g)" "cg_hashes ?g ! n = h"
    using assms(2) by (auto simp: known_def in_set_conv_nth)
  then show ?thesis
    using deps_for_node [OF core n(1)] parent_less [OF core n(1)] by (force simp: known_def)
qed

subsection \<open>Changes of another document\<close>

text \<open>A document that holds a change of the other one holds its dependencies too.\<close>

definition closed_under :: "'c automerge \<Rightarrow> 'c automerge \<Rightarrow> bool" where
  "closed_under am oth \<longleftrightarrow> (\<forall>h \<in> known am. \<forall>ds. deps_for_hash (am_graph oth) h = Some ds \<longrightarrow> set ds \<subseteq> known am)"

definition walk_ok :: "'c automerge \<Rightarrow> 'c automerge \<Rightarrow> change_hash list \<Rightarrow> change_hash list \<Rightarrow> bool" where
  "walk_ok am oth stack added \<longleftrightarrow> distinct added \<and> set added \<subseteq> known oth - known am \<and> set stack \<subseteq> known oth
     \<and> (\<forall>h \<in> set added. \<forall>ds. deps_for_hash (am_graph oth) h = Some ds \<longrightarrow> set ds \<subseteq> known am \<union> set added \<union> set stack)"

lemma walk_skip:
  assumes "walk_ok am oth (h # stack) added" and "h \<in> set added \<union> known am"
  shows "walk_ok am oth stack added"
proof -
  have "known am \<union> set added \<union> set (h # stack) = known am \<union> set added \<union> set stack" using assms(2) by auto
  then show ?thesis using assms(1) unfolding walk_ok_def by simp
qed

lemma added_loop_ok:
  assumes wf: "graph_wf (am_graph oth)" and wfa: "graph_wf (am_graph am)" and "walk_ok am oth stack added"
  shows "\<exists>r. added_loop am oth stack added = Some r \<and> walk_ok am oth [] r \<and> set added \<union> set stack \<subseteq> known am \<union> set r"
  using assms(3)
proof (induction "card (known oth - set added)" arbitrary: stack added rule: less_induct)
  case less
  show ?case
    using less.prems
  proof (induction stack)
    case Nil
    then show ?case by (subst added_loop.simps) auto
  next
    case (Cons h stack)
    show ?case
    proof (cases "h \<notin> set added \<and> \<not> doc_has_change am h")
      case True
      then have new: "h \<notin> set added" "h \<notin> known am" by (simp_all add: has_change_known [OF wfa])
      have h: "h \<in> known oth" using Cons.prems by (simp add: walk_ok_def)
      then obtain ds where ds: "deps_for_hash (am_graph oth) h = Some ds" "set ds \<subseteq> known oth"
        using deps_for_known [OF wf] by blast
      have "walk_ok am oth (rev ds @ stack) (h # added)"
        unfolding walk_ok_def
      proof (intro conjI ballI allI impI)
        fix k es assume k: "k \<in> set (h # added)" "deps_for_hash (am_graph oth) k = Some es"
        show "set es \<subseteq> known am \<union> set (h # added) \<union> set (rev ds @ stack)"
        proof (cases "k = h")
          case False
          then have "set es \<subseteq> known am \<union> set added \<union> set (h # stack)"
            using k Cons.prems unfolding walk_ok_def by simp
          then show ?thesis by auto
        qed (use k(2) ds(1) in auto)
      qed (use Cons.prems new h ds in \<open>auto simp: walk_ok_def\<close>)
      moreover have "card (known oth - set (h # added)) < card (known oth - set added)"
        by (rule psubset_card_mono) (use new h in \<open>auto simp: known_def\<close>)
      ultimately obtain r where r: "added_loop am oth (rev ds @ stack) (h # added) = Some r" "walk_ok am oth [] r"
        "set (h # added) \<union> set (rev ds @ stack) \<subseteq> known am \<union> set r"
        using less.hyps by blast
      have "added_loop am oth (h # stack) added = Some r"
        using True ds r(1) by (subst added_loop.simps) simp
      then show ?thesis using r(2,3) by auto
    next
      case False
      then have old: "h \<in> set added \<union> known am" by (auto simp: has_change_known [OF wfa])
      then have "walk_ok am oth stack added" by (rule walk_skip [OF Cons.prems])
      then obtain r where r: "added_loop am oth stack added = Some r" "walk_ok am oth [] r"
        "set added \<union> set stack \<subseteq> known am \<union> set r"
        using Cons.IH by blast
      moreover have "added_loop am oth (h # stack) added = added_loop am oth stack added"
        using False by (subst added_loop.simps) auto
      ultimately show ?thesis using old by auto
    qed
  qed
qed

text \<open>C18: \<open>get_changes_added\<close> ends without a panic and finds, each once, exactly the changes of the other
  document that this one lacks.\<close>

theorem changes_added_exact:
  assumes "doc_wf am" and "doc_wf oth" and "closed_under am oth"
  shows "\<exists>r. changes_added am oth = Some r \<and> distinct r \<and> set r = known oth - known am"
proof -
  let ?g = "am_graph oth"
  have wf: "graph_wf (am_graph am)" "graph_wf ?g" using assms(1,2) by (simp_all add: doc_wf_def hist_ok_def)
  have core: "core_inv ?g (length (cg_hashes ?g))" and heads: "heads_ok ?g"
    using wf(2) by (simp_all add: graph_wf_def)
  have d: "am_deps oth = cg_heads ?g" using assms(2) by (simp add: doc_wf_def hist_ok_def)
  have "finite (am_deps oth)" using heads by (simp add: d heads_ok_def)
  then have gh: "set (rev (get_heads oth)) = cg_heads ?g" by (simp add: get_heads_def d)
  then have "walk_ok am oth (rev (get_heads oth)) []"
    using heads by (auto simp: walk_ok_def heads_ok_def known_def)
  from added_loop_ok [OF wf(2,1) this] obtain r where
    r: "changes_added am oth = Some r" "walk_ok am oth [] r" "cg_heads ?g \<subseteq> known am \<union> set r"
    unfolding changes_added_def gh by auto
  have "cg_hashes ?g ! n \<in> known am \<union> set r" if "n < length (cg_hashes ?g)" for n
    using that
  proof (induction "length (cg_hashes ?g) - n" arbitrary: n rule: less_induct)
    case less
    show ?case
    proof (cases "\<exists>m < length (cg_hashes ?g). n \<in> set (parent_list ?g m)")
      case True
      then obtain m where m: "m < length (cg_hashes ?g)" "n \<in> set (parent_list ?g m)" by blast
      then have "n < m" using parent_less [OF core] by blast
      then have "cg_hashes ?g ! m \<in> known am \<union> set r" using less.hyps m(1) by simp
      moreover have "cg_hashes ?g ! n \<in> set (map ((!) (cg_hashes ?g)) (parent_list ?g m))" using m(2) by simp
      ultimately show ?thesis
        using deps_for_node [OF core m(1)] assms(3) r(2) unfolding closed_under_def walk_ok_def by fastforce
    next
      case False
      then show ?thesis using r(3) heads less.prems unfolding heads_ok_def by blast
    qed
  qed
  then have "known oth \<subseteq> known am \<union> set r"
    unfolding known_def [of oth] by (metis in_set_conv_nth subsetI)
  then show ?thesis using r(1,2) by (auto simp: walk_ok_def)
qed

subsection \<open>Changes that a document asks for\<close>

lemma missing_deps_set:
  assumes "graph_wf (am_graph am)"
  shows "set (get_missing_deps am heads)
    = (\<Union> (set ` lc_deps ` set (am_queue am)) \<union> set heads) - known am - lc_hash ` set (am_queue am)"
proof -
  have "finite ({h \<in> set (concat (map lc_deps (am_queue am))). \<not> doc_has_change am h}
      \<union> {h \<in> set heads. \<not> doc_has_change am h} - set (map lc_hash (am_queue am)))" by simp
  then show ?thesis
    using has_change_known [OF assms] by (auto simp: get_missing_deps_def Let_def)
qed

text \<open>C17: a document asks for exactly the changes that it has neither applied nor queued, among the heads
  given and the dependencies of its queue. It never gets stuck: as long as something waits in the queue
  of a document that has drained it, there is something to ask for (dependencies among changes have no
  cycle, as a hash covers the hashes of the dependencies).\<close>

theorem missing_deps_never_stuck:
  fixes rank :: "change_hash \<Rightarrow> nat"
  assumes "doc_wf am" and "settled am" and "\<forall>c \<in> set (am_queue am). \<forall>h \<in> set (lc_deps c). rank h < rank (lc_hash c)"
  shows "set (get_missing_deps am heads)
      = (\<Union> (set ` lc_deps ` set (am_queue am)) \<union> set heads) - known am - lc_hash ` set (am_queue am)
    \<and> (am_queue am \<noteq> [] \<longrightarrow> get_missing_deps am heads \<noteq> [])"
proof -
  have wf: "graph_wf (am_graph am)" using assms(1) by (simp add: doc_wf_def hist_ok_def)
  note ms = missing_deps_set [OF wf]
  have "get_missing_deps am heads \<noteq> []" if ne: "am_queue am \<noteq> []"
  proof -
    have "\<exists>c \<in> set (am_queue am). \<forall>d \<in> set (am_queue am). rank (lc_hash c) \<le> rank (lc_hash d)"
      using ex_min_if_finite [of "(\<lambda>c. rank (lc_hash c)) ` set (am_queue am)"] ne
      by (auto simp: not_less)
    then obtain c where c: "c \<in> set (am_queue am)" and min: "\<forall>d \<in> set (am_queue am). rank (lc_hash c) \<le> rank (lc_hash d)"
      by blast
    have "lc_hash c \<notin> known am" using assms(1) c by (auto simp: doc_wf_def queue_ok_def)
    moreover have "c \<notin> to_apply am []" using assms(2) by (simp add: settled_def)
    ultimately have "c \<notin> delivered (known am) (set (am_queue am))" by (simp add: to_apply_def unknown_def pool_def)
    then obtain h where h: "h \<in> set (lc_deps c)" "h \<notin> known am"
      using delivered.deliver [of c "set (am_queue am)" "known am"] c by blast
    have "h \<notin> lc_hash ` set (am_queue am)"
    proof
      assume "h \<in> lc_hash ` set (am_queue am)"
      then show False using assms(3) c h(1) min by (auto simp: not_less [symmetric])
    qed
    then have "h \<in> set (get_missing_deps am heads)" using c h by (auto simp: ms)
    then show ?thesis by auto
  qed
  then show ?thesis using ms by blast
qed

subsection \<open>Examples\<close>

text \<open>The document with three changes, and the empty one with the second of them in its queue.\<close>

lemma example_doc:
  "\<exists>am :: unit automerge. doc_wf am \<and> known am = example_hash ` {1, 2, 3} \<and> am_queue am = []"
proof -
  let ?cs = "[first_change, second_change, third_change]"
  have cs: "set ?cs = example_pool" by (auto simp: example_pool_def)
  note ex = example_known [OF cs]
  have fit: "fits_indexes empty_doc ?cs" by (rule example_fits) (simp_all add: total_deps_def example_changes)
  have "honest empty_doc ?cs" by (rule honest_poolD [OF example_honest]) (simp add: ex(1))
  from apply_changes_ok [OF empty_doc_wf this fit store_total_example]
  obtain am where ap: "applied empty_doc ?cs am" by blast
  note apD = appliedD [OF ap]
  have k: "known am = example_hash ` {1, 2, 3}" using apD(2) unfolding ex(2) by simp
  have "set (am_queue am) = {}"
    unfolding apD(3) ex(1) k by (auto simp: example_pool_def example_changes)
  then show ?thesis using apD(1) k by auto
qed

theorem changes_added_exact_witness:
  "\<exists>oth r. known oth = example_hash ` {1, 2, 3} \<and> changes_added empty_doc oth = Some r
    \<and> distinct r \<and> set r = example_hash ` {1, 2, 3}"
proof -
  obtain oth :: "unit automerge" where oth: "doc_wf oth" "known oth = example_hash ` {1, 2, 3}" using example_doc by blast
  have "closed_under empty_doc oth" by (simp add: closed_under_def)
  from changes_added_exact [OF empty_doc_wf oth(1) this] oth(2) show ?thesis by auto
qed

definition waiting_doc :: "unit automerge" where
  "waiting_doc = empty_doc\<lparr>am_queue := [second_change]\<rparr>"

lemma waiting_doc_ok: "doc_wf waiting_doc" "settled waiting_doc"
proof -
  show "doc_wf waiting_doc"
    using empty_doc_wf
    by (simp add: doc_wf_def waiting_doc_def queue_ok_def pool_ok_def unknown_def doc_has_actor_seq_def second_change_def)
  have "second_change \<notin> delivered {} {second_change}"
  proof
    assume "second_change \<in> delivered {} {second_change}"
    then have "\<exists>d \<in> delivered {} {second_change}. lc_hash d = example_hash 1"
      using delivered_deps [of second_change "{}" "{second_change}" "example_hash 1"] by (simp add: second_change_def)
    then show False using delivered_pool by (fastforce simp: second_change_def)
  qed
  then show "settled waiting_doc"
    using delivered_pool by (auto simp: settled_def to_apply_def unknown_def pool_def waiting_doc_def)
qed

theorem missing_deps_never_stuck_witness:
  "set (get_missing_deps waiting_doc [example_hash 2, example_hash 7]) = {example_hash 1, example_hash 7}"
proof -
  have "\<forall>c \<in> set (am_queue waiting_doc). \<forall>h \<in> set (lc_deps c).
      unat (hd (hash_bytes h)) < unat (hd (hash_bytes (lc_hash c)))"
    by (simp add: waiting_doc_def second_change_def example_hash_def)
  from missing_deps_never_stuck [OF waiting_doc_ok this, of "[example_hash 2, example_hash 7]"]
  show ?thesis by (auto simp: waiting_doc_def second_change_def)
qed

subsection \<open>Sequence numbers\<close>



subsection \<open>Local transactions\<close>

lemma own_actor_index:
  assumes ok: "hist_ok am" and sz: "length (am_actors am) < 2 ^ 32" and a: "get_actor am = Some a"
  shows "\<exists>am' i. get_or_create_actor_index s am = Some (am', i) \<and> hist_ok am' \<and> same_history am am'
    \<and> i < length (am_actors am') \<and> am_actors am' ! i = a"
proof (cases "am_actor am")
  case (Cached i)
  then show ?thesis using ok a hist_actor [OF ok Cached]
    by (intro exI [of _ am] exI [of _ i]) (simp add: get_or_create_actor_index_def get_actor_def vec_at_def)
next
  case (Unused b)
  then have [simp]: "b = a" using a by (simp add: get_actor_def)
  from put_actor_hist [OF ok sz, of s a] obtain am1 i where
    1: "put_actor_ref s am a = Some (am1, i)" "hist_ok am1" "same_history am am1"
    "i < length (am_actors am1)" "am_actors am1 ! i = a" by blast
  define am' where "am' = am1\<lparr>am_actor := Cached i\<rparr>"
  have okd: "hist_ok am'" using 1(2,4) by (simp add: hist_ok_def am'_def)
  have "get_actor am' = get_actor am" using a 1(4,5) by (simp add: get_actor_def am'_def vec_at_def)
  moreover have "recorded am' = recorded am1" "doc_seq_for_actor am' = doc_seq_for_actor am1"
    by (simp_all add: fun_eq_iff recorded_def doc_seq_for_actor_def am'_def cong: option.case_cong)
  ultimately have "same_history am am'" using 1(3) by (simp add: same_history_def am'_def)
  then show ?thesis using Unused 1 okd
    by (intro exI [of _ am'] exI [of _ i]) (simp add: get_or_create_actor_index_def am'_def)
qed

lemma last_own_hash:
  assumes ok: "hist_ok am" and i: "i < length (am_actors am)" and pos: "doc_seq_for_actor am (am_actors am ! i) > 0"
  shows "\<exists>h. get_hash_for_actor_seq (am_graph am) i (word_of_nat (doc_seq_for_actor am (am_actors am ! i))) = Inr h
    \<and> recorded am h (am_actors am ! i) (doc_seq_for_actor am (am_actors am ! i))"
proof -
  let ?g = "am_graph am" and ?k = "doc_seq_for_actor am (am_actors am ! i)"
  note core = hist_core [OF ok]
  have i': "i < length (cg_seq_index ?g)" using i hist_length [OF ok] by simp
  have k: "?k = length (cg_seq_index ?g ! i)" by (rule seq_count [OF ok i])
  have ix: "cg_seq_index ?g ! i = filter (\<lambda>n. cg_actors ?g ! n = i) [0 ..< length (cg_hashes ?g)]"
    by (rule core_index [OF core i'])
  have "?k \<le> length (cg_hashes ?g)" unfolding k ix by (rule order_trans [OF length_filter_le]) simp
  then have lt: "?k - 1 < 2 ^ 64" using core_N [OF core] by simp
  have "(word_of_nat ?k - 1 :: u64) = word_of_nat (?k - 1)" using pos by (cases ?k) simp_all
  then have "unat (word_of_nat ?k - 1 :: u64) = ?k - 1" using unat_u64_of_nat [OF lt] by simp
  moreover define n where "n = cg_seq_index ?g ! i ! (?k - 1)"
  have "n \<in> set (cg_seq_index ?g ! i)" unfolding n_def using pos by (simp add: k)
  then have n: "n < length (cg_hashes ?g)" "cg_actors ?g ! n = i" by (auto simp: ix)
  have "unat (cg_seq ?g ! n) = ?k"
    using core_seq [OF core i', of "?k - 1"] pos by (simp add: n_def k)
  then have "recorded am (cg_hashes ?g ! n) (am_actors am ! i) ?k" using n by (auto simp: recorded_def)
  moreover have "vec_at (cg_seq_index ?g) i = Some (cg_seq_index ?g ! i)"
    "vec_at (cg_seq_index ?g ! i) (?k - 1) = Some n" "vec_at (cg_hashes ?g) n = Some (cg_hashes ?g ! n)"
    using i' pos n(1) by (simp_all add: vec_at_def n_def k)
  ultimately show ?thesis by (simp add: get_hash_for_actor_seq_def)
qed

text \<open>A transaction continues the history: preparing one does not panic and changes no change, count or
  head; its sequence number is the next of the document's own actor, every dependency is a change of
  the document, the heads are among them, and so is the last change of that actor when it has one.\<close>

theorem transactions_continue:
  assumes "hist_ok am" and "length (am_actors am) < 2 ^ 32" and "get_actor am = Some a" and "am_max_op am + 1 \<noteq> 0"
  shows "\<exists>am' ta. transaction_args s am = Some (am', ta) \<and> hist_ok am' \<and> same_history am am'
    \<and> ta_seq ta = doc_seq_for_actor am a + 1 \<and> ta_start_op ta = am_max_op am + 1
    \<and> set (get_heads am) \<subseteq> set (ta_deps ta) \<and> set (ta_deps ta) \<subseteq> known am
    \<and> (ta_seq ta > 1 \<longrightarrow> (\<exists>h \<in> set (ta_deps ta). recorded am h a (ta_seq ta - 1)))"
proof -
  from own_actor_index [OF assms(1-3), of s] obtain am' i where
    am': "get_or_create_actor_index s am = Some (am', i)" "hist_ok am'" "same_history am am'"
      "i < length (am_actors am')" "am_actors am' ! i = a" by blast
  note sh = same_history_sel [OF am'(3)]
  have rec: "recorded am' = recorded am" and mx: "am_max_op am' = am_max_op am"
    using am'(3) by (simp_all add: same_history_def)
  have sq: "seq_for_actor (am_graph am') i = doc_seq_for_actor am a"
    using seq_count [OF am'(2,4)] am'(4,5) hist_length [OF am'(2)] sh(7) by (simp add: seq_for_actor_def vec_at_def)
  have "heads_ok (am_graph am)" "am_deps am = cg_heads (am_graph am)"
    using assms(1) by (simp_all add: hist_ok_def graph_wf_def)
  then have heads: "set (get_heads am) \<subseteq> known am"
    by (auto simp: get_heads_def heads_ok_def known_def)
  have gh: "get_heads am' = get_heads am" using sh(6) by (simp add: get_heads_def)
  define sq' where "sq' = doc_seq_for_actor am a + 1"
  have "\<exists>ds. transaction_deps am' i sq' = Some ds \<and> set (get_heads am) \<subseteq> set ds \<and> set ds \<subseteq> known am
    \<and> (sq' > 1 \<longrightarrow> (\<exists>h \<in> set ds. recorded am h a (sq' - 1)))"
  proof (cases "sq' > 1")
    case True
    then have "doc_seq_for_actor am' (am_actors am' ! i) > 0" by (simp add: sh(7) am'(5) sq'_def)
    from last_own_hash [OF am'(2,4) this] obtain h where
      h: "get_hash_for_actor_seq (am_graph am') i (word_of_nat (sq' - 1)) = Inr h" "recorded am h a (sq' - 1)"
      by (auto simp: sh(7) am'(5) sq'_def rec)
    then show ?thesis
      using True heads recorded_number [OF assms(1) h(2)] by (auto simp: transaction_deps_def Let_def gh)
  next
    case False
    then show ?thesis using heads by (simp add: transaction_deps_def gh)
  qed
  then obtain ds where ds: "transaction_deps am' i sq' = Some ds" "set (get_heads am) \<subseteq> set ds" "set ds \<subseteq> known am"
    "sq' > 1 \<longrightarrow> (\<exists>h \<in> set ds. recorded am h a (sq' - 1))" by blast
  have "transaction_args s am = Some (am', \<lparr>ta_actor_index = i, ta_seq = sq', ta_start_op = am_max_op am + 1, ta_deps = ds\<rparr>)"
    using am'(1) sq ds(1) mx assms(4) by (simp add: transaction_args_def Let_def sq'_def)
  then show ?thesis using am'(2,3) ds by (simp add: sq'_def)
qed

theorem transactions_continue_witness:
  "\<exists>am' ta. transaction_args example_store empty_doc = Some (am', ta) \<and> ta_seq ta = 1 \<and> ta_start_op ta = 1"
proof -
  have "hist_ok empty_doc" using empty_doc_wf by (simp add: doc_wf_def)
  moreover have "get_actor empty_doc = Some (ActorId [9])" "am_max_op empty_doc = 0"
    by (simp_all add: get_actor_def empty_doc_def automerge_new_def)
  ultimately show ?thesis
    using transactions_continue [of empty_doc "ActorId [9]" example_store] by auto
qed

end
