(* ===== verification/Values.thy ===== *)
theory Values
  imports Parse
begin

text \<open>
  The values of the columnar encodings: the traits \<open>Encodable\<close> and \<open>Decodable\<close> with their
  implementations (\<open>encodable_impls.rs\<close>, \<open>decodable_impls.rs\<close>) and the cursor and sink over them
  (\<open>raw.rs\<close>). A \<open>Sink\<close> only appends, so an encoder is the bytes it appends and returns their
  number. A decoder takes the unread bytes and returns the value and what is left. The readers of
  the \<open>leb128\<close> crate are the arguments \<open>ru\<close> and \<open>rs\<close>; \<open>None\<close> is their error. A float is its bit
  pattern.
\<close>

unbundle bit_operations_syntax

subsection \<open>Encoders\<close>

text \<open>The little-endian bytes of the low \<open>n\<close> bytes of a word.\<close>

primrec le_bytes :: "nat \<Rightarrow> 'a::len word \<Rightarrow> bytes" where
  "le_bytes 0 w = []"
| "le_bytes (Suc n) w = ucast w # le_bytes n (drop_bit 8 w)"

fun from_le_bytes :: "bytes \<Rightarrow> 'a::len word" where
  "from_le_bytes [] = 0"
| "from_le_bytes (b # bs) = ucast b OR push_bit 8 (from_le_bytes bs)"

definition encode_raw :: "bytes \<Rightarrow> bytes \<Rightarrow> bytes \<times> nat" where
  "encode_raw b out = (out @ b, length b)"

definition encode_usize :: "nat \<Rightarrow> bytes \<Rightarrow> bytes \<times> nat" where
  "encode_usize n out = encode_u64 (word_of_nat n) out"

definition encode_u32 :: "u32 \<Rightarrow> bytes \<Rightarrow> bytes \<times> nat" where
  "encode_u32 n out = encode_u64 (ucast n) out"

definition encode_i32 :: "32 word \<Rightarrow> bytes \<Rightarrow> bytes \<times> nat" where
  "encode_i32 n out = encode_i64 (scast n) out"

definition encode_f64 :: "64 word \<Rightarrow> bytes \<Rightarrow> bytes \<times> nat" where
  "encode_f64 v out = encode_raw (le_bytes 8 v) out"

definition encode_f32 :: "32 word \<Rightarrow> bytes \<Rightarrow> bytes \<times> nat" where
  "encode_f32 v out = encode_raw (le_bytes 4 v) out"

text \<open>\<open>String\<close>, \<open>SmolStr\<close> and \<open>Cow<SmolStr>\<close>: the length, then the bytes.\<close>

definition encode_str :: "bytes \<Rightarrow> bytes \<Rightarrow> bytes \<times> nat" where
  "encode_str s out = (let (out, len_encoded) = encode_usize (length s) out;
     (out, data_len) = encode_raw s out
     in (out, len_encoded + data_len))"

definition encode_opt_str :: "bytes option \<Rightarrow> bytes \<Rightarrow> bytes \<times> nat" where
  "encode_opt_str s out = (case s of Some s \<Rightarrow> encode_str s out | None \<Rightarrow> encode_i32 0 out)"

subsection \<open>Decoders\<close>

datatype decode_error =
    Io
  | FromInt
  | BadLeb
  | BadLeb128 leb128_error
  | OverlargeAllocation nat nat
  | BadString

type_synonym 'a decoder = "bytes \<Rightarrow> decode_error + 'a \<times> bytes"

definition max_allocation :: nat where
  "max_allocation = 1000000000"

definition read_exact :: "nat \<Rightarrow> bytes decoder" where
  "read_exact n b = (if length b < n then Inl Io else Inr (take n b, drop n b))"

definition decode_u8 :: "u8 decoder" where
  "decode_u8 b = bind_res (read_exact 1 b) (\<lambda>(buffer, b). Inr (hd buffer, b))"

definition decode_u64 :: "(bytes \<Rightarrow> (u64 \<times> bytes) option) \<Rightarrow> u64 decoder" where
  "decode_u64 ru b = (case ru b of None \<Rightarrow> Inl BadLeb | Some r \<Rightarrow> Inr r)"

definition decode_i64 :: "(bytes \<Rightarrow> (i64 \<times> bytes) option) \<Rightarrow> i64 decoder" where
  "decode_i64 rs b = (case rs b of None \<Rightarrow> Inl BadLeb | Some r \<Rightarrow> Inr r)"

definition decode_u32 :: "(bytes \<Rightarrow> (u64 \<times> bytes) option) \<Rightarrow> u32 decoder" where
  "decode_u32 ru b = bind_res (decode_u64 ru b) (\<lambda>(v, b).
     if unat v < 2 ^ 32 then Inr (ucast v, b) else Inl FromInt)"

definition decode_usize :: "(bytes \<Rightarrow> (u64 \<times> bytes) option) \<Rightarrow> nat decoder" where
  "decode_usize ru b = bind_res (decode_u64 ru b) (\<lambda>(v, b). Inr (unat v, b))"

definition decode_isize :: "(bytes \<Rightarrow> (i64 \<times> bytes) option) \<Rightarrow> i64 decoder" where
  "decode_isize rs b = decode_i64 rs b"

definition decode_i32 :: "(bytes \<Rightarrow> (i64 \<times> bytes) option) \<Rightarrow> 32 word decoder" where
  "decode_i32 rs b = bind_res (decode_i64 rs b) (\<lambda>(v, b).
     if - (2 ^ 31) \<le> sint v \<and> sint v < 2 ^ 31 then Inr (ucast v, b) else Inl FromInt)"

definition decode_f64 :: "64 word decoder" where
  "decode_f64 b = bind_res (read_exact 8 b) (\<lambda>(buffer, b). Inr (from_le_bytes buffer, b))"

definition decode_f32 :: "32 word decoder" where
  "decode_f32 b = bind_res (read_exact 4 b) (\<lambda>(buffer, b). Inr (from_le_bytes buffer, b))"

definition decode_vec :: "(bytes \<Rightarrow> (u64 \<times> bytes) option) \<Rightarrow> bytes decoder" where
  "decode_vec ru b = bind_res (decode_usize ru b) (\<lambda>(len, b).
     if len = 0 then Inr ([], b)
     else if len > max_allocation then Inl (OverlargeAllocation len max_allocation)
     else read_exact len b)"

definition decode_str :: "(bytes \<Rightarrow> (u64 \<times> bytes) option) \<Rightarrow> bytes decoder" where
  "decode_str ru b = bind_res (decode_vec ru b) (\<lambda>(buffer, b).
     if utf8_valid buffer then Inr (buffer, b) else Inl BadString)"

definition decode_opt_str :: "(bytes \<Rightarrow> (u64 \<times> bytes) option) \<Rightarrow> bytes option decoder" where
  "decode_opt_str ru b = bind_res (decode_vec ru b) (\<lambda>(buffer, b).
     if buffer = [] then Inr (None, b)
     else if utf8_valid buffer then Inr (Some buffer, b) else Inl BadString)"

definition decode_actor :: "(bytes \<Rightarrow> (u64 \<times> bytes) option) \<Rightarrow> actor_id decoder" where
  "decode_actor ru b = bind_res (decode_vec ru b) (\<lambda>(buffer, b). Inr (ActorId buffer, b))"

subsection \<open>The raw cursor and sink\<close>

record raw_decoder =
  rd_offset :: nat
  rd_last_read :: nat
  rd_data :: bytes

datatype raw_error = BufferSizeDidNotChange | TryingToReadPastEnd | Decode decode_error

definition raw_new :: "bytes \<Rightarrow> raw_decoder" where
  "raw_new data = \<lparr>rd_offset = 0, rd_last_read = 0, rd_data = data\<rparr>"

definition raw_read :: "'a decoder \<Rightarrow> raw_decoder \<Rightarrow> raw_error + 'a \<times> raw_decoder" where
  "raw_read dec d = (let buf = drop (rd_offset d) (rd_data d); init_len = length buf in
     bind_res (map_err Decode (dec buf)) (\<lambda>(val, buf).
     let delta = init_len - length buf in
     if delta = 0 then Inl BufferSizeDidNotChange
     else Inr (val, d\<lparr>rd_last_read := delta, rd_offset := rd_offset d + delta\<rparr>)))"

definition raw_read_bytes :: "nat \<Rightarrow> raw_decoder \<Rightarrow> raw_error + bytes \<times> raw_decoder" where
  "raw_read_bytes index d =
     (if rd_offset d + index > length (rd_data d) then Inl TryingToReadPastEnd
      else Inr (take index (drop (rd_offset d) (rd_data d)),
        d\<lparr>rd_last_read := index, rd_offset := rd_offset d + index\<rparr>))"

definition raw_done :: "raw_decoder \<Rightarrow> bool" where
  "raw_done d = (length (rd_data d) \<le> rd_offset d)"

definition raw_is_empty :: "raw_decoder \<Rightarrow> bool" where
  "raw_is_empty d = (rd_data d = [])"

record raw_encoder =
  re_written :: nat
  re_output :: bytes

definition raw_encoder_from :: "bytes \<Rightarrow> raw_encoder" where
  "raw_encoder_from output = \<lparr>re_written = 0, re_output = output\<rparr>"

definition raw_append :: "('a \<Rightarrow> bytes \<Rightarrow> bytes \<times> nat) \<Rightarrow> 'a \<Rightarrow> raw_encoder \<Rightarrow> raw_encoder \<times> nat" where
  "raw_append enc value e = (let (output, written) = enc value (re_output e)
     in (e\<lparr>re_output := output, re_written := re_written e + written\<rparr>, written))"

definition raw_finish :: "raw_encoder \<Rightarrow> bytes \<times> nat" where
  "raw_finish e = (re_output e, re_written e)"

lemma raw_read_progress:
  "raw_read dec d = Inr (v, d') \<Longrightarrow> rd_offset d < rd_offset d' \<and> rd_data d' = rd_data d
     \<and> rd_offset d < length (rd_data d)"
  by (auto simp: raw_read_def Let_def result_simps split: if_splits prod.splits)

text \<open>Reading a number of values one after the other, as the decoders of unencoded columns do.\<close>

primrec read_all :: "'a decoder \<Rightarrow> nat \<Rightarrow> raw_decoder \<Rightarrow> raw_error + 'a list \<times> raw_decoder" where
  "read_all dec 0 d = Inr ([], d)"
| "read_all dec (Suc n) d = bind_res (raw_read dec d) (\<lambda>(v, d).
     bind_res (read_all dec n d) (\<lambda>(vs, d). Inr (v # vs, d)))"

subsection \<open>The contract of a column value\<close>

text \<open>
  What the run-length coders need of the values they store: the encoder appends some bytes that
  depend only on the value and returns their number, the bytes are never empty, and the decoder
  reads them back whatever follows.
\<close>

locale column_value =
  fixes enc :: "'a \<Rightarrow> bytes \<Rightarrow> bytes \<times> nat" and dec :: "'a decoder" and ok :: "'a \<Rightarrow> bool"
  assumes enc_append: "enc v out = (out @ fst (enc v []), length (fst (enc v [])))"
    and enc_nonempty: "fst (enc v []) \<noteq> []"
    and dec_enc: "ok v \<Longrightarrow> dec (fst (enc v []) @ rest) = Inr (v, rest)"
begin

lemma raw_read_enc:
  assumes "ok v" and "drop (rd_offset d) (rd_data d) = fst (enc v []) @ rest"
  shows "raw_read dec d = Inr (v, d\<lparr>rd_last_read := length (fst (enc v [])),
    rd_offset := rd_offset d + length (fst (enc v []))\<rparr>)"
  using assms(2) by (simp add: raw_read_def dec_enc [OF assms(1)] Let_def enc_nonempty)

lemma drop_after_enc:
  assumes "drop (rd_offset d) (rd_data d) = fst (enc v []) @ rest"
  shows "drop (rd_offset d + length (fst (enc v []))) (rd_data d) = rest"
proof -
  have "drop (rd_offset d + length (fst (enc v []))) (rd_data d)
      = drop (length (fst (enc v []))) (drop (rd_offset d) (rd_data d))"
    by (simp add: add.commute)
  then show ?thesis by (simp add: assms)
qed

lemma not_done_enc:
  assumes "drop (rd_offset d) (rd_data d) = fst (enc v []) @ rest"
  shows "\<not> raw_done d"
  using assms enc_nonempty [of v] by (force simp: raw_done_def)

text \<open>A sink that received the values yields them back in order.\<close>

lemma read_all_enc:
  "list_all ok vs \<Longrightarrow> drop (rd_offset d) (rd_data d) = concat (map (\<lambda>v. fst (enc v [])) vs) @ rest
   \<Longrightarrow> \<exists>d'. read_all dec (length vs) d = Inr (vs, d') \<and> drop (rd_offset d') (rd_data d') = rest"
proof (induction vs arbitrary: d)
  case Nil
  then show ?case by simp
next
  case (Cons v vs)
  let ?d = "d\<lparr>rd_last_read := length (fst (enc v [])), rd_offset := rd_offset d + length (fst (enc v []))\<rparr>"
  have "drop (rd_offset ?d) (rd_data ?d) = concat (map (\<lambda>v. fst (enc v [])) vs) @ rest"
    using drop_after_enc Cons.prems(2) by simp
  with Cons.IH [of ?d] Cons.prems(1)
  obtain d' where "read_all dec (length vs) ?d = Inr (vs, d')" "drop (rd_offset d') (rd_data d') = rest"
    by auto
  moreover have "raw_read dec d = Inr (v, ?d)"
    using Cons.prems by (intro raw_read_enc) auto
  ultimately show ?case by simp
qed

lemma append_all:
  "raw_finish (foldl (\<lambda>e v. fst (raw_append enc v e)) e vs)
     = (re_output e @ concat (map (\<lambda>v. fst (enc v [])) vs),
        re_written e + length (concat (map (\<lambda>v. fst (enc v [])) vs)))"
proof (induction vs arbitrary: e)
  case Nil
  then show ?case by (simp add: raw_finish_def)
next
  case (Cons v vs)
  have "fst (raw_append enc v e)
      = e\<lparr>re_output := re_output e @ fst (enc v []), re_written := re_written e + length (fst (enc v []))\<rparr>"
    by (simp add: raw_append_def enc_append [of v "re_output e"])
  then show ?case by (simp add: Cons.IH)
qed

lemma sink_roundtrip:
  assumes "list_all ok vs"
  defines "r \<equiv> raw_finish (foldl (\<lambda>e v. fst (raw_append enc v e)) (raw_encoder_from []) vs)"
  shows "snd r = length (fst r) \<and> (\<exists>d. read_all dec (length vs) (raw_new (fst r)) = Inr (vs, d) \<and> raw_done d)"
proof -
  have r: "fst r = concat (map (\<lambda>v. fst (enc v [])) vs)" "snd r = length (fst r)"
    by (simp_all add: r_def append_all raw_encoder_from_def)
  then have "\<exists>d. read_all dec (length vs) (raw_new (fst r)) = Inr (vs, d) \<and> drop (rd_offset d) (rd_data d) = []"
    using read_all_enc [OF assms(1), of "raw_new (fst r)" "[]"] by (simp add: raw_new_def)
  then show ?thesis using r(2) by (auto simp: raw_done_def)
qed

end

subsection \<open>The readers of the crate\<close>

lemma sint_of_int_i64: "- (2 ^ 63) \<le> z \<Longrightarrow> z < 2 ^ 63 \<Longrightarrow> sint (word_of_int z :: i64) = z"
  by (simp add: sint_word_ariths signed_take_bit_int_eq_self signed_of_int)

text \<open>
  The documented behaviour of \<open>leb128::read\<close>: it reads back the standard encodings. The parser's
  own decoders meet it.
\<close>

locale leb_reader =
  fixes ru :: "bytes \<Rightarrow> (u64 \<times> bytes) option" and rs :: "bytes \<Rightarrow> (i64 \<times> bytes) option"
  assumes ru_uleb: "ru (uleb (unat v) @ rest) = Some (v, rest)"
    and rs_sleb: "rs (sleb (sint w) @ rest) = Some (w, rest)"
begin

lemma ru_count: "n < 2 ^ 64 \<Longrightarrow> ru (uleb n @ rest) = Some (word_of_nat n, rest)"
  using ru_uleb [of "word_of_nat n" rest] by (simp add: unat_u64_of_nat)

lemma usize_count: "n < 2 ^ 64 \<Longrightarrow> decode_usize ru (uleb n @ rest) = Inr (n, rest)"
  by (simp add: decode_usize_def decode_u64_def ru_count unat_u64_of_nat)

lemma isize_count: "- (2 ^ 63) \<le> z \<Longrightarrow> z < 2 ^ 63 \<Longrightarrow> decode_i64 rs (sleb z @ rest) = Inr (word_of_int z, rest)"
  using rs_sleb [of "word_of_int z" rest]
  by (simp add: decode_i64_def sint_of_int_i64)

end

definition own_read_u :: "bytes \<Rightarrow> (u64 \<times> bytes) option" where
  "own_read_u b = (case leb128_u64 id (new_input b) of Inr (i, v) \<Rightarrow> Some (v, inp_bytes i) | Inl _ \<Rightarrow> None)"

definition own_read_s :: "bytes \<Rightarrow> (i64 \<times> bytes) option" where
  "own_read_s b = (case leb128_i64 id (new_input b) of Inr (i, v) \<Rightarrow> Some (v, inp_bytes i) | Inl _ \<Rightarrow> None)"

definition reads_leb :: "(bytes \<Rightarrow> (u64 \<times> bytes) option) \<Rightarrow> (bytes \<Rightarrow> (i64 \<times> bytes) option) \<Rightarrow> bool" where
  "reads_leb ru rs \<longleftrightarrow> (\<forall>v rest. ru (uleb (unat v) @ rest) = Some (v, rest))
     \<and> (\<forall>w rest. rs (sleb (sint w) @ rest) = Some (w, rest))"

lemma reads_leb_reader: "reads_leb ru rs \<longleftrightarrow> leb_reader ru rs"
  by (auto simp: reads_leb_def leb_reader_def)

interpretation own_reader: leb_reader own_read_u own_read_s
proof unfold_locales
  show "own_read_u (uleb (unat v) @ rest) = Some (v, rest)" for v rest
    by (simp add: own_read_u_def leb128_u64_complete)
  show "own_read_s (sleb (sint w) @ rest) = Some (w, rest)" for w rest
    by (simp add: own_read_s_def leb128_i64_complete)
qed

lemma own_reader_reads: "reads_leb own_read_u own_read_s"
  by (simp add: reads_leb_reader own_reader.leb_reader_axioms)

subsection \<open>The values of the program\<close>

lemma length_le_bytes [simp]: "length (le_bytes n w) = n"
  by (induction n arbitrary: w) auto

lemma le_bytes_Nil [simp]: "le_bytes n w = [] \<longleftrightarrow> n = 0"
  by (cases n) auto

lemma from_le_bytes_le_bytes:
  "from_le_bytes (le_bytes n w) = take_bit (8 * n) (w :: 'a::len word)"
proof (induction n arbitrary: w)
  case 0
  then show ?case by simp
next
  case (Suc n)
  have "ucast (ucast w :: u8) OR push_bit 8 (take_bit (8 * n) (drop_bit 8 w)) = take_bit (8 * Suc n) w"
    by (rule bit_eqI) (auto simp: bit_simps)
  then show ?case using Suc by simp
qed

lemma encode_u64_append:
  "encode_u64 v out = (out @ fst (encode_u64 v []), length (fst (encode_u64 v [])))"
  by (simp add: encode_u64_eq)

lemma encode_i64_append:
  "encode_i64 v out = (out @ fst (encode_i64 v []), length (fst (encode_i64 v [])))"
  by (simp add: encode_i64_eq)

lemma encode_str_eq:
  "length s < 2 ^ 64 \<Longrightarrow> encode_str s out = (out @ uleb (length s) @ s, length (uleb (length s)) + length s)"
  by (simp add: encode_str_def encode_usize_def encode_u64_eq encode_raw_def unat_u64_of_nat)

lemma sint_scast_i32: "sint (scast (n :: 32 word) :: i64) = sint n"
  using sint_greater_eq [of n] sint_less [of n]
  by (simp add: signed_scast_eq signed_take_bit_int_eq_self)

context leb_reader
begin

lemma dec_u64: "decode_u64 ru (uleb (unat v) @ rest) = Inr (v, rest)"
  by (simp add: decode_u64_def ru_uleb)

lemma dec_i64: "decode_i64 rs (sleb (sint v) @ rest) = Inr (v, rest)"
  by (simp add: decode_i64_def rs_sleb)

lemma dec_vec:
  assumes "length b \<le> max_allocation"
  shows "decode_vec ru (uleb (length b) @ b @ rest) = Inr (b, rest)"
proof -
  have "length b < 2 ^ 64" using assms by (simp add: max_allocation_def)
  then show ?thesis
    using assms by (auto simp: decode_vec_def usize_count read_exact_def)
qed

lemma dec_u32: "decode_u32 ru (uleb (unat v) @ rest) = Inr (v, rest)"
proof -
  have "decode_u64 ru (uleb (unat (ucast v :: u64)) @ rest) = Inr (ucast v, rest)"
    by (rule dec_u64)
  then have "decode_u64 ru (uleb (unat v) @ rest) = Inr (ucast v, rest)"
    by (simp only: unat_ucast_u32)
  moreover have "ucast (ucast v :: u64) = v" by (rule bit_word_eqI) (simp add: bit_simps)
  ultimately show ?thesis using unat_u32_less [of v] by (simp add: decode_u32_def)
qed

lemma dec_i32: "decode_i32 rs (sleb (sint v) @ rest) = Inr (v, rest)"
proof -
  have "decode_i64 rs (sleb (sint v) @ rest) = Inr (scast v, rest)"
    using dec_i64 [of "scast v"] by (simp add: sint_scast_i32)
  moreover have "ucast (scast v :: i64) = v" by (rule bit_word_eqI) (auto simp: bit_simps)
  moreover have "- (2 ^ 31) \<le> sint v" "sint v < 2 ^ 31"
    using sint_greater_eq [of v] sint_less [of v] by simp_all
  ultimately show ?thesis by (simp add: decode_i32_def sint_scast_i32)
qed

lemma dec_str:
  "utf8_valid s \<Longrightarrow> length s \<le> max_allocation \<Longrightarrow> decode_str ru (uleb (length s) @ s @ rest) = Inr (s, rest)"
  by (simp add: decode_str_def dec_vec)

lemma dec_opt_str:
  "(case s of None \<Rightarrow> True | Some s \<Rightarrow> s \<noteq> [] \<and> utf8_valid s \<and> length s \<le> max_allocation)
   \<Longrightarrow> decode_opt_str ru (fst (encode_opt_str s []) @ rest) = Inr (s, rest)"
proof (cases s)
  case None
  have "decode_vec ru (uleb 0 @ rest) = Inr ([], rest)" using dec_vec [of "[]" rest] by simp
  moreover have "fst (encode_opt_str None []) = uleb 0"
    by (simp add: encode_opt_str_def encode_i32_def encode_i64_eq sleb_small uleb_small)
  ultimately show ?thesis by (simp add: None decode_opt_str_def)
next
  case (Some t)
  assume *: "case s of None \<Rightarrow> True | Some s \<Rightarrow> s \<noteq> [] \<and> utf8_valid s \<and> length s \<le> max_allocation"
  then have t: "length t < 2 ^ 64" using Some by (simp add: max_allocation_def)
  with * show ?thesis
    by (simp add: Some encode_opt_str_def encode_str_eq [OF t] decode_opt_str_def dec_vec)
qed

end

sublocale leb_reader \<subseteq> u64_value: column_value encode_u64 "decode_u64 ru" "\<lambda>_. True"
  by unfold_locales (rule encode_u64_append, simp_all add: encode_u64_eq dec_u64)

sublocale leb_reader \<subseteq> i64_value: column_value encode_i64 "decode_i64 rs" "\<lambda>_. True"
  by unfold_locales (rule encode_i64_append, simp_all add: encode_i64_eq dec_i64)

sublocale leb_reader \<subseteq> u32_value: column_value encode_u32 "decode_u32 ru" "\<lambda>_. True"
  by unfold_locales (simp_all add: encode_u32_def encode_u64_eq dec_u32)

sublocale leb_reader \<subseteq> i32_value: column_value encode_i32 "decode_i32 rs" "\<lambda>_. True"
  by unfold_locales (simp_all add: encode_i32_def encode_i64_eq sint_scast_i32 dec_i32)

lemma encode_str_append:
  "encode_str s out = (out @ fst (encode_str s []), length (fst (encode_str s [])))"
  by (simp add: encode_str_def encode_usize_def encode_u64_eq encode_raw_def)

sublocale leb_reader \<subseteq> str_value:
  column_value encode_str "decode_str ru" "\<lambda>s. utf8_valid s \<and> length s \<le> max_allocation"
proof unfold_locales
  fix v :: bytes and out rest
  show "encode_str v out = (out @ fst (encode_str v []), length (fst (encode_str v [])))"
    by (rule encode_str_append)
  show "fst (encode_str v []) \<noteq> []"
    by (simp add: encode_str_def encode_usize_def encode_u64_eq encode_raw_def)
  assume *: "utf8_valid v \<and> length v \<le> max_allocation"
  then have "length v < 2 ^ 64" by (simp add: max_allocation_def)
  with * show "decode_str ru (fst (encode_str v []) @ rest) = Inr (v, rest)"
    by (simp add: encode_str_eq dec_str)
qed

context leb_reader
begin

lemmas strings_sink = str_value.sink_roundtrip

end

interpretation f64_value: column_value encode_f64 decode_f64 "\<lambda>_. True"
  by unfold_locales (simp_all add: encode_f64_def encode_raw_def decode_f64_def read_exact_def
      from_le_bytes_le_bytes take_bit_word_eq_self)

interpretation f32_value: column_value encode_f32 decode_f32 "\<lambda>_. True"
  by unfold_locales (simp_all add: encode_f32_def encode_raw_def decode_f32_def read_exact_def
      from_le_bytes_le_bytes take_bit_word_eq_self)

subsection \<open>Properties\<close>

text \<open>Strings appended to a sink through the raw encoder are read back in order by the raw
  decoder, which is then done, and the encoder counts the bytes it wrote, for valid UTF-8 strings
  below the allocation limit.\<close>

theorem strings_roundtrip:
  assumes "reads_leb ru rs" and "list_all (\<lambda>s. utf8_valid s \<and> length s \<le> max_allocation) ss"
    and "r = raw_finish (foldl (\<lambda>e s. fst (raw_append encode_str s e)) (raw_encoder_from []) ss)"
  shows "snd r = length (fst r)
    \<and> (\<exists>d. read_all (decode_str ru) (length ss) (raw_new (fst r)) = Inr (ss, d) \<and> raw_done d)"
  unfolding assms(3) using assms(1,2) by (intro leb_reader.strings_sink) (auto simp: reads_leb_reader)

theorem strings_roundtrip_witness:
  "\<exists>d. read_all (decode_str own_read_u) (length [[104, 105], [] :: bytes])
      (raw_new (fst (raw_finish (foldl (\<lambda>e s. fst (raw_append encode_str s e)) (raw_encoder_from [])
        [[104, 105], []])))) = Inr ([[104, 105], []], d) \<and> raw_done d"
proof -
  have "list_all (\<lambda>s. utf8_valid s \<and> length s \<le> max_allocation) [[104, 105], [] :: bytes]"
    by (simp add: max_allocation_def)
  from strings_roundtrip [OF own_reader_reads this refl] show ?thesis by (rule conjunct2)
qed

end
