(* ===== verification/Bloom.thy ===== *)
theory Bloom
  imports Parse Values
begin

text \<open>
  The Bloom filter of the sync protocol (\<open>sync/bloom.rs\<close>): its wire format, the probes of a hash,
  insertion and the membership test. Bytes and probes keep their widths; a remainder by zero panics
  in Rust and is \<open>None\<close> here. The arithmetic on probes wraps at 32 bits (the release profile). The
  size of the bit array is computed by the source in double precision: \<open>bits_capacity\<close> writes out
  the one rounding that can happen, that of the product to 53 significant bits; the division by 8 is
  exact.
\<close>

definition bits_per_entry :: u32 where
  "bits_per_entry = 10"

definition num_probes :: u32 where
  "num_probes = 7"

record bloom_filter =
  bl_num_entries :: u32
  bl_num_bits_per_entry :: u32
  bl_num_probes :: u32
  bl_bits :: bytes

definition default_bloom :: bloom_filter where
  "default_bloom = \<lparr>bl_num_entries = 0, bl_num_bits_per_entry = bits_per_entry,
     bl_num_probes = num_probes, bl_bits = []\<rparr>"

datatype bloom_parse_error = BloomLeb128 leb128_error

subsection \<open>The size of the bit array\<close>

text \<open>Rounding of an integer to the nearest double, ties to even (no overflow below \<open>2 ^ 64\<close>).\<close>

definition round_f64 :: "nat \<Rightarrow> nat" where
  "round_f64 n =
     (let e = bit_len n - 53; q = n div 2 ^ e; r = n mod 2 ^ e
      in (if 2 * r > 2 ^ e \<or> 2 * r = 2 ^ e \<and> odd q then q + 1 else q) * 2 ^ e)"

definition bits_capacity :: "u32 \<Rightarrow> u32 \<Rightarrow> nat" where
  "bits_capacity entries bits_per = (round_f64 (unat entries * unat bits_per) + 7) div 8"

subsection \<open>The wire format\<close>

definition bloom_to_bytes :: "(u64 \<Rightarrow> bytes) \<Rightarrow> bloom_filter \<Rightarrow> bytes" where
  "bloom_to_bytes wu f =
     (if bl_num_entries f \<noteq> 0
      then wu (ucast (bl_num_entries f)) @ wu (ucast (bl_num_bits_per_entry f))
        @ wu (ucast (bl_num_probes f)) @ bl_bits f
      else [])"

definition bloom_parse :: "input \<Rightarrow> (bloom_filter, bloom_parse_error) parse_result" where
  "bloom_parse input =
     (if is_empty_in input then Inr (input, default_bloom)
      else bind_res (leb128_u32 BloomLeb128 input) (\<lambda>(i, entries).
        bind_res (leb128_u32 BloomLeb128 i) (\<lambda>(i, bits_per).
        bind_res (leb128_u32 BloomLeb128 i) (\<lambda>(i, probes).
        bind_res (take_n (bits_capacity entries bits_per) i) (\<lambda>(i, bits).
          Inr (i, \<lparr>bl_num_entries = entries, bl_num_bits_per_entry = bits_per,
                   bl_num_probes = probes, bl_bits = bits\<rparr>))))))"

definition bloom_try_from :: "bytes \<Rightarrow> bloom_parse_error parse_error + bloom_filter" where
  "bloom_try_from b = map_res snd (bloom_parse (new_input b))"

subsection \<open>Probes, insertion and membership\<close>

primrec probe_loop :: "nat \<Rightarrow> u32 \<Rightarrow> u32 \<Rightarrow> u32 \<Rightarrow> u32 \<Rightarrow> u32 list" where
  "probe_loop 0 x y z md = []"
| "probe_loop (Suc n) x y z md =
     (let x' = (x + y) mod md; y' = (y + z) mod md
      in x' # probe_loop n x' y' z md)"

definition hash_word :: "change_hash \<Rightarrow> nat \<Rightarrow> u32" where
  "hash_word h k = from_le_bytes (take 4 (drop k (hash_bytes h)))"

definition get_probes :: "bloom_filter \<Rightarrow> change_hash \<Rightarrow> u32 list option" where
  "get_probes f h =
     (let md = 8 * word_of_nat (length (bl_bits f)) :: u32 in
      if md = 0 then None
      else (let x = hash_word h 0 mod md; y = hash_word h 4 mod md;
                z = hash_word h 8 mod md
            in Some (x # probe_loop (unat (bl_num_probes f) - 1) x y z md)))"

definition set_bloom_bit :: "bloom_filter \<Rightarrow> nat \<Rightarrow> bloom_filter" where
  "set_bloom_bit f probe =
     (let k = drop_bit 3 probe in
      if k < length (bl_bits f)
      then f\<lparr>bl_bits := (bl_bits f)[k := bl_bits f ! k OR push_bit (probe AND 7) 1]\<rparr>
      else f)"

definition get_bloom_bit :: "bloom_filter \<Rightarrow> nat \<Rightarrow> u8 option" where
  "get_bloom_bit f probe =
     (let k = drop_bit 3 probe in
      if k < length (bl_bits f) then Some (bl_bits f ! k AND push_bit (probe AND 7) 1) else None)"

definition add_hash :: "bloom_filter \<Rightarrow> change_hash \<Rightarrow> bloom_filter option" where
  "add_hash f h = map_option (foldl (\<lambda>f probe. set_bloom_bit f (unat probe)) f) (get_probes f h)"

text \<open>The loop of \<open>contains_hash\<close>: false at the first probe whose bit is there and clear.\<close>

primrec probes_set :: "bloom_filter \<Rightarrow> u32 list \<Rightarrow> bool" where
  "probes_set f [] = True"
| "probes_set f (p # ps) =
     (case get_bloom_bit f (unat p) of
        Some b \<Rightarrow> if b = 0 then False else probes_set f ps
      | None \<Rightarrow> probes_set f ps)"

definition contains_hash :: "bloom_filter \<Rightarrow> change_hash \<Rightarrow> bool option" where
  "contains_hash f h =
     (if bl_num_entries f = 0 then Some False else map_option (probes_set f) (get_probes f h))"

primrec add_hashes :: "bloom_filter \<Rightarrow> change_hash list \<Rightarrow> bloom_filter option" where
  "add_hashes f [] = Some f"
| "add_hashes f (h # hs) = Option.bind (add_hash f h) (\<lambda>f'. add_hashes f' hs)"

definition from_hashes :: "change_hash list \<Rightarrow> bloom_filter option" where
  "from_hashes hs =
     (let entries = word_of_nat (length hs) in
      add_hashes \<lparr>bl_num_entries = entries, bl_num_bits_per_entry = bits_per_entry,
        bl_num_probes = num_probes,
        bl_bits = replicate (bits_capacity entries bits_per_entry) 0\<rparr> hs)"


subsection \<open>Setting bits\<close>

definition bit_on :: "bloom_filter \<Rightarrow> nat \<Rightarrow> bool" where
  "bit_on f p \<longleftrightarrow> get_bloom_bit f p \<noteq> Some 0"

lemma probes_set_iff: "probes_set f ps \<longleftrightarrow> (\<forall>p \<in> set ps. bit_on f (unat p))"
  by (induction ps) (auto simp: bit_on_def split: option.splits)

lemma and_7_less: "(p :: nat) AND 7 < 8"
proof -
  have "(7 :: nat) = mask 3" by (simp add: mask_eq_exp_minus_1)
  then have "p AND 7 = p mod 8" by (simp only: take_bit_eq_mask [symmetric]) (simp add: take_bit_eq_mod)
  then show ?thesis by simp
qed

lemma or_bit_on: "j < 8 \<Longrightarrow> (w OR push_bit j 1) AND push_bit j 1 \<noteq> (0 :: u8)"
  by (auto simp: bit_eq_iff bit_simps intro!: exI [of _ j])

lemma or_keeps_bit: "w AND b \<noteq> 0 \<Longrightarrow> (w OR v) AND b \<noteq> (0 :: u8)"
  by (auto simp: bit_eq_iff bit_simps)

lemma set_bloom_bit_sel [simp]:
  "bl_num_entries (set_bloom_bit f p) = bl_num_entries f"
  "bl_num_bits_per_entry (set_bloom_bit f p) = bl_num_bits_per_entry f"
  "bl_num_probes (set_bloom_bit f p) = bl_num_probes f"
  "length (bl_bits (set_bloom_bit f p)) = length (bl_bits f)"
  by (simp_all add: set_bloom_bit_def Let_def)

lemma bit_on_set: "bit_on (set_bloom_bit f p) p"
  using or_bit_on [OF and_7_less [of p]]
  by (simp add: bit_on_def get_bloom_bit_def set_bloom_bit_def Let_def)

lemma bit_on_mono: "bit_on f q \<Longrightarrow> bit_on (set_bloom_bit f p) q"
  using or_keeps_bit
  by (auto simp: bit_on_def get_bloom_bit_def set_bloom_bit_def Let_def nth_list_update split: if_splits)

text \<open>
  A filter that another extends: same parameters, same size, and every bit that was set stays set.
  The probes of a hash depend only on the parameters and the size.
\<close>

definition extends :: "bloom_filter \<Rightarrow> bloom_filter \<Rightarrow> bool" where
  "extends f g \<longleftrightarrow> bl_num_entries g = bl_num_entries f
     \<and> bl_num_bits_per_entry g = bl_num_bits_per_entry f \<and> bl_num_probes g = bl_num_probes f
     \<and> length (bl_bits g) = length (bl_bits f) \<and> (\<forall>q. bit_on f q \<longrightarrow> bit_on g q)"

lemma extends_refl [simp]: "extends f f"
  by (simp add: extends_def)

lemma extends_trans: "extends f g \<Longrightarrow> extends g h \<Longrightarrow> extends f h"
  by (simp add: extends_def)

lemma extends_set: "extends f (set_bloom_bit f p)"
  by (simp add: extends_def bit_on_mono)

lemma extends_probes: "extends f g \<Longrightarrow> get_probes g h = get_probes f h"
  by (simp add: extends_def get_probes_def Let_def)

lemma foldl_set_bits:
  "extends f (foldl (\<lambda>f p. set_bloom_bit f (unat p)) f ps)
    \<and> (\<forall>p \<in> set ps. bit_on (foldl (\<lambda>f p. set_bloom_bit f (unat p)) f ps) (unat p))"
proof (induction ps arbitrary: f)
  case Nil
  then show ?case by simp
next
  case (Cons p ps)
  have "extends (set_bloom_bit f (unat p)) (foldl (\<lambda>f p. set_bloom_bit f (unat p)) f (p # ps))"
    using Cons.IH [of "set_bloom_bit f (unat p)"] by simp
  then show ?case
    using Cons.IH [of "set_bloom_bit f (unat p)"] bit_on_set [of f "unat p"]
    by (auto simp: extends_def bit_on_mono)
qed

lemma add_hash_extends:
  assumes "add_hash f h = Some g"
  shows "extends f g \<and> (\<exists>ps. get_probes g h = Some ps \<and> probes_set g ps)"
proof -
  from assms obtain ps where ps: "get_probes f h = Some ps"
    and g: "g = foldl (\<lambda>f p. set_bloom_bit f (unat p)) f ps"
    by (auto simp: add_hash_def)
  have e: "extends f g" and "\<forall>p \<in> set ps. bit_on g (unat p)"
    using foldl_set_bits [of f ps] by (simp_all add: g)
  with ps show ?thesis by (simp add: extends_probes probes_set_iff)
qed

lemma add_hashes_extends: "add_hashes f hs = Some g \<Longrightarrow> extends f g"
proof (induction hs arbitrary: f)
  case (Cons h hs)
  then obtain f' where "add_hash f h = Some f'" "add_hashes f' hs = Some g"
    by (auto simp: bind_eq_Some_conv)
  with Cons.IH add_hash_extends [of f h f'] extends_trans show ?case by blast
qed simp

lemma add_hashes_probes:
  "add_hashes f hs = Some g \<Longrightarrow> h \<in> set hs \<Longrightarrow> \<exists>ps. get_probes g h = Some ps \<and> probes_set g ps"
proof (induction hs arbitrary: f)
  case (Cons k hs)
  then obtain f' where f': "add_hash f k = Some f'" "add_hashes f' hs = Some g"
    by (auto simp: bind_eq_Some_conv)
  show ?case
  proof (cases "h = k")
    case True
    from add_hash_extends [OF f'(1)] obtain ps
      where "get_probes f' k = Some ps" "probes_set f' ps" by blast
    moreover have e: "extends f' g" by (rule add_hashes_extends [OF f'(2)])
    ultimately show ?thesis
      using True extends_probes [OF e, of k] e by (simp add: probes_set_iff extends_def)
  next
    case False
    with Cons.prems Cons.IH [OF f'(2)] show ?thesis by simp
  qed
qed simp

subsection \<open>Capacity\<close>

lemma round_f64_small: "n < 2 ^ 53 \<Longrightarrow> round_f64 n = n"
  by (simp add: round_f64_def bit_len_le_iff [of n 53, THEN iffD2] Let_def)

lemma bits_capacity_small:
  "unat e * unat b < 2 ^ 53 \<Longrightarrow> bits_capacity e b = (unat e * unat b + 7) div 8"
  by (simp add: bits_capacity_def round_f64_small)

lemma unat_u32_of_nat: "n < 2 ^ 32 \<Longrightarrow> unat (word_of_nat n :: u32) = n"
  by (simp add: unsigned_of_nat take_bit_nat_eq_self)

lemma add_hash_total:
  assumes "0 < length (bl_bits f)" and "8 * length (bl_bits f) < 2 ^ 32"
  shows "\<exists>g. add_hash f h = Some g"
proof -
  have "(8 * word_of_nat (length (bl_bits f)) :: u32) = word_of_nat (8 * length (bl_bits f))"
    by simp
  also have "\<dots> \<noteq> 0"
    using assms unat_u32_of_nat [OF assms(2)] by (metis mult_is_0 neq0_conv unsigned_0 zero_neq_numeral)
  finally show ?thesis by (simp add: add_hash_def get_probes_def Let_def)
qed

lemma add_hashes_total:
  assumes "0 < length (bl_bits f)" and "8 * length (bl_bits f) < 2 ^ 32"
  shows "\<exists>g. add_hashes f hs = Some g"
  using assms
proof (induction hs arbitrary: f)
  case (Cons h hs)
  from add_hash_total [OF Cons.prems] obtain f' where f': "add_hash f h = Some f'" by blast
  then have "length (bl_bits f') = length (bl_bits f)"
    using add_hash_extends [OF f'] by (simp add: extends_def)
  with Cons.prems have "\<exists>g. add_hashes f' hs = Some g" by (intro Cons.IH) simp_all
  with f' show ?case by simp
qed simp


lemma capacity_of_count:
  assumes "n < 400000000"
  shows "bits_capacity (word_of_nat n) bits_per_entry = (n * 10 + 7) div 8"
proof -
  have "unat (word_of_nat n :: u32) = n" by (rule unat_u32_of_nat) (use assms in simp)
  then show ?thesis
    using assms bits_capacity_small [of "word_of_nat n" bits_per_entry] by (simp add: bits_per_entry_def)
qed

lemma from_hashes_total:
  assumes "length hs < 400000000"
  shows "\<exists>f. from_hashes hs = Some f \<and> unat (bl_num_entries f) = length hs
    \<and> bl_num_bits_per_entry f = bits_per_entry \<and> bl_num_probes f = num_probes
    \<and> length (bl_bits f) = bits_capacity (bl_num_entries f) (bl_num_bits_per_entry f)"
proof -
  let ?f = "\<lparr>bl_num_entries = word_of_nat (length hs), bl_num_bits_per_entry = bits_per_entry,
    bl_num_probes = num_probes, bl_bits = replicate (bits_capacity (word_of_nat (length hs)) bits_per_entry) 0\<rparr>"
  have len: "length (bl_bits ?f) = (length hs * 10 + 7) div 8"
    by (simp add: capacity_of_count [OF assms])
  obtain g where g: "add_hashes ?f hs = Some g"
  proof (cases hs)
    case Nil
    then have "add_hashes ?f hs = Some ?f" by simp
    with that show thesis by blast
  next
    case (Cons h t)
    then have n: "1 \<le> length hs" by simp
    have "0 < length (bl_bits ?f)" "8 * length (bl_bits ?f) < 2 ^ 32"
      unfolding len using n assms by simp_all
    with add_hashes_total [of ?f hs] that show thesis by blast
  qed
  moreover have "unat (word_of_nat (length hs) :: u32) = length hs"
    by (rule unat_u32_of_nat) (use assms in simp)
  ultimately show ?thesis
    using add_hashes_extends [OF g] by (simp add: from_hashes_def Let_def extends_def)
qed

subsection \<open>Properties\<close>

lemma leb128_u32_step:
  assumes "writes_uleb wu" and "inp_bytes i = wu (ucast (v :: u32)) @ rest"
  shows "\<exists>j. leb128_u32 conv i = Inr (j, v) \<and> inp_bytes j = rest \<and> inp_position j = inp_position i + length (wu (ucast v))
     \<and> inp_original j = inp_original i"
proof -
  have w: "wu (ucast v) = uleb (unat v)" using assms(1) by (simp add: writes_uleb_def)
  show ?thesis using leb_u32.dec_enc [where x = v and i = i and rest = rest and conv = conv] assms(2) by (simp add: w)
qed

lemma bloom_parse_to_bytes:
  assumes "writes_uleb wu" and "bl_num_entries f \<noteq> 0"
    and "length (bl_bits f) = bits_capacity (bl_num_entries f) (bl_num_bits_per_entry f)"
  shows "\<exists>i. bloom_parse (new_input (bloom_to_bytes wu f @ rest)) = Inr (i, f) \<and> inp_bytes i = rest"
proof -
  let ?a = "wu (ucast (bl_num_entries f))" and ?b = "wu (ucast (bl_num_bits_per_entry f))"
    and ?c = "wu (ucast (bl_num_probes f))"
  define i0 where "i0 = new_input (bloom_to_bytes wu f @ rest)"
  have i0: "inp_bytes i0 = ?a @ (?b @ ?c @ bl_bits f @ rest)"
    using assms(2) by (simp add: bloom_to_bytes_def i0_def)
  have ne: "\<not> is_empty_in i0"
    using i0 assms(1) by (simp add: is_empty_in_def writes_uleb_def)
  obtain i1 where 1: "leb128_u32 BloomLeb128 i0 = Inr (i1, bl_num_entries f)"
    "inp_bytes i1 = ?b @ (?c @ bl_bits f @ rest)"
    using leb128_u32_step [OF assms(1) i0] by blast
  obtain i2 where 2: "leb128_u32 BloomLeb128 i1 = Inr (i2, bl_num_bits_per_entry f)"
    "inp_bytes i2 = ?c @ (bl_bits f @ rest)"
    using leb128_u32_step [OF assms(1) 1(2)] by blast
  obtain i3 where 3: "leb128_u32 BloomLeb128 i2 = Inr (i3, bl_num_probes f)"
    "inp_bytes i3 = bl_bits f @ rest"
    using leb128_u32_step [OF assms(1) 2(2)] by blast
  show ?thesis
    using ne by (simp add: bloom_parse_def i0_def [symmetric] 1 2 3 take_n_eq assms(3) [symmetric])
qed

text \<open>A filter with at least one entry and a bit array of the size its parameters call for is
  read back exactly from its bytes, whatever follows them, and the parser stops right after it.\<close>

theorem bloom_roundtrip:
  assumes "writes_uleb wu" and "bl_num_entries f \<noteq> 0"
    and "length (bl_bits f) = bits_capacity (bl_num_entries f) (bl_num_bits_per_entry f)"
  shows "\<exists>i. bloom_parse (new_input (bloom_to_bytes wu f @ rest)) = Inr (i, f) \<and> inp_bytes i = rest"
  using assms by (rule bloom_parse_to_bytes)

theorem bloom_roundtrip_witness:
  "\<exists>i. bloom_parse (new_input (bloom_to_bytes own_writer
      \<lparr>bl_num_entries = 1, bl_num_bits_per_entry = 10, bl_num_probes = 7, bl_bits = [128, 3]\<rparr> @ [9]))
    = Inr (i, \<lparr>bl_num_entries = 1, bl_num_bits_per_entry = 10, bl_num_probes = 7, bl_bits = [128, 3]\<rparr>)
   \<and> inp_bytes i = [9]"
  by (rule bloom_roundtrip) (simp_all add: own_writer_writes bits_capacity_small)

text \<open>
  The filters the code builds: the default one, and those whose bit array has the size that their
  parameters call for.
\<close>

definition bloom_ok :: "bloom_filter \<Rightarrow> bool" where
  "bloom_ok f \<longleftrightarrow> f = default_bloom \<or> bl_num_entries f \<noteq> 0
     \<and> length (bl_bits f) = bits_capacity (bl_num_entries f) (bl_num_bits_per_entry f)"

lemma default_bloom_ok [simp]: "bloom_ok default_bloom"
  by (simp add: bloom_ok_def)

lemma default_bloom_bytes [simp]: "bloom_to_bytes wu default_bloom = []"
  by (simp add: bloom_to_bytes_def default_bloom_def)

lemma bloom_wire:
  assumes "writes_uleb wu" and "bloom_ok f"
  shows "\<exists>i. bloom_parse (new_input (bloom_to_bytes wu f)) = Inr (i, f)"
proof (cases "f = default_bloom")
  case True
  then show ?thesis
    by (simp add: bloom_parse_def bloom_to_bytes_def default_bloom_def is_empty_in_def)
next
  case False
  with assms(2) bloom_parse_to_bytes [OF assms(1), of f "[]"] show ?thesis
    by (auto simp: bloom_ok_def)
qed

lemma from_hashes_ok:
  assumes "length hs < 400000000"
  shows "\<exists>f. from_hashes hs = Some f \<and> bloom_ok f \<and> unat (bl_num_entries f) = length hs"
proof -
  from from_hashes_total [OF assms] obtain f where f: "from_hashes hs = Some f"
    and n: "unat (bl_num_entries f) = length hs" "bl_num_bits_per_entry f = bits_per_entry"
      "bl_num_probes f = num_probes"
    and l: "length (bl_bits f) = bits_capacity (bl_num_entries f) (bl_num_bits_per_entry f)"
    by blast
  have "bloom_ok f"
  proof (cases hs)
    case Nil
    then have "f = default_bloom"
      using f by (simp add: from_hashes_def default_bloom_def bits_capacity_small)
    then show ?thesis by simp
  next
    case (Cons h t)
    then have "bl_num_entries f \<noteq> 0" using n(1) by (metis length_0_conv list.distinct(1) unsigned_0)
    with l show ?thesis by (simp add: bloom_ok_def)
  qed
  with f n(1) show ?thesis by blast
qed

lemma from_hashes_contains:
  assumes "from_hashes hs = Some f" and "length hs < 400000000" and "h \<in> set hs"
  shows "contains_hash f h = Some True"
proof -
  have "unat (bl_num_entries f) = length hs"
    using from_hashes_ok [OF assms(2)] assms(1) by auto
  then have "bl_num_entries f \<noteq> 0"
    using assms(3) by (metis length_pos_if_in_set not_gr_zero unsigned_0)
  moreover obtain ps where "get_probes f h = Some ps" "probes_set f ps"
    using add_hashes_probes [OF _ assms(3)] assms(1) unfolding from_hashes_def Let_def by blast
  ultimately show ?thesis by (simp add: contains_hash_def)
qed

text \<open>C20: no false negatives, over the wire: building a filter from fewer than 400 million hashes
  does not panic, its bytes are read back as the same filter, and membership of every hash it was
  built from is answered with true.\<close>

theorem bloom_no_false_negatives:
  assumes "writes_uleb wu" and "length hs < 400000000"
  shows "\<exists>f. from_hashes hs = Some f \<and> bloom_try_from (bloom_to_bytes wu f) = Inr f
    \<and> (\<forall>h \<in> set hs. contains_hash f h = Some True)"
proof -
  from from_hashes_ok [OF assms(2)] obtain f where f: "from_hashes hs = Some f" "bloom_ok f" by blast
  moreover have "bloom_try_from (bloom_to_bytes wu f) = Inr f"
    using bloom_wire [OF assms(1) f(2)] by (auto simp: bloom_try_from_def)
  ultimately show ?thesis using from_hashes_contains [OF f(1) assms(2)] by blast
qed

theorem bloom_no_false_negatives_witness:
  "\<exists>f. from_hashes [ChangeHash (replicate 32 7), ChangeHash (replicate 32 200)] = Some f
    \<and> bloom_try_from (bloom_to_bytes own_writer f) = Inr f
    \<and> (\<forall>h \<in> set [ChangeHash (replicate 32 7), ChangeHash (replicate 32 200)]. contains_hash f h = Some True)"
  by (rule bloom_no_false_negatives) (simp_all add: own_writer_writes)

text \<open>C37: a peer can make the membership test panic: the bytes of a filter that declares entries but
  no bits per entry are accepted, and every membership test on the resulting filter takes a
  remainder by zero.\<close>

theorem bloom_empty_bits_panic:
  fixes n p :: u32
  assumes "writes_uleb wu" and "n \<noteq> 0"
  shows "\<exists>f. bloom_try_from (wu (ucast n) @ wu 0 @ wu (ucast p)) = Inr f \<and> contains_hash f h = None"
proof -
  let ?f = "\<lparr>bl_num_entries = n, bl_num_bits_per_entry = 0, bl_num_probes = p, bl_bits = []\<rparr>"
  have "bloom_to_bytes wu ?f @ [] = wu (ucast n) @ wu 0 @ wu (ucast p)"
    using assms(2) by (simp add: bloom_to_bytes_def)
  moreover have "length (bl_bits ?f) = bits_capacity (bl_num_entries ?f) (bl_num_bits_per_entry ?f)"
    by (simp add: bits_capacity_small)
  ultimately have "bloom_try_from (wu (ucast n) @ wu 0 @ wu (ucast p)) = Inr ?f"
    using bloom_roundtrip [OF assms(1), of ?f "[]"] assms(2) by (auto simp: bloom_try_from_def)
  moreover have "contains_hash ?f h = None"
    using assms(2) by (simp add: contains_hash_def get_probes_def)
  ultimately show ?thesis by blast
qed

theorem bloom_empty_bits_panic_witness:
  "\<exists>f. bloom_try_from (own_writer (ucast (1 :: u32)) @ own_writer 0 @ own_writer (ucast (7 :: u32))) = Inr f
    \<and> contains_hash f (ChangeHash (replicate 32 0)) = None"
  by (rule bloom_empty_bits_panic) (simp_all add: own_writer_writes)

end
