(* ===== verification/Sync_Message.thy ===== *)
theory Sync_Message
  imports Bloom Loaded_Change
begin

text \<open>
  The messages of the sync protocol and the part of its state that outlives a connection: their data
  (\<open>sync.rs\<close>, \<open>sync/state.rs\<close>), their wire formats and the builder of messages
  (\<open>sync/message_builder.rs\<close>). The writer of the \<open>leb128\<close> crate is an argument of the encoders. The debug
  assertion of \<open>encode_hashes\<close> that the hashes are sorted is not part of the release build.
\<close>

subsection \<open>Data\<close>

datatype message_version = V1 | V2

datatype capability = MessageV1 | MessageV2 | UnknownCapability u8

record have_summary =
  hv_last_sync :: "change_hash list"
  hv_bloom :: bloom_filter

definition default_have :: have_summary where
  "default_have = \<lparr>hv_last_sync = [], hv_bloom = default_bloom\<rparr>"

text \<open>\<open>ChunkList\<close> is a vector of byte vectors.\<close>

type_synonym chunk_list = "bytes list"

record message =
  ms_heads :: "change_hash list"
  ms_need :: "change_hash list"
  ms_have :: "have_summary list"
  ms_changes :: chunk_list
  ms_supported_capabilities :: "capability list option"
  ms_version :: message_version

text \<open>
  The errors keep the cause that the source turns into a string. Parsing a message never parses a
  change, so the variants that carry errors of changes do not arise.
\<close>

datatype message_parse_cause = MessageLeb128 leb128_error | MessageBloom bloom_parse_error

datatype read_message_error =
    MessageWrongType "u8 list" u8
  | MessageParse message_parse_cause
  | MessageNotEnoughInput

definition message_type_sync :: u8 where
  "message_type_sync = 0x42"

definition message_type_sync_v2 :: u8 where
  "message_type_sync_v2 = 0x43"

subsection \<open>Parsing\<close>

definition version_parse :: "input \<Rightarrow> (message_version, read_message_error) parse_result" where
  "version_parse input = bind_res (take_1 input) (\<lambda>(i, first_byte).
     if first_byte = message_type_sync then Inr (i, V1)
     else if first_byte = message_type_sync_v2 then Inr (i, V2)
     else Inl (PError (MessageWrongType [message_type_sync, message_type_sync_v2] first_byte)))"

definition version_encode :: "message_version \<Rightarrow> u8" where
  "version_encode v = (case v of V1 \<Rightarrow> message_type_sync | V2 \<Rightarrow> message_type_sync_v2)"

definition capability_encode :: "capability \<Rightarrow> bytes" where
  "capability_encode c = (case c of MessageV1 \<Rightarrow> [0x01] | MessageV2 \<Rightarrow> [0x02] | UnknownCapability v \<Rightarrow> [v])"

definition capability_parse :: "input \<Rightarrow> (capability, read_message_error) parse_result" where
  "capability_parse input = bind_res (take_1 input) (\<lambda>(i, v).
     if v = 0x01 then Inr (i, MessageV1) else if v = 0x02 then Inr (i, MessageV2)
     else Inr (i, UnknownCapability v))"

definition conv_leb :: "leb128_error \<Rightarrow> read_message_error" where
  "conv_leb e = MessageParse (MessageLeb128 e)"

definition chunk_list_parse :: "input \<Rightarrow> (chunk_list, read_message_error) parse_result" where
  "chunk_list_parse i = length_prefixed conv_leb (length_prefixed_bytes conv_leb) i"

definition parse_have :: "input \<Rightarrow> (have_summary, read_message_error) parse_result" where
  "parse_have input =
     bind_res (length_prefixed conv_leb change_hash_p input) (\<lambda>(i, last_sync).
     bind_res (length_prefixed_bytes conv_leb i) (\<lambda>(i, bloom_bytes).
     bind_res (map_err (lift_err (\<lambda>e. MessageParse (MessageBloom e))) (bloom_parse (new_input bloom_bytes))) (\<lambda>(_, bloom).
     Inr (i, \<lparr>hv_last_sync = last_sync, hv_bloom = bloom\<rparr>))))"

definition message_parse :: "input \<Rightarrow> (message, read_message_error) parse_result" where
  "message_parse input =
     bind_res (version_parse input) (\<lambda>(i, message_version).
     bind_res (length_prefixed conv_leb change_hash_p i) (\<lambda>(i, heads).
     bind_res (length_prefixed conv_leb change_hash_p i) (\<lambda>(i, need).
     bind_res (length_prefixed conv_leb parse_have i) (\<lambda>(i, have_list).
     bind_res (chunk_list_parse i) (\<lambda>(i, changes).
     bind_res (if \<not> is_empty_in i
               then map_res (\<lambda>(i, caps). (i, Some caps)) (length_prefixed conv_leb capability_parse i)
               else Inr (i, None)) (\<lambda>(i, supported_capabilities).
     Inr (i, \<lparr>ms_heads = heads, ms_need = need, ms_have = have_list, ms_changes = changes,
       ms_supported_capabilities = supported_capabilities, ms_version = message_version\<rparr>)))))))"

definition message_decode :: "bytes \<Rightarrow> read_message_error + message" where
  "message_decode input = (case message_parse (new_input input) of
     Inr (_, msg) \<Rightarrow> Inr msg
   | Inl (PError e) \<Rightarrow> Inl e
   | Inl (Incomplete _) \<Rightarrow> Inl MessageNotEnoughInput)"

subsection \<open>Encoding\<close>

definition encode_many :: "(u64 \<Rightarrow> bytes) \<Rightarrow> ('a \<Rightarrow> bytes) \<Rightarrow> 'a list \<Rightarrow> bytes" where
  "encode_many wu f xs = wu (word_of_nat (length xs)) @ concat (map f xs)"

definition encode_hashes :: "(u64 \<Rightarrow> bytes) \<Rightarrow> change_hash list \<Rightarrow> bytes" where
  "encode_hashes wu hs = encode_many wu hash_bytes hs"

definition encode_have :: "(u64 \<Rightarrow> bytes) \<Rightarrow> have_summary \<Rightarrow> bytes" where
  "encode_have wu h = encode_hashes wu (hv_last_sync h)
     @ wu (word_of_nat (length (bloom_to_bytes wu (hv_bloom h)))) @ bloom_to_bytes wu (hv_bloom h)"

definition message_encode :: "(u64 \<Rightarrow> bytes) \<Rightarrow> message \<Rightarrow> bytes" where
  "message_encode wu m =
     [version_encode (ms_version m)] @ encode_hashes wu (ms_heads m) @ encode_hashes wu (ms_need m)
     @ encode_many wu (encode_have wu) (ms_have m)
     @ encode_many wu (\<lambda>change. wu (word_of_nat (length change)) @ change) (ms_changes m)
     @ (case ms_supported_capabilities m of Some caps \<Rightarrow> encode_many wu capability_encode caps | None \<Rightarrow> [])"

text \<open>\<open>ChunkList::join\<close>.\<close>

definition chunk_list_join :: "chunk_list \<Rightarrow> bytes" where
  "chunk_list_join cs = concat cs"

subsection \<open>The builder\<close>

definition builder_new_v1 :: "loaded_change list \<Rightarrow> message" where
  "builder_new_v1 changes = \<lparr>ms_heads = [], ms_need = [], ms_have = [], ms_changes = map lc_raw_bytes changes,
     ms_supported_capabilities = None, ms_version = V1\<rparr>"

definition builder_new_v2 :: "bytes \<Rightarrow> message" where
  "builder_new_v2 changes = \<lparr>ms_heads = [], ms_need = [], ms_have = [],
     ms_changes = (if length changes > 1 then [changes] else []),
     ms_supported_capabilities = None, ms_version = V2\<rparr>"

subsection \<open>The state\<close>

record sync_state =
  st_shared_heads :: "change_hash list"
  st_last_sent_heads :: "change_hash list"
  st_their_heads :: "change_hash list option"
  st_their_need :: "change_hash list option"
  st_their_have :: "have_summary list option"
  st_sent_hashes :: "change_hash set"
  st_in_flight :: bool
  st_have_responded :: bool
  st_their_capabilities :: "capability list option"

definition state_new :: sync_state where
  "state_new = \<lparr>st_shared_heads = [], st_last_sent_heads = [], st_their_heads = None, st_their_need = None,
     st_their_have = None, st_sent_hashes = {}, st_in_flight = False, st_have_responded = False,
     st_their_capabilities = None\<rparr>"

text \<open>The conversion of a LEB128 error into a state error forgets which error it was.\<close>

datatype decode_state_error = StateParse | StateWrongType "u8 list" u8 | StateNotEnoughInput

definition sync_state_type :: u8 where
  "sync_state_type = 0x43"

definition state_encode :: "(u64 \<Rightarrow> bytes) \<Rightarrow> sync_state \<Rightarrow> bytes" where
  "state_encode wu s = [sync_state_type] @ encode_hashes wu (st_shared_heads s)"

definition state_parse :: "input \<Rightarrow> (sync_state, decode_state_error) parse_result" where
  "state_parse input = bind_res (take_1 input) (\<lambda>(i, record_type).
     if record_type \<noteq> sync_state_type then Inl (PError (StateWrongType [sync_state_type] record_type))
     else bind_res (length_prefixed (\<lambda>_. StateParse) change_hash_p i) (\<lambda>(i, shared_heads).
       Inr (i, \<lparr>st_shared_heads = shared_heads, st_last_sent_heads = [], st_their_heads = None,
         st_their_need = None, st_their_have = Some [], st_sent_hashes = {}, st_in_flight = False,
         st_have_responded = False, st_their_capabilities = None\<rparr>)))"

definition state_decode :: "bytes \<Rightarrow> decode_state_error + sync_state" where
  "state_decode input = (case state_parse (new_input input) of
     Inr (_, state) \<Rightarrow> Inr state
   | Inl (Incomplete _) \<Rightarrow> Inl StateNotEnoughInput
   | Inl (PError e) \<Rightarrow> Inl e)"

definition supports_v2_messages :: "sync_state \<Rightarrow> bool" where
  "supports_v2_messages s = (case st_their_capabilities s of
     Some caps \<Rightarrow> MessageV2 \<in> set caps | None \<Rightarrow> False)"

subsection \<open>Round trips\<close>

lemma codec_cong:
  assumes "codec enc dec valid" and "\<And>x. valid' x \<Longrightarrow> valid x" and "\<And>x. valid' x \<Longrightarrow> enc' x = enc x"
  shows "codec enc' dec valid'"
proof
  fix x and i :: input and rest
  assume "valid' x" and "inp_bytes i = enc' x @ rest"
  then show "dec i = Inr (advance i (length (enc' x)), x)"
    using codec.dec_enc [OF assms(1), of x i rest] assms(2,3) by simp
qed

lemma encode_many_eq: "writes_uleb wu \<Longrightarrow> fits64 xs \<Longrightarrow> encode_many wu f xs = enc_list f xs"
  by (simp add: encode_many_def enc_list_def writes_uleb_def fits64_def unat_u64_of_nat)

lemma write_bytes_eq: "writes_uleb wu \<Longrightarrow> fits64 b \<Longrightarrow> wu (word_of_nat (length b)) @ b = enc_bytes b"
  by (simp add: enc_bytes_def writes_uleb_def fits64_def unat_u64_of_nat)

lemma map_encode_many_eq:
  "writes_uleb wu \<Longrightarrow> fits64 xs \<Longrightarrow> (\<And>x. x \<in> set xs \<Longrightarrow> f x = g x) \<Longrightarrow> encode_many wu f xs = enc_list g xs"
  by (simp add: encode_many_eq enc_list_def cong: map_cong)

definition hashes_ok :: "change_hash list \<Rightarrow> bool" where
  "hashes_ok hs \<longleftrightarrow> fits64 hs \<and> (\<forall>h \<in> set hs. hash_ok h)"

definition have_ok :: "(u64 \<Rightarrow> bytes) \<Rightarrow> have_summary \<Rightarrow> bool" where
  "have_ok wu h \<longleftrightarrow> hashes_ok (hv_last_sync h) \<and> bloom_ok (hv_bloom h) \<and> fits64 (bloom_to_bytes wu (hv_bloom h))"

definition capability_ok :: "capability \<Rightarrow> bool" where
  "capability_ok c \<longleftrightarrow> c \<noteq> UnknownCapability 1 \<and> c \<noteq> UnknownCapability 2"

definition message_ok :: "(u64 \<Rightarrow> bytes) \<Rightarrow> message \<Rightarrow> bool" where
  "message_ok wu m \<longleftrightarrow> hashes_ok (ms_heads m) \<and> hashes_ok (ms_need m)
     \<and> fits64 (ms_have m) \<and> (\<forall>h \<in> set (ms_have m). have_ok wu h)
     \<and> fits64 (ms_changes m) \<and> (\<forall>c \<in> set (ms_changes m). fits64 c)
     \<and> (\<forall>caps. ms_supported_capabilities m = Some caps \<longrightarrow> fits64 caps \<and> (\<forall>c \<in> set caps. capability_ok c))"

lemma codec_hashes:
  "writes_uleb wu \<Longrightarrow> codec (encode_hashes wu) (length_prefixed conv change_hash_p) hashes_ok"
  by (rule codec_cong [OF change_hashes.codec_axioms]) (simp_all add: hashes_ok_def encode_hashes_def encode_many_eq)

lemma codec_capability: "codec capability_encode capability_parse capability_ok"
proof
  fix c and i :: input and rest
  assume "capability_ok c" and "inp_bytes i = capability_encode c @ rest"
  then show "capability_parse i = Inr (advance i (length (capability_encode c)), c)"
    by (cases c) (auto simp: capability_encode_def capability_parse_def capability_ok_def take_1_Cons)
qed

lemma codec_have:
  assumes "writes_uleb wu"
  shows "codec (encode_have wu) parse_have (have_ok wu)"
proof
  fix h and i :: input and rest
  assume ok: "have_ok wu h" and i: "inp_bytes i = encode_have wu h @ rest"
  let ?b = "bloom_to_bytes wu (hv_bloom h)" and ?hs = "encode_hashes wu (hv_last_sync h)"
  let ?i = "advance i (length ?hs)"
  have e: "encode_have wu h = ?hs @ enc_bytes ?b"
    using ok assms by (simp add: encode_have_def have_ok_def write_bytes_eq)
  have 1: "length_prefixed conv_leb change_hash_p i = Inr (?i, hv_last_sync h)"
    by (rule codec.dec_enc [OF codec_hashes [OF assms]]) (use ok i e in \<open>auto simp: have_ok_def\<close>)
  have 2: "length_prefixed_bytes conv_leb ?i = Inr (advance ?i (length (enc_bytes ?b)), ?b)"
    by (rule prefixed_bytes.dec_enc) (use ok i e in \<open>auto simp: have_ok_def\<close>)
  obtain j where 3: "bloom_parse (new_input ?b) = Inr (j, hv_bloom h)"
    using bloom_wire [OF assms] ok by (auto simp: have_ok_def)
  show "parse_have i = Inr (advance i (length (encode_have wu h)), h)"
    by (simp add: parse_have_def 1 2 3 e)
qed

lemma version_roundtrip: "inp_bytes i = [version_encode v] @ rest \<Longrightarrow> version_parse i = Inr (advance i 1, v)"
  by (cases v) (simp_all add: version_parse_def version_encode_def message_type_sync_def
      message_type_sync_v2_def take_1_Cons)

lemma codec_changes:
  assumes "writes_uleb wu"
  shows "codec (encode_many wu (\<lambda>c. wu (word_of_nat (length c)) @ c)) chunk_list_parse
    (\<lambda>cs. fits64 cs \<and> (\<forall>c \<in> set cs. fits64 c))"
  unfolding chunk_list_parse_def
  by (rule codec_cong [OF prefixed_bytes.length_prefixed_codec])
    (simp_all add: map_encode_many_eq [OF assms] write_bytes_eq [OF assms])

lemma codec_haves:
  assumes "writes_uleb wu"
  shows "codec (encode_many wu (encode_have wu)) (length_prefixed conv_leb parse_have)
    (\<lambda>hs. fits64 hs \<and> (\<forall>h \<in> set hs. have_ok wu h))"
  by (rule codec_cong [OF codec.length_prefixed_codec [OF codec_have [OF assms]]])
    (simp_all add: encode_many_eq [OF assms])

lemma codec_capabilities:
  assumes "writes_uleb wu"
  shows "codec (encode_many wu capability_encode) (length_prefixed conv_leb capability_parse)
    (\<lambda>cs. fits64 cs \<and> (\<forall>c \<in> set cs. capability_ok c))"
  by (rule codec_cong [OF codec.length_prefixed_codec [OF codec_capability]])
    (simp_all add: encode_many_eq [OF assms])

lemma message_parse_encode:
  assumes wu: "writes_uleb wu" and ok: "message_ok wu m"
  shows "\<exists>i. message_parse (new_input (message_encode wu m)) = Inr (i, m) \<and> is_empty_in i"
proof -
  let ?h = "encode_hashes wu (ms_heads m)" and ?n = "encode_hashes wu (ms_need m)"
    and ?v = "encode_many wu (encode_have wu) (ms_have m)"
    and ?c = "encode_many wu (\<lambda>c. wu (word_of_nat (length c)) @ c) (ms_changes m)"
    and ?s = "case ms_supported_capabilities m of Some caps \<Rightarrow> encode_many wu capability_encode caps | None \<Rightarrow> []"
  define i0 where "i0 = new_input (message_encode wu m)"
  define i1 where "i1 = advance i0 1"
  define i2 where "i2 = advance i1 (length ?h)"
  define i3 where "i3 = advance i2 (length ?n)"
  define i4 where "i4 = advance i3 (length ?v)"
  define i5 where "i5 = advance i4 (length ?c)"
  have b0: "inp_bytes i0 = [version_encode (ms_version m)] @ ?h @ ?n @ ?v @ ?c @ ?s"
    by (simp add: i0_def message_encode_def)
  then have b: "inp_bytes i1 = ?h @ ?n @ ?v @ ?c @ ?s" "inp_bytes i2 = ?n @ ?v @ ?c @ ?s"
    "inp_bytes i3 = ?v @ ?c @ ?s" "inp_bytes i4 = ?c @ ?s" "inp_bytes i5 = ?s"
    by (simp_all add: i1_def i2_def i3_def i4_def i5_def)
  have 0: "version_parse i0 = Inr (i1, ms_version m)"
    unfolding i1_def by (rule version_roundtrip [OF b0])
  have 1: "length_prefixed conv_leb change_hash_p i1 = Inr (i2, ms_heads m)"
    unfolding i2_def by (rule codec.dec_enc [OF codec_hashes [OF wu] _ b(1)]) (use ok in \<open>simp add: message_ok_def\<close>)
  have 2: "length_prefixed conv_leb change_hash_p i2 = Inr (i3, ms_need m)"
    unfolding i3_def by (rule codec.dec_enc [OF codec_hashes [OF wu] _ b(2)]) (use ok in \<open>simp add: message_ok_def\<close>)
  have 3: "length_prefixed conv_leb parse_have i3 = Inr (i4, ms_have m)"
    unfolding i4_def by (rule codec.dec_enc [OF codec_haves [OF wu] _ b(3)]) (use ok in \<open>simp add: message_ok_def\<close>)
  have 4: "chunk_list_parse i4 = Inr (i5, ms_changes m)"
    unfolding i5_def by (rule codec.dec_enc [OF codec_changes [OF wu] _ b(4)]) (use ok in \<open>simp add: message_ok_def\<close>)
  show ?thesis
  proof (cases "ms_supported_capabilities m")
    case None
    then show ?thesis using b(5)
      by (simp add: message_parse_def i0_def [symmetric] 0 1 2 3 4 is_empty_in_def)
  next
    case (Some caps)
    then have b5: "inp_bytes i5 = encode_many wu capability_encode caps @ []" using b(5) by simp
    have ne: "inp_bytes i5 \<noteq> []"
      using Some ok by (simp add: b5 encode_many_eq [OF wu] message_ok_def enc_list_def)
    have "length_prefixed conv_leb capability_parse i5
        = Inr (advance i5 (length (encode_many wu capability_encode caps)), caps)"
      by (rule codec.dec_enc [OF codec_capabilities [OF wu] _ b5]) (use ok Some in \<open>simp add: message_ok_def\<close>)
    then show ?thesis using ne b5 Some
      by (simp add: message_parse_def i0_def [symmetric] 0 1 2 3 4 is_empty_in_def)
  qed
qed

text \<open>C19: a sync message is decoded from its bytes as the message it was, in both versions, with every
  hash, need, filter, change and advertised capability, and all its bytes are consumed.\<close>

theorem sync_message_roundtrip:
  assumes "writes_uleb wu" and "message_ok wu m"
  shows "message_decode (message_encode wu m) = Inr m
    \<and> (\<exists>i. message_parse (new_input (message_encode wu m)) = Inr (i, m) \<and> is_empty_in i)"
  using message_parse_encode [OF assms] by (auto simp: message_decode_def)

definition example_message :: message where
  "example_message = \<lparr>ms_heads = [ChangeHash (replicate 32 1)], ms_need = [], ms_have = [default_have],
     ms_changes = [[1, 2, 3], []], ms_supported_capabilities = Some [MessageV1, MessageV2, UnknownCapability 9],
     ms_version = V1\<rparr>"

lemma example_message_ok: "message_ok own_writer example_message"
  by (simp add: message_ok_def example_message_def hashes_ok_def have_ok_def default_have_def fits64_def
      hash_ok_def hash_size_def capability_ok_def)

theorem sync_message_roundtrip_witness:
  "message_decode (message_encode own_writer example_message) = Inr example_message"
  using sync_message_roundtrip [OF own_writer_writes example_message_ok] by blast

text \<open>What is kept of a sync state across connections are the shared heads: decoding the bytes of any
  state gives a fresh state with these heads, and bytes with another first byte are refused.\<close>

theorem sync_state_roundtrip:
  assumes "writes_uleb wu" and "hashes_ok (st_shared_heads s)"
  shows "state_decode (state_encode wu s)
      = Inr (state_new\<lparr>st_shared_heads := st_shared_heads s, st_their_have := Some []\<rparr>)
    \<and> (b \<noteq> sync_state_type \<longrightarrow> state_decode (b # bs) = Inl (StateWrongType [sync_state_type] b))"
proof -
  define i where "i = advance (new_input (state_encode wu s)) 1"
  have "inp_bytes i = encode_hashes wu (st_shared_heads s) @ []"
    by (simp add: i_def state_encode_def)
  then have "length_prefixed (\<lambda>_. StateParse) change_hash_p i
      = Inr (advance i (length (encode_hashes wu (st_shared_heads s))), st_shared_heads s)"
    by (rule codec.dec_enc [OF codec_hashes [OF assms(1)] assms(2)])
  moreover have "(take_1 (new_input (state_encode wu s)) :: (u8, decode_state_error) parse_result) = Inr (i, sync_state_type)"
    by (simp add: i_def state_encode_def take_1_Cons)
  ultimately show ?thesis
    by (simp add: state_decode_def state_parse_def state_new_def take_1_Cons)
qed

theorem sync_state_roundtrip_witness:
  "state_decode (state_encode own_writer (state_new\<lparr>st_shared_heads := [ChangeHash (replicate 32 1)], st_in_flight := True\<rparr>))
     = Inr (state_new\<lparr>st_shared_heads := [ChangeHash (replicate 32 1)], st_their_have := Some []\<rparr>)
   \<and> state_decode [0] = Inl (StateWrongType [sync_state_type] 0)"
  using sync_state_roundtrip [OF own_writer_writes,
      of "state_new\<lparr>st_shared_heads := [ChangeHash (replicate 32 1)], st_in_flight := True\<rparr>" 0 "[]"]
  by (simp add: hashes_ok_def fits64_def hash_ok_def hash_size_def sync_state_type_def)

end
