(* ===== verification/Sync.thy ===== *)
theory Sync
  imports Doc_Props Sync_Message
begin

text \<open>
  The sync protocol (\<open>sync.rs\<close>): what a peer sends next, given the document and the state of the
  connection, and what it does with a message. Saving a document, reading changes back from the
  operation set and loading the bytes of changes are functions of the operation set and the storage
  layer; they are arguments here. A panic is \<open>None\<close>. Hash sets are iterated in increasing order.
\<close>

subsection \<open>Changes to send\<close>

definition make_bloom_filter :: "'c automerge \<Rightarrow> change_hash list \<Rightarrow> have_summary option" where
  "make_bloom_filter am last_sync =
     Option.bind (get_hashes (am_graph am) last_sync) (\<lambda>hashes.
     map_option (\<lambda>f. \<lparr>hv_last_sync = last_sync, hv_bloom = f\<rparr>) (from_hashes hashes))"

text \<open>\<open>all\<close> stops at the first filter that contains the hash.\<close>

primrec in_no_filter :: "bloom_filter list \<Rightarrow> change_hash \<Rightarrow> bool option" where
  "in_no_filter [] h = Some True"
| "in_no_filter (f # fs) h = Option.bind (contains_hash f h) (\<lambda>b. if b then Some False else in_no_filter fs h)"

text \<open>The loop over the hashes: the dependents of each hash, and the hashes that no filter contains.\<close>

primrec scan_hashes ::
  "change_graph \<Rightarrow> bloom_filter list \<Rightarrow> change_hash list \<Rightarrow> (change_hash \<Rightarrow> change_hash list) \<times> change_hash set
    \<Rightarrow> ((change_hash \<Rightarrow> change_hash list) \<times> change_hash set) option" where
  "scan_hashes g filters [] acc = Some acc"
| "scan_hashes g filters (h # hs) acc =
     Option.bind (graph_deps g h) (\<lambda>deps.
     let dependents = foldl (\<lambda>m d. m(d := m d @ [h])) (fst acc) deps in
     Option.bind (in_no_filter filters h) (\<lambda>b.
     scan_hashes g filters hs (dependents, if b then insert h (snd acc) else snd acc)))"

fun push_dependent :: "change_hash set \<times> change_hash list \<Rightarrow> change_hash \<Rightarrow> change_hash set \<times> change_hash list" where
  "push_dependent (to_send, stack) d = (if d \<in> to_send then (to_send, stack) else (insert d to_send, d # stack))"

partial_function (option) close_loop ::
  "(change_hash \<Rightarrow> change_hash list) \<Rightarrow> change_hash set \<Rightarrow> change_hash list \<Rightarrow> change_hash set option" where
  "close_loop dependents to_send stack = (case stack of
     [] \<Rightarrow> Some to_send
   | h # stack \<Rightarrow> (case foldl push_dependent (to_send, stack) (dependents h) of
       (to_send, stack) \<Rightarrow> close_loop dependents to_send stack))"

definition get_hashes_to_send ::
  "'c automerge \<Rightarrow> have_summary list \<Rightarrow> change_hash list \<Rightarrow> change_hash list option" where
  "get_hashes_to_send am have_list need =
     (if have_list = [] then Some need
      else let last_sync_hashes = sorted_list_of_set (set (concat (map hv_last_sync have_list)));
               bloom_filters = map hv_bloom have_list in
        Option.bind (get_hashes (am_graph am) last_sync_hashes) (\<lambda>hashes.
        Option.bind (scan_hashes (am_graph am) bloom_filters hashes (\<lambda>_. [], {})) (\<lambda>(dependents, to_send).
        Option.bind (close_loop dependents to_send (sorted_list_of_set to_send)) (\<lambda>to_send.
        Some (filter (\<lambda>h. h \<notin> to_send) need @ filter (\<lambda>h. h \<in> to_send) hashes)))))"

subsection \<open>Generating a message\<close>

definition reset_message :: "'c automerge \<Rightarrow> message" where
  "reset_message am = \<lparr>ms_heads = get_heads am, ms_need = [], ms_have = [default_have], ms_changes = [],
     ms_supported_capabilities = Some [MessageV1, MessageV2], ms_version = V1\<rparr>"

definition needs_reset :: "'c automerge \<Rightarrow> sync_state \<Rightarrow> bool" where
  "needs_reset am st = (case st_their_have st of
     Some (first_have # _) \<Rightarrow> \<not> list_all (doc_has_change am) (hv_last_sync first_have) | _ \<Rightarrow> False)"

text \<open>
  The changes of the message and their hashes; \<open>Some None\<close> is the early return when a change is not
  found.
\<close>

definition message_changes ::
  "('c automerge \<Rightarrow> bytes) \<Rightarrow> ('c automerge \<Rightarrow> change_hash list \<Rightarrow> automerge_error + loaded_change list)
    \<Rightarrow> 'c automerge \<Rightarrow> sync_state \<Rightarrow> (message \<times> change_hash list) option option" where
  "message_changes save by_hashes am st = (case (st_their_have st, st_their_need st) of
     (Some their_have, Some their_need) \<Rightarrow>
       if st_their_heads st = Some [] \<and> supports_v2_messages st
       then map_option (\<lambda>hashes. Some (builder_new_v2 (save am), hashes)) (get_hashes (am_graph am) [])
       else Option.bind (get_hashes_to_send am their_have their_need) (\<lambda>all_hashes.
         let hashes = filter (\<lambda>h. h \<notin> st_sent_hashes st) all_hashes in
         Some (case by_hashes am hashes of
           Inl _ \<Rightarrow> None
         | Inr changes \<Rightarrow> Some (if supports_v2_messages st
             then builder_new_v2 (concat (map lc_raw_bytes changes)) else builder_new_v1 changes, hashes)))
   | _ \<Rightarrow> Some (Some (if supports_v2_messages st then builder_new_v2 [] else builder_new_v1 [], [])))"

text \<open>The end of the function: nothing is sent, or the message is built and the state records it.\<close>

definition finish_message ::
  "'c automerge \<Rightarrow> sync_state \<Rightarrow> have_summary list \<Rightarrow> change_hash list \<Rightarrow> message \<Rightarrow> change_hash list
    \<Rightarrow> message option \<times> sync_state" where
  "finish_message am st our_have our_need message_builder sent_hashes =
     (let our_heads = get_heads am;
          heads_unchanged = (st_last_sent_heads st = our_heads);
          heads_equal = (case st_their_heads st of Some hs \<Rightarrow> hs = our_heads | None \<Rightarrow> False) in
      if heads_unchanged \<and> st_have_responded st \<and> heads_equal \<and> sent_hashes = [] then (None, st)
      else if heads_unchanged \<and> st_have_responded st \<and> st_in_flight st then (None, st)
      else let supported_capabilities = (if st_have_responded st then None else Some [MessageV1, MessageV2]);
               st = st\<lparr>st_have_responded := True, st_last_sent_heads := our_heads,
                 st_sent_hashes := st_sent_hashes st \<union> set sent_hashes\<rparr>;
               sync_message = message_builder\<lparr>ms_heads := our_heads, ms_have := our_have,
                 ms_need := our_need, ms_supported_capabilities := supported_capabilities\<rparr> in
           (Some sync_message, st\<lparr>st_in_flight := True\<rparr>))"

definition generate_sync_message ::
  "('c automerge \<Rightarrow> bytes) \<Rightarrow> ('c automerge \<Rightarrow> change_hash list \<Rightarrow> automerge_error + loaded_change list)
    \<Rightarrow> 'c automerge \<Rightarrow> sync_state \<Rightarrow> (message option \<times> sync_state) option" where
  "generate_sync_message save by_hashes am st =
     (let our_need = get_missing_deps am (case st_their_heads st of Some hs \<Rightarrow> hs | None \<Rightarrow> []);
          their_heads_set = (case st_their_heads st of Some hs \<Rightarrow> set hs | None \<Rightarrow> {}) in
      Option.bind (if list_all (\<lambda>h. h \<in> their_heads_set) our_need
                   then map_option (\<lambda>h. [h]) (make_bloom_filter am (st_shared_heads st)) else Some []) (\<lambda>our_have.
      if needs_reset am st then Some (Some (reset_message am), st)
      else Option.bind (message_changes save by_hashes am st) (\<lambda>r. case r of
        None \<Rightarrow> Some (None, st)
      | Some (message_builder, sent_hashes) \<Rightarrow>
          Some (finish_message am st our_have our_need message_builder sent_hashes))))"

subsection \<open>Receiving a message\<close>

definition advance_heads :: "change_hash set \<Rightarrow> change_hash set \<Rightarrow> change_hash list \<Rightarrow> change_hash list" where
  "advance_heads my_old_heads my_new_heads our_old_shared_heads =
     (let new_heads = {h \<in> my_new_heads. h \<notin> my_old_heads};
          common_heads = {h \<in> set our_old_shared_heads. h \<in> my_new_heads}
      in sorted_list_of_set (new_heads \<union> common_heads))"

text \<open>What follows once the changes of the message are loaded.\<close>

definition receive_rest ::
  "'c automerge \<Rightarrow> change_hash list \<Rightarrow> sync_state \<Rightarrow> message \<Rightarrow> sync_state option" where
  "receive_rest am before_heads st m =
     Option.bind (filter_changes am (ms_heads m) (st_sent_hashes st)) (\<lambda>sent.
     let st = st\<lparr>st_sent_hashes := sent\<rparr>;
         st = (if ms_changes m = [] \<and> ms_heads m = before_heads then st\<lparr>st_last_sent_heads := ms_heads m\<rparr> else st);
         known_heads = filter (doc_has_change am) (ms_heads m);
         st = (if length known_heads = length (ms_heads m)
               then let st = st\<lparr>st_shared_heads := ms_heads m\<rparr> in
                    if ms_heads m = [] then st\<lparr>st_last_sent_heads := [], st_sent_hashes := {}\<rparr> else st
               else st\<lparr>st_shared_heads := sorted_list_of_set (set (st_shared_heads st) \<union> set known_heads)\<rparr>)
     in Some (st\<lparr>st_their_have := Some (ms_have m), st_their_heads := Some (ms_heads m),
                 st_their_need := Some (ms_need m)\<rparr>))"

text \<open>\<open>load\<close> is \<open>load_incremental\<close>: the new document and its result. An error ends the handler.\<close>

definition receive_sync_message ::
  "('c automerge \<Rightarrow> bytes \<Rightarrow> ('c automerge \<times> (automerge_error + unit)) option)
    \<Rightarrow> 'c automerge \<Rightarrow> sync_state \<Rightarrow> message \<Rightarrow> ('c automerge \<times> sync_state \<times> (automerge_error + unit)) option" where
  "receive_sync_message load am st m =
     (let st = st\<lparr>st_in_flight := False\<rparr>;
          before_heads = get_heads am;
          st = (case ms_supported_capabilities m of Some caps \<Rightarrow> st\<lparr>st_their_capabilities := Some caps\<rparr> | None \<Rightarrow> st) in
      if ms_changes m = [] then map_option (\<lambda>st. (am, st, Inr ())) (receive_rest am before_heads st m)
      else Option.bind (load am (chunk_list_join (ms_changes m))) (\<lambda>(am, r). case r of
        Inl e \<Rightarrow> Some (am, st, Inl e)
      | Inr _ \<Rightarrow>
          let st = st\<lparr>st_shared_heads := advance_heads (set before_heads) (set (get_heads am)) (st_shared_heads st)\<rparr> in
          map_option (\<lambda>st. (am, st, Inr ())) (receive_rest am before_heads st m)))"

end
