(* ===== verification/Sync_Props.thy ===== *)
theory Sync_Props
  imports Sync
begin

text \<open>
  What the sync protocol sends: the changes that descend from one the peer's filters lack, and no other;
  none of them is already with the peer. A message is not repeated before an answer, and two peers that
  agree fall silent.
\<close>

subsection \<open>The scan of the candidates\<close>

lemma fold_dependents: "foldl (\<lambda>m d. m(d := m d @ [h])) f ds x = f x @ replicate (count_list ds x) h"
  by (induction ds arbitrary: f) (auto simp: replicate_append_same)

lemma scan_hashes_ok:
  assumes "\<And>h. h \<in> set hs \<Longrightarrow> graph_deps g h = Some (dp h)" and "\<And>h. h \<in> set hs \<Longrightarrow> in_no_filter fs h \<noteq> None"
  shows "\<exists>m. scan_hashes g fs hs acc = Some (m, snd acc \<union> {h \<in> set hs. in_no_filter fs h = Some True})
    \<and> (\<forall>d. set (m d) = set (fst acc d) \<union> {h \<in> set hs. d \<in> set (dp h)})"
  using assms
proof (induction hs arbitrary: acc)
  case Nil
  then show ?case by (cases acc) auto
next
  case (Cons h hs)
  obtain b where b: "in_no_filter fs h = Some b" using Cons.prems(2) [of h] by auto
  let ?m = "foldl (\<lambda>m d. m(d := m d @ [h])) (fst acc) (dp h)"
  let ?acc = "(?m, if b then insert h (snd acc) else snd acc)"
  have "\<exists>m. scan_hashes g fs hs ?acc = Some (m, snd ?acc \<union> {h \<in> set hs. in_no_filter fs h = Some True})
    \<and> (\<forall>d. set (m d) = set (fst ?acc d) \<union> {h \<in> set hs. d \<in> set (dp h)})"
    by (rule Cons.IH) (use Cons.prems in auto)
  then obtain m where m: "scan_hashes g fs hs ?acc = Some (m, snd ?acc \<union> {h \<in> set hs. in_no_filter fs h = Some True})"
    "\<forall>d. set (m d) = set (?m d) \<union> {h \<in> set hs. d \<in> set (dp h)}" by auto
  have "set (?m d) = set (fst acc d) \<union> (if d \<in> set (dp h) then {h} else {})" for d
    by (auto simp: fold_dependents count_list_0_iff)
  then have "\<forall>d. set (m d) = set (fst acc d) \<union> {k \<in> set (h # hs). d \<in> set (dp k)}"
    using m(2) by auto
  moreover have "snd ?acc \<union> {h \<in> set hs. in_no_filter fs h = Some True}
      = snd acc \<union> {k \<in> set (h # hs). in_no_filter fs k = Some True}"
    using b by auto
  moreover have "scan_hashes g fs (h # hs) acc = scan_hashes g fs hs ?acc"
    using Cons.prems(1) [of h] b by (simp add: Let_def)
  ultimately show ?case using m(1) by (intro exI [of _ m]) simp
qed

subsection \<open>The closure under dependents\<close>

inductive_set reach :: "('h \<Rightarrow> 'h list) \<Rightarrow> 'h set \<Rightarrow> 'h set" for D :: "'h \<Rightarrow> 'h list" and X :: "'h set" where
  start: "h \<in> X \<Longrightarrow> h \<in> reach D X"
| step: "h \<in> reach D X \<Longrightarrow> k \<in> set (D h) \<Longrightarrow> k \<in> reach D X"

lemma push_dependents:
  "foldl push_dependent (R, st) ds = (R', st') \<Longrightarrow> R' = R \<union> set ds \<and> set st' = set st \<union> (set ds - R)"
  by (induction ds arbitrary: R st) (auto split: if_splits)

text \<open>The set grows; what is not on the stack has its dependents in the set.\<close>

definition closing :: "('h \<Rightarrow> 'h list) \<Rightarrow> 'h set \<Rightarrow> 'h set \<Rightarrow> 'h list \<Rightarrow> bool" where
  "closing D X R st \<longleftrightarrow> X \<subseteq> R \<and> R \<subseteq> reach D X \<and> set st \<subseteq> R \<and> (\<forall>h \<in> R - set st. set (D h) \<subseteq> R)"

lemma close_loop_ok:
  assumes "closing D X R st" and "finite U" and "reach D X \<subseteq> U"
  shows "close_loop D R st = Some (reach D X)"
  using assms(1)
proof (induction "card (U - R)" arbitrary: R st rule: less_induct)
  case less
  show ?case
    using less.prems
  proof (induction st)
    case Nil
    have "h \<in> R" if "h \<in> reach D X" for h
      using that by induction (use Nil in \<open>auto simp: closing_def\<close>)
    then have "R = reach D X" using Nil by (auto simp: closing_def)
    then show ?case by (subst close_loop.simps) simp
  next
    case (Cons h st)
    obtain R' st' where p: "foldl push_dependent (R, st) (D h) = (R', st')" by fastforce
    note pd = push_dependents [OF p]
    have eq: "close_loop D R (h # st) = close_loop D R' st'" by (subst close_loop.simps) (simp add: p)
    have hR: "h \<in> reach D X" using Cons.prems by (auto simp: closing_def)
    then have "R' \<subseteq> reach D X" using Cons.prems pd reach.step [OF hR] by (auto simp: closing_def)
    moreover have "set (D k) \<subseteq> R'" if "k \<in> R' - set st'" for k
      using that Cons.prems pd by (cases "k = h") (auto simp: closing_def)
    ultimately have cl: "closing D X R' st'" using Cons.prems pd by (auto simp: closing_def)
    show ?case
    proof (cases "R' = R")
      case True
      then have "foldl push_dependent (R, st) (D h) = (R, st)"
      proof -
        have "foldl push_dependent (R, st) ds = (R, st)" if "set ds \<subseteq> R" for ds
          using that by (induction ds) auto
        then show ?thesis using pd True by blast
      qed
      then show ?thesis using Cons.IH cl p eq by simp
    next
      case False
      then have "R \<subset> R'" using pd by auto
      moreover have "R' \<subseteq> U" using \<open>R' \<subseteq> reach D X\<close> assms(3) by blast
      ultimately have "card (U - R') < card (U - R)"
        by (intro psubset_card_mono) (use assms(2) in auto)
      from less.hyps [OF this cl] eq show ?thesis by simp
    qed
  qed
qed

subsection \<open>What is sent\<close>

definition last_syncs :: "have_summary list \<Rightarrow> change_hash list" where
  "last_syncs have_list = sorted_list_of_set (set (concat (map hv_last_sync have_list)))"

text \<open>The nodes that are no ancestors of the last sync and that no filter contains, and what descends from them.\<close>

definition lacking :: "change_graph \<Rightarrow> have_summary list \<Rightarrow> node_idx set" where
  "lacking g have_list = {n. n < length (cg_hashes g) \<and> n \<notin> known_nodes g (last_syncs have_list)
     \<and> in_no_filter (map hv_bloom have_list) (cg_hashes g ! n) = Some True}"

definition descends :: "change_graph \<Rightarrow> node_idx set \<Rightarrow> node_idx \<Rightarrow> bool" where
  "descends g X n \<longleftrightarrow> (\<exists>m \<in> X. ancestor g m n)"

lemma descends_not_known:
  assumes "descends g (lacking g hv) n" shows "n < length (cg_hashes g) \<and> n \<notin> known_nodes g (last_syncs hv)"
proof -
  obtain m where m: "m \<in> lacking g hv" "ancestor g m n" using assms by (auto simp: descends_def)
  have "n < length (cg_hashes g)" using m(2) by (auto elim: ancestorE)
  moreover have "m \<in> known_nodes g (last_syncs hv)" if "n \<in> known_nodes g (last_syncs hv)"
    using that ancestor_trans [OF _ m(2)] by (auto simp: known_nodes_def anc_def)
  ultimately show ?thesis using m(1) by (auto simp: lacking_def)
qed

lemma reach_descends:
  assumes core: "core_inv g (length (cg_hashes g))"
    and D: "\<And>d. set (D d) = {h \<in> (!) (cg_hashes g) ` {n. n < length (cg_hashes g) \<and> n \<notin> K}. d \<in> set (the (graph_deps g h))}"
    and K: "K = known_nodes g (last_syncs hv)" and X: "X = (!) (cg_hashes g) ` lacking g hv"
  shows "reach D X = (!) (cg_hashes g) ` {n. descends g (lacking g hv) n}"
proof
  let ?h = "(!) (cg_hashes g)" and ?N = "length (cg_hashes g)"
  have inj: "?h m = ?h n \<Longrightarrow> m < ?N \<Longrightarrow> n < ?N \<Longrightarrow> m = n" for m n
    using core_distinct [OF core] by (simp add: nth_eq_iff_index_eq)
  have deps: "n < ?N \<Longrightarrow> the (graph_deps g (?h n)) = map ?h (parent_list g n)" for n
    using deps_of_node [OF core] by simp
  have "h \<in> ?h ` {n. descends g (lacking g hv) n}" if "h \<in> reach D X" for h
    using that
  proof induction
    case (start h)
    then obtain n where n: "n \<in> lacking g hv" "h = ?h n" by (auto simp: X)
    then have "ancestor g n n" by (auto simp: lacking_def intro: ancestor.self)
    then show ?case using n by (auto simp: descends_def)
  next
    case (step h k)
    then obtain n where n: "descends g (lacking g hv) n" "h = ?h n" by blast
    from step(2) obtain m where m: "m < ?N" "k = ?h m" "h \<in> set (the (graph_deps g k))" by (auto simp: D)
    then obtain p where p: "p \<in> set (parent_list g m)" "?h p = ?h n" by (auto simp: deps n(2))
    then have "p = n" using inj parent_less [OF core m(1) p(1)] descends_not_known [OF n(1)] m(1) by simp
    then have "descends g (lacking g hv) m"
      using n(1) p(1) m(1) by (auto simp: descends_def intro: ancestor.parent)
    then show ?case using m(2) by blast
  qed
  then show "reach D X \<subseteq> ?h ` {n. descends g (lacking g hv) n}" by blast
  have "?h n \<in> reach D X" if "m \<in> lacking g hv" "ancestor g m n" for m n
    using that(2,1)
  proof (induction rule: ancestor.induct)
    case (self n)
    then show ?case by (auto simp: X intro: reach.start)
  next
    case (parent n p m)
    have "descends g (lacking g hv) n"
      using parent by (auto simp: descends_def intro: ancestor.parent)
    then have "n \<notin> K" using descends_not_known K by blast
    then have "?h n \<in> set (D (?h p))" using parent(1,2) by (auto simp: D deps)
    with parent.IH parent.prems show ?case by (blast intro: reach.step)
  qed
  then show "?h ` {n. descends g (lacking g hv) n} \<subseteq> reach D X" by (auto simp: descends_def)
qed

lemma hashes_to_send_eq:
  assumes wf: "graph_wf (am_graph am)" and ch: "actor_chains (am_graph am)" and ne: "hv \<noteq> []"
    and nf: "\<And>h. h \<in> known am \<Longrightarrow> in_no_filter (map hv_bloom hv) h \<noteq> None"
  defines "g \<equiv> am_graph am"
  defines "S \<equiv> (!) (cg_hashes g) ` {n. descends g (lacking g hv) n}"
  shows "get_hashes_to_send am hv need = Some (filter (\<lambda>h. h \<notin> S) need
    @ map ((!) (cg_hashes g)) (filter (descends g (lacking g hv)) [0 ..< length (cg_hashes g)]))"
proof -
  let ?h = "(!) (cg_hashes g)" and ?N = "length (cg_hashes g)"
  define K where "K = known_nodes g (last_syncs hv)"
  define hs where "hs = map ?h (filter (\<lambda>n. n \<notin> K) [0 ..< ?N])"
  have core: "core_inv g ?N" using wf by (simp add: graph_wf_def g_def)
  have gh: "get_hashes g (last_syncs hv) = Some hs"
    unfolding hs_def K_def g_def by (rule get_hashes_eq [OF wf ch])
  have hs: "set hs = ?h ` {n. n < ?N \<and> n \<notin> K}" by (auto simp: hs_def)
  define X where "X = {h \<in> set hs. in_no_filter (map hv_bloom hv) h = Some True}"
  have X: "X = ?h ` lacking g hv" by (auto simp: X_def hs lacking_def K_def)
  have "graph_deps g h = Some (the (graph_deps g h))" if "h \<in> set hs" for h
    using that deps_of_node [OF core] by (auto simp: hs)
  moreover have "in_no_filter (map hv_bloom hv) h \<noteq> None" if "h \<in> set hs" for h
    using that nf by (auto simp: hs known_def g_def)
  ultimately obtain D where D: "scan_hashes g (map hv_bloom hv) hs (\<lambda>_. [], {}) = Some (D, X)"
    "\<forall>d. set (D d) = {h \<in> set hs. d \<in> set (the (graph_deps g h))}"
    using scan_hashes_ok [of hs g "\<lambda>h. the (graph_deps g h)" "map hv_bloom hv" "(\<lambda>_. [], {})"]
    unfolding X_def by auto
  have R: "reach D X = S"
    unfolding S_def by (rule reach_descends [OF core _ K_def X]) (use D(2) in \<open>simp add: hs\<close>)
  have "finite {n. descends g (lacking g hv) n}"
    by (rule finite_subset [of _ "{..< ?N}"]) (use descends_not_known in auto)
  then have fin: "finite X" "finite S" by (simp_all add: X_def S_def)
  have "closing D X X (sorted_list_of_set X)" using fin(1) by (auto simp: closing_def intro: reach.start)
  from close_loop_ok [OF this fin(2)] have cl: "close_loop D X (sorted_list_of_set X) = Some S" by (simp add: R)
  have inj: "?h m = ?h n \<Longrightarrow> m < ?N \<Longrightarrow> n < ?N \<Longrightarrow> m = n" for m n
    using core_distinct [OF core] by (simp add: nth_eq_iff_index_eq)
  have S: "?h n \<in> S \<longleftrightarrow> descends g (lacking g hv) n" if "n < ?N" for n
  proof
    assume "?h n \<in> S"
    then obtain x where x: "descends g (lacking g hv) x" "?h n = ?h x" by (auto simp: S_def)
    then have "n = x" using descends_not_known by (intro inj [OF _ that]) auto
    then show "descends g (lacking g hv) n" using x(1) by simp
  qed (auto simp: S_def)
  have "filter (\<lambda>h. h \<in> S) hs = map ?h (filter (descends g (lacking g hv)) [0 ..< ?N])"
    using S descends_not_known unfolding hs_def K_def
    by (auto simp: filter_map comp_def intro!: arg_cong [where f = "map ?h"] filter_cong)
  then show ?thesis
    using ne gh D(1) cl unfolding get_hashes_to_send_def last_syncs_def g_def [symmetric] by (simp add: Let_def)
qed

subsection \<open>Two documents\<close>

text \<open>A hash names the same change, with the same dependencies, in both documents.\<close>

definition same_deps :: "'c automerge \<Rightarrow> 'd automerge \<Rightarrow> bool" where
  "same_deps am oth \<longleftrightarrow> (\<forall>h \<in> known am \<inter> known oth. deps_for_hash (am_graph am) h = deps_for_hash (am_graph oth) h)"

lemma ancestor_transfer:
  assumes wf: "graph_wf (am_graph am)" "graph_wf (am_graph oth)" and same: "same_deps am oth"
    and anc: "ancestor (am_graph am) m n" and j: "j < length (cg_hashes (am_graph oth))"
      "cg_hashes (am_graph oth) ! j = cg_hashes (am_graph am) ! n"
  shows "\<exists>i. cg_hashes (am_graph oth) ! i = cg_hashes (am_graph am) ! m \<and> ancestor (am_graph oth) i j"
  using anc j
proof (induction arbitrary: j rule: ancestor.induct)
  case (self n)
  then show ?case by (blast intro: ancestor.self)
next
  case (parent n p m)
  let ?a = "am_graph am" and ?b = "am_graph oth"
  have core: "core_inv ?a (length (cg_hashes ?a))" "core_inv ?b (length (cg_hashes ?b))"
    using wf by (simp_all add: graph_wf_def)
  have h: "cg_hashes ?a ! n \<in> known am" "cg_hashes ?a ! n \<in> known oth"
    using parent.hyps(1) parent.prems by (auto simp: known_def in_set_conv_nth)
  then have "map ((!) (cg_hashes ?a)) (parent_list ?a n) = map ((!) (cg_hashes ?b)) (parent_list ?b j)"
    using same deps_for_node [OF core(1) parent.hyps(1)] deps_for_node [OF core(2) parent.prems(1)] parent.prems(2)
    by (auto simp: same_deps_def)
  then have "cg_hashes ?a ! p \<in> set (map ((!) (cg_hashes ?b)) (parent_list ?b j))"
    using parent.hyps(2) by (metis image_eqI list.set_map)
  then obtain q where q: "q \<in> set (parent_list ?b j)" "cg_hashes ?b ! q = cg_hashes ?a ! p" by auto
  then have "q < length (cg_hashes ?b)" using parent_less [OF core(2) parent.prems(1)] parent.prems(1) by force
  then obtain i where "cg_hashes ?b ! i = cg_hashes ?a ! m" "ancestor ?b i q" using parent.IH q(2) by blast
  then show ?case using q(1) parent.prems(1) by (blast intro: ancestor.parent)
qed

lemma same_deps_sym: "same_deps am oth \<Longrightarrow> same_deps oth am"
  by (auto simp: same_deps_def)

lemma node_of_known:
  assumes "h \<in> known am"
  obtains n where "n < length (cg_hashes (am_graph am))" "cg_hashes (am_graph am) ! n = h"
  using assms by (auto simp: known_def in_set_conv_nth)

text \<open>Ancestors of a change that the other document holds are with it too.\<close>

lemma ancestor_known:
  assumes "graph_wf (am_graph am)" "graph_wf (am_graph oth)" "same_deps am oth"
    and "ancestor (am_graph am) m n" and "cg_hashes (am_graph am) ! n \<in> known oth"
  shows "cg_hashes (am_graph am) ! m \<in> known oth"
proof -
  obtain j where j: "j < length (cg_hashes (am_graph oth))" "cg_hashes (am_graph oth) ! j = cg_hashes (am_graph am) ! n"
    using assms(5) by (rule node_of_known)
  obtain i where "cg_hashes (am_graph oth) ! i = cg_hashes (am_graph am) ! m" "ancestor (am_graph oth) i j"
    using ancestor_transfer [OF assms(1-4) j] by blast
  moreover have "i < length (cg_hashes (am_graph oth))"
  proof -
    have "core_inv (am_graph oth) (length (cg_hashes (am_graph oth)))" using assms(2) by (simp add: graph_wf_def)
    then show ?thesis using ancestor_le [OF _ \<open>ancestor (am_graph oth) i j\<close>] j(1) by fastforce
  qed
  ultimately show ?thesis by (metis known_def nth_mem)
qed

lemma known_nodes_iff:
  assumes "graph_wf g" and "set L \<subseteq> set (cg_hashes g)"
  shows "m \<in> known_nodes g L \<longleftrightarrow> (\<exists>n < length (cg_hashes g). cg_hashes g ! n \<in> set L \<and> ancestor g m n)"
proof -
  have core: "core_inv g (length (cg_hashes g))" using assms(1) by (simp add: graph_wf_def)
  have "set (heads_to_nodes g L) = {n. \<exists>h \<in> set L. cg_nodes_by_hash g h = Some n}"
    by (auto simp: heads_to_nodes_def List.map_filter_def image_iff) force
  also have "\<dots> = {n. n < length (cg_hashes g) \<and> cg_hashes g ! n \<in> set L}"
    using core_nodes [OF core] by auto
  finally show ?thesis by (auto simp: known_nodes_def anc_def)
qed

lemma contains_total:
  assumes "from_hashes hs = Some f" and "length hs < 400000000"
  shows "contains_hash f h \<noteq> None"
proof (cases hs)
  case Nil
  then have "bl_num_entries f = 0" using from_hashes_ok [OF assms(2)] assms(1) by (auto simp: unat_eq_zero)
  then show ?thesis by (simp add: contains_hash_def)
next
  case (Cons k ks)
  then have "contains_hash f k = Some True" by (intro from_hashes_contains [OF assms]) simp
  then have "get_probes f k \<noteq> None" by (auto simp: contains_hash_def split: if_splits)
  then have "get_probes f h \<noteq> None" by (auto simp: get_probes_def Let_def split: if_splits)
  then show ?thesis by (auto simp: contains_hash_def)
qed

text \<open>The answer to a filter that the other document made.\<close>

definition to_send :: "'c automerge \<Rightarrow> have_summary list \<Rightarrow> change_hash set" where
  "to_send am hv = (!) (cg_hashes (am_graph am)) ` {n. descends (am_graph am) (lacking (am_graph am) hv) n}"

lemma lacking_unknown:
  assumes wfa: "graph_wf (am_graph am)" and cha: "actor_chains (am_graph am)" and wfb: "graph_wf (am_graph oth)"
    and same: "same_deps am oth" and L: "set L \<subseteq> known am \<inter> known oth"
    and mk: "make_bloom_filter am L = Some hv" and sz: "length (cg_hashes (am_graph am)) < 400000000"
    and m: "m \<in> lacking (am_graph oth) [hv]"
  shows "cg_hashes (am_graph oth) ! m \<notin> known am"
proof
  let ?a = "am_graph am" and ?b = "am_graph oth"
  assume "cg_hashes ?b ! m \<in> known am"
  then obtain i where i: "i < length (cg_hashes ?a)" "cg_hashes ?a ! i = cg_hashes ?b ! m" by (rule node_of_known)
  define hs where "hs = map ((!) (cg_hashes ?a)) (filter (\<lambda>n. n \<notin> known_nodes ?a L) [0 ..< length (cg_hashes ?a)])"
  have gh: "get_hashes ?a L = Some hs" unfolding hs_def by (rule get_hashes_eq [OF wfa cha])
  then have f: "from_hashes hs = Some (hv_bloom hv)" "hv_last_sync hv = L" using mk by (auto simp: make_bloom_filter_def)
  have "length hs \<le> length (cg_hashes ?a)" unfolding hs_def by (simp add: order_trans [OF length_filter_le])
  then have len: "length hs < 400000000" using sz by simp
  have L': "set (last_syncs [hv]) = set L" by (simp add: last_syncs_def f(2))
  have mb: "m < length (cg_hashes ?b)" "m \<notin> known_nodes ?b (last_syncs [hv])"
    "in_no_filter [hv_bloom hv] (cg_hashes ?b ! m) = Some True"
    using m by (simp_all add: lacking_def)
  show False
  proof (cases "i \<in> known_nodes ?a L")
    case False
    then have "cg_hashes ?b ! m \<in> set hs" using i(1) i(2) [symmetric] by (auto simp: hs_def)
    then show False using from_hashes_contains [OF f(1) len] mb(3) by simp
  next
    case True
    then obtain l where l: "l < length (cg_hashes ?a)" "cg_hashes ?a ! l \<in> set L" "ancestor ?a i l"
      using known_nodes_iff [OF wfa, of L] L by (auto simp: known_def)
    obtain j where j: "j < length (cg_hashes ?b)" "cg_hashes ?b ! j = cg_hashes ?a ! l"
      using l(2) L by (meson IntD2 node_of_known subsetD)
    obtain k where k: "cg_hashes ?b ! k = cg_hashes ?a ! i" "ancestor ?b k j"
      using ancestor_transfer [OF wfa wfb same l(3) j] by blast
    have core: "core_inv ?b (length (cg_hashes ?b))" using wfb by (simp add: graph_wf_def)
    have "k < length (cg_hashes ?b)" using ancestor_le [OF core k(2)] j(1) by simp
    then have "k = m" using core_distinct [OF core] mb(1) k(1) i(2) by (simp add: nth_eq_iff_index_eq)
    then have "m \<in> known_nodes ?b (last_syncs [hv])"
      using known_nodes_iff [OF wfb, of "last_syncs [hv]"] L j l(2) k(2) by (auto simp: L' known_def)
    with mb(2) show False by blast
  qed
qed

lemma to_send_missing:
  assumes wfa: "graph_wf (am_graph am)" and cha: "actor_chains (am_graph am)" and wfb: "graph_wf (am_graph oth)"
    and same: "same_deps am oth" and L: "set L \<subseteq> known am \<inter> known oth"
    and mk: "make_bloom_filter am L = Some hv" and sz: "length (cg_hashes (am_graph am)) < 400000000"
  shows "to_send oth [hv] \<subseteq> known oth - known am"
    and "\<forall>h \<in> known oth - known am. h \<in> to_send oth [hv] \<or> contains_hash (hv_bloom hv) h = Some True"
    and "contains_hash (hv_bloom hv) h \<noteq> None"
proof -
  let ?a = "am_graph am" and ?b = "am_graph oth"
  show "to_send oth [hv] \<subseteq> known oth - known am"
  proof
    fix h assume "h \<in> to_send oth [hv]"
    then obtain n m where n: "h = cg_hashes ?b ! n" "m \<in> lacking ?b [hv]" "ancestor ?b m n"
      "descends ?b (lacking ?b [hv]) n" by (auto simp: to_send_def descends_def)
    have "h \<in> known oth" using descends_not_known [OF n(4)] n(1) by (auto simp: known_def)
    moreover have "h \<notin> known am"
      using ancestor_known [OF wfb wfa same_deps_sym [OF same] n(3)] lacking_unknown [OF assms n(2)] n(1) by blast
    ultimately show "h \<in> known oth - known am" by blast
  qed
  obtain hs where hs: "get_hashes ?a L = Some hs" "from_hashes hs = Some (hv_bloom hv)" "hv_last_sync hv = L"
    using mk by (auto simp: make_bloom_filter_def bind_eq_Some_conv)
  have "length hs \<le> length (cg_hashes ?a)"
    using hs(1) get_hashes_eq [OF wfa cha, of L] by (auto simp: order_trans [OF length_filter_le])
  then have tot: "contains_hash (hv_bloom hv) h \<noteq> None" for h using contains_total [OF hs(2)] sz by simp
  show "contains_hash (hv_bloom hv) h \<noteq> None" by (rule tot)
  have L': "set (last_syncs [hv]) = set L" by (simp add: last_syncs_def hs(3))
  show "\<forall>h \<in> known oth - known am. h \<in> to_send oth [hv] \<or> contains_hash (hv_bloom hv) h = Some True"
  proof
    fix h assume h: "h \<in> known oth - known am"
    then obtain n where n: "n < length (cg_hashes ?b)" "cg_hashes ?b ! n = h" by (auto elim: node_of_known)
    have "n \<notin> known_nodes ?b (last_syncs [hv])"
    proof
      assume "n \<in> known_nodes ?b (last_syncs [hv])"
      then obtain l where "cg_hashes ?b ! l \<in> set L" "ancestor ?b n l"
        using known_nodes_iff [OF wfb, of "last_syncs [hv]"] L by (auto simp: L' known_def)
      then have "cg_hashes ?b ! n \<in> known am"
        using ancestor_known [OF wfb wfa same_deps_sym [OF same]] L by blast
      then show False using h n(2) by simp
    qed
    moreover have "in_no_filter [hv_bloom hv] h = Some True" if "contains_hash (hv_bloom hv) h \<noteq> Some True"
      using that tot [of h] by (cases "contains_hash (hv_bloom hv) h") auto
    ultimately show "h \<in> to_send oth [hv] \<or> contains_hash (hv_bloom hv) h = Some True"
      using n by (auto simp: to_send_def descends_def lacking_def intro!: imageI exI [of _ n] bexI [of _ n] ancestor.self)
  qed
qed

text \<open>C10: what a peer sends in answer to the filter of another: the changes it was asked for and changes that
  the other one lacks, in the order of the graph, none of which the other one has. A change that the
  other one lacks is left out only when its filter claims to contain it, a false positive, and then
  nothing that depends on a change that was sent is left out.\<close>

theorem sync_sends_only_missing:
  assumes "graph_wf (am_graph am)" and "actor_chains (am_graph am)"
    and "graph_wf (am_graph oth)" and "actor_chains (am_graph oth)" and "same_deps am oth"
    and "set L \<subseteq> known am \<inter> known oth" and "make_bloom_filter am L = Some hv"
    and "length (cg_hashes (am_graph am)) < 400000000"
  shows "\<exists>asked new. get_hashes_to_send oth [hv] need = Some (asked @ new) \<and> set asked \<union> set new = set need \<union> set new
    \<and> set new \<subseteq> known oth - known am
    \<and> (\<forall>h \<in> known oth - known am. h \<in> set new \<or> contains_hash (hv_bloom hv) h = Some True)
    \<and> (\<forall>h \<in> known oth. \<forall>d. hash_ancestor (am_graph oth) d h \<longrightarrow> d \<in> set new \<longrightarrow> h \<in> set new)"
proof -
  let ?b = "am_graph oth"
  note ts = to_send_missing [OF assms(1-3) assms(5-8)]
  have core: "core_inv ?b (length (cg_hashes ?b))" using assms(3) by (simp add: graph_wf_def)
  have nf: "in_no_filter (map hv_bloom [hv]) h \<noteq> None" for h
    using ts(3) [of h] by (cases "contains_hash (hv_bloom hv) h") auto
  define asked where "asked = filter (\<lambda>h. h \<notin> to_send oth [hv]) need"
  define new where "new = map ((!) (cg_hashes ?b)) (filter (descends ?b (lacking ?b [hv])) [0 ..< length (cg_hashes ?b)])"
  have r: "get_hashes_to_send oth [hv] need = Some (asked @ new)"
    using hashes_to_send_eq [OF assms(3,4) _ nf, where need = need] unfolding asked_def new_def to_send_def by simp
  have new: "set new = to_send oth [hv]"
    using descends_not_known by (auto simp: new_def to_send_def)
  have up: "h \<in> set new" if anc: "hash_ancestor ?b d h" and d: "d \<in> set new" for h d
  proof -
    obtain i j where ij: "cg_nodes_by_hash ?b d = Some i" "cg_nodes_by_hash ?b h = Some j" "ancestor ?b i j"
      using anc by (auto simp: hash_ancestor_def)
    then have i: "i < length (cg_hashes ?b)" "cg_hashes ?b ! i = d" and j: "cg_hashes ?b ! j = h"
      using core_nodes [OF core] by auto
    obtain n where n: "descends ?b (lacking ?b [hv]) n" "cg_hashes ?b ! n = d"
      using d by (auto simp: new to_send_def)
    have "n = i" using core_distinct [OF core] descends_not_known [OF n(1)] i n(2) by (metis nth_eq_iff_index_eq)
    then have "descends ?b (lacking ?b [hv]) j" using n(1) ancestor_trans [OF ij(3)] by (auto simp: descends_def)
    then show ?thesis using j by (auto simp: new to_send_def)
  qed
  have "set asked \<union> set new = set need \<union> set new" by (auto simp: asked_def new)
  moreover have "set new \<subseteq> known oth - known am" using ts(1) by (simp only: new)
  moreover have "\<forall>h \<in> known oth - known am. h \<in> set new \<or> contains_hash (hv_bloom hv) h = Some True"
    using ts(2) by (simp only: new)
  moreover have "\<forall>h \<in> known oth. \<forall>d. hash_ancestor ?b d h \<longrightarrow> d \<in> set new \<longrightarrow> h \<in> set new"
    by (intro ballI allI impI) (rule up)
  ultimately show ?thesis using r by (intro exI [of _ asked] exI [of _ new] conjI)
qed

lemma empty_chains: "actor_chains (am_graph empty_doc)"
  by (simp add: actor_chains_def empty_doc_def automerge_new_def graph_new_def num_actors_def)

lemma empty_filter: "make_bloom_filter empty_doc [] = Some default_have"
proof -
  have "graph_wf (am_graph empty_doc)" using empty_doc_wf by (simp add: doc_wf_def hist_ok_def)
  from get_hashes_eq [OF this empty_chains, of "[]"] have "get_hashes (am_graph empty_doc) [] = Some []" by simp
  then show ?thesis
    by (simp add: make_bloom_filter_def from_hashes_def default_have_def default_bloom_def bits_capacity_small)
qed

theorem sync_sends_only_missing_witness:
  "\<exists>(oth :: unit automerge) new. get_hashes_to_send oth [default_have] [] = Some new \<and> set new = example_hash ` {1, 2, 3}"
proof -
  obtain g where g: "graph_wf g" "actor_chains g" "cg_hashes g = map example_hash [1, 2, 3]"
    using example_graph_full by blast
  let ?oth = "empty_doc\<lparr>am_graph := g\<rparr>"
  have k: "known ?oth = example_hash ` {1, 2, 3}" by (simp add: known_def g(3))
  have wf: "graph_wf (am_graph empty_doc)" "graph_wf (am_graph ?oth)" "actor_chains (am_graph ?oth)"
    using empty_doc_wf g by (simp_all add: doc_wf_def hist_ok_def)
  have same: "same_deps empty_doc ?oth" by (simp add: same_deps_def)
  have "length (cg_hashes (am_graph empty_doc)) < 400000000" by simp
  from sync_sends_only_missing [OF wf(1) empty_chains wf(2,3) same _ empty_filter this, of "[]"]
  obtain asked new where r: "get_hashes_to_send ?oth [default_have] [] = Some (asked @ new)"
    "set asked \<union> set new = set new"
    "set new \<subseteq> known ?oth" "\<forall>h \<in> known ?oth. h \<in> set new \<or> contains_hash (hv_bloom default_have) h = Some True"
    by auto
  have "contains_hash (hv_bloom default_have) h = Some False" for h
    by (simp add: contains_hash_def default_have_def default_bloom_def)
  then have "set (asked @ new) = example_hash ` {1, 2, 3}" using r(2-4) k by auto
  with r(1) show ?thesis by blast
qed

subsection \<open>Messages are not repeated\<close>

text \<open>The needs and the summary of a message, by themselves.\<close>

definition our_need :: "'c automerge \<Rightarrow> sync_state \<Rightarrow> change_hash list" where
  "our_need am st = get_missing_deps am (case st_their_heads st of Some hs \<Rightarrow> hs | None \<Rightarrow> [])"

definition our_summary :: "'c automerge \<Rightarrow> sync_state \<Rightarrow> have_summary list option" where
  "our_summary am st =
     (if list_all (\<lambda>h. h \<in> (case st_their_heads st of Some hs \<Rightarrow> set hs | None \<Rightarrow> {})) (our_need am st)
      then map_option (\<lambda>h. [h]) (make_bloom_filter am (st_shared_heads st)) else Some [])"

lemma generate_alt:
  "generate_sync_message save by_hashes am st = Option.bind (our_summary am st) (\<lambda>our_have.
      if needs_reset am st then Some (Some (reset_message am), st)
      else Option.bind (message_changes save by_hashes am st) (\<lambda>r. case r of
        None \<Rightarrow> Some (None, st)
      | Some (builder, sent) \<Rightarrow> Some (finish_message am st our_have (our_need am st) builder sent)))"
  by (simp add: generate_sync_message_def our_summary_def our_need_def Let_def)

lemma finish_sent:
  assumes "finish_message am st our_have need builder sent = (Some m, st')"
  shows "st' = st\<lparr>st_have_responded := True, st_last_sent_heads := get_heads am,
      st_sent_hashes := st_sent_hashes st \<union> set sent, st_in_flight := True\<rparr>"
    and "ms_heads m = get_heads am" and "ms_have m = our_have" and "ms_need m = need"
  using assms by (auto simp: finish_message_def Let_def split: if_splits)

lemma message_changes_total:
  assumes "message_changes save by_hashes am st = Some r"
    and "st_their_heads st' = st_their_heads st" and "st_their_have st' = st_their_have st"
    and "st_their_need st' = st_their_need st" and "st_their_capabilities st' = st_their_capabilities st"
  shows "message_changes save by_hashes am st' \<noteq> None"
proof (cases "st_their_have st")
  case (Some hv)
  show ?thesis
  proof (cases "st_their_need st")
    case need: (Some need)
    have v2: "supports_v2_messages st' = supports_v2_messages st" by (simp add: supports_v2_messages_def assms(5))
    show ?thesis
      using assms(1) unfolding message_changes_def assms(2-4) Some need v2 Let_def
      by (auto simp: bind_eq_Some_conv split: if_splits)
  qed (simp add: message_changes_def assms Some)
qed (simp add: message_changes_def assms)

text \<open>After a message was sent (other than the request to start over), the state says that it is in
  flight, and no further message is made until something changes: generating again yields nothing and
  leaves the state as it is.\<close>

theorem message_not_repeated:
  assumes gen: "generate_sync_message save by_hashes am st = Some (Some m, st')" and nr: "\<not> needs_reset am st"
  shows "st_in_flight st' \<and> st_have_responded st' \<and> st_last_sent_heads st' = get_heads am \<and> ms_heads m = get_heads am
    \<and> generate_sync_message save by_hashes am st' = Some (None, st')"
proof -
  obtain our_have builder sent where mc: "message_changes save by_hashes am st = Some (Some (builder, sent))"
    and fin: "finish_message am st our_have (our_need am st) builder sent = (Some m, st')"
    and hv: "our_summary am st = Some our_have"
    using gen nr by (auto simp: generate_alt bind_eq_Some_conv split: option.splits)
  note f = finish_sent [OF fin]
  have sel: "our_summary am st' = our_summary am st" "needs_reset am st' = needs_reset am st"
    by (simp_all add: f(1) our_summary_def our_need_def needs_reset_def cong: option.case_cong)
  have "message_changes save by_hashes am st' \<noteq> None"
    by (rule message_changes_total [OF mc]) (simp_all add: f(1))
  then obtain r where r: "message_changes save by_hashes am st' = Some r" by blast
  have "finish_message am st' our_have (our_need am st') b s = (None, st')" for b s
    by (simp add: finish_message_def f(1) Let_def)
  then have "generate_sync_message save by_hashes am st' = Some (None, st')"
    using nr by (cases r) (auto simp: generate_alt sel hv r)
  then show ?thesis by (simp add: f)
qed

theorem message_not_repeated_witness:
  "\<exists>m st. generate_sync_message (\<lambda>_. []) (\<lambda>_ _. Inr []) empty_doc state_new = Some (Some m, st)
    \<and> generate_sync_message (\<lambda>_. []) (\<lambda>_ _. Inr []) empty_doc st = Some (None, st)"
proof -
  let ?save = "\<lambda>_ :: unit automerge. [] :: bytes" and ?get = "\<lambda>_ _. Inr [] :: automerge_error + loaded_change list"
  have nr: "\<not> needs_reset empty_doc state_new" by (simp add: needs_reset_def state_new_def)
  have "our_need empty_doc state_new = []" by (simp add: our_need_def state_new_def get_missing_deps_def)
  then have hv: "our_summary empty_doc state_new = Some [default_have]"
    using empty_filter by (simp add: our_summary_def state_new_def)
  have mc: "message_changes ?save ?get empty_doc state_new = Some (Some (builder_new_v1 [], []))"
    by (simp add: message_changes_def state_new_def supports_v2_messages_def)
  obtain m st where "finish_message empty_doc state_new [default_have] (our_need empty_doc state_new) (builder_new_v1 []) [] = (Some m, st)"
    by (simp add: finish_message_def state_new_def Let_def)
  then have "generate_sync_message ?save ?get empty_doc state_new = Some (Some m, st)"
    using nr by (simp add: generate_alt hv mc)
  from this message_not_repeated [OF this nr] show ?thesis by blast
qed

subsection \<open>Peers that agree fall silent\<close>

lemma no_heads:
  assumes wf: "graph_wf g" and "cg_heads g = {}"
  shows "cg_hashes g = []"
proof (rule ccontr)
  assume "cg_hashes g \<noteq> []"
  then have last: "length (cg_hashes g) - 1 < length (cg_hashes g)" by simp
  have core: "core_inv g (length (cg_hashes g))" and heads: "heads_ok g" using wf by (simp_all add: graph_wf_def)
  have "length (cg_hashes g) - 1 \<notin> set (parent_list g m)" if "m < length (cg_hashes g)" for m
    using parent_less [OF core that] that by fastforce
  then have "cg_hashes g ! (length (cg_hashes g) - 1) \<in> cg_heads g"
    using heads last by (auto simp: heads_ok_def)
  then show False using assms(2) by simp
qed

lemma make_filter_total:
  assumes "graph_wf (am_graph am)" "actor_chains (am_graph am)" "length (cg_hashes (am_graph am)) < 400000000"
  obtains hv where "make_bloom_filter am L = Some hv" "hv_last_sync hv = L"
proof -
  define hs where "hs = map ((!) (cg_hashes (am_graph am)))
    (filter (\<lambda>n. n \<notin> known_nodes (am_graph am) L) [0 ..< length (cg_hashes (am_graph am))])"
  have "length hs \<le> length (cg_hashes (am_graph am))" by (simp add: hs_def order_trans [OF length_filter_le])
  then have "length hs < 400000000" using assms(3) by simp
  from from_hashes_ok [OF this] obtain f where "from_hashes hs = Some f" by blast
  then show thesis
    using that [of "\<lparr>hv_last_sync = L, hv_bloom = f\<rparr>"] get_hashes_eq [OF assms(1,2), of L]
    by (simp add: make_bloom_filter_def hs_def)
qed

lemma answer_empty:
  assumes "graph_wf (am_graph am)" and "actor_chains (am_graph am)"
    and "graph_wf (am_graph oth)" and "actor_chains (am_graph oth)" and "same_deps am oth"
    and "set L \<subseteq> known am \<inter> known oth" and "make_bloom_filter am L = Some hv"
    and "length (cg_hashes (am_graph am)) < 400000000" and "known oth \<subseteq> known am"
  shows "get_hashes_to_send oth [hv] [] = Some []"
proof -
  let ?b = "am_graph oth"
  note ts = to_send_missing [OF assms(1-3) assms(5-8)]
  have nf: "in_no_filter (map hv_bloom [hv]) h \<noteq> None" for h
    using ts(3) [of h] by (cases "contains_hash (hv_bloom hv) h") auto
  have "to_send oth [hv] = {}" using ts(1) assms(9) by blast
  then have "filter (descends ?b (lacking ?b [hv])) [0 ..< length (cg_hashes ?b)] = []"
    by (simp add: to_send_def filter_empty_conv)
  then show ?thesis using hashes_to_send_eq [OF assms(3,4) _ nf, where need = "[]"] by simp
qed

text \<open>The state of a connection after a message without changes, from a peer with the same heads.\<close>

lemma receive_in_sync:
  assumes wf: "graph_wf (am_graph am)" and heads: "am_deps am = cg_heads (am_graph am)"
    and m: "ms_changes m = []" "ms_heads m = get_heads am"
  obtains st' where "receive_sync_message load am st m = Some (am, st', Inr ())"
    and "st_last_sent_heads st' = get_heads am" "st_shared_heads st' = get_heads am"
    and "st_their_heads st' = Some (get_heads am)" "st_their_have st' = Some (ms_have m)"
    and "st_their_need st' = Some (ms_need m)" "st_have_responded st' = st_have_responded st"
proof -
  have core: "core_inv (am_graph am) (length (cg_hashes (am_graph am)))" and ho: "heads_ok (am_graph am)"
    using wf by (simp_all add: graph_wf_def)
  have "finite (cg_heads (am_graph am))"
  proof (rule finite_subset)
    show "cg_heads (am_graph am) \<subseteq> set (cg_hashes (am_graph am))" using ho by (auto simp: heads_ok_def)
  qed simp
  then have "h \<in> set (get_heads am) \<longleftrightarrow> h \<in> cg_heads (am_graph am)" for h
    by (simp add: get_heads_def heads)
  then have "doc_has_change am h" if "h \<in> set (get_heads am)" for h
    using that ho core_nodes [OF core] by (auto simp: heads_ok_def doc_has_change_def has_change_def)
  then have "filter (doc_has_change am) (get_heads am) = get_heads am" by (simp add: filter_id_conv)
  then show thesis
    using that by (simp add: receive_sync_message_def receive_rest_def filter_changes_def
        remove_ancestors_eq [OF wf] m Let_def split: option.split)
qed

text \<open>C16: two documents with the same changes and heads fall silent: when one sends a message without changes
  and without needs, the other, which has sent a message of its own before, accepts it and then has
  nothing to send.\<close>

theorem in_sync_is_quiet:
  assumes wfa: "graph_wf (am_graph am)" "actor_chains (am_graph am)" and small: "length (cg_hashes (am_graph am)) < 400000000"
    and wfb: "graph_wf (am_graph oth)" "actor_chains (am_graph oth)" and sizeb: "length (cg_hashes (am_graph oth)) < 400000000"
    and deps: "am_deps oth = cg_heads (am_graph oth)" and same: "same_deps am oth"
    and agree: "known oth = known am" "get_heads oth = get_heads am"
    and gen: "generate_sync_message save by_hashes am st = Some (Some m, st')" and nr: "\<not> needs_reset am st"
    and sh: "set (st_shared_heads st) \<subseteq> known am" and m: "ms_changes m = []" "ms_need m = []"
    and resp: "st_have_responded sto" and get: "by_hashes' oth [] = Inr cs"
  shows "\<exists>sto'. receive_sync_message load oth sto m = Some (oth, sto', Inr ())
    \<and> st_their_heads sto' = Some (get_heads oth)
    \<and> generate_sync_message save' by_hashes' oth sto' = Some (None, sto')"
proof -
  obtain our_have builder sent where fin: "finish_message am st our_have (our_need am st) builder sent = (Some m, st')"
    and sm: "our_summary am st = Some our_have"
    using gen nr by (auto simp: generate_alt bind_eq_Some_conv split: option.splits)
  note f = finish_sent [OF fin]
  obtain hv where hv: "make_bloom_filter am (st_shared_heads st) = Some hv" "hv_last_sync hv = st_shared_heads st"
    using make_filter_total [OF wfa small] by blast
  have "our_need am st = []" using f(4) m(2) by simp
  then have have1: "ms_have m = [hv]" using sm f(3) by (simp add: our_summary_def hv(1))
  have hd: "ms_heads m = get_heads oth" using f(2) agree(2) by simp
  obtain sto' where rcv: "receive_sync_message load oth sto m = Some (oth, sto', Inr ())"
    and s: "st_last_sent_heads sto' = get_heads oth" "st_shared_heads sto' = get_heads oth"
      "st_their_heads sto' = Some (get_heads oth)" "st_their_have sto' = Some [hv]"
      "st_their_need sto' = Some []" "st_have_responded sto'"
    using receive_in_sync [OF wfb(1) deps m(1) hd] have1 m(2) resp by metis
  have core: "core_inv (am_graph oth) (length (cg_hashes (am_graph oth)))" using wfb(1) by (simp add: graph_wf_def)
  have "doc_has_change oth h" if "h \<in> known oth" for h
    using that core_nodes [OF core] by (auto simp: known_def in_set_conv_nth doc_has_change_def has_change_def)
  then have nr': "\<not> needs_reset oth sto'"
    using sh agree(1) by (auto simp: needs_reset_def s(4) hv(2) list_all_iff)
  have ans: "get_hashes_to_send oth [hv] [] = Some []"
    by (rule answer_empty [OF wfa wfb same _ hv(1) small]) (use sh agree(1) in auto)
  obtain b where mc: "message_changes save' by_hashes' oth sto' = Some (Some (b, []))"
  proof (cases "get_heads oth = [] \<and> supports_v2_messages sto'")
    case True
    have "finite (cg_heads (am_graph oth))"
      by (rule finite_subset [of _ "set (cg_hashes (am_graph oth))"])
        (use wfb(1) in \<open>auto simp: graph_wf_def heads_ok_def\<close>)
    then have "cg_heads (am_graph oth) = {}" using True by (simp add: get_heads_def deps)
    then have "get_hashes (am_graph oth) [] = Some []"
      using no_heads [OF wfb(1)] get_hashes_eq [OF wfb, of "[]"] by simp
    then show thesis using that True by (simp add: message_changes_def s)
  next
    case False
    then show thesis using that by (auto simp: message_changes_def s ans get Let_def)
  qed
  obtain hv' where "make_bloom_filter oth (get_heads oth) = Some hv'"
    using make_filter_total [OF wfb sizeb] by blast
  then have sm': "our_summary oth sto' \<noteq> None" by (simp add: our_summary_def s(2))
  have "finish_message oth sto' hh nn b [] = (None, sto')" for hh nn
    by (simp add: finish_message_def s Let_def)
  then have "generate_sync_message save' by_hashes' oth sto' = Some (None, sto')"
    using nr' sm' by (auto simp: generate_alt mc)
  then show ?thesis using rcv s(3) by blast
qed

theorem in_sync_is_quiet_witness:
  "\<exists>(am :: unit automerge) m st st'. known am = example_hash ` {1, 2, 3}
    \<and> generate_sync_message (\<lambda>_. []) (\<lambda>_ _. Inr []) am state_new = Some (Some m, st)
    \<and> receive_sync_message (\<lambda>_ _. None) am (state_new\<lparr>st_have_responded := True\<rparr>) m = Some (am, st', Inr ())
    \<and> generate_sync_message (\<lambda>_. []) (\<lambda>_ _. Inr []) am st' = Some (None, st')"
proof -
  obtain g where g: "graph_wf g" "actor_chains g" "cg_hashes g = map example_hash [1, 2, 3]"
    using example_graph_full by blast
  let ?am = "empty_doc\<lparr>am_graph := g, am_deps := cg_heads g\<rparr>"
  let ?save = "\<lambda>_ :: unit automerge. [] :: bytes" and ?get = "\<lambda>_ _. Inr [] :: automerge_error + loaded_change list"
  have k: "known ?am = example_hash ` {1, 2, 3}" by (simp add: known_def g(3))
  have wf: "graph_wf (am_graph ?am)" "actor_chains (am_graph ?am)" using g by simp_all
  have small: "length (cg_hashes (am_graph ?am)) < 400000000" by (simp add: g(3))
  have nr: "\<not> needs_reset ?am state_new" by (simp add: needs_reset_def state_new_def)
  have need: "our_need ?am state_new = []" by (simp add: our_need_def state_new_def get_missing_deps_def)
  obtain hv where "make_bloom_filter ?am (st_shared_heads state_new) = Some hv"
    using make_filter_total [OF wf small] by blast
  then have hv: "our_summary ?am state_new = Some [hv]" by (simp add: our_summary_def need)
  have mc: "message_changes ?save ?get ?am state_new = Some (Some (builder_new_v1 [], []))"
    by (simp add: message_changes_def state_new_def supports_v2_messages_def)
  obtain m st where fin: "finish_message ?am state_new [hv] (our_need ?am state_new) (builder_new_v1 []) [] = (Some m, st)"
    by (simp add: finish_message_def state_new_def Let_def)
  have "ms_changes m = []" using fin by (auto simp: finish_message_def state_new_def builder_new_v1_def Let_def)
  moreover have "ms_need m = []" using finish_sent(4) [OF fin] need by simp
  ultimately have m: "ms_changes m = []" "ms_need m = []" by simp_all
  have gen: "generate_sync_message ?save ?get ?am state_new = Some (Some m, st)"
    using nr fin by (simp add: generate_alt hv mc)
  have "\<exists>st'. receive_sync_message (\<lambda>_ _. None) ?am (state_new\<lparr>st_have_responded := True\<rparr>) m = Some (?am, st', Inr ())
    \<and> st_their_heads st' = Some (get_heads ?am) \<and> generate_sync_message ?save ?get ?am st' = Some (None, st')"
    by (rule in_sync_is_quiet [OF wf small wf small _ _ _ _ gen nr _ m])
      (simp_all add: same_deps_def state_new_def)
  with gen k show ?thesis by blast
qed

subsection \<open>The request to start over\<close>

text \<open>C36: when the peer claims a last common state that the document does not know, the message made is the
  request to start over, it carries no changes, and the state stays as it was: unlike every other
  message it is not recorded as in flight, so asking again produces it again.\<close>

theorem reset_is_repeated:
  assumes wf: "graph_wf (am_graph am)" "actor_chains (am_graph am)"
    and small: "length (cg_hashes (am_graph am)) < 400000000" and nr: "needs_reset am st"
  shows "generate_sync_message save by_hashes am st = Some (Some (reset_message am), st)
    \<and> ms_changes (reset_message am) = [] \<and> ms_heads (reset_message am) = get_heads am"
proof -
  obtain hv where "make_bloom_filter am (st_shared_heads st) = Some hv"
    using make_filter_total [OF wf small] by blast
  then have "our_summary am st \<noteq> None" by (simp add: our_summary_def)
  then have "generate_sync_message save by_hashes am st = Some (Some (reset_message am), st)"
    using nr by (auto simp: generate_alt)
  then show ?thesis by (simp add: reset_message_def)
qed

theorem reset_is_repeated_witness:
  "generate_sync_message (\<lambda>_. []) (\<lambda>_ _. Inr []) empty_doc
      (state_new\<lparr>st_their_have := Some [\<lparr>hv_last_sync = [example_hash 1], hv_bloom = default_bloom\<rparr>], st_in_flight := True\<rparr>)
    = Some (Some (reset_message empty_doc),
        state_new\<lparr>st_their_have := Some [\<lparr>hv_last_sync = [example_hash 1], hv_bloom = default_bloom\<rparr>], st_in_flight := True\<rparr>)"
proof -
  have wf: "graph_wf (am_graph empty_doc)" using empty_doc_wf by (simp add: doc_wf_def hist_ok_def)
  have "\<not> doc_has_change empty_doc (example_hash 1)"
    by (simp add: doc_has_change_def has_change_def empty_doc_def automerge_new_def graph_new_def)
  then show ?thesis
    using reset_is_repeated [OF wf empty_chains, of "state_new\<lparr>st_their_have := Some [\<lparr>hv_last_sync = [example_hash 1], hv_bloom = default_bloom\<rparr>], st_in_flight := True\<rparr>" "\<lambda>_. []" "\<lambda>_ _. Inr []"]
    by (simp add: needs_reset_def)
qed

end
