(* ===== verification/Rle.thy ===== *)
theory Rle
  imports Values
begin

text \<open>
  The run-length encoding of nullable columns (\<open>rle.rs\<close>) and the delta encoding over it
  (\<open>delta.rs\<close>). The encoder is the code's state machine over \<open>rle_state\<close>; the decoder is a cursor
  with a pending run. Counts are \<open>i64\<close> and \<open>isize\<close> words; \<open>abs\<close> of the smallest one wraps, as in a
  release build. The main lemma says that decoding gives back every value that was appended, except
  that a column of nulls only is written as nothing.
\<close>

subsection \<open>Encoder\<close>

datatype 'a rle_state =
    Empty
  | InitialNullRun nat
  | NullRun nat
  | LiteralRun 'a "'a list"
  | LoneVal 'a
  | Run 'a nat

record 'a rle_encoder =
  rle_buf :: bytes
  rle_written :: nat
  rle_state :: "'a rle_state"

definition rle_new :: "bytes \<Rightarrow> 'a rle_encoder" where
  "rle_new output_buf = \<lparr>rle_buf = output_buf, rle_written = 0, rle_state = Empty\<rparr>"

definition rle_encode :: "('v \<Rightarrow> bytes \<Rightarrow> bytes \<times> nat) \<Rightarrow> 'v \<Rightarrow> 'a rle_encoder \<Rightarrow> 'a rle_encoder" where
  "rle_encode enc v e = (let (buf, n) = enc v (rle_buf e)
     in e\<lparr>rle_buf := buf, rle_written := rle_written e + n\<rparr>)"

definition flush_run :: "('a \<Rightarrow> bytes \<Rightarrow> bytes \<times> nat) \<Rightarrow> 'a \<Rightarrow> nat \<Rightarrow> 'a rle_encoder \<Rightarrow> 'a rle_encoder" where
  "flush_run enc val len e = rle_encode enc val (rle_encode encode_i64 (word_of_nat len) e)"

definition flush_null_run :: "nat \<Rightarrow> 'a rle_encoder \<Rightarrow> 'a rle_encoder" where
  "flush_null_run len e = rle_encode encode_usize len (rle_encode encode_i64 0 e)"

definition flush_lit_run :: "('a \<Rightarrow> bytes \<Rightarrow> bytes \<times> nat) \<Rightarrow> 'a list \<Rightarrow> 'a rle_encoder \<Rightarrow> 'a rle_encoder" where
  "flush_lit_run enc run e =
     foldl (\<lambda>e val. rle_encode enc val e) (rle_encode encode_i64 (- word_of_nat (length run)) e) run"

definition rle_finish :: "('a \<Rightarrow> bytes \<Rightarrow> bytes \<times> nat) \<Rightarrow> 'a rle_encoder \<Rightarrow> bytes \<times> nat" where
  "rle_finish enc e = (let s = e\<lparr>rle_state := Empty\<rparr>; e' = (case rle_state e of
       InitialNullRun _ \<Rightarrow> s
     | NullRun sz \<Rightarrow> flush_null_run sz s
     | LoneVal value \<Rightarrow> flush_lit_run enc [value] s
     | Run value len \<Rightarrow> flush_run enc value len s
     | LiteralRun lst run \<Rightarrow> flush_lit_run enc (run @ [lst]) s
     | Empty \<Rightarrow> s)
     in (rle_buf e', rle_written e'))"

definition rle_append_null :: "('a \<Rightarrow> bytes \<Rightarrow> bytes \<times> nat) \<Rightarrow> 'a rle_encoder \<Rightarrow> 'a rle_encoder" where
  "rle_append_null enc e = (let s = e\<lparr>rle_state := Empty\<rparr> in case rle_state e of
       Empty \<Rightarrow> s\<lparr>rle_state := InitialNullRun 1\<rparr>
     | InitialNullRun sz \<Rightarrow> s\<lparr>rle_state := InitialNullRun (sz + 1)\<rparr>
     | NullRun sz \<Rightarrow> s\<lparr>rle_state := NullRun (sz + 1)\<rparr>
     | LoneVal other \<Rightarrow> (flush_lit_run enc [other] s)\<lparr>rle_state := NullRun 1\<rparr>
     | Run other len \<Rightarrow> (flush_run enc other len s)\<lparr>rle_state := NullRun 1\<rparr>
     | LiteralRun lst run \<Rightarrow> (flush_lit_run enc (run @ [lst]) s)\<lparr>rle_state := NullRun 1\<rparr>)"

definition rle_append_value ::
  "('a \<Rightarrow> bytes \<Rightarrow> bytes \<times> nat) \<Rightarrow> 'a \<Rightarrow> 'a rle_encoder \<Rightarrow> 'a rle_encoder" where
  "rle_append_value enc value e = (let s = e\<lparr>rle_state := Empty\<rparr> in case rle_state e of
       Empty \<Rightarrow> s\<lparr>rle_state := LoneVal value\<rparr>
     | LoneVal other \<Rightarrow>
         if other = value then s\<lparr>rle_state := Run value 2\<rparr>
         else s\<lparr>rle_state := LiteralRun value [other]\<rparr>
     | Run other len \<Rightarrow>
         if other = value then s\<lparr>rle_state := Run other (len + 1)\<rparr>
         else (flush_run enc other len s)\<lparr>rle_state := LoneVal value\<rparr>
     | LiteralRun lst run \<Rightarrow>
         if lst = value then (flush_lit_run enc run s)\<lparr>rle_state := Run value 2\<rparr>
         else s\<lparr>rle_state := LiteralRun value (run @ [lst])\<rparr>
     | NullRun sz \<Rightarrow> (flush_null_run sz s)\<lparr>rle_state := LoneVal value\<rparr>
     | InitialNullRun sz \<Rightarrow> (flush_null_run sz s)\<lparr>rle_state := LoneVal value\<rparr>)"

definition rle_append ::
  "('a \<Rightarrow> bytes \<Rightarrow> bytes \<times> nat) \<Rightarrow> 'a option \<Rightarrow> 'a rle_encoder \<Rightarrow> 'a rle_encoder" where
  "rle_append enc value e = (case value of Some t \<Rightarrow> rle_append_value enc t e | None \<Rightarrow> rle_append_null enc e)"

definition rle_encode_all :: "('a \<Rightarrow> bytes \<Rightarrow> bytes \<times> nat) \<Rightarrow> 'a option list \<Rightarrow> bytes \<Rightarrow> bytes \<times> nat" where
  "rle_encode_all enc xs out = rle_finish enc (foldl (\<lambda>e x. rle_append enc x e) (rle_new out) xs)"

subsection \<open>Decoder\<close>

record 'a rle_decoder =
  rld_decoder :: raw_decoder
  rld_last_value :: "'a option"
  rld_count :: i64
  rld_literal :: bool

definition rle_decoder_from :: "bytes \<Rightarrow> 'a rle_decoder" where
  "rle_decoder_from b =
     \<lparr>rld_decoder = raw_new b, rld_last_value = None, rld_count = 0, rld_literal = False\<rparr>"

definition rle_done :: "'a rle_decoder \<Rightarrow> bool" where
  "rle_done d = (raw_done (rld_decoder d) \<and> rld_count d = 0)"

text \<open>The loop that refills the pending run; \<open>None\<close> is the end of the column.\<close>

function rle_fill ::
  "(bytes \<Rightarrow> (u64 \<times> bytes) option) \<Rightarrow> (bytes \<Rightarrow> (i64 \<times> bytes) option) \<Rightarrow> 'a decoder
    \<Rightarrow> 'a rle_decoder \<Rightarrow> raw_error + 'a rle_decoder option" where
  "rle_fill ru rs dec d =
     (if rld_count d \<noteq> 0 then Inr (Some d)
      else if raw_done (rld_decoder d) then Inr None
      else bind_res (raw_read (decode_i64 rs) (rld_decoder d)) (\<lambda>(count, raw).
        if 0 < sint count then
          bind_res (raw_read dec raw) (\<lambda>(v, raw).
          rle_fill ru rs dec (d\<lparr>rld_decoder := raw, rld_count := count, rld_last_value := Some v,
            rld_literal := False\<rparr>))
        else if sint count < 0 then
          rle_fill ru rs dec (d\<lparr>rld_decoder := raw, rld_count := - count, rld_literal := True\<rparr>)
        else
          bind_res (raw_read (decode_usize ru) raw) (\<lambda>(n, raw).
          rle_fill ru rs dec (d\<lparr>rld_decoder := raw, rld_count := word_of_nat n, rld_last_value := None,
            rld_literal := False\<rparr>))))"
  by pat_completeness auto

termination
  by (relation "measure (\<lambda>(_, _, _, d). length (rd_data (rld_decoder d)) - rd_offset (rld_decoder d))")
    (auto dest!: raw_read_progress)

declare rle_fill.simps [simp del]

definition rle_next ::
  "(bytes \<Rightarrow> (u64 \<times> bytes) option) \<Rightarrow> (bytes \<Rightarrow> (i64 \<times> bytes) option) \<Rightarrow> 'a decoder
    \<Rightarrow> 'a rle_decoder \<Rightarrow> raw_error + ('a option \<times> 'a rle_decoder) option" where
  "rle_next ru rs dec d = bind_res (rle_fill ru rs dec d) (\<lambda>r. case r of
     None \<Rightarrow> Inr None
   | Some d \<Rightarrow>
       let d = d\<lparr>rld_count := rld_count d - 1\<rparr> in
       if rld_literal d then
         bind_res (raw_read dec (rld_decoder d)) (\<lambda>(v, raw). Inr (Some (Some v, d\<lparr>rld_decoder := raw\<rparr>)))
       else Inr (Some (rld_last_value d, d)))"

text \<open>
  What an iterator yields when it is asked \<open>n\<close> times, and whether it then ends: the first \<open>None\<close>
  stops it.
\<close>

primrec collect :: "('d \<Rightarrow> 'e + ('v \<times> 'd) option) \<Rightarrow> nat \<Rightarrow> 'd \<Rightarrow> 'e + 'v list \<times> 'd" where
  "collect nxt 0 d = Inr ([], d)"
| "collect nxt (Suc n) d = bind_res (nxt d) (\<lambda>r. case r of
     None \<Rightarrow> Inr ([], d)
   | Some (v, d) \<Rightarrow> bind_res (collect nxt n d) (\<lambda>(vs, d). Inr (v # vs, d)))"

lemma collect_iterates:
  assumes step: "\<And>d y ys. R d (y # ys) \<Longrightarrow> \<exists>d'. nxt d = Inr (Some (y, d')) \<and> R d' ys"
    and stop: "\<And>d. R d [] \<Longrightarrow> nxt d = Inr None"
  shows "R d ys \<Longrightarrow> length ys \<le> n \<Longrightarrow> \<exists>d'. collect nxt n d = Inr (ys, d') \<and> R d' [] \<and> nxt d' = Inr None"
proof (induction ys arbitrary: d n)
  case Nil
  then show ?case using stop [OF Nil.prems(1)] by (cases n) auto
next
  case (Cons y ys)
  from Cons.prems(2) obtain m where m: "n = Suc m" "length ys \<le> m" by (cases n) auto
  obtain d' where "nxt d = Inr (Some (y, d'))" "R d' ys" using step [OF Cons.prems(1)] by blast
  with Cons.IH [of d' m] m show ?case by auto
qed

subsection \<open>Segments\<close>

text \<open>The format as a list of segments: what each is written as and which values it stands for.\<close>

datatype 'a segment = RunSeg 'a nat | LitSeg "'a list" | NullSeg nat

fun seg_bytes :: "('a \<Rightarrow> bytes \<Rightarrow> bytes \<times> nat) \<Rightarrow> 'a segment \<Rightarrow> bytes" where
  "seg_bytes enc (RunSeg v n) = sleb (int n) @ fst (enc v [])"
| "seg_bytes enc (LitSeg vs) = sleb (- int (length vs)) @ concat (map (\<lambda>v. fst (enc v [])) vs)"
| "seg_bytes enc (NullSeg n) = sleb 0 @ uleb n"

fun seg_values :: "'a segment \<Rightarrow> 'a option list" where
  "seg_values (RunSeg v n) = replicate n (Some v)"
| "seg_values (LitSeg vs) = map Some vs"
| "seg_values (NullSeg n) = replicate n None"

fun seg_ok :: "('a \<Rightarrow> bool) \<Rightarrow> 'a segment \<Rightarrow> bool" where
  "seg_ok ok (RunSeg v n) = (0 < n \<and> n < 2 ^ 63 \<and> ok v)"
| "seg_ok ok (LitSeg vs) = (vs \<noteq> [] \<and> length vs < 2 ^ 63 \<and> list_all ok vs)"
| "seg_ok ok (NullSeg n) = (0 < n \<and> n < 2 ^ 63)"

definition segs_bytes :: "('a \<Rightarrow> bytes \<Rightarrow> bytes \<times> nat) \<Rightarrow> 'a segment list \<Rightarrow> bytes" where
  "segs_bytes enc segs = concat (map (seg_bytes enc) segs)"

definition segs_values :: "'a segment list \<Rightarrow> 'a option list" where
  "segs_values segs = concat (map seg_values segs)"

lemma segs_simps [simp]:
  "segs_bytes enc [] = []" "segs_bytes enc (s # segs) = seg_bytes enc s @ segs_bytes enc segs"
  "segs_bytes enc (segs @ segs') = segs_bytes enc segs @ segs_bytes enc segs'"
  "segs_values [] = []" "segs_values (s # segs) = seg_values s @ segs_values segs"
  "segs_values (segs @ segs') = segs_values segs @ segs_values segs'"
  by (simp_all add: segs_bytes_def segs_values_def)

lemma seg_values_nonempty: "seg_ok ok s \<Longrightarrow> seg_values s \<noteq> []"
  by (cases s) auto

text \<open>The bytes a decoder has not read.\<close>

definition unread :: "raw_decoder \<Rightarrow> bytes" where
  "unread d = drop (rd_offset d) (rd_data d)"

text \<open>A decoder that will yield exactly the values \<open>ys\<close>.\<close>

definition yields :: "('a \<Rightarrow> bytes \<Rightarrow> bytes \<times> nat) \<Rightarrow> ('a \<Rightarrow> bool) \<Rightarrow> 'a rle_decoder \<Rightarrow> 'a option list \<Rightarrow> bool" where
  "yields enc ok d ys \<longleftrightarrow> (\<exists>segs. list_all (seg_ok ok) segs \<and>
     (if rld_literal d then
        \<exists>vs. length vs = unat (rld_count d) \<and> list_all ok vs
          \<and> unread (rld_decoder d) = concat (map (\<lambda>v. fst (enc v [])) vs) @ segs_bytes enc segs
          \<and> ys = map Some vs @ segs_values segs
      else unread (rld_decoder d) = segs_bytes enc segs
        \<and> ys = replicate (unat (rld_count d)) (rld_last_value d) @ segs_values segs))"

lemma unat_pred: "c \<noteq> 0 \<Longrightarrow> unat (c :: i64) = Suc (unat (c - 1))"
  using unat_gt_0 [of c] by (simp add: unat_minus_one)

locale rle_coder = leb_reader ru rs + column_value enc dec ok
  for ru rs and enc :: "'a \<Rightarrow> bytes \<Rightarrow> bytes \<times> nat" and dec ok
begin

lemma read_value:
  assumes "ok v" and "unread d = fst (enc v []) @ rest"
  obtains d' where "raw_read dec d = Inr (v, d')" "unread d' = rest" "\<not> raw_done d"
proof -
  have d: "drop (rd_offset d) (rd_data d) = fst (enc v []) @ rest"
    using assms(2) by (simp add: unread_def)
  let ?d = "d\<lparr>rd_last_read := length (fst (enc v [])), rd_offset := rd_offset d + length (fst (enc v []))\<rparr>"
  have "unread ?d = rest" using drop_after_enc [OF d] by (simp add: unread_def)
  with raw_read_enc [OF assms(1) d] not_done_enc [OF d] that show thesis by blast
qed

lemma read_leading:
  assumes "\<And>rest. dec' (b @ rest) = Inr (v, rest)" and "b \<noteq> []" and "unread d = b @ rest"
  obtains d' where "raw_read dec' d = Inr (v, d')" "unread d' = rest" "\<not> raw_done d"
proof -
  let ?d = "d\<lparr>rd_last_read := length b, rd_offset := rd_offset d + length b\<rparr>"
  have d: "drop (rd_offset d) (rd_data d) = b @ rest" using assms(3) by (simp add: unread_def)
  have "drop (rd_offset d + length b) (rd_data d) = drop (length b) (drop (rd_offset d) (rd_data d))"
    by (simp add: add.commute)
  then have "unread ?d = rest" by (simp add: unread_def d)
  moreover have "raw_read dec' d = Inr (v, ?d)"
    using assms(2) by (simp add: raw_read_def d assms(1) Let_def)
  moreover have "\<not> raw_done d" using d assms(2) by (force simp: raw_done_def)
  ultimately show thesis using that by blast
qed

lemma read_header:
  assumes "- (2 ^ 63) \<le> z" "z < 2 ^ 63" "unread d = sleb z @ rest"
  obtains d' where "raw_read (decode_i64 rs) d = Inr (word_of_int z, d')" "unread d' = rest" "\<not> raw_done d"
  by (rule read_leading [where dec' = "decode_i64 rs", OF isize_count [OF assms(1,2)] sleb_not_Nil assms(3)])

lemma fill_segment:
  assumes "seg_ok ok s" "list_all (seg_ok ok) segs" "rld_count d = 0"
    and "unread (rld_decoder d) = seg_bytes enc s @ segs_bytes enc segs"
  shows "\<exists>d'. rle_fill ru rs dec d = Inr (Some d') \<and> rld_count d' \<noteq> 0
    \<and> yields enc ok d' (seg_values s @ segs_values segs)"
proof (cases s)
  case (RunSeg v n)
  with assms(1) have n: "0 < n" "n < 2 ^ 63" and v: "ok v" by auto
  obtain d1 where d1: "raw_read (decode_i64 rs) (rld_decoder d) = Inr (word_of_int (int n), d1)"
    "unread d1 = fst (enc v []) @ segs_bytes enc segs" "\<not> raw_done (rld_decoder d)"
    using read_header [of "int n" "rld_decoder d"] assms(4) n by (auto simp: RunSeg)
  obtain d2 where d2: "raw_read dec d1 = Inr (v, d2)" "unread d2 = segs_bytes enc segs"
    using read_value [OF v d1(2)] .
  let ?d = "d\<lparr>rld_decoder := d2, rld_count := word_of_int (int n), rld_last_value := Some v, rld_literal := False\<rparr>"
  have c: "sint (word_of_int (int n) :: i64) = int n" using n by (intro sint_of_int_i64) auto
  then have nz: "(word_of_int (int n) :: i64) \<noteq> 0" using n by (metis of_nat_0_less_iff less_irrefl sint_0)
  have "rle_fill ru rs dec d = Inr (Some ?d)"
    using c n nz by (subst rle_fill.simps, subst rle_fill.simps) (simp add: assms(3) d1 d2)
  moreover have "unat (word_of_int (int n) :: i64) = n"
    using c n by (simp add: sint_nonneg_unat)
  ultimately show ?thesis
    using nz assms(2) d2 by (auto simp: yields_def RunSeg intro!: exI [of _ segs])
next
  case (LitSeg vs)
  with assms(1) have n: "0 < length vs" "length vs < 2 ^ 63" and vs: "list_all ok vs" by auto
  obtain d1 where d1: "raw_read (decode_i64 rs) (rld_decoder d) = Inr (word_of_int (- int (length vs)), d1)"
    "unread d1 = concat (map (\<lambda>v. fst (enc v [])) vs) @ segs_bytes enc segs" "\<not> raw_done (rld_decoder d)"
    using read_header [of "- int (length vs)" "rld_decoder d"] assms(4) n by (auto simp: LitSeg)
  have c: "sint (word_of_int (- int (length vs)) :: i64) = - int (length vs)"
    using n by (intro sint_of_int_i64) auto
  have u: "unat (- word_of_int (- int (length vs)) :: i64) = length vs"
    using n by (simp add: unat_u64_of_nat)
  then have nz: "(- word_of_int (- int (length vs)) :: i64) \<noteq> 0" using n by (metis unat_0 less_irrefl)
  let ?d = "d\<lparr>rld_decoder := d1, rld_count := - word_of_int (- int (length vs)), rld_literal := True\<rparr>"
  have "rle_fill ru rs dec d = Inr (Some ?d)"
    using c n nz by (subst rle_fill.simps, subst rle_fill.simps) (simp add: assms(3) d1)
  then show ?thesis
    using nz u assms(2) d1 vs by (auto simp: yields_def LitSeg intro!: exI [of _ segs] exI [of _ vs])
next
  case (NullSeg n)
  with assms(1) have n: "0 < n" "n < 2 ^ 63" by auto
  obtain d1 where d1: "raw_read (decode_i64 rs) (rld_decoder d) = Inr (word_of_int 0, d1)"
    "unread d1 = uleb n @ segs_bytes enc segs" "\<not> raw_done (rld_decoder d)"
    using read_header [of 0 "rld_decoder d"] assms(4) by (auto simp: NullSeg)
  obtain d2 where d2: "raw_read (decode_usize ru) d1 = Inr (n, d2)" "unread d2 = segs_bytes enc segs"
    by (rule read_leading [where dec' = "decode_usize ru", OF usize_count uleb_not_Nil d1(2)]) (use n in auto)
  have u: "unat (word_of_nat n :: i64) = n" using n by (simp add: unat_u64_of_nat)
  then have nz: "(word_of_nat n :: i64) \<noteq> 0" using n by (metis unat_0 less_irrefl)
  let ?d = "d\<lparr>rld_decoder := d2, rld_count := word_of_nat n, rld_last_value := None, rld_literal := False\<rparr>"
  have "rle_fill ru rs dec d = Inr (Some ?d)"
    using nz by (subst rle_fill.simps, subst rle_fill.simps) (simp add: assms(3) d1 d2)
  then show ?thesis
    using nz u assms(2) d2 by (auto simp: yields_def NullSeg intro!: exI [of _ segs])
qed

lemma fill_yields:
  assumes "yields enc ok d ys"
  shows "if ys = [] then rle_fill ru rs dec d = Inr None
    else \<exists>d'. rle_fill ru rs dec d = Inr (Some d') \<and> rld_count d' \<noteq> 0 \<and> yields enc ok d' ys"
proof (cases "rld_count d = 0")
  case False
  then have "rle_fill ru rs dec d = Inr (Some d)" by (subst rle_fill.simps) simp
  moreover have "ys \<noteq> []" using assms unat_pred [OF False] by (auto simp: yields_def split: if_splits)
  ultimately show ?thesis using False assms by simp
next
  case True
  then obtain segs where segs: "list_all (seg_ok ok) segs" "unread (rld_decoder d) = segs_bytes enc segs"
    "ys = segs_values segs"
    using assms by (auto simp: yields_def split: if_splits)
  show ?thesis
  proof (cases segs)
    case Nil
    then have "raw_done (rld_decoder d)" using segs(2) by (simp add: unread_def raw_done_def)
    then show ?thesis using True Nil segs by (simp add: rle_fill.simps [of ru rs dec d])
  next
    case (Cons s segs')
    then show ?thesis using fill_segment [of s segs' d] segs True seg_values_nonempty [of ok s] by auto
  qed
qed

lemma next_end: "yields enc ok d [] \<Longrightarrow> rle_next ru rs dec d = Inr None"
  using fill_yields [of d "[]"] by (simp add: rle_next_def)

lemma next_value:
  assumes "yields enc ok d (y # ys)"
  shows "\<exists>d'. rle_next ru rs dec d = Inr (Some (y, d')) \<and> yields enc ok d' ys"
proof -
  from fill_yields [OF assms] obtain d1 where f: "rle_fill ru rs dec d = Inr (Some d1)"
    "rld_count d1 \<noteq> 0" "yields enc ok d1 (y # ys)" by auto
  note u = unat_pred [OF f(2)]
  obtain segs where segs: "list_all (seg_ok ok) segs" using f(3) by (auto simp: yields_def)
  show ?thesis
  proof (cases "rld_literal d1")
    case False
    then have "rle_next ru rs dec d = Inr (Some (y, d1\<lparr>rld_count := rld_count d1 - 1\<rparr>))"
      and "yields enc ok (d1\<lparr>rld_count := rld_count d1 - 1\<rparr>) ys"
      using f u by (auto simp: rle_next_def yields_def)
    then show ?thesis by blast
  next
    case True
    then obtain segs v vs where *: "list_all (seg_ok ok) segs" "y = Some v" "ok v" "list_all ok vs"
      "length vs = unat (rld_count d1 - 1)" "ys = map Some vs @ segs_values segs"
      "unread (rld_decoder d1) = fst (enc v []) @ concat (map (\<lambda>v. fst (enc v [])) vs) @ segs_bytes enc segs"
    proof -
      assume that: "\<And>segs v vs. list_all (seg_ok ok) segs \<Longrightarrow> y = Some v \<Longrightarrow> ok v \<Longrightarrow> list_all ok vs \<Longrightarrow>
        length vs = unat (rld_count d1 - 1) \<Longrightarrow> ys = map Some vs @ segs_values segs \<Longrightarrow>
        unread (rld_decoder d1) = fst (enc v []) @ concat (map (\<lambda>v. fst (enc v [])) vs) @ segs_bytes enc segs
        \<Longrightarrow> thesis"
      from f(3) True obtain segs ws where w: "list_all (seg_ok ok) segs" "length ws = unat (rld_count d1)"
        "list_all ok ws" "unread (rld_decoder d1) = concat (map (\<lambda>v. fst (enc v [])) ws) @ segs_bytes enc segs"
        "y # ys = map Some ws @ segs_values segs" by (auto simp: yields_def)
      then obtain v vs where "ws = v # vs" using u by (cases ws) auto
      with w u show thesis by (intro that) auto
    qed
    obtain r where r: "raw_read dec (rld_decoder d1) = Inr (v, r)"
      "unread r = concat (map (\<lambda>v. fst (enc v [])) vs) @ segs_bytes enc segs"
      using read_value [OF *(3,7)] .
    let ?d = "d1\<lparr>rld_count := rld_count d1 - 1, rld_decoder := r\<rparr>"
    have "rle_next ru rs dec d = Inr (Some (y, ?d))"
      using f r True * by (simp add: rle_next_def)
    moreover have "yields enc ok ?d ys"
      using True * r by (auto simp: yields_def)
    ultimately show ?thesis by blast
  qed
qed

lemma collect_segments:
  assumes "list_all (seg_ok ok) segs" and "length (segs_values segs) \<le> n"
  shows "\<exists>d. collect (rle_next ru rs dec) n (rle_decoder_from (segs_bytes enc segs)) = Inr (segs_values segs, d)
    \<and> rle_next ru rs dec d = Inr None"
proof -
  have "yields enc ok (rle_decoder_from (segs_bytes enc segs)) (segs_values segs)"
    using assms(1) by (auto simp: yields_def rle_decoder_from_def raw_new_def unread_def)
  from collect_iterates [where R = "yields enc ok" and nxt = "rle_next ru rs dec", OF next_value next_end this assms(2)]
  show ?thesis by blast
qed

end

subsection \<open>The encoder writes segments\<close>

text \<open>The values an encoder state holds back, and the states that can occur.\<close>

fun pending :: "'a rle_state \<Rightarrow> 'a option list" where
  "pending Empty = []"
| "pending (InitialNullRun n) = replicate n None"
| "pending (NullRun n) = replicate n None"
| "pending (LiteralRun lst run) = map Some run @ [Some lst]"
| "pending (LoneVal v) = [Some v]"
| "pending (Run v n) = replicate n (Some v)"

fun state_ok :: "'a segment list \<Rightarrow> 'a rle_state \<Rightarrow> bool" where
  "state_ok segs Empty = (segs = [])"
| "state_ok segs (InitialNullRun n) = (segs = [] \<and> 0 < n)"
| "state_ok segs (NullRun n) = (0 < n \<and> (\<exists>v. Some v \<in> set (segs_values segs)))"
| "state_ok segs (LiteralRun lst run) = (run \<noteq> [])"
| "state_ok segs (LoneVal v) = True"
| "state_ok segs (Run v n) = (0 < n)"

definition written_as ::
  "('a \<Rightarrow> bytes \<Rightarrow> bytes \<times> nat) \<Rightarrow> ('a \<Rightarrow> bool) \<Rightarrow> bytes \<Rightarrow> 'a rle_encoder \<Rightarrow> 'a segment list \<Rightarrow> bool" where
  "written_as enc ok pre e segs \<longleftrightarrow> list_all (seg_ok ok) segs \<and> rle_buf e = pre @ segs_bytes enc segs
     \<and> rle_written e = length (segs_bytes enc segs)"

definition encodes ::
  "('a \<Rightarrow> bytes \<Rightarrow> bytes \<times> nat) \<Rightarrow> ('a \<Rightarrow> bool) \<Rightarrow> bytes \<Rightarrow> 'a rle_encoder \<Rightarrow> 'a option list \<Rightarrow> bool" where
  "encodes enc ok pre e xs \<longleftrightarrow> (\<exists>segs. written_as enc ok pre e segs \<and> state_ok segs (rle_state e)
     \<and> xs = segs_values segs @ pending (rle_state e))"

lemma rle_encode_state [simp]: "rle_state (rle_encode enc v e) = rle_state e"
  by (simp add: rle_encode_def split: prod.split)

lemma flush_state [simp]:
  fixes e :: "'a rle_encoder"
  shows "rle_state (flush_run enc v n e) = rle_state e"
  "rle_state (flush_null_run n e) = rle_state e" "rle_state (flush_lit_run enc vs e) = rle_state e"
proof -
  have "rle_state (foldl (\<lambda>e val. rle_encode enc val e) e' vs) = rle_state e'" for e' :: "'a rle_encoder"
    by (induction vs arbitrary: e') auto
  then show "rle_state (flush_lit_run enc vs e) = rle_state e" by (simp add: flush_lit_run_def)
qed (simp_all add: flush_run_def flush_null_run_def)

lemma written_as_state [simp]: "written_as enc ok pre (e\<lparr>rle_state := s\<rparr>) segs = written_as enc ok pre e segs"
  by (simp add: written_as_def)

lemma sint_count: "n < 2 ^ 63 \<Longrightarrow> sint (word_of_nat n :: i64) = int n"
  using sint_of_int_i64 [of "int n"] by simp

lemma sint_neg_count: "n < 2 ^ 63 \<Longrightarrow> sint (- word_of_nat n :: i64) = - int n"
  using sint_of_int_i64 [of "- int n"] by simp

context rle_coder
begin

lemma rle_encode_i64:
  "rle_encode encode_i64 v e = e\<lparr>rle_buf := rle_buf e @ sleb (sint v), rle_written := rle_written e + length (sleb (sint v))\<rparr>"
  by (simp add: rle_encode_def encode_i64_eq)

lemma rle_encode_value:
  "rle_encode enc v e = e\<lparr>rle_buf := rle_buf e @ fst (enc v []), rle_written := rle_written e + length (fst (enc v []))\<rparr>"
  by (simp add: rle_encode_def enc_append [of v "rle_buf e"])

lemma rle_encode_values:
  "foldl (\<lambda>e v. rle_encode enc v e) e vs = e\<lparr>rle_buf := rle_buf e @ concat (map (\<lambda>v. fst (enc v [])) vs),
    rle_written := rle_written e + length (concat (map (\<lambda>v. fst (enc v [])) vs))\<rparr>"
proof (induction vs arbitrary: e)
  case Nil
  then show ?case by simp
next
  case (Cons v vs)
  then show ?case by (simp add: rle_encode_value)
qed

lemma written_run:
  "written_as enc ok pre e segs \<Longrightarrow> ok v \<Longrightarrow> 0 < n \<Longrightarrow> n < 2 ^ 63
   \<Longrightarrow> written_as enc ok pre (flush_run enc v n e) (segs @ [RunSeg v n])"
  by (simp add: written_as_def flush_run_def rle_encode_i64 rle_encode_value sint_count)

lemma written_null:
  "written_as enc ok pre e segs \<Longrightarrow> 0 < n \<Longrightarrow> n < 2 ^ 63
   \<Longrightarrow> written_as enc ok pre (flush_null_run n e) (segs @ [NullSeg n])"
  by (simp add: written_as_def flush_null_run_def rle_encode_i64 rle_encode_def encode_usize_def
      encode_u64_eq encode_i64_eq unat_u64_of_nat)

lemma written_lit:
  "written_as enc ok pre e segs \<Longrightarrow> list_all ok vs \<Longrightarrow> vs \<noteq> [] \<Longrightarrow> length vs < 2 ^ 63
   \<Longrightarrow> written_as enc ok pre (flush_lit_run enc vs e) (segs @ [LitSeg vs])"
  by (simp add: written_as_def flush_lit_run_def rle_encode_i64 rle_encode_values sint_neg_count)

lemmas written_segments = written_run written_null written_lit

lemma encodes_new: "encodes enc ok pre (rle_new pre) []"
  by (auto simp: encodes_def written_as_def rle_new_def intro!: exI [of _ "[]"])

text \<open>One step either keeps the segments and only changes the state, or flushes the state as one
  segment.\<close>

lemma encodes_keep:
  assumes "written_as enc ok pre e segs" and "state_ok segs s"
  shows "encodes enc ok pre (e\<lparr>rle_state := Empty, rle_state := s\<rparr>) (segs_values segs @ pending s)"
  using assms by (auto simp: encodes_def intro!: exI [of _ segs])

lemma encodes_flush:
  assumes "written_as enc ok pre e (segs @ [g])" and "state_ok (segs @ [g]) s"
  shows "encodes enc ok pre (e\<lparr>rle_state := s\<rparr>) (segs_values segs @ seg_values g @ pending s)"
  using assms by (auto simp: encodes_def intro!: exI [of _ "segs @ [g]"])

abbreviation (input) ok_opt :: "'a option \<Rightarrow> bool" where
  "ok_opt x \<equiv> case x of None \<Rightarrow> True | Some v \<Rightarrow> ok v"

lemma append_null_encodes:
  assumes w: "written_as enc ok pre (e\<lparr>rle_state := Empty\<rparr>) segs" and st: "state_ok segs (rle_state e)"
    and ok: "list_all ok_opt (pending (rle_state e))" and len: "length (pending (rle_state e)) < 2 ^ 63"
  shows "encodes enc ok pre (rle_append_null enc e) (segs_values segs @ pending (rle_state e) @ [None])"
proof (cases "rle_state e")
  case Empty
  then show ?thesis using w st encodes_keep [of pre e segs "InitialNullRun 1"]
    by (simp add: rle_append_null_def)
next
  case (InitialNullRun n)
  then show ?thesis using w st encodes_keep [of pre e segs "InitialNullRun (n + 1)"]
    by (simp add: rle_append_null_def replicate_append_same)
next
  case (NullRun n)
  then show ?thesis using w st encodes_keep [of pre e segs "NullRun (n + 1)"]
    by (simp add: rle_append_null_def replicate_append_same)
next
  case (LoneVal v)
  have "written_as enc ok pre (flush_lit_run enc [v] (e\<lparr>rle_state := Empty\<rparr>)) (segs @ [LitSeg [v]])"
    using ok LoneVal by (intro written_lit w) auto
  from encodes_flush [OF this, of "NullRun 1"] show ?thesis
    using LoneVal by (auto simp: rle_append_null_def)
next
  case (Run v n)
  have "written_as enc ok pre (flush_run enc v n (e\<lparr>rle_state := Empty\<rparr>)) (segs @ [RunSeg v n])"
    using ok len st Run by (intro written_run w) (auto simp: list_all_iff)
  from encodes_flush [OF this, of "NullRun 1"] show ?thesis
    using Run st by (auto simp: rle_append_null_def)
next
  case (LiteralRun l run)
  have "written_as enc ok pre (flush_lit_run enc (run @ [l]) (e\<lparr>rle_state := Empty\<rparr>)) (segs @ [LitSeg (run @ [l])])"
    using ok len LiteralRun by (intro written_lit w) (auto simp: list_all_iff)
  from encodes_flush [OF this, of "NullRun 1"] show ?thesis
    using LiteralRun by (auto simp: rle_append_null_def)
qed

lemma append_value_flushes:
  assumes w: "written_as enc ok pre (e\<lparr>rle_state := Empty\<rparr>) segs" and st: "state_ok segs (rle_state e)"
    and len: "length (pending (rle_state e)) < 2 ^ 63" and n: "rle_state e = InitialNullRun n \<or> rle_state e = NullRun n"
  shows "encodes enc ok pre (rle_append_value enc v e) (segs_values segs @ pending (rle_state e) @ [Some v])"
proof -
  have "written_as enc ok pre (flush_null_run n (e\<lparr>rle_state := Empty\<rparr>)) (segs @ [NullSeg n])"
    using len st n by (intro written_null w) auto
  from encodes_flush [OF this, of "LoneVal v"] show ?thesis
    using n by (auto simp: rle_append_value_def)
qed

lemma append_value_encodes:
  assumes w: "written_as enc ok pre (e\<lparr>rle_state := Empty\<rparr>) segs" and st: "state_ok segs (rle_state e)"
    and ok: "list_all ok_opt (pending (rle_state e))" and len: "length (pending (rle_state e)) < 2 ^ 63"
  shows "encodes enc ok pre (rle_append_value enc v e) (segs_values segs @ pending (rle_state e) @ [Some v])"
proof (cases "rle_state e")
  case Empty
  then show ?thesis using w st encodes_keep [of pre e segs "LoneVal v"]
    by (simp add: rle_append_value_def)
next
  case (InitialNullRun n)
  then show ?thesis by (intro append_value_flushes [OF w st len, of n]) simp
next
  case (NullRun n)
  then show ?thesis by (intro append_value_flushes [OF w st len, of n]) simp
next
  case (LoneVal u)
  then show ?thesis
    using w st encodes_keep [of pre e segs "Run v 2"] encodes_keep [of pre e segs "LiteralRun v [u]"]
    by (auto simp: rle_append_value_def numeral_2_eq_2 Let_def)
next
  case (Run u n)
  have "written_as enc ok pre (flush_run enc u n (e\<lparr>rle_state := Empty\<rparr>)) (segs @ [RunSeg u n])"
    using ok len st Run by (intro written_run w) (auto simp: list_all_iff)
  from encodes_flush [OF this, of "LoneVal v"] encodes_keep [of pre e segs "Run u (n + 1)"] show ?thesis
    using Run w st by (auto simp: rle_append_value_def replicate_append_same Let_def)
next
  case (LiteralRun l run)
  have "written_as enc ok pre (flush_lit_run enc run (e\<lparr>rle_state := Empty\<rparr>)) (segs @ [LitSeg run])"
    using ok len st LiteralRun by (intro written_lit w) (auto simp: list_all_iff)
  from encodes_flush [OF this, of "Run v 2"] encodes_keep [of pre e segs "LiteralRun v (run @ [l])"] show ?thesis
    using LiteralRun w st by (auto simp: rle_append_value_def numeral_2_eq_2 Let_def)
qed

lemma encodes_append:
  assumes "encodes enc ok pre e xs" and "length xs < 2 ^ 63" and "list_all ok_opt xs"
  shows "encodes enc ok pre (rle_append enc x e) (xs @ [x])"
proof -
  obtain segs where segs: "written_as enc ok pre (e\<lparr>rle_state := Empty\<rparr>) segs" "state_ok segs (rle_state e)"
    and xs: "xs = segs_values segs @ pending (rle_state e)" using assms(1) by (auto simp: encodes_def)
  have p: "list_all ok_opt (pending (rle_state e))" "length (pending (rle_state e)) < 2 ^ 63"
    using assms(2,3) xs by auto
  show ?thesis
    using append_null_encodes [OF segs p] append_value_encodes [OF segs p] xs
    by (cases x) (simp_all add: rle_append_def)
qed

lemma encodes_all:
  "list_all ok_opt xs \<Longrightarrow> length xs < 2 ^ 63
   \<Longrightarrow> encodes enc ok pre (foldl (\<lambda>e x. rle_append enc x e) (rle_new pre) xs) xs"
proof (induction xs rule: rev_induct)
  case Nil
  then show ?case by (simp add: encodes_new)
next
  case (snoc x xs)
  then show ?case by (auto intro: encodes_append)
qed

lemma finish_segments:
  assumes "encodes enc ok pre e xs" and "length xs < 2 ^ 63" and "list_all ok_opt xs"
  shows "\<exists>segs. list_all (seg_ok ok) segs \<and> rle_finish enc e = (pre @ segs_bytes enc segs, length (segs_bytes enc segs))
    \<and> segs_values segs = (if set xs \<subseteq> {None} then [] else xs)"
proof -
  obtain segs where segs: "written_as enc ok pre (e\<lparr>rle_state := Empty\<rparr>) segs" and st: "state_ok segs (rle_state e)"
    and xs: "xs = segs_values segs @ pending (rle_state e)" using assms(1) by (auto simp: encodes_def)
  have p: "list_all ok_opt (pending (rle_state e))" "length (pending (rle_state e)) < 2 ^ 63"
    using assms(2,3) xs by auto
  have fin: "\<exists>segs. list_all (seg_ok ok) segs \<and> (rle_buf e', rle_written e') = (pre @ segs_bytes enc segs, length (segs_bytes enc segs))
    \<and> segs_values segs = ys" if "written_as enc ok pre e' segs'" "segs_values segs' = ys" for e' segs' ys
    using that by (auto simp: written_as_def)
  show ?thesis
  proof (cases "rle_state e")
    case Empty
    with fin [OF segs, of "[]"] st xs show ?thesis by (simp add: rle_finish_def)
  next
    case (InitialNullRun n)
    with fin [OF segs, of "[]"] st xs show ?thesis by (simp add: rle_finish_def)
  next
    case (NullRun n)
    with fin [OF written_null [OF segs, of n], of xs] p st xs show ?thesis by (auto simp: rle_finish_def)
  next
    case (LiteralRun l run)
    with fin [OF written_lit [OF segs, of "run @ [l]"], of xs] p st xs show ?thesis
      by (auto simp: rle_finish_def list_all_iff)
  next
    case (LoneVal v)
    with fin [OF written_lit [OF segs, of "[v]"], of xs] p st xs show ?thesis by (auto simp: rle_finish_def)
  next
    case (Run v n)
    with fin [OF written_run [OF segs, of v n], of xs] p st xs show ?thesis
      by (auto simp: rle_finish_def list_all_iff)
  qed
qed

lemma roundtrip:
  assumes "list_all ok_opt xs" and "length xs < 2 ^ 63" and "length xs \<le> n"
  defines "ys \<equiv> if set xs \<subseteq> {None} then [] else xs"
  shows "snd (rle_encode_all enc xs []) = length (fst (rle_encode_all enc xs []))
    \<and> (\<exists>d. collect (rle_next ru rs dec) n (rle_decoder_from (fst (rle_encode_all enc xs []))) = Inr (ys, d)
        \<and> rle_next ru rs dec d = Inr None)"
proof -
  from finish_segments [OF encodes_all [OF assms(1,2), of "[]"] assms(2,1)]
  obtain segs where segs: "list_all (seg_ok ok) segs"
    "rle_encode_all enc xs [] = (segs_bytes enc segs, length (segs_bytes enc segs))" "segs_values segs = ys"
    by (auto simp: rle_encode_all_def ys_def)
  then show ?thesis using collect_segments [OF segs(1), of n] assms(3)
    by (auto simp: ys_def split: if_splits)
qed

end

subsection \<open>Delta encoding\<close>

definition i64_min :: int where
  "i64_min = - (2 ^ 63)"

definition i64_max :: int where
  "i64_max = 2 ^ 63 - 1"

definition saturate :: "int \<Rightarrow> i64" where
  "saturate z = word_of_int (max i64_min (min i64_max z))"

definition saturating_sub :: "i64 \<Rightarrow> i64 \<Rightarrow> i64" where
  "saturating_sub a b = saturate (sint a - sint b)"

definition saturating_add :: "i64 \<Rightarrow> i64 \<Rightarrow> i64" where
  "saturating_add a b = saturate (sint a + sint b)"

record delta_encoder =
  de_rle :: "i64 rle_encoder"
  de_absolute_value :: i64

definition delta_new :: "bytes \<Rightarrow> delta_encoder" where
  "delta_new output = \<lparr>de_rle = rle_new output, de_absolute_value = 0\<rparr>"

definition delta_append_value :: "i64 \<Rightarrow> delta_encoder \<Rightarrow> delta_encoder" where
  "delta_append_value value e =
     e\<lparr>de_rle := rle_append_value encode_i64 (saturating_sub value (de_absolute_value e)) (de_rle e),
       de_absolute_value := value\<rparr>"

definition delta_append_null :: "delta_encoder \<Rightarrow> delta_encoder" where
  "delta_append_null e = e\<lparr>de_rle := rle_append_null encode_i64 (de_rle e)\<rparr>"

definition delta_append :: "i64 option \<Rightarrow> delta_encoder \<Rightarrow> delta_encoder" where
  "delta_append val e = (case val of Some v \<Rightarrow> delta_append_value v e | None \<Rightarrow> delta_append_null e)"

definition delta_finish :: "delta_encoder \<Rightarrow> bytes \<times> nat" where
  "delta_finish e = rle_finish encode_i64 (de_rle e)"

definition delta_encode_all :: "i64 option list \<Rightarrow> bytes \<Rightarrow> bytes \<times> nat" where
  "delta_encode_all xs out = delta_finish (foldl (\<lambda>e x. delta_append x e) (delta_new out) xs)"

record delta_decoder =
  dd_rle :: "i64 rle_decoder"
  dd_absolute_val :: i64

definition delta_decoder_from :: "bytes \<Rightarrow> delta_decoder" where
  "delta_decoder_from b = \<lparr>dd_rle = rle_decoder_from b, dd_absolute_val = 0\<rparr>"

definition delta_done :: "delta_decoder \<Rightarrow> bool" where
  "delta_done d = rle_done (dd_rle d)"

definition delta_next ::
  "(bytes \<Rightarrow> (u64 \<times> bytes) option) \<Rightarrow> (bytes \<Rightarrow> (i64 \<times> bytes) option)
    \<Rightarrow> delta_decoder \<Rightarrow> raw_error + (i64 option \<times> delta_decoder) option" where
  "delta_next ru rs d = bind_res (rle_next ru rs (decode_i64 rs) (dd_rle d)) (\<lambda>r. case r of
     None \<Rightarrow> Inr None
   | Some (nxt, rle) \<Rightarrow> (case nxt of
       Some delta \<Rightarrow>
         let v = saturating_add (dd_absolute_val d) delta
         in Inr (Some (Some v, d\<lparr>dd_rle := rle, dd_absolute_val := v\<rparr>))
     | None \<Rightarrow> Inr (Some (None, d\<lparr>dd_rle := rle\<rparr>))))"

text \<open>The deltas of a column, and the columns whose deltas do not saturate.\<close>

fun deltas :: "i64 \<Rightarrow> i64 option list \<Rightarrow> i64 option list" where
  "deltas a [] = []"
| "deltas a (None # xs) = None # deltas a xs"
| "deltas a (Some v # xs) = Some (saturating_sub v a) # deltas v xs"

fun no_saturation :: "i64 \<Rightarrow> i64 option list \<Rightarrow> bool" where
  "no_saturation a [] = True"
| "no_saturation a (None # xs) = no_saturation a xs"
| "no_saturation a (Some v # xs) = (i64_min \<le> sint v - sint a \<and> sint v - sint a \<le> i64_max \<and> no_saturation v xs)"

lemma saturate_id: "i64_min \<le> z \<Longrightarrow> z \<le> i64_max \<Longrightarrow> saturate z = word_of_int z"
  by (simp add: saturate_def)

lemma saturating_undo:
  assumes "i64_min \<le> sint v - sint a" and "sint v - sint a \<le> i64_max"
  shows "saturating_add a (saturating_sub v a) = v"
proof -
  have "sint (saturating_sub v a) = sint v - sint a"
    unfolding saturating_sub_def saturate_id [OF assms]
    using assms by (intro sint_of_int_i64) (auto simp: i64_min_def i64_max_def)
  then have "saturating_add a (saturating_sub v a) = saturate (sint v)"
    by (simp add: saturating_add_def)
  also have "\<dots> = v"
    using sint_i64_bounds [of v] by (simp add: saturate_id i64_min_def i64_max_def)
  finally show ?thesis .
qed

lemma deltas_Nil_iff [simp]: "deltas a xs = [] \<longleftrightarrow> xs = []" "[] = deltas a xs \<longleftrightarrow> xs = []"
  by (cases "(a, xs)" rule: deltas.cases; simp)+

lemma delta_fold:
  "de_rle (foldl (\<lambda>e x. delta_append x e) e xs)
     = foldl (\<lambda>e x. rle_append encode_i64 x e) (de_rle e) (deltas (de_absolute_value e) xs)"
proof (induction xs arbitrary: e)
  case Nil
  then show ?case by simp
next
  case (Cons x xs)
  then show ?case
    by (cases x) (simp_all add: delta_append_def delta_append_null_def delta_append_value_def rle_append_def)
qed

lemma delta_encode_all_eq: "delta_encode_all xs out = rle_encode_all encode_i64 (deltas 0 xs) out"
  by (simp add: delta_encode_all_def rle_encode_all_def delta_finish_def delta_fold delta_new_def)

lemma length_deltas [simp]: "length (deltas a xs) = length xs"
  by (induction a xs rule: deltas.induct) auto

lemma all_null_deltas [simp]: "set (deltas a xs) \<subseteq> {None} \<longleftrightarrow> set xs \<subseteq> {None}"
  by (induction a xs rule: deltas.induct) auto

text \<open>Decoding the deltas of a column from its running value gives the column back.\<close>

lemma delta_collect:
  assumes "collect (rle_next ru rs (decode_i64 rs)) n r = Inr (deltas a xs, r')" "no_saturation a xs"
  shows "\<exists>a'. collect (delta_next ru rs) n \<lparr>dd_rle = r, dd_absolute_val = a\<rparr>
    = Inr (xs, \<lparr>dd_rle = r', dd_absolute_val = a'\<rparr>)"
  using assms
proof (induction n arbitrary: a xs r)
  case 0
  then have "xs = []" by simp
  with 0 show ?case by simp
next
  case (Suc n)
  from Suc.prems(1) obtain res where res: "rle_next ru rs (decode_i64 rs) r = Inr res"
    by (auto simp: result_simps)
  show ?case
  proof (cases res)
    case None
    then have "xs = []" "r' = r" using Suc.prems(1) res by simp_all
    with None res show ?thesis by (simp add: delta_next_def)
  next
    case (Some p)
    obtain y r1 where p: "p = (y, r1)" by (cases p)
    with Some res Suc.prems(1) obtain ys where
      ys: "collect (rle_next ru rs (decode_i64 rs)) n r1 = Inr (ys, r')" "deltas a xs = y # ys"
      by (auto simp: result_simps)
    then obtain x xs' where xs: "xs = x # xs'" by (cases xs) auto
    let ?a = "case x of None \<Rightarrow> a | Some v \<Rightarrow> v"
    have "deltas ?a xs' = ys" "no_saturation ?a xs'" using ys(2) Suc.prems(2) xs by (cases x; simp)+
    with Suc.IH [of r1 ?a xs'] ys(1) obtain a' where
      "collect (delta_next ru rs) n \<lparr>dd_rle = r1, dd_absolute_val = ?a\<rparr> = Inr (xs', \<lparr>dd_rle = r', dd_absolute_val = a'\<rparr>)"
      by auto
    moreover have "delta_next ru rs \<lparr>dd_rle = r, dd_absolute_val = a\<rparr> = Inr (Some (x, \<lparr>dd_rle = r1, dd_absolute_val = ?a\<rparr>))"
      using Some res p xs ys(2) Suc.prems(2) by (cases x) (auto simp: delta_next_def saturating_undo)
    ultimately show ?thesis using xs by simp
  qed
qed

text \<open>The run-length coder of the deltas.\<close>

context leb_reader
begin

lemmas str_column_value = str_value.column_value_axioms

lemma rle_i64: "rle_coder ru rs encode_i64 (decode_i64 rs) (\<lambda>_. True)"
  by (intro rle_coder.intro leb_reader_axioms i64_value.column_value_axioms)

lemma rle_str: "rle_coder ru rs encode_str (decode_str ru) (\<lambda>s. utf8_valid s \<and> length s \<le> max_allocation)"
  by (intro rle_coder.intro leb_reader_axioms str_value.column_value_axioms)

lemma delta_roundtrip_reader:
  assumes "no_saturation 0 xs" and "length xs < 2 ^ 63" and "length xs \<le> n"
  defines "ys \<equiv> if set xs \<subseteq> {None} then [] else xs"
  shows "\<exists>d. collect (delta_next ru rs) n (delta_decoder_from (fst (delta_encode_all xs []))) = Inr (ys, d)
    \<and> delta_next ru rs d = Inr None"
proof -
  let ?b = "fst (delta_encode_all xs [])" and ?rle = "rle_decoder_from (fst (delta_encode_all xs [])) :: i64 rle_decoder"
  have any: "list_all (\<lambda>x. case x of None \<Rightarrow> True | Some v \<Rightarrow> True) zs" for zs :: "i64 option list"
    by (auto simp: list_all_iff split: option.splits)
  have "\<exists>r. collect (rle_next ru rs (decode_i64 rs)) n ?rle = Inr (deltas 0 ys, r)
      \<and> rle_next ru rs (decode_i64 rs) r = Inr None"
    using rle_coder.roundtrip [OF rle_i64 any, of "deltas 0 xs" n] assms(2,3)
    by (simp add: delta_encode_all_eq ys_def split: if_splits)
  then obtain r where r: "collect (rle_next ru rs (decode_i64 rs)) n ?rle = Inr (deltas 0 ys, r)"
    "rle_next ru rs (decode_i64 rs) r = Inr None" by blast
  have "no_saturation 0 ys" using assms(1) by (simp add: ys_def)
  from delta_collect [OF r(1) this] obtain a where
    "collect (delta_next ru rs) n \<lparr>dd_rle = ?rle, dd_absolute_val = 0\<rparr> = Inr (ys, \<lparr>dd_rle = r, dd_absolute_val = a\<rparr>)"
    by blast
  then show ?thesis using r(2) by (auto simp: delta_decoder_from_def delta_next_def)
qed

end

interpretation own_rle_i64: rle_coder own_read_u own_read_s encode_i64 "decode_i64 own_read_s" "\<lambda>_. True"
  by (rule own_reader.rle_i64)

interpretation own_rle_str: rle_coder own_read_u own_read_s encode_str "decode_str own_read_u"
  "\<lambda>s. utf8_valid s \<and> length s \<le> max_allocation"
  by (rule own_reader.rle_str)

subsection \<open>Properties\<close>

text \<open>C22: a nullable column of any value type whose codec reads back what it writes survives the
  run-length coder: the decoder yields exactly the appended values and then ends, for every column
  that has a value in it, and the encoder counts the bytes it wrote; a column of nulls only is
  written as no bytes and yields nothing.\<close>

theorem rle_roundtrip:
  assumes "reads_leb ru rs" and "column_value enc dec ok"
    and "list_all (\<lambda>x. case x of None \<Rightarrow> True | Some v \<Rightarrow> ok v) xs" and "length xs < 2 ^ 63"
  shows "snd (rle_encode_all enc xs []) = length (fst (rle_encode_all enc xs []))
    \<and> (\<exists>d. collect (rle_next ru rs dec) (length xs) (rle_decoder_from (fst (rle_encode_all enc xs [])))
          = Inr (if set xs \<subseteq> {None} then [] else xs, d)
        \<and> rle_next ru rs dec d = Inr None)"
  using assms by (intro rle_coder.roundtrip rle_coder.intro) (auto simp: reads_leb_reader)

theorem rle_roundtrip_witness:
  "\<exists>d. collect (rle_next own_read_u own_read_s (decode_str own_read_u)) (length [None, Some [97], Some [97], None])
        (rle_decoder_from (fst (rle_encode_all encode_str [None, Some [97], Some [97], None] [])))
      = Inr ([None, Some [97], Some [97], None], d)
    \<and> rle_next own_read_u own_read_s (decode_str own_read_u) d = Inr None"
proof -
  have "list_all (\<lambda>x. case x of None \<Rightarrow> True | Some v \<Rightarrow> utf8_valid v \<and> length v \<le> max_allocation)
      [None, Some [97], Some [97], None]"
    by (simp add: max_allocation_def)
  from rle_roundtrip [OF own_reader_reads own_reader.str_column_value this]
  show ?thesis by (simp del: collect.simps)
qed

text \<open>A column of integers survives the delta coder, nulls included, whenever no difference of
  consecutive values leaves the range of \<open>i64\<close>.\<close>

theorem delta_roundtrip:
  assumes "reads_leb ru rs" and "no_saturation 0 xs" and "length xs < 2 ^ 63"
  shows "\<exists>d. collect (delta_next ru rs) (length xs) (delta_decoder_from (fst (delta_encode_all xs [])))
      = Inr (if set xs \<subseteq> {None} then [] else xs, d)
    \<and> delta_next ru rs d = Inr None"
  using assms by (intro leb_reader.delta_roundtrip_reader) (auto simp: reads_leb_reader)

theorem delta_roundtrip_witness:
  "\<exists>d. collect (delta_next own_read_u own_read_s) (length [Some 5, None, Some (- 3)])
      (delta_decoder_from (fst (delta_encode_all [Some 5, None, Some (- 3)] [])))
    = Inr ([Some 5, None, Some (- 3)], d) \<and> delta_next own_read_u own_read_s d = Inr None"
proof -
  have "no_saturation 0 [Some 5, None, Some (- 3)]" by (simp add: i64_min_def i64_max_def)
  from delta_roundtrip [OF own_reader_reads this] show ?thesis by (simp del: collect.simps)
qed

end
