(* ===== verification/Booleans.thy ===== *)
theory Booleans
  imports Rle
begin

text \<open>
  The boolean columns of \<open>boolean.rs\<close>: alternating run counts starting with \<open>false\<close>, and the variant
  that writes nothing for a column that is false throughout.
\<close>

record boolean_encoder =
  be_written :: nat
  be_buf :: bytes
  be_last :: bool
  be_count :: nat

definition boolean_from_sink :: "bytes \<Rightarrow> boolean_encoder" where
  "boolean_from_sink sink = \<lparr>be_written = 0, be_buf = sink, be_last = False, be_count = 0\<rparr>"

definition boolean_append :: "bool \<Rightarrow> boolean_encoder \<Rightarrow> boolean_encoder" where
  "boolean_append value e =
     (if value = be_last e then e\<lparr>be_count := be_count e + 1\<rparr>
      else let (buf, n) = encode_usize (be_count e) (be_buf e)
        in e\<lparr>be_buf := buf, be_written := be_written e + n, be_last := value, be_count := 1\<rparr>)"

definition boolean_finish :: "boolean_encoder \<Rightarrow> bytes \<times> nat" where
  "boolean_finish e =
     (if be_count e > 0 then
        let (buf, n) = encode_usize (be_count e) (be_buf e) in (buf, be_written e + n)
      else (be_buf e, be_written e))"

record boolean_decoder =
  bd_decoder :: raw_decoder
  bd_last_value :: bool
  bd_count :: nat

definition boolean_decoder_from :: "bytes \<Rightarrow> boolean_decoder" where
  "boolean_decoder_from b = \<lparr>bd_decoder = raw_new b, bd_last_value = True, bd_count = 0\<rparr>"

function boolean_fill ::
  "(bytes \<Rightarrow> (u64 \<times> bytes) option) \<Rightarrow> boolean_decoder \<Rightarrow> raw_error + boolean_decoder option" where
  "boolean_fill ru d =
     (if bd_count d \<noteq> 0 then Inr (Some d)
      else if raw_done (bd_decoder d) then Inr None
      else bind_res (raw_read (decode_usize ru) (bd_decoder d)) (\<lambda>(c, raw).
        boolean_fill ru (d\<lparr>bd_decoder := raw, bd_count := c, bd_last_value := \<not> bd_last_value d\<rparr>)))"
  by pat_completeness auto

termination
  by (relation "measure (\<lambda>(_, d). length (rd_data (bd_decoder d)) - rd_offset (bd_decoder d))")
    (auto dest!: raw_read_progress)

declare boolean_fill.simps [simp del]

definition boolean_next ::
  "(bytes \<Rightarrow> (u64 \<times> bytes) option) \<Rightarrow> boolean_decoder \<Rightarrow> raw_error + (bool \<times> boolean_decoder) option" where
  "boolean_next ru d = bind_res (boolean_fill ru d) (\<lambda>r. case r of
     None \<Rightarrow> Inr None
   | Some d \<Rightarrow> Inr (Some (bd_last_value d, d\<lparr>bd_count := bd_count d - 1\<rparr>)))"

record maybe_boolean_encoder =
  mbe_encoder :: boolean_encoder
  mbe_all_false :: bool

definition maybe_boolean_from_sink :: "bytes \<Rightarrow> maybe_boolean_encoder" where
  "maybe_boolean_from_sink buf = \<lparr>mbe_encoder = boolean_from_sink buf, mbe_all_false = True\<rparr>"

definition maybe_boolean_append :: "bool \<Rightarrow> maybe_boolean_encoder \<Rightarrow> maybe_boolean_encoder" where
  "maybe_boolean_append value e =
     (let e = if value then e\<lparr>mbe_all_false := False\<rparr> else e
      in e\<lparr>mbe_encoder := boolean_append value (mbe_encoder e)\<rparr>)"

definition maybe_boolean_finish :: "maybe_boolean_encoder \<Rightarrow> bytes \<times> nat" where
  "maybe_boolean_finish e =
     (if mbe_all_false e then (be_buf (mbe_encoder e), 0) else boolean_finish (mbe_encoder e))"

definition maybe_boolean_next ::
  "(bytes \<Rightarrow> (u64 \<times> bytes) option) \<Rightarrow> boolean_decoder \<Rightarrow> raw_error + (bool option \<times> boolean_decoder) option" where
  "maybe_boolean_next ru d =
     (if raw_is_empty (bd_decoder d) then Inr None
      else map_res (map_option (\<lambda>(b, d). (Some b, d))) (boolean_next ru d))"

definition boolean_encode_all :: "bool list \<Rightarrow> bytes \<Rightarrow> bytes \<times> nat" where
  "boolean_encode_all xs out = boolean_finish (foldl (\<lambda>e x. boolean_append x e) (boolean_from_sink out) xs)"

definition maybe_boolean_encode_all :: "bool list \<Rightarrow> bytes \<Rightarrow> bytes \<times> nat" where
  "maybe_boolean_encode_all xs out =
     maybe_boolean_finish (foldl (\<lambda>e x. maybe_boolean_append x e) (maybe_boolean_from_sink out) xs)"

subsection \<open>Runs\<close>

text \<open>The values that alternating run counts stand for, and their bytes.\<close>

fun runs :: "bool \<Rightarrow> nat list \<Rightarrow> bool list" where
  "runs b [] = []"
| "runs b (n # ns) = replicate n b @ runs (\<not> b) ns"

definition counts_bytes :: "nat list \<Rightarrow> bytes" where
  "counts_bytes ns = concat (map uleb ns)"

lemma runs_append: "runs b (ns @ ms) = runs b ns @ runs (if even (length ns) then b else \<not> b) ms"
  by (induction b ns rule: runs.induct) auto

definition bool_yields :: "boolean_decoder \<Rightarrow> bool list \<Rightarrow> bool" where
  "bool_yields d ys \<longleftrightarrow> (\<exists>ns. list_all (\<lambda>n. n < 2 ^ 64) ns \<and> unread (bd_decoder d) = counts_bytes ns
     \<and> ys = replicate (bd_count d) (bd_last_value d) @ runs (\<not> bd_last_value d) ns)"

context leb_reader
begin

lemma read_count:
  assumes "n < 2 ^ 64" and "unread d = uleb n @ rest"
  obtains d' where "raw_read (decode_usize ru) d = Inr (n, d')" "unread d' = rest" "\<not> raw_done d"
  by (rule rle_coder.read_leading [OF rle_i64, OF usize_count [OF assms(1)] uleb_not_Nil assms(2)]) (rule that)

lemma boolean_fill_runs:
  "list_all (\<lambda>n. n < 2 ^ 64) ns \<Longrightarrow> unread (bd_decoder d) = counts_bytes ns
   \<Longrightarrow> ys = replicate (bd_count d) (bd_last_value d) @ runs (\<not> bd_last_value d) ns
   \<Longrightarrow> if ys = [] then boolean_fill ru d = Inr None
     else \<exists>d'. boolean_fill ru d = Inr (Some d') \<and> bd_count d' \<noteq> 0 \<and> bool_yields d' ys"
proof (induction ns arbitrary: d)
  case Nil
  then show ?case
    by (cases "bd_count d") (auto simp: boolean_fill.simps [of ru d] counts_bytes_def unread_def raw_done_def
        bool_yields_def intro!: exI [of _ "[]"])
next
  case (Cons n ns)
  show ?case
  proof (cases "bd_count d = 0")
    case False
    then show ?thesis using Cons.prems
      by (auto simp: boolean_fill.simps [of ru d] bool_yields_def intro!: exI [of _ "n # ns"])
  next
    case True
    have n: "n < 2 ^ 64" and u: "unread (bd_decoder d) = uleb n @ counts_bytes ns"
      using Cons.prems(1,2) by (auto simp: counts_bytes_def)
    obtain r where r: "raw_read (decode_usize ru) (bd_decoder d) = Inr (n, r)" "unread r = counts_bytes ns"
      "\<not> raw_done (bd_decoder d)" by (rule read_count [OF n u])
    let ?d = "d\<lparr>bd_decoder := r, bd_count := n, bd_last_value := \<not> bd_last_value d\<rparr>"
    have "boolean_fill ru d = boolean_fill ru ?d"
      by (subst boolean_fill.simps) (simp add: True r)
    moreover have "if ys = [] then boolean_fill ru ?d = Inr None
        else \<exists>d'. boolean_fill ru ?d = Inr (Some d') \<and> bd_count d' \<noteq> 0 \<and> bool_yields d' ys"
      using Cons.prems r True by (intro Cons.IH) auto
    ultimately show ?thesis by (simp only:)
  qed
qed

lemma boolean_next_value:
  assumes "bool_yields d (y # ys)"
  shows "\<exists>d'. boolean_next ru d = Inr (Some (y, d')) \<and> bool_yields d' ys"
proof -
  obtain ns where "list_all (\<lambda>n. n < 2 ^ 64) ns" "unread (bd_decoder d) = counts_bytes ns"
    "y # ys = replicate (bd_count d) (bd_last_value d) @ runs (\<not> bd_last_value d) ns"
    using assms unfolding bool_yields_def by blast
  from boolean_fill_runs [OF this]
  obtain d1 where f: "boolean_fill ru d = Inr (Some d1)" "bd_count d1 \<noteq> 0" "bool_yields d1 (y # ys)"
    by auto
  then have "boolean_next ru d = Inr (Some (y, d1\<lparr>bd_count := bd_count d1 - 1\<rparr>))"
    and "bool_yields (d1\<lparr>bd_count := bd_count d1 - 1\<rparr>) ys"
    by (cases "bd_count d1"; auto simp: boolean_next_def bool_yields_def)+
  then show ?thesis by blast
qed

lemma boolean_next_end: "bool_yields d [] \<Longrightarrow> boolean_next ru d = Inr None"
  using boolean_fill_runs [of _ d "[]"] unfolding bool_yields_def by (force simp: boolean_next_def)

end

definition bool_encodes :: "bytes \<Rightarrow> boolean_encoder \<Rightarrow> bool list \<Rightarrow> bool" where
  "bool_encodes pre e xs \<longleftrightarrow> (\<exists>ns. list_all (\<lambda>n. n < 2 ^ 64) ns \<and> be_buf e = pre @ counts_bytes ns
     \<and> be_written e = length (counts_bytes ns) \<and> be_last e = odd (length ns)
     \<and> xs = runs False ns @ replicate (be_count e) (be_last e))"

lemma encode_usize_eq: "n < 2 ^ 64 \<Longrightarrow> encode_usize n out = (out @ uleb n, length (uleb n))"
  by (simp add: encode_usize_def encode_u64_eq unat_u64_of_nat)

lemma bool_encodes_append:
  assumes "bool_encodes pre e xs" and "length xs < 2 ^ 64"
  shows "bool_encodes pre (boolean_append x e) (xs @ [x])"
proof -
  obtain ns where ns: "list_all (\<lambda>n. n < 2 ^ 64) ns" "be_buf e = pre @ counts_bytes ns"
    "be_written e = length (counts_bytes ns)" "be_last e = odd (length ns)"
    "xs = runs False ns @ replicate (be_count e) (be_last e)" using assms(1) unfolding bool_encodes_def by blast
  show ?thesis
  proof (cases "x = be_last e")
    case True
    with ns show ?thesis
      by (auto simp: bool_encodes_def boolean_append_def replicate_append_same intro!: exI [of _ ns])
  next
    case False
    have c: "be_count e < 2 ^ 64" using assms(2) ns(5) by simp
    with False ns encode_usize_eq [OF c] show ?thesis
      by (auto simp: bool_encodes_def boolean_append_def counts_bytes_def runs_append
          intro!: exI [of _ "ns @ [be_count e]"])
  qed
qed

lemma bool_encodes_all:
  "length xs < 2 ^ 64 \<Longrightarrow> bool_encodes pre (foldl (\<lambda>e x. boolean_append x e) (boolean_from_sink pre) xs) xs"
proof (induction xs rule: rev_induct)
  case Nil
  then show ?case
    by (auto simp: bool_encodes_def boolean_from_sink_def counts_bytes_def intro!: exI [of _ "[]"])
next
  case (snoc x xs)
  then show ?case by (auto intro: bool_encodes_append)
qed

lemma boolean_encode_all_runs:
  assumes "length xs < 2 ^ 64"
  shows "\<exists>ns. list_all (\<lambda>n. n < 2 ^ 64) ns \<and> boolean_encode_all xs pre = (pre @ counts_bytes ns, length (counts_bytes ns))
    \<and> xs = runs False ns"
proof -
  let ?e = "foldl (\<lambda>e x. boolean_append x e) (boolean_from_sink pre) xs"
  obtain ns where ns: "list_all (\<lambda>n. n < 2 ^ 64) ns" "be_buf ?e = pre @ counts_bytes ns"
    "be_written ?e = length (counts_bytes ns)" "be_last ?e = odd (length ns)"
    "xs = runs False ns @ replicate (be_count ?e) (be_last ?e)"
    using bool_encodes_all [OF assms] unfolding bool_encodes_def by blast
  show ?thesis
  proof (cases "be_count ?e = 0")
    case True
    with ns show ?thesis by (auto simp: boolean_encode_all_def boolean_finish_def intro!: exI [of _ ns])
  next
    case False
    have c: "be_count ?e < 2 ^ 64" using assms ns(5) by (metis length_append length_replicate trans_le_add2 not_le)
    from False c ns encode_usize_eq [OF c] show ?thesis
      by (intro exI [of _ "ns @ [be_count ?e]"])
        (auto simp: boolean_encode_all_def boolean_finish_def counts_bytes_def runs_append)
  qed
qed

lemma boolean_fill_data: "boolean_fill ru d = Inr (Some d') \<Longrightarrow> rd_data (bd_decoder d') = rd_data (bd_decoder d)"
proof (induction ru d rule: boolean_fill.induct)
  case (1 ru d)
  show ?case
  proof (cases "bd_count d = 0 \<and> \<not> raw_done (bd_decoder d)")
    case False
    with "1.prems" show ?thesis by (auto simp: boolean_fill.simps [of ru d] split: if_splits)
  next
    case True
    with "1.prems" obtain c r where r: "raw_read (decode_usize ru) (bd_decoder d) = Inr (c, r)"
      by (auto simp: boolean_fill.simps [of ru d] result_simps)
    then show ?thesis using "1.IH" [OF _ _ r refl] "1.prems" True raw_read_progress [OF r]
      by (simp add: boolean_fill.simps [of ru d])
  qed
qed

lemma maybe_boolean_fold:
  "mbe_encoder (foldl (\<lambda>e x. maybe_boolean_append x e) e xs) = foldl (\<lambda>e x. boolean_append x e) (mbe_encoder e) xs
   \<and> mbe_all_false (foldl (\<lambda>e x. maybe_boolean_append x e) e xs) = (mbe_all_false e \<and> True \<notin> set xs)"
  by (induction xs arbitrary: e) (auto simp: maybe_boolean_append_def Let_def)

lemma boolean_append_false:
  "set xs \<subseteq> {False} \<Longrightarrow> foldl (\<lambda>e x. boolean_append x e) (boolean_from_sink out) xs
     = (boolean_from_sink out)\<lparr>be_count := length xs\<rparr>"
  by (induction xs rule: rev_induct) (auto simp: boolean_append_def boolean_from_sink_def)

context leb_reader
begin

lemma boolean_roundtrip_reader:
  assumes "length xs < 2 ^ 64"
  shows "\<exists>d. collect (boolean_next ru) (length xs) (boolean_decoder_from (fst (boolean_encode_all xs []))) = Inr (xs, d)
    \<and> boolean_next ru d = Inr None"
proof -
  obtain ns where ns: "list_all (\<lambda>n. n < 2 ^ 64) ns"
    "boolean_encode_all xs [] = (counts_bytes ns, length (counts_bytes ns))" "xs = runs False ns"
    using boolean_encode_all_runs [OF assms, of "[]"] by auto
  then have "bool_yields (boolean_decoder_from (fst (boolean_encode_all xs []))) xs"
    by (auto simp: bool_yields_def boolean_decoder_from_def raw_new_def unread_def intro!: exI [of _ ns])
  from collect_iterates [where R = bool_yields and nxt = "boolean_next ru", OF boolean_next_value boolean_next_end this order_refl]
  show ?thesis by blast
qed

lemma maybe_boolean_collect:
  "bool_yields d ys \<Longrightarrow> \<not> raw_is_empty (bd_decoder d) \<Longrightarrow>
   \<exists>d'. collect (maybe_boolean_next ru) (length ys) d = Inr (map Some ys, d') \<and> maybe_boolean_next ru d' = Inr None"
proof (induction ys arbitrary: d)
  case Nil
  then show ?case by (simp add: maybe_boolean_next_def boolean_next_end)
next
  case (Cons y ys)
  obtain d1 where d1: "boolean_next ru d = Inr (Some (y, d1))" "bool_yields d1 ys"
    using boolean_next_value [OF Cons.prems(1)] by blast
  have "rd_data (bd_decoder d1) = rd_data (bd_decoder d)"
    using d1(1) boolean_fill_data by (fastforce simp: boolean_next_def result_simps split: option.splits)
  then have "\<not> raw_is_empty (bd_decoder d1)" using Cons.prems(2) by (simp add: raw_is_empty_def)
  from Cons.IH [OF d1(2) this] d1(1) Cons.prems(2) show ?case
    by (auto simp: maybe_boolean_next_def)
qed

lemma maybe_boolean_reader:
  assumes "length xs < 2 ^ 64"
  shows "if True \<notin> set xs then maybe_boolean_encode_all xs [] = ([], 0)
    else maybe_boolean_encode_all xs [] = boolean_encode_all xs []
      \<and> (\<exists>d. collect (maybe_boolean_next ru) (length xs)
            (boolean_decoder_from (fst (maybe_boolean_encode_all xs []))) = Inr (map Some xs, d)
          \<and> maybe_boolean_next ru d = Inr None)"
proof (cases "True \<in> set xs")
  case False
  then have "set xs \<subseteq> {False}" by (metis (full_types) insertCI subsetI)
  from boolean_append_false [OF this, of "[]"] False show ?thesis
    by (simp add: maybe_boolean_encode_all_def maybe_boolean_finish_def maybe_boolean_fold
        maybe_boolean_from_sink_def boolean_from_sink_def)
next
  case True
  then have e: "maybe_boolean_encode_all xs [] = boolean_encode_all xs []"
    by (simp add: maybe_boolean_encode_all_def maybe_boolean_finish_def maybe_boolean_fold
        maybe_boolean_from_sink_def boolean_encode_all_def)
  obtain ns where ns: "list_all (\<lambda>n. n < 2 ^ 64) ns"
    "boolean_encode_all xs [] = (counts_bytes ns, length (counts_bytes ns))" "xs = runs False ns"
    using boolean_encode_all_runs [OF assms, of "[]"] by auto
  then have y: "bool_yields (boolean_decoder_from (fst (boolean_encode_all xs []))) xs"
    by (auto simp: bool_yields_def boolean_decoder_from_def raw_new_def unread_def intro!: exI [of _ ns])
  have "\<not> raw_is_empty (bd_decoder (boolean_decoder_from (fst (boolean_encode_all xs []))))"
    using ns True by (cases ns) (auto simp: raw_is_empty_def boolean_decoder_from_def raw_new_def counts_bytes_def)
  from maybe_boolean_collect [OF y this] True e show ?thesis by simp
qed

end

subsection \<open>Properties\<close>

text \<open>Booleans survive the boolean column coder: the decoder yields exactly the appended values
  and then ends.\<close>

theorem boolean_roundtrip:
  assumes "reads_leb ru rs" and "length xs < 2 ^ 64"
  shows "\<exists>d. collect (boolean_next ru) (length xs) (boolean_decoder_from (fst (boolean_encode_all xs []))) = Inr (xs, d)
    \<and> boolean_next ru d = Inr None"
  using assms by (intro leb_reader.boolean_roundtrip_reader) (auto simp: reads_leb_reader)

theorem boolean_roundtrip_witness:
  "\<exists>d. collect (boolean_next own_read_u) (length [True, True, False])
      (boolean_decoder_from (fst (boolean_encode_all [True, True, False] []))) = Inr ([True, True, False], d)
    \<and> boolean_next own_read_u d = Inr None"
  by (rule boolean_roundtrip [OF own_reader_reads]) simp

text \<open>The variant that may omit the column writes nothing at all, and counts nothing, exactly when
  no value is true; otherwise it writes the same bytes as the plain encoder, and reading them
  back gives every value.\<close>

theorem maybe_boolean_roundtrip:
  assumes "reads_leb ru rs" and "length xs < 2 ^ 64"
  shows "if True \<notin> set xs then maybe_boolean_encode_all xs [] = ([], 0)
    else maybe_boolean_encode_all xs [] = boolean_encode_all xs []
      \<and> (\<exists>d. collect (maybe_boolean_next ru) (length xs)
            (boolean_decoder_from (fst (maybe_boolean_encode_all xs []))) = Inr (map Some xs, d)
          \<and> maybe_boolean_next ru d = Inr None)"
  using assms by (intro leb_reader.maybe_boolean_reader) (auto simp: reads_leb_reader)

theorem maybe_boolean_roundtrip_witness:
  "\<exists>d. collect (maybe_boolean_next own_read_u) (length [False, True])
      (boolean_decoder_from (fst (maybe_boolean_encode_all [False, True] []))) = Inr (map Some [False, True], d)
    \<and> maybe_boolean_next own_read_u d = Inr None"
  using maybe_boolean_roundtrip [OF own_reader_reads, of "[False, True]"] by (auto simp del: collect.simps)

end
