(* ===== verification/Op_Types.thy ===== *)
theory Op_Types
  imports Ex_Id
begin

text \<open>
  The operations of the operation set (\<open>op_set2/types.rs\<close>, \<open>op_set2/op.rs\<close>): actions, scalar values and
  keys, an operation under construction, an operation of a change on its way into the document, and a
  row of the document as the iterators yield it. Strings are their UTF-8 bytes, whose lexicographic order
  is the order of \<open>str\<close>; a float is its bit pattern. The columns of the document are represented by what
  they hold, one record per row.
\<close>

subsection \<open>Actions, values, keys\<close>

datatype action = MakeMap | MakeList | MakeText | SetAction | DeleteAction | Increment | MakeTable | MarkAction

datatype scalar_value =
    SvBytes bytes
  | SvStr bytes
  | SvInt i64
  | SvUint u64
  | SvF64 u64
  | SvCounter i64
  | SvTimestamp i64
  | SvBoolean bool
  | SvUnknown u8 bytes
  | SvNull

datatype key_ref = MapKey bytes | SeqKey elem_id

datatype obj_type = ObjMap | ObjTable | ObjList | ObjText

definition obj_type_of_action :: "action \<Rightarrow> obj_type option" where
  "obj_type_of_action a = (case a of
     MakeMap \<Rightarrow> Some ObjMap | MakeList \<Rightarrow> Some ObjList | MakeText \<Rightarrow> Some ObjText | _ \<Rightarrow> None)"

definition is_sequence :: "obj_type \<Rightarrow> bool" where
  "is_sequence t \<longleftrightarrow> t = ObjList \<or> t = ObjText"

text \<open>The derived order of element ids and the partial order of keys: keys of a map and of a sequence do not compare.\<close>

instantiation elem_id :: linorder
begin

definition less_eq_elem_id :: "elem_id \<Rightarrow> elem_id \<Rightarrow> bool" where
  "a \<le> b \<longleftrightarrow> elem_op a \<le> elem_op b"

definition less_elem_id :: "elem_id \<Rightarrow> elem_id \<Rightarrow> bool" where
  "a < b \<longleftrightarrow> elem_op a < elem_op b"

instance
  by standard (auto simp: less_eq_elem_id_def less_elem_id_def elem_id.expand)

end

instantiation obj_id :: linorder
begin

definition less_eq_obj_id :: "obj_id \<Rightarrow> obj_id \<Rightarrow> bool" where
  "a \<le> b \<longleftrightarrow> obj_op a \<le> obj_op b"

definition less_obj_id :: "obj_id \<Rightarrow> obj_id \<Rightarrow> bool" where
  "a < b \<longleftrightarrow> obj_op a < obj_op b"

instance
  by standard (auto simp: less_eq_obj_id_def less_obj_id_def obj_id.expand)

end

fun key_partial_cmp :: "key_ref \<Rightarrow> key_ref \<Rightarrow> ordering option" where
  "key_partial_cmp (MapKey s1) (MapKey s2) = Some (compare_ord s1 s2)"
| "key_partial_cmp (SeqKey e1) (SeqKey e2) = Some (compare_ord e1 e2)"
| "key_partial_cmp _ _ = None"

subsection \<open>Operations of a change\<close>

record op_builder =
  ob_id :: op_id
  ob_obj :: obj_id
  ob_action :: action
  ob_key :: key_ref
  ob_value :: scalar_value
  ob_insert :: bool
  ob_expand :: bool
  ob_mark_name :: "bytes option"
  ob_pred :: "op_id list"

record change_op =
  co_succ :: "(op_id \<times> i64 option) list"
  co_pos :: "nat option"
  co_subsort :: nat
  co_conflicted :: bool
  co_bld :: op_builder

definition co_id :: "change_op \<Rightarrow> op_id" where
  "co_id c = ob_id (co_bld c)"

definition co_key :: "change_op \<Rightarrow> key_ref" where
  "co_key c = ob_key (co_bld c)"

definition co_insert :: "change_op \<Rightarrow> bool" where
  "co_insert c = ob_insert (co_bld c)"

definition co_has_succ :: "change_op \<Rightarrow> bool" where
  "co_has_succ c \<longleftrightarrow> list_ex (\<lambda>(_, inc). inc = None) (co_succ c)"

definition co_visible :: "change_op \<Rightarrow> bool" where
  "co_visible c \<longleftrightarrow> \<not> (ob_action (co_bld c) = Increment \<or> ob_action (co_bld c) = DeleteAction \<or> co_has_succ c)"

definition co_is_set_or_make :: "change_op \<Rightarrow> bool" where
  "co_is_set_or_make c \<longleftrightarrow> ob_action (co_bld c) \<in> {SetAction, MakeMap, MakeList, MakeText, MakeTable}"

definition co_elemid_or_key :: "change_op \<Rightarrow> key_ref" where
  "co_elemid_or_key c = (if co_insert c then SeqKey (ElemId (co_id c)) else co_key c)"

text \<open>\<open>*i as i64\<close> keeps the bits.\<close>

definition co_get_increment_value :: "change_op \<Rightarrow> i64 option" where
  "co_get_increment_value c = (case (ob_action (co_bld c), ob_value (co_bld c)) of
     (Increment, SvInt i) \<Rightarrow> Some i | (Increment, SvUint i) \<Rightarrow> Some i | _ \<Rightarrow> None)"

definition co_prop :: "change_op \<Rightarrow> bytes option" where
  "co_prop c = (case co_key c of MapKey s \<Rightarrow> Some s | _ \<Rightarrow> None)"

record obj_info =
  oi_parent :: obj_id
  oi_type :: obj_type

definition co_obj_info :: "change_op \<Rightarrow> obj_info option" where
  "co_obj_info c = map_option (\<lambda>t. \<lparr>oi_parent = ob_obj (co_bld c), oi_type = t\<rparr>) (obj_type_of_action (ob_action (co_bld c)))"

subsection \<open>Rows of the document\<close>

text \<open>
  A row with its position; \<open>do_sub_pos\<close> is the position of its first successor in the columns of
  successors.
\<close>

record doc_op =
  do_pos :: nat
  do_id :: op_id
  do_action :: action
  do_obj :: obj_id
  do_key :: key_ref
  do_insert :: bool
  do_value :: scalar_value
  do_expand :: bool
  do_mark_name :: "bytes option"
  do_succ :: "(op_id \<times> i64 option) list"
  do_sub_pos :: nat

definition do_is_counter :: "doc_op \<Rightarrow> bool" where
  "do_is_counter d \<longleftrightarrow> (case do_value d of SvCounter _ \<Rightarrow> True | _ \<Rightarrow> False)"

definition do_visible :: "doc_op \<Rightarrow> bool" where
  "do_visible d = (if do_action d = Increment then False
     else if do_is_counter d then \<not> list_ex (\<lambda>(_, inc). inc = None) (do_succ d)
     else do_succ d = [])"

definition do_elemid_or_key :: "doc_op \<Rightarrow> key_ref" where
  "do_elemid_or_key d = (if do_insert d then SeqKey (ElemId (do_id d)) else do_key d)"

definition do_prop :: "doc_op \<Rightarrow> bytes option" where
  "do_prop d = (case do_key d of MapKey s \<Rightarrow> Some s | _ \<Rightarrow> None)"

record succ_insert =
  si_id :: op_id
  si_pos :: nat
  si_inc :: "i64 option"
  si_len :: nat
  si_sub_pos :: nat

text \<open>The loop over the successors stops at the first one that is larger; \<open>k\<close> counts those before it.\<close>

definition do_add_succ :: "doc_op \<Rightarrow> op_id \<Rightarrow> i64 option \<Rightarrow> succ_insert" where
  "do_add_succ d oid inc =
     (let inc = (if inc \<noteq> None \<and> \<not> do_is_counter d then None else inc);
          k = length (takeWhile (\<lambda>(i, _). \<not> i > oid) (do_succ d)) in
      \<lparr>si_id = oid, si_pos = do_pos d, si_inc = inc, si_len = length (do_succ d), si_sub_pos = do_sub_pos d + k\<rparr>)"

end
