(* ===== verification/Merge.thy ===== *)
theory Merge
  imports Op_Types "HOL-Library.AList" "HOL-Library.Product_Lexorder"
begin

text \<open>
  Merging the operations of a batch into the document (\<open>op_set2/change/batch.rs\<close>): the order of the
  operations of the batch, the walk over a sequence (\<open>Untangler\<close>), the walk over a map (\<open>MapWalker\<close>) and
  the insertion of the runs of operations. The walks also report patches to a log; the log and what is
  kept only for it (\<open>value\<close>, \<open>index\<close>, \<open>width\<close>, the encodings) do not influence the document and are left
  out. A failed assertion or unwrap is \<open>None\<close>. The stacks of the source grow at their end, here at the
  front. The indexes on the stacks and in the tables come from the enumeration of the operations and stay
  below their number.
\<close>

type_synonym pred_cache = "op_id \<Rightarrow> (op_id \<times> i64 option) list option"

datatype adjust = AdjustConflict nat | AdjustExpose nat

datatype top = TopNothing | TopChangeIndex nat | TopDoc nat | TopExpose nat

subsection \<open>The winning operation\<close>

definition top_reset :: "top \<Rightarrow> adjust list \<Rightarrow> top \<times> adjust list" where
  "top_reset t conflicts =
     (TopNothing, case t of TopExpose i \<Rightarrow> conflicts @ [AdjustExpose i] | _ \<Rightarrow> conflicts)"

definition mark_conflicted :: "nat \<Rightarrow> change_op list \<Rightarrow> change_op list" where
  "mark_conflicted i ops = ops[i := (ops ! i)\<lparr>co_conflicted := True\<rparr>]"

definition top_process_doc_op :: "top \<Rightarrow> change_op list \<Rightarrow> doc_op \<Rightarrow> bool \<Rightarrow> top \<times> change_op list" where
  "top_process_doc_op t ops d deleted =
     (if do_visible d
      then if deleted then (case t of TopDoc i \<Rightarrow> (TopExpose i, ops) | _ \<Rightarrow> (t, ops))
        else (TopDoc (do_pos d), case t of TopChangeIndex i \<Rightarrow> mark_conflicted i ops | _ \<Rightarrow> ops)
      else (t, ops))"

definition top_process_change_op ::
  "top \<Rightarrow> adjust list \<Rightarrow> change_op list \<Rightarrow> nat \<Rightarrow> top \<times> adjust list \<times> change_op list" where
  "top_process_change_op t conflicts ops pos =
     (if co_visible (ops ! pos)
      then (TopChangeIndex pos,
        case t of TopDoc i \<Rightarrow> conflicts @ [AdjustConflict i] | _ \<Rightarrow> conflicts,
        case t of TopChangeIndex i \<Rightarrow> mark_conflicted i ops | _ \<Rightarrow> ops)
      else (t, conflicts, ops))"

subsection \<open>The walk over a sequence\<close>

record untangler =
  ut_change_ops :: "change_op list"
  ut_entry :: "(op_id \<times> nat list) list"
  ut_gosub :: "nat \<Rightarrow> nat list option"
  ut_stack :: "nat list"
  ut_updates :: "elem_id \<Rightarrow> nat list option"
  ut_updates_stack :: "nat list"
  ut_pred :: pred_cache
  ut_top :: top
  ut_conflicts :: "adjust list"
  ut_count :: nat
  ut_max :: nat

definition push_at :: "'k \<Rightarrow> 'v \<Rightarrow> ('k \<Rightarrow> 'v list option) \<Rightarrow> 'k \<Rightarrow> 'v list option" where
  "push_at k v m = m(k \<mapsto> (case m k of Some vs \<Rightarrow> vs | None \<Rightarrow> []) @ [v])"

text \<open>The entry points are an association list: the end of the walk asks whether any is left.\<close>

definition push_entry :: "'k \<Rightarrow> 'v \<Rightarrow> ('k \<times> 'v list) list \<Rightarrow> ('k \<times> 'v list) list" where
  "push_entry k v m = AList.update k ((case map_of m k of Some vs \<Rightarrow> vs | None \<Rightarrow> []) @ [v]) m"

definition take_pred :: "change_op \<Rightarrow> pred_cache \<Rightarrow> change_op \<times> pred_cache" where
  "take_pred c pred = (case pred (co_id c) of
     Some v \<Rightarrow> (c\<lparr>co_succ := v\<rparr>, pred(co_id c := None)) | None \<Rightarrow> (c, pred))"

text \<open>One round of the loop of \<open>Untangler::new\<close>: the operation \<open>i\<close> of the batch is classified.\<close>

record untangler_index =
  ix_e_to_i :: "elem_id \<Rightarrow> nat option"
  ix_gosub :: "nat \<Rightarrow> nat list option"
  ix_entry :: "(op_id \<times> nat list) list"
  ix_stack :: "nat list"
  ix_updates :: "elem_id \<Rightarrow> nat list option"
  ix_last_e :: "elem_id option"

definition index_op :: "nat \<Rightarrow> change_op \<Rightarrow> untangler_index \<Rightarrow> untangler_index" where
  "index_op i c x = (case co_key c of
     MapKey _ \<Rightarrow> x
   | SeqKey e \<Rightarrow>
       let x = (if co_insert c
                then (case ix_e_to_i x e of
                    Some j \<Rightarrow> x\<lparr>ix_gosub := push_at j i (ix_gosub x)\<rparr>
                  | None \<Rightarrow> if is_head e then x\<lparr>ix_stack := i # ix_stack x\<rparr>
                      else x\<lparr>ix_entry := push_entry (elem_op e) i (ix_entry x)\<rparr>)
                else if ix_last_e x \<noteq> Some e then x\<lparr>ix_updates := push_at e i (ix_updates x)\<rparr>
                else x)
       in if co_insert c
          then x\<lparr>ix_e_to_i := (ix_e_to_i x)(ElemId (co_id c) \<mapsto> i), ix_last_e := Some (ElemId (co_id c))\<rparr>
          else x)"

primrec index_ops ::
  "nat \<Rightarrow> change_op list \<Rightarrow> pred_cache \<Rightarrow> untangler_index \<Rightarrow> change_op list \<times> pred_cache \<times> untangler_index" where
  "index_ops i [] pred x = ([], pred, x)"
| "index_ops i (c # cs) pred x =
     (let (c, pred) = take_pred c pred;
          (cs, pred, x) = index_ops (i + 1) cs pred (index_op i c x)
      in (c # cs, pred, x))"

definition empty_index :: untangler_index where
  "empty_index = \<lparr>ix_e_to_i = Map.empty, ix_gosub = Map.empty, ix_entry = [], ix_stack = [],
     ix_updates = Map.empty, ix_last_e = None\<rparr>"

definition untangler_new :: "adjust list \<Rightarrow> change_op list \<Rightarrow> pred_cache \<Rightarrow> nat \<Rightarrow> untangler" where
  "untangler_new conflicts change_ops pred mx =
     (let (change_ops, pred, x) = index_ops 0 change_ops pred empty_index in
      \<lparr>ut_change_ops = change_ops, ut_entry = ix_entry x, ut_gosub = ix_gosub x, ut_stack = ix_stack x,
        ut_updates = ix_updates x, ut_updates_stack = [], ut_pred = pred, ut_top = TopNothing,
        ut_conflicts = conflicts, ut_count = 0, ut_max = mx\<rparr>)"

definition flush :: "untangler \<Rightarrow> untangler" where
  "flush ut = (case top_reset (ut_top ut) (ut_conflicts ut) of
     (t, conflicts) \<Rightarrow> ut\<lparr>ut_top := t, ut_conflicts := conflicts\<rparr>)"

text \<open>Setting \<open>pos\<close> and \<open>subsort\<close> of an operation, and counting it.\<close>

definition place :: "nat \<Rightarrow> nat \<Rightarrow> untangler \<Rightarrow> untangler" where
  "place i p ut = ut\<lparr>ut_change_ops := (ut_change_ops ut)[i := (ut_change_ops ut ! i)
     \<lparr>co_pos := Some p, co_subsort := ut_count ut\<rparr>], ut_count := ut_count ut + 1\<rparr>"

text \<open>The successors that a predecessor table holds for a row; \<open>True\<close> if one of them deletes it.\<close>

definition process_pred ::
  "doc_op \<Rightarrow> pred_cache \<Rightarrow> succ_insert list \<Rightarrow> bool \<times> pred_cache \<times> succ_insert list" where
  "process_pred d pred succ = (case pred (do_id d) of
     Some v \<Rightarrow> (list_ex (\<lambda>(_, inc). inc = None) v, pred(do_id d := None),
       succ @ map (\<lambda>(oid, inc). do_add_succ d oid inc) v)
   | None \<Rightarrow> (False, pred, succ))"

definition handle_doc_op :: "doc_op \<Rightarrow> untangler \<times> succ_insert list \<Rightarrow> untangler \<times> succ_insert list" where
  "handle_doc_op d s = (case s of (ut, succ) \<Rightarrow>
     let (deleted, pred, succ) = process_pred d (ut_pred ut) succ;
         ut = ut\<lparr>ut_pred := pred\<rparr>;
         ut = (if do_insert d then flush ut else ut);
         (t, ops) = top_process_doc_op (ut_top ut) (ut_change_ops ut) d deleted
     in (ut\<lparr>ut_top := t, ut_change_ops := ops\<rparr>, succ))"

text \<open>An update of an element is placed and may become its winning operation.\<close>

definition place_update :: "nat \<Rightarrow> nat \<Rightarrow> untangler \<Rightarrow> untangler" where
  "place_update i p ut =
     (let ut = place i p ut;
          (t, conflicts, ops) = top_process_change_op (ut_top ut) (ut_conflicts ut) (ut_change_ops ut) i
      in ut\<lparr>ut_top := t, ut_conflicts := conflicts, ut_change_ops := ops\<rparr>)"

primrec element_update_loop :: "doc_op \<Rightarrow> nat list \<Rightarrow> untangler \<Rightarrow> untangler" where
  "element_update_loop d [] ut = ut\<lparr>ut_updates_stack := []\<rparr>"
| "element_update_loop d (i # is) ut =
     (if do_insert d \<or> do_id d > co_id (ut_change_ops ut ! i)
      then element_update_loop d is (place_update i (do_pos d) ut)
      else ut\<lparr>ut_updates_stack := i # is\<rparr>)"

definition element_update :: "doc_op \<Rightarrow> untangler \<Rightarrow> untangler" where
  "element_update d ut = element_update_loop d (ut_updates_stack ut) ut"

definition finish_updates :: "untangler \<Rightarrow> untangler" where
  "finish_updates ut = foldl (\<lambda>ut i. place_update i (ut_max ut) ut) ut (ut_updates_stack ut)"

text \<open>The updates that follow an inserted element in the batch go with it.\<close>

primrec inner_updates :: "key_ref \<Rightarrow> nat \<Rightarrow> nat list \<Rightarrow> nat option \<Rightarrow> untangler \<Rightarrow> untangler" where
  "inner_updates key p [] vis ut = ut"
| "inner_updates key p (i # is) vis ut =
     (if co_insert (ut_change_ops ut ! i) \<or> co_key (ut_change_ops ut ! i) \<noteq> key then ut
      else let ut = place i p ut in
        if co_is_set_or_make (ut_change_ops ut ! i) \<and> \<not> co_has_succ (ut_change_ops ut ! i)
        then inner_updates key p is (Some i) (case vis of
            Some v \<Rightarrow> ut\<lparr>ut_change_ops := mark_conflicted v (ut_change_ops ut)\<rparr> | None \<Rightarrow> ut)
        else inner_updates key p is vis ut)"

definition untangle_inner :: "nat \<Rightarrow> untangler \<Rightarrow> untangler option" where
  "untangle_inner p ut = (case ut_stack ut of
     [] \<Rightarrow> Some ut
   | i # stack \<Rightarrow>
       let ut = ut\<lparr>ut_stack := stack\<rparr>; c = ut_change_ops ut ! i in
       if \<not> i < length (ut_change_ops ut) then Some ut
       else if co_pos c \<noteq> None then None
       else let ut = place i p ut;
                vis = (if co_is_set_or_make c \<and> \<not> co_has_succ c then Some i else None);
                ut = (case ut_gosub ut i of Some v \<Rightarrow> ut\<lparr>ut_stack := rev v @ ut_stack ut\<rparr> | None \<Rightarrow> ut)
            in Some (inner_updates (SeqKey (ElemId (co_id c))) p [i + 1 ..< length (ut_change_ops ut)] vis ut))"

text \<open>The loops that untangle while the stack is longer than \<open>n\<close> end: every round places an operation.\<close>

definition unplaced :: "untangler \<Rightarrow> nat" where
  "unplaced ut = length (filter (\<lambda>c. co_pos c = None) (ut_change_ops ut))"

lemma length_filter_upd_le: "\<not> P x \<Longrightarrow> length (filter P (xs[i := x])) \<le> length (filter P xs)"
proof (induction xs arbitrary: i)
  case (Cons y ys)
  then show ?case by (cases i) (auto simp: le_SucI)
qed simp

lemma length_filter_upd_less: "\<not> P x \<Longrightarrow> i < length xs \<Longrightarrow> P (xs ! i) \<Longrightarrow> length (filter P (xs[i := x])) < length (filter P xs)"
proof (induction xs arbitrary: i)
  case (Cons y ys)
  show ?case
  proof (cases i)
    case (Suc j)
    then show ?thesis using Cons.IH [of j] Cons.prems by auto
  qed (use Cons.prems in auto)
qed simp

lemma length_filter_upd_same:
  "i < length xs \<Longrightarrow> P x = P (xs ! i) \<Longrightarrow> length (filter P (xs[i := x])) = length (filter P xs)"
proof (induction xs arbitrary: i)
  case (Cons y ys)
  then show ?case by (cases i) auto
qed simp

lemma unplaced_place: "unplaced (place i p ut) \<le> unplaced ut"
  by (simp add: unplaced_def place_def length_filter_upd_le)

lemma unplaced_place_less:
  "i < length (ut_change_ops ut) \<Longrightarrow> co_pos (ut_change_ops ut ! i) = None \<Longrightarrow> unplaced (place i p ut) < unplaced ut"
  by (simp add: unplaced_def place_def length_filter_upd_less)

lemma unplaced_mark: "unplaced (ut\<lparr>ut_change_ops := mark_conflicted v (ut_change_ops ut)\<rparr>) = unplaced ut"
  by (cases "v < length (ut_change_ops ut)")
    (simp_all add: unplaced_def mark_conflicted_def length_filter_upd_same list_update_beyond)

lemma unplaced_inner: "unplaced (inner_updates key p is vis ut) \<le> unplaced ut"
proof (induction "is" arbitrary: vis ut)
  case (Cons i "is")
  have "unplaced (inner_updates key p is v x) \<le> unplaced ut" if "unplaced x \<le> unplaced ut" for v x
    using Cons.IH that order_trans by blast
  then show ?case
    by (auto simp: Let_def unplaced_place unplaced_mark split: option.split)
qed simp

lemma untangle_inner_less:
  assumes "untangle_inner p ut = Some ut'" and "ut_stack ut \<noteq> []"
  shows "unplaced ut' < unplaced ut \<or> unplaced ut' = unplaced ut \<and> length (ut_stack ut') < length (ut_stack ut)"
proof -
  obtain i stack where st: "ut_stack ut = i # stack" using assms(2) by (cases "ut_stack ut") auto
  show ?thesis
  proof (cases "i < length (ut_change_ops ut)")
    case False
    then have "ut' = ut\<lparr>ut_stack := stack\<rparr>" using assms(1) st by (simp add: untangle_inner_def)
    then show ?thesis by (simp add: unplaced_def st)
  next
    case True
    define u where "u = place i p (ut\<lparr>ut_stack := stack\<rparr>)"
    have "co_pos (ut_change_ops ut ! i) = None" using assms(1) st True by (auto simp: untangle_inner_def Let_def split: if_splits)
    then have less: "unplaced u < unplaced ut"
      using unplaced_place_less [of i "ut\<lparr>ut_stack := stack\<rparr>" p] True by (simp add: u_def unplaced_def)
    have "unplaced (u\<lparr>ut_stack := x\<rparr>) = unplaced u" for x by (simp add: unplaced_def)
    then have "unplaced ut' \<le> unplaced u"
      using assms(1) st True
      by (auto simp: untangle_inner_def u_def Let_def split: if_splits option.splits
          intro: order_trans [OF unplaced_inner])
    with less show ?thesis by simp
  qed
qed

function untangle_while :: "nat \<Rightarrow> nat \<Rightarrow> untangler \<Rightarrow> untangler option" where
  "untangle_while n p ut =
     (if length (ut_stack ut) > n then Option.bind (untangle_inner p ut) (untangle_while n p) else Some ut)"
  by pat_completeness auto

termination
proof (relation "measures [\<lambda>(n, p, ut). unplaced ut, \<lambda>(n, p, ut). length (ut_stack ut)]", simp)
  fix n p ut ut'
  assume a: "n < length (ut_stack ut)" and s: "untangle_inner p ut = Some ut'"
  from a have "ut_stack ut \<noteq> []" by auto
  from untangle_inner_less [OF s this]
  show "((n, p, ut'), n, p, ut) \<in> measures [\<lambda>(n, p, ut). unplaced ut, \<lambda>(n, p, ut). length (ut_stack ut)]"
    by simp
qed

declare untangle_while.simps [simp del]

text \<open>The binary search of the identifier in the stack of the source, which is sorted.\<close>

definition untangle_inserts :: "op_id \<Rightarrow> nat \<Rightarrow> untangler \<Rightarrow> untangler option" where
  "untangle_inserts oid p ut =
     (let ut = flush ut;
          stack = rev (ut_stack ut);
          n = length (takeWhile (\<lambda>i. co_id (ut_change_ops ut ! i) < oid) stack) in
      Option.bind (if n < length stack \<and> co_id (ut_change_ops ut ! (stack ! n)) = oid then Some ut
                   else untangle_while n p ut) (\<lambda>ut.
      let ut = (case map_of (ut_entry ut) oid of
            Some v \<Rightarrow> ut\<lparr>ut_entry := AList.delete oid (ut_entry ut), ut_stack := rev v @ ut_stack ut\<rparr>
          | None \<Rightarrow> ut)
      in Some (case ut_updates ut (ElemId oid) of
            Some u \<Rightarrow> ut\<lparr>ut_updates_stack := u @ ut_updates_stack ut\<rparr> | None \<Rightarrow> ut)))"

text \<open>
  The last sort compares unwrapped positions; with a single operation there is nothing to compare.
\<close>

definition sort_placed :: "change_op list \<Rightarrow> change_op list option" where
  "sort_placed ops =
     (if length ops < 2 then Some ops
      else if list_ex (\<lambda>c. co_pos c = None) ops then None
      else Some (sort_key (\<lambda>c. (the (co_pos c), co_subsort c)) ops))"

definition finish :: "untangler \<Rightarrow> untangler option" where
  "finish ut =
     (let ut = flush (finish_updates ut) in
      if ut_entry ut \<noteq> [] then None
      else Option.bind (untangle_while 0 (ut_max ut) ut) (\<lambda>ut.
        let ut = flush ut in
        if ut_top ut \<noteq> TopNothing then None
        else map_option (\<lambda>ops. ut\<lparr>ut_change_ops := ops\<rparr>) (sort_placed (ut_change_ops ut))))"

primrec walk_rows :: "doc_op list \<Rightarrow> untangler \<times> succ_insert list \<Rightarrow> (untangler \<times> succ_insert list) option" where
  "walk_rows [] s = Some s"
| "walk_rows (d # ds) s = (case s of (ut, succ) \<Rightarrow>
     let ut = element_update d ut in
     Option.bind (if do_insert d then untangle_inserts (do_id d) (do_pos d) ut else Some ut) (\<lambda>ut.
     walk_rows ds (handle_doc_op d (ut, succ))))"

definition walk_list ::
  "untangler \<Rightarrow> doc_op list \<Rightarrow> succ_insert list \<Rightarrow> (untangler \<times> succ_insert list) option" where
  "walk_list ut doc_ops succ =
     Option.bind (walk_rows doc_ops (ut, succ)) (\<lambda>(ut, succ). map_option (\<lambda>ut. (ut, succ)) (finish ut))"

end
