(* ===== verification/Merge_Apply.thy ===== *)
theory Merge_Apply
  imports Merge
begin

text \<open>
  Applying the operations of a batch to the operation set (\<open>BatchApply::apply\<close> after the import): the
  order of the operations, the walk over a map (\<open>MapWalker\<close>), the walk over every object that the batch
  touches, the new successors (\<open>OpSet::add_succ\<close>) and the insertion of the runs of operations. The
  operation set is the list of its rows with the indexes \<open>visible\<close> and \<open>top\<close>; the indexes of widths and
  marks are left out, and so is the patch log. A panic is \<open>None\<close>.
\<close>

subsection \<open>The order of the operations\<close>

primrec insert_by :: "('a \<Rightarrow> 'a \<Rightarrow> ordering) \<Rightarrow> 'a \<Rightarrow> 'a list \<Rightarrow> 'a list" where
  "insert_by f x [] = [x]"
| "insert_by f x (y # ys) = (if f x y = Greater then y # insert_by f x ys else x # y # ys)"

definition sort_by :: "('a \<Rightarrow> 'a \<Rightarrow> ordering) \<Rightarrow> 'a list \<Rightarrow> 'a list" where
  "sort_by f xs = foldr (insert_by f) xs []"

definition op_cmp :: "change_op \<Rightarrow> change_op \<Rightarrow> ordering" where
  "op_cmp a b = (case compare_ord (ob_obj (co_bld a)) (ob_obj (co_bld b)) of
     Equal \<Rightarrow> (case key_partial_cmp (co_elemid_or_key a) (co_elemid_or_key b) of
         Some Less \<Rightarrow> Less | Some Greater \<Rightarrow> Greater | _ \<Rightarrow> compare_ord (co_id a) (co_id b))
   | ord \<Rightarrow> ord)"

type_synonym obj_index = "op_id \<Rightarrow> obj_info option"

definition object_type :: "obj_index \<Rightarrow> obj_id \<Rightarrow> obj_type option" where
  "object_type index obj = (if is_root obj then Some ObjMap else map_option oi_type (index (obj_op obj)))"

record obj_span =
  os_obj :: obj_id
  os_start :: nat
  os_end :: nat

definition close_span :: "obj_id option \<Rightarrow> nat \<Rightarrow> nat \<Rightarrow> obj_span list" where
  "close_span last_obj start i = (case last_obj of Some obj \<Rightarrow> [\<lparr>os_obj = obj, os_start = start, os_end = i\<rparr>] | None \<Rightarrow> [])"

definition add_preds :: "change_op \<Rightarrow> pred_cache \<Rightarrow> pred_cache" where
  "add_preds c pred = foldl (\<lambda>pred p. push_at p (co_id c, co_get_increment_value c) pred) pred (ob_pred (co_bld c))"

definition add_obj_info :: "change_op \<Rightarrow> obj_index \<Rightarrow> obj_index" where
  "add_obj_info c index = (case co_obj_info c of Some info \<Rightarrow> index(co_id c \<mapsto> info) | None \<Rightarrow> index)"

text \<open>The loop of \<open>order_ops_for_doc\<close> over the sorted operations.\<close>

primrec order_loop ::
  "nat \<Rightarrow> nat \<Rightarrow> obj_id option \<Rightarrow> change_op list \<Rightarrow> pred_cache \<Rightarrow> obj_index \<Rightarrow> obj_span list \<Rightarrow>
    pred_cache \<times> obj_index \<times> obj_span list" where
  "order_loop i start last_obj [] pred index spans = (pred, index, spans @ close_span last_obj start i)"
| "order_loop i start last_obj (c # cs) pred index spans =
     (let pred = add_preds c pred; index = add_obj_info c index; obj = ob_obj (co_bld c) in
      if Some obj \<noteq> last_obj
      then order_loop (i + 1) i (Some obj) cs pred index (spans @ close_span last_obj start i)
      else order_loop (i + 1) start last_obj cs pred index spans)"

definition order_ops_for_doc ::
  "change_op list \<Rightarrow> obj_index \<Rightarrow> change_op list \<times> pred_cache \<times> obj_index \<times> obj_span list" where
  "order_ops_for_doc ops index = (let ops = sort_by op_cmp ops in (ops, order_loop 0 0 None ops Map.empty index []))"

subsection \<open>The walk over a map\<close>

text \<open>The rows still to come, the current one first; \<open>pos\<close> of the source is its position, or the end.\<close>

record map_walker =
  mw_doc_ops :: "doc_op list"
  mw_end :: nat
  mw_pred :: pred_cache
  mw_succ :: "succ_insert list"
  mw_key :: "bytes option"
  mw_conflicts :: "adjust list"
  mw_top :: top

definition mw_pos :: "map_walker \<Rightarrow> nat" where
  "mw_pos mw = (case mw_doc_ops mw of [] \<Rightarrow> mw_end mw | d # _ \<Rightarrow> do_pos d)"

definition map_walker_new :: "doc_op list \<Rightarrow> nat \<Rightarrow> pred_cache \<Rightarrow> succ_insert list \<Rightarrow> adjust list \<Rightarrow> map_walker" where
  "map_walker_new doc_ops end_pos pred succ conflicts = \<lparr>mw_doc_ops = doc_ops, mw_end = end_pos, mw_pred = pred,
     mw_succ = succ, mw_key = None, mw_conflicts = conflicts, mw_top = TopNothing\<rparr>"

definition set_key :: "bytes option \<Rightarrow> map_walker \<Rightarrow> map_walker" where
  "set_key k mw = (if k \<noteq> mw_key mw
     then (case top_reset (mw_top mw) (mw_conflicts mw) of
       (t, conflicts) \<Rightarrow> mw\<lparr>mw_key := k, mw_top := t, mw_conflicts := conflicts\<rparr>)
     else mw)"

text \<open>A row that is passed, and the loop over the rows that come before an operation of the batch.\<close>

definition pass_doc_op :: "doc_op \<Rightarrow> change_op list \<times> map_walker \<Rightarrow> change_op list \<times> map_walker" where
  "pass_doc_op d s = (case s of (ops, mw) \<Rightarrow>
     let (deleted, pred, succ) = process_pred d (mw_pred mw) (mw_succ mw);
         mw = set_key (do_prop d) (mw\<lparr>mw_pred := pred, mw_succ := succ\<rparr>);
         (t, ops) = top_process_doc_op (mw_top mw) ops d deleted
     in (ops, mw\<lparr>mw_top := t\<rparr>))"

primrec advance_loop :: "nat \<Rightarrow> doc_op list \<Rightarrow> change_op list \<times> map_walker \<Rightarrow> change_op list \<times> map_walker" where
  "advance_loop pos [] s = (case s of (ops, mw) \<Rightarrow> (ops, mw\<lparr>mw_doc_ops := []\<rparr>))"
| "advance_loop pos (d # ds) s = (case s of (ops, mw) \<Rightarrow>
     let ord = key_partial_cmp (do_key d) (co_key (ops ! pos)) in
     if ord = Some Greater \<or> ord = Some Equal \<and> do_id d > co_id (ops ! pos) then (ops, mw\<lparr>mw_doc_ops := d # ds\<rparr>)
     else advance_loop pos ds (pass_doc_op d (ops, mw)))"

definition advance_doc_op :: "nat \<Rightarrow> change_op list \<times> map_walker \<Rightarrow> change_op list \<times> map_walker" where
  "advance_doc_op pos s = advance_loop pos (mw_doc_ops (snd s)) s"

definition mw_change_op :: "change_op list \<times> map_walker \<Rightarrow> nat \<Rightarrow> change_op list \<times> map_walker" where
  "mw_change_op s pos = (case s of (ops, mw) \<Rightarrow>
     let (c, pred) = take_pred (ops ! pos) (mw_pred mw);
         (ops, mw) = advance_doc_op pos (ops[pos := c], mw\<lparr>mw_pred := pred\<rparr>);
         mw = set_key (co_prop (ops ! pos)) mw;
         ops = ops[pos := (ops ! pos)\<lparr>co_pos := Some (mw_pos mw)\<rparr>];
         (t, conflicts, ops) = top_process_change_op (mw_top mw) (mw_conflicts mw) ops pos
     in (ops, mw\<lparr>mw_top := t, mw_conflicts := conflicts\<rparr>))"

text \<open>The rows of the last key; the first row of another key still loses its entry in the table.\<close>

primrec mw_finish_loop :: "doc_op list \<Rightarrow> change_op list \<times> map_walker \<Rightarrow> change_op list \<times> map_walker" where
  "mw_finish_loop [] s = (case s of (ops, mw) \<Rightarrow> (ops, mw\<lparr>mw_doc_ops := []\<rparr>))"
| "mw_finish_loop (d # ds) s = (case s of (ops, mw) \<Rightarrow>
     let (deleted, pred, succ) = process_pred d (mw_pred mw) (mw_succ mw);
         mw = mw\<lparr>mw_pred := pred, mw_succ := succ\<rparr> in
     if do_prop d = mw_key mw
     then let (t, ops) = top_process_doc_op (mw_top mw) ops d deleted in mw_finish_loop ds (ops, mw\<lparr>mw_top := t\<rparr>)
     else (ops, mw\<lparr>mw_doc_ops := d # ds\<rparr>))"

definition mw_finish :: "change_op list \<times> map_walker \<Rightarrow> change_op list \<times> map_walker" where
  "mw_finish s = (case mw_finish_loop (mw_doc_ops (snd s)) s of (ops, mw) \<Rightarrow>
     case top_reset (mw_top mw) (mw_conflicts mw) of (t, conflicts) \<Rightarrow>
       (ops, mw\<lparr>mw_key := None, mw_top := t, mw_conflicts := conflicts\<rparr>))"

definition walk_map :: "map_walker \<Rightarrow> change_op list \<Rightarrow> change_op list \<times> map_walker" where
  "walk_map mw ops = mw_finish (foldl mw_change_op (ops, mw) [0 ..< length ops])"

subsection \<open>The rows\<close>

record row =
  r_id :: op_id
  r_action :: action
  r_obj :: obj_id
  r_key :: key_ref
  r_insert :: bool
  r_value :: scalar_value
  r_expand :: bool
  r_mark_name :: "bytes option"
  r_succ :: "(op_id \<times> i64 option) list"
  r_visible :: bool
  r_top :: bool

definition doc_op_at :: "row list \<Rightarrow> nat \<Rightarrow> doc_op" where
  "doc_op_at rows p = (let r = rows ! p in
     \<lparr>do_pos = p, do_id = r_id r, do_action = r_action r, do_obj = r_obj r, do_key = r_key r,
       do_insert = r_insert r, do_value = r_value r, do_expand = r_expand r, do_mark_name = r_mark_name r,
       do_succ = r_succ r, do_sub_pos = sum_list (map (\<lambda>r. length (r_succ r)) (take p rows))\<rparr>)"

definition iter_range :: "row list \<Rightarrow> nat \<Rightarrow> nat \<Rightarrow> doc_op list" where
  "iter_range rows lo hi = map (doc_op_at rows) [lo ..< hi]"

text \<open>The walker over the object column seeks the rows of an object from where it stands; the column is ordered.\<close>

definition seek_to_obj :: "row list \<Rightarrow> obj_id \<Rightarrow> nat \<Rightarrow> nat \<times> nat" where
  "seek_to_obj rows obj pos =
     (let lo = pos + length (takeWhile (\<lambda>r. r_obj r < obj) (drop pos rows));
          hi = lo + length (takeWhile (\<lambda>r. r_obj r = obj) (drop lo rows)) in (lo, hi))"

definition row_of :: "change_op \<Rightarrow> row" where
  "row_of c = \<lparr>r_id = co_id c, r_action = ob_action (co_bld c), r_obj = ob_obj (co_bld c), r_key = co_key c,
     r_insert = co_insert c, r_value = ob_value (co_bld c), r_expand = ob_expand (co_bld c),
     r_mark_name = ob_mark_name (co_bld c), r_succ = co_succ c, r_visible = co_visible c,
     r_top = (\<not> co_conflicted c \<and> co_visible c)\<rparr>"

definition cols_splice :: "nat \<Rightarrow> change_op list \<Rightarrow> row list \<Rightarrow> row list" where
  "cols_splice pos ops rows = take pos rows @ map row_of (filter (\<lambda>c. ob_action (co_bld c) \<noteq> DeleteAction) ops) @ drop pos rows"

text \<open>
  The columns of successors hold the successors of all rows one after the other, and a count per row. The
  insertions are made from the last to the first; one that is no increment hides the row.
\<close>

definition list_insert :: "nat \<Rightarrow> 'a \<Rightarrow> 'a list \<Rightarrow> 'a list" where
  "list_insert i x xs = take i xs @ x # drop i xs"

record succ_columns =
  sc_count :: "nat list"
  sc_succ :: "(op_id \<times> i64 option) list"
  sc_inc :: nat
  sc_last :: "nat option"

definition add_succ_step :: "succ_columns \<Rightarrow> succ_insert \<Rightarrow> succ_columns" where
  "add_succ_step s i =
     (let n = (if sc_last s = Some (si_pos i) then sc_inc s + 1 else 1) in
      s\<lparr>sc_count := (sc_count s)[si_pos i := si_len i + n],
        sc_succ := list_insert (si_sub_pos i) (si_id i, si_inc i) (sc_succ s), sc_inc := n, sc_last := Some (si_pos i)\<rparr>)"

fun split_counts :: "nat list \<Rightarrow> 'a list \<Rightarrow> 'a list list" where
  "split_counts [] xs = []"
| "split_counts (n # ns) xs = take n xs # split_counts ns (drop n xs)"

definition hide_row :: "succ_insert list \<Rightarrow> nat \<Rightarrow> row \<Rightarrow> row" where
  "hide_row op_pos p r = (if list_ex (\<lambda>i. si_pos i = p \<and> si_inc i = None) op_pos then r\<lparr>r_visible := False, r_top := False\<rparr> else r)"

definition add_succ :: "succ_insert list \<Rightarrow> row list \<Rightarrow> row list" where
  "add_succ op_pos rows =
     (let s = foldl add_succ_step \<lparr>sc_count = map (\<lambda>r. length (r_succ r)) rows, sc_succ = concat (map r_succ rows),
           sc_inc = 0, sc_last = None\<rparr> (rev op_pos)
      in map2 (\<lambda>r v. r\<lparr>r_succ := v\<rparr>) (map2 (hide_row op_pos) [0 ..< length rows] rows) (split_counts (sc_count s) (sc_succ s)))"

text \<open>\<open>OpSet::conflict\<close> and \<open>OpSet::expose\<close>.\<close>

definition adjust_top :: "row list \<Rightarrow> adjust \<Rightarrow> row list" where
  "adjust_top rows a = (case a of
     AdjustConflict i \<Rightarrow> rows[i := (rows ! i)\<lparr>r_top := False\<rparr>]
   | AdjustExpose i \<Rightarrow> rows[i := (rows ! i)\<lparr>r_top := True\<rparr>])"

subsection \<open>The insertion of the runs\<close>

definition insert_ops :: "change_op list \<Rightarrow> nat \<Rightarrow> nat \<Rightarrow> nat \<Rightarrow> row list \<Rightarrow> nat \<times> row list" where
  "insert_ops ops pos lo hi rows =
     (let rows' = cols_splice pos (drop lo (take hi ops)) rows in (length rows' - length rows, rows'))"

record run_state =
  rs_last_pos :: "nat option"
  rs_start :: nat
  rs_shift :: nat
  rs_rows :: "row list"

definition insert_run_step :: "change_op list \<Rightarrow> run_state \<Rightarrow> nat \<Rightarrow> run_state" where
  "insert_run_step ops s i =
     (if co_pos (ops ! i) \<noteq> rs_last_pos s
      then (case rs_last_pos s of
          Some pos \<Rightarrow> (case insert_ops ops (pos + rs_shift s) (rs_start s) i (rs_rows s) of
            (n, rows) \<Rightarrow> s\<lparr>rs_shift := rs_shift s + n, rs_rows := rows, rs_start := i, rs_last_pos := co_pos (ops ! i)\<rparr>)
        | None \<Rightarrow> s\<lparr>rs_last_pos := co_pos (ops ! i)\<rparr>)
      else s)"

definition insert_runs_of_ops :: "change_op list \<Rightarrow> row list \<Rightarrow> row list" where
  "insert_runs_of_ops ops rows =
     (let s = foldl (insert_run_step ops) \<lparr>rs_last_pos = None, rs_start = 0, rs_shift = 0, rs_rows = rows\<rparr> [0 ..< length ops]
      in case rs_last_pos s of
        Some pos \<Rightarrow> snd (insert_ops ops (pos + rs_shift s) (rs_start s) (length ops) (rs_rows s)) | None \<Rightarrow> rs_rows s)"

subsection \<open>The objects of the batch\<close>

record walk_state =
  ws_ops :: "change_op list"
  ws_pred :: pred_cache
  ws_succ :: "succ_insert list"
  ws_conflicts :: "adjust list"
  ws_pos :: nat

definition set_span :: "obj_span \<Rightarrow> change_op list \<Rightarrow> change_op list \<Rightarrow> change_op list" where
  "set_span os new ops = take (os_start os) ops @ new @ drop (os_end os) ops"

definition walk_span :: "row list \<Rightarrow> obj_index \<Rightarrow> obj_span \<Rightarrow> walk_state \<Rightarrow> walk_state option" where
  "walk_span rows index os s =
     (case seek_to_obj rows (os_obj os) (ws_pos s) of (lo, hi) \<Rightarrow>
      let doc_ops = iter_range rows lo hi; change_ops = drop (os_start os) (take (os_end os) (ws_ops s)) in
      case object_type index (os_obj os) of
        Some t \<Rightarrow>
          if t = ObjMap then
            (case walk_map (map_walker_new doc_ops hi (ws_pred s) (ws_succ s) (ws_conflicts s)) change_ops of (ops, mw) \<Rightarrow>
              Some \<lparr>ws_ops = set_span os ops (ws_ops s), ws_pred = mw_pred mw, ws_succ = mw_succ mw,
                ws_conflicts = mw_conflicts mw, ws_pos = lo\<rparr>)
          else if is_sequence t then
            map_option (\<lambda>(ut, succ).
              \<lparr>ws_ops = set_span os (ut_change_ops ut) (ws_ops s), ws_pred = ut_pred ut, ws_succ = succ,
                ws_conflicts = ut_conflicts ut, ws_pos = lo\<rparr>)
              (walk_list (untangler_new (ws_conflicts s) change_ops (ws_pred s) hi) doc_ops (ws_succ s))
          else None
      | None \<Rightarrow> None)"

primrec walk_spans :: "row list \<Rightarrow> obj_index \<Rightarrow> obj_span list \<Rightarrow> walk_state \<Rightarrow> walk_state option" where
  "walk_spans rows index [] s = Some s"
| "walk_spans rows index (os # oss) s = Option.bind (walk_span rows index os s) (walk_spans rows index oss)"

definition apply_ops :: "change_op list \<Rightarrow> row list \<times> obj_index \<Rightarrow> (row list \<times> obj_index) option" where
  "apply_ops ops doc = (case doc of (rows, index) \<Rightarrow>
     case order_ops_for_doc ops index of (ops, pred, index', spans) \<Rightarrow>
     map_option (\<lambda>s. (insert_runs_of_ops (ws_ops s) (add_succ (ws_succ s) (foldl adjust_top rows (ws_conflicts s))), foldl (\<lambda>ix c. add_obj_info c ix) index (ws_ops s)))
       (walk_spans rows index' spans
         \<lparr>ws_ops = ops, ws_pred = pred, ws_succ = [], ws_conflicts = [], ws_pos = 0\<rparr>))"

subsection \<open>The order of the rows\<close>

text \<open>The check that the debug assertions of the source make (\<open>validate_op_order\<close>, \<open>Op::step\<close>).\<close>

definition r_elemid_or_key :: "row \<Rightarrow> key_ref" where
  "r_elemid_or_key r = (if r_insert r then SeqKey (ElemId (r_id r)) else r_key r)"

record op_stepper =
  st_obj :: obj_id
  st_key :: key_ref
  st_id :: op_id

definition stepper_default :: op_stepper where
  "stepper_default = \<lparr>st_obj = obj_root, st_key = MapKey [], st_id = OpId 0 0\<rparr>"

definition op_step :: "row \<Rightarrow> op_stepper \<Rightarrow> bool \<times> op_stepper" where
  "op_step r st =
     ((if r_obj r \<noteq> st_obj st then r_obj r > st_obj st
       else if r_elemid_or_key r = st_key st then r_id r > st_id st
       else (case (r_key r, st_key st) of
           (MapKey s1, MapKey s2) \<Rightarrow> s1 > s2
         | (SeqKey e1, SeqKey e2) \<Rightarrow> r_insert r \<and> (e1 = e2 \<or> ElemId (r_id r) < e2)
         | _ \<Rightarrow> False)),
      \<lparr>st_obj = r_obj r, st_key = r_elemid_or_key r, st_id = r_id r\<rparr>)"

primrec validate_loop :: "row list \<Rightarrow> op_stepper \<Rightarrow> bool" where
  "validate_loop [] st \<longleftrightarrow> True"
| "validate_loop (r # rs) st \<longleftrightarrow> (case op_step r st of (good, st') \<Rightarrow> good \<and> validate_loop rs st')"

definition validate_op_order :: "row list \<Rightarrow> bool" where
  "validate_op_order rows = validate_loop rows stepper_default"

end
