(* ===== verification/Op_Order.thy ===== *)
theory Op_Order
  imports Op_Types "HOL-Library.Multiset"
begin

text \<open>
  The specification of the order of a sequence. Its operations are taken in the order of their
  identifiers: an insertion goes directly behind the element it refers to (and that element's updates), an
  update goes behind the element and its other updates. \<open>interp\<close> computes this order. \<open>canon\<close> says
  locally when a list is in it: between an insertion and its reference there are only insertions with
  larger identifiers. The two agree, so a set of operations has one order.
\<close>

subsection \<open>Items\<close>

datatype item = Item (it_id: op_id) (it_ref: op_id) (it_insert: bool)

definition head_op :: op_id where
  "head_op = OpId 0 0"

lemma head_op_le [simp]: "head_op \<le> x"
proof -
  have "c = 0 \<or> 0 < c" for c :: u32 by (simp add: word_neq_0_conv [symmetric])
  then show ?thesis by (cases x) (auto simp: head_op_def less_eq_op_id_def)
qed

lemma not_less_head [simp]: "\<not> x < head_op"
  by (simp add: not_less)

text \<open>The element that an item belongs to.\<close>

definition elem_of :: "item \<Rightarrow> op_id" where
  "elem_of x = (if it_insert x then it_id x else it_ref x)"

definition elems :: "item list \<Rightarrow> op_id list" where
  "elems xs = map it_id (filter it_insert xs)"

lemma elems_simps [simp]: "elems [] = []" "elems (xs @ ys) = elems xs @ elems ys"
  "elems (x # xs) = (if it_insert x then it_id x # elems xs else elems xs)"
  by (simp_all add: elems_def)

lemma elems_ids: "set (elems xs) \<subseteq> it_id ` set xs"
  by (auto simp: elems_def)

definition place_item :: "item list \<Rightarrow> item \<Rightarrow> item list" where
  "place_item xs x = rev (dropWhile (\<lambda>y. elem_of y \<noteq> it_ref x) (rev xs)) @ x # rev (takeWhile (\<lambda>y. elem_of y \<noteq> it_ref x) (rev xs))"

definition interp :: "item list \<Rightarrow> item list" where
  "interp xs = foldl place_item [] (sort_key it_id xs)"

subsection \<open>The local condition\<close>

definition after :: "op_id \<Rightarrow> op_id list \<Rightarrow> op_id list" where
  "after r es = (if r = head_op then es else tl (dropWhile (\<lambda>y. y \<noteq> r) es))"

definition follows :: "item list \<Rightarrow> item \<Rightarrow> bool" where
  "follows xs x \<longleftrightarrow> it_ref x < it_id x
     \<and> (if it_insert x then (it_ref x = head_op \<or> it_ref x \<in> set (elems xs)) \<and> (\<forall>y \<in> set (after (it_ref x) (elems xs)). it_id x < y)
        else xs \<noteq> [] \<and> elem_of (last xs) = it_ref x \<and> it_id (last xs) < it_id x)"

inductive canon :: "item list \<Rightarrow> bool" where
  Nil: "canon []"
| snoc: "canon xs \<Longrightarrow> follows xs x \<Longrightarrow> canon (xs @ [x])"

inductive_cases canon_snocE: "canon (xs @ [x])"

lemma canon_snoc_iff: "canon (xs @ [x]) \<longleftrightarrow> canon xs \<and> follows xs x"
  by (auto intro: canon.intros elim!: canon_snocE)

lemma canon_prefix: "canon (xs @ ys) \<Longrightarrow> canon xs"
  by (induction ys rule: rev_induct) (auto simp: canon_snoc_iff simp flip: append_assoc)

lemma after_snoc: "r = head_op \<or> r \<in> set es \<Longrightarrow> after r (es @ [e]) = after r es @ [e]"
proof -
  have "dropWhile (\<lambda>y. y \<noteq> r) es \<noteq> []" if "r \<in> set es" using that by (auto simp: dropWhile_eq_Nil_conv)
  then show "r = head_op \<or> r \<in> set es \<Longrightarrow> after r (es @ [e]) = after r es @ [e]"
    by (auto simp: after_def dropWhile_append tl_append split: list.split)
qed

lemma after_last: "distinct (es @ [e]) \<Longrightarrow> e \<noteq> head_op \<Longrightarrow> after e (es @ [e]) = []"
proof -
  assume d: "distinct (es @ [e])" and e: "e \<noteq> head_op"
  have "dropWhile (\<lambda>y. y \<noteq> e) es = []" using d by (auto simp: dropWhile_eq_Nil_conv)
  then show ?thesis using e by (auto simp: after_def dropWhile_append)
qed

lemma after_subset: "set (after r (es @ fs)) \<subseteq> set (after r (es @ e # fs))" if "r \<noteq> e"
proof (cases "r = head_op")
  case False
  show ?thesis
  proof (cases "r \<in> set es")
    case True
    then have "dropWhile (\<lambda>y. y \<noteq> r) es \<noteq> []" by (auto simp: dropWhile_eq_Nil_conv)
    then show ?thesis using False that by (cases "dropWhile (\<lambda>y. y \<noteq> r) es") (auto simp: after_def dropWhile_append)
  next
    case notin: False
    then have "dropWhile (\<lambda>y. y \<noteq> r) es = []" by (auto simp: dropWhile_eq_Nil_conv)
    then show ?thesis using False that notin by (auto simp: after_def dropWhile_append)
  qed
qed (auto simp: after_def)

lemma after_in: "y \<in> set (after r es) \<Longrightarrow> y \<in> set es"
proof -
  have "set (tl zs) \<subseteq> set zs" for zs :: "op_id list" by (cases zs) auto
  then show "y \<in> set (after r es) \<Longrightarrow> y \<in> set es"
    by (auto simp: after_def split: if_splits dest: set_dropWhileD)
qed

lemma canon_item: "canon xs \<Longrightarrow> x \<in> set xs \<Longrightarrow> it_ref x < it_id x \<and> elem_of x \<noteq> head_op \<and> elem_of x \<in> set (elems xs)
  \<and> (\<not> it_insert x \<longrightarrow> it_ref x \<in> set (elems xs)) \<and> (it_ref x = head_op \<or> it_ref x \<in> set (elems xs))"
proof (induction xs arbitrary: x rule: rev_induct)
  case (snoc y ys)
  show ?case
  proof (cases "x = y")
    case True
    have f: "canon ys" "follows ys x" using snoc.prems(1) True by (simp_all add: canon_snoc_iff)
    show ?thesis
    proof (cases "it_insert x")
      case True
      then have "it_id x \<noteq> head_op" using f(2) by (auto simp: follows_def)
      with True f(2) \<open>x = y\<close> show ?thesis by (auto simp: follows_def elem_of_def)
    next
      case False
      then have "ys \<noteq> []" "elem_of (last ys) = it_ref x" using f(2) by (auto simp: follows_def)
      then show ?thesis using snoc.IH [OF f(1), of "last ys"] f(2) False by (auto simp: follows_def elem_of_def)
    qed
  next
    case False
    then show ?thesis using snoc by (auto simp: canon_snoc_iff)
  qed
qed simp

lemma elem_last: "canon xs \<Longrightarrow> xs \<noteq> [] \<Longrightarrow> elems xs \<noteq> [] \<and> elem_of (last xs) = last (elems xs)"
proof (induction xs rule: rev_induct)
  case (snoc x xs)
  then show ?case by (cases "it_insert x") (auto simp: canon_snoc_iff elem_of_def follows_def)
qed simp

subsection \<open>The largest item\<close>

lemma elem_of_neq:
  assumes "canon (xs @ [b])" and "distinct (map it_id (xs @ [b]))" and "r = head_op \<or> r \<in> set (elems xs)"
    and "it_insert b \<or> elem_of (last xs) \<noteq> r"
  shows "elem_of b \<noteq> r"
proof (cases "it_insert b")
  case True
  have "elem_of b \<noteq> head_op" using canon_item [OF assms(1), of b] by simp
  moreover have "it_id b \<notin> set (elems xs)" using assms(2) elems_ids [of xs] by auto
  ultimately show ?thesis using assms(3) True by (auto simp: elem_of_def)
next
  case False
  then show ?thesis using assms(1,4) by (auto simp: canon_snoc_iff follows_def elem_of_def)
qed

lemma remove_largest:
  assumes "canon (as @ x # bs)" and "distinct (map it_id (as @ x # bs))" and "\<forall>y \<in> set (as @ bs). it_id y < it_id x"
  shows "canon (as @ bs) \<and> (\<forall>b \<in> set bs. elem_of b \<noteq> it_ref x)"
  using assms
proof (induction bs rule: rev_induct)
  case Nil
  then show ?case using canon_prefix by fastforce
next
  case (snoc b bs)
  have c: "canon (as @ x # bs)" "follows (as @ x # bs) b"
    using snoc.prems(1) canon_snoc_iff [of "as @ x # bs" b] by simp_all
  have IH: "canon (as @ bs)" "\<forall>b \<in> set bs. elem_of b \<noteq> it_ref x"
    using snoc.IH [OF c(1)] snoc.prems(2,3) by auto
  have bx: "it_id b < it_id x" using snoc.prems(3) by simp
  have lst: "last (as @ x # bs) = (if bs = [] then x else last bs)" by simp
  have ins: "bs \<noteq> []" if "\<not> it_insert b"
    using c(2) bx that by (auto simp: follows_def)
  have cx: "canon (as @ [x])" using canon_prefix [of "as @ [x]" bs] c(1) by simp
  have rx: "it_ref x = head_op \<or> it_ref x \<in> set (elems (as @ x # bs))"
    using canon_item [OF c(1), of x] by simp
  have "elem_of b \<noteq> it_ref x"
  proof (rule elem_of_neq [of "as @ x # bs"])
    show "canon ((as @ x # bs) @ [b])" "distinct (map it_id ((as @ x # bs) @ [b]))"
      using snoc.prems by simp_all
    show "it_insert b \<or> elem_of (last (as @ x # bs)) \<noteq> it_ref x" using ins IH(2) by (auto simp: lst)
  qed (rule rx)
  moreover have "follows (as @ bs) b"
  proof (cases "it_insert b")
    case True
    have "it_ref b \<noteq> it_id x" using c(2) bx by (auto simp: follows_def)
    then show ?thesis
      using c(2) True after_subset [of "it_ref b" "it_id x" "elems as" "elems bs"]
      by (cases "it_insert x") (auto simp: follows_def)
  next
    case False
    then show ?thesis using c(2) ins [OF False] by (auto simp: follows_def)
  qed
  ultimately show ?case using IH canon_snoc_iff [of "as @ bs" b] by auto
qed

lemma largest_place:
  assumes "canon (as @ x # bs)" and "distinct (map it_id (as @ x # bs))" and "\<forall>y \<in> set (as @ bs). it_id y < it_id x"
  shows "place_item (as @ bs) x = as @ x # bs"
proof -
  have cx: "canon as" "follows as x"
    using canon_prefix [of "as @ [x]" bs] assms(1) by (simp_all add: canon_snoc_iff)
  have bs: "\<forall>b \<in> set bs. elem_of b \<noteq> it_ref x" using remove_largest [OF assms] by blast
  have as: "as = [] \<or> elem_of (last as) = it_ref x"
  proof (cases "it_insert x \<and> as \<noteq> []")
    case True
    have le: "\<forall>y \<in> set (elems as). it_id x > y" using assms(3) elems_ids [of as] by auto
    have last: "elems as \<noteq> []" "elem_of (last as) = last (elems as)" using elem_last [OF cx(1)] True by auto
    have emp: "after (it_ref x) (elems as) = []"
    proof (rule ccontr)
      assume "after (it_ref x) (elems as) \<noteq> []"
      then obtain y where y: "y \<in> set (after (it_ref x) (elems as))" by (meson last_in_set)
      have "y \<in> set (elems as)" using y after_in by blast
      then have "y < it_id x" using le by blast
      moreover have "it_id x < y" using y cx(2) True by (simp add: follows_def)
      ultimately show False by simp
    qed
    have "it_ref x \<noteq> head_op" using emp last(1) by (auto simp: after_def)
    moreover have "it_ref x \<in> set (elems as)" using cx(2) True \<open>it_ref x \<noteq> head_op\<close> by (auto simp: follows_def)
    moreover obtain es e where es: "elems as = es @ [e]" using last(1) by (meson rev_exhaust)
    ultimately have "e = it_ref x"
      using emp after_snoc [of "it_ref x" es e] by (cases "it_ref x \<in> set es") auto
    then show ?thesis using last(2) es by simp
  next
    case False
    then show ?thesis using cx(2) by (auto simp: follows_def)
  qed
  have tw: "takeWhile (\<lambda>y. elem_of y \<noteq> it_ref x) (rev as) = []"
    using as by (cases as rule: rev_cases) auto
  have dw: "dropWhile (\<lambda>y. elem_of y \<noteq> it_ref x) (rev as) = rev as"
    using as by (cases as rule: rev_cases) auto
  show ?thesis using bs tw dw by (simp add: place_item_def takeWhile_append dropWhile_append)
qed

lemma sort_snoc_largest:
  fixes f :: "'a \<Rightarrow> 'b::linorder"
  assumes "\<forall>y \<in> set (as @ bs). f y < f x"
  shows "sort_key f (as @ x # bs) = sort_key f (as @ bs) @ [x]"
proof -
  have ins: "insort_key f y (zs @ [x]) = insort_key f y zs @ [x]" if "f y < f x" for y zs
    using that by (induction zs) auto
  have big: "insort_key f x zs = zs @ [x]" if "\<forall>y \<in> set zs. f y < f x" for zs
    using that by (induction zs) auto
  have "sort_key f (x # bs) = sort_key f bs @ [x]" using assms by (simp add: big)
  then show ?thesis using assms by (induction as) (auto simp: ins)
qed

text \<open>A list that satisfies the local condition is the one that its operations specify.\<close>

theorem canon_interp:
  assumes "canon xs" and "distinct (map it_id xs)"
  shows "xs = interp xs"
  using assms
proof (induction "length xs" arbitrary: xs)
  case 0
  then show ?case by (simp add: interp_def)
next
  case (Suc n)
  then have ne: "xs \<noteq> []" by auto
  define m where "m = Max (it_id ` set xs)"
  have "m \<in> it_id ` set xs" using ne by (simp add: m_def)
  then obtain x where x: "x \<in> set xs" "it_id x = m" by auto
  then obtain as bs where xs: "xs = as @ x # bs" by (meson split_list)
  have lt: "\<forall>y \<in> set (as @ bs). it_id y < it_id x"
  proof
    fix y assume y: "y \<in> set (as @ bs)"
    then have "it_id y \<le> m" by (auto simp: m_def xs)
    moreover have "it_id x \<notin> it_id ` set (as @ bs)" using Suc.prems(2) unfolding xs by auto
    then have "it_id y \<noteq> it_id x" using y by (metis imageI)
    ultimately show "it_id y < it_id x" using x(2) by simp
  qed
  note c = Suc.prems [unfolded xs]
  have "canon (as @ bs)" using remove_largest [OF c lt] by blast
  then have "as @ bs = interp (as @ bs)" using Suc.hyps(1) [of "as @ bs"] Suc.hyps(2) c(2) by (simp add: xs)
  then show ?case
    using largest_place [OF c lt] by (simp add: xs interp_def sort_snoc_largest [OF lt])
qed

lemma canon_unique:
  assumes "canon xs" "canon ys" "distinct (map it_id xs)" "distinct (map it_id ys)" "set xs = set ys"
  shows "xs = ys"
proof -
  have "map it_id (sort_key it_id xs) = map it_id (sort_key it_id ys)"
    by (rule sorted_distinct_set_unique) (use assms in \<open>simp_all add: distinct_map\<close>)
  moreover have "inj_on it_id (set (sort_key it_id xs) \<union> set (sort_key it_id ys))"
    using assms(3-5) by (simp add: distinct_map)
  ultimately have "sort_key it_id xs = sort_key it_id ys" by (metis map_inj_on)
  then show ?thesis using canon_interp [OF assms(1,3)] canon_interp [OF assms(2,4)] by (simp add: interp_def)
qed

end
