(* ===== verification/Merge_List.thy ===== *)
theory Merge_List
  imports Merge Op_Order
begin

text \<open>
  The walk over a sequence puts the operations of a batch where the specification of \<open>Op_Order\<close> has them.
  This theory abstracts operations to items and characterises the tables that \<open>Untangler::new\<close> builds.
\<close>

subsection \<open>Items of operations\<close>

fun key_op :: "key_ref \<Rightarrow> op_id" where
  "key_op (SeqKey e) = elem_op e"
| "key_op (MapKey s) = head_op"

definition citem :: "change_op \<Rightarrow> item" where
  "citem c = Item (co_id c) (key_op (co_key c)) (co_insert c)"

definition ditem :: "doc_op \<Rightarrow> item" where
  "ditem d = Item (do_id d) (key_op (do_key d)) (do_insert d)"

lemma item_sel [simp]: "it_id (citem c) = co_id c" "it_ref (citem c) = key_op (co_key c)" "it_insert (citem c) = co_insert c"
  "it_id (ditem d) = do_id d" "it_ref (ditem d) = key_op (do_key d)" "it_insert (ditem d) = do_insert d"
  by (simp_all add: citem_def ditem_def)

lemma citem_bld: "co_bld c = co_bld c' \<Longrightarrow> citem c = citem c'"
  by (simp add: citem_def co_id_def co_key_def co_insert_def)

lemma citem_update [simp]: "citem (c\<lparr>co_succ := s\<rparr>) = citem c" "citem (c\<lparr>co_pos := p\<rparr>) = citem c"
  "citem (c\<lparr>co_subsort := n\<rparr>) = citem c" "citem (c\<lparr>co_conflicted := b\<rparr>) = citem c"
  by (simp_all add: citem_def co_id_def co_key_def co_insert_def)

text \<open>
  The operations of a batch on one sequence, in the order of the batch: by element and then by identifier;
  every operation is younger than what it refers to.
\<close>

definition before :: "item \<Rightarrow> item \<Rightarrow> bool" where
  "before x y \<longleftrightarrow> elem_of x < elem_of y \<or> elem_of x = elem_of y \<and> it_id x < it_id y"

definition batch_sorted :: "item list \<Rightarrow> bool" where
  "batch_sorted xs \<longleftrightarrow> sorted_wrt before xs \<and> distinct (map it_id xs) \<and> (\<forall>x \<in> set xs. it_ref x < it_id x)"

lemma batch_sorted_snoc: "batch_sorted (xs @ [x]) \<longleftrightarrow> batch_sorted xs \<and> (\<forall>y \<in> set xs. before y x)
    \<and> it_id x \<notin> it_id ` set xs \<and> it_ref x < it_id x"
  by (auto simp: batch_sorted_def sorted_wrt_append)

text \<open>The insertions behind an element and the updates of an element, by their indexes.\<close>

definition children :: "item list \<Rightarrow> op_id \<Rightarrow> nat list" where
  "children xs e = filter (\<lambda>i. it_insert (xs ! i) \<and> it_ref (xs ! i) = e) [0 ..< length xs]"

definition upds :: "item list \<Rightarrow> op_id \<Rightarrow> nat list" where
  "upds xs e = filter (\<lambda>i. \<not> it_insert (xs ! i) \<and> it_ref (xs ! i) = e) [0 ..< length xs]"

lemma filter_index_snoc:
  "filter (\<lambda>i. P ((xs @ [x]) ! i)) [0 ..< length (xs @ [x])]
    = filter (\<lambda>i. P (xs ! i)) [0 ..< length xs] @ (if P x then [length xs] else [])"
proof -
  have "filter (\<lambda>i. P ((xs @ [x]) ! i)) [0 ..< length xs] = filter (\<lambda>i. P (xs ! i)) [0 ..< length xs]"
    by (rule filter_cong) (simp_all add: nth_append)
  then show ?thesis by simp
qed

lemma children_snoc: "children (xs @ [x]) e = children xs e @ (if it_insert x \<and> it_ref x = e then [length xs] else [])"
  unfolding children_def by (rule filter_index_snoc)

lemma upds_snoc: "upds (xs @ [x]) e = upds xs e @ (if \<not> it_insert x \<and> it_ref x = e then [length xs] else [])"
  unfolding upds_def by (rule filter_index_snoc)

lemma in_children: "i \<in> set (children xs e) \<longleftrightarrow> i < length xs \<and> it_insert (xs ! i) \<and> it_ref (xs ! i) = e"
  by (auto simp: children_def)

lemma in_upds: "i \<in> set (upds xs e) \<longleftrightarrow> i < length xs \<and> \<not> it_insert (xs ! i) \<and> it_ref (xs ! i) = e"
  by (auto simp: upds_def)

lemma in_elems: "e \<in> set (elems xs) \<longleftrightarrow> (\<exists>i < length xs. it_insert (xs ! i) \<and> it_id (xs ! i) = e)"
  by (auto simp: elems_def in_set_conv_nth)

text \<open>An element of the batch comes before what refers to it, and its updates follow it at once.\<close>

lemma no_late_parent:
  assumes "batch_sorted (xs @ [x])" and "it_insert x"
  shows "children xs (it_id x) = []" and "upds xs (it_id x) = []"
proof -
  have b: "before (xs ! i) x" "it_ref (xs ! i) < it_id (xs ! i)" if "i < length xs" for i
    using batch_sorted_snoc [THEN iffD1, OF assms(1)] that by (simp_all add: batch_sorted_def)
  have ex: "elem_of x = it_id x" using assms(2) by (simp add: elem_of_def)
  show "children xs (it_id x) = []"
    using b ex by (fastforce simp: children_def filter_empty_conv before_def elem_of_def)
  show "upds xs (it_id x) = []"
    using b ex by (fastforce simp: upds_def filter_empty_conv before_def elem_of_def)
qed

lemma elems_sorted: "batch_sorted xs \<Longrightarrow> sorted_wrt (<) (elems xs)"
proof (induction xs rule: rev_induct)
  case (snoc x xs)
  then have b: "batch_sorted xs" "\<forall>y \<in> set xs. before y x" by (auto simp: batch_sorted_snoc)
  show ?case
  proof (cases "it_insert x")
    case True
    have "it_id y < it_id x" if "y \<in> set xs" "it_insert y" for y
      using b(2) that True by (auto simp: before_def elem_of_def)
    then have "\<forall>e \<in> set (elems xs). e < it_id x" by (auto simp: elems_def)
    then show ?thesis using snoc.IH [OF b(1)] True by (simp add: sorted_wrt_append)
  qed (use snoc.IH [OF b(1)] in simp)
qed simp

lemma last_elem_iff:
  assumes "batch_sorted (xs @ [x])" and "\<not> it_insert x"
  shows "it_ref x \<in> set (elems xs) \<longleftrightarrow> elems xs \<noteq> [] \<and> last (elems xs) = it_ref x"
proof
  assume r: "it_ref x \<in> set (elems xs)"
  have so: "sorted_wrt (<) (elems xs)" using assms(1) by (auto simp: batch_sorted_snoc intro: elems_sorted)
  have le: "e \<le> it_ref x" if "e \<in> set (elems xs)" for e
  proof -
    obtain y where "y \<in> set xs" "it_insert y" "it_id y = e" using \<open>e \<in> set (elems xs)\<close> unfolding elems_def by fastforce
    then show ?thesis using assms by (auto simp: batch_sorted_snoc before_def elem_of_def)
  qed
  obtain es e where es: "elems xs = es @ [e]" using r by (metis empty_iff list.set(1) rev_exhaust)
  then have "e \<le> it_ref x" using le by simp
  moreover have "it_ref x \<le> e" using r so es by (auto simp: sorted_wrt_append)
  ultimately show "elems xs \<noteq> [] \<and> last (elems xs) = it_ref x" using es by simp
next
  assume "elems xs \<noteq> [] \<and> last (elems xs) = it_ref x"
  then show "it_ref x \<in> set (elems xs)" by (metis last_in_set)
qed

subsection \<open>The tables\<close>

definition table :: "'a list \<Rightarrow> 'a list option" where
  "table xs = (if xs = [] then None else Some xs)"

lemma table_simps [simp]: "table [] = None" "xs \<noteq> [] \<Longrightarrow> table xs = Some xs" "table xs = Some ys \<longleftrightarrow> xs = ys \<and> ys \<noteq> []"
  "table xs = None \<longleftrightarrow> xs = []"
  by (auto simp: table_def)

lemma push_at_table: "push_at k v m k' = (if k' = k then Some ((case m k of Some vs \<Rightarrow> vs | None \<Rightarrow> []) @ [v]) else m k')"
  by (simp add: push_at_def)

lemma push_entry_table: "map_of (push_entry k v m) k' = (if k' = k then Some ((case map_of m k of Some vs \<Rightarrow> vs | None \<Rightarrow> []) @ [v]) else map_of m k')"
  by (simp add: push_entry_def update_conv')

lemma case_table [simp]: "(case table xs of Some ys \<Rightarrow> ys | None \<Rightarrow> []) = xs"
  by (simp add: table_def)

lemma distinct_push_entry: "distinct (map fst m) \<Longrightarrow> distinct (map fst (push_entry k v m))"
  by (simp add: push_entry_def distinct_update)

definition index_ok :: "item list \<Rightarrow> untangler_index \<Rightarrow> bool" where
  "index_ok xs x \<longleftrightarrow>
     (\<forall>e j. ix_e_to_i x (ElemId e) = Some j \<longleftrightarrow> j < length xs \<and> it_insert (xs ! j) \<and> it_id (xs ! j) = e)
   \<and> (\<forall>j. ix_gosub x j = (if j < length xs \<and> it_insert (xs ! j) then table (children xs (it_id (xs ! j))) else None))
   \<and> ix_stack x = rev (children xs head_op)
   \<and> (\<forall>e. map_of (ix_entry x) e = (if e = head_op \<or> e \<in> set (elems xs) then None else table (children xs e)))
   \<and> distinct (map fst (ix_entry x))
   \<and> (\<forall>e. ix_updates x (ElemId e) = (if e \<in> set (elems xs) then None else table (upds xs e)))
   \<and> ix_last_e x = (if elems xs = [] then None else Some (ElemId (last (elems xs))))"

lemma index_insert:
  assumes ok: "index_ok xs x" and so: "batch_sorted (xs @ [citem c])" and key: "co_key c = SeqKey e" and ins: "co_insert c"
  shows "index_ok (xs @ [citem c]) (index_op (length xs) c x)"
proof -
  let ?n = "length xs" and ?y = "citem c" and ?x = "index_op (length xs) c x" and ?ys = "xs @ [citem c]"
  note late = no_late_parent [OF so, simplified, OF ins]
  have cid: "co_id c \<notin> it_id ` set xs" "elem_op e < co_id c" using so key by (auto simp: batch_sorted_snoc)
  then have nh: "co_id c \<noteq> head_op" by auto
  have nid: "j < ?n \<Longrightarrow> it_id (xs ! j) \<noteq> co_id c" for j using cid(1) by (metis imageI nth_mem)
  have new: "co_id c \<notin> set (elems xs)" using cid(1) elems_ids by blast
  have ei: "ix_e_to_i x (ElemId e') = Some j \<longleftrightarrow> j < ?n \<and> it_insert (xs ! j) \<and> it_id (xs ! j) = e'"
    and gs: "ix_gosub x j = (if j < ?n \<and> it_insert (xs ! j) then table (children xs (it_id (xs ! j))) else None)"
    and en: "map_of (ix_entry x) e' = (if e' = head_op \<or> e' \<in> set (elems xs) then None else table (children xs e'))"
    and up: "ix_updates x (ElemId e') = (if e' \<in> set (elems xs) then None else table (upds xs e'))" for e' j
    using ok by (simp_all add: index_ok_def)
  have st: "ix_stack x = rev (children xs head_op)" and di: "distinct (map fst (ix_entry x))"
    using ok by (simp_all add: index_ok_def)
  have ch: "children ?ys e' = children xs e' @ (if elem_op e = e' then [?n] else [])" for e'
    using key ins by (simp add: children_snoc)
  have ud: "upds ?ys e' = upds xs e'" for e' using ins by (simp add: upds_snoc)
  have nx: "ix_e_to_i ?x = (ix_e_to_i x)(ElemId (co_id c) \<mapsto> ?n)" "ix_last_e ?x = Some (ElemId (co_id c))"
    "ix_updates ?x = ix_updates x"
    "ix_gosub ?x = (case ix_e_to_i x e of Some j \<Rightarrow> push_at j ?n (ix_gosub x) | None \<Rightarrow> ix_gosub x)"
    "ix_stack ?x = (if ix_e_to_i x e = None \<and> is_head e then ?n # ix_stack x else ix_stack x)"
    "ix_entry ?x = (if ix_e_to_i x e = None \<and> \<not> is_head e then push_entry (elem_op e) ?n (ix_entry x) else ix_entry x)"
    using key ins by (auto simp: index_op_def Let_def split: option.splits)
  have e: "e = ElemId (elem_op e)" by simp
  have head: "is_head e \<longleftrightarrow> elem_op e = head_op" by (cases e) (simp add: is_head_def elem_head_def head_op_def)
  have none: "ix_e_to_i x e = None \<longleftrightarrow> elem_op e \<notin> set (elems xs)"
    using ei [of "elem_op e"] unfolding e [symmetric] in_elems by (metis not_None_eq)
  have headn: "head_op \<notin> set (elems xs)"
  proof
    assume "head_op \<in> set (elems xs)"
    then obtain y where "y \<in> set xs" "it_id y = head_op" by (auto simp: elems_def)
    then show False using so by (auto simp: batch_sorted_snoc batch_sorted_def)
  qed
  have inj: "i = j" if "i < ?n" "j < ?n" "it_id (xs ! i) = it_id (xs ! j)" for i j
    using batch_sorted_snoc [THEN iffD1, OF so] that by (auto simp: batch_sorted_def distinct_conv_nth)
  have g1: "ix_e_to_i ?x (ElemId e') = Some j \<longleftrightarrow> j < length ?ys \<and> it_insert (?ys ! j) \<and> it_id (?ys ! j) = e'" for e' j
    using ei [of e' j] nid [of j] ins by (auto simp: nx nth_append less_Suc_eq)
  have g2: "ix_gosub ?x j = (if j < length ?ys \<and> it_insert (?ys ! j) then table (children ?ys (it_id (?ys ! j))) else None)" for j
  proof (cases "j = ?n")
    case True
    have "ix_gosub x ?n = None" by (simp add: gs)
    moreover have "ix_e_to_i x e = Some k \<Longrightarrow> k \<noteq> ?n" for k using ei [of "elem_op e" k] by auto
    ultimately show ?thesis using True late(1) cid(2) ins
      by (auto simp: nx push_at_table ch split: option.split)
  next
    case False
    show ?thesis
    proof (cases "ix_e_to_i x e")
      case None
      then have "elem_op e \<noteq> it_id (xs ! j)" if "j < ?n" "it_insert (xs ! j)"
        using none that by (auto simp: in_elems)
      then show ?thesis using False None by (auto simp: nx gs ch nth_append)
    next
      case (Some k)
      then have k: "k < ?n" "it_insert (xs ! k)" "it_id (xs ! k) = elem_op e" using ei [of "elem_op e" k] by auto
      then have "elem_op e = it_id (xs ! j) \<longleftrightarrow> j = k" if "j < ?n" using inj that by metis
      then show ?thesis using False Some k by (auto simp: nx gs ch nth_append push_at_table)
    qed
  qed
  have g3: "ix_stack ?x = rev (children ?ys head_op)"
    using headn by (auto simp: nx st ch none head)
  have g4: "map_of (ix_entry ?x) e' = (if e' = head_op \<or> e' \<in> set (elems ?ys) then None else table (children ?ys e'))" for e'
    using late(1) ins nh cid(2) by (auto simp: nx en ch none head push_entry_table)
  have g5: "distinct (map fst (ix_entry ?x))" by (simp add: nx di distinct_push_entry)
  have g6: "ix_updates ?x (ElemId e') = (if e' \<in> set (elems ?ys) then None else table (upds ?ys e'))" for e'
    using late(2) ins by (auto simp: nx up ud)
  have g7: "ix_last_e ?x = (if elems ?ys = [] then None else Some (ElemId (last (elems ?ys))))"
    using ins by (simp add: nx)
  show ?thesis unfolding index_ok_def using g1 g2 g3 g4 g5 g6 g7 by blast
qed

lemma index_update:
  assumes ok: "index_ok xs x" and so: "batch_sorted (xs @ [citem c])" and key: "co_key c = SeqKey e" and ins: "\<not> co_insert c"
  shows "index_ok (xs @ [citem c]) (index_op (length xs) c x)"
proof -
  let ?n = "length xs" and ?ys = "xs @ [citem c]"
  have ch: "children ?ys e' = children xs e'" for e' using ins by (simp add: children_snoc)
  have ud: "upds ?ys e' = upds xs e' @ (if elem_op e = e' then [?n] else [])" for e'
    using key ins by (simp add: upds_snoc)
  have el: "elems ?ys = elems xs" using ins by simp
  have known: "ix_last_e x = Some e \<longleftrightarrow> elem_op e \<in> set (elems xs)"
    using last_elem_iff [OF so] ok ins key by (auto simp: index_ok_def)
  have n1: "j < length ?ys \<and> it_insert (?ys ! j) \<and> it_id (?ys ! j) = e' \<longleftrightarrow> j < ?n \<and> it_insert (xs ! j) \<and> it_id (xs ! j) = e'" for j e'
    using ins by (auto simp: nth_append less_Suc_eq)
  have n2: "(if j < length ?ys \<and> it_insert (?ys ! j) then table (children xs (it_id (?ys ! j))) else None)
      = (if j < ?n \<and> it_insert (xs ! j) then table (children xs (it_id (xs ! j))) else None)" for j
    using ins by (auto simp: nth_append less_Suc_eq)
  have up: "ix_updates x (ElemId e') = (if e' \<in> set (elems xs) then None else table (upds xs e'))" for e'
    using ok by (simp add: index_ok_def)
  have old: "\<forall>e j. ix_e_to_i x (ElemId e) = Some j \<longleftrightarrow> j < ?n \<and> it_insert (xs ! j) \<and> it_id (xs ! j) = e"
    "\<forall>j. ix_gosub x j = (if j < ?n \<and> it_insert (xs ! j) then table (children xs (it_id (xs ! j))) else None)"
    "ix_stack x = rev (children xs head_op)"
    "\<forall>e. map_of (ix_entry x) e = (if e = head_op \<or> e \<in> set (elems xs) then None else table (children xs e))"
    "distinct (map fst (ix_entry x))"
    "ix_last_e x = (if elems xs = [] then None else Some (ElemId (last (elems xs))))"
    using ok by (simp_all add: index_ok_def)
  show ?thesis
  proof (cases "ix_last_e x = Some e")
    case True
    then have x: "index_op ?n c x = x" using key ins by (simp add: index_op_def Let_def)
    have "ix_updates x (ElemId e') = (if e' \<in> set (elems ?ys) then None else table (upds ?ys e'))" for e'
      using up [of e'] True known ins by (auto simp: ud el)
    then show ?thesis
      using old unfolding index_ok_def ch n1 n2 by (simp add: el x ins)
  next
    case False
    then have x: "index_op ?n c x = x\<lparr>ix_updates := push_at e ?n (ix_updates x)\<rparr>"
      using key ins by (simp add: index_op_def Let_def)
    have "ElemId e' = e \<longleftrightarrow> elem_op e = e'" for e' by (cases e) auto
    then have "ix_updates (index_op ?n c x) (ElemId e') = (if e' \<in> set (elems ?ys) then None else table (upds ?ys e'))" for e'
      using up [of e'] up [of "elem_op e"] False known ins by (auto simp: ud el x push_at_table)
    then show ?thesis
      using old unfolding index_ok_def ch n1 n2 by (simp add: el x ins)
  qed
qed

lemma take_pred_sel: "co_bld (fst (take_pred c pred)) = co_bld c" "co_pos (fst (take_pred c pred)) = co_pos c"
  by (simp_all add: take_pred_def split: option.split)

lemma index_ops_ok:
  assumes "batch_sorted (xs @ map citem cs)" and "index_ok xs x" and "\<forall>c \<in> set cs. \<exists>e. co_key c = SeqKey e"
  shows "case index_ops (length xs) cs pred x of (cs', pred', x') \<Rightarrow>
    index_ok (xs @ map citem cs) x' \<and> map co_bld cs' = map co_bld cs \<and> map co_pos cs' = map co_pos cs"
  using assms
proof (induction cs arbitrary: xs pred x)
  case Nil
  then show ?case by simp
next
  case (Cons c cs)
  obtain c1 pred1 where t: "take_pred c pred = (c1, pred1)" by (cases "take_pred c pred")
  have c1: "co_bld c1 = co_bld c" "co_pos c1 = co_pos c" using take_pred_sel [of c pred] by (simp_all add: t)
  have it: "citem c1 = citem c" using c1(1) by (rule citem_bld)
  have key: "\<exists>e. co_key c1 = SeqKey e" using Cons.prems(3) c1(1) by (simp add: co_key_def)
  have "batch_sorted (xs @ [citem c1])"
    using Cons.prems(1) by (auto simp: it batch_sorted_def sorted_wrt_append)
  then have ok1: "index_ok (xs @ [citem c1]) (index_op (length xs) c1 x)"
    using index_insert [OF Cons.prems(2)] index_update [OF Cons.prems(2)] key by blast
  have "case index_ops (length (xs @ [citem c1])) cs pred1 (index_op (length xs) c1 x) of (cs', pred', x') \<Rightarrow>
    index_ok ((xs @ [citem c1]) @ map citem cs) x' \<and> map co_bld cs' = map co_bld cs \<and> map co_pos cs' = map co_pos cs"
    by (rule Cons.IH [OF _ ok1]) (use Cons.prems in \<open>simp_all add: it\<close>)
  then show ?case by (simp add: t c1 it split: prod.splits)
qed

lemma index_ok_empty: "index_ok [] empty_index"
  by (simp add: index_ok_def empty_index_def children_def upds_def)

end
