(* ===== verification/Merge_Walk.thy ===== *)
theory Merge_Walk
  imports Merge_List
begin

text \<open>
  The invariant of the walk over a sequence. A trace lists the rows of the document that were passed and
  the operations of the batch that were placed, in this order; it is always in the order of the
  specification, and so is what it becomes when the next row or the next operation of the stack is added.
\<close>

subsection \<open>Traces\<close>

type_synonym event = "doc_op + nat"

definition docs :: "event list \<Rightarrow> doc_op list" where
  "docs T = concat (map (\<lambda>e. case e of Inl d \<Rightarrow> [d] | Inr _ \<Rightarrow> []) T)"

definition chg :: "event list \<Rightarrow> nat list" where
  "chg T = concat (map (\<lambda>e. case e of Inl _ \<Rightarrow> [] | Inr i \<Rightarrow> [i]) T)"

lemma docs_simps [simp]: "docs [] = []" "docs (Inl d # T) = d # docs T" "docs (Inr i # T) = docs T" "docs (T @ S) = docs T @ docs S"
  "docs (map Inr is) = []"
  by (simp_all add: docs_def)

lemma chg_simps [simp]: "chg [] = []" "chg (Inl d # T) = chg T" "chg (Inr i # T) = i # chg T" "chg (T @ S) = chg T @ chg S"
  "chg (map Inr is) = is"
  by (simp_all add: chg_def) (simp add: comp_def)

lemma in_chg: "i \<in> set (chg T) \<longleftrightarrow> Inr i \<in> set T"
  by (induction T) (auto simp: chg_def split: sum.splits)

definition bitem :: "op_builder \<Rightarrow> item" where
  "bitem b = Item (ob_id b) (key_op (ob_key b)) (ob_insert b)"

lemma bitem_sel [simp]: "it_id (bitem b) = ob_id b" "it_ref (bitem b) = key_op (ob_key b)" "it_insert (bitem b) = ob_insert b"
  by (simp_all add: bitem_def)

lemma bitem_bld: "bitem (co_bld c) = citem c"
  by (simp add: bitem_def citem_def co_id_def co_key_def co_insert_def)

definition rows_at :: "nat \<Rightarrow> doc_op list \<Rightarrow> bool" where
  "rows_at start ds \<longleftrightarrow> (\<forall>k < length ds. do_pos (ds ! k) = start + k)"

lemma rows_at_pos: "rows_at start ds \<Longrightarrow> ds = docs T @ d # todo \<Longrightarrow> do_pos d = start + length (docs T)"
  unfolding rows_at_def by (drule spec [of _ "length (docs T)"]) simp

definition ev_item :: "item list \<Rightarrow> event \<Rightarrow> item" where
  "ev_item xs e = (case e of Inl d \<Rightarrow> ditem d | Inr i \<Rightarrow> xs ! i)"

lemma ev_item_simps [simp]: "ev_item xs (Inl d) = ditem d" "ev_item xs (Inr i) = xs ! i"
  by (simp_all add: ev_item_def)

abbreviation items :: "item list \<Rightarrow> event list \<Rightarrow> item list" where
  "items xs T \<equiv> map (ev_item xs) T"

subsection \<open>Placing operations\<close>

definition ops_placed :: "nat \<Rightarrow> op_builder list \<Rightarrow> event list \<Rightarrow> change_op list \<Rightarrow> bool" where
  "ops_placed start bs T ops \<longleftrightarrow> map co_bld ops = bs \<and> distinct (chg T) \<and> set (chg T) \<subseteq> {..< length bs}
     \<and> (\<forall>i < length bs. i \<notin> set (chg T) \<longrightarrow> co_pos (ops ! i) = None)
     \<and> (\<forall>T1 i T2. T = T1 @ Inr i # T2 \<longrightarrow> co_pos (ops ! i) = Some (start + length (docs T1)) \<and> co_subsort (ops ! i) = length (chg T1))"

lemma ops_placed_length: "ops_placed start bs T ops \<Longrightarrow> length ops = length bs"
  by (auto simp: ops_placed_def)

lemma ops_placed_nth: "ops_placed start bs T ops \<Longrightarrow> i < length bs \<Longrightarrow> citem (ops ! i) = map bitem bs ! i"
  by (auto simp: ops_placed_def bitem_bld)

lemma ops_placed_mark: "ops_placed start bs T (mark_conflicted v ops) = ops_placed start bs T ops"
proof (cases "v < length ops")
  case True
  have "co_pos (mark_conflicted v ops ! i) = co_pos (ops ! i)" "co_subsort (mark_conflicted v ops ! i) = co_subsort (ops ! i)" for i
    using True by (cases "i = v"; simp add: mark_conflicted_def)+
  moreover have "map co_bld (mark_conflicted v ops) = map co_bld ops"
    using True by (simp add: mark_conflicted_def map_update list_update_same_conv)
  ultimately show ?thesis by (simp add: ops_placed_def)
qed (simp add: mark_conflicted_def list_update_beyond)

lemma snoc_split: "T @ [x] = T1 @ y # T2 \<longleftrightarrow> (T2 = [] \<and> T1 = T \<and> y = x) \<or> (\<exists>T3. T2 = T3 @ [x] \<and> T = T1 @ y # T3)"
  by (cases T2 rule: rev_cases) auto

lemma ops_placed_doc: "ops_placed start bs T ops \<Longrightarrow> ops_placed start bs (T @ [Inl d]) ops"
  by (auto simp: ops_placed_def snoc_split)

lemma ops_placed_snoc:
  assumes "ops_placed start bs T ops" and "i < length bs" and "i \<notin> set (chg T)"
  shows "ops_placed start bs (T @ [Inr i]) (ops[i := (ops ! i)\<lparr>co_pos := Some (start + length (docs T)), co_subsort := length (chg T)\<rparr>])"
proof -
  let ?o = "ops[i := (ops ! i)\<lparr>co_pos := Some (start + length (docs T)), co_subsort := length (chg T)\<rparr>]"
  have len: "i < length ops" using assms(1,2) by (simp add: ops_placed_length)
  have o: "?o ! j = (if j = i then (ops ! i)\<lparr>co_pos := Some (start + length (docs T)), co_subsort := length (chg T)\<rparr> else ops ! j)" for j
    using len by simp
  have "map co_bld ?o = map co_bld ops" using len by (simp add: map_update list_update_same_conv)
  moreover have "co_pos (?o ! j) = Some (start + length (docs T1)) \<and> co_subsort (?o ! j) = length (chg T1)"
    if sp: "T @ [Inr i] = T1 @ Inr j # T2" for T1 j T2
  proof -
    consider "T1 = T" "j = i" | T3 where "T = T1 @ Inr j # T3"
      using sp unfolding snoc_split by blast
    then show ?thesis
    proof cases
      case 2
      then have "j \<noteq> i" using assms(3) by auto
      then show ?thesis using assms(1) 2 by (simp add: o ops_placed_def)
    qed (simp add: o)
  qed
  ultimately show ?thesis using assms o by (simp add: ops_placed_def)
qed

subsection \<open>The order of the trace\<close>

definition batch_ok :: "op_builder list \<Rightarrow> op_id set \<Rightarrow> bool" where
  "batch_ok bs E \<longleftrightarrow> batch_sorted (map bitem bs)
     \<and> (\<forall>b \<in> set bs. (\<exists>e. ob_key b = SeqKey e)
          \<and> (it_ref (bitem b) \<in> E \<or> it_ref (bitem b) \<in> set (elems (map bitem bs)) \<or> ob_insert b \<and> it_ref (bitem b) = head_op))"

lemma batch_sorted_of: "batch_ok bs E \<Longrightarrow> batch_sorted (map bitem bs)"
  by (simp add: batch_ok_def)

text \<open>
  What the rows still to come need: an insertion is younger than everything that the trace has behind its
  reference, an update continues its element.
\<close>

definition rows_follow :: "item list \<Rightarrow> item list \<Rightarrow> bool" where
  "rows_follow xs ys \<longleftrightarrow>
     (\<forall>y \<in> set ys. it_insert y \<longrightarrow> it_ref y = head_op \<or> it_ref y \<in> set (elems xs) \<longrightarrow> (\<forall>z \<in> set (after (it_ref y) (elems xs)). it_id y < z))
   \<and> (\<forall>y zs. ys = y # zs \<longrightarrow> \<not> it_insert y \<longrightarrow> follows xs y)"

definition trace_ok :: "op_builder list \<Rightarrow> doc_op list \<Rightarrow> event list \<Rightarrow> doc_op list \<Rightarrow> bool" where
  "trace_ok bs ds T todo \<longleftrightarrow> ds = docs T @ todo \<and> canon (map ditem ds)
     \<and> canon (items (map bitem bs) T) \<and> rows_follow (items (map bitem bs) T) (map ditem todo)
     \<and> distinct (map do_id ds @ map ob_id bs)"

lemma docs_in_items: "e \<in> set (elems (map ditem (docs T))) \<Longrightarrow> e \<in> set (elems (items xs T))"
  by (induction T) (auto simp: docs_def split: sum.splits)

lemma elems_items: "e \<in> set (elems (items xs T)) \<longleftrightarrow> e \<in> set (elems (map ditem (docs T)))
    \<or> (\<exists>i \<in> set (chg T). it_insert (xs ! i) \<and> it_id (xs ! i) = e)"
proof (induction T)
  case (Cons x T)
  then show ?case by (cases x) auto
qed simp

lemma ids_of_items: "map it_id (map bitem bs) = map ob_id bs" "map it_id (map ditem ds) = map do_id ds"
  by (simp_all add: comp_def)

lemma elems_doc_ids: "e \<in> set (elems (map ditem ds)) \<Longrightarrow> e \<in> do_id ` set ds"
  by (auto simp: elems_def)

lemma distinct_items:
  assumes "ops_placed start bs T ops" and "distinct (map do_id (docs T) @ map ob_id bs)"
  shows "distinct (map it_id (items (map bitem bs) T))"
proof -
  have c: "distinct (chg T)" "set (chg T) \<subseteq> {..< length bs}" using assms(1) by (simp_all add: ops_placed_def)
  have id: "it_id (map bitem bs ! i) = map ob_id bs ! i" if "i < length bs" for i using that by simp
  have dob: "distinct (map ob_id bs)" using assms(2) by simp
  have "distinct (map it_id (items (map bitem bs) T))"
    if "distinct (map do_id (docs T))" "do_id ` set (docs T) \<inter> ob_id ` set bs = {}" "distinct (chg T)" "set (chg T) \<subseteq> {..< length bs}"
    using that
  proof (induction T)
    case (Cons x T)
    have set: "it_id ` set (items (map bitem bs) T) \<subseteq> do_id ` set (docs T) \<union> (\<lambda>i. map ob_id bs ! i) ` set (chg T)"
      if "set (chg T) \<subseteq> {..< length bs}" for T
      using that
    proof (induction T)
      case (Cons y T)
      then show ?case by (cases y) auto
    qed simp
    show ?case
    proof (cases x)
      case (Inl d)
      have "do_id d \<notin> (\<lambda>i. map ob_id bs ! i) ` set (chg T)" using Cons.prems Inl by (auto simp: disjoint_iff)
      moreover have "do_id d \<notin> do_id ` set (docs T)" using Cons.prems(1) Inl by simp
      moreover have "set (chg T) \<subseteq> {..< length bs}" using Cons.prems(4) Inl by simp
      ultimately have "do_id d \<notin> it_id ` set (items (map bitem bs) T)" using set [of T] by blast
      moreover have "distinct (map it_id (items (map bitem bs) T))" using Cons.IH Cons.prems Inl by auto
      ultimately show ?thesis using Inl by (simp add: image_image)
    next
      case (Inr i)
      have i: "i < length bs" "i \<notin> set (chg T)" using Cons.prems Inr by auto
      have "map ob_id bs ! i \<noteq> map ob_id bs ! j" if "j \<in> set (chg T)" for j
        using i that dob Cons.prems Inr by (metis chg_simps(3) insert_subset length_map lessThan_iff list.simps(15) nth_eq_iff_index_eq subsetD)
      then have "map ob_id bs ! i \<notin> (\<lambda>i. map ob_id bs ! i) ` set (chg T)" by blast
      moreover have "map ob_id bs ! i \<in> ob_id ` set bs" using i(1) by simp
      then have "map ob_id bs ! i \<notin> do_id ` set (docs T)" using Cons.prems(2) Inr by (auto simp: disjoint_iff)
      moreover have "set (chg T) \<subseteq> {..< length bs}" using Cons.prems(4) Inr by simp
      ultimately have "map ob_id bs ! i \<notin> it_id ` set (items (map bitem bs) T)" using set [of T] by blast
      moreover have "distinct (map it_id (items (map bitem bs) T))" using Cons.IH Cons.prems Inr by auto
      ultimately show ?thesis using Inr i by (simp add: image_image)
    qed
  qed simp
  then show ?thesis using assms(2) c by auto
qed

text \<open>A row between an insertion and its reference is younger than the insertion.\<close>

lemma doc_between:
  assumes "canon (map ditem (ds1 @ d # ds2))" and "do_insert d" and "f \<in> set ds2" and "do_insert f"
    and "it_ref (ditem f) = head_op \<or> it_ref (ditem f) \<in> set (elems (map ditem ds1))"
  shows "do_id f < do_id d"
proof -
  obtain as bs where ds2: "ds2 = as @ f # bs" using assms(3) by (meson split_list)
  let ?es = "elems (map ditem ds1)" and ?fs = "elems (map ditem as)" and ?r = "it_ref (ditem f)"
  have "canon (map ditem (ds1 @ d # as) @ [ditem f])"
    using assms(1) canon_prefix [of "map ditem (ds1 @ d # as) @ [ditem f]" "map ditem bs"] by (simp add: ds2)
  then have "\<forall>y \<in> set (after ?r (?es @ do_id d # ?fs)). do_id f < y"
    using assms(2,4) by (simp only: canon_snoc_iff follows_def) simp
  moreover have "do_id d \<in> set (after ?r (?es @ do_id d # ?fs))"
  proof (cases "?r = head_op")
    case False
    then have "dropWhile (\<lambda>y. y \<noteq> ?r) ?es \<noteq> []" using assms(5) by (auto simp: dropWhile_eq_Nil_conv)
    then show ?thesis using False assms(5)
      by (cases "dropWhile (\<lambda>y. y \<noteq> ?r) ?es") (auto simp: after_def dropWhile_append)
  qed (simp add: after_def)
  ultimately show ?thesis by blast
qed

subsection \<open>Steps of the trace\<close>

lemma follows_keep:
  "follows xs y \<Longrightarrow> it_insert y \<Longrightarrow> (it_insert z \<Longrightarrow> it_id y < it_id z) \<Longrightarrow> follows (xs @ [z]) y"
  by (auto simp: follows_def after_snoc)

lemma follows_child:
  assumes "canon (xs @ [z])" "distinct (map it_id (xs @ [z]))" "it_insert z" "it_insert y" "it_ref y = it_id z" "it_ref y < it_id y"
  shows "follows (xs @ [z]) y"
proof -
  have "it_id z \<noteq> head_op" using canon_item [OF assms(1), of z] by auto
  moreover have "distinct (elems xs @ [it_id z])" using assms(2,3) elems_ids [of xs] by (auto simp: elems_def distinct_map_filter)
  ultimately show ?thesis using assms(3-6) by (auto simp: follows_def after_last)
qed

lemma follows_update:
  "\<not> it_insert y \<Longrightarrow> it_ref y < it_id y \<Longrightarrow> elem_of z = it_ref y \<Longrightarrow> it_id z < it_id y \<Longrightarrow> follows (xs @ [z]) y"
  by (simp add: follows_def)

lemma rows_follow_snoc:
  assumes "rows_follow xs ys" and "distinct (map it_id (xs @ [z]))" and "it_insert z \<Longrightarrow> it_id z \<noteq> head_op"
    and "\<And>y. y \<in> set ys \<Longrightarrow> it_insert z \<Longrightarrow> it_insert y \<Longrightarrow> it_ref y = head_op \<or> it_ref y \<in> set (elems xs) \<Longrightarrow> it_id y < it_id z"
    and "\<And>y zs. ys = y # zs \<Longrightarrow> \<not> it_insert y \<Longrightarrow> follows (xs @ [z]) y"
  shows "rows_follow (xs @ [z]) ys"
proof (cases "it_insert z")
  case True
  have "\<forall>w \<in> set (after (it_ref y) (elems (xs @ [z]))). it_id y < w"
    if y: "y \<in> set ys" "it_insert y" "it_ref y = head_op \<or> it_ref y \<in> set (elems (xs @ [z]))" for y
  proof (cases "it_ref y = head_op \<or> it_ref y \<in> set (elems xs)")
    case old: True
    then show ?thesis using assms(1) assms(4) [OF y(1) True y(2) old] y True
      by (auto simp: rows_follow_def after_snoc)
  next
    case False
    then have "it_ref y = it_id z" using y(3) True by auto
    moreover have "distinct (elems xs @ [it_id z])" using assms(2) True elems_ids [of xs] by (auto simp: elems_def distinct_map_filter)
    ultimately show ?thesis using True assms(3) by (simp add: after_last)
  qed
  then show ?thesis using assms(5) by (simp add: rows_follow_def)
next
  case False
  then show ?thesis using assms(1,5) by (simp add: rows_follow_def)
qed

lemma trace_okD:
  assumes "trace_ok bs ds T todo"
  shows "ds = docs T @ todo" "canon (map ditem ds)" "canon (items (map bitem bs) T)"
    "rows_follow (items (map bitem bs) T) (map ditem todo)" "distinct (map do_id ds @ map ob_id bs)"
  using assms unfolding trace_ok_def by blast+

text \<open>Of two insertions of the document still to come the later one is younger, if its reference was passed.\<close>

lemma waiting_younger:
  assumes tr: "trace_ok bs ds T (d # r)" and pl: "ops_placed start bs T ops" and f: "f \<in> set r" "do_insert d" "do_insert f"
    and ref: "it_ref (ditem f) = head_op \<or> it_ref (ditem f) \<in> set (elems (items (map bitem bs) T))"
  shows "do_id f < do_id d"
proof -
  note ds = trace_okD [OF tr]
  have "it_ref (ditem f) = head_op \<or> it_ref (ditem f) \<in> set (elems (map ditem (docs T)))"
  proof (rule ccontr)
    assume n: "\<not> ?thesis"
    then obtain j where "j \<in> set (chg T)" "it_insert (map bitem bs ! j)" "it_id (map bitem bs ! j) = it_ref (ditem f)"
      using ref by (auto simp: elems_items)
    moreover have "j < length bs" if "j \<in> set (chg T)" for j using pl that by (auto simp: ops_placed_def)
    ultimately have "it_ref (ditem f) \<in> ob_id ` set bs" by (metis bitem_sel(1) imageI length_map nth_map nth_mem)
    moreover have "ditem f \<in> set (map ditem ds)" using f(1) ds(1) by auto
    then have "it_ref (ditem f) \<in> do_id ` set ds"
      using canon_item [OF ds(2), of "ditem f"] n elems_doc_ids by blast
    ultimately show False using ds(5) by auto
  qed
  then show ?thesis using doc_between [of "docs T" d r f] ds(1,2) f by auto
qed

lemma trace_change:
  assumes tr: "trace_ok bs ds T todo" and pl: "ops_placed start bs T ops" and i: "i < length bs" "i \<notin> set (chg T)"
    and fo: "follows (items (map bitem bs) T) (bitem (bs ! i))"
    and ins: "ob_insert (bs ! i) \<Longrightarrow> todo = [] \<or> (\<exists>d r. todo = d # r \<and> do_insert d \<and> do_id d < ob_id (bs ! i))"
    and upd: "\<And>d r. \<not> ob_insert (bs ! i) \<Longrightarrow> todo = d # r \<Longrightarrow> \<not> do_insert d \<Longrightarrow> ob_id (bs ! i) < do_id d"
  shows "trace_ok bs ds (T @ [Inr i]) todo"
proof -
  let ?X = "items (map bitem bs) T" and ?z = "bitem (bs ! i)"
  note ds = trace_okD [OF tr]
  have it: "items (map bitem bs) (T @ [Inr i]) = ?X @ [?z]" using i(1) by simp
  have cz: "canon (?X @ [?z])" using ds(3) fo by (simp add: canon_snoc_iff)
  have "distinct (map do_id (docs (T @ [Inr i])) @ map ob_id bs)" using ds(5) unfolding ds(1) by auto
  then have dz: "distinct (map it_id (?X @ [?z]))"
    using distinct_items [OF ops_placed_snoc [OF pl i]] unfolding it by blast
  have "rows_follow (?X @ [?z]) (map ditem todo)"
  proof (rule rows_follow_snoc [OF ds(4) dz])
    show "it_insert ?z \<Longrightarrow> it_id ?z \<noteq> head_op" using canon_item [OF cz, of ?z] by (simp add: elem_of_def split: if_splits)
  next
    fix y assume y: "y \<in> set (map ditem todo)" "it_insert ?z" "it_insert y" "it_ref y = head_op \<or> it_ref y \<in> set (elems ?X)"
    then obtain f where f: "f \<in> set todo" "y = ditem f" by auto
    from ins y(2) f(1) obtain d r where d: "todo = d # r" "do_insert d" "do_id d < ob_id (bs ! i)" by auto
    then have "f \<noteq> d \<Longrightarrow> do_id f < do_id d"
      using waiting_younger [of bs ds T d r start ops f] tr pl f y(3,4) by auto
    then show "it_id y < it_id ?z" using d(3) f(2) by (cases "f = d") auto
  next
    fix y zs assume y: "map ditem todo = y # zs" "\<not> it_insert y"
    then obtain d r where d: "todo = d # r" "y = ditem d" by auto
    have fy: "follows ?X y" using ds(4) y by (auto simp: rows_follow_def)
    show "follows (?X @ [?z]) y"
    proof (cases "ob_insert (bs ! i)")
      case True
      then show ?thesis using ins d y(2) by auto
    next
      case False
      then have "elem_of ?z = it_ref y" using fo fy y(2) by (auto simp: follows_def elem_of_def)
      moreover have "it_id ?z < it_id y" using upd [OF False d(1)] y(2) d(2) by simp
      ultimately show ?thesis using fy y(2) by (auto simp: follows_def)
    qed
  qed
  then show ?thesis using ds(1,2,5) cz unfolding trace_ok_def it by simp
qed

lemma filter_ConsD: "filter P xs = y # ys \<Longrightarrow> P y"
  by (auto simp: filter_eq_Cons_iff)

lemma canon_middle: "canon (xs @ y # zs) \<Longrightarrow> follows xs y"
  using canon_prefix [of "xs @ [y]" zs] by (simp add: canon_snoc_iff)

lemma trace_follows:
  assumes tr: "trace_ok bs ds T (d # todo)"
  shows "follows (items (map bitem bs) T) (ditem d)"
proof (cases "do_insert d")
  case True
  note ds = trace_okD [OF tr]
  have "follows (map ditem (docs T)) (ditem d)" using canon_middle ds(1,2) by simp
  then show ?thesis using ds(4) True docs_in_items
    by (auto simp: rows_follow_def follows_def)
next
  case False
  then show ?thesis using trace_okD(4) [OF tr] by (auto simp: rows_follow_def)
qed

lemma trace_doc:
  assumes tr: "trace_ok bs ds T (d # todo)" and pl: "ops_placed start bs T ops"
  shows "trace_ok bs ds (T @ [Inl d]) todo"
proof -
  let ?X = "items (map bitem bs) T"
  note ds = trace_okD [OF tr]
  have cz: "canon (?X @ [ditem d])" using ds(3) trace_follows [OF tr] by (simp add: canon_snoc_iff)
  have "distinct (map do_id (docs (T @ [Inl d])) @ map ob_id bs)" using ds(5) unfolding ds(1) by auto
  then have dz: "distinct (map it_id (?X @ [ditem d]))"
    using distinct_items [OF ops_placed_doc [OF pl, of d]] by simp
  have old: "rows_follow ?X (filter it_insert (map ditem todo))"
    using ds(4) by (auto simp: rows_follow_def dest: filter_ConsD)
  have "rows_follow (?X @ [ditem d]) (map ditem todo)"
  proof -
    have "\<forall>w \<in> set (after (it_ref y) (elems (?X @ [ditem d]))). it_id y < w"
      if y: "y \<in> set (map ditem todo)" "it_insert y" "it_ref y = head_op \<or> it_ref y \<in> set (elems (?X @ [ditem d]))" for y
    proof -
      have "rows_follow (?X @ [ditem d]) (filter it_insert (map ditem todo))"
      proof (rule rows_follow_snoc [OF old dz])
        show "it_insert (ditem d) \<Longrightarrow> it_id (ditem d) \<noteq> head_op"
          using canon_item [OF cz, of "ditem d"] by (simp add: elem_of_def split: if_splits)
      next
        fix y assume "y \<in> set (filter it_insert (map ditem todo))" "it_insert (ditem d)" "it_insert y"
          "it_ref y = head_op \<or> it_ref y \<in> set (elems ?X)"
        then show "it_id y < it_id (ditem d)" using waiting_younger [OF tr pl] by auto
      qed (auto dest: filter_ConsD)
      then show ?thesis using y by (auto simp: rows_follow_def)
    qed
    moreover have "follows (?X @ [ditem d]) (ditem f)" if f: "todo = f # r" "\<not> do_insert f" for f r
    proof -
      have "follows (map ditem (docs T @ [d])) (ditem f)"
        using canon_middle [of "map ditem (docs T @ [d])" "ditem f" "map ditem r"] ds(1,2) f(1) by simp
      then show ?thesis using f(2) by (auto simp: follows_def)
    qed
    ultimately show ?thesis by (auto simp: rows_follow_def)
  qed
  then show ?thesis using ds(1,2,5) cz by (simp add: trace_ok_def)
qed

end
