(* ===== verification/Merge_Map.thy ===== *)
theory Merge_Map
  imports Merge_Apply Merge_Walk
begin

text \<open>
  The walk over a map merges the operations of the batch into the rows by key and identifier. The trace
  of \<open>Merge_Walk\<close> is used again: the rows that were passed and the operations that were placed.
\<close>

subsection \<open>Positions\<close>

definition pos_placed :: "nat \<Rightarrow> op_builder list \<Rightarrow> event list \<Rightarrow> change_op list \<Rightarrow> bool" where
  "pos_placed start bs T ops \<longleftrightarrow> map co_bld ops = bs \<and> set (chg T) \<subseteq> {..< length bs}
     \<and> (\<forall>T1 i T2. T = T1 @ Inr i # T2 \<longrightarrow> co_pos (ops ! i) = Some (start + length (docs T1)))"

lemma ops_placed_pos: "ops_placed start bs T ops \<Longrightarrow> pos_placed start bs T ops"
  by (simp add: ops_placed_def pos_placed_def)

text \<open>Only the position and what an operation is count.\<close>

definition same_places :: "change_op list \<Rightarrow> change_op list \<Rightarrow> bool" where
  "same_places ops ops' \<longleftrightarrow> map co_bld ops = map co_bld ops' \<and> map co_pos ops = map co_pos ops'"

lemma same_places_refl [simp]: "same_places ops ops"
  by (simp add: same_places_def)

lemma same_places_trans: "same_places a b \<Longrightarrow> same_places b c \<Longrightarrow> same_places a c"
  by (simp add: same_places_def)

lemma same_places_length: "same_places a b \<Longrightarrow> length a = length b"
  by (auto simp: same_places_def dest: map_eq_imp_length_eq)

lemma map_upd_same: "(map f xs)[i := f (xs ! i)] = map f xs"
  by (simp add: map_update [symmetric])

lemma same_places_upd:
  assumes "co_bld c = co_bld (ops ! i)" "co_pos c = co_pos (ops ! i)"
  shows "same_places ops (ops[i := c])"
  by (simp add: same_places_def map_update assms map_upd_same)

lemma same_places_mark: "same_places ops (mark_conflicted v ops)"
  unfolding mark_conflicted_def by (rule same_places_upd) simp_all

lemma pos_placed_same:
  assumes "pos_placed start bs T ops" "same_places ops ops'"
  shows "pos_placed start bs T ops'"
proof -
  have bld: "map co_bld ops = bs" "map co_bld ops' = bs" using assms by (simp_all add: pos_placed_def same_places_def)
  have "co_pos (ops' ! i) = co_pos (ops ! i)" if i: "i \<in> set (chg T)" for i
  proof -
    have "i < length bs" using assms(1) i by (auto simp: pos_placed_def)
    moreover have "map co_pos ops ! i = map co_pos ops' ! i" using assms(2) by (simp add: same_places_def)
    ultimately show ?thesis using arg_cong [OF bld(1), of length] arg_cong [OF bld(2), of length] by simp
  qed
  then show ?thesis using assms(1) bld(2) by (auto simp: pos_placed_def)
qed

lemma pos_placed_snoc:
  assumes "pos_placed start bs T ops" "i < length bs" "i \<notin> set (chg T)"
  shows "pos_placed start bs (T @ [Inr i]) (ops[i := (ops ! i)\<lparr>co_pos := Some (start + length (docs T))\<rparr>])"
proof -
  let ?o = "ops[i := (ops ! i)\<lparr>co_pos := Some (start + length (docs T))\<rparr>]"
  have len: "i < length ops" using assms(1,2) by (auto simp: pos_placed_def)
  have "map co_bld ?o = bs" using assms(1) map_upd_same [of co_bld ops i] by (simp add: map_update pos_placed_def)
  moreover have "co_pos (?o ! j) = Some (start + length (docs T1))" if sp: "T @ [Inr i] = T1 @ Inr j # T2" for T1 j T2
  proof -
    consider "T1 = T" "j = i" | T3 where "T = T1 @ Inr j # T3" using sp unfolding snoc_split by blast
    then show ?thesis
    proof cases
      case 1
      then show ?thesis using len by simp
    next
      case 2
      then have "j \<noteq> i" using assms(3) by auto
      then show ?thesis using assms(1) 2 by (simp add: pos_placed_def)
    qed
  qed
  ultimately show ?thesis using assms(1,2) by (simp add: pos_placed_def)
qed

lemma pos_placed_doc: "pos_placed start bs T ops \<Longrightarrow> pos_placed start bs (T @ [Inl d]) ops"
  by (auto simp: pos_placed_def snoc_split)

lemma pos_placed_docs: "pos_placed start bs T ops \<Longrightarrow> pos_placed start bs (T @ map Inl ds) ops"
proof (induction ds rule: rev_induct)
  case (snoc d ds)
  from pos_placed_doc [OF snoc.IH [OF snoc.prems], of d] show ?case by simp
qed simp

subsection \<open>Keys\<close>

fun map_key :: "key_ref \<Rightarrow> bytes" where
  "map_key (MapKey s) = s"
| "map_key (SeqKey e) = []"

definition key_id :: "key_ref \<Rightarrow> op_id \<Rightarrow> bytes \<times> op_id" where
  "key_id k i = (map_key k, i)"

lemma key_id_neq: "i \<noteq> j \<Longrightarrow> key_id k i \<noteq> key_id l j"
  by (simp add: key_id_def)

abbreviation dkey :: "doc_op \<Rightarrow> bytes \<times> op_id" where
  "dkey d \<equiv> key_id (do_key d) (do_id d)"

abbreviation bkey :: "op_builder \<Rightarrow> bytes \<times> op_id" where
  "bkey b \<equiv> key_id (ob_key b) (ob_id b)"

definition ev_key :: "op_builder list \<Rightarrow> event \<Rightarrow> bytes \<times> op_id" where
  "ev_key bs e = (case e of Inl d \<Rightarrow> dkey d | Inr i \<Rightarrow> bkey (bs ! i))"

lemma ev_key_simps [simp]: "ev_key bs (Inl d) = dkey d" "ev_key bs (Inr i) = bkey (bs ! i)"
  by (simp_all add: ev_key_def)

definition is_map_key :: "key_ref \<Rightarrow> bool" where
  "is_map_key k \<longleftrightarrow> (\<exists>s. k = MapKey s)"

definition map_ok :: "doc_op list \<Rightarrow> op_builder list \<Rightarrow> bool" where
  "map_ok ds bs \<longleftrightarrow> (\<forall>d \<in> set ds. is_map_key (do_key d)) \<and> (\<forall>b \<in> set bs. is_map_key (ob_key b))
     \<and> sorted_wrt (<) (map dkey ds) \<and> sorted_wrt (<) (map bkey bs) \<and> do_id ` set ds \<inter> ob_id ` set bs = {}"

text \<open>The test of \<open>advance_doc_op\<close>.\<close>

lemma passes_iff:
  assumes "is_map_key (do_key d)" "is_map_key (co_key c)" "do_id d \<noteq> co_id c"
  shows "key_partial_cmp (do_key d) (co_key c) = Some Greater \<or> key_partial_cmp (do_key d) (co_key c) = Some Equal \<and> do_id d > co_id c
    \<longleftrightarrow> \<not> dkey d < bkey (co_bld c)"
  using assms by (auto simp: is_map_key_def compare_ord_def key_id_def co_key_def co_id_def split: if_splits)

subsection \<open>The invariant\<close>

definition map_inv :: "nat \<Rightarrow> op_builder list \<Rightarrow> doc_op list \<Rightarrow> nat \<Rightarrow> event list \<Rightarrow> doc_op list \<Rightarrow> change_op list \<Rightarrow> bool" where
  "map_inv start bs ds k T todo ops \<longleftrightarrow> ds = docs T @ todo \<and> chg T = [0 ..< k] \<and> k \<le> length bs \<and> pos_placed start bs T ops
     \<and> sorted_wrt (<) (map (ev_key bs) T) \<and> (\<forall>e \<in> set T. \<forall>d \<in> set todo. ev_key bs e < dkey d)
     \<and> (\<forall>e \<in> set T. \<forall>i. k \<le> i \<longrightarrow> i < length bs \<longrightarrow> ev_key bs e < bkey (bs ! i))"

lemma map_inv_same: "map_inv start bs ds k T todo ops \<Longrightarrow> same_places ops ops' \<Longrightarrow> map_inv start bs ds k T todo ops'"
  using pos_placed_same by (auto simp: map_inv_def)

lemma bkey_mono: "map_ok ds bs \<Longrightarrow> i < j \<Longrightarrow> j < length bs \<Longrightarrow> bkey (bs ! i) < bkey (bs ! j)"
  using sorted_wrt_nth_less [of "(<)" "map bkey bs" i j] by (simp add: map_ok_def)

lemma map_inv_pass:
  assumes ok: "map_ok ds bs" and inv: "map_inv start bs ds k T (d # todo) ops" and k: "k < length bs" and less: "dkey d < bkey (bs ! k)"
  shows "map_inv start bs ds k (T @ [Inl d]) todo ops"
proof -
  have "sorted_wrt (<) (map dkey (docs T @ d # todo))" using ok inv by (simp add: map_ok_def map_inv_def)
  then have "\<forall>f \<in> set todo. dkey d < dkey f" by (simp add: sorted_wrt_append)
  moreover have "dkey d < bkey (bs ! i)" if "k \<le> i" "i < length bs" for i
    using less bkey_mono [OF ok, of k i] that by (cases "k = i") auto
  moreover have "pos_placed start bs (T @ [Inl d]) ops"
    using inv pos_placed_docs [of start bs T ops "[d]"] by (simp add: map_inv_def)
  ultimately show ?thesis using inv by (auto simp: map_inv_def sorted_wrt_append)
qed

lemma map_inv_place:
  assumes ok: "map_ok ds bs" and inv: "map_inv start bs ds k T todo ops" and k: "k < length bs"
    and greater: "\<And>d r. todo = d # r \<Longrightarrow> bkey (bs ! k) < dkey d"
  shows "map_inv start bs ds (Suc k) (T @ [Inr k]) todo (ops[k := (ops ! k)\<lparr>co_pos := Some (start + length (docs T))\<rparr>])"
proof -
  have so: "sorted_wrt (<) (map dkey todo)" using ok inv by (simp add: map_ok_def map_inv_def sorted_wrt_append)
  have "bkey (bs ! k) < dkey d" if "d \<in> set todo" for d
    using so greater that by (cases todo) (fastforce intro: less_trans)+
  moreover have "pos_placed start bs (T @ [Inr k]) (ops[k := (ops ! k)\<lparr>co_pos := Some (start + length (docs T))\<rparr>])"
    by (rule pos_placed_snoc) (use inv k in \<open>auto simp: map_inv_def\<close>)
  moreover have "bkey (bs ! k) < bkey (bs ! i)" if "Suc k \<le> i" "i < length bs" for i
    using bkey_mono [OF ok, of k i] that by simp
  ultimately show ?thesis using inv k by (auto simp: map_inv_def sorted_wrt_append)
qed

subsection \<open>The steps of the walk\<close>

lemma set_key_sel [simp]: "mw_doc_ops (set_key k mw) = mw_doc_ops mw" "mw_end (set_key k mw) = mw_end mw"
  by (simp_all add: set_key_def split: prod.split)

lemma pass_doc_op_sel:
  assumes "pass_doc_op d (ops, mw) = (ops', mw')"
  shows "same_places ops ops'" "mw_end mw' = mw_end mw"
proof -
  have "same_places ops (snd (top_process_doc_op t ops d del))" for t del
    by (auto simp: top_process_doc_op_def same_places_mark split: top.split)
  then show "same_places ops ops'" using assms
    by (auto simp: pass_doc_op_def Let_def split: prod.splits dest!: sndI)
  show "mw_end mw' = mw_end mw" using assms by (auto simp: pass_doc_op_def Let_def split: prod.splits)
qed

lemma advance_loop_inv:
  assumes ok: "map_ok ds bs" and inv: "map_inv start bs ds k T todo ops" and k: "k < length bs"
  shows "\<exists>T' todo' ops' mw'. advance_loop k todo (ops, mw) = (ops', mw') \<and> map_inv start bs ds k T' todo' ops' \<and> mw_doc_ops mw' = todo'
    \<and> mw_end mw' = mw_end mw \<and> (\<forall>d r. todo' = d # r \<longrightarrow> bkey (bs ! k) < dkey d)"
  using inv
proof (induction todo arbitrary: T ops mw)
  case Nil
  then show ?case by (auto intro!: exI [of _ T])
next
  case (Cons d todo)
  have bld: "map co_bld ops = bs" using Cons.prems by (simp add: map_inv_def pos_placed_def)
  then have c: "co_bld (ops ! k) = bs ! k" using k by auto
  have d: "d \<in> set ds" using Cons.prems by (simp add: map_inv_def)
  have b: "bs ! k \<in> set bs" using k by simp
  have ids: "is_map_key (do_key d)" "is_map_key (ob_key (bs ! k))" "do_id d \<noteq> ob_id (bs ! k)"
    using ok d b by (auto simp: map_ok_def disjoint_iff)
  have test: "key_partial_cmp (do_key d) (co_key (ops ! k)) = Some Greater
      \<or> key_partial_cmp (do_key d) (co_key (ops ! k)) = Some Equal \<and> do_id d > co_id (ops ! k) \<longleftrightarrow> \<not> dkey d < bkey (bs ! k)"
    using passes_iff [of d "ops ! k"] ids by (simp add: co_key_def co_id_def c)
  show ?case
  proof (cases "dkey d < bkey (bs ! k)")
    case True
    obtain ops1 mw1 where p: "pass_doc_op d (ops, mw) = (ops1, mw1)" by (cases "pass_doc_op d (ops, mw)")
    have "map_inv start bs ds k (T @ [Inl d]) todo ops1"
      using map_inv_same [OF map_inv_pass [OF ok Cons.prems k True] pass_doc_op_sel(1) [OF p]] .
    note IH = Cons.IH [OF this, of mw1]
    have "advance_loop k (d # todo) (ops, mw) = advance_loop k todo (ops1, mw1)"
      using test True p by auto
    then show ?thesis using IH pass_doc_op_sel(2) [OF p] by simp
  next
    case False
    then have "bkey (bs ! k) < dkey d" using key_id_neq [OF ids(3)] by (metis linorder_neqE)
    then show ?thesis using test False Cons.prems by (auto simp: Let_def intro!: exI [of _ T])
  qed
qed

lemma mw_change_op_inv:
  assumes ok: "map_ok ds bs" and at: "rows_at start ds" and inv: "map_inv start bs ds k T (mw_doc_ops mw) ops" and k: "k < length bs"
    and fin: "mw_end mw = start + length ds"
  shows "\<exists>T' ops' mw'. mw_change_op (ops, mw) k = (ops', mw') \<and> map_inv start bs ds (Suc k) T' (mw_doc_ops mw') ops' \<and> mw_end mw' = mw_end mw"
proof -
  obtain c pred where t: "take_pred (ops ! k) (mw_pred mw) = (c, pred)" by (cases "take_pred (ops ! k) (mw_pred mw)")
  have c: "co_bld c = co_bld (ops ! k)" "co_pos c = co_pos (ops ! k)"
    using t by (auto simp: take_pred_def split: option.splits)
  have inv1: "map_inv start bs ds k T (mw_doc_ops mw) (ops[k := c])"
    by (rule map_inv_same [OF inv same_places_upd]) (use c in auto)
  obtain T1 todo ops1 mw1 where a: "advance_loop k (mw_doc_ops mw) (ops[k := c], mw\<lparr>mw_pred := pred\<rparr>) = (ops1, mw1)"
    "map_inv start bs ds k T1 todo ops1" "mw_doc_ops mw1 = todo" "mw_end mw1 = mw_end mw" "\<forall>d r. todo = d # r \<longrightarrow> bkey (bs ! k) < dkey d"
    using advance_loop_inv [OF ok inv1 k, of "mw\<lparr>mw_pred := pred\<rparr>"] by auto
  define mw2 where "mw2 = set_key (co_prop (ops1 ! k)) mw1"
  have ds: "ds = docs T1 @ todo" using a(2) by (simp add: map_inv_def)
  have p: "mw_pos mw2 = start + length (docs T1)"
  proof (cases todo)
    case Nil
    then show ?thesis using a(3,4) fin ds by (simp add: mw_pos_def mw2_def)
  next
    case (Cons d r)
    then show ?thesis using a(3) rows_at_pos [OF at, of T1 d r] ds by (simp add: mw_pos_def mw2_def)
  qed
  let ?o = "ops1[k := (ops1 ! k)\<lparr>co_pos := Some (mw_pos mw2)\<rparr>]"
  have inv2: "map_inv start bs ds (Suc k) (T1 @ [Inr k]) todo ?o"
    unfolding p by (rule map_inv_place [OF ok a(2) k]) (use a(5) in blast)
  obtain top' conflicts ops3 where tp: "top_process_change_op (mw_top mw2) (mw_conflicts mw2) ?o k = (top', conflicts, ops3)"
    by (cases "top_process_change_op (mw_top mw2) (mw_conflicts mw2) ?o k")
  have "same_places ?o ops3"
    using tp by (auto simp: top_process_change_op_def same_places_mark split: if_splits top.splits)
  from map_inv_same [OF inv2 this] have inv3: "map_inv start bs ds (Suc k) (T1 @ [Inr k]) todo ops3" .
  have "mw_change_op (ops, mw) k = (ops3, mw2\<lparr>mw_top := top', mw_conflicts := conflicts\<rparr>)"
    by (simp add: mw_change_op_def t advance_doc_op_def a(1) Let_def mw2_def [symmetric] tp)
  then show ?thesis using inv3 a(3,4) by (auto simp: mw2_def)
qed

lemma mw_finish_loop_same: "mw_finish_loop ds (ops, mw) = (ops', mw') \<Longrightarrow> same_places ops ops'"
proof (induction ds arbitrary: ops mw)
  case (Cons d ds)
  obtain del pred succ where p: "process_pred d (mw_pred mw) (mw_succ mw) = (del, pred, succ)"
    by (cases "process_pred d (mw_pred mw) (mw_succ mw)")
  obtain t ops1 where t: "top_process_doc_op (mw_top mw) ops d del = (t, ops1)"
    by (cases "top_process_doc_op (mw_top mw) ops d del")
  have "same_places ops ops1"
    using t by (auto simp: top_process_doc_op_def same_places_mark split: if_splits top.splits)
  moreover have "do_prop d = mw_key mw \<Longrightarrow> same_places ops1 ops'" using Cons.prems Cons.IH p t by simp
  ultimately show ?case using Cons.prems p same_places_trans by (cases "do_prop d = mw_key mw") auto
qed simp

subsection \<open>The result\<close>

lemma map_inv_foldl:
  assumes ok: "map_ok ds bs" and at: "rows_at start ds" and inv: "map_inv start bs ds 0 [] (mw_doc_ops mw) ops" and fin: "mw_end mw = start + length ds"
    and k: "k \<le> length bs"
  shows "\<exists>T. case foldl mw_change_op (ops, mw) [0 ..< k] of (ops', mw') \<Rightarrow>
    map_inv start bs ds k T (mw_doc_ops mw') ops' \<and> mw_end mw' = mw_end mw"
  using k
proof (induction k)
  case 0
  then show ?case using inv by auto
next
  case (Suc k)
  obtain ops1 mw1 where f: "foldl mw_change_op (ops, mw) [0 ..< k] = (ops1, mw1)" by (cases "foldl mw_change_op (ops, mw) [0 ..< k]")
  obtain T where T: "map_inv start bs ds k T (mw_doc_ops mw1) ops1" "mw_end mw1 = mw_end mw"
    using Suc f by auto
  have "mw_end mw1 = start + length ds" using T(2) fin by simp
  from mw_change_op_inv [OF ok at T(1) _ this] Suc.prems T(2) show ?case by (fastforce simp: f)
qed

lemma walk_map_trace:
  assumes ok: "map_ok ds bs" and at: "rows_at start ds" and bs: "map co_bld cs = bs"
  shows "\<exists>T ops mw'. walk_map (map_walker_new ds (start + length ds) pred succ conflicts) cs = (ops, mw')
    \<and> docs T = ds \<and> chg T = [0 ..< length bs] \<and> pos_placed start bs T ops \<and> sorted_wrt (<) (map (ev_key bs) T)"
proof -
  let ?mw = "map_walker_new ds (start + length ds) pred succ conflicts"
  have inv: "map_inv start bs ds 0 [] (mw_doc_ops ?mw) cs"
    using bs by (simp add: map_inv_def map_walker_new_def pos_placed_def)
  have len: "length cs = length bs" using bs by auto
  obtain ops1 mw1 where f: "foldl mw_change_op (cs, ?mw) [0 ..< length bs] = (ops1, mw1)"
    by (cases "foldl mw_change_op (cs, ?mw) [0 ..< length bs]")
  obtain T where T: "map_inv start bs ds (length bs) T (mw_doc_ops mw1) ops1"
    using map_inv_foldl [OF ok at inv, of "length bs"] f by (auto simp: map_walker_new_def)
  obtain ops2 mw2 where g: "mw_finish_loop (mw_doc_ops mw1) (ops1, mw1) = (ops2, mw2)"
    by (cases "mw_finish_loop (mw_doc_ops mw1) (ops1, mw1)")
  have pl: "pos_placed start bs T ops2"
    using pos_placed_same [OF _ mw_finish_loop_same [OF g]] T by (simp add: map_inv_def)
  let ?T = "T @ map Inl (mw_doc_ops mw1)"
  have "docs (map Inl xs) = xs" "chg (map Inl xs) = []" for xs
    by (induction xs) auto
  then have "docs ?T = ds" "chg ?T = [0 ..< length bs]" using T by (simp_all add: map_inv_def)
  moreover have "sorted_wrt (<) (map (ev_key bs) ?T)"
    using T ok by (auto simp: map_inv_def map_ok_def sorted_wrt_append comp_def)
  moreover have "\<exists>mw'. walk_map ?mw cs = (ops2, mw')"
    by (auto simp: walk_map_def len f mw_finish_def g split: prod.split)
  ultimately show ?thesis using pos_placed_docs [OF pl] by blast
qed

end
