(* ===== verification/Merge_Insert.thy ===== *)
theory Merge_Insert
  imports Merge_Map
begin

text \<open>
  Inserting the runs of operations weaves them into the rows: every operation that is not a delete becomes
  a row at its position. A weaving lists the rows and the operations in their common order.
\<close>

subsection \<open>Weavings\<close>

definition lefts :: "('a + 'b) list \<Rightarrow> 'a list" where
  "lefts W = concat (map (\<lambda>e. case e of Inl d \<Rightarrow> [d] | Inr _ \<Rightarrow> []) W)"

definition rights :: "('a + 'b) list \<Rightarrow> 'b list" where
  "rights W = concat (map (\<lambda>e. case e of Inl _ \<Rightarrow> [] | Inr c \<Rightarrow> [c]) W)"

lemma lefts_simps [simp]: "lefts [] = []" "lefts (Inl d # W) = d # lefts W" "lefts (Inr c # W) = lefts W"
  "lefts (V @ W) = lefts V @ lefts W" "lefts (map Inl ds) = ds"
proof -
  show "lefts (map Inl ds) = ds" by (induction ds) (simp_all add: lefts_def)
qed (simp_all add: lefts_def)

lemma rights_simps [simp]: "rights [] = []" "rights (Inl d # W) = rights W" "rights (Inr c # W) = c # rights W"
  "rights (V @ W) = rights V @ rights W" "rights (map Inl ds) = []"
proof -
  show "rights (map Inl ds) = []" by (induction ds) (simp_all add: rights_def)
qed (simp_all add: rights_def)

lemma in_lefts: "d \<in> set (lefts W) \<longleftrightarrow> Inl d \<in> set W"
proof (induction W)
  case (Cons e W)
  then show ?case by (cases e) auto
qed simp

lemma in_rights: "c \<in> set (rights W) \<longleftrightarrow> Inr c \<in> set W"
proof (induction W)
  case (Cons e W)
  then show ?case by (cases e) auto
qed simp

type_synonym weaving = "(doc_op + change_op) list"

definition at_pos :: "nat \<Rightarrow> weaving \<Rightarrow> bool" where
  "at_pos start W \<longleftrightarrow> (\<forall>W1 c W2. W = W1 @ Inr c # W2 \<longrightarrow> co_pos c = Some (start + length (lefts W1)))"

lemma at_pos_Nil [simp]: "at_pos start []"
  by (simp add: at_pos_def)

lemma at_pos_Inl [simp]: "at_pos start (Inl d # W) = at_pos (Suc start) W"
proof
  assume a: "at_pos start (Inl d # W)"
  show "at_pos (Suc start) W"
    unfolding at_pos_def
  proof (intro allI impI)
    fix W1 c W2 assume "W = W1 @ Inr c # W2"
    then have "Inl d # W = (Inl d # W1) @ Inr c # W2" by simp
    then have "co_pos c = Some (start + length (lefts (Inl d # W1)))" using a unfolding at_pos_def by blast
    then show "co_pos c = Some (Suc start + length (lefts W1))" by simp
  qed
next
  assume a: "at_pos (Suc start) W"
  show "at_pos start (Inl d # W)"
    unfolding at_pos_def
  proof (intro allI impI)
    fix W1 c W2 assume "Inl d # W = W1 @ Inr c # W2"
    then obtain V where "W1 = Inl d # V" "W = V @ Inr c # W2" by (cases W1) auto
    then show "co_pos c = Some (start + length (lefts W1))" using a unfolding at_pos_def by fastforce
  qed
qed

lemma at_pos_Inr [simp]: "at_pos start (Inr c # W) \<longleftrightarrow> co_pos c = Some start \<and> at_pos start W"
proof
  assume a: "at_pos start (Inr c # W)"
  have "co_pos c = Some start"
    using a [unfolded at_pos_def, rule_format, of "[]" c W] by simp
  moreover have "at_pos start W"
    unfolding at_pos_def
  proof (intro allI impI)
    fix W1 x W2 assume "W = W1 @ Inr x # W2"
    then have "Inr c # W = (Inr c # W1) @ Inr x # W2" by simp
    then have "co_pos x = Some (start + length (lefts (Inr c # W1)))" using a unfolding at_pos_def by blast
    then show "co_pos x = Some (start + length (lefts W1))" by simp
  qed
  ultimately show "co_pos c = Some start \<and> at_pos start W" ..
next
  assume a: "co_pos c = Some start \<and> at_pos start W"
  show "at_pos start (Inr c # W)"
    unfolding at_pos_def
  proof (intro allI impI)
    fix W1 x W2 assume sp: "Inr c # W = W1 @ Inr x # W2"
    show "co_pos x = Some (start + length (lefts W1))"
    proof (cases W1)
      case Nil
      then show ?thesis using sp a by simp
    next
      case (Cons y V)
      then have "W1 = Inr c # V" "W = V @ Inr x # W2" using sp by simp_all
      then show ?thesis using a unfolding at_pos_def by simp
    qed
  qed
qed

lemma at_pos_append: "at_pos start (V @ W) \<longleftrightarrow> at_pos start V \<and> at_pos (start + length (lefts V)) W"
proof (induction V arbitrary: start)
  case (Cons e V)
  then show ?case by (cases e) auto
qed simp

lemma at_pos_rows [simp]: "at_pos start (map Inl ds)"
  by (induction ds arbitrary: start) simp_all

text \<open>A trace with the operations that it names.\<close>

definition weave :: "change_op list \<Rightarrow> event list \<Rightarrow> weaving" where
  "weave ops T = map (\<lambda>e. case e of Inl d \<Rightarrow> Inl d | Inr i \<Rightarrow> Inr (ops ! i)) T"

lemma weave_simps [simp]: "weave ops [] = []" "weave ops (Inl d # T) = Inl d # weave ops T" "weave ops (Inr i # T) = Inr (ops ! i) # weave ops T"
  "weave ops (S @ T) = weave ops S @ weave ops T"
  by (simp_all add: weave_def)

lemma weave_sel: "lefts (weave ops T) = docs T" "rights (weave ops T) = map ((!) ops) (chg T)"
proof (induction T)
  case (Cons e T)
  {
    case 1
    then show ?case using Cons by (cases e) simp_all
  next
    case 2
    then show ?case using Cons by (cases e) simp_all
  }
qed simp_all

lemma weave_at_pos:
  assumes "pos_placed start bs T ops"
  shows "at_pos start (weave ops T)"
proof -
  have "at_pos start (weave ops T)"
    if "\<forall>T1 i T2. T = T1 @ Inr i # T2 \<longrightarrow> co_pos (ops ! i) = Some (start + length (docs T1))"
    using that
  proof (induction T rule: rev_induct)
    case (snoc e T)
    have "\<forall>T1 i T2. T = T1 @ Inr i # T2 \<longrightarrow> co_pos (ops ! i) = Some (start + length (docs T1))"
      using snoc.prems by (auto simp: snoc_split)
    then have IH: "at_pos start (weave ops T)" by (rule snoc.IH)
    show ?case
    proof (cases e)
      case (Inl d)
      then show ?thesis using IH by (simp add: at_pos_append)
    next
      case (Inr i)
      then have "co_pos (ops ! i) = Some (start + length (docs T))" using snoc.prems by blast
      then show ?thesis using IH Inr by (simp add: at_pos_append weave_sel)
    qed
  qed simp
  then show ?thesis using assms by (simp add: pos_placed_def)
qed

subsection \<open>One operation at a time\<close>

definition is_del :: "change_op \<Rightarrow> bool" where
  "is_del c \<longleftrightarrow> ob_action (co_bld c) = DeleteAction"

abbreviation kept :: "change_op list \<Rightarrow> change_op list" where
  "kept cs \<equiv> filter (\<lambda>c. \<not> is_del c) cs"

lemma cols_splice_kept: "cols_splice pos cs rows = take pos rows @ map row_of (kept cs) @ drop pos rows"
  by (simp add: cols_splice_def is_del_def)

primrec insert_each :: "change_op list \<Rightarrow> nat \<times> row list \<Rightarrow> nat \<times> row list" where
  "insert_each [] s = s"
| "insert_each (c # cs) s = insert_each cs (fst s + length (kept [c]), cols_splice (the (co_pos c) + fst s) [c] (snd s))"

lemma insert_each_append: "insert_each (cs @ ds) s = insert_each ds (insert_each cs s)"
  by (induction cs arbitrary: s) simp_all

lemma insert_each_length:
  "\<forall>c \<in> set cs. the (co_pos c) + fst s \<le> length (snd s) \<Longrightarrow>
    length (snd (insert_each cs s)) = length (snd s) + length (kept cs) \<and> fst (insert_each cs s) = fst s + length (kept cs)"
proof (induction cs arbitrary: s)
  case (Cons c cs)
  let ?s = "(fst s + length (kept [c]), cols_splice (the (co_pos c) + fst s) [c] (snd s))"
  have l: "length (snd ?s) = length (snd s) + length (kept [c])" by (simp add: cols_splice_kept)
  have "\<forall>c \<in> set cs. the (co_pos c) + fst ?s \<le> length (snd ?s)"
    using Cons.prems unfolding l by fastforce
  from Cons.IH [OF this] l show ?case by simp
qed simp

lemma insert_each_run:
  assumes "\<forall>c \<in> set cs. co_pos c = Some p" and "p + n \<le> length rows"
  shows "insert_each cs (n, rows) = (n + length (kept cs), cols_splice (p + n) cs rows)"
  using assms
proof (induction cs arbitrary: n rows)
  case (Cons c cs)
  let ?r = "cols_splice (p + n) [c] rows"
  have "p + (n + length (kept [c])) \<le> length ?r" using Cons.prems by (simp add: cols_splice_kept)
  then have "insert_each cs (n + length (kept [c]), ?r)
      = (n + length (kept [c]) + length (kept cs), cols_splice (p + (n + length (kept [c]))) cs ?r)"
    by (intro Cons.IH) (use Cons.prems in auto)
  moreover have "cols_splice (p + (n + length (kept [c]))) cs ?r = cols_splice (p + n) (c # cs) rows"
    using Cons.prems(2) by (simp add: cols_splice_kept min_absorb2)
  ultimately show ?case using Cons.prems(1) by simp
qed (simp add: cols_splice_kept)

definition run_inv :: "change_op list \<Rightarrow> row list \<Rightarrow> nat \<Rightarrow> run_state \<Rightarrow> bool" where
  "run_inv ops rows i s \<longleftrightarrow> rs_start s \<le> i
     \<and> (rs_last_pos s = None \<longrightarrow> i = 0)
     \<and> (\<forall>j. rs_start s \<le> j \<longrightarrow> j < i \<longrightarrow> co_pos (ops ! j) = rs_last_pos s)
     \<and> (\<forall>p. rs_last_pos s = Some p \<longrightarrow> p \<le> length rows)
     \<and> insert_each (take (rs_start s) ops) (0, rows) = (rs_shift s, rs_rows s)"

lemma insert_ops_run:
  assumes inv: "run_inv ops rows i s" and p: "rs_last_pos s = Some p" and i: "i \<le> length ops"
    and bound: "\<forall>c \<in> set ops. \<exists>p. co_pos c = Some p \<and> p \<le> length rows"
  shows "case insert_ops ops (p + rs_shift s) (rs_start s) i (rs_rows s) of (n, rows') \<Rightarrow>
    insert_each (take i ops) (0, rows) = (rs_shift s + n, rows')"
proof -
  let ?g = "drop (rs_start s) (take i ops)"
  have st: "rs_start s \<le> i" and E: "insert_each (take (rs_start s) ops) (0, rows) = (rs_shift s, rs_rows s)" and pl: "p \<le> length rows"
    using inv p by (simp_all add: run_inv_def)
  have "\<forall>c \<in> set (take (rs_start s) ops). the (co_pos c) + fst (0, rows) \<le> length (snd (0 :: nat, rows))"
    using bound by (fastforce dest: in_set_takeD)
  from insert_each_length [OF this] E have len: "length (rs_rows s) = length rows + rs_shift s" by simp
  have "co_pos c = Some p" if "c \<in> set ?g" for c
  proof -
    obtain j where j: "j < length ?g" "c = ?g ! j" using \<open>c \<in> set ?g\<close> by (metis in_set_conv_nth)
    then have "c = ops ! (rs_start s + j)" "rs_start s + j < i" using i by simp_all
    then show ?thesis using inv p by (simp add: run_inv_def)
  qed
  then have "insert_each ?g (rs_shift s, rs_rows s) = (rs_shift s + length (kept ?g), cols_splice (p + rs_shift s) ?g (rs_rows s))"
    by (intro insert_each_run) (use pl len in auto)
  moreover have "take i ops = take (rs_start s) ops @ ?g"
    by (metis append_take_drop_id min.absorb1 st take_take)
  ultimately have "insert_each (take i ops) (0, rows) = (rs_shift s + length (kept ?g), cols_splice (p + rs_shift s) ?g (rs_rows s))"
    using E insert_each_append by metis
  moreover have "length (cols_splice (p + rs_shift s) ?g (rs_rows s)) - length (rs_rows s) = length (kept ?g)"
    by (simp add: cols_splice_kept)
  ultimately show ?thesis by (simp add: insert_ops_def Let_def)
qed

lemma insert_run_step_inv:
  assumes inv: "run_inv ops rows i s" and i: "i < length ops" and bound: "\<forall>c \<in> set ops. \<exists>p. co_pos c = Some p \<and> p \<le> length rows"
  shows "run_inv ops rows (Suc i) (insert_run_step ops s i)"
proof -
  obtain q where q: "co_pos (ops ! i) = Some q" "q \<le> length rows" using bound nth_mem [OF i] by blast
  show ?thesis
  proof (cases "rs_last_pos s")
    case None
    then have "i = 0" "rs_start s = 0" using inv by (auto simp: run_inv_def)
    then show ?thesis using None q inv by (simp add: insert_run_step_def run_inv_def)
  next
    case (Some p)
    show ?thesis
    proof (cases "q = p")
      case True
      then show ?thesis using Some q inv by (auto simp: insert_run_step_def run_inv_def less_Suc_eq)
    next
      case False
      obtain n rows' where io: "insert_ops ops (p + rs_shift s) (rs_start s) i (rs_rows s) = (n, rows')"
        by (cases "insert_ops ops (p + rs_shift s) (rs_start s) i (rs_rows s)")
      have "insert_each (take i ops) (0, rows) = (rs_shift s + n, rows')"
        using insert_ops_run [OF inv Some _ bound] i io by simp
      then show ?thesis using Some q False io by (auto simp: insert_run_step_def run_inv_def less_Suc_eq)
    qed
  qed
qed

lemma insert_runs_each:
  assumes bound: "\<forall>c \<in> set ops. \<exists>p. co_pos c = Some p \<and> p \<le> length rows"
  shows "insert_runs_of_ops ops rows = snd (insert_each ops (0, rows))"
proof -
  let ?s0 = "\<lparr>rs_last_pos = None, rs_start = 0, rs_shift = 0, rs_rows = rows\<rparr>"
  have inv: "run_inv ops rows k (foldl (insert_run_step ops) ?s0 [0 ..< k])" if "k \<le> length ops" for k
    using that
  proof (induction k)
    case 0
    then show ?case by (simp add: run_inv_def)
  next
    case (Suc k)
    then show ?case using insert_run_step_inv [OF _ _ bound] by simp
  qed
  define s where "s = foldl (insert_run_step ops) ?s0 [0 ..< length ops]"
  have s: "run_inv ops rows (length ops) s" unfolding s_def by (rule inv) simp
  show ?thesis
  proof (cases "rs_last_pos s")
    case None
    then have "ops = []" using s by (simp add: run_inv_def)
    moreover from this have "rs_start s = 0" using s by (simp add: run_inv_def)
    moreover note None
    ultimately show ?thesis using s by (simp add: insert_runs_of_ops_def s_def [symmetric] run_inv_def Let_def)
  next
    case (Some p)
    then show ?thesis using insert_ops_run [OF s Some _ bound]
      by (simp add: insert_runs_of_ops_def s_def [symmetric] Let_def split: prod.splits)
  qed
qed

subsection \<open>The rows after the insertion\<close>

fun weave_rows :: "row list \<Rightarrow> weaving \<Rightarrow> row list" where
  "weave_rows rs [] = rs"
| "weave_rows (r # rs) (Inl d # W) = r # weave_rows rs W"
| "weave_rows [] (Inl d # W) = weave_rows [] W"
| "weave_rows rs (Inr c # W) = (if is_del c then weave_rows rs W else row_of c # weave_rows rs W)"

lemma insert_each_weave:
  assumes "at_pos m W" and "length A = m + n" and "length (lefts W) \<le> length rs"
  shows "snd (insert_each (rights W) (n, A @ rs)) = A @ weave_rows rs W"
  using assms
proof (induction W arbitrary: m n A rs)
  case (Cons e W)
  show ?case
  proof (cases e)
    case (Inl d)
    then obtain r rs' where rs: "rs = r # rs'" using Cons.prems(3) by (cases rs) auto
    show ?thesis using Cons.IH [of "Suc m" "A @ [r]" n rs'] Cons.prems Inl rs by simp
  next
    case (Inr c)
    then have c: "co_pos c = Some m" "at_pos m W" using Cons.prems(1) by simp_all
    have "cols_splice (m + n) [c] (A @ rs) = (A @ map row_of (kept [c])) @ rs"
      using Cons.prems(2) by (simp add: cols_splice_kept)
    moreover have "snd (insert_each (rights W) (n + length (kept [c]), (A @ map row_of (kept [c])) @ rs)) = (A @ map row_of (kept [c])) @ weave_rows rs W"
      by (rule Cons.IH [OF c(2)]) (use Cons.prems Inr in auto)
    ultimately show ?thesis using Inr c(1) by simp
  qed
qed simp

lemma at_pos_bound: "at_pos m W \<Longrightarrow> c \<in> set (rights W) \<Longrightarrow> \<exists>p. co_pos c = Some p \<and> m \<le> p \<and> p \<le> m + length (lefts W)"
proof (induction W arbitrary: m)
  case (Cons e W)
  then show ?case by (cases e) fastforce+
qed simp

lemma insert_runs_weave:
  assumes "at_pos 0 W" and "length (lefts W) = length rows"
  shows "insert_runs_of_ops (rights W) rows = weave_rows rows W"
proof -
  have "\<forall>c \<in> set (rights W). \<exists>p. co_pos c = Some p \<and> p \<le> length rows"
    using at_pos_bound [OF assms(1)] assms(2) by fastforce
  from insert_runs_each [OF this] insert_each_weave [OF assms(1), of "[]" 0 rows] assms(2)
  show ?thesis by simp
qed

end
