(* ===== verification/Merge_Seq.thy ===== *)
theory Merge_Seq
  imports Merge_Walk
begin

text \<open>
  The walk over a sequence keeps its invariant, ends, and places every operation of the batch: the
  document and the batch together are in the order of the specification.
\<close>

subsection \<open>The invariant\<close>

definition stack_ok :: "op_builder list \<Rightarrow> event list \<Rightarrow> nat list \<Rightarrow> bool" where
  "stack_ok bs T S \<longleftrightarrow> sorted_wrt (\<lambda>i j. ob_id (bs ! j) < ob_id (bs ! i)) S
     \<and> (\<forall>i \<in> set S. i < length bs \<and> ob_insert (bs ! i) \<and> i \<notin> set (chg T) \<and> follows (items (map bitem bs) T) (bitem (bs ! i)))"

definition updates_ok :: "op_builder list \<Rightarrow> event list \<Rightarrow> nat list \<Rightarrow> bool" where
  "updates_ok bs T U \<longleftrightarrow> sorted_wrt (\<lambda>i j. ob_id (bs ! i) < ob_id (bs ! j)) U
     \<and> (\<forall>i \<in> set U. i < length bs \<and> \<not> ob_insert (bs ! i) \<and> i \<notin> set (chg T) \<and> follows (items (map bitem bs) T) (bitem (bs ! i)))"

definition tables_ok :: "op_builder list \<Rightarrow> doc_op list \<Rightarrow> untangler \<Rightarrow> bool" where
  "tables_ok bs todo ut \<longleftrightarrow>
     (\<forall>e. map_of (ut_entry ut) e = (if e \<in> set (elems (map ditem todo)) then table (children (map bitem bs) e) else None))
   \<and> distinct (map fst (ut_entry ut))
   \<and> (\<forall>i < length bs. ob_insert (bs ! i) \<longrightarrow> ut_gosub ut i = table (children (map bitem bs) (ob_id (bs ! i))))
   \<and> (\<forall>e. e \<notin> set (elems (map bitem bs)) \<longrightarrow> ut_updates ut (ElemId e) = table (upds (map bitem bs) e))"

text \<open>
  An operation that was not placed yet is on its stack, or will be reached from a row to come or from
  another insertion of the batch.
\<close>

definition reachable_ops :: "op_builder list \<Rightarrow> event list \<Rightarrow> doc_op list \<Rightarrow> nat list \<Rightarrow> nat list \<Rightarrow> bool" where
  "reachable_ops bs T todo S U \<longleftrightarrow> (\<forall>i < length bs. i \<notin> set (chg T) \<longrightarrow>
     (if ob_insert (bs ! i) then i \<in> set S else i \<in> set U) \<or> key_op (ob_key (bs ! i)) \<in> set (elems (map ditem todo))
     \<or> (\<exists>j < length bs. j \<notin> set (chg T) \<and> ob_insert (bs ! j) \<and> ob_id (bs ! j) = key_op (ob_key (bs ! i))))"

definition seq_inv ::
  "nat \<Rightarrow> op_builder list \<Rightarrow> doc_op list \<Rightarrow> event list \<Rightarrow> doc_op list \<Rightarrow> nat list \<Rightarrow> nat list \<Rightarrow> untangler \<Rightarrow> bool" where
  "seq_inv start bs ds T todo S U ut \<longleftrightarrow> trace_ok bs ds T todo \<and> ops_placed start bs T (ut_change_ops ut)
     \<and> ut_count ut = length (chg T) \<and> tables_ok bs todo ut \<and> stack_ok bs T S \<and> updates_ok bs T U
     \<and> reachable_ops bs T todo S U \<and> ut_stack ut = S"

lemma seq_invD:
  assumes "seq_inv start bs ds T todo S U ut"
  shows "trace_ok bs ds T todo" "ops_placed start bs T (ut_change_ops ut)" "ut_count ut = length (chg T)"
    "tables_ok bs todo ut" "stack_ok bs T S" "updates_ok bs T U" "reachable_ops bs T todo S U" "ut_stack ut = S"
  using assms by (simp_all add: seq_inv_def)

lemma seq_inv_update [simp]:
  "seq_inv start bs ds T todo S U (ut\<lparr>ut_top := t\<rparr>) = seq_inv start bs ds T todo S U ut"
  "seq_inv start bs ds T todo S U (ut\<lparr>ut_conflicts := c\<rparr>) = seq_inv start bs ds T todo S U ut"
  "seq_inv start bs ds T todo S U (ut\<lparr>ut_pred := pr\<rparr>) = seq_inv start bs ds T todo S U ut"
  "seq_inv start bs ds T todo S U (ut\<lparr>ut_updates_stack := us\<rparr>) = seq_inv start bs ds T todo S U ut"
  by (simp_all add: seq_inv_def tables_ok_def)

lemma seq_inv_mark:
  "seq_inv start bs ds T todo S U ut \<Longrightarrow> ut_change_ops ut = ops
    \<Longrightarrow> seq_inv start bs ds T todo S U (ut\<lparr>ut_change_ops := mark_conflicted v ops\<rparr>)"
  by (simp add: seq_inv_def tables_ok_def ops_placed_mark)

lemma seq_inv_flush [simp]: "seq_inv start bs ds T todo S U (flush ut) = seq_inv start bs ds T todo S U ut"
  by (simp add: flush_def split: prod.split)

lemma place_sel [simp]: "ut_entry (place i p ut) = ut_entry ut" "ut_gosub (place i p ut) = ut_gosub ut"
  "ut_stack (place i p ut) = ut_stack ut" "ut_updates (place i p ut) = ut_updates ut" "ut_max (place i p ut) = ut_max ut"
  "ut_updates_stack (place i p ut) = ut_updates_stack ut" "ut_count (place i p ut) = Suc (ut_count ut)"
  by (simp_all add: place_def)

lemma tables_place [simp]: "tables_ok bs todo (place i p ut) = tables_ok bs todo ut"
  by (simp add: tables_ok_def)

lemma ops_placed_place:
  assumes "ops_placed start bs T (ut_change_ops ut)" "ut_count ut = length (chg T)" "i < length bs" "i \<notin> set (chg T)"
  shows "ops_placed start bs (T @ [Inr i]) (ut_change_ops (place i (start + length (docs T)) ut))"
  using ops_placed_snoc [OF assms(1,3,4)] assms(2) by (simp add: place_def)

subsection \<open>What an added event keeps\<close>

lemma stack_ok_snoc:
  assumes "stack_ok bs T S" and "it_insert (ev_item (map bitem bs) e) \<Longrightarrow> \<forall>i \<in> set S. ob_id (bs ! i) < it_id (ev_item (map bitem bs) e)"
  shows "stack_ok bs (T @ [e]) S"
proof -
  have "e \<noteq> Inr i" if "i \<in> set S" for i
    using assms that by (auto simp: stack_ok_def)
  then show ?thesis using assms by (auto simp: stack_ok_def in_chg intro!: follows_keep)
qed

lemma stack_ok_append:
  assumes "stack_ok bs T A" "stack_ok bs T B" "\<forall>i \<in> set A. \<forall>j \<in> set B. ob_id (bs ! j) < ob_id (bs ! i)"
  shows "stack_ok bs T (A @ B)"
  using assms by (auto simp: stack_ok_def sorted_wrt_append)

lemma updates_ok_snoc:
  assumes "updates_ok bs T U" and "\<And>i. i \<in> set U \<Longrightarrow> elem_of (ev_item (map bitem bs) e) = key_op (ob_key (bs ! i))
    \<and> it_id (ev_item (map bitem bs) e) < ob_id (bs ! i)" and "\<And>i. e = Inr i \<Longrightarrow> i \<notin> set U"
  shows "updates_ok bs (T @ [e]) U"
  using assms by (auto simp: updates_ok_def in_chg follows_def)

lemma children_sorted:
  assumes "batch_sorted (map bitem bs)"
  shows "sorted_wrt (\<lambda>i j. ob_id (bs ! i) < ob_id (bs ! j)) (children (map bitem bs) e)"
    and "sorted_wrt (\<lambda>i j. ob_id (bs ! i) < ob_id (bs ! j)) (upds (map bitem bs) e)"
proof -
  have b: "before (bitem (bs ! i)) (bitem (bs ! j))" if "i < j" "j < length bs" for i j
    using assms that sorted_wrt_nth_less [of before "map bitem bs" i j] by (simp add: batch_sorted_def)
  have lt: "ob_id (bs ! i) < ob_id (bs ! j)"
    if "i < j" "j < length bs" "ob_insert (bs ! i) = ob_insert (bs ! j)" "key_op (ob_key (bs ! i)) = key_op (ob_key (bs ! j))" for i j
    using b [OF that(1,2)] that(3,4) by (cases "ob_insert (bs ! j)") (auto simp: before_def elem_of_def)
  have "sorted_wrt (<) (children (map bitem bs) e)" "sorted_wrt (<) (upds (map bitem bs) e)"
    by (simp_all add: children_def upds_def sorted_wrt_filter)
  then show "sorted_wrt (\<lambda>i j. ob_id (bs ! i) < ob_id (bs ! j)) (children (map bitem bs) e)"
    and "sorted_wrt (\<lambda>i j. ob_id (bs ! i) < ob_id (bs ! j)) (upds (map bitem bs) e)"
    by (auto simp: in_children in_upds intro!: lt elim!: sorted_wrt_mono_rel [rotated])
qed

subsection \<open>Placing an update\<close>

lemma seq_place_update:
  assumes inv: "seq_inv start bs ds T todo S (u # U) ut"
    and todo: "\<And>d r. todo = d # r \<Longrightarrow> \<not> do_insert d \<Longrightarrow> ob_id (bs ! u) < do_id d"
  shows "seq_inv start bs ds (T @ [Inr u]) todo S U (place u (start + length (docs T)) ut)"
proof -
  note i = seq_invD [OF inv]
  have u: "u < length bs" "\<not> ob_insert (bs ! u)" "u \<notin> set (chg T)" "follows (items (map bitem bs) T) (bitem (bs ! u))"
    and U: "updates_ok bs T U" "\<forall>i \<in> set U. ob_id (bs ! u) < ob_id (bs ! i)"
    using i(6) by (auto simp: updates_ok_def)
  have "trace_ok bs ds (T @ [Inr u]) todo"
    by (rule trace_change [OF i(1,2) u(1,3,4)]) (use u(2) todo in auto)
  moreover have "ops_placed start bs (T @ [Inr u]) (ut_change_ops (place u (start + length (docs T)) ut))"
    by (rule ops_placed_place [OF i(2,3) u(1,3)])
  moreover have "stack_ok bs (T @ [Inr u]) S" by (rule stack_ok_snoc [OF i(5)]) (use u in simp)
  moreover have "updates_ok bs (T @ [Inr u]) U"
  proof (rule updates_ok_snoc [OF U(1)])
    fix j assume j: "j \<in> set U"
    then have "follows (items (map bitem bs) T) (bitem (bs ! j))" "\<not> ob_insert (bs ! j)"
      using U(1) by (simp_all add: updates_ok_def)
    then show "elem_of (ev_item (map bitem bs) (Inr u)) = key_op (ob_key (bs ! j))
      \<and> it_id (ev_item (map bitem bs) (Inr u)) < ob_id (bs ! j)"
      using u U(2) j by (auto simp: follows_def elem_of_def)
  qed (use U(2) in auto)
  moreover have "reachable_ops bs (T @ [Inr u]) todo S U"
    using i(7) u(2) by (fastforce simp: reachable_ops_def)
  ultimately show ?thesis using i(3,4,8) by (simp add: seq_inv_def)
qed

lemma seq_place_update':
  assumes inv: "seq_inv start bs ds T todo S (u # U) ut" and p: "p = start + length (docs T)"
    and todo: "\<And>d r. todo = d # r \<Longrightarrow> \<not> do_insert d \<Longrightarrow> ob_id (bs ! u) < do_id d"
  shows "seq_inv start bs ds (T @ [Inr u]) todo S U (place_update u p ut)"
proof -
  have "seq_inv start bs ds (T @ [Inr u]) todo S U (place u p ut)"
    unfolding p by (rule seq_place_update [OF inv todo])
  then show ?thesis
    by (auto simp: place_update_def top_process_change_op_def Let_def seq_inv_mark split: top.split)
qed

lemma co_id_bs: "ops_placed start bs T ops \<Longrightarrow> i < length bs \<Longrightarrow> co_id (ops ! i) = ob_id (bs ! i) \<and> co_insert (ops ! i) = ob_insert (bs ! i)
    \<and> co_key (ops ! i) = ob_key (bs ! i)"
  by (auto simp: ops_placed_def co_id_def co_insert_def co_key_def)

lemma element_update_loop_inv:
  assumes "seq_inv start bs ds T (d # todo) S U ut" and "do_pos d = start + length (docs T)"
  shows "\<exists>U1 U2. U = U1 @ U2 \<and> seq_inv start bs ds (T @ map Inr U1) (d # todo) S U2 (element_update_loop d U ut)
    \<and> ut_updates_stack (element_update_loop d U ut) = U2 \<and> (do_insert d \<longrightarrow> U2 = [])
    \<and> (\<forall>u \<in> set U2. do_id d < ob_id (bs ! u))
    \<and> ut_max (element_update_loop d U ut) = ut_max ut"
  using assms
proof (induction U arbitrary: T ut)
  case Nil
  then show ?case by simp
next
  case (Cons u U)
  note i = seq_invD [OF Cons.prems(1)]
  have u: "u < length bs" using i(6) by (auto simp: updates_ok_def)
  have id: "co_id (ut_change_ops ut ! u) = ob_id (bs ! u)" using co_id_bs [OF i(2) u] by simp
  show ?case
  proof (cases "do_insert d \<or> ob_id (bs ! u) < do_id d")
    case True
    have "seq_inv start bs ds (T @ [Inr u]) (d # todo) S U (place_update u (do_pos d) ut)"
      by (rule seq_place_update' [OF Cons.prems]) (use True in auto)
    moreover have "do_pos d = start + length (docs (T @ [Inr u]))" using Cons.prems(2) by simp
    ultimately obtain U1 U2 where r: "U = U1 @ U2"
      "seq_inv start bs ds ((T @ [Inr u]) @ map Inr U1) (d # todo) S U2 (element_update_loop d U (place_update u (do_pos d) ut))"
      "ut_updates_stack (element_update_loop d U (place_update u (do_pos d) ut)) = U2" "do_insert d \<longrightarrow> U2 = []"
      "\<forall>u \<in> set U2. do_id d < ob_id (bs ! u)"
      "ut_max (element_update_loop d U (place_update u (do_pos d) ut)) = ut_max (place_update u (do_pos d) ut)"
      using Cons.IH by blast
    have "ut_max (place_update u (do_pos d) ut) = ut_max ut" by (simp add: place_update_def Let_def split: prod.split)
    then show ?thesis using r True by (intro exI [of _ "u # U1"] exI [of _ U2]) (simp add: id)
  next
    case False
    have "do_id d \<noteq> ob_id (bs ! u)" using trace_okD(1,5) [OF i(1)] u by (auto simp: disjoint_iff)
    then have "do_id d < ob_id (bs ! u)" using False by auto
    moreover have "ob_id (bs ! u) < ob_id (bs ! v)" if "v \<in> set U" for v
      using i(6) that by (auto simp: updates_ok_def)
    ultimately have "\<forall>v \<in> set (u # U). do_id d < ob_id (bs ! v)" by (auto intro: less_trans)
    then show ?thesis using False Cons.prems(1) by (intro exI [of _ "[]"] exI [of _ "u # U"]) (simp add: id)
  qed
qed

subsection \<open>Placing an insertion\<close>

lemma tables_stack [simp]: "tables_ok bs todo (ut\<lparr>ut_stack := s\<rparr>) = tables_ok bs todo ut"
  by (simp add: tables_ok_def)

lemma placed_ref:
  assumes "canon (items (map bitem bs) T)" and "i \<in> set (chg T)" and "i < length bs"
  shows "key_op (ob_key (bs ! i)) = head_op \<or> key_op (ob_key (bs ! i)) \<in> it_id ` set (items (map bitem bs) T)"
proof -
  have "bitem (bs ! i) \<in> set (items (map bitem bs) T)"
    using assms(2,3) by (force simp: in_chg image_iff)
  then show ?thesis using canon_item [OF assms(1), of "bitem (bs ! i)"] elems_ids by (metis bitem_sel(2) subsetD)
qed

lemma distinct_step:
  assumes "trace_ok bs ds T todo" and "ops_placed start bs T ops"
  shows "distinct (map it_id (items (map bitem bs) T))"
proof -
  have "distinct (map do_id (docs T) @ map ob_id bs)"
    using trace_okD(5) [OF assms(1)] unfolding trace_okD(1) [OF assms(1)] by auto
  then show ?thesis by (rule distinct_items [OF assms(2)])
qed

lemma batch_older: "batch_ok bs E \<Longrightarrow> i < length bs \<Longrightarrow> key_op (ob_key (bs ! i)) < ob_id (bs ! i)"
  by (auto simp: batch_ok_def batch_sorted_def)

text \<open>What refers to an element that was just added can be placed behind it.\<close>

lemma new_element:
  assumes bok: "batch_ok bs E" and tr: "trace_ok bs ds (T @ [ev]) todo" and pl: "ops_placed start bs (T @ [ev]) ops"
    and ins: "it_insert (ev_item (map bitem bs) ev)" and e: "it_id (ev_item (map bitem bs) ev) = e"
  shows "stack_ok bs (T @ [ev]) (rev (children (map bitem bs) e))" and "updates_ok bs (T @ [ev]) (upds (map bitem bs) e)"
    and "\<And>j. j \<in> set (children (map bitem bs) e) \<Longrightarrow> e < ob_id (bs ! j)"
proof -
  let ?xs = "map bitem bs" and ?z = "ev_item (map bitem bs) ev"
  have it: "items ?xs (T @ [ev]) = items ?xs T @ [?z]" by simp
  have can: "canon (items ?xs T @ [?z])" and dis: "distinct (map it_id (items ?xs T @ [?z]))"
    using trace_okD(3) [OF tr] distinct_step [OF tr pl] unfolding it by simp_all
  have canT: "canon (items ?xs T)" using can by (rule canon_prefix)
  have nh: "e \<noteq> head_op" using canon_item [OF can, of ?z] ins e by (auto simp: elem_of_def)
  have new: "j \<notin> set (chg (T @ [ev])) \<and> e < ob_id (bs ! j)" if j: "j < length bs" "key_op (ob_key (bs ! j)) = e" for j
  proof -
    have "e < ob_id (bs ! j)" using batch_older [OF bok j(1)] j(2) by simp
    moreover have "e \<notin> it_id ` set (items ?xs T)" using dis e by (simp add: image_image)
    then have "j \<notin> set (chg T)" using placed_ref [OF canT _ j(1)] j(2) nh by auto
    ultimately show ?thesis using e j(1) by (auto simp: in_chg)
  qed
  have srt: "batch_sorted ?xs" using bok by (rule batch_sorted_of)
  show "stack_ok bs (T @ [ev]) (rev (children ?xs e))"
    using children_sorted(1) [OF srt, of e] new follows_child [OF can dis ins] e
    unfolding stack_ok_def it by (auto simp: sorted_wrt_rev in_children)
  show "updates_ok bs (T @ [ev]) (upds ?xs e)"
    using children_sorted(2) [OF srt, of e] new ins e
    unfolding updates_ok_def it by (auto simp: in_upds elem_of_def intro!: follows_update)
  show "e < ob_id (bs ! j)" if "j \<in> set (children ?xs e)" for j using new [of j] that by (auto simp: in_children)
qed

lemma seq_place_insert:
  assumes bok: "batch_ok bs E" and inv: "seq_inv start bs ds T todo (i # S) [] ut"
    and todo: "todo = [] \<or> (\<exists>d r. todo = d # r \<and> do_insert d \<and> do_id d < ob_id (bs ! i))"
  shows "seq_inv start bs ds (T @ [Inr i]) todo (rev (children (map bitem bs) (ob_id (bs ! i))) @ S) (upds (map bitem bs) (ob_id (bs ! i)))
    ((place i (start + length (docs T)) ut)\<lparr>ut_stack := rev (children (map bitem bs) (ob_id (bs ! i))) @ S\<rparr>)"
proof -
  let ?e = "ob_id (bs ! i)" and ?T = "T @ [Inr i]" and ?xs = "map bitem bs"
  note v = seq_invD [OF inv]
  have i: "i < length bs" "ob_insert (bs ! i)" "i \<notin> set (chg T)" "follows (items ?xs T) (bitem (bs ! i))"
    and S: "stack_ok bs T S" "\<forall>j \<in> set S. ob_id (bs ! j) < ?e"
    using v(5) by (auto simp: stack_ok_def)
  have tr: "trace_ok bs ds ?T todo" by (rule trace_change [OF v(1,2) i(1,3,4)]) (use i(2) todo in auto)
  have pl: "ops_placed start bs ?T (ut_change_ops (place i (start + length (docs T)) ut))"
    by (rule ops_placed_place [OF v(2,3) i(1,3)])
  have ev: "it_insert (ev_item ?xs (Inr i))" "it_id (ev_item ?xs (Inr i)) = ?e" using i by simp_all
  note new = new_element [OF bok tr pl ev]
  have "stack_ok bs ?T (rev (children ?xs ?e) @ S)"
  proof (rule stack_ok_append)
    show "stack_ok bs ?T S" by (rule stack_ok_snoc [OF S(1)]) (use S(2) i(1) in simp)
    show "stack_ok bs ?T (rev (children ?xs ?e))" by (rule new(1))
    show "\<forall>j \<in> set (rev (children ?xs ?e)). \<forall>k \<in> set S. ob_id (bs ! k) < ob_id (bs ! j)"
      using S(2) new(3) by (metis less_trans set_rev)
  qed
  moreover have "reachable_ops bs ?T todo (rev (children ?xs ?e) @ S) (upds ?xs ?e)"
    unfolding reachable_ops_def
  proof (intro allI impI)
    fix k assume k: "k < length bs" "k \<notin> set (chg ?T)"
    then have old: "(if ob_insert (bs ! k) then k \<in> set (i # S) else k \<in> set []) \<or> key_op (ob_key (bs ! k)) \<in> set (elems (map ditem todo))
     \<or> (\<exists>j < length bs. j \<notin> set (chg T) \<and> ob_insert (bs ! j) \<and> ob_id (bs ! j) = key_op (ob_key (bs ! k)))"
      using v(7) unfolding reachable_ops_def by auto
    show "(if ob_insert (bs ! k) then k \<in> set (rev (children ?xs ?e) @ S) else k \<in> set (upds ?xs ?e))
      \<or> key_op (ob_key (bs ! k)) \<in> set (elems (map ditem todo))
      \<or> (\<exists>j < length bs. j \<notin> set (chg ?T) \<and> ob_insert (bs ! j) \<and> ob_id (bs ! j) = key_op (ob_key (bs ! k)))"
    proof (cases "key_op (ob_key (bs ! k)) = ?e")
      case True
      then show ?thesis using k(1) by (simp add: in_children in_upds)
    next
      case False
      then show ?thesis using old k(2) by auto
    qed
  qed
  ultimately show ?thesis using tr pl v(3,4) new(2) by (simp add: seq_inv_def)
qed

subsection \<open>Untangling\<close>

definition upd_of :: "op_builder list \<Rightarrow> op_id \<Rightarrow> nat \<Rightarrow> bool" where
  "upd_of bs e j \<longleftrightarrow> \<not> ob_insert (bs ! j) \<and> key_op (ob_key (bs ! j)) = e"

lemma upds_upd_of: "upds (map bitem bs) e = filter (upd_of bs e) [0 ..< length bs]"
  unfolding upds_def upd_of_def by (rule filter_cong) auto

lemma no_more_updates:
  assumes "batch_sorted (map bitem bs)" "i < k" "k < length bs" "ob_insert (bs ! i)" "\<not> upd_of bs (ob_id (bs ! i)) k"
  shows "filter (upd_of bs (ob_id (bs ! i))) [k ..< length bs] = []"
proof -
  let ?e = "ob_id (bs ! i)"
  have b: "before (bitem (bs ! i)) (bitem (bs ! j))" if "i < j" "j < length bs" for i j
    using assms(1) that sorted_wrt_nth_less [of before "map bitem bs" i j] by (simp add: batch_sorted_def)
  have ids: "ob_id (bs ! k) \<noteq> ?e"
    using assms by (auto simp: batch_sorted_def comp_def distinct_conv_nth)
  have "?e < elem_of (bitem (bs ! k))"
    using b [OF assms(2,3)] assms(4,5) ids by (auto simp: before_def elem_of_def upd_of_def split: if_splits)
  then have gt: "?e < elem_of (bitem (bs ! j))" if "k < j" "j < length bs" for j
    using b [OF that] by (auto simp: before_def)
  have "\<not> upd_of bs ?e j" if "k < j" "j < length bs" for j
    using gt [OF that] by (auto simp: upd_of_def elem_of_def)
  then have "\<not> upd_of bs ?e j" if "k \<le> j" "j < length bs" for j
    using assms(5) that by (cases "j = k") auto
  then show ?thesis by (simp add: filter_empty_conv)
qed

lemma first_updates:
  assumes "batch_sorted (map bitem bs)" "i < length bs" "ob_insert (bs ! i)"
  shows "upds (map bitem bs) (ob_id (bs ! i)) = filter (upd_of bs (ob_id (bs ! i))) [Suc i ..< length bs]"
proof -
  let ?e = "ob_id (bs ! i)"
  have b: "before (bitem (bs ! j)) (bitem (bs ! i))" if "j < i" for j
    using assms(1,2) that sorted_wrt_nth_less [of before "map bitem bs" j i] by (simp add: batch_sorted_def)
  have "\<not> upd_of bs ?e j" if "j < Suc i" for j
  proof (cases "j = i")
    case False
    have "key_op (ob_key (bs ! j)) < ob_id (bs ! j)" using assms(1,2) that by (auto simp: batch_sorted_def)
    then show ?thesis using b [of j] False that assms(3) by (auto simp: before_def elem_of_def upd_of_def)
  qed (simp add: assms(3) upd_of_def)
  then have "filter (upd_of bs ?e) [0 ..< Suc i] = []" by (simp add: filter_empty_conv del: upt_Suc)
  moreover obtain m where m: "length bs = Suc i + m" using less_imp_Suc_add [OF assms(2)] by auto
  then have "[0 ..< length bs] = [0 ..< Suc i] @ [Suc i ..< length bs]"
    by (simp only: upt_add_eq_append [of 0 "Suc i" m])
  ultimately show ?thesis by (simp add: upds_upd_of del: upt_Suc)
qed

lemma inner_updates_inv:
  assumes "batch_ok bs E" and "i < k" and "k \<le> length bs" and "ob_insert (bs ! i)"
    and "seq_inv start bs ds T todo S (filter (upd_of bs (ob_id (bs ! i))) [k ..< length bs]) ut"
    and "p = start + length (docs T)" and "\<And>d r. todo = d # r \<Longrightarrow> do_insert d"
  shows "let ut' = inner_updates (SeqKey (ElemId (ob_id (bs ! i)))) p [k ..< length bs] vis ut in
    seq_inv start bs ds (T @ map Inr (filter (upd_of bs (ob_id (bs ! i))) [k ..< length bs])) todo S [] ut'
    \<and> ut_max ut' = ut_max ut \<and> ut_updates_stack ut' = ut_updates_stack ut"
  using assms
proof (induction "length bs - k" arbitrary: k T ut vis)
  case 0
  then show ?case by simp
next
  case (Suc m)
  let ?e = "ob_id (bs ! i)"
  have k: "k < length bs" using Suc.hyps(2) by simp
  note inv = seq_invD [OF Suc.prems(5)]
  have up: "[k ..< length bs] = k # [Suc k ..< length bs]" using k by (simp add: upt_conv_Cons)
  obtain el where key: "ob_key (bs ! k) = SeqKey el" using Suc.prems(1) nth_mem [OF k] unfolding batch_ok_def by blast
  have keq: "ob_key (bs ! k) = SeqKey (ElemId ?e) \<longleftrightarrow> key_op (ob_key (bs ! k)) = ?e" by (cases el) (simp add: key)
  note op = co_id_bs [OF inv(2) k]
  show ?case
  proof (cases "upd_of bs ?e k")
    case False
    have "filter (upd_of bs ?e) [k ..< length bs] = []"
      by (rule no_more_updates [OF batch_sorted_of [OF Suc.prems(1)] Suc.prems(2) k Suc.prems(4) False])
    moreover have "inner_updates (SeqKey (ElemId ?e)) p [k ..< length bs] vis ut = ut"
      using False unfolding up by (auto simp: op keq upd_of_def)
    ultimately show ?thesis using Suc.prems(5) by simp
  next
    case True
    let ?U = "filter (upd_of bs ?e) [Suc k ..< length bs]"
    have U: "filter (upd_of bs ?e) [k ..< length bs] = k # ?U" using True by (simp add: up)
    have cond: "\<not> (co_insert (ut_change_ops ut ! k) \<or> co_key (ut_change_ops ut ! k) \<noteq> SeqKey (ElemId ?e))"
      using True by (simp add: op keq upd_of_def)
    define u1 where "u1 = place k p ut"
    have i1: "seq_inv start bs ds (T @ [Inr k]) todo S ?U u1"
      using seq_place_update [of start bs ds T todo S k ?U ut] Suc.prems(5-7) by (auto simp: U u1_def)
    have step: "inner_updates (SeqKey (ElemId ?e)) p [k ..< length bs] vis ut
      = (if co_is_set_or_make (ut_change_ops u1 ! k) \<and> \<not> co_has_succ (ut_change_ops u1 ! k)
         then inner_updates (SeqKey (ElemId ?e)) p [Suc k ..< length bs] (Some k) (case vis of
            Some v \<Rightarrow> u1\<lparr>ut_change_ops := mark_conflicted v (ut_change_ops u1)\<rparr> | None \<Rightarrow> u1)
         else inner_updates (SeqKey (ElemId ?e)) p [Suc k ..< length bs] vis u1)"
      unfolding up u1_def using cond by (simp add: Let_def)
    have go: "let ut' = inner_updates (SeqKey (ElemId ?e)) p [Suc k ..< length bs] vis' u in
      seq_inv start bs ds ((T @ [Inr k]) @ map Inr ?U) todo S [] ut'
      \<and> ut_max ut' = ut_max u \<and> ut_updates_stack ut' = ut_updates_stack u"
      if "seq_inv start bs ds (T @ [Inr k]) todo S ?U u" for u vis'
      by (rule Suc.hyps(1)) (use Suc.hyps(2) Suc.prems k that in auto)
    have sel: "ut_max u1 = ut_max ut" "ut_updates_stack u1 = ut_updates_stack ut" by (simp_all add: u1_def)
    have mk: "seq_inv start bs ds (T @ [Inr k]) todo S ?U (u1\<lparr>ut_change_ops := mark_conflicted v (ut_change_ops u1)\<rparr>)" for v
      by (rule seq_inv_mark [OF i1 refl])
    show ?thesis
      unfolding step U using go [OF i1] go [OF mk] sel by (auto simp: Let_def split: option.split)
  qed
qed

lemma untangle_inner_inv:
  assumes bok: "batch_ok bs E" and inv: "seq_inv start bs ds T todo (i # S) [] ut" and p: "p = start + length (docs T)"
    and todo: "todo = [] \<or> (\<exists>d r. todo = d # r \<and> do_insert d \<and> do_id d < ob_id (bs ! i))"
  shows "\<exists>ut' U. untangle_inner p ut = Some ut'
    \<and> seq_inv start bs ds (T @ Inr i # map Inr U) todo (rev (children (map bitem bs) (ob_id (bs ! i))) @ S) [] ut'
    \<and> ut_max ut' = ut_max ut \<and> ut_updates_stack ut' = ut_updates_stack ut"
proof -
  let ?e = "ob_id (bs ! i)" and ?ch = "children (map bitem bs) (ob_id (bs ! i))"
  note v = seq_invD [OF inv]
  have i: "i < length bs" "ob_insert (bs ! i)" "i \<notin> set (chg T)" using v(5) by (simp_all add: stack_ok_def)
  have len: "length (ut_change_ops ut) = length bs" by (rule ops_placed_length [OF v(2)])
  have pos: "co_pos (ut_change_ops ut ! i) = None" using v(2) i by (simp add: ops_placed_def)
  note op = co_id_bs [OF v(2) i(1)]
  define u where "u = (place i p ut)\<lparr>ut_stack := rev ?ch @ S\<rparr>"
  have iu: "seq_inv start bs ds (T @ [Inr i]) todo (rev ?ch @ S) (filter (upd_of bs ?e) [Suc i ..< length bs]) u"
    unfolding u_def p first_updates [OF batch_sorted_of [OF bok] i(1,2), symmetric]
    by (rule seq_place_insert [OF bok inv todo])
  have gs: "ut_gosub ut i = table ?ch" using v(4) i by (simp add: tables_ok_def)
  have "place i p (ut\<lparr>ut_stack := S\<rparr>) = (place i p ut)\<lparr>ut_stack := S\<rparr>" by (simp add: place_def)
  then have push: "(case ut_gosub (place i p (ut\<lparr>ut_stack := S\<rparr>)) i of
      Some v \<Rightarrow> (place i p (ut\<lparr>ut_stack := S\<rparr>))\<lparr>ut_stack := rev v @ ut_stack (place i p (ut\<lparr>ut_stack := S\<rparr>))\<rparr>
    | None \<Rightarrow> place i p (ut\<lparr>ut_stack := S\<rparr>)) = u"
    using gs by (cases "?ch = []") (simp_all add: u_def)
  define vis where "vis = (if co_is_set_or_make (ut_change_ops ut ! i) \<and> \<not> co_has_succ (ut_change_ops ut ! i) then Some i else None)"
  have lenu: "length (ut_change_ops u) = length bs" using ops_placed_length [OF seq_invD(2) [OF iu]] .
  have un: "untangle_inner p ut = Some (inner_updates (SeqKey (ElemId ?e)) p [Suc i ..< length bs] vis u)"
    using v(8) i(1) pos push lenu by (simp add: untangle_inner_def len op vis_def Let_def)
  have "let ut' = inner_updates (SeqKey (ElemId ?e)) p [Suc i ..< length bs] vis u in
    seq_inv start bs ds ((T @ [Inr i]) @ map Inr (filter (upd_of bs ?e) [Suc i ..< length bs])) todo (rev ?ch @ S) [] ut'
    \<and> ut_max ut' = ut_max u \<and> ut_updates_stack ut' = ut_updates_stack u"
    by (rule inner_updates_inv [OF bok _ _ i(2) iu]) (use i(1) p todo in auto)
  moreover have "ut_max u = ut_max ut" "ut_updates_stack u = ut_updates_stack ut" by (simp_all add: u_def)
  ultimately show ?thesis using un by (auto simp: Let_def)
qed

lemma untangle_while_inv:
  assumes bok: "batch_ok bs E" and "seq_inv start bs ds T todo (A @ B) [] ut" and "p = start + length (docs T)" and "n = length B"
    and "todo = [] \<or> (\<exists>d r. todo = d # r \<and> do_insert d \<and> (\<forall>i \<in> set A. do_id d < ob_id (bs ! i)))"
  shows "\<exists>ut' cs. untangle_while n p ut = Some ut' \<and> seq_inv start bs ds (T @ map Inr cs) todo B [] ut'
    \<and> ut_max ut' = ut_max ut \<and> ut_updates_stack ut' = ut_updates_stack ut"
  using assms(2-)
proof (induction n p ut arbitrary: T A rule: untangle_while.induct)
  case (1 n p ut)
  have st: "ut_stack ut = A @ B" using seq_invD(8) [OF 1(2)] .
  show ?case
  proof (cases A)
    case Nil
    then show ?thesis using 1(2,4) st by (subst untangle_while.simps) (auto intro!: exI [of _ "[]"])
  next
    case (Cons i S)
    have inv: "seq_inv start bs ds T todo (i # (S @ B)) [] ut" using 1(2) Cons by simp
    have todo: "todo = [] \<or> (\<exists>d r. todo = d # r \<and> do_insert d \<and> do_id d < ob_id (bs ! i))"
      using 1(5) Cons by auto
    from untangle_inner_inv [OF bok inv 1(3) todo] obtain u U where u: "untangle_inner p ut = Some u"
      "seq_inv start bs ds (T @ Inr i # map Inr U) todo (rev (children (map bitem bs) (ob_id (bs ! i))) @ S @ B) [] u"
      "ut_max u = ut_max ut" "ut_updates_stack u = ut_updates_stack ut" by blast
    let ?A = "rev (children (map bitem bs) (ob_id (bs ! i))) @ S"
    have less: "n < length (ut_stack ut)" using 1(4) st Cons by simp
    have "todo = [] \<or> (\<exists>d r. todo = d # r \<and> do_insert d \<and> (\<forall>j \<in> set ?A. do_id d < ob_id (bs ! j)))"
    proof -
      have younger: "do_id d < ob_id (bs ! j)" if "do_id d < ob_id (bs ! i)" "j \<in> set (children (map bitem bs) (ob_id (bs ! i)))" for d j
        using that batch_older [OF bok, of j] by (auto simp: in_children)
      from 1(5) consider "todo = []" | d r where "todo = d # r" "do_insert d" "\<forall>i \<in> set A. do_id d < ob_id (bs ! i)"
        by blast
      then show ?thesis
      proof cases
        case 2
        then have "\<forall>j \<in> set ?A. do_id d < ob_id (bs ! j)" using younger [of d] Cons by auto
        then show ?thesis using 2(1,2) by blast
      qed simp
    qed
    then have "\<exists>ut' cs. untangle_while n p u = Some ut' \<and> seq_inv start bs ds ((T @ Inr i # map Inr U) @ map Inr cs) todo B [] ut'
      \<and> ut_max ut' = ut_max u \<and> ut_updates_stack ut' = ut_updates_stack u"
      by (intro 1(1) [OF less u(1), of "T @ Inr i # map Inr U" ?A]) (use u(2) 1(3,4) in simp_all)
    then obtain ut' cs where r: "untangle_while n p u = Some ut'" "seq_inv start bs ds ((T @ Inr i # map Inr U) @ map Inr cs) todo B [] ut'"
      "ut_max ut' = ut_max u" "ut_updates_stack ut' = ut_updates_stack u" by blast
    have "untangle_while n p ut = Some ut'" using less u(1) r(1) by (subst untangle_while.simps) simp
    moreover have "(T @ Inr i # map Inr U) @ map Inr cs = T @ map Inr (i # U @ cs)" by simp
    ultimately show ?thesis using r(2-4) u(3,4) by metis
  qed
qed

lemma split_stack:
  assumes "stack_ok bs T S" and "\<And>i. i \<in> set S \<Longrightarrow> ob_id (bs ! i) \<noteq> oid"
  obtains A B where "S = A @ B" "\<forall>i \<in> set A. oid < ob_id (bs ! i)" "\<forall>i \<in> set B. ob_id (bs ! i) < oid"
    "length (takeWhile (\<lambda>i. ob_id (bs ! i) < oid) (rev S)) = length B"
    "A \<noteq> [] \<Longrightarrow> rev S ! length B \<in> set S"
proof -
  let ?P = "\<lambda>i. ob_id (bs ! i) < oid"
  let ?A = "rev (dropWhile ?P (rev S))" and ?B = "rev (takeWhile ?P (rev S))"
  have SAB: "S = ?A @ ?B" by (metis rev_append rev_rev_ident takeWhile_dropWhile_id)
  have sorted: "sorted_wrt (\<lambda>i j. ob_id (bs ! i) < ob_id (bs ! j)) (rev S)" using assms(1) by (simp add: stack_ok_def sorted_wrt_rev)
  have gt: "oid < ob_id (bs ! i)" if i: "i \<in> set ?A" for i
  proof (cases "dropWhile ?P (rev S)")
    case (Cons k ks)
    have "sorted_wrt (\<lambda>i j. ob_id (bs ! i) < ob_id (bs ! j)) (takeWhile ?P (rev S) @ k # ks)"
      using sorted Cons by (metis takeWhile_dropWhile_id)
    then have le: "ob_id (bs ! k) \<le> ob_id (bs ! i)" using i Cons by (auto simp: sorted_wrt_append)
    have "k \<in> set S" using Cons by (metis dropWhile_eq_Cons_conv in_set_conv_decomp set_rev)
    then have "ob_id (bs ! k) \<noteq> oid" by (rule assms(2))
    moreover have "\<not> ?P k" using Cons by (simp add: dropWhile_eq_Cons_conv)
    ultimately show ?thesis using le by simp
  next
    case Nil
    then show ?thesis using i by (metis empty_iff empty_set rev.simps(1))
  qed
  have lt: "\<forall>i \<in> set ?B. ?P i" by (auto dest: set_takeWhileD)
  have nth: "rev S ! length ?B \<in> set S" if "?A \<noteq> []"
  proof -
    have "length ?B < length (rev S)" using that SAB by (metis length_append length_greater_0_conv length_rev less_add_same_cancel2)
    then show ?thesis by (metis nth_mem set_rev)
  qed
  have gt': "\<forall>i \<in> set ?A. oid < ob_id (bs ! i)" using gt by blast
  have len: "length (takeWhile ?P (rev S)) = length ?B" by (simp only: length_rev)
  show thesis by (rule that [OF SAB gt' lt len nth])
qed

lemma untangle_inserts_inv:
  assumes bok: "batch_ok bs E" and inv: "seq_inv start bs ds T (d # todo) S [] ut" and p: "p = start + length (docs T)"
    and ins: "do_insert d" and us: "ut_updates_stack ut = []"
  shows "\<exists>ut' cs S' U'. untangle_inserts (do_id d) p ut = Some ut'
    \<and> seq_inv start bs ds (T @ map Inr cs @ [Inl d]) todo S' U' ut' \<and> ut_updates_stack ut' = U' \<and> ut_max ut' = ut_max ut"
proof -
  let ?xs = "map bitem bs" and ?e = "do_id d"
  have inv1: "seq_inv start bs ds T (d # todo) S [] (flush ut)" using inv by simp
  note v = seq_invD [OF inv1]
  note tr = trace_okD [OF v(1)]
  have dd: "?e \<notin> ob_id ` set bs" "?e \<notin> set (elems (map ditem todo))"
    using tr(1,5) elems_doc_ids [of ?e todo] by (auto simp: disjoint_iff)
  have iS: "i < length bs" if "i \<in> set S" for i using v(5) that by (simp add: stack_ok_def)
  have ne: "ob_id (bs ! i) \<noteq> ?e" if "i \<in> set S" for i using dd(1) iS [OF that] by (metis imageI nth_mem)
  obtain A B where AB: "S = A @ B" "\<forall>i \<in> set A. ?e < ob_id (bs ! i)" "\<forall>i \<in> set B. ob_id (bs ! i) < ?e"
    "length (takeWhile (\<lambda>i. ob_id (bs ! i) < ?e) (rev S)) = length B" "A \<noteq> [] \<Longrightarrow> rev S ! length B \<in> set S"
    using split_stack [OF v(5) ne] by blast
  have cid: "co_id (ut_change_ops (flush ut) ! i) = ob_id (bs ! i)" if "i \<in> set S" for i
    using co_id_bs [OF v(2) iS [OF that]] by simp
  have len: "length (takeWhile (\<lambda>i. co_id (ut_change_ops (flush ut) ! i) < ?e) (rev S)) = length B"
    using AB(4) takeWhile_cong [OF refl, of "rev S" "\<lambda>i. co_id (ut_change_ops (flush ut) ! i) < ?e" "\<lambda>i. ob_id (bs ! i) < ?e"] cid by simp
  have miss: "\<not> (length B < length (rev S) \<and> co_id (ut_change_ops (flush ut) ! (rev S ! length B)) = ?e)"
    using AB(1,5) cid ne by auto
  obtain u cs where u: "untangle_while (length B) p (flush ut) = Some u" "seq_inv start bs ds (T @ map Inr cs) (d # todo) B [] u"
    "ut_max u = ut_max (flush ut)" "ut_updates_stack u = ut_updates_stack (flush ut)"
    using untangle_while_inv [OF bok inv1 [unfolded AB(1)] p refl] ins AB(2) by blast
  have fl: "ut_max (flush ut) = ut_max ut" "ut_updates_stack (flush ut) = []"
    using us by (simp_all add: flush_def split: prod.split)
  note w = seq_invD [OF u(2)]
  let ?T = "(T @ map Inr cs) @ [Inl d]"
  have tr': "trace_ok bs ds ?T todo" by (rule trace_doc [OF w(1,2)])
  have pl': "ops_placed start bs ?T (ut_change_ops u)" by (rule ops_placed_doc [OF w(2)])
  have ev: "it_insert (ev_item ?xs (Inl d))" "it_id (ev_item ?xs (Inl d)) = ?e" using ins by simp_all
  note new = new_element [OF bok tr' pl' ev]
  define u1 where "u1 = (case map_of (ut_entry u) ?e of
            Some v \<Rightarrow> u\<lparr>ut_entry := AList.delete ?e (ut_entry u), ut_stack := rev v @ ut_stack u\<rparr> | None \<Rightarrow> u)"
  have en: "map_of (ut_entry u) ?e = table (children ?xs ?e)" using w(4) ins by (simp add: tables_ok_def)
  have s1: "ut_stack u1 = rev (children ?xs ?e) @ B" "ut_updates u1 = ut_updates u" "ut_change_ops u1 = ut_change_ops u"
    "ut_count u1 = ut_count u" "ut_updates_stack u1 = []" "ut_max u1 = ut_max ut" "ut_gosub u1 = ut_gosub u"
    using en w(8) u(3,4) fl by (cases "children ?xs ?e = []"; simp add: u1_def)+
  have e1: "map_of (ut_entry u1) e = (if e \<in> set (elems (map ditem todo)) then table (children ?xs e) else None)" for e
    using w(4) en dd(2) ins by (cases "children ?xs ?e = []") (auto simp: u1_def tables_ok_def delete_conv')
  have e2: "distinct (map fst (ut_entry u1))"
    using w(4) en by (cases "children ?xs ?e = []") (simp_all add: u1_def tables_ok_def distinct_delete)
  have tab: "tables_ok bs todo u1" using w(4) e1 e2 by (simp add: tables_ok_def s1)
  have up: "ut_updates u1 (ElemId ?e) = table (upds ?xs ?e)"
  proof -
    have "?e \<notin> set (elems ?xs)" using dd(1) elems_ids [of ?xs] by auto
    then show ?thesis using w(4) by (simp add: tables_ok_def s1)
  qed
  define u2 where "u2 = (case ut_updates u1 (ElemId ?e) of
            Some us \<Rightarrow> u1\<lparr>ut_updates_stack := us @ ut_updates_stack u1\<rparr> | None \<Rightarrow> u1)"
  have un: "untangle_inserts ?e p ut = Some u2"
  proof -
    show ?thesis
      unfolding untangle_inserts_def Let_def v(8) len if_not_P [OF miss] u(1) u2_def u1_def by simp
  qed
  have s2: "ut_updates_stack u2 = upds ?xs ?e" "ut_max u2 = ut_max ut"
    using up s1 by (cases "upds ?xs ?e = []"; simp add: u2_def)+
  have "stack_ok bs ?T (rev (children ?xs ?e) @ B)"
  proof (rule stack_ok_append)
    show "stack_ok bs ?T B" by (rule stack_ok_snoc [OF w(5)]) (use AB(3) in simp)
    show "stack_ok bs ?T (rev (children ?xs ?e))" by (rule new(1))
    show "\<forall>j \<in> set (rev (children ?xs ?e)). \<forall>k \<in> set B. ob_id (bs ! k) < ob_id (bs ! j)"
      using AB(3) new(3) by (metis less_trans set_rev)
  qed
  moreover have "reachable_ops bs ?T todo (rev (children ?xs ?e) @ B) (upds ?xs ?e)"
    unfolding reachable_ops_def
  proof (intro allI impI)
    fix k assume k: "k < length bs" "k \<notin> set (chg ?T)"
    then have old: "(if ob_insert (bs ! k) then k \<in> set B else k \<in> set []) \<or> key_op (ob_key (bs ! k)) \<in> set (elems (map ditem (d # todo)))
     \<or> (\<exists>j < length bs. j \<notin> set (chg (T @ map Inr cs)) \<and> ob_insert (bs ! j) \<and> ob_id (bs ! j) = key_op (ob_key (bs ! k)))"
      using w(7) unfolding reachable_ops_def by auto
    show "(if ob_insert (bs ! k) then k \<in> set (rev (children ?xs ?e) @ B) else k \<in> set (upds ?xs ?e))
      \<or> key_op (ob_key (bs ! k)) \<in> set (elems (map ditem todo))
      \<or> (\<exists>j < length bs. j \<notin> set (chg ?T) \<and> ob_insert (bs ! j) \<and> ob_id (bs ! j) = key_op (ob_key (bs ! k)))"
    proof (cases "key_op (ob_key (bs ! k)) = ?e")
      case True
      then show ?thesis using k(1) by (simp add: in_children in_upds)
    next
      case False
      then show ?thesis using old ins by auto
    qed
  qed
  ultimately have "seq_inv start bs ds ?T todo (rev (children ?xs ?e) @ B) (upds ?xs ?e) u1"
    using tr' pl' w(3) tab new(2) s1 by (simp add: seq_inv_def)
  then have "seq_inv start bs ds ?T todo (rev (children ?xs ?e) @ B) (upds ?xs ?e) u2"
    by (auto simp: u2_def split: option.split)
  then show ?thesis using un s2 by auto
qed

end
