(* ===== verification/Merge_Result.thy ===== *)
theory Merge_Result
  imports Merge_Seq
begin

text \<open>
  The whole walk over a sequence: every row keeps the invariant of \<open>Merge_Seq\<close>, the end places what is
  left, and the last sort brings the operations into the order in which they were placed.
\<close>

subsection \<open>A row\<close>

lemma handle_doc_op_inv:
  assumes "seq_inv start bs ds T todo S U ut" and "handle_doc_op d (ut, succ) = (ut', succ')"
  shows "seq_inv start bs ds T todo S U ut' \<and> ut_updates_stack ut' = ut_updates_stack ut \<and> ut_max ut' = ut_max ut"
proof -
  obtain del pred succ1 where p: "process_pred d (ut_pred ut) succ = (del, pred, succ1)"
    by (cases "process_pred d (ut_pred ut) succ")
  define u where "u = (if do_insert d then flush (ut\<lparr>ut_pred := pred\<rparr>) else ut\<lparr>ut_pred := pred\<rparr>)"
  have u: "seq_inv start bs ds T todo S U u" "ut_updates_stack u = ut_updates_stack ut" "ut_max u = ut_max ut"
    using assms(1) by (simp_all add: u_def flush_def split: prod.split)
  obtain t ops where t: "top_process_doc_op (ut_top u) (ut_change_ops u) d del = (t, ops)"
    by (cases "top_process_doc_op (ut_top u) (ut_change_ops u) d del")
  have ut': "ut' = u\<lparr>ut_top := t, ut_change_ops := ops\<rparr>"
    using assms(2) t by (simp add: handle_doc_op_def p u_def [symmetric] Let_def split: if_splits)
  have eq: "u\<lparr>ut_top := t, ut_change_ops := x\<rparr> = u\<lparr>ut_change_ops := x\<rparr>\<lparr>ut_top := t\<rparr>" for x by simp
  have "ops = ut_change_ops u \<or> (\<exists>v. ops = mark_conflicted v (ut_change_ops u))"
    using t by (auto simp: top_process_doc_op_def split: if_splits top.splits)
  then have "seq_inv start bs ds T todo S U (u\<lparr>ut_change_ops := ops\<rparr>)"
    using u(1) seq_inv_mark [OF u(1) refl] by auto
  then have "seq_inv start bs ds T todo S U ut'" unfolding ut' eq by (simp only: seq_inv_update)
  then show ?thesis using u(2,3) by (simp add: ut')
qed

text \<open>A row that updates the current element is passed; the updates that are left are younger.\<close>

lemma seq_pass_update:
  assumes inv: "seq_inv start bs ds T (d # todo) S U ut" and ins: "\<not> do_insert d" and younger: "\<forall>u \<in> set U. do_id d < ob_id (bs ! u)"
  shows "seq_inv start bs ds (T @ [Inl d]) todo S U ut"
proof -
  note v = seq_invD [OF inv]
  let ?T = "T @ [Inl d]"
  have fo: "follows (items (map bitem bs) T) (ditem d)" by (rule trace_follows [OF v(1)])
  have "stack_ok bs ?T S" by (rule stack_ok_snoc [OF v(5)]) (use ins in simp)
  moreover have "updates_ok bs ?T U"
  proof (rule updates_ok_snoc [OF v(6)])
    fix i assume i: "i \<in> set U"
    then have "follows (items (map bitem bs) T) (bitem (bs ! i))" "\<not> ob_insert (bs ! i)"
      using v(6) by (simp_all add: updates_ok_def)
    then show "elem_of (ev_item (map bitem bs) (Inl d)) = key_op (ob_key (bs ! i))
      \<and> it_id (ev_item (map bitem bs) (Inl d)) < ob_id (bs ! i)"
      using fo ins younger i by (auto simp: follows_def elem_of_def)
  qed simp
  moreover have "reachable_ops bs ?T todo S U" using v(7) ins by (simp add: reachable_ops_def)
  moreover have "tables_ok bs todo ut" using v(4) ins by (simp add: tables_ok_def)
  ultimately show ?thesis
    using trace_doc [OF v(1,2)] ops_placed_doc [OF v(2)] v(3,8) by (simp add: seq_inv_def)
qed

lemma walk_rows_inv:
  assumes bok: "batch_ok bs E" and at: "rows_at start ds"
    and "seq_inv start bs ds T todo S U ut" and "ut_updates_stack ut = U"
  shows "\<exists>T' S' U' ut' succ'. walk_rows todo (ut, succ) = Some (ut', succ') \<and> seq_inv start bs ds T' [] S' U' ut'
    \<and> ut_updates_stack ut' = U' \<and> ut_max ut' = ut_max ut"
  using assms(3-)
proof (induction todo arbitrary: T S U ut succ)
  case Nil
  then show ?case by auto
next
  case (Cons d todo)
  have p: "do_pos d = start + length (docs T)"
    by (rule rows_at_pos [OF at]) (rule trace_okD(1) [OF seq_invD(1) [OF Cons.prems(1)]])
  define u where "u = element_update d ut"
  obtain U1 U2 where u: "seq_inv start bs ds (T @ map Inr U1) (d # todo) S U2 u" "ut_updates_stack u = U2"
    "do_insert d \<longrightarrow> U2 = []" "\<forall>v \<in> set U2. do_id d < ob_id (bs ! v)" "ut_max u = ut_max ut"
    using element_update_loop_inv [OF Cons.prems(1) p] Cons.prems(2) by (auto simp: u_def element_update_def)
  have p': "do_pos d = start + length (docs (T @ map Inr U1))" using p by simp
  have "\<exists>u' T' S' U'. (if do_insert d then untangle_inserts (do_id d) (do_pos d) u else Some u) = Some u'
    \<and> seq_inv start bs ds T' todo S' U' u' \<and> ut_updates_stack u' = U' \<and> ut_max u' = ut_max ut"
  proof (cases "do_insert d")
    case True
    then show ?thesis
      using untangle_inserts_inv [OF bok _ p' True, of ds todo S u] u by auto
  next
    case False
    then show ?thesis using seq_pass_update [OF u(1) False u(4)] u(2,5) by auto
  qed
  then obtain u' T' S' U' where u': "(if do_insert d then untangle_inserts (do_id d) (do_pos d) u else Some u) = Some u'"
    "seq_inv start bs ds T' todo S' U' u'" "ut_updates_stack u' = U'" "ut_max u' = ut_max ut" by blast
  obtain w succ1 where w: "handle_doc_op d (u', succ) = (w, succ1)" by (cases "handle_doc_op d (u', succ)")
  have "seq_inv start bs ds T' todo S' U' w" "ut_updates_stack w = U'" "ut_max w = ut_max ut"
    using handle_doc_op_inv [OF u'(2) w] u'(3,4) by simp_all
  from Cons.IH [OF this(1,2)] this(3)
  have "\<exists>T' S' U' ut' succ'. walk_rows todo (w, succ1) = Some (ut', succ') \<and> seq_inv start bs ds T' [] S' U' ut'
    \<and> ut_updates_stack ut' = U' \<and> ut_max ut' = ut_max ut" by simp
  moreover have "walk_rows (d # todo) (ut, succ) = walk_rows todo (w, succ1)"
    using u'(1) w by (cases "do_insert d") (simp_all add: u_def [symmetric] Let_def)
  ultimately show ?case by simp
qed

subsection \<open>The end\<close>

lemma finish_updates_inv:
  assumes "seq_inv start bs ds T [] S U ut" and "m = start + length ds"
  shows "seq_inv start bs ds (T @ map Inr U) [] S [] (foldl (\<lambda>ut i. place_update i m ut) ut U)"
  using assms
proof (induction U arbitrary: T ut)
  case (Cons u U)
  have "docs T = ds" using trace_okD(1) [OF seq_invD(1) [OF Cons.prems(1)]] by simp
  then have "seq_inv start bs ds (T @ [Inr u]) [] S U (place_update u m ut)"
    by (intro seq_place_update' [OF Cons.prems(1)]) (simp_all add: Cons.prems(2))
  from Cons.IH [OF this Cons.prems(2)] show ?case by simp
qed simp

lemma place_update_sel: "ut_max (place_update i p ut) = ut_max ut" "ut_updates_stack (place_update i p ut) = ut_updates_stack ut"
  by (simp_all add: place_update_def Let_def split: prod.split)

lemma finish_updates_sel:
  "foldl (\<lambda>ut i. place_update i (ut_max ut) ut) ut U = foldl (\<lambda>x i. place_update i (ut_max ut) x) ut U"
  "ut_max (foldl (\<lambda>x i. place_update i m x) ut U) = ut_max ut"
  by (induction U arbitrary: ut) (simp_all add: place_update_sel)

lemma all_placed:
  assumes "reachable_ops bs T [] [] []" and "batch_ok bs E" and "i < length bs"
  shows "i \<in> set (chg T)"
proof (rule ccontr)
  let ?W = "{j. j < length bs \<and> j \<notin> set (chg T)}"
  assume "i \<notin> set (chg T)"
  then have ne: "?W \<noteq> {}" "finite ?W" using assms(3) by auto
  have "Min ((\<lambda>j. ob_id (bs ! j)) ` ?W) \<in> (\<lambda>j. ob_id (bs ! j)) ` ?W" using ne by (intro Min_in) auto
  then obtain k where k: "k \<in> ?W" "Min ((\<lambda>j. ob_id (bs ! j)) ` ?W) = ob_id (bs ! k)" by blast
  have le: "ob_id (bs ! k) \<le> ob_id (bs ! j)" if "j \<in> ?W" for j
    unfolding k(2) [symmetric] by (rule Min_le) (use that ne in auto)
  obtain j where j: "j \<in> ?W" "ob_id (bs ! j) = key_op (ob_key (bs ! k))"
    using assms(1) k(1) by (fastforce simp: reachable_ops_def)
  have "key_op (ob_key (bs ! k)) < ob_id (bs ! k)" using batch_older [OF assms(2)] k(1) by blast
  then show False using le [OF j(1)] j(2) by simp
qed

text \<open>The order by position and counter is the order of the trace.\<close>

abbreviation place_key :: "change_op \<Rightarrow> nat \<times> nat" where
  "place_key c \<equiv> (the (co_pos c), co_subsort c)"

lemma trace_sorted:
  assumes "ops_placed start bs T ops"
  shows "sorted_wrt (<) (map (\<lambda>i. place_key (ops ! i)) (chg T))"
proof -
  have "sorted_wrt (<) (map (\<lambda>i. place_key (ops ! i)) (chg T))
    \<and> (\<forall>i \<in> set (chg T). fst (place_key (ops ! i)) \<le> start + length (docs T) \<and> co_subsort (ops ! i) < length (chg T))"
    if "\<forall>T1 i T2. T = T1 @ Inr i # T2 \<longrightarrow> co_pos (ops ! i) = Some (start + length (docs T1)) \<and> co_subsort (ops ! i) = length (chg T1)"
    using that
  proof (induction T rule: rev_induct)
    case (snoc e T)
    have IH: "sorted_wrt (<) (map (\<lambda>i. place_key (ops ! i)) (chg T))"
      "\<forall>i \<in> set (chg T). fst (place_key (ops ! i)) \<le> start + length (docs T) \<and> co_subsort (ops ! i) < length (chg T)"
      using snoc.IH snoc.prems by (auto simp: snoc_split)
    show ?case
    proof (cases e)
      case (Inl d)
      then show ?thesis using IH(1) by (auto dest: IH(2) [THEN bspec])
    next
      case (Inr i)
      then have "co_pos (ops ! i) = Some (start + length (docs T)) \<and> co_subsort (ops ! i) = length (chg T)"
        using snoc.prems by blast
      moreover have "place_key (ops ! j) < (start + length (docs T), length (chg T))" if "j \<in> set (chg T)" for j
        using IH(2) [THEN bspec, OF that] by (auto simp: less_prod_def)
      ultimately show ?thesis using IH Inr by (auto simp: sorted_wrt_append less_Suc_eq)
    qed
  qed simp
  then show ?thesis using assms by (simp add: ops_placed_def)
qed

lemma sort_placed_trace:
  assumes pl: "ops_placed start bs T ops" and all: "set (chg T) = {..< length bs}"
  shows "sort_placed ops = Some (map ((!) ops) (chg T))"
proof -
  have len: "length ops = length bs" using pl by (rule ops_placed_length)
  have d: "distinct (chg T)" using pl by (simp add: ops_placed_def)
  have perm: "mset (chg T) = mset [0 ..< length ops]"
    by (rule set_eq_iff_mset_eq_distinct [THEN iffD1]) (use d all len in \<open>simp_all add: atLeast0LessThan\<close>)
  have m: "mset ops = mset (map ((!) ops) (chg T))"
    using perm by (metis map_nth mset_map)
  have so: "sorted_wrt (<) (map place_key (map ((!) ops) (chg T)))" using trace_sorted [OF pl] by (simp add: comp_def)
  have pos: "co_pos c \<noteq> None" if c: "c \<in> set ops" for c
  proof -
    obtain i where i: "i < length ops" "c = ops ! i" using c by (metis in_set_conv_nth)
    then have "Inr i \<in> set T" using all len by (simp add: in_chg [symmetric])
    then obtain T1 T2 where T: "T = T1 @ Inr i # T2" by (meson split_list)
    have "\<forall>T1 i T2. T = T1 @ Inr i # T2 \<longrightarrow> co_pos (ops ! i) = Some (start + length (docs T1))"
      using pl unfolding ops_placed_def by blast
    then show ?thesis using T i(2) by blast
  qed
  show ?thesis
  proof (cases "length ops < 2")
    case True
    then have "map ((!) ops) (chg T) = ops" using perm by (cases ops; cases "tl ops") (auto dest!: mset_eq_length simp: length_Suc_conv)
    then show ?thesis using True by (simp add: sort_placed_def)
  next
    case False
    have "sort_key place_key ops = map ((!) ops) (chg T)"
    proof (rule sort_key_inj_key_eq [OF m])
      show "sorted (map place_key (map ((!) ops) (chg T)))" using so by (rule strict_sorted_imp_sorted)
      have "distinct (map place_key (map ((!) ops) (chg T)))" using so by (simp add: strict_sorted_iff)
      then have "inj_on place_key (set (map ((!) ops) (chg T)))" by (simp only: distinct_map)
      then show "inj_on place_key (set ops)" by (simp only: set_mset_mset [symmetric] m)
    qed
    moreover have "\<not> list_ex (\<lambda>c. co_pos c = None) ops" using pos by (auto simp: list_ex_iff)
    ultimately show ?thesis using False by (simp add: sort_placed_def)
  qed
qed

lemma finish_inv:
  assumes bok: "batch_ok bs E" and inv: "seq_inv start bs ds T [] S U ut" and us: "ut_updates_stack ut = U" and mx: "ut_max ut = start + length ds"
  shows "\<exists>T' ops ut'. finish ut = Some ut' \<and> trace_ok bs ds T' [] \<and> ops_placed start bs T' ops
    \<and> set (chg T') = {..< length bs} \<and> ut_change_ops ut' = map ((!) ops) (chg T')"
proof -
  define u where "u = flush (finish_updates ut)"
  have u: "seq_inv start bs ds (T @ map Inr U) [] (S @ []) [] u" "ut_max u = start + length ds"
    using finish_updates_inv [OF inv mx] mx
    by (simp_all add: u_def finish_updates_def us flush_def finish_updates_sel split: prod.split)
  have p: "ut_max u = start + length (docs (T @ map Inr U))" using u(2) trace_okD(1) [OF seq_invD(1) [OF inv]] by simp
  obtain w cs where w: "untangle_while 0 (ut_max u) u = Some w" "seq_inv start bs ds ((T @ map Inr U) @ map Inr cs) [] [] [] w"
    using untangle_while_inv [OF bok u(1) p, of 0] by auto
  let ?T = "(T @ map Inr U) @ map Inr cs"
  have fl: "ut_top (flush w) = TopNothing" "ut_change_ops (flush w) = ut_change_ops w"
    by (simp_all add: flush_def top_reset_def)
  have "map_of (ut_entry u) e = None" for e using seq_invD(4) [OF u(1)] by (simp add: tables_ok_def)
  then have "map_of (ut_entry u) = Map.empty" by (rule ext)
  then have en: "ut_entry u = []" by (simp only: map_of_eq_empty_iff)
  note v = seq_invD [OF w(2)]
  have all: "set (chg ?T) = {..< length bs}"
    using all_placed [OF v(7) bok] v(2) by (auto simp: ops_placed_def)
  have "sort_placed (ut_change_ops w) = Some (map ((!) (ut_change_ops w)) (chg ?T))"
    by (rule sort_placed_trace [OF v(2) all])
  then have "finish ut = Some ((flush w)\<lparr>ut_change_ops := map ((!) (ut_change_ops w)) (chg ?T)\<rparr>)"
    by (simp add: finish_def u_def [symmetric] Let_def en w(1) fl)
  then show ?thesis using v(1,2) all by fastforce
qed

subsection \<open>The beginning\<close>

lemma after_Nil [simp]: "after r [] = []"
  by (simp add: after_def)

lemma seq_inv_new:
  assumes bok: "batch_ok bs (set (elems (map ditem ds)))" and can: "canon (map ditem ds)" and dis: "distinct (map do_id ds @ map ob_id bs)"
    and bs: "map co_bld cs = bs" and pos: "\<forall>c \<in> set cs. co_pos c = None"
  shows "seq_inv start bs ds [] ds (rev (children (map bitem bs) head_op)) [] (untangler_new conflicts cs pred m)"
    and "ut_updates_stack (untangler_new conflicts cs pred m) = []" and "ut_max (untangler_new conflicts cs pred m) = m"
proof -
  let ?xs = "map bitem bs" and ?ut = "untangler_new conflicts cs pred m"
  obtain cs' pred' x where ix: "index_ops 0 cs pred empty_index = (cs', pred', x)" by (cases "index_ops 0 cs pred empty_index")
  have xs: "map citem cs = ?xs" using bs by (auto simp: bitem_bld comp_def)
  have key: "\<forall>c \<in> set cs. \<exists>e. co_key c = SeqKey e" using bok bs by (auto simp: batch_ok_def co_key_def)
  have "index_ok ?xs x \<and> map co_bld cs' = bs \<and> map co_pos cs' = map co_pos cs"
    using index_ops_ok [of "[]" cs empty_index pred] batch_sorted_of [OF bok] index_ok_empty key ix by (simp add: xs bs)
  then have ok: "index_ok ?xs x" and bs': "map co_bld cs' = bs" and ps: "map co_pos cs' = map co_pos cs" by blast+
  have ut: "ut_change_ops ?ut = cs'" "ut_count ?ut = 0" "ut_entry ?ut = ix_entry x" "ut_gosub ?ut = ix_gosub x"
    "ut_stack ?ut = rev (children ?xs head_op)" "ut_updates ?ut = ix_updates x"
    using ok by (simp_all add: untangler_new_def ix index_ok_def)
  have "ut_updates_stack ?ut = [] \<and> ut_max ?ut = m" by (simp add: untangler_new_def ix)
  then show "ut_updates_stack ?ut = []" and "ut_max ?ut = m" by blast+
  have first: "follows [] (ditem d)" if "ds = d # r" for d r
    using canon_middle [of "[]" "ditem d" "map ditem r"] can that by simp
  have "trace_ok bs ds [] ds" using can dis first by (auto simp: trace_ok_def canon.Nil rows_follow_def)
  moreover have "ops_placed start bs [] cs'"
  proof -
    have "co_pos (cs' ! i) = None" if i: "i < length bs" for i
    proof -
      have l: "length cs' = length bs" "length cs = length bs" using arg_cong [OF bs', of length] arg_cong [OF bs, of length] by simp_all
      have "map co_pos cs' ! i = map co_pos cs ! i" using ps by simp
      then show ?thesis using i l pos by simp
    qed
    then show ?thesis using bs' by (simp add: ops_placed_def)
  qed
  moreover have "stack_ok bs [] (rev (children ?xs head_op))"
    using children_sorted(1) [OF batch_sorted_of [OF bok], of head_op] batch_older [OF bok]
    by (auto simp: stack_ok_def sorted_wrt_rev in_children follows_def)
  moreover have "updates_ok bs [] []" by (simp add: updates_ok_def)
  moreover have "tables_ok bs ds ?ut"
  proof -
    have elem: "e \<noteq> head_op \<and> e \<notin> set (elems ?xs)" if e: "e \<in> set (elems (map ditem ds))" for e
    proof -
      obtain d where d: "d \<in> set ds" "do_insert d" "e = do_id d" using e by (auto simp: elems_def)
      then have "e \<noteq> head_op" using canon_item [OF can, of "ditem d"] by (auto simp: elem_of_def)
      moreover have "e \<notin> ob_id ` set bs" using dis d by (auto simp: disjoint_iff)
      ultimately show ?thesis using elems_ids [of ?xs] by auto
    qed
    have none: "children ?xs e = []" if e: "e \<notin> set (elems (map ditem ds))" "e \<noteq> head_op" "e \<notin> set (elems ?xs)" for e
    proof -
      have "key_op (ob_key (bs ! i)) \<noteq> e" if "i < length bs" for i
        using bok e nth_mem [OF that] by (fastforce simp: batch_ok_def)
      then show ?thesis by (auto simp: children_def filter_empty_conv)
    qed
    have "map_of (ix_entry x) e = (if e \<in> set (elems (map ditem ds)) then table (children ?xs e) else None)" for e
      using ok elem [of e] none [of e] by (auto simp: index_ok_def)
    then show ?thesis using ok unfolding tables_ok_def ut by (simp add: index_ok_def)
  qed
  moreover have "reachable_ops bs [] ds (rev (children ?xs head_op)) []"
    unfolding reachable_ops_def
  proof (intro allI impI)
    fix i assume i: "i < length bs"
    then have "key_op (ob_key (bs ! i)) \<in> set (elems (map ditem ds)) \<or> key_op (ob_key (bs ! i)) \<in> set (elems ?xs)
      \<or> ob_insert (bs ! i) \<and> key_op (ob_key (bs ! i)) = head_op"
      using bok nth_mem [OF i] by (force simp: batch_ok_def)
    then show "(if ob_insert (bs ! i) then i \<in> set (rev (children ?xs head_op)) else i \<in> set [])
      \<or> key_op (ob_key (bs ! i)) \<in> set (elems (map ditem ds))
      \<or> (\<exists>j < length bs. j \<notin> set (chg []) \<and> ob_insert (bs ! j) \<and> ob_id (bs ! j) = key_op (ob_key (bs ! i)))"
      using i unfolding in_elems by (auto simp: in_children)
  qed
  ultimately show "seq_inv start bs ds [] ds (rev (children ?xs head_op)) [] ?ut"
    by (simp add: seq_inv_def ut)
qed

text \<open>The walk returns, and the operations of the batch are placed between the rows in the specified order.\<close>

lemma walk_list_trace:
  assumes bok: "batch_ok bs (set (elems (map ditem ds)))" and can: "canon (map ditem ds)" and dis: "distinct (map do_id ds @ map ob_id bs)"
    and bs: "map co_bld cs = bs" and pos: "\<forall>c \<in> set cs. co_pos c = None"
    and at: "rows_at start ds" and m: "m = start + length ds"
  shows "\<exists>T ops ut' succ'. walk_list (untangler_new conflicts cs pred m) ds succ = Some (ut', succ')
    \<and> trace_ok bs ds T [] \<and> ops_placed start bs T ops \<and> set (chg T) = {..< length bs}
    \<and> ut_change_ops ut' = map ((!) ops) (chg T)"
proof -
  have new: "seq_inv start bs ds [] ds (rev (children (map bitem bs) head_op)) [] (untangler_new conflicts cs pred m)"
    "ut_updates_stack (untangler_new conflicts cs pred m) = []" "ut_max (untangler_new conflicts cs pred m) = m"
    using seq_inv_new [OF bok can dis bs pos] by blast+
  obtain T S U ut succ' where w: "walk_rows ds (untangler_new conflicts cs pred m, succ) = Some (ut, succ')"
    "seq_inv start bs ds T [] S U ut" "ut_updates_stack ut = U" "ut_max ut = ut_max (untangler_new conflicts cs pred m)"
    using walk_rows_inv [OF bok at new(1,2)] by blast
  obtain T' ops ut' where "finish ut = Some ut'" "trace_ok bs ds T' []" "ops_placed start bs T' ops"
    "set (chg T') = {..< length bs}" "ut_change_ops ut' = map ((!) ops) (chg T')"
    using finish_inv [OF bok w(2,3)] w(4) new(3) m by auto
  then show ?thesis using w(1) by (auto simp: walk_list_def)
qed

end
