(* ===== verification/Merge_Order.thy ===== *)
theory Merge_Order
  imports Merge_Insert Merge_Result
begin

text \<open>
  The order of the operations of a batch: when the keys of every object are of one kind, the comparison of
  \<open>order_ops_for_doc\<close> is that of a tuple, so that its sort is \<open>sort_key\<close>; the spans cut the sorted
  operations by object; inside an object the operations are as the walks need them.
\<close>

subsection \<open>The comparison\<close>

abbreviation co_obj :: "change_op \<Rightarrow> obj_id" where
  "co_obj c \<equiv> ob_obj (co_bld c)"

definition rank :: "change_op \<Rightarrow> obj_id \<times> bytes \<times> op_id \<times> op_id" where
  "rank c = (co_obj c, map_key (co_elemid_or_key c), elem_of (citem c), co_id c)"

definition same_kind :: "change_op list \<Rightarrow> bool" where
  "same_kind ops \<longleftrightarrow> (\<forall>a \<in> set ops. \<forall>b \<in> set ops. co_obj a = co_obj b \<longrightarrow>
     is_map_key (co_elemid_or_key a) = is_map_key (co_elemid_or_key b))"

lemma compare_ord_eq: "compare_ord a b = Equal \<longleftrightarrow> a = b" "compare_ord a b = Less \<longleftrightarrow> a < b" "compare_ord a b = Greater \<longleftrightarrow> b < a"
  by (auto simp: compare_ord_def)

lemma compare_ord_pair: "compare_ord (a, b) (c, d) = (case compare_ord a c of Equal \<Rightarrow> compare_ord b d | r \<Rightarrow> r)"
  by (auto simp: compare_ord_def)

lemma elem_of_key: "elem_of (citem c) = key_op (co_elemid_or_key c)"
  by (simp add: elem_of_def co_elemid_or_key_def)

lemma compare_elem: "compare_ord (e :: elem_id) f = compare_ord (elem_op e) (elem_op f)"
  by (auto simp: compare_ord_def less_elem_id_def elem_id.expand)

lemma op_cmp_rank:
  assumes "is_map_key (co_elemid_or_key a) = is_map_key (co_elemid_or_key b) \<or> co_obj a \<noteq> co_obj b"
  shows "op_cmp a b = compare_ord (rank a) (rank b)"
proof (cases "co_obj a = co_obj b")
  case False
  then show ?thesis by (simp add: op_cmp_def rank_def compare_ord_def)
next
  case True
  then have kind: "is_map_key (co_elemid_or_key a) = is_map_key (co_elemid_or_key b)" using assms by simp
  have eq: "compare_ord x x = Equal" for x :: "'a::linorder" by (simp add: compare_ord_def)
  show ?thesis
  proof (cases "co_elemid_or_key a")
    case (MapKey s)
    then obtain t where "co_elemid_or_key b = MapKey t" using kind by (auto simp: is_map_key_def)
    then show ?thesis using MapKey True
      by (simp add: op_cmp_def rank_def elem_of_key compare_ord_pair eq split: ordering.split)
  next
    case (SeqKey e)
    then obtain f where "co_elemid_or_key b = SeqKey f" using kind by (cases "co_elemid_or_key b") (auto simp: is_map_key_def)
    then show ?thesis using SeqKey True
      by (simp add: op_cmp_def rank_def elem_of_key compare_ord_pair eq compare_elem split: ordering.split)
  qed
qed

lemma insert_by_key:
  "\<forall>y \<in> set ys. f x y = compare_ord (g x) (g y) \<Longrightarrow> insert_by f x ys = insort_key g x ys"
  by (induction ys) (auto simp: compare_ord_eq)

lemma sort_by_key:
  "\<forall>x \<in> set xs. \<forall>y \<in> set xs. f x y = compare_ord (g x) (g y) \<Longrightarrow> sort_by f xs = sort_key g xs"
proof (induction xs)
  case (Cons x xs)
  then have IH: "sort_by f xs = sort_key g xs" by simp
  have "insert_by f x (sort_key g xs) = insort_key g x (sort_key g xs)"
    by (rule insert_by_key) (use Cons.prems in simp)
  then show ?case using IH by (simp add: sort_by_def)
qed (simp add: sort_by_def)

lemma sort_ops: "same_kind ops \<Longrightarrow> sort_by op_cmp ops = sort_key rank ops"
  by (rule sort_by_key) (auto simp: same_kind_def intro!: op_cmp_rank)

subsection \<open>The spans\<close>

fun spans_of :: "nat \<Rightarrow> change_op list \<Rightarrow> obj_span list \<Rightarrow> bool" where
  "spans_of k ops [] \<longleftrightarrow> ops = []"
| "spans_of k ops (os # oss) \<longleftrightarrow> (\<exists>g ops'. ops = g @ ops' \<and> g \<noteq> [] \<and> (\<forall>c \<in> set g. co_obj c = os_obj os)
     \<and> (ops' \<noteq> [] \<longrightarrow> co_obj (hd ops') \<noteq> os_obj os) \<and> os_start os = k \<and> os_end os = k + length g \<and> spans_of (k + length g) ops' oss)"

lemma order_loop_spans:
  assumes "g \<noteq> []" and "\<forall>c \<in> set g. co_obj c = obj"
  shows "\<exists>R. snd (snd (order_loop (start + length g) start (Some obj) ops pred index spans)) = spans @ R \<and> spans_of start (g @ ops) R"
  using assms
proof (induction ops arbitrary: start g obj pred index spans)
  case Nil
  then show ?case by (auto simp: close_span_def)
next
  case (Cons c cs)
  show ?case
  proof (cases "co_obj c = obj")
    case True
    then have "\<forall>x \<in> set (g @ [c]). co_obj x = obj" using Cons.prems by simp
    from Cons.IH [OF _ this, of start "add_preds c pred" "add_obj_info c index" spans] True
    show ?thesis by (simp add: Let_def)
  next
    case False
    let ?s = "\<lparr>os_obj = obj, os_start = start, os_end = start + length g\<rparr>"
    obtain R where R: "snd (snd (order_loop (start + length g + length [c]) (start + length g) (Some (co_obj c)) cs
        (add_preds c pred) (add_obj_info c index) (spans @ [?s]))) = (spans @ [?s]) @ R"
      "spans_of (start + length g) ([c] @ cs) R"
      using Cons.IH [of "[c]" "co_obj c" "start + length g" "add_preds c pred" "add_obj_info c index" "spans @ [?s]"] by auto
    have "spans_of start (g @ c # cs) (?s # R)"
      unfolding spans_of.simps by (intro exI [of _ g] exI [of _ "c # cs"]) (use Cons.prems False R(2) in simp)
    then show ?thesis using R(1) False by (auto simp: Let_def close_span_def)
  qed
qed

lemma order_spans: "spans_of 0 ops (snd (snd (order_loop 0 0 None ops pred index [])))"
proof (cases ops)
  case Nil
  then show ?thesis by (simp add: close_span_def)
next
  case (Cons c cs)
  then show ?thesis using order_loop_spans [of "[c]" "co_obj c" 0 cs "add_preds c pred" "add_obj_info c index" "[]"]
    by (auto simp: Let_def close_span_def)
qed

lemma order_loop_index: "fst (snd (order_loop i start last_obj ops pred index spans)) = foldl (\<lambda>ix c. add_obj_info c ix) index ops"
  by (induction ops arbitrary: i start last_obj pred index spans) (simp_all add: Let_def)

subsection \<open>The operations of one object\<close>

text \<open>What an operation has to be for its object.\<close>

definition op_fits :: "obj_type option \<Rightarrow> change_op \<Rightarrow> bool" where
  "op_fits t c \<longleftrightarrow> (case t of None \<Rightarrow> False
     | Some t \<Rightarrow> (case t of ObjMap \<Rightarrow> is_map_key (co_key c) \<and> \<not> co_insert c
         | ObjTable \<Rightarrow> False
         | _ \<Rightarrow> \<not> is_map_key (co_key c) \<and> key_op (co_key c) < co_id c \<and> (co_insert c \<longrightarrow> \<not> is_del c)))"

lemma op_fits_simps [simp]:
  "op_fits (Some ObjMap) c \<longleftrightarrow> is_map_key (co_key c) \<and> \<not> co_insert c" "\<not> op_fits None c" "\<not> op_fits (Some ObjTable) c"
  "is_sequence t \<Longrightarrow> op_fits (Some t) c \<longleftrightarrow> \<not> is_map_key (co_key c) \<and> key_op (co_key c) < co_id c \<and> (co_insert c \<longrightarrow> \<not> is_del c)"
  by (auto simp: op_fits_def is_sequence_def)

lemma fits_kind: "op_fits t c \<Longrightarrow> is_map_key (co_elemid_or_key c) \<longleftrightarrow> t = Some ObjMap"
  by (auto simp: op_fits_def co_elemid_or_key_def is_map_key_def split: option.splits obj_type.splits)

lemma rank_inj: "distinct (map co_id ops) \<Longrightarrow> inj_on rank (set ops)"
  by (auto simp: inj_on_def rank_def distinct_map)

lemma sort_rank_strict:
  assumes "distinct (map co_id ops)"
  shows "sorted_wrt (\<lambda>a b. rank a < rank b) (sort_key rank ops)"
proof -
  have "sorted (map rank (sort_key rank ops))" by simp
  moreover have "distinct (map rank (sort_key rank ops))"
    using rank_inj [OF assms] assms by (auto simp: distinct_map)
  ultimately have "sorted_wrt (<) (map rank (sort_key rank ops))" by (simp add: strict_sorted_iff)
  then show ?thesis by (simp add: sorted_wrt_map)
qed

text \<open>The group of a map.\<close>

lemma group_map:
  assumes "sorted_wrt (\<lambda>a b. rank a < rank b) g" and "\<forall>c \<in> set g. co_obj c = obj \<and> is_map_key (co_key c) \<and> \<not> co_insert c"
  shows "sorted_wrt (<) (map bkey (map co_bld g))"
proof -
  have "bkey (co_bld a) < bkey (co_bld b)" if "a \<in> set g" "b \<in> set g" "rank a < rank b" for a b
    using assms(2) that by (auto simp: rank_def co_elemid_or_key_def elem_of_def key_id_def is_map_key_def co_key_def co_id_def)
  then have "sorted_wrt (\<lambda>a b. bkey (co_bld a) < bkey (co_bld b)) g"
    using assms(1) by (rule sorted_wrt_mono_rel)
  then show ?thesis by (simp add: sorted_wrt_map)
qed

text \<open>The group of a sequence.\<close>

lemma group_seq:
  assumes "sorted_wrt (\<lambda>a b. rank a < rank b) g" and "distinct (map co_id g)"
    and "\<forall>c \<in> set g. co_obj c = obj \<and> \<not> is_map_key (co_key c) \<and> key_op (co_key c) < co_id c"
    and "\<forall>c \<in> set g. key_op (co_key c) \<in> E \<or> key_op (co_key c) \<in> set (elems (map citem g)) \<or> co_insert c \<and> key_op (co_key c) = head_op"
  shows "batch_ok (map co_bld g) E"
proof -
  have it: "map bitem (map co_bld g) = map citem g" by (simp add: bitem_bld comp_def)
  have "before (citem a) (citem b)" if "a \<in> set g" "b \<in> set g" "rank a < rank b" for a b
  proof -
    have "map_key (co_elemid_or_key a) = []" "map_key (co_elemid_or_key b) = []"
      using assms(3) that(1,2) by (auto simp: co_elemid_or_key_def is_map_key_def split: key_ref.splits; metis key_ref.exhaust map_key.simps(2))+
    then show ?thesis using assms(3) that by (auto simp: rank_def before_def)
  qed
  then have "sorted_wrt (\<lambda>a b. before (citem a) (citem b)) g"
    using assms(1) by (rule sorted_wrt_mono_rel)
  then have "batch_sorted (map citem g)"
    using assms(2,3) by (auto simp: batch_sorted_def sorted_wrt_map comp_def)
  moreover have "\<exists>e. ob_key (co_bld c) = SeqKey e" if "c \<in> set g" for c
    using assms(3) that by (cases "ob_key (co_bld c)") (auto simp: is_map_key_def co_key_def)
  moreover have "key_op (ob_key (co_bld c)) \<in> E \<or> key_op (ob_key (co_bld c)) \<in> set (elems (map citem g))
      \<or> ob_insert (co_bld c) \<and> key_op (ob_key (co_bld c)) = head_op" if "c \<in> set g" for c
    using assms(4) that by (simp add: co_key_def co_insert_def)
  ultimately show ?thesis unfolding batch_ok_def it by simp
qed

end
