(* ===== verification/Merge_Doc.thy ===== *)
theory Merge_Doc
  imports Merge_Order
begin

text \<open>
  A document in order: its rows go by object, the rows of a map by key and identifier, the rows of a
  sequence as \<open>Op_Order\<close> specifies, no row is a delete, and the index of objects is that of the rows. The walk over the spans
  of a batch weaves the operations into such a document and keeps the order.
\<close>

subsection \<open>Documents in order\<close>

definition strip :: "row \<Rightarrow> row" where
  "strip r = r\<lparr>r_succ := [], r_visible := False, r_top := False\<rparr>"

lemma strip_sel [simp]: "r_id (strip r) = r_id r" "r_obj (strip r) = r_obj r" "r_key (strip r) = r_key r"
  "r_insert (strip r) = r_insert r" "r_action (strip r) = r_action r"
  by (simp_all add: strip_def)

definition ritem :: "row \<Rightarrow> item" where
  "ritem r = Item (r_id r) (key_op (r_key r)) (r_insert r)"

lemma ritem_sel [simp]: "it_id (ritem r) = r_id r" "it_ref (ritem r) = key_op (r_key r)" "it_insert (ritem r) = r_insert r"
  "ritem (strip r) = ritem r"
  by (simp_all add: ritem_def)

abbreviation rkey :: "row \<Rightarrow> bytes \<times> op_id" where
  "rkey r \<equiv> key_id (r_key r) (r_id r)"

definition r_obj_info :: "row \<Rightarrow> obj_info option" where
  "r_obj_info r = map_option (\<lambda>t. \<lparr>oi_parent = r_obj r, oi_type = t\<rparr>) (obj_type_of_action (r_action r))"

definition group_ok :: "obj_type option \<Rightarrow> row list \<Rightarrow> bool" where
  "group_ok t rs \<longleftrightarrow> (case t of None \<Rightarrow> False
     | Some t \<Rightarrow> (case t of
           ObjMap \<Rightarrow> (\<forall>r \<in> set rs. is_map_key (r_key r) \<and> \<not> r_insert r) \<and> sorted_wrt (<) (map rkey rs)
         | ObjTable \<Rightarrow> False
         | _ \<Rightarrow> (\<forall>r \<in> set rs. \<not> is_map_key (r_key r)) \<and> canon (map ritem rs)))"

lemma group_ok_simps [simp]:
  "group_ok (Some ObjMap) rs \<longleftrightarrow> (\<forall>r \<in> set rs. is_map_key (r_key r) \<and> \<not> r_insert r) \<and> sorted_wrt (<) (map rkey rs)"
  "\<not> group_ok None rs" "\<not> group_ok (Some ObjTable) rs"
  "is_sequence t \<Longrightarrow> group_ok (Some t) rs \<longleftrightarrow> (\<forall>r \<in> set rs. \<not> is_map_key (r_key r)) \<and> canon (map ritem rs)"
  by (auto simp: group_ok_def is_sequence_def)

abbreviation rows_of :: "obj_id \<Rightarrow> row list \<Rightarrow> row list" where
  "rows_of ob rs \<equiv> filter (\<lambda>r. r_obj r = ob) rs"

definition groups_ok :: "obj_index \<Rightarrow> row list \<Rightarrow> bool" where
  "groups_ok index rs \<longleftrightarrow> sorted_wrt (\<lambda>a b. r_obj a \<le> r_obj b) rs
     \<and> (\<forall>ob \<in> r_obj ` set rs. group_ok (object_type index ob) (rows_of ob rs))"

definition doc_ok :: "row list \<times> obj_index \<Rightarrow> bool" where
  "doc_ok doc \<longleftrightarrow> (case doc of (rows, index) \<Rightarrow> groups_ok index rows \<and> distinct (map r_id rows)
     \<and> (\<forall>r \<in> set rows. r_action r \<noteq> DeleteAction \<and> r_id r \<noteq> head_op)
     \<and> (\<forall>i info. index i = Some info \<longleftrightarrow> (\<exists>r \<in> set rows. r_id r = i \<and> r_obj_info r = Some info)))"

lemma map_strip: "map ritem (map strip rs) = map ritem rs" "map rkey (map strip rs) = map rkey rs"
  by simp_all

lemma group_ok_strip: "group_ok t (map strip rs) = group_ok t rs"
  by (simp add: group_ok_def map_strip comp_def split: option.split obj_type.split)

lemma groups_ok_strip: "groups_ok index (map strip rs) = groups_ok index rs"
proof -
  have "rows_of ob (map strip rs) = map strip (rows_of ob rs)" for ob by (simp add: filter_map comp_def)
  then show ?thesis by (simp add: groups_ok_def sorted_wrt_map group_ok_strip image_image)
qed

text \<open>Deleting updates from a group keeps its order.\<close>

lemma canon_filter:
  assumes "canon (map f xs)" and "\<forall>x \<in> set xs. it_insert (f x) \<longrightarrow> P x"
  shows "canon (map f (filter P xs)) \<and> elems (map f (filter P xs)) = elems (map f xs) \<and> (xs \<noteq> [] \<longrightarrow> filter P xs \<noteq> []
    \<and> elem_of (f (last (filter P xs))) = elem_of (f (last xs)) \<and> it_id (f (last (filter P xs))) \<le> it_id (f (last xs)))"
  using assms
proof (induction xs rule: rev_induct)
  case Nil
  then show ?case by (simp add: canon.Nil)
next
  case (snoc x xs)
  let ?x = "f x" and ?ys = "map f (filter P xs)"
  have f: "canon (map f xs)" "follows (map f xs) ?x" and P: "\<forall>x \<in> set xs. it_insert (f x) \<longrightarrow> P x"
    using snoc.prems by (auto simp: canon_snoc_iff)
  have IH: "canon ?ys" "elems ?ys = elems (map f xs)"
    "xs \<noteq> [] \<Longrightarrow> filter P xs \<noteq> [] \<and> elem_of (f (last (filter P xs))) = elem_of (f (last xs)) \<and> it_id (f (last (filter P xs))) \<le> it_id (f (last xs))"
    using snoc.IH [OF f(1) P] by blast+
  have upd: "xs \<noteq> []" "elem_of (f (last xs)) = it_ref ?x" "it_id (f (last xs)) < it_id ?x" "it_ref ?x < it_id ?x" if "\<not> it_insert ?x"
    using f(2) that by (auto simp: follows_def last_map)
  show ?case
  proof (cases "P x")
    case True
    have "follows ?ys ?x"
    proof (cases "it_insert ?x")
      case True
      then show ?thesis using f(2) IH(2) by (simp add: follows_def)
    next
      case False
      then show ?thesis using upd IH(3) by (auto simp: follows_def last_map)
    qed
    then show ?thesis using IH(1,2) True by (simp add: canon_snoc_iff)
  next
    case False
    then have n: "\<not> it_insert ?x" using snoc.prems(2) by auto
    then have "elem_of (f (last xs)) = elem_of ?x" using upd(2) by (simp add: elem_of_def)
    then show ?thesis using IH False n upd(1,3) by auto
  qed
qed

lemma group_ok_filter:
  assumes "group_ok t rs" and "\<forall>r \<in> set rs. r_insert r \<longrightarrow> P r"
  shows "group_ok t (filter P rs)"
  using assms canon_filter [of ritem rs P]
  by (auto simp: group_ok_def sorted_wrt_map sorted_wrt_filter split: option.splits obj_type.splits)

lemma group_ok_prefix: "group_ok t (xs @ ys) \<Longrightarrow> group_ok t xs"
  by (auto simp: group_ok_def sorted_wrt_append split: option.splits obj_type.splits dest: canon_prefix)

lemma groups_ok_filter:
  assumes "groups_ok index rs" and "\<forall>r \<in> set rs. r_insert r \<longrightarrow> P r"
  shows "groups_ok index (filter P rs)"
proof -
  have "rows_of ob (filter P rs) = filter P (rows_of ob rs)" for ob by (simp add: conj_commute)
  moreover have "group_ok (object_type index ob) (filter P (rows_of ob rs))" if "ob \<in> r_obj ` set (filter P rs)" for ob
  proof (rule group_ok_filter)
    show "group_ok (object_type index ob) (rows_of ob rs)" using assms(1) that by (auto simp: groups_ok_def)
  qed (use assms(2) in simp)
  ultimately show ?thesis using assms(1) by (simp add: groups_ok_def sorted_wrt_filter)
qed

text \<open>Blocks of rows with ascending objects.\<close>

lemma groups_ok_append:
  assumes "groups_ok index xs" and "groups_ok index ys" and "\<forall>x \<in> set xs. \<forall>y \<in> set ys. r_obj x < r_obj y"
  shows "groups_ok index (xs @ ys)"
proof -
  have "rows_of ob ys = []" if "ob \<in> r_obj ` set xs" for ob using assms(3) that by (force simp: filter_empty_conv)
  moreover have "rows_of ob xs = []" if "ob \<in> r_obj ` set ys" for ob using assms(3) that by (force simp: filter_empty_conv)
  ultimately show ?thesis using assms by (fastforce simp: groups_ok_def sorted_wrt_append)
qed

lemma groups_ok_block:
  assumes "groups_ok index (xs @ ys @ zs)" and "\<forall>x \<in> set xs. \<forall>y \<in> set ys. r_obj x < r_obj y"
  shows "groups_ok index ys"
proof -
  have "group_ok (object_type index ob) (rows_of ob ys)" if "ob \<in> r_obj ` set ys" for ob
  proof -
    have "rows_of ob xs = []" using assms(2) that by (force simp: filter_empty_conv)
    moreover have "group_ok (object_type index ob) (rows_of ob (xs @ ys @ zs))"
      using assms(1) that by (auto simp: groups_ok_def)
    ultimately show ?thesis by (simp add: group_ok_prefix)
  qed
  then show ?thesis using assms(1) by (simp add: groups_ok_def sorted_wrt_append)
qed

lemma groups_ok_one:
  assumes "\<forall>r \<in> set rs. r_obj r = ob" and "group_ok (object_type index ob) rs"
  shows "groups_ok index rs"
proof -
  have "rows_of ob rs = rs" using assms(1) by simp
  moreover have "sorted_wrt (\<lambda>a b. r_obj a \<le> r_obj b) rs" using assms(1) by (induction rs) auto
  ultimately show ?thesis using assms by (auto simp: groups_ok_def)
qed

subsection \<open>Rows and weavings\<close>

definition drow :: "doc_op \<Rightarrow> row" where
  "drow d = \<lparr>r_id = do_id d, r_action = do_action d, r_obj = do_obj d, r_key = do_key d, r_insert = do_insert d,
     r_value = do_value d, r_expand = do_expand d, r_mark_name = do_mark_name d, r_succ = [], r_visible = False, r_top = False\<rparr>"

lemma drow_at: "drow (doc_op_at rows p) = strip (rows ! p)"
  by (simp add: drow_def doc_op_at_def strip_def Let_def)

lemma drow_sel [simp]: "r_id (drow d) = do_id d" "r_obj (drow d) = do_obj d" "r_key (drow d) = do_key d" "r_insert (drow d) = do_insert d"
  "ritem (drow d) = ditem d"
  by (simp_all add: drow_def ritem_def ditem_def)

lemma row_of_sel [simp]: "r_id (row_of c) = co_id c" "r_obj (row_of c) = co_obj c" "r_key (row_of c) = co_key c" "r_insert (row_of c) = co_insert c"
  "ritem (row_of c) = citem c" "r_action (row_of c) = ob_action (co_bld c)"
  by (simp_all add: row_of_def ritem_def citem_def)

definition wrow :: "doc_op + change_op \<Rightarrow> row" where
  "wrow e = (case e of Inl d \<Rightarrow> drow d | Inr c \<Rightarrow> strip (row_of c))"

lemma wrow_simps [simp]: "wrow (Inl d) = drow d" "wrow (Inr c) = strip (row_of c)"
  by (simp_all add: wrow_def)

lemma iter_range_rows: "hi \<le> length rows \<Longrightarrow> map drow (iter_range rows lo hi) = map strip (drop lo (take hi rows))"
  by (rule nth_equalityI) (simp_all add: iter_range_def drow_at)

lemma iter_range_at: "rows_at lo (iter_range rows lo hi)"
  by (simp add: rows_at_def iter_range_def doc_op_at_def Let_def)

lemma iter_range_length [simp]: "length (iter_range rows lo hi) = hi - lo"
  by (simp add: iter_range_def)

lemma iter_range_append: "lo \<le> mid \<Longrightarrow> mid \<le> hi \<Longrightarrow> iter_range rows lo mid @ iter_range rows mid hi = iter_range rows lo hi"
  using upt_add_eq_append [of lo mid "hi - mid"] by (simp add: iter_range_def flip: map_append)

text \<open>The rows that the insertion makes are those of the weaving, without the deletes.\<close>

definition kept_ev :: "doc_op + change_op \<Rightarrow> bool" where
  "kept_ev e = (case e of Inl d \<Rightarrow> True | Inr c \<Rightarrow> \<not> is_del c)"

lemma weave_rows_strip:
  assumes "map strip rs = map drow (lefts W)"
  shows "map strip (weave_rows rs W) = map wrow (filter kept_ev W)"
  using assms
proof (induction rs W rule: weave_rows.induct)
  case (1 rs)
  then show ?case by simp
next
  case (2 r rs d W)
  then show ?case by (simp add: kept_ev_def)
next
  case (3 d W)
  then show ?case by simp
next
  case (4 rs c W)
  then show ?case by (simp add: kept_ev_def)
qed

lemma split_counts_length [simp]: "length (split_counts ns xs) = length ns"
  by (induction ns xs rule: split_counts.induct) auto

lemma add_succ_strip: "map strip (add_succ succ rows) = map strip rows"
proof -
  have "length (sc_count (foldl add_succ_step s is)) = length (sc_count s)" for s "is"
    by (induction "is" arbitrary: s) (simp_all add: add_succ_step_def Let_def)
  then have len: "length (split_counts (sc_count (foldl add_succ_step \<lparr>sc_count = map (\<lambda>r. length (r_succ r)) rows,
      sc_succ = concat (map r_succ rows), sc_inc = 0, sc_last = None\<rparr> (rev succ)))
    (sc_succ (foldl add_succ_step \<lparr>sc_count = map (\<lambda>r. length (r_succ r)) rows,
      sc_succ = concat (map r_succ rows), sc_inc = 0, sc_last = None\<rparr> (rev succ)))) = length rows" by simp
  have set: "map strip (map2 (\<lambda>r v. r\<lparr>r_succ := v\<rparr>) rs vs) = map strip rs" if "length vs = length rs" for rs vs
    using that by (induction rs vs rule: list_induct2') (simp_all add: strip_def)
  have hide: "map strip (map2 (hide_row succ) ns rs) = map strip rs" if "length ns = length rs" for ns rs
    using that by (induction ns rs rule: list_induct2') (simp_all add: strip_def hide_row_def)
  have "length (map2 (hide_row succ) [0 ..< length rows] rows) = length rows" by simp
  then show ?thesis unfolding add_succ_def Let_def using set [of _ "map2 (hide_row succ) [0 ..< length rows] rows"] len hide [of "[0 ..< length rows]" rows]
    by simp
qed

lemma adjust_top_strip: "map strip (foldl adjust_top rows as) = map strip rows"
proof (induction "as" arbitrary: rows)
  case (Cons a as)
  have "map strip (rows[i := (rows ! i)\<lparr>r_top := b\<rparr>]) = map strip rows" for i b
    using map_upd_same [of strip rows i] by (simp add: map_update strip_def)
  then have "map strip (adjust_top rows a) = map strip rows" by (simp add: adjust_top_def split: adjust.split)
  then show ?case using Cons.IH [of "adjust_top rows a"] by simp
qed simp

subsection \<open>One object\<close>

text \<open>The operations of a batch on one object, against its rows.\<close>

definition refs_ok :: "row list \<Rightarrow> change_op list \<Rightarrow> bool" where
  "refs_ok rs g \<longleftrightarrow> (\<forall>c \<in> set g. \<not> is_map_key (co_key c) \<longrightarrow> key_op (co_key c) \<in> set (elems (map ritem rs))
     \<or> key_op (co_key c) \<in> set (elems (map citem g)) \<or> co_insert c \<and> key_op (co_key c) = head_op)"

definition span_ok :: "obj_id \<Rightarrow> obj_type option \<Rightarrow> row list \<Rightarrow> change_op list \<Rightarrow> bool" where
  "span_ok ob t rs g \<longleftrightarrow> sorted_wrt (\<lambda>a b. rank a < rank b) g \<and> distinct (map r_id rs @ map co_id g)
     \<and> (\<forall>c \<in> set g. co_obj c = ob \<and> op_fits t c \<and> co_pos c = None) \<and> (\<forall>r \<in> set rs. r_obj r = ob)
     \<and> group_ok t rs \<and> refs_ok rs g"

lemma weave_rows_events:
  assumes "map co_bld ops = bs" and "set (chg T) \<subseteq> {..< length bs}"
  shows "map ritem (map wrow (weave ops T)) = items (map bitem bs) T" and "map rkey (map wrow (weave ops T)) = map (ev_key bs) T"
proof -
  have len: "length ops = length bs" using assms(1) by auto
  have op: "citem (ops ! i) = map bitem bs ! i" "key_id (co_key (ops ! i)) (co_id (ops ! i)) = bkey (bs ! i)" if "Inr i \<in> set T" for i
  proof -
    have i: "i < length ops" "i < length bs" using that assms(2) len by (auto simp: in_chg [symmetric])
    have "co_bld (ops ! i) = bs ! i" using assms(1) i by auto
    then show "citem (ops ! i) = map bitem bs ! i" "key_id (co_key (ops ! i)) (co_id (ops ! i)) = bkey (bs ! i)"
      using i by (simp_all add: bitem_bld [symmetric] co_key_def co_id_def)
  qed
  show "map ritem (map wrow (weave ops T)) = items (map bitem bs) T" and "map rkey (map wrow (weave ops T)) = map (ev_key bs) T"
    using op by (auto simp: weave_def ev_item_def split: sum.split)
qed

lemma walk_map_span:
  assumes ok: "span_ok ob (Some ObjMap) (map drow ds) g" and at: "rows_at lo ds"
  shows "\<exists>ops mw W. walk_map (map_walker_new ds (lo + length ds) pred succ conflicts) g = (ops, mw)
    \<and> lefts W = ds \<and> rights W = ops \<and> at_pos lo W \<and> mset (map co_bld ops) = mset (map co_bld g)
    \<and> group_ok (Some ObjMap) (map wrow W)"
proof -
  let ?bs = "map co_bld g"
  have fits: "\<forall>c \<in> set g. co_obj c = ob \<and> is_map_key (co_key c) \<and> \<not> co_insert c" using ok by (auto simp: span_ok_def)
  have "map_ok ds ?bs"
    using ok group_map [OF _ fits] fits
    by (auto simp: span_ok_def map_ok_def comp_def co_key_def co_id_def disjoint_iff)
  from walk_map_trace [OF this at refl] obtain T ops mw where w:
    "walk_map (map_walker_new ds (lo + length ds) pred succ conflicts) g = (ops, mw)" "docs T = ds"
    "chg T = [0 ..< length ?bs]" "pos_placed lo ?bs T ops" "sorted_wrt (<) (map (ev_key ?bs) T)" by blast
  have bld: "map co_bld ops = ?bs" and ch: "set (chg T) \<subseteq> {..< length ?bs}" using w(4) by (simp_all add: pos_placed_def)
  have len: "length ops = length g" using arg_cong [OF bld, of length] by simp
  let ?W = "weave ops T"
  have "rights ?W = ops" using w(3) len map_nth [of ops] by (simp add: weave_sel)
  moreover have "is_map_key (r_key r) \<and> \<not> r_insert r" if r: "r \<in> set (map wrow ?W)" for r
  proof -
    obtain e where e: "e \<in> set ?W" "r = wrow e" using r by auto
    show ?thesis
    proof (cases e)
      case (Inl d)
      then have "d \<in> set ds" using e(1) w(2) weave_sel(1) [of ops T] by (simp add: in_lefts [symmetric])
      then show ?thesis using ok Inl e(2) by (auto simp: span_ok_def)
    next
      case (Inr c)
      then have "c \<in> set ops" using e(1) calculation by (simp add: in_rights [symmetric])
      then have "co_bld c \<in> co_bld ` set g" using bld by (metis image_eqI image_set)
      then show ?thesis using fits Inr e(2) by (auto simp: co_key_def co_insert_def)
    qed
  qed
  moreover have "sorted_wrt (<) (map rkey (map wrow ?W))" using w(5) weave_rows_events(2) [OF bld ch] by simp
  ultimately show ?thesis using w(1,2) weave_at_pos [OF w(4)] bld
    by (intro exI [of _ ops] exI [of _ mw] exI [of _ ?W]) (simp add: weave_sel)
qed

lemma walk_list_span:
  assumes ok: "span_ok ob (Some t) (map drow ds) g" and t: "is_sequence t" and at: "rows_at lo ds"
  shows "\<exists>ut succ' W. walk_list (untangler_new conflicts g pred (lo + length ds)) ds succ = Some (ut, succ')
    \<and> lefts W = ds \<and> rights W = ut_change_ops ut \<and> at_pos lo W \<and> mset (map co_bld (ut_change_ops ut)) = mset (map co_bld g)
    \<and> group_ok (Some t) (map wrow W)"
proof -
  let ?bs = "map co_bld g"
  have fits: "\<forall>c \<in> set g. co_obj c = ob \<and> \<not> is_map_key (co_key c) \<and> key_op (co_key c) < co_id c" using ok t by (auto simp: span_ok_def)
  have can: "canon (map ditem ds)" and mk: "\<forall>d \<in> set ds. \<not> is_map_key (do_key d)"
    using ok t by (auto simp: span_ok_def comp_def)
  have refs: "\<forall>c \<in> set g. key_op (co_key c) \<in> set (elems (map ditem ds)) \<or> key_op (co_key c) \<in> set (elems (map citem g))
    \<or> co_insert c \<and> key_op (co_key c) = head_op"
    using ok fits by (auto simp: span_ok_def refs_ok_def comp_def)
  have so: "sorted_wrt (\<lambda>a b. rank a < rank b) g" "distinct (map co_id g)" using ok by (simp_all add: span_ok_def)
  have bok: "batch_ok ?bs (set (elems (map ditem ds)))" by (rule group_seq [OF so fits refs])
  have "map ob_id ?bs = map co_id g" "map r_id (map drow ds) = map do_id ds" by (simp_all add: co_id_def comp_def)
  then have dis: "distinct (map do_id ds @ map ob_id ?bs)" using ok unfolding span_ok_def by metis
  have pos: "\<forall>c \<in> set g. co_pos c = None" using ok by (simp add: span_ok_def)
  from walk_list_trace [OF bok can dis refl pos at refl] obtain T ops ut succ' where w:
    "walk_list (untangler_new conflicts g pred (lo + length ds)) ds succ = Some (ut, succ')" "trace_ok ?bs ds T []"
    "ops_placed lo ?bs T ops" "set (chg T) = {..< length ?bs}" "ut_change_ops ut = map ((!) ops) (chg T)" by blast
  let ?W = "weave ops T"
  have bld: "map co_bld ops = ?bs" and ch: "set (chg T) \<subseteq> {..< length ?bs}" and dc: "distinct (chg T)"
    using w(3) by (simp_all add: ops_placed_def)
  have len: "length ops = length g" using arg_cong [OF bld, of length] by simp
  have docs: "docs T = ds" using trace_okD(1) [OF w(2)] by simp
  have "mset (chg T) = mset [0 ..< length ops]"
    by (rule set_eq_iff_mset_eq_distinct [THEN iffD1]) (use dc w(4) len in \<open>simp_all add: atLeast0LessThan\<close>)
  then have m: "mset (ut_change_ops ut) = mset ops" unfolding w(5) by (metis map_nth mset_map)
  have mk': "\<not> is_map_key (r_key r)" if r: "r \<in> set (map wrow ?W)" for r
  proof -
    obtain e where e: "e \<in> set ?W" "r = wrow e" using r by auto
    show ?thesis
    proof (cases e)
      case (Inl d)
      then have "d \<in> set ds" using e(1) docs weave_sel(1) [of ops T] by (simp add: in_lefts [symmetric])
      then show ?thesis using mk Inl e(2) by simp
    next
      case (Inr c)
      then have "c \<in> set (ut_change_ops ut)" using e(1) weave_sel(2) [of ops T] w(5) by (simp add: in_rights [symmetric])
      then have "c \<in> set ops" using m by (metis set_mset_mset)
      then have "co_bld c \<in> co_bld ` set g" using bld by (metis image_eqI image_set)
      then show ?thesis using fits Inr e(2) by (auto simp: co_key_def)
    qed
  qed
  have "canon (map ritem (map wrow ?W))" using trace_okD(3) [OF w(2)] weave_rows_events(1) [OF bld ch] by simp
  then have "group_ok (Some t) (map wrow ?W)" using t mk' by simp
  moreover have "mset (map co_bld (ut_change_ops ut)) = mset (map co_bld g)"
    using m bld by (metis mset_map)
  ultimately show ?thesis using w(1,5) docs weave_at_pos [OF ops_placed_pos [OF w(3)]]
    by (intro exI [of _ ut] exI [of _ succ'] exI [of _ ?W]) (simp add: weave_sel)
qed

text \<open>Both walks, as the span sees them.\<close>

lemma walk_span_one:
  assumes ok: "span_ok ob (object_type index ob) (map drow ds) g" and seek: "seek_to_obj rows ob (ws_pos s) = (lo, lo + length ds)"
    and ds: "ds = iter_range rows lo (lo + length ds)" and os: "os_obj os = ob" and g: "g = drop (os_start os) (take (os_end os) (ws_ops s))"
  shows "\<exists>s' W. walk_span rows index os s = Some s' \<and> lefts W = ds \<and> at_pos lo W \<and> ws_ops s' = set_span os (rights W) (ws_ops s)
    \<and> mset (map co_bld (rights W)) = mset (map co_bld g) \<and> group_ok (object_type index ob) (map wrow W) \<and> ws_pos s' = lo"
proof -
  have at: "rows_at lo ds" by (subst ds) (rule iter_range_at)
  obtain t where t: "object_type index ob = Some t" "t \<noteq> ObjTable"
  proof (cases "object_type index ob")
    case None
    then show ?thesis using ok by (simp add: span_ok_def)
  next
    case (Some a)
    then have "a \<noteq> ObjTable" using ok by (auto simp: span_ok_def)
    then show ?thesis using Some that by blast
  qed
  show ?thesis
  proof (cases "t = ObjMap")
    case True
    then have ok': "span_ok ob (Some ObjMap) (map drow ds) g" using ok t by simp
    from walk_map_span [OF ok' at, of "ws_pred s" "ws_succ s" "ws_conflicts s"] obtain ops mw W where w:
      "walk_map (map_walker_new ds (lo + length ds) (ws_pred s) (ws_succ s) (ws_conflicts s)) g = (ops, mw)"
      "lefts W = ds" "rights W = ops" "at_pos lo W" "mset (map co_bld ops) = mset (map co_bld g)" "group_ok (Some ObjMap) (map wrow W)"
      by blast
    have "walk_span rows index os s = Some \<lparr>ws_ops = set_span os ops (ws_ops s), ws_pred = mw_pred mw, ws_succ = mw_succ mw,
        ws_conflicts = mw_conflicts mw, ws_pos = lo\<rparr>"
      unfolding walk_span_def os seek prod.case Let_def ds [symmetric] g [symmetric] t(1) w(1) True by simp
    then show ?thesis using w(2-6) t(1) True by (intro exI conjI) (assumption | simp)+
  next
    case False
    then have sq: "is_sequence t" using t(2) by (cases t) (simp_all add: is_sequence_def)
    have ok': "span_ok ob (Some t) (map drow ds) g" using ok t by simp
    from walk_list_span [OF ok' sq at, of "ws_conflicts s" "ws_pred s" "ws_succ s"] obtain ut succ' W where w:
      "walk_list (untangler_new (ws_conflicts s) g (ws_pred s) (lo + length ds)) ds (ws_succ s) = Some (ut, succ')"
      "lefts W = ds" "rights W = ut_change_ops ut" "at_pos lo W" "mset (map co_bld (ut_change_ops ut)) = mset (map co_bld g)"
      "group_ok (Some t) (map wrow W)" by blast
    have "walk_span rows index os s = Some \<lparr>ws_ops = set_span os (ut_change_ops ut) (ws_ops s), ws_pred = ut_pred ut, ws_succ = succ',
        ws_conflicts = ut_conflicts ut, ws_pos = lo\<rparr>"
      unfolding walk_span_def os seek prod.case Let_def ds [symmetric] g [symmetric] t(1) w(1) using False sq by simp
    then show ?thesis using w(2-6) t(1) by (intro exI conjI) (assumption | simp)+
  qed
qed

end
