(* ===== verification/Merge_Spans.thy ===== *)
theory Merge_Spans
  imports Merge_Doc
begin

text \<open>
  The walk over all objects of a batch: span after span the weaving grows by the rows before the object
  and by the weaving of the object. In the end it holds all rows and all operations, in order.
\<close>

subsection \<open>Seeking an object\<close>

lemma takeWhile_all_append: "\<forall>x \<in> set xs. P x \<Longrightarrow> takeWhile P (xs @ ys) = xs @ takeWhile P ys"
  by (induction xs) auto

lemma seek_split:
  assumes so: "sorted_wrt (\<lambda>a b. r_obj a \<le> r_obj b) rows" and hi: "hi \<le> length rows" "pos \<le> hi" and less: "\<forall>r \<in> set (take hi rows). r_obj r < ob"
  obtains M G S where "rows = take hi rows @ M @ G @ S" "\<forall>r \<in> set M. r_obj r < ob" "\<forall>r \<in> set G. r_obj r = ob" "\<forall>r \<in> set S. ob < r_obj r"
    "G = rows_of ob rows" "seek_to_obj rows ob pos = (hi + length M, hi + length M + length G)"
proof -
  let ?P = "take hi rows" and ?Q = "drop hi rows"
  define M where "M = takeWhile (\<lambda>r. r_obj r < ob) ?Q"
  define Q where "Q = dropWhile (\<lambda>r. r_obj r < ob) ?Q"
  define G where "G = takeWhile (\<lambda>r. r_obj r = ob) Q"
  define S where "S = dropWhile (\<lambda>r. r_obj r = ob) Q"
  have MQ: "?Q = M @ Q" and GS: "Q = G @ S" by (simp_all add: M_def Q_def G_def S_def)
  have rows: "rows = ?P @ M @ G @ S" using MQ GS by (metis append_take_drop_id)
  have soQ: "sorted_wrt (\<lambda>a b. r_obj a \<le> r_obj b) Q" and soS: "sorted_wrt (\<lambda>a b. r_obj a \<le> r_obj b) S"
  proof -
    have "sorted_wrt (\<lambda>a b. r_obj a \<le> r_obj b) (take hi rows @ M @ G @ S)" using so by (simp only: rows [symmetric])
    then show "sorted_wrt (\<lambda>a b. r_obj a \<le> r_obj b) Q" "sorted_wrt (\<lambda>a b. r_obj a \<le> r_obj b) S"
      unfolding GS by (simp_all add: sorted_wrt_append)
  qed
  have M: "\<forall>r \<in> set M. r_obj r < ob" unfolding M_def by (auto dest: set_takeWhileD)
  have G: "\<forall>r \<in> set G. r_obj r = ob" unfolding G_def by (auto dest: set_takeWhileD)
  have Q: "\<forall>r \<in> set Q. ob \<le> r_obj r"
  proof (cases Q)
    case (Cons q qs)
    then have "\<not> r_obj q < ob" unfolding Q_def by (simp add: dropWhile_eq_Cons_conv)
    then show ?thesis using soQ Cons by fastforce
  qed simp
  have S: "\<forall>r \<in> set S. ob < r_obj r"
  proof (cases S)
    case (Cons q qs)
    then have "r_obj q \<noteq> ob" unfolding S_def by (simp add: dropWhile_eq_Cons_conv)
    moreover have "ob \<le> r_obj q" using Q GS Cons by simp
    ultimately have "ob < r_obj q" by simp
    then show ?thesis using soS Cons by fastforce
  qed simp
  have "rows_of ob rows = rows_of ob ?P @ rows_of ob M @ rows_of ob G @ rows_of ob S"
    using arg_cong [OF rows, of "rows_of ob"] by simp
  moreover have "rows_of ob ?P = []" "rows_of ob M = []" "rows_of ob S = []" "rows_of ob G = G"
    using less M S G by (auto simp: filter_empty_conv)
  ultimately have GR: "G = rows_of ob rows" by simp
  have "drop pos rows = drop pos ?P @ ?Q" using hi by (metis append_take_drop_id drop_append diff_is_0_eq drop_0 length_take min.absorb2)
  moreover have "\<forall>r \<in> set (drop pos ?P). r_obj r < ob" using less by (auto dest: in_set_dropD)
  ultimately have lo: "pos + length (takeWhile (\<lambda>r. r_obj r < ob) (drop pos rows)) = hi + length M"
    using hi by (simp add: takeWhile_all_append M_def)
  have "drop (hi + length M) rows = Q" using MQ by (metis add.commute append_eq_conv_conj drop_drop)
  then have "seek_to_obj rows ob pos = (hi + length M, hi + length M + length G)"
    using lo by (simp add: seek_to_obj_def Let_def G_def)
  then show thesis using that rows M G S GR by blast
qed

subsection \<open>The invariant\<close>

definition batch_fits :: "row list \<Rightarrow> obj_index \<Rightarrow> change_op list \<Rightarrow> bool" where
  "batch_fits rows index ops \<longleftrightarrow> sorted_wrt (\<lambda>a b. rank a < rank b) ops \<and> distinct (map r_id rows @ map co_id ops)
     \<and> (\<forall>c \<in> set ops. op_fits (object_type index (co_obj c)) c \<and> co_pos c = None
          \<and> (\<not> is_map_key (co_key c) \<longrightarrow> key_op (co_key c) \<in> set (elems (map ritem (rows_of (co_obj c) rows)))
              \<or> key_op (co_key c) \<in> set (elems (map citem (filter (\<lambda>x. co_obj x = co_obj c) ops)))
              \<or> co_insert c \<and> key_op (co_key c) = head_op))"

definition walk_inv :: "row list \<Rightarrow> obj_index \<Rightarrow> change_op list \<Rightarrow> nat \<Rightarrow> nat \<Rightarrow> weaving \<Rightarrow> walk_state \<Rightarrow> bool" where
  "walk_inv rows index ops k hi W s \<longleftrightarrow> lefts W = iter_range rows 0 hi \<and> hi \<le> length rows \<and> ws_pos s \<le> hi
     \<and> rights W = take k (ws_ops s) \<and> drop k (ws_ops s) = drop k ops \<and> length (ws_ops s) = length ops \<and> k \<le> length ops
     \<and> mset (map co_bld (rights W)) = mset (map co_bld (take k ops)) \<and> at_pos 0 W
     \<and> groups_ok index (map wrow W)
     \<and> (\<forall>r \<in> set (map wrow W). \<forall>c \<in> set (drop k ops). r_obj r < co_obj c)
     \<and> (\<forall>r \<in> set (map wrow W). \<forall>q \<in> set (drop hi rows). r_obj r < r_obj q)"

lemma walk_invD:
  assumes "walk_inv rows index ops k hi W s"
  shows "lefts W = iter_range rows 0 hi" "hi \<le> length rows" "ws_pos s \<le> hi" "rights W = take k (ws_ops s)" "drop k (ws_ops s) = drop k ops"
    "length (ws_ops s) = length ops" "k \<le> length ops" "mset (map co_bld (rights W)) = mset (map co_bld (take k ops))" "at_pos 0 W"
    "groups_ok index (map wrow W)" "\<And>r c. r \<in> set (map wrow W) \<Longrightarrow> c \<in> set (drop k ops) \<Longrightarrow> r_obj r < co_obj c"
    "\<And>r q. r \<in> set (map wrow W) \<Longrightarrow> q \<in> set (drop hi rows) \<Longrightarrow> r_obj r < r_obj q"
  using assms unfolding walk_inv_def by blast+

lemma rank_obj: "rank a < rank b \<Longrightarrow> co_obj a \<le> co_obj b"
  by (auto simp: rank_def less_imp_le)

lemma fits_empty: "op_fits t c \<Longrightarrow> group_ok t []"
  by (auto simp: op_fits_def group_ok_def canon.Nil split: option.splits obj_type.splits)

lemma obj_of_bld: "c \<in> set cs \<Longrightarrow> mset (map co_bld cs) = mset (map co_bld ds) \<Longrightarrow> \<exists>d \<in> set ds. co_bld d = co_bld c"
proof -
  assume c: "c \<in> set cs" and m: "mset (map co_bld cs) = mset (map co_bld ds)"
  have "set (map co_bld cs) = set (map co_bld ds)" using m by (rule mset_eq_setD)
  then show "\<exists>d \<in> set ds. co_bld d = co_bld c" using c by (metis (no_types, lifting) image_iff image_set imageI)
qed

lemma wrow_obj:
  assumes "r \<in> set (map wrow W)" and "\<forall>d \<in> set (lefts W). do_obj d = ob" and "\<forall>c \<in> set (rights W). co_obj c = ob"
  shows "r_obj r = ob"
proof -
  obtain e where e: "e \<in> set W" "r = wrow e" using assms(1) by auto
  have "do_obj d = ob" if "e = Inl d" for d using assms(2) e(1) that by (simp add: in_lefts)
  moreover have "co_obj c = ob" if "e = Inr c" for c using assms(3) e(1) that by (simp add: in_rights)
  ultimately show ?thesis using e(2) by (cases e) simp_all
qed

lemma drow_in: "d \<in> set (lefts W) \<Longrightarrow> drow d \<in> set (map wrow W)"
  by (force simp: in_lefts)

lemma crow_in: "c \<in> set (rights W) \<Longrightarrow> strip (row_of c) \<in> set (map wrow W)"
  by (force simp: in_rights)

lemma walk_inv_step:
  assumes inv: "walk_inv rows index ops k hi W s" and rows: "groups_ok index rows" and fits: "batch_fits rows index ops"
    and g: "drop k ops = g @ ops'" "g \<noteq> []" "\<forall>c \<in> set g. co_obj c = ob" "ops' \<noteq> [] \<longrightarrow> co_obj (hd ops') \<noteq> ob"
    and os: "os_obj os = ob" "os_start os = k" "os_end os = k + length g"
  shows "\<exists>s' W' hi'. walk_span rows index os s = Some s' \<and> walk_inv rows index ops (k + length g) hi' W' s'"
proof -
  note v = walk_invD [OF inv]
  have so: "sorted_wrt (\<lambda>a b. rank a < rank b) (g @ ops')" "sorted_wrt (\<lambda>a b. rank a < rank b) g"
  proof -
    have "sorted_wrt (\<lambda>a b. rank a < rank b) (take k ops @ drop k ops)" using fits by (simp add: batch_fits_def)
    then show "sorted_wrt (\<lambda>a b. rank a < rank b) (g @ ops')" unfolding g(1) by (simp add: sorted_wrt_append)
    then show "sorted_wrt (\<lambda>a b. rank a < rank b) g" by (simp add: sorted_wrt_append)
  qed
  obtain c0 where c0: "c0 \<in> set g" using g(2) by (meson last_in_set)
  have later: "ob < co_obj c" if c: "c \<in> set ops'" for c
  proof -
    obtain h t where ht: "ops' = h # t" using c by (cases ops') auto
    have "ob \<le> co_obj h" using so(1) c0 g(3) rank_obj ht by (fastforce simp: sorted_wrt_append)
    then have "ob < co_obj h" using g(4) ht by simp
    moreover have "co_obj h \<le> co_obj c" using so(1) c ht rank_obj by (auto simp: sorted_wrt_append)
    ultimately show ?thesis by simp
  qed
  have Wob: "r_obj r < ob" if "r \<in> set (map wrow W)" for r using v(11) [OF that, of c0] c0 g(1,3) by simp
  have strip0: "map drow (lefts W) = map strip (take hi rows)" using iter_range_rows [OF v(2), of 0] v(1) by simp
  have less: "\<forall>r \<in> set (take hi rows). r_obj r < ob"
  proof
    fix r assume "r \<in> set (take hi rows)"
    then have "strip r \<in> set (map drow (lefts W))" unfolding strip0 by simp
    then obtain d where "d \<in> set (lefts W)" "strip r = drow d" by auto
    then show "r_obj r < ob" using Wob [OF drow_in] by (metis strip_sel(2))
  qed
  have sr: "sorted_wrt (\<lambda>a b. r_obj a \<le> r_obj b) rows" using rows by (simp add: groups_ok_def)
  obtain M G S where sp: "rows = take hi rows @ M @ G @ S" "\<forall>r \<in> set M. r_obj r < ob" "\<forall>r \<in> set G. r_obj r = ob" "\<forall>r \<in> set S. ob < r_obj r"
    "G = rows_of ob rows" "seek_to_obj rows ob (ws_pos s) = (hi + length M, hi + length M + length G)"
    using seek_split [OF sr v(2,3) less] by blast
  let ?lo = "hi + length M" and ?hi = "hi + length M + length G"
  let ?ds = "iter_range rows ?lo ?hi" and ?mid = "iter_range rows hi ?lo"
  have lenP: "length (take hi rows) = hi" using v(2) by simp
  have rows': "drop hi rows = M @ G @ S"
    by (metis (no_types) append_eq_conv_conj lenP sp(1))
  have le: "?lo \<le> length rows" "?hi \<le> length rows"
    using arg_cong [OF rows', of length] v(2) by simp_all
  have midM: "map drow ?mid = map strip M"
  proof -
    have "drop hi (take ?lo rows) = take (length M) (drop hi rows)" by (simp add: drop_take)
    then show ?thesis using iter_range_rows [OF le(1), of hi] rows' by simp
  qed
  have dsG: "map drow ?ds = map strip G"
  proof -
    have "drop ?lo (take ?hi rows) = take (length G) (drop (length M) (drop hi rows))" by (simp add: drop_take add.commute)
    then show ?thesis using iter_range_rows [OF le(2), of ?lo] rows' by simp
  qed
  have dshi: "drop ?hi rows = S"
  proof -
    have "drop ?hi rows = drop (length M + length G) (drop hi rows)" by (simp add: add.assoc add.commute add.left_commute)
    then show ?thesis using rows' by simp
  qed
  have fit: "op_fits (object_type index ob) c \<and> co_pos c = None" if "c \<in> set g" for c
  proof -
    have "c \<in> set ops" using that g(1) by (metis UnCI in_set_dropD set_append)
    then show ?thesis using fits that g(3) by (auto simp: batch_fits_def)
  qed
  have inW: "c \<in> set g" if c: "c \<in> set ops" "co_obj c = ob" for c
  proof (rule ccontr)
    assume n: "c \<notin> set g"
    have "set ops = set (take k ops) \<union> set (g @ ops')" using g(1) by (metis append_take_drop_id set_append)
    then have "c \<in> set (take k ops)" using c later n by auto
    then obtain c' where "c' \<in> set (rights W)" "co_bld c' = co_bld c"
      using obj_of_bld [of c "take k ops" "rights W"] v(8) by metis
    then show False using Wob [OF crow_in] c(2) by (metis order_less_irrefl row_of_sel(2) strip_sel(2))
  qed
  have elems_mono: "set (elems (map citem xs)) \<subseteq> set (elems (map citem ys))" if "set xs \<subseteq> set ys" for xs ys
    using that by (auto simp: elems_def)
  have span: "span_ok ob (object_type index ob) (map drow ?ds) g"
    unfolding span_ok_def
  proof (intro conjI ballI)
    have "distinct (map r_id rows @ map co_id ops)" using fits by (simp add: batch_fits_def)
    moreover have "map co_id ops = map co_id (take k ops) @ map co_id g @ map co_id ops'"
      using g(1) by (metis append_take_drop_id map_append)
    moreover have "map r_id rows = map r_id (take hi rows) @ map r_id M @ map r_id G @ map r_id S"
      using arg_cong [OF sp(1), of "map r_id"] by simp
    ultimately have "distinct (map r_id G @ map co_id g)" by auto
    then show "distinct (map r_id (map drow ?ds) @ map co_id g)" unfolding dsG by (simp add: comp_def)
    show "group_ok (object_type index ob) (map drow ?ds)"
    proof (cases "G = []")
      case True
      have "group_ok (object_type index ob) []" using fits_empty fit [OF c0] by blast
      then show ?thesis unfolding dsG using True by simp
    next
      case False
      then obtain r where "r \<in> set G" by (meson last_in_set)
      then have "r \<in> set rows" "r_obj r = ob" unfolding sp(5) by simp_all
      then have "ob \<in> r_obj ` set rows" by blast
      then have "group_ok (object_type index ob) G" using rows unfolding groups_ok_def sp(5) by blast
      then show ?thesis unfolding dsG by (simp only: group_ok_strip)
    qed
    show "refs_ok (map drow ?ds) g"
      unfolding refs_ok_def dsG map_strip
    proof (intro ballI impI)
      fix c assume c: "c \<in> set g" "\<not> is_map_key (co_key c)"
      have co: "c \<in> set ops" using c(1) g(1) by (metis UnCI in_set_dropD set_append)
      have "set (filter (\<lambda>x. co_obj x = co_obj c) ops) \<subseteq> set g" using inW c(1) g(3) by auto
      note mono = elems_mono [OF this]
      have "key_op (co_key c) \<in> set (elems (map ritem (rows_of (co_obj c) rows)))
        \<or> key_op (co_key c) \<in> set (elems (map citem (filter (\<lambda>x. co_obj x = co_obj c) ops)))
        \<or> co_insert c \<and> key_op (co_key c) = head_op"
        using fits co c(2) unfolding batch_fits_def by blast
      moreover have "rows_of (co_obj c) rows = G" using c(1) g(3) sp(5) by simp
      ultimately show "key_op (co_key c) \<in> set (elems (map ritem G)) \<or> key_op (co_key c) \<in> set (elems (map citem g))
        \<or> co_insert c \<and> key_op (co_key c) = head_op"
        using mono by auto
    qed
    show "r_obj r = ob" if "r \<in> set (map drow ?ds)" for r using that sp(3) unfolding dsG by auto
  qed (use so(2) fit g(3) in auto)
  have gs: "g = drop (os_start os) (take (os_end os) (ws_ops s))"
    using v(5) g(1) by (simp add: os drop_take)
  have len: "?hi = ?lo + length ?ds" by simp
  obtain s' V where w: "walk_span rows index os s = Some s'" "lefts V = ?ds" "at_pos ?lo V" "ws_ops s' = set_span os (rights V) (ws_ops s)"
    "mset (map co_bld (rights V)) = mset (map co_bld g)" "group_ok (object_type index ob) (map wrow V)" "ws_pos s' = ?lo"
    using walk_span_one [OF span _ _ os(1) gs, of rows ?lo] sp(6) len by auto
  let ?W = "W @ map Inl ?mid @ V"
  have lenV: "length (rights V) = length g" using arg_cong [OF w(5), of size] by simp
  have Vob: "r_obj r = ob" if "r \<in> set (map wrow V)" for r
  proof (rule wrow_obj [OF that])
    show "\<forall>d \<in> set (lefts V). do_obj d = ob"
    proof
      fix d assume "d \<in> set (lefts V)"
      then have "drow d \<in> set (map strip G)" unfolding w(2) dsG [symmetric] by simp
      then obtain r where "r \<in> set G" "drow d = strip r" by auto
      then have "r_obj (drow d) = ob" using sp(3) by simp
      then show "do_obj d = ob" by simp
    qed
    show "\<forall>c \<in> set (rights V). co_obj c = ob"
    proof
      fix c assume "c \<in> set (rights V)"
      from obj_of_bld [OF this w(5)] obtain d where "d \<in> set g" "co_bld d = co_bld c" by blast
      then show "co_obj c = ob" using g(3) by auto
    qed
  qed
  have midob: "r_obj r < ob" if "r \<in> set (map drow ?mid)" for r using that sp(2) unfolding midM by auto
  have midW: "r_obj q < r_obj r" if "r \<in> set (map drow ?mid)" "q \<in> set (map wrow W)" for r q
    using v(12) [OF that(2)] that(1) unfolding midM rows' by auto
  have wW: "map wrow ?W = map wrow W @ map drow ?mid @ map wrow V" by (simp add: comp_def)
  have ops': "ws_ops s' = take k (ws_ops s) @ rights V @ drop (k + length g) (ws_ops s)"
    by (simp add: w(4) set_span_def os)
  have klen: "k + length g \<le> length ops" using arg_cong [OF g(1), of length] v(7) by simp
  have k': "length (take k (ws_ops s) @ rights V) = k + length g" using v(6,7) lenV by simp
  have dk: "drop (k + length g) ops = ops'" using g(1) by (metis add.commute append_eq_conv_conj drop_drop)
  have "walk_inv rows index ops (k + length g) ?hi ?W s'"
    unfolding walk_inv_def
  proof (intro conjI)
    show "lefts ?W = iter_range rows 0 ?hi"
      using v(1) w(2) iter_range_append [of hi ?lo ?hi rows] iter_range_append [of 0 hi ?hi rows] by simp
    show "rights ?W = take (k + length g) (ws_ops s')" unfolding ops' append_assoc [symmetric] using k' v(4) by simp
    have "drop (k + length g) (ws_ops s') = drop (k + length g) (ws_ops s)"
      unfolding ops' append_assoc [symmetric] using k' by simp
    also have "\<dots> = drop (k + length g) ops" using v(5) by (metis add.commute drop_drop)
    finally show "drop (k + length g) (ws_ops s') = drop (k + length g) ops" .
    show "length (ws_ops s') = length ops" unfolding ops' using v(6,7) lenV klen by simp
    show "mset (map co_bld (rights ?W)) = mset (map co_bld (take (k + length g) ops))"
    proof -
      have "take (k + length g) ops = take k ops @ g" by (simp add: take_add g(1))
      then show ?thesis using v(8) w(5) by simp
    qed
    show "at_pos 0 ?W" using v(1,9) w(3) by (simp add: at_pos_append)
    show "groups_ok index (map wrow ?W)"
      unfolding wW
    proof (intro groups_ok_append)
      show "groups_ok index (map wrow W)" by (rule v(10))
      have "groups_ok index M"
      proof (rule groups_ok_block [of index "take hi rows" M "G @ S"])
        show "groups_ok index (take hi rows @ M @ G @ S)" using rows sp(1) by simp
        show "\<forall>x \<in> set (take hi rows). \<forall>y \<in> set M. r_obj x < r_obj y"
        proof (intro ballI)
          fix x y assume x: "x \<in> set (take hi rows)" and y: "y \<in> set M"
          have "strip x \<in> set (map drow (lefts W))" using x unfolding strip0 by simp
          then obtain d where d: "d \<in> set (lefts W)" "strip x = drow d" by auto
          have "r_obj (drow d) < r_obj y" by (rule v(12) [OF drow_in [OF d(1)]]) (use y rows' in simp)
          then show "r_obj x < r_obj y" using d(2) by (metis strip_sel(2))
        qed
      qed
      then show "groups_ok index (map drow ?mid)" unfolding midM by (simp only: groups_ok_strip)
      show "groups_ok index (map wrow V)" by (rule groups_ok_one [OF _ w(6)]) (use Vob in blast)
      show "\<forall>x \<in> set (map drow ?mid). \<forall>y \<in> set (map wrow V). r_obj x < r_obj y" using midob Vob by metis
      show "\<forall>x \<in> set (map wrow W). \<forall>y \<in> set (map drow ?mid @ map wrow V). r_obj x < r_obj y"
        using midW Wob Vob by (metis Un_iff set_append)
    qed
    show "\<forall>r \<in> set (map wrow ?W). \<forall>c \<in> set (drop (k + length g) ops). r_obj r < co_obj c"
      unfolding wW dk using Wob midob Vob later by (metis Un_iff less_trans set_append)
    show "\<forall>r \<in> set (map wrow ?W). \<forall>q \<in> set (drop ?hi rows). r_obj r < r_obj q"
      unfolding wW dshi using Wob midob Vob sp(4) by (metis Un_iff less_trans set_append)
  qed (use le w(7) klen in simp_all)
  then show ?thesis using w(1) by blast
qed

lemma walk_spans_inv:
  assumes "walk_inv rows index ops k hi W s" and rows: "groups_ok index rows" and fits: "batch_fits rows index ops"
    and "spans_of k (drop k ops) oss"
  shows "\<exists>s' W' hi'. walk_spans rows index oss s = Some s' \<and> walk_inv rows index ops (length ops) hi' W' s'"
  using assms(1,4)
proof (induction oss arbitrary: k hi W s)
  case Nil
  then have "k = length ops" using walk_invD(7) [OF Nil(1)] by simp
  then show ?case using Nil(1) by auto
next
  case (Cons os oss)
  obtain g ops' where g: "drop k ops = g @ ops'" "g \<noteq> []" "\<forall>c \<in> set g. co_obj c = os_obj os" "ops' \<noteq> [] \<longrightarrow> co_obj (hd ops') \<noteq> os_obj os"
    "os_start os = k" "os_end os = k + length g" "spans_of (k + length g) ops' oss"
    using Cons.prems(2) unfolding spans_of.simps by blast
  obtain s1 W1 hi1 where s1: "walk_span rows index os s = Some s1" "walk_inv rows index ops (k + length g) hi1 W1 s1"
    using walk_inv_step [OF Cons.prems(1) rows fits g(1-4) refl g(5,6)] by blast
  have "drop (k + length g) ops = ops'" using g(1) by (metis add.commute append_eq_conv_conj drop_drop)
  then have "spans_of (k + length g) (drop (k + length g) ops) oss" using g(7) by simp
  from Cons.IH [OF s1(2) this] show ?case using s1(1) by simp
qed

end
