(* ===== verification/Merge_Document.thy ===== *)
theory Merge_Document
  imports Merge_Spans
begin

text \<open>
  Applying the operations of a batch to a document in order: it returns, the document is in order again
  and has the operations of the batch as its new rows. A set of operations has one order, so batches of
  operations commute.
\<close>

subsection \<open>What a batch has to be\<close>

abbreviation add_infos :: "obj_index \<Rightarrow> change_op list \<Rightarrow> obj_index" where
  "add_infos index cs \<equiv> foldl (\<lambda>ix c. add_obj_info c ix) index cs"

definition ops_fit :: "row list \<times> obj_index \<Rightarrow> change_op list \<Rightarrow> bool" where
  "ops_fit doc cs \<longleftrightarrow> (case doc of (rows, index) \<Rightarrow> distinct (map r_id rows @ map co_id cs)
     \<and> (\<forall>c \<in> set cs. co_pos c = None \<and> co_id c \<noteq> head_op \<and> op_fits (object_type (add_infos index cs) (co_obj c)) c
          \<and> (\<not> is_map_key (co_key c) \<longrightarrow> key_op (co_key c) \<in> set (elems (map ritem (rows_of (co_obj c) rows)))
              \<or> key_op (co_key c) \<in> set (elems (map citem (filter (\<lambda>x. co_obj x = co_obj c) cs)))
              \<or> co_insert c \<and> key_op (co_key c) = head_op)))"

lemma add_infos_iff:
  assumes "distinct (map co_id cs)"
  shows "add_infos index cs i = Some info \<longleftrightarrow> (\<exists>c \<in> set cs. co_id c = i \<and> co_obj_info c = Some info)
    \<or> index i = Some info \<and> \<not> (\<exists>c \<in> set cs. co_id c = i \<and> co_obj_info c \<noteq> None)"
  using assms
proof (induction cs rule: rev_induct)
  case (snoc c cs)
  then have IH: "add_infos index cs i = Some info \<longleftrightarrow> (\<exists>c \<in> set cs. co_id c = i \<and> co_obj_info c = Some info)
    \<or> index i = Some info \<and> \<not> (\<exists>c \<in> set cs. co_id c = i \<and> co_obj_info c \<noteq> None)" by simp
  show ?case
  proof (cases "co_obj_info c")
    case None
    then have "add_infos index (cs @ [c]) i = add_infos index cs i" by (simp add: add_obj_info_def)
    then show ?thesis using IH None by auto
  next
    case (Some x)
    have new: "co_id d \<noteq> co_id c" if d: "d \<in> set cs" for d
    proof -
      have "co_id d \<in> co_id ` set cs" using d by simp
      then show ?thesis using snoc.prems by auto
    qed
    have "add_infos index (cs @ [c]) = (add_infos index cs)(co_id c \<mapsto> x)" using Some by (simp add: add_obj_info_def)
    then show ?thesis using IH Some new by (cases "co_id c = i") auto
  qed
qed simp

lemma obj_info_bld: "co_bld c = co_bld d \<Longrightarrow> co_obj_info c = co_obj_info d" "co_bld c = co_bld d \<Longrightarrow> co_id c = co_id d"
  by (simp_all add: co_obj_info_def co_id_def)

lemma add_infos_perm:
  assumes "mset (map co_bld cs) = mset (map co_bld ds)" and "distinct (map co_id cs)"
  shows "add_infos index cs = add_infos index ds"
proof -
  have ids: "map co_id xs = map ob_id (map co_bld xs)" for xs by (simp add: co_id_def comp_def)
  have "mset (map co_id cs) = mset (map co_id ds)" unfolding ids using assms(1) by (metis mset_map)
  then have d: "distinct (map co_id ds)" using assms(2) mset_eq_imp_distinct_iff by blast
  have sub: "(\<exists>c \<in> set cs. co_id c = i \<and> P (co_obj_info c)) \<longleftrightarrow> (\<exists>c \<in> set ds. co_id c = i \<and> P (co_obj_info c))" for i P
    using obj_of_bld [OF _ assms(1)] obj_of_bld [OF _ assms(1) [symmetric]] obj_info_bld by metis
  have "add_infos index cs i = Some info \<longleftrightarrow> add_infos index ds i = Some info" for i info
    unfolding add_infos_iff [OF assms(2)] add_infos_iff [OF d] using sub [of i "\<lambda>x. x = Some info"] sub [of i "\<lambda>x. x \<noteq> None"] by simp
  then show ?thesis by (intro ext) (metis not_None_eq)
qed

lemma fit_kind:
  assumes fit: "ops_fit (rows, index) cs"
  shows "same_kind cs"
proof -
  have "is_map_key (co_elemid_or_key c) \<longleftrightarrow> object_type (add_infos index cs) (co_obj c) = Some ObjMap" if "c \<in> set cs" for c
    by (rule fits_kind) (use fit that in \<open>simp add: ops_fit_def\<close>)
  then show ?thesis by (simp add: same_kind_def)
qed

lemma elems_citem_set: "set xs = set ys \<Longrightarrow> set (elems (map citem xs)) = set (elems (map citem ys))"
  by (auto simp: elems_def)

lemma fit_sorted:
  assumes "ops_fit (rows, index) cs"
  shows "batch_fits rows (add_infos index cs) (sort_key rank cs)"
proof -
  have d: "distinct (map r_id rows @ map co_id cs)" using assms by (simp add: ops_fit_def)
  then have "distinct (map co_id cs)" by simp
  from sort_rank_strict [OF this] have so: "sorted_wrt (\<lambda>a b. rank a < rank b) (sort_key rank cs)" .
  have "mset (map co_id (sort_key rank cs)) = mset (map co_id cs)" by simp
  then have "distinct (map r_id rows @ map co_id (sort_key rank cs))"
    using d mset_eq_setD [of "map co_id (sort_key rank cs)" "map co_id cs"] mset_eq_imp_distinct_iff by (metis distinct_append)
  moreover have "set (elems (map citem (filter P (sort_key rank cs)))) = set (elems (map citem (filter P cs)))" for P
    by (rule elems_citem_set) simp
  ultimately show ?thesis using so assms by (simp add: batch_fits_def ops_fit_def)
qed

subsection \<open>The result\<close>

lemma group_type: "group_ok t rs \<Longrightarrow> t \<noteq> None"
  by (cases t) simp_all

lemma old_types:
  assumes doc: "doc_ok (rows, index)" and fit: "ops_fit (rows, index) cs" and ob: "ob \<in> r_obj ` set rows"
  shows "object_type (add_infos index cs) ob = object_type index ob"
proof (cases "is_root ob")
  case False
  have "group_ok (object_type index ob) (rows_of ob rows)" using doc ob unfolding doc_ok_def groups_ok_def by blast
  then obtain info where i: "index (obj_op ob) = Some info" using group_type False by (force simp: object_type_def)
  then obtain r where "r \<in> set rows" "r_id r = obj_op ob" using doc by (auto simp: doc_ok_def)
  then have "obj_op ob \<notin> co_id ` set cs" using fit by (auto simp: ops_fit_def disjoint_iff)
  then have "\<not> (\<exists>c \<in> set cs. co_id c = obj_op ob \<and> co_obj_info c \<noteq> None)" by (metis imageI)
  moreover have "distinct (map co_id cs)" using fit by (simp add: ops_fit_def)
  ultimately have "add_infos index cs (obj_op ob) = Some info" using add_infos_iff [of cs index "obj_op ob" info] i by blast
  then show ?thesis using i by (simp add: object_type_def)
qed (simp add: object_type_def)

lemma old_groups:
  assumes "doc_ok (rows, index)" "ops_fit (rows, index) cs"
  shows "groups_ok (add_infos index cs) rows"
  using assms(1) old_types [OF assms] by (auto simp: doc_ok_def groups_ok_def)

lemma wrow_del: "(r_action (wrow (Inr c)) \<noteq> DeleteAction) = kept_ev (Inr c)"
  by (simp add: kept_ev_def is_del_def)

lemma strip_bld: "co_bld c = co_bld d \<Longrightarrow> strip (row_of c) = strip (row_of d)"
  by (simp add: strip_def row_of_def co_id_def co_key_def co_insert_def)

definition new_rows :: "change_op list \<Rightarrow> row multiset" where
  "new_rows cs = mset (map (\<lambda>c. strip (row_of c)) (kept cs))"

lemma new_rows_perm: "mset (map co_bld cs) = mset (map co_bld ds) \<Longrightarrow> new_rows cs = new_rows ds"
proof -
  define f where "f b = strip (row_of \<lparr>co_succ = [], co_pos = None, co_subsort = 0, co_conflicted = False, co_bld = b\<rparr>)" for b
  have f: "strip (row_of c) = f (co_bld c)" for c unfolding f_def by (rule strip_bld) simp
  have "new_rows cs = image_mset f (filter_mset (\<lambda>b. ob_action b \<noteq> DeleteAction) (mset (map co_bld cs)))" for cs
    by (simp add: new_rows_def f is_del_def filter_map comp_def flip: mset_filter mset_map)
  then show "mset (map co_bld cs) = mset (map co_bld ds) \<Longrightarrow> new_rows cs = new_rows ds" by simp
qed

lemma weaving_rows: "mset (map wrow (filter kept_ev W)) = mset (map drow (lefts W)) + new_rows (rights W)"
proof (induction W)
  case (Cons e W)
  then show ?case by (cases e) (simp_all add: kept_ev_def new_rows_def)
qed (simp add: new_rows_def)

lemma apply_ops_result:
  assumes doc: "doc_ok (rows, index)" and fit: "ops_fit (rows, index) cs"
  shows "\<exists>rows'. apply_ops cs (rows, index) = Some (rows', add_infos index cs) \<and> doc_ok (rows', add_infos index cs)
    \<and> mset (map strip rows') = mset (map strip rows) + new_rows cs"
proof -
  let ?ix = "add_infos index cs" and ?ops = "sort_key rank cs"
  have so: "sort_by op_cmp cs = ?ops" by (rule sort_ops [OF fit_kind [OF fit]])
  have dc: "distinct (map co_id cs)" using fit by (simp add: ops_fit_def)
  have bld: "mset (map co_bld cs) = mset (map co_bld ?ops)" by simp
  obtain pred spans where ol: "order_loop 0 0 None ?ops Map.empty index [] = (pred, ?ix, spans)"
  proof -
    have "fst (snd (order_loop 0 0 None ?ops Map.empty index [])) = add_infos index ?ops" by (rule order_loop_index)
    also have "\<dots> = ?ix" by (rule add_infos_perm [OF bld dc, symmetric])
    finally show thesis using that by (metis prod.collapse)
  qed
  have sp: "spans_of 0 ?ops spans" using order_spans [of ?ops Map.empty index] ol by simp
  have gr: "groups_ok ?ix rows" by (rule old_groups [OF doc fit])
  have bf: "batch_fits rows ?ix ?ops" by (rule fit_sorted [OF fit])
  let ?s0 = "\<lparr>ws_ops = ?ops, ws_pred = pred, ws_succ = [], ws_conflicts = [], ws_pos = 0\<rparr>"
  have inv0: "walk_inv rows ?ix ?ops 0 0 [] ?s0" by (simp add: walk_inv_def iter_range_def groups_ok_def)
  obtain s W hi where s: "walk_spans rows ?ix spans ?s0 = Some s" "walk_inv rows ?ix ?ops (length ?ops) hi W s"
    using walk_spans_inv [OF inv0 gr bf, of spans] sp by (metis drop_0)
  note v = walk_invD [OF s(2)]
  let ?tail = "iter_range rows hi (length rows)"
  let ?W = "W @ map Inl ?tail"
  have lefts: "lefts ?W = iter_range rows 0 (length rows)" using v(1,2) iter_range_append [of 0 hi "length rows" rows] by simp
  have rights: "rights ?W = ws_ops s" using v(4,6) by simp
  have at: "at_pos 0 ?W" using v(9) by (simp add: at_pos_append)
  have perm: "mset (map co_bld (ws_ops s)) = mset (map co_bld cs)" using v(4,6,8) by simp
  have drows: "map drow (iter_range rows 0 (length rows)) = map strip rows" using iter_range_rows [of "length rows" rows 0] by simp
  let ?rs = "add_succ (ws_succ s) (foldl adjust_top rows (ws_conflicts s))"
  define rows' where "rows' = insert_runs_of_ops (ws_ops s) ?rs"
  have rs: "map strip ?rs = map drow (lefts ?W)" unfolding lefts drows by (simp only: add_succ_strip adjust_top_strip)
  have "length (lefts ?W) = length ?rs" using arg_cong [OF rs, of length] by simp
  from insert_runs_weave [OF at this] have "rows' = weave_rows ?rs ?W" unfolding rights rows'_def .
  then have st: "map strip rows' = map wrow (filter kept_ev ?W)" using weave_rows_strip [OF rs] by simp
  have ix: "add_infos index (ws_ops s) = ?ix" by (rule add_infos_perm [OF perm [symmetric] dc, symmetric])
  have ap: "apply_ops cs (rows, index) = Some (rows', ?ix)"
    by (simp add: apply_ops_def order_ops_for_doc_def so ol s(1) ix rows'_def)
  have ms: "mset (map strip rows') = mset (map strip rows) + new_rows cs"
    using weaving_rows [of ?W] new_rows_perm [OF perm] unfolding st rights lefts drows by simp
  have gW: "groups_ok ?ix (map wrow ?W)"
  proof -
    have "map drow ?tail = map strip (drop hi rows)" using iter_range_rows [of "length rows" rows hi] by simp
    moreover have "groups_ok ?ix (drop hi rows)"
    proof (rule groups_ok_block [of ?ix "take hi rows" "drop hi rows" "[]"])
      show "\<forall>x \<in> set (take hi rows). \<forall>y \<in> set (drop hi rows). r_obj x < r_obj y"
      proof (intro ballI)
        fix x y assume x: "x \<in> set (take hi rows)" and y: "y \<in> set (drop hi rows)"
        have "map drow (lefts W) = map strip (take hi rows)" using iter_range_rows [OF v(2), of 0] v(1) by simp
        then have "strip x \<in> set (map drow (lefts W))" using x by simp
        then obtain d where d: "d \<in> set (lefts W)" "strip x = drow d" by auto
        have "r_obj (drow d) < r_obj y" by (rule v(12) [OF drow_in [OF d(1)] y])
        then show "r_obj x < r_obj y" using d(2) by (metis strip_sel(2))
      qed
    qed (use gr in simp)
    moreover have "map wrow ?W = map wrow W @ map drow ?tail" by (simp add: comp_def)
    ultimately show ?thesis using v(10,12) by (auto simp: groups_ok_strip intro!: groups_ok_append)
  qed
  have old: "\<forall>r \<in> set rows. r_action r \<noteq> DeleteAction \<and> r_id r \<noteq> head_op" using doc by (simp add: doc_ok_def)
  have cW: "\<exists>d \<in> set cs. co_bld d = co_bld c" if "Inr c \<in> set ?W" for c
    using that obj_of_bld [OF _ perm, of c] unfolding in_rights [symmetric] rights by blast
  have dW: "drow d \<in> set (map strip rows)" if "Inl d \<in> set ?W" for d
    using that drow_in [of d ?W] unfolding in_lefts [symmetric] lefts drows [symmetric] by simp
  have ke: "kept_ev e \<longleftrightarrow> r_action (wrow e) \<noteq> DeleteAction" if "e \<in> set ?W" for e
  proof (cases e)
    case (Inl d)
    then have "drow d \<in> set (map strip rows)" using dW that by blast
    then show ?thesis using Inl old by (auto simp: kept_ev_def)
  next
    case (Inr c)
    then show ?thesis by (simp add: kept_ev_def is_del_def)
  qed
  have ins: "r_insert r \<longrightarrow> r_action r \<noteq> DeleteAction" if r: "r \<in> set (map wrow ?W)" for r
  proof -
    obtain e where e: "e \<in> set ?W" "r = wrow e" using r unfolding set_map by blast
    show ?thesis
    proof (cases e)
      case (Inl d)
      then show ?thesis using ke [OF e(1)] e(2) by (simp add: kept_ev_def)
    next
      case (Inr c)
      then obtain d where d: "d \<in> set cs" "co_bld d = co_bld c" using cW e(1) by blast
      then have "op_fits (object_type ?ix (co_obj d)) d" using fit d(1) unfolding ops_fit_def prod.case by blast
      then have "co_insert d \<longrightarrow> \<not> is_del d" by (auto simp: op_fits_def split: option.splits obj_type.splits)
      then show ?thesis using Inr e(2) d(2) by (simp add: co_insert_def is_del_def)
    qed
  qed
  have "map wrow (filter kept_ev ?W) = filter (\<lambda>r. r_action r \<noteq> DeleteAction) (map wrow ?W)"
    using ke by (simp add: filter_map comp_def cong: filter_cong)
  then have g': "groups_ok ?ix (map strip rows')" unfolding st using groups_ok_filter [OF gW] ins by simp
  have sets: "set (map strip rows') = set (map strip rows) \<union> (\<lambda>c. strip (row_of c)) ` set (kept cs)"
    using arg_cong [OF ms, of set_mset] by (simp add: new_rows_def)
  have "doc_ok (rows', ?ix)"
    unfolding doc_ok_def prod.case
  proof (intro conjI)
    show "groups_ok ?ix rows'" using g' by (simp only: groups_ok_strip)
    have "mset (map r_id rows') = image_mset r_id (mset (map strip rows'))" by (simp add: multiset.map_comp comp_def)
    also have "\<dots> = mset (map r_id rows @ map co_id (kept cs))" unfolding ms by (simp add: new_rows_def multiset.map_comp comp_def)
    finally have m: "mset (map r_id rows') = mset (map r_id rows @ map co_id (kept cs))" .
    have "distinct (map r_id rows @ map co_id (kept cs))" using fit by (auto simp: ops_fit_def distinct_map_filter)
    then show "distinct (map r_id rows')" using m mset_eq_imp_distinct_iff by blast
    show "\<forall>r \<in> set rows'. r_action r \<noteq> DeleteAction \<and> r_id r \<noteq> head_op"
    proof
      fix r assume "r \<in> set rows'"
      then have "strip r \<in> set (map strip rows) \<union> (\<lambda>c. strip (row_of c)) ` set (kept cs)" unfolding sets [symmetric] by simp
      moreover have "\<forall>q \<in> set (map strip rows) \<union> (\<lambda>c. strip (row_of c)) ` set (kept cs). r_action q \<noteq> DeleteAction \<and> r_id q \<noteq> head_op"
        using old fit by (auto simp: ops_fit_def is_del_def)
      ultimately have "r_action (strip r) \<noteq> DeleteAction \<and> r_id (strip r) \<noteq> head_op" by blast
      then show "r_action r \<noteq> DeleteAction \<and> r_id r \<noteq> head_op" by simp
    qed
    have del: "co_obj_info c = None" if "is_del c" for c using that by (simp add: co_obj_info_def is_del_def obj_type_of_action_def)
    have info: "r_obj_info (strip r) = r_obj_info r" "r_obj_info (row_of c) = co_obj_info c" for r c
      by (simp_all add: r_obj_info_def co_obj_info_def)
    show "\<forall>i info. ?ix i = Some info \<longleftrightarrow> (\<exists>r \<in> set rows'. r_id r = i \<and> r_obj_info r = Some info)"
    proof (intro allI)
      fix i x
      have "(\<exists>r \<in> set rows'. r_id r = i \<and> r_obj_info r = Some x) \<longleftrightarrow> (\<exists>r \<in> set (map strip rows'). r_id r = i \<and> r_obj_info r = Some x)"
        by (simp add: info)
      also have "\<dots> \<longleftrightarrow> (\<exists>r \<in> set rows. r_id r = i \<and> r_obj_info r = Some x) \<or> (\<exists>c \<in> set cs. co_id c = i \<and> co_obj_info c = Some x)"
      proof -
        have "(\<exists>r \<in> (\<lambda>c. strip (row_of c)) ` set (kept cs). r_id r = i \<and> r_obj_info r = Some x)
          \<longleftrightarrow> (\<exists>c \<in> set cs. \<not> is_del c \<and> co_id c = i \<and> co_obj_info c = Some x)" by (auto simp: info)
        also have "\<dots> \<longleftrightarrow> (\<exists>c \<in> set cs. co_id c = i \<and> co_obj_info c = Some x)" using del by (metis option.distinct(1))
        moreover have "(\<exists>r \<in> set (map strip rows). r_id r = i \<and> r_obj_info r = Some x) \<longleftrightarrow> (\<exists>r \<in> set rows. r_id r = i \<and> r_obj_info r = Some x)"
          by (simp add: info)
        ultimately show ?thesis unfolding sets bex_Un by blast
      qed
      also have "(\<exists>r \<in> set rows. r_id r = i \<and> r_obj_info r = Some x) \<longleftrightarrow> index i = Some x" using doc by (simp add: doc_ok_def)
      also have "index i = Some x \<or> (\<exists>c \<in> set cs. co_id c = i \<and> co_obj_info c = Some x) \<longleftrightarrow> ?ix i = Some x"
      proof -
        have "\<not> (\<exists>c \<in> set cs. co_id c = i \<and> co_obj_info c \<noteq> None)" if ii: "index i = Some x"
        proof -
          obtain r where "r \<in> set rows" "r_id r = i" using ii doc by (auto simp: doc_ok_def)
          then show ?thesis using fit by (auto simp: ops_fit_def disjoint_iff)
        qed
        then show ?thesis unfolding add_infos_iff [OF dc] by blast
      qed
      finally show "?ix i = Some x \<longleftrightarrow> (\<exists>r \<in> set rows'. r_id r = i \<and> r_obj_info r = Some x)" by simp
    qed
  qed
  then show ?thesis using ap ms by blast
qed

end
