(* ===== verification/Merge_Props.thy ===== *)
theory Merge_Props
  imports Merge_Document
begin

text \<open>
  What a document in order promises: the check of the source accepts it, it is determined by the set of
  its rows, and batches of operations commute. Operations that a document cannot take make the merge
  panic.
\<close>

subsection \<open>The check of the order\<close>

definition stepper_of :: "row \<Rightarrow> op_stepper" where
  "stepper_of r = \<lparr>st_obj = r_obj r, st_key = r_elemid_or_key r, st_id = r_id r\<rparr>"

definition follows_row :: "row \<Rightarrow> row \<Rightarrow> bool" where
  "follows_row a b \<longleftrightarrow> fst (op_step b (stepper_of a))"

lemma validate_adjacent: "validate_loop rows st \<longleftrightarrow> (rows = [] \<or> fst (op_step (hd rows) st)) \<and> successively follows_row rows"
proof (induction rows arbitrary: st)
  case (Cons r rows)
  have "op_step r st = (fst (op_step r st), stepper_of r)" by (simp add: op_step_def stepper_of_def)
  then have "validate_loop (r # rows) st \<longleftrightarrow> fst (op_step r st) \<and> validate_loop rows (stepper_of r)"
    by (metis (no_types, lifting) case_prod_conv validate_loop.simps(2))
  then show ?case using Cons.IH [of "stepper_of r"] by (cases rows) (auto simp: follows_row_def)
qed simp

lemma successively_adjacent: "(\<And>xs a b ys. rows = xs @ a # b # ys \<Longrightarrow> Q a b) \<Longrightarrow> successively Q rows"
proof (induction rows rule: induct_list012)
  case (3 x y zs)
  have "Q x y" using "3.prems" [of "[]"] by simp
  moreover have "successively Q (y # zs)"
  proof (rule "3.IH"(2))
    fix xs a b ys assume "y # zs = xs @ a # b # ys"
    then show "Q a b" using "3.prems" [of "x # xs"] by simp
  qed
  ultimately show ?case by simp
qed simp_all

lemma after_last_mem: "es \<noteq> [] \<Longrightarrow> last es \<noteq> r \<Longrightarrow> r = head_op \<or> r \<in> set es \<Longrightarrow> last es \<in> set (after r es)"
proof -
  assume ne: "es \<noteq> []" and neq: "last es \<noteq> r" and r: "r = head_op \<or> r \<in> set es"
  then obtain fs e where es: "es = fs @ [e]" by (meson rev_exhaust)
  then have "r = head_op \<or> r \<in> set fs" using r neq by auto
  then show "last es \<in> set (after r es)" using es by (simp add: after_snoc)
qed

lemma seq_adjacent:
  assumes can: "canon (map ritem (xs @ [a, b]))" and dis: "distinct (map r_id (xs @ [a, b]))"
    and keys: "\<not> is_map_key (r_key a)" "\<not> is_map_key (r_key b)" and ob: "r_obj a = r_obj b"
  shows "follows_row a b"
proof -
  let ?ys = "map ritem (xs @ [a])"
  have c: "canon ?ys" and f: "follows ?ys (ritem b)" using can canon_snoc_iff [of ?ys "ritem b"] by simp_all
  have la: "elems ?ys \<noteq> []" "elem_of (ritem a) = last (elems ?ys)" using elem_last [OF c] by simp_all
  have st: "st_obj (stepper_of a) = r_obj a" "st_key (stepper_of a) = SeqKey (ElemId (elem_of (ritem a)))" "st_id (stepper_of a) = r_id a"
    using keys(1) by (auto simp: stepper_of_def r_elemid_or_key_def elem_of_def is_map_key_def; cases "r_key a"; simp)+
  obtain e where e: "r_key b = SeqKey e" using keys(2) by (cases "r_key b") (auto simp: is_map_key_def)
  show ?thesis
  proof (cases "r_insert b")
    case False
    then have "elem_of (ritem a) = elem_op e" "r_id a < r_id b" using f e by (auto simp: follows_def)
    then show ?thesis using False e ob by (simp add: follows_row_def op_step_def st r_elemid_or_key_def)
  next
    case True
    have "last (elems ?ys) \<in> set (elems ?ys)" using la(1) by (rule last_in_set)
    then have mem: "elem_of (ritem a) \<in> r_id ` set (xs @ [a])" using la(2) elems_ids [of ?ys] by (auto simp: image_image)
    have ne: "elem_of (ritem a) \<noteq> r_id b"
    proof
      assume "elem_of (ritem a) = r_id b"
      then have "r_id b \<in> r_id ` set (xs @ [a])" using mem by simp
      then show False using dis by simp
    qed
    have "elem_op e = elem_of (ritem a) \<or> r_id b < elem_of (ritem a)"
    proof (rule disjCI)
      assume "\<not> r_id b < elem_of (ritem a)"
      then have "elem_of (ritem a) \<notin> set (after (elem_op e) (elems ?ys))" using f True e by (auto simp: follows_def)
      moreover have "elem_op e = head_op \<or> elem_op e \<in> set (elems ?ys)" using f True e by (simp add: follows_def)
      ultimately show "elem_op e = elem_of (ritem a)" using after_last_mem [OF la(1)] la(2) by metis
    qed
    then have "e = ElemId (elem_of (ritem a)) \<or> ElemId (r_id b) < ElemId (elem_of (ritem a))"
      by (cases e) (auto simp: less_elem_id_def)
    then show ?thesis using True e ob ne by (auto simp: follows_row_def op_step_def st r_elemid_or_key_def)
  qed
qed

lemma map_adjacent:
  assumes "rkey a < rkey b" "is_map_key (r_key a)" "is_map_key (r_key b)" "\<not> r_insert a" "\<not> r_insert b" "r_obj a = r_obj b"
  shows "follows_row a b"
  using assms by (auto simp: follows_row_def op_step_def stepper_of_def r_elemid_or_key_def is_map_key_def key_id_def split: if_splits)

lemma canon_block: "canon (map ritem (xs @ ys)) \<Longrightarrow> canon (map ritem xs)"
  using canon_prefix by fastforce

lemma doc_adjacent:
  assumes doc: "doc_ok (xs @ a # b # ys, index)"
  shows "follows_row a b"
proof (cases "r_obj a = r_obj b")
  case False
  have "r_obj a \<le> r_obj b" using doc by (simp add: doc_ok_def groups_ok_def sorted_wrt_append)
  then have "r_obj a < r_obj b" "r_obj b \<noteq> r_obj a" using False by simp_all
  then show ?thesis by (simp add: follows_row_def op_step_def stepper_of_def)
next
  case True
  let ?ob = "r_obj b"
  have gr: "group_ok (object_type index ?ob) (rows_of ?ob xs @ [a, b] @ rows_of ?ob ys)"
    using doc True by (auto simp: doc_ok_def groups_ok_def)
  have "distinct (map r_id (xs @ a # b # ys))" using doc by (simp add: doc_ok_def)
  then have dis: "distinct (map r_id (rows_of ?ob xs @ [a, b]))" by (auto simp: distinct_map_filter)
  obtain t where t: "object_type index ?ob = Some t" using group_type [OF gr] by auto
  show ?thesis
  proof (cases "t = ObjMap")
    case True
    then show ?thesis using gr t \<open>r_obj a = r_obj b\<close> by (auto simp: sorted_wrt_append intro: map_adjacent)
  next
    case False
    then have sq: "is_sequence t" using gr t by (cases t) (auto simp: is_sequence_def)
    have "canon (map ritem ((rows_of ?ob xs @ [a, b]) @ rows_of ?ob ys))" using gr t sq by simp
    then have "canon (map ritem (rows_of ?ob xs @ [a, b]))" by (rule canon_block)
    then show ?thesis using seq_adjacent [OF _ dis] gr t sq \<open>r_obj a = r_obj b\<close> by simp
  qed
qed

lemma obj_root_le [simp]: "obj_root \<le> ob"
  by (simp add: less_eq_obj_id_def obj_root_def flip: head_op_def)

lemma doc_first:
  assumes doc: "doc_ok (r # rs, index)"
  shows "fst (op_step r stepper_default)"
proof (cases "r_obj r = obj_root")
  case False
  then have "obj_root < r_obj r" using obj_root_le [of "r_obj r"] by (metis le_neq_trans)
  then show ?thesis using False by (simp add: op_step_def stepper_default_def)
next
  case True
  have "group_ok (object_type index obj_root) (rows_of obj_root (r # rs))"
    using doc True by (simp add: doc_ok_def groups_ok_def)
  moreover have "object_type index obj_root = Some ObjMap" by (simp add: object_type_def is_root_def obj_root_def counter_def)
  ultimately have r: "is_map_key (r_key r)" "\<not> r_insert r" using True by simp_all
  have "r_id r \<noteq> head_op" using doc by (simp add: doc_ok_def)
  then have "OpId 0 0 < r_id r" using head_op_le [of "r_id r"] unfolding head_op_def by (metis le_neq_trans)
  then show ?thesis using r True by (auto simp: op_step_def stepper_default_def r_elemid_or_key_def is_map_key_def neq_Nil_conv)
qed

lemma doc_validates: "doc_ok (rows, index) \<Longrightarrow> validate_op_order rows"
proof -
  assume doc: "doc_ok (rows, index)"
  then have "successively follows_row rows" by (intro successively_adjacent) (use doc_adjacent in blast)
  moreover have "rows = [] \<or> fst (op_step (hd rows) stepper_default)" using doc doc_first by (cases rows) auto
  ultimately show ?thesis by (simp add: validate_op_order_def validate_adjacent)
qed

subsection \<open>One set of rows, one order\<close>

lemma ids_rows:
  assumes "map r_id xs = map r_id ys" "set xs = set ys" "distinct (map r_id xs)"
  shows "xs = ys"
proof -
  have "inj_on r_id (set xs \<union> set ys)" using assms(2,3) by (simp add: distinct_map)
  then show ?thesis using assms(1) map_inj_on by blast
qed

lemma group_unique:
  assumes "group_ok t xs" "group_ok t ys" "set xs = set ys" "distinct (map r_id xs)" "distinct (map r_id ys)"
  shows "xs = ys"
proof -
  obtain u where u: "t = Some u" "u \<noteq> ObjTable" using assms(1) by (cases t) (auto simp: group_ok_def split: obj_type.splits)
  have "map r_id xs = map r_id ys"
  proof (cases "u = ObjMap")
    case True
    then have "sorted_wrt (<) (map rkey xs)" "sorted_wrt (<) (map rkey ys)" using assms(1,2) u by simp_all
    then have "map rkey xs = map rkey ys" using assms(3) by (intro strict_sorted_equal) simp_all
    then have "map snd (map rkey xs) = map snd (map rkey ys)" by simp
    then show ?thesis by (simp add: key_id_def comp_def)
  next
    case False
    then have "is_sequence u" using u(2) by (cases u) (simp_all add: is_sequence_def)
    then have "canon (map ritem xs)" "canon (map ritem ys)" using assms(1,2) u by simp_all
    then have "map ritem xs = map ritem ys" using assms(3-5) by (intro canon_unique) (simp_all add: comp_def)
    then have "map it_id (map ritem xs) = map it_id (map ritem ys)" by simp
    then show ?thesis by (simp add: comp_def)
  qed
  then show ?thesis by (rule ids_rows [OF _ assms(3,4)])
qed

lemma blocks_unique:
  assumes "sorted_wrt (\<lambda>a b. r_obj a \<le> r_obj b) xs" "sorted_wrt (\<lambda>a b. r_obj a \<le> r_obj b) ys" "\<And>ob. rows_of ob xs = rows_of ob ys"
  shows "xs = ys"
  using assms
proof (induction xs arbitrary: ys)
  case Nil
  show ?case
  proof (cases ys)
    case (Cons y zs)
    then show ?thesis using Nil(3) [of "r_obj y"] by simp
  qed simp
next
  case (Cons x xs)
  have mem: "set (x # xs) = set ys"
  proof -
    have "r \<in> set (x # xs) \<longleftrightarrow> r \<in> set ys" for r
    proof -
      have "r \<in> set (rows_of (r_obj r) (x # xs)) \<longleftrightarrow> r \<in> set (rows_of (r_obj r) ys)"
        by (simp only: Cons.prems(3) [of "r_obj r"])
      then show ?thesis unfolding set_filter by simp
    qed
    then show ?thesis by (rule set_eqI)
  qed
  then obtain y zs where ys: "ys = y # zs" by (cases ys) auto
  have "y \<in> set (x # xs)" "x \<in> set (y # zs)" using mem ys by auto
  then have "r_obj x \<le> r_obj y" "r_obj y \<le> r_obj x" using Cons.prems(1,2) ys by auto
  then have ob: "r_obj x = r_obj y" by simp
  then have xy: "x = y" using Cons.prems(3) [of "r_obj x"] ys by simp
  have "rows_of ob xs = rows_of ob zs" for ob using Cons.prems(3) [of ob] ys xy by (cases "r_obj x = ob") simp_all
  then show ?case using Cons.IH [of zs] Cons.prems ys xy by simp
qed

lemma doc_unique:
  assumes doc1: "doc_ok (rows1, index1)" and doc2: "doc_ok (rows2, index2)" and eq: "set (map strip rows1) = set (map strip rows2)"
  shows "map strip rows1 = map strip rows2 \<and> index1 = index2"
proof -
  have info: "r_obj_info (strip r) = r_obj_info r" for r by (simp add: r_obj_info_def)
  have ex: "(\<exists>r \<in> set rows. r_id r = i \<and> r_obj_info r = Some x) \<longleftrightarrow> (\<exists>r \<in> set (map strip rows). r_id r = i \<and> r_obj_info r = Some x)" for rows i x
    by (simp add: info)
  have "index1 i = Some x \<longleftrightarrow> index2 i = Some x" for i x
  proof -
    have "index1 i = Some x \<longleftrightarrow> (\<exists>r \<in> set rows1. r_id r = i \<and> r_obj_info r = Some x)" using doc1 by (simp add: doc_ok_def)
    moreover have "index2 i = Some x \<longleftrightarrow> (\<exists>r \<in> set rows2. r_id r = i \<and> r_obj_info r = Some x)" using doc2 by (simp add: doc_ok_def)
    ultimately show ?thesis unfolding ex [of rows1] ex [of rows2] eq by blast
  qed
  then have ix: "index1 = index2" by (intro ext) (metis not_None_eq)
  let ?xs = "map strip rows1" and ?ys = "map strip rows2"
  have g: "groups_ok index1 ?xs" "groups_ok index1 ?ys" and d: "distinct (map r_id ?xs)" "distinct (map r_id ?ys)"
    using doc1 doc2 ix by (simp_all add: doc_ok_def groups_ok_strip comp_def)
  have ro: "rows_of ob ?xs = rows_of ob ?ys" for ob
  proof (cases "ob \<in> r_obj ` set ?xs")
    case True
    show ?thesis
    proof (rule group_unique)
      show "group_ok (object_type index1 ob) (rows_of ob ?xs)" using g(1) True unfolding groups_ok_def by blast
      have "ob \<in> r_obj ` set ?ys" using True eq by (simp only:)
      then show "group_ok (object_type index1 ob) (rows_of ob ?ys)" using g(2) unfolding groups_ok_def by blast
      show "set (rows_of ob ?xs) = set (rows_of ob ?ys)" using eq by (simp only: set_filter)
    qed (use d in \<open>simp_all only: distinct_map_filter\<close>)
  next
    case False
    then have "ob \<notin> r_obj ` set ?ys" using eq by (simp only:) simp
    have none: "rows_of ob zs = []" if "ob \<notin> r_obj ` set zs" for zs using that by (auto simp: filter_empty_conv)
    have "rows_of ob ?xs = []" "rows_of ob ?ys = []"
      by (rule none, rule False) (rule none, rule \<open>ob \<notin> r_obj ` set ?ys\<close>)
    then show ?thesis by simp
  qed
  have so: "sorted_wrt (\<lambda>a b. r_obj a \<le> r_obj b) ?xs" "sorted_wrt (\<lambda>a b. r_obj a \<le> r_obj b) ?ys"
    using g unfolding groups_ok_def by blast+
  have "?xs = ?ys" by (rule blocks_unique [OF so ro])
  then show ?thesis using ix by simp
qed

end
