(* ===== verification/Merge_Example.thy ===== *)
theory Merge_Example
  imports Merge_Props
begin

text \<open>
  A document with a list of two elements and a value in the root map, and the batches of two more actors:
  both insert at the head of the list, one overwrites an element and deletes the value, the other sets the
  value.
\<close>

subsection \<open>The document\<close>

lemma canon_all: "canon xs \<longleftrightarrow> list_all (\<lambda>k. follows (take k xs) (xs ! k)) [0 ..< length xs]"
proof (induction xs rule: rev_induct)
  case (snoc x xs)
  have "list_all (\<lambda>k. follows (take k (xs @ [x])) ((xs @ [x]) ! k)) [0 ..< length xs] = list_all (\<lambda>k. follows (take k xs) (xs ! k)) [0 ..< length xs]"
    by (rule list.pred_cong) (simp_all add: nth_append)
  then show ?case using snoc by (simp add: canon_snoc_iff)
qed (simp add: canon.Nil)

definition ex_list :: obj_id where
  "ex_list = ObjId (OpId 1 0)"

definition ex_row :: "op_id \<Rightarrow> action \<Rightarrow> obj_id \<Rightarrow> key_ref \<Rightarrow> bool \<Rightarrow> row" where
  "ex_row i a ob k ins = \<lparr>r_id = i, r_action = a, r_obj = ob, r_key = k, r_insert = ins, r_value = SvNull, r_expand = False,
     r_mark_name = None, r_succ = [], r_visible = True, r_top = True\<rparr>"

definition ex_rows :: "row list" where
  "ex_rows = [ex_row (OpId 1 0) MakeList obj_root (MapKey [1]) False, ex_row (OpId 4 0) SetAction obj_root (MapKey [2]) False,
     ex_row (OpId 2 0) SetAction ex_list (SeqKey elem_head) True, ex_row (OpId 3 0) SetAction ex_list (SeqKey (ElemId (OpId 2 0))) True]"

definition ex_index :: obj_index where
  "ex_index = [OpId 1 0 \<mapsto> \<lparr>oi_parent = obj_root, oi_type = ObjList\<rparr>]"

definition ex_op :: "op_id \<Rightarrow> action \<Rightarrow> obj_id \<Rightarrow> key_ref \<Rightarrow> bool \<Rightarrow> op_id list \<Rightarrow> change_op" where
  "ex_op i a ob k ins pr = \<lparr>co_succ = [], co_pos = None, co_subsort = 0, co_conflicted = False,
     co_bld = \<lparr>ob_id = i, ob_obj = ob, ob_action = a, ob_key = k, ob_value = SvNull, ob_insert = ins, ob_expand = False,
       ob_mark_name = None, ob_pred = pr\<rparr>\<rparr>"

definition ex_ops1 :: "change_op list" where
  "ex_ops1 = [ex_op (OpId 5 1) SetAction ex_list (SeqKey elem_head) True [],
     ex_op (OpId 6 1) SetAction ex_list (SeqKey (ElemId (OpId 2 0))) False [OpId 2 0],
     ex_op (OpId 7 1) SetAction ex_list (SeqKey (ElemId (OpId 5 1))) True [],
     ex_op (OpId 8 1) DeleteAction obj_root (MapKey [2]) False [OpId 4 0]]"

definition ex_ops2 :: "change_op list" where
  "ex_ops2 = [ex_op (OpId 5 2) SetAction ex_list (SeqKey elem_head) True [],
     ex_op (OpId 6 2) SetAction obj_root (MapKey [2]) False [OpId 4 0]]"

lemmas ex_defs = ex_rows_def ex_index_def ex_ops1_def ex_ops2_def ex_row_def ex_op_def ex_list_def obj_root_def elem_head_def head_op_def

lemma op_less: "OpId c a < OpId d b \<longleftrightarrow> c < d \<or> c = d \<and> a < b" "OpId c a \<le> OpId d b \<longleftrightarrow> c < d \<or> c = d \<and> a \<le> b"
  by (auto simp: less_op_id_def less_eq_op_id_def)

lemma obj_le: "ObjId a \<le> ObjId b \<longleftrightarrow> a \<le> b"
  by (simp add: less_eq_obj_id_def)

lemmas ex_simps = ex_defs is_map_key_def key_id_def object_type_def is_root_def counter_def op_less obj_le follows_def
  after_def elem_of_def canon_all ritem_def

lemma ex_doc: "doc_ok (ex_rows, ex_index)"
proof -
  have "group_ok (Some ObjMap) (rows_of obj_root ex_rows)" by (simp add: ex_simps)
  moreover have "group_ok (Some ObjList) (rows_of ex_list ex_rows)" by (simp add: ex_simps is_sequence_def)
  moreover have "object_type ex_index obj_root = Some ObjMap" "object_type ex_index ex_list = Some ObjList" by (simp_all add: ex_simps)
  moreover have "r_obj ` set ex_rows = {obj_root, ex_list}" by (auto simp: ex_simps)
  moreover have "sorted_wrt (\<lambda>a b. r_obj a \<le> r_obj b) ex_rows" by (simp add: ex_simps)
  ultimately have "groups_ok ex_index ex_rows" by (simp add: groups_ok_def)
  moreover have "distinct (map r_id ex_rows)" by (simp add: ex_simps)
  moreover have "\<forall>r \<in> set ex_rows. r_action r \<noteq> DeleteAction \<and> r_id r \<noteq> head_op" by (simp add: ex_simps)
  moreover have "ex_index i = Some info \<longleftrightarrow> (\<exists>r \<in> set ex_rows. r_id r = i \<and> r_obj_info r = Some info)" for i info
    by (auto simp: ex_simps r_obj_info_def obj_type_of_action_def)
  ultimately show ?thesis by (simp add: doc_ok_def)
qed

lemma ex_no_info: "add_infos ex_index ex_ops1 = ex_index" "add_infos ex_index ex_ops2 = ex_index"
  by (simp_all add: ex_ops1_def ex_ops2_def ex_op_def add_obj_info_def co_obj_info_def obj_type_of_action_def)

lemmas ex_fit_simps = ex_simps op_fits_def co_key_def co_id_def co_insert_def is_del_def citem_def

lemma ex_fit1: "ops_fit (ex_rows, ex_index) ex_ops1"
  unfolding ops_fit_def prod.case ex_no_info by (simp add: ex_fit_simps)

lemma ex_fit2: "ops_fit (ex_rows, ex_index) ex_ops2"
  unfolding ops_fit_def prod.case ex_no_info by (simp add: ex_fit_simps)

lemma ex_disjoint: "co_id ` set ex_ops1 \<inter> co_id ` set ex_ops2 = {}"
  by (simp add: ex_fit_simps)

lemma ex_types: "object_type (add_infos ex_index ex_ops1) ex_list = Some ObjList" "object_type (add_infos ex_index ex_ops2) obj_root = Some ObjMap"
  unfolding ex_no_info by (simp_all add: ex_simps)

end
