(* ===== verification/Merge_Claims.thy ===== *)
theory Merge_Claims
  imports Merge_Example
begin

text \<open>
  The properties of applying the operations of a batch to the operation set, and a small document on which
  they are evaluated.
\<close>

subsection \<open>Two batches\<close>

lemma elems_rows_mono: "set (map strip xs) \<subseteq> set (map strip ys) \<Longrightarrow> set (elems (map ritem (rows_of ob xs))) \<subseteq> set (elems (map ritem (rows_of ob ys)))"
proof
  fix e assume sub: "set (map strip xs) \<subseteq> set (map strip ys)" and e: "e \<in> set (elems (map ritem (rows_of ob xs)))"
  then obtain r where r: "r \<in> set xs" "r_obj r = ob" "r_insert r" "r_id r = e" by (auto simp: elems_def)
  then have "strip r \<in> set (map strip ys)" using sub by auto
  then obtain q where "q \<in> set ys" "strip q = strip r" by auto
  then have "q \<in> set ys" "r_obj q = ob" "r_insert q" "r_id q = e" using r by (metis strip_sel)+
  then show "e \<in> set (elems (map ritem (rows_of ob ys)))" by (force simp: elems_def)
qed

lemma result_sets:
  assumes "mset (map strip rows') = mset (map strip rows) + new_rows cs"
  shows "set (map strip rows) \<subseteq> set (map strip rows')" and "r_id ` set rows' = r_id ` set rows \<union> co_id ` set (kept cs)"
    and "set (map strip rows') = set (map strip rows) \<union> (\<lambda>c. strip (row_of c)) ` set (kept cs)"
proof -
  show s: "set (map strip rows') = set (map strip rows) \<union> (\<lambda>c. strip (row_of c)) ` set (kept cs)"
    using arg_cong [OF assms, of set_mset] by (simp add: new_rows_def)
  then show "set (map strip rows) \<subseteq> set (map strip rows')" by simp
  have "r_id ` set (map strip rows') = r_id ` set (map strip rows) \<union> r_id ` (\<lambda>c. strip (row_of c)) ` set (kept cs)"
    unfolding s by (rule image_Un)
  then show "r_id ` set rows' = r_id ` set rows \<union> co_id ` set (kept cs)" by (simp add: image_image)
qed

text \<open>What is known about an object stays known when a batch of fresh operations is added.\<close>

lemma type_kept:
  assumes "object_type ix ob = Some t" and "\<And>i info. ix i = Some info \<Longrightarrow> ix' i = Some info"
  shows "object_type ix' ob = Some t"
  using assms by (auto simp: object_type_def split: if_splits)

lemma infos_other:
  assumes doc: "doc_ok (rows, index)" and f1: "ops_fit (rows, index) cs1" and f2: "ops_fit (rows, index) cs2"
    and dis: "co_id ` set cs1 \<inter> co_id ` set cs2 = {}" and i: "add_infos index cs2 i = Some info"
  shows "add_infos (add_infos index cs1) cs2 i = Some info"
proof -
  have d: "distinct (map co_id cs1)" "distinct (map co_id cs2)" using f1 f2 by (simp_all add: ops_fit_def)
  have "add_infos index cs1 i = Some info" if ii: "index i = Some info"
  proof -
    obtain r where "r \<in> set rows" "r_id r = i" using ii doc by (auto simp: doc_ok_def)
    then have "i \<notin> co_id ` set cs1" using f1 by (auto simp: ops_fit_def disjoint_iff)
    then show ?thesis using ii add_infos_iff [OF d(1)] by (metis imageI)
  qed
  then show ?thesis using i unfolding add_infos_iff [OF d(2)] by blast
qed

lemma op_fits_type: "op_fits t c \<Longrightarrow> \<exists>u. t = Some u"
  by (cases t) simp_all

lemma fit_after:
  assumes doc: "doc_ok (rows, index)" and f1: "ops_fit (rows, index) cs1" and f2: "ops_fit (rows, index) cs2"
    and dis: "co_id ` set cs1 \<inter> co_id ` set cs2 = {}" and m: "mset (map strip rows') = mset (map strip rows) + new_rows cs1"
    and doc': "doc_ok (rows', index')" and ix: "index' = add_infos index cs1"
  shows "ops_fit (rows', index') cs2"
  unfolding ops_fit_def prod.case
proof (intro conjI ballI)
  note s = result_sets [OF m]
  have "distinct (map r_id rows')" using doc' by (simp add: doc_ok_def)
  then show "distinct (map r_id rows' @ map co_id cs2)" using s(2) f2 dis by (auto simp: ops_fit_def)
  fix c assume c: "c \<in> set cs2"
  have old: "co_pos c = None" "co_id c \<noteq> head_op" "op_fits (object_type (add_infos index cs2) (co_obj c)) c"
    "\<not> is_map_key (co_key c) \<longrightarrow> key_op (co_key c) \<in> set (elems (map ritem (rows_of (co_obj c) rows)))
      \<or> key_op (co_key c) \<in> set (elems (map citem (filter (\<lambda>x. co_obj x = co_obj c) cs2))) \<or> co_insert c \<and> key_op (co_key c) = head_op"
    using f2 c unfolding ops_fit_def prod.case by blast+
  then show "co_pos c = None" "co_id c \<noteq> head_op" by blast+
  obtain t where t: "object_type (add_infos index cs2) (co_obj c) = Some t" using op_fits_type [OF old(3)] by blast
  have "object_type (add_infos index' cs2) (co_obj c) = Some t"
    unfolding ix by (rule type_kept [OF t]) (rule infos_other [OF doc f1 f2 dis])
  then show "op_fits (object_type (add_infos index' cs2) (co_obj c)) c" using old(3) t by simp
  show "\<not> is_map_key (co_key c) \<longrightarrow> key_op (co_key c) \<in> set (elems (map ritem (rows_of (co_obj c) rows')))
      \<or> key_op (co_key c) \<in> set (elems (map citem (filter (\<lambda>x. co_obj x = co_obj c) cs2))) \<or> co_insert c \<and> key_op (co_key c) = head_op"
    using old(4) elems_rows_mono [OF s(1), of "co_obj c"] by blast
qed

lemma new_rows_append: "new_rows (cs @ ds) = new_rows cs + new_rows ds"
  by (simp add: new_rows_def)

text \<open>A batch that fits the result of another one makes one batch with it.\<close>

lemma fit_append:
  assumes doc: "doc_ok (rows, index)" and f1: "ops_fit (rows, index) cs1" and f2: "ops_fit (rows', index') cs2"
    and dis: "co_id ` set cs1 \<inter> co_id ` set cs2 = {}" and m: "mset (map strip rows') = mset (map strip rows) + new_rows cs1"
    and ix: "index' = add_infos index cs1"
  shows "ops_fit (rows, index) (cs1 @ cs2)"
  unfolding ops_fit_def prod.case
proof (intro conjI ballI)
  note s = result_sets [OF m]
  have d: "distinct (map co_id cs1)" "distinct (map co_id cs2)" using f1 f2 by (simp_all add: ops_fit_def)
  show "distinct (map r_id rows @ map co_id (cs1 @ cs2))" using s(2) f1 f2 dis by (auto simp: ops_fit_def)
  have ap: "add_infos index (cs1 @ cs2) = add_infos index' cs2" by (simp add: ix)
  have mono: "set (elems (map citem (filter P cs1))) \<subseteq> set (elems (map citem (filter P (cs1 @ cs2))))"
    "set (elems (map citem (filter P cs2))) \<subseteq> set (elems (map citem (filter P (cs1 @ cs2))))" for P
    by (auto simp: elems_def)
  fix c assume c: "c \<in> set (cs1 @ cs2)"
  have "co_pos c = None \<and> co_id c \<noteq> head_op \<and> op_fits (object_type (add_infos index (cs1 @ cs2)) (co_obj c)) c
    \<and> (\<not> is_map_key (co_key c) \<longrightarrow> key_op (co_key c) \<in> set (elems (map ritem (rows_of (co_obj c) rows)))
      \<or> key_op (co_key c) \<in> set (elems (map citem (filter (\<lambda>x. co_obj x = co_obj c) (cs1 @ cs2))))
      \<or> co_insert c \<and> key_op (co_key c) = head_op)"
  proof (cases "c \<in> set cs1")
    case True
    then have old: "co_pos c = None" "co_id c \<noteq> head_op" "op_fits (object_type index' (co_obj c)) c"
      "\<not> is_map_key (co_key c) \<longrightarrow> key_op (co_key c) \<in> set (elems (map ritem (rows_of (co_obj c) rows)))
        \<or> key_op (co_key c) \<in> set (elems (map citem (filter (\<lambda>x. co_obj x = co_obj c) cs1))) \<or> co_insert c \<and> key_op (co_key c) = head_op"
      using f1 unfolding ops_fit_def prod.case ix by blast+
    obtain t where t: "object_type index' (co_obj c) = Some t" using op_fits_type [OF old(3)] by blast
    have "add_infos index' cs2 i = Some info" if i: "index' i = Some info" for i info
    proof -
      have "i \<in> r_id ` set rows \<or> i \<in> co_id ` set cs1"
      proof -
        have "index i = Some info \<Longrightarrow> \<exists>r \<in> set rows. r_id r = i" using doc by (auto simp: doc_ok_def)
        then show ?thesis using i unfolding ix add_infos_iff [OF d(1)] by (metis imageI)
      qed
      moreover have "i \<notin> co_id ` set cs2" if "i \<in> r_id ` set rows"
        using that s(2) f2 by (auto simp: ops_fit_def disjoint_iff)
      ultimately have "i \<notin> co_id ` set cs2" using dis by blast
      then show ?thesis using i add_infos_iff [OF d(2)] by (metis imageI)
    qed
    then have "object_type (add_infos index' cs2) (co_obj c) = Some t" by (rule type_kept [OF t])
    then show ?thesis using old t subsetD [OF mono(1), of "key_op (co_key c)" "\<lambda>x. co_obj x = co_obj c"] unfolding ap by auto
  next
    case False
    then have c2: "c \<in> set cs2" using c by simp
    then have old: "co_pos c = None" "co_id c \<noteq> head_op" "op_fits (object_type (add_infos index' cs2) (co_obj c)) c"
      "\<not> is_map_key (co_key c) \<longrightarrow> key_op (co_key c) \<in> set (elems (map ritem (rows_of (co_obj c) rows')))
        \<or> key_op (co_key c) \<in> set (elems (map citem (filter (\<lambda>x. co_obj x = co_obj c) cs2))) \<or> co_insert c \<and> key_op (co_key c) = head_op"
      using f2 unfolding ops_fit_def prod.case by blast+
    have sub: "set (elems (map ritem (rows_of ob rows'))) \<subseteq> set (elems (map ritem (rows_of ob rows)))
      \<union> set (elems (map citem (filter (\<lambda>x. co_obj x = ob) (cs1 @ cs2))))" for ob
    proof
      fix e assume "e \<in> set (elems (map ritem (rows_of ob rows')))"
      then obtain r where r: "r \<in> set rows'" "r_obj r = ob" "r_insert r" "r_id r = e" by (auto simp: elems_def)
      then have "strip r \<in> set (map strip rows) \<union> (\<lambda>c. strip (row_of c)) ` set (kept cs1)" using s(3) by auto
      then consider q where "q \<in> set rows" "strip r = strip q" | x where "x \<in> set cs1" "strip r = strip (row_of x)" by auto
      then show "e \<in> set (elems (map ritem (rows_of ob rows))) \<union> set (elems (map citem (filter (\<lambda>x. co_obj x = ob) (cs1 @ cs2))))"
      proof cases
        case 1
        have "r_obj (strip r) = r_obj q" "r_insert (strip r) = r_insert q" "r_id (strip r) = r_id q" using 1(2) by simp_all
        then have "r_obj q = ob" "r_insert q" "r_id q = e" using r(2-4) by simp_all
        then have "e \<in> set (elems (map ritem (rows_of ob rows)))" using 1(1) by (force simp: elems_def)
        then show ?thesis ..
      next
        case 2
        have "r_obj (strip r) = co_obj x" "r_insert (strip r) = co_insert x" "r_id (strip r) = co_id x" using 2(2) by simp_all
        then have "co_obj x = ob" "co_insert x" "co_id x = e" using r(2-4) by simp_all
        then have "e \<in> set (elems (map citem (filter (\<lambda>x. co_obj x = ob) (cs1 @ cs2))))" using 2(1) by (force simp: elems_def)
        then show ?thesis ..
      qed
    qed
    show ?thesis using old subsetD [OF sub, of "key_op (co_key c)" "co_obj c"] subsetD [OF mono(2), of "key_op (co_key c)" "\<lambda>x. co_obj x = co_obj c"]
      unfolding ap by blast
  qed
  then show "co_pos c = None" "co_id c \<noteq> head_op" "op_fits (object_type (add_infos index (cs1 @ cs2)) (co_obj c)) c"
    "\<not> is_map_key (co_key c) \<longrightarrow> key_op (co_key c) \<in> set (elems (map ritem (rows_of (co_obj c) rows)))
      \<or> key_op (co_key c) \<in> set (elems (map citem (filter (\<lambda>x. co_obj x = co_obj c) (cs1 @ cs2))))
      \<or> co_insert c \<and> key_op (co_key c) = head_op" by blast+
qed

subsection \<open>The properties\<close>

text \<open>C3: Applying a batch of operations to a document in order returns: the document is in order again, the check
  \<open>validate_op_order\<close> of the source accepts it, and its rows are the old ones and the operations of the batch that
  are not deletes.\<close>

theorem merge_in_order:
  assumes "doc_ok (rows, index)" and "ops_fit (rows, index) cs"
  shows "\<exists>rows' index'. apply_ops cs (rows, index) = Some (rows', index') \<and> doc_ok (rows', index') \<and> validate_op_order rows'
    \<and> mset (map strip rows') = mset (map strip rows) + mset (map (\<lambda>c. strip (row_of c)) (kept cs))"
  using apply_ops_result [OF assms] doc_validates unfolding new_rows_def by blast

theorem merge_in_order_witness:
  "\<exists>rows' index'. apply_ops ex_ops1 (ex_rows, ex_index) = Some (rows', index') \<and> doc_ok (rows', index') \<and> validate_op_order rows'
    \<and> mset (map strip rows') = mset (map strip ex_rows) + mset (map (\<lambda>c. strip (row_of c)) (kept ex_ops1))"
  by (rule merge_in_order [OF ex_doc ex_fit1])








text \<open>What the merge makes of an object.\<close>

lemma interp_perm:
  assumes "mset xs = mset ys" and "distinct (map it_id ys)"
  shows "interp xs = interp ys"
proof -
  have "inj_on it_id (set xs)" using assms mset_eq_setD [OF assms(1)] by (simp add: distinct_map)
  moreover have "mset xs = mset (sort_key it_id ys)" using assms(1) by simp
  ultimately have "sort_key it_id xs = sort_key it_id ys" by (intro sort_key_inj_key_eq) simp_all
  then show ?thesis by (simp add: interp_def)
qed

lemma rows_of_mset:
  assumes "mset (map strip rows') = mset (map strip rows) + new_rows cs"
  shows "mset (map strip (rows_of ob rows')) = mset (map strip (rows_of ob rows) @ map (\<lambda>c. strip (row_of c)) (filter (\<lambda>c. co_obj c = ob) (kept cs)))"
proof -
  have f: "mset (map strip (rows_of ob rs)) = filter_mset (\<lambda>r. r_obj r = ob) (mset (map strip rs))" for rs
    by (induction rs) simp_all
  have "filter_mset (\<lambda>r. r_obj r = ob) (new_rows cs) = mset (map (\<lambda>c. strip (row_of c)) (filter (\<lambda>c. co_obj c = ob) (kept cs)))"
  proof -
    have "filter_mset (\<lambda>r. r_obj r = ob) (mset (map (\<lambda>c. strip (row_of c)) ds))
      = mset (map (\<lambda>c. strip (row_of c)) (filter (\<lambda>c. co_obj c = ob) ds))" for ds
      by (induction ds) simp_all
    then show ?thesis unfolding new_rows_def .
  qed
  then show ?thesis unfolding f [of rows'] assms using f [of rows] by (simp only: mset_append filter_union_mset)
qed

text \<open>C6: The merge implements the specification of a sequence: the rows of a list or text are what taking its old rows
  and the new operations in the order of their identifiers gives, each insertion put directly behind its reference and
  each update behind its element.\<close>

theorem sequence_merge:
  assumes doc: "doc_ok (rows, index)" and fit: "ops_fit (rows, index) cs"
    and t: "object_type (add_infos index cs) ob = Some t" "is_sequence t"
  shows "\<exists>rows' index'. apply_ops cs (rows, index) = Some (rows', index')
    \<and> map ritem (rows_of ob rows') = interp (map ritem (rows_of ob rows) @ map citem (filter (\<lambda>c. co_obj c = ob) (kept cs)))"
proof -
  obtain a where a: "apply_ops cs (rows, index) = Some (a, add_infos index cs)" "doc_ok (a, add_infos index cs)"
    "mset (map strip a) = mset (map strip rows) + new_rows cs" using apply_ops_result [OF doc fit] by blast
  let ?G = "rows_of ob a" and ?new = "filter (\<lambda>c. co_obj c = ob) (kept cs)"
  have can: "canon (map ritem ?G)"
  proof (cases "ob \<in> r_obj ` set a")
    case True
    then have "group_ok (Some t) ?G" using a(2) t(1) unfolding doc_ok_def groups_ok_def prod.case by metis
    then show ?thesis using t(2) by simp
  next
    case False
    then have "?G = []" by (auto simp: filter_empty_conv)
    then show ?thesis by (simp add: canon.Nil)
  qed
  have dis: "distinct (map it_id (map ritem ?G))" using a(2) by (simp add: doc_ok_def comp_def distinct_map_filter)
  have "image_mset ritem (mset (map strip ?G)) = image_mset ritem (mset (map strip (rows_of ob rows) @ map (\<lambda>c. strip (row_of c)) ?new))"
    unfolding rows_of_mset [OF a(3)] ..
  then have "mset (map ritem ?G) = mset (map ritem (rows_of ob rows) @ map citem ?new)"
    by (simp add: multiset.map_comp comp_def)
  from interp_perm [OF this [symmetric] dis] canon_interp [OF can dis] a(1) show ?thesis by auto
qed

theorem sequence_merge_witness:
  "\<exists>rows' index'. apply_ops ex_ops1 (ex_rows, ex_index) = Some (rows', index')
    \<and> map ritem (rows_of ex_list rows') = interp (map ritem (rows_of ex_list ex_rows) @ map citem (filter (\<lambda>c. co_obj c = ex_list) (kept ex_ops1)))"
  by (rule sequence_merge [OF ex_doc ex_fit1 ex_types(1)]) (simp add: is_sequence_def)


text \<open>C7: The merge implements the specification of a map: the rows of a map are its old rows and the new operations,
  sorted by key and identifier.\<close>

theorem map_merge:
  assumes doc: "doc_ok (rows, index)" and fit: "ops_fit (rows, index) cs"
    and t: "object_type (add_infos index cs) ob = Some ObjMap"
  shows "\<exists>rows' index'. apply_ops cs (rows, index) = Some (rows', index')
    \<and> map strip (rows_of ob rows')
      = sort_key rkey (map strip (rows_of ob rows) @ map (\<lambda>c. strip (row_of c)) (filter (\<lambda>c. co_obj c = ob) (kept cs)))"
proof -
  obtain a where a: "apply_ops cs (rows, index) = Some (a, add_infos index cs)" "doc_ok (a, add_infos index cs)"
    "mset (map strip a) = mset (map strip rows) + new_rows cs" using apply_ops_result [OF doc fit] by blast
  let ?G = "map strip (rows_of ob a)" and ?new = "filter (\<lambda>c. co_obj c = ob) (kept cs)"
  have so: "sorted_wrt (<) (map rkey ?G)"
  proof (cases "ob \<in> r_obj ` set a")
    case True
    then have "group_ok (Some ObjMap) (rows_of ob a)" using a(2) t unfolding doc_ok_def groups_ok_def prod.case by metis
    then show ?thesis unfolding map_strip by simp
  next
    case False
    then have "?G = []" by (auto simp: filter_empty_conv)
    then show ?thesis by simp
  qed
  have m: "mset (map strip (rows_of ob rows) @ map (\<lambda>c. strip (row_of c)) ?new) = mset ?G" by (rule rows_of_mset [OF a(3), symmetric])
  have "inj_on rkey (set ?G)" using so by (simp only: strict_sorted_iff distinct_map)
  then have "inj_on rkey (set (map strip (rows_of ob rows) @ map (\<lambda>c. strip (row_of c)) ?new))" unfolding mset_eq_setD [OF m] .
  then have "sort_key rkey (map strip (rows_of ob rows) @ map (\<lambda>c. strip (row_of c)) ?new) = ?G"
    by (rule sort_key_inj_key_eq [OF m]) (use so in \<open>rule strict_sorted_imp_sorted\<close>)
  then show ?thesis using a(1) by auto
qed

theorem map_merge_witness:
  "\<exists>rows' index'. apply_ops ex_ops2 (ex_rows, ex_index) = Some (rows', index')
    \<and> map strip (rows_of obj_root rows')
      = sort_key rkey (map strip (rows_of obj_root ex_rows) @ map (\<lambda>c. strip (row_of c)) (filter (\<lambda>c. co_obj c = obj_root) (kept ex_ops2)))"
  by (rule map_merge [OF ex_doc ex_fit2 ex_types(2)])


end
