(* ===== verification/Merge_Panics.thy ===== *)
theory Merge_Panics
  imports Merge_Claims
begin

text \<open>
  Batches that the document cannot take: an operation on an object that is not in the index, which every
  table is, and an insertion behind an element that does not exist.
\<close>

subsection \<open>Panics\<close>

lemma span_in: "spans_of k ops oss \<Longrightarrow> c \<in> set ops \<Longrightarrow> \<exists>os \<in> set oss. os_obj os = co_obj c"
proof (induction oss arbitrary: k ops)
  case (Cons os oss)
  then obtain g ops' where g: "ops = g @ ops'" "\<forall>c \<in> set g. co_obj c = os_obj os" "spans_of (k + length g) ops' oss"
    unfolding spans_of.simps by blast
  show ?case
  proof (cases "c \<in> set g")
    case True
    then show ?thesis using g(2) by auto
  next
    case False
    then have "c \<in> set ops'" using Cons.prems(2) g(1) by simp
    then show ?thesis using Cons.IH [OF g(3)] by auto
  qed
qed simp

lemma walk_spans_unknown:
  assumes "os \<in> set oss" and "object_type index (os_obj os) \<notin> {Some ObjMap, Some ObjList, Some ObjText}"
  shows "walk_spans rows index oss s = None"
  using assms(1)
proof (induction oss arbitrary: s)
  case (Cons x oss)
  have "walk_span rows index os s = None" for s
    using assms(2) by (auto simp: walk_span_def Let_def is_sequence_def split: prod.split option.split)
  then show ?case using Cons by (cases "x = os"; cases "walk_span rows index x s") auto
qed simp

lemma apply_unknown:
  assumes "c \<in> set cs" and "object_type (add_infos index (sort_by op_cmp cs)) (co_obj c) \<notin> {Some ObjMap, Some ObjList, Some ObjText}"
  shows "apply_ops cs (rows, index) = None"
proof -
  let ?ops = "sort_by op_cmp cs"
  have "set (insert_by f x xs) = insert x (set xs)" for f and x :: change_op and xs by (induction xs) auto
  then have "set (foldr (insert_by op_cmp) xs []) = set xs" for xs by (induction xs) auto
  then have c: "c \<in> set ?ops" using assms(1) by (simp add: sort_by_def)
  obtain pred ix spans where ol: "order_loop 0 0 None ?ops Map.empty index [] = (pred, ix, spans)"
    by (cases "order_loop 0 0 None ?ops Map.empty index []")
  have ix: "ix = add_infos index ?ops" using order_loop_index [of 0 0 None ?ops Map.empty index "[]"] ol by simp
  have "spans_of 0 ?ops spans" using order_spans [of ?ops Map.empty index] ol by simp
  then obtain os where "os \<in> set spans" "os_obj os = co_obj c" using span_in [OF _ c] by blast
  then have "walk_spans rows ix spans s = None" for s using walk_spans_unknown [of os spans ix rows s] assms(2) ix by metis
  then show ?thesis by (simp add: apply_ops_def order_ops_for_doc_def Let_def ol)
qed

text \<open>C33: The source calls tables identical to maps, but an operation on an object that a table operation made, in the
  batch or before it, makes the merge panic: a table never gets into the index of objects.\<close>

theorem table_ops_panic:
  assumes doc: "doc_ok (rows, index)" and ob: "\<not> is_root ob" and c: "c \<in> set cs" "co_obj c = ob"
    and table: "\<And>r. r \<in> set rows \<Longrightarrow> r_id r = obj_op ob \<Longrightarrow> r_action r = MakeTable"
      "\<And>d. d \<in> set cs \<Longrightarrow> co_id d = obj_op ob \<Longrightarrow> ob_action (co_bld d) = MakeTable"
  shows "apply_ops cs (rows, index) = None"
proof (rule apply_unknown [OF c(1)])
  have no: "index (obj_op ob) = None"
  proof (cases "index (obj_op ob)")
    case (Some info)
    then obtain r where "r \<in> set rows" "r_id r = obj_op ob" "r_obj_info r = Some info" using doc by (auto simp: doc_ok_def)
    then show ?thesis using table(1) by (simp add: r_obj_info_def obj_type_of_action_def)
  qed
  have keep: "ix (obj_op ob) = None \<Longrightarrow> \<forall>d \<in> set ds. co_id d = obj_op ob \<longrightarrow> ob_action (co_bld d) = MakeTable
    \<Longrightarrow> add_infos ix ds (obj_op ob) = None" for ix ds
    by (induction ds arbitrary: ix) (auto simp: add_obj_info_def co_obj_info_def obj_type_of_action_def split: option.splits action.splits)
  have "set (insert_by f x xs) = insert x (set xs)" for f and x :: change_op and xs by (induction xs) auto
  then have "set (foldr (insert_by op_cmp) xs []) = set xs" for xs by (induction xs) auto
  then have "add_infos index (sort_by op_cmp cs) (obj_op ob) = None"
    by (intro keep no) (use table(2) in \<open>auto simp: sort_by_def\<close>)
  then show "object_type (add_infos index (sort_by op_cmp cs)) (co_obj c) \<notin> {Some ObjMap, Some ObjList, Some ObjText}"
    using c(2) ob by (simp add: object_type_def)
qed

theorem table_ops_panic_witness:
  "apply_ops [ex_op (OpId 1 0) MakeTable obj_root (MapKey [1]) False [], ex_op (OpId 2 0) SetAction (ObjId (OpId 1 0)) (MapKey [2]) False []]
    ([], Map.empty) = None"
  by (rule table_ops_panic [of _ _ "ObjId (OpId 1 0)" "ex_op (OpId 2 0) SetAction (ObjId (OpId 1 0)) (MapKey [2]) False []"])
    (auto simp: doc_ok_def groups_ok_def is_root_def counter_def ex_op_def co_id_def)


text \<open>The entry of an insertion whose element is missing stays to the end of the walk.\<close>

lemma inner_updates_entry: "ut_entry (inner_updates key p is vis ut) = ut_entry ut"
  by (induction "is" arbitrary: vis ut) (simp_all add: Let_def split: option.split)

lemma untangle_inner_entry: "untangle_inner p ut = Some ut' \<Longrightarrow> ut_entry ut' = ut_entry ut"
  by (auto simp: untangle_inner_def Let_def inner_updates_entry split: list.splits if_splits option.splits)

lemma untangle_while_entry: "untangle_while n p ut = Some ut' \<Longrightarrow> ut_entry ut' = ut_entry ut"
proof (induction n p ut rule: untangle_while.induct)
  case (1 n p ut)
  show ?case
  proof (cases "n < length (ut_stack ut)")
    case True
    then obtain u where u: "untangle_inner p ut = Some u" "untangle_while n p u = Some ut'"
      using 1(2) by (subst (asm) untangle_while.simps) (auto simp: Option.bind_eq_Some_conv)
    then show ?thesis using 1(1) [OF True u(1) u(2)] untangle_inner_entry [OF u(1)] by simp
  next
    case False
    then show ?thesis using 1(2) by (subst (asm) untangle_while.simps) simp
  qed
qed

lemma flush_entry [simp]: "ut_entry (flush ut) = ut_entry ut"
  by (simp add: flush_def split: prod.split)

lemma place_update_entry [simp]: "ut_entry (place_update i p ut) = ut_entry ut"
  by (simp add: place_update_def Let_def split: prod.split)

lemma element_update_entry: "ut_entry (element_update_loop d is ut) = ut_entry ut"
  by (induction "is" arbitrary: ut) simp_all

lemma untangle_inserts_entry:
  assumes "untangle_inserts oid p ut = Some ut'" and "e \<noteq> oid"
  shows "map_of (ut_entry ut') e = map_of (ut_entry ut) e"
proof -
  let ?n = "length (takeWhile (\<lambda>i. co_id (ut_change_ops (flush ut) ! i) < oid) (rev (ut_stack (flush ut))))"
  obtain u where u: "(if ?n < length (rev (ut_stack (flush ut))) \<and> co_id (ut_change_ops (flush ut) ! (rev (ut_stack (flush ut)) ! ?n)) = oid
      then Some (flush ut) else untangle_while ?n p (flush ut)) = Some u"
    "ut_entry ut' = (case map_of (ut_entry u) oid of Some v \<Rightarrow> AList.delete oid (ut_entry u) | None \<Rightarrow> ut_entry u)"
    using assms(1) unfolding untangle_inserts_def Let_def Option.bind_eq_Some_conv by (auto split: option.split)
  have "ut_entry u = ut_entry ut" using u(1) untangle_while_entry [of ?n p "flush ut" u] by (auto split: if_splits)
  then show ?thesis using u(2) assms(2) by (auto simp: delete_conv' split: option.splits)
qed

lemma handle_doc_op_entry: "handle_doc_op d (ut, succ) = (ut', succ') \<Longrightarrow> ut_entry ut' = ut_entry ut"
  by (auto simp: handle_doc_op_def Let_def split: prod.splits if_splits)

lemma walk_rows_entry:
  assumes "walk_rows ds (ut, succ) = Some (ut', succ')" and "\<forall>d \<in> set ds. do_insert d \<longrightarrow> do_id d \<noteq> e"
  shows "map_of (ut_entry ut') e = map_of (ut_entry ut) e"
  using assms
proof (induction ds arbitrary: ut succ)
  case (Cons d ds)
  let ?u = "element_update d ut"
  obtain u where u: "(if do_insert d then untangle_inserts (do_id d) (do_pos d) ?u else Some ?u) = Some u"
    "walk_rows ds (handle_doc_op d (u, succ)) = Some (ut', succ')"
    using Cons.prems(1) by (auto simp: Let_def Option.bind_eq_Some_conv)
  obtain w succ1 where w: "handle_doc_op d (u, succ) = (w, succ1)" by (cases "handle_doc_op d (u, succ)")
  have "map_of (ut_entry u) e = map_of (ut_entry ?u) e"
    using u(1) Cons.prems(2) by (cases "do_insert d") (auto dest: untangle_inserts_entry [of _ _ _ _ e])
  moreover have "ut_entry ?u = ut_entry ut" by (simp add: element_update_def element_update_entry)
  moreover have "map_of (ut_entry ut') e = map_of (ut_entry w) e" using Cons.IH [of w succ1] u(2) w Cons.prems(2) by simp
  ultimately show ?case using handle_doc_op_entry [OF w] by simp
qed simp

lemma finish_updates_entry: "ut_entry (foldl (\<lambda>ut i. place_update i (ut_max ut) ut) ut is) = ut_entry ut"
  by (induction "is" arbitrary: ut) simp_all

lemma walk_list_entry:
  assumes "map_of (ut_entry ut) e \<noteq> None" and "\<forall>d \<in> set ds. do_insert d \<longrightarrow> do_id d \<noteq> e"
  shows "walk_list ut ds succ = None"
proof (cases "walk_rows ds (ut, succ)")
  case (Some s)
  obtain u succ' where s: "s = (u, succ')" by (cases s)
  have "map_of (ut_entry u) e \<noteq> None" using walk_rows_entry [OF Some [unfolded s] assms(2)] assms(1) by simp
  then have "ut_entry u \<noteq> []" by auto
  then have "finish u = None" by (simp add: finish_def Let_def finish_updates_def finish_updates_entry)
  then show ?thesis using Some s by (simp add: walk_list_def)
qed (simp add: walk_list_def)

lemma index_op_entry:
  assumes "map_of (ix_entry x) e \<noteq> None"
  shows "map_of (ix_entry (index_op i c x)) e \<noteq> None"
  using assms by (auto simp: index_op_def Let_def push_entry_table split: key_ref.split option.split)

lemma index_op_known: "ix_e_to_i (index_op i c x) f \<noteq> None \<Longrightarrow> ix_e_to_i x f \<noteq> None \<or> co_insert c \<and> f = ElemId (co_id c)"
  by (auto simp: index_op_def Let_def split: key_ref.splits option.splits if_splits)

lemma index_op_missing:
  assumes "co_key c = SeqKey f" "co_insert c" "\<not> is_head f" "ix_e_to_i x f = None"
  shows "map_of (ix_entry (index_op i c x)) (elem_op f) \<noteq> None"
  using assms by (simp add: index_op_def Let_def push_entry_table)

lemma index_ops_keep: "map_of (ix_entry x) e \<noteq> None \<Longrightarrow> map_of (ix_entry (snd (snd (index_ops i cs pred x)))) e \<noteq> None"
proof (induction cs arbitrary: i pred x)
  case (Cons c cs)
  obtain c1 pred1 where t: "take_pred c pred = (c1, pred1)" by (cases "take_pred c pred")
  from Cons.IH [OF index_op_entry [OF Cons.prems, of i c1]] show ?case by (simp add: t split: prod.splits) (metis snd_conv)
qed simp

lemma index_ops_missing:
  assumes "c \<in> set cs" "co_key c = SeqKey f" "co_insert c" "\<not> is_head f" "ix_e_to_i x f = None"
    and "\<forall>d \<in> set cs. co_insert d \<longrightarrow> co_id d \<noteq> elem_op f"
  shows "map_of (ix_entry (snd (snd (index_ops i cs pred x)))) (elem_op f) \<noteq> None"
  using assms(1,5,6)
proof (induction cs arbitrary: i pred x)
  case (Cons d cs)
  obtain d1 pred1 where t: "take_pred d pred = (d1, pred1)" by (cases "take_pred d pred")
  have bld: "co_bld d1 = co_bld d" using take_pred_sel(1) [of d pred] by (simp add: t)
  let ?x = "index_op i d1 x"
  have step: "snd (snd (index_ops i (d # cs) pred x)) = snd (snd (index_ops (i + 1) cs pred1 ?x))" by (simp add: t split: prod.split)
  show ?case
  proof (cases "c = d")
    case True
    then have "map_of (ix_entry ?x) (elem_op f) \<noteq> None"
      using index_op_missing [of d1 f x i] assms(2-4) Cons.prems(2) bld by (simp add: co_key_def co_insert_def)
    then show ?thesis unfolding step by (rule index_ops_keep)
  next
    case False
    have "\<not> (co_insert d1 \<and> f = ElemId (co_id d1))" using Cons.prems(3) bld by (auto simp: co_insert_def co_id_def)
    then have "ix_e_to_i ?x f = None" using index_op_known [of i d1 x f] Cons.prems(2) by blast
    then show ?thesis unfolding step using Cons.IH [of ?x "i + 1" pred1] Cons.prems False by simp
  qed
qed simp

text \<open>C34: An insertion behind an element that is neither in the document nor in the batch makes the walk over the
  sequence panic.\<close>

theorem missing_element_panics:
  assumes "c \<in> set cs" "co_key c = SeqKey f" "co_insert c" "\<not> is_head f"
    and "\<And>d. d \<in> set cs \<Longrightarrow> co_insert d \<Longrightarrow> co_id d \<noteq> elem_op f" and "\<And>d. d \<in> set ds \<Longrightarrow> do_insert d \<Longrightarrow> do_id d \<noteq> elem_op f"
  shows "walk_list (untangler_new conflicts cs pred m) ds succ = None"
proof (rule walk_list_entry)
  show "map_of (ut_entry (untangler_new conflicts cs pred m)) (elem_op f) \<noteq> None"
  proof -
    obtain cs' pred' x where ix: "index_ops 0 cs pred empty_index = (cs', pred', x)" by (cases "index_ops 0 cs pred empty_index")
    have "ix_e_to_i empty_index f = None" by (simp add: empty_index_def)
    then have "map_of (ix_entry x) (elem_op f) \<noteq> None"
      using index_ops_missing [OF assms(1-4), of empty_index 0 pred] assms(5) ix by simp
    then show ?thesis by (simp add: untangler_new_def ix)
  qed
qed (use assms(6) in blast)

theorem missing_element_panics_witness:
  "walk_list (untangler_new [] [ex_op (OpId 5 1) SetAction ex_list (SeqKey (ElemId (OpId 9 0))) True []] Map.empty 0) [] [] = None"
  by (rule missing_element_panics [of "ex_op (OpId 5 1) SetAction ex_list (SeqKey (ElemId (OpId 9 0))) True []" _ "ElemId (OpId 9 0)"])
    (simp_all add: ex_op_def co_key_def co_insert_def co_id_def is_head_def elem_head_def)

subsection \<open>The visible rows\<close>

text \<open>Two values in conflict at a key, one of them a counter, and an increment, which refers to both.\<close>

definition value_op :: "op_id \<Rightarrow> action \<Rightarrow> scalar_value \<Rightarrow> op_id list \<Rightarrow> change_op" where
  "value_op i a v pr = \<lparr>co_succ = [], co_pos = None, co_subsort = 0, co_conflicted = False,
     co_bld = \<lparr>ob_id = i, ob_obj = obj_root, ob_action = a, ob_key = MapKey [1], ob_value = v, ob_insert = False, ob_expand = False,
       ob_mark_name = None, ob_pred = pr\<rparr>\<rparr>"

definition conflict_ops :: "change_op list" where
  "conflict_ops = [value_op (OpId 1 0) SetAction (SvCounter 0) [], value_op (OpId 1 1) SetAction (SvInt 7) []]"

definition increment_ops :: "change_op list" where
  "increment_ops = [value_op (OpId 2 0) Increment (SvInt 5) [OpId 1 0, OpId 1 1]]"

definition shown :: "row list \<times> obj_index \<Rightarrow> (op_id \<times> bool \<times> bool) list" where
  "shown doc = map (\<lambda>r. (r_id r, r_visible r, r_top r)) (fst doc)"



end
