(* ===== verification/Span_Tree.thy ===== *)
theory Span_Tree
  imports Clock
begin

text \<open>
  The tree behind every column of the column store (\<open>hexane/src/slab/tree.rs\<close>): a B-tree that keeps a
  sequence of elements, with the number of elements and the accumulated weight of each subtree, so that
  an element is found by its index or by a condition on the weight before it. The trait \<open>SpanWeight\<close> is
  the argument \<open>weight_ops\<close>. An operation that panics is \<open>None\<close>; debug assertions are left out.
\<close>

subsection \<open>Weights\<close>

text \<open>\<open>maybe_sub\<close> returns whether it subtracted: \<open>None\<close> is \<open>false\<close>, with the weight unchanged.\<close>

record ('e, 'w) weight_ops =
  wt_alloc :: "'e \<Rightarrow> 'w"
  wt_default :: 'w
  wt_and :: "'w \<Rightarrow> 'w \<Rightarrow> 'w"
  wt_union :: "'w \<Rightarrow> 'w \<Rightarrow> 'w"
  wt_maybe_sub :: "'w \<Rightarrow> 'w \<Rightarrow> 'w option"

subsection \<open>Nodes\<close>

definition b_factor :: nat where
  "b_factor = 16"

datatype ('e, 'w) tree_node = TreeNode
  (tn_elements: "'e list") (tn_children: "('e, 'w) tree_node list") (tn_length: nat) (tn_weight: 'w)

definition is_leaf :: "('e, 'w) tree_node \<Rightarrow> bool" where
  "is_leaf t \<longleftrightarrow> tn_children t = []"

definition is_full :: "('e, 'w) tree_node \<Rightarrow> bool" where
  "is_full t \<longleftrightarrow> length (tn_elements t) \<ge> 2 * b_factor - 1"

definition recompute_weight :: "('e, 'w) weight_ops \<Rightarrow> ('e, 'w) tree_node \<Rightarrow> ('e, 'w) tree_node" where
  "recompute_weight W t = (case t of TreeNode es cs n w \<Rightarrow>
     let acc = foldl (\<lambda>a e. wt_and W a (wt_alloc W e)) (wt_default W) es;
         acc = foldl (\<lambda>a c. wt_and W a (tn_weight c)) acc cs
     in TreeNode es cs n acc)"

definition recompute_len :: "('e, 'w) weight_ops \<Rightarrow> ('e, 'w) tree_node \<Rightarrow> ('e, 'w) tree_node" where
  "recompute_len W t = (case t of TreeNode es cs n w \<Rightarrow>
     recompute_weight W (TreeNode es cs (length es + sum_list (map tn_length cs)) w))"

definition subtract_weight :: "('e, 'w) weight_ops \<Rightarrow> 'w \<Rightarrow> ('e, 'w) tree_node \<Rightarrow> ('e, 'w) tree_node" where
  "subtract_weight W x t = (case t of TreeNode es cs n w \<Rightarrow>
     case wt_maybe_sub W w x of Some w' \<Rightarrow> TreeNode es cs n w' | None \<Rightarrow> recompute_weight W t)"

primrec find_child_loop :: "nat \<Rightarrow> nat \<Rightarrow> ('e, 'w) tree_node list \<Rightarrow> nat \<Rightarrow> (nat \<times> nat) option" where
  "find_child_loop i cum [] index = None"
| "find_child_loop i cum (c # cs) index =
     (if cum + tn_length c \<ge> index then Some (i, index - cum)
      else find_child_loop (i + 1) (cum + tn_length c + 1) cs index)"

definition find_child_index :: "('e, 'w) tree_node \<Rightarrow> nat \<Rightarrow> (nat \<times> nat) option" where
  "find_child_index t index = find_child_loop 0 0 (tn_children t) index"

subsection \<open>Insertion\<close>

text \<open>What \<open>Vec::split_off\<close> and \<open>pop\<close> leave of a full child, and its new sibling.\<close>

definition left_half :: "('e, 'w) weight_ops \<Rightarrow> ('e, 'w) tree_node \<Rightarrow> ('e, 'w) tree_node" where
  "left_half W child = recompute_len W (TreeNode (butlast (take b_factor (tn_elements child)))
     (if is_leaf child then [] else take b_factor (tn_children child)) (tn_length child) (tn_weight child))"

definition right_half :: "('e, 'w) weight_ops \<Rightarrow> ('e, 'w) tree_node \<Rightarrow> ('e, 'w) tree_node" where
  "right_half W child = recompute_len W (TreeNode (drop b_factor (tn_elements child))
     (if is_leaf child then [] else drop b_factor (tn_children child)) 0 (wt_default W))"

definition split_child :: "('e, 'w) weight_ops \<Rightarrow> nat \<Rightarrow> ('e, 'w) tree_node \<Rightarrow> ('e, 'w) tree_node option" where
  "split_child W i t = (case t of TreeNode es cs n w \<Rightarrow>
     Option.bind (vec_at cs i) (\<lambda>child.
     if \<not> is_full child \<or> \<not> is_leaf child \<and> length (tn_children child) < b_factor then None
     else Option.bind (vec_insert (i + 1) (right_half W child) (cs[i := left_half W child])) (\<lambda>cs.
          Option.bind (vec_insert i (last (take b_factor (tn_elements child))) es) (\<lambda>es.
          if tn_length (left_half W child) + tn_length (right_half W child) + 1 = tn_length child
          then Some (TreeNode es cs n w) else None))))"

text \<open>Writing back the child an element went into.\<close>

definition grown :: "('e, 'w) weight_ops \<Rightarrow> 'e \<Rightarrow> nat \<Rightarrow> ('e, 'w) tree_node \<Rightarrow> ('e, 'w) tree_node \<Rightarrow> ('e, 'w) tree_node" where
  "grown W x i t c = (case t of TreeNode es cs n w \<Rightarrow> TreeNode es (cs[i := c]) (n + 1) (wt_union W w (wt_alloc W x)))"

text \<open>The height of a node bounds the recursions.\<close>

primrec height :: "('e, 'w) tree_node \<Rightarrow> nat" where
  "height (TreeNode es cs n w) = (if cs = [] then 0 else Suc (foldr max (map height cs) 0))"

lemma foldr_max_le: "x \<in> set xs \<Longrightarrow> x \<le> foldr max xs (0 :: nat)"
  by (induction xs) auto

lemma foldr_max_bound: "(\<And>x. x \<in> set xs \<Longrightarrow> x \<le> m) \<Longrightarrow> foldr max xs (0 :: nat) \<le> m"
  by (induction xs) auto

lemma height_child: "c \<in> set (tn_children t) \<Longrightarrow> height c < height t"
  by (cases t) (auto simp: less_Suc_eq_le intro: foldr_max_le)

lemma height_le:
  assumes "\<And>c. c \<in> set (tn_children a) \<Longrightarrow> height c < m"
  shows "height a \<le> m"
proof (cases "tn_children a")
  case (Cons c cs)
  obtain es ws n w where a: "a = TreeNode es ws n w" by (cases a)
  from assms [of c] Cons obtain k where m: "m = Suc k" by (cases m) auto
  have "foldr max (map height ws) 0 \<le> k" using assms by (intro foldr_max_bound) (auto simp: a m less_Suc_eq_le)
  then show ?thesis by (simp add: a m)
qed (cases a, simp)

lemma height_subset: "set (tn_children a) \<subseteq> set (tn_children b) \<Longrightarrow> height a \<le> height b"
  by (rule height_le) (auto intro: height_child)

lemma recompute_len_sel [simp]:
  "tn_elements (recompute_len W t) = tn_elements t" "tn_children (recompute_len W t) = tn_children t"
  by (cases t; simp add: recompute_len_def recompute_weight_def Let_def)+

lemma height_recompute_len [simp]: "height (recompute_len W t) = height t"
  by (cases t) (simp add: recompute_len_def recompute_weight_def Let_def)

lemma set_vec_insert:
  assumes "vec_insert i x xs = Some ys"
  shows "set ys = insert x (set xs)"
proof -
  have "ys = take i xs @ x # drop i xs" using assms by (auto simp: vec_insert_def split: if_splits)
  then have "set ys = insert x (set (take i xs) \<union> set (drop i xs))" by simp
  also have "set (take i xs) \<union> set (drop i xs) = set xs" by (simp only: set_append [symmetric] append_take_drop_id)
  finally show ?thesis .
qed

lemma half_children:
  "set (tn_children (left_half W c)) \<subseteq> set (tn_children c)" "set (tn_children (right_half W c)) \<subseteq> set (tn_children c)"
  by (auto simp: left_half_def right_half_def dest: in_set_takeD in_set_dropD)

lemma split_child_sub:
  assumes "split_child W i t = Some t'" and "vec_at (tn_children t) i = Some child"
  shows "set (tn_children t') \<subseteq> set (tn_children t) \<union> {left_half W child, right_half W child}"
proof -
  obtain es cs n w where t: "t = TreeNode es cs n w" by (cases t)
  have "vec_insert (i + 1) (right_half W child) (cs[i := left_half W child]) = Some (tn_children t')"
    using assms by (auto simp: split_child_def t Option.bind_eq_Some_conv split: if_splits)
  then have "set (tn_children t') = insert (right_half W child) (set (cs[i := left_half W child]))" by (rule set_vec_insert)
  then show ?thesis using set_update_subset_insert [of cs i "left_half W child"] by (auto simp: t)
qed

lemma split_child_children:
  assumes "split_child W i t = Some t'" and c: "c \<in> set (tn_children t')"
  shows "height c < height t"
proof -
  obtain child where ch: "vec_at (tn_children t) i = Some child"
    using assms(1) by (auto simp: split_child_def Option.bind_eq_Some_conv split: tree_node.splits)
  then have "child \<in> set (tn_children t)" by (auto simp: vec_at_def split: if_splits)
  then have hc: "height child < height t" by (rule height_child)
  have "height (left_half W child) < height t" "height (right_half W child) < height t"
    using half_children [of W child] hc height_subset order.strict_trans1 by blast+
  then show ?thesis using split_child_sub [OF assms(1) ch] c height_child [of c t] by auto
qed

lemma height_split_child: "split_child W i t = Some t' \<Longrightarrow> height t' \<le> height t"
  by (rule height_le) (rule split_child_children)

lemma find_child_loop_less: "find_child_loop i cum cs index = Some (ci, sub) \<Longrightarrow> ci - i < length cs \<and> i \<le> ci"
proof (induction cs arbitrary: i cum)
  case (Cons c cs)
  then show ?case by (fastforce split: if_splits)
qed simp

lemma find_child_less: "find_child_index t index = Some (ci, sub) \<Longrightarrow> tn_children t ! ci \<in> set (tn_children t)"
  using find_child_loop_less [of 0 0 "tn_children t" index ci sub] by (simp add: find_child_index_def)

text \<open>
  \<open>insert_into_non_full_node\<close>; a full child is split first, and then the index is looked up again.
\<close>

function insert_into_non_full_node ::
  "('e, 'w) weight_ops \<Rightarrow> nat \<Rightarrow> 'e \<Rightarrow> ('e, 'w) tree_node \<Rightarrow> ('e, 'w) tree_node option" where
  "insert_into_non_full_node W index x t =
     (if is_full t then None
      else if is_leaf t
      then map_option (\<lambda>es. TreeNode es [] (tn_length t + 1) (wt_union W (tn_weight t) (wt_alloc W x))) (vec_insert index x (tn_elements t))
      else Option.bind (find_child_index t index) (\<lambda>(ci, sub).
        if is_full (tn_children t ! ci)
        then Option.bind (split_child W ci t) (\<lambda>t.
             Option.bind (find_child_index t index) (\<lambda>(ci, sub).
             map_option (grown W x ci t) (insert_into_non_full_node W sub x (tn_children t ! ci))))
        else map_option (grown W x ci t) (insert_into_non_full_node W sub x (tn_children t ! ci))))"
  by pat_completeness auto

termination
  by (relation "measure (\<lambda>(W, index, x, t). height t)")
    (auto intro: split_child_children height_child find_child_less)

declare insert_into_non_full_node.simps [simp del]

text \<open>The tree is its root, or nothing.\<close>

type_synonym ('e, 'w) span_tree = "('e, 'w) tree_node option"

definition tree_len :: "('e, 'w) span_tree \<Rightarrow> nat" where
  "tree_len t = (case t of Some root \<Rightarrow> tn_length root | None \<Rightarrow> 0)"

definition tree_insert :: "('e, 'w) weight_ops \<Rightarrow> nat \<Rightarrow> 'e \<Rightarrow> ('e, 'w) span_tree \<Rightarrow> ('e, 'w) span_tree option" where
  "tree_insert W index x t =
     Option.bind (case t of
         None \<Rightarrow> Some (TreeNode [x] [] 1 (wt_alloc W x))
       | Some root \<Rightarrow>
           if is_full root
           then Option.bind (split_child W 0 (TreeNode [] [root] (tn_length root) (wt_union W (wt_default W) (tn_weight root)))) (\<lambda>root'.
                if tn_length root \<noteq> tn_length root' then None
                else let first_child_len = tn_length (tn_children root' ! 0);
                         (ci, insertion_index) = (if first_child_len < index then (1, index - (first_child_len + 1)) else (0, index))
                     in map_option (grown W x ci root') (insert_into_non_full_node W insertion_index x (tn_children root' ! ci)))
           else insert_into_non_full_node W index x root) (\<lambda>root.
     if tn_length root = tree_len t + 1 then Some (Some root) else None)"

definition push :: "('e, 'w) weight_ops \<Rightarrow> 'e \<Rightarrow> ('e, 'w) span_tree \<Rightarrow> ('e, 'w) span_tree option" where
  "push W x t = tree_insert W (tree_len t) x t"

subsection \<open>Removal\<close>

text \<open>The loop that compares an index with the ends of the children: the child, the elements before it, and whether the index is its end.\<close>

primrec seek_child :: "nat \<Rightarrow> nat \<Rightarrow> ('e, 'w) tree_node list \<Rightarrow> nat \<Rightarrow> (nat \<times> nat \<times> bool) option" where
  "seek_child i cum [] index = None"
| "seek_child i cum (c # cs) index =
     (if cum + tn_length c < index then seek_child (i + 1) (cum + tn_length c + 1) cs index
      else Some (i, cum, cum + tn_length c = index))"

definition cumulative_index :: "('e, 'w) tree_node \<Rightarrow> nat \<Rightarrow> nat" where
  "cumulative_index t i = sum_list (map (\<lambda>c. tn_length c + 1) (take i (tn_children t)))"

definition merge_nodes :: "('e, 'w) weight_ops \<Rightarrow> ('e, 'w) tree_node \<Rightarrow> 'e \<Rightarrow> ('e, 'w) tree_node \<Rightarrow> ('e, 'w) tree_node option" where
  "merge_nodes W t middle s =
     (let t = TreeNode (tn_elements t @ middle # tn_elements s) (tn_children t @ tn_children s)
            (tn_length t + (tn_length s + 1)) (wt_union W (wt_union W (tn_weight t) (tn_weight s)) (wt_alloc W middle))
      in if is_full t then Some t else None)"

text \<open>Merging child \<open>i\<close>, element \<open>i\<close> and child \<open>i + 1\<close>.\<close>

definition merge_children :: "('e, 'w) weight_ops \<Rightarrow> nat \<Rightarrow> ('e, 'w) tree_node \<Rightarrow> ('e, 'w) tree_node option" where
  "merge_children W i t = (case t of TreeNode es cs n w \<Rightarrow>
     Option.bind (vec_at es i) (\<lambda>middle.
     Option.bind (vec_remove i es) (\<lambda>es.
     Option.bind (vec_at cs (i + 1)) (\<lambda>successor.
     Option.bind (vec_remove (i + 1) cs) (\<lambda>cs.
     Option.bind (vec_at cs i) (\<lambda>child.
     map_option (\<lambda>c. TreeNode es (cs[i := c]) n w) (merge_nodes W child middle successor)))))))"

text \<open>Taking the last or first element and child from a sibling, and giving them to a child.\<close>

definition drop_element :: "('e, 'w) weight_ops \<Rightarrow> 'e list \<Rightarrow> 'e \<Rightarrow> ('e, 'w) tree_node \<Rightarrow> ('e, 'w) tree_node" where
  "drop_element W es x t = subtract_weight W (wt_alloc W x) (TreeNode es (tn_children t) (tn_length t - 1) (tn_weight t))"

definition drop_child :: "('e, 'w) weight_ops \<Rightarrow> ('e, 'w) tree_node list \<Rightarrow> ('e, 'w) tree_node \<Rightarrow> ('e, 'w) tree_node \<Rightarrow> ('e, 'w) tree_node" where
  "drop_child W cs c t = subtract_weight W (tn_weight c) (TreeNode (tn_elements t) cs (tn_length t - tn_length c) (tn_weight t))"

definition add_element :: "('e, 'w) weight_ops \<Rightarrow> 'e list \<Rightarrow> 'e \<Rightarrow> ('e, 'w) tree_node \<Rightarrow> ('e, 'w) tree_node" where
  "add_element W es x t = TreeNode es (tn_children t) (tn_length t + 1) (wt_union W (tn_weight t) (wt_alloc W x))"

definition add_child :: "('e, 'w) weight_ops \<Rightarrow> ('e, 'w) tree_node list \<Rightarrow> ('e, 'w) tree_node \<Rightarrow> ('e, 'w) tree_node \<Rightarrow> ('e, 'w) tree_node" where
  "add_child W cs c t = TreeNode (tn_elements t) cs (tn_length t + tn_length c) (wt_union W (tn_weight t) (tn_weight c))"

definition lend_last :: "('e, 'w) weight_ops \<Rightarrow> ('e, 'w) tree_node \<Rightarrow> ('e \<times> ('e, 'w) tree_node option \<times> ('e, 'w) tree_node) option" where
  "lend_last W s =
     (let x = last (tn_elements s); s = drop_element W (butlast (tn_elements s)) x s in
      if tn_elements s = [] then None
      else if is_leaf s then Some (x, None, s)
      else let c = last (tn_children s) in Some (x, Some c, drop_child W (butlast (tn_children s)) c s))"

definition lend_first :: "('e, 'w) weight_ops \<Rightarrow> ('e, 'w) tree_node \<Rightarrow> ('e \<times> ('e, 'w) tree_node option \<times> ('e, 'w) tree_node) option" where
  "lend_first W s =
     (let x = hd (tn_elements s); s = drop_element W (tl (tn_elements s)) x s in
      if tn_elements s = [] then None
      else if is_leaf s then Some (x, None, s)
      else let c = hd (tn_children s) in Some (x, Some c, drop_child W (tl (tn_children s)) c s))"

definition take_front :: "('e, 'w) weight_ops \<Rightarrow> 'e \<Rightarrow> ('e, 'w) tree_node option \<Rightarrow> ('e, 'w) tree_node \<Rightarrow> ('e, 'w) tree_node" where
  "take_front W x oc t =
     (let t = add_element W (x # tn_elements t) x t in
      case oc of Some c \<Rightarrow> add_child W (c # tn_children t) c t | None \<Rightarrow> t)"

definition take_back :: "('e, 'w) weight_ops \<Rightarrow> 'e \<Rightarrow> ('e, 'w) tree_node option \<Rightarrow> ('e, 'w) tree_node \<Rightarrow> ('e, 'w) tree_node" where
  "take_back W x oc t =
     (let t = add_element W (tn_elements t @ [x]) x t in
      case oc of Some c \<Rightarrow> add_child W (tn_children t @ [c]) c t | None \<Rightarrow> t)"

text \<open>The element that is lent goes to the parent, and the one of the parent to the child.\<close>

definition borrow_left :: "('e, 'w) weight_ops \<Rightarrow> nat \<Rightarrow> ('e, 'w) tree_node \<Rightarrow> ('e, 'w) tree_node option" where
  "borrow_left W ci t = (case t of TreeNode es cs n w \<Rightarrow>
     Option.bind (lend_last W (cs ! (ci - 1))) (\<lambda>(x, oc, sibling).
     map_option (\<lambda>p. TreeNode (es[ci - 1 := x]) (cs[ci - 1 := sibling, ci := take_front W p oc (cs ! ci)]) n w) (vec_at es (ci - 1))))"

definition borrow_right :: "('e, 'w) weight_ops \<Rightarrow> nat \<Rightarrow> ('e, 'w) tree_node \<Rightarrow> ('e, 'w) tree_node option" where
  "borrow_right W ci t = (case t of TreeNode es cs n w \<Rightarrow>
     Option.bind (lend_first W (cs ! (ci + 1))) (\<lambda>(x, oc, sibling).
     map_option (\<lambda>p. TreeNode (es[ci := x]) (cs[ci + 1 := sibling, ci := take_back W p oc (cs ! ci)]) n w) (vec_at es ci)))"

text \<open>What \<open>remove_from_internal_child\<close> does before it goes down: the child it goes to has at least \<open>b_factor\<close> elements.\<close>

definition child_small :: "('e, 'w) tree_node \<Rightarrow> nat \<Rightarrow> bool" where
  "child_small t i \<longleftrightarrow> length (tn_elements (tn_children t ! i)) < b_factor"

definition rebalance :: "('e, 'w) weight_ops \<Rightarrow> nat \<Rightarrow> ('e, 'w) tree_node \<Rightarrow> (nat \<times> ('e, 'w) tree_node) option" where
  "rebalance W ci t =
     (let more_right = ci + 1 < length (tn_children t) in
      if child_small t ci \<and> (ci = 0 \<or> child_small t (ci - 1)) \<and> (\<not> more_right \<or> child_small t (ci + 1))
      then if ci > 0 then map_option (Pair (ci - 1)) (merge_children W (ci - 1) t)
           else map_option (Pair ci) (merge_children W ci t)
      else if child_small t ci
      then if ci > 0 \<and> \<not> child_small t (ci - 1) then map_option (Pair ci) (borrow_left W ci t)
           else if more_right \<and> \<not> child_small t (ci + 1) then map_option (Pair ci) (borrow_right W ci t)
           else Some (ci, t)
      else Some (ci, t))"

definition remove_from_leaf :: "('e, 'w) weight_ops \<Rightarrow> nat \<Rightarrow> ('e, 'w) tree_node \<Rightarrow> ('e \<times> ('e, 'w) tree_node) option" where
  "remove_from_leaf W index t =
     Option.bind (vec_at (tn_elements t) index) (\<lambda>x.
     map_option (\<lambda>es. (x, drop_element W es x t)) (vec_remove index (tn_elements t)))"

text \<open>Storing what the recursive removal left of a child, and the element it returned if it moves up.\<close>

definition set_child :: "nat \<Rightarrow> ('e, 'w) tree_node \<Rightarrow> ('e, 'w) tree_node \<Rightarrow> ('e, 'w) tree_node" where
  "set_child i c t = (case t of TreeNode es cs n w \<Rightarrow> TreeNode es (cs[i := c]) n w)"

definition swap_element :: "nat \<Rightarrow> 'e \<Rightarrow> ('e, 'w) tree_node \<Rightarrow> ('e \<times> ('e, 'w) tree_node) option" where
  "swap_element i x t = (case t of TreeNode es cs n w \<Rightarrow>
     map_option (\<lambda>old. (old, TreeNode (es[i := x]) cs n w)) (vec_at es i))"

definition shrunk :: "('e, 'w) weight_ops \<Rightarrow> 'e \<times> ('e, 'w) tree_node \<Rightarrow> 'e \<times> ('e, 'w) tree_node" where
  "shrunk W r = (case r of (x, t) \<Rightarrow> (x, drop_element W (tn_elements t) x t))"

lemma vec_at_mem: "vec_at xs i = Some x \<Longrightarrow> x \<in> set xs"
  by (auto simp: vec_at_def split: if_splits)

lemma subtract_weight_sel [simp]:
  "tn_elements (subtract_weight W x t) = tn_elements t" "tn_children (subtract_weight W x t) = tn_children t"
  "tn_length (subtract_weight W x t) = tn_length t"
  by (cases t; simp add: subtract_weight_def recompute_weight_def Let_def split: option.split)+

lemma moved_sel [simp]:
  "tn_elements (drop_element W es x t) = es" "tn_children (drop_element W es x t) = tn_children t"
  "tn_length (drop_element W es x t) = tn_length t - 1"
  "tn_elements (drop_child W cs c t) = tn_elements t" "tn_children (drop_child W cs c t) = cs"
  "tn_length (drop_child W cs c t) = tn_length t - tn_length c"
  "tn_elements (add_element W es x t) = es" "tn_children (add_element W es x t) = tn_children t"
  "tn_length (add_element W es x t) = tn_length t + 1" "tn_weight (add_element W es x t) = wt_union W (tn_weight t) (wt_alloc W x)"
  "tn_elements (add_child W cs c t) = tn_elements t" "tn_children (add_child W cs c t) = cs"
  "tn_length (add_child W cs c t) = tn_length t + tn_length c" "tn_weight (add_child W cs c t) = wt_union W (tn_weight t) (tn_weight c)"
  by (simp_all add: drop_element_def drop_child_def add_element_def add_child_def)

text \<open>The children of a rebalanced node are no higher than those of the node.\<close>

lemma height_grandchildren:
  assumes "a \<in> set (tn_children t)" "b \<in> set (tn_children t)" "set (tn_children c) \<subseteq> set (tn_children a) \<union> set (tn_children b)"
  shows "height c < height t"
proof -
  have "height c \<le> max (height a) (height b)"
    by (rule height_le) (use assms(3) height_child in \<open>fastforce simp: less_max_iff_disj\<close>)
  then show ?thesis using height_child [OF assms(1)] height_child [OF assms(2)] by simp
qed

lemma set_vec_remove: "vec_remove i xs = Some ys \<Longrightarrow> set ys \<subseteq> set xs"
  by (auto simp: vec_remove_def split: if_splits dest: in_set_takeD in_set_dropD)

lemma set_upd: "y \<in> set (xs[i := x]) \<Longrightarrow> y = x \<or> y \<in> set xs"
  using set_update_subset_insert [of xs i x] by auto

lemma merge_children_height:
  assumes "merge_children W i t = Some t'" and c: "c \<in> set (tn_children t')"
  shows "height c < height t"
proof -
  obtain es cs n w where t: "t = TreeNode es cs n w" by (cases t)
  obtain mid s cs' child m where m: "vec_at cs (i + 1) = Some s" "vec_remove (i + 1) cs = Some cs'" "vec_at cs' i = Some child"
    "merge_nodes W child mid s = Some m" "tn_children t' = cs'[i := m]"
    using assms(1) by (auto simp: merge_children_def t Option.bind_eq_Some_conv)
  have "s \<in> set (tn_children t)" using m(1) vec_at_mem by (fastforce simp: t)
  moreover have "child \<in> set (tn_children t)" using m(2,3) vec_at_mem set_vec_remove by (fastforce simp: t)
  moreover have "tn_children m = tn_children child @ tn_children s" using m(4) by (auto simp: merge_nodes_def Let_def split: if_splits)
  ultimately have "height m < height t" using height_grandchildren [of child t s m] by simp
  then show ?thesis using set_upd [of c cs' i m] c m(2,5) set_vec_remove [of "i + 1" cs cs'] height_child [of c t] by (auto simp: t)
qed

lemma borrow_children_height:
  assumes "i < length cs" "j < length cs" and c: "c \<in> set (cs[i := a, j := b])"
    and "set (tn_children a) \<subseteq> set (tn_children (cs ! i))" "set (tn_children b) \<subseteq> set (tn_children (cs ! i)) \<union> set (tn_children (cs ! j))"
  shows "height c < height (TreeNode es cs n w)"
proof -
  let ?t = "TreeNode es cs n w"
  have "height a < height ?t" by (rule height_grandchildren [of "cs ! i" _ "cs ! j"]) (use assms in auto)
  moreover have "height b < height ?t" by (rule height_grandchildren [of "cs ! i" _ "cs ! j"]) (use assms in auto)
  ultimately show ?thesis using set_upd [OF c] set_upd [of c cs i a] height_child [of c ?t] by auto
qed

lemma in_tl: "x \<in> set (tl xs) \<Longrightarrow> x \<in> set xs"
  by (cases xs) auto

lemma lend_children:
  assumes "lend_last W s = Some (x, oc, s') \<or> lend_first W s = Some (x, oc, s')"
  shows "set (tn_children s') \<subseteq> set (tn_children s)" and "set_option oc \<subseteq> set (tn_children s)"
  using assms by (auto simp: lend_last_def lend_first_def Let_def is_leaf_def split: if_splits dest: in_set_butlastD in_tl)

lemma take_children [simp]:
  "set (tn_children (take_front W x oc t)) = set_option oc \<union> set (tn_children t)"
  "set (tn_children (take_back W x oc t)) = set_option oc \<union> set (tn_children t)"
  by (auto simp: take_front_def take_back_def Let_def split: option.split)

lemma borrow_left_height:
  assumes "borrow_left W i t = Some t'" "i < length (tn_children t)" and c: "c \<in> set (tn_children t')"
  shows "height c < height t"
proof -
  obtain es cs n w where t: "t = TreeNode es cs n w" by (cases t)
  obtain x oc s p where l: "lend_last W (cs ! (i - 1)) = Some (x, oc, s)" "tn_children t' = cs[i - 1 := s, i := take_front W p oc (cs ! i)]"
    using assms(1) by (auto simp: borrow_left_def t Option.bind_eq_Some_conv)
  show ?thesis unfolding t
    by (rule borrow_children_height [of "i - 1" cs i c s "take_front W p oc (cs ! i)"])
      (use lend_children [of W "cs ! (i - 1)" x oc s] assms(2) c l in \<open>auto simp: t\<close>)
qed

lemma borrow_right_height:
  assumes "borrow_right W i t = Some t'" "i + 1 < length (tn_children t)" and c: "c \<in> set (tn_children t')"
  shows "height c < height t"
proof -
  obtain es cs n w where t: "t = TreeNode es cs n w" by (cases t)
  obtain x oc s p where l: "lend_first W (cs ! (i + 1)) = Some (x, oc, s)" "tn_children t' = cs[i + 1 := s, i := take_back W p oc (cs ! i)]"
    using assms(1) by (auto simp: borrow_right_def t Option.bind_eq_Some_conv)
  show ?thesis unfolding t
    by (rule borrow_children_height [of "i + 1" cs i c s "take_back W p oc (cs ! i)"])
      (use lend_children [of W "cs ! (i + 1)" x oc s] assms(2) c l in \<open>auto simp: t\<close>)
qed

lemma rebalance_height:
  assumes "rebalance W i t = Some (j, t')" "i < length (tn_children t)" and c: "c \<in> set (tn_children t')"
  shows "height c < height t"
  using assms by (auto simp: rebalance_def Let_def split: if_splits
    intro: merge_children_height borrow_left_height borrow_right_height height_child)

text \<open>
  The three functions of the removal call each other. The index of the last element guards the wrap-around
  of the subtraction when a node has no elements.
\<close>

function remove_node :: "('e, 'w) weight_ops \<Rightarrow> nat \<Rightarrow> ('e, 'w) tree_node \<Rightarrow> ('e \<times> ('e, 'w) tree_node) option"
  and remove_element_from_non_leaf :: "('e, 'w) weight_ops \<Rightarrow> nat \<Rightarrow> nat \<Rightarrow> ('e, 'w) tree_node \<Rightarrow> ('e \<times> ('e, 'w) tree_node) option"
  and remove_from_internal_child :: "('e, 'w) weight_ops \<Rightarrow> nat \<Rightarrow> nat \<Rightarrow> ('e, 'w) tree_node \<Rightarrow> ('e \<times> ('e, 'w) tree_node) option" where
  "remove_node W index t =
     Option.bind (if is_leaf t then remove_from_leaf W index t
       else Option.bind (seek_child 0 0 (tn_children t) index) (\<lambda>(ci, _, at_end).
         if at_end
         then remove_element_from_non_leaf W index (if tn_elements t = [] then ci else min ci (length (tn_elements t) - 1)) t
         else remove_from_internal_child W index ci t)) (\<lambda>(x, t').
     if tn_length t = tn_length t' + 1 then Some (x, t') else None)"
| "remove_element_from_non_leaf W index ei t =
     map_option (shrunk W) (Option.bind (vec_at (tn_children t) ei) (\<lambda>c.
       if length (tn_elements c) \<ge> b_factor
       then Option.bind (remove_node W (index - 1 - cumulative_index t ei) c) (\<lambda>(x, c). swap_element ei x (set_child ei c t))
       else Option.bind (vec_at (tn_children t) (ei + 1)) (\<lambda>s.
         if length (tn_elements s) \<ge> b_factor
         then Option.bind (remove_node W (index + 1 - cumulative_index t (ei + 1)) s) (\<lambda>(x, s). swap_element ei x (set_child (ei + 1) s t))
         else Option.bind (merge_children W ei t) (\<lambda>t.
              Option.bind (vec_at (tn_children t) ei) (\<lambda>c.
              map_option (\<lambda>(x, c). (x, set_child ei c t)) (remove_node W (index - cumulative_index t ei) c))))))"
| "remove_from_internal_child W index ci t =
     (if ci < length (tn_children t)
      then map_option (shrunk W) (Option.bind (rebalance W ci t) (\<lambda>(ci, t).
        Option.bind (vec_at (tn_children t) ci) (\<lambda>c.
        map_option (\<lambda>(x, c). (x, set_child ci c t)) (remove_node W (index - cumulative_index t ci) c))))
      else None)"
  by pat_completeness auto

termination
  by (relation "measure (case_sum (\<lambda>(W, index, t). 2 * height t + 1)
      (case_sum (\<lambda>(W, index, ei, t). 2 * height t) (\<lambda>(W, index, ci, t). 2 * height t)))")
    (auto dest!: vec_at_mem dest: height_child merge_children_height rebalance_height)

declare remove_node.simps [simp del] remove_element_from_non_leaf.simps [simp del] remove_from_internal_child.simps [simp del]

definition tree_remove :: "('e, 'w) weight_ops \<Rightarrow> nat \<Rightarrow> ('e, 'w) span_tree \<Rightarrow> ('e \<times> ('e, 'w) span_tree) option" where
  "tree_remove W index t = Option.bind t (\<lambda>root.
     map_option (\<lambda>(x, root).
       (x, if tn_elements root = [] then (if is_leaf root then None else Some (hd (tn_children root))) else Some root))
       (remove_node W index root))"

subsection \<open>Replacement, reading\<close>

lemma seek_child_less: "seek_child i cum cs index = Some (ci, k, b) \<Longrightarrow> i \<le> ci \<and> ci - i < length cs"
proof (induction cs arbitrary: i cum)
  case (Cons c cs)
  then show ?case by (fastforce split: if_splits)
qed simp

lemma seek_child_mem: "seek_child 0 0 (tn_children t) index = Some (ci, k, b) \<Longrightarrow> height (tn_children t ! ci) < height t"
  using seek_child_less [of 0 0 "tn_children t" index ci k b] by (intro height_child) simp

text \<open>The weight takes the new element before the old one is subtracted.\<close>

definition add_weight :: "('e, 'w) weight_ops \<Rightarrow> 'e \<Rightarrow> ('e, 'w) tree_node \<Rightarrow> ('e, 'w) tree_node" where
  "add_weight W x t = (case t of TreeNode es cs n w \<Rightarrow> TreeNode es cs n (wt_union W w (wt_alloc W x)))"

definition swap_weighted :: "('e, 'w) weight_ops \<Rightarrow> nat \<Rightarrow> 'e \<Rightarrow> ('e, 'w) tree_node \<Rightarrow> ('e \<times> ('e, 'w) tree_node) option" where
  "swap_weighted W i x t =
     map_option (\<lambda>(old, t). (old, subtract_weight W (wt_alloc W old) t)) (swap_element i x (add_weight W x t))"

function replace_node :: "('e, 'w) weight_ops \<Rightarrow> nat \<Rightarrow> 'e \<Rightarrow> ('e, 'w) tree_node \<Rightarrow> ('e \<times> ('e, 'w) tree_node) option" where
  "replace_node W index x t =
     (if is_leaf t then swap_weighted W index x t
      else Option.bind (seek_child 0 0 (tn_children t) index) (\<lambda>(ci, cum, at_end).
        if at_end then swap_weighted W (if tn_elements t = [] then ci else min ci (length (tn_elements t) - 1)) x t
        else map_option (\<lambda>(old, c). (old, subtract_weight W (wt_alloc W old) (add_weight W x (set_child ci c t))))
          (replace_node W (index - cum) x (tn_children t ! ci))))"
  by pat_completeness auto

termination
  by (relation "measure (\<lambda>(W, index, x, t). height t)") (auto intro: seek_child_mem)

declare replace_node.simps [simp del]

definition tree_replace :: "('e, 'w) weight_ops \<Rightarrow> nat \<Rightarrow> 'e \<Rightarrow> ('e, 'w) span_tree \<Rightarrow> ('e \<times> ('e, 'w) span_tree) option" where
  "tree_replace W index x t = Option.bind t (\<lambda>root. map_option (\<lambda>(old, root). (old, Some root)) (replace_node W index x root))"

text \<open>
  \<open>splice\<close> replaces while it has values, and removes or inserts the rest. \<open>end\<close> is cut to the length;
  a start beyond it makes the subtraction wrap, and the first round panics.
\<close>

primrec splice_delete ::
  "('e, 'w) weight_ops \<Rightarrow> nat \<Rightarrow> nat \<Rightarrow> 'e list \<Rightarrow> ('e, 'w) span_tree \<Rightarrow> (nat \<times> 'e list \<times> ('e, 'w) span_tree) option" where
  "splice_delete W 0 index values t = Some (index, values, t)"
| "splice_delete W (Suc to_delete) index values t = (case values of
     val # values \<Rightarrow> Option.bind (tree_replace W index val t) (\<lambda>(_, t). splice_delete W to_delete (index + 1) values t)
   | [] \<Rightarrow> Option.bind (tree_remove W index t) (\<lambda>(_, t). splice_delete W to_delete index [] t))"

primrec splice_insert :: "('e, 'w) weight_ops \<Rightarrow> nat \<Rightarrow> 'e list \<Rightarrow> ('e, 'w) span_tree \<Rightarrow> ('e, 'w) span_tree option" where
  "splice_insert W index [] t = Some t"
| "splice_insert W index (val # values) t = Option.bind (tree_insert W index val t) (splice_insert W (index + 1) values)"

definition tree_splice :: "('e, 'w) weight_ops \<Rightarrow> nat \<Rightarrow> nat \<Rightarrow> 'e list \<Rightarrow> ('e, 'w) span_tree \<Rightarrow> ('e, 'w) span_tree option" where
  "tree_splice W start stop values t =
     (let stop = min stop (tree_len t) in
      if stop < start then None
      else Option.bind (splice_delete W (stop - start) start values t) (\<lambda>(index, values, t). splice_insert W index values t))"

text \<open>\<open>SpanTree::load\<close>; the last argument is \<open>T::default()\<close>.\<close>

definition tree_load :: "('e, 'w) weight_ops \<Rightarrow> 'e list \<Rightarrow> 'e \<Rightarrow> ('e, 'w) span_tree option" where
  "tree_load W elements d =
     Option.bind (foldl (\<lambda>t e. Option.bind t (push W e)) (Some None) elements) (\<lambda>t.
     if tree_len t = 0 then push W d t else Some t)"

function get_node :: "nat \<Rightarrow> ('e, 'w) tree_node \<Rightarrow> 'e option" where
  "get_node index t =
     (if is_leaf t then vec_at (tn_elements t) index
      else Option.bind (seek_child 0 0 (tn_children t) index) (\<lambda>(ci, cum, at_end).
        if at_end then vec_at (tn_elements t) ci else get_node (index - cum) (tn_children t ! ci)))"
  by pat_completeness auto

termination
  by (relation "measure (\<lambda>(index, t). height t)") (auto intro: seek_child_mem)

declare get_node.simps [simp del]

definition tree_get :: "nat \<Rightarrow> ('e, 'w) span_tree \<Rightarrow> 'e option" where
  "tree_get index t = Option.bind t (get_node index)"

fun last_node :: "('e, 'w) tree_node \<Rightarrow> 'e option" where
  "last_node (TreeNode es cs n w) =
     (if cs = [] then (if es = [] then None else Some (last es)) else last (map last_node cs))"

definition tree_last :: "('e, 'w) span_tree \<Rightarrow> 'e option" where
  "tree_last t = Option.bind t last_node"

text \<open>The weight of everything before the last element; an empty node makes it panic.\<close>

fun last_weight_node :: "('e, 'w) weight_ops \<Rightarrow> ('e, 'w) tree_node \<Rightarrow> 'w option" where
  "last_weight_node W (TreeNode es cs n w) =
     (if cs = []
      then (if es = [] then None else Some (foldl (\<lambda>a e. wt_union W a (wt_alloc W e)) (wt_default W) (butlast es)))
      else let acc = foldl (\<lambda>a e. wt_union W a (wt_alloc W e)) (wt_default W) es;
               acc = foldl (\<lambda>a c. wt_union W a (tn_weight c)) acc (butlast cs)
           in map_option (wt_and W acc) (last (map (last_weight_node W) cs)))"

definition tree_last_weight :: "('e, 'w) weight_ops \<Rightarrow> ('e, 'w) span_tree \<Rightarrow> 'w option" where
  "tree_last_weight W t = (case t of Some root \<Rightarrow> last_weight_node W root | None \<Rightarrow> Some (wt_default W))"

text \<open>An element with its index and the weight before it.\<close>

record ('e, 'w) sub_cursor =
  sc_index :: nat
  sc_weight :: 'w
  sc_element :: 'e

definition get_last_cursor :: "('e, 'w) weight_ops \<Rightarrow> ('e, 'w) span_tree \<Rightarrow> ('e, 'w) sub_cursor option" where
  "get_last_cursor W t =
     (if tree_len t = 0 then None
      else Option.bind (tree_last t) (\<lambda>e.
           map_option (\<lambda>w. \<lparr>sc_index = tree_len t - 1, sc_weight = w, sc_element = e\<rparr>) (tree_last_weight W t)))"

fun get_cursor_leaf :: "('e, 'w) weight_ops \<Rightarrow> nat \<Rightarrow> nat \<Rightarrow> 'w \<Rightarrow> 'e list \<Rightarrow> ('e, 'w) sub_cursor option" where
  "get_cursor_leaf W current index acc [] = None"
| "get_cursor_leaf W current index acc (e # es) =
     (if current = index then Some \<lparr>sc_index = index, sc_weight = acc, sc_element = e\<rparr>
      else get_cursor_leaf W (current + 1) index (wt_union W acc (wt_alloc W e)) es)"

fun get_cursor_node :: "('e, 'w) weight_ops \<Rightarrow> nat \<Rightarrow> nat \<Rightarrow> 'w \<Rightarrow> ('e, 'w) tree_node \<Rightarrow> ('e, 'w) sub_cursor option"
  and get_cursor_loop :: "('e, 'w) weight_ops \<Rightarrow> nat \<Rightarrow> nat \<Rightarrow> 'w \<Rightarrow> ('e, 'w) tree_node list \<Rightarrow> 'e list \<Rightarrow> ('e, 'w) sub_cursor option" where
  "get_cursor_node W current index acc (TreeNode es cs n w) =
     (if cs = [] then get_cursor_leaf W current index acc es else get_cursor_loop W current index acc cs es)"
| "get_cursor_loop W current index acc [] es = None"
| "get_cursor_loop W current index acc (c # cs) es =
     (if current + tn_length c > index then get_cursor_node W current index acc c
      else let current = current + tn_length c; acc = wt_union W acc (tn_weight c) in
        case es of
          [] \<Rightarrow> get_cursor_loop W current index acc cs []
        | e # es \<Rightarrow> if current = index then Some \<lparr>sc_index = index, sc_weight = acc, sc_element = e\<rparr>
            else get_cursor_loop W (current + 1) index (wt_union W acc (wt_alloc W e)) cs es)"

definition tree_get_cursor :: "('e, 'w) weight_ops \<Rightarrow> nat \<Rightarrow> ('e, 'w) span_tree \<Rightarrow> ('e, 'w) sub_cursor option" where
  "tree_get_cursor W index t = Option.bind t (get_cursor_node W 0 index (wt_default W))"

end
