(* ===== verification/Span_Inv.thy ===== *)
theory Span_Inv
  imports Span_Tree
begin

text \<open>
  The sequence that a tree holds, the laws of its weights (the contract of \<open>SpanWeight\<close>) and the
  invariant: every node knows its length and weight, all leaves are at the same depth, and every node but
  the root has at least \<open>b_factor - 1\<close> elements.
\<close>

subsection \<open>The sequence of a node\<close>

text \<open>The children and the elements of a node, interleaved.\<close>

fun inord :: "'e list list \<Rightarrow> 'e list \<Rightarrow> 'e list" where
  "inord [] es = es"
| "inord (l # ls) [] = l @ concat ls"
| "inord (l # ls) (e # es) = l @ e # inord ls es"

primrec tn_list :: "('e, 'w) tree_node \<Rightarrow> 'e list" where
  "tn_list (TreeNode es cs n w) = inord (map tn_list cs) es"

lemma tn_list_eq: "tn_list t = inord (map tn_list (tn_children t)) (tn_elements t)"
  by (cases t) simp

text \<open>The part before a child and the part behind it.\<close>

definition lead :: "'e list list \<Rightarrow> 'e list \<Rightarrow> 'e list" where
  "lead ls es = concat (map2 (\<lambda>l e. l @ [e]) ls es)"

definition trail :: "'e list \<Rightarrow> 'e list list \<Rightarrow> 'e list" where
  "trail es ls = concat (map2 (#) es ls)"

lemma lead_simps [simp]: "lead [] es = []" "lead ls [] = []" "lead (l # ls) (e # es) = l @ e # lead ls es"
  by (simp_all add: lead_def)

lemma trail_simps [simp]: "trail [] ls = []" "trail es [] = []" "trail (e # es) (l # ls) = e # l @ trail es ls"
  by (simp_all add: trail_def)

lemma lead_append: "length ls = length es \<Longrightarrow> lead (ls @ ls') (es @ es') = lead ls es @ lead ls' es'"
  by (simp add: lead_def zip_append)

lemma trail_append: "length ls = length es \<Longrightarrow> trail (es @ es') (ls @ ls') = trail es ls @ trail es' ls'"
  by (simp add: trail_def zip_append)

lemma inord_first: "length es = length ls \<Longrightarrow> inord (l # ls) es = l @ trail es ls"
proof (induction ls arbitrary: l es)
  case (Cons k ls)
  then show ?case by (cases es) auto
qed simp

lemma inord_split:
  assumes "length ls1 = length es1" and "length es2 = length ls2"
  shows "inord (ls1 @ l # ls2) (es1 @ es2) = lead ls1 es1 @ l @ trail es2 ls2"
  using assms(1)
proof (induction ls1 es1 rule: list_induct2)
  case Nil
  then show ?case using inord_first [OF assms(2)] by simp
qed simp

lemma inord_join: "length ls1 = length es1 + 1 \<Longrightarrow> inord (ls1 @ ls2) (es1 @ m # es2) = inord ls1 es1 @ m # inord ls2 es2"
proof (induction es1 arbitrary: ls1)
  case Nil
  then obtain l where "ls1 = [l]" by (cases ls1) auto
  then show ?case by simp
next
  case (Cons e es1)
  then obtain l ls where "ls1 = l # ls" by (cases ls1) auto
  with Cons show ?case by simp
qed

lemma lead_length: "length ls = length es \<Longrightarrow> length (lead ls es) = sum_list (map (\<lambda>l. length l + 1) ls)"
  by (induction ls es rule: list_induct2) auto

text \<open>An inner node taken apart at a child.\<close>

lemma node_split:
  assumes "length cs = length es + 1" and "i < length cs"
  obtains cs1 c cs2 es1 es2 where "cs = cs1 @ c # cs2" "es = es1 @ es2" "length cs1 = i" "length es1 = i" "length es2 = length cs2" "c = cs ! i"
proof
  show "cs = take i cs @ cs ! i # drop (Suc i) cs" using assms(2) by (rule id_take_nth_drop)
  show "es = take i es @ drop i es" by simp
qed (use assms in auto)

lemma tn_list_split:
  assumes "length cs1 = length es1" and "length es2 = length cs2"
  shows "tn_list (TreeNode (es1 @ es2) (cs1 @ c # cs2) n w)
    = lead (map tn_list cs1) es1 @ tn_list c @ trail es2 (map tn_list cs2)"
  using inord_split [of "map tn_list cs1" es1 es2 "map tn_list cs2" "tn_list c"] assms by simp

subsection \<open>Weights\<close>

definition wsum :: "('e, 'w) weight_ops \<Rightarrow> 'e list \<Rightarrow> 'w" where
  "wsum W xs = foldr (\<lambda>e a. wt_and W (wt_alloc W e) a) xs (wt_default W)"

text \<open>
  What the tree relies on: weights form a commutative monoid, \<open>union\<close> is \<open>and\<close> in place, and a subtraction
  that succeeds undoes an addition.
\<close>

locale span_weight =
  fixes W :: "('e, 'w) weight_ops"
  assumes and_assoc: "wt_and W (wt_and W a b) c = wt_and W a (wt_and W b c)"
    and and_commute: "wt_and W a b = wt_and W b a"
    and and_default: "wt_and W (wt_default W) a = a"
    and union_and: "wt_union W a b = wt_and W a b"
    and sub_and: "wt_maybe_sub W (wt_and W b r) b = Some c \<Longrightarrow> c = r"
begin

lemma and_left_commute: "wt_and W a (wt_and W b c) = wt_and W b (wt_and W a c)"
  by (metis and_assoc and_commute)

lemmas and_ac = and_assoc and_commute and_left_commute

lemma and_default_right: "wt_and W a (wt_default W) = a"
  by (metis and_commute and_default)

lemma wsum_simps: "wsum W [] = wt_default W" "wsum W (x # xs) = wt_and W (wt_alloc W x) (wsum W xs)"
  by (simp_all add: wsum_def)

lemma wsum_append: "wsum W (xs @ ys) = wt_and W (wsum W xs) (wsum W ys)"
  by (induction xs) (simp_all add: wsum_simps and_default and_ac)

text \<open>What \<open>recompute_weight\<close> computes: the elements, then the children.\<close>

definition ws_sum :: "'w list \<Rightarrow> 'w" where
  "ws_sum ws = foldr (wt_and W) ws (wt_default W)"

lemma ws_sum_simps: "ws_sum [] = wt_default W" "ws_sum (x # xs) = wt_and W x (ws_sum xs)"
  by (simp_all add: ws_sum_def)

lemma wsum_concat: "wsum W (concat ls) = ws_sum (map (wsum W) ls)"
  by (induction ls) (simp_all add: wsum_simps wsum_append ws_sum_simps)

lemma wsum_inord: "wsum W (inord ls es) = wt_and W (wsum W es) (ws_sum (map (wsum W) ls))"
  by (induction ls es rule: inord.induct)
    (simp_all add: wsum_simps wsum_append wsum_concat ws_sum_simps and_default and_default_right and_ac)

lemma foldl_and: "foldl (\<lambda>a x. wt_and W a (f x)) a xs = wt_and W a (ws_sum (map f xs))"
  by (induction xs arbitrary: a) (simp_all add: ws_sum_simps and_default_right and_assoc)

lemma ws_sum_alloc: "ws_sum (map (wt_alloc W) es) = wsum W es"
  by (induction es) (simp_all add: ws_sum_simps wsum_simps)

lemma recompute_weight_eq:
  "tn_weight (recompute_weight W t) = wt_and W (wsum W (tn_elements t)) (ws_sum (map tn_weight (tn_children t)))"
  by (cases t) (simp add: recompute_weight_def foldl_and ws_sum_alloc and_default)

end

subsection \<open>The invariant\<close>

definition meta_ok :: "('e, 'w) weight_ops \<Rightarrow> ('e, 'w) tree_node \<Rightarrow> bool" where
  "meta_ok W t \<longleftrightarrow> tn_length t = length (tn_list t) \<and> tn_weight t = wsum W (tn_list t)"

text \<open>A node at depth \<open>h\<close> above the leaves; the least number of elements is not part of it.\<close>

primrec node_ok :: "('e, 'w) weight_ops \<Rightarrow> nat \<Rightarrow> ('e, 'w) tree_node \<Rightarrow> bool" where
  "node_ok W 0 t \<longleftrightarrow> meta_ok W t \<and> length (tn_elements t) \<le> 2 * b_factor - 1 \<and> tn_children t = []"
| "node_ok W (Suc h) t \<longleftrightarrow> meta_ok W t \<and> length (tn_elements t) \<le> 2 * b_factor - 1 \<and>
     length (tn_children t) = length (tn_elements t) + 1 \<and>
     (\<forall>c \<in> set (tn_children t). node_ok W h c \<and> b_factor - 1 \<le> length (tn_elements c))"

definition tree_ok :: "('e, 'w) weight_ops \<Rightarrow> ('e, 'w) span_tree \<Rightarrow> bool" where
  "tree_ok W t \<longleftrightarrow> (case t of None \<Rightarrow> True | Some root \<Rightarrow> tn_elements root \<noteq> [] \<and> (\<exists>h. node_ok W h root))"

definition tree_list :: "('e, 'w) span_tree \<Rightarrow> 'e list" where
  "tree_list t = (case t of None \<Rightarrow> [] | Some root \<Rightarrow> tn_list root)"

lemma node_ok_meta: "node_ok W h t \<Longrightarrow> meta_ok W t"
  by (cases h) simp_all

lemma node_ok_len: "node_ok W h t \<Longrightarrow> tn_length t = length (tn_list t)"
  by (drule node_ok_meta) (simp add: meta_ok_def)

lemma node_ok_bound: "node_ok W h t \<Longrightarrow> length (tn_elements t) \<le> 2 * b_factor - 1"
  by (cases h) simp_all

lemma node_ok_leaf: "node_ok W h t \<Longrightarrow> is_leaf t \<longleftrightarrow> h = 0"
  by (cases h) (auto simp: is_leaf_def)

lemma tree_len_list: "tree_ok W t \<Longrightarrow> tree_len t = length (tree_list t)"
  by (auto simp: tree_ok_def tree_len_def tree_list_def node_ok_len split: option.splits)

context span_weight
begin

text \<open>A node whose fields were recomputed.\<close>

lemma recompute_ok:
  assumes "\<And>c. c \<in> set cs \<Longrightarrow> meta_ok W c"
  shows "meta_ok W (recompute_len W (TreeNode es cs n w))"
proof -
  have "length (inord ls xs) = length xs + sum_list (map length ls)" for ls :: "'e list list" and xs
    by (induction ls xs rule: inord.induct) (simp_all add: length_concat)
  moreover have "map tn_length cs = map length (map tn_list cs)" "map tn_weight cs = map (wsum W) (map tn_list cs)"
    using assms(1) by (simp_all add: meta_ok_def)
  ultimately show ?thesis
    by (simp add: meta_ok_def recompute_len_def recompute_weight_def foldl_and ws_sum_alloc and_default wsum_inord comp_def cong: map_cong)
qed

lemma recompute_list [simp]: "tn_list (recompute_len W t) = tn_list t"
  by (simp add: tn_list_eq [of "recompute_len W t"] tn_list_eq [of t])

text \<open>A subtraction that is right: what is subtracted is part of the weight, and the children are right.\<close>

lemma subtract_ok:
  assumes "tn_weight t = wt_and W b (wsum W (tn_list t))" and "\<And>c. c \<in> set (tn_children t) \<Longrightarrow> meta_ok W c"
  shows "tn_weight (subtract_weight W b t) = wsum W (tn_list t)"
proof -
  obtain es cs n w where t: "t = TreeNode es cs n w" by (cases t)
  have m: "map tn_weight cs = map (wsum W) (map tn_list cs)" using assms(2) by (simp add: t meta_ok_def)
  show ?thesis
  proof (cases "wt_maybe_sub W w b")
    case None
    then show ?thesis using recompute_weight_eq [of t] m by (simp add: t subtract_weight_def wsum_inord)
  next
    case (Some v)
    then have "v = wsum W (tn_list t)" using sub_and assms(1) by (simp add: t)
    then show ?thesis using Some by (simp add: t subtract_weight_def)
  qed
qed

end

end
