(* ===== verification/Span_Insert.thy ===== *)
theory Span_Insert
  imports Span_Inv
begin

text \<open>Insertion into the tree is insertion into its sequence, and keeps the invariant.\<close>

lemma vec_insert_mid: "vec_insert i x ys = Some zs \<Longrightarrow> vec_insert (length xs + i) x (xs @ ys @ ws) = Some (xs @ zs @ ws)"
  by (auto simp: vec_insert_def split: if_splits)

lemma grown_sel [simp]:
  "tn_elements (grown W x i t c) = tn_elements t" "tn_children (grown W x i t c) = (tn_children t)[i := c]"
  "tn_length (grown W x i t c) = tn_length t + 1" "tn_weight (grown W x i t c) = wt_union W (tn_weight t) (wt_alloc W x)"
  by (simp_all add: grown_def split: tree_node.split)

lemma vec_insert_some: "i \<le> length xs \<Longrightarrow> vec_insert i x xs = Some (take i xs @ x # drop i xs)"
  by (simp add: vec_insert_def)

lemma vec_insert_length: "vec_insert i x xs = Some ys \<Longrightarrow> length ys = length xs + 1"
  by (auto simp: vec_insert_def split: if_splits)

text \<open>Positions in a list taken apart.\<close>

lemma mid_simps:
  assumes "length xs = i"
  shows "vec_at (xs @ y # ys) i = Some y" "(xs @ y # ys) ! i = y" "(xs @ y # ys)[i := z] = xs @ z # ys"
    "vec_insert i z (xs @ ys) = Some (xs @ z # ys)" "vec_insert (i + 1) z (xs @ y # ys) = Some (xs @ y # z # ys)"
    "vec_remove i (xs @ y # ys) = Some (xs @ ys)" "take i (xs @ ys) = xs"
  using assms by (auto simp: vec_at_def vec_insert_def vec_remove_def nth_append list_update_append)

lemma vec_at_split: "vec_at zs i = Some y \<Longrightarrow> \<exists>xs ys. zs = xs @ y # ys \<and> length xs = i"
  by (rule exI [of _ "take i zs"], rule exI [of _ "drop (Suc i) zs"]) (auto simp: vec_at_def id_take_nth_drop split: if_splits)

subsection \<open>The position of a child\<close>

lemma cumulative_split:
  assumes "\<And>c. c \<in> set cs1 \<Longrightarrow> tn_length c = length (tn_list c)" and "length es1 = length cs1"
  shows "cumulative_index (TreeNode es (cs1 @ cs2) n w) (length cs1) = length (lead (map tn_list cs1) es1)"
  using assms by (simp add: cumulative_index_def lead_length comp_def cong: map_cong)

lemma find_child_loop_found:
  assumes "cs \<noteq> []" and "cum \<le> index" and "index < cum + sum_list (map (\<lambda>c. tn_length c + 1) cs)"
  shows "\<exists>k sub. find_child_loop i cum cs index = Some (i + k, sub) \<and> k < length cs
    \<and> index = cum + sum_list (map (\<lambda>c. tn_length c + 1) (take k cs)) + sub \<and> sub \<le> tn_length (cs ! k)"
  using assms
proof (induction cs arbitrary: i cum)
  case (Cons c cs)
  show ?case
  proof (cases "cum + tn_length c \<ge> index")
    case True
    then show ?thesis using Cons.prems by (intro exI [of _ 0] exI [of _ "index - cum"]) auto
  next
    case False
    then have "cs \<noteq> []" using Cons.prems by auto
    then obtain k sub where "find_child_loop (i + 1) (cum + tn_length c + 1) cs index = Some (i + 1 + k, sub)" "k < length cs"
      "index = cum + tn_length c + 1 + sum_list (map (\<lambda>c. tn_length c + 1) (take k cs)) + sub" "sub \<le> tn_length (cs ! k)"
      using Cons.IH [of "cum + tn_length c + 1" "i + 1"] Cons.prems False by auto
    then show ?thesis using False by (intro exI [of _ "Suc k"] exI [of _ sub]) auto
  qed
qed simp

lemma inner_length:
  assumes "node_ok W (Suc h) t"
  shows "length (tn_list t) + 1 = sum_list (map (\<lambda>c. tn_length c + 1) (tn_children t))"
proof -
  have "length (inord ls xs) + 1 = sum_list (map (\<lambda>l. length l + 1) ls)" if "length ls = length xs + 1" for ls :: "'a list list" and xs
    using that by (induction ls xs rule: inord.induct) (auto simp: length_concat)
  from this [of "map tn_list (tn_children t)" "tn_elements t"] assms
  have "length (tn_list t) + 1 = sum_list (map (\<lambda>c. length (tn_list c) + 1) (tn_children t))"
    by (simp add: tn_list_eq [of t] comp_def)
  moreover have "map (\<lambda>c. length (tn_list c) + 1) (tn_children t) = map (\<lambda>c. tn_length c + 1) (tn_children t)"
    using assms by (intro map_cong) (auto simp: node_ok_len)
  ultimately show ?thesis by (simp only:)
qed

lemma find_child_found:
  assumes "node_ok W (Suc h) t" and "index \<le> length (tn_list t)"
  obtains ci sub where "find_child_index t index = Some (ci, sub)" "ci < length (tn_children t)"
    "index = cumulative_index t ci + sub" "sub \<le> length (tn_list (tn_children t ! ci))"
proof -
  have "tn_children t \<noteq> []" using assms(1) by auto
  then obtain k sub where k: "find_child_index t index = Some (k, sub)" "k < length (tn_children t)"
    "index = cumulative_index t k + sub" "sub \<le> tn_length (tn_children t ! k)"
    using find_child_loop_found [of "tn_children t" 0 index 0] assms inner_length [OF assms(1)]
    by (auto simp: find_child_index_def cumulative_index_def)
  moreover have "tn_length (tn_children t ! k) = length (tn_list (tn_children t ! k))"
    using assms(1) k(2) node_ok_len by fastforce
  ultimately show ?thesis using that by simp
qed

context span_weight
begin

lemma wsum_vec_insert: "vec_insert i x xs = Some ys \<Longrightarrow> wsum W ys = wt_union W (wsum W xs) (wt_alloc W x)"
  using wsum_append [of "take i xs" "drop i xs"]
  by (auto simp: vec_insert_def wsum_append wsum_simps union_and and_ac split: if_splits)

subsection \<open>The two halves of a full child\<close>

lemma halves:
  assumes "node_ok W h c" and "is_full c"
  shows "node_ok W h (left_half W c)" "node_ok W h (right_half W c)"
    "length (tn_elements (left_half W c)) = b_factor - 1" "length (tn_elements (right_half W c)) = b_factor - 1"
    "tn_list c = tn_list (left_half W c) @ last (take b_factor (tn_elements c)) # tn_list (right_half W c)"
proof -
  obtain es cs n w where c: "c = TreeNode es cs n w" by (cases c)
  have b: "b_factor > 0" by (simp add: b_factor_def)
  have len: "length es = 2 * b_factor - 1" using assms node_ok_bound [OF assms(1)] by (simp add: c is_full_def)
  define es1 where "es1 = butlast (take b_factor es)"
  define m where "m = last (take b_factor es)"
  have "es1 @ [m] = take b_factor es" using len b unfolding es1_def m_def by (intro append_butlast_last_id) auto
  then have es: "es = es1 @ m # drop b_factor es" by (metis append_Cons append_assoc append_Nil append_take_drop_id)
  have le: "length es1 = b_factor - 1" "length es - b_factor = b_factor - 1" using len b by (simp_all add: es1_def)
  have halves: "left_half W c = recompute_len W (TreeNode es1 (take b_factor cs) n w)"
    "right_half W c = recompute_len W (TreeNode (drop b_factor es) (drop b_factor cs) 0 (wt_default W))"
    by (simp_all add: left_half_def right_half_def c is_leaf_def es1_def)
  show "length (tn_elements (left_half W c)) = b_factor - 1" "length (tn_elements (right_half W c)) = b_factor - 1"
    by (simp_all add: halves le)
  have meta: "\<And>d. d \<in> set cs \<Longrightarrow> meta_ok W d" using assms(1) by (cases h) (auto simp: c node_ok_meta)
  then have metas: "meta_ok W (left_half W c)" "meta_ok W (right_half W c)"
    unfolding halves by (intro recompute_ok; auto dest: in_set_takeD in_set_dropD)+
  have l: "cs = [] \<or> length (take b_factor cs) = length es1 + 1"
    using assms(1) len b by (cases h) (auto simp: c le)
  show "tn_list c = tn_list (left_half W c) @ last (take b_factor (tn_elements c)) # tn_list (right_half W c)"
  proof (cases "cs = []")
    case True
    then show ?thesis using es unfolding halves recompute_list by (simp add: c m_def)
  next
    case False
    have "inord (map tn_list cs) es = inord (map tn_list (take b_factor cs) @ map tn_list (drop b_factor cs)) (es1 @ m # drop b_factor es)"
      by (rule arg_cong2 [of _ _ _ _ inord]) (simp only: map_append [symmetric] append_take_drop_id, rule es)
    also have "\<dots> = inord (map tn_list (take b_factor cs)) es1 @ m # inord (map tn_list (drop b_factor cs)) (drop b_factor es)"
      by (rule inord_join) (use l False in simp)
    finally show ?thesis unfolding halves recompute_list by (simp add: c m_def)
  qed
  have bnd: "b_factor - 1 \<le> 2 * b_factor - 1" by simp
  show "node_ok W h (left_half W c)" "node_ok W h (right_half W c)"
  proof -
    have "node_ok W h (left_half W c) \<and> node_ok W h (right_half W c)"
    proof (cases h)
      case 0
      then have "cs = []" using assms(1) by (simp add: c)
      then show ?thesis using metas bnd 0 by (simp add: halves le)
    next
      case (Suc k)
      have "length cs = 2 * b_factor" using assms(1) len b by (simp add: c Suc)
      then have "length (take b_factor cs) = b_factor - 1 + 1" "length cs - b_factor = b_factor - 1 + 1" using b by simp_all
      moreover have "\<And>d. d \<in> set cs \<Longrightarrow> node_ok W k d \<and> b_factor - 1 \<le> length (tn_elements d)" using assms(1) by (simp add: c Suc)
      ultimately show ?thesis using metas bnd unfolding halves
        by (auto simp: Suc le dest: in_set_takeD in_set_dropD)
    qed
    then show "node_ok W h (left_half W c)" "node_ok W h (right_half W c)" by simp_all
  qed
qed

subsection \<open>Insertion\<close>

text \<open>After a split, the same index leads to one of the two halves.\<close>

lemma find_child_loop_append:
  "find_child_loop i cum (cs @ ds) index = (case find_child_loop i cum cs index of Some r \<Rightarrow> Some r
    | None \<Rightarrow> find_child_loop (i + length cs) (cum + sum_list (map (\<lambda>c. tn_length c + 1) cs)) ds index)"
proof (induction cs arbitrary: i cum)
  case (Cons c cs)
  show ?case using Cons.IH [of "i + 1" "cum + tn_length c + 1"] by (simp add: add.assoc split: option.split)
qed simp

lemma split_child_find:
  assumes "split_child W ci t = Some u" and "find_child_index t index = Some (ci, sub)" and "find_child_index u index = Some (cj, sub')"
  shows "cj = ci \<or> cj = ci + 1"
proof -
  obtain es cs n w where te: "t = TreeNode es cs n w" by (cases t)
  obtain c where "vec_at cs ci = Some c" using assms(1) by (auto simp: split_child_def te Option.bind_eq_Some_conv)
  then obtain cs1 cs2 where sp: "cs = cs1 @ c # cs2" "length cs1 = ci" using vec_at_split by metis
  let ?a = "left_half W c" and ?b = "right_half W c"
  have u: "tn_children u = cs1 @ ?a # ?b # cs2" "tn_length ?a + tn_length ?b + 1 = tn_length c"
    using assms(1) mid_simps [OF sp(2)] unfolding split_child_def te sp(1) by (auto simp: Option.bind_eq_Some_conv split: if_splits)
  let ?cum = "sum_list (map (\<lambda>c. tn_length c + 1) cs1)"
  have none: "find_child_loop 0 0 cs1 index = None"
  proof (cases "find_child_loop 0 0 cs1 index")
    case (Some r)
    then have "r = (ci, sub)" using assms(2) by (simp add: find_child_index_def te sp find_child_loop_append)
    then show ?thesis using find_child_loop_less [of 0 0 cs1 index ci sub] Some sp(2) by simp
  qed
  then have "?cum + tn_length c \<ge> index"
    using assms(2) sp find_child_loop_less [of "ci + 1" "?cum + tn_length c + 1" cs2 index ci sub]
    by (auto simp: find_child_index_def te find_child_loop_append split: if_splits)
  then show ?thesis using assms(3) u none sp(2) by (auto simp: find_child_index_def find_child_loop_append split: if_splits)
qed

lemma split_child_elements: "split_child W ci t = Some u \<Longrightarrow> length (tn_elements u) = length (tn_elements t) + 1"
  by (auto simp: split_child_def Option.bind_eq_Some_conv vec_insert_length split: tree_node.splits if_splits)

lemma split_child_ok:
  assumes t: "node_ok W (Suc h) t" "\<not> is_full t" and ci: "ci < length (tn_children t)" "is_full (tn_children t ! ci)"
  obtains t' where "split_child W ci t = Some t'" "node_ok W (Suc h) t'" "tn_list t' = tn_list t"
    "\<forall>i. i = ci \<or> i = ci + 1 \<longrightarrow> \<not> is_full (tn_children t' ! i)"
proof -
  obtain es cs n w where te: "t = TreeNode es cs n w" by (cases t)
  have "length cs = length es + 1" using t(1) by (simp add: te)
  then obtain cs1 c cs2 es1 es2 where sp: "cs = cs1 @ c # cs2" "es = es1 @ es2" "length cs1 = ci" "length es1 = ci"
    "length es2 = length cs2" and cd: "c = cs ! ci"
    by (rule node_split) (use ci(1) te in simp)
  let ?a = "left_half W c" and ?b = "right_half W c" and ?m = "last (take b_factor (tn_elements c))"
  let ?t = "TreeNode (es1 @ ?m # es2) (cs1 @ ?a # ?b # cs2) n w"
  have full: "is_full c" using ci(2) cd by (simp add: te)
  have c: "node_ok W h c" using t(1) sp(1) by (simp add: te)
  note h = halves [OF c full]
  have lens: "tn_length ?a + tn_length ?b + 1 = tn_length c"
    using node_ok_len [OF c] node_ok_len [OF h(1)] node_ok_len [OF h(2)] arg_cong [OF h(5), of length] by simp
  have kids: "is_leaf c \<or> b_factor \<le> length (tn_children c)"
    using c full by (cases h) (auto simp: is_leaf_def is_full_def b_factor_def)
  have "split_child W ci t = Some ?t"
    using lens kids full mid_simps [OF sp(3)] mid_simps(4) [OF sp(4)]
    unfolding split_child_def te sp(1,2) by (auto simp: not_less)
  moreover have list: "tn_list ?t = tn_list t"
  proof -
    have "tn_list ?t = lead (map tn_list cs1) es1 @ tn_list ?a @ trail (?m # es2) (map tn_list (?b # cs2))"
      using tn_list_split [of cs1 es1 "?m # es2" "?b # cs2" ?a n w] sp by simp
    also have "\<dots> = tn_list t" using tn_list_split [of cs1 es1 es2 cs2 c n w] sp h(5) by (simp add: te)
    finally show ?thesis .
  qed
  moreover have "node_ok W (Suc h) ?t"
    using t h(1-4) list sp by (auto simp: te is_full_def meta_ok_def)
  moreover have "\<not> is_full (tn_children ?t ! i)" if "i = ci \<or> i = ci + 1" for i
    using that h(3,4) sp(3) by (auto simp: nth_append is_full_def b_factor_def)
  ultimately show ?thesis using that by blast
qed

lemma grown_ok:
  assumes t: "node_ok W (Suc h) t" and ci: "ci < length (tn_children t)" and c: "node_ok W h c" "b_factor - 1 \<le> length (tn_elements c)"
    and ins: "vec_insert sub x (tn_list (tn_children t ! ci)) = Some (tn_list c)"
  shows "node_ok W (Suc h) (grown W x ci t c)"
    and "vec_insert (cumulative_index t ci + sub) x (tn_list t) = Some (tn_list (grown W x ci t c))"
proof -
  obtain es cs n w where te: "t = TreeNode es cs n w" by (cases t)
  have "length cs = length es + 1" using t by (simp add: te)
  then obtain cs1 d cs2 es1 es2 where sp: "cs = cs1 @ d # cs2" "es = es1 @ es2" "length cs1 = ci" "length es1 = ci"
    "length es2 = length cs2" and cd: "d = cs ! ci"
    by (rule node_split) (use ci te in simp)
  let ?l = "lead (map tn_list cs1) es1" and ?r = "trail es2 (map tn_list cs2)"
  have "cs[ci := c] = cs1 @ c # cs2" unfolding sp(1) by (simp add: list_update_append sp(3))
  then have g: "grown W x ci t c = TreeNode (es1 @ es2) (cs1 @ c # cs2) (n + 1) (wt_union W w (wt_alloc W x))"
    using sp(2) by (simp add: grown_def te)
  have lists: "tn_list t = ?l @ tn_list d @ ?r" "tn_list (grown W x ci t c) = ?l @ tn_list c @ ?r"
    unfolding g unfolding te sp(1,2) using tn_list_split [of cs1 es1 es2 cs2] sp(3-5) by simp_all
  have "tn_length e = length (tn_list e)" if e: "e \<in> set cs1" for e
  proof -
    have "node_ok W h e" using t sp(1) e by (simp add: te)
    then show ?thesis by (rule node_ok_len)
  qed
  then have "cumulative_index t ci = length ?l"
    using cumulative_split [of cs1 es1 es "d # cs2" n w] sp by (simp add: te)
  then show v: "vec_insert (cumulative_index t ci + sub) x (tn_list t) = Some (tn_list (grown W x ci t c))"
    unfolding lists using vec_insert_mid [of sub x "tn_list d" "tn_list c" ?l ?r] ins cd by (simp add: te)
  have "meta_ok W (grown W x ci t c)"
    using vec_insert_length [OF v] wsum_vec_insert [OF v] node_ok_meta [OF t] by (simp add: meta_ok_def te grown_def del: tn_list.simps)
  then show "node_ok W (Suc h) (grown W x ci t c)" using t c by (auto dest!: set_upd)
qed

lemma insert_node:
  assumes "node_ok W h t" "\<not> is_full t" "index \<le> length (tn_list t)"
  shows "\<exists>t'. insert_into_non_full_node W index x t = Some t' \<and> node_ok W h t' \<and> vec_insert index x (tn_list t) = Some (tn_list t')
    \<and> length (tn_elements t) \<le> length (tn_elements t')"
  using assms
proof (induction h arbitrary: t index)
  case 0
  obtain es n w where t: "t = TreeNode es [] n w" using "0.prems"(1) by (cases t) simp
  let ?t = "TreeNode (take index es @ x # drop index es) [] (n + 1) (wt_union W w (wt_alloc W x))"
  have i: "insert_into_non_full_node W index x t = Some ?t"
    using 0 by (simp add: insert_into_non_full_node.simps t is_leaf_def vec_insert_def)
  have v: "vec_insert index x (tn_list t) = Some (tn_list ?t)" using 0 by (simp add: t vec_insert_def)
  have "node_ok W 0 ?t"
    using vec_insert_length [OF v] wsum_vec_insert [OF v] 0 by (simp add: meta_ok_def t is_full_def)
  with i v show ?case by (intro exI [of _ ?t]) (simp add: t)
next
  case (Suc h)
  have leaf: "\<not> is_leaf t" using Suc.prems(1) node_ok_leaf by blast
  obtain ci sub where f: "find_child_index t index = Some (ci, sub)" "ci < length (tn_children t)"
    "index = cumulative_index t ci + sub" "sub \<le> length (tn_list (tn_children t ! ci))"
    by (rule find_child_found [OF Suc.prems(1,3)])
  have down: "\<exists>t'. map_option (grown W x ci t) (insert_into_non_full_node W sub x (tn_children t ! ci)) = Some t' \<and> node_ok W (Suc h) t'
      \<and> vec_insert index x (tn_list t) = Some (tn_list t') \<and> length (tn_elements t') = length (tn_elements t)"
    if t: "node_ok W (Suc h) t" and f: "ci < length (tn_children t)" "index = cumulative_index t ci + sub"
      "sub \<le> length (tn_list (tn_children t ! ci))" and full: "\<not> is_full (tn_children t ! ci)" for t ci sub
  proof -
    have c: "node_ok W h (tn_children t ! ci)" "b_factor - 1 \<le> length (tn_elements (tn_children t ! ci))" using t f(1) by auto
    obtain c' where c': "insert_into_non_full_node W sub x (tn_children t ! ci) = Some c'" "node_ok W h c'"
      "vec_insert sub x (tn_list (tn_children t ! ci)) = Some (tn_list c')"
      "length (tn_elements (tn_children t ! ci)) \<le> length (tn_elements c')" using Suc.IH [OF c(1) full f(3)] by blast
    then show ?thesis using grown_ok [OF t f(1) c'(2) _ c'(3)] c(2) f(2)
      by (intro exI [of _ "grown W x ci t c'"]) (auto simp: grown_def split: tree_node.splits)
  qed
  show ?case
  proof (cases "is_full (tn_children t ! ci)")
    case True
    obtain u where u: "split_child W ci t = Some u" "node_ok W (Suc h) u" "tn_list u = tn_list t"
      "\<forall>i. i = ci \<or> i = ci + 1 \<longrightarrow> \<not> is_full (tn_children u ! i)"
      by (rule split_child_ok [OF Suc.prems(1,2) f(2) True])
    obtain cj sub' where g: "find_child_index u index = Some (cj, sub')" "cj < length (tn_children u)"
      "index = cumulative_index u cj + sub'" "sub' \<le> length (tn_list (tn_children u ! cj))"
      by (rule find_child_found [OF u(2)]) (use Suc.prems(3) u(3) in simp)
    have "\<not> is_full (tn_children u ! cj)" using split_child_find [OF u(1) f(1) g(1)] u(4) by blast
    then obtain t' where "map_option (grown W x cj u) (insert_into_non_full_node W sub' x (tn_children u ! cj)) = Some t'"
      "node_ok W (Suc h) t'" "vec_insert index x (tn_list t) = Some (tn_list t')" "length (tn_elements t') = length (tn_elements u)"
      using down [OF u(2) g(2-4)] u(3) by auto
    moreover have "length (tn_elements t) \<le> length (tn_elements u)" using split_child_elements [OF u(1)] by simp
    moreover have "insert_into_non_full_node W index x t = map_option (grown W x cj u) (insert_into_non_full_node W sub' x (tn_children u ! cj))"
      using True leaf Suc.prems(2) f(1) g(1) u(1) by (subst insert_into_non_full_node.simps) simp
    ultimately show ?thesis by (intro exI [of _ t']) simp
  next
    case False
    then obtain t' where "map_option (grown W x ci t) (insert_into_non_full_node W sub x (tn_children t ! ci)) = Some t'"
      "node_ok W (Suc h) t'" "vec_insert index x (tn_list t) = Some (tn_list t')" "length (tn_elements t') = length (tn_elements t)"
      using down [OF Suc.prems(1) f(2-4)] by blast
    moreover have "insert_into_non_full_node W index x t = map_option (grown W x ci t) (insert_into_non_full_node W sub x (tn_children t ! ci))"
      using False leaf Suc.prems(2) f(1) by (subst insert_into_non_full_node.simps) simp
    ultimately show ?thesis by (intro exI [of _ t']) simp
  qed
qed

lemma tree_insert_ok:
  assumes "tree_ok W t" and "index \<le> length (tree_list t)"
  shows "\<exists>t'. tree_insert W index x t = Some t' \<and> tree_ok W t' \<and> vec_insert index x (tree_list t) = Some (tree_list t')"
proof (cases t)
  case None
  have "node_ok W 0 (TreeNode [x] [] 1 (wt_alloc W x))"
    by (simp add: meta_ok_def wsum_simps and_default_right b_factor_def)
  then have "tree_ok W (Some (TreeNode [x] [] 1 (wt_alloc W x)))" unfolding tree_ok_def option.case by (metis list.discI tree_node.sel(1))
  then show ?thesis using assms(2) unfolding None
    by (auto simp: tree_insert_def tree_list_def tree_len_def vec_insert_def)
next
  case (Some root)
  obtain h where h: "node_ok W h root" "tn_elements root \<noteq> []" using assms(1) by (auto simp: tree_ok_def Some)
  have i: "index \<le> length (tn_list root)" using assms(2) by (simp add: tree_list_def Some)
  define step where "step = (if is_full root then Option.bind (split_child W 0 (TreeNode [] [root] (tn_length root) (wt_union W (wt_default W) (tn_weight root)))) (\<lambda>root'.
                if tn_length root \<noteq> tn_length root' then None
                else let first_child_len = tn_length (tn_children root' ! 0);
                         (ci, insertion_index) = (if first_child_len < index then (1, index - (first_child_len + 1)) else (0, index))
                     in map_option (grown W x ci root') (insert_into_non_full_node W insertion_index x (tn_children root' ! ci)))
           else insert_into_non_full_node W index x root)"
  have fin: "tree_insert W index x t = Some (Some r)" "tree_ok W (Some r)"
    if "node_ok W k r" "vec_insert index x (tn_list root) = Some (tn_list r)" "tn_elements r \<noteq> []"
      "step = Some r" for k r
    using that node_ok_len [OF that(1)] node_ok_len [OF h(1)] vec_insert_length [OF that(2)]
    unfolding tree_insert_def tree_len_def Some option.case step_def [symmetric] by (auto simp: tree_ok_def)
  show ?thesis
  proof (cases "is_full root")
    case False
    then obtain r where r: "insert_into_non_full_node W index x root = Some r" "node_ok W h r"
      "vec_insert index x (tn_list root) = Some (tn_list r)" "length (tn_elements root) \<le> length (tn_elements r)"
      using insert_node [OF h(1) False i] by blast
    have "tn_elements r \<noteq> []" using h(2) r(4) by auto
    then show ?thesis using fin [OF r(2,3)] r(1,3) False by (auto simp: Some tree_list_def step_def)
  next
    case True
    let ?n = "TreeNode [] [root] (tn_length root) (wt_union W (wt_default W) (tn_weight root))"
    have n: "node_ok W (Suc h) ?n" "tn_list ?n = tn_list root" "\<not> is_full ?n"
      using h True node_ok_meta [OF h(1)] by (auto simp: meta_ok_def union_and and_default is_full_def b_factor_def)
    obtain u where u: "split_child W 0 ?n = Some u" "node_ok W (Suc h) u" "tn_list u = tn_list ?n"
      "\<forall>i. i = 0 \<or> i = 0 + 1 \<longrightarrow> \<not> is_full (tn_children u ! i)"
      by (rule split_child_ok [OF n(1,3), of 0]) (use True in simp_all)
    have len: "length (tn_elements u) = 1" "length (tn_children u) = 2" using split_child_elements [OF u(1)] u(2) by simp_all
    then obtain a b m v w where ab: "u = TreeNode [m] [a, b] v w"
      by (cases u) (auto simp: length_Suc_conv numeral_2_eq_2)
    have ok: "node_ok W h a" "node_ok W h b" "b_factor - 1 \<le> length (tn_elements a)" "b_factor - 1 \<le> length (tn_elements b)"
      using u(2) by (simp_all add: ab)
    have cum: "cumulative_index u 0 = 0" "cumulative_index u 1 = tn_length a + 1" by (simp_all add: cumulative_index_def ab)
    define ci where "ci = (if tn_length a < index then 1 else 0 :: nat)"
    define j where "j = (if tn_length a < index then index - (tn_length a + 1) else index)"
    have ij: "ci < length (tn_children u)" "cumulative_index u ci + j = index" "\<not> is_full (tn_children u ! ci)"
      using cum u(4) by (simp_all add: ci_def j_def ab)
    have child: "node_ok W h (tn_children u ! ci)" "b_factor - 1 \<le> length (tn_elements (tn_children u ! ci))"
      using ok by (simp_all add: ci_def ab)
    have "length (tn_list root) = tn_length a + 1 + tn_length b"
      using node_ok_len [OF ok(1)] node_ok_len [OF ok(2)] by (simp add: ab u(3) [unfolded n(2), symmetric])
    then have "j \<le> length (tn_list (tn_children u ! ci))"
      using i node_ok_len [OF ok(1)] node_ok_len [OF ok(2)] by (auto simp: ci_def j_def ab)
    then obtain c where c: "insert_into_non_full_node W j x (tn_children u ! ci) = Some c" "node_ok W h c"
      "vec_insert j x (tn_list (tn_children u ! ci)) = Some (tn_list c)" "length (tn_elements (tn_children u ! ci)) \<le> length (tn_elements c)"
      using insert_node [OF child(1) ij(3)] by blast
    let ?r = "grown W x ci u c"
    have r: "node_ok W (Suc h) ?r" "vec_insert index x (tn_list root) = Some (tn_list ?r)"
      using grown_ok [OF u(2) ij(1) c(2) _ c(3)] child(2) c(4) ij(2) u(3) n(2) by simp_all
    have lu: "tn_length root = tn_length u" using node_ok_len [OF u(2)] node_ok_len [OF h(1)] u(3) n(2) by simp
    have a0: "tn_children u ! 0 = a" by (simp add: ab)
    have "step = map_option (grown W x ci u) (insert_into_non_full_node W j x (tn_children u ! ci))"
      unfolding step_def if_P [OF True] u(1) bind.bind_lunit unfolding a0 lu Let_def by (simp add: ci_def j_def)
    then have "step = Some ?r" using c(1) by simp
    moreover have "tn_elements ?r \<noteq> []" by (simp add: ab)
    ultimately show ?thesis using fin [OF r] r(2) by (simp add: Some tree_list_def)
  qed
qed

end

end
