(* ===== verification/Span_Remove.thy ===== *)
theory Span_Remove
  imports Span_Insert
begin

text \<open>Removal from the tree is removal from its sequence, and keeps the invariant.\<close>

subsection \<open>A node taken apart\<close>

lemma node_apart:
  assumes t: "node_ok W (Suc h) t" and ci: "ci < length (tn_children t)"
  obtains l r where "\<forall>c. tn_list (set_child ci c t) = l @ tn_list c @ r" "tn_list t = l @ tn_list (tn_children t ! ci) @ r"
    "cumulative_index t ci = length l"
proof -
  obtain es cs n w where te: "t = TreeNode es cs n w" by (cases t)
  have "length cs = length es + 1" using t by (simp add: te)
  then obtain cs1 d cs2 es1 es2 where sp: "cs = cs1 @ d # cs2" "es = es1 @ es2" "length cs1 = ci" "length es1 = ci"
    "length es2 = length cs2" and cd: "d = cs ! ci"
    by (rule node_split) (use ci te in simp)
  let ?l = "lead (map tn_list cs1) es1" and ?r = "trail es2 (map tn_list cs2)"
  have set: "tn_list (set_child ci c t) = ?l @ tn_list c @ ?r" for c
  proof -
    have "set_child ci c t = TreeNode (es1 @ es2) (cs1 @ c # cs2) n w" unfolding te sp(1,2) set_child_def using sp(3) by (simp add: mid_simps)
    then show ?thesis using tn_list_split [of cs1 es1 es2 cs2 c n w] sp(3-5) by simp
  qed
  have len: "tn_length e = length (tn_list e)" if e: "e \<in> set cs1" for e
  proof -
    have "node_ok W h e" using t sp(1) e by (simp add: te)
    then show ?thesis by (rule node_ok_len)
  qed
  have cum: "cumulative_index t ci = length ?l"
    using cumulative_split [OF len, of cs1 es1 es "d # cs2" n w] sp by (simp add: te)
  have kid: "tn_children t ! ci = d" by (simp add: te cd)
  have "set_child ci d t = t" by (simp add: set_child_def te cd)
  then have list: "tn_list t = ?l @ tn_list d @ ?r" using set [of d] by simp
  show ?thesis by (rule that [of ?l ?r]) (use set list cum kid in simp_all)
qed

lemma set_child_sel [simp]:
  "tn_elements (set_child i c t) = tn_elements t" "tn_children (set_child i c t) = (tn_children t)[i := c]"
  "tn_length (set_child i c t) = tn_length t" "tn_weight (set_child i c t) = tn_weight t"
  by (simp_all add: set_child_def split: tree_node.split)

subsection \<open>Finding the child\<close>

lemma seek_child_found:
  assumes "cs \<noteq> []" and "cum \<le> index" and "index + 1 < cum + sum_list (map (\<lambda>c. tn_length c + 1) cs)"
  shows "\<exists>k. k < length cs \<and> seek_child i cum cs index
      = Some (i + k, cum + sum_list (map (\<lambda>c. tn_length c + 1) (take k cs)),
          cum + sum_list (map (\<lambda>c. tn_length c + 1) (take k cs)) + tn_length (cs ! k) = index)
    \<and> cum + sum_list (map (\<lambda>c. tn_length c + 1) (take k cs)) \<le> index
    \<and> index \<le> cum + sum_list (map (\<lambda>c. tn_length c + 1) (take k cs)) + tn_length (cs ! k)
    \<and> (cum + sum_list (map (\<lambda>c. tn_length c + 1) (take k cs)) + tn_length (cs ! k) = index \<longrightarrow> k + 1 < length cs)"
  using assms
proof (induction cs arbitrary: i cum)
  case (Cons c cs)
  show ?case
  proof (cases "cum + tn_length c < index")
    case False
    then show ?thesis using Cons.prems by (intro exI [of _ 0]) (cases cs; auto)
  next
    case True
    then have "cs \<noteq> []" using Cons.prems by auto
    then obtain k where k: "k < length cs" "seek_child (i + 1) (cum + tn_length c + 1) cs index
        = Some (i + 1 + k, cum + tn_length c + 1 + sum_list (map (\<lambda>c. tn_length c + 1) (take k cs)),
          cum + tn_length c + 1 + sum_list (map (\<lambda>c. tn_length c + 1) (take k cs)) + tn_length (cs ! k) = index)"
      "cum + tn_length c + 1 + sum_list (map (\<lambda>c. tn_length c + 1) (take k cs)) \<le> index"
      "index \<le> cum + tn_length c + 1 + sum_list (map (\<lambda>c. tn_length c + 1) (take k cs)) + tn_length (cs ! k)"
      "cum + tn_length c + 1 + sum_list (map (\<lambda>c. tn_length c + 1) (take k cs)) + tn_length (cs ! k) = index \<longrightarrow> k + 1 < length cs"
      using Cons.IH [of "cum + tn_length c + 1" "i + 1"] Cons.prems True by auto
    then show ?thesis using True by (intro exI [of _ "Suc k"]) (simp add: ac_simps)
  qed
qed simp

lemma seek_found:
  assumes "node_ok W (Suc h) t" and "index < length (tn_list t)"
  obtains ci at_end where "ci < length (tn_children t)"
    "seek_child 0 0 (tn_children t) index = Some (ci, cumulative_index t ci, at_end)"
    "at_end \<longleftrightarrow> index = cumulative_index t ci + length (tn_list (tn_children t ! ci))"
    "at_end \<longrightarrow> ci < length (tn_elements t)" "cumulative_index t ci \<le> index"
    "\<not> at_end \<longrightarrow> index < cumulative_index t ci + length (tn_list (tn_children t ! ci))"
proof -
  have len: "length (tn_children t) = length (tn_elements t) + 1" "tn_children t \<noteq> []" using assms(1) by auto
  obtain k where k: "k < length (tn_children t)" "seek_child 0 0 (tn_children t) index
      = Some (k, cumulative_index t k, cumulative_index t k + tn_length (tn_children t ! k) = index)"
    "cumulative_index t k \<le> index" "index \<le> cumulative_index t k + tn_length (tn_children t ! k)"
    "cumulative_index t k + tn_length (tn_children t ! k) = index \<longrightarrow> k + 1 < length (tn_children t)"
    using seek_child_found [OF len(2), of 0 index 0] inner_length [OF assms(1)] assms(2)
    unfolding cumulative_index_def by auto
  have "node_ok W h (tn_children t ! k)" using assms(1) k(1) by simp
  then have l: "tn_length (tn_children t ! k) = length (tn_list (tn_children t ! k))" by (rule node_ok_len)
  show ?thesis by (rule that [OF k(1,2)]) (use k(3-5) l len in auto)
qed

text \<open>Two neighbouring children and the element between them.\<close>

lemma node_pair:
  assumes t: "node_ok W (Suc h) t" and i: "i + 1 < length (tn_children t)"
  obtains cs1 a b cs2 es1 p es2 n w where "t = TreeNode (es1 @ p # es2) (cs1 @ a # b # cs2) n w"
    "length cs1 = i" "length es1 = i" "length es2 = length cs2"
proof -
  obtain es cs n w where te: "t = TreeNode es cs n w" by (cases t)
  have len: "length cs = length es + 1" using t by (simp add: te)
  have "es = take i es @ es ! i # drop (Suc i) es" using i len by (intro id_take_nth_drop) (simp add: te)
  moreover have "cs = take i cs @ cs ! i # drop (Suc i) cs" using i by (intro id_take_nth_drop) (simp add: te)
  moreover have "drop (Suc i) cs = cs ! Suc i # drop (Suc (Suc i)) cs" using i by (intro Cons_nth_drop_Suc [symmetric]) (simp add: te)
  ultimately have "t = TreeNode (take i es @ es ! i # drop (Suc i) es) (take i cs @ cs ! i # cs ! Suc i # drop (Suc (Suc i)) cs) n w"
    unfolding te by simp
  then show ?thesis by (rule that) (use i len in \<open>auto simp: te\<close>)
qed

lemma pair_list:
  assumes "length cs1 = length es1" "length es2 = length cs2"
  shows "tn_list (TreeNode (es1 @ p # es2) (cs1 @ a # b # cs2) n w)
    = lead (map tn_list cs1) es1 @ (tn_list a @ p # tn_list b) @ trail es2 (map tn_list cs2)"
  using tn_list_split [of cs1 es1 "p # es2" "b # cs2" a n w] assms by simp

lemma cumulative_step: "i < length (tn_children t) \<Longrightarrow> cumulative_index t (i + 1) = cumulative_index t i + tn_length (tn_children t ! i) + 1"
  by (simp add: cumulative_index_def take_Suc_conv_app_nth)

lemma cumulative_prefix: "length cs1 = i \<Longrightarrow> cumulative_index (TreeNode es (cs1 @ cs2) n w) i = cumulative_index (TreeNode es' (cs1 @ cs2') n' w') i"
  by (simp add: cumulative_index_def)

lemma elements_le: "length (tn_elements t) \<le> length (tn_list t)"
proof -
  have "length xs \<le> length (inord ls xs)" for ls and xs
    by (induction ls xs rule: inord.induct) simp_all
  then show ?thesis by (simp add: tn_list_eq [of t])
qed

subsection \<open>Moving elements and children\<close>

context span_weight
begin

lemma meta_parts:
  assumes "\<And>c. c \<in> set (tn_children t) \<Longrightarrow> meta_ok W c"
  shows "meta_ok W t \<longleftrightarrow> tn_length t = length (tn_elements t) + sum_list (map tn_length (tn_children t))
    \<and> tn_weight t = wt_and W (wsum W (tn_elements t)) (ws_sum (map tn_weight (tn_children t)))"
proof -
  have "length (inord ls xs) = length xs + sum_list (map length ls)" for ls :: "'e list list" and xs
    by (induction ls xs rule: inord.induct) (simp_all add: length_concat)
  from this [of "map tn_list (tn_children t)" "tn_elements t"]
  have "length (tn_list t) = length (tn_elements t) + sum_list (map (\<lambda>c. length (tn_list c)) (tn_children t))"
    by (simp add: tn_list_eq [of t] comp_def)
  moreover have "map (\<lambda>c. length (tn_list c)) (tn_children t) = map tn_length (tn_children t)"
    using assms by (intro map_cong) (auto simp: meta_ok_def)
  moreover have "map (\<lambda>c. wsum W (tn_list c)) (tn_children t) = map tn_weight (tn_children t)"
    using assms by (intro map_cong) (auto simp: meta_ok_def)
  moreover have "wsum W (tn_list t) = wt_and W (wsum W (tn_elements t)) (ws_sum (map (\<lambda>c. wsum W (tn_list c)) (tn_children t)))"
    by (simp add: tn_list_eq [of t] wsum_inord comp_def)
  ultimately show ?thesis unfolding meta_ok_def by (simp only:)
qed

lemma meta_subtracted:
  assumes meta: "\<And>c. c \<in> set cs \<Longrightarrow> meta_ok W c"
    and "n = length es + sum_list (map tn_length cs)" and w: "w = wt_and W b (wt_and W (wsum W es) (ws_sum (map tn_weight cs)))"
  shows "meta_ok W (subtract_weight W b (TreeNode es cs n w))"
proof -
  let ?t = "TreeNode es cs n w"
  have "meta_ok W (TreeNode es cs n (wt_and W (wsum W es) (ws_sum (map tn_weight cs))))" using meta assms(2) by (subst meta_parts) auto
  then have "wsum W (tn_list ?t) = wt_and W (wsum W es) (ws_sum (map tn_weight cs))" "n = length (tn_list ?t)" by (simp_all add: meta_ok_def)
  then have "tn_weight (subtract_weight W b ?t) = wsum W (tn_list ?t)" "n = length (tn_list ?t)"
    using subtract_ok [of ?t b] meta w by simp_all
  moreover have "tn_list (subtract_weight W b ?t) = tn_list ?t"
    by (simp add: tn_list_eq [of "subtract_weight W b ?t"])
  ultimately show ?thesis by (simp add: meta_ok_def)
qed

lemma meta_drop_element:
  assumes "meta_ok W t" "\<And>c. c \<in> set (tn_children t) \<Longrightarrow> meta_ok W c"
    and "length (tn_elements t) = length es + 1" "wsum W (tn_elements t) = wt_and W (wt_alloc W x) (wsum W es)"
  shows "meta_ok W (drop_element W es x t)"
  unfolding drop_element_def by (rule meta_subtracted) (use assms meta_parts [OF assms(2)] in \<open>simp_all add: and_ac\<close>)

lemma meta_drop_child:
  assumes "meta_ok W t" "\<And>c. c \<in> set (tn_children t) \<Longrightarrow> meta_ok W c" "set cs \<subseteq> set (tn_children t)"
    and "sum_list (map tn_length (tn_children t)) = tn_length c + sum_list (map tn_length cs)"
      "ws_sum (map tn_weight (tn_children t)) = wt_and W (tn_weight c) (ws_sum (map tn_weight cs))"
  shows "meta_ok W (drop_child W cs c t)"
  unfolding drop_child_def by (rule meta_subtracted) (use assms meta_parts [OF assms(2)] in \<open>auto simp: and_ac\<close>)

lemma meta_add_element:
  assumes "meta_ok W t" "\<And>c. c \<in> set (tn_children t) \<Longrightarrow> meta_ok W c"
    and "length es = length (tn_elements t) + 1" "wsum W es = wt_and W (wt_alloc W x) (wsum W (tn_elements t))"
  shows "meta_ok W (add_element W es x t)"
  using assms meta_parts [OF assms(2)] by (subst meta_parts) (simp_all add: union_and and_ac)

lemma meta_add_child:
  assumes "meta_ok W t" "\<And>c. c \<in> set (tn_children t) \<Longrightarrow> meta_ok W c" "\<And>c. c \<in> set cs \<Longrightarrow> meta_ok W c"
    and "sum_list (map tn_length cs) = tn_length c + sum_list (map tn_length (tn_children t))"
      "ws_sum (map tn_weight cs) = wt_and W (tn_weight c) (ws_sum (map tn_weight (tn_children t)))"
  shows "meta_ok W (add_child W cs c t)"
  using assms meta_parts [OF assms(2)] by (subst meta_parts) (simp_all add: union_and and_ac)

lemma ws_sum_append: "ws_sum (xs @ ys) = wt_and W (ws_sum xs) (ws_sum ys)"
  by (induction xs) (simp_all add: ws_sum_simps and_default and_ac)

text \<open>The child that may move with an element.\<close>

definition moved_list :: "('e, 'w) tree_node option \<Rightarrow> 'e list" where
  "moved_list oc = (case oc of Some c \<Rightarrow> tn_list c | None \<Rightarrow> [])"

definition moved_ok :: "nat \<Rightarrow> ('e, 'w) tree_node option \<Rightarrow> bool" where
  "moved_ok h oc \<longleftrightarrow> (case oc of None \<Rightarrow> h = 0 | Some c \<Rightarrow> \<exists>k. h = Suc k \<and> node_ok W k c \<and> b_factor - 1 \<le> length (tn_elements c))"

lemma kids_meta: "node_ok W h t \<Longrightarrow> c \<in> set (tn_children t) \<Longrightarrow> meta_ok W c"
  by (cases h) (auto simp: node_ok_meta)

lemma lend_last_ok:
  assumes s: "node_ok W h s" and big: "b_factor \<le> length (tn_elements s)"
  obtains x oc s' where "lend_last W s = Some (x, oc, s')" "node_ok W h s'" "moved_ok h oc"
    "length (tn_elements s') = length (tn_elements s) - 1" "tn_list s = tn_list s' @ x # moved_list oc"
proof -
  obtain es cs n w where se: "s = TreeNode es cs n w" by (cases s)
  have big': "16 \<le> length es" using big by (simp add: se b_factor_def)
  then obtain es' x where es: "es = es' @ [x]" by (cases es rule: rev_cases) auto
  with big' have ne: "es' \<noteq> []" by auto
  let ?u = "drop_element W es' x s"
  have u: "meta_ok W ?u"
    by (rule meta_drop_element [OF node_ok_meta [OF s] kids_meta [OF s]]) (simp_all add: se es wsum_append wsum_simps and_default_right and_default and_ac)
  show ?thesis
  proof (cases h)
    case 0
    then have "cs = []" using s by (simp add: se)
    then have "lend_last W s = Some (x, None, ?u)" by (simp add: lend_last_def se es ne is_leaf_def Let_def)
    moreover have "node_ok W h ?u" using u s 0 by (simp add: se es)
    moreover have "tn_list ?u = es'" using tn_list_eq [of ?u] \<open>cs = []\<close> by (simp add: se)
    ultimately show ?thesis by (intro that [of x None ?u]) (use 0 \<open>cs = []\<close> in \<open>simp_all add: moved_ok_def moved_list_def se es\<close>)
  next
    case (Suc k)
    have len: "length cs = length es + 1" using s by (simp add: se Suc)
    then obtain cs' c where cs: "cs = cs' @ [c]" by (cases cs rule: rev_cases) auto
    have l: "length cs' = length es' + 1" using len by (simp add: cs es)
    let ?v = "drop_child W cs' c ?u"
    have c: "node_ok W k c" "b_factor - 1 \<le> length (tn_elements c)" using s by (simp_all add: se Suc cs)
    have "meta_ok W ?v"
      by (rule meta_drop_child [OF u]) (use kids_meta [OF s] in \<open>auto simp: se cs ws_sum_append ws_sum_simps and_default_right and_default and_ac\<close>)
    then have "node_ok W h ?v" using s l by (simp add: se es cs Suc)
    moreover have "lend_last W s = Some (x, Some c, ?v)" by (simp add: lend_last_def se es ne cs is_leaf_def Let_def)
    moreover have "tn_list s = tn_list ?v @ x # tn_list c"
      using inord_join [of "map tn_list cs'" es' "[tn_list c]" x "[]"] l tn_list_eq [of ?v] by (simp add: se es cs)
    ultimately show ?thesis by (intro that [of x "Some c" ?v]) (use c Suc in \<open>simp_all add: moved_ok_def moved_list_def se es\<close>)
  qed
qed

lemma lend_first_ok:
  assumes s: "node_ok W h s" and big: "b_factor \<le> length (tn_elements s)"
  obtains x oc s' where "lend_first W s = Some (x, oc, s')" "node_ok W h s'" "moved_ok h oc"
    "length (tn_elements s') = length (tn_elements s) - 1" "tn_list s = moved_list oc @ x # tn_list s'"
proof -
  obtain es cs n w where se: "s = TreeNode es cs n w" by (cases s)
  have big': "16 \<le> length es" using big by (simp add: se b_factor_def)
  then obtain es' x where es: "es = x # es'" by (cases es) auto
  with big' have ne: "es' \<noteq> []" by auto
  let ?u = "drop_element W es' x s"
  have u: "meta_ok W ?u"
    by (rule meta_drop_element [OF node_ok_meta [OF s] kids_meta [OF s]]) (simp_all add: se es wsum_simps)
  show ?thesis
  proof (cases h)
    case 0
    then have "cs = []" using s by (simp add: se)
    then have "lend_first W s = Some (x, None, ?u)" by (simp add: lend_first_def se es ne is_leaf_def Let_def)
    moreover have "node_ok W h ?u" using u s 0 by (simp add: se es)
    moreover have "tn_list ?u = es'" using tn_list_eq [of ?u] \<open>cs = []\<close> by (simp add: se)
    ultimately show ?thesis by (intro that [of x None ?u]) (use 0 \<open>cs = []\<close> in \<open>simp_all add: moved_ok_def moved_list_def se es\<close>)
  next
    case (Suc k)
    have len: "length cs = length es + 1" using s by (simp add: se Suc)
    then obtain cs' c where cs: "cs = c # cs'" by (cases cs) auto
    have l: "length cs' = length es' + 1" using len by (simp add: cs es)
    let ?v = "drop_child W cs' c ?u"
    have c: "node_ok W k c" "b_factor - 1 \<le> length (tn_elements c)" using s by (simp_all add: se Suc cs)
    have "meta_ok W ?v"
      by (rule meta_drop_child [OF u]) (use kids_meta [OF s] in \<open>auto simp: se cs ws_sum_simps\<close>)
    then have "node_ok W h ?v" using s l by (simp add: se es cs Suc)
    moreover have "lend_first W s = Some (x, Some c, ?v)" by (simp add: lend_first_def se es ne cs is_leaf_def Let_def)
    moreover have "tn_list s = tn_list c @ x # tn_list ?v" using tn_list_eq [of ?v] by (simp add: se es cs)
    ultimately show ?thesis by (intro that [of x "Some c" ?v]) (use c Suc in \<open>simp_all add: moved_ok_def moved_list_def se es\<close>)
  qed
qed

lemma take_front_ok:
  assumes t: "node_ok W h t" and small: "length (tn_elements t) < b_factor" and oc: "moved_ok h oc"
  shows "node_ok W h (take_front W x oc t)" and "tn_list (take_front W x oc t) = moved_list oc @ x # tn_list t"
    and "length (tn_elements (take_front W x oc t)) = length (tn_elements t) + 1"
proof -
  let ?u = "add_element W (x # tn_elements t) x t"
  have u: "meta_ok W ?u" by (rule meta_add_element [OF node_ok_meta [OF t] kids_meta [OF t]]) (simp_all add: wsum_simps)
  have b: "length (tn_elements t) + 1 \<le> 2 * b_factor - 1" using small by simp
  show "length (tn_elements (take_front W x oc t)) = length (tn_elements t) + 1"
    by (simp add: take_front_def Let_def split: option.split)
  have "node_ok W h (take_front W x oc t) \<and> tn_list (take_front W x oc t) = moved_list oc @ x # tn_list t"
  proof (cases oc)
    case None
    then have h: "h = 0" "tn_children t = []" using oc t by (simp_all add: moved_ok_def)
    then show ?thesis using u b tn_list_eq [of ?u] tn_list_eq [of t] by (simp add: take_front_def None moved_list_def)
  next
    case (Some c)
    then obtain k where c: "h = Suc k" "node_ok W k c" "b_factor - 1 \<le> length (tn_elements c)" using oc by (auto simp: moved_ok_def)
    let ?v = "add_child W (c # tn_children ?u) c ?u"
    have "meta_ok W ?v"
      by (rule meta_add_child [OF u]) (use kids_meta [OF t] node_ok_meta [OF c(2)] in \<open>auto simp: ws_sum_simps\<close>)
    then have "node_ok W h ?v" using t c b by (simp add: c(1))
    moreover have "tn_list ?v = tn_list c @ x # tn_list t" using tn_list_eq [of ?v] tn_list_eq [of t] by simp
    ultimately show ?thesis by (simp add: take_front_def Some moved_list_def Let_def)
  qed
  then show "node_ok W h (take_front W x oc t)" "tn_list (take_front W x oc t) = moved_list oc @ x # tn_list t" by simp_all
qed

lemma take_back_ok:
  assumes t: "node_ok W h t" and small: "length (tn_elements t) < b_factor" and oc: "moved_ok h oc"
  shows "node_ok W h (take_back W x oc t)" and "tn_list (take_back W x oc t) = tn_list t @ x # moved_list oc"
    and "length (tn_elements (take_back W x oc t)) = length (tn_elements t) + 1"
proof -
  let ?u = "add_element W (tn_elements t @ [x]) x t"
  have u: "meta_ok W ?u"
    by (rule meta_add_element [OF node_ok_meta [OF t] kids_meta [OF t]]) (simp_all add: wsum_append wsum_simps and_default_right and_default and_ac)
  have b: "length (tn_elements t) + 1 \<le> 2 * b_factor - 1" using small by simp
  show "length (tn_elements (take_back W x oc t)) = length (tn_elements t) + 1"
    by (simp add: take_back_def Let_def split: option.split)
  have "node_ok W h (take_back W x oc t) \<and> tn_list (take_back W x oc t) = tn_list t @ x # moved_list oc"
  proof (cases oc)
    case None
    then have h: "h = 0" "tn_children t = []" using oc t by (simp_all add: moved_ok_def)
    then show ?thesis using u b tn_list_eq [of ?u] tn_list_eq [of t] by (simp add: take_back_def None moved_list_def)
  next
    case (Some c)
    then obtain k where c: "h = Suc k" "node_ok W k c" "b_factor - 1 \<le> length (tn_elements c)" using oc by (auto simp: moved_ok_def)
    let ?v = "add_child W (tn_children ?u @ [c]) c ?u"
    have "meta_ok W ?v"
      by (rule meta_add_child [OF u]) (use kids_meta [OF t] node_ok_meta [OF c(2)] in \<open>auto simp: ws_sum_append ws_sum_simps and_default_right and_default and_ac\<close>)
    then have "node_ok W h ?v" using t c b by (auto simp: c(1))
    moreover have "length (map tn_list (tn_children t)) = length (tn_elements t) + 1" using t by (simp add: c(1))
    then have "tn_list ?v = tn_list t @ x # tn_list c"
      using inord_join [of "map tn_list (tn_children t)" "tn_elements t" "[tn_list c]" x "[]"] tn_list_eq [of ?v] tn_list_eq [of t] by simp
    ultimately show ?thesis by (simp add: take_back_def Some moved_list_def Let_def)
  qed
  then show "node_ok W h (take_back W x oc t)" "tn_list (take_back W x oc t) = tn_list t @ x # moved_list oc" by simp_all
qed

subsection \<open>Merging and rebalancing\<close>

lemma merge_nodes_ok:
  assumes a: "node_ok W h a" "length (tn_elements a) = b_factor - 1" and b: "node_ok W h b" "length (tn_elements b) = b_factor - 1"
  obtains c where "merge_nodes W a m b = Some c" "node_ok W h c" "tn_list c = tn_list a @ m # tn_list b"
    "length (tn_elements c) = 2 * b_factor - 1"
proof -
  let ?c = "TreeNode (tn_elements a @ m # tn_elements b) (tn_children a @ tn_children b) (tn_length a + (tn_length b + 1))
    (wt_union W (wt_union W (tn_weight a) (tn_weight b)) (wt_alloc W m))"
  have len: "length (tn_elements ?c) = 2 * b_factor - 1" using a(2) b(2) by (simp add: b_factor_def)
  have list: "tn_list ?c = tn_list a @ m # tn_list b"
  proof (cases h)
    case 0
    then show ?thesis using a(1) b(1) by (simp add: tn_list_eq [of a] tn_list_eq [of b])
  next
    case (Suc k)
    then have "length (map tn_list (tn_children a)) = length (tn_elements a) + 1" using a(1) by simp
    then show ?thesis
      using inord_join [of "map tn_list (tn_children a)" "tn_elements a" "map tn_list (tn_children b)" m "tn_elements b"]
      by (simp add: tn_list_eq [of a] tn_list_eq [of b])
  qed
  have "meta_ok W ?c" using node_ok_meta [OF a(1)] node_ok_meta [OF b(1)] list
    by (simp add: meta_ok_def wsum_append wsum_simps union_and and_ac del: tn_list.simps)
  then have "node_ok W h ?c" using a(1) b(1) len by (cases h) auto
  moreover have "merge_nodes W a m b = Some ?c" using len by (simp add: merge_nodes_def is_full_def)
  ultimately show ?thesis using that list len by blast
qed

text \<open>A node whose neighbouring children were replaced by others with the same content.\<close>

lemma pair_ok:
  assumes t: "node_ok W (Suc h) (TreeNode (es1 @ p # es2) (cs1 @ a # b # cs2) n w)" and len: "length cs1 = length es1" "length es2 = length cs2"
    and ab: "node_ok W h a'" "node_ok W h b'" "b_factor - 1 \<le> length (tn_elements a')" "b_factor - 1 \<le> length (tn_elements b')"
    and list: "tn_list a' @ x # tn_list b' = tn_list a @ p # tn_list b"
  shows "node_ok W (Suc h) (TreeNode (es1 @ x # es2) (cs1 @ a' # b' # cs2) n w)"
    and "tn_list (TreeNode (es1 @ x # es2) (cs1 @ a' # b' # cs2) n w) = tn_list (TreeNode (es1 @ p # es2) (cs1 @ a # b # cs2) n w)"
proof -
  show l: "tn_list (TreeNode (es1 @ x # es2) (cs1 @ a' # b' # cs2) n w) = tn_list (TreeNode (es1 @ p # es2) (cs1 @ a # b # cs2) n w)"
    unfolding pair_list [OF len] list ..
  have "meta_ok W (TreeNode (es1 @ x # es2) (cs1 @ a' # b' # cs2) n w)" using node_ok_meta [OF t] unfolding meta_ok_def l by simp
  then show "node_ok W (Suc h) (TreeNode (es1 @ x # es2) (cs1 @ a' # b' # cs2) n w)" using t ab by simp
qed

lemma merge_ok:
  assumes t: "node_ok W (Suc h) (TreeNode (es1 @ p # es2) (cs1 @ a # b # cs2) n w)" and len: "length cs1 = length es1" "length es2 = length cs2"
    and c: "node_ok W h c" "b_factor - 1 \<le> length (tn_elements c)" and list: "tn_list c = tn_list a @ p # tn_list b"
  shows "node_ok W (Suc h) (TreeNode (es1 @ es2) (cs1 @ c # cs2) n w)"
    and "tn_list (TreeNode (es1 @ es2) (cs1 @ c # cs2) n w) = tn_list (TreeNode (es1 @ p # es2) (cs1 @ a # b # cs2) n w)"
proof -
  show l: "tn_list (TreeNode (es1 @ es2) (cs1 @ c # cs2) n w) = tn_list (TreeNode (es1 @ p # es2) (cs1 @ a # b # cs2) n w)"
    unfolding pair_list [OF len] tn_list_split [OF len] list ..
  have "meta_ok W (TreeNode (es1 @ es2) (cs1 @ c # cs2) n w)" using node_ok_meta [OF t] unfolding meta_ok_def l by simp
  then show "node_ok W (Suc h) (TreeNode (es1 @ es2) (cs1 @ c # cs2) n w)" using t c by simp
qed

text \<open>What the step down needs: the child is not small, and the index lies in it.\<close>

definition goes_to :: "nat \<Rightarrow> nat \<Rightarrow> nat \<Rightarrow> ('e, 'w) tree_node \<Rightarrow> bool" where
  "goes_to h index ci t \<longleftrightarrow> node_ok W (Suc h) t \<and> ci < length (tn_children t) \<and> cumulative_index t ci \<le> index
     \<and> index < cumulative_index t ci + length (tn_list (tn_children t ! ci))"

lemma small_eq:
  assumes "node_ok W (Suc h) t" "i < length (tn_children t)" "length (tn_elements (tn_children t ! i)) < b_factor"
  shows "length (tn_elements (tn_children t ! i)) = b_factor - 1"
proof -
  have "b_factor - 1 \<le> length (tn_elements (tn_children t ! i))" using assms(1,2) by simp
  then show ?thesis using assms(3) by simp
qed

lemma merge_children_ok:
  assumes t: "node_ok W (Suc h) t" and i: "i + 1 < length (tn_children t)" and small: "child_small t i" "child_small t (i + 1)"
  obtains t' where "merge_children W i t = Some t'" "node_ok W (Suc h) t'" "tn_list t' = tn_list t" "i < length (tn_children t')"
    "length (tn_elements t') + 1 = length (tn_elements t)" "length (tn_elements (tn_children t' ! i)) = 2 * b_factor - 1"
    "cumulative_index t' i = cumulative_index t i" "tn_length t' = tn_length t" "tn_weight t' = tn_weight t"
    "length (tn_list (tn_children t' ! i)) = tn_length (tn_children t ! i) + 1 + tn_length (tn_children t ! (i + 1))"
proof -
  obtain cs1 a b cs2 es1 p es2 n w where te: "t = TreeNode (es1 @ p # es2) (cs1 @ a # b # cs2) n w"
    and len: "length cs1 = i" "length es1 = i" "length es2 = length cs2" by (rule node_pair [OF t i])
  have ab: "tn_children t ! i = a" "tn_children t ! (i + 1) = b" using len by (simp_all add: te nth_append)
  have ok: "node_ok W h a" "node_ok W h b" using t by (simp_all add: te)
  have "length (tn_elements a) = b_factor - 1" "length (tn_elements b) = b_factor - 1"
    using small_eq [OF t, of i] small_eq [OF t, of "i + 1"] small i unfolding child_small_def ab by simp_all
  then obtain c where c: "merge_nodes W a p b = Some c" "node_ok W h c" "tn_list c = tn_list a @ p # tn_list b"
    "length (tn_elements c) = 2 * b_factor - 1" using merge_nodes_ok ok by metis
  let ?t = "TreeNode (es1 @ es2) (cs1 @ c # cs2) n w"
  have "length (cs1 @ [a]) = i + 1" using len by simp
  note mid = mid_simps(1,6) [OF this, of b cs2, unfolded append_assoc append_Cons append_Nil]
  have "merge_children W i t = Some ?t"
    unfolding te merge_children_def tree_node.case using mid_simps(1,6) [OF len(2), of p es2] mid mid_simps(1,3) [OF len(1), of a cs2] c(1) by simp
  moreover have "node_ok W (Suc h) ?t" "tn_list ?t = tn_list t"
    using merge_ok [OF t [unfolded te] _ len(3) c(2) _ c(3)] len(1,2) c(4) unfolding te by simp_all
  moreover have "cumulative_index ?t i = cumulative_index t i" unfolding te by (rule cumulative_prefix [OF len(1)])
  ultimately show ?thesis
    by (intro that [of ?t]) (use len c ab node_ok_len [OF ok(1)] node_ok_len [OF ok(2)] in \<open>simp_all add: te nth_append\<close>)
qed

lemma borrow_left_ok:
  assumes t: "node_ok W (Suc h) t" and i: "i + 1 < length (tn_children t)" and c: "\<not> child_small t i" "child_small t (i + 1)"
  obtains t' where "borrow_left W (i + 1) t = Some t'" "node_ok W (Suc h) t'" "tn_list t' = tn_list t" "length (tn_children t') = length (tn_children t)"
    "length (tn_elements t') = length (tn_elements t)" "length (tn_elements (tn_children t' ! (i + 1))) = b_factor"
    "cumulative_index t' (i + 1) + length (tn_list (tn_children t' ! (i + 1))) = cumulative_index t (i + 1) + length (tn_list (tn_children t ! (i + 1)))"
    "cumulative_index t' (i + 1) \<le> cumulative_index t (i + 1)"
proof -
  obtain cs1 a b cs2 es1 p es2 n w where te: "t = TreeNode (es1 @ p # es2) (cs1 @ a # b # cs2) n w"
    and len: "length cs1 = i" "length es1 = i" "length es2 = length cs2" by (rule node_pair [OF t i])
  have ab: "tn_children t ! i = a" "tn_children t ! (i + 1) = b" using len by (simp_all add: te nth_append)
  have ok: "node_ok W h a" "node_ok W h b" "b_factor \<le> length (tn_elements a)" "length (tn_elements b) = b_factor - 1"
    using t c small_eq [OF t i] unfolding child_small_def ab by (simp_all add: te)
  obtain x oc a' where l: "lend_last W a = Some (x, oc, a')" "node_ok W h a'" "moved_ok h oc"
    "length (tn_elements a') = length (tn_elements a) - 1" "tn_list a = tn_list a' @ x # moved_list oc"
    by (rule lend_last_ok [OF ok(1,3)])
  have "length (tn_elements b) < b_factor" using ok(4) by (simp add: b_factor_def)
  note tk = take_front_ok [OF ok(2) this l(3), of p]
  let ?b = "take_front W p oc b"
  let ?t = "TreeNode (es1 @ x # es2) (cs1 @ a' # ?b # cs2) n w"
  have "length (cs1 @ [a']) = i + 1" using len by simp
  note mid = mid_simps(3) [OF this, of b cs2, unfolded append_assoc append_Cons append_Nil]
  have "borrow_left W (i + 1) t = Some ?t"
    using l(1) len mid mid_simps(1,3) [OF len(2), of p es2] mid_simps(2,3) [OF len(1), of a "b # cs2"] ab
    unfolding te by (simp add: borrow_left_def)
  moreover have eqs: "node_ok W (Suc h) ?t" "tn_list ?t = tn_list t"
    using pair_ok [OF t [unfolded te] _ len(3) l(2) tk(1)] l(4,5) tk(2,3) ok(3,4) len(1,2) unfolding te by auto
  moreover have cum: "cumulative_index ?t (i + 1) = cumulative_index t i + length (tn_list a') + 1"
    "cumulative_index t (i + 1) = cumulative_index t i + length (tn_list a) + 1"
    using cumulative_step [of i ?t] cumulative_step [of i t] cumulative_prefix [OF len(1), of "es1 @ x # es2" "a' # ?b # cs2" n w "es1 @ p # es2" "a # b # cs2" n w]
      i len(1) node_ok_len [OF l(2)] node_ok_len [OF ok(1)] by (simp_all add: te nth_append)
  moreover have "tn_children ?t ! (i + 1) = ?b" using len by (simp add: nth_append)
  ultimately show ?thesis
    by (intro that [of ?t]) (use l(5) tk ab ok(4) in \<open>simp_all add: te b_factor_def\<close>)
qed

lemma borrow_right_ok:
  assumes t: "node_ok W (Suc h) t" and i: "i + 1 < length (tn_children t)" and c: "child_small t i" "\<not> child_small t (i + 1)"
  obtains t' where "borrow_right W i t = Some t'" "node_ok W (Suc h) t'" "tn_list t' = tn_list t" "length (tn_children t') = length (tn_children t)"
    "length (tn_elements t') = length (tn_elements t)" "length (tn_elements (tn_children t' ! i)) = b_factor"
    "cumulative_index t' i = cumulative_index t i" "length (tn_list (tn_children t ! i)) \<le> length (tn_list (tn_children t' ! i))"
proof -
  obtain cs1 a b cs2 es1 p es2 n w where te: "t = TreeNode (es1 @ p # es2) (cs1 @ a # b # cs2) n w"
    and len: "length cs1 = i" "length es1 = i" "length es2 = length cs2" by (rule node_pair [OF t i])
  have ab: "tn_children t ! i = a" "tn_children t ! (i + 1) = b" using len by (simp_all add: te nth_append)
  have ii: "i < length (tn_children t)" using i by simp
  have ok: "node_ok W h a" "node_ok W h b" "b_factor \<le> length (tn_elements b)" "length (tn_elements a) = b_factor - 1"
    using t c small_eq [OF t ii] unfolding child_small_def ab by (simp_all add: te)
  obtain x oc b' where l: "lend_first W b = Some (x, oc, b')" "node_ok W h b'" "moved_ok h oc"
    "length (tn_elements b') = length (tn_elements b) - 1" "tn_list b = moved_list oc @ x # tn_list b'"
    by (rule lend_first_ok [OF ok(2,3)])
  have "length (tn_elements a) < b_factor" using ok(4) by (simp add: b_factor_def)
  note tk = take_back_ok [OF ok(1) this l(3), of p]
  let ?a = "take_back W p oc a"
  let ?t = "TreeNode (es1 @ x # es2) (cs1 @ ?a # b' # cs2) n w"
  have "length (cs1 @ [a]) = i + 1" using len by simp
  note mid = mid_simps(3) [OF this, of b cs2, unfolded append_assoc append_Cons append_Nil]
  have "borrow_right W i t = Some ?t"
    using l(1) len mid mid_simps(1,3) [OF len(2), of p es2] mid_simps(3) [OF len(1), of a "b' # cs2"] ab
    unfolding te by (simp add: borrow_right_def)
  moreover have eqs: "node_ok W (Suc h) ?t" "tn_list ?t = tn_list t"
    using pair_ok [OF t [unfolded te] _ len(3) tk(1) l(2)] l(4,5) tk(2,3) ok(3,4) len(1,2) unfolding te by auto
  moreover have "cumulative_index ?t i = cumulative_index t i" unfolding te by (rule cumulative_prefix [OF len(1)])
  moreover have "tn_children ?t ! i = ?a" using len by (simp add: nth_append)
  ultimately show ?thesis
    by (intro that [of ?t]) (use tk ab ok(4) in \<open>simp_all add: te b_factor_def\<close>)
qed

lemma rebalance_ok:
  assumes g: "goes_to h index ci t" and ne: "tn_elements t \<noteq> []"
  obtains cj t' where "rebalance W ci t = Some (cj, t')" "goes_to h index cj t'" "b_factor \<le> length (tn_elements (tn_children t' ! cj))"
    "tn_list t' = tn_list t" "length (tn_elements t) \<le> length (tn_elements t') + 1"
proof -
  have t: "node_ok W (Suc h) t" and ci: "ci < length (tn_children t)" and lo: "cumulative_index t ci \<le> index"
    and hi: "index < cumulative_index t ci + length (tn_list (tn_children t ! ci))" using g by (simp_all add: goes_to_def)
  have many: "1 < length (tn_children t)" using t ne by (cases "tn_elements t") auto
  have bb: "b_factor \<le> 2 * b_factor - 1" by (simp add: b_factor_def)
  have lens: "tn_length (tn_children t ! i) = length (tn_list (tn_children t ! i))" if "i < length (tn_children t)" for i
    by (rule node_ok_len [of W h]) (use t that in simp)
  let ?right = "ci + 1 < length (tn_children t)"
  consider (big) "\<not> child_small t ci"
    | (left) i where "child_small t ci" "ci = i + 1" "child_small t i" "?right \<longrightarrow> child_small t (ci + 1)"
    | (first) "child_small t ci" "ci = 0" "child_small t 1"
    | (lend_l) i where "child_small t ci" "ci = i + 1" "\<not> child_small t i"
    | (lend_r) "child_small t ci" "ci = 0 \<or> child_small t (ci - 1)" "?right" "\<not> child_small t (ci + 1)"
    using many by (cases ci) auto
  then show ?thesis
  proof cases
    case big
    then show ?thesis by (intro that [of ci t]) (use g in \<open>simp_all add: rebalance_def child_small_def\<close>)
  next
    case left
    have i: "i + 1 < length (tn_children t)" using ci left(2) by simp
    obtain u where u: "merge_children W i t = Some u" "node_ok W (Suc h) u" "tn_list u = tn_list t" "i < length (tn_children u)"
      "length (tn_elements u) + 1 = length (tn_elements t)" "length (tn_elements (tn_children u ! i)) = 2 * b_factor - 1"
      "cumulative_index u i = cumulative_index t i"
      "length (tn_list (tn_children u ! i)) = tn_length (tn_children t ! i) + 1 + tn_length (tn_children t ! (i + 1))"
      using merge_children_ok [OF t i left(3) left(1) [unfolded left(2)]] by metis
    have "cumulative_index t ci = cumulative_index t i + tn_length (tn_children t ! i) + 1"
      using cumulative_step [of i t] i left(2) by simp
    then have "goes_to h index i u" using u(2,4,7,8) lo hi lens [of "i + 1"] i left(2) by (simp add: goes_to_def)
    moreover have "rebalance W ci t = Some (i, u)" using left u(1) by (simp add: rebalance_def)
    ultimately show ?thesis using that u(3,5,6) bb by simp
  next
    case first
    have i: "0 + 1 < length (tn_children t)" using many by simp
    have s: "child_small t 0" "child_small t (0 + 1)" using first by simp_all
    obtain u where u: "merge_children W 0 t = Some u" "node_ok W (Suc h) u" "tn_list u = tn_list t" "0 < length (tn_children u)"
      "length (tn_elements u) + 1 = length (tn_elements t)" "length (tn_elements (tn_children u ! 0)) = 2 * b_factor - 1"
      "cumulative_index u 0 = cumulative_index t 0"
      "length (tn_list (tn_children u ! 0)) = tn_length (tn_children t ! 0) + 1 + tn_length (tn_children t ! (0 + 1))"
      using merge_children_ok [OF t i s] by metis
    have "goes_to h index 0 u" using u(2,4,7,8) lo hi lens [of 0] ci first(2) by (simp add: goes_to_def)
    moreover have "rebalance W ci t = Some (0, u)" using first u(1) by (simp add: rebalance_def)
    ultimately show ?thesis using that u(3,5,6) bb by simp
  next
    case lend_l
    have i: "i + 1 < length (tn_children t)" using ci lend_l(2) by simp
    obtain u where u: "borrow_left W (i + 1) t = Some u" "node_ok W (Suc h) u" "tn_list u = tn_list t" "length (tn_children u) = length (tn_children t)"
      "length (tn_elements u) = length (tn_elements t)" "length (tn_elements (tn_children u ! (i + 1))) = b_factor"
      "cumulative_index u (i + 1) + length (tn_list (tn_children u ! (i + 1))) = cumulative_index t (i + 1) + length (tn_list (tn_children t ! (i + 1)))"
      "cumulative_index u (i + 1) \<le> cumulative_index t (i + 1)"
      by (rule borrow_left_ok [OF t i lend_l(3) lend_l(1) [unfolded lend_l(2)]])
    have "goes_to h index ci u" using u(2,4,7,8) lo hi ci unfolding goes_to_def lend_l(2) by linarith
    moreover have "rebalance W ci t = Some (ci, u)" using lend_l u(1) by (simp add: rebalance_def)
    ultimately show ?thesis using that u(3,5,6) lend_l(2) by simp
  next
    case lend_r
    obtain u where u: "borrow_right W ci t = Some u" "node_ok W (Suc h) u" "tn_list u = tn_list t" "length (tn_children u) = length (tn_children t)"
      "length (tn_elements u) = length (tn_elements t)" "length (tn_elements (tn_children u ! ci)) = b_factor"
      "cumulative_index u ci = cumulative_index t ci" "length (tn_list (tn_children t ! ci)) \<le> length (tn_list (tn_children u ! ci))"
      by (rule borrow_right_ok [OF t lend_r(3,1,4)])
    have "goes_to h index ci u" using u(2,4,7,8) lo hi ci by (simp add: goes_to_def)
    moreover have "rebalance W ci t = Some (ci, u)" using lend_r u(1) by (auto simp: rebalance_def)
    ultimately show ?thesis using that u(3,5,6) by simp
  qed
qed

subsection \<open>Removal\<close>

lemma vec_remove_some: "i < length xs \<Longrightarrow> vec_remove i xs = Some (take i xs @ drop (Suc i) xs)"
  by (simp add: vec_remove_def)

lemma vec_remove_length: "vec_remove i xs = Some ys \<Longrightarrow> length xs = length ys + 1 \<and> i < length xs"
  by (auto simp: vec_remove_def split: if_splits)

lemma vec_remove_mid: "vec_remove i ys = Some zs \<Longrightarrow> vec_remove (length xs + i) (xs @ ys @ ws) = Some (xs @ zs @ ws)"
  by (auto simp: vec_remove_def split: if_splits)

lemma wsum_vec_remove:
  assumes "vec_remove i xs = Some ys"
  shows "wsum W xs = wt_and W (wt_alloc W (xs ! i)) (wsum W ys)"
proof -
  have i: "i < length xs" "ys = take i xs @ drop (Suc i) xs" using assms by (auto simp: vec_remove_def split: if_splits)
  have "wsum W xs = wsum W (take i xs @ xs ! i # drop (Suc i) xs)" using id_take_nth_drop [OF i(1)] by (rule arg_cong)
  then show ?thesis by (simp add: i(2) wsum_append wsum_simps and_ac)
qed

text \<open>The final step of the removal from an inner node puts its length and weight right.\<close>

lemma shrunk_ok:
  assumes t: "node_ok W (Suc h) t" and u: "tn_length u = tn_length t" "tn_weight u = tn_weight t"
    and shape: "length (tn_elements u) \<le> 2 * b_factor - 1" "length (tn_children u) = length (tn_elements u) + 1"
      "\<And>c. c \<in> set (tn_children u) \<Longrightarrow> node_ok W h c \<and> b_factor - 1 \<le> length (tn_elements c)"
    and rem: "vec_remove index (tn_list t) = Some (tn_list u)" and x: "x = tn_list t ! index"
  obtains t' where "shrunk W (x, u) = (x, t')" "node_ok W (Suc h) t'" "tn_list t' = tn_list u" "tn_elements t' = tn_elements u"
    "tn_length t = tn_length t' + 1"
proof -
  let ?t = "drop_element W (tn_elements u) x u"
  have list: "tn_list ?t = tn_list u" using tn_list_eq [of ?t] tn_list_eq [of u] by simp
  have m: "tn_length t = length (tn_list t)" "tn_weight t = wsum W (tn_list t)" using node_ok_meta [OF t] by (simp_all add: meta_ok_def)
  let ?v = "TreeNode (tn_elements u) (tn_children u) (tn_length u - 1) (tn_weight u)"
  have v: "tn_list ?v = tn_list u" using tn_list_eq [of u] by simp
  have "tn_weight ?v = wt_and W (wt_alloc W x) (wsum W (tn_list ?v))"
    unfolding v using wsum_vec_remove [OF rem] u(2) m(2) x by simp
  then have "tn_weight ?t = wsum W (tn_list ?v)"
    unfolding drop_element_def by (rule subtract_ok) (use shape(3) node_ok_meta in auto)
  moreover have "tn_length ?t = length (tn_list u)" using u(1) m(1) vec_remove_length [OF rem] by simp
  ultimately have "meta_ok W ?t" unfolding meta_ok_def list v by simp
  then have "node_ok W (Suc h) ?t" using shape by simp
  moreover have "tn_length t = tn_length ?t + 1" using u(1) m(1) vec_remove_length [OF rem] by simp
  ultimately show ?thesis by (intro that [of ?t]) (simp_all add: shrunk_def list)
qed

text \<open>What the removal from a node promises.\<close>

definition removes :: "nat \<Rightarrow> nat \<Rightarrow> ('e, 'w) tree_node \<Rightarrow> ('e \<times> ('e, 'w) tree_node) option \<Rightarrow> bool" where
  "removes h index t r \<longleftrightarrow> (\<exists>t'. r = Some (tn_list t ! index, t') \<and> node_ok W h t' \<and> vec_remove index (tn_list t) = Some (tn_list t')
     \<and> length (tn_elements t) \<le> length (tn_elements t') + 1 \<and> tn_length t = tn_length t' + 1)"

lemma down_ok:
  assumes IH: "\<And>index c. node_ok W h c \<Longrightarrow> tn_elements c \<noteq> [] \<Longrightarrow> index < length (tn_list c) \<Longrightarrow> removes h index c (remove_node W index c)"
    and g: "goes_to h index ci t" and big: "b_factor \<le> length (tn_elements (tn_children t ! ci))"
  obtains t' where "map_option (shrunk W) (Option.bind (vec_at (tn_children t) ci) (\<lambda>c.
      map_option (\<lambda>(x, c). (x, set_child ci c t)) (remove_node W (index - cumulative_index t ci) c))) = Some (tn_list t ! index, t')"
    "node_ok W (Suc h) t'" "vec_remove index (tn_list t) = Some (tn_list t')" "length (tn_elements t') = length (tn_elements t)"
    "tn_length t = tn_length t' + 1"
proof -
  have t: "node_ok W (Suc h) t" and ci: "ci < length (tn_children t)" and lo: "cumulative_index t ci \<le> index"
    and hi: "index < cumulative_index t ci + length (tn_list (tn_children t ! ci))" using g by (simp_all add: goes_to_def)
  let ?c = "tn_children t ! ci" and ?i = "index - cumulative_index t ci"
  have c: "node_ok W h ?c" "tn_elements ?c \<noteq> []" "?i < length (tn_list ?c)" using t ci big lo hi by (auto simp: b_factor_def)
  obtain c' where rc: "remove_node W ?i ?c = Some (tn_list ?c ! ?i, c')" "node_ok W h c'" "vec_remove ?i (tn_list ?c) = Some (tn_list c')"
    "length (tn_elements ?c) \<le> length (tn_elements c') + 1" using IH [OF c] by (auto simp: removes_def)
  let ?u = "set_child ci c' t"
  obtain l r where ap: "\<forall>c. tn_list (set_child ci c t) = l @ tn_list c @ r" "tn_list t = l @ tn_list ?c @ r"
    "cumulative_index t ci = length l" by (rule node_apart [OF t ci])
  have rem: "vec_remove index (tn_list t) = Some (tn_list ?u)"
    unfolding ap(1) [rule_format] ap(2) using vec_remove_mid [OF rc(3), of l r] lo by (simp add: ap(3))
  have x: "tn_list ?c ! ?i = tn_list t ! index" unfolding ap(2) using lo c(3) by (simp add: ap(3) nth_append)
  have "node_ok W h d \<and> b_factor - 1 \<le> length (tn_elements d)" if "d \<in> set (tn_children ?u)" for d
    using set_upd [of d "tn_children t" ci c'] that t rc(2,4) big by auto
  then obtain t' where t': "shrunk W (tn_list t ! index, ?u) = (tn_list t ! index, t')" "node_ok W (Suc h) t'" "tn_list t' = tn_list ?u"
    "tn_elements t' = tn_elements ?u" "tn_length t = tn_length t' + 1"
    using shrunk_ok [OF t, of ?u index "tn_list t ! index"] rem t by auto
  show ?thesis by (rule that [of t']) (use t' rc(1) x rem ci in \<open>simp_all add: vec_at_def\<close>)
qed

lemma remove_internal_ok:
  assumes IH: "\<And>index c. node_ok W h c \<Longrightarrow> tn_elements c \<noteq> [] \<Longrightarrow> index < length (tn_list c) \<Longrightarrow> removes h index c (remove_node W index c)"
    and g: "goes_to h index ci t" and ne: "tn_elements t \<noteq> []"
  shows "removes (Suc h) index t (remove_from_internal_child W index ci t)"
proof -
  obtain cj u where u: "rebalance W ci t = Some (cj, u)" "goes_to h index cj u" "b_factor \<le> length (tn_elements (tn_children u ! cj))"
    "tn_list u = tn_list t" "length (tn_elements t) \<le> length (tn_elements u) + 1" by (rule rebalance_ok [OF g ne])
  obtain t' where t': "map_option (shrunk W) (Option.bind (vec_at (tn_children u) cj) (\<lambda>c.
      map_option (\<lambda>(x, c). (x, set_child cj c u)) (remove_node W (index - cumulative_index u cj) c))) = Some (tn_list u ! index, t')"
    "node_ok W (Suc h) t'" "vec_remove index (tn_list u) = Some (tn_list t')" "length (tn_elements t') = length (tn_elements u)"
    "tn_length u = tn_length t' + 1" by (rule down_ok [OF IH u(2,3)])
  have "tn_length t = tn_length u" using g u(2,4) node_ok_len by (metis goes_to_def)
  moreover have "remove_from_internal_child W index ci t = Some (tn_list u ! index, t')"
    using t'(1) u(1) g by (simp add: remove_from_internal_child.simps goes_to_def)
  ultimately show ?thesis using t'(2-5) u(4,5) by (auto simp: removes_def)
qed

lemma remove_element_ok:
  assumes IH: "\<And>index c. node_ok W h c \<Longrightarrow> tn_elements c \<noteq> [] \<Longrightarrow> index < length (tn_list c) \<Longrightarrow> removes h index c (remove_node W index c)"
    and t: "node_ok W (Suc h) t" and ei: "ei < length (tn_elements t)"
    and index: "index = cumulative_index t ei + length (tn_list (tn_children t ! ei))"
  shows "removes (Suc h) index t (remove_element_from_non_leaf W index ei t)"
proof -
  have i: "ei + 1 < length (tn_children t)" using t ei by simp
  obtain cs1 a b cs2 es1 p es2 n w where te: "t = TreeNode (es1 @ p # es2) (cs1 @ a # b # cs2) n w"
    and len: "length cs1 = ei" "length es1 = ei" "length es2 = length cs2" by (rule node_pair [OF t i])
  have ab: "tn_children t ! ei = a" "tn_children t ! (ei + 1) = b" using len by (simp_all add: te nth_append)
  have ok: "node_ok W h a" "node_ok W h b" "b_factor - 1 \<le> length (tn_elements a)" "b_factor - 1 \<le> length (tn_elements b)"
    using t by (simp_all add: te)
  let ?l = "lead (map tn_list cs1) es1" and ?r = "trail es2 (map tn_list cs2)"
  have list: "tn_list t = ?l @ (tn_list a @ p # tn_list b) @ ?r" unfolding te by (rule pair_list) (use len in simp_all)
  have cum: "cumulative_index t ei = length ?l"
  proof -
    have "tn_length c = length (tn_list c)" if "c \<in> set cs1" for c by (rule node_ok_len [of W h]) (use t that in \<open>simp add: te\<close>)
    then show ?thesis using cumulative_split [of cs1 es1 "es1 @ p # es2" "a # b # cs2" n w] len by (simp add: te)
  qed
  have idx: "index = length ?l + length (tn_list a)" using index cum by (simp add: ab)
  have p: "tn_list t ! index = p" unfolding list idx by (simp add: nth_append)
  have rem: "vec_remove index (tn_list t) = Some (?l @ (tn_list a @ tn_list b) @ ?r)"
    unfolding list idx by (rule vec_remove_mid) (simp add: vec_remove_def)
  have at: "vec_at (tn_children t) ei = Some a" "vec_at (tn_children t) (ei + 1) = Some b"
    using i ab by (simp_all add: vec_at_def)
  have fin: "removes (Suc h) index t (map_option (shrunk W) (swap_element ei x (TreeNode (es1 @ p # es2) (cs1 @ a' # b' # cs2) n w)))"
    if ok': "node_ok W h a'" "node_ok W h b'" "b_factor - 1 \<le> length (tn_elements a')" "b_factor - 1 \<le> length (tn_elements b')"
      and l: "tn_list a' @ x # tn_list b' = tn_list a @ tn_list b" for a' b' x
  proof -
    let ?u = "TreeNode (es1 @ x # es2) (cs1 @ a' # b' # cs2) n w"
    have lu: "tn_list ?u = ?l @ (tn_list a @ tn_list b) @ ?r" using pair_list [of cs1 es1 es2 cs2 x a' b' n w] l len by simp
    have sw: "swap_element ei x (TreeNode (es1 @ p # es2) (cs1 @ a' # b' # cs2) n w) = Some (p, ?u)"
      using mid_simps(1,3) [OF len(2), of p es2] by (simp add: swap_element_def)
    have kids: "node_ok W h c \<and> b_factor - 1 \<le> length (tn_elements c)" if "c \<in> set (tn_children ?u)" for c
      using that t ok' by (auto simp: te)
    obtain t' where "shrunk W (p, ?u) = (p, t')" "node_ok W (Suc h) t'" "tn_list t' = tn_list ?u" "tn_elements t' = tn_elements ?u"
      "tn_length t = tn_length t' + 1"
      by (rule shrunk_ok [OF t, of ?u index p]) (use t rem lu p kids in \<open>auto simp: te\<close>)
    then show ?thesis using sw rem lu p by (auto simp: removes_def te)
  qed
  have "child_small t ei \<longleftrightarrow> length (tn_elements a) < b_factor" "child_small t (ei + 1) \<longleftrightarrow> length (tn_elements b) < b_factor"
    unfolding child_small_def ab by simp_all
  then consider (left) "b_factor \<le> length (tn_elements a)" | (right) "\<not> b_factor \<le> length (tn_elements a)" "b_factor \<le> length (tn_elements b)"
    | (none) "child_small t ei" "child_small t (ei + 1)" "\<not> b_factor \<le> length (tn_elements a)" "\<not> b_factor \<le> length (tn_elements b)"
    by (meson not_le)
  then show ?thesis
  proof cases
    case left
    have ne: "tn_elements a \<noteq> []" "tn_list a \<noteq> []" using left elements_le [of a] by (auto simp: b_factor_def)
    then have il: "length (tn_list a) - 1 < length (tn_list a)" by (cases "tn_list a") auto
    have "index - 1 - cumulative_index t ei = length (tn_list a) - 1" using idx cum by simp
    moreover obtain a' where a': "remove_node W (length (tn_list a) - 1) a = Some (tn_list a ! (length (tn_list a) - 1), a')" "node_ok W h a'"
      "vec_remove (length (tn_list a) - 1) (tn_list a) = Some (tn_list a')" "length (tn_elements a) \<le> length (tn_elements a') + 1"
      using IH [OF ok(1) ne(1) il] by (auto simp: removes_def)
    moreover have "tn_list a' = butlast (tn_list a)" using a'(3) il by (auto simp: vec_remove_def butlast_conv_take split: if_splits)
    then have "tn_list a' @ [tn_list a ! (length (tn_list a) - 1)] = tn_list a" using append_butlast_last_id [OF ne(2)] last_conv_nth [OF ne(2)] by simp
    then have "tn_list a' @ tn_list a ! (length (tn_list a) - 1) # tn_list b = tn_list a @ tn_list b"
      using append_assoc [of "tn_list a'" "[tn_list a ! (length (tn_list a) - 1)]" "tn_list b"] by simp
    moreover have "set_child ei a' t = TreeNode (es1 @ p # es2) (cs1 @ a' # b # cs2) n w"
      using mid_simps(3) [OF len(1), of a "b # cs2"] by (simp add: te set_child_def)
    ultimately show ?thesis using fin [OF a'(2) ok(2) _ ok(4)] left at
      by (subst remove_element_from_non_leaf.simps) simp
  next
    case right
    have ne: "tn_elements b \<noteq> []" "tn_list b \<noteq> []" using right elements_le [of b] by (auto simp: b_factor_def)
    then have il: "0 < length (tn_list b)" by simp
    have "cumulative_index t (ei + 1) = index + 1"
      using cumulative_step [of ei t] i idx cum node_ok_len [OF ok(1)] by (simp add: ab)
    moreover obtain b' where b': "remove_node W 0 b = Some (tn_list b ! 0, b')" "node_ok W h b'"
      "vec_remove 0 (tn_list b) = Some (tn_list b')" "length (tn_elements b) \<le> length (tn_elements b') + 1"
      using IH [OF ok(2) ne(1) il] by (auto simp: removes_def)
    moreover have "tn_list b' = tl (tn_list b)" using b'(3) il by (auto simp: vec_remove_def drop_Suc)
    then have "tn_list a @ tn_list b ! 0 # tn_list b' = tn_list a @ tn_list b" using ne(2) by (cases "tn_list b") auto
    moreover have "set_child (ei + 1) b' t = TreeNode (es1 @ p # es2) (cs1 @ a # b' # cs2) n w"
      using mid_simps(3) [of "cs1 @ [a]" "ei + 1" b cs2] len(1) by (simp add: te set_child_def)
    ultimately show ?thesis using fin [OF ok(1) b'(2) ok(3)] right at
      by (subst remove_element_from_non_leaf.simps) simp
  next
    case none
    obtain u where u: "merge_children W ei t = Some u" "node_ok W (Suc h) u" "tn_list u = tn_list t" "ei < length (tn_children u)"
      "length (tn_elements u) + 1 = length (tn_elements t)" "length (tn_elements (tn_children u ! ei)) = 2 * b_factor - 1"
      "cumulative_index u ei = cumulative_index t ei" "tn_length u = tn_length t"
      "length (tn_list (tn_children u ! ei)) = tn_length (tn_children t ! ei) + 1 + tn_length (tn_children t ! (ei + 1))"
      using merge_children_ok [OF t i none(1,2)] by metis
    have g: "goes_to h index ei u" using u(2,4,7,9) idx cum node_ok_len [OF ok(1)] by (simp add: goes_to_def ab)
    have big: "b_factor \<le> length (tn_elements (tn_children u ! ei))" using u(6) by (simp add: b_factor_def)
    obtain t' where t': "map_option (shrunk W) (Option.bind (vec_at (tn_children u) ei) (\<lambda>c.
        map_option (\<lambda>(x, c). (x, set_child ei c u)) (remove_node W (index - cumulative_index u ei) c))) = Some (tn_list u ! index, t')"
      "node_ok W (Suc h) t'" "vec_remove index (tn_list u) = Some (tn_list t')" "length (tn_elements t') = length (tn_elements u)"
      "tn_length u = tn_length t' + 1" by (rule down_ok [OF IH g big])
    have "remove_element_from_non_leaf W index ei t = Some (tn_list u ! index, t')"
      using t'(1) none(3,4) at u(1) by (subst remove_element_from_non_leaf.simps) simp
    then show ?thesis using t'(2-5) u(3,5,8) by (simp add: removes_def)
  qed
qed

theorem remove_node_ok:
  assumes "node_ok W h t" and "tn_elements t \<noteq> []" and "index < length (tn_list t)"
  shows "removes h index t (remove_node W index t)"
  using assms
proof (induction h arbitrary: t index)
  case 0
  obtain es n w where t: "t = TreeNode es [] n w" using "0.prems"(1) by (cases t) simp
  have i: "index < length es" using "0.prems"(3) by (simp add: t)
  let ?es = "take index es @ drop (Suc index) es" and ?t = "drop_element W (take index es @ drop (Suc index) es) (es ! index) t"
  have rem: "vec_remove index es = Some ?es" using i by (rule vec_remove_some)
  have m: "meta_ok W ?t"
    by (rule meta_drop_element [OF node_ok_meta [OF "0.prems"(1)]]) (use wsum_vec_remove [OF rem] i in \<open>simp_all add: t\<close>)
  have len: "length es \<le> 2 * b_factor - 1" "n = length es" using "0.prems"(1) node_ok_len [OF "0.prems"(1)] by (simp_all add: t)
  have "node_ok W 0 ?t" using m len i by (simp add: t)
  moreover have "tn_list ?t = ?es" using tn_list_eq [of ?t] by (simp add: t)
  moreover have "remove_node W index t = Some (es ! index, ?t)"
    using rem i len by (subst remove_node.simps) (simp add: remove_from_leaf_def is_leaf_def vec_at_def t)
  moreover have "length es = Suc (length es - Suc 0)" using i by simp
  ultimately show ?case using rem len(2) by (simp add: removes_def t)
next
  case (Suc h)
  note t = Suc.prems(1)
  have leaf: "\<not> is_leaf t" using t node_ok_leaf by blast
  obtain ci at_end where s: "ci < length (tn_children t)" "seek_child 0 0 (tn_children t) index = Some (ci, cumulative_index t ci, at_end)"
    "at_end \<longleftrightarrow> index = cumulative_index t ci + length (tn_list (tn_children t ! ci))"
    "at_end \<longrightarrow> ci < length (tn_elements t)" "cumulative_index t ci \<le> index"
    "\<not> at_end \<longrightarrow> index < cumulative_index t ci + length (tn_list (tn_children t ! ci))"
    by (rule seek_found [OF t Suc.prems(3)])
  have "removes (Suc h) index t (if at_end then remove_element_from_non_leaf W index (min ci (length (tn_elements t) - 1)) t
    else remove_from_internal_child W index ci t)"
  proof (cases at_end)
    case True
    then have ci: "ci < length (tn_elements t)" using s by simp
    then have "min ci (length (tn_elements t) - 1) = ci" by simp
    then show ?thesis using remove_element_ok [OF Suc.IH t ci] True s(3) by simp
  next
    case False
    then have "goes_to h index ci t" using s t by (simp add: goes_to_def)
    then show ?thesis using remove_internal_ok [OF Suc.IH _ Suc.prems(2)] False by simp
  qed
  moreover have "remove_node W index t = Option.bind (if at_end then remove_element_from_non_leaf W index (min ci (length (tn_elements t) - 1)) t
    else remove_from_internal_child W index ci t) (\<lambda>(x, t'). if tn_length t = tn_length t' + 1 then Some (x, t') else None)"
    using leaf s(2) Suc.prems(2) by (subst remove_node.simps) simp
  ultimately show ?case by (auto simp: removes_def)
qed

lemma tree_remove_ok:
  assumes "tree_ok W t" and "index < length (tree_list t)"
  shows "\<exists>t'. tree_remove W index t = Some (tree_list t ! index, t') \<and> tree_ok W t' \<and> vec_remove index (tree_list t) = Some (tree_list t')"
proof -
  obtain root where root: "t = Some root" using assms(2) by (cases t) (auto simp: tree_list_def)
  obtain h where h: "node_ok W h root" "tn_elements root \<noteq> []" using assms(1) by (auto simp: tree_ok_def root)
  obtain r where r: "remove_node W index root = Some (tn_list root ! index, r)" "node_ok W h r" "vec_remove index (tn_list root) = Some (tn_list r)"
    using remove_node_ok [OF h] assms(2) by (auto simp: removes_def tree_list_def root)
  let ?t = "if tn_elements r = [] then (if is_leaf r then None else Some (hd (tn_children r))) else Some r"
  have "tree_ok W ?t \<and> tree_list ?t = tn_list r"
  proof (cases "tn_elements r = []")
    case True
    show ?thesis
    proof (cases h)
      case 0
      then show ?thesis using True r(2) tn_list_eq [of r] by (simp add: is_leaf_def tree_ok_def tree_list_def)
    next
      case (Suc k)
      then obtain c where c: "tn_children r = [c]" "node_ok W k c" "b_factor - 1 \<le> length (tn_elements c)"
        using r(2) True by (auto simp: length_Suc_conv)
      have "tn_elements c \<noteq> []" using c(3) by (auto simp: b_factor_def)
      then show ?thesis using True c tn_list_eq [of r] by (auto simp: is_leaf_def tree_ok_def tree_list_def)
    qed
  next
    case False
    then show ?thesis using r(2) by (auto simp: tree_ok_def tree_list_def)
  qed
  then show ?thesis using r by (intro exI [of _ ?t]) (simp add: tree_remove_def root tree_list_def)
qed

end

end
