(* ===== verification/Span_Query.thy ===== *)
theory Span_Query
  imports Span_Remove
begin

text \<open>Replacement, reads, cursors and \<open>splice\<close> are those of the sequence of the tree.\<close>

subsection \<open>Reading\<close>

lemma seek_beyond:
  assumes "cs \<noteq> []" and "cum + sum_list (map (\<lambda>c. tn_length c + 1) cs) \<le> index + 1"
  shows "seek_child i cum cs index = None \<or> (\<exists>k. seek_child i cum cs index = Some (i + length cs - 1, k, True))"
  using assms
proof (induction cs arbitrary: i cum)
  case (Cons c cs)
  show ?case
  proof (cases "cs = []")
    case False
    then have "cum + tn_length c < index" using Cons.prems by (cases cs) auto
    then show ?thesis using Cons.IH [OF False, of "cum + tn_length c + 1" "i + 1"] Cons.prems by auto
  qed (use Cons.prems in auto)
qed simp

lemma get_node_list:
  assumes "node_ok W h t"
  shows "get_node index t = vec_at (tn_list t) index"
  using assms
proof (induction h arbitrary: t index)
  case 0
  then show ?case by (subst get_node.simps) (simp add: is_leaf_def tn_list_eq [of t])
next
  case (Suc h)
  have leaf: "\<not> is_leaf t" using Suc.prems node_ok_leaf by blast
  have len: "length (tn_children t) = length (tn_elements t) + 1" "tn_children t \<noteq> []" using Suc.prems by auto
  show ?case
  proof (cases "index < length (tn_list t)")
    case False
    then have "seek_child 0 0 (tn_children t) index = None \<or> (\<exists>k. seek_child 0 0 (tn_children t) index = Some (length (tn_elements t), k, True))"
      using seek_beyond [OF len(2), of 0 index 0] inner_length [OF Suc.prems] len(1) by simp
    then show ?thesis using False leaf by (subst get_node.simps) (auto simp: vec_at_def)
  next
    case True
    obtain ci at_end where s: "ci < length (tn_children t)" "seek_child 0 0 (tn_children t) index = Some (ci, cumulative_index t ci, at_end)"
      "at_end \<longleftrightarrow> index = cumulative_index t ci + length (tn_list (tn_children t ! ci))"
      "at_end \<longrightarrow> ci < length (tn_elements t)" "cumulative_index t ci \<le> index"
      "\<not> at_end \<longrightarrow> index < cumulative_index t ci + length (tn_list (tn_children t ! ci))"
      by (rule seek_found [OF Suc.prems True])
    show ?thesis
    proof (cases at_end)
      case True
      then have i: "ci + 1 < length (tn_children t)" using s(4) len(1) by simp
      obtain cs1 a b cs2 es1 p es2 n w where te: "t = TreeNode (es1 @ p # es2) (cs1 @ a # b # cs2) n w"
        and l: "length cs1 = ci" "length es1 = ci" "length es2 = length cs2" by (rule node_pair [OF Suc.prems i])
      have "tn_length c = length (tn_list c)" if "c \<in> set cs1" for c by (rule node_ok_len [of W h]) (use Suc.prems that in \<open>simp add: te\<close>)
      then have cum: "cumulative_index t ci = length (lead (map tn_list cs1) es1)"
        using cumulative_split [of cs1 es1 "es1 @ p # es2" "a # b # cs2" n w] l by (simp add: te)
      have "tn_children t ! ci = a" using l by (simp add: te nth_append)
      then have "tn_list t ! index = p" using s(3) True pair_list [of cs1 es1 es2 cs2 p a b n w] l cum by (simp add: te nth_append)
      moreover have "vec_at (tn_elements t) ci = Some p" using mid_simps(1) [OF l(2)] by (simp add: te)
      ultimately show ?thesis using s(2) leaf True \<open>index < length (tn_list t)\<close> by (subst get_node.simps) (simp add: vec_at_def)
    next
      case False
      let ?c = "tn_children t ! ci"
      have c: "node_ok W h ?c" using Suc.prems s(1) by simp
      obtain l r where ap: "tn_list t = l @ tn_list ?c @ r" "cumulative_index t ci = length l" using node_apart [OF Suc.prems s(1)] by metis
      have "get_node index t = get_node (index - cumulative_index t ci) ?c" using s(2) leaf False by (subst get_node.simps) simp
      also have "\<dots> = vec_at (tn_list t) index" unfolding Suc.IH [OF c] using s(5,6) False unfolding ap by (auto simp: vec_at_def nth_append)
      finally show ?thesis .
    qed
  qed
qed

lemma tree_get_ok: "tree_ok W t \<Longrightarrow> tree_get index t = vec_at (tree_list t) index"
  by (cases t) (auto simp: tree_get_def tree_ok_def tree_list_def get_node_list, simp add: vec_at_def)

lemma node_nonempty: "node_ok W h t \<Longrightarrow> tn_elements t \<noteq> [] \<Longrightarrow> tn_list t \<noteq> []"
  using elements_le [of t] by auto

text \<open>The last child ends the sequence.\<close>

lemma inner_last:
  assumes "node_ok W (Suc h) t"
  obtains cs c where "tn_children t = cs @ [c]" "node_ok W h c" "tn_elements c \<noteq> []" "length cs = length (tn_elements t)"
    "tn_list t = lead (map tn_list cs) (tn_elements t) @ tn_list c"
proof -
  have len: "length (tn_children t) = length (tn_elements t) + 1" using assms by simp
  then obtain cs c where cs: "tn_children t = cs @ [c]" by (cases "tn_children t" rule: rev_cases) auto
  have l: "length cs = length (tn_elements t)" using len by (simp add: cs)
  have c: "node_ok W h c" "b_factor - 1 \<le> length (tn_elements c)" using assms by (simp_all add: cs)
  have "tn_elements c \<noteq> []" using c(2) by (auto simp: b_factor_def)
  moreover have "tn_list t = lead (map tn_list cs) (tn_elements t) @ tn_list c"
    using inord_split [of "map tn_list cs" "tn_elements t" "[]" "[]" "tn_list c"] l by (simp add: tn_list_eq [of t] cs)
  ultimately show ?thesis using that cs c(1) l by blast
qed

lemma last_node_eq: "last_node t = (if tn_children t = [] then (if tn_elements t = [] then None else Some (last (tn_elements t)))
    else last (map last_node (tn_children t)))"
  by (cases t) simp

lemma last_node_list:
  assumes "node_ok W h t" "tn_elements t \<noteq> []"
  shows "last_node t = Some (last (tn_list t))"
  using assms
proof (induction h arbitrary: t)
  case 0
  then show ?case by (simp add: last_node_eq [of t] tn_list_eq [of t])
next
  case (Suc h)
  obtain cs c where c: "tn_children t = cs @ [c]" "node_ok W h c" "tn_elements c \<noteq> []"
    "tn_list t = lead (map tn_list cs) (tn_elements t) @ tn_list c" by (rule inner_last [OF Suc.prems(1)])
  then show ?case using Suc.IH [OF c(2,3)] node_nonempty [OF c(2,3)] by (simp add: last_node_eq [of t])
qed

text \<open>The cursor at an index: the weight before it and its element.\<close>

definition cursor_at :: "('e, 'w) weight_ops \<Rightarrow> nat \<Rightarrow> 'e list \<Rightarrow> ('e, 'w) sub_cursor" where
  "cursor_at W index xs = \<lparr>sc_index = index, sc_weight = wsum W (take index xs), sc_element = xs ! index\<rparr>"

context span_weight
begin

lemma last_weight_eq: "last_weight_node W t = (if tn_children t = []
      then (if tn_elements t = [] then None else Some (wsum W (butlast (tn_elements t))))
      else map_option (wt_and W (wt_and W (wsum W (tn_elements t)) (ws_sum (map tn_weight (butlast (tn_children t))))))
        (last (map (last_weight_node W) (tn_children t))))"
  by (cases t) (simp add: union_and foldl_and ws_sum_alloc and_default Let_def)

lemma wsum_lead: "length ls = length es \<Longrightarrow> wsum W (lead ls es) = wt_and W (wsum W es) (ws_sum (map (wsum W) ls))"
  by (induction ls es rule: list_induct2) (simp_all add: wsum_simps wsum_append ws_sum_simps and_default and_ac)

lemma last_weight_list:
  assumes "node_ok W h t" "tn_elements t \<noteq> []"
  shows "last_weight_node W t = Some (wsum W (butlast (tn_list t)))"
  using assms
proof (induction h arbitrary: t)
  case 0
  then show ?case by (simp add: last_weight_eq [of t] tn_list_eq [of t])
next
  case (Suc h)
  obtain cs c where c: "tn_children t = cs @ [c]" "node_ok W h c" "tn_elements c \<noteq> []" "length cs = length (tn_elements t)"
    "tn_list t = lead (map tn_list cs) (tn_elements t) @ tn_list c" by (rule inner_last [OF Suc.prems(1)])
  have "map tn_weight cs = map (wsum W) (map tn_list cs)"
    using kids_meta [OF Suc.prems(1)] c(1) by (simp add: meta_ok_def)
  then have "wsum W (lead (map tn_list cs) (tn_elements t)) = wt_and W (wsum W (tn_elements t)) (ws_sum (map tn_weight cs))"
    using wsum_lead [of "map tn_list cs" "tn_elements t"] c(4) by (simp del: map_map)
  then show ?case using Suc.IH [OF c(2,3)] node_nonempty [OF c(2,3)] c(1,5)
    by (simp add: last_weight_eq [of t] butlast_append wsum_append)
qed

subsection \<open>Cursors\<close>

lemma get_cursor_leaf_list:
  "k < length es \<Longrightarrow> get_cursor_leaf W cur (cur + k) acc es
    = Some \<lparr>sc_index = cur + k, sc_weight = wt_and W acc (wsum W (take k es)), sc_element = es ! k\<rparr>"
proof (induction es arbitrary: cur k acc)
  case (Cons e es)
  show ?case
  proof (cases k)
    case (Suc j)
    then show ?thesis using Cons.IH [of j "cur + 1" "wt_union W acc (wt_alloc W e)"] Cons.prems
      by (simp add: wsum_simps union_and and_assoc)
  qed (simp add: wsum_simps and_default_right)
qed simp

lemma get_cursor_loop_list:
  assumes IH: "\<And>c cur k acc. c \<in> set cs \<Longrightarrow> k < length (tn_list c) \<Longrightarrow> get_cursor_node W cur (cur + k) acc c
      = Some \<lparr>sc_index = cur + k, sc_weight = wt_and W acc (wsum W (take k (tn_list c))), sc_element = tn_list c ! k\<rparr>"
    and meta: "\<And>c. c \<in> set cs \<Longrightarrow> meta_ok W c" and len: "length cs = length es + 1"
    and k: "k < length (inord (map tn_list cs) es)"
  shows "get_cursor_loop W cur (cur + k) acc cs es
      = Some \<lparr>sc_index = cur + k, sc_weight = wt_and W acc (wsum W (take k (inord (map tn_list cs) es))), sc_element = inord (map tn_list cs) es ! k\<rparr>"
  using assms
proof (induction cs arbitrary: es cur k acc)
  case (Cons c cs)
  have m: "tn_length c = length (tn_list c)" "tn_weight c = wsum W (tn_list c)" using Cons.prems(2) by (simp_all add: meta_ok_def)
  show ?case
  proof (cases "k < length (tn_list c)")
    case True
    then show ?thesis using Cons.prems(1) [of c k cur acc] m(1) by (cases es) (simp_all add: nth_append)
  next
    case False
    show ?thesis
    proof (cases es)
      case Nil
      then show ?thesis using Cons.prems(3,4) False by simp
    next
      case (Cons e es')
      show ?thesis
      proof (cases "k = length (tn_list c)")
        case True
        then show ?thesis using m by (simp add: Cons union_and Let_def)
      next
        case neq: False
        define j where "j = k - length (tn_list c) - 1"
        have kj: "k = length (tn_list c) + 1 + j" using False neq by (simp add: j_def)
        have j: "j < length (inord (map tn_list cs) es')" using Cons.prems(4) by (simp add: Cons kj)
        have "get_cursor_loop W (cur + length (tn_list c) + 1) (cur + length (tn_list c) + 1 + j) acc' cs es'
          = Some \<lparr>sc_index = cur + length (tn_list c) + 1 + j, sc_weight = wt_and W acc' (wsum W (take j (inord (map tn_list cs) es'))),
              sc_element = inord (map tn_list cs) es' ! j\<rparr>" for acc'
          by (rule Cons.IH) (use Cons.prems(1-3) Cons j in auto)
        from this [of "wt_union W (wt_union W acc (tn_weight c)) (wt_alloc W e)"]
        show ?thesis using m by (simp add: Cons kj union_and wsum_append wsum_simps and_assoc Let_def nth_append add.assoc)
      qed
    qed
  qed
qed simp

lemma get_cursor_node_list:
  assumes "node_ok W h t" and "k < length (tn_list t)"
  shows "get_cursor_node W cur (cur + k) acc t
    = Some \<lparr>sc_index = cur + k, sc_weight = wt_and W acc (wsum W (take k (tn_list t))), sc_element = tn_list t ! k\<rparr>"
  using assms
proof (induction h arbitrary: t cur k acc)
  case 0
  then show ?case by (cases t) (simp add: get_cursor_leaf_list)
next
  case (Suc h)
  obtain es cs n w where t: "t = TreeNode es cs n w" by (cases t)
  have ne: "cs \<noteq> []" using Suc.prems(1) by (auto simp: t)
  have "get_cursor_loop W cur (cur + k) acc cs es
    = Some \<lparr>sc_index = cur + k, sc_weight = wt_and W acc (wsum W (take k (inord (map tn_list cs) es))), sc_element = inord (map tn_list cs) es ! k\<rparr>"
    by (rule get_cursor_loop_list) (use Suc kids_meta [OF Suc.prems(1)] in \<open>auto simp: t\<close>)
  then show ?case using ne by (simp add: t)
qed

lemma tree_get_cursor_ok:
  assumes "tree_ok W t" and "index < length (tree_list t)"
  shows "tree_get_cursor W index t = Some (cursor_at W index (tree_list t))"
  using assms get_cursor_node_list [where cur = 0 and k = index and acc = "wt_default W"]
  by (cases t) (auto simp: tree_get_cursor_def tree_ok_def tree_list_def cursor_at_def and_default)

lemma get_last_cursor_ok:
  assumes "tree_ok W t" and "tree_list t \<noteq> []"
  shows "get_last_cursor W t = Some (cursor_at W (length (tree_list t) - 1) (tree_list t))"
proof -
  obtain root where r: "t = Some root" using assms(2) by (cases t) (auto simp: tree_list_def)
  then obtain h where h: "node_ok W h root" "tn_elements root \<noteq> []" using assms(1) by (auto simp: tree_ok_def)
  have l: "tree_list t = tn_list root" "tree_len t = length (tn_list root)" using node_ok_len [OF h(1)] by (simp_all add: r tree_list_def tree_len_def)
  have ne: "tn_list root \<noteq> []" using assms(2) l(1) by simp
  then have "tree_len t \<noteq> 0" using l(2) by simp
  moreover have "tree_last t = Some (last (tn_list root))" "tree_last_weight W t = Some (wsum W (butlast (tn_list root)))"
    using last_node_list [OF h] last_weight_list [OF h] by (simp_all add: r tree_last_def tree_last_weight_def)
  ultimately show ?thesis unfolding get_last_cursor_def cursor_at_def l(1) using l(2) ne
    by (simp add: butlast_conv_take last_conv_nth)
qed

subsection \<open>Replacement\<close>

lemma wsum_update: "i < length xs \<Longrightarrow> wt_and W (wt_alloc W (xs ! i)) (wsum W (xs[i := x])) = wt_and W (wsum W xs) (wt_alloc W x)"
proof (induction xs arbitrary: i)
  case (Cons y ys)
  show ?case
  proof (cases i)
    case (Suc j)
    then have "wt_and W (wt_alloc W (ys ! j)) (wsum W (ys[j := x])) = wt_and W (wsum W ys) (wt_alloc W x)"
      using Cons.IH [of j] Cons.prems by simp
    then show ?thesis unfolding Suc by (simp add: wsum_simps) (metis and_ac)
  qed (simp add: wsum_simps and_ac)
qed simp

definition node_shape :: "nat \<Rightarrow> ('e, 'w) tree_node \<Rightarrow> bool" where
  "node_shape h t \<longleftrightarrow> length (tn_elements t) \<le> 2 * b_factor - 1 \<and> (case h of 0 \<Rightarrow> tn_children t = []
     | Suc k \<Rightarrow> length (tn_children t) = length (tn_elements t) + 1 \<and>
         (\<forall>c \<in> set (tn_children t). node_ok W k c \<and> b_factor - 1 \<le> length (tn_elements c)))"

lemma node_ok_shape: "node_ok W h t \<longleftrightarrow> meta_ok W t \<and> node_shape h t"
  by (cases h) (auto simp: node_shape_def)

lemma swapped_ok:
  assumes t: "node_ok W h t" and u: "node_shape h u" "tn_length u = tn_length t" "tn_weight u = wt_union W (tn_weight t) (wt_alloc W x)"
    and i: "i < length (tn_list t)" and l: "tn_list u = (tn_list t)[i := x]"
  shows "node_ok W h (subtract_weight W (wt_alloc W (tn_list t ! i)) u)" "tn_list (subtract_weight W (wt_alloc W (tn_list t ! i)) u) = tn_list u"
proof -
  let ?u = "subtract_weight W (wt_alloc W (tn_list t ! i)) u"
  show eq: "tn_list ?u = tn_list u" using tn_list_eq [of ?u] tn_list_eq [of u] by simp
  have m: "tn_length t = length (tn_list t)" "tn_weight t = wsum W (tn_list t)" using node_ok_meta [OF t] by (simp_all add: meta_ok_def)
  have "tn_weight u = wt_and W (wt_alloc W (tn_list t ! i)) (wsum W (tn_list u))"
    using wsum_update [OF i, of x] by (simp add: u(3) m(2) l union_and)
  then have "tn_weight ?u = wsum W (tn_list u)"
    by (rule subtract_ok) (use u(1) node_ok_meta in \<open>auto simp: node_shape_def split: nat.splits\<close>)
  then have "meta_ok W ?u" using u(2) m(1) l unfolding meta_ok_def eq by simp
  moreover have "node_shape h ?u" using u(1) by (simp add: node_shape_def split: nat.splits)
  ultimately show "node_ok W h ?u" by (simp add: node_ok_shape)
qed

lemma add_weight_sel [simp]:
  "tn_elements (add_weight W x t) = tn_elements t" "tn_children (add_weight W x t) = tn_children t" "tn_length (add_weight W x t) = tn_length t"
  "tn_weight (add_weight W x t) = wt_union W (tn_weight t) (wt_alloc W x)"
  by (simp_all add: add_weight_def split: tree_node.split)

lemma add_weight_list [simp]: "tn_list (add_weight W x t) = tn_list t"
  using tn_list_eq [of "add_weight W x t"] tn_list_eq [of t] by simp

definition replaces :: "nat \<Rightarrow> nat \<Rightarrow> 'e \<Rightarrow> ('e, 'w) tree_node \<Rightarrow> ('e \<times> ('e, 'w) tree_node) option \<Rightarrow> bool" where
  "replaces h index x t r \<longleftrightarrow> (\<exists>t'. r = Some (tn_list t ! index, t') \<and> node_ok W h t' \<and> tn_list t' = (tn_list t)[index := x]
     \<and> length (tn_elements t') = length (tn_elements t))"

lemma swap_weighted_ok:
  assumes t: "node_ok W h t" and ei: "ei < length (tn_elements t)" and index: "index < length (tn_list t)"
    and at: "tn_list t ! index = tn_elements t ! ei"
      "tn_list (TreeNode ((tn_elements t)[ei := x]) (tn_children t) n w) = (tn_list t)[index := x]"
  shows "replaces h index x t (swap_weighted W ei x t)"
proof -
  let ?u = "TreeNode ((tn_elements t)[ei := x]) (tn_children t) (tn_length t) (wt_union W (tn_weight t) (wt_alloc W x))"
  have "node_shape h ?u" using t unfolding node_ok_shape by (simp add: node_shape_def split: nat.splits)
  from swapped_ok [OF t this _ _ index, of x] at(2)
  have "node_ok W h (subtract_weight W (wt_alloc W (tn_list t ! index)) ?u)"
    "tn_list (subtract_weight W (wt_alloc W (tn_list t ! index)) ?u) = (tn_list t)[index := x]" by simp_all
  moreover have "swap_weighted W ei x t = Some (tn_list t ! index, subtract_weight W (wt_alloc W (tn_list t ! index)) ?u)"
    using ei at(1) by (cases t) (simp add: swap_weighted_def swap_element_def add_weight_def vec_at_def)
  ultimately show ?thesis by (auto simp: replaces_def)
qed

lemma replace_node_ok:
  assumes "node_ok W h t" and "index < length (tn_list t)"
  shows "replaces h index x t (replace_node W index x t)"
  using assms
proof (induction h arbitrary: t index)
  case 0
  then have c: "tn_children t = []" by simp
  have "replaces 0 index x t (swap_weighted W index x t)"
    by (rule swap_weighted_ok [OF "0.prems"(1) _ "0.prems"(2)]) (use "0.prems" c in \<open>simp_all add: tn_list_eq [of t]\<close>)
  then show ?case using c by (subst replace_node.simps) (simp add: is_leaf_def)
next
  case (Suc h)
  note t = Suc.prems(1)
  have leaf: "\<not> is_leaf t" using t node_ok_leaf by blast
  have len: "length (tn_children t) = length (tn_elements t) + 1" using t by simp
  obtain ci at_end where s: "ci < length (tn_children t)" "seek_child 0 0 (tn_children t) index = Some (ci, cumulative_index t ci, at_end)"
    "at_end \<longleftrightarrow> index = cumulative_index t ci + length (tn_list (tn_children t ! ci))"
    "at_end \<longrightarrow> ci < length (tn_elements t)" "cumulative_index t ci \<le> index"
    "\<not> at_end \<longrightarrow> index < cumulative_index t ci + length (tn_list (tn_children t ! ci))"
    by (rule seek_found [OF t Suc.prems(2)])
  show ?case
  proof (cases at_end)
    case True
    then have ci: "ci < length (tn_elements t)" and i: "ci + 1 < length (tn_children t)" using s(4) len by simp_all
    obtain cs1 a b cs2 es1 p es2 n w where te: "t = TreeNode (es1 @ p # es2) (cs1 @ a # b # cs2) n w"
      and l: "length cs1 = ci" "length es1 = ci" "length es2 = length cs2" by (rule node_pair [OF t i])
    have "tn_length c = length (tn_list c)" if "c \<in> set cs1" for c by (rule node_ok_len [of W h]) (use t that in \<open>simp add: te\<close>)
    then have cum: "cumulative_index t ci = length (lead (map tn_list cs1) es1)"
      using cumulative_split [of cs1 es1 "es1 @ p # es2" "a # b # cs2" n w] l by (simp add: te)
    have idx: "index = length (lead (map tn_list cs1) es1) + length (tn_list a)" using s(3) True cum l by (simp add: te nth_append)
    have pl: "tn_list (TreeNode (es1 @ y # es2) (cs1 @ a # b # cs2) n' w') = lead (map tn_list cs1) es1 @ (tn_list a @ y # tn_list b) @ trail es2 (map tn_list cs2)" for y n' w'
      by (rule pair_list) (use l in simp_all)
    have "tn_list t ! index = p" unfolding te pl idx by (simp add: nth_append)
    moreover have "(tn_list t)[index := x] = tn_list (TreeNode ((tn_elements t)[ci := x]) (tn_children t) n w)"
      using mid_simps(3) [OF l(2), of p es2 x] unfolding te idx by (simp add: pl list_update_append del: tn_list.simps)
    moreover have "tn_elements t ! ci = p" using l by (simp add: te nth_append)
    ultimately have "replaces (Suc h) index x t (swap_weighted W ci x t)"
      by (intro swap_weighted_ok [OF t ci Suc.prems(2), of x n w]) simp_all
    moreover have "min ci (length (tn_elements t) - 1) = ci" using ci by simp
    ultimately show ?thesis using s(2) leaf True ci by (subst replace_node.simps) auto
  next
    case False
    let ?c = "tn_children t ! ci" and ?i = "index - cumulative_index t ci"
    have c: "node_ok W h ?c" "b_factor - 1 \<le> length (tn_elements ?c)" "?i < length (tn_list ?c)" using t s(1,5,6) False by auto
    obtain c' where c': "replace_node W ?i x ?c = Some (tn_list ?c ! ?i, c')" "node_ok W h c'" "tn_list c' = (tn_list ?c)[?i := x]"
      "length (tn_elements c') = length (tn_elements ?c)" using Suc.IH [OF c(1,3)] by (auto simp: replaces_def)
    obtain l r where ap: "\<forall>c. tn_list (set_child ci c t) = l @ tn_list c @ r" "tn_list t = l @ tn_list ?c @ r" "cumulative_index t ci = length l"
      by (rule node_apart [OF t s(1)])
    let ?u = "add_weight W x (set_child ci c' t)"
    have "node_shape (Suc h) (set_child ci c' t)" using node_ok_shape [THEN iffD1, OF t] c'(2,4) c(2)
      by (auto simp: node_shape_def simp del: node_ok.simps dest!: set_upd)
    then have "node_shape (Suc h) ?u" by (simp add: node_shape_def)
    moreover have upd: "tn_list ?u = (tn_list t)[index := x]"
      unfolding add_weight_list ap(1) [rule_format] ap(2) c'(3) using s(5) c(3) by (simp add: ap(3) list_update_append)
    moreover have "tn_list ?c ! ?i = tn_list t ! index" unfolding ap(2) using s(5) c(3) by (simp add: ap(3) nth_append)
    ultimately show ?thesis using swapped_ok [OF t, of ?u x index] Suc.prems(2) s(2) leaf False c'(1)
      by (subst replace_node.simps) (simp add: replaces_def)
  qed
qed

lemma tree_replace_ok:
  assumes "tree_ok W t" and "index < length (tree_list t)"
  shows "\<exists>t'. tree_replace W index x t = Some (tree_list t ! index, t') \<and> tree_ok W t' \<and> tree_list t' = (tree_list t)[index := x]"
proof -
  obtain root where root: "t = Some root" using assms(2) by (cases t) (auto simp: tree_list_def)
  obtain h where h: "node_ok W h root" "tn_elements root \<noteq> []" using assms(1) by (auto simp: tree_ok_def root)
  obtain r where "replace_node W index x root = Some (tn_list root ! index, r)" "node_ok W h r" "tn_list r = (tn_list root)[index := x]"
    "length (tn_elements r) = length (tn_elements root)"
    using replace_node_ok [OF h(1), of index x] assms(2) by (auto simp: replaces_def tree_list_def root)
  then show ?thesis using h(2) by (intro exI [of _ "Some r"]) (auto simp: tree_replace_def root tree_list_def tree_ok_def)
qed

end

end
