(* ===== verification/Span_Walk.thy ===== *)
theory Span_Walk
  imports Span_Query
begin

text \<open>
  The iterators of \<open>slab/tree.rs\<close>: \<open>SpanTreeFnIter\<close>, which walks the tree with a stack of \<open>NodeWalker\<close>s and
  skips the subtrees that a predicate on weights rejects, and \<open>SpanTreeIter\<close>, which counts indices.  The
  first yields what a scan of the whole sequence yields, for every predicate that accepts a subtree whenever
  it accepts one of its elements.  A stack is a list with its top at the head.
\<close>

subsection \<open>The walkers\<close>

record ('e, 'w) node_walker =
  nw_children :: "('e, 'w) tree_node list"
  nw_elements :: "'e list"
  nw_index :: nat
  nw_acc :: 'w

definition new_walker :: "('e, 'w) tree_node \<Rightarrow> nat \<Rightarrow> 'w \<Rightarrow> ('e, 'w) node_walker" where
  "new_walker t index acc = \<lparr>nw_children = tn_children t, nw_elements = tn_elements t, nw_index = index, nw_acc = acc\<rparr>"

text \<open>The walker that a call leaves, and its result.\<close>

definition next_walker ::
  "('e, 'w) weight_ops \<Rightarrow> ('w \<Rightarrow> 'w \<Rightarrow> bool) \<Rightarrow> ('e, 'w) node_walker \<Rightarrow> ('e, 'w) node_walker \<times> ('e, 'w) node_walker option" where
  "next_walker W f w = (case nw_children w of
     [] \<Rightarrow> (w, None)
   | c # cs \<Rightarrow>
       (w\<lparr>nw_children := cs, nw_index := nw_index w + tn_length c, nw_acc := wt_union W (nw_acc w) (tn_weight c)\<rparr>,
        if f (nw_acc w) (tn_weight c) then Some (new_walker c (nw_index w) (nw_acc w)) else None))"

definition next_cursor ::
  "('e, 'w) weight_ops \<Rightarrow> ('w \<Rightarrow> 'w \<Rightarrow> bool) \<Rightarrow> ('e, 'w) node_walker \<Rightarrow> ('e, 'w) node_walker \<times> ('e, 'w) sub_cursor option option" where
  "next_cursor W f w = (case nw_elements w of
     [] \<Rightarrow> (w, None)
   | e # es \<Rightarrow>
       (w\<lparr>nw_elements := es, nw_index := nw_index w + 1, nw_acc := wt_union W (nw_acc w) (wt_alloc W e)\<rparr>,
        Some (if f (nw_acc w) (wt_alloc W e) then Some \<lparr>sc_index = nw_index w, sc_weight = nw_acc w, sc_element = e\<rparr> else None)))"

primrec pop_cursor ::
  "('e, 'w) weight_ops \<Rightarrow> ('w \<Rightarrow> 'w \<Rightarrow> bool) \<Rightarrow> ('e, 'w) node_walker list \<Rightarrow> ('e, 'w) node_walker list \<times> ('e, 'w) sub_cursor option" where
  "pop_cursor W f [] = ([], None)"
| "pop_cursor W f (w # st) = (case next_cursor W f w of
     (w', Some result) \<Rightarrow> (w' # st, result)
   | (_, None) \<Rightarrow> pop_cursor W f st)"

text \<open>What a stack still has to visit: the measure of the loop.\<close>

primrec node_work :: "('e, 'w) tree_node \<Rightarrow> nat" where
  "node_work (TreeNode es cs n w) = 2 + length es + sum_list (map node_work cs)"

definition stack_work :: "('e, 'w) node_walker list \<Rightarrow> nat" where
  "stack_work st = sum_list (map (\<lambda>w. 1 + length (nw_elements w) + sum_list (map node_work (nw_children w))) st)"

lemma stack_work_simps [simp]: "stack_work [] = 0"
  "stack_work (w # st) = 1 + length (nw_elements w) + sum_list (map node_work (nw_children w)) + stack_work st"
  by (simp_all add: stack_work_def)

lemma node_work_eq: "node_work t = 2 + length (tn_elements t) + sum_list (map node_work (tn_children t))"
  by (cases t) simp

lemma pop_cursor_work: "pop_cursor W f st = (st', r) \<Longrightarrow> stack_work st' + (if st = [] then 0 else 1) \<le> stack_work st"
proof (induction st)
  case (Cons w st)
  show ?case
  proof (cases "nw_elements w")
    case Nil
    then have "pop_cursor W f st = (st', r)" using Cons.prems by (simp add: next_cursor_def)
    then show ?thesis using Cons.IH by auto
  next
    case (Cons e es)
    then show ?thesis using \<open>pop_cursor W f (w # st) = (st', r)\<close> by (auto simp: next_cursor_def)
  qed
qed simp

lemma next_walker_work: "next_walker W f w = (w', r) \<Longrightarrow> stack_work (w' # st) \<le> stack_work (w # st)"
  "next_walker W f w = (w', Some v) \<Longrightarrow> stack_work (v # w' # st) < stack_work (w # st)"
  by (auto simp: next_walker_def new_walker_def node_work_eq split: list.splits if_splits)

text \<open>\<open>SpanTreeFnIter::next\<close>.\<close>

function iter_next ::
  "('e, 'w) weight_ops \<Rightarrow> ('w \<Rightarrow> 'w \<Rightarrow> bool) \<Rightarrow> ('e, 'w) node_walker list \<Rightarrow> ('e, 'w) node_walker list \<times> ('e, 'w) sub_cursor option" where
  "iter_next W f [] = ([], None)"
| "iter_next W f (w # st) = (case next_walker W f w of
     (w', Some v) \<Rightarrow> iter_next W f (v # w' # st)
   | (w', None) \<Rightarrow> (case pop_cursor W f (w' # st) of
       (st', Some c) \<Rightarrow> (st', Some c)
     | (st', None) \<Rightarrow> iter_next W f st'))"
  by pat_completeness auto
termination
proof (relation "measure (\<lambda>(W, f, st). stack_work st)", goal_cases)
  case (2 W f w st w' r st' c)
  then have n: "stack_work (w' # st) \<le> stack_work (w # st)" using next_walker_work(1) [of W f w w' r st] by simp
  have "pop_cursor W f (w' # st) = (st', c)" using 2 by simp
  from pop_cursor_work [OF this] n show ?case by simp
next
  case (3 W f w st w' r v)
  then show ?case using next_walker_work(2) [of W f w w' v st] by simp
qed simp

declare iter_next.simps(2) [simp del]

lemma iter_next_cases:
  "next_walker W f w = (w', Some v) \<Longrightarrow> iter_next W f (w # st) = iter_next W f (v # w' # st)"
  "next_walker W f w = (w', None) \<Longrightarrow> pop_cursor W f (w' # st) = (st', Some c) \<Longrightarrow> iter_next W f (w # st) = (st', Some c)"
  "next_walker W f w = (w', None) \<Longrightarrow> pop_cursor W f (w' # st) = (st', None) \<Longrightarrow> iter_next W f (w # st) = iter_next W f st'"
  by (subst iter_next.simps(2), simp del: pop_cursor.simps)+

lemma iter_next_work: "iter_next W f st = (st', Some c) \<Longrightarrow> stack_work st' < stack_work st"
proof (induction W f st rule: iter_next.induct)
  case (2 W f w st)
  obtain w' r where n: "next_walker W f w = (w', r)" by (cases "next_walker W f w")
  show ?case
  proof (cases r)
    case (Some v)
    have "stack_work st' < stack_work (v # w' # st)" using 2(2) [OF n [symmetric] Some] 2(3) by (simp add: iter_next_cases(1) [OF n [unfolded Some]])
    then show ?thesis using next_walker_work(2) [of W f w w' v st] n Some by simp
  next
    case None
    obtain st1 s where p: "pop_cursor W f (w' # st) = (st1, s)" by (cases "pop_cursor W f (w' # st)")
    have w: "stack_work st1 < stack_work (w # st)" using pop_cursor_work [OF p] next_walker_work(1) [OF n, of st] by simp
    show ?thesis
    proof (cases s)
      case (Some d)
      then show ?thesis using 2(3) w iter_next_cases(2) [OF n [unfolded None] p [unfolded Some]] by simp
    next
      case s: None
      have "stack_work st' < stack_work st1" using 2(1) [OF n [symmetric] None p [symmetric] s] 2(3) by (simp add: iter_next_cases(3) [OF n [unfolded None] p [unfolded s]])
      then show ?thesis using w by simp
    qed
  qed
qed simp

text \<open>The iterator run to its end, as \<open>collect\<close> does.\<close>

function iter_collect :: "('e, 'w) weight_ops \<Rightarrow> ('w \<Rightarrow> 'w \<Rightarrow> bool) \<Rightarrow> ('e, 'w) node_walker list \<Rightarrow> ('e, 'w) sub_cursor list" where
  "iter_collect W f st = (case iter_next W f st of (st', Some c) \<Rightarrow> c # iter_collect W f st' | (_, None) \<Rightarrow> [])"
  by pat_completeness auto
termination by (relation "measure (\<lambda>(W, f, st). stack_work st)") (auto intro: iter_next_work [OF sym])

declare iter_collect.simps [simp del]

subsection \<open>The operations of the tree\<close>

definition iter_where :: "('e, 'w) weight_ops \<Rightarrow> ('w \<Rightarrow> 'w \<Rightarrow> bool) \<Rightarrow> ('e, 'w) span_tree \<Rightarrow> ('e, 'w) node_walker list" where
  "iter_where W f t = (case t of None \<Rightarrow> [] | Some root \<Rightarrow> [new_walker root 0 (wt_default W)])"

definition get_where :: "('e, 'w) weight_ops \<Rightarrow> ('w \<Rightarrow> 'w \<Rightarrow> bool) \<Rightarrow> ('e, 'w) span_tree \<Rightarrow> ('e, 'w) sub_cursor option" where
  "get_where W f t = snd (iter_next W f (iter_where W f t))"

definition get_where_or_last :: "('e, 'w) weight_ops \<Rightarrow> ('w \<Rightarrow> 'w \<Rightarrow> bool) \<Rightarrow> ('e, 'w) span_tree \<Rightarrow> ('e, 'w) sub_cursor option" where
  "get_where_or_last W f t = (case get_where W f t of Some c \<Rightarrow> Some c | None \<Rightarrow> get_last_cursor W t)"

text \<open>\<open>SpanTreeIter\<close>: the tree it reads, the next index and the weight before it.\<close>

record ('e, 'w) span_iter =
  si_inner :: "('e, 'w) span_tree option"
  si_index :: nat
  si_weight :: 'w

definition span_tree_iter :: "('e, 'w) weight_ops \<Rightarrow> ('e, 'w) span_tree \<Rightarrow> ('e, 'w) span_iter" where
  "span_tree_iter W t = \<lparr>si_inner = Some t, si_index = 0, si_weight = wt_default W\<rparr>"

definition span_iter_new :: "('e, 'w) weight_ops \<Rightarrow> ('e, 'w) span_tree \<Rightarrow> ('e, 'w) sub_cursor \<Rightarrow> ('e, 'w) span_iter" where
  "span_iter_new W t c =
     \<lparr>si_inner = Some t, si_index = sc_index c + 1, si_weight = wt_and W (sc_weight c) (wt_alloc W (sc_element c))\<rparr>"

definition span_iter_peek :: "('e, 'w) span_iter \<Rightarrow> 'e option" where
  "span_iter_peek i = Option.bind (si_inner i) (tree_get (si_index i + 1))"

definition span_iter_next :: "('e, 'w) weight_ops \<Rightarrow> ('e, 'w) span_iter \<Rightarrow> ('e \<times> ('e, 'w) span_iter) option" where
  "span_iter_next W i = Option.bind (si_inner i) (\<lambda>t. Option.bind (tree_get (si_index i) t) (\<lambda>e.
     Some (e, i\<lparr>si_index := si_index i + 1, si_weight := wt_union W (si_weight i) (wt_alloc W e)\<rparr>)))"

end
