(* ===== verification/Span_Search.thy ===== *)
theory Span_Search
  imports Span_Walk
begin

text \<open>
  The searches of the tree against a scan of its sequence: the walk of \<open>SpanTreeFnIter\<close> skips subtrees and
  loses nothing, \<open>get_where\<close> is the first hit of the scan, and \<open>SpanTreeIter\<close> reads the sequence in order.
\<close>

text \<open>The children and elements that a walker has left when an element is next.\<close>

fun walk_out :: "'e list \<Rightarrow> 'e list list \<Rightarrow> 'e list" where
  "walk_out [] ls = []"
| "walk_out (e # es) ls = e # inord ls es"

lemma inord_walk: "length ls = length es \<Longrightarrow> inord (l # ls) es = l @ walk_out es ls"
  by (cases es) auto

text \<open>The scan: every element, with its index and the weight before it.\<close>

primrec hits :: "('e, 'w) weight_ops \<Rightarrow> ('w \<Rightarrow> 'w \<Rightarrow> bool) \<Rightarrow> nat \<Rightarrow> 'w \<Rightarrow> 'e list \<Rightarrow> ('e, 'w) sub_cursor list" where
  "hits W f i acc [] = []"
| "hits W f i acc (x # xs) = (if f acc (wt_alloc W x) then [\<lparr>sc_index = i, sc_weight = acc, sc_element = x\<rparr>] else [])
     @ hits W f (i + 1) (wt_and W acc (wt_alloc W x)) xs"

definition prunes :: "('e, 'w) weight_ops \<Rightarrow> ('w \<Rightarrow> 'w \<Rightarrow> bool) \<Rightarrow> bool" where
  "prunes W f \<longleftrightarrow> (\<forall>i acc xs. hits W f i acc xs \<noteq> [] \<longrightarrow> f acc (wsum W xs))"

context span_weight
begin

lemma hits_append: "hits W f i acc (xs @ ys) = hits W f i acc xs @ hits W f (i + length xs) (wt_and W acc (wsum W xs)) ys"
  by (induction xs arbitrary: i acc) (simp_all add: wsum_simps and_default_right and_assoc)

definition part_ok :: "('e, 'w) node_walker \<Rightarrow> bool" where
  "part_ok w \<longleftrightarrow> (\<forall>c \<in> set (nw_children w). \<exists>h. node_ok W h c)"

definition top_ok :: "('e, 'w) node_walker \<Rightarrow> bool" where
  "top_ok w \<longleftrightarrow> part_ok w \<and> (nw_children w = [] \<or> length (nw_children w) = length (nw_elements w) + 1)"

definition out_ok :: "('e, 'w) node_walker \<Rightarrow> bool" where
  "out_ok w \<longleftrightarrow> part_ok w \<and> (nw_children w = [] \<or> length (nw_children w) = length (nw_elements w))"

definition top_hits :: "('w \<Rightarrow> 'w \<Rightarrow> bool) \<Rightarrow> ('e, 'w) node_walker \<Rightarrow> ('e, 'w) sub_cursor list" where
  "top_hits f w = hits W f (nw_index w) (nw_acc w) (inord (map tn_list (nw_children w)) (nw_elements w))"

definition out_hits :: "('w \<Rightarrow> 'w \<Rightarrow> bool) \<Rightarrow> ('e, 'w) node_walker list \<Rightarrow> ('e, 'w) sub_cursor list" where
  "out_hits f st = concat (map (\<lambda>w. hits W f (nw_index w) (nw_acc w) (walk_out (nw_elements w) (map tn_list (nw_children w)))) st)"

text \<open>What a stack between two calls still yields.\<close>

definition stack_ok :: "('e, 'w) node_walker list \<Rightarrow> bool" where
  "stack_ok st \<longleftrightarrow> (case st of [] \<Rightarrow> True | w # ws \<Rightarrow> top_ok w \<and> list_all out_ok ws)"

definition stack_hits :: "('w \<Rightarrow> 'w \<Rightarrow> bool) \<Rightarrow> ('e, 'w) node_walker list \<Rightarrow> ('e, 'w) sub_cursor list" where
  "stack_hits f st = (case st of [] \<Rightarrow> [] | w # ws \<Rightarrow> top_hits f w @ out_hits f ws)"

lemmas walk_defs = part_ok_def top_ok_def out_ok_def top_hits_def out_hits_def stack_ok_def stack_hits_def

lemma pop_cursor_hits:
  "list_all out_ok st \<Longrightarrow> pop_cursor W f st = (st', r) \<Longrightarrow>
     stack_ok st' \<and> out_hits f st = (case r of None \<Rightarrow> [] | Some c \<Rightarrow> [c]) @ stack_hits f st'"
proof (induction st)
  case (Cons w st)
  show ?case
  proof (cases "nw_elements w")
    case Nil
    then show ?thesis using Cons by (simp add: next_cursor_def out_hits_def)
  next
    case el: (Cons e es)
    have "out_ok w" and st: "list_all out_ok st" using Cons.prems(1) by simp_all
    then have w: "part_ok w" "nw_children w = [] \<or> length (nw_children w) = length es + 1" by (auto simp: out_ok_def el)
    from Cons.prems(2) show ?thesis using w st
      by (auto simp: el next_cursor_def stack_ok_def top_ok_def part_ok_def stack_hits_def top_hits_def out_hits_def union_and)
  qed
qed (simp add: walk_defs)

lemma new_walker_ok:
  assumes "node_ok W h t"
  shows "top_ok (new_walker t i acc)" "top_hits f (new_walker t i acc) = hits W f i acc (tn_list t)"
proof -
  show "top_ok (new_walker t i acc)" using assms by (cases h) (auto simp: walk_defs new_walker_def)
  show "top_hits f (new_walker t i acc) = hits W f i acc (tn_list t)" by (simp add: top_hits_def new_walker_def tn_list_eq [of t])
qed

text \<open>A walker whose next child is passed.\<close>

lemma next_walker_hits:
  assumes f: "prunes W f" and w: "top_ok w" and n: "next_walker W f w = (w', r)"
  shows "out_ok w' \<and> top_hits f w = (case r of None \<Rightarrow> [] | Some v \<Rightarrow> top_hits f v) @ out_hits f [w'] \<and> (\<forall>v. r = Some v \<longrightarrow> top_ok v)"
proof (cases "nw_children w")
  case Nil
  then have r: "w' = w" "r = None" using n by (simp_all add: next_walker_def)
  have "inord [] es = walk_out es []" for es :: "'e list" by (cases es) simp_all
  then show ?thesis using w by (simp add: r walk_defs Nil)
next
  case (Cons c cs)
  obtain h where c: "node_ok W h c" using w by (auto simp: walk_defs Cons)
  have m: "tn_length c = length (tn_list c)" "tn_weight c = wsum W (tn_list c)" using node_ok_meta [OF c] by (simp_all add: meta_ok_def)
  have len: "length (map tn_list cs) = length (nw_elements w)" using w by (simp add: walk_defs Cons)
  have w': "w' = w\<lparr>nw_children := cs, nw_index := nw_index w + tn_length c, nw_acc := wt_union W (nw_acc w) (tn_weight c)\<rparr>"
    "r = (if f (nw_acc w) (tn_weight c) then Some (new_walker c (nw_index w) (nw_acc w)) else None)"
    using n by (simp_all add: next_walker_def Cons)
  have "top_hits f w = hits W f (nw_index w) (nw_acc w) (tn_list c) @ out_hits f [w']"
    by (simp add: top_hits_def out_hits_def Cons inord_walk [OF len] hits_append w'(1) union_and m)
  moreover have "\<not> f (nw_acc w) (tn_weight c) \<Longrightarrow> hits W f (nw_index w) (nw_acc w) (tn_list c) = []"
    using f unfolding prunes_def m by blast
  moreover have "out_ok w'" using w by (auto simp: walk_defs Cons w'(1))
  ultimately show ?thesis using new_walker_ok [OF c] by (simp add: w'(2))
qed

lemma iter_next_hits:
  assumes f: "prunes W f"
  shows "stack_ok st \<Longrightarrow> iter_next W f st = (st', r) \<Longrightarrow>
    stack_ok st' \<and> stack_hits f st = (case r of None \<Rightarrow> [] | Some c \<Rightarrow> c # stack_hits f st')"
proof (induction "stack_work st" arbitrary: st rule: less_induct)
  case less
  show ?case
  proof (cases st)
    case Nil
    then show ?thesis using less.prems by (simp add: stack_ok_def stack_hits_def)
  next
    case st: (Cons w ws)
    have w: "top_ok w" "list_all out_ok ws" using less.prems(1) by (simp_all add: st stack_ok_def)
    obtain w' s where n: "next_walker W f w = (w', s)" by (cases "next_walker W f w")
    note h = next_walker_hits [OF f w(1) n]
    have out: "out_hits f (w' # ws) = out_hits f [w'] @ out_hits f ws" by (simp add: out_hits_def)
    show ?thesis
    proof (cases s)
      case (Some v)
      have "stack_work (v # w' # ws) < stack_work st" using next_walker_work(2) n unfolding Some st by blast
      moreover have "stack_ok (v # w' # ws)" "stack_hits f (v # w' # ws) = stack_hits f st"
        using h w(2) by (simp_all add: stack_ok_def stack_hits_def Some st out)
      moreover have "iter_next W f (v # w' # ws) = (st', r)" using less.prems(2) iter_next_cases(1) [OF n [unfolded Some]] by (simp add: st)
      ultimately show ?thesis using less.hyps by metis
    next
      case None
      obtain st1 u where p: "pop_cursor W f (w' # ws) = (st1, u)" by (cases "pop_cursor W f (w' # ws)")
      have p1: "stack_ok st1 \<and> out_hits f (w' # ws) = (case u of None \<Rightarrow> [] | Some c \<Rightarrow> [c]) @ stack_hits f st1"
        by (rule pop_cursor_hits [OF _ p]) (use h w(2) in simp)
      have e: "stack_hits f st = (case u of None \<Rightarrow> [] | Some c \<Rightarrow> [c]) @ stack_hits f st1"
        using h p1 by (simp add: stack_hits_def st None out)
      show ?thesis
      proof (cases u)
        case u: (Some c)
        then show ?thesis using e p1 less.prems(2) iter_next_cases(2) [OF n [unfolded None] p [unfolded u]] by (auto simp: st)
      next
        case u: None
        have "stack_work st1 < stack_work st" using pop_cursor_work [OF p] next_walker_work(1) [OF n, of ws] by (simp add: st)
        moreover have "iter_next W f st1 = (st', r)" using less.prems(2) iter_next_cases(3) [OF n [unfolded None] p [unfolded u]] by (simp add: st)
        ultimately show ?thesis using less.hyps [of st1] p1 e u by simp
      qed
    qed
  qed
qed

lemma iter_collect_hits: "prunes W f \<Longrightarrow> stack_ok st \<Longrightarrow> iter_collect W f st = stack_hits f st"
proof (induction "stack_work st" arbitrary: st rule: less_induct)
  case less
  obtain st' r where n: "iter_next W f st = (st', r)" by (cases "iter_next W f st")
  note h = iter_next_hits [OF less.prems n]
  show ?case
  proof (cases r)
    case (Some c)
    then have "stack_work st' < stack_work st" using iter_next_work n by blast
    then show ?thesis using less.hyps [of st'] less.prems(1) h n Some by (simp add: iter_collect.simps [of W f st])
  qed (use h n in \<open>simp add: iter_collect.simps [of W f st]\<close>)
qed

lemma iter_where_stack:
  assumes "tree_ok W t"
  shows "stack_ok (iter_where W f t)" "stack_hits f (iter_where W f t) = hits W f 0 (wt_default W) (tree_list t)"
proof -
  have "stack_ok (iter_where W f t) \<and> stack_hits f (iter_where W f t) = hits W f 0 (wt_default W) (tree_list t)"
  proof (cases t)
    case (Some root)
    then obtain h where "node_ok W h root" using assms by (auto simp: tree_ok_def)
    from new_walker_ok [OF this] show ?thesis by (simp add: Some iter_where_def stack_ok_def stack_hits_def tree_list_def out_hits_def)
  qed (simp add: iter_where_def stack_ok_def stack_hits_def tree_list_def)
  then show "stack_ok (iter_where W f t)" "stack_hits f (iter_where W f t) = hits W f 0 (wt_default W) (tree_list t)" by simp_all
qed

lemma iter_where_ok:
  assumes "tree_ok W t" and "prunes W f"
  shows "iter_collect W f (iter_where W f t) = hits W f 0 (wt_default W) (tree_list t)"
  using iter_collect_hits [OF assms(2) iter_where_stack(1) [OF assms(1)]] iter_where_stack(2) [OF assms(1)] by simp

lemma get_where_ok:
  assumes "tree_ok W t" and "prunes W f"
  shows "get_where W f t = (case hits W f 0 (wt_default W) (tree_list t) of [] \<Rightarrow> None | c # cs \<Rightarrow> Some c)"
proof -
  obtain st' r where n: "iter_next W f (iter_where W f t) = (st', r)" by (cases "iter_next W f (iter_where W f t)")
  from iter_next_hits [OF assms(2) iter_where_stack(1) [OF assms(1)] n] show ?thesis
    by (cases r) (auto simp: get_where_def n iter_where_stack(2) [OF assms(1)])
qed

text \<open>The first hit, and that there is none.\<close>

lemma hits_first:
  "k < length xs \<Longrightarrow> f (wt_and W acc (wsum W (take k xs))) (wt_alloc W (xs ! k)) \<Longrightarrow>
   \<forall>j < k. \<not> f (wt_and W acc (wsum W (take j xs))) (wt_alloc W (xs ! j)) \<Longrightarrow>
   \<exists>cs. hits W f i acc xs = \<lparr>sc_index = i + k, sc_weight = wt_and W acc (wsum W (take k xs)), sc_element = xs ! k\<rparr> # cs"
proof (induction xs arbitrary: k i acc)
  case (Cons x xs)
  show ?case
  proof (cases k)
    case 0
    then show ?thesis using Cons.prems(2) by (simp add: wsum_simps and_default_right)
  next
    case (Suc m)
    have "\<not> f acc (wt_alloc W x)" using Cons.prems(3) by (auto simp: Suc wsum_simps and_default_right dest: spec [of _ 0])
    moreover have "\<forall>j < m. \<not> f (wt_and W (wt_and W acc (wt_alloc W x)) (wsum W (take j xs))) (wt_alloc W (xs ! j))"
    proof (intro allI impI)
      fix j assume "j < m"
      then show "\<not> f (wt_and W (wt_and W acc (wt_alloc W x)) (wsum W (take j xs))) (wt_alloc W (xs ! j))"
        using Cons.prems(3) [THEN spec, of "Suc j"] by (simp add: Suc wsum_simps and_assoc)
    qed
    ultimately show ?thesis using Cons.IH [of m "wt_and W acc (wt_alloc W x)" "i + 1"] Cons.prems(1,2)
      by (simp add: Suc wsum_simps and_assoc)
  qed
qed simp

lemma hits_none:
  "\<forall>j < length xs. \<not> f (wt_and W acc (wsum W (take j xs))) (wt_alloc W (xs ! j)) \<Longrightarrow> hits W f i acc xs = []"
proof (induction xs arbitrary: i acc)
  case (Cons x xs)
  have "\<not> f acc (wt_alloc W x)" using Cons.prems [THEN spec, of 0] by (simp add: wsum_simps and_default_right)
  moreover have "\<forall>j < length xs. \<not> f (wt_and W (wt_and W acc (wt_alloc W x)) (wsum W (take j xs))) (wt_alloc W (xs ! j))"
  proof (intro allI impI)
    fix j assume "j < length xs"
    then show "\<not> f (wt_and W (wt_and W acc (wt_alloc W x)) (wsum W (take j xs))) (wt_alloc W (xs ! j))"
      using Cons.prems [THEN spec, of "Suc j"] by (simp add: wsum_simps and_assoc)
  qed
  ultimately show ?case using Cons.IH by simp
qed simp

lemma hits_found: "hits W f i acc xs \<noteq> [] \<Longrightarrow> \<exists>j < length xs. f (wt_and W acc (wsum W (take j xs))) (wt_alloc W (xs ! j))"
  using hits_none by blast

lemma hits_shape:
  "c \<in> set (hits W f i acc xs) \<Longrightarrow>
     \<exists>j < length xs. c = \<lparr>sc_index = i + j, sc_weight = wt_and W acc (wsum W (take j xs)), sc_element = xs ! j\<rparr>"
proof (induction xs arbitrary: i acc)
  case (Cons x xs)
  consider "c = \<lparr>sc_index = i, sc_weight = acc, sc_element = x\<rparr>" | "c \<in> set (hits W f (i + 1) (wt_and W acc (wt_alloc W x)) xs)"
    using Cons.prems by (auto split: if_splits)
  then show ?case
  proof cases
    case 1
    then show ?thesis by (intro exI [of _ 0]) (simp add: wsum_simps and_default_right)
  next
    case 2
    from Cons.IH [OF this] obtain j where "j < length xs"
      "c = \<lparr>sc_index = i + 1 + j, sc_weight = wt_and W (wt_and W acc (wt_alloc W x)) (wsum W (take j xs)), sc_element = xs ! j\<rparr>" by blast
    then show ?thesis by (intro exI [of _ "Suc j"]) (simp add: wsum_simps and_assoc)
  qed
qed simp

lemma hits_cursor_at:
  "c \<in> set (hits W f 0 (wt_default W) xs) \<Longrightarrow> sc_index c < length xs \<and> c = cursor_at W (sc_index c) xs"
  by (drule hits_shape) (auto simp: cursor_at_def and_default)

subsection \<open>The iterator over indices\<close>

text \<open>An iterator made at a cursor has taken its element; what it peeks at lies one further than what it yields.\<close>

lemma span_iter_at:
  assumes "tree_ok W t"
  shows "span_iter_next W (span_iter_new W t (cursor_at W i (tree_list t))) = (if i + 1 < length (tree_list t)
      then Some (tree_list t ! (i + 1), span_iter_new W t (cursor_at W (i + 1) (tree_list t))) else None)"
    "span_iter_peek (span_iter_new W t (cursor_at W i (tree_list t))) = vec_at (tree_list t) (i + 2)"
proof -
  have "wsum W (take (Suc i) (tree_list t)) = wt_and W (wsum W (take i (tree_list t))) (wt_alloc W (tree_list t ! i))" if "Suc i < length (tree_list t)"
    using that by (simp add: take_Suc_conv_app_nth wsum_append wsum_simps and_default_right)
  then show "span_iter_next W (span_iter_new W t (cursor_at W i (tree_list t))) = (if i + 1 < length (tree_list t)
      then Some (tree_list t ! (i + 1), span_iter_new W t (cursor_at W (i + 1) (tree_list t))) else None)"
    by (simp add: span_iter_next_def span_iter_new_def cursor_at_def tree_get_ok [OF assms] vec_at_def union_and)
  show "span_iter_peek (span_iter_new W t (cursor_at W i (tree_list t))) = vec_at (tree_list t) (i + 2)"
    by (simp add: span_iter_peek_def span_iter_new_def cursor_at_def tree_get_ok [OF assms])
qed

end

end
