(* ===== verification/Span_Splice.thy ===== *)
theory Span_Splice
  imports Span_Remove Span_Query
begin

text \<open>
  \<open>SpanTree::splice\<close> and \<open>SpanTree::load\<close>: replacing first, then removing what is too much or inserting
  what is left, yields the list that \<open>Vec::splice\<close> does; loading yields the elements in their order.
\<close>

definition list_splice :: "nat \<Rightarrow> nat \<Rightarrow> 'e list \<Rightarrow> 'e list \<Rightarrow> 'e list" where
  "list_splice start stop values xs = take start xs @ values @ drop (min stop (length xs)) xs"

lemma drop_conv_nth: "i < length xs \<Longrightarrow> drop i xs = xs ! i # drop (Suc i) xs"
  by (simp add: Cons_nth_drop_Suc)

lemma take_prefix: "length ps = i \<Longrightarrow> take i (ps @ qs) = ps" "length ps = i \<Longrightarrow> drop (i + n) (ps @ qs) = drop n qs"
  by simp_all

context span_weight
begin

lemma splice_delete_ok:
  assumes "tree_ok W t" and "index + n \<le> length (tree_list t)"
  shows "\<exists>t'. splice_delete W n index values t = Some (index + min n (length values), drop n values, t') \<and> tree_ok W t'
    \<and> tree_list t' = take index (tree_list t) @ take n values @ drop (index + n) (tree_list t)"
  using assms
proof (induction n arbitrary: index "values" t)
  case (Suc n)
  let ?xs = "tree_list t"
  have i: "index < length ?xs" using Suc.prems(2) by simp
  show ?case
  proof (cases "values")
    case Nil
    obtain u where u: "tree_remove W index t = Some (?xs ! index, u)" "tree_ok W u" "vec_remove index ?xs = Some (tree_list u)"
      using tree_remove_ok [OF Suc.prems(1) i] by blast
    have l: "tree_list u = take index ?xs @ drop (Suc index) ?xs" using u(3) i by (simp add: vec_remove_def)
    have "index + n \<le> length (tree_list u)" using Suc.prems(2) by (simp add: l)
    from Suc.IH [OF u(2) this, of "[]"] obtain t' where t': "splice_delete W n index [] u = Some (index, [], t')" "tree_ok W t'"
      "tree_list t' = take index (tree_list u) @ drop (index + n) (tree_list u)" by auto
    have "tree_list t' = take index ?xs @ drop (index + Suc n) ?xs"
      unfolding t'(3) l using i by (simp add: add.commute)
    then show ?thesis using t'(1,2) u(1) by (simp add: Nil)
  next
    case (Cons v vs)
    obtain u where u: "tree_replace W index v t = Some (?xs ! index, u)" "tree_ok W u" "tree_list u = ?xs[index := v]"
      using tree_replace_ok [OF Suc.prems(1) i] by blast
    have "index + 1 + n \<le> length (tree_list u)" using Suc.prems(2) by (simp add: u(3))
    from Suc.IH [OF u(2) this, of vs] obtain t' where t': "splice_delete W n (index + 1) vs u = Some (index + 1 + min n (length vs), drop n vs, t')"
      "tree_ok W t'" "tree_list t' = take (index + 1) (tree_list u) @ take n vs @ drop (index + 1 + n) (tree_list u)" by blast
    have "take (index + 1) (tree_list u) = take index ?xs @ [v]" using i by (simp add: u(3) upd_conv_take_nth_drop)
    moreover have "drop (index + 1 + n) (tree_list u) = drop (index + Suc n) ?xs" using i by (simp add: u(3) drop_update_cancel)
    ultimately have "tree_list t' = take index ?xs @ take (Suc n) values @ drop (index + Suc n) ?xs" using t'(3) by (simp add: Cons)
    then show ?thesis using t'(1,2) u(1) by (simp add: Cons)
  qed
qed (simp add: append_take_drop_id)

lemma splice_insert_ok:
  assumes "tree_ok W t" and "index \<le> length (tree_list t)"
  shows "\<exists>t'. splice_insert W index values t = Some t' \<and> tree_ok W t'
    \<and> tree_list t' = take index (tree_list t) @ values @ drop index (tree_list t)"
  using assms
proof (induction "values" arbitrary: index t)
  case (Cons v vs)
  let ?xs = "tree_list t"
  obtain u where u: "tree_insert W index v t = Some u" "tree_ok W u" "vec_insert index v ?xs = Some (tree_list u)"
    using tree_insert_ok [OF Cons.prems] by blast
  have l: "tree_list u = (take index ?xs @ [v]) @ drop index ?xs" using u(3) Cons.prems(2) by (simp add: vec_insert_def)
  have n: "length (take index ?xs @ [v]) = index + 1" using Cons.prems(2) by simp
  have "index + 1 \<le> length (tree_list u)" using n by (simp add: l)
  from Cons.IH [OF u(2) this] obtain t' where t': "splice_insert W (index + 1) vs u = Some t'" "tree_ok W t'"
    "tree_list t' = take (index + 1) (tree_list u) @ vs @ drop (index + 1) (tree_list u)" by blast
  have "tree_list t' = take index ?xs @ (v # vs) @ drop index ?xs"
    unfolding t'(3) l take_prefix(1) [OF n] take_prefix(2) [OF n, of 0, unfolded add_0_right] by simp
  then show ?case using t'(1,2) u(1) by simp
qed simp

lemma tree_splice_ok:
  assumes t: "tree_ok W t" and r: "start \<le> min stop (length (tree_list t))"
  shows "\<exists>t'. tree_splice W start stop values t = Some t' \<and> tree_ok W t' \<and> tree_list t' = list_splice start stop values (tree_list t)"
proof -
  let ?xs = "tree_list t" and ?stop = "min stop (length (tree_list t))"
  let ?n = "?stop - start"
  have n: "start + ?n = ?stop" using r by simp
  have "start + ?n \<le> length ?xs" using n by simp
  from splice_delete_ok [OF t this, of "values"] obtain u where
    u: "splice_delete W ?n start values t = Some (start + min ?n (length values), drop ?n values, u)" "tree_ok W u"
      "tree_list u = take start ?xs @ take ?n values @ drop ?stop ?xs" unfolding n by blast
  let ?ps = "take start ?xs @ take ?n values"
  have p: "length ?ps = start + min ?n (length values)" using r by simp
  have l: "tree_list u = ?ps @ drop ?stop ?xs" using u(3) by simp
  have "length ?ps \<le> length (tree_list u)" unfolding l by (simp only: length_append)
  then have "start + min ?n (length values) \<le> length (tree_list u)" by (simp only: p)
  from splice_insert_ok [OF u(2) this, of "drop ?n values"] obtain t' where
    t': "splice_insert W (start + min ?n (length values)) (drop ?n values) u = Some t'" "tree_ok W t'"
      "tree_list t' = ?ps @ drop ?n values @ drop ?stop ?xs"
    unfolding l take_prefix(1) [OF p] take_prefix(2) [OF p, of 0, unfolded add_0_right] by auto
  have "tree_list t' = list_splice start stop values ?xs" unfolding t'(3) list_splice_def by simp
  moreover have "tree_splice W start stop values t = Some t'"
    using u(1) t'(1) tree_len_list [OF t] leD [OF r] by (simp add: tree_splice_def Let_def)
  ultimately show ?thesis using t'(2) by blast
qed

lemma tree_splice_panics:
  assumes "tree_ok W t" and "min stop (length (tree_list t)) < start"
  shows "tree_splice W start stop values t = None"
  using assms tree_len_list [OF assms(1)] by (simp add: tree_splice_def Let_def)

lemma push_ok:
  assumes "tree_ok W t"
  shows "\<exists>t'. push W x t = Some t' \<and> tree_ok W t' \<and> tree_list t' = tree_list t @ [x]"
  using tree_insert_ok [OF assms, of "tree_len t" x] tree_len_list [OF assms] by (auto simp: push_def vec_insert_def)

lemma push_all_ok:
  assumes "tree_ok W t"
  shows "\<exists>t'. foldl (\<lambda>t e. Option.bind t (push W e)) (Some t) es = Some t' \<and> tree_ok W t' \<and> tree_list t' = tree_list t @ es"
  using assms
proof (induction es arbitrary: t)
  case (Cons e es)
  obtain u where u: "push W e t = Some u" "tree_ok W u" "tree_list u = tree_list t @ [e]" using push_ok [OF Cons.prems] by blast
  show ?case using Cons.IH [OF u(2)] u(1,3) by simp
qed simp

lemma tree_load_ok:
  "\<exists>t. tree_load W es d = Some t \<and> tree_ok W t \<and> tree_list t = (if es = [] then [d] else es)"
proof -
  have n: "tree_ok W None" "tree_list None = []" by (simp_all add: tree_ok_def tree_list_def)
  obtain t where t: "foldl (\<lambda>t e. Option.bind t (push W e)) (Some None) es = Some t" "tree_ok W t" "tree_list t = es"
    using push_all_ok [OF n(1), of es] by (auto simp: n(2))
  show ?thesis
  proof (cases "es = []")
    case True
    then show ?thesis using t push_ok [OF t(2), of d] tree_len_list [OF t(2)] by (simp add: tree_load_def)
  next
    case False
    then show ?thesis using t tree_len_list [OF t(2)] by (simp add: tree_load_def)
  qed
qed

end

end
