(* ===== verification/Slab_Weight.thy ===== *)
theory Slab_Weight
  imports Span_Search Span_Splice "HOL-Library.Word"
begin

text \<open>
  The weight of a slab (\<open>SlabWeight\<close> in \<open>slab.rs\<close>) with the aggregates of \<open>aggregate.rs\<close>: the number of
  items, the accumulated value, and the least and the greatest aggregate.  An \<open>Agg\<close> is an
  \<open>Option<NonZeroU32>\<close>; an \<open>Acc\<close> and a position are natural numbers here, so that the sums of one
  column, which stay below \<open>2 ^ 64\<close>, do not wrap.
\<close>

subsection \<open>Aggregates\<close>

type_synonym agg = "32 word option"

text \<open>\<open>Agg::from\<close> of a signed or an unsigned number: what is no positive \<open>u32\<close> is no aggregate.\<close>

definition agg_of :: "int \<Rightarrow> agg" where
  "agg_of v = (if 0 < v \<and> v < 2 ^ 32 then Some (word_of_int v) else None)"

definition agg_as_usize :: "agg \<Rightarrow> nat" where
  "agg_as_usize a = (case a of Some v \<Rightarrow> unat v | None \<Rightarrow> 0)"

text \<open>The orders of \<open>partial_cmp\<close>: a number and \<open>None\<close> do not compare.\<close>

fun agg_less :: "agg \<Rightarrow> agg \<Rightarrow> bool" where
  "agg_less (Some a) (Some b) = (a < b)"
| "agg_less _ _ = False"

fun agg_le :: "agg \<Rightarrow> agg \<Rightarrow> bool" where
  "agg_le None None = True"
| "agg_le (Some a) (Some b) = (a \<le> b)"
| "agg_le _ _ = False"

fun maximize :: "agg \<Rightarrow> agg \<Rightarrow> agg" where
  "maximize None b = b"
| "maximize (Some a) (Some b) = (if b > a then Some b else Some a)"
| "maximize (Some a) None = Some a"

fun minimize :: "agg \<Rightarrow> agg \<Rightarrow> agg" where
  "minimize None b = b"
| "minimize (Some a) (Some b) = (if b < a then Some b else Some a)"
| "minimize (Some a) None = Some a"

lemma maximize_ac: "maximize (maximize a b) c = maximize a (maximize b c)" "maximize a b = maximize b a"
  by (cases a; cases b; cases c; auto) (cases a; cases b; auto)

lemma minimize_ac: "minimize (minimize a b) c = minimize a (minimize b c)" "minimize a b = minimize b a"
  by (cases a; cases b; cases c; auto) (cases a; cases b; auto)

lemma maximize_greater: "agg_less b (maximize b r) \<Longrightarrow> maximize b r = r"
  by (cases b; cases r) (auto split: if_splits)

lemma minimize_less: "agg_less (minimize b r) b \<Longrightarrow> minimize b r = r"
  by (cases b; cases r) (auto split: if_splits)

lemma agg_le_max: "a \<noteq> None \<Longrightarrow> agg_le a b \<or> agg_le a c \<Longrightarrow> agg_le a (maximize b c)"
  by (cases a; cases b; cases c) auto

lemma agg_min_le: "a \<noteq> None \<Longrightarrow> agg_le b a \<or> agg_le c a \<Longrightarrow> agg_le (minimize b c) a"
  by (cases a; cases b; cases c) auto

subsection \<open>Slabs and their weights\<close>

record slab =
  slab_data :: "8 word list"
  slab_len :: nat
  slab_acc :: nat
  slab_min :: agg
  slab_max :: agg
  slab_abs :: int

definition new_slab :: "8 word list \<Rightarrow> nat \<Rightarrow> nat \<Rightarrow> int \<Rightarrow> slab" where
  "new_slab data len acc absolute =
     \<lparr>slab_data = data, slab_len = len, slab_acc = acc, slab_min = None, slab_max = None, slab_abs = absolute\<rparr>"

definition set_min_max :: "agg \<Rightarrow> agg \<Rightarrow> slab \<Rightarrow> slab" where
  "set_min_max new_min new_max s = s\<lparr>slab_min := new_min, slab_max := new_max\<rparr>"

record slab_weight =
  sw_pos :: nat
  sw_acc :: nat
  sw_min :: agg
  sw_max :: agg

definition sw_alloc :: "slab \<Rightarrow> slab_weight" where
  "sw_alloc s = \<lparr>sw_pos = slab_len s, sw_acc = slab_acc s, sw_min = slab_min s, sw_max = slab_max s\<rparr>"

definition sw_and :: "slab_weight \<Rightarrow> slab_weight \<Rightarrow> slab_weight" where
  "sw_and a b = \<lparr>sw_pos = sw_pos a + sw_pos b, sw_acc = sw_acc a + sw_acc b,
     sw_min = minimize (sw_min a) (sw_min b), sw_max = maximize (sw_max a) (sw_max b)\<rparr>"

definition sw_union :: "slab_weight \<Rightarrow> slab_weight \<Rightarrow> slab_weight" where
  "sw_union a b = a\<lparr>sw_pos := sw_pos a + sw_pos b, sw_acc := sw_acc a + sw_acc b,
     sw_max := maximize (sw_max a) (sw_max b), sw_min := minimize (sw_min a) (sw_min b)\<rparr>"

definition sw_maybe_sub :: "slab_weight \<Rightarrow> slab_weight \<Rightarrow> slab_weight option" where
  "sw_maybe_sub a b =
     (let max_ok = sw_max b = None \<or> agg_less (sw_max b) (sw_max a);
          min_ok = sw_min b = None \<or> sw_min a \<noteq> None \<and> agg_less (sw_min a) (sw_min b) in
      if max_ok \<and> min_ok then Some (a\<lparr>sw_pos := sw_pos a - sw_pos b, sw_acc := sw_acc a - sw_acc b\<rparr>)
      else None)"

definition slab_ops :: "(slab, slab_weight) weight_ops" where
  "slab_ops = \<lparr>wt_alloc = sw_alloc, wt_default = \<lparr>sw_pos = 0, sw_acc = 0, sw_min = None, sw_max = None\<rparr>,
     wt_and = sw_and, wt_union = sw_union, wt_maybe_sub = sw_maybe_sub\<rparr>"

lemma slab_ops_sel [simp]: "wt_alloc slab_ops = sw_alloc"
  "wt_default slab_ops = \<lparr>sw_pos = 0, sw_acc = 0, sw_min = None, sw_max = None\<rparr>"
  "wt_and slab_ops = sw_and" "wt_union slab_ops = sw_union" "wt_maybe_sub slab_ops = sw_maybe_sub"
  by (simp_all add: slab_ops_def)

lemma sw_sub_and: "sw_maybe_sub (sw_and b r) b = Some c \<Longrightarrow> c = r"
  using maximize_greater [of "sw_max b" "sw_max r"] minimize_less [of "sw_min b" "sw_min r"]
  by (auto simp: sw_maybe_sub_def sw_and_def Let_def split: if_splits)

lemma sw_and_assoc: "sw_and (sw_and a b) c = sw_and a (sw_and b c)"
  by (simp add: sw_and_def maximize_ac(1) minimize_ac(1))

lemma sw_and_commute: "sw_and a b = sw_and b a"
  unfolding sw_and_def using maximize_ac(2) [of "sw_max a" "sw_max b"] minimize_ac(2) [of "sw_min a" "sw_min b"] by simp

lemma sw_union_and: "sw_union a b = sw_and a b"
  by (simp add: sw_union_def sw_and_def)

interpretation slab: span_weight slab_ops
proof (unfold_locales, unfold slab_ops_sel)
  show "sw_and \<lparr>sw_pos = 0, sw_acc = 0, sw_min = None, sw_max = None\<rparr> a = a" for a by (simp add: sw_and_def)
qed (rule sw_and_assoc, rule sw_and_commute, rule sw_union_and, erule sw_sub_and)

text \<open>A tree without weights (\<open>SpanWeight\<close> for the unit type).\<close>

definition unit_ops :: "('e, unit) weight_ops" where
  "unit_ops = \<lparr>wt_alloc = (\<lambda>_. ()), wt_default = (), wt_and = (\<lambda>_ _. ()), wt_union = (\<lambda>_ _. ()),
     wt_maybe_sub = (\<lambda>_ _. Some ())\<rparr>"

interpretation unit: span_weight unit_ops
  by unfold_locales simp_all

end
