(* ===== verification/Slab_Tree.thy ===== *)
theory Slab_Tree
  imports Slab_Weight
begin

text \<open>
  The tree of slabs of a column (\<open>SlabTree<SlabWeight>\<close>): what its operations promise of the sequence of
  slabs, what its searches by position, by accumulated value and by aggregate find, and \<open>normalize_range\<close>
  of \<open>columndata.rs\<close>.
\<close>

subsection \<open>Searches by an additive part of the weight\<close>

locale span_measure = span_weight W for W :: "('e, 'w) weight_ops" +
  fixes m :: "'w \<Rightarrow> nat"
  assumes m_and: "m (wt_and W a b) = m a + m b" and m_default: "m (wt_default W) = 0"
begin

lemma m_wsum: "m (wsum W xs) = sum_list (map (\<lambda>x. m (wt_alloc W x)) xs)"
  by (induction xs) (simp_all add: wsum_simps m_and m_default)

text \<open>The predicate of \<open>get_where_or_last\<close> in \<open>columndata.rs\<close>.\<close>

definition before :: "nat \<Rightarrow> 'w \<Rightarrow> 'w \<Rightarrow> bool" where
  "before p acc next \<longleftrightarrow> p < m acc + m next"

lemma before_prunes: "prunes W (before p)"
  unfolding prunes_def
proof (intro allI impI)
  fix i acc xs assume "hits W (before p) i acc xs \<noteq> []"
  then obtain j where j: "j < length xs" "before p (wt_and W acc (wsum W (take j xs))) (wt_alloc W (xs ! j))"
    using hits_found by blast
  have "m (wsum W xs) = m (wsum W (take j xs)) + m (wt_alloc W (xs ! j)) + m (wsum W (drop (Suc j) xs))"
    by (subst id_take_nth_drop [OF j(1)]) (simp add: wsum_append wsum_simps m_and)
  then show "before p acc (wsum W xs)" using j(2) by (simp add: before_def m_and)
qed

lemma prefix_step: "j < length xs \<Longrightarrow> m (wsum W (take (Suc j) xs)) = m (wsum W (take j xs)) + m (wt_alloc W (xs ! j))"
  by (simp add: take_Suc_conv_app_nth wsum_append wsum_simps m_and m_default)

lemma prefix_mono: "i \<le> j \<Longrightarrow> m (wsum W (take i xs)) \<le> m (wsum W (take j xs))"
proof -
  assume "i \<le> j"
  then have "take j xs = take i xs @ take (j - i) (drop i xs)" by (metis le_add_diff_inverse take_add)
  then show ?thesis by (simp add: wsum_append m_and)
qed

lemma prefix_reach: "p < m (wsum W xs) \<Longrightarrow> \<exists>k < length xs. m (wsum W (take k xs)) \<le> p \<and> p < m (wsum W (take (Suc k) xs))"
proof (induction xs rule: rev_induct)
  case (snoc x xs)
  show ?case
  proof (cases "p < m (wsum W xs)")
    case True
    from snoc.IH [OF True] obtain k where "k < length xs" "m (wsum W (take k xs)) \<le> p" "p < m (wsum W (take (Suc k) xs))" by blast
    then show ?thesis by (intro exI [of _ k]) simp
  next
    case False
    then show ?thesis using snoc.prems by (intro exI [of _ "length xs"]) simp
  qed
qed (simp add: wsum_simps m_default)

lemma get_where_or_last_ok:
  assumes t: "tree_ok W t" and ne: "tree_list t \<noteq> []"
  shows "\<exists>i < length (tree_list t). get_where_or_last W (before p) t = Some (cursor_at W i (tree_list t)) \<and>
    (if p < m (wsum W (tree_list t))
     then m (wsum W (take i (tree_list t))) \<le> p \<and> p < m (wsum W (take (Suc i) (tree_list t)))
     else i = length (tree_list t) - 1)"
proof (cases "p < m (wsum W (tree_list t))")
  case True
  let ?xs = "tree_list t"
  obtain k where k: "k < length ?xs" "m (wsum W (take k ?xs)) \<le> p" "p < m (wsum W (take (Suc k) ?xs))"
    using prefix_reach [OF True] by blast
  have yes: "before p (wt_and W (wt_default W) (wsum W (take k ?xs))) (wt_alloc W (?xs ! k))"
    using k(3) by (simp add: before_def and_default prefix_step [OF k(1)])
  have no: "\<not> before p (wt_and W (wt_default W) (wsum W (take j ?xs))) (wt_alloc W (?xs ! j))" if j: "j < k" for j
  proof -
    have "m (wsum W (take (Suc j) ?xs)) \<le> p" using prefix_mono [of "Suc j" k ?xs] j k(2) by simp
    then show ?thesis using j k(1) by (simp add: before_def and_default prefix_step)
  qed
  obtain cs where "hits W (before p) 0 (wt_default W) ?xs = cursor_at W k ?xs # cs"
    using hits_first [of k ?xs "before p" "wt_default W" 0] k(1) yes no by (auto simp: cursor_at_def and_default)
  then have "get_where_or_last W (before p) t = Some (cursor_at W k ?xs)"
    by (simp add: get_where_or_last_def get_where_ok [OF t before_prunes])
  then show ?thesis using True k by auto
next
  case False
  let ?xs = "tree_list t"
  have "\<not> before p (wt_and W (wt_default W) (wsum W (take j ?xs))) (wt_alloc W (?xs ! j))" if "j < length ?xs" for j
    using prefix_mono [of "Suc j" "length ?xs" ?xs] that False by (simp add: before_def and_default prefix_step)
  then have "hits W (before p) 0 (wt_default W) ?xs = []" by (intro hits_none) blast
  then have "get_where_or_last W (before p) t = Some (cursor_at W (length ?xs - 1) ?xs)"
    by (simp add: get_where_or_last_def get_where_ok [OF t before_prunes] get_last_cursor_ok [OF t ne])
  then show ?thesis using False ne by (intro exI [of _ "length ?xs - 1"]) simp
qed

end

interpretation slab_pos: span_measure slab_ops sw_pos
  by unfold_locales (simp_all add: sw_and_def)

interpretation slab_accum: span_measure slab_ops sw_acc
  by unfold_locales (simp_all add: sw_and_def)

subsection \<open>Searches by an aggregate\<close>

text \<open>The predicate of \<open>find_by_value\<close>.\<close>

definition holds_value :: "agg \<Rightarrow> slab_weight \<Rightarrow> slab_weight \<Rightarrow> bool" where
  "holds_value a acc s \<longleftrightarrow> a \<noteq> None \<and> agg_le (sw_min s) a \<and> agg_le a (sw_max s)"

lemma holds_value_and: "holds_value a b u \<or> holds_value a c v \<Longrightarrow> holds_value a d (sw_and u v)"
  by (auto simp: holds_value_def sw_and_def intro: agg_le_max agg_min_le)

lemma holds_value_prunes: "prunes slab_ops (holds_value a)"
  unfolding prunes_def
proof (intro allI)
  fix i acc xs
  show "hits slab_ops (holds_value a) i acc xs \<noteq> [] \<longrightarrow> holds_value a acc (wsum slab_ops xs)"
  proof (induction xs arbitrary: i acc)
    case (Cons x xs)
    have "holds_value a acc (sw_alloc x) \<or> holds_value a (sw_and acc (sw_alloc x)) (wsum slab_ops xs)"
      if "hits slab_ops (holds_value a) i acc (x # xs) \<noteq> []"
      using that Cons.IH [of "i + 1" "sw_and acc (sw_alloc x)"] by (auto split: if_splits)
    then show ?case using holds_value_and [of a acc "sw_alloc x" "sw_and acc (sw_alloc x)" "wsum slab_ops xs" acc]
      by (auto simp: slab.wsum_simps)
  qed simp
qed

text \<open>The slabs that \<open>find_by_value\<close> reads.\<close>

definition find_slabs :: "agg \<Rightarrow> (slab, slab_weight) span_tree \<Rightarrow> (slab, slab_weight) sub_cursor list" where
  "find_slabs a t = iter_collect slab_ops (holds_value a) (iter_where slab_ops (holds_value a) t)"

definition find_slab :: "nat \<Rightarrow> (slab, slab_weight) span_tree \<Rightarrow> (slab, slab_weight) sub_cursor option" where
  "find_slab index t = get_where_or_last slab_ops (\<lambda>acc next. index < sw_pos acc + sw_pos next) t"

definition find_slab_acc :: "nat \<Rightarrow> (slab, slab_weight) span_tree \<Rightarrow> (slab, slab_weight) sub_cursor option" where
  "find_slab_acc a t = get_where_or_last slab_ops (\<lambda>acc next. a < sw_acc acc + sw_acc next) t"

lemma hits_map: "map sc_element (hits slab_ops (holds_value a) i acc xs) = filter (\<lambda>s. holds_value a acc0 (sw_alloc s)) xs"
  by (induction xs arbitrary: i acc) (simp_all add: holds_value_def)

subsection \<open>Ranges\<close>

text \<open>A bound of a range and the pair that \<open>normalize_range\<close> makes of two; \<open>None\<close> is an underflow or overflow.\<close>

datatype bound = Unbounded | Included nat | Excluded nat

definition normalize_range :: "bound \<Rightarrow> bound \<Rightarrow> (nat \<times> nat) option" where
  "normalize_range start_bound end_bound =
     Option.bind (case start_bound of Unbounded \<Rightarrow> Some 0 | Included n \<Rightarrow> Some n
         | Excluded n \<Rightarrow> if n = 0 then None else Some (n - 1)) (\<lambda>start.
     Option.bind (case end_bound of Unbounded \<Rightarrow> Some (2 ^ 64 - 1) | Excluded n \<Rightarrow> Some n
         | Included n \<Rightarrow> if n + 1 < 2 ^ 64 then Some (n + 1) else None) (\<lambda>stop.
     Some (start, stop)))"

text \<open>The indices that the two bounds admit.\<close>

definition in_bounds :: "bound \<Rightarrow> bound \<Rightarrow> nat \<Rightarrow> bool" where
  "in_bounds start_bound end_bound i \<longleftrightarrow>
     (case start_bound of Unbounded \<Rightarrow> True | Included n \<Rightarrow> n \<le> i | Excluded n \<Rightarrow> n < i) \<and>
     (case end_bound of Unbounded \<Rightarrow> True | Included n \<Rightarrow> i \<le> n | Excluded n \<Rightarrow> i < n)"

lemma normalize_range_start:
  assumes "normalize_range a b = Some (start, stop)"
  shows "(case a of Unbounded \<Rightarrow> start = 0 | Included n \<Rightarrow> start = n | Excluded n \<Rightarrow> n = start + 1)"
    "(case b of Unbounded \<Rightarrow> stop = 2 ^ 64 - 1 | Included n \<Rightarrow> stop = n + 1 | Excluded n \<Rightarrow> stop = n)"
  using assms by (auto simp: normalize_range_def split: bound.splits if_splits bind_splits)

subsection \<open>The properties of the tree of slabs\<close>

text \<open>Trees for examples: one leaf, with slabs of the given lengths.\<close>

definition sample_slab :: "nat \<Rightarrow> slab" where
  "sample_slab n = new_slab [] n n 0"

definition sample_tree :: "nat list \<Rightarrow> (slab, slab_weight) span_tree" where
  "sample_tree ns = Some (TreeNode (map sample_slab ns) [] (length ns) (wsum slab_ops (map sample_slab ns)))"

lemma sample_list [simp]: "tree_list (sample_tree ns) = map sample_slab ns"
  by (simp add: sample_tree_def tree_list_def)

lemma sample_ok: "ns \<noteq> [] \<Longrightarrow> length ns \<le> 31 \<Longrightarrow> tree_ok slab_ops (sample_tree ns)"
  by (auto simp: sample_tree_def tree_ok_def meta_ok_def b_factor_def intro!: exI [of _ 0])

text \<open>Inserting into a tree of slabs at an index up to its length does not panic, keeps the tree well
  formed (balanced, with node sizes, lengths and weights right) and inserts into the sequence of slabs as
  \<open>Vec::insert\<close> does.\<close>

theorem slab_insert_refines:
  assumes "tree_ok slab_ops t" and "index \<le> length (tree_list t)"
  shows "\<exists>t'. tree_insert slab_ops index s t = Some t' \<and> tree_ok slab_ops t' \<and> vec_insert index s (tree_list t) = Some (tree_list t')"
  by (rule slab.tree_insert_ok [OF assms])

theorem slab_insert_refines_witness:
  "\<exists>t'. tree_insert slab_ops 2 (sample_slab 7) (sample_tree (replicate 31 1)) = Some t' \<and> tree_ok slab_ops t' \<and>
     vec_insert 2 (sample_slab 7) (map sample_slab (replicate 31 1)) = Some (tree_list t')"
  using slab_insert_refines [of "sample_tree (replicate 31 1)" 2 "sample_slab 7"] by (simp add: sample_ok)

text \<open>Removing at an index below the length returns the slab at that index, keeps the tree well formed,
  through borrowing, merging and the shrinking of the root, and removes from the sequence as
  \<open>Vec::remove\<close> does.\<close>

theorem slab_remove_refines:
  assumes "tree_ok slab_ops t" and "index < length (tree_list t)"
  shows "\<exists>t'. tree_remove slab_ops index t = Some (tree_list t ! index, t') \<and> tree_ok slab_ops t'
    \<and> vec_remove index (tree_list t) = Some (tree_list t')"
  by (rule slab.tree_remove_ok [OF assms])

theorem slab_remove_refines_witness:
  "\<exists>t'. tree_remove slab_ops 1 (sample_tree [1, 2, 3]) = Some (sample_slab 2, t') \<and> tree_list t' = [sample_slab 1, sample_slab 3]"
  using slab_remove_refines [of "sample_tree [1, 2, 3]" 1] by (auto simp: sample_ok vec_remove_def)

text \<open>The operations on a tree and on a \<open>Vec\<close> of slabs; \<open>None\<close> is a panic.\<close>

datatype slab_op = Insert_At nat slab | Remove_At nat | Replace_At nat slab | Splice_At nat nat "slab list"

fun tree_step :: "slab_op \<Rightarrow> (slab, slab_weight) span_tree \<Rightarrow> (slab, slab_weight) span_tree option" where
  "tree_step (Insert_At i s) t = tree_insert slab_ops i s t"
| "tree_step (Remove_At i) t = map_option snd (tree_remove slab_ops i t)"
| "tree_step (Replace_At i s) t = map_option snd (tree_replace slab_ops i s t)"
| "tree_step (Splice_At start stop values) t = tree_splice slab_ops start stop values t"

fun vec_step :: "slab_op \<Rightarrow> slab list \<Rightarrow> slab list option" where
  "vec_step (Insert_At i s) xs = vec_insert i s xs"
| "vec_step (Remove_At i) xs = vec_remove i xs"
| "vec_step (Replace_At i s) xs = (if i < length xs then Some (xs[i := s]) else None)"
| "vec_step (Splice_At start stop values) xs =
     (if start \<le> min stop (length xs) then Some (list_splice start stop values xs) else None)"

definition run_ops :: "('o \<Rightarrow> 'a \<Rightarrow> 'a option) \<Rightarrow> 'o list \<Rightarrow> 'a \<Rightarrow> 'a option" where
  "run_ops step ops x = foldl (\<lambda>r op. Option.bind r (step op)) (Some x) ops"

lemma run_ops_simps [simp]: "run_ops step [] x = Some x"
  "run_ops step (op # ops) x = Option.bind (step op x) (run_ops step ops)"
proof -
  have "foldl (\<lambda>r op. Option.bind r (step op)) None ops = None" for ops by (induction ops) simp_all
  then show "run_ops step (op # ops) x = Option.bind (step op x) (run_ops step ops)"
    by (cases "step op x") (simp_all add: run_ops_def)
qed (simp add: run_ops_def)

lemma tree_step_ok:
  assumes "tree_ok slab_ops t" and "vec_step op (tree_list t) = Some ys"
  shows "\<exists>t'. tree_step op t = Some t' \<and> tree_ok slab_ops t' \<and> tree_list t' = ys"
proof (cases op)
  case (Insert_At i s)
  then show ?thesis using slab.tree_insert_ok [OF assms(1), of i s] assms(2) by (auto simp: vec_insert_def split: if_splits)
next
  case (Remove_At i)
  then show ?thesis using slab.tree_remove_ok [OF assms(1), of i] assms(2) by (auto simp: vec_remove_def split: if_splits)
next
  case (Replace_At i s)
  then show ?thesis using slab.tree_replace_ok [OF assms(1), of i s] assms(2) by (auto split: if_splits)
next
  case (Splice_At start stop vs)
  then have r: "start \<le> min stop (length (tree_list t))" "ys = list_splice start stop vs (tree_list t)"
    using assms(2) by (simp_all split: if_splits)
  then show ?thesis using slab.tree_splice_ok [OF assms(1) r(1), of vs] by (simp add: Splice_At)
qed

text \<open>C24: A tree of slabs simulates a \<open>Vec\<close> of slabs: a sequence of insertions, removals, replacements and
  splices that a \<open>Vec\<close> takes without a panic runs on the tree without a panic, and then the tree is well
  formed (balanced, with the sizes, lengths and weights of all nodes right) and holds the sequence that
  the \<open>Vec\<close> holds.\<close>

theorem slab_tree_simulates:
  assumes "tree_ok slab_ops t" and "run_ops vec_step ops (tree_list t) = Some ys"
  shows "\<exists>t'. run_ops tree_step ops t = Some t' \<and> tree_ok slab_ops t' \<and> tree_list t' = ys"
  using assms
proof (induction ops arbitrary: t)
  case (Cons op ops)
  obtain zs where z: "vec_step op (tree_list t) = Some zs" "run_ops vec_step ops zs = Some ys"
    using Cons.prems(2) by (auto split: bind_splits)
  then obtain u where u: "tree_step op t = Some u" "tree_ok slab_ops u" "tree_list u = zs"
    using tree_step_ok [OF Cons.prems(1)] by blast
  show ?case using Cons.IH [OF u(2)] z(2) u by simp
qed simp

theorem slab_tree_simulates_witness:
  "\<exists>t'. run_ops tree_step [Insert_At 2 (sample_slab 7), Remove_At 0, Replace_At 1 (sample_slab 9)] (sample_tree [1, 2, 3]) = Some t'
     \<and> tree_list t' = map sample_slab [2, 9, 3]"
proof -
  have ok: "tree_ok slab_ops (sample_tree [1, 2, 3])" by (rule sample_ok) simp_all
  have "run_ops vec_step [Insert_At 2 (sample_slab 7), Remove_At 0, Replace_At 1 (sample_slab 9)] (tree_list (sample_tree [1, 2, 3]))
    = Some (map sample_slab [2, 9, 3])" by (simp add: vec_insert_def vec_remove_def numeral_2_eq_2)
  from slab_tree_simulates [OF ok this] show ?thesis by blast
qed

lemma node_height: "node_ok W h t \<Longrightarrow> height t = h"
proof (induction h arbitrary: t)
  case 0
  then show ?case by (cases t) simp
next
  case (Suc h)
  obtain es cs n w where t: "t = TreeNode es cs n w" by (cases t)
  have "\<forall>c \<in> set cs. height c = h" "cs \<noteq> []" using Suc by (auto simp: t)
  then have "foldr max (map height cs) 0 \<le> h" "h \<le> foldr max (map height cs) 0"
    using foldr_max_bound [of "map height cs" h] foldr_max_le [of h "map height cs"] by (cases cs; auto)+
  then show ?case using \<open>cs \<noteq> []\<close> by (simp add: t)
qed

lemma sum_list_bound: "\<forall>x \<in> set xs. k \<le> f x \<Longrightarrow> length xs * k \<le> (\<Sum>x \<leftarrow> xs. f x :: nat)"
  by (induction xs) (auto intro: add_mono)

lemma node_count: "node_ok W h t \<Longrightarrow> k \<le> length (tn_elements t) \<Longrightarrow> (k + 1) * b_factor ^ h \<le> length (tn_list t) + 1"
proof (induction h arbitrary: t k)
  case 0
  then show ?case using node_ok_len [OF 0(1)] by (simp add: tn_list_eq [of t])
next
  case (Suc h)
  obtain es cs n w where t: "t = TreeNode es cs n w" by (cases t)
  have len: "length cs = length es + 1" and c: "\<forall>c \<in> set cs. node_ok W h c \<and> b_factor - 1 \<le> length (tn_elements c)"
    using Suc.prems(1) by (simp_all add: t)
  have each: "b_factor ^ Suc h \<le> length (tn_list c) + 1" if "c \<in> set cs" for c
    using Suc.IH [of c "b_factor - 1"] c that by (simp add: b_factor_def)
  have "length cs * b_factor ^ Suc h \<le> sum_list (map (\<lambda>c. length (tn_list c) + 1) cs)" using each
    by (intro sum_list_bound) blast
  also have "\<dots> = length (tn_list t) + 1"
  proof -
    have "length (inord ls es) + 1 = sum_list (map (\<lambda>l. length l + 1) ls)" if "length ls = length es + 1" for ls :: "'a list list"
      using that
    proof (induction ls es rule: inord.induct)
      case (3 l ls e es)
      then show ?case by simp
    qed auto
    from this [of "map tn_list cs"] show ?thesis using len by (simp add: t comp_def)
  qed
  finally have "length cs * b_factor ^ Suc h \<le> length (tn_list t) + 1" .
  moreover have "(k + 1) * b_factor ^ Suc h \<le> length cs * b_factor ^ Suc h" using Suc.prems(2) len by (intro mult_right_mono) (simp_all add: t)
  ultimately show ?case by linarith
qed



text \<open>Splicing values over a range of a tree, by replacements first and removals or insertions after,
  returns exactly when the start of the range is not behind its end cut to the length, and then the sequence
  is the one that \<open>Vec::splice\<close> yields and the tree is well formed.\<close>

theorem slab_splice_refines:
  assumes "tree_ok slab_ops t"
  shows "case tree_splice slab_ops start stop vs t of
      None \<Rightarrow> min stop (length (tree_list t)) < start
    | Some t' \<Rightarrow> start \<le> min stop (length (tree_list t)) \<and> tree_ok slab_ops t'
        \<and> tree_list t' = take start (tree_list t) @ vs @ drop (min stop (length (tree_list t))) (tree_list t)"
proof (cases "start \<le> min stop (length (tree_list t))")
  case True
  from slab.tree_splice_ok [OF assms this, of vs] True show ?thesis by (auto simp: list_splice_def)
next
  case False
  then have "min stop (length (tree_list t)) < start" by (simp only: not_le)
  then show ?thesis using slab.tree_splice_panics [OF assms, of stop start vs] by simp
qed

theorem slab_splice_refines_witness:
  "\<exists>t'. tree_splice slab_ops 1 2 [sample_slab 8, sample_slab 9] (sample_tree [1, 2, 3]) = Some t'
     \<and> tree_list t' = map sample_slab [1, 8, 9, 3]"
proof -
  have ok: "tree_ok slab_ops (sample_tree [1, 2, 3])" by (rule sample_ok) simp_all
  show ?thesis using slab_splice_refines [OF ok, where start = 1 and stop = 2 and vs = "[sample_slab 8, sample_slab 9]"] by (simp split: option.splits)
qed

text \<open>A tree loaded from slabs holds them in their order, and the default slab when there are none; the
  loading does not panic and the tree is well formed.\<close>

theorem slab_load_list:
  "\<exists>t. tree_load slab_ops slabs d = Some t \<and> tree_ok slab_ops t \<and> tree_list t = (if slabs = [] then [d] else slabs)"
  by (rule slab.tree_load_ok)

text \<open>The lookups agree with the sequence: \<open>get\<close> is indexing, with \<open>None\<close> beyond the end, and
  \<open>get_cursor\<close> finds the slab with its index and the sum of the weights before it.\<close>

theorem slab_lookup:
  assumes "tree_ok slab_ops t" and "index < length (tree_list t)"
  shows "tree_get index t = Some (tree_list t ! index) \<and> tree_get (length (tree_list t) + k) t = None \<and>
    tree_get_cursor slab_ops index t = Some \<lparr>sc_index = index, sc_weight = wsum slab_ops (take index (tree_list t)),
      sc_element = tree_list t ! index\<rparr>"
  using tree_get_ok [OF assms(1)] slab.tree_get_cursor_ok [OF assms] assms(2) by (simp add: vec_at_def cursor_at_def)

theorem slab_lookup_witness: "tree_get 1 (sample_tree [4, 5, 6]) = Some (sample_slab 5)"
  using slab_lookup [of "sample_tree [4, 5, 6]" 1] by (simp add: sample_ok)

text \<open>C27: The search of a position in a column: the slab found is the one that holds the position, and the
  last one for a position behind the end, with the sum of the weights before it.\<close>

theorem find_slab_position:
  assumes "tree_ok slab_ops t" and "tree_list t \<noteq> []"
  shows "\<exists>i < length (tree_list t). find_slab p t = Some (cursor_at slab_ops i (tree_list t)) \<and>
    (if p < sum_list (map slab_len (tree_list t))
     then sum_list (map slab_len (take i (tree_list t))) \<le> p \<and> p < sum_list (map slab_len (take (Suc i) (tree_list t)))
     else i = length (tree_list t) - 1)"
proof -
  have f: "(\<lambda>acc next. p < sw_pos acc + sw_pos next) = slab_pos.before p" by (intro ext) (simp add: slab_pos.before_def)
  have s: "sw_pos (wsum slab_ops xs) = sum_list (map slab_len xs)" for xs by (simp add: slab_pos.m_wsum sw_alloc_def)
  show ?thesis unfolding find_slab_def f using slab_pos.get_where_or_last_ok [OF assms, of p] unfolding s .
qed

theorem find_slab_position_witness:
  "\<exists>i < 3. find_slab 5 (sample_tree [4, 5, 6]) = Some (cursor_at slab_ops i (map sample_slab [4, 5, 6])) \<and>
     sum_list (map slab_len (take i (map sample_slab [4, 5, 6]))) \<le> 5"
proof -
  have ok: "tree_ok slab_ops (sample_tree [4, 5, 6])" by (rule sample_ok) simp_all
  obtain i where "i < length (tree_list (sample_tree [4, 5, 6]))"
    "find_slab 5 (sample_tree [4, 5, 6]) = Some (cursor_at slab_ops i (tree_list (sample_tree [4, 5, 6])))"
    "sum_list (map slab_len (take i (tree_list (sample_tree [4, 5, 6])))) \<le> 5"
    using find_slab_position [OF ok, of 5] by (auto simp: sample_slab_def new_slab_def)
  then show ?thesis by (intro exI [of _ i]) (simp add: numeral_3_eq_3)
qed

lemma find_slab_acc_ok:
  assumes "tree_ok slab_ops t" and "tree_list t \<noteq> []"
  shows "\<exists>i < length (tree_list t). find_slab_acc a t = Some (cursor_at slab_ops i (tree_list t)) \<and>
    (if a < sum_list (map slab_acc (tree_list t))
     then sum_list (map slab_acc (take i (tree_list t))) \<le> a \<and> a < sum_list (map slab_acc (take (Suc i) (tree_list t)))
     else i = length (tree_list t) - 1)"
proof -
  have f: "(\<lambda>acc next. a < sw_acc acc + sw_acc next) = slab_accum.before a" by (intro ext) (simp add: slab_accum.before_def)
  have s: "sw_acc (wsum slab_ops xs) = sum_list (map slab_acc xs)" for xs by (simp add: slab_accum.m_wsum sw_alloc_def)
  show ?thesis unfolding find_slab_acc_def f using slab_accum.get_where_or_last_ok [OF assms, of a] unfolding s .
qed

text \<open>C28: The walk that \<open>find_by_value\<close> makes over the tree, which skips subtrees by their weights, stops at
  exactly the slabs whose least and greatest aggregates enclose the value, in their order, each with its
  index and the weight before it.\<close>

theorem find_by_value_slabs:
  assumes "tree_ok slab_ops t"
  shows "map sc_element (find_slabs a t)
      = filter (\<lambda>s. a \<noteq> None \<and> agg_le (slab_min s) a \<and> agg_le a (slab_max s)) (tree_list t) \<and>
    (\<forall>c \<in> set (find_slabs a t). sc_index c < length (tree_list t) \<and> c = cursor_at slab_ops (sc_index c) (tree_list t))"
proof -
  have e: "find_slabs a t = hits slab_ops (holds_value a) 0 (wt_default slab_ops) (tree_list t)"
    unfolding find_slabs_def by (rule slab.iter_where_ok [OF assms holds_value_prunes])
  show ?thesis unfolding e
    using hits_map [of a 0 "wt_default slab_ops" "tree_list t" undefined] slab.hits_cursor_at [of _ "holds_value a" "tree_list t"]
    by (auto simp: holds_value_def sw_alloc_def)
qed

theorem find_by_value_slabs_witness:
  "map sc_element (find_slabs (agg_of 3) (sample_tree [4, 5, 6])) = []"
  using find_by_value_slabs [of "sample_tree [4, 5, 6]" "agg_of 3"]
  by (simp add: sample_ok sample_slab_def new_slab_def agg_of_def)

text \<open>C38: An iterator made at a cursor has taken the cursor's element, and its next element is the one
  behind; \<open>peek\<close> does not return that element but the one after it, and nothing when the next element is
  the last.\<close>

theorem iter_peek_skips:
  assumes "tree_ok slab_ops t" and "i + 1 < length (tree_list t)"
  shows "map_option fst (span_iter_next slab_ops (span_iter_new slab_ops t (cursor_at slab_ops i (tree_list t)))) = Some (tree_list t ! (i + 1)) \<and>
    span_iter_peek (span_iter_new slab_ops t (cursor_at slab_ops i (tree_list t)))
      = (if i + 2 < length (tree_list t) then Some (tree_list t ! (i + 2)) else None)"
  using slab.span_iter_at [OF assms(1), of i] assms(2) by (simp add: vec_at_def)

theorem iter_peek_skips_witness:
  "span_iter_peek (span_iter_new slab_ops (sample_tree [4, 5, 6]) (cursor_at slab_ops 0 (map sample_slab [4, 5, 6]))) = Some (sample_slab 6)"
  using iter_peek_skips [of "sample_tree [4, 5, 6]" 0] by (simp add: sample_ok)

text \<open>\<open>normalize_range\<close> admits the indices that the two bounds admit, and for an excluded start \<open>n\<close> also
  \<open>n - 1\<close> and \<open>n\<close> itself.\<close>

theorem normalize_range_indices:
  assumes "normalize_range a b = Some (start, stop)" and "i < 2 ^ 64 - 1"
  shows "start \<le> i \<and> i < stop \<longleftrightarrow> in_bounds a b i \<or> (\<exists>n. a = Excluded n \<and> (i = n - 1 \<or> i = n) \<and> i < stop)"
  using normalize_range_start [OF assms(1)] assms(2)
  by (auto simp: in_bounds_def split: bound.splits)

theorem normalize_range_indices_witness:
  "normalize_range (Excluded 5) (Excluded 9) = Some (4, 9) \<and> \<not> in_bounds (Excluded 5) (Excluded 9) 5 \<and>
    ((4::nat) \<le> 5 \<and> 5 < (9::nat) \<longleftrightarrow> in_bounds (Excluded 5) (Excluded 9) 5 \<or> (\<exists>n. Excluded 5 = Excluded n \<and> (5 = n - 1 \<or> 5 = n) \<and> 5 < (9::nat)))"
proof -
  have n: "normalize_range (Excluded 5) (Excluded 9) = Some (4, 9)" by (simp add: normalize_range_def)
  show ?thesis using normalize_range_indices [OF n, of 5] n by (simp add: in_bounds_def)
qed

end
