(* ===== verification/Slab_Search.thy ===== *)
theory Slab_Search
  imports Slab_Tree Ex_Id
begin

text \<open>
  \<open>ColumnDataIter::binary_search_for\<close> of \<open>columndata.rs\<close>: the search for the slab at which to resume a
  column whose values are ordered.  The first value of a slab, which the type of the column determines,
  is a parameter; \<open>None\<close> as a value is the null of the column.
\<close>

definition cmp_option :: "'v::linorder option \<Rightarrow> 'v option \<Rightarrow> ordering" where
  "cmp_option a b = (case (a, b) of
     (Some a, Some b) \<Rightarrow> compare_ord a b
   | (None, None) \<Rightarrow> Equal
   | (None, Some _) \<Rightarrow> Less
   | (Some _, None) \<Rightarrow> Greater)"

definition halfway :: "nat \<Rightarrow> nat \<Rightarrow> nat" where
  "halfway a b = (a + b + 1) div 2"

text \<open>The loop, with \<open>mid\<close> the midpoint of \<open>start\<close> and \<open>stop\<close>; \<open>None\<close> when a slab is missing.\<close>

function search_loop :: "('a \<Rightarrow> 'v::linorder option) \<Rightarrow> ('a, 'w) span_tree \<Rightarrow> 'v option \<Rightarrow> nat \<Rightarrow> nat \<Rightarrow> nat option" where
  "search_loop first_value slabs target start stop =
     (let mid = halfway start stop in
      if start < mid \<and> mid < stop then Option.bind (tree_get mid slabs) (\<lambda>s.
        if cmp_option (first_value s) target = Less then search_loop first_value slabs target mid stop
        else search_loop first_value slabs target start mid)
      else Some start)"
  by pat_completeness auto
termination by (relation "measure (\<lambda>(f, t, x, start, stop). stop - start)") (auto simp: Let_def)

declare search_loop.simps [simp del]

text \<open>The result, \<open>None\<close> for a panic: the index of the current slab underflows, or the tree is empty.\<close>

definition binary_search_for ::
  "(slab \<Rightarrow> 'v::linorder option) \<Rightarrow> (slab, slab_weight) span_iter \<Rightarrow> 'v option \<Rightarrow> nat \<Rightarrow> nat option option" where
  "binary_search_for first_value slabs target max_pos =
     (if si_index slabs = 0 then None
      else let original_start = si_index slabs - 1 in
        case span_iter_peek slabs of
          None \<Rightarrow> Some None
        | Some next_slab \<Rightarrow>
            if cmp_option (first_value next_slab) target = Greater then Some None
            else case si_inner slabs of
              None \<Rightarrow> Some None
            | Some t \<Rightarrow> map_option (\<lambda>c. Option.bind (search_loop first_value t target original_start (sc_index c)) (\<lambda>start.
                if start \<noteq> original_start then Some start else None)) (find_slab max_pos t))"

lemma halfway_bounds: "a < halfway a b \<longleftrightarrow> a < b" "halfway a b < b \<longleftrightarrow> a + 1 < b" "\<not> (a < b) \<Longrightarrow> \<not> a < halfway a b"
  by (auto simp: halfway_def)

lemma cmp_option_trans: "cmp_option a b \<noteq> Greater \<Longrightarrow> cmp_option b c = Less \<Longrightarrow> cmp_option a c = Less"
  by (auto simp: cmp_option_def compare_ord_def split: option.splits if_splits)

lemma cmp_option_trans_less: "cmp_option a c = Less \<Longrightarrow> cmp_option b c \<noteq> Less \<Longrightarrow> cmp_option b a \<noteq> Less"
  by (auto simp: cmp_option_def compare_ord_def split: option.splits if_splits)

text \<open>What the loop returns: the last slab below \<open>stop\<close> whose first value is less than the target.\<close>

lemma search_loop_ok:
  assumes "tree_ok W t" and "stop \<le> length (tree_list t)"
    and sorted: "\<forall>i j. start < i \<longrightarrow> i \<le> j \<longrightarrow> j < stop \<longrightarrow>
      cmp_option (first_value (tree_list t ! i)) (first_value (tree_list t ! j)) \<noteq> Greater"
  shows "\<exists>s. search_loop first_value t target start stop = Some s \<and> start \<le> s \<and> (s = start \<or> s < stop) \<and>
    (\<forall>j. start < j \<longrightarrow> j < stop \<longrightarrow> (cmp_option (first_value (tree_list t ! j)) target = Less \<longleftrightarrow> j \<le> s))"
  using assms(2) sorted
proof (induction "stop - start" arbitrary: start stop rule: less_induct)
  case less
  let ?xs = "tree_list t" and ?mid = "halfway start stop"
  show ?case
  proof (cases "start < ?mid \<and> ?mid < stop")
    case False
    then have "\<not> (start < j \<and> j < stop)" for j by (auto simp: halfway_bounds)
    moreover have "search_loop first_value t target start stop = Some start"
      using False by (subst search_loop.simps) (auto simp: Let_def)
    ultimately show ?thesis by auto
  next
    case True
    have m: "stop - ?mid < stop - start" "?mid - start < stop - start" "?mid \<le> length ?xs" using conjunct1 [OF True] conjunct2 [OF True] less.prems(1) by linarith+
    have up: "\<forall>i j. ?mid < i \<longrightarrow> i \<le> j \<longrightarrow> j < stop \<longrightarrow> cmp_option (first_value (?xs ! i)) (first_value (?xs ! j)) \<noteq> Greater"
      and down: "\<forall>i j. start < i \<longrightarrow> i \<le> j \<longrightarrow> j < ?mid \<longrightarrow> cmp_option (first_value (?xs ! i)) (first_value (?xs ! j)) \<noteq> Greater"
      using less.prems(2) conjunct1 [OF True] conjunct2 [OF True] by (auto dest: order_less_trans)
    have get: "tree_get ?mid t = Some (?xs ! ?mid)" using tree_get_ok [OF assms(1)] True less.prems(1) by (simp add: vec_at_def)
    show ?thesis
    proof (cases "cmp_option (first_value (?xs ! ?mid)) target = Less")
      case lt: True
      have "search_loop first_value t target start stop = search_loop first_value t target ?mid stop"
        using True get lt by (subst search_loop.simps) (simp add: Let_def)
      moreover obtain s where s: "search_loop first_value t target ?mid stop = Some s" "?mid \<le> s" "s = ?mid \<or> s < stop"
        "\<forall>j. ?mid < j \<longrightarrow> j < stop \<longrightarrow> (cmp_option (first_value (?xs ! j)) target = Less \<longleftrightarrow> j \<le> s)"
        using less.hyps [OF m(1) less.prems(1) up] by blast
      moreover have low: "cmp_option (first_value (?xs ! j)) target = Less" if "start < j" "j \<le> ?mid" for j
        using cmp_option_trans [OF _ lt, of "first_value (?xs ! j)"] less.prems(2) that True by blast
      moreover have "cmp_option (first_value (?xs ! j)) target = Less \<longleftrightarrow> j \<le> s" if "start < j" "j < stop" for j
        using low [OF that(1)] s(2,4) that(2) by (cases "j \<le> ?mid") auto
      moreover have "start \<le> s" "s = start \<or> s < stop" using s(2,3) conjunct1 [OF True] conjunct2 [OF True] by auto
      ultimately show ?thesis by auto
    next
      case ge: False
      have "search_loop first_value t target start stop = search_loop first_value t target start ?mid"
        using True get ge by (subst search_loop.simps) (simp add: Let_def)
      moreover obtain s where s: "search_loop first_value t target start ?mid = Some s" "start \<le> s" "s = start \<or> s < ?mid"
        "\<forall>j. start < j \<longrightarrow> j < ?mid \<longrightarrow> (cmp_option (first_value (?xs ! j)) target = Less \<longleftrightarrow> j \<le> s)"
        using less.hyps [OF m(2,3) down] by blast
      moreover have high: "cmp_option (first_value (?xs ! j)) target \<noteq> Less" if "?mid \<le> j" "j < stop" for j
        using cmp_option_trans [of "first_value (?xs ! ?mid)" "first_value (?xs ! j)" target] less.prems(2) that True ge by blast
      moreover have "cmp_option (first_value (?xs ! j)) target = Less \<longleftrightarrow> j \<le> s" if "start < j" "j < stop" for j
        using high [OF _ that(2)] s(3,4) that(1) conjunct1 [OF True] by (cases "?mid \<le> j") auto
      moreover have "s = start \<or> s < stop" using s(3) conjunct2 [OF True] by auto
      ultimately show ?thesis using s(2) by auto
    qed
  qed
qed

text \<open>C31: The search for the slab at which to resume does not panic while an iterator is on a slab, and when
  the first values of the slabs are ordered and it names a slab, then that slab is behind the current one, is
  not behind the slab of the last position, and is the last before that one whose first value is less than
  the target: no slab passed over can hold the target.\<close>

theorem binary_search_for_slab:
  assumes "tree_ok slab_ops t" and "i < length (tree_list t)"
    and "\<forall>a b. a \<le> b \<longrightarrow> b < length (tree_list t) \<longrightarrow> cmp_option (first_value (tree_list t ! a)) (first_value (tree_list t ! b)) \<noteq> Greater"
  shows "case binary_search_for first_value (span_iter_new slab_ops t (cursor_at slab_ops i (tree_list t))) target max_pos of
      None \<Rightarrow> False
    | Some None \<Rightarrow> True
    | Some (Some s) \<Rightarrow> i < s \<and> (\<exists>e. map_option sc_index (find_slab max_pos t) = Some e \<and> s < e \<and>
        (\<forall>j. i < j \<longrightarrow> j < e \<longrightarrow> (cmp_option (first_value (tree_list t ! j)) target = Less \<longleftrightarrow> j \<le> s)))"
proof -
  have "tree_list t \<noteq> []" using assms(2) by auto
  then obtain c where c: "find_slab max_pos t = Some c" "sc_index c < length (tree_list t)"
    using slab_pos.get_where_or_last_ok [OF assms(1), of max_pos]
    by (auto simp: find_slab_def slab_pos.before_def [abs_def] cursor_at_def)
  obtain s where s: "search_loop first_value t target i (sc_index c) = Some s" "i \<le> s" "s = i \<or> s < sc_index c"
    "\<forall>j. i < j \<longrightarrow> j < sc_index c \<longrightarrow> (cmp_option (first_value (tree_list t ! j)) target = Less \<longleftrightarrow> j \<le> s)"
    using search_loop_ok [OF assms(1), of "sc_index c" i first_value target] c(2) assms(3) by auto
  have i: "si_index (span_iter_new slab_ops t (cursor_at slab_ops i (tree_list t))) = i + 1"
    "si_inner (span_iter_new slab_ops t (cursor_at slab_ops i (tree_list t))) = Some t"
    by (simp_all add: span_iter_new_def cursor_at_def)
  show ?thesis using s by (auto simp: binary_search_for_def i Let_def c(1) split: option.splits)
qed

theorem binary_search_for_slab_witness:
  "\<exists>r. binary_search_for (\<lambda>s. Some (slab_len s)) (span_iter_new slab_ops (sample_tree [1, 2, 3, 4, 5]) (cursor_at slab_ops 0 (map sample_slab [1, 2, 3, 4, 5]))) (Some 4) 100 = Some r"
proof -
  have ok: "tree_ok slab_ops (sample_tree [1, 2, 3, 4, 5])" by (rule sample_ok) simp_all
  have len: "slab_len (sample_slab n) = n" for n by (simp add: sample_slab_def new_slab_def)
  have l: "slab_len (map sample_slab [1, 2, 3, 4, 5] ! a) = [1, 2, 3, 4, 5] ! a" if "a < 5" for a
    using that by (subst nth_map) (simp_all add: len)
  have "cmp_option (Some (slab_len (map sample_slab [1, 2, 3, 4, 5] ! a))) (Some (slab_len (map sample_slab [1, 2, 3, 4, 5] ! b))) \<noteq> Greater"
    if "a \<le> b" "b < 5" for a b
    unfolding l [OF le_less_trans [OF that]] l [OF that(2)]
    using that sorted_nth_mono [of "[1::nat, 2, 3, 4, 5]" a b] by (simp add: cmp_option_def compare_ord_def)
  then show ?thesis using binary_search_for_slab [OF ok, where i = 0 and first_value = "\<lambda>s. Some (slab_len s)" and target = "Some 4" and max_pos = 100]
    by (auto split: option.splits)
qed

end
