(* ===== verification/Delta_Search.thy ===== *)
theory Delta_Search
  imports Slab_Tree "HOL-Library.Signed_Division"
begin

text \<open>
  The search inside a run of a delta column (\<open>delta.rs\<close>), the check that the two ways to do it agree
  (\<open>ColumnCursor::contains\<close> in \<open>cursor.rs\<close>), and the aggregates that a scan of a slab keeps.  A run is
  its value and its count; the numbers, which the code has as \<open>i64\<close>, are integers, and the additions that
  the code saturates are saturated.
\<close>

subsection \<open>The elements of a run\<close>

text \<open>\<open>_contains_range\<close>: the indices of an arithmetic progression whose elements lie in a range.\<close>

function contains_range_of :: "int \<Rightarrow> int \<Rightarrow> int \<Rightarrow> int \<times> int \<Rightarrow> int \<times> int" where
  "contains_range_of start step count (valid_start, valid_end) =
     (if count = 0 \<or> \<not> valid_start < valid_end then (0, 0)
      else if step < 0 then contains_range_of (- start) (- step) count (- (valid_end - 1), - (valid_start - 1))
      else let stop = start + step * (count - 1) in
        if (valid_start \<le> start \<and> start < valid_end) \<and> (valid_start \<le> stop \<and> stop < valid_end) then (0, count)
        else if valid_end \<le> start \<or> valid_start > stop \<or> step = 0 then (0, 0)
        else let a = (valid_start - start + (step - 1)) sdiv step; b = (valid_end - start - 1) sdiv step + 1 in
          if a \<ge> b then (0, 0) else (max a 0, min b count))"
  by pat_completeness auto
termination by (relation "measure (\<lambda>(start, step, count, valid). nat (- step))") auto

declare contains_range_of.simps [simp del]

text \<open>The methods of the cursor, for a run that it has just read: \<open>absolute\<close> is the last element of the run.\<close>

definition contains_agg :: "int \<Rightarrow> int option \<times> nat \<Rightarrow> agg \<Rightarrow> (nat \<times> nat) option" where
  "contains_agg absolute run target = (case run of (v, count) \<Rightarrow>
     if target = None \<and> v = None then Some (0, count)
     else Option.bind target (\<lambda>a. Option.bind v (\<lambda>v.
       let target = int (unat a); sign = (if v > 0 then 1 else 0) * 2 - 1; delta = sign * (absolute - target); v = v * sign in
       if v \<noteq> 0 \<and> delta smod v = 0 \<and> delta \<ge> 0 \<and> delta sdiv v < int count
       then let n = nat (int count - delta sdiv v - 1) in Some (n, n + 1)
       else if v = 0 \<and> target = absolute then Some (0, count)
       else None)))"

definition contains_range :: "int \<Rightarrow> int option \<times> nat \<Rightarrow> nat \<times> nat \<Rightarrow> (nat \<times> nat) option" where
  "contains_range absolute run target = (case run of (v, count) \<Rightarrow> Option.bind v (\<lambda>step.
     let start = absolute - step * (int count - 1);
         (i, j) = contains_range_of start step (int count) (int (fst target), int (snd target)) in
     if \<not> i < j then None else Some (nat (max i 0), nat (min j (int count)))))"

text \<open>\<open>ColumnCursor::contains\<close>; \<open>None\<close> when its assertion fails.\<close>

definition contains :: "int \<Rightarrow> int option \<times> nat \<Rightarrow> agg \<Rightarrow> (nat \<times> nat) option option" where
  "contains absolute run target =
     (let start = agg_as_usize target; old = contains_agg absolute run target;
          new = contains_range absolute run (start, start + 1) in
      if old = new then Some old else None)"

subsection \<open>The aggregates of a slab\<close>

record delta_cursor =
  dc_abs :: int
  dc_min :: agg
  dc_max :: agg

definition saturating_add :: "int \<Rightarrow> int \<Rightarrow> int" where
  "saturating_add a b = max (- (2 ^ 63)) (min (2 ^ 63 - 1) (a + b))"

text \<open>\<open>Run::delta\<close>, and what \<open>try_next\<close> does with a run that it has read.\<close>

definition run_delta :: "int option \<times> nat \<Rightarrow> int" where
  "run_delta run = (case run of (v, count) \<Rightarrow> int count * (case v of Some v \<Rightarrow> v | None \<Rightarrow> 0))"

definition delta_read :: "delta_cursor \<Rightarrow> int option \<times> nat \<Rightarrow> delta_cursor" where
  "delta_read c run =
     (let absolute = saturating_add (dc_abs c) (run_delta run);
          first_step = saturating_add (dc_abs c) (case fst run of Some v \<Rightarrow> v | None \<Rightarrow> 0) in
      c\<lparr>dc_abs := absolute, dc_min := minimize (dc_min c) (agg_of (min absolute first_step)),
        dc_max := maximize (dc_max c) (agg_of (max absolute first_step))\<rparr>)"

text \<open>\<open>compute_min_max\<close> for one slab, given as its runs.\<close>

definition delta_min_max :: "(int option \<times> nat) list \<Rightarrow> slab \<Rightarrow> slab" where
  "delta_min_max runs s =
     (let c = foldl delta_read \<lparr>dc_abs = slab_abs s, dc_min = None, dc_max = None\<rparr> runs in
      set_min_max (dc_min c) (dc_max c) s)"

text \<open>The items that the runs stand for.\<close>

primrec delta_items :: "int \<Rightarrow> (int option \<times> nat) list \<Rightarrow> int option list" where
  "delta_items absolute [] = []"
| "delta_items absolute (run # runs) =
     (case fst run of None \<Rightarrow> replicate (snd run) None | Some v \<Rightarrow> map (\<lambda>k. Some (absolute + v * (int k + 1))) [0..<snd run])
     @ delta_items (absolute + run_delta run) runs"

subsection \<open>Correctness inside a run\<close>

lemma sdiv_pos: "0 \<le> a \<Longrightarrow> 0 < b \<Longrightarrow> (a::int) sdiv b = a div b" "0 \<le> a \<Longrightarrow> 0 < b \<Longrightarrow> (a::int) smod b = a mod b"
  by (auto simp: signed_divide_int_def signed_modulo_int_def sgn_if)

lemma sdiv_neg: "a \<le> 0 \<Longrightarrow> 0 < b \<Longrightarrow> (a::int) sdiv b \<le> 0"
  by (auto simp: signed_divide_int_def sgn_if div_int_pos_iff pos_imp_zdiv_nonneg_iff)

lemma div_less_bound: "0 < s \<Longrightarrow> x div s < k \<longleftrightarrow> x < s * (k::int)"
proof -
  assume s: "0 < s"
  define q r where "q = x div s" and "r = x mod s"
  then have x: "x = s * q + r" "0 \<le> r" "r < s" using s by simp_all
  note q_def [symmetric, simp]
  show ?thesis
  proof
    assume "x div s < k"
    then have "s * (q + 1) \<le> s * k" using s by (intro mult_left_mono) simp_all
    then show "x < s * k" using x by (simp add: distrib_left)
  next
    assume k: "x < s * k"
    show "x div s < k"
    proof (rule ccontr)
      assume "\<not> x div s < k"
      then have "s * k \<le> s * q" using s by (intro mult_left_mono) simp_all
      then show False using k x by linarith
    qed
  qed
qed

lemma lower_index: "0 < s \<Longrightarrow> 0 \<le> k \<Longrightarrow> (d + (s - 1)) sdiv s \<le> k \<longleftrightarrow> d \<le> s * (k::int)"
proof (cases "0 \<le> d + (s - 1)")
  case True
  assume s: "0 < s" "0 \<le> k"
  then have "(d + (s - 1)) sdiv s \<le> k \<longleftrightarrow> (d + (s - 1)) div s < k + 1" using True by (simp add: sdiv_pos)
  also have "\<dots> \<longleftrightarrow> d + (s - 1) < s * (k + 1)" by (rule div_less_bound [OF s(1)])
  also have "\<dots> \<longleftrightarrow> d \<le> s * k" by (auto simp: distrib_left)
  finally show ?thesis .
next
  case False
  assume s: "0 < s" "0 \<le> k"
  then have "d \<le> s * k" using False by (smt (verit) mult_nonneg_nonneg)
  then show ?thesis using sdiv_neg [of "d + (s - 1)" s] False s by simp
qed

lemma upper_index: "0 < s \<Longrightarrow> 0 < d \<Longrightarrow> (k::int) < (d - 1) sdiv s + 1 \<longleftrightarrow> s * k < d"
proof -
  assume s: "0 < s" "0 < d"
  then have "k < (d - 1) sdiv s + 1 \<longleftrightarrow> \<not> (d - 1) div s < k" by (auto simp: sdiv_pos)
  also have "\<dots> \<longleftrightarrow> s * k < d" using div_less_bound [OF s(1), of "d - 1" k] by auto
  finally show ?thesis .
qed

definition exact_range :: "int \<Rightarrow> int \<Rightarrow> int \<Rightarrow> int \<Rightarrow> int \<Rightarrow> int \<times> int \<Rightarrow> bool" where
  "exact_range start step count lo hi r \<longleftrightarrow> (case r of (i, j) \<Rightarrow> 0 \<le> i \<and> i \<le> j \<and> j \<le> count \<and>
    (\<forall>k. 0 \<le> k \<longrightarrow> k < count \<longrightarrow> (i \<le> k \<and> k < j \<longleftrightarrow> lo \<le> start + step * k \<and> start + step * k < hi)))"

lemma contains_range_up:
  assumes c: "0 \<le> count" and s: "0 \<le> step"
  shows "exact_range start step count lo hi (contains_range_of start step count (lo, hi))"
proof -
  let ?stop = "start + step * (count - 1)"
  have el: "start \<le> start + step * k" "start + step * k \<le> ?stop" if "0 \<le> k" "k < count" for k
    using that s mult_left_mono [of k "count - 1" step] by simp_all
  consider "count = 0 \<or> \<not> lo < hi" | "count \<noteq> 0" "lo < hi" "(lo \<le> start \<and> start < hi) \<and> (lo \<le> ?stop \<and> ?stop < hi)"
    | "count \<noteq> 0" "lo < hi" "\<not> ((lo \<le> start \<and> start < hi) \<and> (lo \<le> ?stop \<and> ?stop < hi))" "hi \<le> start \<or> lo > ?stop \<or> step = 0"
    | "count \<noteq> 0" "lo < hi" "\<not> ((lo \<le> start \<and> start < hi) \<and> (lo \<le> ?stop \<and> ?stop < hi))" "\<not> (hi \<le> start \<or> lo > ?stop \<or> step = 0)"
    by blast
  then show ?thesis
  proof cases
    case 1
    then show ?thesis using c by (subst contains_range_of.simps) (auto simp: exact_range_def)
  next
    case 2
    have "lo \<le> start + step * k \<and> start + step * k < hi" if "0 \<le> k" "k < count" for k using el [OF that] 2(3) by simp
    then show ?thesis using 2 c s by (subst contains_range_of.simps) (simp add: exact_range_def)
  next
    case 3
    have "\<not> (lo \<le> start + step * k \<and> start + step * k < hi)" if "0 \<le> k" "k < count" for k
      using el [OF that] 3(3,4) by auto
    moreover have "contains_range_of start step count (lo, hi) = (0, 0)"
      using 3 s by (subst contains_range_of.simps) (auto simp: Let_def)
    ultimately show ?thesis using c by (simp add: exact_range_def)
  next
    case 4
    define a b where "a = (lo - start + (step - 1)) sdiv step" and "b = (hi - start - 1) sdiv step + 1"
    have step: "0 < step" and hi: "0 < hi - start" using 4(4) s by simp_all
    have ak: "a \<le> k \<longleftrightarrow> lo \<le> start + step * k" if "0 \<le> k" for k
      unfolding a_def using lower_index [OF step that, of "lo - start"] by auto
    have bk: "k < b \<longleftrightarrow> start + step * k < hi" for k unfolding b_def using upper_index [OF step hi, of k] by auto
    have "0 < b" using bk [of 0] hi by simp
    moreover have "a \<le> count - 1" using ak [of "count - 1"] 4(1,4) c by auto
    moreover have "contains_range_of start step count (lo, hi) = (if a \<ge> b then (0, 0) else (max a 0, min b count))"
      using 4 s by (subst contains_range_of.simps) (auto simp: a_def b_def Let_def)
    moreover have "a \<le> k \<and> k < b \<longleftrightarrow> lo \<le> start + step * k \<and> start + step * k < hi" if "0 \<le> k" for k using ak [OF that] bk by simp
    moreover have "\<not> (lo \<le> start + step * k \<and> start + step * k < hi)" if "b \<le> a" "0 \<le> k" for k using ak [OF that(2)] bk [of k] that(1) by auto
    ultimately show ?thesis using c 4(1) by (cases "b \<le> a") (simp_all add: exact_range_def)
  qed
qed

lemma contains_range_exact:
  assumes c: "0 \<le> count"
  shows "exact_range start step count lo hi (contains_range_of start step count (lo, hi))"
proof (cases "step < 0")
  case True
  have e: "exact_range (- start) (- step) count (- (hi - 1)) (- (lo - 1)) (contains_range_of (- start) (- step) count (- (hi - 1), - (lo - 1)))"
    by (rule contains_range_up) (use c True in simp_all)
  show ?thesis
  proof (cases "count = 0 \<or> \<not> lo < hi")
    case False
    then have "contains_range_of start step count (lo, hi) = contains_range_of (- start) (- step) count (- (hi - 1), - (lo - 1))"
      using True by (subst contains_range_of.simps) simp
    moreover have "- (hi - 1) \<le> - start + - step * k \<and> - start + - step * k < - (lo - 1) \<longleftrightarrow> lo \<le> start + step * k \<and> start + step * k < hi" for k
      by auto
    ultimately show ?thesis using e by (simp add: exact_range_def)
  next
    case none: True
    then show ?thesis using c by (subst contains_range_of.simps) (auto simp: exact_range_def)
  qed
qed (use contains_range_up c in simp)

text \<open>The item of a run at an index, from its last one.\<close>

definition run_item :: "int \<Rightarrow> int \<Rightarrow> nat \<Rightarrow> nat \<Rightarrow> int" where
  "run_item absolute v count k = absolute - v * (int count - 1 - int k)"

definition holds_exactly :: "(nat \<times> nat) option \<Rightarrow> nat \<Rightarrow> (nat \<Rightarrow> bool) \<Rightarrow> bool" where
  "holds_exactly r count P \<longleftrightarrow> (case r of None \<Rightarrow> \<forall>k < count. \<not> P k
     | Some (i, j) \<Rightarrow> i < j \<and> j \<le> count \<and> (\<forall>k < count. i \<le> k \<and> k < j \<longleftrightarrow> P k))"

lemma holds_exactly_unique:
  assumes "holds_exactly r count P" and "holds_exactly s count P"
  shows "r = s"
proof (cases r)
  case None
  then have "\<forall>k < count. \<not> P k" using assms(1) by (simp add: holds_exactly_def)
  moreover have "\<exists>k < count. P k" if "s = Some (i, j)" for i j
  proof -
    have "i < j" "j \<le> count" "\<forall>k < count. i \<le> k \<and> k < j \<longleftrightarrow> P k" using assms(2) that by (simp_all add: holds_exactly_def)
    then show ?thesis by (intro exI [of _ i]) (simp, metis le_refl order_less_le_trans)
  qed
  ultimately show ?thesis using None by (cases s) auto
next
  case (Some ij)
  obtain i j where r: "r = Some (i, j)" using Some by (cases ij) simp
  then have P: "i < j" "j \<le> count" "\<forall>k < count. i \<le> k \<and> k < j \<longleftrightarrow> P k" using assms(1) by (simp_all add: holds_exactly_def)
  have "i < count" using P(1,2) by simp
  then have "P i" using P(1) P(3) [THEN spec, of i] by simp
  then obtain i' j' where s: "s = Some (i', j')" using assms(2) P(1,2) by (cases s) (auto simp: holds_exactly_def)
  then have Q: "i' < j'" "j' \<le> count" "\<forall>k < count. i' \<le> k \<and> k < j' \<longleftrightarrow> P k" using assms(2) by (simp_all add: holds_exactly_def)
  have k: "i \<le> k \<and> k < j \<longleftrightarrow> i' \<le> k \<and> k < j'" if "k < count" for k using P(3) Q(3) that by blast
  have "i' \<le> i" "i \<le> i'" using k [of i] k [of i'] P(1,2) Q(1,2) by auto
  moreover have "j' \<le> j" "j \<le> j'"
  proof -
    have "j - 1 < count" "j' - 1 < count" using P(1,2) Q(1,2) by simp_all
    from k [OF this(1)] k [OF this(2)] show "j' \<le> j" "j \<le> j'" using P(1) Q(1) \<open>i' \<le> i\<close> \<open>i \<le> i'\<close> by linarith+
  qed
  ultimately show ?thesis by (simp add: r s)
qed

lemma contains_range_ok:
  "holds_exactly (contains_range absolute (Some v, count) (lo, hi)) count
     (\<lambda>k. int lo \<le> run_item absolute v count k \<and> run_item absolute v count k < int hi)"
proof -
  let ?start = "absolute - v * (int count - 1)"
  obtain i j where ij: "contains_range_of ?start v (int count) (int lo, int hi) = (i, j)"
    by (cases "contains_range_of ?start v (int count) (int lo, int hi)")
  have e: "0 \<le> i" "i \<le> j" "j \<le> int count"
    "\<And>k. 0 \<le> k \<Longrightarrow> k < int count \<Longrightarrow> i \<le> k \<and> k < j \<longleftrightarrow> int lo \<le> ?start + v * k \<and> ?start + v * k < int hi"
    using contains_range_exact [of "int count" ?start v "int lo" "int hi"] by (simp_all add: ij exact_range_def)
  have r: "contains_range absolute (Some v, count) (lo, hi) = (if \<not> i < j then None else Some (nat i, nat j))"
    using e(1,3) by (simp add: contains_range_def ij Let_def)
  have item: "run_item absolute v count k = ?start + v * int k" for k by (simp add: run_item_def right_diff_distrib)
  have k: "i \<le> int k \<and> int k < j \<longleftrightarrow> int lo \<le> run_item absolute v count k \<and> run_item absolute v count k < int hi" if "k < count" for k
    unfolding item using e(4) [of "int k"] that by simp
  show ?thesis
  proof (cases "i < j")
    case True
    have "nat i \<le> k \<and> k < nat j \<longleftrightarrow> i \<le> int k \<and> int k < j" for k using e(1) by (auto simp: nat_le_iff zless_nat_eq_int_zless)
    then show ?thesis using True e(1,3) k by (simp add: r holds_exactly_def)
  next
    case False
    then have "\<not> (int lo \<le> run_item absolute v count n \<and> run_item absolute v count n < int hi)" if "n < count" for n
      using k [OF that] by auto
    then show ?thesis using False by (simp add: r holds_exactly_def)
  qed
qed

lemma agg_index:
  assumes s: "0 < (s::int)"
  shows "holds_exactly (if d smod s = 0 \<and> d \<ge> 0 \<and> d sdiv s < int count then Some (nat (int count - d sdiv s - 1), nat (int count - d sdiv s - 1) + 1) else None)
    count (\<lambda>k. s * (int count - 1 - int k) = d)"
proof (cases "d smod s = 0 \<and> d \<ge> 0 \<and> d sdiv s < int count")
  case True
  define m where "m = d div s"
  have d: "d = s * m" "0 \<le> m" "m < int count" "d sdiv s = m" using True s by (auto simp: m_def sdiv_pos pos_imp_zdiv_nonneg_iff)
  define n where "n = nat (int count - m - 1)"
  have n: "int n = int count - m - 1" "n + 1 \<le> count" using d(2,3) by (simp_all add: n_def)
  have "s * (int count - 1 - int k) = d \<longleftrightarrow> n \<le> k \<and> k < n + 1" for k
  proof -
    have "s * (int count - 1 - int k) = d \<longleftrightarrow> int count - 1 - int k = m" using s unfolding d(1) by simp
    also have "\<dots> \<longleftrightarrow> int k = int n" unfolding n(1) by linarith
    finally show ?thesis by auto
  qed
  then show ?thesis using n(2) unfolding if_P [OF True] unfolding d(4) n_def [symmetric] by (simp add: holds_exactly_def)
next
  case False
  have "s * (int count - 1 - int k) \<noteq> d" if k: "k < count" for k
  proof
    assume e: "s * (int count - 1 - int k) = d"
    then have p: "0 \<le> d" using s k mult_nonneg_nonneg [of s "int count - 1 - int k"] by simp
    then have "d sdiv s = int count - 1 - int k" "d smod s = 0" using s by (simp_all add: sdiv_pos flip: e)
    then show False using False p k by linarith
  qed
  then show ?thesis unfolding if_not_P [OF False] by (simp add: holds_exactly_def)
qed

lemma contains_agg_ok:
  assumes "0 < count"
  shows "holds_exactly (contains_agg absolute (Some v, count) (Some a)) count (\<lambda>k. run_item absolute v count k = int (unat a))"
proof -
  let ?t = "int (unat a)"
  consider "0 < v" | "v = 0" | "v < 0" by linarith
  then show ?thesis
  proof cases
    case 1
    have "run_item absolute v count k = ?t \<longleftrightarrow> v * (int count - 1 - int k) = absolute - ?t" for k by (auto simp: run_item_def)
    then show ?thesis using agg_index [OF 1, of "absolute - ?t" count] 1 by (simp add: contains_agg_def Let_def cong: if_cong)
  next
    case 2
    then show ?thesis using assms by (auto simp: contains_agg_def holds_exactly_def run_item_def)
  next
    case 3
    then have v: "0 < - v" by simp
    have "run_item absolute v count k = ?t \<longleftrightarrow> - v * (int count - 1 - int k) = - (absolute - ?t)" for k by (auto simp: run_item_def)
    then show ?thesis using agg_index [OF v, of "- (absolute - ?t)" count] 3 by (simp add: contains_agg_def Let_def cong: if_cong)
  qed
qed



text \<open>The search of a range of values in a run of a delta column: an index of the run is in the range
  returned exactly when the item there is in the range of values, whatever the sign of the step.\<close>

theorem delta_contains_range_exact:
  assumes "k < count"
  shows "(\<exists>i j. contains_range absolute (Some v, count) (lo, hi) = Some (i, j) \<and> i \<le> k \<and> k < j)
    \<longleftrightarrow> int lo \<le> run_item absolute v count k \<and> run_item absolute v count k < int hi"
  using contains_range_ok [of absolute v count lo hi] assms by (auto simp: holds_exactly_def split: option.splits)

theorem delta_contains_range_exact_witness:
  "\<exists>i j. contains_range 3 (Some (- 2), 4) (4, 8) = Some (i, j) \<and> i \<le> 1 \<and> 1 < j"
  using delta_contains_range_exact [of 1 4 3 "- 2" 4 8] by (simp add: run_item_def)

subsection \<open>The least and the greatest aggregate\<close>

lemma agg_of_le: "1 \<le> x \<Longrightarrow> x \<le> y \<Longrightarrow> y < 2 ^ 32 \<Longrightarrow> agg_le (agg_of x) (agg_of y)"
  by (simp add: agg_of_def word_le_def uint_word_of_int take_bit_int_eq_self)

lemma agg_of_not_le: "1 \<le> x \<Longrightarrow> x < y \<Longrightarrow> y < 2 ^ 32 \<Longrightarrow> \<not> agg_le (agg_of y) (agg_of x)"
  by (simp add: agg_of_def word_le_def uint_word_of_int take_bit_int_eq_self)

lemma agg_of_between:
  assumes "1 \<le> lo" and "lo \<le> x" and "x \<le> hi" and "hi < 2 ^ 32"
  shows "agg_le (agg_of lo) (agg_of x) \<and> agg_le (agg_of x) (agg_of hi) \<and> agg_of x \<noteq> None"
  using assms agg_of_le [of lo x] agg_of_le [of x hi] by (simp add: agg_of_def)

lemma saturating_add_id: "- (2 ^ 63) \<le> a + b \<Longrightarrow> a + b < 2 ^ 63 \<Longrightarrow> saturating_add a b = a + b"
  by (simp add: saturating_add_def)

text \<open>The aggregates of a cursor enclose a value.\<close>

definition encloses :: "delta_cursor \<Rightarrow> int \<Rightarrow> bool" where
  "encloses c x \<longleftrightarrow> agg_of x \<noteq> None \<and> agg_le (dc_min c) (agg_of x) \<and> agg_le (agg_of x) (dc_max c)"

lemma encloses_read: "encloses c x \<Longrightarrow> encloses (delta_read c run) x"
  by (auto simp: encloses_def delta_read_def Let_def intro: agg_min_le agg_le_max)

lemma encloses_fold: "encloses c x \<Longrightarrow> encloses (foldl delta_read c runs) x"
  by (induction runs arbitrary: c) (simp_all add: encloses_read)

lemma encloses_run:
  assumes c: "dc_abs c = absolute" and k: "k < n"
    and v: "1 \<le> absolute + v" "absolute + v < 2 ^ 32" "1 \<le> absolute + v * int n" "absolute + v * int n < 2 ^ 32"
  shows "encloses (delta_read c (Some v, n)) (absolute + v * (int k + 1))"
proof -
  let ?x = "absolute + v * (int k + 1)" and ?first = "absolute + v" and ?last = "absolute + v * int n"
  have sat: "saturating_add absolute (int n * v) = ?last" "saturating_add absolute v = ?first"
    using v saturating_add_id [of absolute "int n * v"] saturating_add_id [of absolute v] by (simp_all add: mult.commute)
  have "(v * 1 \<le> v * (int k + 1) \<and> v * (int k + 1) \<le> v * int n) \<or> (v * int n \<le> v * (int k + 1) \<and> v * (int k + 1) \<le> v * 1)"
  proof (cases "0 \<le> v")
    case True
    then show ?thesis using k by (intro disjI1 conjI mult_left_mono) simp_all
  next
    case False
    then show ?thesis using k by (intro disjI2 conjI mult_left_mono_neg) simp_all
  qed
  then have x: "min ?last ?first \<le> ?x" "?x \<le> max ?last ?first" by auto
  have "1 \<le> min ?last ?first" "max ?last ?first < 2 ^ 32" using v by simp_all
  note agg_of_between [OF this(1) x this(2)]
  then show ?thesis by (auto simp: encloses_def delta_read_def run_delta_def Let_def c sat intro: agg_min_le agg_le_max)
qed

lemma encloses_items:
  "dc_abs c = absolute \<Longrightarrow> - (2 ^ 63) \<le> absolute \<Longrightarrow> absolute < 2 ^ 63 \<Longrightarrow> \<forall>run \<in> set runs. 0 < snd run \<Longrightarrow>
   \<forall>x. Some x \<in> set (delta_items absolute runs) \<longrightarrow> 1 \<le> x \<and> x < 2 ^ 32 \<Longrightarrow>
   Some x \<in> set (delta_items absolute runs) \<Longrightarrow> encloses (foldl delta_read c runs) x"
proof (induction runs arbitrary: c absolute)
  case (Cons run runs)
  obtain v n where run: "run = (v, n)" by (cases run)
  have n: "0 < n" using Cons.prems(4) by (simp add: run)
  show ?case
  proof (cases v)
    case None
    have "dc_abs (delta_read c run) = absolute"
      using Cons.prems(1-3) by (simp add: delta_read_def run_delta_def run None Let_def saturating_add_id)
    from Cons.IH [OF this Cons.prems(2,3)] Cons.prems(4-6) show ?thesis by (simp add: run None run_delta_def split: if_splits)
  next
    case (Some w)
    have item: "1 \<le> absolute + w * (int k + 1) \<and> absolute + w * (int k + 1) < 2 ^ 32" if "k < n" for k
    proof -
      have "Some (absolute + w * (int k + 1)) \<in> set (delta_items absolute (run # runs))"
        using that by (auto simp: run Some intro!: disjI1 rev_image_eqI [of k])
      then show ?thesis using Cons.prems(5) by blast
    qed
    have b: "1 \<le> absolute + w" "absolute + w < 2 ^ 32" "1 \<le> absolute + w * int n" "absolute + w * int n < 2 ^ 32"
      using item [of 0] item [of "n - 1"] n by (simp_all add: of_nat_diff)
    have a: "dc_abs (delta_read c run) = absolute + run_delta run"
      using b Cons.prems(1) saturating_add_id [of absolute "int n * w"] by (simp add: delta_read_def run_delta_def run Some Let_def mult.commute)
    have lim: "- (2 ^ 63) \<le> absolute + run_delta run" "absolute + run_delta run < 2 ^ 63"
      using b(3,4) by (simp_all add: run_delta_def run Some mult.commute)
    from Cons.prems(6) consider k where "k < n" "x = absolute + w * (int k + 1)" | "Some x \<in> set (delta_items (absolute + run_delta run) runs)"
      by (auto simp: run Some)
    then show ?thesis
    proof cases
      case 1
      then show ?thesis using encloses_fold [OF encloses_run [OF Cons.prems(1) 1(1) b]] by (simp add: run Some)
    next
      case 2
      have "encloses (foldl delta_read (delta_read c run) runs) x"
        by (rule Cons.IH [OF a lim _ _ 2]) (use Cons.prems(4,5) in \<open>auto simp: run Some\<close>)
      then show ?thesis by simp
    qed
  qed
qed simp

text \<open>C30: For a slab of a delta column whose items are positive \<open>u32\<close> values or null, the least and the
  greatest aggregate that \<open>compute_min_max\<close> stores enclose every item, so the search for an item's value
  stops at the slab.\<close>

theorem delta_min_max_sound:
  assumes "- (2 ^ 63) \<le> slab_abs s" and "slab_abs s < 2 ^ 63" and "\<forall>run \<in> set runs. 0 < snd run"
    and "\<forall>x. Some x \<in> set (delta_items (slab_abs s) runs) \<longrightarrow> 1 \<le> x \<and> x < 2 ^ 32"
    and "Some x \<in> set (delta_items (slab_abs s) runs)"
  shows "holds_value (agg_of x) acc (sw_alloc (delta_min_max runs s))"
  using encloses_items [OF _ assms, of "\<lparr>dc_abs = slab_abs s, dc_min = None, dc_max = None\<rparr>"]
  by (simp add: encloses_def holds_value_def sw_alloc_def delta_min_max_def set_min_max_def Let_def)

theorem delta_min_max_sound_witness:
  "holds_value (agg_of 9) (wt_default slab_ops) (sw_alloc (delta_min_max [(Some 5, 1), (None, 2), (Some 2, 3)] (new_slab [] 6 0 0)))"
proof (rule delta_min_max_sound)
  have items: "delta_items (slab_abs (new_slab [] 6 0 0)) [(Some 5, 1), (None, 2), (Some 2, 3)] = [Some 5, None, None, Some 7, Some 9, Some 11]"
    by (simp add: new_slab_def run_delta_def upt_rec numeral_2_eq_2 numeral_3_eq_3)
  show "\<forall>x. Some x \<in> set (delta_items (slab_abs (new_slab [] 6 0 0)) [(Some 5, 1), (None, 2), (Some 2, 3)]) \<longrightarrow> 1 \<le> x \<and> x < 2 ^ 32"
    "Some 9 \<in> set (delta_items (slab_abs (new_slab [] 6 0 0)) [(Some 5, 1), (None, 2), (Some 2, 3)])" unfolding items by auto
qed (simp_all add: new_slab_def)

text \<open>C39: For a slab that counts down from \<open>m\<close> to zero the aggregates do not enclose what lies between:
  each positive value below \<open>m\<close> is an item, and the search for it passes the slab by.\<close>

theorem delta_min_max_misses:
  assumes "0 < x" and "x < m" and "m < 2 ^ 32"
  shows "Some x \<in> set (delta_items 0 [(Some m, 1), (Some (- 1), nat m)]) \<and>
    \<not> holds_value (agg_of x) acc (sw_alloc (delta_min_max [(Some m, 1), (Some (- 1), nat m)] (new_slab data len a 0)))"
proof
  have m: "int (nat m) = m" using assms by simp
  have "Some x = Some (m + - 1 * (int (nat (m - x - 1)) + 1)) \<and> nat (m - x - 1) < nat m" using assms by simp
  then show "Some x \<in> set (delta_items 0 [(Some m, 1), (Some (- 1), nat m)])"
    by (auto simp: run_delta_def intro!: rev_image_eqI [of "nat (m - x - 1)"])
  have "saturating_add 0 m = m" "saturating_add m (- m) = 0" "saturating_add m (- 1) = m - 1"
    using assms by (simp_all add: saturating_add_id)
  then have "slab_min (delta_min_max [(Some m, 1), (Some (- 1), nat m)] (new_slab data len a 0)) = agg_of m"
    using assms by (simp add: delta_min_max_def new_slab_def set_min_max_def delta_read_def run_delta_def Let_def m agg_of_def)
  moreover have "\<not> agg_le (agg_of m) (agg_of x)" using assms by (intro agg_of_not_le) simp_all
  ultimately show "\<not> holds_value (agg_of x) acc (sw_alloc (delta_min_max [(Some m, 1), (Some (- 1), nat m)] (new_slab data len a 0)))"
    by (simp add: holds_value_def sw_alloc_def)
qed

theorem delta_min_max_misses_witness:
  "\<not> holds_value (agg_of 3) (wt_default slab_ops) (sw_alloc (delta_min_max [(Some 5, 1), (Some (- 1), 5)] (new_slab [] 6 0 0)))"
  using delta_min_max_misses [of 3 5 "wt_default slab_ops" "[]" 6 0] by simp

end
