(* ===== verification/Seq_Cursor.thy ===== *)
theory Seq_Cursor
  imports Parse
begin

text \<open>
  The cursors of \<open>cursor.rs\<close>: positions in a sequence that applications store, as bytes or as text.  A
  \<open>str\<close> is its UTF-8 bytes.  The \<open>hex\<close> crate, which writes and reads actor ids, is an argument.
\<close>

datatype move_cursor = Before | After

record op_cursor =
  oc_ctr :: u64
  oc_actor :: actor_id
  oc_move :: move_cursor

datatype cursor = Start | End | Op op_cursor

datatype cursor_error = InvalidCursorFormat

definition op_cursor_new :: "op_id \<Rightarrow> actor_id list \<Rightarrow> move_cursor \<Rightarrow> op_cursor option" where
  "op_cursor_new oid actors move_cursor =
     (if actor_idx oid < length actors
      then Some \<lparr>oc_ctr = counter oid, oc_actor = actors ! actor_idx oid, oc_move = move_cursor\<rparr> else None)"

subsection \<open>Bytes\<close>

definition version_tag :: u8 where "version_tag = 1"
definition start_tag :: u8 where "start_tag = 1"
definition end_tag :: u8 where "end_tag = 2"
definition op_tag :: u8 where "op_tag = 3"
definition move_before_tag :: u8 where "move_before_tag = 1"
definition move_after_tag :: u8 where "move_after_tag = 2"

lemmas tag_defs = version_tag_def start_tag_def end_tag_def op_tag_def move_before_tag_def move_after_tag_def

fun cursor_to_bytes :: "(u64 \<Rightarrow> bytes) \<Rightarrow> cursor \<Rightarrow> bytes" where
  "cursor_to_bytes wu Start = [version_tag, start_tag]"
| "cursor_to_bytes wu End = [version_tag, end_tag]"
| "cursor_to_bytes wu (Op c) =
     [version_tag, op_tag] @ wu (word_of_nat (length (actor_bytes (oc_actor c)))) @ actor_bytes (oc_actor c) @ wu (oc_ctr c)
       @ [case oc_move c of Before \<Rightarrow> move_before_tag | After \<Rightarrow> move_after_tag]"

definition invalid :: "('e parse_error + 'a) \<Rightarrow> cursor_error + 'a" where
  "invalid r = map_err (\<lambda>_. InvalidCursorFormat) r"

text \<open>The format of version 0, without tags and without a direction.\<close>

definition parse_0 :: "input \<Rightarrow> cursor_error + cursor" where
  "parse_0 i =
     bind_res (invalid (leb128_u64 id i)) (\<lambda>(i, len).
     bind_res (invalid (take_n (unat len) i :: unit parse_error + _)) (\<lambda>(i, actor).
     bind_res (invalid (leb128_u64 id i)) (\<lambda>(_, ctr).
     Inr (Op \<lparr>oc_ctr = ctr, oc_actor = ActorId actor, oc_move = After\<rparr>))))"

definition cursor_try_from :: "bytes \<Rightarrow> cursor_error + cursor" where
  "cursor_try_from b =
     bind_res (invalid (take_1 (new_input b) :: unit parse_error + _)) (\<lambda>(i, version).
     if version = 0 then parse_0 i
     else if version \<noteq> version_tag then Inl InvalidCursorFormat
     else bind_res (invalid (take_1 i :: unit parse_error + _)) (\<lambda>(i, cursor_type).
       if cursor_type = start_tag then Inr Start
       else if cursor_type = end_tag then Inr End
       else if cursor_type = op_tag then
         bind_res (invalid (leb128_u64 id i)) (\<lambda>(i, len).
         bind_res (invalid (take_n (unat len) i :: unit parse_error + _)) (\<lambda>(i, actor).
         bind_res (invalid (leb128_u64 id i)) (\<lambda>(i, ctr).
         bind_res (invalid (take_1 i :: unit parse_error + _)) (\<lambda>(_, move_type).
         if move_type = move_after_tag then Inr (Op \<lparr>oc_ctr = ctr, oc_actor = ActorId actor, oc_move = After\<rparr>)
         else if move_type = move_before_tag then Inr (Op \<lparr>oc_ctr = ctr, oc_actor = ActorId actor, oc_move = Before\<rparr>)
         else Inl InvalidCursorFormat))))
       else Inl InvalidCursorFormat))"

subsection \<open>Text\<close>

text \<open>\<open>u64::to_string\<close> and \<open>str::parse::<u64>\<close>: digits without leading zeros, read with an optional plus.\<close>

fun show_nat :: "nat \<Rightarrow> bytes" where
  "show_nat n = (if n < 10 then [word_of_nat (48 + n)] else show_nat (n div 10) @ [word_of_nat (48 + n mod 10)])"

declare show_nat.simps [simp del]

definition digit_of :: "u8 \<Rightarrow> nat option" where
  "digit_of b = (if 48 \<le> unat b \<and> unat b \<le> 57 then Some (unat b - 48) else None)"

primrec parse_digits :: "nat \<Rightarrow> bytes \<Rightarrow> nat option" where
  "parse_digits acc [] = Some acc"
| "parse_digits acc (b # bs) =
     Option.bind (digit_of b) (\<lambda>d. if acc * 10 + d < 2 ^ 64 then parse_digits (acc * 10 + d) bs else None)"

definition parse_u64 :: "bytes \<Rightarrow> u64 option" where
  "parse_u64 s = (case s of [] \<Rightarrow> None
     | b # bs \<Rightarrow> if bs = [] \<and> (b = 0x2B \<or> b = 0x2D) then None
         else map_option word_of_nat (parse_digits 0 (if b = 0x2B then bs else s)))"

text \<open>\<open>str::find\<close> of the at sign.\<close>

primrec find_at :: "bytes \<Rightarrow> nat option" where
  "find_at [] = None"
| "find_at (b # bs) = (if b = 0x40 then Some 0 else map_option Suc (find_at bs))"

text \<open>The outer \<open>None\<close> is the panic of the slice \<open>s[0..1]\<close>; the other slices lie at ASCII characters.\<close>

definition cursor_from_str :: "(bytes \<Rightarrow> bytes option) \<Rightarrow> bytes \<Rightarrow> cursor option option" where
  "cursor_from_str hex_decode s =
     (if length s = 1
      then Some (if s = [0x73] then Some Start else if s = [0x65] then Some End else None)
      else if s = [] \<or> utf8_cont (s ! 1) then None
      else let (move_cursor, i) = (if hd s = 0x2D then (Before, 1) else (After, 0)) in
        Some (Option.bind (find_at s) (\<lambda>n.
        Option.bind (parse_u64 (drop i (take n s))) (\<lambda>ctr.
        Option.bind (hex_decode (drop (n + 1) s)) (\<lambda>actor.
        Some (Op \<lparr>oc_ctr = ctr, oc_actor = ActorId actor, oc_move = move_cursor\<rparr>))))))"

text \<open>\<open>TryFrom<&str>\<close>, and \<open>Display\<close>.\<close>

definition cursor_try_from_str :: "(bytes \<Rightarrow> bytes option) \<Rightarrow> bytes \<Rightarrow> (cursor_error + cursor) option" where
  "cursor_try_from_str hex_decode s =
     map_option (\<lambda>c. case c of Some c \<Rightarrow> Inr c | None \<Rightarrow> Inl InvalidCursorFormat) (cursor_from_str hex_decode s)"

definition op_cursor_display :: "(bytes \<Rightarrow> bytes) \<Rightarrow> op_cursor \<Rightarrow> bytes" where
  "op_cursor_display hex_encode c =
     (case oc_move c of Before \<Rightarrow> [0x2D] | After \<Rightarrow> []) @ show_nat (unat (oc_ctr c)) @ [0x40] @ hex_encode (actor_bytes (oc_actor c))"

fun cursor_display :: "(bytes \<Rightarrow> bytes) \<Rightarrow> cursor \<Rightarrow> bytes" where
  "cursor_display hex_encode Start = [0x73]"
| "cursor_display hex_encode End = [0x65]"
| "cursor_display hex_encode (Op c) = op_cursor_display hex_encode c"

subsection \<open>Properties\<close>

lemma unat_digit: "k < 10 \<Longrightarrow> unat (word_of_nat (48 + k) :: u8) = 48 + k"
  by (rule unat_u8_of_nat) simp

lemma digit_of_digit: "k < 10 \<Longrightarrow> digit_of (word_of_nat (48 + k)) = Some k"
  unfolding digit_of_def using unat_digit [of k] by simp

lemma show_nat_digits: "b \<in> set (show_nat n) \<Longrightarrow> 48 \<le> unat b \<and> unat b \<le> 57"
proof (induction n rule: show_nat.induct)
  case (1 n)
  show ?case
  proof (cases "n < 10")
    case True
    then show ?thesis using 1(2) unat_digit [OF True] by (auto simp: show_nat.simps [of n] simp del: of_nat_add of_nat_numeral)
  next
    case False
    then have "b \<in> set (show_nat (n div 10)) \<or> b = word_of_nat (48 + n mod 10)" using 1(2) by (subst (asm) show_nat.simps) auto
    then show ?thesis using 1(1) [OF False] unat_digit [of "n mod 10"] by (auto simp del: of_nat_add)
  qed
qed

lemma parse_digits_append: "parse_digits acc (xs @ ys) = Option.bind (parse_digits acc xs) (\<lambda>a. parse_digits a ys)"
  by (induction xs arbitrary: acc) (auto split: bind_splits)

lemma parse_show_nat: "n < 2 ^ 64 \<Longrightarrow> parse_digits 0 (show_nat n) = Some n"
proof (induction n rule: show_nat.induct)
  case (1 n)
  show ?case
  proof (cases "n < 10")
    case True
    then show ?thesis using digit_of_digit [OF True] by (subst show_nat.simps) (simp del: of_nat_add)
  next
    case False
    have "parse_digits 0 (show_nat (n div 10)) = Some (n div 10)" using 1 False by simp
    moreover have "n div 10 * 10 + n mod 10 = n" by simp
    moreover have "digit_of (word_of_nat (48 + n mod 10)) = Some (n mod 10)" by (rule digit_of_digit) simp
    ultimately show ?thesis using 1(2) False
      by (subst show_nat.simps) (simp add: parse_digits_append del: of_nat_add)
  qed
qed

lemma show_nat_nonempty: "show_nat n \<noteq> []"
  by (subst show_nat.simps) simp

lemma find_at_append: "0x40 \<notin> set xs \<Longrightarrow> find_at (xs @ 0x40 # ys) = Some (length xs)"
  by (induction xs) auto

text \<open>A cursor is read back from its bytes, whatever bytes follow them, when the length of its actor fits
  64 bits.\<close>

theorem cursor_roundtrip:
  assumes "writes_uleb wu" and "case c of Op oc \<Rightarrow> length (actor_bytes (oc_actor oc)) < 2 ^ 64 | _ \<Rightarrow> True"
  shows "cursor_try_from (cursor_to_bytes wu c @ rest) = Inr c"
proof (cases c)
  case (Op oc)
  let ?la = "length (actor_bytes (oc_actor oc))" and ?ctr = "oc_ctr oc"
  let ?mv = "case oc_move oc of Before \<Rightarrow> move_before_tag | After \<Rightarrow> move_after_tag"
  have la: "?la < 2 ^ 64" using assms(2) Op by simp
  have w: "wu (word_of_nat ?la) = uleb ?la" "wu ?ctr = uleb (unat ?ctr)"
    using assms(1) by (simp_all add: writes_uleb_def unat_u64_of_nat [OF la])
  let ?b = "uleb ?la @ actor_bytes (oc_actor oc) @ uleb (unat ?ctr) @ ?mv # rest"
  have b: "cursor_to_bytes wu c @ rest = 1 # 3 # ?b" by (simp add: Op w tag_defs)
  let ?i0 = "new_input (1 # 3 # ?b)"
  let ?i1 = "advance ?i0 1"
  let ?i2 = "advance ?i1 1"
  let ?i3 = "advance ?i2 (length (uleb ?la))"
  let ?i4 = "advance ?i3 ?la"
  let ?i5 = "advance ?i4 (length (uleb (unat ?ctr)))"
  have "take_1 ?i0 = (Inr (?i1, 1) :: unit parse_error + _)" "take_1 ?i1 = (Inr (?i2, 3) :: unit parse_error + _)"
    by (rule take_1_Cons, simp)+
  moreover have "leb128_u64 id ?i2 = Inr (?i3, word_of_nat ?la)" by (rule leb_count [OF _ la]) simp
  moreover have "take_n ?la ?i3 = (Inr (?i4, actor_bytes (oc_actor oc)) :: unit parse_error + _)" by (simp add: take_n_eq)
  moreover have "leb128_u64 id ?i4 = Inr (?i5, ?ctr)" by (rule leb128_u64_complete [where rest = "?mv # rest"]) simp
  moreover have "take_1 ?i5 = (Inr (advance ?i5 1, ?mv) :: unit parse_error + _)" by (rule take_1_Cons) simp
  ultimately have "cursor_try_from (1 # 3 # ?b) = Inr (Op oc)"
    by (cases "oc_move oc") (simp_all add: cursor_try_from_def tag_defs invalid_def unat_u64_of_nat [OF la] Let_def del: advance_advance)
  then show ?thesis unfolding b by (simp only: Op)
qed (simp_all add: cursor_try_from_def tag_defs invalid_def take_1_Cons)

theorem cursor_roundtrip_witness:
  "cursor_try_from (cursor_to_bytes own_writer (Op \<lparr>oc_ctr = 300, oc_actor = ActorId [1, 2], oc_move = Before\<rparr>) @ [9])
    = Inr (Op \<lparr>oc_ctr = 300, oc_actor = ActorId [1, 2], oc_move = Before\<rparr>)"
  by (rule cursor_roundtrip) (simp_all add: own_writer_writes)

text \<open>The bytes of version 0 are read as a cursor that moves forward.\<close>

lemma cursor_version_0:
  assumes "length actor < 2 ^ 64"
  shows "cursor_try_from (0 # uleb (length actor) @ actor @ uleb (unat ctr) @ rest)
    = Inr (Op \<lparr>oc_ctr = ctr, oc_actor = ActorId actor, oc_move = After\<rparr>)"
proof -
  let ?la = "length actor"
  let ?b = "uleb ?la @ actor @ uleb (unat ctr) @ rest"
  let ?i0 = "new_input (0 # ?b)"
  let ?i1 = "advance ?i0 1"
  let ?i2 = "advance ?i1 (length (uleb ?la))"
  let ?i3 = "advance ?i2 ?la"
  have "take_1 ?i0 = (Inr (?i1, 0) :: unit parse_error + _)" by (rule take_1_Cons) simp
  moreover have "leb128_u64 id ?i1 = Inr (?i2, word_of_nat ?la)" by (rule leb_count [OF _ assms]) simp
  moreover have "take_n ?la ?i2 = (Inr (?i3, actor) :: unit parse_error + _)" by (simp add: take_n_eq)
  moreover have "leb128_u64 id ?i3 = Inr (advance ?i3 (length (uleb (unat ctr))), ctr)"
    by (rule leb128_u64_complete [where rest = rest]) simp
  ultimately show ?thesis
    by (simp add: cursor_try_from_def parse_0_def invalid_def unat_u64_of_nat [OF assms] del: advance_advance)
qed

text \<open>A cursor is read back from its text, when the hex crate reads back what it writes.\<close>

theorem cursor_text_roundtrip:
  assumes "\<And>b. hex_decode (hex_encode b) = Some b"
  shows "cursor_try_from_str hex_decode (cursor_display hex_encode c) = Some (Inr c)"
proof (cases c)
  case (Op oc)
  let ?n = "show_nat (unat (oc_ctr oc))" and ?h = "hex_encode (actor_bytes (oc_actor oc))"
  let ?p = "case oc_move oc of Before \<Rightarrow> [0x2D :: u8] | After \<Rightarrow> []"
  let ?s = "(?p @ ?n) @ 0x40 # ?h"
  have s: "cursor_display hex_encode c = ?s" by (simp add: Op op_cursor_display_def)
  have dig: "48 \<le> unat b \<and> unat b \<le> 57" if "b \<in> set ?n" for b using show_nat_digits that by blast
  obtain d ds where n: "?n = d # ds" using show_nat_nonempty by (cases ?n) auto
  have d: "48 \<le> unat d \<and> unat d \<le> 57" using dig by (simp add: n)
  then have nd: "d \<noteq> 0x2D" "d \<noteq> 0x2B" by auto
  have "0x40 \<notin> set ?n" using dig [of "0x40"] by auto
  then have at: "find_at ?s = Some (length (?p @ ?n))" by (intro find_at_append) (auto split: move_cursor.split)
  have u: "parse_u64 ?n = Some (oc_ctr oc)"
    using parse_show_nat [of "unat (oc_ctr oc)"] unat_u64_less nd by (simp add: parse_u64_def n)
  have nocont: "\<not> utf8_cont (?s ! 1)"
  proof (cases "oc_move oc")
    case Before
    then show ?thesis using d by (simp add: n utf8_cont_def)
  next
    case After
    have "\<not> utf8_cont b" if "b \<in> set ds" for b using dig [of b] that by (simp add: n utf8_cont_def)
    then show ?thesis using After by (cases ds) (auto simp: n utf8_cont_def)
  qed
  have "length ?s \<noteq> 1" "?s \<noteq> []" by (simp_all add: n)
  moreover have "(if hd ?s = 0x2D then (Before, 1) else (After, 0)) = (oc_move oc, length ?p)"
    using nd by (cases "oc_move oc") (simp_all add: n)
  moreover have "drop (length ?p) (take (length (?p @ ?n)) ?s) = ?n" "drop (length (?p @ ?n) + 1) ?s = ?h" by simp_all
  ultimately have "cursor_from_str hex_decode ?s = Some (Some (Op oc))"
    unfolding cursor_from_str_def using nocont at u assms by (simp del: append_assoc)
  then show ?thesis unfolding s cursor_try_from_str_def by (simp add: Op)
qed (simp_all add: cursor_try_from_str_def cursor_from_str_def)


end
