(* ===== verification/Sequence_Tree.thy ===== *)
theory Sequence_Tree
  imports Slab_Weight
begin

text \<open>
  The tree of \<open>sequence_tree.rs\<close>.  Its code is the one of \<open>slab/tree.rs\<close> without weights, so its operations
  are those of \<open>Span_Tree\<close> with the unit weight, and what holds for these holds for it.
\<close>

type_synonym 'a sequence_tree_node = "('a, unit) tree_node"
type_synonym 'a sequence_tree = "('a, unit) span_tree"

subsection \<open>Nodes\<close>

definition seq_find_child_index :: "'a sequence_tree_node \<Rightarrow> nat \<Rightarrow> (nat \<times> nat) option" where
  "seq_find_child_index = find_child_index"

definition seq_split_child :: "nat \<Rightarrow> 'a sequence_tree_node \<Rightarrow> 'a sequence_tree_node option" where
  "seq_split_child = split_child unit_ops"

definition seq_insert_into_non_full_node :: "nat \<Rightarrow> 'a \<Rightarrow> 'a sequence_tree_node \<Rightarrow> 'a sequence_tree_node option" where
  "seq_insert_into_non_full_node = insert_into_non_full_node unit_ops"

definition seq_remove_from_leaf :: "nat \<Rightarrow> 'a sequence_tree_node \<Rightarrow> ('a \<times> 'a sequence_tree_node) option" where
  "seq_remove_from_leaf = remove_from_leaf unit_ops"

definition seq_remove_element_from_non_leaf :: "nat \<Rightarrow> nat \<Rightarrow> 'a sequence_tree_node \<Rightarrow> ('a \<times> 'a sequence_tree_node) option" where
  "seq_remove_element_from_non_leaf = remove_element_from_non_leaf unit_ops"

definition seq_remove_from_internal_child :: "nat \<Rightarrow> nat \<Rightarrow> 'a sequence_tree_node \<Rightarrow> ('a \<times> 'a sequence_tree_node) option" where
  "seq_remove_from_internal_child = remove_from_internal_child unit_ops"

definition seq_remove_node :: "nat \<Rightarrow> 'a sequence_tree_node \<Rightarrow> ('a \<times> 'a sequence_tree_node) option" where
  "seq_remove_node = remove_node unit_ops"

definition seq_merge :: "'a sequence_tree_node \<Rightarrow> 'a \<Rightarrow> 'a sequence_tree_node \<Rightarrow> 'a sequence_tree_node option" where
  "seq_merge = merge_nodes unit_ops"

subsection \<open>The sequence\<close>

definition seq_new :: "'a sequence_tree" where
  "seq_new = None"

definition seq_len :: "'a sequence_tree \<Rightarrow> nat" where
  "seq_len = tree_len"

definition seq_insert :: "nat \<Rightarrow> 'a \<Rightarrow> 'a sequence_tree \<Rightarrow> 'a sequence_tree option" where
  "seq_insert = tree_insert unit_ops"

definition seq_push :: "'a \<Rightarrow> 'a sequence_tree \<Rightarrow> 'a sequence_tree option" where
  "seq_push = push unit_ops"

definition seq_get :: "nat \<Rightarrow> 'a sequence_tree \<Rightarrow> 'a option" where
  "seq_get = tree_get"

definition seq_remove :: "nat \<Rightarrow> 'a sequence_tree \<Rightarrow> ('a \<times> 'a sequence_tree) option" where
  "seq_remove = tree_remove unit_ops"

definition seq_from_iter :: "'a list \<Rightarrow> 'a sequence_tree option" where
  "seq_from_iter xs = foldl (\<lambda>t x. Option.bind t (seq_push x)) (Some seq_new) xs"

text \<open>The iterator counts beyond the end; \<open>seq_iter_all\<close> runs it until it yields nothing.\<close>

record 'a seq_iter =
  qi_inner :: "'a sequence_tree"
  qi_index :: nat

definition seq_iter :: "'a sequence_tree \<Rightarrow> 'a seq_iter" where
  "seq_iter t = \<lparr>qi_inner = t, qi_index = 0\<rparr>"

definition seq_iter_next :: "'a seq_iter \<Rightarrow> 'a option \<times> 'a seq_iter" where
  "seq_iter_next i = (let i = i\<lparr>qi_index := qi_index i + 1\<rparr> in (seq_get (qi_index i - 1) (qi_inner i), i))"

definition seq_iter_nth :: "nat \<Rightarrow> 'a seq_iter \<Rightarrow> 'a option \<times> 'a seq_iter" where
  "seq_iter_nth n i = (let i = i\<lparr>qi_index := qi_index i + (n + 1)\<rparr> in (seq_get (qi_index i - 1) (qi_inner i), i))"

partial_function (option) seq_iter_all :: "'a seq_iter \<Rightarrow> 'a list option" where
  "seq_iter_all i = (case seq_iter_next i of
     (None, _) \<Rightarrow> Some []
   | (Some x, i) \<Rightarrow> Option.bind (seq_iter_all i) (\<lambda>xs. Some (x # xs)))"

definition seq_to_list :: "'a sequence_tree \<Rightarrow> 'a list option" where
  "seq_to_list t = seq_iter_all (seq_iter t)"

text \<open>\<open>PartialEq\<close>: equal lengths and pairwise equal elements.\<close>

definition seq_eq :: "'a sequence_tree \<Rightarrow> 'a sequence_tree \<Rightarrow> bool option" where
  "seq_eq a b =
     (if seq_len a = seq_len b
      then Option.bind (seq_to_list a) (\<lambda>xs. Option.bind (seq_to_list b) (\<lambda>ys. Some (list_all (\<lambda>(x, y). x = y) (zip xs ys))))
      else Some False)"

subsection \<open>What the operations do\<close>

definition seq_ok :: "'a sequence_tree \<Rightarrow> bool" where
  "seq_ok t = tree_ok unit_ops t"

lemma seq_new_ok [simp]: "seq_ok seq_new" "tree_list seq_new = []"
  by (simp_all add: seq_ok_def seq_new_def tree_ok_def tree_list_def)

lemma seq_len_list: "seq_ok t \<Longrightarrow> seq_len t = length (tree_list t)"
  by (simp add: seq_ok_def seq_len_def tree_len_list)

lemma seq_insert_ok:
  assumes "seq_ok t" and "index \<le> length (tree_list t)"
  shows "\<exists>t'. seq_insert index x t = Some t' \<and> seq_ok t' \<and> tree_list t' = take index (tree_list t) @ x # drop index (tree_list t)"
  using unit.tree_insert_ok [OF assms(1) [unfolded seq_ok_def] assms(2), of x] assms(2)
  by (auto simp: seq_ok_def seq_insert_def vec_insert_def)

lemma seq_remove_ok:
  assumes "seq_ok t" and "index < length (tree_list t)"
  shows "\<exists>t'. seq_remove index t = Some (tree_list t ! index, t') \<and> seq_ok t' \<and> tree_list t' = take index (tree_list t) @ drop (Suc index) (tree_list t)"
  using unit.tree_remove_ok [OF assms(1) [unfolded seq_ok_def] assms(2)] assms(2)
  by (auto simp: seq_ok_def seq_remove_def vec_remove_def)

lemma seq_get_ok: "seq_ok t \<Longrightarrow> seq_get index t = vec_at (tree_list t) index"
  by (simp add: seq_ok_def seq_get_def tree_get_ok)

lemma seq_from_iter_ok: "\<exists>t. seq_from_iter xs = Some t \<and> seq_ok t \<and> tree_list t = xs"
  using unit.push_all_ok [of seq_new xs] seq_new_ok by (auto simp: seq_from_iter_def seq_ok_def seq_push_def)

lemma seq_iter_all_ok:
  assumes "seq_ok t"
  shows "index \<le> length (tree_list t) \<Longrightarrow> seq_iter_all \<lparr>qi_inner = t, qi_index = index\<rparr> = Some (drop index (tree_list t))"
proof (induction "length (tree_list t) - index" arbitrary: index)
  case 0
  then show ?case by (subst seq_iter_all.simps) (simp add: seq_iter_next_def seq_get_ok [OF assms] vec_at_def)
next
  case (Suc n)
  then have i: "index < length (tree_list t)" by simp
  have "seq_iter_all \<lparr>qi_inner = t, qi_index = Suc index\<rparr> = Some (drop (Suc index) (tree_list t))"
    using Suc.hyps(1) [of "Suc index"] Suc.hyps(2) i by simp
  then show ?case using i
    by (subst seq_iter_all.simps) (simp add: seq_iter_next_def seq_get_ok [OF assms] vec_at_def Cons_nth_drop_Suc)
qed

lemma seq_to_list_ok: "seq_ok t \<Longrightarrow> seq_to_list t = Some (tree_list t)"
  using seq_iter_all_ok [of t 0] by (simp add: seq_to_list_def seq_iter_def)

lemma zip_all_eq: "length xs = length ys \<Longrightarrow> list_all (\<lambda>(x, y). x = y) (zip xs ys) \<longleftrightarrow> xs = ys"
  by (induction xs ys rule: list_induct2) auto

lemma seq_eq_ok: "seq_ok a \<Longrightarrow> seq_ok b \<Longrightarrow> seq_eq a b = Some (tree_list a = tree_list b)"
  by (auto simp: seq_eq_def seq_len_list seq_to_list_ok zip_all_eq)

text \<open>Insertions one after the other, as the text values do them.\<close>

definition seq_insert_all :: "nat \<Rightarrow> 'a list \<Rightarrow> 'a sequence_tree \<Rightarrow> 'a sequence_tree option" where
  "seq_insert_all index xs t = foldl (\<lambda>r (n, x). Option.bind r (seq_insert (index + n) x)) (Some t) (enumerate 0 xs)"

lemma seq_insert_all_from:
  "seq_ok t \<Longrightarrow> index + k \<le> length (tree_list t) \<Longrightarrow>
   \<exists>t'. foldl (\<lambda>r (n, x). Option.bind r (seq_insert (index + n) x)) (Some t) (enumerate k xs) = Some t' \<and> seq_ok t'
     \<and> tree_list t' = take (index + k) (tree_list t) @ xs @ drop (index + k) (tree_list t)"
proof (induction xs arbitrary: t k)
  case (Cons x xs)
  obtain u where u: "seq_insert (index + k) x t = Some u" "seq_ok u"
    "tree_list u = (take (index + k) (tree_list t) @ [x]) @ drop (index + k) (tree_list t)"
    using seq_insert_ok [OF Cons.prems, of x] by auto
  have n: "length (take (index + k) (tree_list t) @ [x]) = index + Suc k" using Cons.prems(2) by simp
  have "index + Suc k \<le> length (tree_list u)" using n unfolding u(3) by simp
  from Cons.IH [OF u(2) this] obtain t' where t': "foldl (\<lambda>r (n, x). Option.bind r (seq_insert (index + n) x)) (Some u) (enumerate (Suc k) xs) = Some t'"
    "seq_ok t'" "tree_list t' = take (index + Suc k) (tree_list u) @ xs @ drop (index + Suc k) (tree_list u)" by blast
  have "tree_list t' = take (index + k) (tree_list t) @ (x # xs) @ drop (index + k) (tree_list t)"
    unfolding t'(3) u(3) take_prefix(1) [OF n] take_prefix(2) [OF n, of 0, unfolded add_0_right] by simp
  then show ?case using t'(1,2) u(1) by simp
qed simp

lemma seq_insert_all_ok:
  assumes "seq_ok t" and "index \<le> length (tree_list t)"
  shows "\<exists>t'. seq_insert_all index xs t = Some t' \<and> seq_ok t' \<and> tree_list t' = take index (tree_list t) @ xs @ drop index (tree_list t)"
  using seq_insert_all_from [OF assms(1), of index 0 xs] assms(2) by (simp add: seq_insert_all_def)

end
