(* ===== verification/Text_Value.thy ===== *)
theory Text_Value
  imports Sequence_Tree
begin

text \<open>
  The text values of \<open>text_value.rs\<close>: a text as a tree of UTF-8 or UTF-16 units, of code points or of
  grapheme clusters.  A \<open>str\<close> is the list of its Unicode scalar values; the encodings and the lossy
  decodings of the standard library are written out; the segmentation of the \<open>unicode-segmentation\<close> crate
  is an argument, of which only is used that the clusters of a text make up the text.
\<close>

type_synonym ustr = "nat list"

definition scalar_values :: "ustr \<Rightarrow> bool" where
  "scalar_values s \<longleftrightarrow> list_all (\<lambda>c. c < 0x110000 \<and> \<not> (0xD800 \<le> c \<and> c < 0xE000)) s"

subsection \<open>The encodings of the standard library\<close>

definition utf16_units :: "nat \<Rightarrow> nat list" where
  "utf16_units c = (if c < 0x10000 then [c] else [0xD800 + (c - 0x10000) div 0x400, 0xDC00 + (c - 0x10000) mod 0x400])"

definition encode_utf16 :: "ustr \<Rightarrow> nat list" where
  "encode_utf16 s = concat (map utf16_units s)"

fun from_utf16_lossy :: "nat list \<Rightarrow> ustr" where
  "from_utf16_lossy [] = []"
| "from_utf16_lossy (u # us) =
     (if u < 0xD800 \<or> 0xE000 \<le> u then u # from_utf16_lossy us
      else if 0xDC00 \<le> u then 0xFFFD # from_utf16_lossy us
      else case us of
          [] \<Rightarrow> [0xFFFD]
        | v # vs \<Rightarrow> if 0xDC00 \<le> v \<and> v < 0xE000 then (0x10000 + (u - 0xD800) * 0x400 + (v - 0xDC00)) # from_utf16_lossy vs
            else 0xFFFD # from_utf16_lossy us)"

definition utf8_units :: "nat \<Rightarrow> nat list" where
  "utf8_units c =
     (if c < 0x80 then [c]
      else if c < 0x800 then [0xC0 + c div 64, 0x80 + c mod 64]
      else if c < 0x10000 then [0xE0 + c div 4096, 0x80 + (c div 64) mod 64, 0x80 + c mod 64]
      else [0xF0 + c div 262144, 0x80 + (c div 4096) mod 64, 0x80 + (c div 64) mod 64, 0x80 + c mod 64])"

definition utf8_bytes :: "ustr \<Rightarrow> nat list" where
  "utf8_bytes s = concat (map utf8_units s)"

definition continuation :: "nat \<Rightarrow> bool" where
  "continuation b \<longleftrightarrow> 0x80 \<le> b \<and> b < 0xC0"

text \<open>The second bytes that may follow the first byte of three or four.\<close>

definition second_of_3 :: "nat \<Rightarrow> nat \<Rightarrow> bool" where
  "second_of_3 b c \<longleftrightarrow> continuation c \<and> (b = 0xE0 \<longrightarrow> 0xA0 \<le> c) \<and> (b = 0xED \<longrightarrow> c < 0xA0)"

definition second_of_4 :: "nat \<Rightarrow> nat \<Rightarrow> bool" where
  "second_of_4 b c \<longleftrightarrow> continuation c \<and> (b = 0xF0 \<longrightarrow> 0x90 \<le> c) \<and> (b = 0xF4 \<longrightarrow> c < 0x90)"

text \<open>Every maximal prefix of a sequence that is cut off or wrong becomes one replacement character.\<close>

fun from_utf8_lossy :: "nat list \<Rightarrow> ustr" where
  "from_utf8_lossy [] = []"
| "from_utf8_lossy (b # bs) =
     (if b < 0x80 then b # from_utf8_lossy bs
      else if 0xC2 \<le> b \<and> b < 0xE0 then (case bs of
          c # cs \<Rightarrow> if continuation c then ((b - 0xC0) * 64 + (c - 0x80)) # from_utf8_lossy cs else 0xFFFD # from_utf8_lossy bs
        | [] \<Rightarrow> [0xFFFD])
      else if 0xE0 \<le> b \<and> b < 0xF0 then (case bs of
          c # cs \<Rightarrow> if second_of_3 b c then (case cs of
              d # ds \<Rightarrow> if continuation d then ((b - 0xE0) * 4096 + (c - 0x80) * 64 + (d - 0x80)) # from_utf8_lossy ds
                else 0xFFFD # from_utf8_lossy cs
            | [] \<Rightarrow> [0xFFFD]) else 0xFFFD # from_utf8_lossy bs
        | [] \<Rightarrow> [0xFFFD])
      else if 0xF0 \<le> b \<and> b < 0xF5 then (case bs of
          c # cs \<Rightarrow> if second_of_4 b c then (case cs of
              d # ds \<Rightarrow> if continuation d then (case ds of
                  e # es \<Rightarrow> if continuation e
                    then ((b - 0xF0) * 262144 + (c - 0x80) * 4096 + (d - 0x80) * 64 + (e - 0x80)) # from_utf8_lossy es
                    else 0xFFFD # from_utf8_lossy ds
                | [] \<Rightarrow> [0xFFFD]) else 0xFFFD # from_utf8_lossy cs
            | [] \<Rightarrow> [0xFFFD]) else 0xFFFD # from_utf8_lossy bs
        | [] \<Rightarrow> [0xFFFD])
      else 0xFFFD # from_utf8_lossy bs)"

subsection \<open>Text values\<close>

datatype text_encoding = UnicodeCodePoint | Utf8CodeUnit | Utf16CodeUnit | GraphemeCluster

definition text_width :: "(ustr \<Rightarrow> ustr list) \<Rightarrow> text_encoding \<Rightarrow> ustr \<Rightarrow> nat" where
  "text_width graphemes enc s = (case enc of
     UnicodeCodePoint \<Rightarrow> length s
   | Utf8CodeUnit \<Rightarrow> length (utf8_bytes s)
   | Utf16CodeUnit \<Rightarrow> length (encode_utf16 s)
   | GraphemeCluster \<Rightarrow> length (graphemes s))"

datatype text_value =
    TextUtf8 "nat sequence_tree"
  | TextUtf16 "nat sequence_tree"
  | TextCodePoint "nat sequence_tree"
  | TextGrapheme "ustr sequence_tree"

definition text_new :: "(ustr \<Rightarrow> ustr list) \<Rightarrow> ustr \<Rightarrow> text_encoding \<Rightarrow> text_value option" where
  "text_new graphemes s enc = (case enc of
     Utf8CodeUnit \<Rightarrow> map_option TextUtf8 (seq_from_iter (utf8_bytes s))
   | Utf16CodeUnit \<Rightarrow> map_option TextUtf16 (seq_from_iter (encode_utf16 s))
   | UnicodeCodePoint \<Rightarrow> map_option TextCodePoint (seq_from_iter s)
   | GraphemeCluster \<Rightarrow> map_option TextGrapheme (seq_from_iter (graphemes s)))"

fun make_string :: "text_value \<Rightarrow> ustr option" where
  "make_string (TextUtf8 t) = map_option from_utf8_lossy (seq_to_list t)"
| "make_string (TextUtf16 t) = map_option from_utf16_lossy (seq_to_list t)"
| "make_string (TextCodePoint t) = seq_to_list t"
| "make_string (TextGrapheme t) = map_option concat (seq_to_list t)"

fun text_splice :: "(ustr \<Rightarrow> ustr list) \<Rightarrow> nat \<Rightarrow> ustr \<Rightarrow> text_value \<Rightarrow> text_value option" where
  "text_splice graphemes index v (TextUtf8 t) = map_option TextUtf8 (seq_insert_all index (utf8_bytes v) t)"
| "text_splice graphemes index v (TextUtf16 t) = map_option TextUtf16 (seq_insert_all index (encode_utf16 v) t)"
| "text_splice graphemes index v (TextCodePoint t) = map_option TextCodePoint (seq_insert_all index v t)"
| "text_splice graphemes index v (TextGrapheme t) = map_option TextGrapheme (seq_insert_all index (graphemes v) t)"

datatype mismatched_encoding = MismatchedEncoding

text \<open>The outer \<open>None\<close> is a panic.\<close>

fun splice_text_value :: "nat \<Rightarrow> text_value \<Rightarrow> text_value \<Rightarrow> (mismatched_encoding + text_value) option" where
  "splice_text_value index (TextUtf16 v) (TextUtf16 t) =
     Option.bind (seq_to_list v) (\<lambda>xs. map_option (Inr \<circ> TextUtf16) (seq_insert_all index xs t))"
| "splice_text_value index (TextUtf8 v) (TextUtf8 t) =
     Option.bind (seq_to_list v) (\<lambda>xs. map_option (Inr \<circ> TextUtf8) (seq_insert_all index xs t))"
| "splice_text_value index (TextCodePoint v) (TextCodePoint t) =
     Option.bind (seq_to_list v) (\<lambda>xs. map_option (Inr \<circ> TextCodePoint) (seq_insert_all index xs t))"
| "splice_text_value index (TextGrapheme v) (TextGrapheme t) =
     Option.bind (seq_to_list v) (\<lambda>xs. map_option (Inr \<circ> TextGrapheme) (seq_insert_all index xs t))"
| "splice_text_value index _ _ = Some (Inl MismatchedEncoding)"

fun text_len :: "text_value \<Rightarrow> nat" where
  "text_len (TextUtf8 t) = seq_len t"
| "text_len (TextUtf16 t) = seq_len t"
| "text_len (TextCodePoint t) = seq_len t"
| "text_len (TextGrapheme t) = seq_len t"

fun text_remove :: "nat \<Rightarrow> text_value \<Rightarrow> text_value option" where
  "text_remove index (TextUtf8 t) = map_option (TextUtf8 \<circ> snd) (seq_remove index t)"
| "text_remove index (TextUtf16 t) = map_option (TextUtf16 \<circ> snd) (seq_remove index t)"
| "text_remove index (TextCodePoint t) = map_option (TextCodePoint \<circ> snd) (seq_remove index t)"
| "text_remove index (TextGrapheme t) = map_option (TextGrapheme \<circ> snd) (seq_remove index t)"

subsection \<open>Properties\<close>

lemma utf16_units_read:
  "c < 0x110000 \<Longrightarrow> \<not> (0xD800 \<le> c \<and> c < 0xE000) \<Longrightarrow> from_utf16_lossy (utf16_units c @ us) = c # from_utf16_lossy us"
proof (cases "c < 0x10000")
  case False
  assume c: "c < 0x110000"
  let ?d = "c - 0x10000"
  have d: "?d div 0x400 < 0x400" "?d mod 0x400 < 0x400" "?d div 0x400 * 0x400 + ?d mod 0x400 = ?d" using c by (simp_all add: less_mult_imp_div_less)
  then show ?thesis using False by (simp add: utf16_units_def)
qed (auto simp: utf16_units_def)

lemma utf16_read: "scalar_values s \<Longrightarrow> from_utf16_lossy (encode_utf16 s @ us) = s @ from_utf16_lossy us"
  by (induction s) (simp_all add: scalar_values_def encode_utf16_def utf16_units_read)

lemma div_64: "(c :: nat) div 4096 = c div 64 div 64" "c div 262144 = c div 64 div 64 div 64"
  by (simp_all flip: div_mult2_eq)

lemma utf8_units_read:
  assumes "c < 0x110000" and "\<not> (0xD800 \<le> c \<and> c < 0xE000)"
  shows "from_utf8_lossy (utf8_units c @ bs) = c # from_utf8_lossy bs"
proof -
  consider "c < 0x80" | "0x80 \<le> c" "c < 0x800" | "0x800 \<le> c" "c < 0x10000" | "0x10000 \<le> c" using assms(1) by linarith
  then show ?thesis
  proof cases
    case 2
    define a b where "a = c div 64" and "b = c mod 64"
    have e: "c = a * 64 + b" "b < 64" by (simp_all add: a_def b_def)
    then have "2 \<le> a" "a < 32" using 2 by linarith+
    moreover have "utf8_units c = [0xC0 + a, 0x80 + b]" using 2 by (simp add: utf8_units_def a_def b_def)
    ultimately show ?thesis using e by (simp add: continuation_def)
  next
    case 3
    define a b d where "a = c div 4096" and "b = (c div 64) mod 64" and "d = c mod 64"
    have e: "c = a * 4096 + b * 64 + d" "b < 64" "d < 64" 
    proof -
      have "c = c div 64 * 64 + d" "c div 64 = a * 64 + b" unfolding a_def b_def d_def div_64 by (simp_all only: div_mult_mod_eq)
      then show "c = a * 4096 + b * 64 + d" by linarith
    qed (simp_all add: b_def d_def)
    have "second_of_3 (0xE0 + a) (0x80 + b)" using e 3 assms(2) by (auto simp: second_of_3_def continuation_def)
    moreover have "utf8_units c = [0xE0 + a, 0x80 + b, 0x80 + d]" using 3 by (simp add: utf8_units_def a_def b_def d_def)
    moreover have "a < 16" using e(1) 3 by linarith
    ultimately show ?thesis using e by (simp add: continuation_def)
  next
    case 4
    define a b d f where "a = c div 262144" and "b = (c div 4096) mod 64" and "d = (c div 64) mod 64" and "f = c mod 64"
    have e: "c = a * 262144 + b * 4096 + d * 64 + f" "b < 64" "d < 64" "f < 64" 
    proof -
      have "c = c div 64 * 64 + f" "c div 64 = c div 64 div 64 * 64 + d" "c div 64 div 64 = a * 64 + b"
        unfolding a_def b_def d_def f_def div_64 by (simp_all only: div_mult_mod_eq)
      then show "c = a * 262144 + b * 4096 + d * 64 + f" by linarith
    qed (simp_all add: b_def d_def f_def)
    have "second_of_4 (0xF0 + a) (0x80 + b)" using e 4 assms(1) by (auto simp: second_of_4_def continuation_def)
    moreover have "utf8_units c = [0xF0 + a, 0x80 + b, 0x80 + d, 0x80 + f]" using 4 by (simp add: utf8_units_def a_def b_def d_def f_def)
    moreover have "a < 5" using e(1) assms(1) by linarith
    ultimately show ?thesis using e by (simp add: continuation_def)
  qed (simp add: utf8_units_def)
qed

lemma utf8_read: "scalar_values s \<Longrightarrow> from_utf8_lossy (utf8_bytes s @ bs) = s @ from_utf8_lossy bs"
  by (induction s) (simp_all add: scalar_values_def utf8_bytes_def utf8_units_read)

lemma encode_append: "encode_utf16 (s @ t) = encode_utf16 s @ encode_utf16 t" "utf8_bytes (s @ t) = utf8_bytes s @ utf8_bytes t"
  by (simp_all add: encode_utf16_def utf8_bytes_def)

lemma decode_parts:
  assumes "scalar_values p" and "scalar_values v" and "scalar_values q"
  shows "from_utf16_lossy (encode_utf16 p @ encode_utf16 v @ encode_utf16 q) = p @ v @ q"
    "from_utf8_lossy (utf8_bytes p @ utf8_bytes v @ utf8_bytes q) = p @ v @ q"
  using assms utf16_read [of p] utf16_read [of v] utf16_read [of q "[]"] utf8_read [of p] utf8_read [of v] utf8_read [of q "[]"] by simp_all

text \<open>A tree of the parts before and behind an index, spliced there.\<close>

lemma spliced:
  "\<exists>tp t t'. seq_from_iter xs = Some tp \<and> seq_len tp = length xs \<and> seq_from_iter (xs @ ys) = Some t \<and> seq_to_list t = Some (xs @ ys) \<and>
     seq_insert_all (seq_len tp) zs t = Some t' \<and> seq_to_list t' = Some (xs @ zs @ ys)"
proof -
  obtain tp where tp: "seq_from_iter xs = Some tp" "seq_ok tp" "tree_list tp = xs" using seq_from_iter_ok by blast
  obtain t where t: "seq_from_iter (xs @ ys) = Some t" "seq_ok t" "tree_list t = xs @ ys" using seq_from_iter_ok by blast
  have "seq_len tp = length xs" using seq_len_list [OF tp(2)] tp(3) by simp
  moreover obtain t' where "seq_insert_all (length xs) zs t = Some t'" "seq_ok t'" "tree_list t' = xs @ zs @ ys"
    using seq_insert_all_ok [OF t(2), of "length xs" zs] t(3) by auto
  ultimately show ?thesis using tp(1) t by (auto simp: seq_to_list_ok)
qed

text \<open>C25: For each of the four encodings a text value reads back as the text it was made of, its length is
  the width the encoding gives that text, and splicing a text at the index that is the length of a prefix (for
  grapheme clusters: of a prefix whose end is a border of clusters) yields the text with the other inserted behind that prefix, without a panic.\<close>

theorem text_splice_inserts:
  assumes "scalar_values p" and "scalar_values v" and "scalar_values q"
    and g: "\<And>s. concat (graphemes s) = s" and b: "enc = GraphemeCluster \<Longrightarrow> graphemes (p @ q) = graphemes p @ graphemes q"
  shows "\<exists>tp t t'. text_new graphemes p enc = Some tp \<and> text_len tp = text_width graphemes enc p \<and>
    text_new graphemes (p @ q) enc = Some t \<and> make_string t = Some (p @ q) \<and>
    text_splice graphemes (text_len tp) v t = Some t' \<and> make_string t' = Some (p @ v @ q)"
proof (cases enc)
  case Utf8CodeUnit
  have "from_utf8_lossy (utf8_bytes p @ utf8_bytes q) = p @ q"
    using decode_parts(2) [of p "[]" q] assms(1,3) by (simp add: scalar_values_def utf8_bytes_def)
  then show ?thesis using spliced [of "utf8_bytes p" "utf8_bytes q" "utf8_bytes v"] decode_parts(2) [OF assms(1-3)]
    by (auto simp: text_width_def Utf8CodeUnit text_new_def encode_append)
next
  case Utf16CodeUnit
  have "from_utf16_lossy (encode_utf16 p @ encode_utf16 q) = p @ q"
    using decode_parts(1) [of p "[]" q] assms(1,3) by (simp add: scalar_values_def encode_utf16_def)
  then show ?thesis using spliced [of "encode_utf16 p" "encode_utf16 q" "encode_utf16 v"] decode_parts(1) [OF assms(1-3)]
    by (auto simp: text_width_def Utf16CodeUnit text_new_def encode_append)
next
  case UnicodeCodePoint
  then show ?thesis using spliced [of p q v] by (auto simp: text_width_def text_new_def)
next
  case GraphemeCluster
  then show ?thesis using spliced [of "graphemes p" "graphemes q" "graphemes v"] b g by (auto simp: text_width_def text_new_def)
qed

theorem text_splice_inserts_witness:
  "\<exists>tp t t'. text_new (map (\<lambda>c. [c])) [97] Utf16CodeUnit = Some tp \<and>
     text_len tp = text_width (map (\<lambda>c. [c])) Utf16CodeUnit [97] \<and> text_new (map (\<lambda>c. [c])) ([97] @ [98]) Utf16CodeUnit = Some t \<and>
     make_string t = Some ([97] @ [98]) \<and> text_splice (map (\<lambda>c. [c])) (text_len tp) [0x1F600] t = Some t' \<and>
     make_string t' = Some ([97] @ [0x1F600] @ [98])"
proof -
  have "concat (map (\<lambda>c. [c]) s) = s" for s :: ustr by simp
  then show ?thesis by (intro text_splice_inserts) (simp_all add: scalar_values_def)
qed

end
