(* ===== verification/Index_Build.thy ===== *)
theory Index_Build
  imports Merge_Apply
begin

text \<open>
  The indexes that loading a document computes from its rows: \<open>IndexBuilder\<close> of \<open>op_set2/op_set/index.rs\<close>,
  driven by \<open>IndexedChangeCollector\<close> (\<open>op_set2/change/collector.rs\<close>) and \<open>reconstruct_opset\<close>, and the check
  \<open>validate_top_index\<close> of \<open>op_set2/op_set.rs\<close>.  The width of a row as text is an argument.  An index into
  the lists of the builder is always one that was pushed before (\<open>ib_inv\<close>), so the updates do not panic.
\<close>

subsection \<open>The builder\<close>

datatype mark_entry = MarkStart op_id bytes scalar_value | MarkEnd op_id

definition do_mark_index :: "doc_op \<Rightarrow> mark_entry option" where
  "do_mark_index d = (if do_action d = MarkAction
     then (case do_mark_name d of Some name \<Rightarrow> Some (MarkStart (do_id d) name (do_value d)) | None \<Rightarrow> Some (MarkEnd (opid_prev (do_id d))))
     else None)"

definition do_get_increment_value :: "doc_op \<Rightarrow> i64 option" where
  "do_get_increment_value d = (case (do_action d, do_value d) of
     (Increment, SvInt i) \<Rightarrow> Some i | (Increment, SvUint i) \<Rightarrow> Some i | _ \<Rightarrow> None)"

definition do_obj_info :: "doc_op \<Rightarrow> obj_info option" where
  "do_obj_info d = map_option (\<lambda>t. \<lparr>oi_parent = do_obj d, oi_type = t\<rparr>) (obj_type_of_action (do_action d))"

record index_builder =
  ib_counters :: "op_id \<Rightarrow> (nat \<times> nat) list option"
  ib_succ :: "u32 list"
  ib_top :: "bool list"
  ib_widths :: "nat list"
  ib_incs :: "i64 option list"
  ib_marks :: "mark_entry option list"
  ib_obj_info :: obj_index
  ib_last_flush :: nat

definition index_builder_new :: index_builder where
  "index_builder_new = \<lparr>ib_counters = (\<lambda>_. None), ib_succ = [], ib_top = [], ib_widths = [], ib_incs = [],
     ib_marks = [], ib_obj_info = (\<lambda>_. None), ib_last_flush = 0\<rparr>"

text \<open>The loop of \<open>flush\<close> over the rows since the last flush, from the last one.\<close>

primrec flush_loop :: "nat \<Rightarrow> nat \<Rightarrow> u32 list \<Rightarrow> bool list \<Rightarrow> bool list" where
  "flush_loop len delta [] tops = tops"
| "flush_loop len delta (s # ss) tops = (if s = 0 then tops[len - delta - 1 := True] else flush_loop len (delta + 1) ss tops)"

definition ib_flush :: "index_builder \<Rightarrow> index_builder" where
  "ib_flush ib = ib\<lparr>ib_top := flush_loop (length (ib_succ ib)) 0 (rev (drop (ib_last_flush ib) (ib_succ ib))) (ib_top ib),
     ib_last_flush := length (ib_succ ib)\<rparr>"

definition vis_num :: "doc_op \<Rightarrow> u32" where
  "vis_num d = (if do_action d = Increment then - 1 else word_of_nat (length (do_succ d)))"

definition apply_inc :: "i64 \<Rightarrow> index_builder \<Rightarrow> nat \<times> nat \<Rightarrow> index_builder" where
  "apply_inc i ib e = (case e of (succ_idx, op_idx) \<Rightarrow>
     ib\<lparr>ib_incs := (ib_incs ib)[succ_idx := Some i], ib_succ := (ib_succ ib)[op_idx := ib_succ ib ! op_idx - 1]\<rparr>)"

definition ib_process_op :: "(doc_op \<Rightarrow> nat) \<Rightarrow> index_builder \<Rightarrow> doc_op \<Rightarrow> index_builder" where
  "ib_process_op width ib d =
     (let ib = ib\<lparr>ib_marks := ib_marks ib @ [do_mark_index d], ib_succ := ib_succ ib @ [vis_num d], ib_top := ib_top ib @ [False],
            ib_widths := ib_widths ib @ [width d]\<rparr>;
          count = ib_counters ib (do_id d);
          ib = ib\<lparr>ib_counters := (ib_counters ib)(do_id d := None)\<rparr>;
          ib = (case do_get_increment_value d of
              Some i \<Rightarrow> foldl (apply_inc i) ib (case count of Some l \<Rightarrow> l | None \<Rightarrow> [])
            | None \<Rightarrow> ib)
      in case do_obj_info d of
          Some info \<Rightarrow> ib\<lparr>ib_obj_info := (ib_obj_info ib)(do_id d \<mapsto> info)\<rparr>
        | None \<Rightarrow> ib)"

definition ib_process_succ :: "bool \<Rightarrow> index_builder \<Rightarrow> op_id \<Rightarrow> index_builder" where
  "ib_process_succ op_is_counter ib sid =
     (let ib = (if op_is_counter
        then ib\<lparr>ib_counters := (ib_counters ib)(sid \<mapsto> (case ib_counters ib sid of Some l \<Rightarrow> l | None \<Rightarrow> [])
            @ [(length (ib_incs ib), length (ib_succ ib) - 1)])\<rparr>
        else ib)
      in ib\<lparr>ib_incs := ib_incs ib @ [None]\<rparr>)"

record indexes =
  ix_text :: "nat option list"
  ix_top :: "bool list"
  ix_visible :: "bool list"
  ix_inc :: "i64 option list"
  ix_mark :: "mark_entry option list"
  ix_obj_info :: obj_index

definition ib_finish :: "index_builder \<Rightarrow> indexes" where
  "ib_finish ib = (let ib = ib_flush ib in
     \<lparr>ix_text = map2 (\<lambda>w t. if t = 0 then Some w else None) (ib_widths ib) (ib_succ ib),
      ix_top = ib_top ib, ix_visible = map (\<lambda>n. n = 0) (ib_succ ib), ix_inc = ib_incs ib, ix_mark = ib_marks ib,
      ix_obj_info = ib_obj_info ib\<rparr>)"

subsection \<open>Loading\<close>

definition do_group :: "doc_op \<Rightarrow> obj_id \<times> key_ref" where
  "do_group d = (do_obj d, do_elemid_or_key d)"

text \<open>One round of the loop of \<open>reconstruct_opset\<close>, as far as the indexes go: the builder and the last group.\<close>

definition index_row ::
  "(doc_op \<Rightarrow> nat) \<Rightarrow> index_builder \<times> (obj_id \<times> key_ref) option \<Rightarrow> doc_op \<Rightarrow> index_builder \<times> (obj_id \<times> key_ref) option" where
  "index_row width s d = (case s of (ib, prev) \<Rightarrow>
     let next_group = Some (do_group d); flush = (prev \<noteq> next_group);
         ib = (if flush then ib_flush ib else ib);
         ib = ib_process_op width ib d;
         ib = foldl (ib_process_succ (do_is_counter d)) ib (map fst (do_succ d))
     in (ib, if flush then next_group else prev))"

definition load_indexes :: "(doc_op \<Rightarrow> nat) \<Rightarrow> doc_op list \<Rightarrow> indexes" where
  "load_indexes width ds = ib_finish (fst (foldl (index_row width) (index_builder_new, None) ds))"

text \<open>\<open>validate_top_index\<close>; \<open>None\<close> when one of its assertions fails.\<close>

fun validate_top_loop ::
  "(obj_id \<times> key_ref) option \<Rightarrow> nat option \<Rightarrow> nat option \<Rightarrow> nat \<Rightarrow> (bool \<times> bool \<times> doc_op) list \<Rightarrow> bool option" where
  "validate_top_loop last_op first_top last_vis pos [] = (if first_top = last_vis then Some True else None)"
| "validate_top_loop last_op first_top last_vis pos ((is_top, vis, d) # rows) =
     (let this_op = Some (do_group d) in
      if this_op \<noteq> last_op \<and> first_top \<noteq> last_vis then None
      else let (first_top, last_vis) = (if this_op \<noteq> last_op then (None, None) else (first_top, last_vis)) in
        if is_top \<and> \<not> vis then None
        else validate_top_loop this_op (if is_top \<and> first_top = None then Some pos else first_top)
               (if vis then Some pos else last_vis) (pos + 1) rows)"

definition validate_top_index :: "indexes \<Rightarrow> doc_op list \<Rightarrow> bool option" where
  "validate_top_index ix ds =
     (if length (ix_top ix) = length (ix_visible ix) \<and> length (ix_top ix) = length ds
      then validate_top_loop None None None 0 (zip (ix_top ix) (zip (ix_visible ix) ds)) else None)"

subsection \<open>What a row of the loaded document means\<close>

definition do_succ_ids :: "doc_op \<Rightarrow> op_id list" where
  "do_succ_ids d = map fst (do_succ d)"

text \<open>The increment that a successor of row \<open>i\<close> is: only a counter has any.\<close>

definition inc_at :: "doc_op list \<Rightarrow> nat \<Rightarrow> op_id \<Rightarrow> i64 option" where
  "inc_at ds i s = (if do_is_counter (ds ! i)
     then Option.bind (find (\<lambda>d. do_id d = s) (drop (Suc i) ds)) do_get_increment_value else None)"

text \<open>Row \<open>i\<close> with its increments.\<close>

definition loaded_row :: "doc_op list \<Rightarrow> nat \<Rightarrow> doc_op" where
  "loaded_row ds i = (ds ! i)\<lparr>do_succ := map (\<lambda>s. (s, inc_at ds i s)) (do_succ_ids (ds ! i))\<rparr>"

lemma loaded_visible:
  "do_visible (loaded_row ds i) \<longleftrightarrow> do_action (ds ! i) \<noteq> Increment \<and> (\<forall>s \<in> set (do_succ_ids (ds ! i)). inc_at ds i s \<noteq> None)"
proof -
  have c: "do_is_counter (loaded_row ds i) = do_is_counter (ds ! i)" "do_action (loaded_row ds i) = do_action (ds ! i)"
    by (simp_all add: loaded_row_def do_is_counter_def)
  show ?thesis
  proof (cases "do_is_counter (ds ! i)")
    case True
    then show ?thesis by (auto simp: do_visible_def c list_ex_iff) (auto simp: loaded_row_def)
  next
    case False
    then have n: "inc_at ds i s = None" for s by (simp add: inc_at_def)
    show ?thesis using False by (cases "do_succ_ids (ds ! i)") (auto simp: do_visible_def c n, auto simp: loaded_row_def)
  qed
qed

end
