(* ===== verification/Index_Inv.thy ===== *)
theory Index_Inv
  imports Index_Build
begin

text \<open>
  The invariant of the index builder: what its counters, its counts of successors and its increments are
  after the rows that it has seen, and what its flushes leave in the index of top rows.
\<close>

subsection \<open>Positions of successors\<close>

definition offs :: "doc_op list \<Rightarrow> nat \<Rightarrow> nat" where
  "offs ds i = sum_list (map (\<lambda>d. length (do_succ_ids d)) (take i ds))"

lemma offs_Suc: "i < length ds \<Longrightarrow> offs ds (Suc i) = offs ds i + length (do_succ_ids (ds ! i))"
  by (simp add: offs_def take_Suc_conv_app_nth)

lemma offs_snoc: "i \<le> length ds \<Longrightarrow> offs (ds @ [d]) i = offs ds i"
  by (simp add: offs_def)

lemma offs_mono: "i \<le> j \<Longrightarrow> offs ds i \<le> offs ds j"
proof -
  assume "i \<le> j"
  then have "take j ds = take i ds @ take (j - i) (drop i ds)" by (metis le_add_diff_inverse take_add)
  then show ?thesis by (simp add: offs_def)
qed

lemma sub_unique:
  assumes "offs ds i + k = offs ds j + l" and "i < length ds" "j < length ds" and "k < length (do_succ_ids (ds ! i))" "l < length (do_succ_ids (ds ! j))"
  shows "i = j \<and> k = l"
proof -
  have "\<not> i < j" using assms offs_mono [of "Suc i" j ds] offs_Suc [of i ds] by auto
  moreover have "\<not> j < i" using assms offs_mono [of "Suc j" i ds] offs_Suc [of j ds] by auto
  ultimately show ?thesis using assms(1) by auto
qed

subsection \<open>Pending successors\<close>

definition sub_at :: "doc_op list \<Rightarrow> nat \<Rightarrow> nat \<Rightarrow> nat \<Rightarrow> op_id \<Rightarrow> bool" where
  "sub_at ds p i k s \<longleftrightarrow> i < length ds \<and> k < length (do_succ_ids (ds ! i)) \<and> p = offs ds i + k \<and> do_succ_ids (ds ! i) ! k = s"

lemma sub_at_unique:
  assumes "sub_at ds p i k s" and "sub_at ds p j l x"
  shows "j = i \<and> l = k \<and> x = s"
proof -
  have "j = i \<and> l = k" using assms by (intro sub_unique [of ds j l i k]) (simp_all add: sub_at_def)
  then show ?thesis using assms by (auto simp: sub_at_def)
qed

definition unseen :: "doc_op list \<Rightarrow> nat \<Rightarrow> op_id \<Rightarrow> bool" where
  "unseen ds i s \<longleftrightarrow> (\<forall>j. i < j \<longrightarrow> j < length ds \<longrightarrow> do_id (ds ! j) \<noteq> s)"

definition pending :: "doc_op list \<Rightarrow> nat \<Rightarrow> op_id \<Rightarrow> (nat \<times> nat) set" where
  "pending ds n s = {(p, i). p < n \<and> (\<exists>k. sub_at ds p i k s) \<and> do_is_counter (ds ! i) \<and> unseen ds i s}"

definition resolved :: "doc_op list \<Rightarrow> nat \<Rightarrow> nat set" where
  "resolved ds i = {k. k < length (do_succ_ids (ds ! i)) \<and> inc_at ds i (do_succ_ids (ds ! i) ! k) \<noteq> None}"

definition clist :: "index_builder \<Rightarrow> op_id \<Rightarrow> (nat \<times> nat) list" where
  "clist ib s = (case ib_counters ib s of Some l \<Rightarrow> l | None \<Rightarrow> [])"

definition ib_inv :: "doc_op list \<Rightarrow> index_builder \<Rightarrow> bool" where
  "ib_inv ds ib \<longleftrightarrow> length (ib_succ ib) = length ds \<and> length (ib_top ib) = length ds
     \<and> (\<forall>s. distinct (clist ib s) \<and> set (clist ib s) = pending ds (length (ib_incs ib)) s)
     \<and> (\<forall>i < length ds. ib_succ ib ! i = vis_num (ds ! i) - word_of_nat (card (resolved ds i)))
     \<and> (\<forall>p i k s. p < length (ib_incs ib) \<longrightarrow> sub_at ds p i k s \<longrightarrow> ib_incs ib ! p = inc_at ds i s)"

lemma unseen_find: "unseen ds i s \<longleftrightarrow> find (\<lambda>d. do_id d = s) (drop (Suc i) ds) = None"
proof -
  have "find (\<lambda>d. do_id d = s) (drop (Suc i) ds) = None \<longleftrightarrow> (\<forall>k < length (drop (Suc i) ds). do_id (drop (Suc i) ds ! k) \<noteq> s)"
    by (auto simp: find_None_iff in_set_conv_nth)
  also have "\<dots> \<longleftrightarrow> unseen ds i s"
  proof
    assume a: "\<forall>k < length (drop (Suc i) ds). do_id (drop (Suc i) ds ! k) \<noteq> s"
    show "unseen ds i s" unfolding unseen_def
    proof (intro allI impI)
      fix j assume "i < j" "j < length ds"
      then show "do_id (ds ! j) \<noteq> s" using a [THEN spec, of "j - Suc i"] by simp
    qed
  qed (simp add: unseen_def)
  finally show ?thesis by simp
qed

lemma find_append: "find P (xs @ ys) = (case find P xs of Some x \<Rightarrow> Some x | None \<Rightarrow> find P ys)"
  by (induction xs) auto

lemma inc_at_snoc:
  "i < length ds \<Longrightarrow> inc_at (ds @ [d]) i s
    = (if unseen ds i s then (if do_is_counter (ds ! i) \<and> do_id d = s then do_get_increment_value d else None) else inc_at ds i s)"
  by (auto simp: inc_at_def unseen_find find_append nth_append)

lemma inc_at_unseen: "unseen ds i s \<Longrightarrow> inc_at ds i s = None"
  by (simp add: inc_at_def unseen_find)

lemma unseen_snoc: "i < length ds \<Longrightarrow> unseen (ds @ [d]) i s \<longleftrightarrow> unseen ds i s \<and> do_id d \<noteq> s"
  by (auto simp: unseen_def nth_append less_Suc_eq)

lemma sub_at_snoc: "i < length ds \<Longrightarrow> sub_at (ds @ [d]) p i k s \<longleftrightarrow> sub_at ds p i k s"
  by (simp add: sub_at_def nth_append offs_snoc)

lemma sub_at_last: "sub_at (ds @ [d]) p (length ds) k s \<Longrightarrow> offs ds (length ds) \<le> p"
  by (simp add: sub_at_def offs_snoc)

lemma pending_snoc:
  assumes "n = offs ds (length ds)"
  shows "pending (ds @ [d]) n s = (if do_id d = s then {} else pending ds n s)"
proof -
  have "(p, i) \<in> pending (ds @ [d]) n s \<longleftrightarrow> (p, i) \<in> (if do_id d = s then {} else pending ds n s)" for p i
  proof (cases "i < length ds")
    case True
    then show ?thesis by (auto simp: pending_def sub_at_snoc unseen_snoc nth_append)
  next
    case False
    have "\<not> (p < n \<and> sub_at (ds @ [d]) p i k s)" for k
      using False sub_at_last [of ds d p k s] assms by (cases "i = length ds") (auto simp: sub_at_def)
    moreover have "\<not> sub_at ds p i k s" for k using False by (simp add: sub_at_def)
    ultimately show ?thesis by (auto simp: pending_def)
  qed
  then show ?thesis by auto
qed

subsection \<open>An increment\<close>

lemma apply_incs:
  "length (ib_incs (foldl (apply_inc v) ib l)) = length (ib_incs ib)" "length (ib_succ (foldl (apply_inc v) ib l)) = length (ib_succ ib)"
  "ib_top (foldl (apply_inc v) ib l) = ib_top ib" "ib_counters (foldl (apply_inc v) ib l) = ib_counters ib"
  "ib_widths (foldl (apply_inc v) ib l) = ib_widths ib" "ib_marks (foldl (apply_inc v) ib l) = ib_marks ib"
  "ib_last_flush (foldl (apply_inc v) ib l) = ib_last_flush ib" "ib_obj_info (foldl (apply_inc v) ib l) = ib_obj_info ib"
  by (induction l arbitrary: ib) (simp_all add: apply_inc_def split: prod.splits)

lemma apply_incs_incs:
  "p < length (ib_incs ib) \<Longrightarrow> ib_incs (foldl (apply_inc v) ib l) ! p = (if p \<in> fst ` set l then Some v else ib_incs ib ! p)"
proof (induction l arbitrary: ib)
  case (Cons e l)
  have "p < length (ib_incs (apply_inc v ib e))" using Cons.prems by (simp add: apply_inc_def split: prod.split)
  from Cons.IH [OF this] show ?case using Cons.prems by (cases e) (auto simp: apply_inc_def nth_list_update)
qed simp

lemma apply_incs_succ:
  "i < length (ib_succ ib) \<Longrightarrow> ib_succ (foldl (apply_inc v) ib l) ! i = ib_succ ib ! i - word_of_nat (length (filter (\<lambda>e. snd e = i) l))"
proof (induction l arbitrary: ib)
  case (Cons e l)
  have "i < length (ib_succ (apply_inc v ib e))" using Cons.prems by (simp add: apply_inc_def split: prod.split)
  from Cons.IH [OF this] show ?case using Cons.prems by (cases e) (auto simp: apply_inc_def nth_list_update)
qed simp

lemma pending_count:
  assumes "distinct l" and "set l = pending ds n s" and "i < length ds" and "offs ds (Suc i) \<le> n"
  shows "length (filter (\<lambda>e. snd e = i) l)
    = card {k. k < length (do_succ_ids (ds ! i)) \<and> do_succ_ids (ds ! i) ! k = s \<and> do_is_counter (ds ! i) \<and> unseen ds i s}"
proof -
  let ?K = "{k. k < length (do_succ_ids (ds ! i)) \<and> do_succ_ids (ds ! i) ! k = s \<and> do_is_counter (ds ! i) \<and> unseen ds i s}"
  have "set (filter (\<lambda>e. snd e = i) l) = (\<lambda>k. (offs ds i + k, i)) ` ?K"
    using assms(3,4) offs_Suc [OF assms(3)] by (force simp: assms(2) pending_def sub_at_def)
  then have "card ((\<lambda>k. (offs ds i + k, i)) ` ?K) = length (filter (\<lambda>e. snd e = i) l)"
    using distinct_card [of "filter (\<lambda>e. snd e = i) l"] assms(1) by simp
  moreover have "inj_on (\<lambda>k. (offs ds i + k, i)) ?K" by (auto simp: inj_on_def)
  ultimately show ?thesis by (simp add: card_image)
qed

lemma resolved_snoc:
  assumes "i < length ds"
  shows "card (resolved (ds @ [d]) i) = card (resolved ds i) + (if do_get_increment_value d = None then 0
    else card {k. k < length (do_succ_ids (ds ! i)) \<and> do_succ_ids (ds ! i) ! k = do_id d \<and> do_is_counter (ds ! i) \<and> unseen ds i (do_id d)})"
proof -
  let ?K = "{k. k < length (do_succ_ids (ds ! i)) \<and> do_succ_ids (ds ! i) ! k = do_id d \<and> do_is_counter (ds ! i) \<and> unseen ds i (do_id d)}"
  have "resolved (ds @ [d]) i = resolved ds i \<union> (if do_get_increment_value d = None then {} else ?K)"
    using assms by (auto simp: resolved_def inc_at_snoc nth_append inc_at_unseen split: if_splits)
  moreover have "resolved ds i \<inter> ?K = {}" by (auto simp: resolved_def inc_at_unseen)
  moreover have "finite (resolved ds i)" "finite ?K" by (simp_all add: resolved_def)
  ultimately show ?thesis by (simp add: card_Un_disjoint)
qed

subsection \<open>A row\<close>

definition ib_push :: "(doc_op \<Rightarrow> nat) \<Rightarrow> doc_op \<Rightarrow> index_builder \<Rightarrow> index_builder" where
  "ib_push width d ib = ib\<lparr>ib_marks := ib_marks ib @ [do_mark_index d], ib_succ := ib_succ ib @ [vis_num d],
     ib_top := ib_top ib @ [False], ib_widths := ib_widths ib @ [width d], ib_counters := (ib_counters ib)(do_id d := None)\<rparr>"

definition ib_count :: "doc_op \<Rightarrow> (nat \<times> nat) list \<Rightarrow> index_builder \<Rightarrow> index_builder" where
  "ib_count d l ib = (case do_get_increment_value d of Some v \<Rightarrow> foldl (apply_inc v) ib l | None \<Rightarrow> ib)"

definition ib_note :: "doc_op \<Rightarrow> index_builder \<Rightarrow> index_builder" where
  "ib_note d ib = (case do_obj_info d of Some info \<Rightarrow> ib\<lparr>ib_obj_info := (ib_obj_info ib)(do_id d \<mapsto> info)\<rparr> | None \<Rightarrow> ib)"

lemma ib_process_op_eq: "ib_process_op width ib d = ib_note d (ib_count d (clist ib (do_id d)) (ib_push width d ib))"
  by (simp add: ib_process_op_def ib_note_def ib_count_def ib_push_def clist_def Let_def cong: option.case_cong split: option.split)

lemma ib_note_sel [simp]:
  "ib_incs (ib_note d ib) = ib_incs ib" "ib_succ (ib_note d ib) = ib_succ ib" "ib_top (ib_note d ib) = ib_top ib"
  "ib_counters (ib_note d ib) = ib_counters ib" "ib_last_flush (ib_note d ib) = ib_last_flush ib"
  by (simp_all add: ib_note_def split: option.split)

lemma ib_count_sel [simp]:
  "length (ib_incs (ib_count d l ib)) = length (ib_incs ib)" "length (ib_succ (ib_count d l ib)) = length (ib_succ ib)"
  "ib_top (ib_count d l ib) = ib_top ib" "ib_counters (ib_count d l ib) = ib_counters ib"
  "ib_last_flush (ib_count d l ib) = ib_last_flush ib"
  by (simp_all add: ib_count_def apply_incs split: option.split)

lemma process_op_sel [simp]:
  "length (ib_incs (ib_process_op width ib d)) = length (ib_incs ib)"
  "length (ib_succ (ib_process_op width ib d)) = Suc (length (ib_succ ib))"
  "ib_top (ib_process_op width ib d) = ib_top ib @ [False]" "ib_last_flush (ib_process_op width ib d) = ib_last_flush ib"
  by (simp_all add: ib_process_op_eq ib_push_def)

lemma process_op_clist: "clist (ib_process_op width ib d) s = (if s = do_id d then [] else clist ib s)"
  by (simp add: ib_process_op_eq clist_def ib_push_def)

lemma process_op_incs:
  "p < length (ib_incs ib) \<Longrightarrow> ib_incs (ib_process_op width ib d) ! p
    = (if p \<in> fst ` set (clist ib (do_id d)) \<and> do_get_increment_value d \<noteq> None then do_get_increment_value d else ib_incs ib ! p)"
  by (auto simp: ib_process_op_eq ib_count_def ib_push_def apply_incs_incs split: option.split)

lemma process_op_succ:
  "i \<le> length (ib_succ ib) \<Longrightarrow> ib_succ (ib_process_op width ib d) ! i = (ib_succ ib @ [vis_num d]) ! i
    - (if do_get_increment_value d = None then 0 else word_of_nat (length (filter (\<lambda>e. snd e = i) (clist ib (do_id d)))))"
  by (auto simp: ib_process_op_eq ib_count_def ib_push_def apply_incs_succ split: option.split)

lemma resolved_last: "resolved (ds @ [d]) (length ds) = {}"
  by (auto simp: resolved_def inc_at_def)

lemma pending_fst:
  assumes "sub_at ds p i k s" and "p < n"
  shows "p \<in> fst ` pending ds n x \<longleftrightarrow> x = s \<and> do_is_counter (ds ! i) \<and> unseen ds i s"
proof
  assume "p \<in> fst ` pending ds n x"
  then obtain j l where j: "sub_at ds p j l x" "do_is_counter (ds ! j)" "unseen ds j x" by (auto simp: pending_def)
  then show "x = s \<and> do_is_counter (ds ! i) \<and> unseen ds i s" using sub_at_unique [OF assms(1) j(1)] by simp
next
  assume "x = s \<and> do_is_counter (ds ! i) \<and> unseen ds i s"
  then have "(p, i) \<in> pending ds n x" using assms by (auto simp: pending_def)
  then show "p \<in> fst ` pending ds n x" by force
qed

lemma process_op_inv:
  assumes inv: "ib_inv ds ib" and n: "length (ib_incs ib) = offs ds (length ds)"
  shows "ib_inv (ds @ [d]) (ib_process_op width ib d)"
proof -
  let ?n = "length (ib_incs ib)" and ?l = "clist ib (do_id d)"
  from inv have len: "length (ib_succ ib) = length ds" "length (ib_top ib) = length ds"
    and l: "\<And>s. distinct (clist ib s)" "\<And>s. set (clist ib s) = pending ds ?n s"
    and su: "\<And>i. i < length ds \<Longrightarrow> ib_succ ib ! i = vis_num (ds ! i) - word_of_nat (card (resolved ds i))"
    and inc: "\<And>p i k s. p < ?n \<Longrightarrow> sub_at ds p i k s \<Longrightarrow> ib_incs ib ! p = inc_at ds i s"
    by (auto simp: ib_inv_def)
  have "ib_succ (ib_process_op width ib d) ! i = vis_num ((ds @ [d]) ! i) - word_of_nat (card (resolved (ds @ [d]) i))"
    if i: "i < Suc (length ds)" for i
  proof (cases "i < length ds")
    case True
    then have "offs ds (Suc i) \<le> ?n" using offs_mono [of "Suc i" "length ds" ds] by (simp add: n)
    from pending_count [OF l(1) l(2) True this] True show ?thesis
      by (simp add: process_op_succ len nth_append su resolved_snoc)
  next
    case False
    then have i: "i = length ds" using i by simp
    have "filter (\<lambda>e. snd e = i) ?l = []" by (auto simp: i filter_empty_conv l pending_def sub_at_def)
    then show ?thesis using i by (simp add: process_op_succ len nth_append resolved_last)
  qed
  moreover have "ib_incs (ib_process_op width ib d) ! p = inc_at (ds @ [d]) i s" if p: "p < ?n" and s: "sub_at (ds @ [d]) p i k s" for p i k s
  proof -
    have i: "i < length ds" using s sub_at_last [of ds d p k s] p n by (cases "i = length ds") (auto simp: sub_at_def)
    with s have s': "sub_at ds p i k s" by (simp add: sub_at_snoc)
    show ?thesis using p inc [OF p s'] inc_at_unseen [of ds i s]
      by (auto simp: process_op_incs l pending_fst [OF s' p] inc_at_snoc [OF i])
  qed
  ultimately show ?thesis using l by (auto simp: ib_inv_def len process_op_clist pending_snoc [OF n])
qed

subsection \<open>Its successors\<close>

lemma unseen_last: "unseen ds (length ds - 1) s"
  by (auto simp: unseen_def)

lemma pending_next:
  assumes s: "sub_at ds n (length ds - 1) k s"
  shows "pending ds (Suc n) x = pending ds n x \<union> (if x = s \<and> do_is_counter (last ds) then {(n, length ds - 1)} else {})"
proof -
  have l: "last ds = ds ! (length ds - 1)" using s by (intro last_conv_nth) (auto simp: sub_at_def)
  have "(p, i) \<in> pending ds (Suc n) x \<longleftrightarrow> (p, i) \<in> pending ds n x \<or> (p = n \<and> (p, i) \<in> pending ds (Suc n) x)" for p i
    by (auto simp: pending_def)
  moreover have "(n, i) \<in> pending ds (Suc n) x \<longleftrightarrow> x = s \<and> do_is_counter (last ds) \<and> i = length ds - 1" for i
  proof
    assume "(n, i) \<in> pending ds (Suc n) x"
    then obtain m where m: "sub_at ds n i m x" "do_is_counter (ds ! i)" by (auto simp: pending_def)
    then show "x = s \<and> do_is_counter (last ds) \<and> i = length ds - 1" using sub_at_unique [OF s m(1)] l by simp
  next
    assume "x = s \<and> do_is_counter (last ds) \<and> i = length ds - 1"
    then show "(n, i) \<in> pending ds (Suc n) x" using s l unseen_last by (auto simp: pending_def)
  qed
  ultimately show ?thesis by auto
qed

lemma process_succ_inv:
  assumes inv: "ib_inv ds ib" and s: "sub_at ds (length (ib_incs ib)) (length ds - 1) k s"
  shows "ib_inv ds (ib_process_succ (do_is_counter (last ds)) ib s)"
proof -
  let ?n = "length (ib_incs ib)" and ?ib = "ib_process_succ (do_is_counter (last ds)) ib s"
  have sel: "ib_succ ?ib = ib_succ ib" "ib_top ?ib = ib_top ib" "ib_incs ?ib = ib_incs ib @ [None]"
    by (simp_all add: ib_process_succ_def)
  have c: "clist ?ib x = clist ib x @ (if x = s \<and> do_is_counter (last ds) then [(?n, length (ib_succ ib) - 1)] else [])" for x
    by (simp add: ib_process_succ_def clist_def)
  have l: "set (clist ib x) = pending ds ?n x" "distinct (clist ib x)" and ls: "length (ib_succ ib) = length ds" for x
    using inv by (simp_all add: ib_inv_def)
  have n: "(?n, i) \<notin> pending ds ?n x" for i x by (simp add: pending_def)
  have "(ib_incs ib @ [None]) ! p = inc_at ds i x" if p: "p < Suc ?n" and x: "sub_at ds p i m x" for p i m x
  proof (cases "p < ?n")
    case True
    then show ?thesis using inv x by (auto simp: ib_inv_def nth_append)
  next
    case False
    then have p: "p = ?n" using p by simp
    then have "i = length ds - 1" using sub_at_unique [OF s] x by simp
    then show ?thesis using inc_at_unseen [OF unseen_last] p by (simp add: nth_append)
  qed
  moreover have "distinct (clist ?ib x) \<and> set (clist ?ib x) = pending ds (Suc ?n) x" for x
  proof (cases "x = s \<and> do_is_counter (last ds)")
    case True
    then show ?thesis using n l unfolding c pending_next [OF s] if_P [OF True] ls by simp
  next
    case False
    then show ?thesis using l unfolding c pending_next [OF s] if_not_P [OF False] by simp
  qed
  ultimately show ?thesis using inv by (simp add: ib_inv_def sel)
qed

end
