(* ===== verification/Index_Load.thy ===== *)
theory Index_Load
  imports Index_Inv
begin

text \<open>
  What loading leaves in the indexes: the visible rows, the increments and the widths are those of the rows
  with their increments; the top rows are the last visible ones of their groups, and pass the check.
\<close>

subsection \<open>All rows\<close>

lemma process_succ_sel [simp]:
  "ib_succ (ib_process_succ b ib s) = ib_succ ib" "ib_top (ib_process_succ b ib s) = ib_top ib"
  "ib_last_flush (ib_process_succ b ib s) = ib_last_flush ib" "ib_incs (ib_process_succ b ib s) = ib_incs ib @ [None]"
  "ib_widths (ib_process_succ b ib s) = ib_widths ib" "ib_marks (ib_process_succ b ib s) = ib_marks ib"
  by (simp_all add: ib_process_succ_def)

lemma process_succs_sel [simp]:
  "ib_succ (foldl (ib_process_succ b) ib l) = ib_succ ib" "ib_top (foldl (ib_process_succ b) ib l) = ib_top ib"
  "ib_last_flush (foldl (ib_process_succ b) ib l) = ib_last_flush ib"
  "length (ib_incs (foldl (ib_process_succ b) ib l)) = length (ib_incs ib) + length l"
  "ib_widths (foldl (ib_process_succ b) ib l) = ib_widths ib" "ib_marks (foldl (ib_process_succ b) ib l) = ib_marks ib"
  by (induction l arbitrary: ib) simp_all

lemma process_succs_inv:
  assumes "ds \<noteq> []"
  shows "ib_inv ds ib \<Longrightarrow> do_succ_ids (last ds) = p @ l \<Longrightarrow> length (ib_incs ib) = offs ds (length ds - 1) + length p \<Longrightarrow>
    ib_inv ds (foldl (ib_process_succ (do_is_counter (last ds))) ib l)"
proof (induction l arbitrary: ib p)
  case (Cons s l)
  have "sub_at ds (length (ib_incs ib)) (length ds - 1) (length p) s"
    using Cons.prems assms by (simp add: sub_at_def last_conv_nth)
  from process_succ_inv [OF Cons.prems(1) this] show ?case
    using Cons.IH [of "ib_process_succ (do_is_counter (last ds)) ib s" "p @ [s]"] Cons.prems(2,3) by simp
qed simp

lemma flush_loop_length [simp]: "length (flush_loop len delta ss tops) = length tops"
  by (induction ss arbitrary: delta) simp_all

lemma flush_sel [simp]:
  "ib_succ (ib_flush ib) = ib_succ ib" "ib_incs (ib_flush ib) = ib_incs ib" "ib_counters (ib_flush ib) = ib_counters ib"
  "length (ib_top (ib_flush ib)) = length (ib_top ib)" "ib_last_flush (ib_flush ib) = length (ib_succ ib)"
  "ib_widths (ib_flush ib) = ib_widths ib" "ib_marks (ib_flush ib) = ib_marks ib"
  by (simp_all add: ib_flush_def)

lemma flush_inv [simp]: "ib_inv ds (ib_flush ib) = ib_inv ds ib"
  by (simp add: ib_inv_def clist_def)

definition load_state :: "(doc_op \<Rightarrow> nat) \<Rightarrow> doc_op list \<Rightarrow> index_builder \<times> (obj_id \<times> key_ref) option" where
  "load_state width ds = foldl (index_row width) (index_builder_new, None) ds"

lemma load_state_snoc: "load_state width (ds @ [d]) = index_row width (load_state width ds) d"
  by (simp add: load_state_def)

lemma offs_last: "offs (ds @ [d]) (length ds) + length (do_succ_ids d) = offs (ds @ [d]) (Suc (length ds))"
  using offs_Suc [of "length ds" "ds @ [d]"] by simp

lemma index_row_inv:
  assumes "ib_inv ds ib" and "length (ib_incs ib) = offs ds (length ds)"
  shows "ib_inv (ds @ [d]) (fst (index_row width (ib, prev) d))"
    "length (ib_incs (fst (index_row width (ib, prev) d))) = offs (ds @ [d]) (Suc (length ds))"
proof -
  let ?f = "if prev \<noteq> Some (do_group d) then ib_flush ib else ib"
  have f: "ib_inv ds ?f" "length (ib_incs ?f) = offs ds (length ds)" using assms by simp_all
  have e: "fst (index_row width (ib, prev) d) = foldl (ib_process_succ (do_is_counter d)) (ib_process_op width ?f d) (do_succ_ids d)"
    by (simp add: index_row_def Let_def do_succ_ids_def)
  have "length (ib_incs (ib_process_op width ?f d)) = offs (ds @ [d]) (length ds)" using f(2) by (simp add: offs_snoc)
  then show "ib_inv (ds @ [d]) (fst (index_row width (ib, prev) d))"
    "length (ib_incs (fst (index_row width (ib, prev) d))) = offs (ds @ [d]) (Suc (length ds))"
    unfolding e using process_op_inv [OF f, where d = d and width = width] process_succs_inv [of "ds @ [d]" "ib_process_op width ?f d" "[]" "do_succ_ids d"] offs_last
    by simp_all
qed

lemma load_state_inv:
  "ib_inv ds (fst (load_state width ds)) \<and> length (ib_incs (fst (load_state width ds))) = offs ds (length ds)"
proof (induction ds rule: rev_induct)
  case Nil
  then show ?case by (simp add: load_state_def index_builder_new_def ib_inv_def clist_def offs_def pending_def sub_at_def)
next
  case (snoc d ds)
  then show ?case using index_row_inv [of ds "fst (load_state width ds)", where d = d and width = width and prev = "snd (load_state width ds)"]
    by (simp add: load_state_snoc)
qed

lemma load_state_lists: "ib_widths (fst (load_state width ds)) = map width ds \<and> ib_marks (fst (load_state width ds)) = map do_mark_index ds"
proof (induction ds rule: rev_induct)
  case Nil
  then show ?case by (simp add: load_state_def index_builder_new_def)
next
  case (snoc d ds)
  have "ib_widths (ib_process_op width ib d) = ib_widths ib @ [width d]" "ib_marks (ib_process_op width ib d) = ib_marks ib @ [do_mark_index d]" for ib
    by (simp_all add: ib_process_op_eq ib_note_def ib_count_def ib_push_def apply_incs split: option.split)
  then show ?case using snoc by (cases "load_state width ds") (simp add: load_state_snoc index_row_def Let_def)
qed

subsection \<open>Visible rows and increments\<close>

lemma row_count_zero:
  assumes "length (do_succ (ds ! i)) < 2 ^ 32 - 1"
  shows "vis_num (ds ! i) - word_of_nat (card (resolved ds i)) = 0 \<longleftrightarrow> do_visible (loaded_row ds i)"
proof -
  let ?n = "length (do_succ_ids (ds ! i))"
  have n: "?n < 2 ^ 32 - 1" "length (do_succ (ds ! i)) = ?n" using assms by (simp_all add: do_succ_ids_def)
  have sub: "resolved ds i \<subseteq> {..< ?n}" by (auto simp: resolved_def)
  then have c: "card (resolved ds i) \<le> ?n" using card_mono [OF finite_lessThan sub] by simp
  have all: "card (resolved ds i) = ?n \<longleftrightarrow> (\<forall>s \<in> set (do_succ_ids (ds ! i)). inc_at ds i s \<noteq> None)"
  proof -
    have "card (resolved ds i) = ?n \<longleftrightarrow> resolved ds i = {..< ?n}" 
    proof
      assume "card (resolved ds i) = ?n"
      then show "resolved ds i = {..< ?n}" by (intro card_subset_eq [OF finite_lessThan sub]) simp
    qed simp
    also have "\<dots> \<longleftrightarrow> (\<forall>k < ?n. inc_at ds i (do_succ_ids (ds ! i) ! k) \<noteq> None)" unfolding resolved_def by blast
    also have "\<dots> \<longleftrightarrow> (\<forall>s \<in> set (do_succ_ids (ds ! i)). inc_at ds i s \<noteq> None)" by (simp only: all_set_conv_all_nth)
    finally show ?thesis .
  qed
  have w: "word_of_nat a = (word_of_nat b :: u32) \<longleftrightarrow> a = b" if "a < 2 ^ 32" "b < 2 ^ 32" for a b
  proof
    have u: "unat (word_of_nat k :: u32) = k" if "k < 2 ^ 32" for k using that by (simp add: unat_of_nat)
    assume "word_of_nat a = (word_of_nat b :: u32)"
    then have "unat (word_of_nat a :: u32) = unat (word_of_nat b :: u32)" by simp
    then show "a = b" unfolding u [OF that(1)] u [OF that(2)] .
  qed simp
  show ?thesis
  proof (cases "do_action (ds ! i) = Increment")
    case True
    have m: "(- 1 :: u32) = word_of_nat (2 ^ 32 - 1)" by simp
    have "\<not> ((- 1 :: u32) - word_of_nat (card (resolved ds i)) = 0)"
      unfolding m right_minus_eq using w [of "2 ^ 32 - 1" "card (resolved ds i)"] c n(1) by simp
    then show ?thesis using True by (simp add: vis_num_def loaded_visible)
  next
    case False
    then have "vis_num (ds ! i) - word_of_nat (card (resolved ds i)) = 0 \<longleftrightarrow> ?n = card (resolved ds i)"
      using w [of ?n "card (resolved ds i)"] c n by (simp add: vis_num_def)
    then show ?thesis using False all by (auto simp: loaded_visible)
  qed
qed

lemma finish_sel:
  "ix_visible (load_indexes width ds) = map (\<lambda>n. n = 0) (ib_succ (fst (load_state width ds)))"
  "ix_text (load_indexes width ds) = map2 (\<lambda>w t. if t = 0 then Some w else None) (ib_widths (fst (load_state width ds))) (ib_succ (fst (load_state width ds)))"
  "ix_inc (load_indexes width ds) = ib_incs (fst (load_state width ds))" "ix_mark (load_indexes width ds) = ib_marks (fst (load_state width ds))"
  "ix_top (load_indexes width ds) = ib_top (ib_flush (fst (load_state width ds)))"
  by (simp_all add: load_indexes_def load_state_def ib_finish_def Let_def)

lemma concat_parts:
  assumes "n \<le> length ds"
  shows "length xs = offs ds n \<Longrightarrow> (\<And>i k. i < n \<Longrightarrow> k < length (do_succ_ids (ds ! i)) \<Longrightarrow> xs ! (offs ds i + k) = f i (do_succ_ids (ds ! i) ! k)) \<Longrightarrow>
    xs = concat (map (\<lambda>i. map (f i) (do_succ_ids (ds ! i))) [0 ..< n])"
  using assms
proof (induction n arbitrary: xs)
  case 0
  then show ?case by (simp add: offs_def)
next
  case (Suc n)
  have o: "offs ds (Suc n) = offs ds n + length (do_succ_ids (ds ! n))" using Suc.prems(3) by (simp add: offs_Suc)
  have "take (offs ds n) xs = concat (map (\<lambda>i. map (f i) (do_succ_ids (ds ! i))) [0 ..< n])"
  proof (rule Suc.IH)
    fix i k assume i: "i < n" "k < length (do_succ_ids (ds ! i))"
    then have "offs ds i + k < offs ds n" using offs_mono [of "Suc i" n ds] offs_Suc [of i ds] Suc.prems(3) by simp
    then show "take (offs ds n) xs ! (offs ds i + k) = f i (do_succ_ids (ds ! i) ! k)" using Suc.prems(2) [of i k] i by simp
  qed (use Suc.prems(1,3) o in simp_all)
  moreover have "drop (offs ds n) xs = map (f n) (do_succ_ids (ds ! n))"
    using Suc.prems(1,2) o by (intro nth_equalityI) simp_all
  moreover have "xs = take (offs ds n) xs @ drop (offs ds n) xs" by simp
  ultimately show ?case by simp
qed

text \<open>C8: After the rows of a document have been loaded, a row is visible in the index exactly when it is visible
  with its increments: a counter whose successors are all increments that follow it, any other row without
  successors, and no increment; the column of increments holds, for each successor of each row, the value of
  the increment that it is; the text index holds the widths of the visible rows.  The counts of successors
  wrap at 32 bits, so a row has to have less than \<open>2 ^ 32 - 1\<close> of them.\<close>

theorem load_visible:
  assumes "\<And>d. d \<in> set ds \<Longrightarrow> length (do_succ d) < 2 ^ 32 - 1"
  shows "ix_visible (load_indexes width ds) = map (\<lambda>i. do_visible (loaded_row ds i)) [0 ..< length ds]
    \<and> ix_inc (load_indexes width ds) = concat (map (\<lambda>i. map snd (do_succ (loaded_row ds i))) [0 ..< length ds])
    \<and> ix_text (load_indexes width ds) = map (\<lambda>i. if do_visible (loaded_row ds i) then Some (width (ds ! i)) else None) [0 ..< length ds]
    \<and> ix_mark (load_indexes width ds) = map do_mark_index ds"
proof -
  let ?ib = "fst (load_state width ds)"
  have inv: "ib_inv ds ?ib" and n: "length (ib_incs ?ib) = offs ds (length ds)" using load_state_inv by blast+
  have l: "length (ib_succ ?ib) = length ds" using inv by (simp add: ib_inv_def)
  have z: "ib_succ ?ib ! i = 0 \<longleftrightarrow> do_visible (loaded_row ds i)" if "i < length ds" for i
    using inv row_count_zero [of ds i] assms that by (simp add: ib_inv_def)
  have "map (\<lambda>n. n = 0) (ib_succ ?ib) = map (\<lambda>i. do_visible (loaded_row ds i)) [0 ..< length ds]"
    by (intro nth_equalityI) (simp_all add: l z)
  moreover have "map2 (\<lambda>w t. if t = 0 then Some w else None) (map width ds) (ib_succ ?ib)
      = map (\<lambda>i. if do_visible (loaded_row ds i) then Some (width (ds ! i)) else None) [0 ..< length ds]"
    by (intro nth_equalityI) (simp_all add: l z)
  moreover have "ib_incs ?ib = concat (map (\<lambda>i. map (inc_at ds i) (do_succ_ids (ds ! i))) [0 ..< length ds])"
  proof (rule concat_parts [OF order_refl n])
    fix i k assume i: "i < length ds" "k < length (do_succ_ids (ds ! i))"
    then have "offs ds i + k < length (ib_incs ?ib)" using offs_mono [of "Suc i" "length ds" ds] offs_Suc [of i ds] by (simp add: n)
    then show "ib_incs ?ib ! (offs ds i + k) = inc_at ds i (do_succ_ids (ds ! i) ! k)"
      using inv i by (auto simp: ib_inv_def sub_at_def)
  qed
  ultimately show ?thesis using load_state_lists [of width ds] by (simp add: finish_sel loaded_row_def comp_def)
qed

text \<open>A counter with an increment.\<close>

definition count_row :: "u32 \<Rightarrow> action \<Rightarrow> scalar_value \<Rightarrow> op_id list \<Rightarrow> doc_op" where
  "count_row i a v ss = \<lparr>do_pos = 0, do_id = OpId i 0, do_action = a, do_obj = obj_root, do_key = MapKey [1], do_insert = False,
     do_value = v, do_expand = False, do_mark_name = None, do_succ = map (\<lambda>s. (s, None)) ss, do_sub_pos = 0\<rparr>"

definition count_doc :: "doc_op list" where
  "count_doc = [count_row 1 SetAction (SvCounter 5) [OpId 2 0], count_row 2 Increment (SvInt 3) []]"

lemma count_doc_rows:
  "do_visible (loaded_row count_doc 0)" "\<not> do_visible (loaded_row count_doc (Suc 0))"
  "map snd (do_succ (loaded_row count_doc 0)) = [Some 3]" "map snd (do_succ (loaded_row count_doc (Suc 0))) = []"
  "d \<in> set count_doc \<Longrightarrow> length (do_succ d) < 2 ^ 32 - 1"
  by (auto simp: count_doc_def count_row_def loaded_row_def do_visible_def do_is_counter_def do_succ_ids_def inc_at_def do_get_increment_value_def)

theorem load_visible_witness:
  "ix_visible (load_indexes (\<lambda>_. 1) count_doc) = [True, False] \<and> ix_inc (load_indexes (\<lambda>_. 1) count_doc) = [Some 3]
    \<and> ix_text (load_indexes (\<lambda>_. 1) count_doc) = [Some 1, None]"
proof -
  have l: "[0 ..< length count_doc] = [0, Suc 0]" by (simp add: count_doc_def)
  show ?thesis using load_visible [where ds = count_doc and width = "\<lambda>_. 1", OF count_doc_rows(5)] unfolding l by (simp add: count_doc_rows)
qed

end
