(* ===== verification/Index_Top.thy ===== *)
theory Index_Top
  imports Index_Load
begin

text \<open>
  The index of top rows after loading: the flush at the end of each group of rows marks the last visible one.
\<close>

subsection \<open>The rows of a document\<close>

text \<open>Rows of the same key of an object, or of the same element, stand together; an increment is among the rows of its counter.\<close>

definition groups_together :: "doc_op list \<Rightarrow> bool" where
  "groups_together ds \<longleftrightarrow> (\<forall>i j k. i \<le> j \<longrightarrow> j \<le> k \<longrightarrow> k < length ds \<longrightarrow> do_group (ds ! i) = do_group (ds ! k) \<longrightarrow> do_group (ds ! j) = do_group (ds ! i))"

definition incs_in_group :: "doc_op list \<Rightarrow> bool" where
  "incs_in_group ds \<longleftrightarrow> (\<forall>i j. i < j \<longrightarrow> j < length ds \<longrightarrow> do_is_counter (ds ! i) \<longrightarrow> do_id (ds ! j) \<in> set (do_succ_ids (ds ! i)) \<longrightarrow>
     do_get_increment_value (ds ! j) \<noteq> None \<longrightarrow> do_group (ds ! j) = do_group (ds ! i))"

lemma groups_prefix: "groups_together (ds @ [d]) \<Longrightarrow> groups_together ds"
  unfolding groups_together_def
proof (intro allI impI)
  fix i j k
  assume g: "\<forall>i j k. i \<le> j \<longrightarrow> j \<le> k \<longrightarrow> k < length (ds @ [d]) \<longrightarrow> do_group ((ds @ [d]) ! i) = do_group ((ds @ [d]) ! k) \<longrightarrow>
      do_group ((ds @ [d]) ! j) = do_group ((ds @ [d]) ! i)"
    and k: "i \<le> j" "j \<le> k" "k < length ds" "do_group (ds ! i) = do_group (ds ! k)"
  then show "do_group (ds ! j) = do_group (ds ! i)"
    using g [THEN spec, THEN spec, THEN spec, of i j k] by (simp add: nth_append)
qed

lemma incs_prefix: "incs_in_group (ds @ [d]) \<Longrightarrow> incs_in_group ds"
  unfolding incs_in_group_def
proof (intro allI impI)
  fix i j
  assume g: "\<forall>i j. i < j \<longrightarrow> j < length (ds @ [d]) \<longrightarrow> do_is_counter ((ds @ [d]) ! i) \<longrightarrow> do_id ((ds @ [d]) ! j) \<in> set (do_succ_ids ((ds @ [d]) ! i)) \<longrightarrow>
      do_get_increment_value ((ds @ [d]) ! j) \<noteq> None \<longrightarrow> do_group ((ds @ [d]) ! j) = do_group ((ds @ [d]) ! i)"
    and k: "i < j" "j < length ds" "do_is_counter (ds ! i)" "do_id (ds ! j) \<in> set (do_succ_ids (ds ! i))" "do_get_increment_value (ds ! j) \<noteq> None"
  then show "do_group (ds ! j) = do_group (ds ! i)" using g [THEN spec, THEN spec, of i j] by (simp add: nth_append)
qed

lemma groups_last:
  assumes "groups_together (ds @ [d])" and "ds \<noteq> []" and "do_group (last ds) \<noteq> do_group d" and i: "i < length ds"
  shows "do_group (ds ! i) \<noteq> do_group d"
proof
  assume e: "do_group (ds ! i) = do_group d"
  let ?ds = "ds @ [d]" and ?j = "length ds - 1"
  have g: "i \<le> ?j \<Longrightarrow> ?j \<le> length ds \<Longrightarrow> length ds < length ?ds \<Longrightarrow> do_group (?ds ! i) = do_group (?ds ! length ds) \<Longrightarrow> do_group (?ds ! ?j) = do_group (?ds ! i)"
    using assms(1) unfolding groups_together_def by blast
  have "?ds ! ?j = last ds" using assms(2) by (simp add: nth_append last_conv_nth)
  moreover have "?ds ! i = ds ! i" using i by (simp add: nth_append)
  ultimately have "do_group (last ds) = do_group (ds ! i)" using g i e by simp
  then show False using assms(3) e by simp
qed

subsection \<open>Top rows\<close>

definition row_zero :: "doc_op list \<Rightarrow> nat \<Rightarrow> bool" where
  "row_zero ds i \<longleftrightarrow> vis_num (ds ! i) - word_of_nat (card (resolved ds i)) = 0"

definition last_zero :: "doc_op list \<Rightarrow> nat \<Rightarrow> bool" where
  "last_zero ds j \<longleftrightarrow> row_zero ds j \<and> (\<forall>k. j < k \<longrightarrow> k < length ds \<longrightarrow> do_group (ds ! k) = do_group (ds ! j) \<longrightarrow> \<not> row_zero ds k)"

lemma row_zero_snoc:
  assumes g: "incs_in_group (ds @ [d])" and i: "i < length ds" and n: "do_group (ds ! i) \<noteq> do_group d"
  shows "row_zero (ds @ [d]) i = row_zero ds i"
proof -
  have e: "(ds @ [d]) ! i = ds ! i" using i by (simp add: nth_append)
  let ?K = "{k. k < length (do_succ_ids (ds ! i)) \<and> do_succ_ids (ds ! i) ! k = do_id d \<and> do_is_counter (ds ! i) \<and> unseen ds i (do_id d)}"
  have "?K = {}" if v: "do_get_increment_value d \<noteq> None"
  proof (rule ccontr)
    assume "?K \<noteq> {}"
    then have c: "do_is_counter (ds ! i)" "do_id d \<in> set (do_succ_ids (ds ! i))" by (auto simp: in_set_conv_nth)
    have "do_group ((ds @ [d]) ! length ds) = do_group ((ds @ [d]) ! i)"
      using g [unfolded incs_in_group_def, THEN spec, THEN spec, of i "length ds"] c v i e by simp
    then show False using n e by simp
  qed
  then have "card (resolved (ds @ [d]) i) = card (resolved ds i)" unfolding resolved_snoc [OF i] by (auto split: if_splits)
  then show ?thesis by (simp add: row_zero_def e)
qed

lemma last_zero_snoc:
  assumes g: "incs_in_group (ds @ [d])" and j: "j < length ds" and n: "do_group (ds ! j) \<noteq> do_group d"
  shows "last_zero (ds @ [d]) j = last_zero ds j"
proof -
  have z: "row_zero (ds @ [d]) k = row_zero ds k" if "k < length ds" "do_group (ds ! k) = do_group (ds ! j)" for k
    using row_zero_snoc [OF g that(1)] that(2) n by simp
  have "k < length (ds @ [d]) \<and> do_group ((ds @ [d]) ! k) = do_group ((ds @ [d]) ! j) \<longleftrightarrow> k < length ds \<and> do_group (ds ! k) = do_group (ds ! j)" for k
    using j n by (cases "k = length ds") (auto simp: nth_append)
  then show ?thesis unfolding last_zero_def using z j by blast
qed

subsection \<open>The flush\<close>

lemma flush_loop_marks:
  assumes "length tops = n"
  shows "m \<le> n \<Longrightarrow> length ss = m - g \<Longrightarrow> (\<And>k. k < m - g \<Longrightarrow> ss ! k = rev (take m su) ! k) \<Longrightarrow> length su = n \<Longrightarrow> g \<le> m \<Longrightarrow> j < n \<Longrightarrow>
    flush_loop n (n - m) ss tops ! j = (if g \<le> j \<and> j < m \<and> su ! j = (0 :: u32) \<and> (\<forall>k. j < k \<longrightarrow> k < m \<longrightarrow> su ! k \<noteq> 0) then True else tops ! j)"
proof (induction ss arbitrary: m)
  case (Cons s ss)
  then obtain q where m: "m = Suc q" by (cases m) auto
  have s: "s = su ! q" using Cons.prems(3) [of 0] Cons.prems(1,2,4) by (simp add: m rev_nth min_def)
  have q: "n - Suc q = n - q - 1" "n - (n - m) - 1 = q" using Cons.prems(1) m by simp_all
  show ?case
  proof (cases "s = 0")
    case True
    have "g \<le> q" using Cons.prems(2) m by simp
    then show ?thesis using True s q(2) Cons.prems(1,6) assms by (auto simp: m nth_list_update less_Suc_eq)
  next
    case False
    have t: "ss ! k = rev (take q su) ! k" if "k < q - g" for k
      using Cons.prems(3) [of "Suc k"] that Cons.prems(1,4) by (simp add: m rev_nth)
    have "n - m + 1 = n - q" using Cons.prems(1) m by simp
    moreover have "length ss = q - g" "g \<le> q" using Cons.prems(2) m by simp_all
    ultimately show ?thesis using False Cons.IH [of q] Cons.prems(1,4,6) t s by (auto simp: m less_Suc_eq)
  qed
qed (auto)

lemma flush_marks:
  assumes "length (ib_top ib) = length (ib_succ ib)" and "ib_last_flush ib \<le> length (ib_succ ib)" and "j < length (ib_succ ib)"
  shows "ib_top (ib_flush ib) ! j = (if ib_last_flush ib \<le> j \<and> ib_succ ib ! j = 0 \<and> (\<forall>k. j < k \<longrightarrow> k < length (ib_succ ib) \<longrightarrow> ib_succ ib ! k \<noteq> 0)
    then True else ib_top ib ! j)"
proof -
  let ?n = "length (ib_succ ib)" and ?g = "ib_last_flush ib"
  have r: "rev (drop ?g (ib_succ ib)) ! k = rev (take ?n (ib_succ ib)) ! k" if "k < ?n - ?g" for k
    using that by (simp add: rev_nth)
  show ?thesis using flush_loop_marks [OF assms(1), of ?n "rev (drop ?g (ib_succ ib))" ?g "ib_succ ib" j] assms r
    by (simp add: ib_flush_def)
qed

text \<open>What the rows seen so far have left: groups before the last flush are marked.\<close>

definition top_inv :: "doc_op list \<Rightarrow> index_builder \<Rightarrow> (obj_id \<times> key_ref) option \<Rightarrow> bool" where
  "top_inv ds ib prev \<longleftrightarrow> ib_last_flush ib \<le> length ds \<and> prev = (if ds = [] then None else Some (do_group (last ds)))
     \<and> (\<forall>j < length ds. ib_top ib ! j = (j < ib_last_flush ib \<and> last_zero ds j))
     \<and> (\<forall>j < length ds. j < ib_last_flush ib \<longleftrightarrow> do_group (ds ! j) \<noteq> do_group (last ds))"

lemma flush_top:
  assumes inv: "ib_inv ds ib" and top: "top_inv ds ib prev" and j: "j < length ds"
  shows "ib_top (ib_flush ib) ! j = last_zero ds j"
proof -
  let ?g = "ib_last_flush ib"
  have l: "length (ib_succ ib) = length ds" "length (ib_top ib) = length ds" using inv by (simp_all add: ib_inv_def)
  have z: "ib_succ ib ! k = 0 \<longleftrightarrow> row_zero ds k" if "k < length ds" for k using inv that by (simp add: ib_inv_def row_zero_def)
  have g: "?g \<le> length ds" "ib_top ib ! j = (j < ?g \<and> last_zero ds j)" using top j by (simp_all add: top_inv_def)
  have e: "ib_top (ib_flush ib) ! j = (if ?g \<le> j \<and> ib_succ ib ! j = 0 \<and> (\<forall>k. j < k \<longrightarrow> k < length ds \<longrightarrow> ib_succ ib ! k \<noteq> 0) then True else ib_top ib ! j)"
    using flush_marks [of ib j] l g(1) j by simp
  show ?thesis
  proof (cases "?g \<le> j")
    case True
    have s: "do_group (ds ! k) = do_group (ds ! j)" if "j \<le> k" "k < length ds" for k
    proof -
      have "do_group (ds ! i) = do_group (last ds)" if "?g \<le> i" "i < length ds" for i
        using top that unfolding top_inv_def by (meson leD)
      then show ?thesis using that True j by simp
    qed
    have "last_zero ds j \<longleftrightarrow> ib_succ ib ! j = 0 \<and> (\<forall>k. j < k \<longrightarrow> k < length ds \<longrightarrow> ib_succ ib ! k \<noteq> 0)"
      unfolding last_zero_def using z s j less_imp_le by blast
    then show ?thesis using e g(2) True by auto
  qed (use e g(2) in auto)
qed

lemma index_row_top:
  "snd (index_row width (ib, prev) d) = Some (do_group d)"
  "ib_last_flush (fst (index_row width (ib, prev) d)) = (if prev = Some (do_group d) then ib_last_flush ib else length (ib_succ ib))"
  "ib_top (fst (index_row width (ib, prev) d)) = ib_top (if prev = Some (do_group d) then ib else ib_flush ib) @ [False]"
  by (simp_all add: index_row_def Let_def)

lemma top_inv_row:
  assumes inv: "ib_inv ds ib" and top: "top_inv ds ib prev" and g: "groups_together (ds @ [d])" "incs_in_group (ds @ [d])"
  shows "top_inv (ds @ [d]) (fst (index_row width (ib, prev) d)) (snd (index_row width (ib, prev) d))"
proof -
  let ?g = "ib_last_flush ib"
  have l: "length (ib_succ ib) = length ds" "length (ib_top ib) = length ds" using inv by (simp_all add: ib_inv_def)
  have t: "?g \<le> length ds" "prev = (if ds = [] then None else Some (do_group (last ds)))"
    "\<And>j. j < length ds \<Longrightarrow> ib_top ib ! j = (j < ?g \<and> last_zero ds j)"
    "\<And>j. j < length ds \<Longrightarrow> j < ?g \<longleftrightarrow> do_group (ds ! j) \<noteq> do_group (last ds)"
    using top by (auto simp: top_inv_def)
  have nth: "(ds @ [d]) ! j = (if j < length ds then ds ! j else d)" if "j < Suc (length ds)" for j
    using that by (auto simp: nth_append less_Suc_eq)
  show ?thesis
  proof (cases "prev = Some (do_group d)")
    case True
    then have ds: "ds \<noteq> []" "do_group d = do_group (last ds)" using t(2) by (auto split: if_splits)
    then show ?thesis using t last_zero_snoc [OF g(2)] l
      by (auto simp: top_inv_def index_row_top True nth less_Suc_eq nth_append)
  next
    case False
    have n: "do_group (ds ! j) \<noteq> do_group d" if "j < length ds" for j
      using that groups_last [OF g(1) _ _ that] False t(2) by (cases "ds = []") auto
    then show ?thesis using t(1) last_zero_snoc [OF g(2)] l flush_top [OF inv top]
      by (auto simp: top_inv_def index_row_top False nth less_Suc_eq nth_append)
  qed
qed

lemma load_state_top:
  "groups_together ds \<Longrightarrow> incs_in_group ds \<Longrightarrow> top_inv ds (fst (load_state width ds)) (snd (load_state width ds))"
proof (induction ds rule: rev_induct)
  case Nil
  then show ?case by (simp add: load_state_def index_builder_new_def top_inv_def)
next
  case (snoc d ds)
  from snoc.IH [OF groups_prefix [OF snoc.prems(1)] incs_prefix [OF snoc.prems(2)]]
  have "top_inv ds (fst (load_state width ds)) (snd (load_state width ds))" .
  from top_inv_row [OF load_state_inv [THEN conjunct1] this snoc.prems] show ?case by (simp add: load_state_snoc)
qed

subsection \<open>The check\<close>

definition last_seen :: "doc_op list \<Rightarrow> bool list \<Rightarrow> nat \<Rightarrow> nat option \<Rightarrow> bool" where
  "last_seen ds vis n lv \<longleftrightarrow> (case lv of
     None \<Rightarrow> \<forall>k < n. do_group (ds ! k) = do_group (ds ! (n - 1)) \<longrightarrow> \<not> vis ! k
   | Some p \<Rightarrow> p < n \<and> vis ! p \<and> do_group (ds ! p) = do_group (ds ! (n - 1))
       \<and> (\<forall>k. p < k \<longrightarrow> k < n \<longrightarrow> do_group (ds ! k) = do_group (ds ! (n - 1)) \<longrightarrow> \<not> vis ! k))"

definition first_seen :: "bool list \<Rightarrow> nat option \<Rightarrow> nat option" where
  "first_seen tops lv = (case lv of Some p \<Rightarrow> if tops ! p then Some p else None | None \<Rightarrow> None)"

definition tops_of :: "doc_op list \<Rightarrow> bool list \<Rightarrow> bool list \<Rightarrow> bool" where
  "tops_of ds vis tops \<longleftrightarrow> (\<forall>j < length ds. tops ! j =
     (vis ! j \<and> (\<forall>k. j < k \<longrightarrow> k < length ds \<longrightarrow> do_group (ds ! k) = do_group (ds ! j) \<longrightarrow> \<not> vis ! k)))"

lemma group_end_top:
  assumes g: "groups_together ds" and t: "tops_of ds vis tops" and n: "n \<le> length ds" and s: "last_seen ds vis n lv"
    and e: "n = length ds \<or> do_group (ds ! n) \<noteq> do_group (ds ! (n - 1))"
  shows "first_seen tops lv = lv"
proof (cases lv)
  case (Some p)
  then have p: "p < n" "vis ! p" "do_group (ds ! p) = do_group (ds ! (n - 1))"
    "\<And>k. p < k \<Longrightarrow> k < n \<Longrightarrow> do_group (ds ! k) = do_group (ds ! (n - 1)) \<Longrightarrow> \<not> vis ! k"
    using s by (auto simp: last_seen_def)
  have "\<not> vis ! k" if k: "p < k" "k < length ds" "do_group (ds ! k) = do_group (ds ! p)" for k
  proof (cases "k < n")
    case True
    then show ?thesis using p(3,4) k by simp
  next
    case False
    then have "do_group (ds ! n) = do_group (ds ! p)"
      using g [unfolded groups_together_def, THEN spec, THEN spec, THEN spec, of p n k] p(1) k by simp
    then show ?thesis using e False k(2) p(3) by simp
  qed
  then have "tops ! p" using t [unfolded tops_of_def, THEN spec, of p] p(1,2) n by auto
  then show ?thesis by (simp add: first_seen_def Some)
qed (simp add: first_seen_def)

lemma validate_step:
  assumes "is_top \<longrightarrow> vis" and "Some (do_group d) \<noteq> old \<longrightarrow> ft = lv"
    and "ft0 = (if Some (do_group d) \<noteq> old then None else ft)" and "lv0 = (if Some (do_group d) \<noteq> old then None else lv)"
  shows "validate_top_loop old ft lv pos ((is_top, vis, d) # rows) = validate_top_loop (Some (do_group d))
    (if is_top \<and> ft0 = None then Some pos else ft0) (if vis then Some pos else lv0) (pos + 1) rows"
  using assms by (cases "Some (do_group d) = old") auto

lemma validate_loop_ok:
  assumes g: "groups_together ds" and t: "tops_of ds vis tops" and l: "length tops = length ds" "length vis = length ds"
  shows "n \<le> length ds \<Longrightarrow> last_seen ds vis n lv \<Longrightarrow>
    validate_top_loop (if n = 0 then None else Some (do_group (ds ! (n - 1)))) (first_seen tops lv) lv n (drop n (zip tops (zip vis ds))) = Some True"
proof (induction "length ds - n" arbitrary: n lv)
  case 0
  then show ?case using group_end_top [OF g t, of n lv] l by simp
next
  case (Suc m)
  then have n: "n < length ds" by simp
  let ?old = "if n = 0 then None else Some (do_group (ds ! (n - 1)))" and ?cur = "Some (do_group (ds ! n))"
  define lv0 where "lv0 = (if ?cur \<noteq> ?old then None else lv)"
  define lv1 where "lv1 = (if vis ! n then Some n else lv0)"
  have rows: "drop n (zip tops (zip vis ds)) = (tops ! n, vis ! n, ds ! n) # drop (Suc n) (zip tops (zip vis ds))"
    using n l by (subst Cons_nth_drop_Suc [symmetric]) simp_all
  have tn: "tops ! n \<longrightarrow> vis ! n" using t n by (auto simp: tops_of_def)
  have pass: "?cur \<noteq> ?old \<longrightarrow> first_seen tops lv = lv"
    using group_end_top [OF g t _ Suc.prems(2)] n Suc.prems(2) by (cases "n = 0") (auto simp: last_seen_def first_seen_def split: option.splits)
  have seen0: "case lv0 of None \<Rightarrow> \<forall>k < n. do_group (ds ! k) = do_group (ds ! n) \<longrightarrow> \<not> vis ! k
    | Some p \<Rightarrow> p < n \<and> vis ! p \<and> do_group (ds ! p) = do_group (ds ! n) \<and> (\<forall>k. p < k \<longrightarrow> k < n \<longrightarrow> do_group (ds ! k) = do_group (ds ! n) \<longrightarrow> \<not> vis ! k)"
  proof (cases "?cur = ?old")
    case True
    then have "do_group (ds ! (n - 1)) = do_group (ds ! n)" by (auto split: if_splits)
    then show ?thesis using Suc.prems(2) True by (simp add: lv0_def last_seen_def split: option.splits)
  next
    case False
    have "do_group (ds ! k) \<noteq> do_group (ds ! n)" if k: "k < n" for k
      using g [unfolded groups_together_def, THEN spec, THEN spec, THEN spec, of k "n - 1" n] n k False by (auto split: if_splits)
    then show ?thesis using False by (simp add: lv0_def)
  qed
  have seen1: "last_seen ds vis (Suc n) lv1"
    using seen0 by (auto simp: last_seen_def lv1_def less_Suc_eq split: option.splits)
  have f0: "vis ! n \<Longrightarrow> first_seen tops lv0 = None"
    using seen0 t n by (fastforce simp: first_seen_def tops_of_def split: option.splits)
  have f1: "(if tops ! n \<and> first_seen tops lv0 = None then Some n else first_seen tops lv0) = first_seen tops lv1"
    using f0 tn by (auto simp: lv1_def first_seen_def)
  have "validate_top_loop ?old (first_seen tops lv) lv n (drop n (zip tops (zip vis ds)))
      = validate_top_loop ?cur (first_seen tops lv1) lv1 (Suc n) (drop (Suc n) (zip tops (zip vis ds)))"
  proof -
    have "first_seen tops lv0 = (if ?cur \<noteq> ?old then None else first_seen tops lv)" by (simp add: lv0_def first_seen_def)
    note step = validate_step [OF tn pass this lv0_def, where pos = n and rows = "drop (Suc n) (zip tops (zip vis ds))"]
    show ?thesis unfolding rows step unfolding f1 lv1_def [symmetric] Suc_eq_plus1 ..
  qed
  then show ?case using Suc.hyps(1) [of "Suc n" lv1] Suc.hyps(2) n seen1 by simp
qed

text \<open>C9: In a document whose rows stand together by key or element, with every increment among the rows of its
  counter, loading marks as top exactly the last visible row of each key or element, and the consistency check of
  the code (\<open>validate_top_index\<close>) passes.\<close>

theorem load_top:
  assumes s: "\<And>d. d \<in> set ds \<Longrightarrow> length (do_succ d) < 2 ^ 32 - 1" and g: "groups_together ds" and c: "incs_in_group ds"
  shows "ix_top (load_indexes width ds) = map (\<lambda>i. do_visible (loaded_row ds i)
      \<and> (\<forall>k \<in> {i <..< length ds}. do_group (ds ! k) = do_group (ds ! i) \<longrightarrow> \<not> do_visible (loaded_row ds k))) [0 ..< length ds]
    \<and> validate_top_index (load_indexes width ds) ds = Some True"
proof -
  let ?ib = "fst (load_state width ds)" and ?ix = "load_indexes width ds"
  have inv: "ib_inv ds ?ib" using load_state_inv by blast
  have z: "row_zero ds i \<longleftrightarrow> do_visible (loaded_row ds i)" if "i < length ds" for i
    using row_count_zero [of ds i] s that by (simp add: row_zero_def)
  have vis: "ix_visible ?ix = map (\<lambda>i. do_visible (loaded_row ds i)) [0 ..< length ds]"
    using inv by (intro nth_equalityI) (simp_all add: finish_sel ib_inv_def z [symmetric] row_zero_def)
  have l: "length (ix_top ?ix) = length ds" using inv by (simp add: finish_sel ib_inv_def)
  have top: "ix_top ?ix ! j = last_zero ds j" if "j < length ds" for j
    using flush_top [OF inv load_state_top [OF g c] that] by (simp add: finish_sel)
  have "ix_top ?ix = map (\<lambda>i. do_visible (loaded_row ds i)
      \<and> (\<forall>k \<in> {i <..< length ds}. do_group (ds ! k) = do_group (ds ! i) \<longrightarrow> \<not> do_visible (loaded_row ds k))) [0 ..< length ds]"
    by (intro nth_equalityI) (auto simp: l top last_zero_def z)
  moreover have "tops_of ds (ix_visible ?ix) (ix_top ?ix)" by (auto simp: tops_of_def vis top last_zero_def z)
  then have "validate_top_index ?ix ds = Some True"
    using validate_loop_ok [OF g _ l, of "ix_visible ?ix" 0 None] l vis by (simp add: validate_top_index_def last_seen_def first_seen_def)
  ultimately show ?thesis by blast
qed

theorem load_top_witness:
  "ix_top (load_indexes (\<lambda>_. 1) count_doc) = [True, False] \<and> validate_top_index (load_indexes (\<lambda>_. 1) count_doc) count_doc = Some True"
proof -
  have l: "[0 ..< length count_doc] = [0, Suc 0]" "length count_doc = 2" by (simp_all add: count_doc_def)
  have k: "{0 <..< 2} = {Suc 0}" by auto
  have g: "do_group d = (obj_root, MapKey [1])" if "d \<in> set count_doc" for d
    using that by (auto simp: count_doc_def count_row_def do_group_def do_elemid_or_key_def)
  then have "groups_together count_doc" "incs_in_group count_doc" by (simp_all add: groups_together_def incs_in_group_def)
  from load_top [OF count_doc_rows(5) this, where width = "\<lambda>_. 1"] show ?thesis unfolding l(1) by (simp add: count_doc_rows l(2) k)
qed

end
